(* ===== verification/Prelude.thy ===== *)
theory Prelude
  imports
    Main
    "HOL-Library.AList"
    "HOL-Library.Char_ord"
    "HOL-Library.List_Lexorder"
    "HOL-Library.Monad_Syntax"
    "HOL-Library.Multiset"
    "HOL-Library.Sublist"
    "HOL-Library.Word"
begin

text \<open>
  Shared vocabulary of the development: the types every component speaks
  about, the checked slice accesses of Go, the loops the source writes more
  than once, and the generic lemmas about them.

  A Go computation that can fail to return (a slice index out of range panics,
  a loop over links may never end) has an \<open>option\<close> result: \<open>Some\<close> is a normal
  return, \<open>None\<close> is a panic or a loop that never ends.  A theorem that a
  computation equals \<open>Some x\<close> therefore also says that it neither panics nor
  diverges.
\<close>

section \<open>Types\<close>

type_synonym rune = int            \<comment> \<open>Go's \<open>rune\<close> (int32); negative runes are possible\<close>
type_synonym gostring = string     \<comment> \<open>Go's \<open>string\<close>: a list of bytes (8-bit characters)\<close>
type_synonym match = "gostring \<times> int \<times> int"  \<comment> \<open>keyword, start, end (rune offsets)\<close>

named_theorems go_simps \<open>rewrite rules for the checked slice accesses\<close>
named_theorems ac_facts \<open>facts about longest suffixes and output lists\<close>

section \<open>Checked slice accesses\<close>

text \<open>\<open>xs[i]\<close> and \<open>xs[i] = v\<close> of Go: an index out of range panics.\<close>

definition idx :: "'a list \<Rightarrow> nat \<Rightarrow> 'a option" where
  "idx xs i = (if i < length xs then Some (xs ! i) else None)"

definition upd :: "'a list \<Rightarrow> nat \<Rightarrow> 'a \<Rightarrow> 'a list option" where
  "upd xs i v = (if i < length xs then Some (xs[i := v]) else None)"

text \<open>The same with a signed index, where the source keeps \<open>-1\<close> as a marker.\<close>

definition idxi :: "'a list \<Rightarrow> int \<Rightarrow> 'a option" where
  "idxi xs i = (if 0 \<le> i \<and> nat i < length xs then Some (xs ! nat i) else None)"

definition updi :: "'a list \<Rightarrow> int \<Rightarrow> 'a \<Rightarrow> 'a list option" where
  "updi xs i v = (if 0 \<le> i \<and> nat i < length xs then Some (xs[nat i := v]) else None)"

lemma idx_Some [go_simps]: "i < length xs \<Longrightarrow> idx xs i = Some (xs ! i)"
  by (simp add: idx_def)

lemma idx_eq_Some: "idx xs i = Some v \<longleftrightarrow> i < length xs \<and> xs ! i = v"
  by (simp add: idx_def)

lemma upd_Some [go_simps]: "i < length xs \<Longrightarrow> upd xs i v = Some (xs[i := v])"
  by (simp add: upd_def)

lemma idxi_Some [go_simps]: "0 \<le> i \<Longrightarrow> nat i < length xs \<Longrightarrow> idxi xs i = Some (xs ! nat i)"
  by (simp add: idxi_def)

lemma idxi_of_nat [go_simps]: "idxi xs (int i) = idx xs i"
  by (simp add: idxi_def idx_def)

lemma updi_of_nat [go_simps]: "updi xs (int i) v = upd xs i v"
  by (simp add: updi_def upd_def)

section \<open>Loops\<close>

text \<open>A \<open>for range\<close> loop whose body may panic: a monadic fold.\<close>

fun foldM :: "('a \<Rightarrow> 's \<Rightarrow> 's option) \<Rightarrow> 'a list \<Rightarrow> 's \<Rightarrow> 's option" where
  "foldM f [] s = Some s"
| "foldM f (x # xs) s = do { s' \<leftarrow> f x s; foldM f xs s' }"

lemma foldM_append: "foldM f (xs @ ys) s = do { s' \<leftarrow> foldM f xs s; foldM f ys s' }"
  by (induction xs arbitrary: s) (auto split: Option.bind_splits)

text \<open>
  The invariant rule for such a loop: an invariant on the elements already
  handled that each iteration extends by one element.
\<close>

lemma foldM_map:
  assumes "\<forall>x \<in> set xs. \<forall>ys. f x ys = Some (ys @ [g x])"
  shows "foldM f xs ys = Some (ys @ map g xs)"
  using assms by (induction xs arbitrary: ys) auto

lemma foldM_invariant:
  assumes "I [] s"
    and "\<And>ys y zs s. xs = ys @ y # zs \<Longrightarrow> I ys s \<Longrightarrow> \<exists>s'. f y s = Some s' \<and> I (ys @ [y]) s'"
  shows "\<exists>s'. foldM f xs s = Some s' \<and> I xs s'"
proof -
  have "\<exists>s'. foldM f zs s = Some s' \<and> I (ys @ zs) s'" if "xs = ys @ zs" "I ys s" for ys zs s
    using that
  proof (induction zs arbitrary: ys s)
    case Nil
    then show ?case by simp
  next
    case (Cons z zs)
    from assms(2)[OF Cons.prems] obtain s' where s': "f z s = Some s'" "I (ys @ [z]) s'"
      by blast
    from Cons.IH[of "ys @ [z]" s'] Cons.prems(1) s' show ?case
      by auto
  qed
  from this[of "[]" xs s] assms(1) show ?thesis by simp
qed

text \<open>
  The breadth-first work list of the builders: take the head of the queue,
  process it, append what it discovers.
  \<^verbatim>\<open>
  for len(queue) > 0 { s := queue[0]; queue = queue[1:]; ...; queue = append(queue, ...) }
  \<close>
\<close>

partial_function (option) worklist ::
  "('n \<Rightarrow> 's \<Rightarrow> ('n list \<times> 's) option) \<Rightarrow> 'n list \<Rightarrow> 's \<Rightarrow> 's option" where
  "worklist visit queue st =
     (case queue of
        [] \<Rightarrow> Some st
      | n # rest \<Rightarrow> do { (found, st') \<leftarrow> visit n st; worklist visit (rest @ found) st' })"

declare worklist.simps [code]

lemma worklist_Nil [simp]: "worklist visit [] st = Some st"
  by (simp add: worklist.simps)

lemma worklist_Cons:
  "worklist visit (n # rest) st =
     do { (found, st') \<leftarrow> visit n st; worklist visit (rest @ found) st' }"
  by (subst worklist.simps) simp

text \<open>
  A work list over a finite set of nodes in which no node is queued twice
  terminates: the invariant \<open>I\<close> speaks of the nodes taken so far and of the
  queue.
\<close>

lemma worklist_invariant:
  assumes fin: "finite N"
    and init: "I [] queue st"
    and step: "\<And>seen n rest st. I seen (n # rest) st \<Longrightarrow>
        n \<in> N \<and> n \<notin> set seen \<and> (\<exists>found st'. visit n st = Some (found, st') \<and>
        I (seen @ [n]) (rest @ found) st')"
  shows "\<exists>seen st'. worklist visit queue st = Some st' \<and> I seen [] st'"
proof -
  have "\<exists>seen' st'. worklist visit queue st = Some st' \<and> I seen' [] st'"
    if "I seen queue st" for seen queue st
    using that
  proof (induction "card (N - set seen)" arbitrary: seen queue st rule: less_induct)
    case less
    show ?case
    proof (cases queue)
      case Nil
      with less.prems show ?thesis by auto
    next
      case (Cons n rest)
      with step less.prems obtain found st' where n: "n \<in> N" "n \<notin> set seen"
        and st': "visit n st = Some (found, st')" "I (seen @ [n]) (rest @ found) st'"
        by blast
      have "card (N - set (seen @ [n])) < card (N - set seen)"
        using fin n by (intro psubset_card_mono) auto
      from less.hyps[OF this st'(2)] st'(1) show ?thesis
        by (simp add: Cons worklist_Cons)
    qed
  qed
  from this[OF init] show ?thesis .
qed

section \<open>The scan loops\<close>

text \<open>
  Every scan of the engines is one of two loops.  \<open>step\<close> advances the
  automaton by one symbol and says whether the new state may carry keywords;
  \<open>hit\<close> handles such a state, with the number of symbols read so far, and says
  whether to go on.  The result carries that flag: \<open>False\<close> means the scan
  stopped early.
\<close>

fun scanLoop ::
  "('s \<Rightarrow> 'c \<Rightarrow> ('s \<times> bool) option) \<Rightarrow> ('s \<Rightarrow> int \<Rightarrow> 'a \<Rightarrow> ('a \<times> bool) option) \<Rightarrow>
   'c list \<Rightarrow> 's \<Rightarrow> int \<Rightarrow> 'a \<Rightarrow> ('a \<times> bool) option" where
  "scanLoop step hit [] st i a = Some (a, True)"
| "scanLoop step hit (c # cs) st i a = do {
     (st', out) \<leftarrow> step st c;
     if out
     then do {
       (a', go) \<leftarrow> hit st' (i + 1) a;
       if go then scanLoop step hit cs st' (i + 1) a' else Some (a', False)
     }
     else scanLoop step hit cs st' (i + 1) a
   }"

text \<open>
  The same loop pulling its symbols from a callback that shares its state with
  the emitting callback; it ends when the callback reports the end of input,
  which may never happen.
\<close>

partial_function (option) streamLoop ::
  "('s \<Rightarrow> 'c \<Rightarrow> ('s \<times> bool) option) \<Rightarrow> ('s \<Rightarrow> int \<Rightarrow> 'a \<Rightarrow> ('a \<times> bool) option) \<Rightarrow>
   ('a \<Rightarrow> 'c option \<times> 'a) \<Rightarrow> 's \<Rightarrow> int \<Rightarrow> 'a \<Rightarrow> 'a option" where
  "streamLoop step hit nxt st i a =
     (case nxt a of
        (None, a1) \<Rightarrow> Some a1
      | (Some c, a1) \<Rightarrow> do {
          (st', out) \<leftarrow> step st c;
          if out
          then do {
            (a2, go) \<leftarrow> hit st' (i + 1) a1;
            if go then streamLoop step hit nxt st' (i + 1) a2 else Some a2
          }
          else streamLoop step hit nxt st' (i + 1) a1
        })"

declare streamLoop.simps [code]

section \<open>Lists\<close>

text \<open>Duplicates removed, first occurrence kept.\<close>

definition nub :: "'a list \<Rightarrow> 'a list" where
  "nub xs = rev (remdups (rev xs))"

lemma nub_Nil [simp]: "nub [] = []"
  by (simp add: nub_def)

lemma set_nub [simp]: "set (nub xs) = set xs"
  by (simp add: nub_def)

lemma distinct_nub [simp]: "distinct (nub xs)"
  by (simp add: nub_def)

lemma nub_snoc [simp]: "nub (xs @ [x]) = (if x \<in> set xs then nub xs else nub xs @ [x])"
  by (simp add: nub_def)

lemma nub_append: "nub (xs @ ys) = nub xs @ filter (\<lambda>y. y \<notin> set xs) (nub ys)"
  by (induction ys rule: rev_induct) (auto simp flip: append_assoc)

lemma nub_distinct [simp]: "distinct xs \<Longrightarrow> nub xs = xs"
  by (simp add: nub_def distinct_remdups_id)

lemma nub_dup: "x \<in> set xs \<Longrightarrow> nub (xs @ x # ys) = nub (xs @ ys)"
  using nub_append[of "xs @ [x]" ys] by (simp add: nub_append insert_absorb)

lemma nub_map_inj: "inj_on f (set xs) \<Longrightarrow> nub (map f xs) = map f (nub xs)"
  by (induction xs rule: rev_induct) (auto simp: inj_on_def)

text \<open>The running maximum of a loop.\<close>

lemma foldl_Max:
  fixes f :: "'a \<Rightarrow> nat"
  shows "foldl (\<lambda>d x. if f x > d then f x else d) d xs = Max (insert d (f ` set xs))"
proof -
  have "foldl (\<lambda>d x. if f x > d then f x else d) d xs = fold max (map f xs) d"
    by (induction xs arbitrary: d) (auto simp: max_def)
  also have "\<dots> = Max (set (d # map f xs))" by (rule Max.set_eq_fold[symmetric])
  finally show ?thesis by simp
qed

text \<open>A slice read as a total function, with a default past its end.\<close>

definition at_or :: "'a \<Rightarrow> 'a list \<Rightarrow> nat \<Rightarrow> 'a" where
  "at_or d xs i = (if i < length xs then xs ! i else d)"

lemma at_or_snoc [simp]: "at_or d (xs @ [d]) = at_or d xs"
  by (rule ext) (auto simp: at_or_def nth_append)

lemma at_or_upd: "s < length xs \<Longrightarrow> at_or d (xs[s := v]) = (at_or d xs)(s := v)"
  by (rule ext) (auto simp: at_or_def nth_list_update)

lemma at_or_map_upd: "s < length xs \<Longrightarrow> f v = f (xs ! s) \<Longrightarrow> at_or d (map f (xs[s := v])) = at_or d (map f xs)"
  by (rule ext) (auto simp: at_or_def nth_list_update)

end
