(* ===== verification/Go_Strings.thy ===== *)
theory Go_Strings
  imports Prelude
begin

text \<open>
  Go strings are byte sequences; ranging over one decodes UTF-8.  This theory
  models the part of the language and of \<^verbatim>\<open>unicode/utf8\<close> the program relies on:
  decoding of the next rune (an invalid sequence yields \<open>RuneError\<close> and advances
  by one byte), the \<open>range\<close> loop, and the rune count.  The well-formed byte
  sequences are those of the Unicode standard: no overlong forms, no
  surrogates, nothing above U+10FFFF.
\<close>

definition RuneError :: rune where "RuneError = 0xFFFD"

definition RuneSelf :: int where "RuneSelf = 0x80"

definition byte :: "char \<Rightarrow> int" where "byte c = of_char c"

definition cont_byte :: "int \<Rightarrow> bool" where
  "cont_byte b \<longleftrightarrow> 0x80 \<le> b \<and> b \<le> 0xBF"

text \<open>The range of the second byte depends on the first.\<close>

definition second3 :: "int \<Rightarrow> int \<Rightarrow> bool" where
  "second3 b0 b1 \<longleftrightarrow>
     (if b0 = 0xE0 then 0xA0 else 0x80) \<le> b1 \<and> b1 \<le> (if b0 = 0xED then 0x9F else 0xBF)"

definition second4 :: "int \<Rightarrow> int \<Rightarrow> bool" where
  "second4 b0 b1 \<longleftrightarrow>
     (if b0 = 0xF0 then 0x90 else 0x80) \<le> b1 \<and> b1 \<le> (if b0 = 0xF4 then 0x8F else 0xBF)"

text \<open>\<^verbatim>\<open>utf8.DecodeRuneInString\<close>: the rune and its width in bytes.\<close>

definition decodeRune :: "gostring \<Rightarrow> rune \<times> nat" where
  "decodeRune s =
     (case s of
        [] \<Rightarrow> (RuneError, 0)
      | c0 # cs \<Rightarrow>
          if byte c0 < RuneSelf then (byte c0, 1)
          else (case cs of
              [] \<Rightarrow> (RuneError, 1)
            | c1 # cs1 \<Rightarrow>
                if 0xC2 \<le> byte c0 \<and> byte c0 \<le> 0xDF then
                  (if cont_byte (byte c1)
                   then ((byte c0 - 0xC0) * 64 + (byte c1 - 0x80), 2)
                   else (RuneError, 1))
                else if 0xE0 \<le> byte c0 \<and> byte c0 \<le> 0xEF then
                  (case cs1 of
                     c2 # _ \<Rightarrow>
                       if second3 (byte c0) (byte c1) \<and> cont_byte (byte c2)
                       then ((byte c0 - 0xE0) * 4096 + (byte c1 - 0x80) * 64 + (byte c2 - 0x80), 3)
                       else (RuneError, 1)
                   | [] \<Rightarrow> (RuneError, 1))
                else if 0xF0 \<le> byte c0 \<and> byte c0 \<le> 0xF4 then
                  (case cs1 of
                     c2 # c3 # _ \<Rightarrow>
                       if second4 (byte c0) (byte c1) \<and> cont_byte (byte c2) \<and> cont_byte (byte c3)
                       then ((byte c0 - 0xF0) * 262144 + (byte c1 - 0x80) * 4096
                             + (byte c2 - 0x80) * 64 + (byte c3 - 0x80), 4)
                       else (RuneError, 1)
                   | _ \<Rightarrow> (RuneError, 1))
                else (RuneError, 1)))"

lemma decodeRune_width:
  "decodeRune (c # cs) = (r, k) \<Longrightarrow> 1 \<le> k \<and> k \<le> length (c # cs)"
  by (auto simp: decodeRune_def split: if_splits list.splits)

text \<open>
  The shape of one decoding step.  An ASCII byte stands for itself; every byte of
  a longer or invalid sequence is at least \<open>RuneSelf\<close>, and so is the rune.
\<close>

lemma decodeRune_cases:
  assumes "decodeRune (c # cs) = (r, k)"
  shows "byte c < RuneSelf \<and> r = byte c \<and> k = 1 \<or>
    RuneSelf \<le> r \<and> (\<forall>b \<in> set (take k (c # cs)). RuneSelf \<le> byte b)"
  using assms
  by (auto simp: decodeRune_def take_Cons' RuneSelf_def RuneError_def second3_def second4_def
      cont_byte_def split: if_splits list.splits)

text \<open>\<^verbatim>\<open>for _, r := range s\<close>: the runes of a string, and with their byte offsets.\<close>

function runes :: "gostring \<Rightarrow> rune list" where
  "runes [] = []"
| "runes (c # cs) = fst (decodeRune (c # cs)) # runes (drop (snd (decodeRune (c # cs))) (c # cs))"
  by pat_completeness auto
termination
proof (relation "measure length", simp)
  fix c :: char and cs
  obtain r k where "decodeRune (c # cs) = (r, k)" by fastforce
  with decodeRune_width[OF this]
  show "(drop (snd (decodeRune (c # cs))) (c # cs), c # cs) \<in> measure length" by auto
qed

definition runeCount :: "gostring \<Rightarrow> nat" where
  "runeCount s = length (runes s)"

lemma runes_eq_Nil [simp]: "runes s = [] \<longleftrightarrow> s = []"
  by (cases s) auto

text \<open>Induction along the decoding of a string.\<close>

lemma runes_induct [case_names Nil Rune]:
  assumes "P []"
    and "\<And>c cs r k. decodeRune (c # cs) = (r, k) \<Longrightarrow> 1 \<le> k \<Longrightarrow> k \<le> length (c # cs) \<Longrightarrow>
      P (drop k (c # cs)) \<Longrightarrow> P (c # cs)"
  shows "P s"
proof (induction s rule: runes.induct)
  case 1
  show ?case by (rule assms(1))
next
  case (2 c cs)
  obtain r k where rk: "decodeRune (c # cs) = (r, k)" by fastforce
  with 2 decodeRune_width[OF rk] show ?case by (intro assms(2)[OF rk]) auto
qed

lemma runes_Cons: "decodeRune (c # cs) = (r, k) \<Longrightarrow> runes (c # cs) = r # runes (drop k (c # cs))"
  by simp

declare runes.simps(2) [simp del]
declare runes.simps [code]

text \<open>On a string of ASCII bytes, decoding is the identity.\<close>

lemma runes_ascii: "\<forall>c \<in> set s. byte c < RuneSelf \<Longrightarrow> runes s = map byte s"
proof (induction s rule: runes_induct)
  case (Rune c cs r k)
  from decodeRune_cases[OF Rune(1)] Rune.prems have "byte c = r" "k = 1"
    using Rune(2,3) by (auto simp: take_Cons' split: if_splits)
  with Rune show ?case by (simp add: runes_Cons[OF Rune(1)])
qed simp

text \<open>Two strings with different rune sequences differ.\<close>

lemma byte_inj [simp]: "byte c = byte d \<longleftrightarrow> c = d"
  by (simp add: byte_def)

lemma byte_range [simp]: "0 \<le> byte c" "byte c < 256"
  by (simp_all add: byte_def of_char_def)

end
