(* ===== verification/AC_Spec.thy ===== *)
theory AC_Spec
  imports Go_Strings
begin

text \<open>
  What multi-pattern matching means, independently of any engine: a dictionary
  maps the rune sequence of each keyword to the keyword, and the occurrences of
  a text are listed in scan order, by end position and, at one end position,
  longest keyword first.  The second part is the theory of the longest suffix
  of the text that is a prefix of some keyword, which is what every automaton
  state stands for.
\<close>

section \<open>Dictionaries and occurrences\<close>

type_synonym dict = "rune list \<rightharpoonup> gostring"

text \<open>
  The dictionary of a keyword sequence.  The empty keyword is skipped.  Two
  keywords can share a rune sequence (invalid UTF-8 decodes to \<open>RuneError\<close> byte
  by byte); the later one wins.
\<close>

definition dict_of :: "gostring list \<Rightarrow> dict" where
  "dict_of ks = map_of (rev (map (\<lambda>k. (runes k, k)) (filter (\<lambda>k. k \<noteq> []) ks)))"

text \<open>The suffixes of \<open>w\<close> that are keywords, longest first.\<close>

primrec ends :: "dict \<Rightarrow> rune list \<Rightarrow> rune list list" where
  "ends D [] = []"
| "ends D (c # w) = (if D (c # w) = None then ends D w else (c # w) # ends D w)"

text \<open>What one end position reports, and what a whole text reports.\<close>

definition outs_at :: "dict \<Rightarrow> rune list \<Rightarrow> (gostring \<times> nat) list" where
  "outs_at D w = map (\<lambda>v. (the (D v), length v)) (ends D w)"

definition matches_at :: "dict \<Rightarrow> rune list \<Rightarrow> match list" where
  "matches_at D w =
     map (\<lambda>(k, n). (k, int (length w) - int n, int (length w))) (outs_at D w)"

primrec occs_from :: "dict \<Rightarrow> rune list \<Rightarrow> rune list \<Rightarrow> match list" where
  "occs_from D w [] = []"
| "occs_from D w (c # cs) = matches_at D (w @ [c]) @ occs_from D (w @ [c]) cs"

definition occurrences :: "dict \<Rightarrow> rune list \<Rightarrow> match list" where
  "occurrences D text = occs_from D [] text"

section \<open>Dictionaries\<close>

lemma dict_of_snoc:
  "dict_of (ks @ [k]) = (if k = [] then dict_of ks else (dict_of ks)(runes k \<mapsto> k))"
  by (simp add: dict_of_def)

lemma dict_of_Nil [simp]: "dict_of [] = Map.empty"
  by (simp add: dict_of_def)

lemma dict_of_runes: "dict_of ks v = Some k \<Longrightarrow> runes k = v \<and> k \<in> set ks \<and> k \<noteq> []"
  by (auto simp: dict_of_def dest: map_of_SomeD)

lemma dict_of_Nil_key [simp]: "dict_of ks [] = None"
  using dict_of_runes[of ks "[]"] by (cases "dict_of ks []") auto

lemma dom_dict_of: "dom (dict_of ks) = runes ` (set ks - {[]})"
  by (force simp: dict_of_def dom_map_of_conv_image_fst)

lemma dict_of_inj: "dict_of ks v = Some k \<Longrightarrow> dict_of ks v' = Some k \<Longrightarrow> v = v'"
  by (auto dest: dict_of_runes)

text \<open>
  Keywords with pairwise different rune sequences, in particular all-valid
  ones, are looked up whatever the order they arrive in.
\<close>

lemma dict_of_perm_inj:
  assumes "inj_on runes (set ks)" and "k \<in> set ks" and "k \<noteq> []"
  shows "dict_of ks (runes k) = Some k"
proof -
  from assms(2,3) have "runes k \<in> dom (dict_of ks)"
    by (auto simp: dom_dict_of)
  then obtain k' where "dict_of ks (runes k) = Some k'" by auto
  with dict_of_runes[OF this] assms show ?thesis by (auto dest: inj_onD)
qed

section \<open>The longest suffix in a set\<close>

text \<open>\<open>lsuf P w\<close> is the longest suffix of \<open>w\<close> in \<open>P\<close>, or the empty sequence.\<close>

primrec lsuf :: "rune list set \<Rightarrow> rune list \<Rightarrow> rune list" where
  "lsuf P [] = []"
| "lsuf P (c # w) = (if c # w \<in> P then c # w else lsuf P w)"

text \<open>The trie states: the empty sequence and the prefixes of the keywords.\<close>

definition states :: "dict \<Rightarrow> rune list set" where
  "states D = {w. w = [] \<or> (\<exists>v \<in> dom D. prefix w v)}"

definition closed :: "rune list set \<Rightarrow> bool" where
  "closed P \<longleftrightarrow> [] \<in> P \<and> (\<forall>w c. w @ [c] \<in> P \<longrightarrow> w \<in> P)"

lemma closed_states [simp, intro]: "closed (states D)"
  by (auto simp: closed_def states_def dest: append_prefixD)

lemma dom_subset_states: "dom D \<subseteq> states D"
  by (auto simp: states_def)

lemma lsuf_in [simp]: "[] \<in> P \<Longrightarrow> lsuf P w \<in> P"
  by (induction w) auto

lemma suffix_lsuf: "suffix (lsuf P w) w"
  by (induction w) (auto simp: suffix_Cons)

lemma lsuf_in_or_Nil: "lsuf P w \<in> P \<or> lsuf P w = []"
  by (induction w) auto

lemma lsuf_id [ac_facts]: "w \<in> P \<Longrightarrow> lsuf P w = w"
  by (cases w) auto

lemma length_lsuf_le: "length (lsuf P w) \<le> length w"
  by (rule suffix_length_le[OF suffix_lsuf])

lemma lsuf_greatest: "suffix v w \<Longrightarrow> v \<in> P \<Longrightarrow> suffix v (lsuf P w)"
  by (induction w) (auto simp: suffix_Cons)

text \<open>Dropping what lies outside a larger set first changes nothing.\<close>

lemma lsuf_lsuf [ac_facts]: "Q \<subseteq> P \<Longrightarrow> lsuf Q (lsuf P w) = lsuf Q w"
  by (induction w) auto

lemma closedD: "closed P \<Longrightarrow> w @ [c] \<in> P \<Longrightarrow> w \<in> P"
  by (auto simp: closed_def)

text \<open>The automaton law: the next state depends on the current state only.\<close>

lemma lsuf_snoc [ac_facts]:
  assumes "closed P"
  shows "lsuf P (lsuf P w @ [c]) = lsuf P (w @ [c])"
  using assms
proof (induction w)
  case (Cons a w)
  then show ?case using closedD[of P "a # w" c] by auto
qed simp

text \<open>The longest proper suffix, the target of the failure link.\<close>

definition lps :: "rune list set \<Rightarrow> rune list \<Rightarrow> rune list" where
  "lps P w = lsuf P (tl w)"

lemma length_lps [simp]: "w \<noteq> [] \<Longrightarrow> length (lps P w) < length w"
  using length_lsuf_le[of P "tl w"] by (cases w) (auto simp: lps_def)

lemma lps_in: "closed P \<Longrightarrow> lps P w \<in> P"
  by (simp add: lps_def closed_def)

lemma lps_single [simp]: "lps P [c] = []"
  by (simp add: lps_def)

lemma lsuf_fail [ac_facts]:
  assumes "closed P" and "w \<noteq> []" and "w @ [c] \<notin> P"
  shows "lsuf P (lps P w @ [c]) = lsuf P (w @ [c])"
  using assms by (cases w) (simp_all add: lps_def lsuf_snoc)

lemma lps_snoc [ac_facts]:
  assumes "closed P" and "w \<noteq> []"
  shows "lps P (w @ [c]) = lsuf P (lps P w @ [c])"
  using assms by (cases w) (simp_all add: lps_def lsuf_snoc)

section \<open>Output lists along the suffixes\<close>

lemma ends_lsuf [ac_facts]: "dom D \<subseteq> P \<Longrightarrow> ends D (lsuf P w) = ends D w"
  by (induction w) auto

lemma outs_at_lsuf [ac_facts]: "dom D \<subseteq> P \<Longrightarrow> outs_at D (lsuf P w) = outs_at D w"
  by (simp add: outs_at_def ends_lsuf)

text \<open>\<open>lkw D w\<close> is the longest proper suffix that is a keyword, the target of the output link.\<close>

definition lkw :: "dict \<Rightarrow> rune list \<Rightarrow> rune list" where
  "lkw D w = lsuf (dom D) (tl w)"

lemma length_lkw: "w \<noteq> [] \<Longrightarrow> length (lkw D w) < length w"
  using length_lsuf_le[of "dom D" "tl w"] by (cases w) (auto simp: lkw_def)

lemma lkw_dom: "lkw D w \<noteq> [] \<Longrightarrow> lkw D w \<in> dom D"
  using lsuf_in_or_Nil[of "dom D" "tl w"] by (auto simp: lkw_def)

lemma lkw_Nil [simp]: "lkw D [] = []" "lkw D [c] = []"
  by (simp_all add: lkw_def)

lemma outs_at_Nil [simp]: "outs_at D [] = []"
  by (simp add: outs_at_def)

lemma outs_at_chain:
  assumes "w \<noteq> []"
  shows "outs_at D w =
    (case D w of None \<Rightarrow> [] | Some k \<Rightarrow> [(k, length w)]) @ outs_at D (lkw D w)"
  using assms by (cases w) (auto simp: outs_at_def lkw_def ends_lsuf split: option.splits)

lemma lkw_link:
  assumes "dom D \<subseteq> P"
  shows "lkw D w = (if lps P w \<in> dom D then lps P w else lkw D (lps P w))"
proof -
  have "lkw D w = lsuf (dom D) (lps P w)"
    by (simp add: lkw_def lps_def lsuf_lsuf[OF assms])
  then show ?thesis
    by (cases "lps P w") (auto simp: lkw_def)
qed

lemma outs_at_empty: "outs_at D w = [] \<longleftrightarrow> D w = None \<and> lkw D w = [] \<or> w = []"
proof (cases "w = []")
  case False
  have "outs_at D v \<noteq> []" if "v \<in> dom D" "v \<noteq> []" for v
    using outs_at_chain[OF that(2), of D] that(1) by auto
  with lkw_dom[of D w] False show ?thesis
    by (auto simp: outs_at_chain[OF False] split: option.splits)
qed simp

text \<open>A rune that occurs in no keyword leads back to the empty state.\<close>

lemma states_runes: "w \<in> states D \<Longrightarrow> c \<in> set w \<Longrightarrow> \<exists>v \<in> dom D. c \<in> set v"
  by (auto simp: states_def dest: set_mono_prefix)

lemma lsuf_unknown:
  assumes "\<And>v. v \<in> dom D \<Longrightarrow> c \<notin> set v"
  shows "lsuf (states D) (w @ [c]) = []"
proof (rule ccontr)
  assume neq: "lsuf (states D) (w @ [c]) \<noteq> []"
  then obtain u d where u: "lsuf (states D) (w @ [c]) = u @ [d]"
    by (cases "lsuf (states D) (w @ [c])" rule: rev_cases) auto
  with suffix_lsuf[of "states D" "w @ [c]"] have "c \<in> set (lsuf (states D) (w @ [c]))"
    by simp
  moreover have "lsuf (states D) (w @ [c]) \<in> states D"
    by (rule lsuf_in) (simp add: states_def)
  ultimately show False using states_runes assms by blast
qed

section \<open>The specification is complete and ordered\<close>

lemma in_ends: "v \<in> set (ends D w) \<longleftrightarrow> suffix v w \<and> v \<noteq> [] \<and> D v \<noteq> None"
proof (induction w)
  case (Cons c w)
  then show ?case by (cases "v = c # w") (simp_all add: suffix_Cons)
qed simp

lemma set_ends: "set (ends D w) = {v. suffix v w \<and> v \<noteq> [] \<and> v \<in> dom D}"
  by (rule set_eqI) (simp add: in_ends domIff)

lemma length_ends: "v \<in> set (ends D w) \<Longrightarrow> length v \<le> length w"
  by (auto simp: set_ends dest: suffix_length_le)

lemma sorted_ends: "sorted_wrt (\<lambda>u v. length v < length u) (ends D w)"
  by (induction w) (auto dest: length_ends)

lemma in_matches_at:
  "(k, s, e) \<in> set (matches_at D w) \<longleftrightarrow>
     (\<exists>v. suffix v w \<and> v \<noteq> [] \<and> D v = Some k \<and> e = int (length w) \<and> s = e - int (length v))"
  by (force simp: matches_at_def outs_at_def set_ends)

lemma in_occs_from:
  "m \<in> set (occs_from D w cs) \<longleftrightarrow> (\<exists>n < length cs. m \<in> set (matches_at D (w @ take (Suc n) cs)))"
  by (induction cs arbitrary: w) (auto simp: Ex_less_Suc2)

lemma occurrences_iff:
  "(k, s, e) \<in> set (occurrences D t) \<longleftrightarrow>
     0 \<le> s \<and> s < e \<and> nat e \<le> length t \<and>
     D (take (nat e - nat s) (drop (nat s) t)) = Some k"
proof -
  have "(k, s, e) \<in> set (occurrences D t) \<longleftrightarrow>
      (\<exists>n v. n < length t \<and> suffix v (take (Suc n) t) \<and> v \<noteq> [] \<and> D v = Some k \<and>
        e = int (Suc n) \<and> s = int (Suc n) - int (length v))"
    unfolding occurrences_def in_occs_from in_matches_at append_Nil
    by (rule iff_exI) (auto simp: min_def)
  also have "\<dots> \<longleftrightarrow> 0 \<le> s \<and> s < e \<and> nat e \<le> length t \<and>
      D (take (nat e - nat s) (drop (nat s) t)) = Some k" (is "?l \<longleftrightarrow> ?r")
  proof
    assume ?l
    then obtain n v where *: "1 \<le> n" "n \<le> length t" "suffix v (take n t)" "v \<noteq> []"
      "D v = Some k" "e = int n" "s = int n - int (length v)"
      by (metis Suc_leI One_nat_def le_add1 plus_1_eq_Suc)
    from * obtain u where u: "take n t = u @ v" by (auto simp: suffix_def)
    then have len: "length u + length v = n" using *(2)
      by (metis length_append length_take min_absorb2)
    with *(6,7) have s: "nat s = length u" "nat e = n" by auto
    have "v = drop (length u) (take n t)" using u by simp
    also have "\<dots> = take (n - length u) (drop (length u) t)" by (simp add: drop_take)
    finally show ?r using * len s by auto
  next
    assume r: ?r
    let ?v = "take (nat e - nat s) (drop (nat s) t)"
    have "suffix ?v (take (nat e) t)"
      by (metis drop_take suffix_drop)
    moreover from r have "length ?v = nat e - nat s" by (simp add: diff_le_mono)
    moreover from this r have "?v \<noteq> []" by force
    moreover from r have "Suc (nat e - 1) = nat e" by auto
    ultimately show ?l using r
      by (intro exI[of _ "nat e - 1"] exI[of _ ?v]) auto
  qed
  finally show ?thesis .
qed

text \<open>Scan order: by end, and at one end by start (longest keyword first).\<close>

definition scan_less :: "match \<Rightarrow> match \<Rightarrow> bool" where
  "scan_less a b \<longleftrightarrow>
     snd (snd a) < snd (snd b) \<or> snd (snd a) = snd (snd b) \<and> fst (snd a) < fst (snd b)"

lemma sorted_matches_at: "sorted_wrt scan_less (matches_at D w)"
proof -
  have "sorted_wrt (\<lambda>u v. length v < length u) (ends D w)" by (rule sorted_ends)
  then show ?thesis
    by (auto simp: matches_at_def outs_at_def sorted_wrt_map scan_less_def
        elim!: sorted_wrt_mono_rel[rotated])
qed

lemma occs_from_end: "m \<in> set (occs_from D w cs) \<Longrightarrow> int (length w) < snd (snd m)"
  by (induction cs arbitrary: w) (force simp: matches_at_def)+

lemma matches_at_end: "m \<in> set (matches_at D w) \<Longrightarrow> snd (snd m) = int (length w)"
  by (auto simp: matches_at_def)

lemma sorted_occs_from: "sorted_wrt scan_less (occs_from D w cs)"
proof (induction cs arbitrary: w)
  case (Cons c cs)
  have "scan_less m m'" if "m \<in> set (matches_at D (w @ [c]))" "m' \<in> set (occs_from D (w @ [c]) cs)"
    for m m'
    using matches_at_end[OF that(1)] occs_from_end[OF that(2)] by (simp add: scan_less_def)
  with Cons.IH show ?case
    by (auto simp: sorted_wrt_append sorted_matches_at)
qed simp

lemma sorted_occurrences: "sorted_wrt scan_less (occurrences D t)"
  by (simp add: occurrences_def sorted_occs_from)

lemma occs_from_snoc:
  "occs_from D w (cs @ [c]) = occs_from D w cs @ matches_at D (w @ cs @ [c])"
  by (induction cs arbitrary: w) auto

end
