(* ===== verification/Outputs.thy ===== *)
theory Outputs
  imports AC_Spec
begin

text \<open>
  \<^verbatim>\<open>internal/engine/engine_output.go\<close>: the output table shared by the three
  engines.  \<open>own\<close> holds the id of the keyword ending at a state (0 for none),
  \<open>outLink\<close> chains a state to the next keyword-carrying state along its failure
  path (\<open>outNone\<close> at the end), \<open>kwords\<close> and \<open>runeLens\<close> are indexed by id.  The
  relation \<open>chain\<close> says which ids a state reports; every operation that walks a
  chain is characterised by it.
\<close>

unbundle bit_operations_syntax

definition hasOutputBit :: "32 word" where "hasOutputBit = push_bit 30 1"

definition outNone :: int where "outNone = -1"

definition requirePackableStateCount :: "nat \<Rightarrow> unit option" where
  "requirePackableStateCount numStates = (if numStates \<ge> unat hasOutputBit then None else Some ())"

definition packState :: "nat \<Rightarrow> bool \<Rightarrow> 32 word option" where
  "packState state hasOutput =
     (if state \<ge> unat hasOutputBit then None
      else Some (if hasOutput then of_nat state OR hasOutputBit else of_nat state))"

text \<open>What the scan loops read back out of a packed entry.\<close>

definition entryState :: "32 word \<Rightarrow> nat" where
  "entryState v = unat (v AND NOT hasOutputBit)"

definition entryHasOutput :: "32 word \<Rightarrow> bool" where
  "entryHasOutput v \<longleftrightarrow> v AND hasOutputBit \<noteq> 0"

record outputs =
  own :: "nat list"
  outLink :: "int list"
  kwords :: "gostring list"
  runeLens :: "nat list"

definition empty_outputs :: outputs where
  "empty_outputs = \<lparr>own = [], outLink = [], kwords = [], runeLens = []\<rparr>"

definition assignID :: "outputs \<Rightarrow> gostring \<Rightarrow> outputs \<times> nat" where
  "assignID out kw =
     (let out1 = (if kwords out = [] then out\<lparr>kwords := [[]], runeLens := runeLens out @ [0]\<rparr> else out)
      in (out1\<lparr>kwords := kwords out1 @ [kw], runeLens := runeLens out1 @ [runeCount kw]\<rparr>,
          length (kwords out1)))"

definition assign :: "outputs \<Rightarrow> nat \<Rightarrow> gostring \<Rightarrow> (outputs \<times> nat) option" where
  "assign out cur kw =
     (if cur \<noteq> 0
      then do {
        kws \<leftarrow> upd (kwords out) cur kw;
        lens \<leftarrow> upd (runeLens out) cur (runeCount kw);
        Some (out\<lparr>kwords := kws, runeLens := lens\<rparr>, cur)
      }
      else Some (assignID out kw))"

definition keywordCount :: "outputs \<Rightarrow> nat" where
  "keywordCount out = (if length (kwords out) = 0 then 0 else length (kwords out) - 1)"

definition outputs_memoryBytes :: "outputs \<Rightarrow> nat" where
  "outputs_memoryBytes out =
     length (own out) * 4 + length (outLink out) * 4 + length (kwords out) * 16 +
     length (runeLens out) * 4"

text \<open>\<open>dst\<close> is \<open>None\<close> for Go's nil slice: the engines tell nil from empty.\<close>

partial_function (option) appendChain ::
  "outputs \<Rightarrow> gostring list option \<Rightarrow> int \<Rightarrow> gostring list option option" where
  "appendChain out dst s =
     (if s = outNone then Some dst
      else do {
        k \<leftarrow> idxi (own out) s;
        l \<leftarrow> idxi (outLink out) s;
        if k \<noteq> 0
        then do {
          kw \<leftarrow> idx (kwords out) k;
          appendChain out (Some ((case dst of None \<Rightarrow> [] | Some d \<Rightarrow> d) @ [kw])) l
        }
        else appendChain out dst l
      })"

partial_function (option) indexChain ::
  "outputs \<Rightarrow> (gostring \<rightharpoonup> int list) \<Rightarrow> int \<Rightarrow> int \<Rightarrow> (gostring \<rightharpoonup> int list) option" where
  "indexChain out dst s end =
     (if s = outNone then Some dst
      else do {
        k \<leftarrow> idxi (own out) s;
        l \<leftarrow> idxi (outLink out) s;
        if k \<noteq> 0
        then do {
          kw \<leftarrow> idx (kwords out) k;
          n \<leftarrow> idx (runeLens out) k;
          indexChain out
            (dst(kw \<mapsto> (case dst kw of None \<Rightarrow> [] | Some is \<Rightarrow> is) @ [end - int n])) l end
        }
        else indexChain out dst l end
      })"

text \<open>
  A callback \<open>emit(keyword, start, end) bool\<close> is a function on the state it
  closes over that also returns whether to go on.
\<close>

partial_function (option) emitChain ::
  "outputs \<Rightarrow> int \<Rightarrow> int \<Rightarrow> (match \<Rightarrow> 'a \<Rightarrow> 'a \<times> bool) \<Rightarrow> 'a \<Rightarrow> ('a \<times> bool) option" where
  "emitChain out s end emit a =
     (if s = outNone then Some (a, True)
      else do {
        k \<leftarrow> idxi (own out) s;
        l \<leftarrow> idxi (outLink out) s;
        if k \<noteq> 0
        then do {
          kw \<leftarrow> idx (kwords out) k;
          n \<leftarrow> idx (runeLens out) k;
          (case emit (kw, end - int n, end) a of
             (a', go) \<Rightarrow> if go then emitChain out l end emit a' else Some (a', False))
        }
        else emitChain out l end emit a
      })"

declare appendChain.simps [code] indexChain.simps [code] emitChain.simps [code]

section \<open>Packed transitions\<close>

lemma unat_hasOutputBit [simp]: "unat hasOutputBit = 2 ^ 30"
  by (simp add: hasOutputBit_def)

lemma bit_hasOutputBit: "bit hasOutputBit n \<longleftrightarrow> n = 30"
  unfolding hasOutputBit_def bit_push_bit_iff by (auto simp only: bit_1_iff len_num1) auto

lemma bit_of_state: "state < 2 ^ 30 \<Longrightarrow> bit (of_nat state :: 32 word) n \<longleftrightarrow> bit state n \<and> n \<noteq> 30 \<and> n < 32"
proof -
  assume "state < 2 ^ 30"
  then have "\<not> bit state 30" by (simp add: bit_iff_odd)
  then show ?thesis by (auto simp: bit_of_nat_iff)
qed

lemma packState_Some:
  assumes "packState state h = Some v"
  shows "entryState v = state \<and> entryHasOutput v = h"
proof -
  let ?s = "of_nat state :: 32 word"
  from assms have lt: "state < 2 ^ 30" by (auto simp: packState_def split: if_splits)
  have "?s AND NOT hasOutputBit = ?s" "(?s OR hasOutputBit) AND NOT hasOutputBit = ?s"
    "?s AND hasOutputBit = 0" "(?s OR hasOutputBit) AND hasOutputBit = hasOutputBit"
    by (auto intro!: bit_word_eqI simp: bit_and_iff bit_or_iff bit_not_iff bit_hasOutputBit bit_of_state[OF lt])
  moreover have "hasOutputBit \<noteq> 0" "unat ?s = state"
    using lt by (auto simp: hasOutputBit_def unsigned_of_nat take_bit_nat_eq_self)
  ultimately show ?thesis
    using assms by (auto simp: packState_def entryState_def entryHasOutput_def split: if_splits)
qed

lemma packState_fits [go_simps]:
  "state < 2 ^ 30 \<Longrightarrow> \<exists>v. packState state h = Some v \<and> entryState v = state \<and> entryHasOutput v = h"
proof -
  assume "state < 2 ^ 30"
  then obtain v where "packState state h = Some v" by (simp add: packState_def)
  with packState_Some[OF this] show ?thesis by blast
qed

section \<open>Chains\<close>

inductive chain :: "outputs \<Rightarrow> int \<Rightarrow> nat list \<Rightarrow> bool" for out where
  chain_end: "chain out outNone []"
| chain_skip: "idxi (own out) s = Some 0 \<Longrightarrow> idxi (outLink out) s = Some l \<Longrightarrow> chain out l ids \<Longrightarrow>
    chain out s ids"
| chain_own: "idxi (own out) s = Some k \<Longrightarrow> k \<noteq> 0 \<Longrightarrow> k < length (kwords out) \<Longrightarrow>
    k < length (runeLens out) \<Longrightarrow> idxi (outLink out) s = Some l \<Longrightarrow> chain out l ids \<Longrightarrow>
    chain out s (k # ids)"

lemma int_neq_outNone [simp]: "int s \<noteq> outNone"
  by (simp add: outNone_def)

lemma idxi_Some_nonneg: "idxi xs s = Some v \<Longrightarrow> s \<noteq> outNone"
  by (auto simp: idxi_def outNone_def split: if_splits)

lemma chain_outNone [simp]: "chain out outNone ids \<longleftrightarrow> ids = []"
proof
  assume "chain out outNone ids"
  then show "ids = []" by (cases rule: chain.cases) (auto dest: idxi_Some_nonneg)
qed (simp add: chain_end)

lemma chain_unfold:
  assumes "s \<noteq> outNone"
  shows "chain out s ids \<longleftrightarrow>
    (\<exists>k l js. idxi (own out) s = Some k \<and> idxi (outLink out) s = Some l \<and> chain out l js \<and>
      (if k = 0 then ids = js
       else k < length (kwords out) \<and> k < length (runeLens out) \<and> ids = k # js))" (is "?l \<longleftrightarrow> ?r")
proof
  assume ?l
  then show ?r
  proof (cases rule: chain.cases)
    case (chain_own k l js)
    then show ?thesis by (intro exI[of _ k] exI[of _ l] exI[of _ js]) simp
  qed (use assms in auto)
qed (auto intro: chain_skip chain_own split: if_splits)

lemma chain_appendChain:
  "chain out s ids \<Longrightarrow>
   appendChain out dst s =
     Some (if ids = [] then dst
           else Some ((case dst of None \<Rightarrow> [] | Some d \<Rightarrow> d) @ map ((!) (kwords out)) ids))"
proof (induction arbitrary: dst rule: chain.induct)
  case chain_end
  then show ?case by (simp add: appendChain.simps)
next
  case (chain_skip s l ids)
  then show ?case by (subst appendChain.simps) (simp add: idxi_Some_nonneg)
next
  case (chain_own s k l ids)
  then show ?case by (subst appendChain.simps) (simp add: idxi_Some_nonneg idx_Some)
qed

text \<open>A consumer fed a list of matches until it asks to stop.\<close>

fun emitAll :: "(match \<Rightarrow> 'a \<Rightarrow> 'a \<times> bool) \<Rightarrow> match list \<Rightarrow> 'a \<Rightarrow> 'a \<times> bool" where
  "emitAll emit [] a = (a, True)"
| "emitAll emit (m # ms) a = (case emit m a of (a', go) \<Rightarrow> if go then emitAll emit ms a' else (a', False))"

lemma emitAll_append:
  "emitAll emit (xs @ ys) a =
     (case emitAll emit xs a of (a', go) \<Rightarrow> if go then emitAll emit ys a' else (a', False))"
  by (induction xs arbitrary: a) (auto split: prod.splits)

text \<open>The match an id stands for at an end position.\<close>

definition id_match :: "outputs \<Rightarrow> int \<Rightarrow> nat \<Rightarrow> match" where
  "id_match out end k = (kwords out ! k, end - int (runeLens out ! k), end)"

lemma chain_emitChain:
  "chain out s ids \<Longrightarrow> emitChain out s end emit a = Some (emitAll emit (map (id_match out end) ids) a)"
proof (induction arbitrary: a rule: chain.induct)
  case chain_end
  then show ?case by (simp add: emitChain.simps)
next
  case (chain_skip s l ids)
  then show ?case by (subst emitChain.simps) (simp add: idxi_Some_nonneg)
next
  case (chain_own s k l ids)
  then show ?case
    by (subst emitChain.simps)
      (simp add: idxi_Some_nonneg idx_Some id_match_def[of out "end" k] split: prod.split)
qed

text \<open>Grouping match starts by keyword, in the order they arrive.\<close>

definition add_start :: "match \<Rightarrow> (gostring \<rightharpoonup> int list) \<Rightarrow> (gostring \<rightharpoonup> int list)" where
  "add_start m dst =
     (case m of (k, s, e) \<Rightarrow> dst(k \<mapsto> (case dst k of None \<Rightarrow> [] | Some is \<Rightarrow> is) @ [s]))"

lemma chain_indexChain:
  "chain out s ids \<Longrightarrow>
   indexChain out dst s end = Some (fold add_start (map (id_match out end) ids) dst)"
proof (induction arbitrary: dst rule: chain.induct)
  case chain_end
  then show ?case by (simp add: indexChain.simps)
next
  case (chain_skip s l ids)
  then show ?case by (subst indexChain.simps) (simp add: idxi_Some_nonneg)
next
  case (chain_own s k l ids)
  then show ?case
    by (subst indexChain.simps)
      (simp add: idxi_Some_nonneg idx_Some id_match_def[of out "end" k]
        add_start_def[of "(kwords out ! k, end - int (runeLens out ! k), end)"] fun_upd_def)
qed

lemma fold_add_start:
  "fold add_start ms dst k =
     (if [s. (k', s, e) \<leftarrow> ms, k' = k] = [] then dst k
      else Some ((case dst k of None \<Rightarrow> [] | Some is \<Rightarrow> is) @ [s. (k', s, e) \<leftarrow> ms, k' = k]))"
  by (induction ms arbitrary: dst) (auto simp: add_start_def)

end
