(* ===== verification/Bitset.thy ===== *)
theory Bitset
  imports Prelude
begin

text \<open>
  Bitsets kept in a slice of \<open>uint64\<close>, as the set collector and the Bloom filter
  use them: element \<open>i\<close> is bit \<open>i mod 64\<close> of word \<open>i div 64\<close>.
\<close>

unbundle bit_operations_syntax

text \<open>Go's \<^verbatim>\<open>bits[i>>6]\<close>, \<^verbatim>\<open>1<<(i&63)\<close> on a slice of \<open>uint64\<close>.\<close>

definition bitMark :: "64 word list \<Rightarrow> nat \<Rightarrow> (64 word list \<times> bool) option" where
  "bitMark ws i = do {
     w \<leftarrow> idx ws (i div 64);
     if w AND push_bit (i mod 64) 1 \<noteq> 0 then Some (ws, False)
     else Some (ws[i div 64 := w OR push_bit (i mod 64) 1], True)
   }"

definition bitMem :: "64 word list \<Rightarrow> nat \<Rightarrow> bool" where
  "bitMem ws i \<longleftrightarrow> i div 64 < length ws \<and> bit (ws ! (i div 64)) (i mod 64)"

lemma and_shifted_one: "k < 64 \<Longrightarrow> (w AND 2 ^ k = (0 :: 64 word)) \<longleftrightarrow> \<not> bit w k"
  by (rule and_exp_eq_0_iff_not_bit)

lemma div_mod_64_eq: "i div 64 = j div 64 \<Longrightarrow> i mod 64 = j mod 64 \<Longrightarrow> i = (j :: nat)"
  by (metis div_mult_mod_eq)

lemma bit_update:
  assumes "q < length ws" and "r < 64"
  shows "(q' < length (ws[q := ws ! q OR 2 ^ r]) \<and> bit (ws[q := ws ! q OR 2 ^ r] ! q') r') \<longleftrightarrow>
    q' = q \<and> r' = r \<or> q' < length (ws :: 64 word list) \<and> bit (ws ! q') r'"
  using assms by (cases "q' = q") (auto simp: bit_or_iff bit_exp_iff)

lemma bitMem_update:
  assumes "i div 64 < length ws"
  shows "bitMem (ws[i div 64 := ws ! (i div 64) OR 2 ^ (i mod 64)]) j \<longleftrightarrow> j = i \<or> bitMem ws j"
  using bit_update[OF assms, of "i mod 64" "j div 64" "j mod 64"] div_mod_64_eq[of i j] assms
  unfolding bitMem_def by (metis mod_less_divisor zero_less_numeral)

lemma bitMark_correct:
  assumes "i div 64 < length ws"
  shows "\<exists>ws'. bitMark ws i = Some (ws', \<not> bitMem ws i) \<and> length ws' = length ws \<and>
    (\<forall>j. bitMem ws' j \<longleftrightarrow> j = i \<or> bitMem ws j)"
proof (cases "bitMem ws i")
  case True
  with assms show ?thesis
    by (auto simp: bitMark_def idx_Some and_shifted_one bitMem_def)
next
  case False
  have "bitMem (ws[i div 64 := ws ! (i div 64) OR 2 ^ (i mod 64)]) j \<longleftrightarrow> j = i \<or> bitMem ws j" for j
    by (rule bitMem_update[OF assms])
  with assms False show ?thesis
    by (auto simp: bitMark_def idx_Some and_shifted_one bitMem_def)
qed

text \<open>Setting a bit, without reporting whether it was new.\<close>

definition bitSet :: "64 word list \<Rightarrow> nat \<Rightarrow> 64 word list option" where
  "bitSet ws i = do {
     w \<leftarrow> idx ws (i div 64);
     upd ws (i div 64) (w OR push_bit (i mod 64) 1)
   }"

definition bitTest :: "64 word list \<Rightarrow> nat \<Rightarrow> bool option" where
  "bitTest ws i = do { w \<leftarrow> idx ws (i div 64); Some (w AND push_bit (i mod 64) 1 \<noteq> 0) }"

lemma bitSet_correct:
  assumes "i div 64 < length ws"
  shows "\<exists>ws'. bitSet ws i = Some ws' \<and> length ws' = length ws \<and> (\<forall>j. bitMem ws' j \<longleftrightarrow> j = i \<or> bitMem ws j)"
proof -
  have "bitMem (ws[i div 64 := ws ! (i div 64) OR 2 ^ (i mod 64)]) j \<longleftrightarrow> j = i \<or> bitMem ws j" for j
    by (rule bitMem_update[OF assms])
  with assms show ?thesis by (simp add: bitSet_def idx_Some upd_Some)
qed

lemma bitTest_correct: "i div 64 < length ws \<Longrightarrow> bitTest ws i = Some (bitMem ws i)"
  by (simp add: bitTest_def idx_Some and_shifted_one bitMem_def)

end
