(* ===== verification/Collector.thy ===== *)
theory Collector
  imports Outputs Bitset
begin

text \<open>
  The set collector of \<^verbatim>\<open>internal/engine/engine_output.go\<close>: it folds the output
  chains of the states a scan lands on into the list of distinct keywords, in
  first-match order.  Both of its membership tests, over keyword ids and over
  states, are bitsets below \<open>dedupHashMin\<close> and hash sets from there on.  The main
  lemma says that collecting a chain extends the ids collected so far by the
  new ids of that chain, whichever representation is in use and although a
  state seen before is not walked again.
\<close>

text \<open>
  One of the two representations: the bitset when it was allocated, otherwise
  the hash map (as a list of its keys); writing to a nil map panics.
\<close>

definition mark ::
  "64 word list option \<Rightarrow> nat list option \<Rightarrow> nat \<Rightarrow> (64 word list option \<times> nat list option \<times> bool) option"
where
  "mark bs hs i =
     (case bs of
        Some ws \<Rightarrow> do { (ws', new) \<leftarrow> bitMark ws i; Some (Some ws', hs, new) }
      | None \<Rightarrow>
          (case hs of
             None \<Rightarrow> None
           | Some xs \<Rightarrow>
               if i \<in> set xs then Some (None, hs, False) else Some (None, Some (i # xs), True)))"

record setCollector =
  sc_out :: "gostring list option"
  sc_seen :: "64 word list option"
  sc_seenStates :: "64 word list option"
  sc_seenKw :: "nat list option"
  sc_seenSt :: "nat list option"

definition new_collector :: setCollector where
  "new_collector = \<lparr>sc_out = None, sc_seen = None, sc_seenStates = None, sc_seenKw = None, sc_seenSt = None\<rparr>"

definition dedupHashMin :: nat where "dedupHashMin = 2 ^ 20"

definition markState :: "setCollector \<Rightarrow> nat \<Rightarrow> (setCollector \<times> bool) option" where
  "markState c state = do {
     (bs, hs, new) \<leftarrow> mark (sc_seenStates c) (sc_seenSt c) state;
     Some (c\<lparr>sc_seenStates := bs, sc_seenSt := hs\<rparr>, new)
   }"

definition markKeyword :: "setCollector \<Rightarrow> nat \<Rightarrow> (setCollector \<times> bool) option" where
  "markKeyword c k = do {
     (bs, hs, new) \<leftarrow> mark (sc_seen c) (sc_seenKw c) k;
     Some (c\<lparr>sc_seen := bs, sc_seenKw := hs\<rparr>, new)
   }"

text \<open>The loop over the chain at the end of \<^verbatim>\<open>collectChain\<close>.\<close>

partial_function (option) collectLoop :: "outputs \<Rightarrow> setCollector \<Rightarrow> int \<Rightarrow> setCollector option" where
  "collectLoop out c s =
     (if s = outNone then Some c
      else do {
        k \<leftarrow> idxi (own out) s;
        l \<leftarrow> idxi (outLink out) s;
        if k \<noteq> 0
        then do {
          (c1, new) \<leftarrow> markKeyword c k;
          kw \<leftarrow> idx (kwords out) k;
          collectLoop out
            (if new
             then c1\<lparr>sc_out := Some ((case sc_out c1 of None \<Rightarrow> [] | Some xs \<Rightarrow> xs) @ [kw])\<rparr>
             else c1) l
        }
        else collectLoop out c l
      })"

declare collectLoop.simps [code]

definition allocate :: "outputs \<Rightarrow> setCollector \<Rightarrow> setCollector" where
  "allocate out c =
     (if length (kwords out) + length (own out) \<ge> dedupHashMin
      then c\<lparr>sc_out := Some [], sc_seenKw := Some [], sc_seenSt := Some []\<rparr>
      else c\<lparr>sc_out := Some [],
             sc_seen := Some (replicate ((length (kwords out) + 63) div 64) 0),
             sc_seenStates := Some (replicate ((length (own out) + 63) div 64) 0)\<rparr>)"

definition collectChain :: "outputs \<Rightarrow> setCollector \<Rightarrow> nat \<Rightarrow> setCollector option" where
  "collectChain out c state = do {
     k \<leftarrow> idx (own out) state;
     l \<leftarrow> idx (outLink out) state;
     if k = 0 \<and> l = outNone then Some c
     else do {
       (c2, new) \<leftarrow> markState (if sc_out c = None then allocate out c else c) state;
       if new then collectLoop out c2 (int state) else Some c2
     }
   }"

definition collector_result :: "setCollector \<Rightarrow> gostring list" where
  "collector_result c = (case sc_out c of None \<Rightarrow> [] | Some xs \<Rightarrow> xs)"

section \<open>The two set representations\<close>

definition marks :: "64 word list option \<Rightarrow> nat list option \<Rightarrow> nat \<Rightarrow> bool" where
  "marks bs hs i \<longleftrightarrow>
     (case bs of Some ws \<Rightarrow> bitMem ws i | None \<Rightarrow> (case hs of None \<Rightarrow> False | Some xs \<Rightarrow> i \<in> set xs))"

text \<open>The representation can hold every index below \<open>n\<close>.\<close>

definition markable :: "64 word list option \<Rightarrow> nat list option \<Rightarrow> nat \<Rightarrow> bool" where
  "markable bs hs n \<longleftrightarrow> (case bs of Some ws \<Rightarrow> n \<le> 64 * length ws | None \<Rightarrow> hs \<noteq> None)"

lemma mark_correct:
  assumes "markable bs hs n" and "i < n"
  shows "\<exists>bs' hs'. mark bs hs i = Some (bs', hs', \<not> marks bs hs i) \<and> markable bs' hs' n \<and>
    (\<forall>j. marks bs' hs' j \<longleftrightarrow> j = i \<or> marks bs hs j)"
proof (cases bs)
  case None
  with assms show ?thesis by (auto simp: mark_def marks_def markable_def)
next
  case (Some ws)
  with assms have "i div 64 < length ws" by (auto simp: markable_def)
  from bitMark_correct[OF this] assms Some show ?thesis
    by (fastforce simp: mark_def marks_def markable_def)
qed

section \<open>Collecting chains\<close>

text \<open>
  \<open>collected out c ids\<close>: the collector holds exactly the keywords \<open>ids\<close>, and every
  state it would skip reports only keywords it holds.
\<close>

definition kw_part :: "outputs \<Rightarrow> setCollector \<Rightarrow> nat list \<Rightarrow> bool" where
  "kw_part out c ids \<longleftrightarrow> distinct ids \<and> sc_out c = Some (map ((!) (kwords out)) ids) \<and>
     markable (sc_seen c) (sc_seenKw c) (length (kwords out)) \<and>
     (\<forall>k. marks (sc_seen c) (sc_seenKw c) k \<longleftrightarrow> k \<in> set ids)"

definition collected :: "outputs \<Rightarrow> setCollector \<Rightarrow> nat list \<Rightarrow> bool" where
  "collected out c ids \<longleftrightarrow>
     (if sc_out c = None then c = new_collector \<and> ids = []
      else kw_part out c ids \<and>
        markable (sc_seenStates c) (sc_seenSt c) (length (own out)) \<and>
        (\<forall>s js. marks (sc_seenStates c) (sc_seenSt c) s \<longrightarrow> chain out (int s) js \<longrightarrow> set js \<subseteq> set ids))"

lemma chain_deterministic: "chain out s ids \<Longrightarrow> chain out s ids' \<Longrightarrow> ids = ids'"
proof (induction arbitrary: ids' rule: chain.induct)
  case chain_end
  then show ?case by (simp add: chain_outNone)
next
  case (chain_skip s l ids)
  from chain_skip.prems idxi_Some_nonneg[OF chain_skip.hyps(1)] chain_skip.hyps(1,2)
  have "chain out l ids'" by (simp add: chain_unfold)
  then show ?case by (rule chain_skip.IH)
next
  case (chain_own s k l ids)
  from chain_own.prems idxi_Some_nonneg[OF chain_own.hyps(1)] chain_own.hyps(1,2,5)
  obtain js where "chain out l js" "ids' = k # js" by (auto simp: chain_unfold)
  with chain_own.IH show ?case by blast
qed

lemma collectLoop_correct:
  assumes "chain out s ids" and "kw_part out c L"
  shows "\<exists>c'. collectLoop out c s = Some c' \<and> kw_part out c' (nub (L @ ids)) \<and>
    sc_seenStates c' = sc_seenStates c \<and> sc_seenSt c' = sc_seenSt c"
  using assms
proof (induction arbitrary: c L rule: chain.induct)
  case chain_end
  then show ?case by (auto simp: collectLoop.simps kw_part_def)
next
  case (chain_skip s l ids)
  then show ?case by (subst collectLoop.simps) (simp add: idxi_Some_nonneg)
next
  case (chain_own s k l ids)
  from chain_own.prems have "markable (sc_seen c) (sc_seenKw c) (length (kwords out))"
    and mem: "marks (sc_seen c) (sc_seenKw c) k \<longleftrightarrow> k \<in> set L"
    by (auto simp: kw_part_def)
  from mark_correct[OF this(1) chain_own.hyps(3)] mem obtain bs hs
    where m: "mark (sc_seen c) (sc_seenKw c) k = Some (bs, hs, k \<notin> set L)"
      "markable bs hs (length (kwords out))"
      "\<forall>j. marks bs hs j \<longleftrightarrow> j = k \<or> marks (sc_seen c) (sc_seenKw c) j"
    by auto
  let ?c1 = "c\<lparr>sc_seen := bs, sc_seenKw := hs\<rparr>"
  let ?c2 = "if k \<notin> set L
    then ?c1\<lparr>sc_out := Some ((case sc_out ?c1 of None \<Rightarrow> [] | Some xs \<Rightarrow> xs) @ [kwords out ! k])\<rparr> else ?c1"
  have "kw_part out ?c2 (if k \<in> set L then L else L @ [k])"
    using chain_own.prems m by (auto simp: kw_part_def)
  from chain_own.IH[OF this] show ?case
    using chain_own.hyps m
    by (subst collectLoop.simps) (auto simp: idxi_Some_nonneg idx_Some markKeyword_def nub_dup)
qed

lemma allocate_collected:
  "kw_part out (allocate out new_collector) [] \<and>
   markable (sc_seenStates (allocate out new_collector)) (sc_seenSt (allocate out new_collector)) (length (own out)) \<and>
   \<not> marks (sc_seenStates (allocate out new_collector)) (sc_seenSt (allocate out new_collector)) s"
  by (auto simp: allocate_def new_collector_def kw_part_def markable_def marks_def bitMem_def nth_replicate)

lemma collectChain_correct:
  assumes "collected out c L" and "chain out (int s) ids"
  shows "\<exists>c'. collectChain out c s = Some c' \<and> collected out c' (nub (L @ ids))"
proof -
  have s: "s < length (own out)" "s < length (outLink out)"
    using assms(2) by (auto simp: chain_unfold idxi_of_nat idx_eq_Some)
  show ?thesis
  proof (cases "own out ! s = 0 \<and> outLink out ! s = outNone")
    case True
    then have "ids = []"
      using assms(2) s by (auto simp: chain_unfold idxi_of_nat idx_Some chain_outNone)
    moreover have "distinct L" using assms(1) by (auto simp: collected_def kw_part_def split: if_splits)
    ultimately show ?thesis using True s assms(1) by (simp add: collectChain_def idx_Some)
  next
    case False
    let ?c1 = "if sc_out c = None then allocate out c else c"
    have c1: "kw_part out ?c1 L"
      "markable (sc_seenStates ?c1) (sc_seenSt ?c1) (length (own out))"
      "\<And>s js. marks (sc_seenStates ?c1) (sc_seenSt ?c1) s \<Longrightarrow> chain out (int s) js \<Longrightarrow> set js \<subseteq> set L"
      using assms(1) allocate_collected[of out] by (auto simp: collected_def split: if_splits)
    from mark_correct[OF c1(2) s(1)] obtain bs hs
      where m: "mark (sc_seenStates ?c1) (sc_seenSt ?c1) s =
          Some (bs, hs, \<not> marks (sc_seenStates ?c1) (sc_seenSt ?c1) s)"
        "markable bs hs (length (own out))"
        "\<forall>j. marks bs hs j \<longleftrightarrow> j = s \<or> marks (sc_seenStates ?c1) (sc_seenSt ?c1) j"
      by blast
    let ?c2 = "?c1\<lparr>sc_seenStates := bs, sc_seenSt := hs\<rparr>"
    have c2: "kw_part out ?c2 L" using c1(1) by (simp add: kw_part_def)
    have state: "markState ?c1 s = Some (?c2, \<not> marks (sc_seenStates ?c1) (sc_seenSt ?c1) s)"
      using m(1) by (simp add: markState_def)
    have subset: "set js \<subseteq> set L \<union> set ids" if "marks bs hs j" "chain out (int j) js" for j js
    proof (cases "j = s")
      case True
      with chain_deterministic[OF assms(2)] that(2) have "js = ids" by simp
      then show ?thesis by simp
    next
      case False
      with that(1) m(3) have "marks (sc_seenStates ?c1) (sc_seenSt ?c1) j" by blast
      from c1(3)[OF this that(2)] show ?thesis by blast
    qed
    show ?thesis
    proof (cases "marks (sc_seenStates ?c1) (sc_seenSt ?c1) s")
      case True
      with c1(3) assms(2) have sub: "set ids \<subseteq> set L" by blast
      then have "nub (L @ ids) = L" using c2 by (auto simp: nub_append kw_part_def filter_empty_conv)
      with True c2 m(2) sub subset state s False show ?thesis
        by (auto simp: collectChain_def idx_Some collected_def kw_part_def)
    next
      case new: False
      from collectLoop_correct[OF assms(2) c2] obtain c'
        where c': "collectLoop out ?c2 (int s) = Some c'" "kw_part out c' (nub (L @ ids))"
          "sc_seenStates c' = bs" "sc_seenSt c' = hs"
        by auto
      then have "collected out c' (nub (L @ ids))"
        using m(2) subset by (auto simp: collected_def kw_part_def)
      with new c'(1) state s False show ?thesis
        by (auto simp: collectChain_def idx_Some)
    qed
  qed
qed

lemma collected_new: "collected out new_collector []"
  by (simp add: collected_def new_collector_def)

lemma collected_result: "collected out c ids \<Longrightarrow> collector_result c = map ((!) (kwords out)) ids"
  by (auto simp: collected_def collector_result_def kw_part_def split: option.splits if_splits)

end
