(* ===== verification/Scanner.thy ===== *)
theory Scanner
  imports Collector
begin

text \<open>
  What the scan operations rely on, and what follows from it.  The locale
  \<open>scanner\<close> is the contract of an engine: after reading \<open>w\<close> from the root, the
  state reports exactly the keywords ending at \<open>w\<close>.  Inside it, each scan the
  engines perform (collect keywords, group positions, collect the set, call
  back, stream) is shown to produce what the specification lists.  The engines
  interpret the locale in their own theories.
\<close>

section \<open>The scans the engines share\<close>

definition hit_find :: "outputs \<Rightarrow> nat \<Rightarrow> int \<Rightarrow> gostring list option \<Rightarrow> (gostring list option \<times> bool) option" where
  "hit_find out st i a = do { a' \<leftarrow> appendChain out a (int st); Some (a', True) }"

definition hit_index ::
  "outputs \<Rightarrow> nat \<Rightarrow> int \<Rightarrow> (gostring \<rightharpoonup> int list) \<Rightarrow> ((gostring \<rightharpoonup> int list) \<times> bool) option" where
  "hit_index out st i a = do { a' \<leftarrow> indexChain out a (int st) i; Some (a', True) }"

definition hit_set :: "outputs \<Rightarrow> nat \<Rightarrow> int \<Rightarrow> setCollector \<Rightarrow> (setCollector \<times> bool) option" where
  "hit_set out st i a = do { a' \<leftarrow> collectChain out a st; Some (a', True) }"

definition hit_emit ::
  "outputs \<Rightarrow> (match \<Rightarrow> 'a \<Rightarrow> 'a \<times> bool) \<Rightarrow> nat \<Rightarrow> int \<Rightarrow> 'a \<Rightarrow> ('a \<times> bool) option" where
  "hit_emit out emit st i a = emitChain out (int st) i emit a"

text \<open>A presence check stops at the first state that carries keywords.\<close>

definition hit_stop :: "nat \<Rightarrow> int \<Rightarrow> bool \<Rightarrow> (bool \<times> bool) option" where
  "hit_stop st i a = Some (True, False)"

section \<open>The specification as an automaton\<close>

text \<open>The automaton whose state is the text read so far.\<close>

definition spec_step :: "rune list \<Rightarrow> rune \<Rightarrow> (rune list \<times> bool) option" where
  "spec_step w c = Some (w @ [c], True)"

definition spec_emit ::
  "dict \<Rightarrow> (match \<Rightarrow> 'a \<Rightarrow> 'a \<times> bool) \<Rightarrow> rune list \<Rightarrow> int \<Rightarrow> 'a \<Rightarrow> ('a \<times> bool) option" where
  "spec_emit D emit w i a = Some (emitAll emit (matches_at D w) a)"

text \<open>
  Streaming against the specification: pull a rune, report the matches that end
  there, go on until the input ends or the consumer stops.
\<close>

definition spec_stream ::
  "dict \<Rightarrow> (match \<Rightarrow> 'a \<Rightarrow> 'a \<times> bool) \<Rightarrow> ('a \<Rightarrow> rune option \<times> 'a) \<Rightarrow> 'a \<Rightarrow> 'a option" where
  "spec_stream D emit nxt a = streamLoop spec_step (spec_emit D emit) nxt [] 0 a"

section \<open>What the operations promise\<close>

text \<open>
  Every occurrence; every keyword once, in first-match order; the start offsets
  by keyword; a callback per occurrence until it asks to stop; the same over a
  stream, where an empty dictionary pulls nothing; and presence.
\<close>

definition spec_find :: "dict \<Rightarrow> gostring \<Rightarrow> gostring list" where
  "spec_find D text = map fst (occurrences D (runes text))"

definition spec_findSet :: "dict \<Rightarrow> gostring \<Rightarrow> gostring list" where
  "spec_findSet D text = nub (spec_find D text)"

definition spec_findIndex :: "dict \<Rightarrow> gostring \<Rightarrow> (gostring \<rightharpoonup> int list)" where
  "spec_findIndex D text k =
     (let starts = [s. (k', s, e) \<leftarrow> occurrences D (runes text), k' = k]
      in if starts = [] then None else Some starts)"

definition spec_match :: "dict \<Rightarrow> gostring \<Rightarrow> (match \<Rightarrow> 'a \<Rightarrow> 'a \<times> bool) \<Rightarrow> 'a \<Rightarrow> 'a" where
  "spec_match D text emit a = fst (emitAll emit (occurrences D (runes text)) a)"

definition spec_contains :: "dict \<Rightarrow> gostring \<Rightarrow> bool" where
  "spec_contains D text \<longleftrightarrow> occurrences D (runes text) \<noteq> []"

definition spec_matchStream ::
  "dict \<Rightarrow> ('a \<Rightarrow> rune option \<times> 'a) \<Rightarrow> (match \<Rightarrow> 'a \<Rightarrow> 'a \<times> bool) \<Rightarrow> 'a \<Rightarrow> 'a option" where
  "spec_matchStream D nxt emit a = (if dom D = {} then Some a else spec_stream D emit nxt a)"

lemma spec_findIndex_fold: "fold add_start (occurrences D (runes text)) Map.empty = spec_findIndex D text"
  by (rule ext) (simp add: fold_add_start spec_findIndex_def)

lemma occs_from_empty: "dom D = {} \<Longrightarrow> occs_from D w cs = []"
proof -
  assume "dom D = {}"
  then have "outs_at D v = []" for v by (induction v) (simp_all add: outs_at_def)
  then show ?thesis by (induction cs arbitrary: w) (simp_all add: matches_at_def)
qed

lemma occurrences_empty [simp]: "occurrences Map.empty cs = []"
  by (simp add: occurrences_def occs_from_empty)

lemma spec_empty:
  assumes "dom D = {}"
  shows "spec_find D text = []" "spec_findSet D text = []" "spec_findIndex D text = Map.empty"
    "spec_match D text emit a = a" "\<not> spec_contains D text"
  using occs_from_empty[OF assms]
  by (auto simp: spec_find_def spec_findSet_def spec_findIndex_def spec_match_def spec_contains_def occurrences_def)

lemma streamLoop_simulation_half:
  assumes sim: "\<And>st w i c a. R st w i \<Longrightarrow> \<exists>st' h w' h'. stepA st c = Some (st', h) \<and>
      stepB w c = Some (w', h') \<and> R st' w' (i + 1) \<and>
      (if h then hitA st' (i + 1) a else Some (a, True)) =
      (if h' then hitB w' (i + 1) a else Some (a, True))"
    and R: "R st w i"
    and ret: "streamLoop stepA hitA nxt st i a = Some r"
  shows "streamLoop stepB hitB nxt w i a = Some r"
proof -
  have "\<forall>w. step = stepA \<longrightarrow> hit = hitA \<longrightarrow> R st w i \<longrightarrow> streamLoop stepB hitB nxt w i a = Some r"
    if "streamLoop step hit nxt st i a = Some r" for step hit nxt st i a r
  proof (rule streamLoop.raw_induct[OF _ that])
    fix f step hit nxt st i a r
    assume IH: "\<And>step hit nxt st i a r. f step hit nxt st i a = Some r \<Longrightarrow>
        \<forall>w. step = stepA \<longrightarrow> hit = hitA \<longrightarrow> R st w i \<longrightarrow> streamLoop stepB hitB nxt w i a = Some r"
      and eq: "(case nxt a of (None, a1) \<Rightarrow> Some a1
        | (Some c, a1) \<Rightarrow> do { (st', out) \<leftarrow> step st c;
            if out then do { (a2, go) \<leftarrow> hit st' (i + 1) a1;
              if go then f step hit nxt st' (i + 1) a2 else Some a2 }
            else f step hit nxt st' (i + 1) a1 }) = Some r"
    show "\<forall>w. step = stepA \<longrightarrow> hit = hitA \<longrightarrow> R st w i \<longrightarrow> streamLoop stepB hitB nxt w i a = Some r"
    proof (intro allI impI)
      fix w assume AB: "step = stepA" "hit = hitA" and R: "R st w i"
      obtain x a1 where nx: "nxt a = (x, a1)" by fastforce
      show "streamLoop stepB hitB nxt w i a = Some r"
      proof (cases x)
        case None
        with nx eq show ?thesis by (simp add: streamLoop.simps)
      next
        case (Some c)
        from sim[OF R, of c a1] obtain st' h w' h'
          where s: "stepA st c = Some (st', h)" "stepB w c = Some (w', h')" "R st' w' (i + 1)"
            and h: "(if h then hitA st' (i + 1) a1 else Some (a1, True)) =
              (if h' then hitB w' (i + 1) a1 else Some (a1, True))"
          by blast
        from eq nx Some s(1) AB obtain a2 go
          where o: "(if h then hitA st' (i + 1) a1 else Some (a1, True)) = Some (a2, go)"
            "(if go then f stepA hitA nxt st' (i + 1) a2 else Some a2) = Some r"
          by (auto split: if_splits Option.bind_splits)
        from o(2) IH s(3) have "(if go then streamLoop stepB hitB nxt w' (i + 1) a2 else Some a2) = Some r"
          by (auto split: if_splits)
        moreover from h o(1) have "(if h' then hitB w' (i + 1) a1 else Some (a1, True)) = Some (a2, go)"
          by simp
        ultimately show ?thesis using nx Some s(2)
          by (subst streamLoop.simps) (auto split: if_splits)
      qed
    qed
  qed
  with ret R show ?thesis by blast
qed

lemma streamLoop_simulation:
  assumes sim: "\<And>st w i c a. R st w i \<Longrightarrow> \<exists>st' h w' h'. stepA st c = Some (st', h) \<and>
      stepB w c = Some (w', h') \<and> R st' w' (i + 1) \<and>
      (if h then hitA st' (i + 1) a else Some (a, True)) =
      (if h' then hitB w' (i + 1) a else Some (a, True))"
    and R: "R st w i"
  shows "streamLoop stepA hitA nxt st i a = streamLoop stepB hitB nxt w i a"
proof -
  have AB: "streamLoop stepA hitA nxt st i a = Some r \<Longrightarrow> streamLoop stepB hitB nxt w i a = Some r" for r
    by (rule streamLoop_simulation_half[of R, OF sim R])
  have BA: "streamLoop stepB hitB nxt w i a = Some r \<Longrightarrow> streamLoop stepA hitA nxt st i a = Some r" for r
    by (rule streamLoop_simulation_half[of "\<lambda>w st. R st w" stepB stepA hitB hitA w st i])
      (use sim R in \<open>metis (no_types, lifting)\<close>)+
  from AB BA show ?thesis
    by (cases "streamLoop stepA hitA nxt st i a"; cases "streamLoop stepB hitB nxt w i a") auto
qed

section \<open>Helpers\<close>

text \<open>A function of the text read, applied along a text until it asks to stop.\<close>

primrec scan_spec :: "(rune list \<Rightarrow> 'a \<Rightarrow> 'a \<times> bool) \<Rightarrow> rune list \<Rightarrow> rune list \<Rightarrow> 'a \<Rightarrow> 'a \<times> bool" where
  "scan_spec f w [] a = (a, True)"
| "scan_spec f w (c # cs) a =
     (case f (w @ [c]) a of (a', go) \<Rightarrow> if go then scan_spec f (w @ [c]) cs a' else (a', False))"

text \<open>Appending to a slice that stays nil until something is appended.\<close>

definition append_opt :: "'a list option \<Rightarrow> 'a list \<Rightarrow> 'a list option" where
  "append_opt dst xs = (if xs = [] then dst else Some ((case dst of None \<Rightarrow> [] | Some d \<Rightarrow> d) @ xs))"

lemma append_opt_Nil [simp]: "append_opt dst [] = dst"
  by (simp add: append_opt_def)

lemma append_opt_append: "append_opt (append_opt dst xs) ys = append_opt dst (xs @ ys)"
  by (simp add: append_opt_def)

lemma append_opt_None: "(case append_opt None xs of None \<Rightarrow> [] | Some d \<Rightarrow> d) = xs"
  by (simp add: append_opt_def)

lemma nub_nub_append: "nub (nub xs @ ys) = nub (xs @ ys)"
  by (simp add: nub_append)

lemma inj_on_nth_tl:
  "distinct (tl xs) \<Longrightarrow> (\<And>k. k \<in> A \<Longrightarrow> 0 < k \<and> k < length xs) \<Longrightarrow> inj_on ((!) xs) A"
proof (rule inj_onI)
  fix i j
  assume "distinct (tl xs)" "\<And>k. k \<in> A \<Longrightarrow> 0 < k \<and> k < length xs" "i \<in> A" "j \<in> A" "xs ! i = xs ! j"
  moreover from this(2-4) have "i < length xs" "j < length xs" by auto
  moreover from calculation(2-4) obtain i' j' where "i = Suc i'" "j = Suc j'" by (metis gr0_conv_Suc)
  ultimately show "i = j" by (cases xs) (auto simp: nth_eq_iff_index_eq)
qed

lemma chain_ids: "chain out s ids \<Longrightarrow> k \<in> set ids \<Longrightarrow> 0 < k \<and> k < length (kwords out)"
  by (induction rule: chain.induct) auto

section \<open>Scanning bytes instead of runes\<close>

text \<open>
  When every symbol from \<open>RuneSelf\<close> on resets to the root and the others step
  alike, scanning the bytes of a text is scanning its runes, for consumers that
  do not look at offsets: a multibyte rune resets once per byte.
\<close>

lemma scanLoop_reset:
  assumes "\<forall>b \<in> set bs. \<forall>s. stepB s b = Some (root, False)" and "bs \<noteq> []"
  shows "\<exists>j. scanLoop stepB hit (bs @ cs) s i a = scanLoop stepB hit cs root j a"
  using assms
proof (induction bs arbitrary: s i)
  case (Cons b bs)
  then show ?case by (cases "bs = []") auto
qed simp

lemma scanLoop_bytes:
  assumes reset_byte: "\<And>s b. RuneSelf \<le> b \<Longrightarrow> stepB s b = Some (root, False)"
    and reset_rune: "\<And>s r. RuneSelf \<le> r \<Longrightarrow> stepR s r = Some (root, False)"
    and ascii: "\<And>s b. 0 \<le> b \<Longrightarrow> b < RuneSelf \<Longrightarrow> stepB s b = stepR s b"
    and offsets: "\<forall>s i j a. hit s i a = hit s j a"
  shows "scanLoop stepB hit (map byte text) s i a = scanLoop stepR hit (runes text) s j a"
proof (induction "text" arbitrary: s i j a rule: runes_induct)
  case (Rune c cs r k)
  note IH = Rune(4)
  from decodeRune_cases[OF Rune(1)] consider
    "byte c < RuneSelf" "r = byte c" "k = 1" | "RuneSelf \<le> r" "\<forall>b \<in> set (take k (c # cs)). RuneSelf \<le> byte b"
    by blast
  then show ?case
  proof cases
    case 1
    with ascii[of "byte c" s] IH have "stepB s (byte c) = stepR s r" "drop k (c # cs) = cs" by simp_all
    moreover have "hit s' (i + 1) a = hit s' (j + 1) a" for s' a using offsets by blast
    ultimately show ?thesis using IH runes_Cons[OF Rune(1)]
      by (auto split: Option.bind_splits)
  next
    case 2
    have "map byte (c # cs) = map byte (take k (c # cs)) @ map byte (drop k (c # cs))"
      by (metis append_take_drop_id map_append)
    moreover have "\<forall>b \<in> set (map byte (take k (c # cs))). \<forall>s. stepB s b = Some (root, False)"
      using 2(2) reset_byte by auto
    moreover have "map byte (take k (c # cs)) \<noteq> []" using Rune(2) by (cases k) auto
    ultimately obtain i' where "scanLoop stepB hit (map byte (c # cs)) s i a =
        scanLoop stepB hit (map byte (drop k (c # cs))) root i' a"
      using scanLoop_reset by metis
    also have "\<dots> = scanLoop stepR hit (runes (drop k (c # cs))) root (j + 1) a" by (rule IH)
    also have "\<dots> = scanLoop stepR hit (runes (c # cs)) s j a"
      using reset_rune[OF 2(1)] runes_Cons[OF Rune(1)] by simp
    finally show ?thesis .
  qed
qed simp

section \<open>The contract of an engine\<close>

locale scanner =
  fixes step :: "'e \<Rightarrow> nat \<Rightarrow> rune \<Rightarrow> (nat \<times> bool) option"
    and root :: nat
    and out_of :: "'e \<Rightarrow> outputs"
    and built :: "'e \<Rightarrow> dict \<Rightarrow> bool"
    and rep :: "'e \<Rightarrow> dict \<Rightarrow> rune list \<Rightarrow> nat \<Rightarrow> bool"
  assumes rep_root: "built e D \<Longrightarrow> rep e D [] root"
    and rep_step: "built e D \<Longrightarrow> rep e D w s \<Longrightarrow> \<exists>s' h. step e s c = Some (s', h) \<and>
      rep e D (w @ [c]) s' \<and> (\<not> h \<longrightarrow> outs_at D (w @ [c]) = [])"
    and rep_chain: "built e D \<Longrightarrow> rep e D w s \<Longrightarrow> \<exists>ids. chain (out_of e) (int s) ids \<and>
      map (\<lambda>k. (kwords (out_of e) ! k, runeLens (out_of e) ! k)) ids = outs_at D w"
    and distinct_kwords: "built e D \<Longrightarrow> distinct (tl (kwords (out_of e)))"
begin

lemma matches_of_ids:
  assumes "map (\<lambda>k. (kwords (out_of e) ! k, runeLens (out_of e) ! k)) ids = outs_at D w"
  shows "map (id_match (out_of e) (int (length w))) ids = matches_at D w"
  by (simp add: matches_at_def id_match_def comp_def flip: assms)

lemma keywords_of_ids:
  assumes "map (\<lambda>k. (kwords (out_of e) ! k, runeLens (out_of e) ! k)) ids = outs_at D w"
  shows "map ((!) (kwords (out_of e))) ids = map fst (matches_at D w)"
  by (simp add: matches_at_def comp_def case_prod_unfold flip: assms)

text \<open>
  The scan rule: when every hit computes a function \<open>f\<close> of the text read, and \<open>f\<close>
  leaves the accumulator alone where nothing ends, the scan computes \<open>f\<close> along
  the text, until it stops.
\<close>

lemma scan_rule:
  assumes built: "built e D" and rep: "rep e D w s"
    and hit: "\<And>w s a. rep e D w s \<Longrightarrow> hit s (int (length w)) a = Some (f w a)"
    and idle: "\<And>w a. outs_at D w = [] \<Longrightarrow> f w a = (a, True)"
  shows "scanLoop (step e) hit cs s (int (length w)) a = Some (scan_spec f w cs a)"
  using rep
proof (induction cs arbitrary: w s a)
  case (Cons c cs)
  from rep_step[OF built Cons.prems, of c] obtain s' h
    where s': "step e s c = Some (s', h)" "rep e D (w @ [c]) s'" "\<not> h \<longrightarrow> outs_at D (w @ [c]) = []"
    by blast
  have "hit s' (int (length w) + 1) a = Some (f (w @ [c]) a)" for a
    using hit[OF s'(2)] by (simp add: add.commute)
  moreover have "scanLoop (step e) hit cs s' (int (length w) + 1) a = Some (scan_spec f (w @ [c]) cs a)" for a
    using Cons.IH[OF s'(2), of a] by (simp add: add.commute)
  ultimately show ?case using s'(1,3) idle by (auto split: prod.split)
qed simp

lemma emit_spec: "scan_spec (\<lambda>w a. emitAll emit (matches_at D w) a) w cs a = emitAll emit (occs_from D w cs) a"
  by (induction cs arbitrary: w a) (auto simp: emitAll_append split: prod.split)

lemma scan_emit:
  assumes "built e D"
  shows "scanLoop (step e) (hit_emit (out_of e) emit) cs root 0 a = Some (emitAll emit (occurrences D cs) a)"
proof -
  have hit: "hit_emit (out_of e) emit s (int (length w)) a = Some (emitAll emit (matches_at D w) a)"
    if "rep e D w s" for w s a
    using rep_chain[OF assms that] matches_of_ids by (auto simp: hit_emit_def chain_emitChain)
  have "scanLoop (step e) (hit_emit (out_of e) emit) cs root (int (length ([] :: rune list))) a =
      Some (scan_spec (\<lambda>w a. emitAll emit (matches_at D w) a) [] cs a)"
    by (rule scan_rule[OF assms rep_root[OF assms]]) (rule hit | simp add: matches_at_def)+
  then show ?thesis by (simp add: emit_spec occurrences_def)
qed

lemma index_spec:
  "scan_spec (\<lambda>w a. (fold add_start (matches_at D w) a, True)) w cs a =
     (fold add_start (occs_from D w cs) a, True)"
  by (induction cs arbitrary: w a) auto

lemma scan_index:
  assumes "built e D"
  shows "scanLoop (step e) (hit_index (out_of e)) cs root 0 a = Some (fold add_start (occurrences D cs) a, True)"
proof -
  have hit: "hit_index (out_of e) s (int (length w)) a = Some (fold add_start (matches_at D w) a, True)"
    if "rep e D w s" for w s a
    using rep_chain[OF assms that] matches_of_ids by (auto simp: hit_index_def chain_indexChain)
  have "scanLoop (step e) (hit_index (out_of e)) cs root (int (length ([] :: rune list))) a =
      Some (scan_spec (\<lambda>w a. (fold add_start (matches_at D w) a, True)) [] cs a)"
    by (rule scan_rule[OF assms rep_root[OF assms]]) (rule hit | simp add: matches_at_def)+
  then show ?thesis by (simp add: index_spec occurrences_def)
qed

lemma find_spec:
  "scan_spec (\<lambda>w a. (append_opt a (map fst (matches_at D w)), True)) w cs a =
     (append_opt a (map fst (occs_from D w cs)), True)"
  by (induction cs arbitrary: w a) (auto simp: append_opt_append)

lemma scan_find:
  assumes "built e D"
  shows "scanLoop (step e) (hit_find (out_of e)) cs root 0 a0 =
    Some (append_opt a0 (map fst (occurrences D cs)), True)"
proof -
  have hit: "hit_find (out_of e) s (int (length w)) a = Some (append_opt a (map fst (matches_at D w)), True)"
    if rep: "rep e D w s" for w s a
  proof -
    from rep_chain[OF assms rep] obtain ids where "chain (out_of e) (int s) ids"
      "map ((!) (kwords (out_of e))) ids = map fst (matches_at D w)"
      using keywords_of_ids by blast
    then show ?thesis
      by (simp add: hit_find_def chain_appendChain append_opt_def) (metis map_is_Nil_conv)
  qed
  have "scanLoop (step e) (hit_find (out_of e)) cs root (int (length ([] :: rune list))) a0 =
      Some (scan_spec (\<lambda>w a. (append_opt a (map fst (matches_at D w)), True)) [] cs a0)"
    by (rule scan_rule[OF assms rep_root[OF assms]]) (rule hit | simp add: matches_at_def)+
  then show ?thesis by (simp add: find_spec occurrences_def)
qed

text \<open>Collecting the set: the ids collected are those of all chains, without repetition.\<close>

lemma scan_set_ids:
  assumes built: "built e D" and "rep e D w s" and "collected (out_of e) c (nub L)"
  shows "\<exists>c' ids. scanLoop (step e) (hit_set (out_of e)) cs s i c = Some (c', True) \<and>
    collected (out_of e) c' (nub (L @ ids)) \<and> (\<forall>k \<in> set ids. 0 < k \<and> k < length (kwords (out_of e))) \<and>
    map ((!) (kwords (out_of e))) ids = map fst (occs_from D w cs)"
  using assms(2-)
proof (induction cs arbitrary: w s c L i)
  case Nil
  then show ?case by (intro exI[of _ c] exI[of _ "[]"]) simp
next
  case (Cons a cs)
  from rep_step[OF built Cons.prems(1), of a] obtain s' h
    where s': "step e s a = Some (s', h)" "rep e D (w @ [a]) s'" "\<not> h \<longrightarrow> outs_at D (w @ [a]) = []"
    by blast
  from rep_chain[OF built s'(2)] obtain ids
    where ids: "chain (out_of e) (int s') ids"
      "map (\<lambda>k. (kwords (out_of e) ! k, runeLens (out_of e) ! k)) ids = outs_at D (w @ [a])" by blast
  from collectChain_correct[OF Cons.prems(2) ids(1)] obtain c1
    where c1: "collectChain (out_of e) c s' = Some c1" "collected (out_of e) c1 (nub (L @ ids))"
    by (auto simp: nub_nub_append)
  let ?c = "if h then c1 else c"
  have "ids = []" if "\<not> h" using ids(2) s'(3) that by simp
  then have "collected (out_of e) ?c (nub (L @ ids))" using c1(2) Cons.prems(2) by simp
  from Cons.IH[OF s'(2) this, of "i + 1"] obtain c' ids'
    where r: "scanLoop (step e) (hit_set (out_of e)) cs s' (i + 1) ?c = Some (c', True)"
      "collected (out_of e) c' (nub ((L @ ids) @ ids'))"
      "\<forall>k \<in> set ids'. 0 < k \<and> k < length (kwords (out_of e))"
      "map ((!) (kwords (out_of e))) ids' = map fst (occs_from D (w @ [a]) cs)"
    by blast
  moreover have "\<forall>k \<in> set ids. 0 < k \<and> k < length (kwords (out_of e))"
    using chain_ids[OF ids(1)] by blast
  ultimately show ?case
    using s'(1) c1(1) keywords_of_ids[OF ids(2)]
    by (intro exI[of _ c'] exI[of _ "ids @ ids'"]) (auto simp: hit_set_def[of _ s'])
qed

lemma scan_set:
  assumes "built e D"
  shows "\<exists>c. scanLoop (step e) (hit_set (out_of e)) cs root 0 new_collector = Some (c, True) \<and>
    collector_result c = nub (map fst (occurrences D cs))"
proof -
  from scan_set_ids[OF assms rep_root[OF assms], of new_collector "[]" cs 0] collected_new
  obtain c ids where c: "scanLoop (step e) (hit_set (out_of e)) cs root 0 new_collector = Some (c, True)"
    "collected (out_of e) c (nub ids)" "\<forall>k \<in> set ids. 0 < k \<and> k < length (kwords (out_of e))"
    "map ((!) (kwords (out_of e))) ids = map fst (occurrences D cs)"
    by (auto simp: occurrences_def)
  have "inj_on ((!) (kwords (out_of e))) (set ids)"
    using c(3) distinct_kwords[OF assms] by (intro inj_on_nth_tl) auto
  with c show ?thesis by (auto simp: collected_result nub_map_inj[symmetric])
qed

lemma stream_emit:
  assumes "built e D"
  shows "streamLoop (step e) (hit_emit (out_of e) emit) nxt root 0 a = spec_stream D emit nxt a"
  unfolding spec_stream_def
proof (rule streamLoop_simulation[where R = "\<lambda>s w i. rep e D w s \<and> i = int (length w)"])
  fix st w i c a
  assume R: "rep e D w st \<and> i = int (length w)"
  with rep_step[OF assms, of w st c] obtain s' h where s': "step e st c = Some (s', h)"
    "rep e D (w @ [c]) s'" "\<not> h \<longrightarrow> outs_at D (w @ [c]) = []" by blast
  have "hit_emit (out_of e) emit s' (i + 1) a = Some (emitAll emit (matches_at D (w @ [c])) a)"
    using rep_chain[OF assms s'(2)] matches_of_ids[of e _ D "w @ [c]"] R
    by (auto simp: hit_emit_def chain_emitChain add.commute)
  with s' R show "\<exists>st' h w' h'. step e st c = Some (st', h) \<and> spec_step w c = Some (w', h') \<and>
      (rep e D w' st' \<and> i + 1 = int (length w')) \<and>
      (if h then hit_emit (out_of e) emit st' (i + 1) a else Some (a, True)) =
      (if h' then spec_emit D emit w' (i + 1) a else Some (a, True))"
    by (auto simp: spec_step_def spec_emit_def matches_at_def)
qed (simp add: rep_root[OF assms])

end

text \<open>
  An engine whose step flag is exact: it is set only where a keyword ends, so a
  presence check can stop on the flag alone.
\<close>

locale flagged_scanner = scanner +
  assumes flag_exact: "built e D \<Longrightarrow> rep e D w s \<Longrightarrow> step e s c = Some (s', h) \<Longrightarrow>
    h \<Longrightarrow> outs_at D (w @ [c]) \<noteq> []"
begin

lemma scan_stop_from:
  assumes "built e D" and "rep e D w s"
  shows "scanLoop (step e) hit_stop cs s i False =
    Some (occs_from D w cs \<noteq> [], occs_from D w cs = [])"
  using assms(2)
proof (induction cs arbitrary: w s i)
  case (Cons c cs)
  from rep_step[OF assms(1) Cons.prems, of c] obtain s' h where s': "step e s c = Some (s', h)"
    "rep e D (w @ [c]) s'" "\<not> h \<longrightarrow> outs_at D (w @ [c]) = []" by blast
  with flag_exact[OF assms(1) Cons.prems s'(1)] Cons.IH[OF s'(2), of "i + 1"] show ?case
    by (auto simp: hit_stop_def matches_at_def)
qed simp

lemma scan_stop:
  assumes "built e D"
  shows "scanLoop (step e) hit_stop cs root 0 False =
    Some (occurrences D cs \<noteq> [], occurrences D cs = [])"
  using scan_stop_from[OF assms rep_root[OF assms]] by (simp add: occurrences_def)

end

end
