(* ===== verification/Trie_Core.thy ===== *)
theory Trie_Core
  imports Scanner
begin

text \<open>
  The theory of the automata the three engines build: a goto function whose
  walks from the root are exactly the prefixes of the keywords, failure and
  output links, the breadth-first construction of both, and the loop that
  inserts keywords.  The engines supply the concrete stores.
\<close>

type_synonym goto = "nat \<Rightarrow> rune \<Rightarrow> nat option"

section \<open>Walks\<close>

primrec walk :: "goto \<Rightarrow> nat \<Rightarrow> rune list \<Rightarrow> nat option" where
  "walk g s [] = Some s"
| "walk g s (c # w) = do { t \<leftarrow> g s c; walk g t w }"

lemma walk_append: "walk g s (v @ w) = do { t \<leftarrow> walk g s v; walk g t w }"
  by (induction v arbitrary: s) (auto split: Option.bind_splits)

lemma walk_snoc: "walk g s (w @ [c]) = do { t \<leftarrow> walk g s w; g t c }"
  by (simp add: walk_append)

text \<open>The walks of \<open>g\<close> from \<open>r\<close> are the sequences in \<open>P\<close>, and no two reach one state.\<close>

definition is_trie :: "goto \<Rightarrow> nat \<Rightarrow> rune list set \<Rightarrow> bool" where
  "is_trie g r P \<longleftrightarrow> (\<forall>w. (\<exists>s. walk g r w = Some s) \<longleftrightarrow> w \<in> P) \<and>
     (\<forall>v w s. walk g r v = Some s \<longrightarrow> walk g r w = Some s \<longrightarrow> v = w)"

lemma is_trie_inj: "is_trie g r P \<Longrightarrow> walk g r v = Some s \<Longrightarrow> walk g r w = Some s \<Longrightarrow> v = w"
  unfolding is_trie_def by blast

lemma is_trie_walk: "is_trie g r P \<Longrightarrow> w \<in> P \<Longrightarrow> \<exists>s. walk g r w = Some s"
  unfolding is_trie_def by blast

lemma is_trie_in: "is_trie g r P \<Longrightarrow> walk g r w = Some s \<Longrightarrow> w \<in> P"
  unfolding is_trie_def by blast

lemma is_trie_root: "is_trie g r P \<Longrightarrow> walk g r w = Some r \<longleftrightarrow> w = []"
  using is_trie_inj[of g r P w r "[]"] by auto

lemma walk_eq_iff: "is_trie g r P \<Longrightarrow> walk g r v = Some t \<Longrightarrow> walk g r w = Some s \<Longrightarrow> v = w \<longleftrightarrow> t = s"
  by (metis is_trie_inj option.inject)

lemma is_trie_closed: "is_trie g r P \<Longrightarrow> closed P"
  unfolding is_trie_def closed_def
  by (metis bind_eq_None_conv not_Some_eq walk.simps(1) walk_snoc)

lemma goto_iff:
  assumes "is_trie g r P" and "walk g r w = Some s"
  shows "(\<exists>t. g s c = Some t) \<longleftrightarrow> w @ [c] \<in> P"
  using assms is_trie_walk[OF assms(1), of "w @ [c]"] is_trie_in[OF assms(1), of "w @ [c]"]
  by (auto simp: walk_snoc)

section \<open>Following failure links\<close>

text \<open>
  The loop every search and every builder runs: take the goto edge if there is
  one, otherwise follow the failure link, and stay at the root at last.
\<close>

partial_function (option) gotoLoop ::
  "(nat \<Rightarrow> rune \<Rightarrow> nat option option) \<Rightarrow> (nat \<Rightarrow> nat option) \<Rightarrow> nat \<Rightarrow> nat \<Rightarrow> rune \<Rightarrow> nat option" where
  "gotoLoop nxt fl root s c = do {
     r \<leftarrow> nxt s c;
     (case r of
        Some t \<Rightarrow> Some t
      | None \<Rightarrow> if s = root then Some root else do { f \<leftarrow> fl s; gotoLoop nxt fl root f c })
   }"

declare gotoLoop.simps [code]

text \<open>The failure links of all states of depth at most \<open>d\<close> are right.\<close>

definition fails_upto :: "goto \<Rightarrow> nat \<Rightarrow> rune list set \<Rightarrow> (nat \<Rightarrow> nat option) \<Rightarrow> nat \<Rightarrow> bool" where
  "fails_upto g r P fl d \<longleftrightarrow>
     (\<forall>w s. walk g r w = Some s \<longrightarrow> w \<noteq> [] \<longrightarrow> length w \<le> d \<longrightarrow>
        (\<exists>f. fl s = Some f \<and> walk g r (lps P w) = Some f))"

lemma gotoLoop_correct:
  assumes trie: "is_trie g r P"
    and nxt: "\<forall>w s c. walk g r w = Some s \<longrightarrow> nxt s c = Some (g s c)"
    and fl: "fails_upto g r P fl d"
    and w: "walk g r w = Some s" "length w \<le> d"
  shows "\<exists>t. gotoLoop nxt fl r s c = Some t \<and> walk g r (lsuf P (w @ [c])) = Some t"
  using w
proof (induction "length w" arbitrary: w s rule: less_induct)
  case less
  note closed = is_trie_closed[OF trie]
  have nx: "nxt s c = Some (g s c)" using nxt less.prems(1) by blast
  show ?case
  proof (cases "g s c")
    case (Some t)
    with less.prems(1) have t: "walk g r (w @ [c]) = Some t" by (simp add: walk_snoc)
    with is_trie_in[OF trie t] Some nx show ?thesis
      by (subst gotoLoop.simps) (simp add: lsuf_id)
  next
    case None
    then have notin: "w @ [c] \<notin> P" using goto_iff[OF trie less.prems(1), of c] by simp
    show ?thesis
    proof (cases "w = []")
      case True
      with less.prems(1) have "s = r" by simp
      moreover from notin True have "lsuf P (w @ [c]) = []" by simp
      ultimately show ?thesis using None nx
        by (subst gotoLoop.simps) simp
    next
      case False
      then have "s \<noteq> r" using is_trie_root[OF trie] less.prems(1) by blast
      from fl False less.prems obtain f where f: "fl s = Some f" "walk g r (lps P w) = Some f"
        by (auto simp: fails_upto_def)
      have "length (lps P w) < length w" using False by simp
      from less.hyps[OF this f(2)] less.prems(2) False obtain t
        where "gotoLoop nxt fl r f c = Some t" "walk g r (lsuf P (lps P w @ [c])) = Some t"
        by (metis length_lps less_imp_le_nat order_trans)
      with f(1) None \<open>s \<noteq> r\<close> nx lsuf_fail[OF closed False notin] show ?thesis
        by (subst gotoLoop.simps) simp
    qed
  qed
qed

text \<open>
  The builders write the same loop in two parts: first find the deepest state on
  the failure path that has an edge, then take it if it has one.
  \<^verbatim>\<open>
  for fail != 0 { if _, ok := next(fail, ch); ok { break }; fail = nodes[fail].fail }
  if next, ok := next(fail, ch); ok { fail = next }
  \<close>
\<close>

partial_function (option) failWalk ::
  "(nat \<Rightarrow> rune \<Rightarrow> nat option option) \<Rightarrow> (nat \<Rightarrow> nat option) \<Rightarrow> rune \<Rightarrow> nat \<Rightarrow> nat option" where
  "failWalk nxt fl c f =
     (if f = 0 then Some f
      else do {
        r \<leftarrow> nxt f c;
        if r \<noteq> None then Some f else do { f' \<leftarrow> fl f; failWalk nxt fl c f' }
      })"

declare failWalk.simps [code]

definition failTarget ::
  "(nat \<Rightarrow> rune \<Rightarrow> nat option option) \<Rightarrow> (nat \<Rightarrow> nat option) \<Rightarrow> rune \<Rightarrow> nat \<Rightarrow> nat option" where
  "failTarget nxt fl c f0 = do {
     f \<leftarrow> failWalk nxt fl c f0;
     r \<leftarrow> nxt f c;
     Some (case r of Some t \<Rightarrow> t | None \<Rightarrow> f)
   }"

lemma failTarget_gotoLoop:
  assumes "gotoLoop nxt fl 0 s c = Some t"
  shows "failTarget nxt fl c s = Some t"
proof -
  have "root = 0 \<longrightarrow> failTarget nxt fl c s = Some t" if "gotoLoop nxt fl root s c = Some t" for nxt fl root s c t
  proof (rule gotoLoop.raw_induct[OF _ that])
    fix L nxt fl root s c t
    assume IH: "\<And>nxt fl root s c t. L nxt fl root s c = Some t \<Longrightarrow> root = 0 \<longrightarrow> failTarget nxt fl c s = Some t"
      and eq: "(do { r \<leftarrow> nxt s c; (case r of Some t \<Rightarrow> Some t
        | None \<Rightarrow> if s = root then Some root else do { f \<leftarrow> fl s; L nxt fl root f c }) }) = Some t"
    show "root = 0 \<longrightarrow> failTarget nxt fl c s = Some t"
    proof
      assume root: "root = (0 :: nat)"
      from eq obtain r where r: "nxt s c = Some r" by (cases "nxt s c") auto
      show "failTarget nxt fl c s = Some t"
      proof (cases "r \<noteq> None \<or> s = 0")
        case True
        with eq r root show ?thesis
          by (auto simp: failTarget_def failWalk.simps split: option.splits)
      next
        case False
        with eq r root obtain f where f: "fl s = Some f" "L nxt fl root f c = Some t"
          by (auto split: Option.bind_splits)
        from False r f(1) have "failWalk nxt fl c s = failWalk nxt fl c f"
          by (subst failWalk.simps) simp
        with IH[OF f(2)] root show ?thesis by (simp add: failTarget_def)
      qed
    qed
  qed
  with assms show ?thesis by blast
qed

section \<open>Output links and chains\<close>

definition link_ok :: "goto \<Rightarrow> nat \<Rightarrow> dict \<Rightarrow> rune list \<Rightarrow> int \<Rightarrow> bool" where
  "link_ok g r D w l \<longleftrightarrow>
     (if lkw D w = [] then l = outNone else \<exists>t. walk g r (lkw D w) = Some t \<and> l = int t)"

lemma link_ok_step:
  assumes trie: "is_trie g r P" and dom: "dom D \<subseteq> P"
    and f: "walk g r (lps P w) = Some f"
    and own: "own_f \<noteq> 0 \<longleftrightarrow> lps P w \<in> dom D"
    and link: "link_ok g r D (lps P w) l" and nil: "[] \<notin> dom D"
  shows "link_ok g r D w (if own_f \<noteq> (0 :: nat) then int f else l)"
proof (cases "lps P w \<in> dom D")
  case True
  with nil have "lps P w \<noteq> []" by metis
  with True f own show ?thesis
    by (auto simp: link_ok_def lkw_link[OF dom, of w])
next
  case False
  with link own show ?thesis by (simp add: link_ok_def lkw_link[OF dom, of w])
qed

text \<open>The ids at the states are the dictionary.\<close>

definition interned :: "goto \<Rightarrow> nat \<Rightarrow> (nat \<Rightarrow> nat) \<Rightarrow> outputs \<Rightarrow> dict \<Rightarrow> bool" where
  "interned g r own_of out D \<longleftrightarrow>
     length (runeLens out) = length (kwords out) \<and>
     (\<forall>w s. walk g r w = Some s \<longrightarrow>
        (case D w of None \<Rightarrow> own_of s = 0
         | Some k \<Rightarrow> 0 < own_of s \<and> own_of s < length (kwords out) \<and>
             kwords out ! own_of s = k \<and> runeLens out ! own_of s = length w)) \<and>
     (\<forall>s. own_of s \<noteq> 0 \<longrightarrow> (\<exists>w. walk g r w = Some s)) \<and>
     (\<forall>s s'. own_of s = own_of s' \<longrightarrow> own_of s \<noteq> 0 \<longrightarrow> s = s') \<and>
     (\<forall>i. 0 < i \<longrightarrow> i < length (kwords out) \<longrightarrow> (\<exists>w s. walk g r w = Some s \<and> own_of s = i))"

lemma interned_at:
  assumes "interned g r own_of out D" and "walk g r w = Some s" and "D w = Some k"
  shows "0 < own_of s \<and> own_of s < length (kwords out) \<and> kwords out ! own_of s = k \<and> runeLens out ! own_of s = length w"
proof -
  have "case D w of None \<Rightarrow> own_of s = 0
    | Some k \<Rightarrow> 0 < own_of s \<and> own_of s < length (kwords out) \<and>
        kwords out ! own_of s = k \<and> runeLens out ! own_of s = length w"
    using assms(1,2) unfolding interned_def by blast
  with assms(3) show ?thesis by simp
qed

lemma interned_own: "interned g r own_of out D \<Longrightarrow> walk g r w = Some s \<Longrightarrow> own_of s \<noteq> 0 \<longleftrightarrow> w \<in> dom D"
  by (fastforce simp: interned_def split: option.splits)

text \<open>A state reports something exactly when it has an id or a link.\<close>

lemma flag_correct:
  assumes "interned g r own_of out D" and "walk g r w = Some s" and "link_ok g r D w l" and "D [] = None"
  shows "own_of s \<noteq> 0 \<or> l \<noteq> outNone \<longleftrightarrow> outs_at D w \<noteq> []"
proof -
  have "own_of s = 0 \<longleftrightarrow> D w = None" using interned_own[OF assms(1,2)] by (auto simp: domIff)
  moreover have "l = outNone \<longleftrightarrow> lkw D w = []" using assms(3) by (auto simp: link_ok_def split: if_splits)
  ultimately show ?thesis using assms(4) outs_at_empty[of D w] by (cases "w = []") auto
qed

lemma interned_kwords_distinct:
  assumes "interned g r own_of out D" and trie: "is_trie g r P"
    and inj: "\<And>v v' k. D v = Some k \<Longrightarrow> D v' = Some k \<Longrightarrow> v = v'"
  shows "distinct (tl (kwords out))"
proof -
  have at: "\<exists>w s. walk g r w = Some s \<and> own_of s = i \<and> D w = Some (kwords out ! i)"
    if i: "0 < i" "i < length (kwords out)" for i
  proof -
    from assms(1) i obtain w s where ws: "walk g r w = Some s" "own_of s = i"
      unfolding interned_def by blast
    with assms(1) i show ?thesis by (cases "D w") (fastforce simp: interned_def)+
  qed
  have "i = j" if "0 < i" "i < length (kwords out)" "0 < j" "j < length (kwords out)"
    "kwords out ! i = kwords out ! j" for i j
  proof -
    from at[OF that(1,2)] obtain w s where i: "walk g r w = Some s" "own_of s = i" "D w = Some (kwords out ! i)" by blast
    from at[OF that(3,4)] obtain w' s' where j: "walk g r w' = Some s'" "own_of s' = j" "D w' = Some (kwords out ! j)" by blast
    from inj[OF i(3)] j(3) that(5) have "w = w'" by simp
    with i(1) j(1) have "s = s'" by simp
    with i(2) j(2) show ?thesis by metis
  qed
  note inj_at = this
  show ?thesis unfolding distinct_conv_nth
  proof (intro allI impI)
    fix i j
    assume "i < length (tl (kwords out))" "j < length (tl (kwords out))" "i \<noteq> j"
    moreover from this(1,2) have "Suc i < length (kwords out)" "Suc j < length (kwords out)" by auto
    ultimately show "tl (kwords out) ! i \<noteq> tl (kwords out) ! j"
      using inj_at[of "Suc i" "Suc j"] by (auto simp: nth_tl)
  qed
qed

lemma chain_of_state:
  assumes trie: "is_trie g r P" and int: "interned g r own_of out D" and nil: "D [] = None"
    and own: "\<And>w s. walk g r w = Some s \<Longrightarrow> idx (own out) s = Some (own_of s)"
    and link: "\<And>w s. walk g r w = Some s \<Longrightarrow> \<exists>l. idx (outLink out) s = Some l \<and> link_ok g r D w l"
    and w: "walk g r w = Some s"
  shows "\<exists>ids. chain out (int s) ids \<and> map (\<lambda>k. (kwords out ! k, runeLens out ! k)) ids = outs_at D w"
  using w
proof (induction "length w" arbitrary: w s rule: less_induct)
  case less
  from link[OF less.prems] obtain l where l: "idxi (outLink out) (int s) = Some l" "link_ok g r D w l"
    by (auto simp: idxi_of_nat)
  have o: "idxi (own out) (int s) = Some (own_of s)"
    using own[OF less.prems] by (simp add: idxi_of_nat)
  have rest: "\<exists>ids. chain out l ids \<and>
      map (\<lambda>k. (kwords out ! k, runeLens out ! k)) ids = outs_at D (lkw D w)"
  proof (cases "lkw D w = []")
    case True
    with l(2) show ?thesis by (simp add: link_ok_def)
  next
    case False
    with l(2) obtain t where t: "walk g r (lkw D w) = Some t" "l = int t"
      by (auto simp: link_ok_def)
    from False have "w \<noteq> []" by auto
    from less.hyps[OF length_lkw[OF this] t(1)] t(2) show ?thesis by simp
  qed
  then obtain ids where ids: "chain out l ids"
    "map (\<lambda>k. (kwords out ! k, runeLens out ! k)) ids = outs_at D (lkw D w)" by blast
  show ?case
  proof (cases "D w")
    case None
    then have "own_of s = 0" using int less.prems by (fastforce simp: interned_def)
    with ids(1) l(1) o have "chain out (int s) ids" by (auto intro: chain_skip)
    moreover have "outs_at D w = outs_at D (lkw D w)"
      using None by (cases "w = []") (simp_all add: outs_at_chain)
    ultimately show ?thesis using ids(2) by auto
  next
    case (Some k)
    with nil have "w \<noteq> []" by auto
    from Some int less.prems have "0 < own_of s" "own_of s < length (kwords out)"
      "own_of s < length (runeLens out)" "kwords out ! own_of s = k" "runeLens out ! own_of s = length w"
      by (fastforce simp: interned_def)+
    with ids l(1) o Some \<open>w \<noteq> []\<close> show ?thesis
      by (intro exI[of _ "own_of s # ids"]) (auto intro: chain_own simp: outs_at_chain)
  qed
qed

section \<open>Inserting keywords\<close>

text \<open>
  A trie whose states are the numbers below \<open>n\<close>, all of them reached from state 0.
\<close>

definition trie_upto :: "goto \<Rightarrow> nat \<Rightarrow> rune list set \<Rightarrow> bool" where
  "trie_upto g n P \<longleftrightarrow> is_trie g 0 P \<and> 0 < n \<and> (\<forall>s c t. g s c = Some t \<longrightarrow> s < n \<and> t < n) \<and>
     (\<forall>s < n. \<exists>w. walk g 0 w = Some s)"

lemma walk_less:
  assumes "trie_upto g n P" and "walk g 0 w = Some s"
  shows "s < n"
  using assms by (cases w rule: rev_cases) (auto simp: trie_upto_def walk_snoc split: Option.bind_splits)

lemma trie_upto_init: "trie_upto (\<lambda>_ _. None) 1 {[]}"
proof -
  have "walk (\<lambda>_ _. None) 0 w = Some s \<longleftrightarrow> w = [] \<and> s = 0" for w s
    by (cases w) auto
  then show ?thesis by (auto simp: trie_upto_def is_trie_def)
qed

text \<open>A new edge to a new state adds exactly one sequence.\<close>

lemma walk_new_edge:
  assumes trie: "trie_upto g n P" and s: "walk g 0 v = Some s" and none: "g s c = None"
  shows "walk (g(s := (g s)(c \<mapsto> n))) 0 w = (if w = v @ [c] then Some n else walk g 0 w)"
proof (induction w rule: rev_induct)
  case (snoc a w)
  let ?g = "g(s := (g s)(c \<mapsto> n))"
  have le: "s < n" using walk_less[OF trie s] .
  have out: "g n x = None" for x using trie by (metis not_Some_eq trie_upto_def less_irrefl)
  show ?case
  proof (cases "w = v @ [c]")
    case True
    then have "walk g 0 w = None" using s none by (simp add: walk_snoc)
    moreover have "walk ?g 0 w = Some n" using True by (subst snoc) simp
    moreover have "w @ [a] \<noteq> v @ [c]" using True by simp
    moreover have "?g n a = None" using le out[of a] by simp
    ultimately show ?thesis by (simp only: walk_snoc[of _ 0 w a] if_False bind.simps)
  next
    case False
    have "walk g 0 w = Some s \<longleftrightarrow> w = v"
      using trie s is_trie_inj[of g 0 P w s v] by (auto simp: trie_upto_def)
    with False snoc none show ?thesis by (auto simp: walk_snoc s split: Option.bind_splits)
  qed
qed simp

lemma trie_upto_new_edge:
  assumes trie: "trie_upto g n P" and s: "walk g 0 v = Some s" and none: "g s c = None"
  shows "trie_upto (g(s := (g s)(c \<mapsto> n))) (Suc n) (insert (v @ [c]) P)"
proof -
  let ?g = "g(s := (g s)(c \<mapsto> n))"
  have t: "is_trie g 0 P" using trie by (simp add: trie_upto_def)
  have notn: "walk g 0 w \<noteq> Some n" for w using walk_less[OF trie] by blast
  have "is_trie ?g 0 (insert (v @ [c]) P)"
    using t notn unfolding is_trie_def walk_new_edge[OF assms]
    by (smt (verit) insert_iff option.inject)
  moreover have "\<exists>w. walk ?g 0 w = Some s'" if "s' < Suc n" for s'
  proof (cases "s' = n")
    case True
    then show ?thesis using walk_new_edge[OF assms, of "v @ [c]"] by auto
  next
    case False
    with that trie obtain w where w: "walk g 0 w = Some s'" by (auto simp: trie_upto_def less_Suc_eq)
    have "walk g 0 (v @ [c]) = None" using s none by (simp add: walk_snoc)
    with w have "w \<noteq> v @ [c]" by auto
    with w show ?thesis using walk_new_edge[OF assms, of w] by auto
  qed
  moreover have "s < n" using walk_less[OF trie s] .
  ultimately show ?thesis using trie
    by (auto simp: trie_upto_def less_Suc_eq split: if_splits)
qed

text \<open>The loop over the runes of a keyword, over the store's lookup and allocation.\<close>

fun insertRunes ::
  "('t \<Rightarrow> nat \<Rightarrow> rune \<Rightarrow> nat option option) \<Rightarrow> ('t \<Rightarrow> nat \<Rightarrow> rune \<Rightarrow> ('t \<times> nat) option) \<Rightarrow>
   't \<Rightarrow> nat \<Rightarrow> rune list \<Rightarrow> ('t \<times> nat) option" where
  "insertRunes nxt alloc t state [] = Some (t, state)"
| "insertRunes nxt alloc t state (ch # chs) = do {
     r \<leftarrow> nxt t state ch;
     (t', child) \<leftarrow> (case r of Some child \<Rightarrow> Some (t, child) | None \<Rightarrow> alloc t state ch);
     insertRunes nxt alloc t' child chs
   }"

text \<open>
  What the insertion needs of a store: a lookup that agrees with the goto
  function, and an allocation that adds one edge to a fresh state and leaves
  the rest (\<open>obs\<close>) alone.
\<close>

locale trie_store =
  fixes nxt :: "'t \<Rightarrow> nat \<Rightarrow> rune \<Rightarrow> nat option option"
    and alloc :: "'t \<Rightarrow> nat \<Rightarrow> rune \<Rightarrow> ('t \<times> nat) option"
    and goto_of :: "'t \<Rightarrow> goto"
    and size_of :: "'t \<Rightarrow> nat"
    and wf :: "'t \<Rightarrow> bool"
    and obs :: "'t \<Rightarrow> 'o"
  assumes nxt: "wf t \<Longrightarrow> s < size_of t \<Longrightarrow> nxt t s c = Some (goto_of t s c)"
    and alloc: "wf t \<Longrightarrow> s < size_of t \<Longrightarrow> goto_of t s c = None \<Longrightarrow>
      \<exists>t'. alloc t s c = Some (t', size_of t) \<and> wf t' \<and> size_of t' = Suc (size_of t) \<and>
        goto_of t' = (goto_of t)(s := (goto_of t s)(c \<mapsto> size_of t)) \<and> obs t' = obs t"
begin

definition trie_of :: "'t \<Rightarrow> rune list set \<Rightarrow> bool" where
  "trie_of t P \<longleftrightarrow> wf t \<and> trie_upto (goto_of t) (size_of t) P"

lemma trie_of_wf: "trie_of t P \<Longrightarrow> wf t"
  by (simp add: trie_of_def)

lemma trie_of_trie: "trie_of t P \<Longrightarrow> is_trie (goto_of t) 0 P"
  by (simp add: trie_of_def trie_upto_def)

lemma trie_of_less: "trie_of t P \<Longrightarrow> walk (goto_of t) 0 w = Some s \<Longrightarrow> s < size_of t"
  using walk_less by (auto simp: trie_of_def)

lemma insertRunes_correct:
  assumes "trie_of t P" and "walk (goto_of t) 0 v = Some s"
  shows "\<exists>t' s'. insertRunes nxt alloc t s w = Some (t', s') \<and>
    trie_of t' (P \<union> {v @ u | u. prefix u w}) \<and> walk (goto_of t') 0 (v @ w) = Some s' \<and>
    (\<forall>u x. walk (goto_of t) 0 u = Some x \<longrightarrow> walk (goto_of t') 0 u = Some x) \<and>
    size_of t \<le> size_of t' \<and> obs t' = obs t"
  using assms
proof (induction w arbitrary: t P v s)
  case Nil
  then have "v \<in> P" by (auto simp: trie_of_def trie_upto_def dest: is_trie_in)
  with Nil show ?case by (simp add: insert_absorb)
next
  case (Cons c w)
  have s: "s < size_of t" using walk_less Cons.prems by (auto simp: trie_of_def)
  have wf: "wf t" and trie: "trie_upto (goto_of t) (size_of t) P" "is_trie (goto_of t) 0 P"
    using Cons.prems(1) by (auto simp: trie_of_def trie_upto_def)
  have vP: "v \<in> P" using is_trie_in[OF trie(2) Cons.prems(2)] .
  obtain t1 s1 where step: "(case goto_of t s c of Some child \<Rightarrow> Some (t, child) | None \<Rightarrow> alloc t s c) = Some (t1, s1)"
    "trie_of t1 (insert (v @ [c]) P)" "walk (goto_of t1) 0 (v @ [c]) = Some s1"
    "\<forall>u x. walk (goto_of t) 0 u = Some x \<longrightarrow> walk (goto_of t1) 0 u = Some x"
    "size_of t \<le> size_of t1" "obs t1 = obs t"
  proof (cases "goto_of t s c")
    case (Some s1)
    with Cons.prems(2) have w1: "walk (goto_of t) 0 (v @ [c]) = Some s1" by (simp add: walk_snoc)
    from is_trie_in[OF trie(2) w1] Some w1 Cons.prems(1) that[of t s1] show ?thesis
      by (simp add: insert_absorb)
  next
    case None
    from alloc[OF wf s None] obtain t1 where t1: "alloc t s c = Some (t1, size_of t)" "wf t1"
      "size_of t1 = Suc (size_of t)"
      "goto_of t1 = (goto_of t)(s := (goto_of t s)(c \<mapsto> size_of t))" "obs t1 = obs t" by blast
    have old: "walk (goto_of t) 0 (v @ [c]) = None"
      using Cons.prems(2) None by (simp add: walk_snoc)
    note new = walk_new_edge[OF trie(1) Cons.prems(2) None]
    show ?thesis
      by (rule that[of t1 "size_of t"])
        (use t1 None trie_upto_new_edge[OF trie(1) Cons.prems(2) None] old in \<open>auto simp: trie_of_def new\<close>)
  qed
  from Cons.IH[OF step(2,3)] obtain t' s' where r: "insertRunes nxt alloc t1 s1 w = Some (t', s')"
    "trie_of t' (insert (v @ [c]) P \<union> {(v @ [c]) @ u | u. prefix u w})"
    "walk (goto_of t') 0 ((v @ [c]) @ w) = Some s'"
    "\<forall>u x. walk (goto_of t1) 0 u = Some x \<longrightarrow> walk (goto_of t') 0 u = Some x"
    "size_of t1 \<le> size_of t'" "obs t' = obs t1" by blast
  have "insert (v @ [c]) P \<union> {(v @ [c]) @ u | u. prefix u w} = P \<union> {v @ u | u. prefix u (c # w)}"
    using vP by (auto simp: prefix_Cons)
  with r step show ?case using nxt[OF wf s, of c] by (auto split: option.splits)
qed

end

text \<open>A store that also records how deep each state is.\<close>

locale trie_depth_store = trie_store +
  fixes depth_of :: "'a \<Rightarrow> nat \<Rightarrow> nat"
  assumes alloc_depth: "wf t \<Longrightarrow> s < size_of t \<Longrightarrow> alloc t s c = Some (t', n) \<Longrightarrow>
    depth_of t' = (depth_of t)(size_of t := Suc (depth_of t s))"
begin

definition depths_ok :: "'a \<Rightarrow> bool" where
  "depths_ok t \<longleftrightarrow> (\<forall>w s. walk (goto_of t) 0 w = Some s \<longrightarrow> depth_of t s = length w)"

lemma insertRunes_depth:
  assumes "trie_of t P" and "walk (goto_of t) 0 v = Some s" and "depths_ok t"
    and "insertRunes nxt alloc t s w = Some (t', s')"
  shows "depths_ok t'"
  using assms
proof (induction w arbitrary: t P v s)
  case (Cons c w)
  have s: "s < size_of t" using walk_less Cons.prems by (auto simp: trie_of_def)
  have wf: "wf t" and trie: "trie_upto (goto_of t) (size_of t) P" using Cons.prems(1) by (auto simp: trie_of_def)
  show ?case
  proof (cases "goto_of t s c")
    case (Some s1)
    then have w1: "walk (goto_of t) 0 (v @ [c]) = Some s1" using Cons.prems(2) by (simp add: walk_snoc)
    from Some nxt[OF wf s] Cons.prems(4) have "insertRunes nxt alloc t s1 w = Some (t', s')" by simp
    from Cons.IH[OF Cons.prems(1) w1 Cons.prems(3) this] show ?thesis .
  next
    case None
    from alloc[OF wf s None] obtain t1 where t1: "alloc t s c = Some (t1, size_of t)" "wf t1"
      "size_of t1 = Suc (size_of t)"
      "goto_of t1 = (goto_of t)(s := (goto_of t s)(c \<mapsto> size_of t))" by blast
    note new = walk_new_edge[OF trie Cons.prems(2) None]
    from None nxt[OF wf s] t1(1) Cons.prems(4) have rest: "insertRunes nxt alloc t1 (size_of t) w = Some (t', s')"
      by simp
    have w1: "walk (goto_of t1) 0 (v @ [c]) = Some (size_of t)" unfolding t1(4) new by simp
    have "trie_of t1 (insert (v @ [c]) P)"
      using trie_upto_new_edge[OF trie Cons.prems(2) None] t1 by (simp add: trie_of_def)
    moreover have "depths_ok t1"
      unfolding depths_ok_def
    proof (intro allI impI)
      fix u x
      assume u: "walk (goto_of t1) 0 u = Some x"
      have d: "depth_of t s = length v" using Cons.prems(2,3) unfolding depths_ok_def by blast
      show "depth_of t1 x = length u"
      proof (cases "u = v @ [c]")
        case True
        with u d show ?thesis by (simp add: alloc_depth[OF wf s t1(1)] t1(4) new)
      next
        case False
        with u have "walk (goto_of t) 0 u = Some x" by (simp add: t1(4) new)
        with Cons.prems(3) walk_less[OF trie this] show ?thesis
          by (simp add: depths_ok_def alloc_depth[OF wf s t1(1)])
      qed
    qed
    ultimately show ?thesis using Cons.IH[OF _ w1 _ rest] by blast
  qed
qed simp

end

section \<open>The states of a dictionary\<close>

lemma states_empty [simp]: "states Map.empty = {[]}"
  by (auto simp: states_def)

lemma states_upd: "states (D(w \<mapsto> k)) = states D \<union> {u. prefix u w}"
  by (auto simp: states_def)

lemma finite_states: "finite (dom D) \<Longrightarrow> finite (states D)"
proof -
  assume "finite (dom D)"
  moreover have "states D = insert [] (\<Union>v \<in> dom D. set (prefixes v))"
    by (auto simp: states_def)
  ultimately show ?thesis by simp
qed

lemma finite_states_dict_of [simp]: "finite (states (dict_of ks))"
  by (rule finite_states) (simp add: dom_dict_of)

section \<open>Interning keywords\<close>

lemma interned_empty:
  assumes "length (runeLens out) = length (kwords out)" and "length (kwords out) \<le> 1"
  shows "interned g r (\<lambda>_. 0) out Map.empty"
  using assms by (auto simp: interned_def)

lemma interned_cong_out:
  "kwords out = kwords out' \<Longrightarrow> runeLens out = runeLens out' \<Longrightarrow>
   interned g r own_of out D = interned g r own_of out' D"
  by (simp only: interned_def)

text \<open>New states carry no keyword.\<close>

lemma interned_extend:
  assumes int: "interned g r own_of out D" and trie: "is_trie g r P" and trie': "is_trie g' r P'"
    and ext: "\<forall>u x. walk g r u = Some x \<longrightarrow> walk g' r u = Some x" and dom: "dom D \<subseteq> P"
  shows "interned g' r own_of out D"
proof -
  have "(case D w of None \<Rightarrow> own_of s = 0
      | Some k \<Rightarrow> 0 < own_of s \<and> own_of s < length (kwords out) \<and>
          kwords out ! own_of s = k \<and> runeLens out ! own_of s = length w)"
    if w: "walk g' r w = Some s" for w s
  proof (cases "\<exists>x. walk g r w = Some x")
    case True
    with w ext have "walk g r w = Some s" by force
    with int show ?thesis unfolding interned_def by blast
  next
    case False
    then have "D w = None" using is_trie_walk[OF trie] dom by blast
    moreover have "own_of s = 0"
    proof (rule ccontr)
      assume "own_of s \<noteq> 0"
      with int obtain v where v: "walk g r v = Some s" unfolding interned_def by blast
      with ext have "walk g' r v = Some s" by blast
      from is_trie_inj[OF trie' this w] v False show False by blast
    qed
    ultimately show ?thesis by simp
  qed
  moreover from int ext have "\<forall>s. own_of s \<noteq> 0 \<longrightarrow> (\<exists>w. walk g' r w = Some s)"
    "\<forall>i. 0 < i \<longrightarrow> i < length (kwords out) \<longrightarrow> (\<exists>w s. walk g' r w = Some s \<and> own_of s = i)"
    unfolding interned_def by blast+
  ultimately show ?thesis using int unfolding interned_def by blast
qed

lemma assign_fields:
  "assign out cur kw = Some (out', i) \<Longrightarrow> own out' = own out \<and> outLink out' = outLink out"
  by (auto simp: assign_def assignID_def Let_def split: if_splits Option.bind_splits)

lemma interned_assignID:
  assumes int: "interned g r own_of out D" and trie: "is_trie g r P" and w: "walk g r w = Some s"
    and kw: "runes kw = w" and cur: "own_of s = 0"
    and a: "assignID out kw = (out', i)"
  shows "0 < i \<and> interned g r (own_of(s := i)) out' (D(w \<mapsto> kw))"
proof -
  let ?n = "max 1 (length (kwords out))"
  have len: "length (runeLens out) = length (kwords out)" using int by (simp add: interned_def)
  from a len have i: "i = ?n" "length (kwords out') = Suc ?n" "length (runeLens out') = Suc ?n"
    "kwords out' ! ?n = kw" "runeLens out' ! ?n = length w"
    "\<And>j. 0 < j \<Longrightarrow> j < length (kwords out) \<Longrightarrow> kwords out' ! j = kwords out ! j \<and> runeLens out' ! j = runeLens out ! j"
    using Suc_leI[of 0 "length (runeLens out)"]
    by (auto simp: assignID_def Let_def nth_append runeCount_def kw max_def split: if_splits)
  have old: "own_of t < length (kwords out)" if "own_of t \<noteq> 0" for t
  proof -
    from int that obtain v where v: "walk g r v = Some t" unfolding interned_def by blast
    with int that show ?thesis by (cases "D v") (fastforce simp: interned_def)+
  qed
  have eq: "v = w \<longleftrightarrow> t = s" if "walk g r v = Some t" for v t
    by (rule walk_eq_iff[OF trie that w])
  have "(case (D(w \<mapsto> kw)) v of None \<Rightarrow> (own_of(s := i)) t = 0
      | Some k \<Rightarrow> 0 < (own_of(s := i)) t \<and> (own_of(s := i)) t < length (kwords out') \<and>
          kwords out' ! (own_of(s := i)) t = k \<and> runeLens out' ! (own_of(s := i)) t = length v)"
    if v: "walk g r v = Some t" for v t
  proof (cases "t = s")
    case True
    with eq[OF v] i show ?thesis by simp
  next
    case False
    have "(case D v of None \<Rightarrow> own_of t = 0
         | Some k \<Rightarrow> 0 < own_of t \<and> own_of t < length (kwords out) \<and>
             kwords out ! own_of t = k \<and> runeLens out ! own_of t = length v)"
      using int v unfolding interned_def by blast
    with False eq[OF v] i(2) i(6)[of "own_of t"] show ?thesis by (auto split: option.splits)
  qed
  moreover have "\<exists>v t. walk g r v = Some t \<and> (own_of(s := i)) t = j" if j: "0 < j" "j < length (kwords out')" for j
  proof (cases "j = i")
    case True
    with w show ?thesis by auto
  next
    case False
    with i j have "j < length (kwords out)" by (auto simp: less_Suc_eq)
    with int j obtain v t where "walk g r v = Some t" "own_of t = j" unfolding interned_def by blast
    with cur j show ?thesis by (intro exI[of _ v] exI[of _ t]) auto
  qed
  moreover have "\<forall>t. (own_of(s := i)) t \<noteq> 0 \<longrightarrow> (\<exists>v. walk g r v = Some t)"
    using int w unfolding interned_def by auto
  moreover have "t = t'" if "(own_of(s := i)) t = (own_of(s := i)) t'" "(own_of(s := i)) t \<noteq> 0" for t t'
  proof -
    have "t = t'" if "own_of t = own_of t'" "own_of t \<noteq> 0"
      using int that unfolding interned_def by blast
    moreover have "own_of x \<noteq> i" for x using old[of x] i(1) by (cases "own_of x = 0") auto
    ultimately show ?thesis using that by (metis fun_upd_apply)
  qed
  moreover have "length (runeLens out') = length (kwords out')" "0 < i" using i(1-3) by simp_all
  ultimately show ?thesis unfolding interned_def by blast
qed

lemma interned_assign:
  assumes int: "interned g r own_of out D" and trie: "is_trie g r P" and w: "walk g r w = Some s"
    and kw: "runes kw = w"
  shows "\<exists>out' i. assign out (own_of s) kw = Some (out', i) \<and> 0 < i \<and>
    interned g r (own_of(s := i)) out' (D(w \<mapsto> kw))"
proof (cases "own_of s = 0")
  case True
  then show ?thesis using interned_assignID[OF assms] by (cases "assignID out kw") (simp add: assign_def)
next
  case False
  let ?i = "own_of s" and ?out = "out\<lparr>kwords := (kwords out)[own_of s := kw], runeLens := (runeLens out)[own_of s := runeCount kw]\<rparr>"
  have eq: "v = w \<longleftrightarrow> t = s" if "walk g r v = Some t" for v t
    by (rule walk_eq_iff[OF trie that w])
  have i: "?i < length (kwords out)" "length (runeLens out) = length (kwords out)"
    using int w False unfolding interned_def by (cases "D w"; force)+
  have "(case (D(w \<mapsto> kw)) v of None \<Rightarrow> own_of t = 0
      | Some k \<Rightarrow> 0 < own_of t \<and> own_of t < length (kwords ?out) \<and>
          kwords ?out ! own_of t = k \<and> runeLens ?out ! own_of t = length v)"
    if v: "walk g r v = Some t" for v t
  proof (cases "t = s")
    case True
    with eq[OF v] i False show ?thesis by (simp add: runeCount_def kw)
  next
    case neq: False
    have "own_of t \<noteq> own_of s \<or> own_of t = 0" using int neq unfolding interned_def by metis
    moreover have "(case D v of None \<Rightarrow> own_of t = 0
         | Some k \<Rightarrow> 0 < own_of t \<and> own_of t < length (kwords out) \<and>
             kwords out ! own_of t = k \<and> runeLens out ! own_of t = length v)"
      using int v unfolding interned_def by blast
    ultimately show ?thesis using neq eq[OF v] by (auto split: option.splits)
  qed
  with int i have "interned g r own_of ?out (D(w \<mapsto> kw))" unfolding interned_def by simp
  with False i show ?thesis by (auto simp: assign_def go_simps)
qed

section \<open>Renaming states\<close>

lemma is_trie_relabel:
  assumes trie: "is_trie g r P" and walk: "\<forall>w. walk g' r' w = map_option f (walk g r w)"
    and inj: "\<forall>v w s t. walk g r v = Some s \<longrightarrow> walk g r w = Some t \<longrightarrow> f s = f t \<longrightarrow> s = t"
  shows "is_trie g' r' P"
proof -
  have "(\<exists>s. walk g' r' w = Some s) \<longleftrightarrow> w \<in> P" for w
    using is_trie_walk[OF trie, of w] is_trie_in[OF trie, of w] by (auto simp: walk)
  moreover have "v = w" if v: "walk g' r' v = Some s" and w: "walk g' r' w = Some s" for v w s
  proof -
    from v walk obtain x where x: "walk g r v = Some x" "s = f x" by auto
    from w walk obtain y where y: "walk g r w = Some y" "s = f y" by auto
    from inj x y have "x = y" by metis
    with x y show ?thesis using is_trie_inj[OF trie] by blast
  qed
  ultimately show ?thesis unfolding is_trie_def by blast
qed

lemma interned_relabel:
  assumes int: "interned g r own_of out D" and walk: "\<forall>w. walk g' r' w = map_option f (walk g r w)"
    and inj: "\<forall>v w s t. walk g r v = Some s \<longrightarrow> walk g r w = Some t \<longrightarrow> f s = f t \<longrightarrow> s = t"
    and own: "\<forall>w s. walk g r w = Some s \<longrightarrow> own' (f s) = own_of s"
    and only: "\<forall>q. own' q \<noteq> 0 \<longrightarrow> (\<exists>w s. walk g r w = Some s \<and> q = f s)"
  shows "interned g' r' own' out D"
  unfolding interned_def
proof (intro conjI allI impI)
  show "length (runeLens out) = length (kwords out)" using int by (simp add: interned_def)
next
  fix w q
  assume "walk g' r' w = Some q"
  then obtain s where s: "walk g r w = Some s" "q = f s" using walk by auto
  then have "own' q = own_of s" using own by blast
  moreover have "case D w of None \<Rightarrow> own_of s = 0
    | Some k \<Rightarrow> 0 < own_of s \<and> own_of s < length (kwords out) \<and>
        kwords out ! own_of s = k \<and> runeLens out ! own_of s = length w"
    using int s(1) unfolding interned_def by blast
  ultimately show "case D w of None \<Rightarrow> own' q = 0
    | Some k \<Rightarrow> 0 < own' q \<and> own' q < length (kwords out) \<and>
        kwords out ! own' q = k \<and> runeLens out ! own' q = length w" by (simp only:)
next
  fix q
  assume "own' q \<noteq> 0"
  with only walk show "\<exists>w. walk g' r' w = Some q" by fastforce
next
  fix q q'
  assume eq: "own' q = own' q'" "own' q \<noteq> 0"
  then obtain w s w' s' where s: "walk g r w = Some s" "q = f s" "walk g r w' = Some s'" "q' = f s'"
    using only by metis
  with eq own have "own_of s = own_of s'" "own_of s \<noteq> 0" by metis+
  with int have "s = s'" unfolding interned_def by blast
  with s show "q = q'" by simp
next
  fix i
  assume "0 < i" "i < length (kwords out)"
  with int obtain w s where "walk g r w = Some s" "own_of s = i" unfolding interned_def by blast
  with walk own show "\<exists>w q. walk g' r' w = Some q \<and> own' q = i" by fastforce
qed

section \<open>Counting\<close>

lemma trie_upto_card:
  assumes "trie_upto g n P"
  shows "card P = n"
proof -
  from assms have trie: "is_trie g 0 P" by (simp add: trie_upto_def)
  have "bij_betw (\<lambda>w. the (walk g 0 w)) P {0..<n}"
  proof (rule bij_betwI')
    fix v w
    assume "v \<in> P" "w \<in> P"
    with is_trie_walk[OF trie] obtain s t where "walk g 0 v = Some s" "walk g 0 w = Some t" by meson
    with walk_eq_iff[OF trie this] show "(the (walk g 0 v) = the (walk g 0 w)) = (v = w)" by simp
  next
    fix w
    assume "w \<in> P"
    with is_trie_walk[OF trie] obtain s where "walk g 0 w = Some s" by blast
    with walk_less[OF assms this] show "the (walk g 0 w) \<in> {0..<n}" by simp
  next
    fix s
    assume "s \<in> {0..<n}"
    with assms obtain w where "walk g 0 w = Some s" by (auto simp: trie_upto_def)
    with is_trie_in[OF trie this] show "\<exists>w \<in> P. s = the (walk g 0 w)" by force
  qed
  then show ?thesis by (simp add: bij_betw_same_card)
qed

lemma trie_upto_depths:
  assumes "trie_upto g n P" and "\<forall>w s. walk g 0 w = Some s \<longrightarrow> d s = length w"
  shows "d ` {0..<n} = length ` P"
proof (intro set_eqI iffI)
  fix k
  assume "k \<in> d ` {0..<n}"
  then obtain s where "s < n" "k = d s" by auto
  moreover from this assms obtain w where "walk g 0 w = Some s" unfolding trie_upto_def by blast
  moreover from this assms have "w \<in> P" unfolding trie_upto_def by (blast dest: is_trie_in)
  ultimately show "k \<in> length ` P" using assms(2) by auto
next
  fix k
  assume "k \<in> length ` P"
  then obtain w where w: "w \<in> P" "k = length w" by blast
  from assms w(1) obtain s where "walk g 0 w = Some s" unfolding trie_upto_def by (blast dest: is_trie_walk)
  with assms(2) w(2) walk_less[OF assms(1) this] show "k \<in> d ` {0..<n}" by force
qed

lemma interned_count:
  assumes int: "interned g r own_of out D" and trie: "is_trie g r P" and dom: "dom D \<subseteq> P"
  shows "keywordCount out = card (dom D)"
proof -
  let ?f = "\<lambda>w. own_of (the (walk g r w))"
  have "bij_betw ?f (dom D) {1..<length (kwords out)}"
  proof (rule bij_betwI')
    fix v w
    assume vw: "v \<in> dom D" "w \<in> dom D"
    with is_trie_walk[OF trie] dom obtain s t where st: "walk g r v = Some s" "walk g r w = Some t"
      by (meson subsetD)
    have "own_of s = own_of t \<longleftrightarrow> s = t"
      using int interned_own[OF int st(1)] vw(1) unfolding interned_def by blast
    with walk_eq_iff[OF trie st] st show "(?f v = ?f w) = (v = w)" by simp
  next
    fix w
    assume w: "w \<in> dom D"
    with is_trie_walk[OF trie] dom obtain s where s: "walk g r w = Some s" by (meson subsetD)
    from w obtain k where "D w = Some k" by blast
    from interned_at[OF int s this] s show "?f w \<in> {1..<length (kwords out)}" by simp
  next
    fix i
    assume "i \<in> {1..<length (kwords out)}"
    then have "0 < i" "i < length (kwords out)" by auto
    with int obtain w s where ws: "walk g r w = Some s" "own_of s = i" unfolding interned_def by blast
    with interned_own[OF int ws(1)] \<open>0 < i\<close> show "\<exists>w \<in> dom D. i = ?f w" by force
  qed
  then show ?thesis by (auto simp: keywordCount_def dest!: bij_betw_same_card)
qed

lemma card_states_le_1:
  assumes "finite (dom D)" and "D [] = None"
  shows "card (states D) \<le> 1 \<longleftrightarrow> dom D = {}"
proof
  assume "card (states D) \<le> 1"
  moreover have "[] \<in> states D" by (simp add: states_def)
  ultimately have "states D = {[]}" using finite_states[OF assms(1)]
    by (metis One_nat_def card_le_Suc0_iff_eq singletonD singletonI subsetI subset_antisym insertCI empty_iff)
  with dom_subset_states[of D] assms(2) show "dom D = {}" by auto
next
  assume "dom D = {}"
  then have "states D = {[]}" by (auto simp: states_def)
  then show "card (states D) \<le> 1" by simp
qed

end
