(* ===== verification/Trie_BFS.thy ===== *)
theory Trie_BFS
  imports Trie_Core
begin

text \<open>
  The breadth-first passes of the engine builders.  The first part is about the
  order: a work list that starts with one level of the trie and appends the
  children of each state takes every deeper state once, level by level.  The
  second part is the loop body that computes the failure and output links of a
  state's children, with its contract for the stores that hold the links.
\<close>

section \<open>Level order\<close>

definition node_depth :: "goto \<Rightarrow> nat \<Rightarrow> nat \<Rightarrow> nat" where
  "node_depth g r s = length (SOME w. walk g r w = Some s)"

lemma node_depth: "is_trie g r P \<Longrightarrow> walk g r w = Some s \<Longrightarrow> node_depth g r s = length w"
  unfolding node_depth_def by (metis (mono_tags, lifting) is_trie_inj someI_ex)

definition from_level :: "goto \<Rightarrow> nat \<Rightarrow> nat \<Rightarrow> nat set" where
  "from_level g r k = {s. \<exists>w. walk g r w = Some s \<and> k \<le> length w}"

definition level :: "goto \<Rightarrow> nat \<Rightarrow> nat \<Rightarrow> nat set" where
  "level g r k = {s. \<exists>w. walk g r w = Some s \<and> length w = k}"

text \<open>
  What holds between two iterations, for the states \<open>seen\<close> already taken: they
  and the queue are distinct, in level order, and consist of the start level and
  the children of the states taken.
\<close>

definition bfs_inv :: "goto \<Rightarrow> nat \<Rightarrow> nat \<Rightarrow> nat list \<Rightarrow> nat list \<Rightarrow> bool" where
  "bfs_inv g r k seen queue \<longleftrightarrow>
     distinct (seen @ queue) \<and> sorted (map (node_depth g r) (seen @ queue)) \<and>
     set (seen @ queue) = level g r k \<union> {t. \<exists>s \<in> set seen. \<exists>c. g s c = Some t} \<and>
     set (seen @ queue) \<subseteq> from_level g r k \<and>
     (\<forall>s \<in> set queue. \<forall>t \<in> set queue. node_depth g r t \<le> Suc (node_depth g r s))"

lemma bfs_inv_start:
  assumes "is_trie g r P" and "distinct queue" and "set queue = level g r k"
  shows "bfs_inv g r k [] queue"
proof -
  have "node_depth g r s = k" if "s \<in> set queue" for s
    using that assms node_depth[OF assms(1)] by (auto simp: level_def)
  then have "map (node_depth g r) queue = replicate (length queue) k"
    by (intro replicate_eqI) auto
  moreover from this have "\<forall>s \<in> set queue. \<forall>t \<in> set queue. node_depth g r t \<le> Suc (node_depth g r s)"
    using \<open>\<And>s. s \<in> set queue \<Longrightarrow> node_depth g r s = k\<close> by simp
  ultimately show ?thesis using assms
    by (auto simp: bfs_inv_def from_level_def level_def sorted_replicate)
qed

text \<open>Every state that is not deeper than the head of the queue has been discovered.\<close>

lemma bfs_inv_cover:
  assumes trie: "is_trie g r P" and inv: "bfs_inv g r k seen queue"
    and w: "walk g r w = Some t" "k \<le> length w" "\<And>s. s \<in> set queue \<Longrightarrow> length w \<le> node_depth g r s"
  shows "t \<in> set (seen @ queue)"
  using w
proof (induction w arbitrary: t rule: rev_induct)
  case Nil
  then show ?case using inv by (auto simp: bfs_inv_def level_def)
next
  case (snoc c w)
  show ?case
  proof (cases "length (w @ [c]) = k")
    case True
    with snoc.prems(1) inv show ?thesis by (auto simp: bfs_inv_def level_def)
  next
    case False
    with snoc.prems(2) have k: "k \<le> length w" by simp
    from snoc.prems(1) obtain s where s: "walk g r w = Some s" "g s c = Some t"
      by (auto simp: walk_snoc split: Option.bind_splits)
    have "length w \<le> node_depth g r x" if "x \<in> set queue" for x
      using snoc.prems(3)[OF that] by simp
    from snoc.IH[OF s(1) k this] have "s \<in> set (seen @ queue)" .
    moreover have "s \<notin> set queue" using snoc.prems(3)[of s] node_depth[OF trie s(1)] by auto
    ultimately have "s \<in> set seen" by simp
    with s(2) inv show ?thesis unfolding bfs_inv_def by blast
  qed
qed

lemma bfs_inv_step:
  assumes trie: "is_trie g r P" and inv: "bfs_inv g r k seen (s # rest)"
    and found: "distinct found" "set found = {t. \<exists>c. g s c = Some t}"
  shows "bfs_inv g r k (seen @ [s]) (rest @ found)"
proof -
  let ?d = "node_depth g r"
  from inv have "s \<in> from_level g r k" by (auto simp: bfs_inv_def)
  then obtain w where w: "walk g r w = Some s" "k \<le> length w" by (auto simp: from_level_def)
  have d: "?d s = length w" using node_depth[OF trie w(1)] .
  have child: "\<exists>c. walk g r (w @ [c]) = Some t \<and> ?d t = Suc (?d s)" if "t \<in> set found" for t
  proof -
    from that found(2) obtain c where "g s c = Some t" by blast
    with w(1) have "walk g r (w @ [c]) = Some t" by (simp add: walk_snoc)
    with node_depth[OF trie this] d show ?thesis by auto
  qed
  have new: "t \<notin> set (seen @ s # rest)" if t: "t \<in> set found" for t
  proof
    assume "t \<in> set (seen @ s # rest)"
    from child[OF t] obtain c where c: "walk g r (w @ [c]) = Some t" by blast
    from \<open>t \<in> set (seen @ s # rest)\<close> inv consider "t \<in> level g r k" | s' c' where "s' \<in> set seen" "g s' c' = Some t"
      unfolding bfs_inv_def by blast
    then show False
    proof cases
      case 1
      then obtain v where v: "walk g r v = Some t" "length v = k" by (auto simp: level_def)
      from is_trie_inj[OF trie c v(1)] v(2) w(2) show False by auto
    next
      case 2
      with inv obtain v where v: "walk g r v = Some s'" by (auto simp: bfs_inv_def from_level_def)
      with 2 have "walk g r (v @ [c']) = Some t" by (simp add: walk_snoc)
      from is_trie_inj[OF trie c this] have "w = v" by simp
      with v w(1) 2(1) inv show False by (auto simp: bfs_inv_def)
    qed
  qed
  have far: "?d t \<le> Suc (?d s)" "?d s \<le> ?d t" if "t \<in> set rest" for t
    using inv that by (auto simp: bfs_inv_def sorted_append)
  have "map ?d found = replicate (length found) (Suc (?d s))"
    using child by (intro replicate_eqI) auto
  then have "sorted (map ?d found)" by (simp add: sorted_replicate)
  moreover have "?d x \<le> Suc (?d s)" if "x \<in> set seen" for x
    using inv that by (force simp: bfs_inv_def sorted_append)
  ultimately have "sorted (map ?d ((seen @ [s]) @ (rest @ found)))"
    using inv child far by (fastforce simp: bfs_inv_def sorted_append)
  moreover have "distinct ((seen @ [s]) @ (rest @ found))"
  proof -
    have "distinct (seen @ s # rest)" using inv by (simp add: bfs_inv_def)
    moreover have "set found \<inter> set (seen @ s # rest) = {}" using new by blast
    ultimately show ?thesis using found(1) by auto
  qed
  moreover have "set ((seen @ [s]) @ (rest @ found)) \<subseteq> from_level g r k"
  proof -
    have "set found \<subseteq> from_level g r k" using child w(2) by (fastforce simp: from_level_def)
    moreover have "set (seen @ s # rest) \<subseteq> from_level g r k" using inv unfolding bfs_inv_def by blast
    ultimately show ?thesis by auto
  qed
  moreover have "?d t \<le> Suc (?d x)" if "x \<in> set (rest @ found)" "t \<in> set (rest @ found)" for x t
    using that child[of x] child[of t] far[of x] far[of t] inv by (auto simp: bfs_inv_def)
  moreover have "set ((seen @ [s]) @ (rest @ found)) =
      level g r k \<union> {t. \<exists>x \<in> set (seen @ [s]). \<exists>c. g x c = Some t}"
  proof -
    have "set (seen @ s # rest) = level g r k \<union> {t. \<exists>x \<in> set seen. \<exists>c. g x c = Some t}"
      using inv unfolding bfs_inv_def by blast
    moreover have "set ((seen @ [s]) @ (rest @ found)) = set (seen @ s # rest) \<union> {t. \<exists>c. g s c = Some t}"
      using found(2) by auto
    ultimately show ?thesis by auto
  qed
  ultimately show ?thesis unfolding bfs_inv_def by blast
qed

lemma bfs_levels:
  assumes trie: "is_trie g r P" and fin: "finite P"
    and start: "distinct queue" "set queue = level g r k"
    and init: "I [] queue st"
    and visit: "\<And>seen s rest st w. I seen (s # rest) st \<Longrightarrow> walk g r w = Some s \<Longrightarrow> k \<le> length w \<Longrightarrow>
        (\<And>v t. walk g r v = Some t \<Longrightarrow> k \<le> length v \<Longrightarrow> length v \<le> length w \<Longrightarrow> t \<in> set (seen @ s # rest)) \<Longrightarrow>
        s \<notin> set seen \<Longrightarrow> \<exists>found st'. visit s st = Some (found, st') \<and> distinct found \<and>
          set found = {t. \<exists>c. g s c = Some t} \<and> I (seen @ [s]) (rest @ found) st'"
  shows "\<exists>seen st'. worklist visit queue st = Some st' \<and> I seen [] st' \<and> distinct seen \<and>
    set seen = from_level g r k \<and> sorted (map (node_depth g r) seen)"
proof -
  let ?I = "\<lambda>seen queue st. bfs_inv g r k seen queue \<and> I seen queue st"
  have "from_level g r k \<subseteq> (\<lambda>w. the (walk g r w)) ` P"
    using is_trie_in[OF trie] by (force simp: from_level_def)
  then have finite: "finite (from_level g r k)" using fin by (meson finite_imageI finite_subset)
  have "\<exists>seen st'. worklist visit queue st = Some st' \<and> ?I seen [] st'"
  proof (rule worklist_invariant[OF finite])
    fix seen s rest st
    assume inv: "bfs_inv g r k seen (s # rest) \<and> I seen (s # rest) st"
    then have mem: "s \<in> from_level g r k" "s \<notin> set seen" by (auto simp: bfs_inv_def)
    then obtain w where w: "walk g r w = Some s" "k \<le> length w" by (auto simp: from_level_def)
    have "t \<in> set (seen @ s # rest)" if "walk g r v = Some t" "k \<le> length v" "length v \<le> length w" for v t
      using that inv node_depth[OF trie w(1)]
      by (intro bfs_inv_cover[OF trie conjunct1[OF inv] that(1,2)])
        (fastforce simp: bfs_inv_def sorted_append)
    then have "\<exists>found st'. visit s st = Some (found, st') \<and> distinct found \<and>
        set found = {t. \<exists>c. g s c = Some t} \<and> I (seen @ [s]) (rest @ found) st'"
      by (rule visit[OF conjunct2[OF inv] w _ mem(2)])
    then obtain found st'
      where f: "visit s st = Some (found, st')" "distinct found" "set found = {t. \<exists>c. g s c = Some t}"
        "I (seen @ [s]) (rest @ found) st'" by blast
    with mem bfs_inv_step[OF trie conjunct1[OF inv] f(2,3)]
    show "s \<in> from_level g r k \<and> s \<notin> set seen \<and> (\<exists>found st'. visit s st = Some (found, st') \<and>
        ?I (seen @ [s]) (rest @ found) st')" by blast
  qed (use bfs_inv_start[OF trie start] init in blast)
  then obtain seen st' where r: "worklist visit queue st = Some st'" "bfs_inv g r k seen []" "I seen [] st'"
    by blast
  have "from_level g r k \<subseteq> set seen"
    using bfs_inv_cover[OF trie r(2)] by (auto simp: from_level_def)
  with r show ?thesis by (auto simp: bfs_inv_def)
qed

section \<open>Failure and output links\<close>

text \<open>
  The body of the builders' inner loop, over the store's accessors: follow the
  failure path of the parent, store the failure link, and link the output chain
  to the failure state if a keyword ends there, otherwise to its link.
\<close>

definition linkChild ::
  "('s \<Rightarrow> nat \<Rightarrow> nat option) \<Rightarrow> ('s \<Rightarrow> nat \<Rightarrow> nat option) \<Rightarrow> ('s \<Rightarrow> nat \<Rightarrow> int option) \<Rightarrow>
   ('s \<Rightarrow> nat \<Rightarrow> nat \<Rightarrow> int \<Rightarrow> 's option) \<Rightarrow> ('s \<Rightarrow> nat \<Rightarrow> 'c \<Rightarrow> nat option) \<Rightarrow>
   nat \<Rightarrow> 'c \<times> nat \<Rightarrow> nat list \<times> 's \<Rightarrow> (nat list \<times> 's) option" where
  "linkChild failOf ownOf linkOf setLinks target state edge qs =
     (case (edge, qs) of ((ch, child), (queue, st)) \<Rightarrow> do {
        f0 \<leftarrow> failOf st state;
        f \<leftarrow> target st f0 ch;
        k \<leftarrow> ownOf st f;
        l \<leftarrow> (if k \<noteq> 0 then Some (int f) else linkOf st f);
        st' \<leftarrow> setLinks st child f l;
        Some (queue @ [child], st')
      })"

text \<open>The links of the states in \<open>S\<close>, and of the root, are right.\<close>

definition linked ::
  "goto \<Rightarrow> nat \<Rightarrow> rune list set \<Rightarrow> dict \<Rightarrow> (nat \<Rightarrow> nat option) \<Rightarrow> (nat \<Rightarrow> int option) \<Rightarrow> nat set \<Rightarrow> bool" where
  "linked g r P D fl ol S \<longleftrightarrow>
     (\<forall>w s. walk g r w = Some s \<longrightarrow> s \<in> S \<or> w = [] \<longrightarrow>
        (\<exists>f. fl s = Some f \<and> (w \<noteq> [] \<longrightarrow> walk g r (lps P w) = Some f)) \<and>
        (\<exists>l. ol s = Some l \<and> link_ok g r D w l))"

text \<open>All states of depth 1 to \<open>d\<close> are in \<open>S\<close>.\<close>

definition covers :: "goto \<Rightarrow> nat \<Rightarrow> nat set \<Rightarrow> nat \<Rightarrow> bool" where
  "covers g r S d \<longleftrightarrow> (\<forall>v t. walk g r v = Some t \<longrightarrow> v \<noteq> [] \<longrightarrow> length v \<le> d \<longrightarrow> t \<in> S)"

lemma covers_mono: "covers g r S d \<Longrightarrow> S \<subseteq> S' \<Longrightarrow> covers g r S' d"
  unfolding covers_def by blast

lemma linked_fails:
  assumes "linked g r P D fl ol S"
    and "covers g r S d"
  shows "fails_upto g r P fl d"
  unfolding fails_upto_def
proof (intro allI impI)
  fix w s
  assume w: "walk g r w = Some s" "w \<noteq> []" "length w \<le> d"
  then have "s \<in> S" using assms(2) by (auto simp: covers_def)
  with assms(1) w show "\<exists>f. fl s = Some f \<and> walk g r (lps P w) = Some f"
    unfolding linked_def by blast
qed

lemma linked_upd:
  assumes "linked g r P D fl ol S" and "is_trie g r P" and "walk g r w = Some s" and "w \<noteq> []"
    and "walk g r (lps P w) = Some f" and "link_ok g r D w l"
  shows "linked g r P D (fl(s \<mapsto> f)) (ol(s \<mapsto> l)) (insert s S)"
  unfolding linked_def
proof (intro allI impI)
  fix v t
  assume v: "walk g r v = Some t" "t \<in> insert s S \<or> v = []"
  show "(\<exists>f'. (fl(s \<mapsto> f)) t = Some f' \<and> (v \<noteq> [] \<longrightarrow> walk g r (lps P v) = Some f')) \<and>
      (\<exists>l'. (ol(s \<mapsto> l)) t = Some l' \<and> link_ok g r D v l')"
  proof (cases "t = s")
    case True
    with assms walk_eq_iff[OF assms(2) v(1) assms(3)] show ?thesis by simp
  next
    case False
    with v assms(1) show ?thesis unfolding linked_def by (metis fun_upd_other insertE)
  qed
qed

text \<open>Before the pass, all links point to the root and to nothing.\<close>

lemma linked_init:
  assumes "\<And>w s. walk g r w = Some s \<Longrightarrow> length w \<le> 1 \<Longrightarrow> fl s = Some r \<and> ol s = Some outNone"
    and "S = level g r 1" and trie: "is_trie g r P"
  shows "linked g r P D fl ol S"
  unfolding linked_def
proof (intro allI impI)
  fix w s
  assume w: "walk g r w = Some s" and in_S: "s \<in> S \<or> w = []"
  from in_S have "length w \<le> 1"
  proof
    assume "s \<in> S"
    then obtain v where "walk g r v = Some s" "length v = 1" using assms(2) by (auto simp: level_def)
    with is_trie_inj[OF trie w, of v] show ?thesis by simp
  qed simp
  then consider "w = []" | c where "w = [c]" by (cases w) auto
  then show "(\<exists>f. fl s = Some f \<and> (w \<noteq> [] \<longrightarrow> walk g r (lps P w) = Some f)) \<and>
      (\<exists>l. ol s = Some l \<and> link_ok g r D w l)"
    by cases (use assms(1)[OF w \<open>length w \<le> 1\<close>] in \<open>auto simp: link_ok_def\<close>)
qed

lemma linked_all:
  assumes "linked g r P D fl ol S" and "from_level g r 1 \<subseteq> S"
  shows "linked g r P D fl ol UNIV"
proof -
  have "s \<in> S \<or> w = []" if "walk g r w = Some s" for w s
  proof (cases "w = []")
    case False
    with that have "s \<in> from_level g r 1" unfolding from_level_def by (auto simp: Suc_le_eq)
    with assms(2) show ?thesis by blast
  qed simp
  with assms(1) show ?thesis unfolding linked_def by blast
qed

text \<open>With all links set, a state reports exactly the keywords ending at the text it stands for.\<close>

lemma chain_of_linked:
  assumes trie: "is_trie g r P" and int: "interned g r own_of out D" and nil: "D [] = None"
    and own: "\<forall>w s. walk g r w = Some s \<longrightarrow> idx (own out) s = Some (own_of s)"
    and linked: "linked g r P D fl (idx (outLink out)) UNIV"
    and dom: "dom D \<subseteq> P" and w: "walk g r (lsuf P w) = Some s"
  shows "\<exists>ids. chain out (int s) ids \<and> map (\<lambda>k. (kwords out ! k, runeLens out ! k)) ids = outs_at D w"
proof -
  have "\<exists>ids. chain out (int s) ids \<and> map (\<lambda>k. (kwords out ! k, runeLens out ! k)) ids = outs_at D (lsuf P w)"
    by (rule chain_of_state[OF trie int nil _ _ w]) (use own linked in \<open>unfold linked_def, blast+\<close>)
  then show ?thesis by (simp only: outs_at_lsuf[OF dom])
qed

lemma level_one: "level g r 1 = {t. \<exists>c. g r c = Some t}"
proof -
  have "walk g r [c] = g r c" for c by (cases "g r c") auto
  moreover have "length w = 1 \<longleftrightarrow> (\<exists>c. w = [c])" for w :: "rune list" by (cases w) auto
  ultimately show ?thesis unfolding level_def by metis
qed

lemma distinct_children:
  assumes "is_trie g r P" and "walk g r w = Some s" and "\<And>c t. (c, t) \<in> set es \<Longrightarrow> g s c = Some t"
    and "distinct (map fst es)"
  shows "distinct (map snd es)"
proof -
  have "e = e'" if "e \<in> set es" "e' \<in> set es" "snd e = snd e'" for e e'
  proof -
    from assms(2,3) that have "walk g r (w @ [fst e]) = Some (snd e)" "walk g r (w @ [fst e']) = Some (snd e)"
      by (cases e; cases e'; force simp: walk_snoc)+
    from is_trie_inj[OF assms(1) this] that(3) show ?thesis by (simp add: prod_eq_iff)
  qed
  then have "inj_on snd (set es)" by (auto intro: inj_onI)
  with assms(4) show ?thesis by (simp add: distinct_map)
qed

text \<open>
  What the loop needs of a store.  \<open>holds\<close> says that a store keeps a trie and its
  keyword ids.
\<close>

locale link_store =
  fixes failOf :: "'s \<Rightarrow> nat \<Rightarrow> nat option"
    and ownOf :: "'s \<Rightarrow> nat \<Rightarrow> nat option"
    and linkOf :: "'s \<Rightarrow> nat \<Rightarrow> int option"
    and setLinks :: "'s \<Rightarrow> nat \<Rightarrow> nat \<Rightarrow> int \<Rightarrow> 's option"
    and target :: "'s \<Rightarrow> nat \<Rightarrow> rune \<Rightarrow> nat option"
    and r :: nat
    and keeps :: "'s \<Rightarrow> goto \<Rightarrow> (nat \<Rightarrow> nat) \<Rightarrow> bool"
  assumes ownOf: "keeps st g own_of \<Longrightarrow> walk g r w = Some s \<Longrightarrow> ownOf st s = Some (own_of s)"
    and setLinks: "keeps st g own_of \<Longrightarrow> walk g r w = Some s \<Longrightarrow> \<exists>st'. setLinks st s f l = Some st' \<and>
      keeps st' g own_of \<and> failOf st' = (failOf st)(s \<mapsto> f) \<and> linkOf st' = (linkOf st)(s \<mapsto> l)"
    and target: "keeps st g own_of \<Longrightarrow> is_trie g r P \<Longrightarrow> fails_upto g r P (failOf st) d \<Longrightarrow>
      walk g r v = Some f \<Longrightarrow> length v \<le> d \<Longrightarrow>
      \<exists>t. target st f c = Some t \<and> walk g r (lsuf P (v @ [c])) = Some t"
begin

lemma linkChild_correct:
  assumes keeps: "keeps st g own_of" and trie: "is_trie g r P" and dom: "dom D \<subseteq> P" and nil: "D [] = None"
    and int: "interned g r own_of out D"
    and linked: "linked g r P D (failOf st) (linkOf st) S"
    and w: "walk g r w = Some s" "w \<noteq> []"
    and cover: "covers g r S (length w)"
    and child: "g s c = Some child"
  shows "\<exists>st'. linkChild failOf ownOf linkOf setLinks target s (c, child) (q, st) = Some (q @ [child], st') \<and>
    keeps st' g own_of \<and> linked g r P D (failOf st') (linkOf st') (insert child S)"
proof -
  have closed: "closed P" by (rule is_trie_closed[OF trie])
  have "s \<in> S" using cover w unfolding covers_def by blast
  with linked w obtain f0 where f0: "failOf st s = Some f0" "walk g r (lps P w) = Some f0"
    unfolding linked_def by blast
  have "length (lps P w) \<le> length w" using w(2) by (simp add: less_imp_le)
  from target[OF keeps trie linked_fails[OF linked cover] f0(2) this] obtain f
    where f: "target st f0 c = Some f" "walk g r (lsuf P (lps P w @ [c])) = Some f" by blast
  have wc: "walk g r (w @ [c]) = Some child" using w(1) child by (simp add: walk_snoc)
  have lps: "lps P (w @ [c]) = lsuf P (lps P w @ [c])" by (rule lps_snoc[OF closed w(2)])
  have "length (lsuf P (lps P w @ [c])) \<le> length w"
    using length_lsuf_le[of P "lps P w @ [c]"] length_lps[OF w(2), of P] by simp
  then have "f \<in> S \<or> lsuf P (lps P w @ [c]) = []" using cover f(2) unfolding covers_def by blast
  with linked f(2) obtain l0 where l0: "linkOf st f = Some l0" "link_ok g r D (lps P (w @ [c])) l0"
    unfolding linked_def lps by blast
  have ok: "link_ok g r D (w @ [c]) (if own_of f \<noteq> 0 then int f else l0)"
    using l0(2) f(2) nil interned_own[OF int f(2)] unfolding lps[symmetric]
    by (intro link_ok_step[OF trie dom]) auto
  from setLinks[OF keeps wc, of f "if own_of f \<noteq> 0 then int f else l0"] obtain st'
    where st': "setLinks st child f (if own_of f \<noteq> 0 then int f else l0) = Some st'" "keeps st' g own_of"
      "failOf st' = (failOf st)(child \<mapsto> f)"
      "linkOf st' = (linkOf st)(child \<mapsto> (if own_of f \<noteq> 0 then int f else l0))" by blast
  have "linked g r P D (failOf st') (linkOf st') (insert child S)"
    unfolding st'(3,4) using f(2) lps ok by (intro linked_upd[OF linked trie wc]) auto
  with f0(1) f(1) l0(1) st'(1,2) ownOf[OF keeps f(2)] show ?thesis
    by (auto simp: linkChild_def split: if_splits)
qed

lemma linkChildren_correct:
  assumes keeps: "keeps st g own_of" and trie: "is_trie g r P" and dom: "dom D \<subseteq> P" and nil: "D [] = None"
    and int: "interned g r own_of out D"
    and linked: "linked g r P D (failOf st) (linkOf st) S"
    and w: "walk g r w = Some s" "w \<noteq> []"
    and cover: "covers g r S (length w)"
    and edges: "\<And>c t. (c, t) \<in> set es \<Longrightarrow> g s c = Some t"
  shows "\<exists>st'. foldM (linkChild failOf ownOf linkOf setLinks target s) es (q, st) = Some (q @ map snd es, st') \<and>
    keeps st' g own_of \<and> linked g r P D (failOf st') (linkOf st') (S \<union> snd ` set es)"
  using keeps linked cover edges
proof (induction es arbitrary: q st S)
  case (Cons e es)
  obtain c child where e: "e = (c, child)" by (cases e)
  from linkChild_correct[OF Cons.prems(1) trie dom nil int Cons.prems(2) w Cons.prems(3), of c child q]
    Cons.prems(4)[of c child] e
  obtain st1 where st1: "linkChild failOf ownOf linkOf setLinks target s e (q, st) = Some (q @ [child], st1)"
    "keeps st1 g own_of" "linked g r P D (failOf st1) (linkOf st1) (insert child S)" by auto
  have "covers g r (insert child S) (length w)" using Cons.prems(3) by (rule covers_mono) blast
  from Cons.IH[OF st1(2,3) this, of "q @ [child]"] Cons.prems(4) obtain st'
    where "foldM (linkChild failOf ownOf linkOf setLinks target s) es (q @ [child], st1) = Some ((q @ [child]) @ map snd es, st')"
      "keeps st' g own_of" "linked g r P D (failOf st') (linkOf st') (insert child S \<union> snd ` set es)"
    by auto
  with st1(1) e show ?case by auto
qed simp

end

end
