(* ===== verification/Bloom.thy ===== *)
theory Bloom
  imports Go_Strings Bitset
begin

text \<open>
  \<^verbatim>\<open>internal/engine/engine_bloom.go\<close>: the Bloom filter over first runes that lets
  the memory-efficient engine skip characters no keyword starts with.  All
  arithmetic is on \<open>uint64\<close> and wraps.  The two sizes \<^verbatim>\<open>newBloomFilter\<close> computes
  in floating point (\<^verbatim>\<open>math.Ceil\<close>, \<^verbatim>\<open>math.Log\<close>) are the argument \<open>sizing\<close>; what
  the filter needs of them is \<open>sizing_ok\<close>.  The result: no false negatives.
\<close>

record bloomFilter =
  bits :: "64 word list"
  numBits :: "64 word"
  hashes :: nat

text \<open>\<open>sizing n\<close>: the bit count and the hash count for \<open>n\<close> expected items, before clamping.\<close>

type_synonym bloom_sizing = "nat \<Rightarrow> 64 word \<times> int"

definition newBloomFilter :: "bloom_sizing \<Rightarrow> nat \<Rightarrow> bloomFilter" where
  "newBloomFilter sizing expectedItems =
     (if expectedItems \<le> 0 then \<lparr>bits = replicate 1 0, numBits = 64, hashes = 1\<rparr>
      else
        (let (nb, h0) = sizing expectedItems;
             h1 = (if h0 < 1 then 1 else h0);
             h2 = (if h1 > 16 then 16 else h1);
             size0 = (nb + 63) div 64;
             size1 = (if size0 = 0 then 1 else size0)
         in \<lparr>bits = replicate (unat size1) 0, numBits = nb, hashes = nat h2\<rparr>))"

definition hashPair :: "rune \<Rightarrow> 64 word \<times> 64 word" where
  "hashPair r =
     (let h1 = (14695981039346656037 XOR of_int r) * 1099511628211;
          h2 = (6959950808824887261 XOR of_int r) * 1099511628211;
          h2' = (h2 XOR of_int (drop_bit 8 r)) * 1099511628211
      in (h1, h2'))"

text \<open>\<^verbatim>\<open>(h1 + uint64(i)*h2) % bf.numBits\<close>; a zero divisor panics.\<close>

definition bloom_pos :: "bloomFilter \<Rightarrow> rune \<Rightarrow> nat \<Rightarrow> 64 word option" where
  "bloom_pos bf r i =
     (let (h1, h2) = hashPair r
      in if numBits bf = 0 then None else Some ((h1 + of_nat i * h2) mod numBits bf))"

definition bloom_add :: "bloomFilter \<Rightarrow> rune \<Rightarrow> bloomFilter option" where
  "bloom_add bf r =
     foldM (\<lambda>i bf. do {
        p \<leftarrow> bloom_pos bf r i;
        ws \<leftarrow> bitSet (bits bf) (unat p);
        Some (bf\<lparr>bits := ws\<rparr>)
      }) [0..<hashes bf] bf"

fun mightContainFrom :: "bloomFilter \<Rightarrow> rune \<Rightarrow> nat list \<Rightarrow> bool option" where
  "mightContainFrom bf r [] = Some True"
| "mightContainFrom bf r (i # is) = do {
     p \<leftarrow> bloom_pos bf r i;
     t \<leftarrow> bitTest (bits bf) (unat p);
     if \<not> t then Some False else mightContainFrom bf r is
   }"

definition mightContain :: "bloomFilter \<Rightarrow> rune \<Rightarrow> bool option" where
  "mightContain bf r = mightContainFrom bf r [0..<hashes bf]"

definition bloom_memoryBytes :: "bloomFilter \<Rightarrow> nat" where
  "bloom_memoryBytes bf = length (bits bf) * 8"

section \<open>No false negatives\<close>

definition sizing_ok :: "bloom_sizing \<Rightarrow> bool" where
  "sizing_ok sizing \<longleftrightarrow> (\<forall>n. fst (sizing (Suc n)) \<noteq> 0 \<and> unat (fst (sizing (Suc n))) + 63 < 2 ^ 64)"

definition bloom_ok :: "bloomFilter \<Rightarrow> bool" where
  "bloom_ok bf \<longleftrightarrow> numBits bf \<noteq> 0 \<and> unat (numBits bf) \<le> 64 * length (bits bf)"

lemma newBloomFilter_ok:
  assumes "sizing_ok sizing"
  shows "bloom_ok (newBloomFilter sizing n)"
proof (cases n)
  case (Suc m)
  obtain nb h where nb: "sizing (Suc m) = (nb, h)" by fastforce
  with assms have ok: "nb \<noteq> 0" "unat nb + 63 < 2 ^ 64"
    unfolding sizing_ok_def by (metis fst_conv)+
  then have "unat (nb + 63) = unat nb + 63"
    using unat_add_lem[of nb 63] by simp
  then have size: "unat ((nb + 63) div 64) = (unat nb + 63) div 64" by (simp add: unat_div_distrib)
  have pos: "0 < unat nb" using ok(1) by (simp add: word_neq_0_conv unat_gt_0)
  have "(k + 63) div 64 \<noteq> 0" if "0 < k" for k :: nat using that by auto
  with pos have "(unat nb + 63) div 64 \<noteq> 0" by blast
  with size have "(nb + 63) div 64 \<noteq> 0" by (metis unat_0)
  moreover have "k \<le> 64 * ((k + 63) div 64)" for k :: nat by arith
  ultimately show ?thesis using ok(1) size
    by (simp add: newBloomFilter_def Suc nb Let_def bloom_ok_def)
qed (simp add: newBloomFilter_def bloom_ok_def)

text \<open>The filter holds \<open>r\<close> when every probe of \<open>r\<close> is set.\<close>

definition holds :: "bloomFilter \<Rightarrow> rune \<Rightarrow> bool" where
  "holds bf r \<longleftrightarrow> (\<forall>i < hashes bf. \<exists>p. bloom_pos bf r i = Some p \<and> bitMem (bits bf) (unat p))"

lemma bloom_pos_in:
  assumes "bloom_ok bf"
  shows "\<exists>p. bloom_pos bf r i = Some p \<and> unat p div 64 < length (bits bf)"
proof -
  obtain h1 h2 where h: "hashPair r = (h1, h2)" by fastforce
  have "unat ((h1 + of_nat i * h2) mod numBits bf) < unat (numBits bf)"
    using assms by (simp add: bloom_ok_def unat_mod unat_gt_0)
  with assms h show ?thesis by (auto simp: bloom_pos_def bloom_ok_def)
qed

lemma bloom_pos_cong: "numBits bf = numBits bf' \<Longrightarrow> bloom_pos bf r i = bloom_pos bf' r i"
  by (simp add: bloom_pos_def split_def Let_def)

lemma bloom_add_correct:
  assumes "bloom_ok bf"
  shows "\<exists>bf'. bloom_add bf r = Some bf' \<and> bloom_ok bf' \<and> holds bf' r \<and> (\<forall>r'. holds bf r' \<longrightarrow> holds bf' r')"
proof -
  let ?I = "\<lambda>is (bf' :: bloomFilter). numBits bf' = numBits bf \<and> hashes bf' = hashes bf \<and>
    length (bits bf') = length (bits bf) \<and> (\<forall>j. bitMem (bits bf) j \<longrightarrow> bitMem (bits bf') j) \<and>
    (\<forall>i \<in> set is. \<exists>p. bloom_pos bf r i = Some p \<and> bitMem (bits bf') (unat p))"
  have "\<exists>bf'. bloom_add bf r = Some bf' \<and> ?I [0..<hashes bf] bf'"
    unfolding bloom_add_def
  proof (rule foldM_invariant)
    fix ys i zs bf'
    assume I: "?I ys bf'"
    with assms have "bloom_ok bf'" by (simp add: bloom_ok_def)
    from bloom_pos_in[OF this, of r i] obtain p
      where p: "bloom_pos bf' r i = Some p" "unat p div 64 < length (bits bf')" by blast
    from bitSet_correct[OF p(2)] I p(1) bloom_pos_cong[of bf' bf]
    show "\<exists>s'. (do { p \<leftarrow> bloom_pos bf' r i; ws \<leftarrow> bitSet (bits bf') (unat p);
        Some (bf'\<lparr>bits := ws\<rparr>) }) = Some s' \<and> ?I (ys @ [i]) s'"
      by force
  qed simp
  then obtain bf' where bf': "bloom_add bf r = Some bf'" "?I [0..<hashes bf] bf'" by blast
  then have "bloom_ok bf'" "holds bf' r" "\<forall>r'. holds bf r' \<longrightarrow> holds bf' r'"
    using assms bloom_pos_cong[of bf' bf] by (auto simp: bloom_ok_def holds_def)
  with bf'(1) show ?thesis by blast
qed

lemma mightContain_total:
  assumes "bloom_ok bf"
  shows "\<exists>b. mightContain bf r = Some b"
proof -
  have "\<exists>b. mightContainFrom bf r is = Some b" for "is"
  proof (induction "is")
    case (Cons i "is")
    from bloom_pos_in[OF assms, of r i] Cons show ?case by (auto simp: bitTest_correct)
  qed auto
  then show ?thesis by (simp add: mightContain_def)
qed

lemma mightContain_holds:
  assumes "bloom_ok bf" and "holds bf r"
  shows "mightContain bf r = Some True"
proof -
  have "mightContainFrom bf r is = Some True" if "\<forall>i \<in> set is. i < hashes bf" for "is"
    using that
  proof (induction "is")
    case (Cons i "is")
    then have "i < hashes bf" by simp
    with assms(2) obtain p where p: "bloom_pos bf r i = Some p" "bitMem (bits bf) (unat p)"
      by (auto simp: holds_def)
    then have "unat p div 64 < length (bits bf)" by (simp add: bitMem_def)
    with Cons p show ?case by (simp add: bitTest_correct)
  qed simp
  then show ?thesis by (simp add: mightContain_def)
qed

end
