(* ===== verification/Presets.thy ===== *)
theory Presets
  imports Prelude
begin

text \<open>
  \<^verbatim>\<open>internal/engine/engine.go\<close>: the architecture presets and the statistics record
  the engines report.
\<close>

datatype Preset = PresetNone | PresetSpeed | PresetBalanced | PresetMemoryEfficient | PresetDefault

fun presetString :: "Preset \<Rightarrow> string" where
  "presetString PresetNone = ''None''"
| "presetString PresetSpeed = ''Speed''"
| "presetString PresetBalanced = ''Balanced''"
| "presetString PresetMemoryEfficient = ''MemoryEfficient''"
| "presetString PresetDefault = ''Default''"

record InMemoryInfo =
  info_Keywords :: nat
  info_Nodes :: nat
  info_Preset :: Preset
  info_MemoryBytes :: nat
  info_TrieDepth :: nat

end
