(* ===== verification/Map_Engine.thy ===== *)
theory Map_Engine
  imports Trie_BFS Bloom Presets
begin

text \<open>
  \<^verbatim>\<open>internal/engine/engine_map.go\<close>, the engine of \<^verbatim>\<open>PresetMemoryEfficient\<close>: a
  sparse trie whose nodes keep a single edge inline and a map once they branch,
  failure links, and a Bloom filter over the first runes.

  The order in which Go ranges over a map is unspecified; it is the argument
  \<open>ord\<close>, of which only \<open>map_order_ok\<close> is used: each range yields every entry once.
  Node ids are unbounded here; the source stores them in \<open>int\<close> and \<open>int32\<close>.
\<close>

record map_order =
  edgeOrder :: "nat \<Rightarrow> (rune \<times> nat) list \<Rightarrow> (rune \<times> nat) list"
  runeOrder :: "rune list \<Rightarrow> rune list"

definition map_order_ok :: "map_order \<Rightarrow> bool" where
  "map_order_ok ord \<longleftrightarrow> (\<forall>s es. mset (edgeOrder ord s es) = mset es) \<and> (\<forall>rs. mset (runeOrder ord rs) = mset rs)"

section \<open>Nodes\<close>

record mapNode =
  mn_children :: "(rune \<times> nat) list option"
  mn_singleRune :: rune
  mn_singleChild :: nat
  mn_fail :: nat
  mn_depth :: nat

definition mapNode_next :: "mapNode \<Rightarrow> rune \<Rightarrow> nat option" where
  "mapNode_next n ch =
     (case mn_children n of
        Some m \<Rightarrow> map_of m ch
      | None \<Rightarrow>
          if mn_singleChild n \<noteq> 0 \<and> mn_singleRune n = ch then Some (mn_singleChild n) else None)"

definition addChild :: "mapNode \<Rightarrow> rune \<Rightarrow> nat \<Rightarrow> mapNode" where
  "addChild n ch child =
     (case mn_children n of
        Some m \<Rightarrow> n\<lparr>mn_children := Some (AList.update ch child m)\<rparr>
      | None \<Rightarrow>
          if mn_singleChild n = 0 then n\<lparr>mn_singleRune := ch, mn_singleChild := child\<rparr>
          else n\<lparr>mn_children := Some (AList.update ch child [(mn_singleRune n, mn_singleChild n)]),
                 mn_singleChild := 0\<rparr>)"

definition edges :: "map_order \<Rightarrow> nat \<Rightarrow> mapNode \<Rightarrow> (rune \<times> nat) list" where
  "edges ord s n =
     (case mn_children n of
        Some m \<Rightarrow> edgeOrder ord s m
      | None \<Rightarrow> if mn_singleChild n \<noteq> 0 then [(mn_singleRune n, mn_singleChild n)] else [])"

record mapTrie =
  nodes :: "mapNode list"
  mt_out :: outputs

record memEfficientEngine =
  me_trie :: mapTrie
  me_bloom :: "bloomFilter option"
  me_asciiRoot :: "bool list"

section \<open>Building\<close>

definition newMapNode :: "nat \<Rightarrow> mapNode" where
  "newMapNode d = \<lparr>mn_children = None, mn_singleRune = 0, mn_singleChild = 0, mn_fail = 0, mn_depth = d\<rparr>"

definition newMapTrie :: mapTrie where
  "newMapTrie =
     \<lparr>nodes = [newMapNode 0],
      mt_out = \<lparr>own = [0], outLink = [outNone], kwords = [[]], runeLens = [0]\<rparr>\<rparr>"

definition mapTrie_next :: "mapTrie \<Rightarrow> nat \<Rightarrow> rune \<Rightarrow> nat option option" where
  "mapTrie_next t s ch = do { n \<leftarrow> idx (nodes t) s; Some (mapNode_next n ch) }"

definition mapTrie_alloc :: "mapTrie \<Rightarrow> nat \<Rightarrow> rune \<Rightarrow> (mapTrie \<times> nat) option" where
  "mapTrie_alloc t s ch = do {
     n \<leftarrow> idx (nodes t) s;
     (let child = length (nodes t);
          n' = addChild n ch child;
          out = mt_out t
      in Some
           (t\<lparr>nodes := (nodes t)[s := n'] @ [newMapNode (mn_depth n' + 1)],
              mt_out := out\<lparr>own := own out @ [0], outLink := outLink out @ [outNone]\<rparr>\<rparr>,
            child))
   }"

text \<open>The body of the loop over the keywords; \<open>firsts\<close> are the keys of \<^verbatim>\<open>firstRunes\<close>.\<close>

definition mapTrie_insert :: "gostring \<Rightarrow> mapTrie \<times> rune list \<Rightarrow> (mapTrie \<times> rune list) option" where
  "mapTrie_insert kw tf =
     (case tf of (t, firsts) \<Rightarrow>
        if kw = [] then Some (t, firsts)
        else do {
          (t', s) \<leftarrow> insertRunes mapTrie_next mapTrie_alloc t 0 (runes kw);
          cur \<leftarrow> idx (own (mt_out t')) s;
          (out', i) \<leftarrow> assign (mt_out t') cur kw;
          own' \<leftarrow> upd (own out') s i;
          Some (t'\<lparr>mt_out := out'\<lparr>own := own'\<rparr>\<rparr>, List.insert (fst (decodeRune kw)) firsts)
        })"

definition mapTrie_fail :: "mapTrie \<Rightarrow> nat \<Rightarrow> nat option" where
  "mapTrie_fail t s = do { n \<leftarrow> idx (nodes t) s; Some (mn_fail n) }"

definition mapTrie_setLinks :: "mapTrie \<Rightarrow> nat \<Rightarrow> nat \<Rightarrow> int \<Rightarrow> mapTrie option" where
  "mapTrie_setLinks t s f l = do {
     n \<leftarrow> idx (nodes t) s;
     ns \<leftarrow> upd (nodes t) s (n\<lparr>mn_fail := f\<rparr>);
     ol \<leftarrow> upd (outLink (mt_out t)) s l;
     Some (t\<lparr>nodes := ns, mt_out := (mt_out t)\<lparr>outLink := ol\<rparr>\<rparr>)
   }"

abbreviation mapTrie_own :: "mapTrie \<Rightarrow> nat \<Rightarrow> nat option" where
  "mapTrie_own t \<equiv> idx (own (mt_out t))"

abbreviation mapTrie_link :: "mapTrie \<Rightarrow> nat \<Rightarrow> int option" where
  "mapTrie_link t \<equiv> idx (outLink (mt_out t))"

definition mapTrie_target :: "mapTrie \<Rightarrow> nat \<Rightarrow> rune \<Rightarrow> nat option" where
  "mapTrie_target t f ch = failTarget (mapTrie_next t) (mapTrie_fail t) ch f"

definition mapTrie_visit :: "map_order \<Rightarrow> nat \<Rightarrow> mapTrie \<Rightarrow> (nat list \<times> mapTrie) option" where
  "mapTrie_visit ord state t = do {
     n \<leftarrow> idx (nodes t) state;
     foldM (linkChild mapTrie_fail mapTrie_own mapTrie_link mapTrie_setLinks mapTrie_target state)
       (edges ord state n) ([], t)
   }"

text \<open>The Bloom filter and the ASCII table at the end of the build.\<close>

definition addFirstRune :: "rune \<Rightarrow> bloomFilter \<times> bool list \<Rightarrow> (bloomFilter \<times> bool list) option" where
  "addFirstRune r ba =
     (case ba of (bf, ascii) \<Rightarrow> do {
        bf' \<leftarrow> bloom_add bf r;
        ascii' \<leftarrow> (if r \<ge> 0 \<and> r < RuneSelf then updi ascii r True else Some ascii);
        Some (bf', ascii')
      })"

definition mem_buildFromSequence ::
  "bloom_sizing \<Rightarrow> map_order \<Rightarrow> gostring list \<Rightarrow> memEfficientEngine option" where
  "mem_buildFromSequence sizing ord keywords = do {
     (trie, firstRunes) \<leftarrow> foldM mapTrie_insert keywords (newMapTrie, []);
     root \<leftarrow> idx (nodes trie) 0;
     trie' \<leftarrow> worklist (mapTrie_visit ord) (map snd (edges ord 0 root)) trie;
     (bf, ascii) \<leftarrow> foldM addFirstRune (runeOrder ord firstRunes)
       (newBloomFilter sizing (length firstRunes), replicate 128 False);
     Some \<lparr>me_trie = trie', me_bloom = Some bf, me_asciiRoot = ascii\<rparr>
   }"

section \<open>Searching\<close>

definition skipAtRoot :: "memEfficientEngine \<Rightarrow> bool \<Rightarrow> rune \<Rightarrow> bool option" where
  "skipAtRoot e atRoot ch =
     (if \<not> atRoot then Some False
      else if ch \<ge> 0 \<and> ch < RuneSelf then do { b \<leftarrow> idxi (me_asciiRoot e) ch; Some (\<not> b) }
      else (case me_bloom e of
              None \<Rightarrow> Some False
            | Some bf \<Rightarrow> do { b \<leftarrow> mightContain bf ch; Some (\<not> b) }))"

text \<open>
  The body of every scan loop: skip, or walk goto and failure links; the output
  chain of the new state is looked at after every walk.
\<close>

definition mem_step :: "memEfficientEngine \<Rightarrow> nat \<Rightarrow> rune \<Rightarrow> (nat \<times> bool) option" where
  "mem_step e state ch = do {
     skip \<leftarrow> skipAtRoot e (state = 0) ch;
     if skip then Some (state, False)
     else do {
       state' \<leftarrow> gotoLoop (mapTrie_next (me_trie e)) (mapTrie_fail (me_trie e)) 0 state ch;
       Some (state', True)
     }
   }"

abbreviation mem_out :: "memEfficientEngine \<Rightarrow> outputs" where
  "mem_out e \<equiv> mt_out (me_trie e)"

definition mem_empty :: "memEfficientEngine \<Rightarrow> bool" where
  "mem_empty e \<longleftrightarrow> length (nodes (me_trie e)) \<le> 1"

definition mem_find :: "memEfficientEngine \<Rightarrow> gostring \<Rightarrow> gostring list option" where
  "mem_find e text =
     (if mem_empty e then Some []
      else do {
        (matched, _) \<leftarrow> scanLoop (mem_step e) (hit_find (mem_out e)) (runes text) 0 0 (Some []);
        matched
      })"

definition mem_findSet :: "memEfficientEngine \<Rightarrow> gostring \<Rightarrow> gostring list option" where
  "mem_findSet e text =
     (if mem_empty e then Some []
      else do {
        (c, _) \<leftarrow> scanLoop (mem_step e) (hit_set (mem_out e)) (runes text) 0 0 new_collector;
        Some (collector_result c)
      })"

definition mem_findIndex :: "memEfficientEngine \<Rightarrow> gostring \<Rightarrow> (gostring \<rightharpoonup> int list) option" where
  "mem_findIndex e text =
     (if mem_empty e then Some Map.empty
      else do {
        (matched, _) \<leftarrow> scanLoop (mem_step e) (hit_index (mem_out e)) (runes text) 0 0 Map.empty;
        Some matched
      })"

definition mem_matchString ::
  "memEfficientEngine \<Rightarrow> gostring \<Rightarrow> (match \<Rightarrow> 'a \<Rightarrow> 'a \<times> bool) \<Rightarrow> 'a \<Rightarrow> 'a option" where
  "mem_matchString e text emit a =
     (if mem_empty e then Some a
      else do {
        (a', _) \<leftarrow> scanLoop (mem_step e) (hit_emit (mem_out e) emit) (runes text) 0 0 a;
        Some a'
      })"

definition mem_matchStream ::
  "memEfficientEngine \<Rightarrow> ('a \<Rightarrow> rune option \<times> 'a) \<Rightarrow> (match \<Rightarrow> 'a \<Rightarrow> 'a \<times> bool) \<Rightarrow> 'a \<Rightarrow> 'a option" where
  "mem_matchStream e nxt emit a =
     (if mem_empty e then Some a
      else streamLoop (mem_step e) (hit_emit (mem_out e) emit) nxt 0 0 a)"

section \<open>Info\<close>

definition trieMaxDepth :: "mapNode list \<Rightarrow> nat" where
  "trieMaxDepth ns = foldl (\<lambda>d n. if mn_depth n > d then mn_depth n else d) 0 ns"

definition mem_estimateMemory :: "memEfficientEngine \<Rightarrow> nat" where
  "mem_estimateMemory e =
     (\<Sum>n \<leftarrow> nodes (me_trie e). 40 + (case mn_children n of None \<Rightarrow> 0 | Some m \<Rightarrow> 48 + 24 * length m)) +
     outputs_memoryBytes (mem_out e) +
     (case me_bloom e of None \<Rightarrow> 0 | Some bf \<Rightarrow> bloom_memoryBytes bf)"

definition mem_info :: "memEfficientEngine \<Rightarrow> InMemoryInfo" where
  "mem_info e =
     \<lparr>info_Keywords = keywordCount (mem_out e), info_Nodes = length (nodes (me_trie e)),
      info_Preset = PresetMemoryEfficient, info_MemoryBytes = mem_estimateMemory e,
      info_TrieDepth = trieMaxDepth (nodes (me_trie e))\<rparr>"

section \<open>The store\<close>

definition node_ok :: "mapNode \<Rightarrow> bool" where
  "node_ok n \<longleftrightarrow> (case mn_children n of Some m \<Rightarrow> distinct (map fst m) | None \<Rightarrow> True)"

lemma addChild_next:
  "mapNode_next n ch = None \<Longrightarrow> child \<noteq> 0 \<Longrightarrow>
   mapNode_next (addChild n ch child) = (mapNode_next n)(ch \<mapsto> child)"
  by (rule ext) (auto simp: mapNode_next_def addChild_def update_conv' split: option.splits if_splits)

lemma addChild_ok: "node_ok n \<Longrightarrow> node_ok (addChild n ch child)"
  by (auto simp: node_ok_def addChild_def distinct_update split: option.splits)

lemma addChild_fields [simp]: "mn_fail (addChild n ch child) = mn_fail n" "mn_depth (addChild n ch child) = mn_depth n"
  by (auto simp: addChild_def split: option.splits)

lemma mapNode_next_fail [simp]: "mapNode_next (n\<lparr>mn_fail := f\<rparr>) = mapNode_next n"
  by (rule ext) (simp add: mapNode_next_def split: option.splits)

lemma newMapNode_simps [simp]: "mapNode_next (newMapNode d) = (\<lambda>_. None)" "node_ok (newMapNode d)"
  "mn_fail (newMapNode d) = 0" "mn_depth (newMapNode d) = d"
  by (auto simp: newMapNode_def mapNode_next_def node_ok_def)

lemma edges_correct:
  assumes "node_ok n" and "map_order_ok ord"
  shows "set (edges ord s n) = {(c, t). mapNode_next n c = Some t}" "distinct (map fst (edges ord s n))"
proof -
  have set: "set (edgeOrder ord s m) = set m" for m
    using assms(2) by (metis map_order_ok_def set_mset_mset)
  have dist: "distinct (map fst (edgeOrder ord s m))" if "distinct (map fst m)" for m
  proof -
    have "mset (map fst (edgeOrder ord s m)) = mset (map fst m)"
      using assms(2) by (simp add: map_order_ok_def)
    then show ?thesis using that by (metis mset_eq_imp_distinct_iff)
  qed
  show "set (edges ord s n) = {(c, t). mapNode_next n c = Some t}"
    using assms(1) by (auto simp: edges_def mapNode_next_def node_ok_def set split: option.splits if_splits)
  show "distinct (map fst (edges ord s n))"
    using assms(1) by (auto simp: edges_def node_ok_def dist split: option.splits)
qed

definition mapTrie_goto :: "mapTrie \<Rightarrow> goto" where
  "mapTrie_goto t s = (if s < length (nodes t) then mapNode_next (nodes t ! s) else (\<lambda>_. None))"

definition mapTrie_wf :: "mapTrie \<Rightarrow> bool" where
  "mapTrie_wf t \<longleftrightarrow> nodes t \<noteq> [] \<and> length (own (mt_out t)) = length (nodes t) \<and>
     length (outLink (mt_out t)) = length (nodes t) \<and> list_all node_ok (nodes t)"

text \<open>What the insertion of edges leaves alone.\<close>

definition mapTrie_obs ::
  "mapTrie \<Rightarrow> (nat \<Rightarrow> nat) \<times> (nat \<Rightarrow> nat) \<times> (nat \<Rightarrow> int) \<times> gostring list \<times> nat list" where
  "mapTrie_obs t =
     (at_or 0 (own (mt_out t)), at_or 0 (map mn_fail (nodes t)), at_or outNone (outLink (mt_out t)),
      kwords (mt_out t), runeLens (mt_out t))"

definition mapTrie_depth :: "mapTrie \<Rightarrow> nat \<Rightarrow> nat" where
  "mapTrie_depth t s = (if s < length (nodes t) then mn_depth (nodes t ! s) else 0)"

interpretation mt: trie_depth_store mapTrie_next mapTrie_alloc mapTrie_goto "\<lambda>t. length (nodes t)"
  mapTrie_wf mapTrie_obs mapTrie_depth
proof unfold_locales
  fix t :: mapTrie and s c
  assume wf: "mapTrie_wf t" and s: "s < length (nodes t)"
  show "mapTrie_next t s c = Some (mapTrie_goto t s c)"
    using s by (simp add: mapTrie_next_def mapTrie_goto_def go_simps)
  {
    assume none: "mapTrie_goto t s c = None"
    let ?n = "length (nodes t)"
    define t1 where "t1 = t\<lparr>nodes := (nodes t)[s := addChild (nodes t ! s) c ?n] @ [newMapNode (mn_depth (nodes t ! s) + 1)],
      mt_out := (mt_out t)\<lparr>own := own (mt_out t) @ [0], outLink := outLink (mt_out t) @ [outNone]\<rparr>\<rparr>"
    have t1: "mapTrie_alloc t s c = Some (t1, ?n)"
      "nodes t1 = (nodes t)[s := addChild (nodes t ! s) c ?n] @ [newMapNode (mn_depth (nodes t ! s) + 1)]"
      "mt_out t1 = (mt_out t)\<lparr>own := own (mt_out t) @ [0], outLink := outLink (mt_out t) @ [outNone]\<rparr>"
      using s by (simp_all add: mapTrie_alloc_def go_simps Let_def t1_def)
    have "mapTrie_wf t1"
      using wf s by (auto simp: mapTrie_wf_def t1 list_all_length nth_list_update nth_append addChild_ok less_Suc_eq)
    moreover have "mapNode_next (addChild (nodes t ! s) c ?n) = (mapNode_next (nodes t ! s))(c \<mapsto> ?n)"
      using s none by (intro addChild_next) (auto simp: mapTrie_goto_def)
    then have "mapTrie_goto t1 x = ((mapTrie_goto t)(s := (mapTrie_goto t s)(c \<mapsto> ?n))) x" for x
      using s by (cases "x = s") (simp_all add: mapTrie_goto_def t1(2) nth_append nth_list_update less_Suc_eq)
    moreover have "mapTrie_obs t1 = mapTrie_obs t"
      using s by (simp add: mapTrie_obs_def t1 at_or_map_upd)
    ultimately show "\<exists>t'. mapTrie_alloc t s c = Some (t', ?n) \<and> mapTrie_wf t' \<and>
        length (nodes t') = Suc ?n \<and>
        mapTrie_goto t' = (mapTrie_goto t)(s := (mapTrie_goto t s)(c \<mapsto> ?n)) \<and> mapTrie_obs t' = mapTrie_obs t"
      using t1(1,2) by (intro exI[of _ t1]) auto
  }
  {
    fix t' n
    assume "mapTrie_alloc t s c = Some (t', n)"
    then show "mapTrie_depth t' = (mapTrie_depth t)(length (nodes t) := Suc (mapTrie_depth t s))"
      using s by (intro ext)
        (auto simp: mapTrie_alloc_def go_simps Let_def mapTrie_depth_def nth_append nth_list_update less_Suc_eq)
  }
qed

section \<open>The build\<close>

text \<open>
  The trie of the keywords inserted so far: their prefixes are its states, the
  ids at the states are the dictionary, and no link has been set yet.
\<close>

definition mapTrie_holds :: "mapTrie \<Rightarrow> dict \<Rightarrow> bool" where
  "mapTrie_holds t D \<longleftrightarrow> mt.trie_of t (states D) \<and> mt.depths_ok t \<and>
     interned (mapTrie_goto t) 0 (at_or 0 (own (mt_out t))) (mt_out t) D \<and>
     at_or 0 (map mn_fail (nodes t)) = (\<lambda>_. 0) \<and> at_or outNone (outLink (mt_out t)) = (\<lambda>_. outNone)"

lemma newMapTrie_simps [simp]: "nodes newMapTrie = [newMapNode 0]"
  "mt_out newMapTrie = \<lparr>own = [0], outLink = [outNone], kwords = [[]], runeLens = [0]\<rparr>"
  by (simp_all add: newMapTrie_def)

lemma mapTrie_holds_new: "mapTrie_holds newMapTrie Map.empty"
proof -
  have g: "mapTrie_goto newMapTrie = (\<lambda>_ _. None)"
    by (intro ext) (simp add: mapTrie_goto_def)
  have "walk (\<lambda>_ _. None) 0 w = Some s \<longleftrightarrow> w = [] \<and> s = 0" for w s
    by (cases w) auto
  then have "mt.depths_ok newMapTrie" by (auto simp: mt.depths_ok_def g mapTrie_depth_def)
  moreover have "at_or 0 (own (mt_out newMapTrie)) = (\<lambda>_. 0)"
    by (rule ext) (simp add: at_or_def)
  moreover have "interned (\<lambda>_ _. None) 0 (\<lambda>_. 0) (mt_out newMapTrie) Map.empty"
    by (rule interned_empty) simp_all
  moreover have "at_or 0 (map mn_fail (nodes newMapTrie)) = (\<lambda>_. 0)"
    "at_or outNone (outLink (mt_out newMapTrie)) = (\<lambda>_. outNone)"
    by (auto simp: at_or_def)
  moreover have "mt.trie_of newMapTrie {[]}"
    using trie_upto_init by (simp add: mt.trie_of_def g mapTrie_wf_def)
  ultimately show ?thesis by (simp only: mapTrie_holds_def g states_empty simp_thms)
qed

lemma mapTrie_insert_correct:
  assumes "mapTrie_holds t D" and kw: "kw \<noteq> []"
  shows "\<exists>t'. mapTrie_insert kw (t, fs) = Some (t', List.insert (fst (decodeRune kw)) fs) \<and>
    mapTrie_holds t' (D(runes kw \<mapsto> kw))"
proof -
  let ?g = "mapTrie_goto" and ?own = "\<lambda>t. at_or 0 (own (mt_out t))"
  from assms(1) have t: "mt.trie_of t (states D)" "interned (?g t) 0 (?own t) (mt_out t) D" "mt.depths_ok t"
    by (auto simp: mapTrie_holds_def)
  from mt.insertRunes_correct[OF t(1), of "[]" 0 "runes kw"] obtain t1 s
    where ins: "insertRunes mapTrie_next mapTrie_alloc t 0 (runes kw) = Some (t1, s)"
      and t1: "mt.trie_of t1 (states D \<union> {u. prefix u (runes kw)})"
      and s: "walk (?g t1) 0 (runes kw) = Some s"
      and keep: "\<forall>u x. walk (?g t) 0 u = Some x \<longrightarrow> walk (?g t1) 0 u = Some x"
      and obs: "mapTrie_obs t1 = mapTrie_obs t" by auto
  have depth: "mt.depths_ok t1"
    using mt.insertRunes_depth[OF t(1) _ t(3) ins, of "[]"] by simp
  have trie: "is_trie (?g t) 0 (states D)" "is_trie (?g t1) 0 (states D \<union> {u. prefix u (runes kw)})"
    and range: "s < length (nodes t1)" and wf: "mapTrie_wf t1"
    using mt.trie_of_trie[OF t(1)] mt.trie_of_trie[OF t1] mt.trie_of_less[OF t1 s] mt.trie_of_wf[OF t1] by simp_all
  from obs have o: "?own t1 = ?own t" "kwords (mt_out t1) = kwords (mt_out t)"
    "runeLens (mt_out t1) = runeLens (mt_out t)"
    "at_or 0 (map mn_fail (nodes t1)) = at_or 0 (map mn_fail (nodes t))"
    "at_or outNone (outLink (mt_out t1)) = at_or outNone (outLink (mt_out t))"
    by (auto simp: mapTrie_obs_def)
  from interned_extend[OF t(2) trie keep dom_subset_states]
  have "interned (?g t1) 0 (?own t1) (mt_out t1) D" using o interned_cong_out by metis
  from interned_assign[OF this trie(2) s refl] obtain out' i
    where a: "assign (mt_out t1) (?own t1 s) kw = Some (out', i)"
      and int: "interned (?g t1) 0 ((?own t1)(s := i)) out' (D(runes kw \<mapsto> kw))" by blast
  have len: "s < length (own (mt_out t1))" using range wf by (simp add: mapTrie_wf_def)
  let ?t = "t1\<lparr>mt_out := out'\<lparr>own := (own (mt_out t1))[s := i]\<rparr>\<rparr>"
  from assign_fields[OF a] len a kw ins
  have run: "mapTrie_insert kw (t, fs) = Some (?t, List.insert (fst (decodeRune kw)) fs)"
    by (simp add: mapTrie_insert_def go_simps at_or_def)
  have g: "?g ?t = ?g t1" by (intro ext) (simp add: mapTrie_goto_def)
  have "mapTrie_wf ?t" using wf assign_fields[OF a] by (simp add: mapTrie_wf_def)
  with t1 g have "mt.trie_of ?t (states (D(runes kw \<mapsto> kw)))" by (simp add: mt.trie_of_def states_upd)
  moreover have "mapTrie_depth ?t = mapTrie_depth t1" by (intro ext) (simp add: mapTrie_depth_def)
  then have "mt.depths_ok ?t" using depth by (simp add: mt.depths_ok_def g)
  moreover have "interned (?g ?t) 0 (?own ?t) (mt_out ?t) (D(runes kw \<mapsto> kw))"
    unfolding g using int at_or_upd[OF len, of 0 i] interned_cong_out[of out' "mt_out ?t"] by simp
  ultimately have "mapTrie_holds ?t (D(runes kw \<mapsto> kw))"
    using assms(1) o assign_fields[OF a] by (simp add: mapTrie_holds_def)
  with run show ?thesis by blast
qed

lemma mapTrie_inserts:
  "\<exists>t fs. foldM mapTrie_insert ks (newMapTrie, []) = Some (t, fs) \<and> mapTrie_holds t (dict_of ks) \<and>
     distinct fs \<and> set fs = {r. \<exists>k \<in> set ks. k \<noteq> [] \<and> r = fst (decodeRune k)}"
proof -
  let ?I = "\<lambda>ks (t, fs). mapTrie_holds t (dict_of ks) \<and> distinct fs \<and>
    set fs = {r. \<exists>k \<in> set ks. k \<noteq> [] \<and> r = fst (decodeRune k)}"
  have "\<exists>tf. foldM mapTrie_insert ks (newMapTrie, []) = Some tf \<and> ?I ks tf"
  proof (rule foldM_invariant)
    fix ys y zs tf
    assume I: "?I ys tf"
    obtain t fs where tf: "tf = (t, fs)" by (cases tf)
    show "\<exists>tf'. mapTrie_insert y tf = Some tf' \<and> ?I (ys @ [y]) tf'"
    proof (cases "y = []")
      case True
      with I tf show ?thesis by (auto simp: mapTrie_insert_def dict_of_snoc)
    next
      case False
      with mapTrie_insert_correct[of t "dict_of ys" y fs] I tf show ?thesis
        by (auto simp: dict_of_snoc distinct_insert)
    qed
  qed (simp add: mapTrie_holds_new)
  then show ?thesis by auto
qed

section \<open>The links\<close>

definition mapTrie_keeps :: "mapTrie \<Rightarrow> goto \<Rightarrow> (nat \<Rightarrow> nat) \<Rightarrow> bool" where
  "mapTrie_keeps t g own_of \<longleftrightarrow> mapTrie_wf t \<and> mapTrie_goto t = g \<and> at_or 0 (own (mt_out t)) = own_of \<and>
     (\<forall>w s. walk g 0 w = Some s \<longrightarrow> s < length (nodes t))"

lemma mapTrie_keeps_next:
  "mapTrie_keeps t g own_of \<Longrightarrow> \<forall>w s c. walk g 0 w = Some s \<longrightarrow> mapTrie_next t s c = Some (g s c)"
  by (auto simp: mapTrie_keeps_def intro: mt.nxt)

lemma mapTrie_setLinks_correct:
  assumes keeps: "mapTrie_keeps t g own_of" and w: "walk g 0 w = Some s"
  shows "\<exists>t'. mapTrie_setLinks t s f l = Some t' \<and> mapTrie_keeps t' g own_of \<and>
    mapTrie_fail t' = (mapTrie_fail t)(s \<mapsto> f) \<and> mapTrie_link t' = (mapTrie_link t)(s \<mapsto> l) \<and>
    kwords (mt_out t') = kwords (mt_out t) \<and> runeLens (mt_out t') = runeLens (mt_out t) \<and>
    map mn_depth (nodes t') = map mn_depth (nodes t)"
proof -
  from keeps w have s: "s < length (nodes t)" "s < length (outLink (mt_out t))"
    by (auto simp: mapTrie_keeps_def mapTrie_wf_def)
  define t1 where "t1 = t\<lparr>nodes := (nodes t)[s := (nodes t ! s)\<lparr>mn_fail := f\<rparr>],
    mt_out := (mt_out t)\<lparr>outLink := (outLink (mt_out t))[s := l]\<rparr>\<rparr>"
  have "mapTrie_setLinks t s f l = Some t1"
    using s by (simp add: mapTrie_setLinks_def go_simps t1_def)
  moreover have n: "nodes t1 = (nodes t)[s := (nodes t ! s)\<lparr>mn_fail := f\<rparr>]"
    "mt_out t1 = (mt_out t)\<lparr>outLink := (outLink (mt_out t))[s := l]\<rparr>"
    by (simp_all add: t1_def)
  have "mapTrie_goto t1 x = mapTrie_goto t x" for x
    using s by (cases "x = s") (simp_all add: mapTrie_goto_def n)
  moreover have "mapTrie_wf t1"
    using keeps s by (auto simp: mapTrie_keeps_def mapTrie_wf_def n list_all_length nth_list_update node_ok_def)
  ultimately have "mapTrie_setLinks t s f l = Some t1" "mapTrie_keeps t1 g own_of"
    using keeps n by (auto simp: mapTrie_keeps_def)
  moreover have "mapTrie_fail t1 = (mapTrie_fail t)(s \<mapsto> f)"
    using s(1) by (intro ext) (simp add: mapTrie_fail_def n idx_def nth_list_update)
  moreover have "mapTrie_link t1 = (mapTrie_link t)(s \<mapsto> l)"
    using s(2) by (intro ext) (simp add: n idx_def nth_list_update)
  moreover have "map mn_depth (nodes t1) = map mn_depth (nodes t)"
    using s(1) by (intro nth_equalityI) (auto simp: n nth_list_update)
  ultimately show ?thesis using n by (intro exI[of _ t1]) simp
qed

text \<open>The part of a store the links pass leaves alone.\<close>

definition mapTrie_keeps_out :: "outputs \<Rightarrow> nat list \<Rightarrow> mapTrie \<Rightarrow> goto \<Rightarrow> (nat \<Rightarrow> nat) \<Rightarrow> bool" where
  "mapTrie_keeps_out out ds t g own_of \<longleftrightarrow> mapTrie_keeps t g own_of \<and> kwords (mt_out t) = kwords out \<and>
     runeLens (mt_out t) = runeLens out \<and> map mn_depth (nodes t) = ds"

lemma mapTrie_target_correct:
  assumes "mapTrie_keeps t g own_of" and "is_trie g 0 P" and "fails_upto g 0 P (mapTrie_fail t) d"
    and "walk g 0 v = Some f" and "length v \<le> d"
  shows "\<exists>x. mapTrie_target t f c = Some x \<and> walk g 0 (lsuf P (v @ [c])) = Some x"
proof -
  from gotoLoop_correct[OF assms(2) mapTrie_keeps_next[OF assms(1)] assms(3-5)] obtain x
    where "gotoLoop (mapTrie_next t) (mapTrie_fail t) 0 f c = Some x" "walk g 0 (lsuf P (v @ [c])) = Some x"
    by blast
  then show ?thesis using failTarget_gotoLoop by (auto simp: mapTrie_target_def)
qed

interpretation ml: link_store mapTrie_fail mapTrie_own mapTrie_link mapTrie_setLinks mapTrie_target 0
  "mapTrie_keeps_out out ds" for out ds
proof unfold_locales
  fix st g own_of w s f l
  assume k: "mapTrie_keeps_out out ds st g own_of" and w: "walk g 0 w = Some s"
  then show "mapTrie_own st s = Some (own_of s)"
    by (auto simp: mapTrie_keeps_out_def mapTrie_keeps_def mapTrie_wf_def idx_def at_or_def)
  from k mapTrie_setLinks_correct[of st g own_of w s f l] w
  show "\<exists>st'. mapTrie_setLinks st s f l = Some st' \<and> mapTrie_keeps_out out ds st' g own_of \<and>
      mapTrie_fail st' = (mapTrie_fail st)(s \<mapsto> f) \<and> mapTrie_link st' = (mapTrie_link st)(s \<mapsto> l)"
    by (auto simp: mapTrie_keeps_out_def)
next
  fix st g own_of P d v f c
  assume "mapTrie_keeps_out out ds st g own_of" "is_trie g 0 P" "fails_upto g 0 P (mapTrie_fail st) d"
    "walk g 0 v = Some f" "length v \<le> d"
  then show "\<exists>t. mapTrie_target st f c = Some t \<and> walk g 0 (lsuf P (v @ [c])) = Some t"
    using mapTrie_target_correct by (auto simp: mapTrie_keeps_out_def)
qed

text \<open>What the finished trie is.\<close>

definition mapTrie_linked :: "mapTrie \<Rightarrow> dict \<Rightarrow> bool" where
  "mapTrie_linked t D \<longleftrightarrow>
     mapTrie_keeps t (mapTrie_goto t) (at_or 0 (own (mt_out t))) \<and> is_trie (mapTrie_goto t) 0 (states D) \<and>
     interned (mapTrie_goto t) 0 (at_or 0 (own (mt_out t))) (mt_out t) D \<and>
     linked (mapTrie_goto t) 0 (states D) D (mapTrie_fail t) (mapTrie_link t) UNIV"

lemma mapTrie_visit_correct:
  assumes k: "mapTrie_keeps_out out ds t g own_of" and trie: "is_trie g 0 (states D)" and nil: "D [] = None"
    and int: "interned g 0 own_of out D" and ord: "map_order_ok ord"
    and linked: "linked g 0 (states D) D (mapTrie_fail t) (mapTrie_link t) S"
    and w: "walk g 0 w = Some s" "w \<noteq> []" and cover: "covers g 0 S (length w)"
  shows "\<exists>found t'. mapTrie_visit ord s t = Some (found, t') \<and> distinct found \<and>
    set found = {x. \<exists>c. g s c = Some x} \<and> mapTrie_keeps_out out ds t' g own_of \<and>
    linked g 0 (states D) D (mapTrie_fail t') (mapTrie_link t') (S \<union> set found)"
proof -
  from k w have s: "s < length (nodes t)" "node_ok (nodes t ! s)" "g s = mapNode_next (nodes t ! s)"
    by (auto simp: mapTrie_keeps_out_def mapTrie_keeps_def mapTrie_wf_def list_all_length mapTrie_goto_def)
  let ?es = "edges ord s (nodes t ! s)"
  from edges_correct[OF s(2) ord, of s] s(3)
  have es: "set ?es = {(c, x). g s c = Some x}" "distinct (map fst ?es)" by auto
  from ml.linkChildren_correct[OF k trie dom_subset_states nil int linked w cover, of ?es "[]"] es(1)
  obtain t' where t': "foldM (linkChild mapTrie_fail mapTrie_own mapTrie_link mapTrie_setLinks mapTrie_target s) ?es ([], t) =
      Some (map snd ?es, t')" "mapTrie_keeps_out out ds t' g own_of"
    "linked g 0 (states D) D (mapTrie_fail t') (mapTrie_link t') (S \<union> snd ` set ?es)" by auto
  moreover have "mapTrie_visit ord s t = Some (map snd ?es, t')"
    using s(1) t'(1) by (simp add: mapTrie_visit_def go_simps)
  moreover have "distinct (map snd ?es)" by (rule distinct_children[OF trie w(1) _ es(2)]) (use es(1) in auto)
  moreover have "set (map snd ?es) = {x. \<exists>c. g s c = Some x}" using es(1) by force
  ultimately show ?thesis by (intro exI[of _ "map snd ?es"] exI[of _ t']) simp
qed

lemma mapTrie_bfs:
  assumes holds: "mapTrie_holds t D" and fin: "finite (states D)" and nil: "D [] = None" and ord: "map_order_ok ord"
  shows "\<exists>root t'. idx (nodes t) 0 = Some root \<and>
    worklist (mapTrie_visit ord) (map snd (edges ord 0 root)) t = Some t' \<and> mapTrie_linked t' D \<and>
    map mn_depth (nodes t') = map mn_depth (nodes t) \<and> mapTrie_goto t' = mapTrie_goto t"
proof -
  let ?g = "mapTrie_goto t" and ?own = "at_or 0 (own (mt_out t))" and ?ds = "map mn_depth (nodes t)"
  let ?root = "nodes t ! 0"
  from holds have of: "mt.trie_of t (states D)" and int: "interned ?g 0 ?own (mt_out t) D"
    and fl: "at_or 0 (map mn_fail (nodes t)) = (\<lambda>_. 0)" and ol: "at_or outNone (outLink (mt_out t)) = (\<lambda>_. outNone)"
    by (auto simp: mapTrie_holds_def)
  note trie = mt.trie_of_trie[OF of] and wf = mt.trie_of_wf[OF of] and less = mt.trie_of_less[OF of]
  have keeps: "mapTrie_keeps_out (mt_out t) ?ds t ?g ?own"
    using wf less by (simp add: mapTrie_keeps_out_def mapTrie_keeps_def)
  have root: "0 < length (nodes t)" "node_ok ?root" "?g 0 = mapNode_next ?root"
    using wf by (auto simp: mapTrie_wf_def list_all_length mapTrie_goto_def)
  let ?q = "map snd (edges ord 0 ?root)"
  from edges_correct[OF root(2) ord, of 0] root(3)
  have es: "set (edges ord 0 ?root) = {(c, x). ?g 0 c = Some x}" "distinct (map fst (edges ord 0 ?root))" by auto
  have dist: "distinct ?q" by (rule distinct_children[OF trie, of "[]" 0]) (use es in auto)
  have lev: "set ?q = level ?g 0 1" unfolding level_one set_map es(1) by force
  have init: "linked ?g 0 (states D) D (mapTrie_fail t) (mapTrie_link t) (set ?q)"
  proof (rule linked_init[OF _ lev trie])
    fix w s
    assume "walk ?g 0 w = Some s"
    from less[OF this] have s: "s < length (nodes t)" "s < length (outLink (mt_out t))"
      using wf by (auto simp: mapTrie_wf_def)
    with fun_cong[OF fl, of s] fun_cong[OF ol, of s]
    show "mapTrie_fail t s = Some 0 \<and> mapTrie_link t s = Some outNone"
      by (simp add: mapTrie_fail_def idx_def at_or_def)
  qed
  let ?I = "\<lambda>seen queue t'. mapTrie_keeps_out (mt_out t) ?ds t' ?g ?own \<and>
    linked ?g 0 (states D) D (mapTrie_fail t') (mapTrie_link t') (set (seen @ queue))"
  have "\<exists>seen t'. worklist (mapTrie_visit ord) ?q t = Some t' \<and> ?I seen [] t' \<and> distinct seen \<and>
      set seen = from_level ?g 0 1 \<and> sorted (map (node_depth ?g 0) seen)"
  proof (rule bfs_levels[OF trie fin dist lev])
    fix seen s rest st w
    assume I: "?I seen (s # rest) st" and w: "walk ?g 0 w = Some s" "1 \<le> length w"
      and cov: "\<And>v t'. walk ?g 0 v = Some t' \<Longrightarrow> 1 \<le> length v \<Longrightarrow> length v \<le> length w \<Longrightarrow> t' \<in> set (seen @ s # rest)"
    from cov have "covers ?g 0 (set (seen @ s # rest)) (length w)" by (auto simp: covers_def Suc_le_eq)
    moreover have "w \<noteq> []" using w(2) by auto
    ultimately obtain found st' where f: "mapTrie_visit ord s st = Some (found, st')" "distinct found"
      "set found = {x. \<exists>c. ?g s c = Some x}" "mapTrie_keeps_out (mt_out t) ?ds st' ?g ?own"
      "linked ?g 0 (states D) D (mapTrie_fail st') (mapTrie_link st') (set (seen @ s # rest) \<union> set found)"
      using mapTrie_visit_correct[OF conjunct1[OF I] trie nil int ord conjunct2[OF I] w(1)] by blast
    have "set (seen @ s # rest) \<union> set found = set ((seen @ [s]) @ (rest @ found))" by auto
    with f show "\<exists>found st'. mapTrie_visit ord s st = Some (found, st') \<and> distinct found \<and>
        set found = {t'. \<exists>c. ?g s c = Some t'} \<and> ?I (seen @ [s]) (rest @ found) st'" by metis
  qed (use keeps init in simp)
  then obtain seen t' where r: "worklist (mapTrie_visit ord) ?q t = Some t'" "?I seen [] t'"
    "set seen = from_level ?g 0 1" by blast
  from r(2) have g: "mapTrie_goto t' = ?g" "at_or 0 (own (mt_out t')) = ?own"
    by (auto simp: mapTrie_keeps_out_def mapTrie_keeps_def)
  have "linked ?g 0 (states D) D (mapTrie_fail t') (mapTrie_link t') UNIV"
    by (rule linked_all[OF conjunct2[OF r(2)]]) (simp add: r(3))
  moreover have "interned ?g 0 ?own (mt_out t') D"
    using int r(2) interned_cong_out by (metis mapTrie_keeps_out_def)
  ultimately have "mapTrie_linked t' D"
    using r(2) trie g by (simp add: mapTrie_linked_def mapTrie_keeps_out_def)
  with r(1,2) root(1) g show ?thesis by (auto simp: go_simps mapTrie_keeps_out_def)
qed

section \<open>The root filter\<close>

lemma addFirstRunes_correct:
  assumes "bloom_ok bf"
  shows "\<exists>bf' ascii. foldM addFirstRune rs (bf, replicate 128 False) = Some (bf', ascii) \<and> bloom_ok bf' \<and>
    (\<forall>r \<in> set rs. holds bf' r) \<and> length ascii = 128 \<and>
    (\<forall>r. 0 \<le> r \<longrightarrow> r < RuneSelf \<longrightarrow> ascii ! nat r = (r \<in> set rs))"
proof -
  let ?I = "\<lambda>rs (bf', ascii). bloom_ok bf' \<and> (\<forall>r \<in> set rs. holds bf' r) \<and> length ascii = 128 \<and>
    (\<forall>r. 0 \<le> r \<longrightarrow> r < RuneSelf \<longrightarrow> ascii ! nat r = (r \<in> set rs))"
  have "\<exists>ba. foldM addFirstRune rs (bf, replicate 128 False) = Some ba \<and> ?I rs ba"
  proof (rule foldM_invariant)
    fix ys y zs ba
    assume I: "?I ys ba"
    obtain b a where ba: "ba = (b, a)" by (cases ba)
    from I ba bloom_add_correct[of b y] obtain b' where b': "bloom_add b y = Some b'" "bloom_ok b'" "holds b' y"
      "\<forall>r. holds b r \<longrightarrow> holds b' r" by auto
    let ?a = "if y \<ge> 0 \<and> y < RuneSelf then a[nat y := True] else a"
    have "addFirstRune y ba = Some (b', ?a)"
      using I ba b'(1) by (auto simp: addFirstRune_def updi_def RuneSelf_def)
    moreover have "?a ! nat r = (r \<in> set (ys @ [y]))" if "0 \<le> r" "r < RuneSelf" for r
      using I ba that by (auto simp: nth_list_update RuneSelf_def eq_nat_nat_iff split: if_splits)
    ultimately show "\<exists>ba'. addFirstRune y ba = Some ba' \<and> ?I (ys @ [y]) ba'"
      using I ba b' by (intro exI[of _ "(b', ?a)"]) auto
  qed (use assms in \<open>auto simp: RuneSelf_def\<close>)
  then show ?thesis by auto
qed

text \<open>The filter answers for every rune and never skips one a keyword starts with.\<close>

definition filter_ok :: "memEfficientEngine \<Rightarrow> dict \<Rightarrow> bool" where
  "filter_ok e D \<longleftrightarrow> (\<forall>c. \<exists>b. skipAtRoot e True c = Some b \<and> (b \<longrightarrow> [c] \<notin> states D))"

lemma filter_ok_built:
  assumes "me_bloom e = Some bf" and "bloom_ok bf" and "\<forall>r. [r] \<in> states D \<longrightarrow> holds bf r"
    and "length (me_asciiRoot e) = 128"
    and "\<forall>r. 0 \<le> r \<longrightarrow> r < RuneSelf \<longrightarrow> [r] \<in> states D \<longrightarrow> me_asciiRoot e ! nat r"
  shows "filter_ok e D"
  unfolding filter_ok_def
proof
  fix c
  show "\<exists>b. skipAtRoot e True c = Some b \<and> (b \<longrightarrow> [c] \<notin> states D)"
  proof (cases "0 \<le> c \<and> c < RuneSelf")
    case True
    with assms(4,5) show ?thesis by (auto simp: skipAtRoot_def idxi_def RuneSelf_def)
  next
    case False
    obtain b where b: "mightContain bf c = Some b" using mightContain_total[OF assms(2)] by blast
    with mightContain_holds[OF assms(2), of c] assms(3) have "\<not> b \<longrightarrow> [c] \<notin> states D" by auto
    with False b assms(1) show ?thesis by (auto simp: skipAtRoot_def)
  qed
qed

lemma first_rune_state: "[c] \<in> states (dict_of ks) \<longleftrightarrow> (\<exists>k \<in> set ks. k \<noteq> [] \<and> c = fst (decodeRune k))"
proof -
  have "prefix [c] (runes k) \<longleftrightarrow> c = fst (decodeRune k)" if "k \<noteq> []" for k
    using that by (cases k) (simp_all add: runes.simps(2))
  then show ?thesis by (auto simp: states_def dom_dict_of)
qed

section \<open>The engine\<close>

definition mem_built :: "memEfficientEngine \<Rightarrow> dict \<Rightarrow> bool" where
  "mem_built e D \<longleftrightarrow> mapTrie_linked (me_trie e) D \<and> filter_ok e D \<and> D [] = None \<and>
     (\<forall>v v' k. D v = Some k \<longrightarrow> D v' = Some k \<longrightarrow> v = v') \<and> finite (dom D) \<and>
     length (nodes (me_trie e)) = card (states D)"

definition mem_rep :: "memEfficientEngine \<Rightarrow> dict \<Rightarrow> rune list \<Rightarrow> nat \<Rightarrow> bool" where
  "mem_rep e D w s \<longleftrightarrow> walk (mapTrie_goto (me_trie e)) 0 (lsuf (states D) w) = Some s"

lemma mem_step_correct:
  assumes built: "mem_built e D" and rep: "mem_rep e D w s"
  shows "\<exists>s' h. mem_step e s c = Some (s', h) \<and> mem_rep e D (w @ [c]) s' \<and> (\<not> h \<longrightarrow> outs_at D (w @ [c]) = [])"
proof -
  let ?t = "me_trie e"
  let ?g = "mapTrie_goto ?t" and ?w = "lsuf (states D) w"
  from built have t: "mapTrie_keeps ?t ?g (at_or 0 (own (mt_out ?t)))" "is_trie ?g 0 (states D)"
    "linked ?g 0 (states D) D (mapTrie_fail ?t) (mapTrie_link ?t) UNIV" and filter: "filter_ok e D"
    by (auto simp: mem_built_def mapTrie_linked_def)
  from rep have w: "walk ?g 0 ?w = Some s" by (simp add: mem_rep_def)
  have snoc: "lsuf (states D) (?w @ [c]) = lsuf (states D) (w @ [c])" by (rule lsuf_snoc) simp
  obtain b where b: "skipAtRoot e (s = 0) c = Some b" "b \<longrightarrow> s = 0 \<and> [c] \<notin> states D"
  proof (cases "s = 0")
    case True
    with filter that show ?thesis unfolding filter_ok_def by metis
  next
    case False
    with that[of False] show ?thesis by (simp add: skipAtRoot_def)
  qed
  show ?thesis
  proof (cases b)
    case True
    with b(2) w is_trie_root[OF t(2)] have nil: "?w = []" "s = 0" "[c] \<notin> states D" by auto
    with snoc have "lsuf (states D) (w @ [c]) = []" by simp
    moreover from this have "outs_at D (w @ [c]) = []" using outs_at_lsuf[OF dom_subset_states, of D "w @ [c]"] by simp
    ultimately show ?thesis using True b(1) nil
      by (intro exI[of _ 0] exI[of _ False]) (simp add: mem_step_def mem_rep_def)
  next
    case False
    have "covers ?g 0 UNIV (length ?w)" by (simp add: covers_def)
    from gotoLoop_correct[OF t(2) mapTrie_keeps_next[OF t(1)] linked_fails[OF t(3) this] w] snoc obtain s'
      where "gotoLoop (mapTrie_next ?t) (mapTrie_fail ?t) 0 s c = Some s'"
        "walk ?g 0 (lsuf (states D) (w @ [c])) = Some s'" by fastforce
    with False b(1) show ?thesis
      by (intro exI[of _ s'] exI[of _ True]) (simp add: mem_step_def mem_rep_def)
  qed
qed

lemma mem_chain:
  assumes built: "mem_built e D" and rep: "mem_rep e D w s"
  shows "\<exists>ids. chain (mem_out e) (int s) ids \<and>
    map (\<lambda>k. (kwords (mem_out e) ! k, runeLens (mem_out e) ! k)) ids = outs_at D w"
proof -
  let ?t = "me_trie e"
  let ?g = "mapTrie_goto ?t"
  from built have t: "mapTrie_keeps ?t ?g (at_or 0 (own (mt_out ?t)))" "is_trie ?g 0 (states D)"
    "interned ?g 0 (at_or 0 (own (mt_out ?t))) (mt_out ?t) D"
    "linked ?g 0 (states D) D (mapTrie_fail ?t) (mapTrie_link ?t) UNIV" "D [] = None"
    unfolding mem_built_def mapTrie_linked_def by blast+
  have "\<forall>v x. walk ?g 0 v = Some x \<longrightarrow> idx (own (mem_out e)) x = Some (at_or 0 (own (mt_out ?t)) x)"
    using t(1) by (auto simp: mapTrie_keeps_def mapTrie_wf_def idx_def at_or_def)
  moreover have "walk ?g 0 (lsuf (states D) w) = Some s" using rep by (simp add: mem_rep_def)
  ultimately show ?thesis by (rule chain_of_linked[OF t(2,3,5) _ t(4) dom_subset_states])
qed

interpretation mem: scanner mem_step 0 mem_out mem_built mem_rep
proof unfold_locales
  fix e D w s c
  assume built: "mem_built e D"
  show "mem_rep e D [] 0" by (simp add: mem_rep_def)
  show "distinct (tl (kwords (mem_out e)))"
    using built unfolding mem_built_def mapTrie_linked_def by (blast intro: interned_kwords_distinct)
  assume rep: "mem_rep e D w s"
  show "\<exists>s' h. mem_step e s c = Some (s', h) \<and> mem_rep e D (w @ [c]) s' \<and> (\<not> h \<longrightarrow> outs_at D (w @ [c]) = [])"
    by (rule mem_step_correct[OF built rep])
  show "\<exists>ids. chain (mem_out e) (int s) ids \<and>
      map (\<lambda>k. (kwords (mem_out e) ! k, runeLens (mem_out e) ! k)) ids = outs_at D w"
    by (rule mem_chain[OF built rep])
qed

text \<open>The build always returns, and returns an automaton of the dictionary.\<close>

lemma trieMaxDepth_Max: "ns \<noteq> [] \<Longrightarrow> trieMaxDepth ns = Max (mn_depth ` set ns)"
  by (simp add: trieMaxDepth_def foldl_Max)

lemma mapTrie_depth_states:
  assumes of: "mt.trie_of t P" and "mt.depths_ok t"
  shows "trieMaxDepth (nodes t) = Max (length ` P)"
proof -
  from of have u: "trie_upto (mapTrie_goto t) (length (nodes t)) P" by (simp add: mt.trie_of_def)
  have "mn_depth ` set (nodes t) = mapTrie_depth t ` {0..<length (nodes t)}"
    by (force simp: set_conv_nth mapTrie_depth_def)
  also have "\<dots> = length ` P"
    by (rule trie_upto_depths[OF u]) (use assms(2) in \<open>simp add: mt.depths_ok_def\<close>)
  moreover have "nodes t \<noteq> []" using mt.trie_of_wf[OF of] by (simp add: mapTrie_wf_def)
  ultimately show ?thesis by (simp add: trieMaxDepth_Max)
qed

lemma trieMaxDepth_cong: "map mn_depth ns = map mn_depth ns' \<Longrightarrow> trieMaxDepth ns = trieMaxDepth ns'"
proof -
  have "trieMaxDepth ns = foldl (\<lambda>d x. if x > d then x else d) 0 (map mn_depth ns)" for ns
    by (simp add: trieMaxDepth_def foldl_map)
  then show "map mn_depth ns = map mn_depth ns' \<Longrightarrow> ?thesis" by simp
qed

lemma mem_build_correct:
  assumes sizing: "sizing_ok sizing" and ord: "map_order_ok ord"
  shows "\<exists>e. mem_buildFromSequence sizing ord ks = Some e \<and> mem_built e (dict_of ks) \<and>
    trieMaxDepth (nodes (me_trie e)) = Max (length ` states (dict_of ks))"
proof -
  let ?D = "dict_of ks"
  from mapTrie_inserts[of ks] obtain t fs where t: "foldM mapTrie_insert ks (newMapTrie, []) = Some (t, fs)"
    "mapTrie_holds t ?D" "distinct fs" "set fs = {r. \<exists>k \<in> set ks. k \<noteq> [] \<and> r = fst (decodeRune k)}" by blast
  from mapTrie_bfs[OF t(2) _ _ ord] obtain root t'
    where t': "idx (nodes t) 0 = Some root" "worklist (mapTrie_visit ord) (map snd (edges ord 0 root)) t = Some t'"
      "mapTrie_linked t' ?D" "map mn_depth (nodes t') = map mn_depth (nodes t)" by auto
  from addFirstRunes_correct[OF newBloomFilter_ok[OF sizing], of "runeOrder ord fs" "length fs"] obtain bf ascii
    where bf: "foldM addFirstRune (runeOrder ord fs) (newBloomFilter sizing (length fs), replicate 128 False) = Some (bf, ascii)"
      "bloom_ok bf" "\<forall>r \<in> set (runeOrder ord fs). holds bf r" "length ascii = 128"
      "\<forall>r. 0 \<le> r \<longrightarrow> r < RuneSelf \<longrightarrow> ascii ! nat r = (r \<in> set (runeOrder ord fs))" by blast
  have fs: "r \<in> set (runeOrder ord fs) \<longleftrightarrow> [r] \<in> states ?D" for r
  proof -
    have "set (runeOrder ord fs) = set fs" using ord by (metis map_order_ok_def set_mset_mset)
    then show ?thesis by (simp add: t(4) first_rune_state)
  qed
  let ?e = "\<lparr>me_trie = t', me_bloom = Some bf, me_asciiRoot = ascii\<rparr>"
  have "filter_ok ?e ?D" using bf fs by (intro filter_ok_built[of _ bf]) simp_all
  from t(2) have "mt.trie_of t (states ?D)" "mt.depths_ok t" by (auto simp: mapTrie_holds_def)
  then have "length (nodes t) = card (states ?D)" "trieMaxDepth (nodes t) = Max (length ` states ?D)"
    by (auto simp: mt.trie_of_def trie_upto_card mapTrie_depth_states)
  then have "length (nodes t') = card (states ?D)" "trieMaxDepth (nodes t') = Max (length ` states ?D)"
    using map_eq_imp_length_eq[OF t'(4)] trieMaxDepth_cong[OF t'(4)] by simp_all
  moreover from \<open>filter_ok ?e ?D\<close> t'(3) this(1) have "mem_built ?e ?D"
    by (auto simp: mem_built_def dom_dict_of dest: dict_of_inj)
  moreover have "mem_buildFromSequence sizing ord ks = Some ?e"
    using t(1) t'(1,2) bf(1) by (simp add: mem_buildFromSequence_def)
  ultimately show ?thesis by (intro exI[of _ ?e]) simp
qed

lemma mem_empty_iff: "mem_built e D \<Longrightarrow> mem_empty e \<longleftrightarrow> dom D = {}"
  using card_states_le_1[of D] by (simp add: mem_built_def mem_empty_def)

lemma mem_ops:
  assumes "mem_built e D"
  shows "mem_find e text = Some (spec_find D text)"
    and "mem_findSet e text = Some (spec_findSet D text)"
    and "mem_findIndex e text = Some (spec_findIndex D text)"
    and "mem_matchString e text emit a = Some (spec_match D text emit a)"
    and "mem_matchStream e nxt emit a = spec_matchStream D nxt emit a"
proof -
  show "mem_find e text = Some (spec_find D text)"
    using mem.scan_find[OF assms, of "runes text" "Some []"] mem_empty_iff[OF assms]
    by (auto simp: mem_find_def spec_find_def append_opt_def)
  show "mem_findSet e text = Some (spec_findSet D text)"
    using mem.scan_set[OF assms, of "runes text"] mem_empty_iff[OF assms]
    by (auto simp: mem_findSet_def spec_empty) (simp add: spec_findSet_def spec_find_def)
  show "mem_findIndex e text = Some (spec_findIndex D text)"
    using mem.scan_index[OF assms, of "runes text" Map.empty] mem_empty_iff[OF assms]
    by (auto simp: mem_findIndex_def spec_empty spec_findIndex_fold)
  show "mem_matchString e text emit a = Some (spec_match D text emit a)"
    using mem.scan_emit[OF assms, of emit "runes text" a] mem_empty_iff[OF assms]
    by (auto simp: mem_matchString_def spec_empty spec_match_def split: prod.splits)
  show "mem_matchStream e nxt emit a = spec_matchStream D nxt emit a"
    using mem.stream_emit[OF assms, of emit nxt a] mem_empty_iff[OF assms]
    by (simp add: mem_matchStream_def spec_matchStream_def)
qed

lemma mem_keywordCount: "mem_built e D \<Longrightarrow> keywordCount (mem_out e) = card (dom D)"
  unfolding mem_built_def mapTrie_linked_def by (elim conjE) (rule interned_count[OF _ _ dom_subset_states])

section \<open>Properties\<close>

text \<open>
  C1.  The memory-efficient engine is correct.  Whatever order Go ranges over its
  maps in, building any keyword sequence returns (no panic, no endless failure
  walk), and on the built engine every operation returns what the
  specification says: find lists every occurrence in scan order, findSet each
  keyword once in first-match order, findIndex the start offsets by keyword,
  matchString and matchStream call back on each occurrence until told to stop.
\<close>

theorem mem_engine_correct:
  assumes "sizing_ok sizing" and "map_order_ok ord"
  shows "\<exists>e. mem_buildFromSequence sizing ord ks = Some e \<and>
    (\<forall>text. mem_find e text = Some (spec_find (dict_of ks) text) \<and>
       mem_findSet e text = Some (spec_findSet (dict_of ks) text) \<and>
       mem_findIndex e text = Some (spec_findIndex (dict_of ks) text) \<and>
       (\<forall>emit (a :: 'a). mem_matchString e text emit a = Some (spec_match (dict_of ks) text emit a))) \<and>
    (\<forall>nxt emit (a :: 'a). mem_matchStream e nxt emit a = spec_matchStream (dict_of ks) nxt emit a)"
proof -
  from mem_build_correct[OF assms] obtain e where e: "mem_buildFromSequence sizing ord ks = Some e"
    "mem_built e (dict_of ks)" by blast
  show ?thesis by (intro exI[of _ e] conjI allI) (simp_all add: e(1) mem_ops[OF e(2)])
qed

theorem mem_engine_correct_witness:
  "sizing_ok (\<lambda>n. (64, 1)) \<and> map_order_ok \<lparr>edgeOrder = \<lambda>_ es. rev es, runeOrder = \<lambda>rs. rs\<rparr> \<and>
   (\<exists>e. mem_buildFromSequence (\<lambda>n. (64, 1)) \<lparr>edgeOrder = \<lambda>_ es. rev es, runeOrder = \<lambda>rs. rs\<rparr>
          [''he'', ''she'', ''hers''] = Some e \<and>
        mem_find e ''ushers'' = Some [''she'', ''he'', ''hers''])"
proof -
  have s: "sizing_ok (\<lambda>n. (64, 1))" by (simp add: sizing_ok_def)
  have o: "map_order_ok \<lparr>edgeOrder = \<lambda>_ es. rev es, runeOrder = \<lambda>rs. rs\<rparr>" by (simp add: map_order_ok_def)
  let ?ks = "[''he'', ''she'', ''hers'']"
  from mem_engine_correct[OF s o, of ?ks] obtain e
    where "mem_buildFromSequence (\<lambda>n. (64, 1)) \<lparr>edgeOrder = \<lambda>_ es. rev es, runeOrder = \<lambda>rs. rs\<rparr> ?ks = Some e"
      "mem_find e ''ushers'' = Some (spec_find (dict_of ?ks) ''ushers'')" by blast
  moreover have "spec_find (dict_of ?ks) ''ushers'' = [''she'', ''he'', ''hers'']" by code_simp
  ultimately show ?thesis using s o by simp
qed

text \<open>
  The statistics of the memory-efficient engine count what they say: the
  number of distinct keywords, the number of trie states, and the length in
  runes of the longest keyword.
\<close>

theorem mem_info_correct:
  assumes "sizing_ok sizing" and "map_order_ok ord"
  shows "\<exists>e. mem_buildFromSequence sizing ord ks = Some e \<and>
    info_Keywords (mem_info e) = card (dom (dict_of ks)) \<and>
    info_Nodes (mem_info e) = card (states (dict_of ks)) \<and>
    info_TrieDepth (mem_info e) = Max (length ` states (dict_of ks))"
proof -
  from mem_build_correct[OF assms] obtain e where e: "mem_buildFromSequence sizing ord ks = Some e"
    "mem_built e (dict_of ks)" "trieMaxDepth (nodes (me_trie e)) = Max (length ` states (dict_of ks))" by blast
  with mem_keywordCount[OF e(2)] show ?thesis
    by (intro exI[of _ e]) (simp add: mem_info_def mem_built_def)
qed

theorem mem_info_correct_witness:
  "\<exists>e. mem_buildFromSequence (\<lambda>n. (64, 1)) \<lparr>edgeOrder = \<lambda>_ es. es, runeOrder = \<lambda>rs. rs\<rparr> [''a'', ''''] = Some e \<and>
     info_Keywords (mem_info e) = 1"
proof -
  have "sizing_ok (\<lambda>n. (64, 1))" "map_order_ok \<lparr>edgeOrder = \<lambda>_ es. es, runeOrder = \<lambda>rs. rs\<rparr>"
    by (simp_all add: sizing_ok_def map_order_ok_def)
  from mem_info_correct[OF this, of "[''a'', '''']"] show ?thesis
    by (auto simp: dom_dict_of insert_Diff_if)
qed

end
