(* ===== verification/Coder.thy ===== *)
theory Coder
  imports Go_Strings
begin

text \<open>
  \<^verbatim>\<open>internal/engine/coder.go\<close>: the alphabet coder maps the runes of the dictionary
  to dense codes.  ASCII runes resolve through a table of 128 entries holding
  the code plus one, the others through a map.  The lemmas say that both paths
  return the position of the rune in the alphabet, and that scanning the raw
  bytes of a text against an all-ASCII alphabet sees the same codes as scanning
  its runes, up to repeated absences.
\<close>

record alphabetCoder =
  index :: "(rune \<times> nat) list"
  asciiCode :: "int list"
  asciiOnly :: bool

fun coder_fill :: "nat \<Rightarrow> rune list \<Rightarrow> alphabetCoder \<Rightarrow> alphabetCoder option" where
  "coder_fill i [] c = Some c"
| "coder_fill i (r # rs) c =
     (let c1 = c\<lparr>index := AList.update r i (index c)\<rparr>
      in if r < RuneSelf
         then do {
           tab \<leftarrow> updi (asciiCode c1) r (int i + 1);
           coder_fill (i + 1) rs (c1\<lparr>asciiCode := tab\<rparr>)
         }
         else coder_fill (i + 1) rs (c1\<lparr>asciiOnly := False\<rparr>))"

definition buildCoder :: "rune list \<Rightarrow> alphabetCoder option" where
  "buildCoder rs = coder_fill 0 rs \<lparr>index = [], asciiCode = replicate 128 0, asciiOnly = True\<rparr>"

text \<open>\<open>None\<close> inside is \<open>ok == false\<close>: the rune is not in the alphabet.\<close>

definition codeByte :: "alphabetCoder \<Rightarrow> int \<Rightarrow> nat option option" where
  "codeByte c b =
     (if b \<ge> RuneSelf then Some None
      else do { x \<leftarrow> idxi (asciiCode c) b; Some (if x \<noteq> 0 then Some (nat (x - 1)) else None) })"

definition code :: "alphabetCoder \<Rightarrow> rune \<Rightarrow> nat option option" where
  "code c ch =
     (if ch \<ge> 0 \<and> ch < RuneSelf
      then do { x \<leftarrow> idxi (asciiCode c) ch; Some (if x \<noteq> 0 then Some (nat (x - 1)) else None) }
      else Some (map_of (index c) ch))"

section \<open>Positions in the alphabet\<close>

fun pos :: "'a list \<Rightarrow> 'a \<Rightarrow> nat option" where
  "pos [] x = None"
| "pos (y # ys) x = (if y = x then Some 0 else map_option Suc (pos ys x))"

lemma pos_None: "pos ys x = None \<longleftrightarrow> x \<notin> set ys"
  by (induction ys) auto

lemma pos_notin [simp]: "x \<notin> set ys \<Longrightarrow> pos ys x = None"
  by (simp add: pos_None)

lemma pos_Some: "pos ys x = Some i \<Longrightarrow> i < length ys \<and> ys ! i = x"
  by (induction ys arbitrary: i) (auto split: if_splits)

lemma pos_nth: "distinct ys \<Longrightarrow> i < length ys \<Longrightarrow> pos ys (ys ! i) = Some i"
  by (induction ys arbitrary: i) (auto simp: nth_Cons' split: if_splits)

lemma pos_snoc: "y \<notin> set ys \<Longrightarrow> pos (ys @ [y]) x = (if x = y then Some (length ys) else pos ys x)"
  by (induction ys) auto

definition coder_for :: "rune list \<Rightarrow> alphabetCoder \<Rightarrow> bool" where
  "coder_for rs c \<longleftrightarrow> length (asciiCode c) = 128 \<and> (\<forall>r. map_of (index c) r = pos rs r) \<and>
     (\<forall>r. 0 \<le> r \<and> r < RuneSelf \<longrightarrow>
        asciiCode c ! nat r = (case pos rs r of None \<Rightarrow> 0 | Some i \<Rightarrow> int i + 1)) \<and>
     (asciiOnly c \<longleftrightarrow> (\<forall>r \<in> set rs. r < RuneSelf)) \<and> length (index c) = length rs"

lemma length_update_new: "map_of xs k = None \<Longrightarrow> length (AList.update k v xs) = Suc (length xs)"
  by (induction xs) (auto split: if_splits)

lemma coder_for_step:
  assumes "coder_for rs c" and "r \<notin> set rs" and "0 \<le> r"
  shows "\<exists>c'. coder_fill (length rs) [r] c = Some c' \<and> coder_for (rs @ [r]) c'"
proof (cases "r < RuneSelf")
  case True
  with assms have "nat r < 128" "map_of (index c) r = None"
    by (auto simp: RuneSelf_def coder_for_def)
  with assms True show ?thesis
    by (auto simp: coder_for_def updi_def update_conv' pos_snoc nth_list_update length_update_new
        split: option.splits)
next
  case False
  with assms have "map_of (index c) r = None" by (auto simp: coder_for_def)
  with assms False show ?thesis
    by (auto simp: coder_for_def update_conv' pos_snoc length_update_new split: option.splits)
qed

lemma coder_fill_Cons:
  "coder_fill i (r # rs) c = do { c' \<leftarrow> coder_fill i [r] c; coder_fill (i + 1) rs c' }"
  by (auto simp: Let_def split: Option.bind_splits)

lemma coder_fill_correct:
  assumes "coder_for ys c" and "distinct (ys @ rs)" and "\<forall>r \<in> set rs. 0 \<le> r"
  shows "\<exists>c'. coder_fill (length ys) rs c = Some c' \<and> coder_for (ys @ rs) c'"
  using assms
proof (induction rs arbitrary: ys c)
  case (Cons r rs)
  from coder_for_step[OF Cons.prems(1), of r] Cons.prems(2,3)
  obtain c1 where c1: "coder_fill (length ys) [r] c = Some c1" "coder_for (ys @ [r]) c1" by auto
  from Cons.IH[OF c1(2)] Cons.prems(2,3) obtain c'
    where "coder_fill (length (ys @ [r])) rs c1 = Some c'" "coder_for (ys @ r # rs) c'" by auto
  with c1(1) show ?case by (simp add: coder_fill_Cons[of _ r rs] del: coder_fill.simps(2))
qed simp

lemma buildCoder_correct:
  assumes "distinct rs" and "\<forall>r \<in> set rs. 0 \<le> r"
  shows "\<exists>c. buildCoder rs = Some c \<and> coder_for rs c"
proof -
  have "coder_for [] \<lparr>index = [], asciiCode = replicate 128 0, asciiOnly = True\<rparr>"
    by (auto simp: coder_for_def RuneSelf_def nth_replicate)
  from coder_fill_correct[OF this, of rs] assms show ?thesis by (simp add: buildCoder_def)
qed

lemma ascii_lookup:
  assumes "coder_for rs c" and "0 \<le> r" and "r < RuneSelf"
  shows "\<exists>x. idxi (asciiCode c) r = Some x \<and> (if x \<noteq> 0 then Some (nat (x - 1)) else None) = pos rs r"
  using assms by (cases "pos rs r") (auto simp: coder_for_def idxi_def RuneSelf_def)

lemma code_correct: "coder_for rs c \<Longrightarrow> code c r = Some (pos rs r)"
  using ascii_lookup[of rs c r] by (auto simp: code_def coder_for_def)

lemma codeByte_correct:
  assumes "coder_for rs c" and "asciiOnly c" and "0 \<le> b"
  shows "codeByte c b = Some (pos rs b)"
proof (cases "b < RuneSelf")
  case True
  with ascii_lookup[OF assms(1,3)] show ?thesis by (auto simp: codeByte_def)
next
  case False
  with assms have "b \<notin> set rs" by (auto simp: coder_for_def)
  then have "pos rs b = None" by simp
  with False show ?thesis by (simp add: codeByte_def)
qed

end
