(* ===== verification/Alphabet.thy ===== *)
theory Alphabet
  imports Trie_BFS Coder
begin

text \<open>
  What the engines over a coded alphabet share (\<^verbatim>\<open>engine_flat.go\<close> and
  \<^verbatim>\<open>engine_dat.go\<close>): the alphabet of a keyword set covers its keywords and can be
  coded, and for a dictionary of ASCII runes the byte scan sees the same codes.
\<close>

lemma runes_nonneg: "r \<in> set (runes s) \<Longrightarrow> 0 \<le> r"
proof (induction s rule: runes_induct)
  case (Rune c cs r' k)
  have "0 \<le> r'" using decodeRune_cases[OF Rune(1)] byte_range(1)[of c] by (auto simp: RuneSelf_def)
  with Rune show ?case by (auto simp: runes_Cons[OF Rune(1)])
qed simp

lemma alphabet_correct:
  assumes "A = sort (remdups (concat (map runes ks)))" and "set ks' = set ks"
  shows "\<exists>c. buildCoder A = Some c \<and> coder_for A c" "\<forall>v \<in> dom (dict_of ks'). set v \<subseteq> set A"
proof -
  show "\<exists>c. buildCoder A = Some c \<and> coder_for A c"
    by (rule buildCoder_correct) (auto simp: assms(1) dest: runes_nonneg)
  show "\<forall>v \<in> dom (dict_of ks'). set v \<subseteq> set A" by (auto simp: assms dom_dict_of)
qed

lemma card_alphabet: "length (sort (remdups (concat (map runes ks)))) \<le> card (states (dict_of ks))"
proof -
  have "set (concat (map runes ks)) \<subseteq> last ` states (dict_of ks)"
  proof
    fix c
    assume "c \<in> set (concat (map runes ks))"
    then obtain k where k: "k \<in> set ks" "c \<in> set (runes k)" by auto
    then obtain u v where uv: "runes k = u @ c # v" by (meson split_list)
    have "k \<noteq> []" using k(2) by auto
    with k(1) have "runes k \<in> dom (dict_of ks)" by (auto simp: dom_dict_of)
    moreover have "prefix (u @ [c]) (runes k)" using uv by (simp add: prefix_def)
    ultimately have "u @ [c] \<in> states (dict_of ks)" unfolding states_def by blast
    then show "c \<in> last ` states (dict_of ks)" by (intro image_eqI[of _ _ "u @ [c]"]) simp_all
  qed
  then have "card (set (concat (map runes ks))) \<le> card (states (dict_of ks))"
    using surj_card_le[OF finite_states_dict_of] by blast
  then show ?thesis by (simp add: length_remdups_card_conv)
qed

lemma codeByte_reset:
  assumes "coder_for A c" and "asciiOnly c"
  shows "RuneSelf \<le> b \<Longrightarrow> codeByte c b = Some None" "RuneSelf \<le> b \<Longrightarrow> code c b = Some None"
    "0 \<le> b \<Longrightarrow> b < RuneSelf \<Longrightarrow> codeByte c b = code c b"
proof -
  have "b \<notin> set A" if "RuneSelf \<le> b" using assms that by (auto simp: coder_for_def)
  then show "RuneSelf \<le> b \<Longrightarrow> code c b = Some None" using code_correct[OF assms(1)] by simp
  show "0 \<le> b \<Longrightarrow> b < RuneSelf \<Longrightarrow> codeByte c b = code c b"
    using codeByte_correct[OF assms] code_correct[OF assms(1)] by simp
qed (simp add: codeByte_def)

lemma hit_offsets: "\<forall>s i j a. hit_find out s i a = hit_find out s j a"
  "\<forall>s i j b. hit_set out s i b = hit_set out s j b" "\<forall>s i j c. hit_stop s i c = hit_stop s j c"
  by (simp_all add: hit_find_def hit_set_def hit_stop_def)

text \<open>A bound for the dictionary the examples use.\<close>

lemma states_small_witness: "card (states (dict_of [''he'', ''hers'', ''she''])) < 2 ^ 30"
proof -
  have "states (dict_of [''he'', ''hers'', ''she'']) = (\<Union>k \<in> {''he'', ''hers'', ''she''}. set (prefixes (runes k)))"
    by (auto simp: states_def dom_dict_of)
  also have "\<dots> = set (concat (map (\<lambda>k. prefixes (runes k)) [''he'', ''hers'', ''she'']))" by simp
  finally have "card (states (dict_of [''he'', ''hers'', ''she''])) \<le>
      length (concat (map (\<lambda>k. prefixes (runes k)) [''he'', ''hers'', ''she'']))"
    by (simp only: card_length)
  also have "\<dots> < 2 ^ 30" by (simp add: runes_ascii byte_def RuneSelf_def)
  finally show ?thesis .
qed

end
