(* ===== verification/Flat_Engine.thy ===== *)
theory Flat_Engine
  imports Alphabet Presets
begin

text \<open>
  \<^verbatim>\<open>internal/engine/engine_flat.go\<close>, the engine of \<^verbatim>\<open>PresetSpeed\<close>: a full
  transition table over the sorted alphabet, one row per trie state, each entry
  packed with the flag that its target reports keywords.

  The keyword set arrives in an unspecified order and is sorted before use; so
  are the runes of the alphabet and the children of a node, which makes the
  build independent of Go's map order.
\<close>

section \<open>The temporary trie\<close>

record flatNode =
  fn_gotoMap :: "(rune \<times> nat) list"
  fn_ownID :: nat
  fn_fail :: nat
  fn_outLink :: int
  fn_depth :: nat

record flatBuild =
  fb_nodes :: "flatNode list"
  fb_outs :: outputs

definition newFlatNode :: "nat \<Rightarrow> flatNode" where
  "newFlatNode d = \<lparr>fn_gotoMap = [], fn_ownID = 0, fn_fail = 0, fn_outLink = outNone, fn_depth = d\<rparr>"

definition newFlatBuild :: flatBuild where
  "newFlatBuild = \<lparr>fb_nodes = [newFlatNode 0], fb_outs = empty_outputs\<rparr>"

definition flat_next :: "flatBuild \<Rightarrow> nat \<Rightarrow> rune \<Rightarrow> nat option option" where
  "flat_next b s ch = do { n \<leftarrow> idx (fb_nodes b) s; Some (map_of (fn_gotoMap n) ch) }"

definition flat_alloc :: "flatBuild \<Rightarrow> nat \<Rightarrow> rune \<Rightarrow> (flatBuild \<times> nat) option" where
  "flat_alloc b s ch = do {
     n \<leftarrow> idx (fb_nodes b) s;
     (let child = length (fb_nodes b)
      in Some
           (b\<lparr>fb_nodes := (fb_nodes b)[s := n\<lparr>fn_gotoMap := AList.update ch child (fn_gotoMap n)\<rparr>]
                @ [newFlatNode (fn_depth n + 1)]\<rparr>,
            child))
   }"

definition flat_insert :: "gostring \<Rightarrow> flatBuild \<Rightarrow> flatBuild option" where
  "flat_insert kw b =
     (if kw = [] then Some b
      else do {
        (b', s) \<leftarrow> insertRunes flat_next flat_alloc b 0 (runes kw);
        n \<leftarrow> idx (fb_nodes b') s;
        (outs, i) \<leftarrow> assign (fb_outs b') (fn_ownID n) kw;
        Some (b'\<lparr>fb_nodes := (fb_nodes b')[s := n\<lparr>fn_ownID := i\<rparr>], fb_outs := outs\<rparr>)
      })"

definition sortedChildren :: "(rune \<times> nat) list \<Rightarrow> (rune \<times> nat) list" where
  "sortedChildren gotoMap = sort_key fst gotoMap"

definition flat_fail :: "flatBuild \<Rightarrow> nat \<Rightarrow> nat option" where
  "flat_fail b s = do { n \<leftarrow> idx (fb_nodes b) s; Some (fn_fail n) }"

definition flat_own :: "flatBuild \<Rightarrow> nat \<Rightarrow> nat option" where
  "flat_own b s = do { n \<leftarrow> idx (fb_nodes b) s; Some (fn_ownID n) }"

definition flat_link :: "flatBuild \<Rightarrow> nat \<Rightarrow> int option" where
  "flat_link b s = do { n \<leftarrow> idx (fb_nodes b) s; Some (fn_outLink n) }"

definition flat_setLinks :: "flatBuild \<Rightarrow> nat \<Rightarrow> nat \<Rightarrow> int \<Rightarrow> flatBuild option" where
  "flat_setLinks b s f l = do {
     n \<leftarrow> idx (fb_nodes b) s;
     ns \<leftarrow> upd (fb_nodes b) s (n\<lparr>fn_fail := f, fn_outLink := l\<rparr>);
     Some (b\<lparr>fb_nodes := ns\<rparr>)
   }"

definition flat_target :: "flatBuild \<Rightarrow> nat \<Rightarrow> rune \<Rightarrow> nat option" where
  "flat_target b f ch = failTarget (flat_next b) (flat_fail b) ch f"

text \<open>The root's children: \<^verbatim>\<open>nodes[pair.child].fail = 0; queue = append(queue, pair.child)\<close>.\<close>

definition flat_rootChild :: "rune \<times> nat \<Rightarrow> nat list \<times> flatBuild \<Rightarrow> (nat list \<times> flatBuild) option" where
  "flat_rootChild pair qb =
     (case (pair, qb) of ((ch, child), (queue, b)) \<Rightarrow> do {
        n \<leftarrow> idx (fb_nodes b) child;
        ns \<leftarrow> upd (fb_nodes b) child (n\<lparr>fn_fail := 0\<rparr>);
        Some (queue @ [child], b\<lparr>fb_nodes := ns\<rparr>)
      })"

text \<open>One iteration of the breadth-first loop; the first component is \<^verbatim>\<open>bfsOrder\<close>.\<close>

definition flat_visit :: "nat \<Rightarrow> nat list \<times> flatBuild \<Rightarrow> (nat list \<times> (nat list \<times> flatBuild)) option" where
  "flat_visit state ob =
     (case ob of (bfsOrder, b) \<Rightarrow> do {
        n \<leftarrow> idx (fb_nodes b) state;
        (found, b') \<leftarrow> foldM (linkChild flat_fail flat_own flat_link flat_setLinks flat_target state)
          (sortedChildren (fn_gotoMap n)) ([], b);
        Some (found, (bfsOrder @ [state], b'))
      })"

section \<open>The engine\<close>

record speedEngine =
  se_dfa :: "32 word list option"
  se_alphaSize :: nat
  se_out :: outputs
  se_alphabet :: "rune list"
  se_coder :: alphabetCoder
  se_numStates :: nat
  se_trieDepth :: nat

definition newSpeedEngine :: speedEngine where
  "newSpeedEngine =
     \<lparr>se_dfa = None, se_alphaSize = 0, se_out = empty_outputs, se_alphabet = [],
      se_coder = \<lparr>index = [], asciiCode = replicate 128 0, asciiOnly = False\<rparr>,
      se_numStates = 0, se_trieDepth = 0\<rparr>"

definition enc :: "outputs \<Rightarrow> nat \<Rightarrow> 32 word option" where
  "enc out state = do {
     k \<leftarrow> idx (own out) state;
     l \<leftarrow> idx (outLink out) state;
     packState state (k \<noteq> 0 \<or> l \<noteq> outNone)
   }"

text \<open>The row of one state; \<open>base\<close> says what a missing edge at an alphabet index becomes.\<close>

definition fillEntry ::
  "outputs \<Rightarrow> flatNode \<Rightarrow> nat \<Rightarrow> (32 word list \<Rightarrow> nat \<Rightarrow> 32 word option) \<Rightarrow>
   nat \<times> rune \<Rightarrow> 32 word list \<Rightarrow> 32 word list option" where
  "fillEntry out n row base air dfa =
     (case air of (ai, r) \<Rightarrow> do {
        v \<leftarrow> (case map_of (fn_gotoMap n) r of Some child \<Rightarrow> enc out child | None \<Rightarrow> base dfa ai);
        upd dfa (row + ai) v
      })"

definition fillRoot :: "outputs \<Rightarrow> flatNode \<Rightarrow> rune list \<Rightarrow> 32 word list \<Rightarrow> 32 word list option" where
  "fillRoot out root alphabet dfa =
     foldM (fillEntry out root 0 (\<lambda>_ _. enc out 0)) (List.enumerate 0 alphabet) dfa"

definition fillRow ::
  "outputs \<Rightarrow> flatNode list \<Rightarrow> rune list \<Rightarrow> nat \<Rightarrow> 32 word list \<Rightarrow> 32 word list option" where
  "fillRow out ns alphabet s dfa = do {
     n \<leftarrow> idx ns s;
     (let failRow = fn_fail n * length alphabet
      in foldM (fillEntry out n (s * length alphabet) (\<lambda>dfa ai. idx dfa (failRow + ai)))
           (List.enumerate 0 alphabet) dfa)
   }"

definition speed_buildFromKeywords :: "speedEngine \<Rightarrow> gostring list \<Rightarrow> speedEngine option" where
  "speed_buildFromKeywords e keywords =
     (if keywords = [] then
        Some (e\<lparr>se_dfa := None, se_out := empty_outputs, se_numStates := 0, se_trieDepth := 0\<rparr>)
      else do {
        (let alphabet = sort (remdups (concat (map runes keywords))) in do {
           coder \<leftarrow> buildCoder alphabet;
           b \<leftarrow> foldM flat_insert (sort keywords) newFlatBuild;
           (let numStates = length (fb_nodes b) in do {
              _ \<leftarrow> requirePackableStateCount numStates;
              root \<leftarrow> idx (fb_nodes b) 0;
              (queue, b1) \<leftarrow> foldM flat_rootChild (sortedChildren (fn_gotoMap root)) ([], b);
              (bfsOrder, b2) \<leftarrow> worklist flat_visit queue ([], b1);
              (let ns = fb_nodes b2;
                   out = (fb_outs b2)\<lparr>own := map fn_ownID ns, outLink := map fn_outLink ns\<rparr> in do {
                 root' \<leftarrow> idx ns 0;
                 dfa0 \<leftarrow> fillRoot out root' alphabet (replicate (numStates * length alphabet) 0);
                 dfa \<leftarrow> foldM (fillRow out ns alphabet) bfsOrder dfa0;
                 Some
                   \<lparr>se_dfa = Some dfa, se_alphaSize = length alphabet, se_out = out, se_alphabet = alphabet,
                    se_coder = coder, se_numStates = numStates,
                    se_trieDepth = foldl (\<lambda>d n. if fn_depth n > d then fn_depth n else d) 0 ns\<rparr>
               })
            })
         })
      })"

section \<open>Searching\<close>

text \<open>
  The body of the scan loops.  \<open>coded\<close> is the lookup of the symbol, by rune or by
  byte; a symbol outside the alphabet resets to the root.
\<close>

definition speed_stepBy ::
  "(alphabetCoder \<Rightarrow> int \<Rightarrow> nat option option) \<Rightarrow> speedEngine \<Rightarrow> nat \<Rightarrow> int \<Rightarrow> (nat \<times> bool) option" where
  "speed_stepBy coded e state ch = do {
     ok \<leftarrow> coded (se_coder e) ch;
     (case ok of
        None \<Rightarrow> Some (0, False)
      | Some ai \<Rightarrow> do {
          v \<leftarrow> idx (case se_dfa e of None \<Rightarrow> [] | Some dfa \<Rightarrow> dfa) (state * se_alphaSize e + ai);
          Some (entryState v, entryHasOutput v)
        })
   }"

abbreviation speed_step :: "speedEngine \<Rightarrow> nat \<Rightarrow> rune \<Rightarrow> (nat \<times> bool) option" where
  "speed_step \<equiv> speed_stepBy code"

abbreviation speed_byteStep :: "speedEngine \<Rightarrow> nat \<Rightarrow> int \<Rightarrow> (nat \<times> bool) option" where
  "speed_byteStep \<equiv> speed_stepBy codeByte"

text \<open>The step of \<^verbatim>\<open>contains\<close> keeps the entry unmasked; it is a state only when the flag is clear.\<close>

definition speed_containsStepBy ::
  "(alphabetCoder \<Rightarrow> int \<Rightarrow> nat option option) \<Rightarrow> speedEngine \<Rightarrow> nat \<Rightarrow> int \<Rightarrow> (nat \<times> bool) option" where
  "speed_containsStepBy coded e state ch = do {
     ok \<leftarrow> coded (se_coder e) ch;
     (case ok of
        None \<Rightarrow> Some (0, False)
      | Some ai \<Rightarrow> do {
          v \<leftarrow> idx (case se_dfa e of None \<Rightarrow> [] | Some dfa \<Rightarrow> dfa) (state * se_alphaSize e + ai);
          Some (unat v, entryHasOutput v)
        })
   }"

definition speed_find :: "speedEngine \<Rightarrow> gostring \<Rightarrow> gostring list option" where
  "speed_find e text =
     (if se_dfa e = None then Some []
      else do {
        (matched, _) \<leftarrow>
          (if asciiOnly (se_coder e)
           then scanLoop (speed_byteStep e) (hit_find (se_out e)) (map byte text) 0 0 None
           else scanLoop (speed_step e) (hit_find (se_out e)) (runes text) 0 0 None);
        Some (case matched of None \<Rightarrow> [] | Some ms \<Rightarrow> ms)
      })"

definition speed_findSet :: "speedEngine \<Rightarrow> gostring \<Rightarrow> gostring list option" where
  "speed_findSet e text =
     (if se_dfa e = None then Some []
      else do {
        (c, _) \<leftarrow>
          (if asciiOnly (se_coder e)
           then scanLoop (speed_byteStep e) (hit_set (se_out e)) (map byte text) 0 0 new_collector
           else scanLoop (speed_step e) (hit_set (se_out e)) (runes text) 0 0 new_collector);
        Some (collector_result c)
      })"

definition speed_contains :: "speedEngine \<Rightarrow> gostring \<Rightarrow> bool option" where
  "speed_contains e text =
     (if se_dfa e = None then Some False
      else do {
        (found, _) \<leftarrow>
          (if asciiOnly (se_coder e)
           then scanLoop (speed_containsStepBy codeByte e) hit_stop (map byte text) 0 0 False
           else scanLoop (speed_containsStepBy code e) hit_stop (runes text) 0 0 False);
        Some found
      })"

definition speed_findIndex :: "speedEngine \<Rightarrow> gostring \<Rightarrow> (gostring \<rightharpoonup> int list) option" where
  "speed_findIndex e text =
     (if se_dfa e = None then Some Map.empty
      else do {
        (matched, _) \<leftarrow> scanLoop (speed_step e) (hit_index (se_out e)) (runes text) 0 0 Map.empty;
        Some matched
      })"

definition speed_matchString ::
  "speedEngine \<Rightarrow> gostring \<Rightarrow> (match \<Rightarrow> 'a \<Rightarrow> 'a \<times> bool) \<Rightarrow> 'a \<Rightarrow> 'a option" where
  "speed_matchString e text emit a =
     (if se_dfa e = None then Some a
      else do {
        (a', _) \<leftarrow> scanLoop (speed_step e) (hit_emit (se_out e) emit) (runes text) 0 0 a;
        Some a'
      })"

definition speed_matchStream ::
  "speedEngine \<Rightarrow> ('a \<Rightarrow> rune option \<times> 'a) \<Rightarrow> (match \<Rightarrow> 'a \<Rightarrow> 'a \<times> bool) \<Rightarrow> 'a \<Rightarrow> 'a option" where
  "speed_matchStream e nxt emit a =
     (if se_dfa e = None then Some a
      else streamLoop (speed_step e) (hit_emit (se_out e) emit) nxt 0 0 a)"

definition speed_info :: "speedEngine \<Rightarrow> InMemoryInfo" where
  "speed_info e =
     (case se_dfa e of
        None \<Rightarrow> \<lparr>info_Keywords = 0, info_Nodes = 0, info_Preset = PresetSpeed, info_MemoryBytes = 0, info_TrieDepth = 0\<rparr>
      | Some dfa \<Rightarrow>
          \<lparr>info_Keywords = keywordCount (se_out e), info_Nodes = se_numStates e, info_Preset = PresetSpeed,
           info_MemoryBytes = length dfa * 4 + outputs_memoryBytes (se_out e) + length (se_alphabet e) * 16 +
             length (index (se_coder e)) * 24,
           info_TrieDepth = se_trieDepth e\<rparr>)"

section \<open>The store\<close>

definition flat_goto :: "flatBuild \<Rightarrow> goto" where
  "flat_goto b s = (if s < length (fb_nodes b) then map_of (fn_gotoMap (fb_nodes b ! s)) else (\<lambda>_. None))"

definition flat_wf :: "flatBuild \<Rightarrow> bool" where
  "flat_wf b \<longleftrightarrow> fb_nodes b \<noteq> [] \<and> (\<forall>n \<in> set (fb_nodes b). distinct (map fst (fn_gotoMap n)))"

definition flat_owns :: "flatBuild \<Rightarrow> nat \<Rightarrow> nat" where
  "flat_owns b = at_or 0 (map fn_ownID (fb_nodes b))"

definition flat_obs :: "flatBuild \<Rightarrow> (nat \<Rightarrow> nat) \<times> (nat \<Rightarrow> nat) \<times> (nat \<Rightarrow> int) \<times> outputs" where
  "flat_obs b =
     (flat_owns b, at_or 0 (map fn_fail (fb_nodes b)), at_or outNone (map fn_outLink (fb_nodes b)), fb_outs b)"

definition flat_depth :: "flatBuild \<Rightarrow> nat \<Rightarrow> nat" where
  "flat_depth b s = (if s < length (fb_nodes b) then fn_depth (fb_nodes b ! s) else 0)"

lemma newFlatNode_simps [simp]: "fn_gotoMap (newFlatNode d) = []" "fn_ownID (newFlatNode d) = 0"
  "fn_fail (newFlatNode d) = 0" "fn_outLink (newFlatNode d) = outNone" "fn_depth (newFlatNode d) = d"
  by (simp_all add: newFlatNode_def)

interpretation fs: trie_depth_store flat_next flat_alloc flat_goto "\<lambda>b. length (fb_nodes b)"
  flat_wf flat_obs flat_depth
proof unfold_locales
  fix b :: flatBuild and s c
  assume wf: "flat_wf b" and s: "s < length (fb_nodes b)"
  show "flat_next b s c = Some (flat_goto b s c)"
    using s by (simp add: flat_next_def flat_goto_def go_simps)
  {
    let ?n = "length (fb_nodes b)"
    define n' where "n' = (fb_nodes b ! s)\<lparr>fn_gotoMap := AList.update c ?n (fn_gotoMap (fb_nodes b ! s))\<rparr>"
    define b1 where "b1 = b\<lparr>fb_nodes := (fb_nodes b)[s := n'] @ [newFlatNode (fn_depth (fb_nodes b ! s) + 1)]\<rparr>"
    have b1: "flat_alloc b s c = Some (b1, ?n)"
      "fb_nodes b1 = (fb_nodes b)[s := n'] @ [newFlatNode (fn_depth (fb_nodes b ! s) + 1)]" "fb_outs b1 = fb_outs b"
      using s by (simp_all add: flat_alloc_def go_simps Let_def b1_def n'_def)
    have n': "fn_ownID n' = fn_ownID (fb_nodes b ! s)" "fn_fail n' = fn_fail (fb_nodes b ! s)"
      "fn_outLink n' = fn_outLink (fb_nodes b ! s)"
      "map_of (fn_gotoMap n') = (map_of (fn_gotoMap (fb_nodes b ! s)))(c \<mapsto> ?n)"
      by (simp_all add: n'_def update_conv')
    have "distinct (map fst (fn_gotoMap n'))"
      using wf s by (simp add: n'_def flat_wf_def distinct_update)
    then have "flat_wf b1" using wf set_update_subset_insert[of "fb_nodes b" s n'] unfolding flat_wf_def b1(2) by auto
    moreover have "flat_goto b1 x = ((flat_goto b)(s := (flat_goto b s)(c \<mapsto> ?n))) x" for x
      using s n'(4) by (cases "x = s") (simp_all add: flat_goto_def b1(2) nth_append nth_list_update less_Suc_eq)
    moreover have "flat_obs b1 = flat_obs b"
      using s n' by (simp add: flat_obs_def flat_owns_def b1 at_or_map_upd)
    ultimately show "\<exists>t'. flat_alloc b s c = Some (t', ?n) \<and> flat_wf t' \<and> length (fb_nodes t') = Suc ?n \<and>
        flat_goto t' = (flat_goto b)(s := (flat_goto b s)(c \<mapsto> ?n)) \<and> flat_obs t' = flat_obs b"
      using b1(1,2) by (intro exI[of _ b1]) auto
  }
  {
    fix t' n
    assume "flat_alloc b s c = Some (t', n)"
    then show "flat_depth t' = (flat_depth b)(length (fb_nodes b) := Suc (flat_depth b s))"
      using s by (intro ext)
        (auto simp: flat_alloc_def go_simps Let_def flat_depth_def nth_append nth_list_update less_Suc_eq)
  }
qed

section \<open>The trie of the keywords\<close>

definition flat_holds :: "flatBuild \<Rightarrow> dict \<Rightarrow> bool" where
  "flat_holds b D \<longleftrightarrow> fs.trie_of b (states D) \<and> fs.depths_ok b \<and>
     interned (flat_goto b) 0 (flat_owns b) (fb_outs b) D \<and>
     at_or 0 (map fn_fail (fb_nodes b)) = (\<lambda>_. 0) \<and> at_or outNone (map fn_outLink (fb_nodes b)) = (\<lambda>_. outNone)"

lemma flat_holds_new: "flat_holds newFlatBuild Map.empty"
proof -
  have n: "fb_nodes newFlatBuild = [newFlatNode 0]" "fb_outs newFlatBuild = empty_outputs"
    by (simp_all add: newFlatBuild_def)
  have g: "flat_goto newFlatBuild = (\<lambda>_ _. None)"
    by (intro ext) (simp add: flat_goto_def n)
  have "walk (\<lambda>_ _. None) 0 w = Some s \<longleftrightarrow> w = [] \<and> s = 0" for w s by (cases w) auto
  then have "fs.depths_ok newFlatBuild" by (auto simp: fs.depths_ok_def g flat_depth_def n)
  moreover have "flat_owns newFlatBuild = (\<lambda>_. 0)"
    by (rule ext) (simp add: at_or_def flat_owns_def n)
  moreover have "interned (\<lambda>_ _. None) 0 (\<lambda>_. 0) empty_outputs Map.empty"
    by (rule interned_empty) (simp_all add: empty_outputs_def)
  moreover have "at_or 0 (map fn_fail (fb_nodes newFlatBuild)) = (\<lambda>_. 0)"
    "at_or outNone (map fn_outLink (fb_nodes newFlatBuild)) = (\<lambda>_. outNone)"
    by (auto simp: at_or_def n)
  moreover have "fs.trie_of newFlatBuild {[]}"
    using trie_upto_init by (simp add: fs.trie_of_def g flat_wf_def n)
  ultimately show ?thesis by (simp only: flat_holds_def g n(2) states_empty simp_thms)
qed

lemma flat_insert_correct:
  assumes "flat_holds b D" and kw: "kw \<noteq> []"
  shows "\<exists>b'. flat_insert kw b = Some b' \<and> flat_holds b' (D(runes kw \<mapsto> kw))"
proof -
  let ?g = "flat_goto"
  from assms(1) have b: "fs.trie_of b (states D)" "interned (?g b) 0 (flat_owns b) (fb_outs b) D" "fs.depths_ok b"
    by (auto simp: flat_holds_def)
  from fs.insertRunes_correct[OF b(1), of "[]" 0 "runes kw"] obtain b1 s
    where ins: "insertRunes flat_next flat_alloc b 0 (runes kw) = Some (b1, s)"
      and b1: "fs.trie_of b1 (states D \<union> {u. prefix u (runes kw)})"
      and s: "walk (?g b1) 0 (runes kw) = Some s"
      and keep: "\<forall>u x. walk (?g b) 0 u = Some x \<longrightarrow> walk (?g b1) 0 u = Some x"
      and obs: "flat_obs b1 = flat_obs b" by auto
  have depth: "fs.depths_ok b1"
    using fs.insertRunes_depth[OF b(1) _ b(3) ins, of "[]"] by simp
  note trie = fs.trie_of_trie[OF b(1)] fs.trie_of_trie[OF b1]
  note range = fs.trie_of_less[OF b1 s] and wf = fs.trie_of_wf[OF b1]
  from obs have o: "flat_owns b1 = flat_owns b" "fb_outs b1 = fb_outs b"
    "at_or 0 (map fn_fail (fb_nodes b1)) = at_or 0 (map fn_fail (fb_nodes b))"
    "at_or outNone (map fn_outLink (fb_nodes b1)) = at_or outNone (map fn_outLink (fb_nodes b))"
    by (auto simp: flat_obs_def)
  from interned_extend[OF b(2) trie keep dom_subset_states]
  have "interned (?g b1) 0 (flat_owns b1) (fb_outs b1) D" by (simp only: o)
  from interned_assign[OF this trie(2) s refl] obtain out' i
    where a: "assign (fb_outs b1) (flat_owns b1 s) kw = Some (out', i)"
      and int: "interned (?g b1) 0 ((flat_owns b1)(s := i)) out' (D(runes kw \<mapsto> kw))" by blast
  define b2 where "b2 = b1\<lparr>fb_nodes := (fb_nodes b1)[s := (fb_nodes b1 ! s)\<lparr>fn_ownID := i\<rparr>], fb_outs := out'\<rparr>"
  have n: "fb_nodes b2 = (fb_nodes b1)[s := (fb_nodes b1 ! s)\<lparr>fn_ownID := i\<rparr>]" "fb_outs b2 = out'"
    by (simp_all add: b2_def)
  have run: "flat_insert kw b = Some b2"
    using a kw ins range by (simp add: flat_insert_def go_simps b2_def flat_owns_def at_or_def)
  have "flat_goto b2 x = flat_goto b1 x" for x
    using range by (cases "x = s") (simp_all add: flat_goto_def n)
  then have g: "?g b2 = ?g b1" by auto
  have "flat_wf b2" using wf range unfolding flat_wf_def n
    by (auto dest!: set_update_subset_insert[THEN subsetD])
  with b1 g have "fs.trie_of b2 (states (D(runes kw \<mapsto> kw)))" by (simp add: fs.trie_of_def states_upd n)
  moreover have "flat_depth b2 x = flat_depth b1 x" for x
    using range by (simp add: flat_depth_def n nth_list_update)
  with depth have "fs.depths_ok b2" by (simp add: fs.depths_ok_def g)
  moreover have "flat_owns b2 = (flat_owns b1)(s := i)"
    using range at_or_upd[of s "map fn_ownID (fb_nodes b1)" 0 i] by (simp add: flat_owns_def n map_update)
  ultimately have "flat_holds b2 (D(runes kw \<mapsto> kw))"
    using assms(1) o int range by (simp add: flat_holds_def g n at_or_map_upd)
  with run show ?thesis by blast
qed

lemma flat_inserts: "\<exists>b. foldM flat_insert ks newFlatBuild = Some b \<and> flat_holds b (dict_of ks)"
proof (rule foldM_invariant)
  fix ys y zs b
  assume "flat_holds b (dict_of ys)"
  with flat_insert_correct[of b "dict_of ys" y]
  show "\<exists>b'. flat_insert y b = Some b' \<and> flat_holds b' (dict_of (ys @ [y]))"
    by (cases "y = []") (auto simp: dict_of_snoc flat_insert_def)
qed (simp add: flat_holds_new)

section \<open>The links\<close>

text \<open>What the links pass leaves alone: the trie, the ids, the outputs and the depths.\<close>

definition flat_keeps :: "outputs \<Rightarrow> nat list \<Rightarrow> flatBuild \<Rightarrow> goto \<Rightarrow> (nat \<Rightarrow> nat) \<Rightarrow> bool" where
  "flat_keeps out ds b g own_of \<longleftrightarrow> flat_wf b \<and> flat_goto b = g \<and> flat_owns b = own_of \<and>
     (\<forall>w s. walk g 0 w = Some s \<longrightarrow> s < length (fb_nodes b)) \<and> fb_outs b = out \<and> map fn_depth (fb_nodes b) = ds"

lemma flat_keeps_next:
  "flat_keeps out ds b g own_of \<Longrightarrow> \<forall>w s c. walk g 0 w = Some s \<longrightarrow> flat_next b s c = Some (g s c)"
  by (auto simp: flat_keeps_def intro: fs.nxt)

lemma flat_keeps_upd:
  assumes keeps: "flat_keeps out ds b g own_of" and s: "s < length (fb_nodes b)"
    and n: "fn_gotoMap n = fn_gotoMap (fb_nodes b ! s)" "fn_ownID n = fn_ownID (fb_nodes b ! s)"
      "fn_depth n = fn_depth (fb_nodes b ! s)"
  shows "flat_keeps out ds (b\<lparr>fb_nodes := (fb_nodes b)[s := n]\<rparr>) g own_of"
proof -
  let ?b = "b\<lparr>fb_nodes := (fb_nodes b)[s := n]\<rparr>"
  have "flat_goto ?b x = flat_goto b x" for x
    using s n(1) by (cases "x = s") (simp_all add: flat_goto_def)
  moreover have "flat_wf ?b" using keeps s n(1) unfolding flat_wf_def flat_keeps_def
    by (auto dest!: set_update_subset_insert[THEN subsetD])
  moreover have "flat_owns ?b = flat_owns b" using s n(2) by (simp add: flat_owns_def at_or_map_upd)
  moreover have "map fn_depth (fb_nodes ?b) = map fn_depth (fb_nodes b)"
    using s n(3) by (intro nth_equalityI) (auto simp: nth_list_update)
  ultimately show ?thesis using keeps by (auto simp: flat_keeps_def)
qed

interpretation fl: link_store flat_fail flat_own flat_link flat_setLinks flat_target 0 "flat_keeps out ds" for out ds
proof unfold_locales
  fix st g own_of w s f l
  assume k: "flat_keeps out ds st g own_of" and w: "walk g 0 w = Some s"
  then have s: "s < length (fb_nodes st)" by (auto simp: flat_keeps_def)
  with k show "flat_own st s = Some (own_of s)"
    by (auto simp: flat_keeps_def flat_own_def flat_owns_def idx_def at_or_def)
  let ?n = "(fb_nodes st ! s)\<lparr>fn_fail := f, fn_outLink := l\<rparr>"
  let ?b = "st\<lparr>fb_nodes := (fb_nodes st)[s := ?n]\<rparr>"
  have "flat_keeps out ds ?b g own_of" by (rule flat_keeps_upd[OF k s]) simp_all
  moreover have "flat_fail ?b = (flat_fail st)(s \<mapsto> f)" "flat_link ?b = (flat_link st)(s \<mapsto> l)"
    using s by (auto simp: flat_fail_def flat_link_def idx_def nth_list_update)
  ultimately show "\<exists>st'. flat_setLinks st s f l = Some st' \<and> flat_keeps out ds st' g own_of \<and>
      flat_fail st' = (flat_fail st)(s \<mapsto> f) \<and> flat_link st' = (flat_link st)(s \<mapsto> l)"
    using s by (intro exI[of _ ?b]) (simp add: flat_setLinks_def go_simps)
next
  fix st g own_of P d v f c
  assume "flat_keeps out ds st g own_of" "is_trie g 0 P" "fails_upto g 0 P (flat_fail st) d"
    "walk g 0 v = Some f" "length v \<le> d"
  then obtain x where "gotoLoop (flat_next st) (flat_fail st) 0 f c = Some x" "walk g 0 (lsuf P (v @ [c])) = Some x"
    using gotoLoop_correct[OF _ flat_keeps_next] by meson
  then show "\<exists>t. flat_target st f c = Some t \<and> walk g 0 (lsuf P (v @ [c])) = Some t"
    using failTarget_gotoLoop by (auto simp: flat_target_def)
qed

lemma sortedChildren_correct:
  assumes "distinct (map fst m)"
  shows "set (sortedChildren m) = {(c, t). map_of m c = Some t}" "distinct (map fst (sortedChildren m))"
  using assms by (auto simp: sortedChildren_def distinct_map)

text \<open>Setting the root children's failure links to 0 changes nothing: they are 0 already.\<close>

lemma flat_rootChildren:
  assumes "\<forall>(c, x) \<in> set es. x < length (fb_nodes b)" and "at_or 0 (map fn_fail (fb_nodes b)) = (\<lambda>_. 0)"
  shows "foldM flat_rootChild es (q, b) = Some (q @ map snd es, b)"
  using assms(1)
proof (induction es arbitrary: q)
  case (Cons e es)
  obtain c x where e: "e = (c, x)" by (cases e)
  with Cons.prems have x: "x < length (fb_nodes b)" by simp
  with fun_cong[OF assms(2), of x] have "(fb_nodes b)[x := (fb_nodes b ! x)\<lparr>fn_fail := 0\<rparr>] = fb_nodes b"
    by (simp add: at_or_def list_update_same_conv)
  with x e have "flat_rootChild e (q, b) = Some (q @ [x], b)" by (simp add: flat_rootChild_def go_simps)
  with Cons.IH[of "q @ [x]"] Cons.prems e show ?case by simp
qed simp

lemma flat_visit_correct:
  assumes k: "flat_keeps out ds b g own_of" and trie: "is_trie g 0 (states D)" and nil: "D [] = None"
    and int: "interned g 0 own_of out D"
    and linked: "linked g 0 (states D) D (flat_fail b) (flat_link b) S"
    and w: "walk g 0 w = Some s" "w \<noteq> []" and cover: "covers g 0 S (length w)"
  shows "\<exists>found b'. flat_visit s (ord, b) = Some (found, (ord @ [s], b')) \<and> distinct found \<and>
    set found = {x. \<exists>c. g s c = Some x} \<and> flat_keeps out ds b' g own_of \<and>
    linked g 0 (states D) D (flat_fail b') (flat_link b') (S \<union> set found)"
proof -
  from k w have s: "s < length (fb_nodes b)" "distinct (map fst (fn_gotoMap (fb_nodes b ! s)))"
    "g s = map_of (fn_gotoMap (fb_nodes b ! s))"
    by (auto simp: flat_keeps_def flat_wf_def flat_goto_def)
  let ?es = "sortedChildren (fn_gotoMap (fb_nodes b ! s))"
  from sortedChildren_correct[OF s(2)] s(3)
  have es: "set ?es = {(c, x). g s c = Some x}" "distinct (map fst ?es)" by auto
  from fl.linkChildren_correct[OF k trie dom_subset_states nil int linked w cover, of ?es "[]"] es(1)
  obtain b' where b': "foldM (linkChild flat_fail flat_own flat_link flat_setLinks flat_target s) ?es ([], b) =
      Some (map snd ?es, b')" "flat_keeps out ds b' g own_of"
    "linked g 0 (states D) D (flat_fail b') (flat_link b') (S \<union> snd ` set ?es)" by auto
  moreover have "flat_visit s (ord, b) = Some (map snd ?es, (ord @ [s], b'))"
    using s(1) b'(1) by (simp add: flat_visit_def go_simps)
  moreover have "distinct (map snd ?es)" by (rule distinct_children[OF trie w(1) _ es(2)]) (use es(1) in auto)
  moreover have "set (map snd ?es) = {x. \<exists>c. g s c = Some x}" using es(1) by force
  ultimately show ?thesis by (intro exI[of _ "map snd ?es"] exI[of _ b']) simp
qed

lemma flat_bfs:
  assumes holds: "flat_holds b D" and fin: "finite (states D)" and nil: "D [] = None"
  shows "\<exists>root q ord b'. idx (fb_nodes b) 0 = Some root \<and>
    foldM flat_rootChild (sortedChildren (fn_gotoMap root)) ([], b) = Some (q, b) \<and>
    worklist flat_visit q ([], b) = Some (ord, b') \<and>
    flat_keeps (fb_outs b) (map fn_depth (fb_nodes b)) b' (flat_goto b) (flat_owns b) \<and>
    linked (flat_goto b) 0 (states D) D (flat_fail b') (flat_link b') UNIV \<and>
    distinct ord \<and> set ord = from_level (flat_goto b) 0 1 \<and> sorted (map (node_depth (flat_goto b) 0) ord)"
proof -
  let ?g = "flat_goto b" and ?own = "flat_owns b" and ?ds = "map fn_depth (fb_nodes b)" and ?out = "fb_outs b"
  let ?root = "fb_nodes b ! 0"
  from holds have of: "fs.trie_of b (states D)" and int: "interned ?g 0 ?own ?out D"
    and fl: "at_or 0 (map fn_fail (fb_nodes b)) = (\<lambda>_. 0)"
    and ol: "at_or outNone (map fn_outLink (fb_nodes b)) = (\<lambda>_. outNone)"
    by (auto simp: flat_holds_def)
  note trie = fs.trie_of_trie[OF of] and wf = fs.trie_of_wf[OF of] and less = fs.trie_of_less[OF of]
  have keeps: "flat_keeps ?out ?ds b ?g ?own" using wf less by (simp add: flat_keeps_def)
  have root: "0 < length (fb_nodes b)" "distinct (map fst (fn_gotoMap ?root))" "?g 0 = map_of (fn_gotoMap ?root)"
    using wf by (auto simp: flat_wf_def flat_goto_def)
  let ?es = "sortedChildren (fn_gotoMap ?root)"
  let ?q = "map snd ?es"
  from sortedChildren_correct[OF root(2)] root(3)
  have es: "set ?es = {(c, x). ?g 0 c = Some x}" "distinct (map fst ?es)" by auto
  have dist: "distinct ?q" by (rule distinct_children[OF trie, of "[]" 0]) (use es in auto)
  have lev: "set ?q = level ?g 0 1" unfolding level_one set_map es(1) by force
  have "x < length (fb_nodes b)" if "(c, x) \<in> set ?es" for c x
    using less[of "[c]" x] that es(1) by simp
  then have start: "foldM flat_rootChild ?es ([], b) = Some (?q, b)"
    using flat_rootChildren[OF _ fl, of ?es "[]"] by auto
  have init: "linked ?g 0 (states D) D (flat_fail b) (flat_link b) (set ?q)"
  proof (rule linked_init[OF _ lev trie])
    fix w s
    assume "walk ?g 0 w = Some s"
    from less[OF this] fun_cong[OF fl, of s] fun_cong[OF ol, of s]
    show "flat_fail b s = Some 0 \<and> flat_link b s = Some outNone"
      by (simp add: flat_fail_def flat_link_def idx_def at_or_def)
  qed
  let ?I = "\<lambda>seen queue (ord, b'). ord = seen \<and> flat_keeps ?out ?ds b' ?g ?own \<and>
    linked ?g 0 (states D) D (flat_fail b') (flat_link b') (set (seen @ queue))"
  have "\<exists>seen ob'. worklist flat_visit ?q ([], b) = Some ob' \<and> ?I seen [] ob' \<and> distinct seen \<and>
      set seen = from_level ?g 0 1 \<and> sorted (map (node_depth ?g 0) seen)"
  proof (rule bfs_levels[OF trie fin dist lev])
    fix seen s rest st w
    assume I: "?I seen (s # rest) st" and w: "walk ?g 0 w = Some s" "1 \<le> length w"
      and cov: "\<And>v t'. walk ?g 0 v = Some t' \<Longrightarrow> 1 \<le> length v \<Longrightarrow> length v \<le> length w \<Longrightarrow> t' \<in> set (seen @ s # rest)"
    obtain b1 where st: "st = (seen, b1)" "flat_keeps ?out ?ds b1 ?g ?own"
      "linked ?g 0 (states D) D (flat_fail b1) (flat_link b1) (set (seen @ s # rest))" using I by (cases st) auto
    from cov have "covers ?g 0 (set (seen @ s # rest)) (length w)" by (auto simp: covers_def Suc_le_eq)
    moreover have "w \<noteq> []" using w(2) by auto
    ultimately obtain found b' where f: "flat_visit s st = Some (found, (seen @ [s], b'))" "distinct found"
      "set found = {x. \<exists>c. ?g s c = Some x}" "flat_keeps ?out ?ds b' ?g ?own"
      "linked ?g 0 (states D) D (flat_fail b') (flat_link b') (set (seen @ s # rest) \<union> set found)"
      using flat_visit_correct[OF st(2) trie nil int st(3) w(1), of seen] st(1) by blast
    have "set (seen @ s # rest) \<union> set found = set ((seen @ [s]) @ (rest @ found))" by auto
    with f(4,5) have "?I (seen @ [s]) (rest @ found) (seen @ [s], b')" by simp
    with f(1-3) show "\<exists>found st'. flat_visit s st = Some (found, st') \<and> distinct found \<and>
        set found = {t'. \<exists>c. ?g s c = Some t'} \<and> ?I (seen @ [s]) (rest @ found) st'" by blast
  qed (use keeps init in simp)
  then obtain ord b' where r: "worklist flat_visit ?q ([], b) = Some (ord, b')" "flat_keeps ?out ?ds b' ?g ?own"
    "linked ?g 0 (states D) D (flat_fail b') (flat_link b') (set ord)" "distinct ord"
    "set ord = from_level ?g 0 1" "sorted (map (node_depth ?g 0) ord)" by auto
  with linked_all[OF r(3)] start root(1) show ?thesis
    by (intro exI[of _ ?root] exI[of _ ?q] exI[of _ ord] exI[of _ b']) (simp add: go_simps)
qed

section \<open>The transition table\<close>

text \<open>
  An entry is right for the text \<open>w\<close> and the rune \<open>c\<close> when it holds the state of
  the text extended by the rune and the flag whether a keyword ends there.
\<close>

definition entry_ok :: "goto \<Rightarrow> dict \<Rightarrow> rune list \<Rightarrow> rune \<Rightarrow> 32 word \<Rightarrow> bool" where
  "entry_ok g D w c v \<longleftrightarrow> walk g 0 (lsuf (states D) (w @ [c])) = Some (entryState v) \<and>
     (entryHasOutput v \<longleftrightarrow> outs_at D (w @ [c]) \<noteq> [])"

definition row_ok :: "goto \<Rightarrow> dict \<Rightarrow> rune list \<Rightarrow> 32 word list \<Rightarrow> nat \<Rightarrow> rune list \<Rightarrow> bool" where
  "row_ok g D A dfa s w \<longleftrightarrow>
     (\<forall>ai < length A. s * length A + ai < length dfa \<and> entry_ok g D w (A ! ai) (dfa ! (s * length A + ai)))"

lemma fillEntries_correct:
  assumes row: "row + length A \<le> length dfa"
    and val: "\<And>dfa' ai. ai < length A \<Longrightarrow> length dfa' = length dfa \<Longrightarrow>
      (\<And>i. i < row \<or> row + length A \<le> i \<Longrightarrow> dfa' ! i = dfa ! i) \<Longrightarrow>
      \<exists>v. (case map_of (fn_gotoMap n) (A ! ai) of Some child \<Rightarrow> enc out child | None \<Rightarrow> base dfa' ai) = Some v \<and> Q ai v"
  shows "\<exists>dfa'. foldM (fillEntry out n row base) (List.enumerate 0 A) dfa = Some dfa' \<and> length dfa' = length dfa \<and>
    (\<forall>i. i < row \<or> row + length A \<le> i \<longrightarrow> dfa' ! i = dfa ! i) \<and> (\<forall>ai < length A. Q ai (dfa' ! (row + ai)))"
proof -
  let ?I = "\<lambda>ys dfa'. length dfa' = length dfa \<and> (\<forall>i. i < row \<or> row + length A \<le> i \<longrightarrow> dfa' ! i = dfa ! i) \<and>
    (\<forall>ai < length ys. Q ai (dfa' ! (row + ai)))"
  have "\<exists>dfa'. foldM (fillEntry out n row base) (List.enumerate 0 A) dfa = Some dfa' \<and> ?I (List.enumerate 0 A) dfa'"
  proof (rule foldM_invariant)
    fix ys y zs dfa'
    assume split: "List.enumerate 0 A = ys @ y # zs" and I: "?I ys dfa'"
    have len: "length ys < length A" using arg_cong[OF split, of length] by simp
    have y: "y = (length ys, A ! length ys)"
      using nth_enumerate_eq[OF len, of 0] nth_append_length[of ys y zs] by (simp add: split)
    from val[OF len] I obtain v where v: "(case map_of (fn_gotoMap n) (A ! length ys) of
        Some child \<Rightarrow> enc out child | None \<Rightarrow> base dfa' (length ys)) = Some v" "Q (length ys) v" by blast
    let ?d = "dfa'[row + length ys := v]"
    have "fillEntry out n row base y dfa' = Some ?d"
      using v(1) I len row by (simp add: fillEntry_def y go_simps)
    moreover have "?I (ys @ [y]) ?d"
      using I v(2) len row by (auto simp: nth_list_update less_Suc_eq)
    ultimately show "\<exists>s'. fillEntry out n row base y dfa' = Some s' \<and> ?I (ys @ [y]) s'" by blast
  qed simp
  then show ?thesis by simp
qed

lemma rows_disjoint:
  assumes "s \<noteq> s'" and "ai < k"
  shows "s * k + ai < s' * k \<or> s' * k + k \<le> s * k + (ai :: nat)"
proof (cases "s < s'")
  case True
  then have "Suc s * k \<le> s' * k" by (intro mult_le_mono1) simp
  with assms(2) show ?thesis by simp
next
  case False
  with assms(1) have "Suc s' * k \<le> s * k" by (intro mult_le_mono1) simp
  then show ?thesis by simp
qed

lemma row_in_table: "s < n \<Longrightarrow> s * k + k \<le> n * (k :: nat)"
proof -
  assume "s < n"
  then have "Suc s * k \<le> n * k" by (intro mult_le_mono1) simp
  then show ?thesis by simp
qed

text \<open>The finished temporary trie, the table is filled from.\<close>

definition flat_linked :: "flatBuild \<Rightarrow> outputs \<Rightarrow> dict \<Rightarrow> bool" where
  "flat_linked b out D \<longleftrightarrow> is_trie (flat_goto b) 0 (states D) \<and> D [] = None \<and>
     interned (flat_goto b) 0 (flat_owns b) out D \<and>
     linked (flat_goto b) 0 (states D) D (flat_fail b) (flat_link b) UNIV \<and>
     (\<forall>w s. walk (flat_goto b) 0 w = Some s \<longrightarrow> s < length (fb_nodes b)) \<and> length (fb_nodes b) < 2 ^ 30 \<and>
     own out = map fn_ownID (fb_nodes b) \<and> outLink out = map fn_outLink (fb_nodes b)"

lemma flat_linkedD:
  assumes "flat_linked b out D"
  shows "is_trie (flat_goto b) 0 (states D)" "D [] = None" "interned (flat_goto b) 0 (flat_owns b) out D"
    "linked (flat_goto b) 0 (states D) D (flat_fail b) (flat_link b) UNIV"
    "walk (flat_goto b) 0 w = Some s \<Longrightarrow> s < length (fb_nodes b)"
  using assms by (simp_all add: flat_linked_def)

lemma enc_correct:
  assumes "flat_linked b out D" and w: "walk (flat_goto b) 0 w = Some s"
  shows "\<exists>v. enc out s = Some v \<and> entryState v = s \<and> (entryHasOutput v \<longleftrightarrow> outs_at D w \<noteq> [])"
proof -
  from assms have s: "s < length (fb_nodes b)" "s < 2 ^ 30" by (auto simp: flat_linked_def intro: less_trans)
  from assms obtain l where l: "flat_link b s = Some l" "link_ok (flat_goto b) 0 D w l"
    unfolding flat_linked_def linked_def by blast
  have "flat_owns b s \<noteq> 0 \<or> l \<noteq> outNone \<longleftrightarrow> outs_at D w \<noteq> []"
    by (rule flag_correct[OF flat_linkedD(3)[OF assms(1)] w l(2) flat_linkedD(2)[OF assms(1)]])
  moreover have "enc out s = packState s (flat_owns b s \<noteq> 0 \<or> l \<noteq> outNone)"
    using assms(1) s(1) l(1) by (auto simp: flat_linked_def enc_def idx_def flat_owns_def at_or_def flat_link_def)
  ultimately show ?thesis using packState_fits[OF s(2)] by metis
qed

lemma child_entry:
  assumes built: "flat_linked b out D" and w: "walk (flat_goto b) 0 w = Some s" and c: "flat_goto b s c = Some x"
  shows "\<exists>v. enc out x = Some v \<and> entry_ok (flat_goto b) D w c v"
proof -
  from w c have x: "walk (flat_goto b) 0 (w @ [c]) = Some x" by (simp add: walk_snoc)
  moreover have "w @ [c] \<in> states D" using built x unfolding flat_linked_def by (blast intro: is_trie_in)
  ultimately show ?thesis using enc_correct[OF built x] by (auto simp: entry_ok_def lsuf_id)
qed

lemma fillRoot_correct:
  assumes built: "flat_linked b out D" and len: "length dfa = length (fb_nodes b) * length A"
    and ne: "fb_nodes b \<noteq> []"
  shows "\<exists>dfa'. fillRoot out (fb_nodes b ! 0) A dfa = Some dfa' \<and> length dfa' = length dfa \<and>
    row_ok (flat_goto b) D A dfa' 0 []"
proof -
  let ?g = "flat_goto b"
  have g0: "?g 0 = map_of (fn_gotoMap (fb_nodes b ! 0))" using ne by (simp add: flat_goto_def)
  have size: "0 + length A \<le> length dfa" using row_in_table[of 0 "length (fb_nodes b)" "length A"] ne len by simp
  have val: "\<exists>v. (case map_of (fn_gotoMap (fb_nodes b ! 0)) (A ! ai) of Some child \<Rightarrow> enc out child
      | None \<Rightarrow> enc out 0) = Some v \<and> entry_ok ?g D [] (A ! ai) v" for ai
  proof (cases "?g 0 (A ! ai)")
    case (Some x)
    with child_entry[OF built, of "[]" 0 "A ! ai" x] g0 show ?thesis by simp
  next
    case None
    then have "[A ! ai] \<notin> states D" using goto_iff[OF flat_linkedD(1)[OF built], of "[]" 0 "A ! ai"] by simp
    moreover from this have "outs_at D [A ! ai] = []"
      using outs_at_lsuf[OF dom_subset_states, of D "[A ! ai]"] by simp
    ultimately show ?thesis using enc_correct[OF built, of "[]" 0] None g0 by (auto simp: entry_ok_def)
  qed
  have "\<exists>dfa'. foldM (fillEntry out (fb_nodes b ! 0) 0 (\<lambda>_ _. enc out 0)) (List.enumerate 0 A) dfa = Some dfa' \<and>
      length dfa' = length dfa \<and> (\<forall>i. i < 0 \<or> 0 + length A \<le> i \<longrightarrow> dfa' ! i = dfa ! i) \<and>
      (\<forall>ai < length A. entry_ok ?g D [] (A ! ai) (dfa' ! (0 + ai)))"
    by (rule fillEntries_correct[OF size]) (rule val)
  with size show ?thesis unfolding fillRoot_def row_ok_def by auto
qed

lemma fillRow_correct:
  assumes built: "flat_linked b out D" and len: "length dfa = length (fb_nodes b) * length A"
    and w: "walk (flat_goto b) 0 w = Some s" "w \<noteq> []"
    and f: "flat_fail b s = Some f" "row_ok (flat_goto b) D A dfa f (lps (states D) w)" "f \<noteq> s"
  shows "\<exists>dfa'. fillRow out (fb_nodes b) A s dfa = Some dfa' \<and> length dfa' = length dfa \<and>
    row_ok (flat_goto b) D A dfa' s w \<and>
    (\<forall>s' v. s' \<noteq> s \<longrightarrow> row_ok (flat_goto b) D A dfa s' v \<longrightarrow> row_ok (flat_goto b) D A dfa' s' v)"
proof -
  let ?g = "flat_goto b" and ?k = "length A" and ?n = "fb_nodes b ! s"
  have s: "s < length (fb_nodes b)" by (rule flat_linkedD(5)[OF built w(1)])
  have gs: "?g s = map_of (fn_gotoMap ?n)" using s by (simp add: flat_goto_def)
  have size: "s * ?k + ?k \<le> length dfa" using row_in_table[OF s] len by simp
  have fs: "fn_fail ?n = f" using f(1) s by (simp add: flat_fail_def idx_def)
  let ?base = "\<lambda>dfa ai. idx dfa (fn_fail ?n * ?k + ai)"
  have val: "\<exists>v. (case map_of (fn_gotoMap ?n) (A ! ai) of Some child \<Rightarrow> enc out child
      | None \<Rightarrow> idx dfa' (fn_fail ?n * ?k + ai)) = Some v \<and> entry_ok ?g D w (A ! ai) v"
    if ai: "ai < ?k" and l': "length dfa' = length dfa"
      and same: "\<And>i. i < s * ?k \<or> s * ?k + ?k \<le> i \<Longrightarrow> dfa' ! i = dfa ! i" for dfa' ai
  proof (cases "?g s (A ! ai)")
    case (Some x)
    with child_entry[OF built w(1) Some] gs show ?thesis by simp
  next
    case None
    then have no: "w @ [A ! ai] \<notin> states D" using goto_iff[OF flat_linkedD(1)[OF built] w(1), of "A ! ai"] by simp
    from f(2) ai have e: "f * ?k + ai < length dfa" "entry_ok ?g D (lps (states D) w) (A ! ai) (dfa ! (f * ?k + ai))"
      by (auto simp: row_ok_def)
    have "lsuf (states D) (lps (states D) w @ [A ! ai]) = lsuf (states D) (w @ [A ! ai])"
      by (rule lsuf_fail[OF closed_states w(2) no])
    then have "entry_ok ?g D w (A ! ai) (dfa ! (f * ?k + ai))"
      using e(2) outs_at_lsuf[OF dom_subset_states, of D "lps (states D) w @ [A ! ai]"]
        outs_at_lsuf[OF dom_subset_states, of D "w @ [A ! ai]"] by (simp add: entry_ok_def)
    moreover have "dfa' ! (f * ?k + ai) = dfa ! (f * ?k + ai)" using rows_disjoint[OF f(3) ai] by (intro same)
    ultimately show ?thesis using None gs e(1) l' fs by (simp add: go_simps)
  qed
  have "\<exists>dfa'. foldM (fillEntry out ?n (s * ?k) ?base) (List.enumerate 0 A) dfa = Some dfa' \<and>
      length dfa' = length dfa \<and> (\<forall>i. i < s * ?k \<or> s * ?k + ?k \<le> i \<longrightarrow> dfa' ! i = dfa ! i) \<and>
      (\<forall>ai < ?k. entry_ok ?g D w (A ! ai) (dfa' ! (s * ?k + ai)))"
    by (rule fillEntries_correct[OF size]) (rule val)
  then obtain dfa' where d: "foldM (fillEntry out ?n (s * ?k) ?base) (List.enumerate 0 A) dfa = Some dfa'"
    "length dfa' = length dfa" "\<forall>i. i < s * ?k \<or> s * ?k + ?k \<le> i \<longrightarrow> dfa' ! i = dfa ! i"
    "\<forall>ai < ?k. entry_ok ?g D w (A ! ai) (dfa' ! (s * ?k + ai))" by blast
  have "row_ok ?g D A dfa' s' v" if "s' \<noteq> s" "row_ok ?g D A dfa s' v" for s' v
  proof -
    have "dfa' ! (s' * ?k + ai) = dfa ! (s' * ?k + ai)" if "ai < ?k" for ai
      using d(3) rows_disjoint[OF \<open>s' \<noteq> s\<close> that] by blast
    with that(2) d(2) show ?thesis by (simp add: row_ok_def)
  qed
  moreover have "row_ok ?g D A dfa' s w" using d(2,4) size by (auto simp: row_ok_def)
  moreover have "fillRow out (fb_nodes b) A s dfa = Some dfa'"
    using d(1) s by (simp add: fillRow_def go_simps Let_def)
  ultimately show ?thesis using d(2) by (intro exI[of _ dfa']) simp
qed

lemma fillRows_correct:
  assumes built: "flat_linked b out D" and len: "length dfa = length (fb_nodes b) * length A"
    and root: "row_ok (flat_goto b) D A dfa 0 []"
    and ord: "distinct ord" "set ord = from_level (flat_goto b) 0 1" "sorted (map (node_depth (flat_goto b) 0) ord)"
  shows "\<exists>dfa'. foldM (fillRow out (fb_nodes b) A) ord dfa = Some dfa' \<and> length dfa' = length dfa \<and>
    (\<forall>w s. walk (flat_goto b) 0 w = Some s \<longrightarrow> row_ok (flat_goto b) D A dfa' s w)"
proof -
  let ?g = "flat_goto b"
  note trie = flat_linkedD(1)[OF built]
  let ?I = "\<lambda>ys dfa'. length dfa' = length dfa \<and>
    (\<forall>w s. walk ?g 0 w = Some s \<longrightarrow> s \<in> set ys \<or> w = [] \<longrightarrow> row_ok ?g D A dfa' s w)"
  have "\<exists>dfa'. foldM (fillRow out (fb_nodes b) A) ord dfa = Some dfa' \<and> ?I ord dfa'"
  proof (rule foldM_invariant)
    fix ys s zs dfa1
    assume split: "ord = ys @ s # zs" and I: "?I ys dfa1"
    from split ord(2) have "s \<in> from_level ?g 0 1" by auto
    then obtain w where w: "walk ?g 0 w = Some s" "w \<noteq> []" by (fastforce simp: from_level_def)
    with flat_linkedD(4)[OF built] obtain f where f: "flat_fail b s = Some f" "walk ?g 0 (lps (states D) w) = Some f"
      unfolding linked_def by blast
    have depth: "node_depth ?g 0 f < node_depth ?g 0 s"
      using node_depth[OF trie w(1)] node_depth[OF trie f(2)] w(2) by simp
    have "f \<in> set ys \<or> lps (states D) w = []"
    proof (cases "lps (states D) w = []")
      case False
      with f(2) ord(2) have "f \<in> set ord" by (auto simp: from_level_def Suc_le_eq)
      moreover have "f \<notin> set (s # zs)" using depth ord(3) split by (fastforce simp: sorted_append)
      ultimately show ?thesis using split by auto
    qed simp
    with I f(2) have row: "row_ok ?g D A dfa1 f (lps (states D) w)" by blast
    have "f \<noteq> s" using depth by auto
    from fillRow_correct[OF built _ w f(1) row this] I len obtain dfa2
      where d2: "fillRow out (fb_nodes b) A s dfa1 = Some dfa2" "length dfa2 = length dfa"
        "row_ok ?g D A dfa2 s w" "\<forall>s' v. s' \<noteq> s \<longrightarrow> row_ok ?g D A dfa1 s' v \<longrightarrow> row_ok ?g D A dfa2 s' v" by auto
    have "row_ok ?g D A dfa2 t v" if v: "walk ?g 0 v = Some t" "t \<in> set (ys @ [s]) \<or> v = []" for v t
    proof (cases "t = s")
      case True
      with is_trie_inj[OF trie v(1)] w(1) d2(3) show ?thesis by simp
    next
      case False
      with v I have "row_ok ?g D A dfa1 t v" by auto
      with False d2(4) show ?thesis by blast
    qed
    with d2(1,2) show "\<exists>dfa2. fillRow out (fb_nodes b) A s dfa1 = Some dfa2 \<and> ?I (ys @ [s]) dfa2" by blast
  qed (use root in auto)
  then obtain dfa' where r: "foldM (fillRow out (fb_nodes b) A) ord dfa = Some dfa'" "?I ord dfa'" by blast
  have "s \<in> set ord \<or> w = []" if "walk ?g 0 w = Some s" for w s
    using that ord(2) by (cases "w = []") (auto simp: from_level_def Suc_le_eq)
  with r show ?thesis by blast
qed

section \<open>The built engine\<close>

text \<open>
  The transition table is right for every state, and the alphabet holds every
  rune of the dictionary.
\<close>

definition speed_ok :: "speedEngine \<Rightarrow> flatBuild \<Rightarrow> dict \<Rightarrow> bool" where
  "speed_ok e b D \<longleftrightarrow> flat_linked b (se_out e) D \<and> coder_for (se_alphabet e) (se_coder e) \<and>
     se_alphaSize e = length (se_alphabet e) \<and>
     (\<forall>v \<in> dom D. set v \<subseteq> set (se_alphabet e)) \<and> (\<forall>v v' k. D v = Some k \<longrightarrow> D v' = Some k \<longrightarrow> v = v') \<and>
     (\<exists>dfa. se_dfa e = Some dfa \<and>
        (\<forall>w s. walk (flat_goto b) 0 w = Some s \<longrightarrow> row_ok (flat_goto b) D (se_alphabet e) dfa s w))"

definition speed_built :: "speedEngine \<Rightarrow> dict \<Rightarrow> bool" where
  "speed_built e D \<longleftrightarrow> (\<exists>b. speed_ok e b D)"

text \<open>A state stands for a text when it is where the text leads in every such trie.\<close>

definition speed_rep :: "speedEngine \<Rightarrow> dict \<Rightarrow> rune list \<Rightarrow> nat \<Rightarrow> bool" where
  "speed_rep e D w s \<longleftrightarrow> (\<forall>b. speed_ok e b D \<longrightarrow> walk (flat_goto b) 0 (lsuf (states D) w) = Some s)"

lemma speed_step_unknown:
  assumes "speed_ok e b D" and "c \<notin> set (se_alphabet e)"
  shows "speed_step e s c = Some (0, False)" "lsuf (states D) (w @ [c]) = []" "outs_at D (w @ [c]) = []"
proof -
  from assms have "code (se_coder e) c = Some None" by (simp add: speed_ok_def code_correct[of "se_alphabet e"])
  then show "speed_step e s c = Some (0, False)" by (simp add: speed_stepBy_def)
  show nil: "lsuf (states D) (w @ [c]) = []"
    by (rule lsuf_unknown) (use assms in \<open>auto simp: speed_ok_def\<close>)
  then show "outs_at D (w @ [c]) = []"
    using outs_at_lsuf[OF dom_subset_states, of D "w @ [c]"] by simp
qed

lemma speed_step_known:
  assumes ok: "speed_ok e b D" and c: "pos (se_alphabet e) c = Some ai"
    and w: "walk (flat_goto b) 0 (lsuf (states D) w) = Some s"
  shows "\<exists>v. speed_step e s c = Some (entryState v, entryHasOutput v) \<and> entry_ok (flat_goto b) D w c v"
proof -
  let ?g = "flat_goto b" and ?A = "se_alphabet e" and ?w = "lsuf (states D) w"
  from ok obtain dfa where dfa: "se_dfa e = Some dfa" "row_ok ?g D ?A dfa s ?w"
    using w unfolding speed_ok_def by blast
  from pos_Some[OF c] have ai: "ai < length ?A" "?A ! ai = c" by simp_all
  with dfa(2) have e: "s * length ?A + ai < length dfa" "entry_ok ?g D ?w c (dfa ! (s * length ?A + ai))"
    unfolding row_ok_def by blast+
  have snoc: "lsuf (states D) (?w @ [c]) = lsuf (states D) (w @ [c])" by (rule lsuf_snoc) simp
  then have "entry_ok ?g D w c (dfa ! (s * length ?A + ai))"
    using e(2) outs_at_lsuf[OF dom_subset_states, of D "?w @ [c]"] outs_at_lsuf[OF dom_subset_states, of D "w @ [c]"]
    by (simp add: entry_ok_def)
  moreover have "code (se_coder e) c = Some (Some ai)" "se_alphaSize e = length ?A"
    using ok c by (simp_all add: speed_ok_def code_correct[of "se_alphabet e"])
  then have "speed_step e s c = Some (entryState (dfa ! (s * length ?A + ai)), entryHasOutput (dfa ! (s * length ?A + ai)))"
    using dfa(1) e(1) by (simp add: speed_stepBy_def go_simps)
  ultimately show ?thesis by blast
qed

lemma speed_step_correct:
  assumes "speed_ok e b D" and "walk (flat_goto b) 0 (lsuf (states D) w) = Some s"
  shows "\<exists>s' h. speed_step e s c = Some (s', h) \<and> walk (flat_goto b) 0 (lsuf (states D) (w @ [c])) = Some s' \<and>
    (h \<longleftrightarrow> outs_at D (w @ [c]) \<noteq> [])"
proof (cases "pos (se_alphabet e) c")
  case None
  then have "c \<notin> set (se_alphabet e)" by (simp add: pos_None)
  from speed_step_unknown[OF assms(1) this] show ?thesis by (intro exI[of _ 0] exI[of _ False]) simp
next
  case (Some ai)
  from speed_step_known[OF assms(1) Some assms(2)] show ?thesis by (auto simp: entry_ok_def)
qed

interpretation speed: flagged_scanner speed_step 0 se_out speed_built speed_rep
proof unfold_locales
  fix e D w s c s' h
  assume built: "speed_built e D"
  then obtain b where b: "speed_ok e b D" by (auto simp: speed_built_def)
  show "speed_rep e D [] 0" by (simp add: speed_rep_def)
  have "distinct (tl (kwords (se_out e)))"
    using b interned_kwords_distinct[of "flat_goto b" 0 "flat_owns b" "se_out e" D "states D"]
    unfolding speed_ok_def flat_linked_def by blast
  then show "distinct (tl (kwords (se_out e)))" .
  assume rep: "speed_rep e D w s"
  with b have w: "walk (flat_goto b) 0 (lsuf (states D) w) = Some s" by (simp add: speed_rep_def)
  from speed_step_correct[OF b w, of c] obtain s1 h1 where st: "speed_step e s c = Some (s1, h1)"
    "h1 \<longleftrightarrow> outs_at D (w @ [c]) \<noteq> []" by blast
  have "speed_rep e D (w @ [c]) s1"
    unfolding speed_rep_def
  proof (intro allI impI)
    fix b'
    assume b': "speed_ok e b' D"
    with rep have "walk (flat_goto b') 0 (lsuf (states D) w) = Some s" by (simp add: speed_rep_def)
    from speed_step_correct[OF b' this, of c] st(1)
    show "walk (flat_goto b') 0 (lsuf (states D) (w @ [c])) = Some s1" by auto
  qed
  with st show "\<exists>s' h. speed_step e s c = Some (s', h) \<and> speed_rep e D (w @ [c]) s' \<and>
      (\<not> h \<longrightarrow> outs_at D (w @ [c]) = [])" by blast
  show "\<exists>ids. chain (se_out e) (int s) ids \<and>
      map (\<lambda>k. (kwords (se_out e) ! k, runeLens (se_out e) ! k)) ids = outs_at D w"
  proof (rule chain_of_linked[OF _ _ _ _ _ dom_subset_states w])
    from b have l: "flat_linked b (se_out e) D" by (simp add: speed_ok_def)
    show "is_trie (flat_goto b) 0 (states D)" "interned (flat_goto b) 0 (flat_owns b) (se_out e) D" "D [] = None"
      using flat_linkedD[OF l] by blast+
    show "\<forall>w s. walk (flat_goto b) 0 w = Some s \<longrightarrow> idx (own (se_out e)) s = Some (flat_owns b s)"
      using l by (auto simp: flat_linked_def idx_def flat_owns_def at_or_def)
    have "flat_link b = idx (outLink (se_out e))"
      using l by (intro ext) (simp add: flat_linked_def flat_link_def idx_def)
    then show "linked (flat_goto b) 0 (states D) D (flat_fail b) (idx (outLink (se_out e))) UNIV"
      using flat_linkedD(4)[OF l] by simp
  qed
  assume "speed_step e s c = Some (s', h)" "h"
  with st show "outs_at D (w @ [c]) \<noteq> []" by simp
qed

section \<open>Build and operations\<close>

lemma speed_build_empty:
  "speed_buildFromKeywords e [] = Some (e\<lparr>se_dfa := None, se_out := empty_outputs, se_numStates := 0, se_trieDepth := 0\<rparr>)"
  by (simp add: speed_buildFromKeywords_def)

text \<open>
  A non-empty keyword set builds when its trie has fewer than \<open>2\<^sup>30\<close> states; past
  that the guard panics.
\<close>

lemma speed_build_correct:
  assumes ks: "ks \<noteq> []" and small: "card (states (dict_of (sort ks))) < 2 ^ 30"
  shows "\<exists>e'. speed_buildFromKeywords e ks = Some e' \<and> speed_built e' (dict_of (sort ks)) \<and>
    se_numStates e' = card (states (dict_of (sort ks))) \<and>
    se_trieDepth e' = Max (length ` states (dict_of (sort ks))) \<and>
    keywordCount (se_out e') = card (dom (dict_of (sort ks)))"
proof -
  define D where "D = dict_of (sort ks)"
  define A where "A = sort (remdups (concat (map runes ks)))"
  from alphabet_correct[OF A_def set_sort] obtain c where c: "buildCoder A = Some c" "coder_for A c"
    "\<forall>v \<in> dom D. set v \<subseteq> set A" by (auto simp: D_def)
  from flat_inserts[of "sort ks"] obtain b where b: "foldM flat_insert (sort ks) newFlatBuild = Some b" "flat_holds b D"
    by (auto simp: D_def)
  from flat_bfs[OF b(2)] obtain root q ord b2
    where r: "idx (fb_nodes b) 0 = Some root"
      "foldM flat_rootChild (sortedChildren (fn_gotoMap root)) ([], b) = Some (q, b)"
      "worklist flat_visit q ([], b) = Some (ord, b2)"
      and k: "flat_keeps (fb_outs b) (map fn_depth (fb_nodes b)) b2 (flat_goto b) (flat_owns b)"
      and l: "linked (flat_goto b) 0 (states D) D (flat_fail b2) (flat_link b2) UNIV"
      and ord: "distinct ord" "set ord = from_level (flat_goto b) 0 1" "sorted (map (node_depth (flat_goto b) 0) ord)"
    by (auto simp: D_def)
  let ?out = "(fb_outs b2)\<lparr>own := map fn_ownID (fb_nodes b2), outLink := map fn_outLink (fb_nodes b2)\<rparr>"
  from k have g: "flat_goto b2 = flat_goto b" "flat_owns b2 = flat_owns b" "fb_outs b2 = fb_outs b"
    "map fn_depth (fb_nodes b2) = map fn_depth (fb_nodes b)"
    "\<And>w s. walk (flat_goto b) 0 w = Some s \<Longrightarrow> s < length (fb_nodes b2)" by (auto simp: flat_keeps_def)
  have len: "length (fb_nodes b2) = length (fb_nodes b)" using map_eq_imp_length_eq[OF g(4)] .
  from b(2) have of: "fs.trie_of b (states D)" and dep: "fs.depths_ok b"
    and int: "interned (flat_goto b) 0 (flat_owns b) (fb_outs b) D" by (auto simp: flat_holds_def)
  have n: "length (fb_nodes b) = card (states D)" using of trie_upto_card by (auto simp: fs.trie_of_def)
  have int2: "interned (flat_goto b) 0 (flat_owns b) ?out D"
    using int interned_cong_out[of "fb_outs b" ?out] g(3) by simp
  have linked: "flat_linked b2 ?out D"
    unfolding flat_linked_def g(1,2) using fs.trie_of_trie[OF of] int2 l g(5) small n len
    by (simp add: D_def)
  have ne: "fb_nodes b2 \<noteq> []" using r(1) len by (auto simp: idx_def)
  let ?z = "replicate (length (fb_nodes b) * length A) (0 :: 32 word)"
  from fillRoot_correct[OF linked, of ?z A] len ne obtain d0
    where d0: "fillRoot ?out (fb_nodes b2 ! 0) A ?z = Some d0" "length d0 = length (fb_nodes b2) * length A"
      "row_ok (flat_goto b2) D A d0 0 []" by auto
  from fillRows_correct[OF linked d0(2,3) ord[folded g(1)]] obtain d
    where d: "foldM (fillRow ?out (fb_nodes b2) A) ord d0 = Some d"
      "\<forall>w s. walk (flat_goto b2) 0 w = Some s \<longrightarrow> row_ok (flat_goto b2) D A d s w" by blast
  define e' where "e' = \<lparr>se_dfa = Some d, se_alphaSize = length A, se_out = ?out, se_alphabet = A,
    se_coder = c, se_numStates = length (fb_nodes b),
    se_trieDepth = foldl (\<lambda>d n. if fn_depth n > d then fn_depth n else d) 0 (fb_nodes b2)\<rparr>"
  have "requirePackableStateCount (length (fb_nodes b)) = Some ()"
    using small n by (simp add: requirePackableStateCount_def D_def)
  then have "speed_buildFromKeywords e ks = Some e'"
    using ks c(1) b(1) r d0(1) d(1) ne
    by (simp add: speed_buildFromKeywords_def A_def[symmetric] Let_def e'_def go_simps)
  moreover have "speed_ok e' b2 D"
    using linked c(2,3) d(2) by (auto simp: speed_ok_def e'_def D_def dest: dict_of_inj)
  moreover have "se_trieDepth e' = Max (length ` states D)"
  proof -
    have "fn_depth ` set (fb_nodes b2) = set (map fn_depth (fb_nodes b))" unfolding g(4)[symmetric] by simp
    also have "\<dots> = flat_depth b ` {0..<length (fb_nodes b)}" by (force simp: set_conv_nth flat_depth_def)
    also have "\<dots> = length ` states D"
      by (rule trie_upto_depths) (use of dep in \<open>simp_all add: fs.trie_of_def fs.depths_ok_def\<close>)
    finally have eq: "fn_depth ` set (fb_nodes b2) = length ` states D" .
    have "length ([] :: rune list) \<in> length ` states D" by (rule imageI) (simp add: states_def)
    then have "insert 0 (length ` states D) = length ` states D" by auto
    with eq show ?thesis by (simp add: e'_def foldl_Max)
  qed
  moreover have "keywordCount (se_out e') = card (dom D)"
    using interned_count[OF int2 fs.trie_of_trie[OF of] dom_subset_states] by (simp add: e'_def)
  moreover have "se_numStates e' = card (states D)" using n by (simp add: e'_def)
  ultimately show ?thesis unfolding D_def speed_built_def by blast
qed

text \<open>The unmasked step of \<^verbatim>\<open>contains\<close> differs only where the scan stops.\<close>

lemma entry_unmasked: "\<not> entryHasOutput v \<Longrightarrow> unat v = entryState v"
proof -
  assume "\<not> entryHasOutput v"
  then have "v AND hasOutputBit = 0" by (simp add: entryHasOutput_def)
  from arg_cong[OF this, of "\<lambda>x. bit x 30"] have no: "\<not> bit v 30"
    by (simp add: bit_and_iff bit_hasOutputBit)
  have "v AND NOT hasOutputBit = v"
  proof (rule bit_word_eqI)
    fix n
    assume "n < LENGTH(32)"
    with no show "bit (v AND NOT hasOutputBit) n \<longleftrightarrow> bit v n"
      by (cases "n = 30") (simp_all add: bit_and_iff bit_not_iff bit_hasOutputBit)
  qed
  then show ?thesis by (simp add: entryState_def)
qed

lemma speed_contains_scan:
  "scanLoop (speed_containsStepBy coded e) hit_stop cs s i a = scanLoop (speed_stepBy coded e) hit_stop cs s i a"
  by (induction cs arbitrary: s i a)
    (auto simp: speed_containsStepBy_def speed_stepBy_def hit_stop_def entry_unmasked
      split: Option.bind_splits option.splits)

text \<open>For a dictionary of ASCII runes the byte scan is the rune scan.\<close>

lemma speed_byte_scan:
  assumes "speed_built e D" and "asciiOnly (se_coder e)" and "\<forall>s i j a. hit s i a = hit s j a"
  shows "scanLoop (speed_byteStep e) hit (map byte text) s i a = scanLoop (speed_step e) hit (runes text) s j a"
proof -
  from assms(1) have "coder_for (se_alphabet e) (se_coder e)" by (auto simp: speed_built_def speed_ok_def)
  note reset = codeByte_reset[OF this assms(2)]
  show ?thesis
    by (rule scanLoop_bytes[where root = 0, OF _ _ _ assms(3)]) (simp_all add: speed_stepBy_def reset)
qed

lemma speed_scan_any:
  assumes "speed_built e D" and "\<forall>s i j a. hit s i a = hit s j a"
  shows "(if asciiOnly (se_coder e) then scanLoop (speed_byteStep e) hit (map byte text) 0 0 a
    else scanLoop (speed_step e) hit (runes text) 0 0 a) = scanLoop (speed_step e) hit (runes text) 0 0 a"
  using speed_byte_scan[OF assms(1) _ assms(2)] by simp

lemma speed_ops:
  assumes built: "speed_built e D"
  shows "speed_find e text = Some (spec_find D text)"
    and "speed_findSet e text = Some (spec_findSet D text)"
    and "speed_findIndex e text = Some (spec_findIndex D text)"
    and "speed_contains e text = Some (spec_contains D text)"
    and "speed_matchString e text emit a = Some (spec_match D text emit a)"
    and "speed_matchStream e nxt emit a = spec_stream D emit nxt a"
proof -
  from built obtain d where dfa: "se_dfa e = Some d" by (auto simp: speed_built_def speed_ok_def)
  show "speed_find e text = Some (spec_find D text)"
    using speed.scan_find[OF built, of "runes text" None] dfa
    by (simp add: speed_find_def speed_scan_any[OF built hit_offsets(1)] spec_find_def append_opt_def)
  show "speed_findSet e text = Some (spec_findSet D text)"
    using speed.scan_set[OF built, of "runes text"] dfa
    by (auto simp: speed_findSet_def speed_scan_any[OF built hit_offsets(2)] spec_findSet_def spec_find_def)
  show "speed_findIndex e text = Some (spec_findIndex D text)"
    using speed.scan_index[OF built, of "runes text" Map.empty] dfa
    by (simp add: speed_findIndex_def spec_findIndex_fold)
  show "speed_contains e text = Some (spec_contains D text)"
    using speed.scan_stop[OF built, of "runes text"] dfa
    unfolding speed_contains_def speed_contains_scan speed_scan_any[OF built hit_offsets(3)]
    by (simp add: spec_contains_def)
  show "speed_matchString e text emit a = Some (spec_match D text emit a)"
    using speed.scan_emit[OF built, of emit "runes text" a] dfa
    by (auto simp: speed_matchString_def spec_match_def split: prod.splits)
  show "speed_matchStream e nxt emit a = spec_stream D emit nxt a"
    using speed.stream_emit[OF built, of emit nxt a] dfa by (simp add: speed_matchStream_def)
qed

section \<open>Properties\<close>

text \<open>
  C3.  The speed engine is correct.  Building a non-empty keyword set whose trie
  has fewer than \<open>2\<^sup>30\<close> states returns, whatever the engine held before, and every
  operation on the result returns what the specification says; this covers the
  packed transition table, the breadth-first fill of its rows, the byte scan
  of pure-ASCII dictionaries and the unmasked presence scan.
\<close>

theorem speed_engine_correct:
  assumes "ks \<noteq> []" and "card (states (dict_of (sort ks))) < 2 ^ 30"
  shows "\<exists>e'. speed_buildFromKeywords e ks = Some e' \<and>
    (\<forall>text. speed_find e' text = Some (spec_find (dict_of (sort ks)) text) \<and>
       speed_findSet e' text = Some (spec_findSet (dict_of (sort ks)) text) \<and>
       speed_findIndex e' text = Some (spec_findIndex (dict_of (sort ks)) text) \<and>
       speed_contains e' text = Some (spec_contains (dict_of (sort ks)) text) \<and>
       (\<forall>emit (a :: 'a). speed_matchString e' text emit a = Some (spec_match (dict_of (sort ks)) text emit a))) \<and>
    (\<forall>nxt emit (a :: 'a). speed_matchStream e' nxt emit a = spec_stream (dict_of (sort ks)) emit nxt a)"
proof -
  from speed_build_correct[OF assms, of e] obtain e' where e': "speed_buildFromKeywords e ks = Some e'"
    "speed_built e' (dict_of (sort ks))" by blast
  show ?thesis by (intro exI[of _ e'] conjI allI) (simp_all add: e'(1) speed_ops[OF e'(2)])
qed

theorem speed_engine_correct_witness:
  "\<exists>e'. speed_buildFromKeywords newSpeedEngine [''she'', ''hers'', ''he''] = Some e' \<and>
     speed_find e' ''ushers'' = Some [''she'', ''he'', ''hers''] \<and> speed_contains e' ''xyz'' = Some False"
proof -
  have sort: "sort [''she'', ''hers'', ''he''] = [''he'', ''hers'', ''she'']" by code_simp
  from speed_engine_correct[of "[''she'', ''hers'', ''he'']" newSpeedEngine] states_small_witness obtain e'
    where "speed_buildFromKeywords newSpeedEngine [''she'', ''hers'', ''he''] = Some e'"
      "speed_find e' ''ushers'' = Some (spec_find (dict_of [''he'', ''hers'', ''she'']) ''ushers'')"
      "speed_contains e' ''xyz'' = Some (spec_contains (dict_of [''he'', ''hers'', ''she'']) ''xyz'')"
    unfolding sort by blast
  moreover have "spec_find (dict_of [''he'', ''hers'', ''she'']) ''ushers'' = [''she'', ''he'', ''hers'']"
    "spec_contains (dict_of [''he'', ''hers'', ''she'']) ''xyz'' = False" by code_simp+
  ultimately show ?thesis by simp
qed

text \<open>
  The state-count guard of the speed engine is exact: a keyword set whose trie
  has \<open>2\<^sup>30\<close> states or more makes the build panic, rather than truncate a state id
  in a packed entry.
\<close>

theorem speed_build_guard:
  assumes "ks \<noteq> []" and "card (states (dict_of (sort ks))) \<ge> 2 ^ 30"
  shows "speed_buildFromKeywords e ks = None"
proof -
  from flat_inserts[of "sort ks"] obtain b where b: "foldM flat_insert (sort ks) newFlatBuild = Some b"
    "flat_holds b (dict_of (sort ks))" by blast
  then have "length (fb_nodes b) = card (states (dict_of (sort ks)))"
    using trie_upto_card by (auto simp: flat_holds_def fs.trie_of_def)
  then have "requirePackableStateCount (length (fb_nodes b)) = None"
    using assms(2) by (simp add: requirePackableStateCount_def)
  with assms(1) b(1) show ?thesis by (auto simp: speed_buildFromKeywords_def Let_def split: Option.bind_splits)
qed

lemma card_states_single:
  "card (states (dict_of [replicate (Suc n) c])) = Suc (length (runes (replicate (Suc n) c)))"
proof -
  have "states (dict_of [replicate (Suc n) c]) = set (prefixes (runes (replicate (Suc n) c)))"
    by (auto simp: states_def dom_dict_of)
  then show ?thesis by (simp only: distinct_card[OF distinct_prefixes] length_prefixes)
qed

theorem speed_build_guard_witness:
  "speed_buildFromKeywords newSpeedEngine [replicate (Suc (2 ^ 30)) CHR ''a''] = None"
proof (rule speed_build_guard)
  have "runes (replicate (Suc n) CHR ''a'') = replicate (Suc n) 97" for n
    by (simp add: runes_ascii byte_def RuneSelf_def)
  moreover have "sort [xs] = [xs]" for xs :: gostring by simp
  ultimately show "2 ^ 30 \<le> card (states (dict_of (sort [replicate (Suc (2 ^ 30)) CHR ''a''])))"
    by (simp only: card_states_single length_replicate)
qed simp

end
