(* ===== verification/Dat_Engine.thy ===== *)
theory Dat_Engine
  imports Alphabet Presets
begin

text \<open>
  \<^verbatim>\<open>internal/engine/engine_dat.go\<close>, the double-array trie of \<^verbatim>\<open>PresetBalanced\<close>: the
  children of a state lie at \<open>base[state] + code\<close>, and \<open>check\<close> names the parent of
  each occupied position.  Position 0 is a sentinel, the root is position 1.

  The keywords arrive in an unspecified order, and the children of a temporary
  node are ranged over twice; both orders are arguments, of which only
  \<open>edge_order_ok\<close> is used.  Positions are unbounded here; the source keeps them in
  \<open>int32\<close> and notes that the allocation fails first.
\<close>

type_synonym edge_order = "nat \<Rightarrow> (rune \<times> nat) list \<Rightarrow> (rune \<times> nat) list"

definition edge_order_ok :: "edge_order \<Rightarrow> bool" where
  "edge_order_ok ord \<longleftrightarrow> (\<forall>s es. mset (ord s es) = mset es)"

section \<open>The arrays\<close>

record doubleArrayTrie =
  dt_base :: "int list"
  dt_check :: "int list"
  dt_fail :: "nat list"
  dt_out :: outputs
  dt_hasOutput :: "bool list"
  dt_depth :: "nat list"
  dt_trieDepth :: nat
  dt_size :: nat
  dt_cap :: nat
  dt_runes :: "rune list"
  dt_coder :: alphabetCoder

definition datInitialCap :: nat where "datInitialCap = 1024"
definition datRootPos :: nat where "datRootPos = 1"

definition newDoubleArrayTrie :: doubleArrayTrie where
  "newDoubleArrayTrie =
     \<lparr>dt_base = replicate datInitialCap 0, dt_check = replicate datInitialCap 0,
      dt_fail = replicate datInitialCap 0, dt_out = empty_outputs, dt_hasOutput = [],
      dt_depth = replicate datInitialCap 0, dt_trieDepth = 0, dt_size = datRootPos + 1,
      dt_cap = datInitialCap, dt_runes = [],
      dt_coder = \<lparr>index = [], asciiCode = replicate 128 0, asciiOnly = False\<rparr>\<rparr>"

text \<open>\<^verbatim>\<open>make\<close> a longer array and \<^verbatim>\<open>copy\<close> the old one into it.\<close>

definition grown :: "nat \<Rightarrow> 'a \<Rightarrow> 'a list \<Rightarrow> 'a list" where
  "grown n z xs = take n xs @ replicate (n - length xs) z"

definition expand :: "doubleArrayTrie \<Rightarrow> doubleArrayTrie" where
  "expand d =
     (let newCap = dt_cap d * 2
      in d\<lparr>dt_base := grown newCap 0 (dt_base d), dt_check := grown newCap 0 (dt_check d),
           dt_fail := grown newCap 0 (dt_fail d), dt_depth := grown newCap 0 (dt_depth d),
           dt_cap := newCap\<rparr>)"

partial_function (option) ensureCapacity :: "doubleArrayTrie \<Rightarrow> nat \<Rightarrow> doubleArrayTrie option" where
  "ensureCapacity d needed = (if needed \<ge> dt_cap d then ensureCapacity (expand d) needed else Some d)"

declare ensureCapacity.simps [code]

text \<open>
  The inner loop of \<^verbatim>\<open>findBase\<close>: whether no code collides at this base.  It may
  grow the arrays on the way, whatever the answer.
\<close>

fun baseFits :: "doubleArrayTrie \<Rightarrow> int \<Rightarrow> nat list \<Rightarrow> (doubleArrayTrie \<times> bool) option" where
  "baseFits d base [] = Some (d, True)"
| "baseFits d base (cd # codes) =
     (let pos = base + int cd;
          d1 = (if pos \<ge> int (dt_cap d) then expand d else d)
      in if pos < 0 \<or> pos = 0 then Some (d1, False)
         else do {
           c \<leftarrow> idxi (dt_check d1) pos;
           if c \<noteq> 0 then Some (d1, False) else baseFits d1 base codes
         })"

partial_function (option) findBaseFrom ::
  "doubleArrayTrie \<Rightarrow> nat list \<Rightarrow> int \<Rightarrow> (doubleArrayTrie \<times> int) option" where
  "findBaseFrom d codes base = do {
     (d', fits) \<leftarrow> baseFits d base codes;
     if fits then Some (d', base) else findBaseFrom d' codes (base + 1)
   }"

declare findBaseFrom.simps [code]

definition findBase :: "doubleArrayTrie \<Rightarrow> nat list \<Rightarrow> (doubleArrayTrie \<times> int) option" where
  "findBase d codes =
     (case codes of
        [] \<Rightarrow> Some (d, 1)
      | c # cs \<Rightarrow>
          (let minCode = foldl (\<lambda>m c. if c < m then c else m) c cs
           in findBaseFrom d codes (int (datRootPos + 1) - int minCode)))"

section \<open>The temporary trie\<close>

text \<open>\<^verbatim>\<open>tmpChildren\<close>, \<^verbatim>\<open>tmpOwn\<close> and \<^verbatim>\<open>nextID\<close>.  Reading a missing map entry gives a nil map.\<close>

record tmpTrie =
  tmpChildren :: "nat \<rightharpoonup> (rune \<times> nat) list"
  tmpOwn :: "nat \<rightharpoonup> gostring"
  nextID :: nat

definition newTmpTrie :: tmpTrie where
  "newTmpTrie = \<lparr>tmpChildren = [0 \<mapsto> []], tmpOwn = Map.empty, nextID = 1\<rparr>"

definition children_of :: "tmpTrie \<Rightarrow> nat \<Rightarrow> (rune \<times> nat) list" where
  "children_of t s = (case tmpChildren t s of None \<Rightarrow> [] | Some m \<Rightarrow> m)"

definition tmp_next :: "tmpTrie \<Rightarrow> nat \<Rightarrow> rune \<Rightarrow> nat option option" where
  "tmp_next t cur ch = Some (map_of (children_of t cur) ch)"

definition tmp_alloc :: "tmpTrie \<Rightarrow> nat \<Rightarrow> rune \<Rightarrow> (tmpTrie \<times> nat) option" where
  "tmp_alloc t cur ch =
     Some (t\<lparr>tmpChildren := (tmpChildren t)(cur \<mapsto> AList.update ch (nextID t) (children_of t cur), nextID t \<mapsto> []),
             nextID := nextID t + 1\<rparr>,
           nextID t)"

definition tmp_insert :: "gostring \<Rightarrow> tmpTrie \<Rightarrow> tmpTrie option" where
  "tmp_insert kw t =
     (if kw = [] then Some t
      else do {
        (t', cur) \<leftarrow> insertRunes tmp_next tmp_alloc t 0 (runes kw);
        Some (t'\<lparr>tmpOwn := (tmpOwn t')(cur \<mapsto> kw)\<rparr>)
      })"

section \<open>Placing the states\<close>

text \<open>\<^verbatim>\<open>dat.index[ch]\<close>: a missing key reads as 0.\<close>

definition indexOf :: "doubleArrayTrie \<Rightarrow> rune \<Rightarrow> nat" where
  "indexOf d ch = (case map_of (index (dt_coder d)) ch of None \<Rightarrow> 0 | Some i \<Rightarrow> i)"

text \<open>
  The body of the loop over the children of \<open>parent\<close>, given the base found for
  them.  The state is the queue, the trie and \<^verbatim>\<open>datPos\<close>.
\<close>

definition placeChild ::
  "tmpTrie \<Rightarrow> int \<Rightarrow> nat \<Rightarrow> rune \<times> nat \<Rightarrow> nat list \<times> doubleArrayTrie \<times> nat list \<Rightarrow>
   (nat list \<times> doubleArrayTrie \<times> nat list) option" where
  "placeChild t base parent edge qdp =
     (case (edge, qdp) of ((ch, childID), (queue, d, datPos)) \<Rightarrow>
        (let pos = base + int (indexOf d ch) in
         if pos < 0 then None
         else do {
           d1 \<leftarrow> ensureCapacity d (nat pos + 1);
           pp \<leftarrow> idx datPos parent;
           check \<leftarrow> updi (dt_check d1) pos (int pp);
           dp \<leftarrow> idx (dt_depth d1) pp;
           depth \<leftarrow> updi (dt_depth d1) pos (dp + 1);
           datPos' \<leftarrow> upd datPos childID (nat pos);
           out \<leftarrow> (case tmpOwn t childID of
               None \<Rightarrow> Some (dt_out d1)
             | Some kw \<Rightarrow>
                 if kw = [] then Some (dt_out d1)
                 else (let own1 = own (dt_out d1) @ replicate (nat pos + 1 - length (own (dt_out d1))) 0;
                           (o1, id) = assignID ((dt_out d1)\<lparr>own := own1\<rparr>) kw
                       in do { own2 \<leftarrow> updi (own o1) pos id; Some (o1\<lparr>own := own2\<rparr>) }));
           Some (queue @ [childID],
             d1\<lparr>dt_check := check, dt_depth := depth,
                dt_trieDepth := (if dp + 1 > dt_trieDepth d1 then dp + 1 else dt_trieDepth d1),
                dt_out := out,
                dt_size := (if nat pos \<ge> dt_size d1 then nat pos + 1 else dt_size d1)\<rparr>,
             datPos')
         }))"

text \<open>
  One iteration of the loop over the queue.  \<open>ord1\<close> is the order of the range that
  collects the codes, \<open>ord2\<close> that of the range that places the children.
\<close>

definition placeChildren ::
  "edge_order \<Rightarrow> edge_order \<Rightarrow> tmpTrie \<Rightarrow> nat \<Rightarrow> doubleArrayTrie \<times> nat list \<Rightarrow>
   (nat list \<times> (doubleArrayTrie \<times> nat list)) option" where
  "placeChildren ord1 ord2 t parent dp =
     (case dp of (d, datPos) \<Rightarrow>
        (let children = children_of t parent in
         if children = [] then Some ([], (d, datPos))
         else do {
           (d1, base) \<leftarrow> findBase d (map (\<lambda>(ch, _). indexOf d ch) (ord1 parent children));
           pp \<leftarrow> idx datPos parent;
           bases \<leftarrow> upd (dt_base d1) pp base;
           foldM (placeChild t base parent) (ord2 parent children)
             ([], d1\<lparr>dt_base := bases\<rparr>, datPos)
         }))"

section \<open>Transitions\<close>

text \<open>0 means there is no transition.\<close>

definition gotoStateByCode :: "doubleArrayTrie \<Rightarrow> nat \<Rightarrow> nat \<Rightarrow> nat option" where
  "gotoStateByCode d state cd = do {
     b \<leftarrow> idx (dt_base d) state;
     (let pos = b + int cd
      in if pos < 0 \<or> pos \<ge> int (dt_size d) then Some 0
         else do {
           c \<leftarrow> idxi (dt_check d) pos;
           Some (if c \<noteq> int state then 0 else nat pos)
         })
   }"

partial_function (option) followFailByCode :: "doubleArrayTrie \<Rightarrow> nat \<Rightarrow> nat \<Rightarrow> nat option" where
  "followFailByCode d state cd = do {
     nxt \<leftarrow> gotoStateByCode d state cd;
     if state \<noteq> datRootPos \<and> nxt = 0
     then do { f \<leftarrow> idx (dt_fail d) state; followFailByCode d f cd }
     else Some (if nxt = 0 then datRootPos else nxt)
   }"

declare followFailByCode.simps [code]

section \<open>Failure links\<close>

abbreviation dat_fail :: "doubleArrayTrie \<Rightarrow> nat \<Rightarrow> nat option" where
  "dat_fail d \<equiv> idx (dt_fail d)"

abbreviation dat_own :: "doubleArrayTrie \<Rightarrow> nat \<Rightarrow> nat option" where
  "dat_own d \<equiv> idx (own (dt_out d))"

abbreviation dat_link :: "doubleArrayTrie \<Rightarrow> nat \<Rightarrow> int option" where
  "dat_link d \<equiv> idx (outLink (dt_out d))"

definition dat_setLinks :: "doubleArrayTrie \<Rightarrow> nat \<Rightarrow> nat \<Rightarrow> int \<Rightarrow> doubleArrayTrie option" where
  "dat_setLinks d s f l = do {
     fs \<leftarrow> upd (dt_fail d) s f;
     ol \<leftarrow> upd (outLink (dt_out d)) s l;
     Some (d\<lparr>dt_fail := fs, dt_out := (dt_out d)\<lparr>outLink := ol\<rparr>\<rparr>)
   }"

text \<open>The loop that finds the root's children by their \<^verbatim>\<open>check\<close> entries.\<close>

definition dat_rootChild :: "nat \<Rightarrow> nat list \<times> doubleArrayTrie \<Rightarrow> (nat list \<times> doubleArrayTrie) option" where
  "dat_rootChild i qd =
     (case qd of (queue, d) \<Rightarrow> do {
        c \<leftarrow> idx (dt_check d) i;
        if c = int datRootPos
        then do { fs \<leftarrow> upd (dt_fail d) i datRootPos; Some (queue @ [i], d\<lparr>dt_fail := fs\<rparr>) }
        else Some (queue, d)
      })"

text \<open>The loop over the codes in one iteration of the breadth-first pass.\<close>

definition dat_linkCode :: "nat \<Rightarrow> nat \<Rightarrow> nat list \<times> doubleArrayTrie \<Rightarrow> (nat list \<times> doubleArrayTrie) option" where
  "dat_linkCode state cd qd =
     (case qd of (queue, d) \<Rightarrow> do {
        nxt \<leftarrow> gotoStateByCode d state cd;
        if nxt = 0 then Some (queue, d)
        else linkChild dat_fail dat_own dat_link dat_setLinks followFailByCode state (cd, nxt) (queue, d)
      })"

definition dat_visit :: "nat \<Rightarrow> doubleArrayTrie \<Rightarrow> (nat list \<times> doubleArrayTrie) option" where
  "dat_visit state d = foldM (dat_linkCode state) [0..<length (dt_runes d)] ([], d)"

definition computeFailLinks :: "doubleArrayTrie \<Rightarrow> doubleArrayTrie option" where
  "computeFailLinks d = do {
     (queue, d1) \<leftarrow> foldM dat_rootChild [datRootPos + 1..<dt_size d] ([], d);
     fs \<leftarrow> upd (dt_fail d1) datRootPos datRootPos;
     worklist dat_visit queue (d1\<lparr>dt_fail := fs\<rparr>)
   }"

section \<open>The build\<close>

definition dat_buildFromKeywords ::
  "edge_order \<Rightarrow> edge_order \<Rightarrow> gostring list \<Rightarrow> doubleArrayTrie option" where
  "dat_buildFromKeywords ord1 ord2 keywords =
     (let rs = sort (remdups (concat (map runes keywords))) in do {
        coder \<leftarrow> buildCoder rs;
        t \<leftarrow> foldM tmp_insert keywords newTmpTrie;
        d0 \<leftarrow> ensureCapacity (newDoubleArrayTrie\<lparr>dt_runes := rs, dt_coder := coder\<rparr>) (nextID t + 2);
        check \<leftarrow> upd (dt_check d0) 0 (-1);
        depth \<leftarrow> upd (dt_depth d0) datRootPos 0;
        datPos \<leftarrow> upd (replicate (nextID t) 0) 0 datRootPos;
        (d1, _) \<leftarrow> worklist (placeChildren ord1 ord2 t) [0] (d0\<lparr>dt_check := check, dt_depth := depth\<rparr>, datPos);
        (let n = dt_size d1;
             own' = (if length (own (dt_out d1)) < n then grown n 0 (own (dt_out d1)) else own (dt_out d1));
             d2 = d1\<lparr>dt_base := take n (dt_base d1), dt_check := take n (dt_check d1),
                    dt_fail := take n (dt_fail d1), dt_depth := take n (dt_depth d1),
                    dt_out := (dt_out d1)\<lparr>own := own', outLink := replicate n outNone\<rparr>\<rparr> in do {
           d3 \<leftarrow> computeFailLinks d2;
           flags \<leftarrow> foldM (\<lambda>s fs. do {
               k \<leftarrow> idx (own (dt_out d3)) s;
               l \<leftarrow> idx (outLink (dt_out d3)) s;
               Some (fs @ [k \<noteq> 0 \<or> l \<noteq> outNone]) }) [0..<dt_size d3] [];
           Some (d3\<lparr>dt_hasOutput := flags\<rparr>)
         })
      })"

definition dat_memoryBytes :: "doubleArrayTrie \<Rightarrow> nat" where
  "dat_memoryBytes d =
     (length (dt_base d) + length (dt_check d) + length (dt_fail d) + length (dt_depth d)) * 4 +
     outputs_memoryBytes (dt_out d) + length (dt_hasOutput d)"

definition dat_maxDepth :: "doubleArrayTrie \<Rightarrow> nat" where
  "dat_maxDepth d = dt_trieDepth d"

section \<open>The temporary trie is the trie of the keywords\<close>

definition tmp_goto :: "tmpTrie \<Rightarrow> goto" where
  "tmp_goto t s = map_of (children_of t s)"

definition tmp_wf :: "tmpTrie \<Rightarrow> bool" where
  "tmp_wf t \<longleftrightarrow> 0 < nextID t \<and> (\<forall>s \<ge> nextID t. tmpChildren t s = None \<and> tmpOwn t s = None) \<and>
     (\<forall>s. distinct (map fst (children_of t s)))"

interpretation tt: trie_store tmp_next tmp_alloc tmp_goto nextID tmp_wf tmpOwn
proof unfold_locales
  fix t s c
  assume wf: "tmp_wf t" and s: "s < nextID t"
  show "tmp_next t s c = Some (tmp_goto t s c)" by (simp add: tmp_next_def tmp_goto_def)
  let ?n = "nextID t"
  define t1 where "t1 = t\<lparr>tmpChildren := (tmpChildren t)(s \<mapsto> AList.update c ?n (children_of t s), ?n \<mapsto> []), nextID := ?n + 1\<rparr>"
  have c1: "children_of t1 x = (if x = ?n then [] else if x = s then AList.update c ?n (children_of t s) else children_of t x)" for x
    by (auto simp: children_of_def t1_def)
  have out: "children_of t ?n = []" using wf by (simp add: children_of_def tmp_wf_def)
  have "tmp_goto t1 x = ((tmp_goto t)(s := (tmp_goto t s)(c \<mapsto> ?n))) x" for x
    using s out by (auto simp: tmp_goto_def c1 update_conv')
  moreover have "tmp_wf t1" using wf s by (auto simp: tmp_wf_def c1 distinct_update) (auto simp: t1_def)
  ultimately show "\<exists>t'. tmp_alloc t s c = Some (t', ?n) \<and> tmp_wf t' \<and> nextID t' = Suc ?n \<and>
      tmp_goto t' = (tmp_goto t)(s := (tmp_goto t s)(c \<mapsto> ?n)) \<and> tmpOwn t' = tmpOwn t"
    by (intro exI[of _ t1]) (auto simp: tmp_alloc_def t1_def)
qed

definition tmp_holds :: "tmpTrie \<Rightarrow> dict \<Rightarrow> bool" where
  "tmp_holds t D \<longleftrightarrow> tt.trie_of t (states D) \<and> (\<forall>w s. walk (tmp_goto t) 0 w = Some s \<longrightarrow> tmpOwn t s = D w)"

lemma tmp_holds_new: "tmp_holds newTmpTrie Map.empty"
proof -
  have c: "children_of newTmpTrie s = []" for s by (simp add: children_of_def newTmpTrie_def)
  then have g: "tmp_goto newTmpTrie = (\<lambda>_ _. None)" by (intro ext) (simp add: tmp_goto_def)
  have "tmp_wf newTmpTrie" unfolding tmp_wf_def c by (simp add: newTmpTrie_def)
  then show ?thesis using trie_upto_init by (simp add: tmp_holds_def tt.trie_of_def g) (simp add: newTmpTrie_def)
qed

lemma tmp_insert_correct:
  assumes "tmp_holds t D" and kw: "kw \<noteq> []"
  shows "\<exists>t'. tmp_insert kw t = Some t' \<and> tmp_holds t' (D(runes kw \<mapsto> kw))"
proof -
  let ?g = tmp_goto
  from assms(1) have t: "tt.trie_of t (states D)" "\<forall>w s. walk (?g t) 0 w = Some s \<longrightarrow> tmpOwn t s = D w"
    by (auto simp: tmp_holds_def)
  from tt.insertRunes_correct[OF t(1), of "[]" 0 "runes kw"] obtain t1 s
    where ins: "insertRunes tmp_next tmp_alloc t 0 (runes kw) = Some (t1, s)"
      and t1: "tt.trie_of t1 (states D \<union> {u. prefix u (runes kw)})"
      and s: "walk (?g t1) 0 (runes kw) = Some s"
      and keep: "\<forall>u x. walk (?g t) 0 u = Some x \<longrightarrow> walk (?g t1) 0 u = Some x"
      and obs: "tmpOwn t1 = tmpOwn t" by auto
  note trie = tt.trie_of_trie[OF t(1)] tt.trie_of_trie[OF t1]
  have old: "tmpOwn t x = D w" if w: "walk (?g t1) 0 w = Some x" for w x
  proof (cases "\<exists>y. walk (?g t) 0 w = Some y")
    case True
    with w keep have "walk (?g t) 0 w = Some x" by force
    with t(2) show ?thesis by blast
  next
    case False
    then have none: "D w = None" using is_trie_walk[OF trie(1)] dom_subset_states by blast
    have "\<not> x < nextID t"
    proof
      assume "x < nextID t"
      with t(1) obtain v where v: "walk (?g t) 0 v = Some x" unfolding tt.trie_of_def trie_upto_def by blast
      with keep have "walk (?g t1) 0 v = Some x" by blast
      with is_trie_inj[OF trie(2) this w] v False show False by blast
    qed
    with tt.trie_of_wf[OF t(1)] have "tmpOwn t x = None" by (simp add: tmp_wf_def)
    with none show ?thesis by simp
  qed
  let ?t = "t1\<lparr>tmpOwn := (tmpOwn t1)(s \<mapsto> kw)\<rparr>"
  have c: "children_of ?t x = children_of t1 x" for x by (simp add: children_of_def)
  then have g: "?g ?t = ?g t1" by (intro ext) (simp add: tmp_goto_def)
  have "tmp_wf ?t" using tt.trie_of_wf[OF t1] tt.trie_of_less[OF t1 s] by (auto simp: tmp_wf_def c)
  with t1 have "tt.trie_of ?t (states (D(runes kw \<mapsto> kw)))" by (simp add: tt.trie_of_def g states_upd)
  moreover have "tmpOwn ?t x = (D(runes kw \<mapsto> kw)) w" if "walk (?g ?t) 0 w = Some x" for w x
  proof -
    from that have "walk (?g t1) 0 w = Some x" unfolding g .
    with old[OF this] walk_eq_iff[OF trie(2) this s] show ?thesis by (simp add: obs)
  qed
  ultimately have "tmp_holds ?t (D(runes kw \<mapsto> kw))" by (simp add: tmp_holds_def)
  with ins kw show ?thesis by (simp add: tmp_insert_def)
qed

lemma tmp_inserts: "\<exists>t. foldM tmp_insert ks newTmpTrie = Some t \<and> tmp_holds t (dict_of ks)"
proof (rule foldM_invariant)
  fix ys y zs t
  assume "tmp_holds t (dict_of ys)"
  with tmp_insert_correct[of t "dict_of ys" y]
  show "\<exists>t'. tmp_insert y t = Some t' \<and> tmp_holds t' (dict_of (ys @ [y]))"
    by (cases "y = []") (auto simp: dict_of_snoc tmp_insert_def)
qed (simp add: tmp_holds_new)

section \<open>Growing the arrays\<close>

text \<open>Growing keeps every entry and adds empty positions.\<close>

definition dat_arrays :: "doubleArrayTrie \<Rightarrow> bool" where
  "dat_arrays d \<longleftrightarrow> length (dt_base d) = dt_cap d \<and> length (dt_check d) = dt_cap d \<and>
     length (dt_fail d) = dt_cap d \<and> length (dt_depth d) = dt_cap d \<and> 2 \<le> dt_size d \<and> dt_size d \<le> dt_cap d"

definition extends :: "doubleArrayTrie \<Rightarrow> doubleArrayTrie \<Rightarrow> bool" where
  "extends d d' \<longleftrightarrow> dat_arrays d' \<and> dt_cap d \<le> dt_cap d' \<and>
     at_or 0 (dt_base d') = at_or 0 (dt_base d) \<and> at_or 0 (dt_check d') = at_or 0 (dt_check d) \<and>
     at_or 0 (dt_fail d') = at_or 0 (dt_fail d) \<and> at_or 0 (dt_depth d') = at_or 0 (dt_depth d) \<and>
     dt_out d' = dt_out d \<and> dt_trieDepth d' = dt_trieDepth d \<and> dt_size d' = dt_size d \<and>
     dt_runes d' = dt_runes d \<and> dt_coder d' = dt_coder d"

lemma at_or_grown: "length xs \<le> n \<Longrightarrow> at_or z (grown n z xs) = at_or z xs"
  by (rule ext) (auto simp: at_or_def grown_def nth_append)

lemma length_grown [simp]: "length (grown n z xs) = n"
  by (simp add: grown_def)

lemma extends_refl: "dat_arrays d \<Longrightarrow> extends d d"
  by (simp add: extends_def)

lemma extends_trans: "extends d d' \<Longrightarrow> extends d' d'' \<Longrightarrow> extends d d''"
  by (auto simp: extends_def)

lemma extends_expand: "dat_arrays d \<Longrightarrow> extends d (expand d)"
  by (auto simp: extends_def expand_def Let_def dat_arrays_def at_or_grown)

lemma dt_cap_expand [simp]: "dt_cap (expand d) = dt_cap d * 2"
  by (simp add: expand_def Let_def)

lemma ensureCapacity_correct:
  assumes "dat_arrays d"
  shows "\<exists>d'. ensureCapacity d n = Some d' \<and> extends d d' \<and> n < dt_cap d'"
  using assms
proof (induction "Suc n - dt_cap d" arbitrary: d rule: less_induct)
  case less
  show ?case
  proof (cases "n \<ge> dt_cap d")
    case True
    have "0 < dt_cap d" using less.prems by (auto simp: dat_arrays_def)
    with True have "Suc n - dt_cap (expand d) < Suc n - dt_cap d" by simp
    moreover have e: "extends d (expand d)" by (rule extends_expand[OF less.prems])
    ultimately obtain d' where "ensureCapacity (expand d) n = Some d'" "extends (expand d) d'" "n < dt_cap d'"
      using less.hyps[of "expand d"] by (auto simp: extends_def)
    with e True show ?thesis by (subst ensureCapacity.simps) (auto intro: extends_trans)
  next
    case False
    then show ?thesis using extends_refl[OF less.prems] by (subst ensureCapacity.simps) simp
  qed
qed

section \<open>Finding a base\<close>

abbreviation chk :: "doubleArrayTrie \<Rightarrow> nat \<Rightarrow> int" where
  "chk d \<equiv> at_or 0 (dt_check d)"

lemma baseFits_correct:
  assumes "dat_arrays d" and "\<forall>c \<in> set codes. 2 \<le> base + int c \<and> base + int c < 2 * int (dt_cap d)"
  shows "\<exists>d' ok. baseFits d base codes = Some (d', ok) \<and> extends d d' \<and>
    (ok \<longleftrightarrow> (\<forall>c \<in> set codes. chk d (nat (base + int c)) = 0)) \<and>
    (ok \<longrightarrow> (\<forall>c \<in> set codes. base + int c < int (dt_cap d')))"
  using assms
proof (induction codes arbitrary: d)
  case Nil
  then show ?case by (intro exI[of _ d] exI[of _ True]) (simp add: extends_refl)
next
  case (Cons c cs)
  let ?p = "base + int c"
  define d1 where "d1 = (if ?p \<ge> int (dt_cap d) then expand d else d)"
  have e1: "extends d d1" using Cons.prems(1) by (simp add: d1_def extends_expand extends_refl)
  then have a1: "dat_arrays d1" and cap: "dt_cap d \<le> dt_cap d1" and ck: "chk d1 = chk d" by (auto simp: extends_def)
  have p: "2 \<le> ?p" "?p < int (dt_cap d1)" using Cons.prems(2) by (auto simp: d1_def)
  have i: "idxi (dt_check d1) ?p = Some (chk d (nat ?p))"
    using p a1 unfolding ck[symmetric] by (simp add: idxi_def at_or_def dat_arrays_def)
  show ?case
  proof (cases "chk d (nat ?p) = 0")
    case False
    with i p e1 show ?thesis
      by (intro exI[of _ d1] exI[of _ False]) (simp add: Let_def d1_def[symmetric])
  next
    case True
    have "\<forall>c \<in> set cs. 2 \<le> base + int c \<and> base + int c < 2 * int (dt_cap d1)"
      using Cons.prems(2) cap by force
    from Cons.IH[OF a1 this] obtain d' ok where r: "baseFits d1 base cs = Some (d', ok)" "extends d1 d'"
      "ok \<longleftrightarrow> (\<forall>c \<in> set cs. chk d (nat (base + int c)) = 0)"
      "ok \<longrightarrow> (\<forall>c \<in> set cs. base + int c < int (dt_cap d'))" by (auto simp: ck)
    have "int (dt_cap d1) \<le> int (dt_cap d')" using r(2) by (simp add: extends_def)
    with True i p r e1 show ?thesis by (auto simp: Let_def d1_def[symmetric] intro: extends_trans)
  qed
qed

lemma foldl_min: "foldl (\<lambda>m c. if c < m then c else m) m cs = Min (insert m (set cs))" for m :: nat
proof -
  have "foldl (\<lambda>m c. if c < m then c else m) m cs = fold min cs m"
    by (induction cs arbitrary: m) (auto simp: min_def)
  also have "\<dots> = Min (set (m # cs))" by (rule Min.set_eq_fold[symmetric])
  finally show ?thesis by simp
qed

text \<open>
  The search ends: once the smallest code lands on \<open>size\<close>, no position is taken.
  One doubling per position is enough because no code exceeds the capacity.
\<close>

lemma findBaseFrom_correct:
  assumes "dat_arrays d" and free: "\<forall>p \<ge> dt_size d. chk d p = 0"
    and codes: "mc \<in> set codes" "\<forall>c \<in> set codes. mc \<le> c \<and> c < dt_cap d"
    and base: "2 \<le> base + int mc" "base + int mc \<le> int (dt_size d)"
  shows "\<exists>d' b. findBaseFrom d codes base = Some (d', b) \<and> extends d d' \<and> 2 \<le> b + int mc \<and>
    (\<forall>c \<in> set codes. chk d (nat (b + int c)) = 0 \<and> b + int c < int (dt_cap d'))"
  using assms
proof (induction "nat (int (dt_size d) - (base + int mc))" arbitrary: d base rule: less_induct)
  case less
  have size: "dt_size d \<le> dt_cap d" using less.prems(1) by (simp add: dat_arrays_def)
  have "\<forall>c \<in> set codes. 2 \<le> base + int c \<and> base + int c < 2 * int (dt_cap d)"
    using less.prems(4,5,6) size by force
  from baseFits_correct[OF less.prems(1) this] obtain d' ok where r: "baseFits d base codes = Some (d', ok)"
    "extends d d'" "ok \<longleftrightarrow> (\<forall>c \<in> set codes. chk d (nat (base + int c)) = 0)"
    "ok \<longrightarrow> (\<forall>c \<in> set codes. base + int c < int (dt_cap d'))" by blast
  show ?case
  proof (cases ok)
    case True
    with r less.prems(5) show ?thesis by (subst findBaseFrom.simps) auto
  next
    case False
    have "base + int mc \<noteq> int (dt_size d)"
    proof
      assume eq: "base + int mc = int (dt_size d)"
      have "chk d (nat (base + int c)) = 0" if "c \<in> set codes" for c
      proof -
        have "int mc \<le> int c" using less.prems(4) that by simp
        with eq have "int (dt_size d) \<le> base + int c" by linarith
        then have "dt_size d \<le> nat (base + int c)" by linarith
        with less.prems(2) show ?thesis by blast
      qed
      with r(3) False show False by blast
    qed
    with less.prems(6) have lt: "base + 1 + int mc \<le> int (dt_size d)" by simp
    from r(2) have e: "dat_arrays d'" "dt_size d' = dt_size d" "chk d' = chk d" "dt_cap d \<le> dt_cap d'"
      by (auto simp: extends_def)
    have "nat (int (dt_size d') - (base + 1 + int mc)) < nat (int (dt_size d) - (base + int mc))"
      using lt e(2) by simp
    moreover have "\<forall>p \<ge> dt_size d'. chk d' p = 0" using less.prems(2) e(2,3) by simp
    moreover have "\<forall>c \<in> set codes. mc \<le> c \<and> c < dt_cap d'" using less.prems(4) e(4) by force
    moreover have "2 \<le> base + 1 + int mc" "base + 1 + int mc \<le> int (dt_size d')" using less.prems(5) lt e(2) by simp_all
    ultimately obtain d2 b where
      "findBaseFrom d' codes (base + 1) = Some (d2, b)" "extends d' d2" "2 \<le> b + int mc"
      "\<forall>c \<in> set codes. chk d (nat (b + int c)) = 0 \<and> b + int c < int (dt_cap d2)"
      using less.hyps[OF _ e(1) _ less.prems(3), of "base + 1"] e(3) by metis
    with r False show ?thesis by (subst findBaseFrom.simps) (auto intro: extends_trans)
  qed
qed

lemma findBase_correct:
  assumes "dat_arrays d" and "\<forall>p \<ge> dt_size d. chk d p = 0" and "codes \<noteq> []" and "\<forall>c \<in> set codes. c < dt_cap d"
  shows "\<exists>d' b. findBase d codes = Some (d', b) \<and> extends d d' \<and>
    (\<forall>c \<in> set codes. 2 \<le> b + int c \<and> chk d (nat (b + int c)) = 0 \<and> b + int c < int (dt_cap d'))"
proof -
  obtain c cs where codes: "codes = c # cs" using assms(3) by (cases codes) auto
  let ?m = "Min (set codes)"
  have m: "?m \<in> set codes" "\<forall>c \<in> set codes. ?m \<le> c" using assms(3) by auto
  have size: "2 \<le> dt_size d" using assms(1) by (simp add: dat_arrays_def)
  from findBaseFrom_correct[OF assms(1,2) m(1), of "2 - int ?m"] m(2) assms(4) size obtain d' b
    where "findBaseFrom d codes (2 - int ?m) = Some (d', b)" "extends d d'" "2 \<le> b + int ?m"
      "\<forall>c \<in> set codes. chk d (nat (b + int c)) = 0 \<and> b + int c < int (dt_cap d')" by auto
  moreover have "findBase d codes = findBaseFrom d codes (2 - int ?m)"
    by (simp add: findBase_def codes Let_def datRootPos_def foldl_min)
  moreover have "2 \<le> b + int c" if "c \<in> set codes" for c
  proof -
    have "int ?m \<le> int c" using m(2) that by simp
    with \<open>2 \<le> b + int ?m\<close> show ?thesis by linarith
  qed
  ultimately show ?thesis by auto
qed

section \<open>The layout\<close>

text \<open>
  \<open>E\<close> is the set of edges placed so far, \<open>placed E\<close> the temporary nodes that have a
  position: the root and the targets of these edges.
\<close>

type_synonym edge = "nat \<times> rune \<times> nat"

definition placed :: "edge set \<Rightarrow> nat set" where
  "placed E = insert 0 ((\<lambda>(p, c, x). x) ` E)"

definition words_of :: "goto \<Rightarrow> edge set \<Rightarrow> rune list set" where
  "words_of g E = {w. \<exists>x \<in> placed E. walk g 0 w = Some x}"

definition dat_layout :: "goto \<Rightarrow> (rune \<Rightarrow> nat) \<Rightarrow> edge set \<Rightarrow> doubleArrayTrie \<Rightarrow> nat list \<Rightarrow> bool" where
  "dat_layout g ix E d P \<longleftrightarrow> dat_arrays d \<and> P ! 0 = 1 \<and>
     (\<forall>(p, c, x) \<in> E. g p c = Some x \<and> p \<in> placed E \<and> 2 \<le> P ! x \<and> P ! x < dt_size d \<and>
        chk d (P ! x) = int (P ! p) \<and> int (P ! x) = at_or 0 (dt_base d) (P ! p) + int (ix c)) \<and>
     inj_on ((!) P) (placed E) \<and> chk d 0 = -1 \<and>
     (\<forall>q > 0. chk d q \<noteq> 0 \<longrightarrow> (\<exists>(p, c, x) \<in> E. q = P ! x)) \<and> at_or 0 (dt_fail d) = (\<lambda>_. 0)"

definition dat_depths :: "goto \<Rightarrow> edge set \<Rightarrow> doubleArrayTrie \<Rightarrow> nat list \<Rightarrow> bool" where
  "dat_depths g E d P \<longleftrightarrow>
     (\<forall>w x. walk g 0 w = Some x \<longrightarrow> x \<in> placed E \<longrightarrow> at_or 0 (dt_depth d) (P ! x) = length w) \<and>
     dt_trieDepth d = Max (length ` words_of g E)"

definition dat_ids :: "goto \<Rightarrow> dict \<Rightarrow> edge set \<Rightarrow> outputs \<Rightarrow> nat list \<Rightarrow> bool" where
  "dat_ids g D E out P \<longleftrightarrow>
     interned g 0 (\<lambda>x. if x \<in> placed E then at_or 0 (own out) (P ! x) else 0) out (D |` words_of g E) \<and>
     (\<forall>q. at_or 0 (own out) q \<noteq> 0 \<longrightarrow> (\<exists>x \<in> placed E. q = P ! x))"

lemma placed_pos:
  assumes "dat_layout g ix E d P" and "x \<in> placed E"
  shows "1 \<le> P ! x" "P ! x < dt_size d" "x \<noteq> 0 \<Longrightarrow> 2 \<le> P ! x"
  using assms by (fastforce simp: dat_layout_def placed_def dat_arrays_def)+

lemma placed_taken:
  assumes "dat_layout g ix E d P" and "x \<in> placed E" and "2 \<le> q" and "chk d q = 0"
  shows "P ! x \<noteq> q"
proof
  assume eq: "P ! x = q"
  show False
  proof (cases "x = 0")
    case True
    with eq assms(1,3) show False by (simp add: dat_layout_def)
  next
    case False
    with assms(2) obtain p c where e: "(p, c, x) \<in> E" by (auto simp: placed_def)
    with assms(1) have p: "p \<in> placed E" "chk d (P ! x) = int (P ! p)" by (auto simp: dat_layout_def)
    from placed_pos(1)[OF assms(1) p(1)] p(2) eq assms(4) show False by simp
  qed
qed

lemma layout_free: "dat_layout g ix E d P \<Longrightarrow> \<forall>q \<ge> dt_size d. chk d q = 0"
proof (intro allI impI, rule ccontr)
  fix q
  assume l: "dat_layout g ix E d P" and q: "dt_size d \<le> q" "chk d q \<noteq> 0"
  then have "0 < q" by (auto simp: dat_layout_def dat_arrays_def)
  with l q(2) obtain p c x where "(p, c, x) \<in> E" "q = P ! x" unfolding dat_layout_def by blast
  with l q(1) show False by (auto simp: dat_layout_def)
qed

lemma layout_extends:
  assumes "dat_layout g ix E d P" and "extends d d'"
  shows "dat_layout g ix E d' P"
  using assms by (simp add: dat_layout_def extends_def)

text \<open>Placing one child at a free position.\<close>

lemma layout_place:
  assumes l: "dat_layout g ix E d P" and p: "p \<in> placed E" and x: "g p c = Some x" "x \<notin> placed E" "x < length P"
    and q: "2 \<le> q" "q < dt_cap d" "int q = at_or 0 (dt_base d) (P ! p) + int (ix c)" "chk d q = 0"
    and d': "dat_arrays d'" "dt_base d' = dt_base d" "dt_check d' = (dt_check d)[q := int (P ! p)]"
      "dt_fail d' = dt_fail d" "q < dt_size d'" "dt_size d \<le> dt_size d'"
  shows "dat_layout g ix (insert (p, c, x) E) d' (P[x := q])"
proof -
  let ?P = "P[x := q]" and ?E = "insert (p, c, x) E"
  have q': "q < length (dt_check d)" using l q(2) by (simp add: dat_layout_def dat_arrays_def)
  have old: "?P ! y = P ! y" if "y \<in> placed E" for y using x(2) that by (metis nth_list_update_neq)
  have neq: "P ! y \<noteq> q" if "y \<in> placed E" for y using placed_taken[OF l that q(1,4)] .
  have ck: "chk d' = (chk d)(q := int (P ! p))" unfolding d'(3) by (rule at_or_upd[OF q'])
  have pl: "placed ?E = insert x (placed E)" by (auto simp: placed_def)
  have zero: "0 \<in> placed E" by (simp add: placed_def)
  have new: "?P ! x = q" using x(3) by simp
  have edges: "g p' c' = Some x' \<and> p' \<in> placed ?E \<and> 2 \<le> ?P ! x' \<and> ?P ! x' < dt_size d' \<and>
      chk d' (?P ! x') = int (?P ! p') \<and> int (?P ! x') = at_or 0 (dt_base d') (?P ! p') + int (ix c')"
    if e: "(p', c', x') \<in> ?E" for p' c' x'
  proof (cases "(p', c', x') = (p, c, x)")
    case True
    then show ?thesis using x(1) p pl q new old[OF p] d'(2,5) ck by simp
  next
    case False
    with e have e': "(p', c', x') \<in> E" by blast
    with l have o: "g p' c' = Some x'" "p' \<in> placed E" "2 \<le> P ! x'" "P ! x' < dt_size d"
      "chk d (P ! x') = int (P ! p')" "int (P ! x') = at_or 0 (dt_base d) (P ! p') + int (ix c')"
      by (auto simp: dat_layout_def)
    have x': "x' \<in> placed E" using e' by (force simp: placed_def)
    show ?thesis using o old[OF x'] old[OF o(2)] neq[OF x'] pl ck d'(2,6) by simp
  qed
  have "inj_on ((!) ?P) (placed ?E)"
  proof -
    have "inj_on ((!) P) (placed E)" using l by (simp add: dat_layout_def)
    then have "inj_on ((!) ?P) (placed E)" by (auto simp: inj_on_def old)
    moreover have "?P ! x \<notin> (!) ?P ` placed E" using new old neq by auto
    moreover have "placed E - {x} = placed E" using x(2) by simp
    ultimately show ?thesis by (simp only: pl inj_on_insert simp_thms)
  qed
  moreover have "\<exists>(p, c, x) \<in> ?E. r = ?P ! x" if r: "r > 0" "chk d' r \<noteq> 0" for r
  proof (cases "r = q")
    case True
    then show ?thesis using new by auto
  next
    case False
    with r ck have "chk d r \<noteq> 0" by simp
    with r(1) l obtain p' c' x' where e: "(p', c', x') \<in> E" "r = P ! x'" unfolding dat_layout_def by blast
    then have "x' \<in> placed E" by (force simp: placed_def)
    with e old show ?thesis by fastforce
  qed
  moreover have "?P ! 0 = 1" using old[OF zero] l by (simp add: dat_layout_def)
  moreover have "chk d' 0 = -1" using ck q(1) l by (simp add: dat_layout_def)
  moreover have "at_or 0 (dt_fail d') = (\<lambda>_. 0)" using l d'(4) by (simp add: dat_layout_def)
  ultimately show ?thesis unfolding dat_layout_def using d'(1) edges by blast
qed

lemma placed_insert [simp]: "placed (insert (p, c, x) E) = insert x (placed E)"
  by (auto simp: placed_def)

lemma words_of_insert:
  assumes "is_trie g 0 P" and "walk g 0 v = Some p" and "g p c = Some x"
  shows "words_of g (insert (p, c, x) E) = insert (v @ [c]) (words_of g E)"
proof -
  have vx: "walk g 0 (v @ [c]) = Some x" using assms by (simp add: walk_snoc)
  then have "walk g 0 w = Some x \<longleftrightarrow> w = v @ [c]" for w using is_trie_inj[OF assms(1) vx, of w] by auto
  then show ?thesis by (auto simp: words_of_def)
qed

lemma depths_place:
  assumes dep: "dat_depths g E d P" and trie: "is_trie g 0 S" and fin: "finite S"
    and p: "p \<in> placed E" "walk g 0 v = Some p" and x: "g p c = Some x" "x \<notin> placed E" "x < length P"
    and q: "\<forall>y \<in> placed E. P ! y \<noteq> q" "q < length (dt_depth d)"
    and d': "dt_depth d' = (dt_depth d)[q := at_or 0 (dt_depth d) (P ! p) + 1]"
      "dt_trieDepth d' = (let k = at_or 0 (dt_depth d) (P ! p) + 1 in if k > dt_trieDepth d then k else dt_trieDepth d)"
  shows "dat_depths g (insert (p, c, x) E) d' (P[x := q])"
proof -
  let ?P = "P[x := q]"
  have k: "at_or 0 (dt_depth d) (P ! p) = length v" using dep p by (simp add: dat_depths_def)
  have dp: "at_or 0 (dt_depth d') = (at_or 0 (dt_depth d))(q := Suc (length v))"
    unfolding d'(1) k using at_or_upd[OF q(2)] by simp
  have vx: "walk g 0 (v @ [c]) = Some x" using p(2) x(1) by (simp add: walk_snoc)
  have "at_or 0 (dt_depth d') (?P ! y) = length w" if w: "walk g 0 w = Some y" "y \<in> insert x (placed E)" for w y
  proof (cases "y = x")
    case True
    with is_trie_inj[OF trie w(1)] vx x(3) dp show ?thesis by auto
  next
    case False
    with w(2) have y: "y \<in> placed E" by simp
    with False q(1) dp have "at_or 0 (dt_depth d') (?P ! y) = at_or 0 (dt_depth d) (P ! y)" by simp
    with dep w(1) y show ?thesis by (simp add: dat_depths_def)
  qed
  moreover have "dt_trieDepth d' = Max (length ` words_of g (insert (p, c, x) E))"
  proof -
    have "words_of g E \<subseteq> S" using is_trie_in[OF trie] by (auto simp: words_of_def)
    then have "finite (length ` words_of g E)" using fin finite_subset by blast
    moreover have "v \<in> words_of g E" using p by (auto simp: words_of_def)
    then have "length ` words_of g E \<noteq> {}" by blast
    ultimately have "Max (insert (Suc (length v)) (length ` words_of g E)) = max (Suc (length v)) (dt_trieDepth d)"
      using dep by (simp add: dat_depths_def)
    then show ?thesis
      using words_of_insert[OF trie p(2) x(1)] by (simp add: d'(2) k Let_def max_def)
  qed
  ultimately show ?thesis unfolding dat_depths_def by simp
qed

text \<open>The ids after a child that carries no keyword, and after one that does.\<close>

lemma ids_place_none:
  assumes ids: "dat_ids g D E out P" and trie: "is_trie g 0 S"
    and p: "walk g 0 v = Some p" and x: "g p c = Some x" "x \<notin> placed E" "x < length P"
    and q: "\<forall>y \<in> placed E. P ! y \<noteq> q" and none: "D (v @ [c]) = None"
  shows "dat_ids g D (insert (p, c, x) E) out (P[x := q])"
proof -
  let ?P = "P[x := q]"
  have zero: "at_or 0 (own out) q = 0" using ids q by (auto simp: dat_ids_def)
  have "(\<lambda>y. if y \<in> insert x (placed E) then at_or 0 (own out) (?P ! y) else 0) =
      (\<lambda>y. if y \<in> placed E then at_or 0 (own out) (P ! y) else 0)"
    using x(2,3) zero by (intro ext) auto
  moreover have "D |` words_of g (insert (p, c, x) E) = D |` words_of g E"
    unfolding words_of_insert[OF trie p x(1)] using none by (auto simp: restrict_map_def)
  moreover have "\<exists>y \<in> insert x (placed E). r = ?P ! y" if r: "at_or 0 (own out) r \<noteq> 0" for r
  proof -
    from ids r obtain y where "y \<in> placed E" "r = P ! y" by (auto simp: dat_ids_def)
    moreover from this x(2) have "y \<noteq> x" by auto
    ultimately show ?thesis by (intro bexI[of _ y]) auto
  qed
  ultimately show ?thesis using ids by (simp add: dat_ids_def)
qed

lemma ids_place_some:
  assumes ids: "dat_ids g D E out P" and trie: "is_trie g 0 S"
    and p: "walk g 0 v = Some p" and x: "g p c = Some x" "x \<notin> placed E" "x < length P"
    and q: "\<forall>y \<in> placed E. P ! y \<noteq> q" and some: "D (v @ [c]) = Some kw" "runes kw = v @ [c]"
    and out1: "at_or 0 (own out1) = at_or 0 (own out)" "kwords out1 = kwords out" "runeLens out1 = runeLens out"
    and a: "assignID out1 kw = (out2, i)" and ql: "q < length (own out1)"
  shows "dat_ids g D (insert (p, c, x) E) (out2\<lparr>own := (own out2)[q := i]\<rparr>) (P[x := q])"
proof -
  let ?P = "P[x := q]" and ?out = "out2\<lparr>own := (own out2)[q := i]\<rparr>"
  let ?own = "\<lambda>y. if y \<in> placed E then at_or 0 (own out) (P ! y) else 0"
  have int: "interned g 0 ?own out1 (D |` words_of g E)"
    using ids interned_cong_out[OF out1(2,3)] by (simp add: dat_ids_def)
  have vx: "walk g 0 (v @ [c]) = Some x" using p x(1) by (simp add: walk_snoc)
  from interned_assignID[OF int trie vx some(2) _ a] x(2)
  have new: "interned g 0 (?own(x := i)) out2 ((D |` words_of g E)(v @ [c] \<mapsto> kw))" by simp
  have o2: "own out2 = own out1" using a by (auto simp: assignID_def Let_def split: if_splits)
  have ow: "at_or 0 (own ?out) = (at_or 0 (own out))(q := i)"
    using at_or_upd[OF ql, of 0 i] o2 out1(1) by simp
  have "(\<lambda>y. if y \<in> insert x (placed E) then at_or 0 (own ?out) (?P ! y) else 0) = ?own(x := i)"
  proof
    fix y
    show "(if y \<in> insert x (placed E) then at_or 0 (own ?out) (?P ! y) else 0) = (?own(x := i)) y"
      using q x(3) unfolding ow by (cases "y = x") auto
  qed
  moreover have "D |` words_of g (insert (p, c, x) E) = (D |` words_of g E)(v @ [c] \<mapsto> kw)"
    unfolding words_of_insert[OF trie p x(1)] using some(1) by (auto simp: restrict_map_def)
  moreover have "interned g 0 (?own(x := i)) ?out ((D |` words_of g E)(v @ [c] \<mapsto> kw))"
    using new interned_cong_out[of out2 ?out] by simp
  moreover have "\<exists>y \<in> insert x (placed E). r = ?P ! y" if r: "at_or 0 (own ?out) r \<noteq> 0" for r
  proof (cases "r = q")
    case True
    then show ?thesis using x(3) by auto
  next
    case False
    with r ow ids obtain y where "y \<in> placed E" "r = P ! y" by (auto simp: dat_ids_def)
    moreover from this x(2) have "y \<noteq> x" by auto
    ultimately show ?thesis by (intro bexI[of _ y]) auto
  qed
  ultimately show ?thesis by (simp only: dat_ids_def placed_insert) blast
qed

text \<open>All of it together, for the edges placed so far.\<close>

definition dat_inv ::
  "tmpTrie \<Rightarrow> dict \<Rightarrow> rune list \<Rightarrow> alphabetCoder \<Rightarrow> (rune \<Rightarrow> nat) \<Rightarrow> edge set \<Rightarrow> doubleArrayTrie \<Rightarrow> nat list \<Rightarrow> bool" where
  "dat_inv t D A co ix E d P \<longleftrightarrow> dat_layout (tmp_goto t) ix E d P \<and> dat_depths (tmp_goto t) E d P \<and>
     dat_ids (tmp_goto t) D E (dt_out d) P \<and> indexOf d = ix \<and> dt_runes d = A \<and> dt_coder d = co \<and>
     length P = nextID t \<and> length A \<le> dt_cap d \<and> length (own (dt_out d)) \<le> dt_size d"

lemma inv_extends:
  assumes "dat_inv t D A co ix E d P" and "extends d d'"
  shows "dat_inv t D A co ix E d' P"
proof -
  from assms(2) have "dt_coder d' = dt_coder d" by (simp add: extends_def)
  then have "indexOf d' = indexOf d" by (intro ext) (simp add: indexOf_def)
  with assms layout_extends[of "tmp_goto t" ix E d P d'] show ?thesis
    by (auto simp: dat_inv_def extends_def dat_depths_def)
qed

definition dict_ok :: "dict \<Rightarrow> bool" where
  "dict_ok D \<longleftrightarrow> (\<forall>w k. D w = Some k \<longrightarrow> runes k = w \<and> k \<noteq> []) \<and> D [] = None"

lemma own_padded: "at_or 0 (xs @ replicate n 0) = at_or 0 xs"
  by (rule ext) (auto simp: at_or_def nth_append)

lemma placeChild_correct:
  assumes inv: "dat_inv t D A co ix E d P" and holds: "tmp_holds t D" and D: "dict_ok D" "finite (states D)"
    and p: "p \<in> placed E" "walk (tmp_goto t) 0 v = Some p" and x: "tmp_goto t p c = Some x" "x \<notin> placed E"
    and q: "2 \<le> q" "int q = b + int (ix c)" "b = at_or 0 (dt_base d) (P ! p)" "chk d q = 0"
  shows "\<exists>d' P'. placeChild t b p (c, x) (qu, d, P) = Some (qu @ [x], d', P') \<and>
    dat_inv t D A co ix (insert (p, c, x) E) d' P' \<and> chk d' = (chk d)(q := int (P ! p)) \<and>
    at_or 0 (dt_base d') = at_or 0 (dt_base d) \<and> P' ! p = P ! p"
proof -
  let ?g = "tmp_goto t"
  have of: "tt.trie_of t (states D)" and to: "\<And>w s. walk ?g 0 w = Some s \<Longrightarrow> tmpOwn t s = D w"
    using holds by (auto simp: tmp_holds_def)
  note trie = tt.trie_of_trie[OF of]
  have vx: "walk ?g 0 (v @ [c]) = Some x" using p(2) x(1) by (simp add: walk_snoc)
  have arr: "dat_arrays d" using inv by (simp add: dat_inv_def dat_layout_def)
  from ensureCapacity_correct[OF arr, of "Suc q"] obtain d1 where d1: "ensureCapacity d (Suc q) = Some d1"
    "extends d d1" "Suc q < dt_cap d1" by blast
  note inv1 = inv_extends[OF inv d1(2)]
  then have l: "dat_layout ?g ix E d1 P" and dep: "dat_depths ?g E d1 P" and ids: "dat_ids ?g D E (dt_out d1) P"
    and len: "length P = nextID t" and ow: "length (own (dt_out d1)) \<le> dt_size d1" by (auto simp: dat_inv_def)
  have arr1: "length (dt_check d1) = dt_cap d1" "length (dt_depth d1) = dt_cap d1" "dt_size d1 \<le> dt_cap d1"
    "length (dt_base d1) = dt_cap d1" "length (dt_fail d1) = dt_cap d1" "2 \<le> dt_size d1"
    using l by (auto simp: dat_layout_def dat_arrays_def)
  have ck: "chk d1 q = 0" and bs: "at_or 0 (dt_base d1) = at_or 0 (dt_base d)" "chk d1 = chk d"
    using q(4) d1(2) by (auto simp: extends_def)
  have xl: "x < length P" using tt.trie_of_less[OF of vx] len by simp
  have pl: "p < length P" using tt.trie_of_less[OF of p(2)] len by simp
  have pp: "P ! p < dt_size d1" by (rule placed_pos(2)[OF l p(1)])
  have free: "\<forall>y \<in> placed E. P ! y \<noteq> q" using placed_taken[OF l _ q(1) ck] by blast
  have i: "b + int (indexOf d c) = int q" using q(2) inv by (simp add: dat_inv_def)
  let ?dp = "at_or 0 (dt_depth d1) (P ! p)"
  have dp: "idx (dt_depth d1) (P ! p) = Some ?dp" using pp arr1 by (simp add: idx_def at_or_def)
  define out where "out = (case D (v @ [c]) of None \<Rightarrow> dt_out d1
    | Some kw \<Rightarrow> (let own1 = own (dt_out d1) @ replicate (Suc q - length (own (dt_out d1))) 0;
                      (o1, id) = assignID ((dt_out d1)\<lparr>own := own1\<rparr>) kw
                  in o1\<lparr>own := (own o1)[q := id]\<rparr>))"
  define d' where "d' = d1\<lparr>dt_check := (dt_check d1)[q := int (P ! p)], dt_depth := (dt_depth d1)[q := ?dp + 1],
    dt_trieDepth := (if ?dp + 1 > dt_trieDepth d1 then ?dp + 1 else dt_trieDepth d1), dt_out := out,
    dt_size := (if q \<ge> dt_size d1 then q + 1 else dt_size d1)\<rparr>"
  have own_step: "(case tmpOwn t x of None \<Rightarrow> Some (dt_out d1)
      | Some kw \<Rightarrow> if kw = [] then Some (dt_out d1)
         else (let own1 = own (dt_out d1) @ replicate (nat (int q) + 1 - length (own (dt_out d1))) 0;
                   (o1, id) = assignID ((dt_out d1)\<lparr>own := own1\<rparr>) kw
               in do { own2 \<leftarrow> updi (own o1) (int q) id; Some (o1\<lparr>own := own2\<rparr>) })) = Some out"
    and ids': "dat_ids ?g D (insert (p, c, x) E) out (P[x := q])"
    and own_len: "length (own out) \<le> max (Suc q) (dt_size d1)"
  proof -
    show "(case tmpOwn t x of None \<Rightarrow> Some (dt_out d1)
      | Some kw \<Rightarrow> if kw = [] then Some (dt_out d1)
         else (let own1 = own (dt_out d1) @ replicate (nat (int q) + 1 - length (own (dt_out d1))) 0;
                   (o1, id) = assignID ((dt_out d1)\<lparr>own := own1\<rparr>) kw
               in do { own2 \<leftarrow> updi (own o1) (int q) id; Some (o1\<lparr>own := own2\<rparr>) })) = Some out"
      using to[OF vx] D(1) by (auto simp: out_def dict_ok_def Let_def assignID_def go_simps split: option.splits)
    show "dat_ids ?g D (insert (p, c, x) E) out (P[x := q])"
    proof (cases "D (v @ [c])")
      case None
      with ids_place_none[OF ids trie p(2) x xl free None] show ?thesis by (simp add: out_def)
    next
      case (Some kw)
      let ?o = "(dt_out d1)\<lparr>own := own (dt_out d1) @ replicate (Suc q - length (own (dt_out d1))) 0\<rparr>"
      obtain o1 i where a: "assignID ?o kw = (o1, i)" by fastforce
      have "runes kw = v @ [c]" using D(1) Some by (simp add: dict_ok_def)
      from ids_place_some[OF ids trie p(2) x xl free Some this _ _ _ a] a Some show ?thesis
        by (simp add: out_def own_padded)
    qed
    show "length (own out) \<le> max (Suc q) (dt_size d1)"
      using ow by (auto simp: out_def Let_def assignID_def split: option.splits)
  qed
  have run: "placeChild t b p (c, x) (qu, d, P) = Some (qu @ [x], d', P[x := q])"
  proof -
    have "updi (dt_check d1) (int q) (int (P ! p)) = Some ((dt_check d1)[q := int (P ! p)])"
      "updi (dt_depth d1) (int q) (?dp + 1) = Some ((dt_depth d1)[q := ?dp + 1])"
      "idx P p = Some (P ! p)" "upd P x q = Some (P[x := q])"
      using d1(3) arr1 pl xl by (simp_all add: go_simps)
    then show ?thesis unfolding placeChild_def using own_step i d1(1) dp by (simp add: d'_def)
  qed
  have arr': "dat_arrays d'" using arr1 d1(3) by (auto simp: dat_arrays_def d'_def)
  have l': "dat_layout ?g ix (insert (p, c, x) E) d' (P[x := q])"
    by (rule layout_place[OF l p(1) x xl q(1) _ _ ck arr'])
      (use d1(3) q(2,3) bs in \<open>simp_all add: d'_def\<close>)
  have dep': "dat_depths ?g (insert (p, c, x) E) d' (P[x := q])"
    by (rule depths_place[OF dep trie D(2) p x xl free]) (use d1(3) arr1 in \<open>simp_all add: d'_def Let_def\<close>)
  have "indexOf d' = indexOf d1" by (intro ext) (simp add: indexOf_def d'_def)
  moreover have "dt_out d' = out" "dt_runes d' = dt_runes d1" "dt_coder d' = dt_coder d1" "dt_cap d' = dt_cap d1"
    by (simp_all add: d'_def)
  moreover have "length (own out) \<le> dt_size d'" using own_len by (auto simp: d'_def)
  ultimately have "dat_inv t D A co ix (insert (p, c, x) E) d' (P[x := q])"
    using inv1 l' dep' ids' by (simp add: dat_inv_def)
  moreover have "chk d' = (chk d)(q := int (P ! p))"
    using at_or_upd[of q "dt_check d1" 0 "int (P ! p)"] d1(3) arr1 bs by (simp add: d'_def)
  moreover have "at_or 0 (dt_base d') = at_or 0 (dt_base d)" using bs by (simp add: d'_def)
  moreover have "P[x := q] ! p = P ! p" using x(2) p(1) by (metis nth_list_update_neq)
  ultimately show ?thesis using run by blast
qed

lemma placeChild_loop:
  assumes inv: "dat_inv t D A co ix E d P" and holds: "tmp_holds t D" and D: "dict_ok D" "finite (states D)"
    and p: "p \<in> placed E" "walk (tmp_goto t) 0 v = Some p"
    and es: "\<forall>(c, x) \<in> set es. tmp_goto t p c = Some x \<and> x \<notin> placed E" "distinct (map fst es)" "distinct (map snd es)"
    and ix: "inj_on ix (fst ` set es)"
    and b: "b = at_or 0 (dt_base d) (P ! p)" "\<forall>c \<in> fst ` set es. 2 \<le> b + int (ix c) \<and> chk d (nat (b + int (ix c))) = 0"
  shows "\<exists>d' P'. foldM (placeChild t b p) es (qu, d, P) = Some (qu @ map snd es, d', P') \<and>
    dat_inv t D A co ix (E \<union> {(p, c, x) | c x. (c, x) \<in> set es}) d' P'"
  using inv p(1) es ix b
proof (induction es arbitrary: E d P qu)
  case (Cons e es)
  obtain c x where e: "e = (c, x)" by (cases e)
  define q where "q = nat (b + int (ix c))"
  have q: "2 \<le> q" "int q = b + int (ix c)" "chk d q = 0" using Cons.prems(8) e by (auto simp: q_def)
  have x: "tmp_goto t p c = Some x" "x \<notin> placed E" using Cons.prems(3) e by auto
  from placeChild_correct[OF Cons.prems(1) holds D Cons.prems(2) p(2) x q(1,2) Cons.prems(7) q(3), of qu]
  obtain d1 P1 where s1: "placeChild t b p (c, x) (qu, d, P) = Some (qu @ [x], d1, P1)"
    "dat_inv t D A co ix (insert (p, c, x) E) d1 P1" "chk d1 = (chk d)(q := int (P ! p))"
    "at_or 0 (dt_base d1) = at_or 0 (dt_base d)" "P1 ! p = P ! p" using Cons.prems(8) by auto
  have fresh: "nat (b + int (ix c')) \<noteq> q" if "c' \<in> fst ` set es" for c'
  proof -
    have "c' \<noteq> c" using Cons.prems(4) that e by auto
    then have "ix c' \<noteq> ix c" using Cons.prems(6) that e by (auto simp: inj_on_def)
    moreover have "2 \<le> b + int (ix c')" using Cons.prems(8) that by auto
    ultimately show ?thesis using q(1) unfolding q_def by auto
  qed
  have "\<exists>d' P'. foldM (placeChild t b p) es (qu @ [x], d1, P1) = Some ((qu @ [x]) @ map snd es, d', P') \<and>
      dat_inv t D A co ix (insert (p, c, x) E \<union> {(p, c, x) | c x. (c, x) \<in> set es}) d' P'"
  proof (rule Cons.IH[OF s1(2)])
    show "p \<in> placed (insert (p, c, x) E)" using Cons.prems(2) by simp
    show "\<forall>(c', x') \<in> set es. tmp_goto t p c' = Some x' \<and> x' \<notin> placed (insert (p, c, x) E)"
      using Cons.prems(3,5) e by (force simp: image_iff)
    show "b = at_or 0 (dt_base d1) (P1 ! p)" using Cons.prems(7) s1(4,5) by simp
    show "\<forall>c' \<in> fst ` set es. 2 \<le> b + int (ix c') \<and> chk d1 (nat (b + int (ix c'))) = 0"
      using Cons.prems(8) fresh s1(3) by auto
  qed (use Cons.prems e in \<open>auto simp: inj_on_def\<close>)
  moreover have "insert (p, c, x) E \<union> {(p, c, x) | c x. (c, x) \<in> set es} = E \<union> {(p, c, x) | c x. (c, x) \<in> set (e # es)}"
    using e by auto
  ultimately show ?case using s1(1) e by auto
qed simp

lemma inv_set_base:
  assumes inv: "dat_inv t D A co ix E d P" and s: "s \<in> placed E" "\<forall>(p, c, x) \<in> E. p \<noteq> s"
  shows "dat_inv t D A co ix E (d\<lparr>dt_base := (dt_base d)[P ! s := b]\<rparr>) P"
    "at_or 0 (dt_base (d\<lparr>dt_base := (dt_base d)[P ! s := b]\<rparr>)) (P ! s) = b"
proof -
  let ?d = "d\<lparr>dt_base := (dt_base d)[P ! s := b]\<rparr>" and ?g = "tmp_goto t"
  from inv have l: "dat_layout ?g ix E d P" by (simp add: dat_inv_def)
  have len: "P ! s < length (dt_base d)"
    using placed_pos(2)[OF l s(1)] l by (auto simp: dat_layout_def dat_arrays_def)
  have bs: "at_or 0 (dt_base ?d) = (at_or 0 (dt_base d))(P ! s := b)" using at_or_upd[OF len] by simp
  then show "at_or 0 (dt_base ?d) (P ! s) = b" by simp
  have same: "at_or 0 ((dt_base d)[P ! s := b]) (P ! p) = at_or 0 (dt_base d) (P ! p)" if "(p, c, x) \<in> E" for p c x
  proof -
    from that l have "p \<in> placed E" by (auto simp: dat_layout_def)
    moreover have "p \<noteq> s" using that s(2) by auto
    ultimately have "P ! p \<noteq> P ! s" using l s(1) by (auto simp: dat_layout_def inj_on_def)
    then show ?thesis using bs by simp
  qed
  have "dat_layout ?g ix E ?d P"
    using l unfolding dat_layout_def by (auto simp: dat_arrays_def same)
  moreover have "indexOf ?d = indexOf d" by (intro ext) (simp add: indexOf_def)
  ultimately show "dat_inv t D A co ix E ?d P" using inv by (simp add: dat_inv_def dat_depths_def)
qed

definition edges_of :: "goto \<Rightarrow> nat list \<Rightarrow> edge set" where
  "edges_of g seen = {(p, c, x). p \<in> set seen \<and> g p c = Some x}"

lemma placeChildren_correct:
  assumes inv: "dat_inv t D A co ix (edges_of (tmp_goto t) seen) d P" and holds: "tmp_holds t D"
    and D: "dict_ok D" "finite (states D)" and ord: "edge_order_ok ord1" "edge_order_ok ord2"
    and s: "s \<in> placed (edges_of (tmp_goto t) seen)" "walk (tmp_goto t) 0 v = Some s" "s \<notin> set seen"
    and seen: "\<forall>p \<in> set seen. \<exists>w. walk (tmp_goto t) 0 w = Some p"
    and ix: "inj_on ix (set A)" "\<forall>c \<in> set A. ix c < length A" "\<forall>w \<in> states D. set w \<subseteq> set A"
  shows "\<exists>found d' P'. placeChildren ord1 ord2 t s (d, P) = Some (found, (d', P')) \<and> distinct found \<and>
    set found = {x. \<exists>c. tmp_goto t s c = Some x} \<and>
    dat_inv t D A co ix (edges_of (tmp_goto t) (seen @ [s])) d' P'"
proof -
  let ?g = "tmp_goto t" and ?E = "edges_of (tmp_goto t) seen" and ?ch = "children_of t s"
  have of: "tt.trie_of t (states D)" using holds by (simp add: tmp_holds_def)
  note trie = tt.trie_of_trie[OF of]
  have gs: "?g s = map_of ?ch" by (simp add: tmp_goto_def)
  have dist: "distinct (map fst ?ch)" using tt.trie_of_wf[OF of] by (simp add: tmp_wf_def)
  have ch: "set ?ch = {(c, x). ?g s c = Some x}" using dist by (auto simp: gs)
  have new: "edges_of ?g (seen @ [s]) = ?E \<union> {(s, c, x) | c x. (c, x) \<in> set ?ch}"
    by (auto simp: edges_of_def ch)
  show ?thesis
  proof (cases "?ch = []")
    case True
    then have "edges_of ?g (seen @ [s]) = ?E" using new by simp
    with True inv ch show ?thesis by (auto simp: placeChildren_def)
  next
    case False
    have o: "set (ord1 s ?ch) = set ?ch" "set (ord2 s ?ch) = set ?ch" "ord1 s ?ch \<noteq> []"
      using ord False by (metis edge_order_ok_def set_mset_mset, metis edge_order_ok_def set_mset_mset,
        metis edge_order_ok_def mset_zero_iff)
    have "mset (map fst (ord2 s ?ch)) = mset (map fst ?ch)" using ord(2) by (simp add: edge_order_ok_def)
    then have df: "distinct (map fst (ord2 s ?ch))" using dist mset_eq_imp_distinct_iff by blast
    have ds: "distinct (map snd (ord2 s ?ch))"
      by (rule distinct_children[OF trie s(2) _ df]) (use o(2) ch in auto)
    have inA: "c \<in> set A" if "(c, x) \<in> set ?ch" for c x
    proof -
      have "walk ?g 0 (v @ [c]) = Some x" using s(2) that ch by (simp add: walk_snoc)
      from is_trie_in[OF trie this] ix(3) show ?thesis by fastforce
    qed
    from inv have l: "dat_layout ?g ix ?E d P" and xi: "indexOf d = ix" and cap: "length A \<le> dt_cap d"
      and len: "length P = nextID t" by (auto simp: dat_inv_def)
    let ?codes = "map (\<lambda>(ch, _). indexOf d ch) (ord1 s ?ch)"
    have codes: "set ?codes = ix ` fst ` set ?ch" using o(1) xi by force
    have "\<forall>c \<in> set ?codes. c < dt_cap d" unfolding codes using inA ix(2) cap by force
    moreover have "?codes \<noteq> []" "dat_arrays d" using o(3) l by (auto simp: dat_layout_def)
    ultimately obtain d1 b where fb: "findBase d ?codes = Some (d1, b)" "extends d d1"
      "\<forall>c \<in> set ?codes. 2 \<le> b + int c \<and> chk d (nat (b + int c)) = 0"
      using findBase_correct[OF _ layout_free[OF l]] by metis
    let ?d = "d1\<lparr>dt_base := (dt_base d1)[P ! s := b]\<rparr>"
    have "\<forall>(p, c, x) \<in> ?E. p \<noteq> s" using s(3) by (auto simp: edges_of_def)
    note base = inv_set_base[OF inv_extends[OF inv fb(2)] s(1) this, of b]
    have ck: "chk ?d = chk d" using fb(2) by (simp add: extends_def)
    have outside: "x \<notin> placed ?E" if x: "(c, x) \<in> set ?ch" for c x
    proof
      assume "x \<in> placed ?E"
      have vx: "walk ?g 0 (v @ [c]) = Some x" using s(2) x ch by (simp add: walk_snoc)
      from \<open>x \<in> placed ?E\<close> consider "x = 0" | p c' where "p \<in> set seen" "?g p c' = Some x"
        by (auto simp: placed_def edges_of_def)
      then show False
      proof cases
        case 1
        with is_trie_inj[OF trie vx, of "[]"] show False by simp
      next
        case 2
        then obtain w where w: "walk ?g 0 w = Some p" using seen by blast
        with 2(2) have "walk ?g 0 (w @ [c']) = Some x" by (simp add: walk_snoc)
        from is_trie_inj[OF trie vx this] have "v = w" by simp
        with w s(2) 2(1) s(3) show False by simp
      qed
    qed
    have "\<exists>d' P'. foldM (placeChild t b s) (ord2 s ?ch) ([], ?d, P) = Some ([] @ map snd (ord2 s ?ch), d', P') \<and>
        dat_inv t D A co ix (?E \<union> {(s, c, x) | c x. (c, x) \<in> set (ord2 s ?ch)}) d' P'"
    proof (rule placeChild_loop[OF base(1) holds D s(1,2) _ df ds])
      show "\<forall>(c, x) \<in> set (ord2 s ?ch). ?g s c = Some x \<and> x \<notin> placed ?E"
        unfolding o(2) using outside ch by auto
      show "inj_on ix (fst ` set (ord2 s ?ch))"
        unfolding o(2) by (rule inj_on_subset[OF ix(1)]) (use inA in force)
      show "b = at_or 0 (dt_base ?d) (P ! s)" using base(2) by simp
      show "\<forall>c \<in> fst ` set (ord2 s ?ch). 2 \<le> b + int (ix c) \<and> chk ?d (nat (b + int (ix c))) = 0"
        unfolding o(2) ck using fb(3) codes by blast
    qed
    then obtain d' P' where r: "foldM (placeChild t b s) (ord2 s ?ch) ([], ?d, P) = Some (map snd (ord2 s ?ch), d', P')"
      "dat_inv t D A co ix (edges_of ?g (seen @ [s])) d' P'" by (auto simp: o(2) new)
    have "P ! s < length (dt_base d1)"
      using placed_pos(2)[OF l s(1)] fb(2) by (auto simp: extends_def dat_arrays_def)
    moreover have "s < length P" using tt.trie_of_less[OF of s(2)] len by simp
    ultimately have "placeChildren ord1 ord2 t s (d, P) = Some (map snd (ord2 s ?ch), (d', P'))"
      using False fb(1) r(1) by (simp add: placeChildren_def go_simps)
    moreover have "set (map snd (ord2 s ?ch)) = {x. \<exists>c. ?g s c = Some x}" using o(2) ch by force
    ultimately show ?thesis using ds r(2) by blast
  qed
qed

lemma dat_inv_start:
  assumes holds: "tmp_holds t D" and D: "dict_ok D"
    and d0: "dat_arrays d" "chk d = (\<lambda>_. 0)" "at_or 0 (dt_fail d) = (\<lambda>_. 0)" "at_or 0 (dt_depth d) = (\<lambda>_. 0)"
      "dt_out d = empty_outputs" "dt_trieDepth d = 0" "dt_runes d = A" "dt_coder d = co" "length A \<le> dt_cap d"
    and ix: "indexOf d = ix"
  shows "dat_inv t D A co ix {} (d\<lparr>dt_check := (dt_check d)[0 := -1], dt_depth := (dt_depth d)[datRootPos := 0]\<rparr>)
    ((replicate (nextID t) 0)[0 := datRootPos])"
proof -
  let ?d = "d\<lparr>dt_check := (dt_check d)[0 := -1], dt_depth := (dt_depth d)[datRootPos := 0]\<rparr>" and ?g = "tmp_goto t"
  let ?P = "(replicate (nextID t) 0)[0 := datRootPos] :: nat list"
  have n: "0 < nextID t" using holds tt.trie_of_wf by (auto simp: tmp_holds_def tmp_wf_def)
  have cap: "0 < length (dt_check d)" "datRootPos < length (dt_depth d)"
    using d0(1) by (auto simp: dat_arrays_def datRootPos_def)
  have ck: "chk ?d = (\<lambda>_. 0)(0 := -1)" using at_or_upd[OF cap(1), of 0 "-1"] d0(2) by simp
  have dp: "at_or 0 (dt_depth ?d) = (\<lambda>_. 0)"
    using at_or_upd[OF cap(2), of 0 0] d0(4) by (auto simp: fun_eq_iff)
  have pl: "placed {} = {0}" by (simp add: placed_def)
  have trie: "is_trie ?g 0 (states D)" using holds tt.trie_of_trie by (auto simp: tmp_holds_def)
  have w0: "walk ?g 0 w = Some 0 \<longleftrightarrow> w = []" for w by (rule is_trie_root[OF trie])
  have wo: "words_of ?g {} = {[]}" by (auto simp: words_of_def pl w0)
  have P0: "?P ! 0 = 1" using n by (simp add: datRootPos_def)
  have "dat_layout ?g ix {} ?d ?P"
    using d0(1,3) ck P0 pl by (auto simp: dat_layout_def dat_arrays_def)
  moreover have "dat_depths ?g {} ?d ?P" using d0(6) dp by (auto simp: dat_depths_def pl w0 wo)
  moreover have "dat_ids ?g D {} (dt_out ?d) ?P"
  proof -
    have own0: "at_or 0 (own (dt_out ?d)) = (\<lambda>_. 0)" using d0(5) by (auto simp: at_or_def empty_outputs_def)
    have "D |` words_of ?g {} = Map.empty" using D by (auto simp: wo restrict_map_def dict_ok_def)
    moreover have "interned ?g 0 (\<lambda>_. 0) (dt_out ?d) Map.empty"
      by (rule interned_empty) (use d0(5) in \<open>simp_all add: empty_outputs_def\<close>)
    moreover have "(\<lambda>x. if x \<in> placed {} then at_or 0 (own (dt_out ?d)) (?P ! x) else 0) = (\<lambda>_. 0)"
      using own0 by auto
    ultimately show ?thesis using own0 by (simp only: dat_ids_def) simp
  qed
  moreover have "indexOf ?d = indexOf d" by (intro ext) (simp add: indexOf_def)
  ultimately show ?thesis using d0 ix by (simp add: dat_inv_def empty_outputs_def)
qed

lemma place_all:
  assumes start: "dat_inv t D A co ix {} d P" and holds: "tmp_holds t D" and D: "dict_ok D" "finite (states D)"
    and ord: "edge_order_ok ord1" "edge_order_ok ord2"
    and ix: "inj_on ix (set A)" "\<forall>c \<in> set A. ix c < length A" "\<forall>w \<in> states D. set w \<subseteq> set A"
  shows "\<exists>d' P'. worklist (placeChildren ord1 ord2 t) [0] (d, P) = Some (d', P') \<and>
    dat_inv t D A co ix {(p, c, x). tmp_goto t p c = Some x} d' P'"
proof -
  let ?g = "tmp_goto t"
  have of: "tt.trie_of t (states D)" using holds by (simp add: tmp_holds_def)
  note trie = tt.trie_of_trie[OF of]
  let ?I = "\<lambda>seen queue (d, P). dat_inv t D A co ix (edges_of ?g seen) d P \<and>
    placed (edges_of ?g seen) = set (seen @ queue) \<and> (\<forall>p \<in> set seen. \<exists>w. walk ?g 0 w = Some p)"
  have none: "edges_of ?g [] = {}" by (auto simp: edges_of_def)
  have "\<exists>seen dP. worklist (placeChildren ord1 ord2 t) [0] (d, P) = Some dP \<and> ?I seen [] dP \<and> distinct seen \<and>
      set seen = from_level ?g 0 0 \<and> sorted (map (node_depth ?g 0) seen)"
  proof (rule bfs_levels[OF trie D(2)])
    show "set [0] = level ?g 0 0" by (auto simp: level_def)
    fix seen s rest st w
    assume I: "?I seen (s # rest) st" and w: "walk ?g 0 w = Some s" and new: "s \<notin> set seen"
    obtain d1 P1 where st: "st = (d1, P1)" by (cases st)
    from I st have inv: "dat_inv t D A co ix (edges_of ?g seen) d1 P1"
      and pl: "placed (edges_of ?g seen) = set (seen @ s # rest)"
      and walks: "\<forall>p \<in> set seen. \<exists>w. walk ?g 0 w = Some p" by auto
    have "s \<in> placed (edges_of ?g seen)" using pl by simp
    from placeChildren_correct[OF inv holds D ord this w new walks ix] st obtain found d' P'
      where f: "placeChildren ord1 ord2 t s st = Some (found, (d', P'))" "distinct found"
        "set found = {x. \<exists>c. ?g s c = Some x}" "dat_inv t D A co ix (edges_of ?g (seen @ [s])) d' P'" by blast
    have "placed (edges_of ?g (seen @ [s])) = placed (edges_of ?g seen) \<union> {x. \<exists>c. ?g s c = Some x}"
      by (force simp: placed_def edges_of_def)
    then have "placed (edges_of ?g (seen @ [s])) = set ((seen @ [s]) @ (rest @ found))"
      unfolding pl using f(3) by auto
    then have "?I (seen @ [s]) (rest @ found) (d', P')" using f(4) walks w by auto
    with f(1-3) show "\<exists>found st'. placeChildren ord1 ord2 t s st = Some (found, st') \<and> distinct found \<and>
        set found = {t'. \<exists>c. ?g s c = Some t'} \<and> ?I (seen @ [s]) (rest @ found) st'" by blast
  qed (use start in \<open>simp_all add: none placed_def\<close>)
  then obtain seen d' P' where r: "worklist (placeChildren ord1 ord2 t) [0] (d, P) = Some (d', P')"
    "dat_inv t D A co ix (edges_of ?g seen) d' P'" "set seen = from_level ?g 0 0" by auto
  have "p \<in> set seen" if "?g p c = Some x" for p c x
  proof -
    have "p < nextID t" using of that by (auto simp: tt.trie_of_def trie_upto_def)
    with of obtain w where "walk ?g 0 w = Some p" unfolding tt.trie_of_def trie_upto_def by blast
    with r(3) show ?thesis by (auto simp: from_level_def)
  qed
  then have "edges_of ?g seen = {(p, c, x). ?g p c = Some x}" by (auto simp: edges_of_def)
  with r show ?thesis by auto
qed

section \<open>The double array as a goto function\<close>

definition dat_goto :: "doubleArrayTrie \<Rightarrow> goto" where
  "dat_goto d s c =
     (case pos (dt_runes d) c of
        None \<Rightarrow> None
      | Some k \<Rightarrow>
          (let p = at_or 0 (dt_base d) s + int k
           in if 0 \<le> p \<and> p < int (dt_size d) \<and> chk d (nat p) = int s then Some (nat p) else None))"

text \<open>Reading by code is reading by rune, and 0 is never a state.\<close>

definition dat_sized :: "doubleArrayTrie \<Rightarrow> bool" where
  "dat_sized d \<longleftrightarrow> length (dt_base d) = dt_size d \<and> length (dt_check d) = dt_size d \<and> chk d 0 = -1 \<and> 2 \<le> dt_size d \<and>
     distinct (dt_runes d)"

lemma gotoStateByCode_correct:
  assumes "dat_sized d" and "s < dt_size d" and "k < length (dt_runes d)"
  shows "gotoStateByCode d s k = Some (case dat_goto d s (dt_runes d ! k) of None \<Rightarrow> 0 | Some p \<Rightarrow> p)"
    "dat_goto d s (dt_runes d ! k) \<noteq> Some 0"
proof -
  have p: "pos (dt_runes d) (dt_runes d ! k) = Some k" using assms by (simp add: dat_sized_def pos_nth)
  show "gotoStateByCode d s k = Some (case dat_goto d s (dt_runes d ! k) of None \<Rightarrow> 0 | Some p \<Rightarrow> p)"
    using assms by (auto simp: gotoStateByCode_def dat_goto_def p Let_def dat_sized_def idx_def idxi_def at_or_def)
  show "dat_goto d s (dt_runes d ! k) \<noteq> Some 0"
    using assms(1) by (auto simp: dat_goto_def p Let_def dat_sized_def split: if_splits)
qed

lemma dat_goto_node:
  assumes l: "dat_layout g ix {(p, c, x). g p c = Some x} d P" and x: "x \<in> placed {(p, c, x). g p c = Some x}"
    and ix: "\<forall>c \<in> set (dt_runes d). pos (dt_runes d) c = Some (ix c)" "inj_on ix (set (dt_runes d))"
    and alpha: "\<forall>p c y. g p c = Some y \<longrightarrow> c \<in> set (dt_runes d)"
  shows "dat_goto d (P ! x) c = map_option ((!) P) (g x c)"
proof (cases "g x c")
  case (Some y)
  then have "c \<in> set (dt_runes d)" using alpha by blast
  moreover from l Some have "P ! y < dt_size d" "chk d (P ! y) = int (P ! x)"
    "int (P ! y) = at_or 0 (dt_base d) (P ! x) + int (ix c)" by (auto simp: dat_layout_def)
  ultimately show ?thesis using ix(1) Some by (simp add: dat_goto_def Let_def flip: \<open>int (P ! y) = _\<close>)
next
  case None
  show ?thesis
  proof (rule ccontr)
    assume "dat_goto d (P ! x) c \<noteq> map_option ((!) P) (g x c)"
    with None obtain k where k: "pos (dt_runes d) c = Some k"
      "0 \<le> at_or 0 (dt_base d) (P ! x) + int k" "chk d (nat (at_or 0 (dt_base d) (P ! x) + int k)) = int (P ! x)"
      by (auto simp: dat_goto_def Let_def split: option.splits if_splits)
    define q where "q = nat (at_or 0 (dt_base d) (P ! x) + int k)"
    have px: "1 \<le> P ! x" by (rule placed_pos(1)[OF l x])
    have "q \<noteq> 0" using k(3) l px by (auto simp: q_def dat_layout_def)
    moreover have "chk d q \<noteq> 0" using k(3) px by (simp add: q_def)
    ultimately obtain p c' y where e: "g p c' = Some y" "q = P ! y" using l unfolding dat_layout_def by blast
    with l have o: "p \<in> placed {(p, c, x). g p c = Some x}" "chk d (P ! y) = int (P ! p)"
      "int (P ! y) = at_or 0 (dt_base d) (P ! p) + int (ix c')" by (auto simp: dat_layout_def)
    from o(2) k(3) e(2) have "P ! p = P ! x" by (simp add: q_def)
    moreover have "inj_on ((!) P) (placed {(p, c, x). g p c = Some x})" using l by (simp add: dat_layout_def)
    ultimately have "p = x" using o(1) x by (auto dest: inj_onD)
    with o(3) k(2) e(2) have "ix c' = k" by (simp add: q_def)
    moreover have c: "c \<in> set (dt_runes d)" using k(1) pos_Some[of "dt_runes d" c k] by (metis nth_mem)
    then have "ix c = k" using ix(1) k(1) by simp
    moreover have "c' \<in> set (dt_runes d)" using alpha e(1) by blast
    ultimately have "c' = c" using ix(2) c by (auto dest: inj_onD)
    with e(1) \<open>p = x\<close> None show False by simp
  qed
qed

lemma dat_walk:
  assumes l: "dat_layout g ix {(p, c, x). g p c = Some x} d P"
    and ix: "\<forall>c \<in> set (dt_runes d). pos (dt_runes d) c = Some (ix c)" "inj_on ix (set (dt_runes d))"
    and alpha: "\<forall>p c y. g p c = Some y \<longrightarrow> c \<in> set (dt_runes d)"
  shows "walk (dat_goto d) 1 w = map_option ((!) P) (walk g 0 w)"
    "walk g 0 w = Some x \<Longrightarrow> x \<in> placed {(p, c, x). g p c = Some x}"
proof -
  have pl: "x \<in> placed {(p, c, x). g p c = Some x}" if "walk g 0 w = Some x" for w x
    using that by (cases w rule: rev_cases) (auto simp: placed_def walk_snoc image_iff split: Option.bind_splits)
  then show "walk g 0 w = Some x \<Longrightarrow> x \<in> placed {(p, c, x). g p c = Some x}" .
  show "walk (dat_goto d) 1 w = map_option ((!) P) (walk g 0 w)"
  proof (induction w rule: rev_induct)
    case Nil
    then show ?case using l by (simp add: dat_layout_def)
  next
    case (snoc c w)
    show ?case
    proof (cases "walk g 0 w")
      case (Some x)
      with snoc dat_goto_node[OF l pl[OF Some] ix alpha, of c] show ?thesis by (simp add: walk_snoc)
    qed (use snoc in \<open>simp add: walk_snoc\<close>)
  qed
qed

section \<open>The failure links are right\<close>

lemma followFail_correct:
  assumes sized: "dat_sized d" and trie: "is_trie (dat_goto d) 1 P"
    and range: "\<forall>w s. walk (dat_goto d) 1 w = Some s \<longrightarrow> s < dt_size d"
    and fl: "fails_upto (dat_goto d) 1 P (dat_fail d) n"
    and w: "walk (dat_goto d) 1 w = Some s" "length w \<le> n" and k: "k < length (dt_runes d)"
  shows "\<exists>t. followFailByCode d s k = Some t \<and> walk (dat_goto d) 1 (lsuf P (w @ [dt_runes d ! k])) = Some t"
  using w
proof (induction "length w" arbitrary: w s rule: less_induct)
  case less
  let ?g = "dat_goto d" and ?c = "dt_runes d ! k"
  have s: "s < dt_size d" using range less.prems(1) by blast
  note nx = gotoStateByCode_correct[OF sized s k]
  note closed = is_trie_closed[OF trie]
  show ?case
  proof (cases "?g s ?c")
    case (Some t)
    with less.prems(1) have t: "walk ?g 1 (w @ [?c]) = Some t" by (simp add: walk_snoc)
    have "lsuf P (w @ [?c]) = w @ [?c]" by (rule lsuf_id[OF is_trie_in[OF trie t]])
    with t nx Some show ?thesis by (subst followFailByCode.simps) simp
  next
    case None
    then have notin: "w @ [?c] \<notin> P" using goto_iff[OF trie less.prems(1), of ?c] by simp
    show ?thesis
    proof (cases "w = []")
      case True
      with less.prems(1) have "s = 1" by simp
      moreover from notin True have "lsuf P (w @ [?c]) = []" by simp
      ultimately show ?thesis using None nx by (subst followFailByCode.simps) (simp add: datRootPos_def)
    next
      case False
      then have "s \<noteq> datRootPos" using is_trie_root[OF trie] less.prems(1) by (metis datRootPos_def)
      from fl False less.prems obtain f where f: "dat_fail d s = Some f" "walk ?g 1 (lps P w) = Some f"
        unfolding fails_upto_def by blast
      have lt: "length (lps P w) < length w" using False by simp
      from less.hyps[OF lt f(2)] less.prems(2) lt obtain t
        where "followFailByCode d f k = Some t" "walk ?g 1 (lsuf P (lps P w @ [?c])) = Some t" by auto
      with f(1) None \<open>s \<noteq> datRootPos\<close> nx lsuf_fail[OF closed False notin] show ?thesis
        by (subst followFailByCode.simps) simp
    qed
  qed
qed

text \<open>What the pass leaves alone: everything but the two links.\<close>

definition dat_frame :: "doubleArrayTrie \<Rightarrow> doubleArrayTrie \<Rightarrow> bool" where
  "dat_frame d0 d \<longleftrightarrow> d = d0\<lparr>dt_fail := dt_fail d, dt_out := (dt_out d0)\<lparr>outLink := outLink (dt_out d)\<rparr>\<rparr> \<and>
     length (dt_fail d) = dt_size d0 \<and> length (outLink (dt_out d)) = dt_size d0"

lemma dat_frameD:
  assumes "dat_frame d0 d"
  shows "dt_base d = dt_base d0" "dt_check d = dt_check d0" "dt_size d = dt_size d0" "dt_runes d = dt_runes d0"
    "dt_coder d = dt_coder d0" "dt_depth d = dt_depth d0" "dt_trieDepth d = dt_trieDepth d0"
    "own (dt_out d) = own (dt_out d0)" "kwords (dt_out d) = kwords (dt_out d0)"
    "runeLens (dt_out d) = runeLens (dt_out d0)" "dat_goto d = dat_goto d0" "dat_sized d \<longleftrightarrow> dat_sized d0"
    "length (dt_fail d) = dt_size d0" "length (outLink (dt_out d)) = dt_size d0"
proof -
  let ?fs = "dt_fail d" and ?ol = "outLink (dt_out d)"
  have d: "d = d0\<lparr>dt_fail := ?fs, dt_out := (dt_out d0)\<lparr>outLink := ?ol\<rparr>\<rparr>" using assms by (simp add: dat_frame_def)
  show fields: "dt_base d = dt_base d0" "dt_check d = dt_check d0" "dt_size d = dt_size d0" "dt_runes d = dt_runes d0"
    "dt_coder d = dt_coder d0" "dt_depth d = dt_depth d0" "dt_trieDepth d = dt_trieDepth d0"
    by (subst d, simp)+
  show "own (dt_out d) = own (dt_out d0)" "kwords (dt_out d) = kwords (dt_out d0)"
    "runeLens (dt_out d) = runeLens (dt_out d0)" by (subst d, simp)+
  show "dat_goto d = dat_goto d0" unfolding dat_goto_def[abs_def] fields by (rule refl)
  show "dat_sized d \<longleftrightarrow> dat_sized d0" by (simp add: dat_sized_def fields)
  show "length (dt_fail d) = dt_size d0" "length (outLink (dt_out d)) = dt_size d0" using assms by (simp_all add: dat_frame_def)
qed

definition dat_keeps :: "doubleArrayTrie \<Rightarrow> doubleArrayTrie \<Rightarrow> goto \<Rightarrow> (nat \<Rightarrow> nat) \<Rightarrow> bool" where
  "dat_keeps d0 d g own_of \<longleftrightarrow> dat_frame d0 d \<and> dat_sized d0 \<and> g = dat_goto d0 \<and> own_of = at_or 0 (own (dt_out d0)) \<and>
     (\<forall>w s. walk g 1 w = Some s \<longrightarrow> s < dt_size d0) \<and> length (own (dt_out d0)) = dt_size d0"

text \<open>The failure target by rune; a rune outside the alphabet leads to the root.\<close>

definition dat_target :: "doubleArrayTrie \<Rightarrow> nat \<Rightarrow> rune \<Rightarrow> nat option" where
  "dat_target d f c = (case pos (dt_runes d) c of None \<Rightarrow> Some 1 | Some k \<Rightarrow> followFailByCode d f k)"

interpretation dl: link_store dat_fail dat_own dat_link dat_setLinks dat_target 1 "dat_keeps d0" for d0
proof unfold_locales
  fix st g own_of w s f l
  assume k: "dat_keeps d0 st g own_of" and w: "walk g 1 w = Some s"
  then have fr: "dat_frame d0 st" and s: "s < dt_size d0" by (auto simp: dat_keeps_def)
  note fd = dat_frameD[OF fr]
  show "dat_own st s = Some (own_of s)" using k s fd(8) by (simp add: dat_keeps_def idx_def at_or_def)
  let ?d = "st\<lparr>dt_fail := (dt_fail st)[s := f], dt_out := (dt_out st)\<lparr>outLink := (outLink (dt_out st))[s := l]\<rparr>\<rparr>"
  have st: "st = d0\<lparr>dt_fail := dt_fail st, dt_out := (dt_out d0)\<lparr>outLink := outLink (dt_out st)\<rparr>\<rparr>"
    using fr by (simp add: dat_frame_def)
  have "?d = d0\<lparr>dt_fail := dt_fail ?d, dt_out := (dt_out d0)\<lparr>outLink := outLink (dt_out ?d)\<rparr>\<rparr>"
    by (subst st, subst (3) st) simp
  then have "dat_frame d0 ?d" using fd(13,14) by (simp add: dat_frame_def)
  then have "dat_keeps d0 ?d g own_of" using k by (simp add: dat_keeps_def)
  moreover have "dat_setLinks st s f l = Some ?d" using s fd(13,14) by (simp add: dat_setLinks_def go_simps)
  moreover have "dat_fail ?d = (dat_fail st)(s \<mapsto> f)" "dat_link ?d = (dat_link st)(s \<mapsto> l)"
    using s fd(13,14) by (auto simp: idx_def nth_list_update)
  ultimately show "\<exists>st'. dat_setLinks st s f l = Some st' \<and> dat_keeps d0 st' g own_of \<and>
      dat_fail st' = (dat_fail st)(s \<mapsto> f) \<and> dat_link st' = (dat_link st)(s \<mapsto> l)" by blast
next
  fix st g own_of P n v f c
  assume k: "dat_keeps d0 st g own_of" and trie: "is_trie g 1 P" and fl: "fails_upto g 1 P (dat_fail st) n"
    and v: "walk g 1 v = Some f" "length v \<le> n"
  then have fr: "dat_frame d0 st" and g: "g = dat_goto st" and sized: "dat_sized st"
    using dat_frameD[of d0 st] by (auto simp: dat_keeps_def)
  have range: "\<forall>w s. walk (dat_goto st) 1 w = Some s \<longrightarrow> s < dt_size st"
    using k g dat_frameD(3)[OF fr] by (auto simp: dat_keeps_def)
  show "\<exists>t. dat_target st f c = Some t \<and> walk g 1 (lsuf P (v @ [c])) = Some t"
  proof (cases "pos (dt_runes st) c")
    case None
    have "lsuf P (v @ [c]) = []"
    proof (rule ccontr)
      assume "lsuf P (v @ [c]) \<noteq> []"
      then obtain u e where u: "lsuf P (v @ [c]) = u @ [e]" by (cases "lsuf P (v @ [c])" rule: rev_cases) auto
      with suffix_lsuf[of P "v @ [c]"] have "e = c" by (auto simp: suffix_def)
      have "[] \<in> P" using is_trie_in[OF trie, of "[]"] by simp
      then have "u @ [c] \<in> P" using lsuf_in[of P "v @ [c]"] u \<open>e = c\<close> by simp
      from is_trie_walk[OF trie this] obtain s t where "g s c = Some t"
        by (auto simp: walk_snoc split: Option.bind_splits)
      with None show False by (simp add: g dat_goto_def)
    qed
    with None show ?thesis by (simp add: dat_target_def)
  next
    case (Some k)
    from pos_Some[OF Some] have k: "k < length (dt_runes st)" "dt_runes st ! k = c" by simp_all
    from followFail_correct[OF sized trie[unfolded g] range fl[unfolded g] v[unfolded g] k(1)] k(2) Some
    show ?thesis by (simp add: dat_target_def g)
  qed
qed

lemma dat_visit_correct:
  assumes k: "dat_keeps d0 d g own_of" and trie: "is_trie g 1 P" and dom: "dom D \<subseteq> P" and nil: "D [] = None"
    and int: "interned g 1 own_of out D" and linked: "linked g 1 P D (dat_fail d) (dat_link d) S"
    and w: "walk g 1 w = Some s" "w \<noteq> []" and cover: "covers g 1 S (length w)"
  shows "\<exists>found d'. dat_visit s d = Some (found, d') \<and> distinct found \<and> set found = {x. \<exists>c. g s c = Some x} \<and>
    dat_keeps d0 d' g own_of \<and> linked g 1 P D (dat_fail d') (dat_link d') (S \<union> set found)"
proof -
  let ?A = "dt_runes d0"
  let ?f = "\<lambda>k. g s (?A ! k)"
  from k have g: "g = dat_goto d0" and sized: "dat_sized d0" and s: "s < dt_size d0"
    using w(1) by (auto simp: dat_keeps_def)
  have runes: "dt_runes d' = ?A" "dt_size d' = dt_size d0" "dat_goto d' = g" "dat_sized d'"
    if "dat_keeps d0 d' g own_of" for d'
    using that dat_frameD[of d0 d'] by (auto simp: dat_keeps_def)
  have pk: "pos ?A (?A ! j) = Some j" if "j < length ?A" for j
    using that sized by (simp add: dat_sized_def pos_nth)
  let ?I = "\<lambda>ks (q, d'). q = List.map_filter ?f ks \<and> dat_keeps d0 d' g own_of \<and>
    linked g 1 P D (dat_fail d') (dat_link d') (S \<union> set q)"
  have "\<exists>qd. foldM (dat_linkCode s) [0..<length ?A] ([], d) = Some qd \<and> ?I [0..<length ?A] qd"
  proof (rule foldM_invariant)
    fix ks j zs qd
    assume split: "[0..<length ?A] = ks @ j # zs" and I: "?I ks qd"
    have j: "j < length ?A" using split by (metis atLeastLessThan_iff in_set_conv_decomp set_upt)
    obtain q d1 where qd: "qd = (q, d1)" by (cases qd)
    from I qd have q: "q = List.map_filter ?f ks" and k1: "dat_keeps d0 d1 g own_of"
      and l1: "linked g 1 P D (dat_fail d1) (dat_link d1) (S \<union> set q)" by auto
    note r1 = runes[OF k1]
    have j1: "j < length (dt_runes d1)" "s < dt_size d1" using j s r1 by simp_all
    note gt = gotoStateByCode_correct[OF r1(4) j1(2,1), unfolded r1]
    show "\<exists>qd'. dat_linkCode s j qd = Some qd' \<and> ?I (ks @ [j]) qd'"
    proof (cases "g s (?A ! j)")
      case None
      with gt I qd show ?thesis by (auto simp: dat_linkCode_def List.map_filter_def)
    next
      case (Some x)
      have "covers g 1 (S \<union> set q) (length w)" using cover by (rule covers_mono) simp
      from dl.linkChild_correct[OF k1 trie dom nil int l1 w this Some, of q] obtain d2
        where d2: "linkChild dat_fail dat_own dat_link dat_setLinks dat_target s (?A ! j, x) (q, d1) = Some (q @ [x], d2)"
          "dat_keeps d0 d2 g own_of" "linked g 1 P D (dat_fail d2) (dat_link d2) (insert x (S \<union> set q))" by blast
      have "linkChild dat_fail dat_own dat_link dat_setLinks followFailByCode s (j, x) (q, d1) = Some (q @ [x], d2)"
        using d2(1) pk[OF j] r1(1) by (simp add: linkChild_def dat_target_def)
      with gt Some qd have "dat_linkCode s j qd = Some (q @ [x], d2)" by (simp add: dat_linkCode_def)
      moreover have "q @ [x] = List.map_filter ?f (ks @ [j])" using q Some by (simp add: List.map_filter_def)
      moreover have "insert x (S \<union> set q) = S \<union> set (q @ [x])" by auto
      ultimately show ?thesis using d2(2,3) by auto
    qed
  qed (use k linked in \<open>auto simp: List.map_filter_def\<close>)
  then obtain d' where r: "foldM (dat_linkCode s) [0..<length ?A] ([], d) = Some (List.map_filter ?f [0..<length ?A], d')"
    "dat_keeps d0 d' g own_of" "linked g 1 P D (dat_fail d') (dat_link d') (S \<union> set (List.map_filter ?f [0..<length ?A]))"
    by auto
  let ?found = "List.map_filter ?f [0..<length ?A]"
  have "set ?found = {x. \<exists>c. g s c = Some x}"
  proof (intro set_eqI iffI)
    fix x
    assume "x \<in> {x. \<exists>c. g s c = Some x}"
    then obtain c where c: "g s c = Some x" by blast
    then obtain j where "pos ?A c = Some j" by (auto simp: g dat_goto_def split: option.splits)
    from pos_Some[OF this] c show "x \<in> set ?found" by (force simp: List.map_filter_def image_iff)
  qed (auto simp: List.map_filter_def)
  moreover have "distinct ?found"
  proof -
    have "?found = map snd (List.map_filter (\<lambda>j. map_option (Pair (?A ! j)) (?f j)) [0..<length ?A])"
      by (auto simp: List.map_filter_def comp_def)
    moreover have "distinct (map snd (List.map_filter (\<lambda>j. map_option (Pair (?A ! j)) (?f j)) [0..<length ?A]))"
    proof (rule distinct_children[OF trie w(1)])
      have "map fst (List.map_filter (\<lambda>j. map_option (Pair (?A ! j)) (?f j)) [0..<length ?A]) =
          map ((!) ?A) (filter (\<lambda>j. ?f j \<noteq> None) [0..<length ?A])"
        by (auto simp: List.map_filter_def comp_def intro!: map_cong filter_cong)
      moreover have "distinct (map ((!) ?A) (filter (\<lambda>j. ?f j \<noteq> None) [0..<length ?A]))"
        using sized by (auto simp: distinct_map dat_sized_def inj_on_def nth_eq_iff_index_eq)
      ultimately show "distinct (map fst (List.map_filter (\<lambda>j. map_option (Pair (?A ! j)) (?f j)) [0..<length ?A]))"
        by simp
    qed (auto simp: List.map_filter_def)
    ultimately show ?thesis by simp
  qed
  moreover have "dat_visit s d = Some (?found, d')" using r(1) runes(1)[OF k] by (simp add: dat_visit_def)
  ultimately show ?thesis using r(2,3) by blast
qed

section \<open>The finished arrays\<close>

text \<open>The double array is a trie of the dictionary; its links are not set yet.\<close>

definition dat_trie :: "doubleArrayTrie \<Rightarrow> dict \<Rightarrow> bool" where
  "dat_trie d D \<longleftrightarrow> dat_sized d \<and> is_trie (dat_goto d) 1 (states D) \<and>
     (\<forall>w s. walk (dat_goto d) 1 w = Some s \<longrightarrow> s < dt_size d) \<and>
     (\<forall>s. 1 < s \<longrightarrow> s < dt_size d \<longrightarrow> chk d s \<noteq> 0 \<longrightarrow> (\<exists>w. walk (dat_goto d) 1 w = Some s)) \<and>
     {x. \<exists>c. dat_goto d 1 c = Some x} = {i. 2 \<le> i \<and> i < dt_size d \<and> chk d i = 1} \<and>
     interned (dat_goto d) 1 (at_or 0 (own (dt_out d))) (dt_out d) D \<and> length (own (dt_out d)) = dt_size d \<and>
     dt_trieDepth d = Max (length ` states D)"

definition dat_deep :: "doubleArrayTrie \<Rightarrow> bool" where
  "dat_deep d \<longleftrightarrow> length (dt_depth d) = dt_size d \<and>
     (\<forall>w s. walk (dat_goto d) 1 w = Some s \<longrightarrow> at_or 0 (dt_depth d) s = length w)"

definition trimmed :: "doubleArrayTrie \<Rightarrow> doubleArrayTrie" where
  "trimmed d1 =
     (let n = dt_size d1;
          own' = (if length (own (dt_out d1)) < n then grown n 0 (own (dt_out d1)) else own (dt_out d1))
      in d1\<lparr>dt_base := take n (dt_base d1), dt_check := take n (dt_check d1),
            dt_fail := take n (dt_fail d1), dt_depth := take n (dt_depth d1),
            dt_out := (dt_out d1)\<lparr>own := own', outLink := replicate n outNone\<rparr>\<rparr>)"

lemma at_or_take: "i < n \<Longrightarrow> at_or z (take n xs) i = at_or z xs i"
  by (simp add: at_or_def)

lemma trimmed_fields:
  assumes l: "dat_layout g ix E d P" and own: "length (own (dt_out d)) \<le> dt_size d"
  shows "dt_size (trimmed d) = dt_size d" "dt_runes (trimmed d) = dt_runes d" "dt_coder (trimmed d) = dt_coder d"
    "length (dt_base (trimmed d)) = dt_size d" "length (dt_check (trimmed d)) = dt_size d"
    "length (dt_fail (trimmed d)) = dt_size d" "length (dt_depth (trimmed d)) = dt_size d"
    "length (own (dt_out (trimmed d))) = dt_size d" "outLink (dt_out (trimmed d)) = replicate (dt_size d) outNone"
    "at_or 0 (own (dt_out (trimmed d))) = at_or 0 (own (dt_out d))"
    "kwords (dt_out (trimmed d)) = kwords (dt_out d)" "runeLens (dt_out (trimmed d)) = runeLens (dt_out d)"
    "chk (trimmed d) = chk d" "dt_trieDepth (trimmed d) = dt_trieDepth d"
    "s < dt_size d \<Longrightarrow> at_or 0 (dt_base (trimmed d)) s = at_or 0 (dt_base d) s"
    "s < dt_size d \<Longrightarrow> at_or 0 (dt_depth (trimmed d)) s = at_or 0 (dt_depth d) s"
    "dt_fail (trimmed d) = replicate (dt_size d) 0"
proof -
  from l have a: "dat_arrays d" "at_or 0 (dt_fail d) = (\<lambda>_. 0)" by (auto simp: dat_layout_def)
  then have len: "length (dt_base d) = dt_cap d" "length (dt_check d) = dt_cap d" "length (dt_fail d) = dt_cap d"
    "length (dt_depth d) = dt_cap d" "dt_size d \<le> dt_cap d" by (auto simp: dat_arrays_def)
  show "dt_size (trimmed d) = dt_size d" "dt_runes (trimmed d) = dt_runes d" "dt_coder (trimmed d) = dt_coder d"
    "length (dt_base (trimmed d)) = dt_size d" "length (dt_check (trimmed d)) = dt_size d"
    "length (dt_fail (trimmed d)) = dt_size d" "length (dt_depth (trimmed d)) = dt_size d"
    "outLink (dt_out (trimmed d)) = replicate (dt_size d) outNone"
    "kwords (dt_out (trimmed d)) = kwords (dt_out d)" "runeLens (dt_out (trimmed d)) = runeLens (dt_out d)"
    "dt_trieDepth (trimmed d) = dt_trieDepth d"
    using len by (simp_all add: trimmed_def Let_def)
  show "at_or 0 (dt_base (trimmed d)) s = at_or 0 (dt_base d) s" if "s < dt_size d"
    using that by (simp add: trimmed_def Let_def at_or_take)
  show "at_or 0 (dt_depth (trimmed d)) s = at_or 0 (dt_depth d) s" if "s < dt_size d"
    using that by (simp add: trimmed_def Let_def at_or_take)
  show "length (own (dt_out (trimmed d))) = dt_size d" "at_or 0 (own (dt_out (trimmed d))) = at_or 0 (own (dt_out d))"
    using own by (simp_all add: trimmed_def Let_def at_or_grown)
  have "chk (trimmed d) q = chk d q" for q
  proof (cases "q < dt_size d")
    case True
    then show ?thesis by (simp add: trimmed_def Let_def at_or_take)
  next
    case False
    then have "chk d q = 0" using layout_free[OF l] by simp
    moreover have "chk (trimmed d) q = 0" using False len by (simp add: trimmed_def Let_def at_or_def)
    ultimately show ?thesis by simp
  qed
  then show "chk (trimmed d) = chk d" by (rule ext)
  have "dt_fail d ! i = 0" if "i < dt_cap d" for i
    using fun_cong[OF a(2), of i] len that by (simp add: at_or_def)
  then show "dt_fail (trimmed d) = replicate (dt_size d) 0"
    using len by (intro nth_equalityI) (simp_all add: trimmed_def Let_def)
qed

lemma layout_occupied: "dat_layout g ix E d P \<Longrightarrow> 0 < q \<Longrightarrow> chk d q \<noteq> 0 \<Longrightarrow> \<exists>(p, c, x) \<in> E. q = P ! x"
  unfolding dat_layout_def by blast

lemma chk_state:
  assumes l: "dat_layout g ix E d P" and "chk d q = int s" and "0 < s"
  shows "s < dt_size d"
proof -
  have "chk d 0 = -1" using l by (simp add: dat_layout_def)
  with assms(2,3) have q: "0 < q" by (cases q) auto
  from assms(2,3) have "chk d q \<noteq> 0" by simp
  from layout_occupied[OF l q this] obtain p c x where e: "(p, c, x) \<in> E" "q = P ! x" by blast
  from l e(1) have "p \<in> placed E \<and> chk d (P ! x) = int (P ! p)" unfolding dat_layout_def by blast
  with placed_pos(2)[OF l, of p] e(2) assms(2) show ?thesis by simp
qed

lemma trimmed_goto:
  assumes l: "dat_layout g ix E d P" and own: "length (own (dt_out d)) \<le> dt_size d" and s: "0 < s"
  shows "dat_goto (trimmed d) s = dat_goto d s"
proof
  fix c
  note f = trimmed_fields[OF l own]
  show "dat_goto (trimmed d) s c = dat_goto d s c"
  proof (cases "s < dt_size d")
    case True
    with f show ?thesis by (simp add: dat_goto_def Let_def split: option.splits)
  next
    case False
    then have "chk d q \<noteq> int s" for q using chk_state[OF l _ s] by blast
    with f show ?thesis by (simp add: dat_goto_def Let_def split: option.splits)
  qed
qed

lemma trimmed_trie:
  assumes inv: "dat_inv t D A co ix {(p, c, x). tmp_goto t p c = Some x} d P" and holds: "tmp_holds t D"
    and D: "dict_ok D" "\<forall>w \<in> states D. set w \<subseteq> set A" "distinct A"
    and ix: "\<forall>c \<in> set A. pos A c = Some (ix c)"
  shows "dat_trie (trimmed d) D" and "dt_coder (trimmed d) = co" and "dt_runes (trimmed d) = A" and "dat_deep (trimmed d)"
proof -
  let ?g = "tmp_goto t" and ?E = "{(p, c, x). tmp_goto t p c = Some x}" and ?t = "trimmed d"
  have l: "dat_layout ?g ix ?E d P" and dep: "dat_depths ?g ?E d P" and ids: "dat_ids ?g D ?E (dt_out d) P"
    and A: "dt_runes d = A" "dt_coder d = co" and own: "length (own (dt_out d)) \<le> dt_size d"
    using inv by (simp_all add: dat_inv_def)
  note f = trimmed_fields[OF l own]
  from f(2,3) A show "dt_coder ?t = co" "dt_runes ?t = A" by simp_all
  from holds have trie0: "is_trie ?g 0 (states D)" using tt.trie_of_trie by (simp add: tmp_holds_def)
  have upto: "trie_upto ?g (nextID t) (states D)" using holds by (simp add: tmp_holds_def tt.trie_of_def)
  have inj: "inj_on ix (set A)" using ix by (metis inj_onI option.inject pos_Some)
  have alpha: "\<forall>p c y. ?g p c = Some y \<longrightarrow> c \<in> set A"
  proof (intro allI impI)
    fix p c y
    assume y: "?g p c = Some y"
    with upto have "p < nextID t" by (auto simp: trie_upto_def)
    with upto obtain w where "walk ?g 0 w = Some p" by (auto simp: trie_upto_def)
    with y have "walk ?g 0 (w @ [c]) = Some y" by (simp add: walk_snoc)
    from is_trie_in[OF trie0 this] D(2) show "c \<in> set A" by fastforce
  qed
  have walk1: "walk (dat_goto d) 1 w = map_option ((!) P) (walk ?g 0 w)" for w
    using dat_walk(1)[OF l] ix inj alpha A(1) by simp
  have wplaced: "walk ?g 0 w = Some x \<Longrightarrow> x \<in> placed ?E" for w x
    using dat_walk(2)[OF l] ix inj alpha A(1) by simp
  have pos: "1 \<le> P ! x" "P ! x < dt_size d" if "walk ?g 0 w = Some x" for w x
    using placed_pos[OF l wplaced[OF that]] by auto
  have walk: "walk (dat_goto ?t) 1 w = map_option ((!) P) (walk ?g 0 w)" for w
  proof (induction w rule: rev_induct)
    case Nil
    then show ?case using l by (simp add: dat_layout_def)
  next
    case (snoc c w)
    show ?case
    proof (cases "walk ?g 0 w")
      case None
      with snoc show ?thesis by (simp add: walk_snoc)
    next
      case (Some x)
      with snoc trimmed_goto[OF l own, of "P ! x"] pos[OF Some] walk1[of "w @ [c]"] walk1[of w] show ?thesis
        by (simp add: walk_snoc)
    qed
  qed
  have injP: "\<forall>v w s u. walk ?g 0 v = Some s \<longrightarrow> walk ?g 0 w = Some u \<longrightarrow> P ! s = P ! u \<longrightarrow> s = u"
    using l wplaced unfolding dat_layout_def inj_on_def by blast
  have reach: "\<exists>w. walk ?g 0 w = Some x" if "x \<in> placed ?E" for x
  proof (cases "x = 0")
    case True
    then have "walk ?g 0 [] = Some x" by simp
    then show ?thesis by blast
  next
    case False
    with that upto have "x < nextID t" by (auto simp: placed_def trie_upto_def)
    with upto show ?thesis by (simp add: trie_upto_def)
  qed
  have words: "words_of ?g ?E = states D"
    using is_trie_walk[OF trie0] is_trie_in[OF trie0] wplaced by (auto simp: words_of_def) blast
  have nil: "dom D \<subseteq> states D" by (rule dom_subset_states)
  have "dat_sized ?t" using f l D(3) A(1) by (simp add: dat_sized_def dat_layout_def dat_arrays_def)
  moreover have "is_trie (dat_goto ?t) 1 (states D)" using is_trie_relabel[OF trie0 _ injP] walk by blast
  moreover have deep: "\<forall>w s. walk (dat_goto ?t) 1 w = Some s \<longrightarrow> s < dt_size ?t \<and> at_or 0 (dt_depth ?t) s = length w"
  proof (intro allI impI)
    fix w s
    assume "walk (dat_goto ?t) 1 w = Some s"
    then obtain x where x: "walk ?g 0 w = Some x" "s = P ! x" unfolding walk by auto
    with dep wplaced[OF x(1)] have "at_or 0 (dt_depth d) s = length w" by (simp add: dat_depths_def)
    with pos(2)[OF x(1)] x(2) f(1,16) show "s < dt_size ?t \<and> at_or 0 (dt_depth ?t) s = length w" by simp
  qed
  moreover have "\<exists>w. walk (dat_goto ?t) 1 w = Some s" if "1 < s" "chk ?t s \<noteq> 0" for s
  proof -
    from that l f(13) have "\<exists>(p, c, x) \<in> ?E. s = P ! x" unfolding dat_layout_def by auto
    then obtain p c x where e: "?g p c = Some x" "s = P ! x" by auto
    then have "x \<in> placed ?E" unfolding placed_def by force
    from reach[OF this] e(2) walk show ?thesis by fastforce
  qed
  moreover have "{x. \<exists>c. dat_goto ?t 1 c = Some x} = {i. 2 \<le> i \<and> i < dt_size ?t \<and> chk ?t i = 1}"
  proof (intro set_eqI iffI)
    fix i
    assume "i \<in> {x. \<exists>c. dat_goto ?t 1 c = Some x}"
    then obtain c where c: "dat_goto ?t 1 c = Some i" by blast
    then have "map_option ((!) P) (walk ?g 0 [c]) = Some i" using walk[of "[c]"] by simp
    then obtain x where x: "walk ?g 0 [c] = Some x" "i = P ! x" by blast
    have "x \<noteq> 0" using is_trie_root[OF trie0, of "[c]"] x(1) by auto
    with placed_pos(3)[OF l wplaced[OF x(1)]] x(2) have "2 \<le> i" by simp
    with c show "i \<in> {i. 2 \<le> i \<and> i < dt_size ?t \<and> chk ?t i = 1}"
      by (auto simp: dat_goto_def Let_def split: option.splits if_splits)
  next
    fix i
    assume "i \<in> {i. 2 \<le> i \<and> i < dt_size ?t \<and> chk ?t i = 1}"
    then have i: "0 < i" "chk d i = 1" using f(13) by auto
    then have "\<exists>(p, c, x) \<in> ?E. i = P ! x" using layout_occupied[OF l] by simp
    then obtain p c x where e: "(p, c, x) \<in> ?E" "i = P ! x" by blast
    from l e(1) have p: "p \<in> placed ?E" "chk d (P ! x) = int (P ! p)" unfolding dat_layout_def by blast+
    have "P ! p = P ! 0" using p(2) e(2) i(2) l by (simp add: dat_layout_def)
    moreover have "inj_on ((!) P) (placed ?E)" using l unfolding dat_layout_def by blast
    moreover have "0 \<in> placed ?E" by (simp add: placed_def)
    ultimately have "p = 0" using p(1) by (simp add: inj_on_eq_iff)
    with e have "walk ?g 0 [c] = Some x" by simp
    then have "walk (dat_goto ?t) 1 [c] = Some i" unfolding walk using e(2) by simp
    then show "i \<in> {x. \<exists>c. dat_goto ?t 1 c = Some x}" by (auto split: Option.bind_splits)
  qed
  moreover have "interned (dat_goto ?t) 1 (at_or 0 (own (dt_out ?t))) (dt_out ?t) D"
  proof -
    have "(D |` states D) w = D w" for w using nil by (cases "D w") (auto simp: restrict_map_def)
    then have "D |` words_of ?g ?E = D" unfolding words by (intro ext) simp
    with ids have "interned ?g 0 (\<lambda>x. if x \<in> placed ?E then at_or 0 (own (dt_out d)) (P ! x) else 0) (dt_out d) D"
      by (simp add: dat_ids_def)
    then have "interned (dat_goto ?t) 1 (at_or 0 (own (dt_out d))) (dt_out d) D"
    proof (rule interned_relabel[where f = "(!) P"])
      show "\<forall>w. walk (dat_goto ?t) 1 w = map_option ((!) P) (walk ?g 0 w)" using walk by blast
      show "\<forall>w s. walk ?g 0 w = Some s \<longrightarrow>
          at_or 0 (own (dt_out d)) (P ! s) = (if s \<in> placed ?E then at_or 0 (own (dt_out d)) (P ! s) else 0)"
        using wplaced by simp
      show "\<forall>q. at_or 0 (own (dt_out d)) q \<noteq> 0 \<longrightarrow> (\<exists>w s. walk ?g 0 w = Some s \<and> q = P ! s)"
        using ids reach unfolding dat_ids_def by blast
    qed (rule injP)
    then show ?thesis using interned_cong_out[of "dt_out ?t" "dt_out d"] f(10,11,12) by simp
  qed
  moreover have "dt_trieDepth ?t = Max (length ` states D)" using f(14) dep words by (simp add: dat_depths_def)
  ultimately show "dat_trie ?t D" using f(1,8) by (simp add: dat_trie_def)
  show "dat_deep ?t" using deep f(1,7) by (simp add: dat_deep_def)
qed

lemma rootChildren:
  assumes "\<forall>i \<in> set is. i < length (dt_check d) \<and> i < length (dt_fail d)"
  shows "\<exists>fl. foldM dat_rootChild is (q, d) = Some (q @ filter (\<lambda>i. chk d i = 1) is, d\<lparr>dt_fail := fl\<rparr>) \<and>
    length fl = length (dt_fail d) \<and> (\<forall>i. fl ! i = (if i \<in> set is \<and> chk d i = 1 then 1 else dt_fail d ! i))"
  using assms
proof (induction "is" arbitrary: q d)
  case Nil
  then show ?case by (auto intro!: exI[of _ "dt_fail d"])
next
  case (Cons i "is")
  define f1 where "f1 = (if chk d i = 1 then (dt_fail d)[i := 1] else dt_fail d)"
  define q1 where "q1 = (if chk d i = 1 then q @ [i] else q)"
  define d1 where "d1 = d\<lparr>dt_fail := f1\<rparr>"
  have same: "dt_check d1 = dt_check d" "dt_fail d1 = f1" "length f1 = length (dt_fail d)"
    "d1\<lparr>dt_fail := fl\<rparr> = d\<lparr>dt_fail := fl\<rparr>" for fl by (simp_all add: d1_def f1_def)
  from Cons.prems have "dat_rootChild i (q, d) = Some (q1, d1)"
    by (simp add: dat_rootChild_def go_simps at_or_def datRootPos_def q1_def d1_def f1_def)
  moreover from Cons.IH[of d1 q1] Cons.prems obtain fl where
    "foldM dat_rootChild is (q1, d1) = Some (q1 @ filter (\<lambda>i. chk d i = 1) is, d\<lparr>dt_fail := fl\<rparr>)"
    "length fl = length (dt_fail d)" "\<forall>j. fl ! j = (if j \<in> set is \<and> chk d j = 1 then 1 else f1 ! j)"
    unfolding same by auto
  moreover have "f1 ! j = (if j = i \<and> chk d i = 1 then 1 else dt_fail d ! j)" for j
    using Cons.prems by (auto simp: f1_def nth_list_update)
  ultimately show ?case by (auto intro!: exI[of _ fl] simp: q1_def)
qed

lemma computeFailLinks_correct:
  assumes dt: "dat_trie d D" and D: "D [] = None" "finite (states D)"
    and len: "length (dt_fail d) = dt_size d" "outLink (dt_out d) = replicate (dt_size d) outNone"
  shows "\<exists>d'. computeFailLinks d = Some d' \<and> dat_frame d d' \<and>
    linked (dat_goto d) 1 (states D) D (dat_fail d') (dat_link d') UNIV"
proof -
  let ?g = "dat_goto d" and ?own = "at_or 0 (own (dt_out d))" and ?q = "filter (\<lambda>i. chk d i = 1) [2..<dt_size d]"
  have sized: "dat_sized d" and trie: "is_trie ?g 1 (states D)"
    and walks: "\<forall>w s. walk ?g 1 w = Some s \<longrightarrow> s < dt_size d"
    and kids: "{x. \<exists>c. ?g 1 c = Some x} = {i. 2 \<le> i \<and> i < dt_size d \<and> chk d i = 1}"
    and int: "interned ?g 1 ?own (dt_out d) D" and own: "length (own (dt_out d)) = dt_size d"
    using dt by (auto simp: dat_trie_def)
  from rootChildren[of "[2..<dt_size d]" d "[]"] sized len obtain fl where
    fl: "foldM dat_rootChild [2..<dt_size d] ([], d) = Some (?q, d\<lparr>dt_fail := fl\<rparr>)" "length fl = dt_size d"
      "\<forall>i. fl ! i = (if i \<in> set [2..<dt_size d] \<and> chk d i = 1 then 1 else dt_fail d ! i)"
    by (auto simp: dat_sized_def)
  define d1 where "d1 = d\<lparr>dt_fail := fl[1 := 1]\<rparr>"
  have two: "1 < dt_size d" using sized by (simp add: dat_sized_def)
  have lev: "set ?q = level ?g 1 1" unfolding level_one kids by auto
  have frame: "dat_frame d d1" using fl(2) len by (simp add: dat_frame_def d1_def)
  have keeps: "dat_keeps d d1 ?g ?own" using frame sized walks own by (simp add: dat_keeps_def)
  have init: "linked ?g 1 (states D) D (dat_fail d1) (dat_link d1) (set ?q)"
  proof (rule linked_init[OF _ lev trie])
    fix w s
    assume w: "walk ?g 1 w = Some s" "length w \<le> 1"
    then have s: "s < dt_size d" using walks by blast
    have "s = 1 \<or> s \<in> {x. \<exists>c. ?g 1 c = Some x}" using w by (cases w) (auto split: Option.bind_splits)
    then have "fl[1 := 1] ! s = 1" unfolding kids using fl(2,3) two by (auto simp: nth_list_update)
    with s fl(2) len show "dat_fail d1 s = Some 1 \<and> dat_link d1 s = Some outNone"
      by (simp add: d1_def idx_def)
  qed
  let ?I = "\<lambda>seen queue st. dat_keeps d st ?g ?own \<and>
      linked ?g 1 (states D) D (dat_fail st) (dat_link st) (set (seen @ queue))"
  have "\<exists>seen d'. worklist dat_visit ?q d1 = Some d' \<and> ?I seen [] d' \<and> distinct seen \<and>
      set seen = from_level ?g 1 1 \<and> sorted (map (node_depth ?g 1) seen)"
  proof (rule bfs_levels[OF trie D(2) _ lev])
    fix seen s rest st w
    assume I: "?I seen (s # rest) st" and w: "walk ?g 1 w = Some s" "1 \<le> length w"
      and cov: "\<And>v t'. walk ?g 1 v = Some t' \<Longrightarrow> 1 \<le> length v \<Longrightarrow> length v \<le> length w \<Longrightarrow> t' \<in> set (seen @ s # rest)"
    from cov have "covers ?g 1 (set (seen @ s # rest)) (length w)" by (auto simp: covers_def Suc_le_eq)
    moreover have "w \<noteq> []" using w(2) by auto
    ultimately obtain found st' where f: "dat_visit s st = Some (found, st')" "distinct found"
      "set found = {x. \<exists>c. ?g s c = Some x}" "dat_keeps d st' ?g ?own"
      "linked ?g 1 (states D) D (dat_fail st') (dat_link st') (set (seen @ s # rest) \<union> set found)"
      using dat_visit_correct[OF conjunct1[OF I] trie dom_subset_states D(1) int conjunct2[OF I] w(1)] by blast
    have "set (seen @ s # rest) \<union> set found = set ((seen @ [s]) @ (rest @ found))" by auto
    with f show "\<exists>found st'. dat_visit s st = Some (found, st') \<and> distinct found \<and>
        set found = {t'. \<exists>c. ?g s c = Some t'} \<and> ?I (seen @ [s]) (rest @ found) st'" by metis
  qed (use keeps init in simp_all)
  then obtain seen d' where r: "worklist dat_visit ?q d1 = Some d'" "?I seen [] d'" "set seen = from_level ?g 1 1"
    by blast
  have "linked ?g 1 (states D) D (dat_fail d') (dat_link d') UNIV"
    by (rule linked_all[OF conjunct2[OF r(2)]]) (simp add: r(3))
  moreover have "computeFailLinks d = Some d'"
    using fl(1,2) r(1) two by (simp add: computeFailLinks_def datRootPos_def numeral_2_eq_2 go_simps d1_def)
  ultimately show ?thesis using r(2) by (auto simp: dat_keeps_def)
qed


section \<open>The build is right\<close>

text \<open>What a finished double array is, for the engine that scans it.\<close>

definition dat_built :: "doubleArrayTrie \<Rightarrow> dict \<Rightarrow> bool" where
  "dat_built d D \<longleftrightarrow> dat_trie d D \<and> linked (dat_goto d) 1 (states D) D (dat_fail d) (dat_link d) UNIV \<and>
     coder_for (dt_runes d) (dt_coder d) \<and> (\<forall>v \<in> dom D. set v \<subseteq> set (dt_runes d)) \<and>
     length (dt_fail d) = dt_size d \<and> length (outLink (dt_out d)) = dt_size d \<and> length (dt_hasOutput d) = dt_size d \<and>
     (\<forall>w s. walk (dat_goto d) 1 w = Some s \<longrightarrow> dt_hasOutput d ! s = (outs_at D w \<noteq> [])) \<and>
     D [] = None \<and> (\<forall>v v' k. D v = Some k \<longrightarrow> D v' = Some k \<longrightarrow> v = v')"

lemma dat_goto_hasOutput: "dat_goto (d\<lparr>dt_hasOutput := fs\<rparr>) = dat_goto d"
  by (intro ext) (simp add: dat_goto_def split: option.splits)

lemma dat_trie_frame:
  assumes "dat_trie d D" and f: "dat_frame d d'"
  shows "dat_trie (d'\<lparr>dt_hasOutput := fs\<rparr>) D" "dat_goto (d'\<lparr>dt_hasOutput := fs\<rparr>) = dat_goto d"
proof -
  let ?d = "d'\<lparr>dt_hasOutput := fs\<rparr>"
  note k = dat_frameD[OF f]
  show g: "dat_goto ?d = dat_goto d" using k(11) by (simp add: dat_goto_hasOutput)
  have "interned (dat_goto d) 1 (at_or 0 (own (dt_out d))) (dt_out d') D"
    using assms(1) interned_cong_out[OF k(9,10)] by (simp add: dat_trie_def)
  with assms(1) k g show "dat_trie ?d D" by (simp add: dat_trie_def dat_sized_def)
qed

definition dat_flags :: "doubleArrayTrie \<Rightarrow> bool list" where
  "dat_flags d = map (\<lambda>s. own (dt_out d) ! s \<noteq> 0 \<or> outLink (dt_out d) ! s \<noteq> outNone) [0..<dt_size d]"

lemma dat_flags_correct:
  assumes dt: "dat_trie d D" and link: "linked (dat_goto d) 1 (states D) D (dat_fail d) (dat_link d) UNIV"
    and nil: "D [] = None" and len: "length (outLink (dt_out d)) = dt_size d" and w: "walk (dat_goto d) 1 w = Some s"
  shows "dat_flags d ! s = (outs_at D w \<noteq> [])"
proof -
  from dt w have s: "s < dt_size d" "s < length (own (dt_out d))" by (auto simp: dat_trie_def)
  from link w have "link_ok (dat_goto d) 1 D w (outLink (dt_out d) ! s)"
    by (auto simp: linked_def idx_eq_Some)
  moreover have "interned (dat_goto d) 1 (at_or 0 (own (dt_out d))) (dt_out d) D" using dt by (simp add: dat_trie_def)
  ultimately have "at_or 0 (own (dt_out d)) s \<noteq> 0 \<or> outLink (dt_out d) ! s \<noteq> outNone \<longleftrightarrow> outs_at D w \<noteq> []"
    using flag_correct w nil by blast
  with s show ?thesis by (simp add: dat_flags_def at_or_def)
qed

lemma dat_finish:
  assumes dt: "dat_trie d D" and D: "D [] = None" "finite (states D)" "\<forall>v v' k. D v = Some k \<longrightarrow> D v' = Some k \<longrightarrow> v = v'"
    and len: "length (dt_fail d) = dt_size d" "outLink (dt_out d) = replicate (dt_size d) outNone"
    and co: "coder_for (dt_runes d) (dt_coder d)" "\<forall>v \<in> dom D. set v \<subseteq> set (dt_runes d)"
  shows "\<exists>d3. computeFailLinks d = Some d3 \<and>
    foldM (\<lambda>s fs. do {
        k \<leftarrow> idx (own (dt_out d3)) s;
        l \<leftarrow> idx (outLink (dt_out d3)) s;
        Some (fs @ [k \<noteq> 0 \<or> l \<noteq> outNone]) }) [0..<dt_size d3] [] = Some (dat_flags d3) \<and>
    dat_built (d3\<lparr>dt_hasOutput := dat_flags d3\<rparr>) D \<and> dat_frame d d3"
proof -
  from computeFailLinks_correct[OF dt D(1,2) len] obtain d3 where d3: "computeFailLinks d = Some d3" "dat_frame d d3"
    "linked (dat_goto d) 1 (states D) D (dat_fail d3) (dat_link d3) UNIV" by blast
  note k = dat_frameD[OF d3(2)]
  have own: "length (own (dt_out d3)) = dt_size d3" using k dt by (simp add: dat_trie_def)
  have "foldM (\<lambda>s fs. do { k \<leftarrow> idx (own (dt_out d3)) s; l \<leftarrow> idx (outLink (dt_out d3)) s;
      Some (fs @ [k \<noteq> 0 \<or> l \<noteq> outNone]) }) [0..<dt_size d3] [] = Some ([] @ dat_flags d3)"
    unfolding dat_flags_def by (rule foldM_map) (use own k(14) k(3) in \<open>simp add: go_simps\<close>)
  moreover have trie: "dat_trie d3 D" using dat_trie_frame(1)[OF dt d3(2), of "dt_hasOutput d3"] by simp
  have "dat_built (d3\<lparr>dt_hasOutput := dat_flags d3\<rparr>) D"
    unfolding dat_built_def dat_trie_frame(2)[OF dt d3(2)]
    using dat_trie_frame(1)[OF dt d3(2)] d3(3) k co D dat_flags_correct[OF trie _ D(1)]
    by (auto simp: dat_flags_def)
  ultimately show ?thesis using d3(1,2) by auto
qed

lemma dat_deep_frame: "dat_deep d \<Longrightarrow> dat_frame d d' \<Longrightarrow> dat_deep (d'\<lparr>dt_hasOutput := fs\<rparr>)"
  using dat_frameD(3,6,11)[of d d'] by (simp add: dat_deep_def dat_goto_hasOutput)

lemma newDat_arrays: "dat_arrays newDoubleArrayTrie" "chk newDoubleArrayTrie = (\<lambda>_. 0)"
  "at_or 0 (dt_fail newDoubleArrayTrie) = (\<lambda>_. 0)" "at_or 0 (dt_depth newDoubleArrayTrie) = (\<lambda>_. 0)"
  by (auto simp: newDoubleArrayTrie_def dat_arrays_def datInitialCap_def datRootPos_def at_or_def)

lemma dat_build_correct:
  assumes ord: "edge_order_ok ord1" "edge_order_ok ord2"
  shows "\<exists>d. dat_buildFromKeywords ord1 ord2 ks = Some d \<and> dat_built d (dict_of ks) \<and> dat_deep d \<and>
    (dom (dict_of ks) = {} \<longrightarrow> dt_size d = 2)"
proof -
  define D where "D = dict_of ks"
  define A where "A = sort (remdups (concat (map runes ks)))"
  from alphabet_correct[OF A_def refl] obtain co where co: "buildCoder A = Some co" "coder_for A co"
    "\<forall>v \<in> dom D. set v \<subseteq> set A" unfolding D_def by blast
  from tmp_inserts[of ks] obtain t where t: "foldM tmp_insert ks newTmpTrie = Some t" "tmp_holds t D"
    unfolding D_def by blast
  define n0 where "n0 = newDoubleArrayTrie\<lparr>dt_runes := A, dt_coder := co\<rparr>"
  have n0: "dat_arrays n0" "chk n0 = (\<lambda>_. 0)" "at_or 0 (dt_fail n0) = (\<lambda>_. 0)" "at_or 0 (dt_depth n0) = (\<lambda>_. 0)"
    using newDat_arrays by (simp_all add: n0_def dat_arrays_def)
  from ensureCapacity_correct[OF n0(1), of "nextID t + 2"] obtain d0
    where d0: "ensureCapacity n0 (nextID t + 2) = Some d0" "extends n0 d0" "nextID t + 2 < dt_cap d0" by blast
  have x0: "dt_out n0 = empty_outputs" "dt_trieDepth n0 = 0" "dt_runes n0 = A" "dt_coder n0 = co"
    by (simp_all add: n0_def newDoubleArrayTrie_def)
  define ix where "ix = (\<lambda>c. case pos A c of None \<Rightarrow> 0 | Some i \<Rightarrow> i)"
  have D: "dict_ok D" "finite (states D)" "\<forall>w \<in> states D. set w \<subseteq> set A" "D [] = None"
    using co(3) states_runes by (auto simp: dict_ok_def D_def dest: dict_of_runes) blast
  have "nextID t = card (states D)" using t(2) trie_upto_card by (auto simp: tmp_holds_def tt.trie_of_def)
  then have cap: "length A \<le> dt_cap d0" using card_alphabet[of ks] d0(3) by (simp add: A_def D_def)
  have io: "indexOf d0 = ix"
    using d0(2) x0(4) co(2) by (intro ext) (simp add: indexOf_def ix_def extends_def coder_for_def)
  have ixA: "\<forall>c \<in> set A. pos A c = Some (ix c)" using pos_None by (fastforce simp: ix_def split: option.splits)
  then have ixp: "inj_on ix (set A)" "\<forall>c \<in> set A. ix c < length A"
    by (auto intro!: inj_onI dest: pos_Some) (metis pos_Some)
  let ?d = "d0\<lparr>dt_check := (dt_check d0)[0 := -1], dt_depth := (dt_depth d0)[datRootPos := 0]\<rparr>"
  let ?P = "(replicate (nextID t) 0)[0 := datRootPos]"
  have "dat_inv t D A co ix {} ?d ?P"
    by (rule dat_inv_start[OF t(2) D(1) _ _ _ _ _ _ _ _ cap io])
      (use d0(2) n0 x0 in \<open>simp_all add: extends_def\<close>)
  from place_all[OF this t(2) D(1,2) ord ixp D(3)] obtain d1 P1
    where p: "worklist (placeChildren ord1 ord2 t) [0] (?d, ?P) = Some (d1, P1)"
      "dat_inv t D A co ix {(p, c, x). tmp_goto t p c = Some x} d1 P1" by blast
  from p(2) have l: "dat_layout (tmp_goto t) ix {(p, c, x). tmp_goto t p c = Some x} d1 P1"
    "length (own (dt_out d1)) \<le> dt_size d1" by (simp_all add: dat_inv_def)
  have "distinct A" by (simp add: A_def)
  note tr = trimmed_trie[OF p(2) t(2) D(1,3) this ixA]
  have "\<exists>d3. computeFailLinks (trimmed d1) = Some d3 \<and>
    foldM (\<lambda>s fs. do {
        k \<leftarrow> idx (own (dt_out d3)) s;
        l \<leftarrow> idx (outLink (dt_out d3)) s;
        Some (fs @ [k \<noteq> 0 \<or> l \<noteq> outNone]) }) [0..<dt_size d3] [] = Some (dat_flags d3) \<and>
    dat_built (d3\<lparr>dt_hasOutput := dat_flags d3\<rparr>) D \<and> dat_frame (trimmed d1) d3"
    by (rule dat_finish[OF tr(1) D(4,2)])
      (use trimmed_fields[OF l] tr(2,3) co dict_of_inj in \<open>auto simp: D_def\<close>)
  then obtain d3 where d3: "computeFailLinks (trimmed d1) = Some d3"
    "foldM (\<lambda>s fs. do { k \<leftarrow> idx (own (dt_out d3)) s; l \<leftarrow> idx (outLink (dt_out d3)) s;
        Some (fs @ [k \<noteq> 0 \<or> l \<noteq> outNone]) }) [0..<dt_size d3] [] = Some (dat_flags d3)"
    "dat_built (d3\<lparr>dt_hasOutput := dat_flags d3\<rparr>) D" "dat_frame (trimmed d1) d3" by blast
  have len: "0 < length (dt_check d0)" "datRootPos < length (dt_depth d0)" "0 < nextID t"
    using d0(2,3) t(2) by (auto simp: extends_def dat_arrays_def datRootPos_def tmp_holds_def tt.trie_of_def trie_upto_def)
  have "dat_buildFromKeywords ord1 ord2 ks = Some (d3\<lparr>dt_hasOutput := dat_flags d3\<rparr>)"
    unfolding dat_buildFromKeywords_def A_def[symmetric] Let_def
    using co(1) t(1) d0(1) len p(1) d3(1,2)
    by (simp add: go_simps n0_def trimmed_def Let_def)
  moreover have "dt_size (d3\<lparr>dt_hasOutput := dat_flags d3\<rparr>) = 2" if "dom D = {}"
  proof -
    have "tmp_goto t 0 c = None" for c
    proof (rule ccontr)
      assume "tmp_goto t 0 c \<noteq> None"
      then have "walk (tmp_goto t) 0 [c] \<noteq> None" by auto
      then have "[c] \<in> states D" using t(2) tt.trie_of_trie is_trie_in by (fastforce simp: tmp_holds_def)
      with that show False by (auto simp: states_def)
    qed
    then have "children_of t 0 = []" by (cases "children_of t 0") (auto simp: tmp_goto_def, metis option.simps(3))
    with p(1) have "d1 = ?d" by (simp add: worklist_Cons placeChildren_def)
    then show ?thesis using dat_frameD(3)[OF d3(4)] trimmed_fields(1)[OF l] d0(2)
      by (simp add: extends_def n0_def newDoubleArrayTrie_def datRootPos_def)
  qed
  ultimately show ?thesis using d3(3) dat_deep_frame[OF tr(4) d3(4)] unfolding D_def by blast
qed

end
