(* ===== verification/Banded_Engine.thy ===== *)
theory Banded_Engine
  imports Dat_Engine
begin

text \<open>
  \<^verbatim>\<open>internal/engine/engine_banded_dfa.go\<close>, the engine of \<^verbatim>\<open>PresetBalanced\<close>: the double
  array trie with precomputed rows of transitions for the states near the root
  (the band); the other states walk the failure links.
\<close>

section \<open>The band\<close>

record bandedDFA =
  bd_dat :: doubleArrayTrie
  bd_band :: "32 word list"
  bd_bandOff :: "int list"
  bd_bandDepth :: int

definition bandNotBanded :: int where "bandNotBanded = -1"

definition inBand :: "doubleArrayTrie \<Rightarrow> nat \<Rightarrow> int \<Rightarrow> bool option" where
  "inBand d s bandDepth = do {
     empty \<leftarrow> (if s \<noteq> datRootPos then do { c \<leftarrow> idx (dt_check d) s; Some (c = 0) } else Some False);
     if empty then Some False
     else do { dp \<leftarrow> idx (dt_depth d) s; Some (int dp \<le> bandDepth) }
   }"

definition bandRows :: "doubleArrayTrie \<Rightarrow> int \<Rightarrow> nat option" where
  "bandRows d bandDepth =
     foldM (\<lambda>s rows. do { b \<leftarrow> inBand d s bandDepth; Some (if b then rows + 1 else rows) })
       [datRootPos..<dt_size d] 0"

definition dat_flag :: "doubleArrayTrie \<Rightarrow> nat \<Rightarrow> bool" where
  "dat_flag d s \<longleftrightarrow> s < length (dt_hasOutput d) \<and> dt_hasOutput d ! s"

text \<open>One entry of a row, and one iteration of the loop that assigns and fills the rows.\<close>

definition bandEntry :: "doubleArrayTrie \<Rightarrow> nat \<Rightarrow> nat \<Rightarrow> nat \<Rightarrow> 32 word list \<Rightarrow> 32 word list option" where
  "bandEntry d s off ai band = do {
     nxt \<leftarrow> followFailByCode d s ai;
     v \<leftarrow> packState nxt (dat_flag d nxt);
     upd band (off + ai) v
   }"

definition bandState ::
  "doubleArrayTrie \<Rightarrow> int \<Rightarrow> nat \<Rightarrow> 32 word list \<times> int list \<times> nat \<Rightarrow> (32 word list \<times> int list \<times> nat) option" where
  "bandState d bandDepth s bo =
     (case bo of (band, bandOff, off) \<Rightarrow> do {
        b \<leftarrow> inBand d s bandDepth;
        if \<not> b then Some (band, bandOff, off)
        else do {
          bandOff' \<leftarrow> upd bandOff s (int off);
          band' \<leftarrow> foldM (bandEntry d s off) [0..<length (dt_runes d)] band;
          Some (band', bandOff', off + length (dt_runes d))
        }
      })"

definition maxInt32 :: nat where "maxInt32 = 2 ^ 31 - 1"

definition buildDFABand :: "bandedDFA \<Rightarrow> bandedDFA option" where
  "buildDFABand bd =
     (let d = bd_dat bd; alphaSize = length (dt_runes d) in
      if dt_size d \<le> datRootPos + 1 then Some (bd\<lparr>bd_band := [], bd_bandOff := []\<rparr>)
      else do {
        rows \<leftarrow> bandRows d (bd_bandDepth bd);
        if dt_size d \<ge> unat hasOutputBit \<or> alphaSize = 0 \<or> rows > maxInt32 div alphaSize
        then Some (bd\<lparr>bd_band := [], bd_bandOff := replicate (dt_size d) bandNotBanded\<rparr>)
        else do {
          (band, bandOff, _) \<leftarrow> foldM (bandState d (bd_bandDepth bd)) [datRootPos..<dt_size d]
            (replicate (rows * alphaSize) 0, replicate (dt_size d) bandNotBanded, 0);
          Some (bd\<lparr>bd_band := band, bd_bandOff := bandOff\<rparr>)
        }
      })"

definition banded_step :: "bandedDFA \<Rightarrow> nat \<Rightarrow> nat \<Rightarrow> (nat \<times> bool) option" where
  "banded_step bd state cd = do {
     off \<leftarrow> idx (bd_bandOff bd) state;
     if off \<noteq> bandNotBanded
     then do {
       entry \<leftarrow> idxi (bd_band bd) (off + int cd);
       Some (entryState entry, entryHasOutput entry)
     }
     else (let d = bd_dat bd in do {
       n1 \<leftarrow> gotoStateByCode d state cd;
       n2 \<leftarrow> (if n1 = 0 then followFailByCode d state cd else Some n1);
       (let n3 = (if n2 = 0 then datRootPos else n2) in Some (n3, dat_flag d n3))
     })
   }"

section \<open>The engine\<close>

record balancedEngine =
  be_banded :: bandedDFA
  be_preset :: Preset

definition newBalancedEngine :: "int \<Rightarrow> balancedEngine" where
  "newBalancedEngine bandDepth =
     \<lparr>be_banded = \<lparr>bd_dat = newDoubleArrayTrie, bd_band = [], bd_bandOff = [], bd_bandDepth = bandDepth\<rparr>,
      be_preset = PresetBalanced\<rparr>"

definition balanced_buildFromKeywords ::
  "edge_order \<Rightarrow> edge_order \<Rightarrow> balancedEngine \<Rightarrow> gostring list \<Rightarrow> balancedEngine option" where
  "balanced_buildFromKeywords ord1 ord2 e keywords = do {
     d \<leftarrow> dat_buildFromKeywords ord1 ord2 keywords;
     bd \<leftarrow> buildDFABand ((be_banded e)\<lparr>bd_dat := d\<rparr>);
     Some (e\<lparr>be_banded := bd\<lparr>bd_dat := (bd_dat bd)\<lparr>dt_depth := []\<rparr>\<rparr>\<rparr>)
   }"

abbreviation be_dat :: "balancedEngine \<Rightarrow> doubleArrayTrie" where
  "be_dat e \<equiv> bd_dat (be_banded e)"

text \<open>The step of the scans: a symbol outside the alphabet resets to the root.\<close>

definition balanced_stepBy ::
  "(alphabetCoder \<Rightarrow> int \<Rightarrow> nat option option) \<Rightarrow> balancedEngine \<Rightarrow> nat \<Rightarrow> int \<Rightarrow> (nat \<times> bool) option" where
  "balanced_stepBy coded e state ch = do {
     ok \<leftarrow> coded (dt_coder (be_dat e)) ch;
     (case ok of None \<Rightarrow> Some (datRootPos, False) | Some cd \<Rightarrow> banded_step (be_banded e) state cd)
   }"

abbreviation balanced_step :: "balancedEngine \<Rightarrow> nat \<Rightarrow> rune \<Rightarrow> (nat \<times> bool) option" where
  "balanced_step \<equiv> balanced_stepBy code"

abbreviation balanced_byteStep :: "balancedEngine \<Rightarrow> nat \<Rightarrow> int \<Rightarrow> (nat \<times> bool) option" where
  "balanced_byteStep \<equiv> balanced_stepBy codeByte"

text \<open>\<^verbatim>\<open>scan\<close>: over the bytes when the dictionary is pure ASCII, else over the runes.\<close>

definition balanced_scan ::
  "balancedEngine \<Rightarrow> gostring \<Rightarrow> (nat \<Rightarrow> int \<Rightarrow> 'a \<Rightarrow> ('a \<times> bool) option) \<Rightarrow> 'a \<Rightarrow> ('a \<times> bool) option" where
  "balanced_scan e text onOutput a =
     (if asciiOnly (dt_coder (be_dat e))
      then scanLoop (balanced_byteStep e) onOutput (map byte text) datRootPos 0 a
      else scanLoop (balanced_step e) onOutput (runes text) datRootPos 0 a)"

definition balanced_empty :: "balancedEngine \<Rightarrow> bool" where
  "balanced_empty e \<longleftrightarrow> dt_size (be_dat e) \<le> datRootPos + 1"

definition balanced_find :: "balancedEngine \<Rightarrow> gostring \<Rightarrow> gostring list option" where
  "balanced_find e text =
     (if balanced_empty e then Some []
      else do {
        (matched, _) \<leftarrow> balanced_scan e text (hit_find (dt_out (be_dat e))) None;
        Some (case matched of None \<Rightarrow> [] | Some ms \<Rightarrow> ms)
      })"

definition balanced_findSet :: "balancedEngine \<Rightarrow> gostring \<Rightarrow> gostring list option" where
  "balanced_findSet e text =
     (if balanced_empty e then Some []
      else do {
        (c, _) \<leftarrow> balanced_scan e text (hit_set (dt_out (be_dat e))) new_collector;
        Some (collector_result c)
      })"

definition balanced_contains :: "balancedEngine \<Rightarrow> gostring \<Rightarrow> bool option" where
  "balanced_contains e text =
     (if balanced_empty e then Some False
      else do { (found, _) \<leftarrow> balanced_scan e text hit_stop False; Some found })"

definition balanced_findIndex :: "balancedEngine \<Rightarrow> gostring \<Rightarrow> (gostring \<rightharpoonup> int list) option" where
  "balanced_findIndex e text =
     (if balanced_empty e then Some Map.empty
      else do {
        (matched, _) \<leftarrow> scanLoop (balanced_step e) (hit_index (dt_out (be_dat e))) (runes text) datRootPos 0 Map.empty;
        Some matched
      })"

definition balanced_matchString ::
  "balancedEngine \<Rightarrow> gostring \<Rightarrow> (match \<Rightarrow> 'a \<Rightarrow> 'a \<times> bool) \<Rightarrow> 'a \<Rightarrow> 'a option" where
  "balanced_matchString e text emit a =
     (if balanced_empty e then Some a
      else do {
        (a', _) \<leftarrow> scanLoop (balanced_step e) (hit_emit (dt_out (be_dat e)) emit) (runes text) datRootPos 0 a;
        Some a'
      })"

definition balanced_matchStream ::
  "balancedEngine \<Rightarrow> ('a \<Rightarrow> rune option \<times> 'a) \<Rightarrow> (match \<Rightarrow> 'a \<Rightarrow> 'a \<times> bool) \<Rightarrow> 'a \<Rightarrow> 'a option" where
  "balanced_matchStream e nxt emit a =
     (if balanced_empty e then Some a
      else streamLoop (balanced_step e) (hit_emit (dt_out (be_dat e)) emit) nxt datRootPos 0 a)"

definition balanced_info :: "balancedEngine \<Rightarrow> InMemoryInfo" where
  "balanced_info e =
     (if balanced_empty e
      then \<lparr>info_Keywords = 0, info_Nodes = 0, info_Preset = be_preset e, info_MemoryBytes = 0, info_TrieDepth = 0\<rparr>
      else \<lparr>info_Keywords = keywordCount (dt_out (be_dat e)), info_Nodes = dt_size (be_dat e) - datRootPos,
            info_Preset = be_preset e,
            info_MemoryBytes = dat_memoryBytes (be_dat e) + length (bd_band (be_banded e)) * 4 +
              length (bd_bandOff (be_banded e)) * 4,
            info_TrieDepth = dat_maxDepth (be_dat e)\<rparr>)"

section \<open>The rows\<close>

text \<open>
  A transition read for the text \<open>w\<close> and the next rune \<open>c\<close> is right when it is the
  state of the longest suffix, with the flag that something ends there.
\<close>

definition trans_ok :: "goto \<Rightarrow> dict \<Rightarrow> rune list \<Rightarrow> rune \<Rightarrow> nat \<Rightarrow> bool \<Rightarrow> bool" where
  "trans_ok g D w c s h \<longleftrightarrow> walk g 1 (lsuf (states D) (w @ [c])) = Some s \<and> (h \<longleftrightarrow> outs_at D (w @ [c]) \<noteq> [])"

definition band_row :: "doubleArrayTrie \<Rightarrow> dict \<Rightarrow> 32 word list \<Rightarrow> nat \<Rightarrow> nat \<Rightarrow> bool" where
  "band_row d D band s j \<longleftrightarrow> j + length (dt_runes d) \<le> length band \<and>
     (\<forall>w. walk (dat_goto d) 1 w = Some s \<longrightarrow>
        (\<forall>ai < length (dt_runes d). trans_ok (dat_goto d) D w (dt_runes d ! ai)
           (entryState (band ! (j + ai))) (entryHasOutput (band ! (j + ai)))))"

definition band_ok :: "bandedDFA \<Rightarrow> dict \<Rightarrow> bool" where
  "band_ok bd D \<longleftrightarrow> length (bd_bandOff bd) = dt_size (bd_dat bd) \<and>
     (\<forall>s < dt_size (bd_dat bd). bd_bandOff bd ! s = bandNotBanded \<or>
        (\<exists>j. bd_bandOff bd ! s = int j \<and> band_row (bd_dat bd) D (bd_band bd) s j))"

lemma dat_builtD:
  assumes "dat_built d D"
  shows "dat_sized d" "is_trie (dat_goto d) 1 (states D)" "\<forall>w s. walk (dat_goto d) 1 w = Some s \<longrightarrow> s < dt_size d"
    "fails_upto (dat_goto d) 1 (states D) (dat_fail d) n"
    "\<And>w s. walk (dat_goto d) 1 w = Some s \<Longrightarrow> dat_flag d s = (outs_at D w \<noteq> [])"
proof -
  from assms have l: "linked (dat_goto d) 1 (states D) D (dat_fail d) (dat_link d) UNIV" by (simp add: dat_built_def)
  show "dat_sized d" "is_trie (dat_goto d) 1 (states D)" "\<forall>w s. walk (dat_goto d) 1 w = Some s \<longrightarrow> s < dt_size d"
    using assms by (simp_all add: dat_built_def dat_trie_def)
  then show "\<And>w s. walk (dat_goto d) 1 w = Some s \<Longrightarrow> dat_flag d s = (outs_at D w \<noteq> [])"
    using assms by (auto simp: dat_built_def dat_flag_def)
  show "fails_upto (dat_goto d) 1 (states D) (dat_fail d) n"
    by (rule linked_fails[OF l]) (simp add: covers_def)
qed

lemma dat_transition:
  assumes b: "dat_built d D" and w: "walk (dat_goto d) 1 w = Some s" and k: "k < length (dt_runes d)"
  shows "\<exists>t. followFailByCode d s k = Some t \<and> trans_ok (dat_goto d) D w (dt_runes d ! k) t (dat_flag d t)"
proof -
  note f = dat_builtD[OF b]
  from followFail_correct[OF f(1,2,3) f(4)[where n = "length w"] w _ k] obtain t where
    t: "followFailByCode d s k = Some t" "walk (dat_goto d) 1 (lsuf (states D) (w @ [dt_runes d ! k])) = Some t"
    by auto
  with f(5)[OF t(2)] show ?thesis by (auto simp: trans_ok_def outs_at_lsuf[OF dom_subset_states])
qed

lemma bandEntries:
  assumes b: "dat_built d D" and w: "walk (dat_goto d) 1 w = Some s"
    and small: "dt_size d < 2 ^ 30" and fits: "off + length (dt_runes d) \<le> length band"
  shows "\<exists>band'. foldM (bandEntry d s off) [0..<length (dt_runes d)] band = Some band' \<and>
    length band' = length band \<and> (\<forall>i < off. band' ! i = band ! i) \<and> band_row d D band' s off"
proof -
  let ?A = "dt_runes d" and ?g = "dat_goto d"
  let ?I = "\<lambda>ys b'. length b' = length band \<and> (\<forall>i < off. b' ! i = band ! i) \<and>
      (\<forall>ai \<in> set ys. trans_ok ?g D w (?A ! ai) (entryState (b' ! (off + ai))) (entryHasOutput (b' ! (off + ai))))"
  have "\<exists>band'. foldM (bandEntry d s off) [0..<length ?A] band = Some band' \<and> ?I [0..<length ?A] band'"
  proof (rule foldM_invariant)
    fix ys ai zs b'
    assume split: "[0..<length ?A] = ys @ ai # zs" and I: "?I ys b'"
    then have ai: "ai < length ?A" by (metis atLeastLessThan_iff in_set_conv_decomp set_upt)
    have new: "ai \<notin> set ys" using split by (metis distinct_append distinct_upt disjoint_iff list.set_intros(1))
    from dat_transition[OF b w ai] obtain t where
      t: "followFailByCode d s ai = Some t" "trans_ok ?g D w (?A ! ai) t (dat_flag d t)" by blast
    then have "t < 2 ^ 30" using dat_builtD(3)[OF b] small by (fastforce simp: trans_ok_def)
    from packState_fits[OF this, of "dat_flag d t"] obtain v where
      v: "packState t (dat_flag d t) = Some v" "entryState v = t" "entryHasOutput v = dat_flag d t" by blast
    have "bandEntry d s off ai b' = Some (b'[off + ai := v])"
      using t(1) v(1) I ai fits by (simp add: bandEntry_def go_simps)
    moreover have "?I (ys @ [ai]) (b'[off + ai := v])"
      using I v(2,3) t(2) new ai fits by (auto simp: nth_list_update)
    ultimately show "\<exists>s'. bandEntry d s off ai b' = Some s' \<and> ?I (ys @ [ai]) s'" by blast
  qed simp
  then obtain band' where r: "foldM (bandEntry d s off) [0..<length ?A] band = Some band'" "?I [0..<length ?A] band'"
    by blast
  have "band_row d D band' s off"
    unfolding band_row_def using r(2) fits is_trie_inj[OF dat_builtD(2)[OF b] w] by auto
  with r show ?thesis by blast
qed


lemma inBand_state:
  assumes b: "dat_built d D" and deep: "dat_deep d" and s: "1 \<le> s" "s < dt_size d"
  shows "\<exists>ok. inBand d s k = Some ok \<and> (ok \<longrightarrow> (\<exists>w. walk (dat_goto d) 1 w = Some s))"
proof -
  have len: "length (dt_check d) = dt_size d" "length (dt_depth d) = dt_size d"
    using dat_builtD(1)[OF b] deep by (simp_all add: dat_sized_def dat_deep_def)
  have root: "walk (dat_goto d) 1 [] = Some 1" by simp
  have "\<exists>w. walk (dat_goto d) 1 w = Some s" if "1 < s" "chk d s \<noteq> 0"
    using b that s(2) by (auto simp: dat_built_def dat_trie_def)
  with root s len show ?thesis
    by (cases "s = 1") (auto simp: inBand_def datRootPos_def go_simps at_or_def intro: exI[of _ "[]"])
qed

lemma bandRows_count:
  assumes "\<forall>s \<in> set [datRootPos..<dt_size d]. inBand d s k = Some (P s)"
  shows "bandRows d k = Some (length (filter P [datRootPos..<dt_size d]))"
proof -
  have "foldM (\<lambda>s rows. do { b \<leftarrow> inBand d s k; Some (if b then rows + 1 else rows) }) ss n =
      Some (n + length (filter P ss))" if "\<forall>s \<in> set ss. inBand d s k = Some (P s)" for ss n
    using that by (induction ss arbitrary: n) auto
  from this[OF assms, of 0] show ?thesis by (simp add: bandRows_def)
qed

definition band_upto ::
  "doubleArrayTrie \<Rightarrow> dict \<Rightarrow> nat \<Rightarrow> nat \<Rightarrow> 32 word list \<times> int list \<times> nat \<Rightarrow> bool" where
  "band_upto d D tot cnt bo \<longleftrightarrow>
     (case bo of (band, bandOff, off) \<Rightarrow>
        length band = tot * length (dt_runes d) \<and> length bandOff = dt_size d \<and> off = cnt * length (dt_runes d) \<and>
        (\<forall>s < dt_size d. bandOff ! s = bandNotBanded \<or>
           (\<exists>j. bandOff ! s = int j \<and> j + length (dt_runes d) \<le> off \<and> band_row d D band s j)))"

lemma band_row_cong:
  assumes "band_row d D band s j" and "length band' = length band" and "\<forall>i < off. band' ! i = band ! i"
    and "j + length (dt_runes d) \<le> off"
  shows "band_row d D band' s j"
  using assms by (auto simp: band_row_def)

lemma bandState_correct:
  assumes b: "dat_built d D" and small: "dt_size d < 2 ^ 30"
    and s: "s < dt_size d" "inBand d s k = Some ok" "ok \<longrightarrow> (\<exists>w. walk (dat_goto d) 1 w = Some s)"
    and I: "band_upto d D tot cnt bo" and room: "ok \<longrightarrow> cnt < tot"
  shows "\<exists>bo'. bandState d k s bo = Some bo' \<and> band_upto d D tot (if ok then cnt + 1 else cnt) bo'"
proof (cases ok)
  case False
  with I s show ?thesis by (auto simp: bandState_def split: prod.splits)
next
  case True
  obtain band bandOff off where bo: "bo = (band, bandOff, off)" by (cases bo) auto
  with I have l: "length band = tot * length (dt_runes d)" "length bandOff = dt_size d"
    "off = cnt * length (dt_runes d)" by (simp_all add: band_upto_def)
  have "Suc cnt * length (dt_runes d) \<le> tot * length (dt_runes d)" using True room by (intro mult_le_mono1) simp
  then have fits: "off + length (dt_runes d) \<le> length band" using l by (simp add: add.commute)
  from True s(3) obtain w where "walk (dat_goto d) 1 w = Some s" by blast
  from bandEntries[OF b this small fits] obtain band' where
    f: "foldM (bandEntry d s off) [0..<length (dt_runes d)] band = Some band'" "length band' = length band"
      "\<forall>i < off. band' ! i = band ! i" "band_row d D band' s off" by blast
  let ?bo = "(band', bandOff[s := int off], off + length (dt_runes d))"
  have "bandState d k s bo = Some ?bo" using True s f(1) l(2) by (simp add: bandState_def bo go_simps)
  moreover have "band_upto d D tot (cnt + 1) ?bo"
  proof -
    have "bandOff[s := int off] ! u = bandNotBanded \<or> (\<exists>j. bandOff[s := int off] ! u = int j \<and>
        j + length (dt_runes d) \<le> off + length (dt_runes d) \<and> band_row d D band' u j)" if u: "u < dt_size d" for u
    proof (cases "u = s")
      case True
      with f(4) l(2) s(1) show ?thesis by auto
    next
      case False
      from I[unfolded bo] u have "bandOff ! u = bandNotBanded \<or>
          (\<exists>j. bandOff ! u = int j \<and> j + length (dt_runes d) \<le> off \<and> band_row d D band u j)"
        unfolding band_upto_def by blast
      with False band_row_cong[OF _ f(2,3)] show ?thesis by fastforce
    qed
    with f(2) l show ?thesis by (simp add: band_upto_def)
  qed
  ultimately show ?thesis using True by simp
qed

lemma bandStates:
  assumes b: "dat_built d D" and small: "dt_size d < 2 ^ 30"
    and P: "\<forall>s \<in> set ss. s < dt_size d \<and> inBand d s k = Some (P s) \<and> (P s \<longrightarrow> (\<exists>w. walk (dat_goto d) 1 w = Some s))"
    and I: "band_upto d D tot cnt bo" and room: "cnt + length (filter P ss) \<le> tot"
  shows "\<exists>bo'. foldM (bandState d k) ss bo = Some bo' \<and> band_upto d D tot (cnt + length (filter P ss)) bo'"
  using P I room
proof (induction ss arbitrary: cnt bo)
  case (Cons s ss)
  have room: "P s \<longrightarrow> cnt < tot" using Cons.prems(3) by auto
  have s: "s < dt_size d" "inBand d s k = Some (P s)" "P s \<longrightarrow> (\<exists>w. walk (dat_goto d) 1 w = Some s)"
    using Cons.prems(1) by simp_all
  from bandState_correct[OF b small s Cons.prems(2) room] obtain bo1 where
    1: "bandState d k s bo = Some bo1" "band_upto d D tot (if P s then cnt + 1 else cnt) bo1" by blast
  from Cons.IH[OF _ 1(2)] Cons.prems(1,3) 1(1) show ?case by (auto split: if_splits)
qed auto

lemma buildDFABand_correct:
  assumes b: "dat_built (bd_dat bd) D" and deep: "dat_deep (bd_dat bd)" and big: "2 < dt_size (bd_dat bd)"
  shows "\<exists>band off. buildDFABand bd = Some (bd\<lparr>bd_band := band, bd_bandOff := off\<rparr>) \<and>
    band_ok (bd\<lparr>bd_band := band, bd_bandOff := off\<rparr>) D"
proof -
  let ?d = "bd_dat bd" and ?k = "bd_bandDepth bd" and ?A = "dt_runes (bd_dat bd)"
  define P where "P s = (case inBand ?d s ?k of Some ok \<Rightarrow> ok | None \<Rightarrow> False)" for s
  have P: "\<forall>s \<in> set [datRootPos..<dt_size ?d]. s < dt_size ?d \<and> inBand ?d s ?k = Some (P s) \<and>
      (P s \<longrightarrow> (\<exists>w. walk (dat_goto ?d) 1 w = Some s))"
    using inBand_state[OF b deep, of _ ?k] by (fastforce simp: P_def datRootPos_def split: option.splits)
  define rows where "rows = length (filter P [datRootPos..<dt_size ?d])"
  have rows: "bandRows ?d ?k = Some rows" unfolding rows_def by (rule bandRows_count) (use P in blast)
  show ?thesis
  proof (cases "dt_size ?d \<ge> 2 ^ 30 \<or> length ?A = 0 \<or> rows > maxInt32 div length ?A")
    case True
    with rows big have "buildDFABand bd = Some (bd\<lparr>bd_band := [], bd_bandOff := replicate (dt_size ?d) bandNotBanded\<rparr>)"
      by (auto simp: buildDFABand_def Let_def datRootPos_def)
    moreover have "band_ok (bd\<lparr>bd_band := [], bd_bandOff := replicate (dt_size ?d) bandNotBanded\<rparr>) D"
      by (simp add: band_ok_def)
    ultimately show ?thesis by blast
  next
    case False
    then have small: "dt_size ?d < 2 ^ 30" by simp
    let ?init = "(replicate (rows * length ?A) (0 :: 32 word), replicate (dt_size ?d) bandNotBanded, 0 :: nat)"
    have "band_upto ?d D rows 0 ?init" by (simp add: band_upto_def)
    from bandStates[OF b small P this] obtain bo where
      "foldM (bandState ?d ?k) [datRootPos..<dt_size ?d] ?init = Some bo" "band_upto ?d D rows rows bo"
      by (auto simp: rows_def)
    then obtain band off n where r: "foldM (bandState ?d ?k) [datRootPos..<dt_size ?d] ?init = Some (band, off, n)"
      "band_upto ?d D rows rows (band, off, n)" by (cases bo) auto
    with rows False big have "buildDFABand bd = Some (bd\<lparr>bd_band := band, bd_bandOff := off\<rparr>)"
      by (auto simp: buildDFABand_def Let_def datRootPos_def)
    moreover have "band_ok (bd\<lparr>bd_band := band, bd_bandOff := off\<rparr>) D"
      using r(2) by (auto simp: band_ok_def band_upto_def)
    ultimately show ?thesis by blast
  qed
qed


section \<open>The engine steps to the longest suffix\<close>

definition balanced_built :: "balancedEngine \<Rightarrow> dict \<Rightarrow> bool" where
  "balanced_built e D \<longleftrightarrow> dat_built (be_dat e) D \<and> band_ok (be_banded e) D"

definition balanced_rep :: "balancedEngine \<Rightarrow> dict \<Rightarrow> rune list \<Rightarrow> nat \<Rightarrow> bool" where
  "balanced_rep e D w s \<longleftrightarrow> walk (dat_goto (be_dat e)) 1 (lsuf (states D) w) = Some s"

lemma state_nonzero:
  assumes "dat_sized d" and "walk (dat_goto d) 1 w = Some s"
  shows "s \<noteq> 0"
proof (cases w rule: rev_cases)
  case (snoc v c)
  with assms obtain t where "dat_goto d t c = Some s" by (auto simp: walk_snoc split: Option.bind_splits)
  then have "chk d s = int t" by (auto simp: dat_goto_def Let_def split: option.splits if_splits)
  with assms(1) show ?thesis by (cases s) (auto simp: dat_sized_def)
qed (use assms in simp)

lemma banded_step_correct:
  assumes b: "dat_built (bd_dat bd) D" and band: "band_ok bd D"
    and w: "walk (dat_goto (bd_dat bd)) 1 w = Some s" and k: "k < length (dt_runes (bd_dat bd))"
  shows "\<exists>s' h. banded_step bd s k = Some (s', h) \<and> trans_ok (dat_goto (bd_dat bd)) D w (dt_runes (bd_dat bd) ! k) s' h"
proof -
  let ?d = "bd_dat bd" and ?c = "dt_runes (bd_dat bd) ! k"
  note f = dat_builtD[OF b]
  have s: "s < dt_size ?d" using f(3) w by blast
  with band have off: "idx (bd_bandOff bd) s = Some (bd_bandOff bd ! s)" by (simp add: band_ok_def go_simps)
  show ?thesis
  proof (cases "bd_bandOff bd ! s = bandNotBanded")
    case True
    note g = gotoStateByCode_correct[OF f(1) s k]
    from dat_transition[OF b w k] obtain t where t: "followFailByCode ?d s k = Some t"
      "trans_ok (dat_goto ?d) D w ?c t (dat_flag ?d t)" by blast
    have t0: "t \<noteq> 0" using state_nonzero[OF f(1)] t(2) by (auto simp: trans_ok_def)
    have "trans_ok (dat_goto ?d) D w ?c x (dat_flag ?d x)" if x: "dat_goto ?d s ?c = Some x" for x
    proof -
      have "walk (dat_goto ?d) 1 (w @ [?c]) = Some x" using w x by (simp add: walk_snoc)
      with is_trie_in[OF f(2) this] f(5)[OF this] show ?thesis by (simp add: trans_ok_def lsuf_id)
    qed
    with True off g t t0 show ?thesis
      by (cases "dat_goto ?d s ?c") (auto simp: banded_step_def Let_def)
  next
    case False
    with band s obtain j where j: "bd_bandOff bd ! s = int j" "band_row ?d D (bd_band bd) s j"
      by (auto simp: band_ok_def)
    then have "j + k < length (bd_band bd)" using k by (simp add: band_row_def)
    then have "idxi (bd_band bd) (int j + int k) = Some (bd_band bd ! (j + k))"
      by (simp add: idxi_def nat_add_distrib)
    then have "banded_step bd s k = Some (entryState (bd_band bd ! (j + k)), entryHasOutput (bd_band bd ! (j + k)))"
      using False off j(1) by (simp add: banded_step_def)
    with j(2) w k show ?thesis by (auto simp: band_row_def)
  qed
qed

lemma balanced_step_correct:
  assumes b: "balanced_built e D" and rep: "balanced_rep e D w s"
  shows "\<exists>s' h. balanced_step e s c = Some (s', h) \<and> balanced_rep e D (w @ [c]) s' \<and> (h \<longleftrightarrow> outs_at D (w @ [c]) \<noteq> [])"
proof -
  let ?d = "be_dat e"
  from b have d: "dat_built ?d D" "band_ok (be_banded e) D" by (simp_all add: balanced_built_def)
  then have co: "code (dt_coder ?d) c = Some (pos (dt_runes ?d) c)" "\<forall>v \<in> dom D. set v \<subseteq> set (dt_runes ?d)"
    by (simp_all add: dat_built_def code_correct)
  show ?thesis
  proof (cases "pos (dt_runes ?d) c")
    case None
    then have "c \<notin> set (dt_runes ?d)" by (simp add: pos_None)
    then have nil: "lsuf (states D) (w @ [c]) = []" using co(2) by (intro lsuf_unknown) auto
    then have "outs_at D (w @ [c]) = []" using outs_at_lsuf[OF dom_subset_states, of D "w @ [c]"] by simp
    with None co(1) nil show ?thesis by (auto simp: balanced_stepBy_def balanced_rep_def datRootPos_def)
  next
    case (Some k)
    from pos_Some[OF Some] have k: "k < length (dt_runes ?d)" "dt_runes ?d ! k = c" by simp_all
    from banded_step_correct[OF d rep[unfolded balanced_rep_def] k(1)] obtain s' h where
      st: "banded_step (be_banded e) s k = Some (s', h)" "trans_ok (dat_goto ?d) D (lsuf (states D) w) c s' h"
      unfolding k(2) by blast
    have snoc: "lsuf (states D) (lsuf (states D) w @ [c]) = lsuf (states D) (w @ [c])" by (rule lsuf_snoc) simp
    with outs_at_lsuf[OF dom_subset_states, of D "lsuf (states D) w @ [c]"] outs_at_lsuf[OF dom_subset_states, of D "w @ [c]"]
      st Some co(1) show ?thesis by (simp add: balanced_stepBy_def balanced_rep_def trans_ok_def)
  qed
qed

interpretation balanced: flagged_scanner balanced_step 1 "\<lambda>e. dt_out (be_dat e)" balanced_built balanced_rep
proof unfold_locales
  fix e D w s c s' h
  assume b: "balanced_built e D"
  then have d: "dat_built (be_dat e) D" by (simp add: balanced_built_def)
  note f = dat_builtD[OF d]
  have int: "interned (dat_goto (be_dat e)) 1 (at_or 0 (own (dt_out (be_dat e)))) (dt_out (be_dat e)) D"
    and len: "length (own (dt_out (be_dat e))) = dt_size (be_dat e)" and nil: "D [] = None"
    and l: "linked (dat_goto (be_dat e)) 1 (states D) D (dat_fail (be_dat e)) (dat_link (be_dat e)) UNIV"
    and inj: "\<forall>v v' k. D v = Some k \<longrightarrow> D v' = Some k \<longrightarrow> v = v'"
    using d by (simp_all add: dat_built_def dat_trie_def)
  show "balanced_rep e D [] 1" by (simp add: balanced_rep_def)
  show "distinct (tl (kwords (dt_out (be_dat e))))" by (rule interned_kwords_distinct[OF int f(2)]) (use inj in blast)
  assume rep: "balanced_rep e D w s"
  show "\<exists>s' h. balanced_step e s c = Some (s', h) \<and> balanced_rep e D (w @ [c]) s' \<and> (\<not> h \<longrightarrow> outs_at D (w @ [c]) = [])"
    using balanced_step_correct[OF b rep, of c] by blast
  show "\<exists>ids. chain (dt_out (be_dat e)) (int s) ids \<and>
      map (\<lambda>k. (kwords (dt_out (be_dat e)) ! k, runeLens (dt_out (be_dat e)) ! k)) ids = outs_at D w"
    by (rule chain_of_linked[OF f(2) int nil _ l dom_subset_states rep[unfolded balanced_rep_def]])
      (use f(3) len in \<open>auto simp: idx_def at_or_def\<close>)
  assume "balanced_step e s c = Some (s', h)" "h"
  with balanced_step_correct[OF b rep, of c] show "outs_at D (w @ [c]) \<noteq> []" by auto
qed

section \<open>Build and operations\<close>

lemma balanced_byte_scan:
  assumes "balanced_built e D" and "\<forall>s i j a. hit s i a = hit s j a"
  shows "balanced_scan e text hit a = scanLoop (balanced_step e) hit (runes text) 1 0 a"
proof (cases "asciiOnly (dt_coder (be_dat e))")
  case True
  from assms(1) have "coder_for (dt_runes (be_dat e)) (dt_coder (be_dat e))" by (simp add: balanced_built_def dat_built_def)
  note reset = codeByte_reset[OF this True]
  have "scanLoop (balanced_byteStep e) hit (map byte text) 1 0 a = scanLoop (balanced_step e) hit (runes text) 1 0 a"
    by (rule scanLoop_bytes[where root = 1, OF _ _ _ assms(2)]) (simp_all add: balanced_stepBy_def reset datRootPos_def)
  with True show ?thesis by (simp add: balanced_scan_def datRootPos_def)
qed (simp add: balanced_scan_def datRootPos_def)

text \<open>An engine whose array holds only the root has an empty dictionary.\<close>

definition balanced_holds :: "balancedEngine \<Rightarrow> dict \<Rightarrow> bool" where
  "balanced_holds e D \<longleftrightarrow> dat_built (be_dat e) D \<and> (balanced_empty e \<or> band_ok (be_banded e) D) \<and>
     (dom D = {} \<longrightarrow> dt_size (be_dat e) = 2)"

lemma balanced_empty_dom:
  assumes "dat_built (be_dat e) D" and "balanced_empty e"
  shows "dom D = {}"
proof (rule ccontr)
  assume "dom D \<noteq> {}"
  then obtain v where v: "v \<in> dom D" by blast
  have "D [] = None" using assms(1) by (simp add: dat_built_def)
  with v obtain c u where "v = c # u" by (cases v) auto
  with v have "[c] \<in> states D" unfolding states_def by (auto intro!: bexI[of _ v])
  with is_trie_walk[OF dat_builtD(2)[OF assms(1)]] obtain s where s: "walk (dat_goto (be_dat e)) 1 [c] = Some s" by blast
  then have "s \<in> {x. \<exists>c. dat_goto (be_dat e) 1 c = Some x}" by (auto split: Option.bind_splits)
  with assms show False unfolding dat_built_def dat_trie_def balanced_empty_def datRootPos_def by auto
qed

lemma balanced_ops:
  assumes h: "balanced_holds e D"
  shows "balanced_find e text = Some (spec_find D text)"
    and "balanced_findSet e text = Some (spec_findSet D text)"
    and "balanced_findIndex e text = Some (spec_findIndex D text)"
    and "balanced_contains e text = Some (spec_contains D text)"
    and "balanced_matchString e text emit a = Some (spec_match D text emit a)"
    and "balanced_matchStream e nxt emit a = spec_matchStream D nxt emit a"
proof -
  have z: "dom D = {}" if "balanced_empty e" using balanced_empty_dom[OF _ that] h by (simp add: balanced_holds_def)
  have b: "balanced_built e D" if "\<not> balanced_empty e" using h that by (simp add: balanced_holds_def balanced_built_def)
  have ne: "dom D \<noteq> {}" if "\<not> balanced_empty e"
    using h that by (auto simp: balanced_holds_def balanced_empty_def datRootPos_def)
  show "balanced_find e text = Some (spec_find D text)"
  proof (cases "balanced_empty e")
    case True
    then show ?thesis by (simp add: balanced_find_def spec_empty[OF z[OF True]])
  next
    case False
    then show ?thesis using balanced.scan_find[OF b[OF False], of "runes text" None]
      by (simp add: balanced_find_def balanced_byte_scan[OF b[OF False] hit_offsets(1)] spec_find_def append_opt_def)
  qed
  show "balanced_findSet e text = Some (spec_findSet D text)"
  proof (cases "balanced_empty e")
    case True
    then show ?thesis by (simp add: balanced_findSet_def spec_empty[OF z[OF True]])
  next
    case False
    then show ?thesis using balanced.scan_set[OF b[OF False], of "runes text"]
      by (auto simp: balanced_findSet_def balanced_byte_scan[OF b[OF False] hit_offsets(2)] spec_findSet_def spec_find_def)
  qed
  show "balanced_findIndex e text = Some (spec_findIndex D text)"
  proof (cases "balanced_empty e")
    case True
    then show ?thesis by (simp add: balanced_findIndex_def spec_empty[OF z[OF True]])
  next
    case False
    then show ?thesis using balanced.scan_index[OF b[OF False], of "runes text" Map.empty]
      by (simp add: balanced_findIndex_def spec_findIndex_fold datRootPos_def)
  qed
  show "balanced_contains e text = Some (spec_contains D text)"
  proof (cases "balanced_empty e")
    case True
    then show ?thesis by (simp add: balanced_contains_def spec_empty[OF z[OF True]])
  next
    case False
    then show ?thesis using balanced.scan_stop[OF b[OF False], of "runes text"]
      by (simp add: balanced_contains_def balanced_byte_scan[OF b[OF False] hit_offsets(3)] spec_contains_def)
  qed
  show "balanced_matchString e text emit a = Some (spec_match D text emit a)"
  proof (cases "balanced_empty e")
    case True
    then show ?thesis by (simp add: balanced_matchString_def spec_empty[OF z[OF True]])
  next
    case False
    then show ?thesis using balanced.scan_emit[OF b[OF False], of emit "runes text" a]
      by (auto simp: balanced_matchString_def spec_match_def datRootPos_def split: prod.splits)
  qed
  show "balanced_matchStream e nxt emit a = spec_matchStream D nxt emit a"
    using balanced.stream_emit[OF b, of emit nxt a] z ne
    by (auto simp: balanced_matchStream_def spec_matchStream_def datRootPos_def)
qed

lemma dat_released:
  assumes "dat_built d D"
  shows "dat_built (d\<lparr>dt_depth := []\<rparr>) D"
proof -
  have "dat_goto (d\<lparr>dt_depth := []\<rparr>) = dat_goto d" by (intro ext) (simp add: dat_goto_def split: option.splits)
  with assms show ?thesis by (simp add: dat_built_def dat_trie_def dat_sized_def)
qed

lemma band_released:
  assumes "band_ok bd D"
  shows "band_ok (bd\<lparr>bd_dat := (bd_dat bd)\<lparr>dt_depth := []\<rparr>\<rparr>) D"
proof -
  have "dat_goto (d\<lparr>dt_depth := []\<rparr>) = dat_goto d" for d :: doubleArrayTrie
    by (intro ext) (simp add: dat_goto_def split: option.splits)
  with assms show ?thesis by (simp add: band_ok_def band_row_def)
qed

lemma balanced_build_correct:
  assumes "edge_order_ok ord1" and "edge_order_ok ord2"
  shows "\<exists>e'. balanced_buildFromKeywords ord1 ord2 e ks = Some e' \<and> balanced_holds e' (dict_of ks) \<and>
    be_preset e' = be_preset e"
proof -
  from dat_build_correct[OF assms] obtain d where d: "dat_buildFromKeywords ord1 ord2 ks = Some d"
    "dat_built d (dict_of ks)" "dat_deep d" "dom (dict_of ks) = {} \<longrightarrow> dt_size d = 2" by blast
  let ?bd = "(be_banded e)\<lparr>bd_dat := d\<rparr>"
  show ?thesis
  proof (cases "dt_size d \<le> 2")
    case True
    with d dat_released[OF d(2)] show ?thesis
      by (auto simp: balanced_buildFromKeywords_def buildDFABand_def datRootPos_def balanced_holds_def balanced_empty_def)
  next
    case False
    from buildDFABand_correct[of ?bd "dict_of ks"] d(2,3) False obtain band off
      where "buildDFABand ?bd = Some (?bd\<lparr>bd_band := band, bd_bandOff := off\<rparr>)"
        "band_ok (?bd\<lparr>bd_band := band, bd_bandOff := off\<rparr>) (dict_of ks)" by auto
    with d dat_released[OF d(2)] band_released[OF this(2)] show ?thesis
      by (auto simp: balanced_buildFromKeywords_def balanced_holds_def)
  qed
qed

section \<open>Properties\<close>

text \<open>
  C5.  The balanced engine is correct.  Building any keyword set returns, for every
  order in which the children of a node are ranged over and every band depth,
  and every operation on the result returns what the specification says; this
  covers the placement of the double array, its failure links, the packed rows
  of the band, the failure-link fallback below the band, and the byte scan.
\<close>

theorem balanced_engine_correct:
  assumes "edge_order_ok ord1" and "edge_order_ok ord2"
  shows "\<exists>e. balanced_buildFromKeywords ord1 ord2 (newBalancedEngine bandDepth) ks = Some e \<and>
    (\<forall>text. balanced_find e text = Some (spec_find (dict_of ks) text) \<and>
       balanced_findSet e text = Some (spec_findSet (dict_of ks) text) \<and>
       balanced_findIndex e text = Some (spec_findIndex (dict_of ks) text) \<and>
       balanced_contains e text = Some (spec_contains (dict_of ks) text) \<and>
       (\<forall>emit (a :: 'a). balanced_matchString e text emit a = Some (spec_match (dict_of ks) text emit a))) \<and>
    (\<forall>nxt emit (a :: 'a). balanced_matchStream e nxt emit a = spec_matchStream (dict_of ks) nxt emit a)"
proof -
  from balanced_build_correct[OF assms, of "newBalancedEngine bandDepth" ks] obtain e where
    e: "balanced_buildFromKeywords ord1 ord2 (newBalancedEngine bandDepth) ks = Some e"
      "balanced_holds e (dict_of ks)" by blast
  show ?thesis by (intro exI[of _ e] conjI allI) (simp_all add: e(1) balanced_ops[OF e(2)])
qed

theorem balanced_engine_correct_witness:
  "edge_order_ok (\<lambda>_ es. es) \<and> edge_order_ok (\<lambda>_ es. rev es) \<and>
   (\<exists>e. balanced_buildFromKeywords (\<lambda>_ es. es) (\<lambda>_ es. rev es) (newBalancedEngine 3) [''he'', ''she'', ''hers''] = Some e \<and>
     balanced_find e ''ushers'' = Some [''she'', ''he'', ''hers''])"
proof -
  have o: "edge_order_ok (\<lambda>_ es. es)" "edge_order_ok (\<lambda>_ es. rev es)" by (simp_all add: edge_order_ok_def)
  let ?ks = "[''he'', ''she'', ''hers'']"
  from balanced_engine_correct[OF o, of 3 ?ks] obtain e
    where "balanced_buildFromKeywords (\<lambda>_ es. es) (\<lambda>_ es. rev es) (newBalancedEngine 3) ?ks = Some e"
      "balanced_find e ''ushers'' = Some (spec_find (dict_of ?ks) ''ushers'')" by blast
  moreover have "spec_find (dict_of ?ks) ''ushers'' = [''she'', ''he'', ''hers'']" by code_simp
  ultimately show ?thesis using o by simp
qed

end
