(* ===== verification/Engine_Handle.thy ===== *)
theory Engine_Handle
  imports Map_Engine Flat_Engine Banded_Engine
begin

text \<open>
  \<^verbatim>\<open>internal/engine/engine_handle.go\<close> and \<^verbatim>\<open>engine_presets.go\<close>: the handle the public
  package holds, which selects an implementation by preset and dispatches each
  operation to it.

  A keyword set (a Go map with empty values) is the list of its keys in the
  order one range yields them.  The other unspecified choices of a build (the
  orders of the inner maps, the floating-point sizing of the Bloom filter) are
  the argument \<open>env\<close>.
\<close>

record build_env =
  env_sizing :: bloom_sizing
  env_maps :: map_order
  env_codes :: edge_order
  env_children :: edge_order

definition env_ok :: "build_env \<Rightarrow> bool" where
  "env_ok env \<longleftrightarrow> sizing_ok (env_sizing env) \<and> map_order_ok (env_maps env) \<and>
     edge_order_ok (env_codes env) \<and> edge_order_ok (env_children env)"

section \<open>Dispatch\<close>

datatype matchEngine =
    MemEfficientImpl memEfficientEngine
  | SpeedImpl speedEngine
  | BalancedImpl balancedEngine

definition newMemEfficientEngine :: memEfficientEngine where
  "newMemEfficientEngine =
     \<lparr>me_trie = \<lparr>nodes = [], mt_out = empty_outputs\<rparr>, me_bloom = None, me_asciiRoot = replicate 128 False\<rparr>"

definition defaultBandDepth :: int where "defaultBandDepth = 3"

fun newMatchEngine :: "Preset \<Rightarrow> matchEngine" where
  "newMatchEngine PresetSpeed = SpeedImpl newSpeedEngine"
| "newMatchEngine PresetMemoryEfficient = MemEfficientImpl newMemEfficientEngine"
| "newMatchEngine PresetNone = BalancedImpl (newBalancedEngine defaultBandDepth)"
| "newMatchEngine PresetBalanced = BalancedImpl (newBalancedEngine defaultBandDepth)"
| "newMatchEngine PresetDefault = BalancedImpl (newBalancedEngine defaultBandDepth)"

record Engine =
  en_preset :: Preset
  en_impl :: matchEngine
  en_maxKeywordRunes :: nat

definition Engine_New :: "Preset \<Rightarrow> Engine" where
  "Engine_New preset = \<lparr>en_preset = preset, en_impl = newMatchEngine preset, en_maxKeywordRunes = 0\<rparr>"

fun impl_build :: "build_env \<Rightarrow> matchEngine \<Rightarrow> gostring list \<Rightarrow> matchEngine option" where
  "impl_build env (MemEfficientImpl m) ks = map_option MemEfficientImpl (mem_buildFromSequence (env_sizing env) (env_maps env) ks)"
| "impl_build env (SpeedImpl s) ks = map_option SpeedImpl (speed_buildFromKeywords s ks)"
| "impl_build env (BalancedImpl b) ks =
     map_option BalancedImpl (balanced_buildFromKeywords (env_codes env) (env_children env) b ks)"

definition Engine_Build :: "build_env \<Rightarrow> Engine \<Rightarrow> gostring list \<Rightarrow> Engine option" where
  "Engine_Build env e ks = do {
     impl \<leftarrow> impl_build env (en_impl e) ks;
     Some (e\<lparr>en_impl := impl, en_maxKeywordRunes := fold (\<lambda>k n. max n (runeCount k)) ks 0\<rparr>)
   }"

definition Engine_Find :: "Engine \<Rightarrow> gostring \<Rightarrow> gostring list option" where
  "Engine_Find e text =
     (case en_impl e of
        MemEfficientImpl m \<Rightarrow> mem_find m text
      | SpeedImpl s \<Rightarrow> speed_find s text
      | BalancedImpl b \<Rightarrow> balanced_find b text)"

definition Engine_FindIndex :: "Engine \<Rightarrow> gostring \<Rightarrow> (gostring \<rightharpoonup> int list) option" where
  "Engine_FindIndex e text =
     (case en_impl e of
        MemEfficientImpl m \<Rightarrow> mem_findIndex m text
      | SpeedImpl s \<Rightarrow> speed_findIndex s text
      | BalancedImpl b \<Rightarrow> balanced_findIndex b text)"

definition Engine_MatchString :: "Engine \<Rightarrow> gostring \<Rightarrow> (match \<Rightarrow> 'a \<Rightarrow> 'a \<times> bool) \<Rightarrow> 'a \<Rightarrow> 'a option" where
  "Engine_MatchString e text emit a =
     (case en_impl e of
        MemEfficientImpl m \<Rightarrow> mem_matchString m text emit a
      | SpeedImpl s \<Rightarrow> speed_matchString s text emit a
      | BalancedImpl b \<Rightarrow> balanced_matchString b text emit a)"

text \<open>An implementation without a \<^verbatim>\<open>contains\<close> of its own stops a match callback at the first hit.\<close>

definition Engine_Contains :: "Engine \<Rightarrow> gostring \<Rightarrow> bool option" where
  "Engine_Contains e text =
     (case en_impl e of
        SpeedImpl s \<Rightarrow> speed_contains s text
      | BalancedImpl b \<Rightarrow> balanced_contains b text
      | MemEfficientImpl m \<Rightarrow> mem_matchString m text (\<lambda>_ _. (True, False)) False)"

definition Engine_FindSet :: "Engine \<Rightarrow> gostring \<Rightarrow> gostring list option" where
  "Engine_FindSet e text =
     (case en_impl e of
        MemEfficientImpl m \<Rightarrow> mem_findSet m text
      | SpeedImpl s \<Rightarrow> speed_findSet s text
      | BalancedImpl b \<Rightarrow> balanced_findSet b text)"

definition Engine_Stream ::
  "Engine \<Rightarrow> ('a \<Rightarrow> rune option \<times> 'a) \<Rightarrow> (match \<Rightarrow> 'a \<Rightarrow> 'a \<times> bool) \<Rightarrow> 'a \<Rightarrow> 'a option" where
  "Engine_Stream e nxt emit a =
     (case en_impl e of
        MemEfficientImpl m \<Rightarrow> mem_matchStream m nxt emit a
      | SpeedImpl s \<Rightarrow> speed_matchStream s nxt emit a
      | BalancedImpl b \<Rightarrow> balanced_matchStream b nxt emit a)"

definition Engine_Info :: "Engine \<Rightarrow> InMemoryInfo" where
  "Engine_Info e =
     (case en_impl e of
        MemEfficientImpl m \<Rightarrow> mem_info m
      | SpeedImpl s \<Rightarrow> speed_info s
      | BalancedImpl b \<Rightarrow> balanced_info b)"

section \<open>The dictionary of a keyword set\<close>

text \<open>
  For keywords that no two decode to the same runes (as for valid UTF-8), the
  dictionary depends on the set alone, not on the order it is ranged over.
\<close>

lemma dict_of_iff:
  assumes "inj_on runes (set ks)"
  shows "dict_of ks w = Some k \<longleftrightarrow> k \<in> set ks \<and> k \<noteq> [] \<and> runes k = w"
  using dict_of_runes dict_of_perm_inj[OF assms] by blast

lemma dict_of_set:
  assumes "inj_on runes (set ks)" and "set ks' = set ks"
  shows "dict_of ks' = dict_of ks"
proof
  fix w
  have "dict_of ks' w = Some k \<longleftrightarrow> dict_of ks w = Some k" for k
    using dict_of_iff[of ks w k] dict_of_iff[of ks' w k] assms by simp
  then show "dict_of ks' w = dict_of ks w" by (metis not_Some_eq)
qed

section \<open>A built engine\<close>

definition engine_holds :: "Engine \<Rightarrow> dict \<Rightarrow> bool" where
  "engine_holds e D \<longleftrightarrow>
     (case en_impl e of
        MemEfficientImpl m \<Rightarrow> mem_built m D
      | SpeedImpl s \<Rightarrow> if dom D = {} then se_dfa s = None else speed_built s D
      | BalancedImpl b \<Rightarrow> balanced_holds b D)"

lemma speed_none_ops:
  assumes "se_dfa s = None" and "dom D = {}"
  shows "speed_find s text = Some (spec_find D text)" "speed_findSet s text = Some (spec_findSet D text)"
    "speed_findIndex s text = Some (spec_findIndex D text)" "speed_contains s text = Some (spec_contains D text)"
    "speed_matchString s text emit a = Some (spec_match D text emit a)"
    "speed_matchStream s nxt emit a = spec_matchStream D nxt emit a"
  using assms
  by (simp_all add: speed_find_def speed_findSet_def speed_findIndex_def speed_contains_def speed_matchString_def
      speed_matchStream_def spec_matchStream_def spec_empty[OF assms(2)] del: dom_eq_empty_conv)

lemma emit_presence: "emitAll (\<lambda>_ _. (True, False)) ms False = (ms \<noteq> [], ms = [])"
  by (cases ms) auto

lemma engine_ops:
  assumes h: "engine_holds e D"
  shows "Engine_Find e text = Some (spec_find D text)"
    and "Engine_FindSet e text = Some (spec_findSet D text)"
    and "Engine_FindIndex e text = Some (spec_findIndex D text)"
    and "Engine_Contains e text = Some (spec_contains D text)"
    and "Engine_MatchString e text emit a = Some (spec_match D text emit a)"
    and "Engine_Stream e nxt emit a = spec_matchStream D nxt emit a"
  using h
  by (cases "en_impl e"; cases "dom D = {}";
      simp add: engine_holds_def Engine_Find_def Engine_FindSet_def Engine_FindIndex_def Engine_Contains_def
        Engine_MatchString_def Engine_Stream_def mem_ops balanced_ops speed_none_ops speed_ops spec_match_def
        spec_contains_def emit_presence spec_matchStream_def del: dom_eq_empty_conv)+

text \<open>
  The keyword sets a build is asked for: no duplicates and no empty keyword (the
  public operations drop it), distinct rune sequences, and few enough states to pack.
\<close>

definition keyword_set :: "gostring list \<Rightarrow> bool" where
  "keyword_set ks \<longleftrightarrow> distinct ks \<and> [] \<notin> set ks \<and> inj_on runes (set ks) \<and> card (states (dict_of ks)) < 2 ^ 30"

lemma keyword_set_empty: "keyword_set ks \<Longrightarrow> dom (dict_of ks) = {} \<longleftrightarrow> ks = []"
  by (auto simp: keyword_set_def dom_dict_of simp del: dom_eq_empty_conv)

lemma impl_build_correct:
  assumes env: "env_ok env" and ks: "keyword_set ks"
  shows "\<exists>i. impl_build env (newMatchEngine preset) ks = Some i \<and> (\<forall>n. engine_holds \<lparr>en_preset = preset, en_impl = i, en_maxKeywordRunes = n\<rparr> (dict_of ks))"
proof -
  from env have o: "sizing_ok (env_sizing env)" "map_order_ok (env_maps env)" "edge_order_ok (env_codes env)"
    "edge_order_ok (env_children env)" by (simp_all add: env_ok_def)
  have D: "dict_of (sort ks) = dict_of ks" using ks by (intro dict_of_set) (simp_all add: keyword_set_def)
  have mem: "\<exists>m. mem_buildFromSequence (env_sizing env) (env_maps env) ks = Some m \<and> mem_built m (dict_of ks)"
    using mem_build_correct[OF o(1,2)] by blast
  have bal: "\<exists>b. balanced_buildFromKeywords (env_codes env) (env_children env) e ks = Some b \<and> balanced_holds b (dict_of ks)" for e
    using balanced_build_correct[OF o(3,4)] by blast
  have speed: "\<exists>s. speed_buildFromKeywords newSpeedEngine ks = Some s \<and>
      (if dom (dict_of ks) = {} then se_dfa s = None else speed_built s (dict_of ks))"
  proof (cases "ks = []")
    case True
    then show ?thesis by (simp add: speed_build_empty)
  next
    case False
    with speed_build_correct[of ks newSpeedEngine] ks D keyword_set_empty[OF ks] show ?thesis
      by (auto simp: keyword_set_def)
  qed
  show ?thesis
  proof (cases preset)
    case PresetSpeed
    with speed show ?thesis by (auto simp: engine_holds_def)
  next
    case PresetMemoryEfficient
    with mem show ?thesis by (auto simp: engine_holds_def)
  qed (use bal[of "newBalancedEngine defaultBandDepth"] in \<open>auto simp: engine_holds_def\<close>)
qed

lemma fold_max: "fold (\<lambda>k n. max n (f k)) ks n = Max (insert n (f ` set ks))" for f :: "'a \<Rightarrow> nat"
proof (induction ks arbitrary: n)
  case (Cons k ks)
  have "Max (insert (max n (f k)) (f ` set ks)) = Max (insert n (insert (f k) (f ` set ks)))"
    by (cases "ks = []") (simp_all add: max.assoc)
  with Cons show ?case by simp
qed simp

lemma engine_build_correct:
  assumes "env_ok env" and "keyword_set ks"
  shows "\<exists>e. Engine_Build env (Engine_New preset) ks = Some e \<and> engine_holds e (dict_of ks) \<and>
    en_maxKeywordRunes e = Max (insert 0 (runeCount ` set ks)) \<and> en_preset e = preset"
proof -
  from impl_build_correct[OF assms, of preset] obtain i where i: "impl_build env (newMatchEngine preset) ks = Some i"
    "\<forall>n. engine_holds \<lparr>en_preset = preset, en_impl = i, en_maxKeywordRunes = n\<rparr> (dict_of ks)" by blast
  then show ?thesis by (simp add: Engine_Build_def Engine_New_def fold_max)
qed

section \<open>Colliding keywords\<close>

text \<open>
  Keywords that are not valid UTF-8 can decode to the same runes.  They are accepted, and
  share one state of the automaton, which reports the last one written: which, depends on
  the order of the build.
\<close>

definition accepted :: "gostring list \<Rightarrow> bool" where
  "accepted ks \<longleftrightarrow> [] \<notin> set ks \<and> card (states (dict_of ks)) < 2 ^ 30"

text \<open>A dictionary that names each rune sequence of the keywords by one of them.\<close>

definition winners :: "gostring set \<Rightarrow> dict \<Rightarrow> bool" where
  "winners K D \<longleftrightarrow> dom D = runes ` K \<and> (\<forall>w k. D w = Some k \<longrightarrow> k \<in> K \<and> runes k = w)"

lemma winners_dict_of: "[] \<notin> set ks \<Longrightarrow> winners (set ks) (dict_of ks)"
  using dict_of_runes[of ks] by (auto simp: winners_def dom_dict_of)

lemma winners_unique:
  assumes "winners K D" and "winners K D'" and "inj_on runes K"
  shows "D' = D"
proof
  fix w
  have sub: "D2 w = Some k" if "winners K D1" "winners K D2" "D1 w = Some k" for D1 D2 :: dict and k
  proof -
    have k: "k \<in> K" "runes k = w" using that(1,3) by (auto simp: winners_def)
    then have "w \<in> dom D2" using that(2) by (auto simp: winners_def)
    then obtain k2 where k2: "D2 w = Some k2" by blast
    then have "k2 \<in> K" "runes k2 = w" using that(2) by (auto simp: winners_def)
    with k assms(3) k2 show ?thesis by (auto dest: inj_onD)
  qed
  show "D' w = D w" using sub[OF assms(1,2)] sub[OF assms(2,1)] by (cases "D w"; cases "D' w") auto
qed

text \<open>An occurrence without the spelling of its keyword.\<close>

definition place :: "match \<Rightarrow> rune list \<times> int \<times> int" where
  "place m = (runes (fst m), snd m)"

lemma winners_places:
  assumes "winners K D" and "winners K D'"
  shows "map place (occurrences D t) = map place (occurrences D' t)"
proof -
  have dom: "D w = None \<longleftrightarrow> D' w = None" for w using assms unfolding winners_def by (metis domIff)
  have e: "ends D w = ends D' w" for w by (induction w) (simp_all add: dom)
  have in_ends: "v \<in> set (ends E w) \<Longrightarrow> E v \<noteq> None" for v w and E :: dict by (induction w) (auto split: if_splits)
  have named: "runes (the (E v)) = v" if "winners K E" "v \<in> set (ends E w)" for v w and E :: dict
    using in_ends[OF that(2)] that(1) by (auto simp: winners_def)
  have "map place (matches_at D w) = map place (matches_at D' w)" for w
    using named[OF assms(1), of _ w] named[OF assms(2), of _ w] by (simp add: matches_at_def outs_at_def place_def e)
  then have "map place (occs_from D w cs) = map place (occs_from D' w cs)" for w cs by (induction cs arbitrary: w) simp_all
  then show ?thesis by (simp add: occurrences_def)
qed

lemma winners_contains: "winners K D \<Longrightarrow> winners K D' \<Longrightarrow> spec_contains D text = spec_contains D' text"
  using winners_places[of K D D' "runes text"] by (metis spec_contains_def map_is_Nil_conv)

lemma accepted_sorted: "accepted ks \<Longrightarrow> accepted (sort ks)"
proof -
  have "states (dict_of (sort ks)) = states (dict_of ks)" unfolding states_def dom_dict_of by simp
  then show "accepted ks \<Longrightarrow> accepted (sort ks)" by (simp add: accepted_def)
qed

lemma balanced_count:
  assumes "balanced_holds b D"
  shows "info_Keywords (balanced_info b) = card (dom D)"
proof -
  have d: "dat_built (be_dat b) D" using assms by (simp add: balanced_holds_def)
  then have "keywordCount (dt_out (be_dat b)) = card (dom D)"
    unfolding dat_built_def dat_trie_def by (elim conjE) (rule interned_count[OF _ _ dom_subset_states])
  with balanced_empty_dom[OF d] show ?thesis by (auto simp: balanced_info_def)
qed

lemma engine_build_accepted:
  assumes env: "env_ok env" and ks: "accepted ks"
  shows "\<exists>e D. Engine_Build env (Engine_New preset) ks = Some e \<and> winners (set ks) D \<and> engine_holds e D \<and>
    info_Keywords (Engine_Info e) = card (runes ` set ks) \<and> en_maxKeywordRunes e = Max (insert 0 (runeCount ` set ks))"
proof -
  from env have o: "sizing_ok (env_sizing env)" "map_order_ok (env_maps env)" "edge_order_ok (env_codes env)"
    "edge_order_ok (env_children env)" by (simp_all add: env_ok_def)
  have W: "winners (set ks) (dict_of ks)" "winners (set ks) (dict_of (sort ks))"
    using winners_dict_of[of ks] winners_dict_of[of "sort ks"] ks by (simp_all add: accepted_def)
  then have c: "card (dom (dict_of ks)) = card (runes ` set ks)" "card (dom (dict_of (sort ks))) = card (runes ` set ks)"
    by (simp_all add: winners_def)
  have "\<exists>i D. impl_build env (newMatchEngine preset) ks = Some i \<and> winners (set ks) D \<and>
      (\<forall>n. let e = \<lparr>en_preset = preset, en_impl = i, en_maxKeywordRunes = n\<rparr>
       in engine_holds e D \<and> info_Keywords (Engine_Info e) = card (runes ` set ks))"
  proof -
    have mem: "\<exists>m. mem_buildFromSequence (env_sizing env) (env_maps env) ks = Some m \<and> mem_built m (dict_of ks)"
      using mem_build_correct[OF o(1,2)] by blast
    have bal: "\<exists>b. balanced_buildFromKeywords (env_codes env) (env_children env) e ks = Some b \<and> balanced_holds b (dict_of ks)" for e
      using balanced_build_correct[OF o(3,4)] by blast
    have speed: "\<exists>s. speed_buildFromKeywords newSpeedEngine ks = Some s \<and>
        (if dom (dict_of (sort ks)) = {} then se_dfa s = None else speed_built s (dict_of (sort ks))) \<and>
        info_Keywords (speed_info s) = card (runes ` set ks)"
    proof (cases "ks = []")
      case True
      then show ?thesis by (simp add: speed_build_empty speed_info_def)
    next
      case False
      have "card (states (dict_of (sort ks))) < 2 ^ 30" using accepted_sorted[OF ks] by (simp add: accepted_def)
      from speed_build_correct[OF False this, of newSpeedEngine] obtain s where
        s: "speed_buildFromKeywords newSpeedEngine ks = Some s" "speed_built s (dict_of (sort ks))" "keywordCount (se_out s) = card (dom (dict_of (sort ks)))"
        by blast
      moreover have "dom (dict_of (sort ks)) \<noteq> {}" using W(2) False by (auto simp: winners_def)
      moreover from s(2) have "se_dfa s \<noteq> None" by (auto simp: speed_built_def speed_ok_def)
      ultimately show ?thesis using c(2) by (auto simp: speed_info_def split: option.splits)
    qed
    show ?thesis
    proof (cases preset)
      case PresetSpeed
      with speed show ?thesis
        by (elim exE conjE, intro exI[of _ "dict_of (sort ks)"] exI[of _ "SpeedImpl _"])
          (use W(2) in \<open>simp add: engine_holds_def Engine_Info_def Let_def del: dom_eq_empty_conv\<close>)
    next
      case PresetMemoryEfficient
      with mem W(1) show ?thesis by (fastforce simp: engine_holds_def Engine_Info_def mem_info_def mem_keywordCount c(1))
    qed (use bal[of "newBalancedEngine defaultBandDepth"] W(1) in \<open>fastforce simp: engine_holds_def Engine_Info_def balanced_count c(1)\<close>)+
  qed
  then show ?thesis by (fastforce simp: Engine_Build_def Engine_New_def fold_max Let_def)
qed

section \<open>Properties\<close>

text \<open>
  C6.  The presets are interchangeable.  Two engines of any two presets are built from
  the same keywords, in any two orders: none is empty, and there are fewer than \<open>2 ^ 30\<close>
  states.  Both answer every search by the specification, for a dictionary that names each
  rune sequence by a keyword: by the keyword that decodes to it, and when several do, which
  happens with invalid UTF-8 only, by exactly one of those.  So they count the same number
  of keywords, report the same places in the same order and give the same presence answers;
  and when no two keywords collide, all their answers are the same, callbacks and streams
  included.
\<close>

theorem presets_agree:
  assumes "env_ok env" and "env_ok env'" and "accepted ks" and "accepted ks'" and "set ks' = set ks"
  shows "\<exists>e e' D D'. Engine_Build env (Engine_New p) ks = Some e \<and> Engine_Build env' (Engine_New p') ks' = Some e' \<and>
    winners (set ks) D \<and> winners (set ks) D' \<and> (inj_on runes (set ks) \<longrightarrow> D' = D) \<and>
    en_maxKeywordRunes e = en_maxKeywordRunes e' \<and>
    info_Keywords (Engine_Info e) = card (runes ` set ks) \<and> info_Keywords (Engine_Info e') = card (runes ` set ks) \<and>
    (\<forall>text. map place (occurrences D (runes text)) = map place (occurrences D' (runes text)) \<and> Engine_Contains e text = Engine_Contains e' text \<and>
       Engine_Find e text = Some (spec_find D text) \<and> Engine_Find e' text = Some (spec_find D' text) \<and>
       Engine_FindSet e text = Some (spec_findSet D text) \<and> Engine_FindSet e' text = Some (spec_findSet D' text) \<and>
       Engine_FindIndex e text = Some (spec_findIndex D text) \<and> Engine_FindIndex e' text = Some (spec_findIndex D' text) \<and>
       Engine_Contains e text = Some (spec_contains D text) \<and>
       (\<forall>emit (a :: 'a). Engine_MatchString e text emit a = Some (spec_match D text emit a) \<and>
          Engine_MatchString e' text emit a = Some (spec_match D' text emit a))) \<and>
    (\<forall>nxt emit (a :: 'a). Engine_Stream e nxt emit a = spec_matchStream D nxt emit a \<and>
       Engine_Stream e' nxt emit a = spec_matchStream D' nxt emit a)"
proof -
  from engine_build_accepted[OF assms(1,3), of p] obtain e D where e: "Engine_Build env (Engine_New p) ks = Some e"
    "winners (set ks) D" "engine_holds e D" "info_Keywords (Engine_Info e) = card (runes ` set ks)"
    "en_maxKeywordRunes e = Max (insert 0 (runeCount ` set ks))" by blast
  from engine_build_accepted[OF assms(2,4), of p'] obtain e' D' where e': "Engine_Build env' (Engine_New p') ks' = Some e'"
    "winners (set ks) D'" "engine_holds e' D'" "info_Keywords (Engine_Info e') = card (runes ` set ks)"
    "en_maxKeywordRunes e' = Max (insert 0 (runeCount ` set ks))" unfolding assms(5) by blast
  note O = engine_ops[OF e(3)] engine_ops[OF e'(3)]
  show ?thesis
    by (rule exI[of _ e], rule exI[of _ e'], rule exI[of _ D], rule exI[of _ D'])
      (use e(1,2,4,5) e'(1,2,4,5) winners_unique[OF e(2) e'(2)] winners_places[OF e(2) e'(2)] winners_contains[OF e(2) e'(2)] in
        \<open>simp add: O\<close>)
qed

definition env_example :: build_env where
  "env_example = \<lparr>env_sizing = (\<lambda>n. (64, 1)), env_maps = \<lparr>edgeOrder = (\<lambda>_ es. es), runeOrder = (\<lambda>rs. rs)\<rparr>,
     env_codes = (\<lambda>_ es. es), env_children = (\<lambda>_ es. rev es)\<rparr>"

lemma env_example_ok: "env_ok env_example"
  by (simp add: env_ok_def env_example_def sizing_ok_def map_order_ok_def edge_order_ok_def)

lemma keyword_set_example: "keyword_set [''he'', ''hers'', ''she'']" "keyword_set [''she'', ''he'', ''hers'']"
proof -
  have inj: "inj_on runes {''he'', ''hers'', ''she''}" by (auto simp: inj_on_def runes_ascii byte_def RuneSelf_def)
  moreover have s: "set [''she'', ''he'', ''hers''] = {''he'', ''hers'', ''she''}" by auto
  moreover have "dict_of [''she'', ''he'', ''hers''] = dict_of [''he'', ''hers'', ''she'']"
    by (rule dict_of_set) (use inj s in simp_all)
  ultimately show "keyword_set [''he'', ''hers'', ''she'']" "keyword_set [''she'', ''he'', ''hers'']"
    using states_small_witness by (simp_all add: keyword_set_def)
qed

text \<open>Two keywords that collide, \<open>FF\<close> and \<open>FE\<close>, beside one that does not, in two orders.\<close>

definition colliding :: "gostring list" where
  "colliding = [''he'', [CHR 0xFF], [CHR 0xFE]]"

lemma colliding_ok: "accepted colliding" "accepted (rev colliding)"
proof -
  have "dom (dict_of colliding) = {runes ''he'', [RuneError]}" "dom (dict_of (rev colliding)) = {runes ''he'', [RuneError]}"
    by (simp_all add: dom_dict_of colliding_def) (auto, code_simp+)
  then have "dom (dict_of ks) = {runes ''he'', [RuneError]}" if "ks \<in> {colliding, rev colliding}" for ks using that by blast
  then have "states (dict_of ks) \<subseteq> set (prefixes (runes ''he'') @ prefixes [RuneError])" if "ks \<in> {colliding, rev colliding}" for ks
    using that unfolding states_def by simp (auto simp: prefix_Cons)
  then have "card (states (dict_of ks)) \<le> card (set (prefixes (runes ''he'') @ prefixes [RuneError]))" if "ks \<in> {colliding, rev colliding}" for ks
    using that by (intro card_mono) auto
  moreover have "length (prefixes (runes ''he'') @ prefixes [RuneError]) < 2 ^ 30" by (simp add: runes_ascii byte_def RuneSelf_def)
  ultimately have "card (states (dict_of ks)) < 2 ^ 30" if "ks \<in> {colliding, rev colliding}" for ks
    using that card_length[of "prefixes (runes ''he'') @ prefixes [RuneError]"] by (meson le_less_trans)
  then show "accepted colliding" "accepted (rev colliding)" by (simp_all add: accepted_def) (simp_all add: colliding_def)
qed

theorem presets_agree_witness:
  "\<exists>e e' D D'. Engine_Build env_example (Engine_New PresetSpeed) colliding = Some e \<and>
     Engine_Build env_example (Engine_New PresetMemoryEfficient) (rev colliding) = Some e' \<and>
     info_Keywords (Engine_Info e) = 2 \<and> info_Keywords (Engine_Info e') = 2 \<and>
     winners (set colliding) D \<and> winners (set colliding) D' \<and>
     Engine_Find e ''the'' = Some (spec_find D ''the'') \<and> Engine_Find e' ''the'' = Some (spec_find D' ''the'')"
proof -
  have c: "card (runes ` set colliding) = 2" by code_simp
  have "set (rev colliding) = set colliding" by simp
  from presets_agree[OF env_example_ok env_example_ok colliding_ok this, of PresetSpeed PresetMemoryEfficient]
  show ?thesis unfolding c by blast
qed

end
