(* ===== verification/Utf8.thy ===== *)
theory Utf8
  imports Go_Strings
begin

text \<open>
  Encoding runes: the conversion \<open>string(runes)\<close> of the language, and the text
  normalisation of \<^verbatim>\<open>pkg/acor/modes.go\<close> built on it.  The Unicode tables of the
  standard library (lower case, letters, digits, marks) are data, passed as an
  argument; \<open>unicode_ok\<close> is what is used of them.
\<close>

definition valid_rune :: "rune \<Rightarrow> bool" where
  "valid_rune r \<longleftrightarrow> 0 \<le> r \<and> r \<le> 0x10FFFF \<and> \<not> (0xD800 \<le> r \<and> r \<le> 0xDFFF)"

definition chr :: "int \<Rightarrow> char" where "chr b = char_of b"

text \<open>\<^verbatim>\<open>utf8.AppendRune\<close>: an invalid rune is encoded as \<open>RuneError\<close>.\<close>

definition encodeValid :: "rune \<Rightarrow> gostring" where
  "encodeValid r =
     (if r < 0x80 then [chr r]
      else if r < 0x800 then [chr (0xC0 + r div 64), chr (0x80 + r mod 64)]
      else if r < 0x10000
      then [chr (0xE0 + r div 4096), chr (0x80 + r div 64 mod 64), chr (0x80 + r mod 64)]
      else [chr (0xF0 + r div 262144), chr (0x80 + r div 4096 mod 64), chr (0x80 + r div 64 mod 64),
            chr (0x80 + r mod 64)])"

definition encodeRune :: "rune \<Rightarrow> gostring" where
  "encodeRune r = encodeValid (if valid_rune r then r else RuneError)"

definition string_of :: "rune list \<Rightarrow> gostring" where
  "string_of rs = concat (map encodeRune rs)"

definition runeLen :: "rune \<Rightarrow> int" where
  "runeLen r =
     (if r < 0 then -1 else if r < 0x80 then 1 else if r < 0x800 then 2
      else if 0xD800 \<le> r \<and> r \<le> 0xDFFF then -1 else if r < 0x10000 then 3 else if r \<le> 0x10FFFF then 4 else -1)"

section \<open>Decoding what was encoded\<close>

lemma byte_chr: "0 \<le> b \<Longrightarrow> b < 256 \<Longrightarrow> byte (chr b) = b"
  by (simp add: byte_def chr_def)

lemma decode2:
  assumes "2 \<le> a" "a < 32" "0 \<le> b" "b < 64"
  shows "decodeRune (chr (0xC0 + a) # chr (0x80 + b) # s) = (a * 64 + b, 2)"
  using assms by (simp add: decodeRune_def byte_chr RuneSelf_def cont_byte_def)

lemma decode3:
  assumes "0 \<le> a" "a < 16" "0 \<le> b" "b < 64" "0 \<le> c" "c < 64" "a = 0 \<longrightarrow> 32 \<le> b" "a = 13 \<longrightarrow> b \<le> 31"
  shows "decodeRune (chr (0xE0 + a) # chr (0x80 + b) # chr (0x80 + c) # s) = (a * 4096 + b * 64 + c, 3)"
proof -
  have "second3 (0xE0 + a) (0x80 + b)" using assms by (simp add: second3_def)
  moreover have "cont_byte (0x80 + c)" using assms by (simp add: cont_byte_def)
  ultimately show ?thesis using assms by (simp add: decodeRune_def byte_chr RuneSelf_def)
qed

lemma decode4:
  assumes "0 \<le> a" "a \<le> 4" "0 \<le> b" "b < 64" "0 \<le> c" "c < 64" "0 \<le> d" "d < 64" "a = 0 \<longrightarrow> 16 \<le> b" "a = 4 \<longrightarrow> b \<le> 15"
  shows "decodeRune (chr (0xF0 + a) # chr (0x80 + b) # chr (0x80 + c) # chr (0x80 + d) # s) =
    (a * 262144 + b * 4096 + c * 64 + d, 4)"
proof -
  have "second4 (0xF0 + a) (0x80 + b)" using assms by (simp add: second4_def)
  moreover have "cont_byte (0x80 + c)" "cont_byte (0x80 + d)" using assms by (simp_all add: cont_byte_def)
  ultimately show ?thesis using assms by (simp add: decodeRune_def byte_chr RuneSelf_def)
qed

lemma split64: "(r :: int) = r div 64 * 64 + r mod 64" "r div 4096 = r div 64 div 64" "r div 262144 = r div 4096 div 64"
  by (simp_all add: div_mult_mod_eq zdiv_zmult2_eq[symmetric])

lemma decode_valid:
  assumes v: "valid_rune r"
  shows "decodeRune (encodeValid r @ s) = (r, length (encodeValid r))"
proof -
  define q b where "q = r div 64" and "b = r mod 64"
  define a c where "a = q div 64" and "c = q mod 64"
  define u d where "u = a div 64" and "d = a mod 64"
  have r: "r = q * 64 + b" "q = a * 64 + c" "a = u * 64 + d" "0 \<le> b" "b < 64" "0 \<le> c" "c < 64" "0 \<le> d" "d < 64"
    by (simp_all add: q_def b_def a_def c_def u_def d_def)
  have e: "r div 64 = q" "r mod 64 = b" "r div 4096 = a" "r div 262144 = u" "q mod 64 = c" "a mod 64 = d"
    using split64(2,3)[of r] by (simp_all add: q_def b_def a_def c_def u_def d_def)
  from v have vr: "0 \<le> r" "r \<le> 0x10FFFF" "r < 0xD800 \<or> 0xDFFF < r" by (auto simp: valid_rune_def)
  consider "r < 0x80" | "0x80 \<le> r" "r < 0x800" | "0x800 \<le> r" "r < 0x10000" | "0x10000 \<le> r" by linarith
  then show ?thesis
  proof cases
    case 1
    with vr show ?thesis by (simp add: encodeValid_def decodeRune_def byte_chr RuneSelf_def)
  next
    case 2
    have "2 \<le> q" "q < 32" using 2 r by linarith+
    from decode2[OF this r(4,5), of s] 2 r(1)[symmetric] show ?thesis by (simp add: encodeValid_def e)
  next
    case 3
    have h: "0 \<le> a" "a < 16" "a = 0 \<longrightarrow> 32 \<le> c" "a = 13 \<longrightarrow> c \<le> 31" using 3 r vr by linarith+
    have "a * 4096 + c * 64 + b = r" using r by linarith
    with 3 decode3[OF h(1,2) r(6,7,4,5) h(3,4), of s] show ?thesis by (simp add: encodeValid_def e)
  next
    case 4
    have h: "0 \<le> u" "u \<le> 4" "u = 0 \<longrightarrow> 16 \<le> d" "u = 4 \<longrightarrow> d \<le> 15" using 4 r vr by linarith+
    have "u * 262144 + d * 4096 + c * 64 + b = r" using r by linarith
    with 4 decode4[OF h(1,2) r(8,9,6,7,4,5) h(3,4), of s] show ?thesis by (simp add: encodeValid_def e)
  qed
qed

lemma decode_encode:
  assumes "valid_rune r"
  shows "decodeRune (encodeRune r @ s) = (r, length (encodeRune r))" "encodeRune r \<noteq> []"
  using decode_valid[OF assms, of s] assms by (simp_all add: encodeRune_def) (simp add: encodeValid_def)

definition valid_of :: "rune \<Rightarrow> rune" where
  "valid_of r = (if valid_rune r then r else RuneError)"

lemma valid_of_valid [simp]: "valid_rune (valid_of r)" "valid_rune r \<Longrightarrow> valid_of r = r"
  by (simp_all add: valid_of_def valid_rune_def RuneError_def)

lemma encodeRune_valid_of: "encodeRune (valid_of r) = encodeRune r"
  by (simp add: encodeRune_def valid_of_def valid_rune_def RuneError_def)

lemma runes_string_of: "runes (string_of rs @ s) = map valid_of rs @ runes s"
proof (induction rs)
  case (Cons r rs)
  from decode_encode(1)[of "valid_of r" "string_of rs @ s"] decode_encode(2)[of "valid_of r"] have d:
    "decodeRune (encodeRune r @ string_of rs @ s) = (valid_of r, length (encodeRune r))" "encodeRune r \<noteq> []"
    by (simp_all add: encodeRune_valid_of)
  then obtain c cs where c: "encodeRune r = c # cs" by (cases "encodeRune r") auto
  with d(1) have "runes (encodeRune r @ string_of rs @ s) = valid_of r # runes (string_of rs @ s)"
    by (simp add: runes_Cons)
  with Cons show ?case by (simp add: string_of_def)
qed (simp add: string_of_def)

lemma runes_valid: "r \<in> set (runes s) \<Longrightarrow> valid_rune r"
proof (induction s rule: runes_induct)
  case (Rune c cs r' k)
  have "valid_rune r'"
    using Rune(1)
    by (auto simp: decodeRune_def valid_rune_def RuneError_def RuneSelf_def second3_def second4_def cont_byte_def
        split: if_splits list.splits)
  with Rune show ?case by (auto simp: runes_Cons[OF Rune(1)])
qed simp

lemma runes_encode [simp]: "\<forall>r \<in> set rs. valid_rune r \<Longrightarrow> runes (string_of rs) = rs"
  using runes_string_of[of rs "[]"] by (simp add: map_idI)

section \<open>Normalising text\<close>

record unicode =
  uc_ToLower :: "rune \<Rightarrow> rune"
  uc_IsLetter :: "rune \<Rightarrow> bool"
  uc_IsDigit :: "rune \<Rightarrow> bool"
  uc_IsMark :: "rune \<Rightarrow> bool"

text \<open>Lower case maps code points to code points.\<close>

definition unicode_ok :: "unicode \<Rightarrow> bool" where
  "unicode_ok u \<longleftrightarrow> (\<forall>r. valid_rune r \<longrightarrow> valid_rune (uc_ToLower u r))"

definition isSpace :: "rune \<Rightarrow> bool" where
  "isSpace r \<longleftrightarrow> r \<in> {9, 10, 11, 12, 13, 32, 0x85, 0xA0, 0x1680, 0x2028, 0x2029, 0x202F, 0x205F, 0x3000} \<or>
     0x2000 \<le> r \<and> r \<le> 0x200A"

text \<open>
  \<^verbatim>\<open>strings.ToLower\<close> is \<^verbatim>\<open>strings.Map\<close> of \<^verbatim>\<open>unicode.ToLower\<close>.  \<^verbatim>\<open>strings.TrimSpace\<close> drops
  the leading and trailing spaces; the runes of the rest keep their bytes.
\<close>

definition toLower :: "unicode \<Rightarrow> gostring \<Rightarrow> gostring" where
  "toLower u s = string_of (map (uc_ToLower u) (runes s))"

fun pieces_from :: "nat \<Rightarrow> gostring \<Rightarrow> (rune \<times> gostring) list" where
  "pieces_from n s =
     (case n of
        0 \<Rightarrow> []
      | Suc m \<Rightarrow>
          (if s = [] then []
           else (case decodeRune s of (r, k) \<Rightarrow> (r, take k s) # pieces_from m (drop k s))))"

definition pieces :: "gostring \<Rightarrow> (rune \<times> gostring) list" where
  "pieces s = pieces_from (length s) s"

definition trimSpace :: "gostring \<Rightarrow> gostring" where
  "trimSpace s =
     concat (map snd (rev (dropWhile (\<lambda>p. isSpace (fst p)) (rev (dropWhile (\<lambda>p. isSpace (fst p)) (pieces s))))))"

definition normalizeKeyword :: "unicode \<Rightarrow> gostring \<Rightarrow> bool \<Rightarrow> gostring" where
  "normalizeKeyword u keyword caseSensitive =
     (let trimmed = trimSpace keyword in if \<not> caseSensitive then toLower u trimmed else trimmed)"

definition normalizeText :: "unicode \<Rightarrow> gostring \<Rightarrow> bool \<Rightarrow> gostring" where
  "normalizeText u text caseSensitive = (if \<not> caseSensitive then toLower u text else text)"

text \<open>The fold one rune at a time, as the streaming paths apply it.\<close>

definition fold_rune :: "unicode \<Rightarrow> bool \<Rightarrow> rune \<Rightarrow> rune" where
  "fold_rune u caseSensitive r = (if caseSensitive then r else uc_ToLower u r)"

lemma runes_toLower: "unicode_ok u \<Longrightarrow> runes (toLower u s) = map (uc_ToLower u) (runes s)"
  unfolding toLower_def by (rule runes_encode) (auto simp: unicode_ok_def dest: runes_valid)

lemma runes_normalizeText: "unicode_ok u \<Longrightarrow> runes (normalizeText u s cs) = map (fold_rune u cs) (runes s)"
  by (cases cs) (simp_all add: normalizeText_def runes_toLower fold_rune_def cong: map_cong)

section \<open>Reversal\<close>

text \<open>\<^verbatim>\<open>reverse\<close> swaps the runes pairwise from both ends.\<close>

fun swap_ends :: "nat \<Rightarrow> nat \<Rightarrow> nat \<Rightarrow> 'a list \<Rightarrow> 'a list" where
  "swap_ends 0 i j r = r"
| "swap_ends (Suc n) i j r = swap_ends n (i + 1) (j - 1) (r[i := r ! j, j := r ! i])"

definition reverse :: "gostring \<Rightarrow> gostring" where
  "reverse s = (let r = runes s in string_of (swap_ends (length r div 2) 0 (length r - 1) r))"

lemma swap_ends_nth:
  assumes "n \<le> length r div 2" and "i + n = length r div 2" and "j = length r - 1 - i" and "k < length r"
  shows "swap_ends n i j r ! k = (if i \<le> k \<and> k \<le> j then r ! (length r - 1 - k) else r ! k)"
  using assms
proof (induction n arbitrary: i j r)
  case 0
  have "length r - 1 - k = k" if "i \<le> k" "k \<le> j" using 0 that by linarith
  then show ?case by simp
next
  case (Suc n)
  let ?r = "r[i := r ! j, j := r ! i]"
  have l: "i < j" "j < length r" using Suc.prems by linarith+
  have "swap_ends n (i + 1) (j - 1) ?r ! k = (if i + 1 \<le> k \<and> k \<le> j - 1 then ?r ! (length ?r - 1 - k) else ?r ! k)"
    by (rule Suc.IH) (use Suc.prems l in \<open>simp_all\<close>)
  then have IH: "swap_ends (Suc n) i j r ! k =
      (if i + 1 \<le> k \<and> k \<le> j - 1 then ?r ! (length r - 1 - k) else ?r ! k)" by simp
  consider "k = i" | "k = j" | "i < k" "k < j" | "k < i \<or> j < k" by linarith
  then show ?case
  proof cases
    case 1
    moreover have "length r - 1 - i = j" using Suc.prems by simp
    ultimately show ?thesis using IH l by (simp add: nth_list_update)
  next
    case 2
    moreover have "length r - 1 - j = i" "\<not> j \<le> j - Suc 0" using Suc.prems l by linarith+
    ultimately show ?thesis using IH l by (simp add: nth_list_update)
  next
    case 3
    then have "length r - 1 - k \<noteq> i" "length r - 1 - k \<noteq> j" "k \<le> j - Suc 0" using Suc.prems by linarith+
    with IH l 3 show ?thesis by (simp add: nth_list_update)
  next
    case 4
    then have "k \<noteq> i" "k \<noteq> j" "\<not> (i \<le> k \<and> k \<le> j)" "\<not> (i + 1 \<le> k \<and> k \<le> j - 1)" using l by linarith+
    with IH show ?thesis by (simp only: if_False nth_list_update_neq)
  qed
qed

lemma length_swap_ends [simp]: "length (swap_ends n i j r) = length r"
  by (induction n arbitrary: i j r) auto

lemma swap_ends_rev: "swap_ends (length r div 2) 0 (length r - 1) r = rev r"
proof (rule nth_equalityI)
  fix k
  assume "k < length (swap_ends (length r div 2) 0 (length r - 1) r)"
  then have k: "k < length r" "k \<le> length r - 1" by simp_all
  then show "swap_ends (length r div 2) 0 (length r - 1) r ! k = rev r ! k"
    using swap_ends_nth[of "length r div 2" r 0 "length r - 1" k] by (simp add: rev_nth)
qed simp

lemma runes_reverse: "runes (reverse s) = rev (runes s)"
  unfolding reverse_def Let_def swap_ends_rev by (rule runes_encode) (auto dest: runes_valid)

end
