(* ===== verification/Acor_Errors.thy ===== *)
theory Acor_Errors
  imports Prelude
begin

text \<open>
  \<^verbatim>\<open>pkg/acor/errors.go\<close> and the error values of \<^verbatim>\<open>scan.go\<close> and \<^verbatim>\<open>versioned.go\<close>.  An operation returns
  \<^verbatim>\<open>Inl err\<close> or \<^verbatim>\<open>Inr value\<close>; where it can also panic, that is \<^verbatim>\<open>None\<close> around it.
  \<open>ErrContext\<close> is what \<^verbatim>\<open>ctx.Err()\<close> returns, \<open>ErrClient\<close> an error of the Redis client and
  \<open>ErrText\<close> an error made in place from its message and \<open>Wrapped\<close> one made with \<^verbatim>\<open>%w\<close> (\<open>Joined\<close> with two of them).
\<close>

datatype acorError =
    ErrEmptyKeyword | ErrInvalidChunkSize | ErrCacheRequiresV2 | ErrConcurrencyConflict
  | ErrPresetRequiresRedis | ErrPresetRequiresV2 | ErrSuggestRequiresRedis | ErrMigrationRequiresRedis
  | ErrNilArgs | ErrCacheWithPreset | ErrV1ReadOnly | ErrInvalidName | ErrMigrationInProg
  | ErrVersionedClosed | ErrLeaseExpired | ErrMaintenance | ErrCasePolicy | ErrInvalidVersion
  | ErrCommitUnknown | ErrVersionedCorrupt
  | ErrInputLimit | ErrScanWorkLimit | ErrMatchLimit | ErrOutputLimit
  | OperationError string gostring nat acorError
  | RedisError string gostring acorError
  | Wrapped string acorError | Joined acorError acorError | ShardError nat acorError
  | ErrContext string | ErrClient string | ErrText string

type_synonym 'a result = "acorError + 'a"

definition newOperationError :: "string \<Rightarrow> nat \<Rightarrow> acorError \<Rightarrow> acorError" where
  "newOperationError op schema err = OperationError op [] schema err"

definition newRedisError :: "string \<Rightarrow> gostring \<Rightarrow> acorError \<Rightarrow> acorError" where
  "newRedisError op key err = RedisError op key err"

fun unwrap :: "acorError \<Rightarrow> acorError option" where
  "unwrap (OperationError op kw schema err) = Some err"
| "unwrap (RedisError op key err) = Some err"
| "unwrap (Wrapped msg err) = Some err"
| "unwrap (ShardError shard err) = Some err"
| "unwrap e = None"

text \<open>\<^verbatim>\<open>errors.Is\<close>: the target is somewhere along the wrapped errors.\<close>

fun errors_Is :: "acorError \<Rightarrow> acorError \<Rightarrow> bool" where
  "errors_Is (OperationError op kw schema err) target \<longleftrightarrow> OperationError op kw schema err = target \<or> errors_Is err target"
| "errors_Is (RedisError op key err) target \<longleftrightarrow> RedisError op key err = target \<or> errors_Is err target"
| "errors_Is (Wrapped msg err) target \<longleftrightarrow> Wrapped msg err = target \<or> errors_Is err target"
| "errors_Is (ShardError shard err) target \<longleftrightarrow> ShardError shard err = target \<or> errors_Is err target"
| "errors_Is (Joined a b) target \<longleftrightarrow> Joined a b = target \<or> errors_Is a target \<or> errors_Is b target"
| "errors_Is e target \<longleftrightarrow> e = target"

section \<open>Results\<close>

fun bindR :: "'a result \<Rightarrow> ('a \<Rightarrow> 'b result) \<Rightarrow> 'b result" where
  "bindR (Inl e) f = Inl e"
| "bindR (Inr x) f = f x"

lemma bindR_Inr: "bindR r f = Inr y \<longleftrightarrow> (\<exists>x. r = Inr x \<and> f x = Inr y)"
  by (cases r) auto

lemma errors_Is_refl: "errors_Is e e"
  by (cases e) auto

lemma errors_Is_wrapped: "errors_Is (newOperationError op n (newRedisError op' k e)) e"
  by (simp add: newOperationError_def newRedisError_def errors_Is_refl)

end
