(* ===== verification/Matches.thy ===== *)
theory Matches
  imports Engine_Handle Utf8 Acor_Errors "HOL-Library.Product_Lexorder"
begin

text \<open>
  \<^verbatim>\<open>pkg/acor/matches.go\<close>: searching with match spans.  A match is the keyword with
  its half-open span of rune offsets.  The engine an operation loads and the
  context's state are arguments: \<open>load\<close> is what \<^verbatim>\<open>ops.loadEngine\<close> returned, \<open>ctxErr\<close>
  what \<^verbatim>\<open>ctx.Err()\<close> returned after it.
\<close>

abbreviation mstart :: "match \<Rightarrow> int" where "mstart m \<equiv> fst (snd m)"
abbreviation mend :: "match \<Rightarrow> int" where "mend m \<equiv> snd (snd m)"

text \<open>The two kinds, and the other values the integer type has.\<close>

datatype MatchKind = MatchKindOverlapping | MatchKindLeftmostLongest | MatchKindOther int

record MatchOptions =
  mo_Kind :: MatchKind
  mo_WholeWord :: bool
  mo_WordRune :: "(rune \<Rightarrow> bool) option"

section \<open>Filters\<close>

definition cmpLeftmostLongest :: "match \<Rightarrow> match \<Rightarrow> int" where
  "cmpLeftmostLongest a b =
     (if mstart a \<noteq> mstart b then (if mstart a < mstart b then -1 else 1)
      else if mend b < mend a then -1 else if mend b = mend a then 0 else 1)"

fun isSortedFunc :: "('a \<Rightarrow> 'a \<Rightarrow> int) \<Rightarrow> 'a list \<Rightarrow> bool" where
  "isSortedFunc cmp (a # b # xs) \<longleftrightarrow> \<not> cmp b a < 0 \<and> isSortedFunc cmp (b # xs)"
| "isSortedFunc cmp xs \<longleftrightarrow> True"

text \<open>
  The order of \<open>cmpLeftmostLongest\<close> as a key.  \<^verbatim>\<open>slices.SortFunc\<close> is not stable, but two
  matches of one scan with the same span are the same match.
\<close>

definition span_key :: "match \<Rightarrow> int \<times> int" where
  "span_key m = (mstart m, - mend m)"

text \<open>The greedy pass that selects in place.\<close>

fun keepLongest :: "match list \<Rightarrow> int \<Rightarrow> match list" where
  "keepLongest [] lastEnd = []"
| "keepLongest (m # ms) lastEnd = (if mstart m \<ge> lastEnd then m # keepLongest ms (mend m) else keepLongest ms lastEnd)"

definition leftmostLongest :: "match list \<Rightarrow> match list" where
  "leftmostLongest ms =
     (if length ms \<le> 1 then ms
      else keepLongest (if isSortedFunc cmpLeftmostLongest ms then ms else sort_key span_key ms) 0)"

definition filterWholeWord :: "match list \<Rightarrow> rune list \<Rightarrow> (rune \<Rightarrow> bool) \<Rightarrow> match list option" where
  "filterWholeWord ms rs isWord =
     foldM (\<lambda>m out. do {
         beforeOK \<leftarrow> (if mstart m = 0 then Some True else do { r \<leftarrow> idxi rs (mstart m - 1); Some (\<not> isWord r) });
         afterOK \<leftarrow> (if mend m \<ge> int (length rs) then Some True else do { r \<leftarrow> idxi rs (mend m); Some (\<not> isWord r) });
         Some (if beforeOK \<and> afterOK then out @ [m] else out)
       }) ms []"

definition isWordRune :: "unicode \<Rightarrow> rune \<Rightarrow> bool" where
  "isWordRune u r \<longleftrightarrow> uc_IsLetter u r \<or> uc_IsDigit u r \<or> uc_IsMark u r \<or> r = 95"

section \<open>The searches\<close>

abbreviation slice :: "'a list option \<Rightarrow> 'a list" where
  "slice xs \<equiv> (case xs of None \<Rightarrow> [] | Some ys \<Rightarrow> ys)"

definition findMatches ::
  "unicode \<Rightarrow> bool \<Rightarrow> Engine result \<Rightarrow> acorError option \<Rightarrow> match list option \<Rightarrow> gostring \<Rightarrow> MatchOptions option \<Rightarrow>
   match list result option" where
  "findMatches u caseSensitive load ctxErr dst text opts =
     (if text = [] then Some (Inr (slice dst))
      else (let norm = normalizeText u text caseSensitive in
        case (load, ctxErr) of
          (Inl err, _) \<Rightarrow> Some (Inl err)
        | (Inr eng, Some err) \<Rightarrow> Some (Inl err)
        | (Inr eng, None) \<Rightarrow> do {
            raw \<leftarrow> Engine_MatchString eng norm (\<lambda>m ms. (Some (slice ms @ [m]), True)) dst;
            (let matches = slice raw; base = length (slice dst) in
             case opts of
               None \<Rightarrow> Some (Inr matches)
             | Some opt \<Rightarrow> do {
                 found \<leftarrow> (if mo_WholeWord opt \<and> drop base matches \<noteq> []
                   then filterWholeWord (drop base matches) (runes norm)
                     (case mo_WordRune opt of None \<Rightarrow> isWordRune u | Some f \<Rightarrow> f)
                   else Some (drop base matches));
                 (let kept = (if mo_Kind opt = MatchKindLeftmostLongest then leftmostLongest found else found)
                  in Some (Inr (take base matches @ kept)))
               })
          }))"

definition FindMatches where
  "FindMatches u caseSensitive load ctxErr text opts = findMatches u caseSensitive load ctxErr None text opts"

definition FindSet :: "unicode \<Rightarrow> bool \<Rightarrow> Engine result \<Rightarrow> acorError option \<Rightarrow> gostring \<Rightarrow> gostring list result option" where
  "FindSet u caseSensitive load ctxErr text =
     (if text = [] then Some (Inr [])
      else case (load, ctxErr) of
          (Inl err, _) \<Rightarrow> Some (Inl err)
        | (Inr eng, Some err) \<Rightarrow> Some (Inl err)
        | (Inr eng, None) \<Rightarrow> map_option Inr (Engine_FindSet eng (normalizeText u text caseSensitive)))"

definition Contains :: "unicode \<Rightarrow> bool \<Rightarrow> Engine result \<Rightarrow> acorError option \<Rightarrow> gostring \<Rightarrow> bool result option" where
  "Contains u caseSensitive load ctxErr text =
     (if text = [] then Some (Inr False)
      else case (load, ctxErr) of
          (Inl err, _) \<Rightarrow> Some (Inl err)
        | (Inr eng, Some err) \<Rightarrow> Some (Inl err)
        | (Inr eng, None) \<Rightarrow> map_option Inr (Engine_Contains eng (normalizeText u text caseSensitive)))"

section \<open>Streams\<close>

text \<open>
  Reader and callback are given (a nil one makes the call return at once).  A
  reader yields its runes one by one and ends with end of file or an error; the
  context is looked at before every rune.  The state of a stream scan is what is
  left of the reader, the context's answers still to come, the recorded error
  and the state of the consumer.
\<close>

datatype read_end = AtEOF | ReadFailed acorError

record 'a streamScan =
  ss_runes :: "rune list"
  ss_end :: read_end
  ss_ctx :: "acorError option list"
  ss_err :: "acorError option"
  ss_user :: 'a

definition stream_next :: "unicode \<Rightarrow> bool \<Rightarrow> 'a streamScan \<Rightarrow> rune option \<times> 'a streamScan" where
  "stream_next u caseSensitive s =
     (let c = (case ss_ctx s of [] \<Rightarrow> None | e # _ \<Rightarrow> e); s1 = s\<lparr>ss_ctx := tl (ss_ctx s)\<rparr> in
      case c of
        Some err \<Rightarrow> (None, s1\<lparr>ss_err := Some err\<rparr>)
      | None \<Rightarrow>
          (case ss_runes s of
             [] \<Rightarrow> (None, (case ss_end s of AtEOF \<Rightarrow> s1 | ReadFailed err \<Rightarrow> s1\<lparr>ss_err := Some err\<rparr>))
           | r # rs \<Rightarrow> (Some (fold_rune u caseSensitive r), s1\<lparr>ss_runes := rs\<rparr>)))"

definition stream_emit :: "(match \<Rightarrow> 'a \<Rightarrow> 'a \<times> bool) \<Rightarrow> match \<Rightarrow> 'a streamScan \<Rightarrow> 'a streamScan \<times> bool" where
  "stream_emit onMatch m s = (case onMatch m (ss_user s) of (a, go) \<Rightarrow> (s\<lparr>ss_user := a\<rparr>, go))"

definition FindStream ::
  "unicode \<Rightarrow> bool \<Rightarrow> Engine result \<Rightarrow> acorError option list \<Rightarrow> rune list \<Rightarrow> read_end \<Rightarrow>
   (match \<Rightarrow> 'a \<Rightarrow> 'a \<times> bool) \<Rightarrow> 'a \<Rightarrow> ('a \<times> acorError option) option" where
  "FindStream u caseSensitive load ctx rs fin onMatch a =
     (case load of
        Inl err \<Rightarrow> Some (a, Some err)
      | Inr eng \<Rightarrow> do {
          s \<leftarrow> Engine_Stream eng (stream_next u caseSensitive) (stream_emit onMatch)
            \<lparr>ss_runes = rs, ss_end = fin, ss_ctx = ctx, ss_err = None, ss_user = a\<rparr>;
          Some (ss_user s, ss_err s)
        })"

section \<open>The leftmost-longest selection\<close>

text \<open>
  What a leftmost-longest selection of the matches \<open>ms\<close> is: some of them, in order
  and disjoint, such that every match is covered: it starts inside a selected
  one, or where a selected one that is at least as long starts.
\<close>

definition spans_ok :: "match set \<Rightarrow> bool" where
  "spans_ok M \<longleftrightarrow> (\<forall>m \<in> M. 0 \<le> mstart m \<and> mstart m < mend m) \<and>
     (\<forall>a \<in> M. \<forall>b \<in> M. mstart a = mstart b \<longrightarrow> mend a = mend b \<longrightarrow> a = b)"

definition covered_by :: "match \<Rightarrow> match \<Rightarrow> bool" where
  "covered_by m k \<longleftrightarrow> mstart k < mstart m \<and> mstart m < mend k \<or> mstart k = mstart m \<and> mend m \<le> mend k"

definition selection :: "match set \<Rightarrow> match list \<Rightarrow> bool" where
  "selection M out \<longleftrightarrow> set out \<subseteq> M \<and> sorted_wrt (\<lambda>a b. mend a \<le> mstart b) out \<and>
     (\<forall>m \<in> M. \<exists>k \<in> set out. covered_by m k)"

lemma selection_cover: "selection M out \<Longrightarrow> m \<in> M \<Longrightarrow> \<exists>k \<in> set out. covered_by m k"
  unfolding selection_def by blast

text \<open>There is at most one.\<close>

lemma selection_first:
  assumes ok: "spans_ok M" and sel: "selection M (a # xs)" and m: "m \<in> M"
  shows "mstart a \<le> mstart m" "mstart m = mstart a \<Longrightarrow> mend m \<le> mend a"
proof -
  from sel have a: "a \<in> M" "\<forall>b \<in> set xs. mend a \<le> mstart b" by (auto simp: selection_def)
  with ok have a': "\<forall>b \<in> set xs. mstart a < mstart b" by (force simp: spans_ok_def)
  from selection_cover[OF sel m] obtain k where k: "k = a \<or> k \<in> set xs" "covered_by m k" by fastforce
  with a' show "mstart a \<le> mstart m" by (auto simp: covered_by_def)
  assume "mstart m = mstart a"
  with k a' show "mend m \<le> mend a" by (auto simp: covered_by_def)
qed

lemma selection_tail:
  assumes ok: "spans_ok M" and sel: "selection M (a # xs)"
  shows "selection {m \<in> M. mend a \<le> mstart m} xs"
proof -
  have "\<exists>k \<in> set xs. covered_by m k" if m: "m \<in> M" "mend a \<le> mstart m" for m
  proof -
    from selection_cover[OF sel m(1)] obtain k where k: "k = a \<or> k \<in> set xs" "covered_by m k" by fastforce
    have "mstart a < mend a" using ok sel by (auto simp: spans_ok_def selection_def)
    with m(2) have "\<not> covered_by m a" by (auto simp: covered_by_def)
    with k show ?thesis by blast
  qed
  with sel show ?thesis by (auto simp: selection_def)
qed

lemma selection_Nil: "selection M [] \<longleftrightarrow> M = {}"
  by (auto simp: selection_def)

lemma selection_unique: "spans_ok M \<Longrightarrow> selection M xs \<Longrightarrow> selection M ys \<Longrightarrow> xs = ys"
proof (induction xs arbitrary: M ys)
  case Nil
  then show ?case by (cases ys) (auto simp: selection_def)
next
  case (Cons a xs)
  have "M \<noteq> {}" using Cons.prems(2) unfolding selection_def by auto
  then obtain b ys' where ys: "ys = b # ys'" using Cons.prems(3) selection_Nil by (cases ys) blast+
  have in_M: "a \<in> M" "b \<in> M" using Cons.prems(2,3) ys by (auto simp: selection_def)
  note fa = selection_first[OF Cons.prems(1,2) in_M(2)] and fb = selection_first[OF Cons.prems(1) Cons.prems(3)[unfolded ys] in_M(1)]
  have "mstart a = mstart b" using fa(1) fb(1) by simp
  with fa(2) fb(2) have "mend a = mend b" by simp
  with \<open>mstart a = mstart b\<close> in_M Cons.prems(1) have ab: "a = b" by (auto simp: spans_ok_def)
  have "spans_ok {m \<in> M. mend a \<le> mstart m}" using Cons.prems(1) by (auto simp: spans_ok_def)
  from Cons.IH[OF this selection_tail[OF Cons.prems(1,2)]] selection_tail[OF Cons.prems(1) Cons.prems(3)[unfolded ys]] ab ys
  show ?case by simp
qed

lemma keepLongest_selection:
  assumes "sorted (map span_key ms)" and "\<forall>m \<in> set ms. mstart m < mend m"
  shows "selection {m \<in> set ms. e \<le> mstart m} (keepLongest ms e)"
  using assms
proof (induction ms arbitrary: e)
  case Nil
  then show ?case by (simp add: selection_Nil)
next
  case (Cons m ms)
  have le: "\<forall>k \<in> set ms. mstart m < mstart k \<or> mstart m = mstart k \<and> mend k \<le> mend m"
    using Cons.prems(1) by (auto simp: span_key_def less_eq_prod_def)
  show ?case
  proof (cases "e \<le> mstart m")
    case False
    have "{k \<in> set (m # ms). e \<le> mstart k} = {k \<in> set ms. e \<le> mstart k}" using False by auto
    with False Cons show ?thesis by simp
  next
    case True
    have IH: "selection {k \<in> set ms. mend m \<le> mstart k} (keepLongest ms (mend m))" using Cons by simp
    have cov: "covered_by k m" if "k \<in> set (m # ms)" "\<not> mend m \<le> mstart k" for k
      using that le by (auto simp: covered_by_def)
    have "\<exists>x \<in> set (m # keepLongest ms (mend m)). covered_by k x" if k: "k \<in> set (m # ms)" for k
    proof (cases "mend m \<le> mstart k")
      case True
      with k Cons.prems(2) have "k \<in> set ms" by auto
      with True have "k \<in> {k \<in> set ms. mend m \<le> mstart k}" by blast
      from selection_cover[OF IH this] show ?thesis by auto
    qed (use cov[OF k] in auto)
    moreover have "mstart m < mend m" using Cons.prems(2) by simp
    ultimately show ?thesis using IH True unfolding selection_def by auto
  qed
qed

lemma isSorted_span_key: "isSortedFunc cmpLeftmostLongest ms \<Longrightarrow> sorted (map span_key ms)"
proof (induction ms rule: induct_list012)
  case (3 a b ms)
  then have "span_key a \<le> span_key b"
    by (auto simp: span_key_def less_eq_prod_def cmpLeftmostLongest_def split: if_splits)
  with 3 show ?case by (auto intro: order_trans)
qed simp_all

lemma leftmostLongest_selection:
  assumes "spans_ok (set ms)"
  shows "selection (set ms) (leftmostLongest ms)"
proof (cases "length ms \<le> 1")
  case True
  have "selection {m} [m]" for m by (auto simp: selection_def covered_by_def)
  with True show ?thesis by (cases ms) (auto simp: leftmostLongest_def selection_Nil)
next
  case False
  define ms' where "ms' = (if isSortedFunc cmpLeftmostLongest ms then ms else sort_key span_key ms)"
  have "sorted (map span_key ms')" using isSorted_span_key by (simp add: ms'_def)
  moreover have set: "set ms' = set ms" by (simp add: ms'_def)
  moreover have "{m \<in> set ms. 0 \<le> mstart m} = set ms" using assms by (auto simp: spans_ok_def)
  ultimately show ?thesis
    using keepLongest_selection[of ms' 0] assms False by (simp add: leftmostLongest_def ms'_def spans_ok_def)
qed

section \<open>Whole words\<close>

definition whole_word :: "(rune \<Rightarrow> bool) \<Rightarrow> rune list \<Rightarrow> match \<Rightarrow> bool" where
  "whole_word isWord rs m \<longleftrightarrow> (mstart m = 0 \<or> \<not> isWord (rs ! nat (mstart m - 1))) \<and>
     (mend m \<ge> int (length rs) \<or> \<not> isWord (rs ! nat (mend m)))"

lemma filterWholeWord_correct:
  assumes "\<forall>m \<in> set ms. 0 \<le> mstart m \<and> mstart m < mend m \<and> mend m \<le> int (length rs)"
  shows "filterWholeWord ms rs isWord = Some (filter (whole_word isWord rs) ms)"
proof -
  let ?f = "\<lambda>m out. do {
         beforeOK \<leftarrow> (if mstart m = 0 then Some True else do { r \<leftarrow> idxi rs (mstart m - 1); Some (\<not> isWord r) });
         afterOK \<leftarrow> (if mend m \<ge> int (length rs) then Some True else do { r \<leftarrow> idxi rs (mend m); Some (\<not> isWord r) });
         Some (if beforeOK \<and> afterOK then out @ [m] else out)
       }"
  have "?f m out = Some (if whole_word isWord rs m then out @ [m] else out)"
    if "0 \<le> mstart m \<and> mstart m < mend m \<and> mend m \<le> int (length rs)" for m out
    using that by (auto simp: idxi_Some whole_word_def)
  with assms have "foldM ?f ms out = Some (out @ filter (whole_word isWord rs) ms)" for out
    by (induction ms arbitrary: out) auto
  then show ?thesis by (simp add: filterWholeWord_def)
qed

lemma occurrences_spans:
  "\<forall>m \<in> set (occurrences D rs). 0 \<le> mstart m \<and> mstart m < mend m \<and> mend m \<le> int (length rs)"
proof
  fix m
  assume m: "m \<in> set (occurrences D rs)"
  obtain k s e where "m = (k, s, e)" by (cases m) auto
  with m occurrences_iff[of k s e D rs] show "0 \<le> mstart m \<and> mstart m < mend m \<and> mend m \<le> int (length rs)"
    by (simp add: nat_le_iff)
qed

lemma occurrences_spans_ok: "M \<subseteq> set (occurrences D rs) \<Longrightarrow> spans_ok M"
proof -
  assume "M \<subseteq> set (occurrences D rs)"
  moreover have "spans_ok (set (occurrences D rs))"
    using occurrences_spans[of D rs] by (auto simp: spans_ok_def occurrences_iff)
  ultimately show ?thesis unfolding spans_ok_def by blast
qed

lemma occurrence_length:
  assumes "(k, s, e) \<in> set (occurrences (dict_of ks) rs)"
  shows "k \<in> set ks" "e - s = int (runeCount k)" "0 \<le> s" "s < e" "e \<le> int (length rs)"
proof -
  from assms have o: "0 \<le> s" "s < e" "nat e \<le> length rs" "dict_of ks (take (nat e - nat s) (drop (nat s) rs)) = Some k"
    by (simp_all add: occurrences_iff)
  from dict_of_runes[OF o(4)] have "k \<in> set ks" "runes k = take (nat e - nat s) (drop (nat s) rs)" by auto
  with o show "k \<in> set ks" "e - s = int (runeCount k)" "0 \<le> s" "s < e" "e \<le> int (length rs)"
    by (auto simp: runeCount_def)
qed

section \<open>Searching a built engine\<close>

lemma emit_append: "emitAll (\<lambda>m ms. (Some (slice ms @ [m]), True)) occ dst = (append_opt dst occ, True)"
  by (induction occ arbitrary: dst) (auto simp: append_opt_def)

definition eligible :: "unicode \<Rightarrow> MatchOptions \<Rightarrow> dict \<Rightarrow> rune list \<Rightarrow> match list" where
  "eligible u opt D rs =
     (if mo_WholeWord opt
      then filter (whole_word (case mo_WordRune opt of None \<Rightarrow> isWordRune u | Some f \<Rightarrow> f) rs) (occurrences D rs)
      else occurrences D rs)"

lemma findMatches_options:
  assumes h: "engine_holds eng D" and u: "unicode_ok u" and t: "text \<noteq> []"
    and rs: "rs = map (fold_rune u cs) (runes text)"
  shows "findMatches u cs (Inr eng) None dst text (Some opt) =
    Some (Inr (slice dst @ (if mo_Kind opt = MatchKindLeftmostLongest then leftmostLongest (eligible u opt D rs) else eligible u opt D rs)))"
proof -
  let ?norm = "normalizeText u text cs" and ?w = "case mo_WordRune opt of None \<Rightarrow> isWordRune u | Some f \<Rightarrow> f"
  have norm: "runes ?norm = rs" using runes_normalizeText[OF u] rs by simp
  have raw: "Engine_MatchString eng ?norm (\<lambda>m ms. (Some (slice ms @ [m]), True)) dst = Some (append_opt dst (occurrences D rs))"
    by (simp add: engine_ops(5)[OF h] spec_match_def norm emit_append)
  have m: "slice (append_opt dst occ) = slice dst @ occ" for occ by (simp add: append_opt_def)
  have f: "filterWholeWord (occurrences D rs) rs ?w = Some (filter (whole_word ?w rs) (occurrences D rs))"
    by (rule filterWholeWord_correct[OF occurrences_spans])
  show ?thesis using t raw f by (simp add: findMatches_def Let_def m norm eligible_def)
qed

lemma eligible_sub: "set (eligible u opt D rs) \<subseteq> set (occurrences D rs)"
  by (auto simp: eligible_def)

lemma engine_built_holds:
  assumes "env_ok env" and "keyword_set ks" and "Engine_Build env (Engine_New preset) ks = Some e"
  shows "engine_holds e (dict_of ks)" "en_maxKeywordRunes e = Max (insert 0 (runeCount ` set ks))"
  using engine_build_correct[OF assms(1,2), of preset] assms(3) by auto

section \<open>Streaming a reader\<close>

text \<open>What a scan reads before it ends by itself, and the error it ends with.\<close>

definition ctx_now :: "acorError option list \<Rightarrow> acorError option" where
  "ctx_now ctx = (case ctx of [] \<Rightarrow> None | e # _ \<Rightarrow> e)"

fun stream_reads :: "acorError option list \<Rightarrow> rune list \<Rightarrow> read_end \<Rightarrow> rune list \<times> acorError option" where
  "stream_reads ctx [] fin =
     ([], case ctx_now ctx of Some err \<Rightarrow> Some err
          | None \<Rightarrow> (case fin of AtEOF \<Rightarrow> None | ReadFailed err \<Rightarrow> Some err))"
| "stream_reads ctx (r # rs) fin =
     (case ctx_now ctx of Some err \<Rightarrow> ([], Some err)
      | None \<Rightarrow> (case stream_reads (tl ctx) rs fin of (read, err) \<Rightarrow> (r # read, err)))"

lemma emitAll_stream: "emitAll (stream_emit f) ms s = (case emitAll f ms (ss_user s) of (a, go) \<Rightarrow> (s\<lparr>ss_user := a\<rparr>, go))"
  by (induction ms arbitrary: s) (auto simp: stream_emit_def split: prod.splits)

lemma stream_spec:
  assumes "i = int (length w)"
  shows "\<exists>s'. streamLoop spec_step (spec_emit D (stream_emit f)) (stream_next u cs) w i
      \<lparr>ss_runes = rs, ss_end = fin, ss_ctx = ctx, ss_err = None, ss_user = a\<rparr> = Some s' \<and>
    (case stream_reads ctx rs fin of (read, err) \<Rightarrow>
       case emitAll f (occs_from D w (map (fold_rune u cs) read)) a of (a', go) \<Rightarrow>
         ss_user s' = a' \<and> ss_err s' = (if go then err else None))"
  using assms
proof (induction rs arbitrary: ctx w i a)
  case Nil
  show ?case
    by (subst streamLoop.simps) (cases fin; cases "ctx_now ctx"; simp add: stream_next_def ctx_now_def[symmetric])
next
  case (Cons r rs)
  let ?s = "\<lambda>rs ctx a. \<lparr>ss_runes = rs, ss_end = fin, ss_ctx = ctx, ss_err = None, ss_user = a\<rparr>"
  show ?case
  proof (cases "ctx_now ctx")
    case (Some err)
    then show ?thesis by (subst streamLoop.simps) (simp add: stream_next_def ctx_now_def[symmetric])
  next
    case None
    let ?c = "fold_rune u cs r"
    have nxt: "stream_next u cs (?s (r # rs) ctx a) = (Some ?c, ?s rs (tl ctx) a)"
      using None by (simp add: stream_next_def ctx_now_def[symmetric])
    obtain a1 go where e: "emitAll f (matches_at D (w @ [?c])) a = (a1, go)" by fastforce
    have step: "streamLoop spec_step (spec_emit D (stream_emit f)) (stream_next u cs) w i (?s (r # rs) ctx a) =
      (if go then streamLoop spec_step (spec_emit D (stream_emit f)) (stream_next u cs) (w @ [?c]) (i + 1) (?s rs (tl ctx) a1)
       else Some (?s rs (tl ctx) a1))"
      by (subst streamLoop.simps) (simp add: nxt spec_step_def spec_emit_def emitAll_stream e)
    have len: "i + 1 = int (length (w @ [?c]))" using Cons.prems by simp
    show ?thesis
    proof (cases go)
      case True
      obtain read err where rd: "stream_reads (tl ctx) rs fin = (read, err)" by fastforce
      obtain a2 go2 where e2: "emitAll f (occs_from D (w @ [?c]) (map (fold_rune u cs) read)) a1 = (a2, go2)" by fastforce
      from Cons.IH[OF len, of "tl ctx" a1] True rd e2 show ?thesis
        unfolding step using None e by (simp add: emitAll_append)
    next
      case False
      then show ?thesis unfolding step using None e by (auto simp: emitAll_append split: prod.splits)
    qed
  qed
qed


section \<open>Properties\<close>

text \<open>
  C7.  The leftmost-longest filter computes the leftmost-longest selection: for
  matches with proper, distinct spans, in any order, its result is the one list
  of disjoint matches in text order that covers every match by one starting
  earlier and reaching over its start, or starting with it and at least as long.
\<close>

theorem leftmostLongest_iff:
  assumes "spans_ok (set ms)"
  shows "selection (set ms) out \<longleftrightarrow> out = leftmostLongest ms"
  using selection_unique[OF assms _ leftmostLongest_selection[OF assms]] leftmostLongest_selection[OF assms] by blast

theorem leftmostLongest_iff_witness:
  "spans_ok (set [(''she'', 1, 4), (''he'', 2, 4), (''hers'', 2, 6), (''s'', 5, 6)]) \<and>
   leftmostLongest [(''she'', 1, 4), (''he'', 2, 4), (''hers'', 2, 6), (''s'', 5, 6)] = [(''she'', 1, 4), (''s'', 5, 6)]"
proof -
  let ?ms = "[(''she'', 1, 4), (''he'', 2, 4), (''hers'', 2, 6), (''s'', 5, 6)] :: match list"
  have ok: "spans_ok (set ?ms)" by (simp add: spans_ok_def)
  moreover have "selection (set ?ms) [(''she'', 1, 4), (''s'', 5, 6)]" by (simp add: selection_def covered_by_def)
  ultimately show ?thesis using leftmostLongest_iff[OF ok, of "[(''she'', 1, 4), (''s'', 5, 6)]"] by simp
qed

text \<open>
  C8.  FindMatches on a built engine appends to the caller's slice exactly the
  eligible matches of the case-folded text: every occurrence in scan order,
  restricted to whole words when asked, or the leftmost-longest selection of
  these.  What the slice held before is untouched, and no offset is out of range.
\<close>

theorem findMatches_correct:
  assumes "env_ok env" and "keyword_set ks" and "Engine_Build env (Engine_New preset) ks = Some eng"
    and "unicode_ok u" and "text \<noteq> []" and "rs = map (fold_rune u cs) (runes text)"
  shows "\<exists>out. findMatches u cs (Inr eng) None dst text (Some opt) = Some (Inr (slice dst @ out)) \<and>
    (if mo_Kind opt = MatchKindLeftmostLongest then selection (set (eligible u opt (dict_of ks) rs)) out
     else out = eligible u opt (dict_of ks) rs)"
proof -
  from engine_built_holds[OF assms(1-3)] have h: "engine_holds eng (dict_of ks)" by blast
  show ?thesis
    using findMatches_options[OF h assms(4-6), of dst opt]
      leftmostLongest_selection[OF occurrences_spans_ok[OF eligible_sub], of u opt "dict_of ks" rs]
    by auto
qed

definition ascii_unicode :: unicode where
  "ascii_unicode = \<lparr>uc_ToLower = (\<lambda>r. if 65 \<le> r \<and> r \<le> 90 then r + 32 else r),
     uc_IsLetter = (\<lambda>r. 65 \<le> r \<and> r \<le> 90 \<or> 97 \<le> r \<and> r \<le> 122), uc_IsDigit = (\<lambda>r. 48 \<le> r \<and> r \<le> 57), uc_IsMark = (\<lambda>_. False)\<rparr>"

lemma ascii_unicode_ok: "unicode_ok ascii_unicode"
  by (auto simp: unicode_ok_def ascii_unicode_def valid_rune_def)

theorem findMatches_correct_witness:
  "\<exists>eng out. Engine_Build env_example (Engine_New PresetBalanced) [''he'', ''hers'', ''she''] = Some eng \<and>
     findMatches ascii_unicode False (Inr eng) None (Some [(''x'', 0, 1)]) ''He, USHERS''
       (Some \<lparr>mo_Kind = MatchKindOverlapping, mo_WholeWord = True, mo_WordRune = None\<rparr>) =
     Some (Inr [(''x'', 0, 1), (''he'', 0, 2)])"
proof -
  let ?ks = "[''he'', ''hers'', ''she'']" and ?opt = "\<lparr>mo_Kind = MatchKindOverlapping, mo_WholeWord = True, mo_WordRune = None\<rparr>"
  let ?rs = "map (fold_rune ascii_unicode False) (runes ''He, USHERS'')"
  from engine_build_correct[OF env_example_ok keyword_set_example(1), of PresetBalanced] obtain eng
    where b: "Engine_Build env_example (Engine_New PresetBalanced) ?ks = Some eng" by blast
  have "eligible ascii_unicode ?opt (dict_of ?ks) ?rs = [(''he'', 0, 2)]" by code_simp
  with findMatches_correct[OF env_example_ok keyword_set_example(1) b ascii_unicode_ok, of "''He, USHERS''" ?rs False
      "Some [(''x'', 0, 1)]" ?opt]
  have "findMatches ascii_unicode False (Inr eng) None (Some [(''x'', 0, 1)]) ''He, USHERS'' (Some ?opt) =
     Some (Inr [(''x'', 0, 1), (''he'', 0, 2)])" by simp
  with b show ?thesis by blast
qed

text \<open>
  C9.  FindStream keeps one automaton state over the whole reader: it reports the
  occurrences in the case-folded runes it read, in scan order, until the
  consumer stops.  It reads to the end of the input, to the first read error or
  to the first rune at which the context is done, and returns that error unless
  the consumer stopped before.
\<close>

theorem FindStream_correct:
  assumes "env_ok env" and "keyword_set ks" and "ks \<noteq> []" and "Engine_Build env (Engine_New preset) ks = Some eng"
    and "stream_reads ctx rs fin = (read, err)"
  shows "FindStream u cs (Inr eng) ctx rs fin onMatch a =
    (case emitAll onMatch (occurrences (dict_of ks) (map (fold_rune u cs) read)) a of
       (a', go) \<Rightarrow> Some (a', if go then err else None))"
proof -
  from engine_built_holds[OF assms(1,2,4)] have h: "engine_holds eng (dict_of ks)" by blast
  have ne: "dom (dict_of ks) \<noteq> {}" using keyword_set_empty[OF assms(2)] assms(3) by blast
  from stream_spec[of 0 "[]" "dict_of ks" onMatch u cs rs fin ctx a] assms(5) show ?thesis
    by (auto simp: FindStream_def engine_ops(6)[OF h] spec_matchStream_def ne spec_stream_def occurrences_def
        split: prod.splits simp del: dom_eq_empty_conv)
qed

theorem FindStream_correct_witness:
  "\<exists>eng. Engine_Build env_example (Engine_New PresetSpeed) [''he'', ''hers'', ''she''] = Some eng \<and>
     FindStream ascii_unicode False (Inr eng) [None, None, None, None, None, Some (ErrContext ''canceled'')]
       (runes ''USHERS'') AtEOF (\<lambda>m ms. (ms @ [m], True)) [] =
     Some ([(''she'', 1, 4), (''he'', 2, 4)], Some (ErrContext ''canceled''))"
proof -
  let ?ks = "[''he'', ''hers'', ''she'']" and ?ctx = "[None, None, None, None, None, Some (ErrContext ''canceled'')]"
  from engine_build_correct[OF env_example_ok keyword_set_example(1), of PresetSpeed] obtain eng
    where b: "Engine_Build env_example (Engine_New PresetSpeed) ?ks = Some eng" by blast
  have r: "stream_reads ?ctx (runes ''USHERS'') AtEOF = (runes ''USHER'', Some (ErrContext ''canceled''))" by code_simp
  have o: "occurrences (dict_of ?ks) (map (fold_rune ascii_unicode False) (runes ''USHER'')) = [(''she'', 1, 4), (''he'', 2, 4)]"
    by code_simp
  have "FindStream ascii_unicode False (Inr eng) ?ctx (runes ''USHERS'') AtEOF (\<lambda>m ms. (ms @ [m], True)) [] =
     Some ([(''she'', 1, 4), (''he'', 2, 4)], Some (ErrContext ''canceled''))"
    using FindStream_correct[OF env_example_ok keyword_set_example(1) _ b r, of ascii_unicode False "\<lambda>m ms. (ms @ [m], True)" "[]"]
    by (simp add: o)
  with b show ?thesis by blast
qed

end
