(* ===== verification/Parallel.thy ===== *)
theory Parallel
  imports Matches
begin

text \<open>
  \<^verbatim>\<open>pkg/acor/parallel.go\<close>, the options of \<^verbatim>\<open>options.go\<close> and the parallel searches of
  \<^verbatim>\<open>context_ops.go\<close>: the text is cut into chunks that are searched independently,
  and the results are merged.  Each chunk's result goes to its own slot, so the
  order the workers run in does not show; the chunks are searched in order here.
  The number of processors is the argument \<open>numCPU\<close>.
\<close>

section \<open>Options\<close>

datatype ChunkBoundary = ChunkBoundaryWord | ChunkBoundarySentence | ChunkBoundaryLine

record ParallelOptions =
  po_Workers :: int
  po_ChunkSize :: int
  po_Boundary :: ChunkBoundary
  po_Overlap :: int
  po_AutoOverlap :: bool

definition DefaultChunkSize :: int where "DefaultChunkSize = 1000"
definition DefaultOverlap :: int where "DefaultOverlap = 50"
definition defaultMaxBacktrackDivisor :: int where "defaultMaxBacktrackDivisor = 2"

definition DefaultParallelOptions :: "int \<Rightarrow> ParallelOptions" where
  "DefaultParallelOptions numCPU =
     \<lparr>po_Workers = numCPU, po_ChunkSize = DefaultChunkSize, po_Boundary = ChunkBoundaryWord,
      po_Overlap = DefaultOverlap, po_AutoOverlap = False\<rparr>"

definition normalizeParallelOptions :: "int \<Rightarrow> ParallelOptions option \<Rightarrow> ParallelOptions" where
  "normalizeParallelOptions numCPU opts =
     (case opts of
        None \<Rightarrow> DefaultParallelOptions numCPU
      | Some o1 \<Rightarrow>
          (let o2 = (if po_Workers o1 \<le> 0 then o1\<lparr>po_Workers := numCPU\<rparr> else o1)
           in if po_Overlap o2 < 0 then o2\<lparr>po_Overlap := 0\<rparr> else o2))"

section \<open>Chunks\<close>

record chunk =
  ch_text :: gostring
  ch_textOffset :: int
  ch_ownedRunes :: int

definition isBoundary :: "rune list \<Rightarrow> int \<Rightarrow> ChunkBoundary \<Rightarrow> bool option" where
  "isBoundary rs i boundaryType =
     (if i \<le> 0 \<or> i \<ge> int (length rs) then Some False
      else do {
        r \<leftarrow> idxi rs i;
        p \<leftarrow> idxi rs (i - 1);
        Some (case boundaryType of
            ChunkBoundaryWord \<Rightarrow> isSpace r \<and> \<not> isSpace p
          | ChunkBoundaryLine \<Rightarrow> p = 10
          | ChunkBoundarySentence \<Rightarrow> (p = 46 \<or> p = 33 \<or> p = 63) \<and> isSpace r)
      })"

text \<open>The loop counts \<open>i\<close> down from the target.\<close>

fun findBoundaryFrom :: "rune list \<Rightarrow> int \<Rightarrow> ChunkBoundary \<Rightarrow> int \<Rightarrow> nat \<Rightarrow> int option" where
  "findBoundaryFrom rs target boundaryType maxBacktrack 0 = Some target"
| "findBoundaryFrom rs target boundaryType maxBacktrack (Suc i) =
     (if int (Suc i) > target - maxBacktrack
      then do {
        b \<leftarrow> isBoundary rs (int (Suc i)) boundaryType;
        if b then Some (int (Suc i)) else findBoundaryFrom rs target boundaryType maxBacktrack i
      }
      else Some target)"

definition findBoundary :: "rune list \<Rightarrow> int \<Rightarrow> ChunkBoundary \<Rightarrow> int \<Rightarrow> int option" where
  "findBoundary rs target boundaryType maxBacktrack = findBoundaryFrom rs target boundaryType maxBacktrack (nat target)"

text \<open>The slice \<open>runes[a:b]\<close>; the bounds are in range wherever it is used.\<close>

definition rslice :: "rune list \<Rightarrow> int \<Rightarrow> int \<Rightarrow> rune list" where
  "rslice rs a b = take (nat (b - a)) (drop (nat a) rs)"

partial_function (option) splitLoop :: "rune list \<Rightarrow> ParallelOptions \<Rightarrow> int \<Rightarrow> chunk list option" where
  "splitLoop rs opts start =
     (if start < int (length rs)
      then (let end' = start + po_ChunkSize opts in
        if end' \<ge> int (length rs)
        then Some [\<lparr>ch_text = string_of (drop (nat start) rs), ch_textOffset = start, ch_ownedRunes = 0\<rparr>]
        else do {
          b0 \<leftarrow> findBoundary rs end' (po_Boundary opts) (po_ChunkSize opts div defaultMaxBacktrackDivisor);
          (let boundary = (if b0 \<le> start then end' else b0);
               nextStart = (if boundary - po_Overlap opts \<le> start then boundary else boundary - po_Overlap opts)
           in do {
             rest \<leftarrow> splitLoop rs opts nextStart;
             Some (\<lparr>ch_text = string_of (rslice rs start boundary), ch_textOffset = start, ch_ownedRunes = 0\<rparr> # rest)
           })
        })
      else Some [])"

declare splitLoop.simps [code]

definition splitChunks :: "gostring \<Rightarrow> ParallelOptions \<Rightarrow> chunk list option" where
  "splitChunks text opts =
     (let rs = runes text in
      if int (length rs) \<le> po_ChunkSize opts
      then Some [\<lparr>ch_text = text, ch_textOffset = 0, ch_ownedRunes = 0\<rparr>]
      else splitLoop rs opts 0)"

partial_function (option) splitAutoLoop :: "rune list \<Rightarrow> ParallelOptions \<Rightarrow> int \<Rightarrow> int \<Rightarrow> chunk list option" where
  "splitAutoLoop rs opts extension start =
     (if start < int (length rs)
      then (let end0 = start + min (po_ChunkSize opts) (int (length rs) - start) in do {
        end' \<leftarrow> (if end0 < int (length rs)
          then do {
            b \<leftarrow> findBoundary rs end0 (po_Boundary opts) (po_ChunkSize opts div defaultMaxBacktrackDivisor);
            Some (if b > start then b else end0)
          }
          else Some end0);
        rest \<leftarrow> splitAutoLoop rs opts extension end';
        (let searchEnd = end' + min extension (int (length rs) - end')
         in Some (\<lparr>ch_text = string_of (rslice rs start searchEnd), ch_textOffset = start,
                   ch_ownedRunes = end' - start\<rparr> # rest))
      })
      else Some [])"

declare splitAutoLoop.simps [code]

definition splitAutoChunks :: "gostring \<Rightarrow> ParallelOptions \<Rightarrow> int \<Rightarrow> chunk list option" where
  "splitAutoChunks text opts longest =
     splitAutoLoop (runes text) opts (max (po_Overlap opts) (longest - 1)) 0"

section \<open>Merging\<close>

fun dedupLoop :: "gostring list \<Rightarrow> gostring list \<Rightarrow> gostring list \<Rightarrow> gostring list" where
  "dedupLoop [] seen out = out"
| "dedupLoop (s # ss) seen out = (if s \<notin> set seen then dedupLoop ss (s # seen) (out @ [s]) else dedupLoop ss seen out)"

definition dedupPreservingOrder :: "gostring list \<Rightarrow> gostring list" where
  "dedupPreservingOrder xs = dedupLoop xs [] []"

text \<open>Results by chunk, or the error of the first chunk that failed.\<close>

fun scanChunks :: "(chunk \<Rightarrow> 'a option) \<Rightarrow> acorError option list \<Rightarrow> chunk list \<Rightarrow> 'a list result option" where
  "scanChunks scan ctx [] = Some (Inr [])"
| "scanChunks scan ctx (c # cs) =
     (case ctx_now ctx of
        Some err \<Rightarrow> Some (Inl err)
      | None \<Rightarrow> do {
          r \<leftarrow> scan c;
          rest \<leftarrow> scanChunks scan (tl ctx) cs;
          Some (case rest of Inl err \<Rightarrow> Inl err | Inr rs \<Rightarrow> Inr (r # rs))
        })"

definition addShifted :: "int \<Rightarrow> (gostring \<rightharpoonup> int list) \<Rightarrow> (gostring \<rightharpoonup> int list) \<Rightarrow> (gostring \<rightharpoonup> int list)" where
  "addShifted offset found merged k =
     (case found k of
        None \<Rightarrow> merged k
      | Some is \<Rightarrow> Some ((case merged k of None \<Rightarrow> [] | Some js \<Rightarrow> js) @ map (\<lambda>i. i + offset) is))"

definition mergeIndexResults :: "chunk list \<Rightarrow> (gostring \<rightharpoonup> int list) list \<Rightarrow> (gostring \<rightharpoonup> int list)" where
  "mergeIndexResults chunks perChunk =
     (\<lambda>k. map_option (\<lambda>is. sort (remdups is))
        (fold (\<lambda>(c, found). addShifted (ch_textOffset c) found) (zip chunks perChunk) Map.empty k))"

section \<open>The searches\<close>

definition parallelChunks :: "Engine \<Rightarrow> gostring \<Rightarrow> ParallelOptions \<Rightarrow> chunk list option" where
  "parallelChunks eng text opts =
     (if po_AutoOverlap opts then splitAutoChunks text opts (int (en_maxKeywordRunes eng)) else splitChunks text opts)"

definition chunkSet :: "unicode \<Rightarrow> bool \<Rightarrow> Engine \<Rightarrow> ParallelOptions \<Rightarrow> chunk \<Rightarrow> gostring list option" where
  "chunkSet u cs eng opts c =
     (if po_AutoOverlap opts
      then Engine_MatchString eng (normalizeText u (ch_text c) cs)
        (\<lambda>(k, s, e) ms. (if s < ch_ownedRunes c \<and> k \<notin> set ms then ms @ [k] else ms, True)) []
      else Engine_FindSet eng (normalizeText u (ch_text c) cs))"

definition FindParallel ::
  "unicode \<Rightarrow> bool \<Rightarrow> int \<Rightarrow> Engine result \<Rightarrow> acorError option list \<Rightarrow> gostring \<Rightarrow> ParallelOptions option \<Rightarrow>
   gostring list result option" where
  "FindParallel u cs numCPU load ctx text opts0 =
     (let opts = normalizeParallelOptions numCPU opts0 in
      if po_ChunkSize opts \<le> 0 then Some (Inl ErrInvalidChunkSize)
      else if text = [] then Some (Inr [])
      else case load of
          Inl err \<Rightarrow> Some (Inl err)
        | Inr eng \<Rightarrow> do {
            chunks \<leftarrow> parallelChunks eng text opts;
            perChunk \<leftarrow> scanChunks (chunkSet u cs eng opts) ctx chunks;
            Some (bindR perChunk (\<lambda>ms. Inr (dedupPreservingOrder (concat ms))))
          })"

definition chunkIndex :: "unicode \<Rightarrow> bool \<Rightarrow> Engine \<Rightarrow> ParallelOptions \<Rightarrow> chunk \<Rightarrow> (gostring \<rightharpoonup> int list) option" where
  "chunkIndex u cs eng opts c =
     (if po_AutoOverlap opts
      then Engine_MatchString eng (normalizeText u (ch_text c) cs)
        (\<lambda>(k, s, e) m. (if s < ch_ownedRunes c then m(k \<mapsto> (case m k of None \<Rightarrow> [] | Some is \<Rightarrow> is) @ [s]) else m, True))
        Map.empty
      else Engine_FindIndex eng (normalizeText u (ch_text c) cs))"

definition FindIndexParallel ::
  "unicode \<Rightarrow> bool \<Rightarrow> int \<Rightarrow> Engine result \<Rightarrow> acorError option list \<Rightarrow> gostring \<Rightarrow> ParallelOptions option \<Rightarrow>
   (gostring \<rightharpoonup> int list) result option" where
  "FindIndexParallel u cs numCPU load ctx text opts0 =
     (let opts = normalizeParallelOptions numCPU opts0 in
      if po_ChunkSize opts \<le> 0 then Some (Inl ErrInvalidChunkSize)
      else if text = [] then Some (Inr Map.empty)
      else case load of
          Inl err \<Rightarrow> Some (Inl err)
        | Inr eng \<Rightarrow> do {
            chunks \<leftarrow> parallelChunks eng text opts;
            perChunk \<leftarrow> scanChunks (chunkIndex u cs eng opts) ctx chunks;
            Some (bindR perChunk (\<lambda>ms. Inr (mergeIndexResults chunks ms)))
          })"

text \<open>
  \<^verbatim>\<open>FindMany\<close> of \<^verbatim>\<open>context_ops.go\<close>: one engine for the whole batch, loaded at the
  first text that is not empty.
\<close>

fun findManyLoop ::
  "unicode \<Rightarrow> bool \<Rightarrow> Engine result \<Rightarrow> acorError option list \<Rightarrow> Engine option \<Rightarrow> gostring list \<Rightarrow>
   (gostring \<rightharpoonup> gostring list) \<Rightarrow> (gostring \<rightharpoonup> gostring list) result option" where
  "findManyLoop u cs load ctx eng [] results = Some (Inr results)"
| "findManyLoop u cs load ctx eng (t # ts) results =
     (case ctx_now ctx of
        Some err \<Rightarrow> Some (Inl err)
      | None \<Rightarrow>
          if t = [] then findManyLoop u cs load (tl ctx) eng ts (results(t \<mapsto> []))
          else (case (case eng of Some e \<Rightarrow> Inr e | None \<Rightarrow> load) of
              Inl err \<Rightarrow> Some (Inl err)
            | Inr e \<Rightarrow> do {
                found \<leftarrow> Engine_Find e (normalizeText u t cs);
                findManyLoop u cs load (tl ctx) (Some e) ts (results(t \<mapsto> found))
              }))"

definition FindMany ::
  "unicode \<Rightarrow> bool \<Rightarrow> Engine result \<Rightarrow> acorError option list \<Rightarrow> gostring list \<Rightarrow> (gostring \<rightharpoonup> gostring list) result option" where
  "FindMany u cs load ctx texts = findManyLoop u cs load ctx None texts Map.empty"

section \<open>Splitting\<close>

lemma isBoundary_returns: "\<exists>b. isBoundary rs i bt = Some b"
  by (auto simp: isBoundary_def idxi_Some)

lemma findBoundaryFrom_correct:
  assumes "int i \<le> target"
  shows "\<exists>b. findBoundaryFrom rs target bt mb i = Some b \<and> b \<le> target \<and> (b = target \<or> target - mb < b)"
  using assms
proof (induction i)
  case (Suc i)
  obtain b where "isBoundary rs (int (Suc i)) bt = Some b" using isBoundary_returns by blast
  with Suc show ?case by auto
qed simp

lemma findBoundary_correct:
  assumes "0 \<le> target"
  shows "\<exists>b. findBoundary rs target bt mb = Some b \<and> b \<le> target \<and> (b = target \<or> target - mb < b)"
  using findBoundaryFrom_correct[of "nat target" target rs bt mb] assms by (simp add: findBoundary_def)

text \<open>A chunk is a slice of the text.\<close>

definition chunk_slice :: "rune list \<Rightarrow> chunk \<Rightarrow> int \<Rightarrow> int \<Rightarrow> bool" where
  "chunk_slice rs c a b \<longleftrightarrow> 0 \<le> a \<and> a \<le> b \<and> b \<le> int (length rs) \<and> ch_textOffset c = a \<and> runes (ch_text c) = rslice rs a b"

lemma runes_rslice: "\<forall>r \<in> set rs. valid_rune r \<Longrightarrow> runes (string_of (rslice rs a b)) = rslice rs a b"
  by (rule runes_encode) (auto simp: rslice_def dest!: in_set_takeD in_set_dropD)


fun tiles :: "rune list \<Rightarrow> int \<Rightarrow> int \<Rightarrow> chunk list \<Rightarrow> bool" where
  "tiles rs ext p [] \<longleftrightarrow> p = int (length rs)"
| "tiles rs ext p (c # cs) \<longleftrightarrow>
     (\<exists>q. p < q \<and> q \<le> int (length rs) \<and> ch_ownedRunes c = q - p \<and>
        chunk_slice rs c p (q + min ext (int (length rs) - q)) \<and> tiles rs ext q cs)"

lemma splitAuto_tiles:
  assumes opts: "0 < po_ChunkSize opts" and ext: "0 \<le> ext" and v: "\<forall>r \<in> set rs. valid_rune r"
    and p: "0 \<le> p" "p \<le> int (length rs)"
  shows "\<exists>cs. splitAutoLoop rs opts ext p = Some cs \<and> tiles rs ext p cs"
  using p
proof (induction "nat (int (length rs) - p)" arbitrary: p rule: less_induct)
  case less
  let ?n = "int (length rs)"
  show ?case
  proof (cases "p < ?n")
    case False
    with less.prems show ?thesis by (subst splitAutoLoop.simps) simp
  next
    case True
    define end0 where "end0 = p + min (po_ChunkSize opts) (?n - p)"
    have e0: "p < end0" "end0 \<le> ?n" using True opts by (auto simp: end0_def)
    from findBoundary_correct[of end0 rs "po_Boundary opts" "po_ChunkSize opts div defaultMaxBacktrackDivisor"] e0 less.prems
    obtain b where b: "findBoundary rs end0 (po_Boundary opts) (po_ChunkSize opts div defaultMaxBacktrackDivisor) = Some b"
      "b \<le> end0" by auto
    define q where "q = (if end0 < ?n then if b > p then b else end0 else end0)"
    have q: "p < q" "q \<le> ?n" using e0 b(2) by (auto simp: q_def)
    from less.hyps[of q] q less.prems obtain cs where cs: "splitAutoLoop rs opts ext q = Some cs" "tiles rs ext q cs" by auto
    let ?c = "\<lparr>ch_text = string_of (rslice rs p (q + min ext (?n - q))), ch_textOffset = p, ch_ownedRunes = q - p\<rparr>"
    have end': "(if end0 < ?n
          then do { b \<leftarrow> findBoundary rs end0 (po_Boundary opts) (po_ChunkSize opts div defaultMaxBacktrackDivisor);
                    Some (if b > p then b else end0) }
          else Some end0) = Some q" using b(1) by (simp add: q_def)
    have "splitAutoLoop rs opts ext p = Some (?c # cs)"
      by (subst splitAutoLoop.simps) (simp add: True Let_def end0_def[symmetric] end' cs(1))
    moreover have "chunk_slice rs ?c p (q + min ext (?n - q))"
      using q ext less.prems runes_rslice[OF v] by (auto simp: chunk_slice_def min_def)
    ultimately show ?thesis using q cs(2) by auto
  qed
qed

text \<open>The windows of the legacy splitting; consecutive ones share at least \<open>w\<close> runes.\<close>

fun windows :: "rune list \<Rightarrow> int \<Rightarrow> int \<Rightarrow> chunk list \<Rightarrow> bool" where
  "windows rs w p [] \<longleftrightarrow> False"
| "windows rs w p (c # cs) \<longleftrightarrow>
     (\<exists>q. p < q \<and> chunk_slice rs c p q \<and>
        (if cs = [] then q = int (length rs) else \<exists>p'. p < p' \<and> p' \<le> q - w \<and> windows rs w p' cs))"

lemma splitLoop_windows:
  assumes opts: "0 < po_ChunkSize opts" and w: "0 \<le> po_Overlap opts" "w = 0 \<or> w = po_Overlap opts \<and> w \<le> po_ChunkSize opts div 2"
    and v: "\<forall>r \<in> set rs. valid_rune r" and p: "0 \<le> p" "p < int (length rs)"
  shows "\<exists>cs. splitLoop rs opts p = Some cs \<and> windows rs w p cs"
  using p
proof (induction "nat (int (length rs) - p)" arbitrary: p rule: less_induct)
  case less
  let ?n = "int (length rs)" and ?e = "p + po_ChunkSize opts" and ?mb = "po_ChunkSize opts div defaultMaxBacktrackDivisor"
  show ?case
  proof (cases "?e \<ge> ?n")
    case True
    let ?c = "\<lparr>ch_text = string_of (drop (nat p) rs), ch_textOffset = p, ch_ownedRunes = 0\<rparr>"
    have "drop (nat p) rs = rslice rs p ?n" using less.prems by (simp add: rslice_def)
    then have "chunk_slice rs ?c p ?n" using less.prems runes_rslice[OF v, of p ?n] by (simp add: chunk_slice_def)
    moreover have "splitLoop rs opts p = Some [?c]" using True less.prems by (subst splitLoop.simps) (simp add: Let_def)
    ultimately show ?thesis using less.prems by auto
  next
    case False
    from findBoundary_correct[of ?e rs "po_Boundary opts" ?mb] less.prems opts obtain b0 where
      b0: "findBoundary rs ?e (po_Boundary opts) ?mb = Some b0" "b0 \<le> ?e" "b0 = ?e \<or> ?e - ?mb < b0" by auto
    define q where "q = (if b0 \<le> p then ?e else b0)"
    define p' where "p' = (if q - po_Overlap opts \<le> p then q else q - po_Overlap opts)"
    have q: "p < q" "q \<le> ?e" "q < ?n" using False b0(2) opts by (auto simp: q_def)
    have "po_ChunkSize opts div 2 < po_ChunkSize opts" using opts by simp
    then have "p + (po_ChunkSize opts - po_ChunkSize opts div 2) < q \<or> q = ?e"
      using b0(3) by (auto simp: q_def defaultMaxBacktrackDivisor_def)
    then have p': "p < p'" "p' \<le> q - w" "p' < ?n" using q w opts by (auto simp: p'_def)
    from less.hyps[of p'] p' less.prems obtain cs where cs: "splitLoop rs opts p' = Some cs" "windows rs w p' cs" by auto
    let ?c = "\<lparr>ch_text = string_of (rslice rs p q), ch_textOffset = p, ch_ownedRunes = 0\<rparr>"
    have "splitLoop rs opts p = Some (?c # cs)"
      using False less.prems b0(1) cs(1) by (subst splitLoop.simps) (auto simp: Let_def q_def[symmetric] p'_def split: if_splits)
    moreover have "chunk_slice rs ?c p q" using q less.prems runes_rslice[OF v] by (simp add: chunk_slice_def)
    moreover have "cs \<noteq> []" using cs(2) by auto
    ultimately show ?thesis using q p' cs(2) by auto
  qed
qed

lemma windows_cover:
  assumes "windows rs w p cs" and "p \<le> s" and "s < e" and "e - s \<le> w + 1" and "e \<le> int (length rs)" and "0 \<le> w"
  shows "\<exists>c \<in> set cs. \<exists>a b. chunk_slice rs c a b \<and> a \<le> s \<and> e \<le> b"
  using assms
proof (induction cs arbitrary: p)
  case (Cons c cs)
  then obtain q where q: "p < q" "chunk_slice rs c p q"
    "if cs = [] then q = int (length rs) else \<exists>p'. p < p' \<and> p' \<le> q - w \<and> windows rs w p' cs" by auto
  show ?case
  proof (cases "e \<le> q")
    case True
    with q(2) Cons.prems(2) show ?thesis by auto
  next
    case False
    with q(3) Cons.prems(5) obtain p' where "p' \<le> q - w" "windows rs w p' cs" by (auto split: if_splits)
    with Cons.IH[of p'] Cons.prems False show ?thesis by auto
  qed
qed simp

lemma windows_slices: "windows rs w p cs \<Longrightarrow> c \<in> set cs \<Longrightarrow> \<exists>a b. chunk_slice rs c a b"
  by (induction cs arbitrary: p) (auto split: if_splits)

lemma tiles_slices: "tiles rs ext p cs \<Longrightarrow> c \<in> set cs \<Longrightarrow> \<exists>a b. chunk_slice rs c a b"
  by (induction cs arbitrary: p) auto

lemma tiles_cover:
  assumes "tiles rs ext p cs" and "p \<le> s" and "s < e" and "e - s \<le> ext + 1" and "e \<le> int (length rs)" and "0 \<le> ext"
  shows "\<exists>c \<in> set cs. \<exists>a b. chunk_slice rs c a b \<and> a \<le> s \<and> e \<le> b \<and> s - a < ch_ownedRunes c"
  using assms
proof (induction cs arbitrary: p)
  case (Cons c cs)
  then obtain q where q: "p < q" "q \<le> int (length rs)" "ch_ownedRunes c = q - p"
    "chunk_slice rs c p (q + min ext (int (length rs) - q))" "tiles rs ext q cs" by auto
  show ?case
  proof (cases "s < q")
    case True
    have "e \<le> q + min ext (int (length rs) - q)" using True Cons.prems by auto
    moreover have "s - p < ch_ownedRunes c" using True q(3) by simp
    ultimately show ?thesis using q(4) Cons.prems(2) by (meson list.set_intros(1))
  next
    case False
    with Cons.IH[OF q(5)] Cons.prems show ?thesis by auto
  qed
qed simp

section \<open>Occurrences in a slice\<close>

lemma occurrences_slice:
  assumes "0 \<le> a" and "a \<le> b" and "b \<le> int (length rs)"
  shows "(k, s, e) \<in> set (occurrences D (rslice rs a b)) \<longleftrightarrow>
    0 \<le> s \<and> e + a \<le> b \<and> (k, s + a, e + a) \<in> set (occurrences D rs)"
proof (cases "0 \<le> s \<and> s < e \<and> e + a \<le> b")
  case True
  have "take (nat e - nat s) (drop (nat s) (rslice rs a b)) = take (nat (e + a) - nat (s + a)) (drop (nat (s + a)) rs)"
  proof -
    have "min (nat e - nat s) (nat (b - a) - nat s) = nat (e + a) - nat (s + a)" using True assms by auto
    moreover have "nat a + nat s = nat (s + a)" using True assms by (simp add: nat_add_distrib)
    ultimately show ?thesis by (simp add: rslice_def drop_take add.commute)
  qed
  moreover have "nat e \<le> length (rslice rs a b)" using True assms by (simp add: rslice_def nat_le_iff)
  ultimately show ?thesis using True assms by (simp add: occurrences_iff nat_le_iff)
next
  case False
  have "length (rslice rs a b) = nat (b - a)" using assms by (simp add: rslice_def)
  with False assms show ?thesis by (auto simp: occurrences_iff)
qed

lemma rslice_map: "rslice (map f rs) a b = map f (rslice rs a b)"
  by (simp add: rslice_def take_map drop_map)

text \<open>The starts of one keyword are listed in strictly increasing order.\<close>

definition starts_of :: "gostring \<Rightarrow> match list \<Rightarrow> int list" where
  "starts_of k ms = [s. (k', s, e) \<leftarrow> ms, k' = k]"

lemma set_starts_of: "set (starts_of k ms) = {s. \<exists>e. (k, s, e) \<in> set ms}"
  by (force simp: starts_of_def)

lemma strict_starts:
  assumes inj: "\<forall>v v' k. D v = Some k \<longrightarrow> D v' = Some k \<longrightarrow> v = v'"
    and "sorted_wrt scan_less ms" and "set ms \<subseteq> set (occurrences D rs)"
  shows "sorted_wrt (<) (starts_of k ms)"
  using assms(2,3)
proof (induction ms)
  case (Cons m ms)
  obtain k' s e where m: "m = (k', s, e)" by (cases m) auto
  have "s < s'" if "k' = k" "(k, s', e') \<in> set ms" for s' e'
  proof -
    from Cons.prems that m have less: "scan_less (k, s, e) (k, s', e')" by auto
    from Cons.prems that m have "D (take (nat e - nat s) (drop (nat s) rs)) = Some k" "0 \<le> s" "s < e" "nat e \<le> length rs"
      "D (take (nat e' - nat s') (drop (nat s') rs)) = Some k" "0 \<le> s'" "s' < e'" "nat e' \<le> length rs"
      by (auto simp: occurrences_iff)
    then have "nat e - nat s = nat e' - nat s'" using inj by (metis diff_le_mono length_drop length_take min.absorb2)
    with less \<open>0 \<le> s\<close> \<open>0 \<le> s'\<close> \<open>s < e\<close> \<open>s' < e'\<close> show ?thesis by (auto simp: scan_less_def)
  qed
  with Cons m show ?case by (auto simp: starts_of_def)
qed (simp add: starts_of_def)

section \<open>Merging what the chunks report\<close>

text \<open>What one chunk reports, on a built engine.\<close>

definition chunk_reports :: "unicode \<Rightarrow> bool \<Rightarrow> dict \<Rightarrow> ParallelOptions \<Rightarrow> chunk \<Rightarrow> match list" where
  "chunk_reports u cs D opts c =
     filter (\<lambda>m. po_AutoOverlap opts \<longrightarrow> mstart m < ch_ownedRunes c)
       (occurrences D (map (fold_rune u cs) (runes (ch_text c))))"

lemma emit_fold: "emitAll (\<lambda>m a. (f m a, True)) ms a = (fold f ms a, True)"
  by (induction ms arbitrary: a) auto

lemma chunkIndex_correct:
  assumes h: "engine_holds eng D" and u: "unicode_ok u"
  shows "chunkIndex u cs eng opts c = Some (fold add_start (chunk_reports u cs D opts c) Map.empty)"
proof (cases "po_AutoOverlap opts")
  case True
  let ?f = "\<lambda>m a. if mstart m < ch_ownedRunes c then add_start m a else a"
  have emit: "(\<lambda>(k, s, e) m. (if s < ch_ownedRunes c then m(k \<mapsto> (case m k of None \<Rightarrow> [] | Some is \<Rightarrow> is) @ [s]) else m, True)) =
      (\<lambda>m a. (?f m a, True))" by (auto simp: add_start_def fun_eq_iff)
  have "fold ?f ms a = fold add_start (filter (\<lambda>m. mstart m < ch_ownedRunes c) ms) a" for ms a
    by (induction ms arbitrary: a) auto
  with True show ?thesis
    by (simp add: chunkIndex_def emit engine_ops(5)[OF h] spec_match_def emit_fold runes_normalizeText[OF u] chunk_reports_def)
next
  case False
  then show ?thesis
    by (simp add: chunkIndex_def engine_ops(3)[OF h] spec_findIndex_fold[symmetric] runes_normalizeText[OF u] chunk_reports_def)
qed

lemma chunkSet_correct:
  assumes h: "engine_holds eng D" and u: "unicode_ok u"
  shows "\<exists>ks. chunkSet u cs eng opts c = Some ks \<and> set ks = fst ` set (chunk_reports u cs D opts c)"
proof (cases "po_AutoOverlap opts")
  case True
  let ?f = "\<lambda>m ks. if mstart m < ch_ownedRunes c \<and> fst m \<notin> set ks then ks @ [fst m] else ks"
  have emit: "(\<lambda>(k, s, e) ms. (if s < ch_ownedRunes c \<and> k \<notin> set ms then ms @ [k] else ms, True)) =
      (\<lambda>m a. (?f m a, True))" by (auto simp: fun_eq_iff)
  have "set (fold ?f ms a) = set a \<union> fst ` {m \<in> set ms. mstart m < ch_ownedRunes c}" for ms a
    by (induction ms arbitrary: a) auto
  with True show ?thesis
    by (simp add: chunkSet_def emit engine_ops(5)[OF h] spec_match_def emit_fold runes_normalizeText[OF u] chunk_reports_def)
next
  case False
  then show ?thesis
    by (simp add: chunkSet_def engine_ops(2)[OF h] spec_findSet_def spec_find_def runes_normalizeText[OF u] chunk_reports_def)
qed

lemma scanChunks_all:
  assumes "\<forall>c \<in> set chunks. scan c = Some (F c)" and "\<forall>e \<in> set ctx. e = None"
  shows "scanChunks scan ctx chunks = Some (Inr (map F chunks))"
  using assms
proof (induction chunks arbitrary: ctx)
  case (Cons c chunks)
  have "ctx_now ctx = None" "\<forall>e \<in> set (tl ctx). e = None" using Cons.prems(2) by (cases ctx; simp add: ctx_now_def)+
  with Cons show ?case by simp
qed simp

lemma dedup_nub: "dedupPreservingOrder xs = nub xs"
proof -
  have "dedupLoop xs seen out = nub (out @ xs)" if "set seen = set out" "distinct out" for seen out
    using that
  proof (induction xs arbitrary: seen out)
    case (Cons x xs)
    show ?case
    proof (cases "x \<in> set out")
      case True
      with Cons show ?thesis by (simp add: nub_dup)
    next
      case False
      with Cons.IH[of "x # seen" "out @ [x]"] Cons.prems show ?thesis by simp
    qed
  qed simp
  from this[of "[]" "[]"] show ?thesis by (simp add: dedupPreservingOrder_def)
qed


lemma fold_addShifted:
  defines "S m k \<equiv> set (case m k of None \<Rightarrow> [] | Some is \<Rightarrow> is)"
  shows "S (fold (\<lambda>(c, found). addShifted (ch_textOffset c) found) (zip chunks (map F chunks)) acc) k =
      S acc k \<union> (\<Union>c \<in> set chunks. (\<lambda>i. i + ch_textOffset c) ` S (F c) k)"
    "fold (\<lambda>(c, found). addShifted (ch_textOffset c) found) (zip chunks (map F chunks)) acc k = None \<longleftrightarrow>
      acc k = None \<and> (\<forall>c \<in> set chunks. F c k = None)"
proof -
  have one: "S (addShifted d f m) k = S m k \<union> (\<lambda>i. i + d) ` S f k" "addShifted d f m k = None \<longleftrightarrow> m k = None \<and> f k = None" for d f m
    by (auto simp: S_def addShifted_def split: option.splits)
  show "S (fold (\<lambda>(c, found). addShifted (ch_textOffset c) found) (zip chunks (map F chunks)) acc) k =
      S acc k \<union> (\<Union>c \<in> set chunks. (\<lambda>i. i + ch_textOffset c) ` S (F c) k)"
    by (induction chunks arbitrary: acc) (auto simp: one)
  show "fold (\<lambda>(c, found). addShifted (ch_textOffset c) found) (zip chunks (map F chunks)) acc k = None \<longleftrightarrow>
      acc k = None \<and> (\<forall>c \<in> set chunks. F c k = None)"
    by (induction chunks arbitrary: acc) (auto simp: one)
qed

text \<open>The chunks report every occurrence, in slices of the text.\<close>

definition reports_all :: "unicode \<Rightarrow> bool \<Rightarrow> dict \<Rightarrow> ParallelOptions \<Rightarrow> rune list \<Rightarrow> chunk list \<Rightarrow> bool" where
  "reports_all u cs D opts rs chunks \<longleftrightarrow> (\<forall>c \<in> set chunks. \<exists>a b. chunk_slice rs c a b) \<and>
     (\<forall>k s e. (k, s, e) \<in> set (occurrences D (map (fold_rune u cs) rs)) \<longrightarrow>
        (\<exists>c \<in> set chunks. (k, s - ch_textOffset c, e - ch_textOffset c) \<in> set (chunk_reports u cs D opts c)))"

lemma reports_sound:
  assumes "reports_all u cs D opts rs chunks" and "c \<in> set chunks" and "(k, s, e) \<in> set (chunk_reports u cs D opts c)"
  shows "(k, s + ch_textOffset c, e + ch_textOffset c) \<in> set (occurrences D (map (fold_rune u cs) rs))"
proof -
  from assms(1,2) obtain a b where c: "chunk_slice rs c a b" unfolding reports_all_def by blast
  then have "map (fold_rune u cs) (runes (ch_text c)) = rslice (map (fold_rune u cs) rs) a b"
    by (simp add: chunk_slice_def rslice_map)
  with c assms(3) occurrences_slice[of a b "map (fold_rune u cs) rs" k s e D] show ?thesis
    by (auto simp: chunk_reports_def chunk_slice_def)
qed

lemma merge_exact:
  assumes all: "reports_all u cs D opts rs chunks" and inj: "\<forall>v v' k. D v = Some k \<longrightarrow> D v' = Some k \<longrightarrow> v = v'"
    and nt: "runes text = map (fold_rune u cs) rs"
  shows "mergeIndexResults chunks (map (\<lambda>c. fold add_start (chunk_reports u cs D opts c) Map.empty) chunks) = spec_findIndex D text"
proof
  fix k
  let ?F = "\<lambda>c. fold add_start (chunk_reports u cs D opts c) Map.empty" and ?occ = "occurrences D (map (fold_rune u cs) rs)"
  let ?m = "fold (\<lambda>(c, found). addShifted (ch_textOffset c) found) (zip chunks (map ?F chunks)) Map.empty"
  have F: "?F c k = (if starts_of k (chunk_reports u cs D opts c) = [] then None else Some (starts_of k (chunk_reports u cs D opts c)))" for c
    by (simp add: fold_add_start starts_of_def)
  have "set (case ?m k of None \<Rightarrow> [] | Some is \<Rightarrow> is) =
      (\<Union>c \<in> set chunks. (\<lambda>i. i + ch_textOffset c) ` set (starts_of k (chunk_reports u cs D opts c)))"
  proof -
    have "set (case ?F c k of None \<Rightarrow> [] | Some is \<Rightarrow> is) = set (starts_of k (chunk_reports u cs D opts c))" for c
      unfolding F by simp
    then show ?thesis unfolding fold_addShifted(1) by simp
  qed
  also have "\<dots> = set (starts_of k ?occ)"
  proof (intro set_eqI iffI)
    fix i
    assume "i \<in> (\<Union>c \<in> set chunks. (\<lambda>i. i + ch_textOffset c) ` set (starts_of k (chunk_reports u cs D opts c)))"
    then obtain c s e where "c \<in> set chunks" "(k, s, e) \<in> set (chunk_reports u cs D opts c)" "i = s + ch_textOffset c"
      by (auto simp: set_starts_of)
    with reports_sound[OF all, of c k s e] show "i \<in> set (starts_of k ?occ)" unfolding set_starts_of by blast
  next
    fix i
    assume "i \<in> set (starts_of k ?occ)"
    then obtain e where "(k, i, e) \<in> set ?occ" by (auto simp: set_starts_of)
    with all obtain c where "c \<in> set chunks" "(k, i - ch_textOffset c, e - ch_textOffset c) \<in> set (chunk_reports u cs D opts c)"
      unfolding reports_all_def by blast
    then show "i \<in> (\<Union>c \<in> set chunks. (\<lambda>i. i + ch_textOffset c) ` set (starts_of k (chunk_reports u cs D opts c)))"
      by (force simp: set_starts_of)
  qed
  finally have set: "set (case ?m k of None \<Rightarrow> [] | Some is \<Rightarrow> is) = set (starts_of k ?occ)" .
  have sorted: "sorted_wrt (<) (starts_of k ?occ)"
    by (rule strict_starts[OF inj, where rs = "map (fold_rune u cs) rs"]) (simp_all add: occurrences_def sorted_occs_from)
  have spec: "spec_findIndex D text k = (if starts_of k ?occ = [] then None else Some (starts_of k ?occ))"
    by (simp add: spec_findIndex_def nt starts_of_def)
  show "mergeIndexResults chunks (map ?F chunks) k = spec_findIndex D text k"
  proof (cases "?m k")
    case None
    with set have "starts_of k ?occ = []" by simp
    with None spec show ?thesis by (simp add: mergeIndexResults_def)
  next
    case (Some xs)
    then obtain c where "c \<in> set chunks" "?F c k \<noteq> None" using fold_addShifted(2)[of chunks ?F Map.empty k] by auto
    then have "set (starts_of k (chunk_reports u cs D opts c)) \<noteq> {}" by (auto simp: F split: if_splits)
    then obtain s e where "(k, s, e) \<in> set (chunk_reports u cs D opts c)" unfolding set_starts_of by blast
    from reports_sound[OF all \<open>c \<in> set chunks\<close> this] have "set (starts_of k ?occ) \<noteq> {}" unfolding set_starts_of by blast
    moreover have "sort (remdups xs) = starts_of k ?occ"
      using sorted set Some by (intro sorted_distinct_set_unique) (simp_all add: strict_sorted_iff)
    ultimately show ?thesis using Some spec by (simp add: mergeIndexResults_def)
  qed
qed

lemma reports_from_cover:
  assumes slices: "\<forall>c \<in> set chunks. \<exists>a b. chunk_slice rs c a b"
    and cover: "\<And>k s e. (k, s, e) \<in> set (occurrences D (map (fold_rune u cs) rs)) \<Longrightarrow>
      \<exists>c \<in> set chunks. \<exists>a b. chunk_slice rs c a b \<and> a \<le> s \<and> e \<le> b \<and> (po_AutoOverlap opts \<longrightarrow> s - a < ch_ownedRunes c)"
  shows "reports_all u cs D opts rs chunks"
  unfolding reports_all_def
proof (intro conjI allI impI)
  fix k s e
  let ?rs = "map (fold_rune u cs) rs"
  assume o: "(k, s, e) \<in> set (occurrences D ?rs)"
  from cover[OF o] obtain c a b where c: "c \<in> set chunks" "chunk_slice rs c a b" "a \<le> s" "e \<le> b"
    "po_AutoOverlap opts \<longrightarrow> s - a < ch_ownedRunes c" by blast
  have "(k, s - a, e - a) \<in> set (occurrences D (rslice ?rs a b))"
    using occurrences_slice[of a b ?rs k "s - a" "e - a" D] c(2-4) o by (simp add: chunk_slice_def)
  moreover have "map (fold_rune u cs) (runes (ch_text c)) = rslice ?rs a b" "ch_textOffset c = a"
    using c(2) by (simp_all add: chunk_slice_def rslice_map)
  ultimately show "\<exists>c \<in> set chunks. (k, s - ch_textOffset c, e - ch_textOffset c) \<in> set (chunk_reports u cs D opts c)"
    using c(1,5) by (intro bexI[of _ c]) (simp_all add: chunk_reports_def)
qed (use slices in blast)

section \<open>The chunks report everything\<close>

text \<open>
  When the splitting protects its boundaries: with \<open>AutoOverlap\<close>, or with an overlap
  of at most half a chunk that is no shorter than the longest keyword less one.
\<close>

definition boundaries_protected :: "ParallelOptions \<Rightarrow> nat \<Rightarrow> bool" where
  "boundaries_protected opts longest \<longleftrightarrow> po_AutoOverlap opts \<or>
     po_Overlap opts \<le> po_ChunkSize opts div 2 \<and> int longest \<le> po_Overlap opts + 1"

lemma parallelChunks_reports:
  assumes opts: "0 < po_ChunkSize opts" "0 \<le> po_Overlap opts" and eng: "en_maxKeywordRunes eng = Max (insert 0 (runeCount ` set ks))"
    and prot: "boundaries_protected opts (en_maxKeywordRunes eng)" and t: "text \<noteq> []"
  shows "\<exists>chunks. parallelChunks eng text opts = Some chunks \<and> reports_all u cs (dict_of ks) opts (runes text) chunks"
proof -
  let ?rs = "runes text" and ?rs' = "map (fold_rune u cs) (runes text)" and ?L = "int (en_maxKeywordRunes eng)"
  have v: "\<forall>r \<in> set ?rs. valid_rune r" using runes_valid by blast
  have n: "0 < length ?rs" using t by simp
  have len: "e - s \<le> ?L \<and> 0 \<le> s \<and> s < e \<and> e \<le> int (length ?rs)" if "(k, s, e) \<in> set (occurrences (dict_of ks) ?rs')" for k s e
    using occurrence_length[OF that] eng by auto
  show ?thesis
  proof (cases "po_AutoOverlap opts")
    case True
    let ?x = "max (po_Overlap opts) (?L - 1)"
    have "0 \<le> ?x" using opts(2) by simp
    from splitAuto_tiles[OF opts(1) this v, of 0] obtain chunks
      where c: "splitAutoLoop ?rs opts ?x 0 = Some chunks" "tiles ?rs ?x 0 chunks" by auto
    have "reports_all u cs (dict_of ks) opts ?rs chunks"
    proof (rule reports_from_cover)
      show "\<forall>c \<in> set chunks. \<exists>a b. chunk_slice ?rs c a b" using tiles_slices[OF c(2)] by blast
      fix k s e
      assume o: "(k, s, e) \<in> set (occurrences (dict_of ks) ?rs')"
      from len[OF o] tiles_cover[OF c(2), of s e] opts(2)
      show "\<exists>c \<in> set chunks. \<exists>a b. chunk_slice ?rs c a b \<and> a \<le> s \<and> e \<le> b \<and> (po_AutoOverlap opts \<longrightarrow> s - a < ch_ownedRunes c)"
        by fastforce
    qed
    with c(1) True show ?thesis by (simp add: parallelChunks_def splitAutoChunks_def)
  next
    case False
    with prot have w: "po_Overlap opts \<le> po_ChunkSize opts div 2" "?L \<le> po_Overlap opts + 1"
      by (simp_all add: boundaries_protected_def)
    have "\<exists>chunks. splitChunks text opts = Some chunks \<and> windows ?rs (po_Overlap opts) 0 chunks"
    proof (cases "int (length ?rs) \<le> po_ChunkSize opts")
      case True
      have "chunk_slice ?rs \<lparr>ch_text = text, ch_textOffset = 0, ch_ownedRunes = 0\<rparr> 0 (int (length ?rs))"
        by (simp add: chunk_slice_def rslice_def)
      with True n show ?thesis by (simp add: splitChunks_def Let_def)
    next
      case False
      with splitLoop_windows[OF opts _ v, of "po_Overlap opts" 0] w n show ?thesis by (simp add: splitChunks_def Let_def)
    qed
    then obtain chunks where c: "splitChunks text opts = Some chunks" "windows ?rs (po_Overlap opts) 0 chunks" by blast
    have "reports_all u cs (dict_of ks) opts ?rs chunks"
    proof (rule reports_from_cover)
      show "\<forall>c \<in> set chunks. \<exists>a b. chunk_slice ?rs c a b" using windows_slices[OF c(2)] by blast
      fix k s e
      assume o: "(k, s, e) \<in> set (occurrences (dict_of ks) ?rs')"
      from len[OF o] windows_cover[OF c(2), of s e] opts(2) w(2) False
      show "\<exists>c \<in> set chunks. \<exists>a b. chunk_slice ?rs c a b \<and> a \<le> s \<and> e \<le> b \<and> (po_AutoOverlap opts \<longrightarrow> s - a < ch_ownedRunes c)"
        by fastforce
    qed
    with c(1) False show ?thesis by (simp add: parallelChunks_def)
  qed
qed

lemma normalized_overlap: "0 \<le> po_Overlap (normalizeParallelOptions n opts)"
  by (cases opts) (auto simp: normalizeParallelOptions_def DefaultParallelOptions_def DefaultOverlap_def Let_def)

lemma reports_keywords:
  assumes "reports_all u cs D opts rs chunks"
  shows "(\<Union>c \<in> set chunks. fst ` set (chunk_reports u cs D opts c)) = fst ` set (occurrences D (map (fold_rune u cs) rs))"
proof (intro set_eqI iffI)
  fix k
  assume "k \<in> (\<Union>c \<in> set chunks. fst ` set (chunk_reports u cs D opts c))"
  then obtain c s e where "c \<in> set chunks" "(k, s, e) \<in> set (chunk_reports u cs D opts c)" by auto
  from reports_sound[OF assms this] show "k \<in> fst ` set (occurrences D (map (fold_rune u cs) rs))" by force
next
  fix k
  assume "k \<in> fst ` set (occurrences D (map (fold_rune u cs) rs))"
  then obtain s e where "(k, s, e) \<in> set (occurrences D (map (fold_rune u cs) rs))" by auto
  with assms obtain c where "c \<in> set chunks" "(k, s - ch_textOffset c, e - ch_textOffset c) \<in> set (chunk_reports u cs D opts c)"
    unfolding reports_all_def by blast
  then show "k \<in> (\<Union>c \<in> set chunks. fst ` set (chunk_reports u cs D opts c))" by force
qed

section \<open>Properties\<close>

text \<open>
  C10.  Searching in parallel is exact when the boundaries are protected: with
  \<open>AutoOverlap\<close> for keywords of any length, or with a plain overlap of at most half
  a chunk that reaches over the longest keyword.  The splitting terminates and
  FindIndexParallel returns the very map FindIndex returns on the whole text,
  wherever the chunk boundaries fall.
\<close>

theorem FindIndexParallel_exact:
  assumes "env_ok env" and "keyword_set ks" and "Engine_Build env (Engine_New preset) ks = Some eng"
    and "unicode_ok u" and "text \<noteq> []" and "\<forall>e \<in> set ctx. e = None"
    and "0 < po_ChunkSize (normalizeParallelOptions numCPU opts)"
    and "boundaries_protected (normalizeParallelOptions numCPU opts) (en_maxKeywordRunes eng)"
  shows "FindIndexParallel u cs numCPU (Inr eng) ctx text opts =
    map_option Inr (Engine_FindIndex eng (normalizeText u text cs))"
proof -
  let ?o = "normalizeParallelOptions numCPU opts" and ?D = "dict_of ks"
  from engine_built_holds[OF assms(1-3)] have h: "engine_holds eng ?D"
    and m: "en_maxKeywordRunes eng = Max (insert 0 (runeCount ` set ks))" by blast+
  from parallelChunks_reports[OF assms(7) normalized_overlap m assms(8,5), of u cs] obtain chunks
    where c: "parallelChunks eng text ?o = Some chunks" "reports_all u cs ?D ?o (runes text) chunks" by blast
  have "scanChunks (chunkIndex u cs eng ?o) ctx chunks =
      Some (Inr (map (\<lambda>c. fold add_start (chunk_reports u cs ?D ?o c) Map.empty) chunks))"
    by (rule scanChunks_all) (use chunkIndex_correct[OF h assms(4)] assms(6) in auto)
  moreover have "mergeIndexResults chunks (map (\<lambda>c. fold add_start (chunk_reports u cs ?D ?o c) Map.empty) chunks) =
      spec_findIndex ?D (normalizeText u text cs)"
    by (rule merge_exact[OF c(2)]) (use dict_of_inj runes_normalizeText[OF assms(4)] in auto)
  ultimately show ?thesis using assms(5,7) c(1)
    by (simp add: FindIndexParallel_def Let_def engine_ops(3)[OF h])
qed

theorem FindIndexParallel_exact_witness:
  "\<exists>eng. Engine_Build env_example (Engine_New PresetSpeed) [''he'', ''hers'', ''she''] = Some eng \<and>
     FindIndexParallel ascii_unicode False 8 (Inr eng) [] ''us hers, she''
       (Some \<lparr>po_Workers = 0, po_ChunkSize = 2, po_Boundary = ChunkBoundaryWord, po_Overlap = -1, po_AutoOverlap = True\<rparr>) =
     map_option Inr (Engine_FindIndex eng (normalizeText ascii_unicode ''us hers, she'' False))"
proof -
  let ?o = "\<lparr>po_Workers = 0, po_ChunkSize = 2, po_Boundary = ChunkBoundaryWord, po_Overlap = -1, po_AutoOverlap = True\<rparr> :: ParallelOptions"
  from engine_build_correct[OF env_example_ok keyword_set_example(1), of PresetSpeed] obtain eng
    where b: "Engine_Build env_example (Engine_New PresetSpeed) [''he'', ''hers'', ''she''] = Some eng" by blast
  have "FindIndexParallel ascii_unicode False 8 (Inr eng) [] ''us hers, she'' (Some ?o) =
     map_option Inr (Engine_FindIndex eng (normalizeText ascii_unicode ''us hers, she'' False))"
    by (rule FindIndexParallel_exact[OF env_example_ok keyword_set_example(1) b ascii_unicode_ok])
      (simp_all add: normalizeParallelOptions_def boundaries_protected_def)
  with b show ?thesis by blast
qed

text \<open>
  C11.  Under the same conditions FindParallel reports each keyword that occurs, and
  no other, exactly once.
\<close>

theorem FindParallel_set:
  assumes "env_ok env" and "keyword_set ks" and "Engine_Build env (Engine_New preset) ks = Some eng"
    and "unicode_ok u" and "text \<noteq> []" and "\<forall>e \<in> set ctx. e = None"
    and "0 < po_ChunkSize (normalizeParallelOptions numCPU opts)"
    and "boundaries_protected (normalizeParallelOptions numCPU opts) (en_maxKeywordRunes eng)"
  shows "\<exists>found. FindParallel u cs numCPU (Inr eng) ctx text opts = Some (Inr found) \<and> distinct found \<and>
    set found = {k. \<exists>s e. (k, s, e) \<in> set (occurrences (dict_of ks) (map (fold_rune u cs) (runes text)))}"
proof -
  let ?o = "normalizeParallelOptions numCPU opts" and ?D = "dict_of ks"
  from engine_built_holds[OF assms(1-3)] have h: "engine_holds eng ?D"
    and m: "en_maxKeywordRunes eng = Max (insert 0 (runeCount ` set ks))" by blast+
  from parallelChunks_reports[OF assms(7) normalized_overlap m assms(8,5), of u cs] obtain chunks
    where c: "parallelChunks eng text ?o = Some chunks" "reports_all u cs ?D ?o (runes text) chunks" by blast
  define F where "F c = (case chunkSet u cs eng ?o c of Some ks \<Rightarrow> ks | None \<Rightarrow> [])" for c
  have F: "chunkSet u cs eng ?o c = Some (F c) \<and> set (F c) = fst ` set (chunk_reports u cs ?D ?o c)" for c
    using chunkSet_correct[OF h assms(4), of cs ?o c] by (force simp: F_def)
  have "scanChunks (chunkSet u cs eng ?o) ctx chunks = Some (Inr (map F chunks))"
    by (rule scanChunks_all) (use F assms(6) in auto)
  moreover have "set (nub (concat (map F chunks))) = {k. \<exists>s e. (k, s, e) \<in> set (occurrences ?D (map (fold_rune u cs) (runes text)))}"
    using reports_keywords[OF c(2)] by (force simp: F)
  ultimately show ?thesis using assms(5,7) c(1)
    by (simp add: FindParallel_def Let_def dedup_nub)
qed

theorem FindParallel_set_witness:
  "\<exists>eng found. Engine_Build env_example (Engine_New PresetSpeed) [''he'', ''hers'', ''she''] = Some eng \<and>
     FindParallel ascii_unicode False 8 (Inr eng) [] ''us hers, she''
       (Some \<lparr>po_Workers = 0, po_ChunkSize = 6, po_Boundary = ChunkBoundaryWord, po_Overlap = 3, po_AutoOverlap = False\<rparr>) =
     Some (Inr found) \<and> ''hers'' \<in> set found"
proof -
  let ?ks = "[''he'', ''hers'', ''she'']"
  let ?o = "\<lparr>po_Workers = 0, po_ChunkSize = 6, po_Boundary = ChunkBoundaryWord, po_Overlap = 3, po_AutoOverlap = False\<rparr> :: ParallelOptions"
  from engine_build_correct[OF env_example_ok keyword_set_example(1), of PresetSpeed] obtain eng
    where b: "Engine_Build env_example (Engine_New PresetSpeed) ?ks = Some eng"
      "en_maxKeywordRunes eng = Max (insert 0 (runeCount ` set ?ks))" by blast
  have "runeCount ''he'' = 2" "runeCount ''hers'' = 4" "runeCount ''she'' = 3" by code_simp+
  then have "boundaries_protected (normalizeParallelOptions 8 (Some ?o)) (en_maxKeywordRunes eng)"
    using b(2) by (simp add: boundaries_protected_def normalizeParallelOptions_def)
  from FindParallel_set[OF env_example_ok keyword_set_example(1) b(1) ascii_unicode_ok _ _ _ this, of "''us hers, she''" "[]" False]
  obtain found where f: "FindParallel ascii_unicode False 8 (Inr eng) [] ''us hers, she'' (Some ?o) = Some (Inr found)"
    "set found = {k. \<exists>s e. (k, s, e) \<in> set (occurrences (dict_of ?ks) (map (fold_rune ascii_unicode False) (runes ''us hers, she'')))}"
    by (auto simp: normalizeParallelOptions_def)
  have "(''hers'', 3, 7) \<in> set (occurrences (dict_of ?ks) (map (fold_rune ascii_unicode False) (runes ''us hers, she'')))"
    by code_simp
  with f(2) have "''hers'' \<in> set found" by blast
  with b(1) f(1) show ?thesis by blast
qed

text \<open>
  An overlap as long as a chunk protects nothing.  With ChunkSize and Overlap
  both 4 the loop drops the overlap, because the next chunk would start no later
  than the current one; the two-rune keyword across the boundary is then missed
  although it is shorter than the overlap.
\<close>

theorem overlap_dropped:
  "splitChunks ''aaabcaaa'' \<lparr>po_Workers = 1, po_ChunkSize = 4, po_Boundary = ChunkBoundaryWord, po_Overlap = 4, po_AutoOverlap = False\<rparr> =
     Some [\<lparr>ch_text = ''aaab'', ch_textOffset = 0, ch_ownedRunes = 0\<rparr>, \<lparr>ch_text = ''caaa'', ch_textOffset = 4, ch_ownedRunes = 0\<rparr>] \<and>
   spec_findSet (dict_of [''bc'']) ''aaab'' = [] \<and> spec_findSet (dict_of [''bc'']) ''caaa'' = [] \<and>
   spec_findSet (dict_of [''bc'']) ''aaabcaaa'' = [''bc'']"
  by code_simp

end
