(* ===== verification/Source_Window.thy ===== *)
theory Source_Window
  imports Matches
begin

text \<open>
  The window of \<^verbatim>\<open>pkg/acor/scan.go\<close>: one best candidate per start position and a
  binary min-heap of the starts, kept in a slice.  The lemmas show that the slice
  is a heap of the window's keys, so that its first element is the least start.
\<close>

record SourceMatch =
  sm_Keyword :: gostring
  sm_Text :: gostring
  sm_Start :: int
  sm_End :: int
  sm_ByteStart :: nat
  sm_ByteEnd :: nat

record sourceWindow =
  sw_best :: "int \<rightharpoonup> SourceMatch"
  sw_starts :: "int list"
  sw_end :: int

definition sourceHeapArity :: nat where "sourceHeapArity = 2"

section \<open>The heap\<close>

definition swap :: "'a list \<Rightarrow> nat \<Rightarrow> nat \<Rightarrow> 'a list" where
  "swap xs i j = xs[i := xs ! j, j := xs ! i]"

text \<open>The loop that moves a new element up from \<open>i\<close>, and the one that moves the root down.\<close>

function siftUp :: "nat \<Rightarrow> int list \<Rightarrow> int list" where
  "siftUp i xs =
     (if i > 0
      then (let parent = (i - 1) div sourceHeapArity in
        if xs ! parent \<le> xs ! i then xs else siftUp parent (swap xs parent i))
      else xs)"
  by pat_completeness auto
termination
  by (relation "measure fst") (auto simp: sourceHeapArity_def)

function siftDown :: "nat \<Rightarrow> int list \<Rightarrow> int list" where
  "siftDown i xs =
     (if i < length xs
      then (let child = i * sourceHeapArity + 1 in
        if child \<ge> length xs then xs
        else (let least = (if child + 1 < length xs \<and> xs ! (child + 1) < xs ! child then child + 1 else child) in
          if xs ! i \<le> xs ! least then xs else siftDown least (swap xs i least)))
      else xs)"
  by pat_completeness auto
termination
  by (relation "measure (\<lambda>(i, xs). length xs - i)") (auto simp: sourceHeapArity_def swap_def Let_def split: if_splits)

declare siftUp.simps [simp del] siftDown.simps [simp del]

definition window_add :: "sourceWindow \<Rightarrow> SourceMatch \<Rightarrow> sourceWindow" where
  "window_add w m =
     (if sm_Start m < sw_end w then w
      else case sw_best w (sm_Start m) of
          Some old \<Rightarrow>
            if sm_End m > sm_End old then w\<lparr>sw_best := (sw_best w)(sm_Start m \<mapsto> m)\<rparr> else w
        | None \<Rightarrow>
            (let starts = sw_starts w @ [sm_Start m]
             in w\<lparr>sw_best := (sw_best w)(sm_Start m \<mapsto> m), sw_starts := siftUp (length starts - 1) starts\<rparr>))"

text \<open>Called with a non-empty heap whose starts all have a candidate.\<close>

definition window_pop :: "sourceWindow \<Rightarrow> sourceWindow \<times> SourceMatch" where
  "window_pop w =
     (let start = sw_starts w ! 0;
          m = the (sw_best w start);
          last = length (sw_starts w) - 1;
          starts = take last ((sw_starts w)[0 := sw_starts w ! last])
      in (w\<lparr>sw_best := (sw_best w)(start := None), sw_starts := siftDown 0 starts\<rparr>, m))"

section \<open>The slice is a heap\<close>

abbreviation parent_of :: "nat \<Rightarrow> nat" where "parent_of i \<equiv> (i - 1) div 2"

definition heap_but :: "nat set \<Rightarrow> int list \<Rightarrow> bool" where
  "heap_but S xs \<longleftrightarrow> (\<forall>j. 0 < j \<longrightarrow> j < length xs \<longrightarrow> j \<notin> S \<longrightarrow> xs ! parent_of j \<le> xs ! j)"

lemma parent_less: "0 < i \<Longrightarrow> parent_of i < i"
  by simp

abbreviation heap :: "int list \<Rightarrow> bool" where "heap \<equiv> heap_but {}"

lemma heap_butD: "heap_but S xs \<Longrightarrow> 0 < j \<Longrightarrow> j < length xs \<Longrightarrow> j \<notin> S \<Longrightarrow> xs ! parent_of j \<le> xs ! j"
  by (simp add: heap_but_def)

lemma length_swap [simp]: "length (swap xs i j) = length xs"
  by (simp add: swap_def)

lemma nth_swap: "i < length xs \<Longrightarrow> j < length xs \<Longrightarrow>
    swap xs i j ! k = (if k = j then xs ! i else if k = i then xs ! j else xs ! k)"
  by (auto simp: swap_def nth_list_update)

lemma mset_swap: "i < length xs \<Longrightarrow> j < length xs \<Longrightarrow> mset (swap xs i j) = mset xs"
  by (simp add: swap_def Multiset.mset_swap)

lemma heap_min: "heap xs \<Longrightarrow> i < length xs \<Longrightarrow> xs ! 0 \<le> xs ! i"
proof (induction i rule: less_induct)
  case (less i)
  show ?case
  proof (cases "i = 0")
    case False
    then have "parent_of i < i" by simp
    with less False have "xs ! 0 \<le> xs ! parent_of i" by simp
    moreover have "xs ! parent_of i \<le> xs ! i" using less.prems False by (simp add: heap_but_def)
    ultimately show ?thesis by simp
  qed simp
qed

lemma siftUp_correct:
  assumes "i < length xs" and "heap_but {i} xs"
    and "\<forall>j. 0 < j \<longrightarrow> j < length xs \<longrightarrow> 0 < i \<longrightarrow> parent_of j = i \<longrightarrow> xs ! parent_of i \<le> xs ! j"
  shows "heap (siftUp i xs) \<and> mset (siftUp i xs) = mset xs"
  using assms
proof (induction i xs rule: siftUp.induct)
  case (1 i xs)
  let ?p = "parent_of i"
  show ?case
  proof (cases "i > 0 \<and> \<not> xs ! ?p \<le> xs ! i")
    case False
    then have "heap xs" using 1(3) by (auto simp: heap_but_def)
    moreover have "siftUp i xs = xs" using False by (subst siftUp.simps) (auto simp: sourceHeapArity_def Let_def)
    ultimately show ?thesis by simp
  next
    case True
    then have p: "?p < i" "?p < length xs" using 1(2) by auto
    let ?ys = "swap xs ?p i"
    have ys: "siftUp i xs = siftUp ?p ?ys" using True by (subst siftUp.simps) (simp add: sourceHeapArity_def Let_def)
    note n = nth_swap[OF p(2) 1(2)]
    have hb: "heap_but {?p} ?ys"
      unfolding heap_but_def
    proof (intro allI impI)
      fix j
      assume j: "0 < j" "j < length ?ys" "j \<notin> {?p}"
      consider "j = i" | "parent_of j = i" "j \<noteq> i" | "parent_of j = ?p" "j \<noteq> i" | "parent_of j \<noteq> i" "parent_of j \<noteq> ?p" "j \<noteq> i" by blast
      then show "?ys ! parent_of j \<le> ?ys ! j"
      proof cases
        case 1
        with True p n show ?thesis by simp
      next
        case 2
        with "1.prems"(3) True j n show ?thesis by simp
      next
        case 3
        then have "xs ! ?p \<le> xs ! j" using heap_butD[OF "1.prems"(2), of j] j by simp
        with 3 True j n p show ?thesis by simp
      next
        case 4
        with "1.prems"(2) j n show ?thesis by (simp add: heap_but_def)
      qed
    qed
    have ch: "\<forall>j. 0 < j \<longrightarrow> j < length ?ys \<longrightarrow> 0 < ?p \<longrightarrow> parent_of j = ?p \<longrightarrow> ?ys ! parent_of ?p \<le> ?ys ! j"
    proof (intro allI impI)
      fix j
      assume j: "0 < j" "j < length ?ys" "0 < ?p" "parent_of j = ?p"
      have pp: "parent_of ?p \<noteq> ?p" "parent_of ?p \<noteq> i" using parent_less[OF j(3)] p by linarith+
      have "xs ! parent_of ?p \<le> xs ! ?p" using "1.prems"(2) j(3) p by (simp add: heap_but_def)
      moreover have "xs ! ?p \<le> xs ! j" if "j \<noteq> i"
        using heap_butD[OF "1.prems"(2) j(1)] j(2,4) that by simp
      moreover have "j \<noteq> ?p" using j by (cases j) auto
      ultimately show "?ys ! parent_of ?p \<le> ?ys ! j" using n pp by (cases "j = i") auto
    qed
    from "1.IH"[of ?p] True p hb ch have "heap (siftUp ?p ?ys) \<and> mset (siftUp ?p ?ys) = mset ?ys"
      by (simp add: sourceHeapArity_def)
    with ys mset_swap[OF p(2) "1.prems"(1)] show ?thesis by simp
  qed
qed

lemma children: "0 < j \<Longrightarrow> parent_of j = i \<longleftrightarrow> j = 2 * i + 1 \<or> j = 2 * i + 2"
  by presburger

lemma siftDown_correct:
  assumes "i < length xs \<or> xs = []" and "heap_but {2 * i + 1, 2 * i + 2} xs"
    and "\<forall>j \<in> {2 * i + 1, 2 * i + 2}. j < length xs \<longrightarrow> 0 < i \<longrightarrow> xs ! parent_of i \<le> xs ! j"
  shows "heap (siftDown i xs) \<and> mset (siftDown i xs) = mset xs"
  using assms
proof (induction i xs rule: siftDown.induct)
  case (1 i xs)
  define least where "least = (if 2 * i + 2 < length xs \<and> xs ! (2 * i + 2) < xs ! (2 * i + 1) then 2 * i + 2 else 2 * i + 1)"
  note IH = "1.IH" and prems = "1.prems"
  have eq: "siftDown i xs =
      (if i < length xs \<and> 2 * i + 1 < length xs \<and> \<not> xs ! i \<le> xs ! least then siftDown least (swap xs i least) else xs)"
    by (subst siftDown.simps) (auto simp: sourceHeapArity_def Let_def least_def mult.commute)
  show ?case
  proof (cases "i < length xs \<and> 2 * i + 1 < length xs \<and> \<not> xs ! i \<le> xs ! least")
    case False
    have "xs ! parent_of j \<le> xs ! j" if j: "0 < j" "j < length xs" for j
    proof (cases "parent_of j = i")
      case True
      with j have c: "j = 2 * i + 1 \<or> j = 2 * i + 2" using children by blast
      then have "i < length xs" "2 * i + 1 < length xs" using j by auto
      with False have "xs ! i \<le> xs ! least" by simp
      with c True j show ?thesis by (auto simp: least_def split: if_splits)
    next
      case False
      then show ?thesis using heap_butD[OF prems(2) j] children[OF j(1), of i] by simp
    qed
    then have "heap xs" by (simp add: heap_but_def)
    moreover have "siftDown i xs = xs" unfolding eq by (rule if_not_P[OF False])
    ultimately show ?thesis by simp
  next
    case True
    then have r: "i < length xs" "2 * i + 1 < length xs" "xs ! least < xs ! i" by auto
    have l: "least = 2 * i + 1 \<or> least = 2 * i + 2" "least < length xs" "i < least" "0 < least" using r by (auto simp: least_def)
    have min: "xs ! least \<le> xs ! j" if "j = 2 * i + 1 \<or> j = 2 * i + 2" "j < length xs" for j
      using that by (auto simp: least_def)
    let ?ys = "swap xs i least"
    note n = nth_swap[OF r(1) l(2)]
    have pl: "parent_of least = i" using l(1) children[OF l(4), of i] by blast
    have hb: "heap_but {2 * least + 1, 2 * least + 2} ?ys"
      unfolding heap_but_def
    proof (intro allI impI)
      fix j
      assume j: "0 < j" "j < length ?ys" "j \<notin> {2 * least + 1, 2 * least + 2}"
      then have pj: "parent_of j \<noteq> least" using children[OF j(1), of least] by simp
      consider "j = least" | "j = i" | "parent_of j = i" "j \<noteq> least" "j \<noteq> i" | "parent_of j \<noteq> i" "j \<noteq> least" "j \<noteq> i" by blast
      then show "?ys ! parent_of j \<le> ?ys ! j"
      proof cases
        case 1
        with n pl r l show ?thesis by simp
      next
        case 2
        then have "xs ! parent_of i \<le> xs ! least" using prems(3) l j by auto
        moreover have "parent_of i \<noteq> i" using 2 j by auto
        ultimately show ?thesis using 2 n pj l(3) by simp
      next
        case 3
        then have "xs ! least \<le> xs ! j" using min children[OF j(1), of i] j(2) by simp
        with 3 n l show ?thesis by simp
      next
        case 4
        then have "xs ! parent_of j \<le> xs ! j" using heap_butD[OF prems(2) j(1), of] j children[OF j(1), of i] by simp
        with 4 n pj show ?thesis by simp
      qed
    qed
    have ch: "\<forall>j \<in> {2 * least + 1, 2 * least + 2}. j < length ?ys \<longrightarrow> 0 < least \<longrightarrow> ?ys ! parent_of least \<le> ?ys ! j"
    proof (intro ballI impI)
      fix j
      assume j: "j \<in> {2 * least + 1, 2 * least + 2}" "j < length ?ys"
      then have pj: "parent_of j = least" "0 < j" "j \<noteq> least" "j \<noteq> i" using l(3) by auto
      then have "xs ! least \<le> xs ! j" using heap_butD[OF prems(2) pj(2)] j(2) children[OF pj(2), of i] l(3) by simp
      with n pl pj l(3) show "?ys ! parent_of least \<le> ?ys ! j" by simp
    qed
    have "heap (siftDown least ?ys) \<and> mset (siftDown least ?ys) = mset ?ys"
      by (rule IH[of "i * sourceHeapArity + 1"]) (use r l hb ch in \<open>auto simp: sourceHeapArity_def least_def mult.commute\<close>)
    with eq True mset_swap[OF r(1) l(2)] show ?thesis by simp
  qed
qed

section \<open>The window\<close>

definition window_ok :: "sourceWindow \<Rightarrow> bool" where
  "window_ok w \<longleftrightarrow> heap (sw_starts w) \<and> distinct (sw_starts w) \<and> set (sw_starts w) = dom (sw_best w) \<and>
     (\<forall>s m. sw_best w s = Some m \<longrightarrow> sm_Start m = s)"

lemma heap_append: "heap xs \<Longrightarrow> heap_but {length xs} (xs @ [x])"
  by (auto simp: heap_but_def nth_append)

lemma heap_siftUp_append:
  assumes "heap xs"
  shows "heap (siftUp (length xs) (xs @ [x]))" "mset (siftUp (length xs) (xs @ [x])) = add_mset x (mset xs)"
proof -
  have "parent_of j \<noteq> length xs" if "0 < j" "j < length (xs @ [x])" for j using that by (cases j) auto
  then show "heap (siftUp (length xs) (xs @ [x]))" "mset (siftUp (length xs) (xs @ [x])) = add_mset x (mset xs)"
    using siftUp_correct[OF _ heap_append[OF assms, of x]] by auto
qed

lemma window_add_best:
  "sw_best (window_add w m) =
     (if sm_Start m < sw_end w \<or> (\<exists>old. sw_best w (sm_Start m) = Some old \<and> sm_End m \<le> sm_End old)
      then sw_best w else (sw_best w)(sm_Start m \<mapsto> m))"
  "sw_end (window_add w m) = sw_end w"
  by (auto simp: window_add_def Let_def split: option.splits)

lemma window_add_ok:
  assumes ok: "window_ok w"
  shows "window_ok (window_add w m)"
proof (cases "sm_Start m < sw_end w \<or> sw_best w (sm_Start m) \<noteq> None")
  case True
  then show ?thesis using ok by (auto simp: window_add_def window_ok_def split: option.splits)
next
  case False
  let ?ys = "siftUp (length (sw_starts w)) (sw_starts w @ [sm_Start m])"
  have eq: "window_add w m = w\<lparr>sw_best := (sw_best w)(sm_Start m \<mapsto> m), sw_starts := ?ys\<rparr>"
    using False by (simp add: window_add_def)
  note h = heap_siftUp_append[of "sw_starts w" "sm_Start m"]
  have hp: "heap (sw_starts w)" using ok by (simp add: window_ok_def)
  have ms: "mset ?ys = mset (sw_starts w @ [sm_Start m])" using h(2)[OF hp] by simp
  have "set ?ys = insert (sm_Start m) (set (sw_starts w))" using mset_eq_setD[OF ms] by simp
  moreover have "distinct ?ys" using mset_eq_imp_distinct_iff[OF ms] ok False by (auto simp: window_ok_def)
  ultimately show ?thesis using ok h(1)[OF hp] unfolding eq by (auto simp: window_ok_def)
qed

lemma heap_root_replaced:
  assumes "heap xs" and "xs \<noteq> []"
  defines "ys \<equiv> take (length xs - 1) (xs[0 := xs ! (length xs - 1)])"
  shows "heap (siftDown 0 ys)" "mset (siftDown 0 ys) = mset (tl xs)"
proof -
  obtain x zs where xs: "xs = x # zs" using assms(2) by (cases xs) auto
  have len: "length ys = length xs - 1" by (simp add: ys_def)
  have nth: "ys ! j = xs ! j" if "0 < j" "j < length ys" for j using that by (simp add: ys_def)
  have "heap_but {2 * 0 + 1, 2 * 0 + 2} ys"
    unfolding heap_but_def
  proof (intro allI impI)
    fix j
    assume j: "0 < j" "j < length ys" "j \<notin> {2 * 0 + 1, 2 * 0 + 2}"
    then have p: "0 < parent_of j" by auto
    have "j < length xs" using j(2) len by simp
    with heap_butD[OF assms(1) j(1)] nth[OF p] nth[OF j(1,2)] j(2) show "ys ! parent_of j \<le> ys ! j"
      using parent_less[OF j(1)] by simp
  qed
  moreover have "0 < length ys \<or> ys = []" by auto
  ultimately have down: "heap (siftDown 0 ys) \<and> mset (siftDown 0 ys) = mset ys"
    using siftDown_correct[of 0 ys] by simp
  have "mset ys = mset (tl xs)"
  proof (cases zs rule: rev_cases)
    case (snoc us z)
    then show ?thesis by (simp add: ys_def xs)
  qed (simp add: ys_def xs)
  with down show "heap (siftDown 0 ys)" "mset (siftDown 0 ys) = mset (tl xs)" by simp_all
qed

text \<open>The window yields its candidate with the least start.\<close>

lemma window_pop_correct:
  assumes ok: "window_ok w" and ne: "sw_starts w \<noteq> []" and pop: "window_pop w = (w', m)"
  shows "sm_Start m = sw_starts w ! 0" "sw_best w (sm_Start m) = Some m"
    "sw_best w' = (sw_best w)(sm_Start m := None)" "sw_end w' = sw_end w" "window_ok w'"
    "length (sw_starts w') < length (sw_starts w)" "\<forall>s \<in> dom (sw_best w). sm_Start m \<le> s"
proof -
  obtain x zs where xs: "sw_starts w = x # zs" using ne by (cases "sw_starts w") auto
  have hp: "heap (sw_starts w)" and dom: "dom (sw_best w) = set (sw_starts w)" using ok by (simp_all add: window_ok_def)
  have "x \<in> dom (sw_best w)" using dom xs by simp
  then obtain m0 where m0: "sw_best w x = Some m0" by blast
  with ok have s0: "sm_Start m0 = x" by (simp add: window_ok_def)
  note root = heap_root_replaced[OF hp ne]
  define ys where "ys = siftDown 0 (take (length (sw_starts w) - 1) ((sw_starts w)[0 := sw_starts w ! (length (sw_starts w) - 1)]))"
  have w': "w' = w\<lparr>sw_best := (sw_best w)(x := None), sw_starts := ys\<rparr>" and m: "m = m0"
    using pop m0 by (auto simp: window_pop_def Let_def xs ys_def)
  show "sm_Start m = sw_starts w ! 0" "sw_best w (sm_Start m) = Some m"
    "sw_best w' = (sw_best w)(sm_Start m := None)" "sw_end w' = sw_end w"
    using m m0 s0 w' xs by simp_all
  have ys: "heap ys" "mset ys = mset zs" using root xs by (simp_all add: ys_def)
  have d: "distinct (x # zs)" "set ys = set zs" "distinct ys"
    using ok xs mset_eq_setD[OF ys(2)] mset_eq_imp_distinct_iff[OF ys(2)] by (auto simp: window_ok_def)
  have "set ys = dom ((sw_best w)(x := None))" using dom xs d(1,2) by auto
  with ys d(3) ok show "window_ok w'" unfolding w' by (auto simp: window_ok_def)
  show "length (sw_starts w') < length (sw_starts w)" using mset_eq_length[OF ys(2)] xs w' by simp
  show "\<forall>s \<in> dom (sw_best w). sm_Start m \<le> s"
    using heap_min[OF hp] unfolding dom by (metis in_set_conv_nth m s0 xs nth_Cons_0)
qed

end
