(* ===== verification/Rune_Offsets.thy ===== *)
theory Rune_Offsets
  imports Utf8
begin

text \<open>
  The byte offsets at which the runes of a string start, as \<^verbatim>\<open>for i := range s\<close> yields
  them, and that cutting a string at these offsets cuts its runes.
\<close>

section \<open>Byte offsets\<close>

fun offsets_from :: "nat \<Rightarrow> (rune \<times> gostring) list \<Rightarrow> nat list" where
  "offsets_from off [] = []"
| "offsets_from off ((r, bs) # ps) = off # offsets_from (off + length bs) ps"

definition byte_offsets :: "gostring \<Rightarrow> nat list" where
  "byte_offsets text = offsets_from 0 (pieces text) @ [length text]"

lemma length_offsets_from [simp]: "length (offsets_from off ps) = length ps"
  by (induction off ps rule: offsets_from.induct) auto

lemma nth_offsets_from: "i < length ps \<Longrightarrow> offsets_from off ps ! i = off + length (concat (map snd (take i ps)))"
  by (induction off ps arbitrary: i rule: offsets_from.induct) (auto simp: nth_Cons split: nat.splits)

lemma pieces_from_correct:
  "length s \<le> n \<Longrightarrow> map fst (pieces_from n s) = runes s \<and> concat (map snd (pieces_from n s)) = s"
proof (induction n arbitrary: s)
  case (Suc n)
  show ?case
  proof (cases s)
    case (Cons c cs)
    obtain r k where d: "decodeRune s = (r, k)" by fastforce
    then have "0 < k" using decodeRune_width[of c cs] Cons by auto
    then have "length (drop k s) \<le> n" using Suc.prems Cons by simp
    from Suc.IH[OF this] d Cons show ?thesis by (simp add: runes_Cons)
  qed simp
qed simp

lemma map_fst_pieces [simp]: "map fst (pieces s) = runes s"
  and concat_pieces [simp]: "concat (map snd (pieces s)) = s"
  using pieces_from_correct[of s "length s"] by (simp_all add: pieces_def)

lemma length_pieces [simp]: "length (pieces s) = length (runes s)"
  by (metis length_map map_fst_pieces)

lemma length_byte_offsets [simp]: "length (byte_offsets s) = Suc (length (runes s))"
  by (simp add: byte_offsets_def)

lemma nth_byte_offsets:
  "i \<le> length (runes s) \<Longrightarrow> byte_offsets s ! i = length (concat (map snd (take i (pieces s))))"
  by (cases "i = length (runes s)") (auto simp: byte_offsets_def nth_append nth_offsets_from)

lemma byte_offsets_mono: "i \<le> j \<Longrightarrow> j \<le> length (runes s) \<Longrightarrow> byte_offsets s ! i \<le> byte_offsets s ! j"
proof -
  assume ij: "i \<le> j" "j \<le> length (runes s)"
  then have "take j (pieces s) = take i (pieces s) @ take (j - i) (drop i (pieces s))"
    by (metis le_add_diff_inverse take_add)
  with ij show ?thesis by (simp add: nth_byte_offsets)
qed

lemma byte_offsets_le: "i \<le> length (runes s) \<Longrightarrow> byte_offsets s ! i \<le> length s"
  using byte_offsets_mono[of i "length (runes s)" s] by (simp add: byte_offsets_def nth_append)

section \<open>Decoding a part of the text\<close>

lemma pieces_from_enough: "length s \<le> n \<Longrightarrow> length s \<le> m \<Longrightarrow> pieces_from n s = pieces_from m s"
proof (induction n arbitrary: s m)
  case (Suc n)
  show ?case
  proof (cases s)
    case (Cons c cs)
    then obtain m' where m: "m = Suc m'" using Suc.prems by (cases m) auto
    obtain r k where d: "decodeRune s = (r, k)" by fastforce
    then have "1 \<le> k" using decodeRune_width[of c cs] Cons by auto
    then have "length (drop k s) \<le> n" "length (drop k s) \<le> m'" using Suc.prems m Cons by auto
    with Suc.IH[OF this] d Cons m show ?thesis by simp
  qed (simp add: pieces_from.simps[of m] split: nat.splits)
qed (simp add: pieces_from.simps[of m] split: nat.splits)

lemma pieces_Cons: "decodeRune (c # cs) = (r, k) \<Longrightarrow> pieces (c # cs) = (r, take k (c # cs)) # pieces (drop k (c # cs))"
proof -
  assume d: "decodeRune (c # cs) = (r, k)"
  then have "length (drop k (c # cs)) \<le> length cs" using decodeRune_width[OF d] by auto
  from pieces_from_enough[OF this order_refl] d show ?thesis by (simp add: pieces_def)
qed

text \<open>A rune is decoded the same way when the text is cut after it or later.\<close>

lemma decodeRune_cut:
  assumes "decodeRune (t @ s) = (r, k)" and "k \<le> length t" and "t \<noteq> []"
  shows "decodeRune t = (r, k)"
proof -
  consider a where "t = [a]" | a b where "t = [a, b]" | a b c where "t = [a, b, c]" | a b c d t' where "t = a # b # c # d # t'"
    using assms(3) by (metis list.exhaust)
  then show ?thesis
    by cases (use assms(1,2) in \<open>auto simp: decodeRune_def split: if_splits list.splits\<close>)
qed

lemma runes_cut: "runes (concat (map snd (take i (pieces s)))) = take i (runes s)"
proof (induction s arbitrary: i rule: runes_induct)
  case Nil
  then show ?case by (simp add: pieces_def)
next
  case (Rune c cs r k)
  let ?s = "c # cs"
  note p = pieces_Cons[OF Rune(1)] and IH = Rune(4)
  show ?case
  proof (cases i)
    case (Suc j)
    let ?rest = "concat (map snd (take j (pieces (drop k ?s))))"
    have "drop k ?s = ?rest @ concat (map snd (drop j (pieces (drop k ?s))))"
      by (metis append_take_drop_id concat_append map_append concat_pieces)
    then have "?s = (take k ?s @ ?rest) @ concat (map snd (drop j (pieces (drop k ?s))))"
      by (metis append.assoc append_take_drop_id)
    with Rune(1) have "decodeRune ((take k ?s @ ?rest) @ concat (map snd (drop j (pieces (drop k ?s))))) = (r, k)" by simp
    from decodeRune_cut[OF this] Rune(2,3) have "decodeRune (take k ?s @ ?rest) = (r, k)" by simp
    moreover obtain c' cs' where "take k ?s @ ?rest = c' # cs'" using Rune(2) by (cases k) auto
    ultimately have "runes (take k ?s @ ?rest) = r # runes (drop k (take k ?s @ ?rest))" using runes_Cons by metis
    with IH[of j] Rune(3) p Suc show ?thesis by (simp add: runes_Cons[OF Rune(1)])
  qed simp
qed

lemma pieces_drop: "pieces (concat (map snd (drop i (pieces s)))) = drop i (pieces s)"
proof (induction s arbitrary: i rule: runes_induct)
  case (Rune c cs r k)
  note p = pieces_Cons[OF Rune(1)]
  show ?case using p Rune(4) by (cases i) simp_all
qed (simp add: pieces_def)

lemma concat_take_drop: "concat (map snd (drop i ps)) = drop (length (concat (map snd (take i ps)))) (concat (map snd ps))"
  by (metis append_eq_conv_conj append_take_drop_id concat_append map_append)

lemma concat_take: "concat (map snd (take i ps)) = take (length (concat (map snd (take i ps)))) (concat (map snd ps))"
  by (metis append_eq_conv_conj append_take_drop_id concat_append map_append)

text \<open>The slice between two rune offsets has exactly the runes between them.\<close>

lemma slice_runes:
  assumes "i \<le> j" and "j \<le> length (runes s)"
  shows "runes (take (byte_offsets s ! j - byte_offsets s ! i) (drop (byte_offsets s ! i) s)) = take (j - i) (drop i (runes s))"
    and "runes (take (byte_offsets s ! i) s) = take i (runes s)"
proof -
  let ?t = "concat (map snd (drop i (pieces s)))"
  have i: "byte_offsets s ! i = length (concat (map snd (take i (pieces s))))" and j: "byte_offsets s ! j = length (concat (map snd (take j (pieces s))))"
    using assms by (simp_all add: nth_byte_offsets)
  have t: "drop (byte_offsets s ! i) s = ?t" using concat_take_drop[of i "pieces s"] i by simp
  have "take j (pieces s) = take i (pieces s) @ take (j - i) (drop i (pieces s))" using assms by (metis le_add_diff_inverse take_add)
  then have "byte_offsets s ! j - byte_offsets s ! i = length (concat (map snd (take (j - i) (drop i (pieces s)))))" using i j by simp
  then have "take (byte_offsets s ! j - byte_offsets s ! i) ?t = concat (map snd (take (j - i) (pieces ?t)))"
    using concat_take[of "j - i" "drop i (pieces s)"] pieces_drop[of i s] by simp
  moreover have "runes ?t = drop i (runes s)" using arg_cong[OF pieces_drop[of i s], of "map fst"] by (simp add: drop_map[symmetric])
  ultimately show "runes (take (byte_offsets s ! j - byte_offsets s ! i) (drop (byte_offsets s ! i) s)) = take (j - i) (drop i (runes s))"
    using runes_cut[of "j - i" ?t] t by simp
  show "runes (take (byte_offsets s ! i) s) = take i (runes s)"
    using concat_take[of i "pieces s"] runes_cut[of i s] i by simp
qed

text \<open>
  Decoding is compositional at a byte that is not a continuation byte, whatever
  invalid bytes surround it.
\<close>

definition lead :: "gostring \<Rightarrow> bool" where
  "lead b \<longleftrightarrow> (case b of [] \<Rightarrow> True | c # _ \<Rightarrow> \<not> cont_byte (byte c))"

lemma second_cont: "second3 a b \<Longrightarrow> cont_byte b" "second4 a b \<Longrightarrow> cont_byte b"
  by (auto simp: second3_def second4_def cont_byte_def split: if_splits)

lemma decodeRune_lead:
  assumes "lead b" and "t \<noteq> []"
  shows "decodeRune (t @ b) = decodeRune t"
proof -
  consider x where "t = [x]" | x y where "t = [x, y]" | x y z where "t = [x, y, z]" | x y z w t' where "t = x # y # z # w # t'"
    using assms(2) by (metis list.exhaust)
  then show ?thesis
    by cases (use assms(1) second_cont in \<open>auto simp: decodeRune_def lead_def split: list.splits\<close>)
qed

lemma runes_append_lead: "lead b \<Longrightarrow> runes (a @ b) = runes a @ runes b"
proof (induction a rule: runes_induct)
  case (Rune c cs r k)
  have "decodeRune (c # (cs @ b)) = (r, k)" using decodeRune_lead[OF Rune(5), of "c # cs"] Rune(1) by simp
  moreover have "drop k (c # (cs @ b)) = drop k (c # cs) @ b" using Rune(3) by (simp flip: append_Cons)
  ultimately have "runes (c # (cs @ b)) = r # runes (drop k (c # cs) @ b)" using runes_Cons by metis
  with Rune(4)[OF Rune(5)] show ?case by (simp add: runes_Cons[OF Rune(1)])
qed simp

lemma encodeRune_lead: "valid_rune r \<Longrightarrow> lead (encodeRune r @ s)"
  by (auto simp: lead_def encodeRune_def encodeValid_def valid_rune_def cont_byte_def byte_chr)

section \<open>Cutting between pieces\<close>

text \<open>Cutting a text after a rune leaves its pieces.\<close>

lemma pieces_Nil: "pieces [] = []"
  by (simp add: pieces_def)

lemma pieces_cut: "pieces (concat (map snd (take i (pieces s)))) = take i (pieces s)"
proof (induction s arbitrary: i rule: runes_induct)
  case (Rune c cs r k)
  let ?s = "c # cs"
  note p = pieces_Cons[OF Rune(1)] and IH = Rune(4)
  show ?case
  proof (cases i)
    case (Suc j)
    let ?rest = "concat (map snd (take j (pieces (drop k ?s))))"
    have "drop k ?s = ?rest @ concat (map snd (drop j (pieces (drop k ?s))))"
      by (metis append_take_drop_id concat_append map_append concat_pieces)
    then have "?s = (take k ?s @ ?rest) @ concat (map snd (drop j (pieces (drop k ?s))))"
      by (metis append.assoc append_take_drop_id)
    with Rune(1) have "decodeRune ((take k ?s @ ?rest) @ concat (map snd (drop j (pieces (drop k ?s))))) = (r, k)" by simp
    from decodeRune_cut[OF this] Rune(2,3) have d: "decodeRune (take k ?s @ ?rest) = (r, k)" by simp
    obtain c' cs' where t: "take k ?s @ ?rest = c' # cs'" using Rune(2) by (cases k) auto
    have "take k (c' # cs') = take k ?s" "drop k (c' # cs') = ?rest" unfolding t[symmetric] using Rune(3) by simp_all
    then have "pieces (take k ?s @ ?rest) = (r, take k ?s) # pieces ?rest" using pieces_Cons[OF d[unfolded t]] t by simp
    with IH[of j] p Suc show ?thesis by simp
  qed (simp add: pieces_Nil)
qed (simp add: pieces_Nil)

lemma pieces_trimSpace:
  "pieces (trimSpace s) = rev (dropWhile (\<lambda>p. isSpace (fst p)) (rev (dropWhile (\<lambda>p. isSpace (fst p)) (pieces s))))"
proof -
  let ?sp = "\<lambda>p :: rune \<times> gostring. isSpace (fst p)"
  let ?q = "dropWhile ?sp (pieces s)"
  let ?m = "rev (dropWhile ?sp (rev ?q))"
  obtain i where q: "?q = drop i (pieces s)" by (metis dropWhile_eq_drop)
  obtain j where "dropWhile ?sp (rev ?q) = drop j (rev ?q)" by (metis dropWhile_eq_drop)
  then have m: "?m = take (length ?q - j) ?q" by (simp add: rev_drop)
  have "pieces (concat (map snd ?q)) = ?q" unfolding q by (rule pieces_drop)
  then show ?thesis using pieces_cut[of "length ?q - j" "concat (map snd ?q)"] m by (simp add: trimSpace_def)
qed

end
