(* ===== verification/Scan.thy ===== *)
theory Scan
  imports Source_Window Rune_Offsets
begin

text \<open>
  \<^verbatim>\<open>pkg/acor/scan.go\<close>: a scan with limits on input, matches and raw candidates that
  reports positions in the original text.  The context's answers still to come
  are part of the state; every look at the context takes one.  A panic in a
  callback of the engine ends the scan; it is \<^verbatim>\<open>None\<close>.
\<close>

section \<open>Options\<close>

record ScanOptions =
  so_MaxInputBytes :: int
  so_MaxMatches :: int
  so_MaxCandidates :: int
  so_Kind :: MatchKind
  so_WholeWord :: bool
  so_WordRune :: "(rune \<Rightarrow> bool) option"

record ScanResult =
  sr_Matches :: "SourceMatch list"
  sr_Truncated :: bool

definition defaultScanMatches :: int where "defaultScanMatches = 1000"
definition defaultScanInputBytes :: int where "defaultScanInputBytes = 2 ^ 20"
definition defaultScanCandidates :: int where "defaultScanCandidates = 100000"
definition scanContextStride :: nat where "scanContextStride = 1024"

definition zeroScanOptions :: ScanOptions where
  "zeroScanOptions = \<lparr>so_MaxInputBytes = 0, so_MaxMatches = 0, so_MaxCandidates = 0, so_Kind = MatchKindOverlapping,
     so_WholeWord = False, so_WordRune = None\<rparr>"

text \<open>\<open>ctxErr\<close> is what the context answers on entry.\<close>

definition scanOptions :: "unicode \<Rightarrow> acorError option \<Rightarrow> gostring \<Rightarrow> ScanOptions option \<Rightarrow> ScanOptions result" where
  "scanOptions u ctxErr text opts =
     (case ctxErr of
        Some err \<Rightarrow> Inl err
      | None \<Rightarrow>
          (let o1 = (case opts of None \<Rightarrow> zeroScanOptions | Some o0 \<Rightarrow> o0) in
           if so_MaxInputBytes o1 < 0 \<or> so_MaxMatches o1 < 0 \<or> so_MaxCandidates o1 < 0
           then Inl (ErrText ''acor: negative scan limit'')
           else if so_Kind o1 \<noteq> MatchKindOverlapping \<and> so_Kind o1 \<noteq> MatchKindLeftmostLongest
           then Inl (ErrText ''acor: invalid scan match kind'')
           else
             (let o2 = (if so_MaxInputBytes o1 = 0 then o1\<lparr>so_MaxInputBytes := defaultScanInputBytes\<rparr> else o1);
                  o3 = (if so_MaxMatches o2 = 0 then o2\<lparr>so_MaxMatches := defaultScanMatches\<rparr> else o2);
                  o4 = (if so_MaxCandidates o3 = 0 then o3\<lparr>so_MaxCandidates := defaultScanCandidates\<rparr> else o3)
              in
              if int (length text) > so_MaxInputBytes o4 then Inl ErrInputLimit
              else Inr (if so_WordRune o4 = None then o4\<lparr>so_WordRune := Some (isWordRune u)\<rparr> else o4))))"

section \<open>The scanner\<close>

record sourceScanner =
  sc_ctx :: "acorError option list"
  sc_text :: gostring
  sc_runes :: "rune list"
  sc_offsets :: "nat list"
  sc_sensitive :: bool
  sc_opts :: ScanOptions
  sc_result :: ScanResult
  sc_pending :: sourceWindow
  sc_consumed :: int
  sc_candidates :: int
  sc_longest :: int
  sc_stopped :: bool
  sc_err :: "acorError option"

text \<open>One look at the context, recorded in \<^verbatim>\<open>s.err\<close>.\<close>

definition lookCtx :: "sourceScanner \<Rightarrow> sourceScanner" where
  "lookCtx s = s\<lparr>sc_ctx := tl (sc_ctx s), sc_err := ctx_now (sc_ctx s)\<rparr>"

definition normalized :: "unicode \<Rightarrow> sourceScanner \<Rightarrow> rune \<Rightarrow> rune" where
  "normalized u s r = (if sc_sensitive s then r else uc_ToLower u r)"

definition scan_append :: "SourceMatch \<Rightarrow> sourceScanner \<Rightarrow> sourceScanner \<times> bool" where
  "scan_append m s =
     (if int (length (sr_Matches (sc_result s))) = so_MaxMatches (sc_opts s)
      then (s\<lparr>sc_result := (sc_result s)\<lparr>sr_Truncated := True\<rparr>, sc_stopped := True\<rparr>, False)
      else (s\<lparr>sc_result := (sc_result s)\<lparr>sr_Matches := sr_Matches (sc_result s) @ [m]\<rparr>\<rparr>, True))"

lemma length_siftDown [simp]: "length (siftDown i xs) = length xs"
  by (induction i xs rule: siftDown.induct) (subst siftDown.simps, simp add: Let_def)

lemma window_pop_length: "sw_starts w \<noteq> [] \<Longrightarrow> window_pop w = (w', m) \<Longrightarrow> length (sw_starts w') < length (sw_starts w)"
  by (auto simp: window_pop_def Let_def)

lemma scan_append_pending [simp]: "sc_pending (fst (scan_append m s)) = sc_pending s"
  by (simp add: scan_append_def)

function (sequential) flush :: "bool \<Rightarrow> sourceScanner \<Rightarrow> sourceScanner" where
  "flush final s =
     (if sw_starts (sc_pending s) \<noteq> [] \<and> \<not> sc_stopped s
      then (let s1 = lookCtx s in
        if sc_err s1 \<noteq> None then s1\<lparr>sc_stopped := True\<rparr>
        else if \<not> final \<and> sc_consumed s1 - sw_starts (sc_pending s1) ! 0 < sc_longest s1 then s1
        else (case window_pop (sc_pending s1) of (w, m) \<Rightarrow>
          let s2 = s1\<lparr>sc_pending := w\<rparr> in
          if sm_Start m < sw_end w then flush final s2
          else (case scan_append m s2 of (s3, ok) \<Rightarrow>
            if \<not> ok then s3 else flush final (s3\<lparr>sc_pending := w\<lparr>sw_end := sm_End m\<rparr>\<rparr>))))
      else s)"
  by pat_completeness auto
termination
  by (relation "measure (\<lambda>(final, s). length (sw_starts (sc_pending s)))")
     (auto simp: lookCtx_def dest: window_pop_length[OF _ sym])

declare flush.simps [simp del]

definition scan_wholeWord :: "unicode \<Rightarrow> sourceScanner \<Rightarrow> int \<Rightarrow> int \<Rightarrow> bool option" where
  "scan_wholeWord u s start fin =
     (let W = (case so_WordRune (sc_opts s) of None \<Rightarrow> isWordRune u | Some f \<Rightarrow> f) in do {
        before \<leftarrow> (if start = 0 then Some True else do { r \<leftarrow> idxi (sc_runes s) (start - 1); Some (\<not> W (normalized u s r)) });
        if before then (if fin = int (length (sc_runes s)) then Some True
                        else do { r \<leftarrow> idxi (sc_runes s) fin; Some (\<not> W (normalized u s r)) })
        else Some False
      })"

text \<open>\<^verbatim>\<open>s[a:b]\<close>.\<close>

definition substring :: "gostring \<Rightarrow> nat \<Rightarrow> nat \<Rightarrow> gostring option" where
  "substring s a b = (if a \<le> b \<and> b \<le> length s then Some (take (b - a) (drop a s)) else None)"

definition scan_next :: "unicode \<Rightarrow> sourceScanner \<Rightarrow> (rune option \<times> sourceScanner) option" where
  "scan_next u s =
     (let s1 = lookCtx s in
      if sc_err s1 \<noteq> None then Some (None, s1)
      else (let s2 = (if so_Kind (sc_opts s1) = MatchKindLeftmostLongest then flush False s1 else s1) in
        if sc_stopped s2 \<or> sc_consumed s2 = int (length (sc_runes s2)) then Some (None, s2)
        else do {
          r \<leftarrow> idxi (sc_runes s2) (sc_consumed s2);
          Some (Some (normalized u s2 r), s2\<lparr>sc_consumed := sc_consumed s2 + 1\<rparr>)
        }))"

definition scan_emit :: "unicode \<Rightarrow> match \<Rightarrow> sourceScanner \<Rightarrow> (sourceScanner \<times> bool) option" where
  "scan_emit u = (\<lambda>(keyword, start, fin) s.
     (let s1 = lookCtx s in
      if sc_err s1 \<noteq> None then Some (s1, False)
      else (let s2 = s1\<lparr>sc_candidates := sc_candidates s1 + 1\<rparr> in
        if sc_candidates s2 > so_MaxCandidates (sc_opts s2) then Some (s2\<lparr>sc_err := Some ErrScanWorkLimit\<rparr>, False)
        else do {
          whole \<leftarrow> (if so_WholeWord (sc_opts s2) then scan_wholeWord u s2 start fin else Some True);
          if \<not> whole then Some (s2, True)
          else do {
            a \<leftarrow> idxi (sc_offsets s2) start;
            b \<leftarrow> idxi (sc_offsets s2) fin;
            t \<leftarrow> substring (sc_text s2) a b;
            (let m = \<lparr>sm_Keyword = keyword, sm_Text = t, sm_Start = start, sm_End = fin, sm_ByteStart = a, sm_ByteEnd = b\<rparr> in
             if so_Kind (sc_opts s2) = MatchKindLeftmostLongest
             then Some (s2\<lparr>sc_pending := window_add (sc_pending s2) m\<rparr>, True)
             else Some (scan_append m s2))
          }
        })))"

section \<open>The scan\<close>

text \<open>The loop that decodes the text, looking at the context every 1024 runes.\<close>

fun decodeText :: "(rune \<times> gostring) list \<Rightarrow> nat \<Rightarrow> sourceScanner \<Rightarrow> sourceScanner result" where
  "decodeText [] offset s = Inr s"
| "decodeText ((r, bs) # ps) offset s =
     (let look = length (sc_runes s) mod scanContextStride = 0;
          s1 = (if look then s\<lparr>sc_ctx := tl (sc_ctx s)\<rparr> else s)
      in case (if look then ctx_now (sc_ctx s) else None) of
           Some err \<Rightarrow> Inl err
         | None \<Rightarrow> decodeText ps (offset + length bs)
             (s1\<lparr>sc_runes := sc_runes s1 @ [r], sc_offsets := sc_offsets s1 @ [offset]\<rparr>))"

text \<open>A callback that panics ends the stream.\<close>

definition panicking_next :: "('s \<Rightarrow> ('r option \<times> 's) option) \<Rightarrow> 's option \<Rightarrow> 'r option \<times> 's option" where
  "panicking_next f st =
     (case st of None \<Rightarrow> (None, None)
      | Some s \<Rightarrow> (case f s of None \<Rightarrow> (None, None) | Some (r, s') \<Rightarrow> (r, Some s')))"

definition panicking_emit :: "('m \<Rightarrow> 's \<Rightarrow> ('s \<times> bool) option) \<Rightarrow> 'm \<Rightarrow> 's option \<Rightarrow> 's option \<times> bool" where
  "panicking_emit f m st =
     (case st of None \<Rightarrow> (None, False)
      | Some s \<Rightarrow> (case f m s of None \<Rightarrow> (None, False) | Some (s', go) \<Rightarrow> (Some s', go)))"

text \<open>A result comes with what is left of the context's answers.\<close>

definition scanSource ::
  "unicode \<Rightarrow> acorError option list \<Rightarrow> Engine \<Rightarrow> gostring \<Rightarrow> bool \<Rightarrow> ScanOptions \<Rightarrow>
   (ScanResult \<times> acorError option list) result option" where
  "scanSource u ctx eng text sensitive opts =
     (let s0 = \<lparr>sc_ctx = ctx, sc_text = text, sc_runes = [], sc_offsets = [], sc_sensitive = sensitive, sc_opts = opts,
            sc_result = \<lparr>sr_Matches = [], sr_Truncated = False\<rparr>,
            sc_pending = \<lparr>sw_best = Map.empty, sw_starts = [], sw_end = 0\<rparr>, sc_consumed = 0, sc_candidates = 0,
            sc_longest = int (en_maxKeywordRunes eng), sc_stopped = False, sc_err = None\<rparr>
      in case decodeText (pieces text) 0 s0 of
           Inl err \<Rightarrow> Some (Inl err)
         | Inr s1 \<Rightarrow>
             do {
               st \<leftarrow> Engine_Stream eng (panicking_next (scan_next u)) (panicking_emit (scan_emit u))
                 (Some (s1\<lparr>sc_offsets := sc_offsets s1 @ [length text]\<rparr>));
               s2 \<leftarrow> st;
               (case ctx_now (sc_ctx s2) of
                  Some err \<Rightarrow> Some (Inl err)
                | None \<Rightarrow>
                    (case sc_err s2 of
                       Some err \<Rightarrow> Some (Inl err)
                     | None \<Rightarrow>
                         (let s3 = s2\<lparr>sc_ctx := tl (sc_ctx s2)\<rparr>;
                              s4 = (if \<not> sc_stopped s3 then flush True s3 else s3)
                          in case sc_err s4 of
                               Some err \<Rightarrow> Some (Inl err)
                             | None \<Rightarrow> Some (Inr (sc_result s4, sc_ctx s4)))))
             })"

definition Scan ::
  "unicode \<Rightarrow> bool \<Rightarrow> Engine result \<Rightarrow> acorError option list \<Rightarrow> gostring \<Rightarrow> ScanOptions option \<Rightarrow>
   (ScanResult \<times> acorError option list) result option" where
  "Scan u caseSensitive load ctx text opts =
     (case scanOptions u (ctx_now ctx) text opts of
        Inl err \<Rightarrow> Some (Inl err)
      | Inr o1 \<Rightarrow>
          (case load of
             Inl err \<Rightarrow> Some (Inl err)
           | Inr eng \<Rightarrow> scanSource u (tl ctx) eng text caseSensitive o1))"

section \<open>Decoding the text\<close>

lemma ctx_now_in: "ctx_now ctx = Some e \<Longrightarrow> Some e \<in> set ctx"
  by (cases ctx) (auto simp: ctx_now_def)

lemma tl_sub: "set xs \<subseteq> A \<Longrightarrow> set (tl xs) \<subseteq> A"
  by (cases xs) auto

lemma decodeText_correct:
  assumes "set (sc_ctx s) \<subseteq> C"
  shows "case decodeText ps off s of
      Inl e \<Rightarrow> Some e \<in> C
    | Inr s' \<Rightarrow> \<exists>ctx. set ctx \<subseteq> C \<and>
        s' = s\<lparr>sc_ctx := ctx, sc_runes := sc_runes s @ map fst ps, sc_offsets := sc_offsets s @ offsets_from off ps\<rparr>"
  using assms
proof (induction ps off s rule: decodeText.induct)
  case (1 off s)
  then show ?case by (intro exI[of _ "sc_ctx s"] conjI sum.case_cong | simp)+
next
  case (2 r bs ps off s)
  define look where "look = (length (sc_runes s) mod scanContextStride = 0)"
  show ?case
  proof (cases "if look then ctx_now (sc_ctx s) else None")
    case (Some e)
    then have "Some e \<in> set (sc_ctx s)" by (auto intro: ctx_now_in split: if_splits)
    with Some 2(2) show ?thesis by (auto simp: look_def[symmetric])
  next
    case None
    define s1 where "s1 = (if look then s\<lparr>sc_ctx := tl (sc_ctx s)\<rparr> else s)"
    have sub: "set (sc_ctx s1) \<subseteq> C" using 2(2) tl_sub by (auto simp: s1_def)
    from 2(1)[OF refl refl, folded look_def, folded s1_def, OF None] sub None show ?thesis
      by (auto simp: look_def[symmetric] s1_def[symmetric] Let_def split: sum.splits) (auto simp: s1_def split: if_splits)
  qed
qed

section \<open>Selecting as the scan goes\<close>

text \<open>
  What has been selected when everything that starts before \<open>pe\<close> is decided, and
  that it is the beginning of the whole selection.
\<close>

definition decided :: "match set \<Rightarrow> match list \<Rightarrow> int \<Rightarrow> bool" where
  "decided M R pe \<longleftrightarrow> set R \<subseteq> M \<and> sorted_wrt (\<lambda>a b. mend a \<le> mstart b) R \<and> (\<forall>k \<in> set R. mend k \<le> pe) \<and>
     (\<forall>m \<in> M. mstart m < pe \<longrightarrow> (\<exists>k \<in> set R. covered_by m k))"

lemma decided_cover: "decided M R pe \<Longrightarrow> m \<in> M \<Longrightarrow> mstart m < pe \<Longrightarrow> \<exists>k \<in> set R. covered_by m k"
  unfolding decided_def by blast

lemma decided_prefix:
  assumes ok: "spans_ok (set ms)" and R: "decided (set ms) R pe"
  shows "leftmostLongest ms = R @ leftmostLongest (filter (\<lambda>m. pe \<le> mstart m) ms)"
proof -
  let ?rest = "filter (\<lambda>m. pe \<le> mstart m) ms"
  have ok': "spans_ok (set ?rest)" using ok unfolding spans_ok_def set_filter by blast
  note sel = leftmostLongest_selection[OF ok']
  have "\<exists>k \<in> set (R @ leftmostLongest ?rest). covered_by m k" if m: "m \<in> set ms" for m
  proof (cases "mstart m < pe")
    case True
    with decided_cover[OF R m] show ?thesis by auto
  next
    case False
    with m have "m \<in> set ?rest" by auto
    from selection_cover[OF sel this] show ?thesis by auto
  qed
  moreover have sub: "set (leftmostLongest ?rest) \<subseteq> {m \<in> set ms. pe \<le> mstart m}"
    using sel unfolding selection_def set_filter by blast
  moreover have "mend a \<le> mstart b" if "a \<in> set R" "b \<in> set (leftmostLongest ?rest)" for a b
  proof -
    have "mend a \<le> pe" using R that(1) unfolding decided_def by blast
    moreover have "pe \<le> mstart b" using sub that(2) by blast
    ultimately show ?thesis by simp
  qed
  moreover have "set R \<subseteq> set ms" "sorted_wrt (\<lambda>a b. mend a \<le> mstart b) R" using R unfolding decided_def by blast+
  moreover have "sorted_wrt (\<lambda>a b. mend a \<le> mstart b) (leftmostLongest ?rest)" using sel unfolding selection_def by blast
  ultimately have "selection (set ms) (R @ leftmostLongest ?rest)"
    unfolding selection_def sorted_wrt_append set_append by blast
  from selection_unique[OF ok leftmostLongest_selection[OF ok] this] show ?thesis .
qed

lemma decided_more:
  assumes ok: "spans_ok (set ms)" and R: "decided (set ms) R pe" and m: "m \<in> set ms" "pe \<le> mstart m"
  shows "leftmostLongest ms = R @ leftmostLongest (filter (\<lambda>m. pe \<le> mstart m) ms)" "length R < length (leftmostLongest ms)"
proof -
  let ?rest = "filter (\<lambda>m. pe \<le> mstart m) ms"
  show eq: "leftmostLongest ms = R @ leftmostLongest ?rest" by (rule decided_prefix[OF ok R])
  have ok': "spans_ok (set ?rest)" using ok unfolding spans_ok_def set_filter by blast
  have "m \<in> set ?rest" using m by simp
  from selection_cover[OF leftmostLongest_selection[OF ok'] this] have "leftmostLongest ?rest \<noteq> []" by auto
  then have "0 < length (leftmostLongest ?rest)" by simp
  then show "length R < length (leftmostLongest ms)" unfolding eq by simp
qed

text \<open>What the window holds after the matches \<open>P\<close> were added; \<open>src\<close> turns a match into its source match.\<close>

definition window_holds :: "(match \<Rightarrow> SourceMatch) \<Rightarrow> match set \<Rightarrow> sourceWindow \<Rightarrow> bool" where
  "window_holds src P w \<longleftrightarrow> window_ok w \<and>
     (\<forall>s b. sw_best w s = Some b \<longrightarrow> (\<exists>m \<in> P. b = src m \<and> mstart m = s \<and>
        (sw_end w \<le> s \<longrightarrow> (\<forall>m' \<in> P. mstart m' = s \<longrightarrow> mend m' \<le> mend m)))) \<and>
     (\<forall>m \<in> P. sw_end w \<le> mstart m \<longrightarrow> sw_best w (mstart m) \<noteq> None)"

lemma window_holdsD:
  assumes "window_holds src P w"
  shows "window_ok w"
    and "sw_best w s = Some b \<Longrightarrow> \<exists>m \<in> P. b = src m \<and> mstart m = s \<and>
        (sw_end w \<le> s \<longrightarrow> (\<forall>m' \<in> P. mstart m' = s \<longrightarrow> mend m' \<le> mend m))"
    and "m \<in> P \<Longrightarrow> sw_end w \<le> mstart m \<Longrightarrow> \<exists>b. sw_best w (mstart m) = Some b"
  using assms unfolding window_holds_def by blast+

definition src_ok :: "(match \<Rightarrow> SourceMatch) \<Rightarrow> bool" where
  "src_ok src \<longleftrightarrow> (\<forall>m. sm_Start (src m) = mstart m \<and> sm_End (src m) = mend m)"

lemma window_holds_add:
  assumes h: "window_holds src P w" and src: "src_ok src"
  shows "window_holds src (insert m P) (window_add w (src m))"
proof -
  have sm: "sm_Start (src a) = mstart a" "sm_End (src a) = mend a" for a using src unfolding src_ok_def by blast+
  define keep where "keep \<longleftrightarrow> mstart m < sw_end w \<or> (\<exists>old. sw_best w (mstart m) = Some old \<and> mend m \<le> sm_End old)"
  have best: "sw_best (window_add w (src m)) = (if keep then sw_best w else (sw_best w)(mstart m \<mapsto> src m))"
    and fin: "sw_end (window_add w (src m)) = sw_end w"
    unfolding window_add_best sm keep_def by (rule refl)+
  note D = window_holdsD[OF h]
  show ?thesis
    unfolding window_holds_def
  proof (intro conjI allI ballI impI)
    show "window_ok (window_add w (src m))" by (rule window_add_ok[OF D(1)])
  next
    fix a
    assume "a \<in> insert m P" and "sw_end (window_add w (src m)) \<le> mstart a"
    then show "sw_best (window_add w (src m)) (mstart a) \<noteq> None"
      using D(3)[of a] unfolding fin best by (cases "a = m") (auto simp: keep_def)
  next
    fix s b
    assume sb: "sw_best (window_add w (src m)) s = Some b"
    show "\<exists>a \<in> insert m P. b = src a \<and> mstart a = s \<and>
      (sw_end (window_add w (src m)) \<le> s \<longrightarrow> (\<forall>m' \<in> insert m P. mstart m' = s \<longrightarrow> mend m' \<le> mend a))"
    proof (cases "\<not> keep \<and> s = mstart m")
      case True
      then have b: "b = src m" using sb best by simp
      have "mend m' \<le> mend m" if "m' \<in> P" "mstart m' = s" "sw_end w \<le> s" for m'
      proof -
        from D(3)[of m'] that obtain old where old: "sw_best w s = Some old" by auto
        with D(2)[OF old] that sm obtain a where a: "old = src a" "mend m' \<le> mend a" by blast
        with True old sm show ?thesis by (auto simp: keep_def)
      qed
      with b True show ?thesis unfolding fin by blast
    next
      case False
      then have old: "sw_best w s = Some b" using sb best by (auto split: if_splits)
      from D(2)[OF old] obtain a where a: "a \<in> P" "b = src a" "mstart a = s"
        "sw_end w \<le> s \<longrightarrow> (\<forall>m' \<in> P. mstart m' = s \<longrightarrow> mend m' \<le> mend a)" by blast
      have "mend m \<le> mend a" if "mstart m = s" "sw_end w \<le> s"
        using that False old a sm by (auto simp: keep_def)
      with a show ?thesis unfolding fin by blast
    qed
  qed
qed

text \<open>Taking the least candidate out, when it is stale and when it is selected.\<close>

lemma window_holds_stale:
  assumes h: "window_holds src P w" and src: "src_ok src" and ne: "sw_starts w \<noteq> []" and pop: "window_pop w = (w', b)"
    and stale: "sm_Start b < sw_end w'"
  shows "window_holds src P w'"
proof -
  note D = window_holdsD[OF h] and p = window_pop_correct[OF window_holdsD(1)[OF h] ne pop]
  have old: "sw_best w s = Some c" if "sw_best w' s = Some c" for s c using that p(3) by (auto split: if_splits)
  have "\<exists>c. sw_best w' (mstart m) = Some c" if "m \<in> P" "sw_end w' \<le> mstart m" for m
    using D(3)[of m] that stale p(3,4) by auto
  then show ?thesis using D(2)[OF old] p(5) unfolding window_holds_def p(4) by blast
qed

lemma window_holds_select:
  assumes h: "window_holds src P w" and src: "src_ok src" and ne: "sw_starts w \<noteq> []" and pop: "window_pop w = (w', b)"
    and fresh: "\<not> sm_Start b < sw_end w'" and R: "decided M R (sw_end w)" and PM: "P \<subseteq> M"
    and final: "\<forall>m \<in> M - P. sm_Start b < mstart m" and ok: "spans_ok M"
  shows "\<exists>m. b = src m \<and> m \<in> M \<and> sw_end w \<le> mstart m \<and> decided M (R @ [m]) (mend m) \<and>
    window_holds src P (w'\<lparr>sw_end := mend m\<rparr>)"
proof -
  have sm: "sm_Start (src a) = mstart a" "sm_End (src a) = mend a" for a using src unfolding src_ok_def by blast+
  note D = window_holdsD[OF h] and p = window_pop_correct[OF window_holdsD(1)[OF h] ne pop]
  from D(2)[OF p(2)] fresh p(4) obtain m where m: "m \<in> P" "b = src m"
    "\<forall>m' \<in> P. mstart m' = mstart m \<longrightarrow> mend m' \<le> mend m" using sm by auto
  have pe: "sw_end w \<le> mstart m" using fresh m(2) sm p(4) by simp
  have mM: "m \<in> M" "mstart m < mend m" using m(1) PM ok unfolding spans_ok_def by blast+
  have cov: "\<exists>k \<in> set (R @ [m]). covered_by a k" if a: "a \<in> M" "mstart a < mend m" for a
  proof (cases "mstart a < sw_end w")
    case True
    with decided_cover[OF R a(1)] show ?thesis by auto
  next
    case False
    have "mstart m \<le> mstart a"
    proof (cases "a \<in> P")
      case True
      with D(3)[of a] False p(7) m(2) sm show ?thesis by auto
    next
      case False
      then have "a \<in> M - P" using a(1) by blast
      with final m(2) sm show ?thesis by (metis less_imp_le)
    qed
    moreover have "mend a \<le> mend m" if "mstart a = mstart m"
    proof -
      have "a \<notin> M - P" using final that m(2) sm by (metis less_irrefl)
      then show ?thesis using m(3) that a(1) by blast
    qed
    ultimately have "covered_by a m" using a(2) by (auto simp: covered_by_def)
    then show ?thesis by simp
  qed
  have "\<forall>k \<in> set R. mend k \<le> mstart m" using R pe unfolding decided_def by (meson order_trans)
  moreover from this have "\<forall>k \<in> set (R @ [m]). mend k \<le> mend m" using mM(2) by fastforce
  ultimately have dec: "decided M (R @ [m]) (mend m)"
    using R mM(1) cov unfolding decided_def by (simp add: sorted_wrt_append)
  have "\<exists>a \<in> P. c = src a \<and> mstart a = s \<and> (mend m \<le> s \<longrightarrow> (\<forall>m' \<in> P. mstart m' = s \<longrightarrow> mend m' \<le> mend a))"
    if "sw_best w' s = Some c" for s c
  proof -
    have "sw_best w s = Some c" using that p(3) by (auto split: if_splits)
    from D(2)[OF this] pe mM(2) show ?thesis by (meson less_imp_le order_trans)
  qed
  moreover have "sw_best w' (mstart a) \<noteq> None" if "a \<in> P" "mend m \<le> mstart a" for a
    using D(3)[of a] that pe mM(2) p(3) m(2) sm by auto
  moreover have "window_ok (w'\<lparr>sw_end := mend m\<rparr>)" using p(5) by (simp add: window_ok_def)
  ultimately have "window_holds src P (w'\<lparr>sw_end := mend m\<rparr>)" unfolding window_holds_def by simp
  with dec m(2) mM pe show ?thesis by blast
qed

section \<open>What a scan is to find\<close>

record scan_job =
  sj_unicode :: unicode
  sj_text :: gostring
  sj_sensitive :: bool
  sj_opts :: ScanOptions
  sj_dict :: dict
  sj_longest :: int
  sj_ctx :: "acorError option set"

abbreviation job_runes :: "scan_job \<Rightarrow> rune list" where
  "job_runes J \<equiv> map (fold_rune (sj_unicode J) (sj_sensitive J)) (runes (sj_text J))"

abbreviation job_occ :: "scan_job \<Rightarrow> match list" where
  "job_occ J \<equiv> occurrences (sj_dict J) (job_runes J)"

definition match_options :: "ScanOptions \<Rightarrow> MatchOptions" where
  "match_options o1 = \<lparr>mo_Kind = so_Kind o1, mo_WholeWord = so_WholeWord o1, mo_WordRune = so_WordRune o1\<rparr>"

lemma match_options_kind [simp]: "mo_Kind (match_options o1) = so_Kind o1"
  by (simp add: match_options_def)

definition wanted :: "scan_job \<Rightarrow> match \<Rightarrow> bool" where
  "wanted J m \<longleftrightarrow> so_WholeWord (sj_opts J) \<longrightarrow>
     whole_word (case so_WordRune (sj_opts J) of None \<Rightarrow> isWordRune (sj_unicode J) | Some f \<Rightarrow> f) (job_runes J) m"

abbreviation job_elig :: "scan_job \<Rightarrow> match list" where
  "job_elig J \<equiv> filter (wanted J) (job_occ J)"

lemma eligible_wanted: "eligible (sj_unicode J) (match_options (sj_opts J)) (sj_dict J) (job_runes J) = job_elig J"
proof -
  have "wanted J = (if so_WholeWord (sj_opts J)
    then whole_word (case so_WordRune (sj_opts J) of None \<Rightarrow> isWordRune (sj_unicode J) | Some f \<Rightarrow> f) (job_runes J) else (\<lambda>_. True))"
    by (rule ext) (simp add: wanted_def)
  then show ?thesis by (simp add: eligible_def match_options_def)
qed

definition job_found :: "scan_job \<Rightarrow> match list" where
  "job_found J = (if so_Kind (sj_opts J) = MatchKindLeftmostLongest then leftmostLongest (job_elig J) else job_elig J)"

text \<open>A match with its positions in the original text.\<close>

definition source_match :: "gostring \<Rightarrow> match \<Rightarrow> SourceMatch" where
  "source_match text = (\<lambda>(k, s, e).
     let a = byte_offsets text ! nat s; b = byte_offsets text ! nat e in
     \<lparr>sm_Keyword = k, sm_Text = take (b - a) (drop a text), sm_Start = s, sm_End = e, sm_ByteStart = a, sm_ByteEnd = b\<rparr>)"

lemma source_match_span [simp]: "sm_Start (source_match text m) = mstart m" "sm_End (source_match text m) = mend m"
  by (simp_all add: source_match_def Let_def split: prod.splits)

lemma source_match_bytes [simp]:
  "sm_ByteStart (source_match text m) = byte_offsets text ! nat (mstart m)" "sm_ByteEnd (source_match text m) = byte_offsets text ! nat (mend m)"
  by (simp_all add: source_match_def Let_def split: prod.splits)

lemma source_match_ok: "src_ok (source_match text)"
  by (simp add: src_ok_def)

section \<open>The scanner's states\<close>

text \<open>What no step changes.\<close>

definition scanning :: "scan_job \<Rightarrow> sourceScanner \<Rightarrow> bool" where
  "scanning J s \<longleftrightarrow> sc_text s = sj_text J \<and> sc_runes s = runes (sj_text J) \<and> sc_offsets s = byte_offsets (sj_text J) \<and>
     sc_sensitive s = sj_sensitive J \<and> sc_opts s = sj_opts J \<and> sc_longest s = sj_longest J \<and> set (sc_ctx s) \<subseteq> sj_ctx J"

text \<open>
  A scan under way: \<open>n\<close> runes are read and \<open>occ\<close> is what the automaton reported.  Overlapping
  matches are in the result; of the others the result has the decided ones and
  the window the candidates.
\<close>

definition running :: "scan_job \<Rightarrow> int \<Rightarrow> match list \<Rightarrow> sourceScanner \<Rightarrow> bool" where
  "running J n occ s \<longleftrightarrow> scanning J s \<and> sc_consumed s = n \<and> sc_candidates s = int (length occ) \<and> sc_err s = None \<and>
     \<not> sc_stopped s \<and> \<not> sr_Truncated (sc_result s)"

definition holding :: "scan_job \<Rightarrow> match list \<Rightarrow> match list \<Rightarrow> ScanResult \<Rightarrow> sourceWindow \<Rightarrow> bool" where
  "holding J occ R res w \<longleftrightarrow>
     sr_Matches res = map (source_match (sj_text J)) R \<and> int (length R) \<le> so_MaxMatches (sj_opts J) \<and>
     (if so_Kind (sj_opts J) = MatchKindLeftmostLongest
      then decided (set (job_elig J)) R (sw_end w) \<and> window_holds (source_match (sj_text J)) (set (filter (wanted J) occ)) w
      else R = filter (wanted J) occ \<and> sw_starts w = [])"

definition live :: "scan_job \<Rightarrow> int \<Rightarrow> match list \<Rightarrow> sourceScanner \<Rightarrow> bool" where
  "live J n occ s \<longleftrightarrow> running J n occ s \<and> (\<exists>R. holding J occ R (sc_result s) (sc_pending s))"

text \<open>A scan that is over: it failed, or it found one match more than it may report.\<close>

definition failed :: "scan_job \<Rightarrow> sourceScanner \<Rightarrow> bool" where
  "failed J s \<longleftrightarrow> (\<exists>e. sc_err s = Some e \<and>
     (Some e \<in> sj_ctx J \<or> e = ErrScanWorkLimit \<and> so_MaxCandidates (sj_opts J) < int (length (job_occ J))))"

definition truncated :: "scan_job \<Rightarrow> sourceScanner \<Rightarrow> bool" where
  "truncated J s \<longleftrightarrow> sc_err s = None \<and> sc_stopped s \<and> sr_Truncated (sc_result s) \<and>
     so_MaxMatches (sj_opts J) < int (length (job_found J)) \<and>
     sr_Matches (sc_result s) = map (source_match (sj_text J)) (take (nat (so_MaxMatches (sj_opts J))) (job_found J))"

definition ended :: "scan_job \<Rightarrow> sourceScanner \<Rightarrow> bool" where
  "ended J s \<longleftrightarrow> set (sc_ctx s) \<subseteq> sj_ctx J \<and> (failed J s \<or> truncated J s)"

lemma scanning_look [simp]: "scanning J s \<Longrightarrow> scanning J (lookCtx s)"
  by (auto simp: scanning_def lookCtx_def dest: tl_sub)

lemma look_fields [simp]:
  "sc_err (lookCtx s) = ctx_now (sc_ctx s)" "sc_pending (lookCtx s) = sc_pending s" "sc_result (lookCtx s) = sc_result s"
  "sc_opts (lookCtx s) = sc_opts s" "sc_consumed (lookCtx s) = sc_consumed s" "sc_candidates (lookCtx s) = sc_candidates s"
  "sc_stopped (lookCtx s) = sc_stopped s" "sc_longest (lookCtx s) = sc_longest s" "sc_runes (lookCtx s) = sc_runes s"
  by (simp_all add: lookCtx_def)

lemma look_failed: "scanning J s \<Longrightarrow> ctx_now (sc_ctx s) = Some e \<Longrightarrow> ended J (lookCtx s) \<and> ended J ((lookCtx s)\<lparr>sc_stopped := True\<rparr>)"
  by (auto simp: ended_def failed_def scanning_def lookCtx_def dest: tl_sub ctx_now_in)

lemma look_live: "live J n occ s \<Longrightarrow> ctx_now (sc_ctx s) = None \<Longrightarrow> live J n occ (lookCtx s)"
  unfolding live_def running_def by simp

lemma elig_spans: "spans_ok (set (job_elig J))"
  by (rule occurrences_spans_ok[of _ "sj_dict J" "job_runes J"]) auto

text \<open>Appending what comes next in the order of the result.\<close>

lemma append_room:
  "int (length (sr_Matches (sc_result s))) \<noteq> so_MaxMatches (sc_opts s) \<Longrightarrow>
   scan_append m s = (s\<lparr>sc_result := (sc_result s)\<lparr>sr_Matches := sr_Matches (sc_result s) @ [m]\<rparr>\<rparr>, True)"
  by (simp add: scan_append_def)

lemma append_full:
  assumes "scanning J s" and "sc_err s = None" and "sr_Matches (sc_result s) = map (source_match (sj_text J)) R"
    and "int (length R) = so_MaxMatches (sj_opts J)" and "job_found J = R @ xs" and "xs \<noteq> []"
  shows "\<exists>s'. scan_append m s = (s', False) \<and> ended J s' \<and> sc_stopped s'"
proof -
  have "so_MaxMatches (sj_opts J) < int (length (job_found J))" using assms(4-6) by simp
  moreover have "take (nat (so_MaxMatches (sj_opts J))) (job_found J) = R" using assms(4,5) by (simp flip: assms(4))
  ultimately show ?thesis
    using assms(1-4) by (auto simp: scan_append_def ended_def truncated_def scanning_def)
qed

section \<open>Each step keeps the scan on track\<close>

text \<open>
  A flush hands over every candidate whose start no later match can reach: in the
  final flush all, before that those at least the longest keyword behind.
\<close>

definition flushable :: "scan_job \<Rightarrow> bool \<Rightarrow> int \<Rightarrow> match list \<Rightarrow> bool" where
  "flushable J final n occ \<longleftrightarrow> set occ \<subseteq> set (job_occ J) \<and>
     (\<forall>m \<in> set (job_elig J) - set (filter (wanted J) occ). \<not> final \<and> n - sj_longest J < mstart m)"

definition flushed :: "scan_job \<Rightarrow> bool \<Rightarrow> int \<Rightarrow> match list \<Rightarrow> sourceScanner \<Rightarrow> bool" where
  "flushed J final n occ s \<longleftrightarrow> ended J s \<and> sc_stopped s \<or> live J n occ s \<and> (final \<longrightarrow> sw_starts (sc_pending s) = [])"

lemma flush_step:
  assumes l: "live J n occ s" and ll: "so_Kind (sj_opts J) = MatchKindLeftmostLongest" and fl: "flushable J final n occ"
    and ne: "sw_starts (sc_pending s) \<noteq> []" and ready: "final \<or> sj_longest J \<le> n - sw_starts (sc_pending s) ! 0"
    and pop: "window_pop (sc_pending s) = (w, b)"
  shows "if sm_Start b < sw_end w then live J n occ (s\<lparr>sc_pending := w\<rparr>)
    else case scan_append b (s\<lparr>sc_pending := w\<rparr>) of (s', ok) \<Rightarrow>
      if ok then live J n occ (s'\<lparr>sc_pending := w\<lparr>sw_end := sm_End b\<rparr>\<rparr>) else ended J s' \<and> sc_stopped s'"
proof -
  let ?src = "source_match (sj_text J)"
  from l obtain R where run: "running J n occ s" and hold: "holding J occ R (sc_result s) (sc_pending s)"
    unfolding live_def by blast
  from hold ll have R: "sr_Matches (sc_result s) = map ?src R" "int (length R) \<le> so_MaxMatches (sj_opts J)"
    "decided (set (job_elig J)) R (sw_end (sc_pending s))" and w: "window_holds ?src (set (filter (wanted J) occ)) (sc_pending s)"
    by (simp_all add: holding_def)
  note p = window_pop_correct[OF window_holdsD(1)[OF w] ne pop]
  show ?thesis
  proof (cases "sm_Start b < sw_end w")
    case True
    have "window_holds ?src (set (filter (wanted J) occ)) w"
      by (rule window_holds_stale[OF w source_match_ok ne pop True])
    with R p(4) ll have "holding J occ R (sc_result s) w" by (simp add: holding_def)
    with run True show ?thesis by (auto simp: live_def running_def scanning_def)
  next
    case False
    have sub: "set (filter (wanted J) occ) \<subseteq> set (job_elig J)" using fl by (auto simp: flushable_def)
    have "\<forall>m \<in> set (job_elig J) - set (filter (wanted J) occ). sm_Start b < mstart m"
    proof
      fix m
      assume "m \<in> set (job_elig J) - set (filter (wanted J) occ)"
      with fl have "\<not> final" "n - sj_longest J < mstart m" unfolding flushable_def by blast+
      with ready p(1) show "sm_Start b < mstart m" by simp
    qed
    from window_holds_select[OF w source_match_ok ne pop False R(3) sub this elig_spans] obtain m
      where m: "b = ?src m" "m \<in> set (job_elig J)" "sw_end (sc_pending s) \<le> mstart m"
        "decided (set (job_elig J)) (R @ [m]) (mend m)" "window_holds ?src (set (filter (wanted J) occ)) (w\<lparr>sw_end := mend m\<rparr>)"
      by blast
    have e: "sm_End b = mend m" using m(1) by simp
    show ?thesis
    proof (cases "int (length R) = so_MaxMatches (sj_opts J)")
      case True
      from decided_more[OF elig_spans R(3) m(2,3)] ll
      have "job_found J = R @ leftmostLongest (filter (\<lambda>m. sw_end (sc_pending s) \<le> mstart m) (job_elig J))"
        and "leftmostLongest (filter (\<lambda>m. sw_end (sc_pending s) \<le> mstart m) (job_elig J)) \<noteq> []"
        by (auto simp: job_found_def)
      from append_full[OF _ _ _ True this, of "s\<lparr>sc_pending := w\<rparr>" b] run R(1) False
      show ?thesis by (auto simp: running_def scanning_def)
    next
      case full: False
      have "holding J occ (R @ [m]) ((sc_result s)\<lparr>sr_Matches := sr_Matches (sc_result s) @ [b]\<rparr>) (w\<lparr>sw_end := mend m\<rparr>)"
        unfolding holding_def using R(1,2) full m(1,4,5) ll by simp
      with append_room[of "s\<lparr>sc_pending := w\<rparr>" b] run R(1) full False e show ?thesis
        by (auto simp: live_def running_def scanning_def)
    qed
  qed
qed

lemma flush_correct:
  assumes "live J n occ s" and "so_Kind (sj_opts J) = MatchKindLeftmostLongest" and "flushable J final n occ"
  shows "flushed J final n occ (flush final s)"
  using assms
proof (induction final s rule: flush.induct)
  case (1 final s)
  note l = "1.prems"(1) and ll = "1.prems"(2) and fl = "1.prems"(3)
  have st: "scanning J s" "\<not> sc_stopped s" "sc_consumed s = n" "sc_longest s = sj_longest J"
    using l by (auto simp: live_def running_def scanning_def)
  show ?case
  proof (cases "sw_starts (sc_pending s) = []")
    case True
    then have eq: "flush final s = s" by (subst flush.simps) simp
    show ?thesis unfolding eq flushed_def using True l by blast
  next
    case ne: False
    show ?thesis
    proof (cases "ctx_now (sc_ctx s)")
      case (Some e)
      then have "flush final s = (lookCtx s)\<lparr>sc_stopped := True\<rparr>" using ne st by (subst flush.simps) (simp add: Let_def)
      with look_failed[OF st(1) Some] show ?thesis by (simp add: flushed_def)
    next
      case None
      note l1 = look_live[OF l None]
      show ?thesis
      proof (cases "\<not> final \<and> n - sw_starts (sc_pending s) ! 0 < sj_longest J")
        case True
        then have "flush final s = lookCtx s" using ne st None by (subst flush.simps) (simp add: Let_def)
        with l1 True show ?thesis by (simp add: flushed_def)
      next
        case ready: False
        obtain w b where pop: "window_pop (sc_pending s) = (w, b)" by fastforce
        obtain s3 ok where ap: "scan_append b ((lookCtx s)\<lparr>sc_pending := w\<rparr>) = (s3, ok)" by fastforce
        have eq: "flush final s =
          (if sm_Start b < sw_end w then flush final ((lookCtx s)\<lparr>sc_pending := w\<rparr>)
           else if \<not> ok then s3 else flush final (s3\<lparr>sc_pending := w\<lparr>sw_end := sm_End b\<rparr>\<rparr>))"
          using ne st None ready pop ap by (subst flush.simps) (auto simp: Let_def)
        have step: "if sm_Start b < sw_end w then live J n occ ((lookCtx s)\<lparr>sc_pending := w\<rparr>)
          else if ok then live J n occ (s3\<lparr>sc_pending := w\<lparr>sw_end := sm_End b\<rparr>\<rparr>) else ended J s3 \<and> sc_stopped s3"
          using flush_step[OF l1 ll fl, of w b] ne ready pop ap by auto
        show ?thesis
        proof (cases "sm_Start b < sw_end w")
          case True
          with "1.IH"(1)[of "lookCtx s" w b] ne st None ready pop step ll fl eq show ?thesis by simp
        next
          case False
          with "1.IH"(2)[of "lookCtx s" w b _ s3 ok] ne st None ready pop ap step ll fl eq show ?thesis
            by (cases ok) (simp_all add: flushed_def[of _ _ _ _ s3])
        qed
      qed
    qed
  qed
qed

lemma normalized_fold: "scanning J s \<Longrightarrow> normalized (sj_unicode J) s = fold_rune (sj_unicode J) (sj_sensitive J)"
  by (auto simp: normalized_def fold_rune_def scanning_def fun_eq_iff)

lemma scan_wholeWord_correct:
  assumes "scanning J s" and "0 \<le> a" and "a < b" and "b \<le> int (length (runes (sj_text J)))"
  shows "scan_wholeWord (sj_unicode J) s a b =
    Some (whole_word (case so_WordRune (sj_opts J) of None \<Rightarrow> isWordRune (sj_unicode J) | Some f \<Rightarrow> f) (job_runes J) (k, a, b))"
proof -
  have "sc_runes s = runes (sj_text J)" "sc_opts s = sj_opts J" using assms(1) by (simp_all add: scanning_def)
  with assms normalized_fold[OF assms(1)] show ?thesis
    by (auto simp: scan_wholeWord_def whole_word_def idxi_Some Let_def nth_map)
qed

text \<open>What one report of the automaton does, for an occurrence of the text.\<close>

lemma scan_emit_eq:
  assumes l: "live J n occ s" and m: "m \<in> set (job_occ J)"
  shows "scan_emit (sj_unicode J) m s =
    (let s2 = (lookCtx s)\<lparr>sc_candidates := int (length occ) + 1\<rparr> in
     if ctx_now (sc_ctx s) \<noteq> None then Some (lookCtx s, False)
     else if int (length occ) + 1 > so_MaxCandidates (sj_opts J) then Some (s2\<lparr>sc_err := Some ErrScanWorkLimit\<rparr>, False)
     else if \<not> wanted J m then Some (s2, True)
     else if so_Kind (sj_opts J) = MatchKindLeftmostLongest
     then Some (s2\<lparr>sc_pending := window_add (sc_pending s) (source_match (sj_text J) m)\<rparr>, True)
     else Some (scan_append (source_match (sj_text J) m) s2))"
proof -
  obtain k a b where kab: "m = (k, a, b)" by (cases m) auto
  have sp: "0 \<le> a" "a < b" "b \<le> int (length (runes (sj_text J)))"
    using bspec[OF occurrences_spans m] kab by auto
  have st: "scanning J s" "sc_candidates s = int (length occ)" using l by (simp_all add: live_def running_def)
  define s2 where "s2 = (lookCtx s)\<lparr>sc_candidates := int (length occ) + 1\<rparr>"
  have sc2: "scanning J s2" using scanning_look[OF st(1)] by (simp add: s2_def scanning_def)
  have ww: "(if so_WholeWord (sc_opts s2) then scan_wholeWord (sj_unicode J) s2 a b else Some True) = Some (wanted J m)"
    using scan_wholeWord_correct[OF sc2 sp, of k] sc2 by (auto simp: wanted_def kab scanning_def)
  have off: "sc_offsets s2 = byte_offsets (sj_text J)" "sc_text s2 = sj_text J" "sc_opts s2 = sj_opts J"
    using sc2 by (simp_all add: scanning_def)
  have ab: "byte_offsets (sj_text J) ! nat a \<le> byte_offsets (sj_text J) ! nat b" "byte_offsets (sj_text J) ! nat b \<le> length (sj_text J)"
    using byte_offsets_mono[of "nat a" "nat b" "sj_text J"] byte_offsets_le[of "nat b" "sj_text J"] sp by simp_all
  have idx: "idxi (sc_offsets s2) a = Some (byte_offsets (sj_text J) ! nat a)" "idxi (sc_offsets s2) b = Some (byte_offsets (sj_text J) ! nat b)"
    using sp off by (simp_all add: idxi_Some nat_le_iff)
  show ?thesis
    using ww off ab idx st unfolding s2_def
    by (simp add: scan_emit_def kab Let_def source_match_def substring_def s2_def)
qed

lemma scan_emit_live:
  assumes l: "live J n occ1 s" and occ: "job_occ J = occ1 @ m # occ2"
  shows "\<exists>s' go. scan_emit (sj_unicode J) m s = Some (s', go) \<and> (if go then live J n (occ1 @ [m]) s' else ended J s')"
proof -
  let ?src = "source_match (sj_text J)"
  define s2 where "s2 = (lookCtx s)\<lparr>sc_candidates := int (length occ1) + 1\<rparr>"
  have m: "m \<in> set (job_occ J)" unfolding occ by simp
  note eq = scan_emit_eq[OF l m, folded s2_def, unfolded Let_def]
  from l obtain R where run: "running J n occ1 s" and R: "holding J occ1 R (sc_result s) (sc_pending s)" by (auto simp: live_def)
  have st: "scanning J s" using run by (simp add: running_def)
  show ?thesis
  proof (cases "ctx_now (sc_ctx s)")
    case (Some e)
    with look_failed[OF st Some] eq show ?thesis by auto
  next
    case None
    have sc2: "scanning J s2" using scanning_look[OF st] by (simp add: s2_def scanning_def)
    have run2: "running J n (occ1 @ [m]) s2"
      using run sc2 None by (simp add: running_def s2_def)
    have f2: "sc_result s2 = sc_result s" "sc_pending s2 = sc_pending s" "sc_err s2 = None" "sc_opts s2 = sj_opts J"
      using None sc2 by (simp_all add: s2_def scanning_def)
    consider (work) "int (length occ1) + 1 > so_MaxCandidates (sj_opts J)"
      | (skip) "int (length occ1) + 1 \<le> so_MaxCandidates (sj_opts J)" "\<not> wanted J m"
      | (ll) "int (length occ1) + 1 \<le> so_MaxCandidates (sj_opts J)" "wanted J m" "so_Kind (sj_opts J) = MatchKindLeftmostLongest"
      | (over) "int (length occ1) + 1 \<le> so_MaxCandidates (sj_opts J)" "wanted J m" "so_Kind (sj_opts J) \<noteq> MatchKindLeftmostLongest"
      by linarith
    then show ?thesis
    proof cases
      case work
      then have "ended J (s2\<lparr>sc_err := Some ErrScanWorkLimit\<rparr>)"
        using sc2 occ by (simp add: ended_def failed_def scanning_def)
      with work None eq show ?thesis by auto
    next
      case skip
      have fl: "filter (wanted J) (occ1 @ [m]) = filter (wanted J) occ1" using skip by simp
      have "holding J (occ1 @ [m]) R (sc_result s2) (sc_pending s2)" using R unfolding holding_def f2(1,2) fl .
      with run2 skip None eq show ?thesis by (auto simp: live_def)
    next
      case ll
      then have w: "window_holds ?src (set (filter (wanted J) occ1)) (sc_pending s)" using R by (simp add: holding_def)
      have "set (filter (wanted J) (occ1 @ [m])) = insert m (set (filter (wanted J) occ1))" using ll by simp
      with window_holds_add[OF w source_match_ok, of m]
      have "window_holds ?src (set (filter (wanted J) (occ1 @ [m]))) (window_add (sc_pending s) (?src m))" by simp
      with R ll have "holding J (occ1 @ [m]) R (sc_result s) (window_add (sc_pending s) (?src m))"
        by (simp add: holding_def window_add_best)
      with run2 f2 have "live J n (occ1 @ [m]) (s2\<lparr>sc_pending := window_add (sc_pending s) (?src m)\<rparr>)"
        by (auto simp: live_def running_def scanning_def)
      with ll None eq show ?thesis by auto
    next
      case over
      then have R': "R = filter (wanted J) occ1" "sr_Matches (sc_result s2) = map ?src R" "int (length R) \<le> so_MaxMatches (sj_opts J)"
        using R f2 by (auto simp: holding_def)
      have found: "job_found J = R @ m # filter (wanted J) occ2" using over R'(1) by (simp add: job_found_def occ)
      show ?thesis
      proof (cases "int (length R) = so_MaxMatches (sj_opts J)")
        case True
        from append_full[OF sc2 f2(3) R'(2) True found, of "?src m"] over None eq show ?thesis by auto
      next
        case False
        have "holding J (occ1 @ [m]) (R @ [m]) ((sc_result s2)\<lparr>sr_Matches := sr_Matches (sc_result s2) @ [?src m]\<rparr>) (sc_pending s2)"
          using R R' False over f2 by (auto simp: holding_def)
        with run2 have "live J n (occ1 @ [m]) (s2\<lparr>sc_result := (sc_result s2)\<lparr>sr_Matches := sr_Matches (sc_result s2) @ [?src m]\<rparr>\<rparr>)"
          by (auto simp: live_def running_def scanning_def)
        with append_room[of s2 "?src m"] R'(2) f2 False over None eq show ?thesis by auto
      qed
    qed
  qed
qed

lemma occs_from_append: "occs_from D w (xs @ ys) = occs_from D w xs @ occs_from D (w @ xs) ys"
  by (induction xs arbitrary: w) simp_all

lemma scan_emit_all:
  assumes "live J n occ1 s" and "job_occ J = occ1 @ ms @ occ2"
  shows "\<exists>s' go. emitAll (panicking_emit (scan_emit (sj_unicode J))) ms (Some s) = (Some s', go) \<and>
    (if go then live J n (occ1 @ ms) s' else ended J s')"
  using assms
proof (induction ms arbitrary: occ1 s)
  case (Cons m ms)
  from scan_emit_live[OF Cons.prems(1), of m "ms @ occ2"] Cons.prems(2) obtain s1 go where
    s1: "scan_emit (sj_unicode J) m s = Some (s1, go)" "if go then live J n (occ1 @ [m]) s1 else ended J s1" by auto
  show ?case
  proof (cases go)
    case True
    with Cons.IH[of "occ1 @ [m]" s1] s1 Cons.prems(2) obtain s2 go2 where
      "emitAll (panicking_emit (scan_emit (sj_unicode J))) ms (Some s1) = (Some s2, go2)"
      "if go2 then live J n ((occ1 @ [m]) @ ms) s2 else ended J s2" by auto
    moreover have "panicking_emit (scan_emit (sj_unicode J)) m (Some s) = (Some s1, True)"
      using s1(1) True by (simp add: panicking_emit_def)
    ultimately show ?thesis by (cases go2) auto
  next
    case False
    with s1 show ?thesis by (auto simp: panicking_emit_def)
  qed
qed auto

text \<open>Pulling the next rune, when all that ends in what was read is reported.\<close>

definition job_ok :: "scan_job \<Rightarrow> bool" where
  "job_ok J \<longleftrightarrow> (\<forall>m \<in> set (job_occ J). mend m - mstart m \<le> sj_longest J)"

lemma flushable_now:
  assumes ok: "job_ok J" and rs: "job_runes J = w @ rest"
  shows "flushable J False (int (length w)) (occurrences (sj_dict J) w)"
proof -
  have occ: "job_occ J = occurrences (sj_dict J) w @ occs_from (sj_dict J) w rest"
    unfolding rs by (simp add: occurrences_def occs_from_append)
  have "int (length w) - sj_longest J < mstart m" if "m \<in> set (job_elig J)" "m \<notin> set (filter (wanted J) (occurrences (sj_dict J) w))" for m
  proof -
    have "m \<in> set (job_occ J)" "wanted J m" using that(1) by simp_all
    with that(2) occ have "m \<in> set (occs_from (sj_dict J) w rest)" by simp
    from occs_from_end[OF this] bspec[OF ok[unfolded job_ok_def] \<open>m \<in> set (job_occ J)\<close>] show ?thesis by linarith
  qed
  then show ?thesis unfolding flushable_def using occ by (metis Diff_iff set_append sup_ge1)
qed

lemma scan_next_correct:
  assumes l: "live J (int (length w)) (occurrences (sj_dict J) w) s" and ok: "job_ok J" and rs: "job_runes J = w @ rest"
  shows "\<exists>r s'. scan_next (sj_unicode J) s = Some (r, s') \<and>
    (case r of None \<Rightarrow> ended J s' \<or> rest = [] \<and> live J (int (length w)) (occurrences (sj_dict J) w) s'
     | Some c \<Rightarrow> \<exists>rest'. rest = c # rest' \<and> live J (int (length w) + 1) (occurrences (sj_dict J) w) s')"
proof -
  have st: "scanning J s" using l by (simp add: live_def running_def)
  show ?thesis
  proof (cases "ctx_now (sc_ctx s)")
    case (Some e)
    with look_failed[OF st Some] show ?thesis by (simp add: scan_next_def)
  next
    case None
    note l1 = look_live[OF l None]
    define s2 where "s2 = (if so_Kind (sc_opts (lookCtx s)) = MatchKindLeftmostLongest then flush False (lookCtx s) else lookCtx s)"
    have eq: "scan_next (sj_unicode J) s =
      (if sc_stopped s2 \<or> sc_consumed s2 = int (length (sc_runes s2)) then Some (None, s2)
       else do {
         r \<leftarrow> idxi (sc_runes s2) (sc_consumed s2);
         Some (Some (normalized (sj_unicode J) s2 r), s2\<lparr>sc_consumed := sc_consumed s2 + 1\<rparr>)
       })"
      unfolding scan_next_def Let_def using None by (simp add: s2_def)
    have "ended J s2 \<and> sc_stopped s2 \<or> live J (int (length w)) (occurrences (sj_dict J) w) s2"
      using flush_correct[OF l1 _ flushable_now[OF ok rs]] l1 st
      by (auto simp: s2_def scanning_def flushed_def)
    then show ?thesis
    proof
      assume "ended J s2 \<and> sc_stopped s2"
      with eq show ?thesis by simp
    next
      assume l2: "live J (int (length w)) (occurrences (sj_dict J) w) s2"
      then have s2: "scanning J s2" "\<not> sc_stopped s2" "sc_consumed s2 = int (length w)" "sc_runes s2 = runes (sj_text J)"
        by (auto simp: live_def running_def scanning_def)
      have len: "length (runes (sj_text J)) = length w + length rest" using arg_cong[OF rs, of length] by simp
      show ?thesis
      proof (cases rest)
        case Nil
        with eq s2 len l2 show ?thesis by simp
      next
        case (Cons c rest')
        have "fold_rune (sj_unicode J) (sj_sensitive J) (runes (sj_text J) ! length w) = c"
          using arg_cong[OF rs, of "\<lambda>xs. xs ! length w"] Cons len by (simp add: nth_append)
        with eq s2 len Cons have "scan_next (sj_unicode J) s = Some (Some c, s2\<lparr>sc_consumed := int (length w) + 1\<rparr>)"
          by (simp add: idxi_Some normalized_fold[OF s2(1)])
        moreover have "live J (int (length w) + 1) (occurrences (sj_dict J) w) (s2\<lparr>sc_consumed := int (length w) + 1\<rparr>)"
          using l2 by (auto simp: live_def running_def scanning_def)
        ultimately show ?thesis using Cons by simp
      qed
    qed
  qed
qed

text \<open>The whole stream.\<close>

lemma scan_stream:
  assumes "live J (int (length w)) (occurrences (sj_dict J) w) s" and "job_ok J" and "job_runes J = w @ rest" and "i = int (length w)"
  shows "\<exists>s'. streamLoop spec_step (spec_emit (sj_dict J) (panicking_emit (scan_emit (sj_unicode J))))
      (panicking_next (scan_next (sj_unicode J))) w i (Some s) = Some (Some s') \<and>
    (ended J s' \<or> live J (int (length (job_runes J))) (job_occ J) s')"
  using assms
proof (induction rest arbitrary: w s i)
  case Nil
  from scan_next_correct[OF Nil.prems(1-3)] obtain s' where "scan_next (sj_unicode J) s = Some (None, s')"
    "ended J s' \<or> live J (int (length w)) (occurrences (sj_dict J) w) s'" by (auto split: option.splits)
  with Nil.prems(3) show ?case by (subst streamLoop.simps) (simp add: panicking_next_def)
next
  case (Cons c rest)
  from scan_next_correct[OF Cons.prems(1-3)] obtain r s1 where nx: "scan_next (sj_unicode J) s = Some (r, s1)"
    "case r of None \<Rightarrow> ended J s1 | Some c' \<Rightarrow> c' = c \<and> live J (int (length w) + 1) (occurrences (sj_dict J) w) s1"
    by (auto split: option.splits)
  show ?case
  proof (cases r)
    case None
    with nx show ?thesis by (subst streamLoop.simps) (simp add: panicking_next_def)
  next
    case (Some c')
    with nx(2) have l1: "live J (int (length w) + 1) (occurrences (sj_dict J) w) s1" and c: "c' = c" by simp_all
    have occ: "job_occ J = occurrences (sj_dict J) w @ matches_at (sj_dict J) (w @ [c]) @ occs_from (sj_dict J) (w @ [c]) rest"
      unfolding Cons.prems(3) by (simp add: occurrences_def occs_from_append)
    have occ': "occurrences (sj_dict J) w @ matches_at (sj_dict J) (w @ [c]) = occurrences (sj_dict J) (w @ [c])"
      by (simp add: occurrences_def occs_from_snoc)
    from scan_emit_all[OF l1 occ] obtain s2 go where
      e: "emitAll (panicking_emit (scan_emit (sj_unicode J))) (matches_at (sj_dict J) (w @ [c])) (Some s1) = (Some s2, go)"
      "if go then live J (int (length w) + 1) (occurrences (sj_dict J) (w @ [c])) s2 else ended J s2" unfolding occ' by blast
    have step: "streamLoop spec_step (spec_emit (sj_dict J) (panicking_emit (scan_emit (sj_unicode J))))
      (panicking_next (scan_next (sj_unicode J))) w i (Some s) =
      (if go then streamLoop spec_step (spec_emit (sj_dict J) (panicking_emit (scan_emit (sj_unicode J))))
        (panicking_next (scan_next (sj_unicode J))) (w @ [c]) (i + 1) (Some s2) else Some (Some s2))"
      using nx(1) Some c e(1) by (subst streamLoop.simps) (simp add: panicking_next_def spec_step_def spec_emit_def)
    show ?thesis
    proof (cases go)
      case True
      have "live J (int (length (w @ [c]))) (occurrences (sj_dict J) (w @ [c])) s2"
        using e(2) True by (simp add: add.commute)
      from Cons.IH[OF this Cons.prems(2), of "i + 1"] Cons.prems(3,4) True show ?thesis unfolding step by simp
    next
      case False
      with e(2) show ?thesis unfolding step by simp
    qed
  qed
qed

lemma live_found:
  assumes l: "live J n (job_occ J) s" and fin: "sw_starts (sc_pending s) = []"
  shows "sr_Matches (sc_result s) = map (source_match (sj_text J)) (job_found J)"
    and "int (length (job_found J)) \<le> so_MaxMatches (sj_opts J)"
proof -
  from l obtain R where R: "holding J (job_occ J) R (sc_result s) (sc_pending s)" by (auto simp: live_def)
  have "R = job_found J"
  proof (cases "so_Kind (sj_opts J) = MatchKindLeftmostLongest")
    case True
    let ?pe = "sw_end (sc_pending s)"
    from R True have d: "decided (set (job_elig J)) R ?pe"
      and w: "window_holds (source_match (sj_text J)) (set (job_elig J)) (sc_pending s)" by (simp_all add: holding_def)
    have "dom (sw_best (sc_pending s)) = {}" using window_holdsD(1)[OF w] fin unfolding window_ok_def by auto
    then have "\<not> ?pe \<le> mstart m" if "m \<in> set (job_elig J)" for m using window_holdsD(3)[OF w that] by auto
    then have "filter (\<lambda>m. ?pe \<le> mstart m) (job_elig J) = []" by (simp add: filter_empty_conv del: filter_filter)
    with decided_prefix[OF elig_spans d] True show ?thesis by (simp add: job_found_def leftmostLongest_def del: filter_filter)
  qed (use R in \<open>simp add: holding_def job_found_def\<close>)
  with R show "sr_Matches (sc_result s) = map (source_match (sj_text J)) (job_found J)"
    "int (length (job_found J)) \<le> so_MaxMatches (sj_opts J)" by (simp_all add: holding_def)
qed

lemma occurrences_no_dict: "dom D = {} \<Longrightarrow> occurrences D rs = []"
proof -
  assume "dom D = {}"
  then have "D = Map.empty" by simp
  then have "m \<notin> set (occurrences D rs)" for m by (cases m) (auto simp: occurrences_iff)
  then show ?thesis by (metis list.set_intros(1) neq_Nil_conv)
qed

text \<open>What a scan returns: the beginning of what is to be found, or why it could not.\<close>

definition scan_outcome :: "scan_job \<Rightarrow> (ScanResult \<times> acorError option list) result \<Rightarrow> bool" where
  "scan_outcome J r \<longleftrightarrow>
     (case r of
        Inl e \<Rightarrow> Some e \<in> sj_ctx J \<or> e = ErrScanWorkLimit \<and> so_MaxCandidates (sj_opts J) < int (length (job_occ J))
      | Inr (res, ctx) \<Rightarrow>
          sr_Matches res = map (source_match (sj_text J)) (take (nat (so_MaxMatches (sj_opts J))) (job_found J)) \<and>
          (sr_Truncated res \<longleftrightarrow> so_MaxMatches (sj_opts J) < int (length (job_found J))) \<and> set ctx \<subseteq> sj_ctx J)"

lemma ended_outcome:
  assumes "ended J s"
  shows "scan_outcome J (case sc_err s of Some e \<Rightarrow> Inl e | None \<Rightarrow> Inr (sc_result s, sc_ctx s))"
  using assms by (auto simp: ended_def failed_def truncated_def scan_outcome_def)

lemma live_outcome:
  assumes "live J n (job_occ J) s" and "sw_starts (sc_pending s) = []"
  shows "scan_outcome J (case sc_err s of Some e \<Rightarrow> Inl e | None \<Rightarrow> Inr (sc_result s, sc_ctx s))"
  using assms(1) live_found[OF assms] by (auto simp: scan_outcome_def live_def running_def scanning_def)

lemma final_flush:
  assumes l: "live J n (job_occ J) s"
  shows "flushed J True n (job_occ J) (flush True s)"
proof (cases "so_Kind (sj_opts J) = MatchKindLeftmostLongest")
  case True
  have "flushable J True n (job_occ J)" by (simp add: flushable_def)
  from flush_correct[OF l True this] show ?thesis .
next
  case False
  then have "sw_starts (sc_pending s) = []" using l by (auto simp: live_def holding_def)
  moreover from this have "flush True s = s" by (subst flush.simps) simp
  ultimately show ?thesis using l by (simp add: flushed_def)
qed

lemma scanSource_job:
  assumes eng: "engine_holds eng (sj_dict J)" and len: "sj_longest J = int (en_maxKeywordRunes eng)" and ok: "job_ok J"
    and pos: "0 \<le> so_MaxMatches (sj_opts J)" and ctx: "set ctx \<subseteq> sj_ctx J"
  shows "\<exists>r. scanSource (sj_unicode J) ctx eng (sj_text J) (sj_sensitive J) (sj_opts J) = Some r \<and> scan_outcome J r"
proof -
  define s0 where "s0 = \<lparr>sc_ctx = ctx, sc_text = sj_text J, sc_runes = [], sc_offsets = [], sc_sensitive = sj_sensitive J, sc_opts = sj_opts J,
            sc_result = \<lparr>sr_Matches = [], sr_Truncated = False\<rparr>,
            sc_pending = \<lparr>sw_best = Map.empty, sw_starts = [], sw_end = 0\<rparr>, sc_consumed = 0, sc_candidates = 0,
            sc_longest = int (en_maxKeywordRunes eng), sc_stopped = False, sc_err = None\<rparr>"
  note src = scanSource_def[of "sj_unicode J" ctx eng "sj_text J" "sj_sensitive J" "sj_opts J", folded s0_def, unfolded Let_def]
  have dec: "case decodeText (pieces (sj_text J)) 0 s0 of Inl e \<Rightarrow> Some e \<in> sj_ctx J
    | Inr s' \<Rightarrow> \<exists>ctx. set ctx \<subseteq> sj_ctx J \<and> s' = s0\<lparr>sc_ctx := ctx, sc_runes := sc_runes s0 @ map fst (pieces (sj_text J)),
        sc_offsets := sc_offsets s0 @ offsets_from 0 (pieces (sj_text J))\<rparr>"
    by (rule decodeText_correct) (simp add: s0_def ctx)
  show ?thesis
  proof (cases "decodeText (pieces (sj_text J)) 0 s0")
    case (Inl e)
    with dec src show ?thesis by (simp add: scan_outcome_def)
  next
    case (Inr s')
    define s1 where "s1 = s'\<lparr>sc_offsets := sc_offsets s' @ [length (sj_text J)]\<rparr>"
    from dec Inr obtain ctx1 where "set ctx1 \<subseteq> sj_ctx J" "s1 = s0\<lparr>sc_ctx := ctx1, sc_runes := runes (sj_text J),
        sc_offsets := byte_offsets (sj_text J)\<rparr>" by (auto simp: s1_def s0_def byte_offsets_def)
    then have "running J 0 [] s1" "sc_result s1 = \<lparr>sr_Matches = [], sr_Truncated = False\<rparr>"
      "sc_pending s1 = \<lparr>sw_best = Map.empty, sw_starts = [], sw_end = 0\<rparr>"
      by (simp_all add: s0_def running_def scanning_def len)
    moreover have "decided (set (job_elig J)) [] 0" using elig_spans[of J] unfolding decided_def spans_ok_def by fastforce
    moreover have "window_holds src {} \<lparr>sw_best = Map.empty, sw_starts = [], sw_end = 0\<rparr>" for src
      by (simp add: window_holds_def window_ok_def heap_but_def)
    ultimately have l1: "live J 0 [] s1" using pos by (auto simp: live_def holding_def intro!: exI[of _ "[]"])
    have "\<exists>s2 n. Engine_Stream eng (panicking_next (scan_next (sj_unicode J))) (panicking_emit (scan_emit (sj_unicode J))) (Some s1) =
        Some (Some s2) \<and> (ended J s2 \<or> live J n (job_occ J) s2)"
    proof (cases "dom (sj_dict J) = {}")
      case True
      then show ?thesis using l1 by (auto simp: engine_ops(6)[OF eng] spec_matchStream_def occurrences_no_dict[OF True] simp del: dom_eq_empty_conv)
    next
      case False
      have "occurrences (sj_dict J) [] = []" by (simp add: occurrences_def)
      then show ?thesis using scan_stream[of J "[]" s1 "job_runes J" 0] l1 ok False
        by (auto simp: engine_ops(6)[OF eng] spec_matchStream_def spec_stream_def simp del: dom_eq_empty_conv)
    qed
    then obtain s2 n where st: "Engine_Stream eng (panicking_next (scan_next (sj_unicode J))) (panicking_emit (scan_emit (sj_unicode J))) (Some s1) =
        Some (Some s2)" and s2: "ended J s2 \<or> live J n (job_occ J) s2" by blast
    have sub: "set (sc_ctx s2) \<subseteq> sj_ctx J" using s2 by (auto simp: ended_def live_def running_def scanning_def)
    define s3 where "s3 = s2\<lparr>sc_ctx := tl (sc_ctx s2)\<rparr>"
    define s4 where "s4 = (if \<not> sc_stopped s3 then flush True s3 else s3)"
    have eq: "scanSource (sj_unicode J) ctx eng (sj_text J) (sj_sensitive J) (sj_opts J) =
      (case ctx_now (sc_ctx s2) of Some e \<Rightarrow> Some (Inl e)
       | None \<Rightarrow> (case sc_err s2 of Some e \<Rightarrow> Some (Inl e)
           | None \<Rightarrow> Some (case sc_err s4 of Some e \<Rightarrow> Inl e | None \<Rightarrow> Inr (sc_result s4, sc_ctx s4))))"
      unfolding src using st by (simp add: Inr s1_def s3_def s4_def split: option.splits)
    show ?thesis
    proof (cases "ctx_now (sc_ctx s2)")
      case (Some e)
      with ctx_now_in[OF Some] sub show ?thesis unfolding eq by (auto simp: scan_outcome_def)
    next
      case None
      have "scan_outcome J (case sc_err s2 of Some e \<Rightarrow> Inl e
        | None \<Rightarrow> (case sc_err s4 of Some e \<Rightarrow> Inl e | None \<Rightarrow> Inr (sc_result s4, sc_ctx s4)))"
        using s2
      proof
        assume e2: "ended J s2"
        then have "ended J s3" using tl_sub by (auto simp: ended_def failed_def truncated_def s3_def)
        from ended_outcome[OF this] ended_outcome[OF e2] e2 show ?thesis
          by (auto simp: s4_def s3_def ended_def failed_def truncated_def)
      next
        assume l2: "live J n (job_occ J) s2"
        then have l3: "live J n (job_occ J) s3" using tl_sub by (auto simp: live_def running_def scanning_def s3_def)
        then have "s4 = flush True s3" by (simp add: s4_def live_def running_def)
        with final_flush[OF l3] have "scan_outcome J (case sc_err s4 of Some e \<Rightarrow> Inl e | None \<Rightarrow> Inr (sc_result s4, sc_ctx s4))"
          using ended_outcome[of J s4] live_outcome[of J n s4] unfolding flushed_def by auto
        moreover have "sc_err s2 = None" using l2 by (simp add: live_def running_def)
        ultimately show ?thesis by simp
      qed
      with None show ?thesis unfolding eq by (simp split: option.splits)
    qed
  qed
qed

section \<open>Properties\<close>

lemma scanOptions_Inr:
  assumes "scanOptions u c text opts = Inr o1"
  shows "c = None" "0 < so_MaxMatches o1" "0 < so_MaxCandidates o1" "int (length text) \<le> so_MaxInputBytes o1"
    "so_Kind o1 = MatchKindOverlapping \<or> so_Kind o1 = MatchKindLeftmostLongest"
  using assms
  by (auto simp: scanOptions_def Let_def defaultScanMatches_def defaultScanCandidates_def split: option.splits if_splits)

lemma Scan_job:
  fixes cs :: bool
  assumes env: "env_ok env" "keyword_set ks" "Engine_Build env (Engine_New preset) ks = Some eng"
    and o1: "scanOptions u (ctx_now ctx) text opts = Inr o1"
  defines "J \<equiv> \<lparr>sj_unicode = u, sj_text = text, sj_sensitive = cs, sj_opts = o1, sj_dict = dict_of ks,
    sj_longest = int (en_maxKeywordRunes eng), sj_ctx = set ctx\<rparr>"
  shows "\<exists>r. Scan u cs (Inr eng) ctx text opts = Some r \<and> scan_outcome J r"
proof -
  note h = engine_built_holds[OF env]
  have "mend m - mstart m \<le> int (en_maxKeywordRunes eng)" if "m \<in> set (job_occ J)" for m
  proof -
    obtain k s e where m: "m = (k, s, e)" by (cases m) auto
    have "(k, s, e) \<in> set (occurrences (dict_of ks) (map (fold_rune u cs) (runes text)))" using that m by (simp add: J_def)
    note l = occurrence_length[OF this]
    have "runeCount k \<le> en_maxKeywordRunes eng" unfolding h(2) by (rule Max_ge) (use l(1) in auto)
    with l(2) m show ?thesis by simp
  qed
  then have "job_ok J" by (simp add: job_ok_def J_def)
  moreover have "engine_holds eng (sj_dict J)" using h(1) by (simp add: J_def)
  ultimately show ?thesis
    using scanSource_job[of eng J "tl ctx"] scanOptions_Inr[OF o1] o1 tl_sub[of ctx "set ctx"] by (simp add: Scan_def J_def)
qed

text \<open>The unlimited search finds the same matches.\<close>

lemma findMatches_found:
  assumes "engine_holds eng D" and "unicode_ok u" and "sj_dict J = D" and "sj_unicode J = u"
  shows "findMatches u (sj_sensitive J) (Inr eng) None None (sj_text J) (Some (match_options (sj_opts J))) = Some (Inr (job_found J))"
proof (cases "sj_text J = []")
  case True
  then show ?thesis by (simp add: findMatches_def job_found_def occurrences_def leftmostLongest_def)
next
  case False
  from findMatches_options[OF assms(1,2) False refl, of "sj_sensitive J" None "match_options (sj_opts J)"] eligible_wanted[of J]
  show ?thesis using assms(3,4) by (simp add: job_found_def)
qed

text \<open>
  C13.  A bounded scan agrees with the unlimited search.  On a built engine, with
  options that pass validation, Scan returns and reports exactly the first
  MaxMatches of the matches FindMatches finds under the same options, each with
  its source positions, and sets Truncated exactly when there are more.  The
  only errors are those of the context and, when the text has more than
  MaxCandidates occurrences, ErrScanWorkLimit.  So the windowed
  leftmost-longest selection equals the one that sorts all matches.
\<close>

theorem Scan_correct:
  assumes "env_ok env" and "keyword_set ks" and "Engine_Build env (Engine_New preset) ks = Some eng" and "unicode_ok u"
    and "scanOptions u (ctx_now ctx) text opts = Inr o1"
  shows "\<exists>r found. Scan u cs (Inr eng) ctx text opts = Some r \<and>
    findMatches u cs (Inr eng) None None text (Some (match_options o1)) = Some (Inr found) \<and>
    (case r of
       Inl e \<Rightarrow> Some e \<in> set ctx \<or> e = ErrScanWorkLimit \<and>
         so_MaxCandidates o1 < int (length (occurrences (dict_of ks) (map (fold_rune u cs) (runes text))))
     | Inr (res, rest) \<Rightarrow> sr_Matches res = map (source_match text) (take (nat (so_MaxMatches o1)) found) \<and>
         (sr_Truncated res \<longleftrightarrow> so_MaxMatches o1 < int (length found)))"
proof -
  define J where "J = \<lparr>sj_unicode = u, sj_text = text, sj_sensitive = cs, sj_opts = o1, sj_dict = dict_of ks,
    sj_longest = int (en_maxKeywordRunes eng), sj_ctx = set ctx\<rparr>"
  have "findMatches u cs (Inr eng) None None text (Some (match_options o1)) = Some (Inr (job_found J))"
    using findMatches_found[OF engine_built_holds(1)[OF assms(1-3)] assms(4), of J] by (simp add: J_def)
  moreover obtain r where "Scan u cs (Inr eng) ctx text opts = Some r" "scan_outcome J r"
    using Scan_job[OF assms(1-3,5), of cs] by (auto simp: J_def)
  ultimately show ?thesis by (auto simp: scan_outcome_def J_def split: sum.splits)
qed

theorem Scan_correct_witness:
  "\<exists>eng rest. Engine_Build env_example (Engine_New PresetBalanced) [''he'', ''hers'', ''she''] = Some eng \<and>
     Scan ascii_unicode False (Inr eng) [] ''USHERS, he''
       (Some (zeroScanOptions\<lparr>so_MaxMatches := 1, so_Kind := MatchKindLeftmostLongest\<rparr>)) =
     Some (Inr (\<lparr>sr_Matches = [\<lparr>sm_Keyword = ''she'', sm_Text = ''SHE'', sm_Start = 1, sm_End = 4, sm_ByteStart = 1, sm_ByteEnd = 4\<rparr>],
       sr_Truncated = True\<rparr>, rest))"
proof -
  let ?ks = "[''he'', ''hers'', ''she'']" and ?t = "''USHERS, he''"
  let ?o = "zeroScanOptions\<lparr>so_MaxMatches := 1, so_Kind := MatchKindLeftmostLongest\<rparr>"
  from engine_build_correct[OF env_example_ok keyword_set_example(1), of PresetBalanced] obtain eng
    where b: "Engine_Build env_example (Engine_New PresetBalanced) ?ks = Some eng" by blast
  define O1 where "O1 = ?o\<lparr>so_MaxInputBytes := 2 ^ 20, so_MaxCandidates := 100000, so_WordRune := Some (isWordRune ascii_unicode)\<rparr>"
  have o: "scanOptions ascii_unicode (ctx_now []) ?t (Some ?o) = Inr O1"
    by (simp add: O1_def scanOptions_def ctx_now_def zeroScanOptions_def defaultScanInputBytes_def defaultScanCandidates_def)
  have occ: "occurrences (dict_of ?ks) (map (fold_rune ascii_unicode False) (runes ?t)) =
      [(''she'', 1, 4), (''he'', 2, 4), (''hers'', 2, 6), (''he'', 8, 10)]" by code_simp
  have ll: "leftmostLongest [(''she'', 1, 4), (''he'', 2, 4), (''hers'', 2, 6), (''he'', 8, 10)] = [(''she'', 1, 4), (''he'', 8, 10)]"
    by code_simp
  have src: "source_match ?t (''she'', 1, 4) =
      \<lparr>sm_Keyword = ''she'', sm_Text = ''SHE'', sm_Start = 1, sm_End = 4, sm_ByteStart = 1, sm_ByteEnd = 4\<rparr>" by code_simp
  have lim: "so_MaxCandidates O1 = 100000" "so_MaxMatches O1 = 1" by (simp_all add: O1_def)
  from Scan_correct[OF env_example_ok keyword_set_example(1) b ascii_unicode_ok o, of False, unfolded occ lim] obtain r found where
    r: "Scan ascii_unicode False (Inr eng) [] ?t (Some ?o) = Some r" and
    f: "findMatches ascii_unicode False (Inr eng) None None ?t (Some (match_options O1)) = Some (Inr found)" and
    c0: "case r of Inl e \<Rightarrow> Some e \<in> set [] \<or> e = ErrScanWorkLimit \<and>
        100000 < int (length [(''she'', 1 :: int, 4 :: int), (''he'', 2, 4), (''hers'', 2, 6), (''he'', 8, 10)])
      | Inr (res, rest) \<Rightarrow> sr_Matches res = map (source_match ?t) (take (nat 1) found) \<and> (sr_Truncated res \<longleftrightarrow> 1 < int (length found))"
    by blast
  obtain res rest where c: "r = Inr (res, rest)" "sr_Matches res = map (source_match ?t) (take 1 found)" "sr_Truncated res \<longleftrightarrow> 1 < length found"
    using c0 by (cases r) auto
  have "found = [(''she'', 1, 4), (''he'', 8, 10)]"
    using f findMatches_options[OF engine_built_holds(1)[OF env_example_ok keyword_set_example(1) b] ascii_unicode_ok _ refl, of ?t False None]
    by (simp add: O1_def match_options_def zeroScanOptions_def eligible_def occ ll)
  with c src r b show ?thesis by (auto intro: ScanResult.equality)
qed

text \<open>
  C14.  The positions of a scan are positions in the original text, whatever the
  case fold and invalid bytes do to lengths: the byte interval is inside the text
  and is exactly \<open>Text\<close>, the bytes before it hold \<open>Start\<close> runes, and the runes of \<open>Text\<close> are
  those from \<open>Start\<close> to \<open>End\<close> and fold to the runes of the reported keyword.
\<close>

theorem Scan_positions:
  assumes "env_ok env" and "keyword_set ks" and "Engine_Build env (Engine_New preset) ks = Some eng" and "unicode_ok u"
    and "Scan u cs (Inr eng) ctx text opts = Some (Inr (res, rest))" and "m \<in> set (sr_Matches res)"
  shows "sm_Keyword m \<in> set ks \<and> sm_ByteStart m \<le> sm_ByteEnd m \<and> sm_ByteEnd m \<le> length text \<and>
    sm_Text m = take (sm_ByteEnd m - sm_ByteStart m) (drop (sm_ByteStart m) text) \<and>
    int (length (runes (take (sm_ByteStart m) text))) = sm_Start m \<and> int (length (runes (sm_Text m))) = sm_End m - sm_Start m \<and>
    map (fold_rune u cs) (runes (sm_Text m)) = runes (sm_Keyword m)"
proof -
  obtain o1 where o1: "scanOptions u (ctx_now ctx) text opts = Inr o1" using assms(5) by (auto simp: Scan_def split: sum.splits)
  define J where "J = \<lparr>sj_unicode = u, sj_text = text, sj_sensitive = cs, sj_opts = o1, sj_dict = dict_of ks,
    sj_longest = int (en_maxKeywordRunes eng), sj_ctx = set ctx\<rparr>"
  have "sr_Matches res = map (source_match text) (take (nat (so_MaxMatches o1)) (job_found J))"
    using Scan_job[OF assms(1-3) o1, of cs] assms(5) by (auto simp: scan_outcome_def J_def)
  with assms(6) obtain a where a: "a \<in> set (job_found J)" "m = source_match text a" by (auto dest: in_set_takeD)
  have "set (job_found J) \<subseteq> set (job_elig J)"
    using leftmostLongest_selection[OF elig_spans[of J]] unfolding selection_def job_found_def by (simp split: if_splits)
  with a(1) have occ: "a \<in> set (occurrences (dict_of ks) (map (fold_rune u cs) (runes text)))" by (auto simp: J_def)
  obtain k s e where kse: "a = (k, s, e)" by (cases a) auto
  note l = occurrence_length[OF occ[unfolded kse]]
  have le: "nat s \<le> nat e" "nat e \<le> length (runes text)" using l by auto
  from occ kse have "dict_of ks (take (nat e - nat s) (drop (nat s) (map (fold_rune u cs) (runes text)))) = Some k"
    by (simp add: occurrences_iff)
  from dict_of_runes[OF this] have k: "runes k = map (fold_rune u cs) (take (nat e - nat s) (drop (nat s) (runes text)))"
    by (simp add: take_map drop_map)
  note sl = slice_runes[OF le]
  have mono: "byte_offsets text ! nat s \<le> byte_offsets text ! nat e" "byte_offsets text ! nat e \<le> length text"
    using byte_offsets_mono[OF le] byte_offsets_le[OF le(2)] .
  have f: "sm_Keyword m = k" "sm_ByteStart m = byte_offsets text ! nat s" "sm_ByteEnd m = byte_offsets text ! nat e" "sm_Start m = s" "sm_End m = e"
    "sm_Text m = take (sm_ByteEnd m - sm_ByteStart m) (drop (sm_ByteStart m) text)"
    unfolding a(2) kse by (simp_all add: source_match_def Let_def)
  have t: "runes (sm_Text m) = take (nat e - nat s) (drop (nat s) (runes text))" unfolding f(6) f(2,3) by (rule sl(1))
  have "length (runes (sm_Text m)) = runeCount k" using k t by (simp add: runeCount_def)
  moreover have "length (runes (take (sm_ByteStart m) text)) = nat s" unfolding f(2) sl(2) using le by simp
  ultimately show ?thesis using f(1-5) f(6)[unfolded f(2,3)] t k l mono by (simp add: f(2,3))
qed

theorem Scan_positions_witness:
  "\<exists>eng rest. Engine_Build env_example (Engine_New PresetBalanced) [''he'', ''hers'', ''she''] = Some eng \<and>
     (\<exists>res m. Scan ascii_unicode False (Inr eng) [] ''USHERS, he'' None = Some (Inr (res, rest)) \<and> m \<in> set (sr_Matches res) \<and>
       sm_Keyword m \<in> {''he'', ''hers'', ''she''} \<and> map (fold_rune ascii_unicode False) (runes (sm_Text m)) = runes (sm_Keyword m))"
proof -
  let ?ks = "[''he'', ''hers'', ''she'']" and ?t = "''USHERS, he''"
  from engine_build_correct[OF env_example_ok keyword_set_example(1), of PresetBalanced] obtain eng
    where b: "Engine_Build env_example (Engine_New PresetBalanced) ?ks = Some eng" by blast
  let ?o = "zeroScanOptions\<lparr>so_MaxInputBytes := 2 ^ 20, so_MaxMatches := 1000, so_MaxCandidates := 100000,
      so_WordRune := Some (isWordRune ascii_unicode)\<rparr>"
  let ?J = "\<lparr>sj_unicode = ascii_unicode, sj_text = ?t, sj_sensitive = False, sj_opts = ?o, sj_dict = dict_of ?ks,
    sj_longest = int (en_maxKeywordRunes eng), sj_ctx = {}\<rparr>"
  have o: "scanOptions ascii_unicode (ctx_now []) ?t None = Inr ?o"
    by (simp add: scanOptions_def ctx_now_def zeroScanOptions_def defaultScanInputBytes_def defaultScanCandidates_def defaultScanMatches_def)
  have occ: "occurrences (dict_of ?ks) (map (fold_rune ascii_unicode False) (runes ?t)) =
      [(''she'', 1, 4), (''he'', 2, 4), (''hers'', 2, 6), (''he'', 8, 10)]" by code_simp
  from Scan_job[OF env_example_ok keyword_set_example(1) b o, of False] obtain r where
    r: "Scan ascii_unicode False (Inr eng) [] ?t None = Some r" "scan_outcome ?J r" by auto
  then obtain res rest where res: "r = Inr (res, rest)" "source_match ?t (''she'', 1, 4) \<in> set (sr_Matches res)"
    by (cases r) (auto simp: scan_outcome_def job_found_def occ zeroScanOptions_def wanted_def)
  from Scan_positions[OF env_example_ok keyword_set_example(1) b ascii_unicode_ok r(1)[unfolded res(1)] res(2)] res r b
  show ?thesis by auto
qed

end
