(* ===== verification/Rewrite.thy ===== *)
theory Rewrite
  imports Scan
begin

text \<open>
  \<^verbatim>\<open>pkg/acor/rewrite.go\<close>: replacing or masking the leftmost-longest matches.  A rewrite
  first computes the size of its output against the limit and only then builds
  it, so that no partial output is returned.
\<close>

section \<open>The operations\<close>

record RewriteOptions =
  ro_MaxInputBytes :: int
  ro_MaxMatches :: int
  ro_MaxCandidates :: int
  ro_MaxOutputBytes :: int
  ro_WholeWord :: bool
  ro_WordRune :: "(rune \<Rightarrow> bool) option"

record RewriteResult =
  rr_Text :: gostring
  rr_Matches :: "SourceMatch list"

definition defaultRewriteBytes :: int where "defaultRewriteBytes = 4 * 2 ^ 20"

definition zeroRewriteOptions :: RewriteOptions where
  "zeroRewriteOptions = \<lparr>ro_MaxInputBytes = 0, ro_MaxMatches = 0, ro_MaxCandidates = 0, ro_MaxOutputBytes = 0,
     ro_WholeWord = False, ro_WordRune = None\<rparr>"

text \<open>
  The loop that adds up the sizes, with what is left of the context's answers.  A
  rune of positive width is divided by, and the remaining room is not negative,
  so the division is exact or rounds down.
\<close>

fun sizeLoop ::
  "acorError option list \<Rightarrow> gostring \<Rightarrow> rune \<Rightarrow> bool \<Rightarrow> int \<Rightarrow> SourceMatch list \<Rightarrow> int \<Rightarrow> int \<Rightarrow>
   (int \<times> int \<times> acorError option list) result" where
  "sizeLoop ctx replacement msk masking limit [] size0 cursor = Inr (size0, cursor, ctx)"
| "sizeLoop ctx replacement msk masking limit (m # ms) size0 cursor =
     (case ctx_now ctx of
        Some err \<Rightarrow> Inl err
      | None \<Rightarrow>
          (let unchanged = int (sm_ByteStart m) - cursor in
           if unchanged > limit - size0 then Inl ErrOutputLimit
           else
             (let size1 = size0 + unchanged;
                  width = runeLen msk;
                  num = sm_End m - sm_Start m
              in
              if masking \<and> num > (limit - size1) div width then Inl ErrOutputLimit
              else
                (let size = (if masking then num * width else int (length replacement)) in
                 if size > limit - size1 then Inl ErrOutputLimit
                 else sizeLoop (tl ctx) replacement msk masking limit ms (size1 + size) (int (sm_ByteEnd m))))))"

text \<open>Writing the mask rune from offset \<open>i\<close> on, \<open>n\<close> times.\<close>

fun maskLoop :: "acorError option list \<Rightarrow> rune \<Rightarrow> int \<Rightarrow> nat \<Rightarrow> gostring \<Rightarrow> (gostring \<times> acorError option list) result" where
  "maskLoop ctx msk i 0 out = Inr (out, ctx)"
| "maskLoop ctx msk i (Suc n) out =
     (let look = i mod int scanContextStride = 0 in
      case (if look then ctx_now ctx else None) of
        Some err \<Rightarrow> Inl err
      | None \<Rightarrow> maskLoop (if look then tl ctx else ctx) msk (i + 1) n (out @ encodeRune msk))"

fun writeLoop ::
  "acorError option list \<Rightarrow> gostring \<Rightarrow> gostring \<Rightarrow> rune \<Rightarrow> bool \<Rightarrow> SourceMatch list \<Rightarrow> nat \<Rightarrow> gostring \<Rightarrow>
   (gostring \<times> nat \<times> acorError option list) result option" where
  "writeLoop ctx text replacement msk masking [] cursor out = Some (Inr (out, cursor, ctx))"
| "writeLoop ctx text replacement msk masking (m # ms) cursor out = do {
     t \<leftarrow> substring text cursor (sm_ByteStart m);
     (if \<not> masking then writeLoop ctx text replacement msk masking ms (sm_ByteEnd m) (out @ t @ replacement)
      else (case maskLoop ctx msk (sm_Start m) (nat (sm_End m - sm_Start m)) (out @ t) of
          Inl err \<Rightarrow> Some (Inl err)
        | Inr (out', ctx') \<Rightarrow> writeLoop ctx' text replacement msk masking ms (sm_ByteEnd m) out'))
   }"

definition renderRewrite ::
  "acorError option list \<Rightarrow> gostring \<Rightarrow> gostring \<Rightarrow> rune \<Rightarrow> bool \<Rightarrow> int \<Rightarrow> SourceMatch list \<Rightarrow> RewriteResult result option" where
  "renderRewrite ctx text replacement msk masking limit matches =
     (case sizeLoop ctx replacement msk masking limit matches 0 0 of
        Inl err \<Rightarrow> Some (Inl err)
      | Inr (size0, cursor, ctx1) \<Rightarrow>
          if int (length text) - cursor > limit - size0 then Some (Inl ErrOutputLimit)
          else do {
            written \<leftarrow> writeLoop ctx1 text replacement msk masking matches 0 [];
            (case written of
               Inl err \<Rightarrow> Some (Inl err)
             | Inr (out, cursor, ctx2) \<Rightarrow> do {
                 t \<leftarrow> substring text cursor (length text);
                 (case ctx_now ctx2 of
                    Some err \<Rightarrow> Some (Inl err)
                  | None \<Rightarrow> Some (Inr \<lparr>rr_Text = out @ t, rr_Matches = matches\<rparr>))
               })
          })"

definition rewrite ::
  "unicode \<Rightarrow> bool \<Rightarrow> Engine result \<Rightarrow> acorError option list \<Rightarrow> gostring \<Rightarrow> gostring \<Rightarrow> rune \<Rightarrow> bool \<Rightarrow>
   RewriteOptions option \<Rightarrow> RewriteResult result option" where
  "rewrite u caseSensitive load ctx text replacement msk masking opts =
     (let o0 = (case opts of None \<Rightarrow> zeroRewriteOptions | Some o1 \<Rightarrow> o1) in
      if ro_MaxOutputBytes o0 < 0 then Some (Inl (ErrText ''acor: negative output limit''))
      else
        (let limit = (if ro_MaxOutputBytes o0 = 0 then defaultRewriteBytes else ro_MaxOutputBytes o0) in do {
          scan \<leftarrow> Scan u caseSensitive load ctx text
            (Some \<lparr>so_MaxInputBytes = ro_MaxInputBytes o0, so_MaxMatches = ro_MaxMatches o0, so_MaxCandidates = ro_MaxCandidates o0,
               so_Kind = MatchKindLeftmostLongest, so_WholeWord = ro_WholeWord o0, so_WordRune = ro_WordRune o0\<rparr>);
          (case scan of
             Inl err \<Rightarrow> Some (Inl err)
           | Inr (res, ctx1) \<Rightarrow>
               if sr_Truncated res then Some (Inl ErrMatchLimit)
               else renderRewrite ctx1 text replacement msk masking limit (sr_Matches res))
        }))"

definition ReplaceText where
  "ReplaceText u caseSensitive load ctx text replacement opts = rewrite u caseSensitive load ctx text replacement 0 False opts"

definition MaskText where
  "MaskText u caseSensitive load ctx text msk opts =
     (if \<not> valid_rune msk then Some (Inl (ErrText ''acor: invalid mask rune''))
      else rewrite u caseSensitive load ctx text [] msk True opts)"

section \<open>What a rewrite is to produce\<close>

text \<open>The text with each match put through \<open>f\<close>, from the byte \<open>cursor\<close> on.\<close>

fun spliced :: "(SourceMatch \<Rightarrow> gostring) \<Rightarrow> gostring \<Rightarrow> nat \<Rightarrow> SourceMatch list \<Rightarrow> gostring" where
  "spliced f text cursor [] = drop cursor text"
| "spliced f text cursor (m # ms) =
     take (sm_ByteStart m - cursor) (drop cursor text) @ f m @ spliced f text (sm_ByteEnd m) ms"

definition put :: "gostring \<Rightarrow> rune \<Rightarrow> bool \<Rightarrow> SourceMatch \<Rightarrow> gostring" where
  "put replacement msk masking m =
     (if masking then concat (replicate (nat (sm_End m - sm_Start m)) (encodeRune msk)) else replacement)"

text \<open>Matches in order, apart, and inside the text.\<close>

fun placed :: "nat \<Rightarrow> nat \<Rightarrow> SourceMatch list \<Rightarrow> bool" where
  "placed n cursor [] \<longleftrightarrow> cursor \<le> n"
| "placed n cursor (m # ms) \<longleftrightarrow> cursor \<le> sm_ByteStart m \<and> sm_ByteStart m \<le> sm_ByteEnd m \<and> sm_Start m \<le> sm_End m \<and>
     placed n (sm_ByteEnd m) ms"

lemma placed_le: "placed n cursor ms \<Longrightarrow> cursor \<le> n"
  by (induction ms arbitrary: cursor) (auto dest: order_trans)

lemma runeLen_encode: "valid_rune r \<Longrightarrow> runeLen r = int (length (encodeRune r))"
  by (auto simp: runeLen_def encodeRune_def encodeValid_def valid_rune_def)

lemma length_put:
  "valid_rune msk \<Longrightarrow> sm_Start m \<le> sm_End m \<Longrightarrow>
   int (length (put rep msk masking m)) = (if masking then (sm_End m - sm_Start m) * runeLen msk else int (length rep))"
  by (simp add: put_def runeLen_encode length_concat sum_list_replicate)

lemma maskLoop_correct:
  assumes "set ctx \<subseteq> C"
  shows "case maskLoop ctx msk i n out of Inl e \<Rightarrow> Some e \<in> C
    | Inr (out', ctx') \<Rightarrow> out' = out @ concat (replicate n (encodeRune msk)) \<and> set ctx' \<subseteq> C"
  using assms
proof (induction ctx msk i n out rule: maskLoop.induct)
  case (2 ctx msk i n out)
  define look where "look \<longleftrightarrow> i mod int scanContextStride = 0"
  define ctx' where "ctx' = (if look then tl ctx else ctx)"
  show ?case
  proof (cases "if look then ctx_now ctx else None")
    case (Some e)
    with 2(2) show ?thesis by (auto simp: look_def[symmetric] dest: ctx_now_in split: if_splits)
  next
    case None
    have "set ctx' \<subseteq> C" using 2(2) tl_sub by (auto simp: ctx'_def)
    from 2(1)[OF look_def None, folded ctx'_def, OF this] None show ?thesis
      by (auto simp: look_def[symmetric] ctx'_def[symmetric] split: sum.splits)
  qed
qed simp

lemma div_mono_room: "0 < (w :: int) \<Longrightarrow> n * w \<le> room \<Longrightarrow> n \<le> room div w"
  using zdiv_mono1[of "n * w" room w] by simp

lemma sizeLoop_correct:
  fixes rep :: gostring and masking :: bool
  assumes "placed (length text) cursor ms" and "valid_rune msk" and "set ctx \<subseteq> C" and "size0 \<le> limit"
  defines "f \<equiv> put rep msk masking"
  shows "case sizeLoop ctx rep msk masking limit ms size0 (int cursor) of
      Inl e \<Rightarrow> Some e \<in> C \<or> e = ErrOutputLimit \<and> limit < size0 + int (length (spliced f text cursor ms))
    | Inr (sz1, cursor', ctx') \<Rightarrow> set ctx' \<subseteq> C \<and>
        sz1 + (int (length text) - cursor') = size0 + int (length (spliced f text cursor ms))"
  using assms(1,3,4)
proof (induction ms arbitrary: ctx size0 cursor)
  case Nil
  then show ?case by (simp add: of_nat_diff)
next
  case (Cons m ms)
  have p: "cursor \<le> sm_ByteStart m" "sm_ByteStart m \<le> sm_ByteEnd m" "sm_Start m \<le> sm_End m" "placed (length text) (sm_ByteEnd m) ms"
    using Cons.prems(1) by simp_all
  have le: "sm_ByteEnd m \<le> length text" by (rule placed_le[OF p(4)])
  let ?size = "if masking then (sm_End m - sm_Start m) * runeLen msk else int (length rep)"
  define s1 where "s1 = size0 + (int (sm_ByteStart m) - int cursor)"
  have len: "int (length (spliced f text cursor (m # ms))) =
      (int (sm_ByteStart m) - int cursor) + ?size + int (length (spliced f text (sm_ByteEnd m) ms))"
    using p le length_put[OF assms(2) p(3), of rep masking] by (simp add: f_def of_nat_diff)
  have w: "0 < runeLen msk" using runeLen_encode[OF assms(2)] decode_encode(2)[OF assms(2)] by simp
  show ?case
  proof (cases "ctx_now ctx")
    case (Some e)
    with Cons.prems(2) show ?thesis by (auto dest: ctx_now_in)
  next
    case None
    note big = s1_def len
    consider "s1 > limit" | "s1 \<le> limit" "?size > limit - s1" | "?size \<le> limit - s1" "s1 \<le> limit" by linarith
    then show ?thesis
    proof cases
      case 1
      have "0 \<le> ?size" using p(3) w by simp
      with 1 None len show ?thesis by (simp add: s1_def Let_def)
    next
      case 2
      have "(if masking \<and> sm_End m - sm_Start m > (limit - s1) div runeLen msk then Inl ErrOutputLimit
        else if ?size > limit - s1 then Inl ErrOutputLimit else X) = Inl ErrOutputLimit" for X using 2 by simp
      with 2 None len show ?thesis by (simp add: s1_def Let_def)
    next
      case 3
      have "\<not> (masking \<and> sm_End m - sm_Start m > (limit - s1) div runeLen msk)"
        using 3(1) div_mono_room[OF w, of "sm_End m - sm_Start m" "limit - s1"] by auto
      then have "sizeLoop ctx rep msk masking limit (m # ms) size0 (int cursor) =
        sizeLoop (tl ctx) rep msk masking limit ms (s1 + ?size) (int (sm_ByteEnd m))"
        using 3 None by (cases masking) (simp_all add: s1_def Let_def not_less)
      with Cons.IH[OF p(4) tl_sub[OF Cons.prems(2)], of "s1 + ?size"] 3(1) len show ?thesis
        by (auto simp: s1_def split: sum.splits)
    qed
  qed
qed

definition written_as ::
  "acorError option set \<Rightarrow> gostring \<Rightarrow> gostring \<Rightarrow> (gostring \<times> nat \<times> acorError option list) result \<Rightarrow> bool" where
  "written_as C text whole r \<longleftrightarrow>
     (case r of Inl e \<Rightarrow> Some e \<in> C
      | Inr (out, cursor, ctx) \<Rightarrow> set ctx \<subseteq> C \<and> cursor \<le> length text \<and> out @ drop cursor text = whole)"

lemma writeLoop_correct:
  assumes "placed (length text) cursor ms" and "set ctx \<subseteq> C"
  shows "\<exists>r. writeLoop ctx text rep msk masking ms cursor out = Some r \<and>
    written_as C text (out @ spliced (put rep msk masking) text cursor ms) r"
  using assms
proof (induction ms arbitrary: ctx cursor out)
  case (Cons m ms)
  have p: "cursor \<le> sm_ByteStart m" "sm_ByteStart m \<le> sm_ByteEnd m" "placed (length text) (sm_ByteEnd m) ms"
    using Cons.prems(1) by simp_all
  have le: "sm_ByteEnd m \<le> length text" by (rule placed_le[OF p(3)])
  let ?t = "take (sm_ByteStart m - cursor) (drop cursor text)"
  have sub: "substring text cursor (sm_ByteStart m) = Some ?t" using p le by (simp add: substring_def)
  show ?case
  proof (cases masking)
    case False
    with Cons.IH[OF p(3) Cons.prems(2), of "out @ ?t @ rep"] sub show ?thesis by (simp add: put_def)
  next
    case True
    define r where "r = maskLoop ctx msk (sm_Start m) (nat (sm_End m - sm_Start m)) (out @ ?t)"
    note ml = maskLoop_correct[OF Cons.prems(2), where msk = msk and i = "sm_Start m" and n = "nat (sm_End m - sm_Start m)" and out = "out @ ?t", folded r_def]
    show ?thesis
    proof (cases r)
      case (Inl e)
      with ml sub True show ?thesis by (simp add: r_def written_as_def)
    next
      case (Inr b)
      then obtain out' ctx' where o: "r = Inr (out', ctx')" "out' = out @ ?t @ put rep msk masking m" "set ctx' \<subseteq> C"
        using ml True by (cases b) (auto simp: put_def)
      from Cons.IH[OF p(3) o(3), of out'] o sub True show ?thesis by (simp add: r_def)
    qed
  qed
qed (simp add: written_as_def)

lemma renderRewrite_correct:
  assumes "placed (length text) 0 ms" and "valid_rune msk" and "set ctx \<subseteq> C" and "0 \<le> limit"
  shows "\<exists>r. renderRewrite ctx text rep msk masking limit ms = Some r \<and>
    (case r of
       Inl e \<Rightarrow> Some e \<in> C \<or> e = ErrOutputLimit \<and> limit < int (length (spliced (put rep msk masking) text 0 ms))
     | Inr res \<Rightarrow> rr_Text res = spliced (put rep msk masking) text 0 ms \<and> rr_Matches res = ms \<and> int (length (rr_Text res)) \<le> limit)"
proof -
  define out where "out = spliced (put rep msk masking) text 0 ms"
  note sz = sizeLoop_correct[OF assms, of rep masking, folded out_def]
  show ?thesis
  proof (cases "sizeLoop ctx rep msk masking limit ms 0 0")
    case (Inl e)
    with sz show ?thesis by (simp add: renderRewrite_def out_def)
  next
    case (Inr b)
    then obtain sz1 cursor ctx1 where b: "sizeLoop ctx rep msk masking limit ms 0 0 = Inr (sz1, cursor, ctx1)" by (cases b) auto
    with sz have s: "sz1 + (int (length text) - cursor) = int (length out)" "set ctx1 \<subseteq> C" by simp_all
    show ?thesis
    proof (cases "int (length text) - cursor > limit - sz1")
      case True
      with b s show ?thesis by (simp add: renderRewrite_def out_def)
    next
      case False
      from writeLoop_correct[OF assms(1) s(2), of rep msk masking "[]", folded out_def] obtain r where
        r: "writeLoop ctx1 text rep msk masking ms 0 [] = Some r"
        "written_as C text out r"
        by auto
      show ?thesis
      proof (cases r)
        case (Inl e)
        with r b False show ?thesis by (simp add: renderRewrite_def written_as_def)
      next
        case (Inr c)
        then obtain out' cursor' ctx' where c: "r = Inr (out', cursor', ctx')" "set ctx' \<subseteq> C" "cursor' \<le> length text" "out' @ drop cursor' text = out"
          using r(2) by (cases c) (auto simp: written_as_def)
        have "substring text cursor' (length text) = Some (drop cursor' text)" using c(3) by (simp add: substring_def)
        moreover have "int (length out) \<le> limit" using s False by simp
        ultimately show ?thesis using b False r(1) c ctx_now_in[of ctx'] out_def
          by (cases "ctx_now ctx'") (auto simp: renderRewrite_def)
      qed
    qed
  qed
qed

section \<open>Masking runes\<close>

lemma runes_masks:
  assumes "valid_rune msk" and "0 < n"
  shows "runes (t @ concat (replicate n (encodeRune msk)) @ s) = runes t @ replicate n msk @ runes s"
proof -
  have m: "concat (replicate n (encodeRune msk)) = string_of (replicate n msk)" by (simp add: string_of_def map_replicate)
  obtain n' where "n = Suc n'" using assms(2) by (cases n) auto
  then have "lead (string_of (replicate n msk) @ s)"
    using encodeRune_lead[OF assms(1), of "string_of (replicate n' msk) @ s"] by (simp add: string_of_def)
  then have "runes (t @ string_of (replicate n msk) @ s) = runes t @ runes (string_of (replicate n msk) @ s)"
    by (rule runes_append_lead)
  with m assms(1) show ?thesis by (simp add: runes_string_of map_replicate)
qed

definition masked :: "rune \<Rightarrow> rune list \<Rightarrow> match list \<Rightarrow> nat \<Rightarrow> rune" where
  "masked msk rs ms i = (if \<exists>m \<in> set ms. mstart m \<le> int i \<and> int i < mend m then msk else rs ! i)"

fun apart :: "int \<Rightarrow> int \<Rightarrow> match list \<Rightarrow> bool" where
  "apart n cursor [] \<longleftrightarrow> cursor \<le> n"
| "apart n cursor (m # ms) \<longleftrightarrow> cursor \<le> mstart m \<and> mstart m < mend m \<and> apart n (mend m) ms"

lemma apart_le: "apart n cursor ms \<Longrightarrow> cursor \<le> n \<and> (\<forall>m \<in> set ms. cursor \<le> mstart m)"
  by (induction ms arbitrary: cursor) force+

lemma slice_nth: "s \<le> length xs \<Longrightarrow> take (s - c) (drop c xs) = map ((!) xs) [c..<s]"
  by (rule nth_equalityI) auto

lemma nat_match: "0 \<le> mstart m \<Longrightarrow> 0 \<le> mend m \<Longrightarrow> \<exists>k s e. m = (k, int s, int e)"
  by (cases m) (auto intro: exI[of _ "nat _"])

lemma upt_split: "c \<le> s \<Longrightarrow> s \<le> n \<Longrightarrow> [c..<n] = [c..<s] @ [s..<n]"
  using upt_add_eq_append[of c s "n - s"] by simp

lemma put_mask: "put rep msk True (source_match t (k, int s, int e)) = concat (replicate (e - s) (encodeRune msk))"
  by (simp add: put_def nat_diff_distrib')

lemma placed_source:
  "apart (int (length (runes text))) (int c) ms \<Longrightarrow> placed (length text) (byte_offsets text ! c) (map (source_match text) ms)"
proof (induction ms arbitrary: c)
  case (Cons m ms)
  have "0 \<le> mstart m" "0 \<le> mend m" using Cons.prems by auto
  from nat_match[OF this] obtain k s e where m: "m = (k, int s, int e)" by blast
  have a: "c \<le> s" "s < e" "apart (int (length (runes text))) (int e) ms" using Cons.prems m by auto
  have "e \<le> length (runes text)" using apart_le[OF a(3)] by simp
  then show ?case
    using Cons.IH[OF a(3)] a(1,2) byte_offsets_mono[of c s] byte_offsets_mono[of s e] m
    by simp
qed (simp add: byte_offsets_le)

lemma spliced_masked:
  assumes "valid_rune msk" and "apart (int (length (runes text))) (int c) ms"
  shows "runes (spliced (put rep msk True) text (byte_offsets text ! c) (map (source_match text) ms)) =
    map (masked msk (runes text) ms) [c..<length (runes text)]"
  using assms(2)
proof (induction ms arbitrary: c)
  case Nil
  then have "c \<le> length (runes text)" by simp
  from slice_runes(1)[OF this order_refl] this have "runes (drop (byte_offsets text ! c) text) = drop c (runes text)"
    by (simp add: byte_offsets_def nth_append)
  moreover have "masked msk (runes text) [] = (!) (runes text)" by (simp add: masked_def fun_eq_iff)
  ultimately show ?case using slice_nth[of "length (runes text)" "runes text" c] by simp
next
  case (Cons m ms)
  have "0 \<le> mstart m" "0 \<le> mend m" using Cons.prems by auto
  from nat_match[OF this] obtain k s e where m: "m = (k, int s, int e)" by blast
  let ?rs = "runes text"
  have a: "c \<le> s" "s < e" "apart (int (length ?rs)) (int e) ms" using Cons.prems m by auto
  have e: "e \<le> length ?rs" "\<forall>m \<in> set ms. int e \<le> mstart m" using apart_le[OF a(3)] by simp_all
  have "runes (spliced (put rep msk True) text (byte_offsets text ! c) (map (source_match text) (m # ms))) =
      runes (take (byte_offsets text ! s - byte_offsets text ! c) (drop (byte_offsets text ! c) text)) @ replicate (e - s) msk @
      map (masked msk ?rs ms) [e..<length ?rs]"
    using runes_masks[OF assms(1), of "e - s"] a Cons.IH[OF a(3)] by (simp add: m put_mask)
  also have "runes (take (byte_offsets text ! s - byte_offsets text ! c) (drop (byte_offsets text ! c) text)) = map ((!) ?rs) [c..<s]"
    using slice_runes(1)[of c s] a e by (simp add: slice_nth)
  also have "map ((!) ?rs) [c..<s] = map (masked msk ?rs (m # ms)) [c..<s]"
    using e(2) a(2) by (fastforce simp: masked_def m)
  also have "replicate (e - s) msk = map (masked msk ?rs (m # ms)) [s..<e]"
    by (rule nth_equalityI) (auto simp: masked_def m)
  also have "map (masked msk ?rs ms) [e..<length ?rs] = map (masked msk ?rs (m # ms)) [e..<length ?rs]"
    by (auto simp: masked_def m)
  finally show ?case using a e upt_split[of c s "length ?rs"] upt_split[of s e "length ?rs"] by simp
qed

section \<open>Properties\<close>

lemma apart_sorted:
  "sorted_wrt (\<lambda>a b. mend a \<le> mstart b) ms \<Longrightarrow> c \<le> n \<Longrightarrow>
   \<forall>m \<in> set ms. c \<le> mstart m \<and> mstart m < mend m \<and> mend m \<le> n \<Longrightarrow> apart n c ms"
  by (induction ms arbitrary: c) auto

definition rewrite_scan :: "RewriteOptions \<Rightarrow> ScanOptions" where
  "rewrite_scan o0 = \<lparr>so_MaxInputBytes = ro_MaxInputBytes o0, so_MaxMatches = ro_MaxMatches o0, so_MaxCandidates = ro_MaxCandidates o0,
     so_Kind = MatchKindLeftmostLongest, so_WholeWord = ro_WholeWord o0, so_WordRune = ro_WordRune o0\<rparr>"

definition rewrite_limit :: "RewriteOptions \<Rightarrow> int" where
  "rewrite_limit o0 = (if ro_MaxOutputBytes o0 = 0 then defaultRewriteBytes else ro_MaxOutputBytes o0)"

text \<open>What a rewrite returns, when the scan it starts with is to find \<open>job_found\<close>.\<close>

definition rewrite_outcome :: "scan_job \<Rightarrow> (SourceMatch \<Rightarrow> gostring) \<Rightarrow> int \<Rightarrow> RewriteResult result \<Rightarrow> bool" where
  "rewrite_outcome J f limit r \<longleftrightarrow>
     (let ms = map (source_match (sj_text J)) (job_found J); out = spliced f (sj_text J) 0 ms in
      case r of
        Inl e \<Rightarrow> Some e \<in> sj_ctx J \<or> e = ErrScanWorkLimit \<and> so_MaxCandidates (sj_opts J) < int (length (job_occ J)) \<or>
          e = ErrMatchLimit \<and> so_MaxMatches (sj_opts J) < int (length (job_found J)) \<or> e = ErrOutputLimit \<and> limit < int (length out)
      | Inr res \<Rightarrow> rr_Text res = out \<and> rr_Matches res = ms \<and> int (length (job_found J)) \<le> so_MaxMatches (sj_opts J) \<and>
          int (length out) \<le> limit)"

lemma scan_kind: "scanOptions u c text (Some (rewrite_scan o0)) = Inr o1 \<Longrightarrow> so_Kind o1 = MatchKindLeftmostLongest"
  by (auto simp: scanOptions_def rewrite_scan_def Let_def split: option.splits if_splits)

lemma found_apart:
  assumes "so_Kind (sj_opts J) = MatchKindLeftmostLongest"
  shows "apart (int (length (runes (sj_text J)))) 0 (job_found J)"
proof -
  have sel: "selection (set (job_elig J)) (job_found J)"
    using leftmostLongest_selection[OF elig_spans[of J]] assms by (simp add: job_found_def)
  have "set (job_found J) \<subseteq> set (job_occ J)" using sel unfolding selection_def by auto
  then have "0 \<le> mstart m \<and> mstart m < mend m \<and> mend m \<le> int (length (runes (sj_text J)))" if "m \<in> set (job_found J)" for m
    using bspec[OF occurrences_spans subsetD[OF _ that], of "sj_dict J" "job_runes J"] by simp
  then show ?thesis using sel by (intro apart_sorted) (auto simp: selection_def simp del: split_paired_All)
qed

lemma rewrite_job:
  fixes cs :: bool
  assumes env: "env_ok env" "keyword_set ks" "Engine_Build env (Engine_New preset) ks = Some eng"
    and o1: "scanOptions u (ctx_now ctx) text (Some (rewrite_scan o0)) = Inr o1" and pos: "0 \<le> ro_MaxOutputBytes o0" and mv: "valid_rune msk"
  defines "J \<equiv> \<lparr>sj_unicode = u, sj_text = text, sj_sensitive = cs, sj_opts = o1, sj_dict = dict_of ks,
    sj_longest = int (en_maxKeywordRunes eng), sj_ctx = set ctx\<rparr>"
  shows "\<exists>r. rewrite u cs (Inr eng) ctx text rep msk masking (Some o0) = Some r \<and> rewrite_outcome J (put rep msk masking) (rewrite_limit o0) r"
proof -
  from Scan_job[OF env o1, of cs, folded J_def] obtain sr where
    s: "Scan u cs (Inr eng) ctx text (Some (rewrite_scan o0)) = Some sr" "scan_outcome J sr" by blast
  have J: "sj_text J = text" "so_Kind (sj_opts J) = MatchKindLeftmostLongest" "sj_ctx J = set ctx"
    using scan_kind[OF o1] by (simp_all add: J_def)
  have eq: "rewrite u cs (Inr eng) ctx text rep msk masking (Some o0) =
    (case sr of Inl err \<Rightarrow> Some (Inl err)
     | Inr (res, ctx1) \<Rightarrow> if sr_Truncated res then Some (Inl ErrMatchLimit)
         else renderRewrite ctx1 text rep msk masking (rewrite_limit o0) (sr_Matches res))"
    using s(1) pos unfolding rewrite_def Let_def option.case rewrite_limit_def[symmetric] rewrite_scan_def[symmetric] by simp
  show ?thesis
  proof (cases sr)
    case (Inl e)
    with s eq show ?thesis by (auto simp: scan_outcome_def rewrite_outcome_def)
  next
    case (Inr b)
    then obtain res ctx1 where b: "sr = Inr (res, ctx1)" by (cases b) auto
    with s(2) have res: "sr_Matches res = map (source_match text) (take (nat (so_MaxMatches o1)) (job_found J))"
      "sr_Truncated res \<longleftrightarrow> so_MaxMatches o1 < int (length (job_found J))" "set ctx1 \<subseteq> set ctx"
      by (auto simp: scan_outcome_def J_def)
    have o1': "sj_opts J = o1" by (simp add: J_def)
    show ?thesis
    proof (cases "sr_Truncated res")
      case True
      with eq b res(2) o1' show ?thesis by (simp add: rewrite_outcome_def Let_def)
    next
      case False
      then have le: "int (length (job_found J)) \<le> so_MaxMatches o1" using res(2) by simp
      then have ms: "sr_Matches res = map (source_match text) (job_found J)" using res(1) by simp
      have "placed (length text) (byte_offsets text ! 0) (map (source_match text) (job_found J))"
        by (rule placed_source) (use found_apart[OF J(2)] J(1) in simp)
      moreover have "byte_offsets text ! 0 = 0" using nth_byte_offsets[of 0 "text"] by simp
      moreover have "0 \<le> rewrite_limit o0" using pos by (simp add: rewrite_limit_def defaultRewriteBytes_def)
      ultimately obtain r where r: "renderRewrite ctx1 text rep msk masking (rewrite_limit o0) (sr_Matches res) = Some r"
        "case r of
           Inl e \<Rightarrow> Some e \<in> set ctx \<or> e = ErrOutputLimit \<and>
             rewrite_limit o0 < int (length (spliced (put rep msk masking) text 0 (sr_Matches res)))
         | Inr rw \<Rightarrow> rr_Text rw = spliced (put rep msk masking) text 0 (sr_Matches res) \<and> rr_Matches rw = sr_Matches res \<and>
             int (length (rr_Text rw)) \<le> rewrite_limit o0"
        using renderRewrite_correct[OF _ mv res(3), of "text" "sr_Matches res" "rewrite_limit o0" rep masking] ms by auto
      have "rewrite_outcome J (put rep msk masking) (rewrite_limit o0) r"
        using r(2) le ms o1' J by (cases r) (auto simp: rewrite_outcome_def Let_def)
      with eq b False r(1) show ?thesis by simp
    qed
  qed
qed

text \<open>
  C15.  ReplaceText is all or nothing.  On a built engine, with options that pass
  validation, it returns either the text in which every leftmost-longest match
  that FindMatches finds is replaced and everything between is untouched,
  within the output limit, with all the matches, or an error and
  no text: of the context, or of a limit that really is exceeded.
\<close>

theorem ReplaceText_correct:
  assumes "env_ok env" and "keyword_set ks" and "Engine_Build env (Engine_New preset) ks = Some eng" and "unicode_ok u"
    and "scanOptions u (ctx_now ctx) text (Some (rewrite_scan o0)) = Inr o1" and "0 \<le> ro_MaxOutputBytes o0"
  shows "\<exists>r found ms out. ReplaceText u cs (Inr eng) ctx text replacement (Some o0) = Some r \<and>
    findMatches u cs (Inr eng) None None text (Some (match_options o1)) = Some (Inr found) \<and>
    ms = map (source_match text) found \<and> out = spliced (\<lambda>_. replacement) text 0 ms \<and>
    (case r of
       Inl e \<Rightarrow> Some e \<in> set ctx \<or>
         e = ErrScanWorkLimit \<and> so_MaxCandidates o1 < int (length (occurrences (dict_of ks) (map (fold_rune u cs) (runes text)))) \<or>
         e = ErrMatchLimit \<and> so_MaxMatches o1 < int (length found) \<or> e = ErrOutputLimit \<and> rewrite_limit o0 < int (length out)
     | Inr res \<Rightarrow> rr_Text res = out \<and> rr_Matches res = ms \<and> int (length found) \<le> so_MaxMatches o1 \<and> int (length out) \<le> rewrite_limit o0)"
proof -
  define J where "J = \<lparr>sj_unicode = u, sj_text = text, sj_sensitive = cs, sj_opts = o1, sj_dict = dict_of ks,
    sj_longest = int (en_maxKeywordRunes eng), sj_ctx = set ctx\<rparr>"
  have put: "put replacement 0 False = (\<lambda>_. replacement)" by (simp add: put_def fun_eq_iff)
  have v: "valid_rune 0" by (simp add: valid_rune_def)
  from rewrite_job[OF assms(1-3,5,6) v, of cs replacement False, folded J_def, unfolded put] obtain r where
    r: "ReplaceText u cs (Inr eng) ctx text replacement (Some o0) = Some r"
    "rewrite_outcome J (\<lambda>_. replacement) (rewrite_limit o0) r"
    unfolding ReplaceText_def by blast
  have f: "findMatches u cs (Inr eng) None None text (Some (match_options o1)) = Some (Inr (job_found J))"
    using findMatches_found[OF engine_built_holds(1)[OF assms(1-3)] assms(4), of J] by (simp add: J_def)
  have j: "sj_text J = text" "sj_opts J = o1" "sj_ctx J = set ctx" "sj_dict J = dict_of ks" "sj_unicode J = u" "sj_sensitive J = cs"
    by (simp_all add: J_def)
  show ?thesis using r f unfolding rewrite_outcome_def Let_def j by blast
qed

theorem ReplaceText_correct_witness:
  "\<exists>eng res. Engine_Build env_example (Engine_New PresetSpeed) [''he'', ''hers'', ''she''] = Some eng \<and>
     ReplaceText ascii_unicode False (Inr eng) [] ''USHERS, he'' ''*'' (Some zeroRewriteOptions) = Some (Inr res) \<and>
     rr_Text res = ''U*RS, *''"
proof -
  let ?ks = "[''he'', ''hers'', ''she'']" and ?t = "''USHERS, he''"
  from engine_build_correct[OF env_example_ok keyword_set_example(1), of PresetSpeed] obtain eng
    where b: "Engine_Build env_example (Engine_New PresetSpeed) ?ks = Some eng" by blast
  define O1 where "O1 = (rewrite_scan zeroRewriteOptions)\<lparr>so_MaxInputBytes := 2 ^ 20, so_MaxMatches := 1000, so_MaxCandidates := 100000,
    so_WordRune := Some (isWordRune ascii_unicode)\<rparr>"
  have o: "scanOptions ascii_unicode (ctx_now []) ?t (Some (rewrite_scan zeroRewriteOptions)) = Inr O1"
    by (simp add: O1_def scanOptions_def ctx_now_def rewrite_scan_def zeroRewriteOptions_def defaultScanInputBytes_def
        defaultScanCandidates_def defaultScanMatches_def)
  have occ: "occurrences (dict_of ?ks) (map (fold_rune ascii_unicode False) (runes ?t)) =
      [(''she'', 1, 4), (''he'', 2, 4), (''hers'', 2, 6), (''he'', 8, 10)]" by code_simp
  have ll: "leftmostLongest [(''she'', 1, 4), (''he'', 2, 4), (''hers'', 2, 6), (''he'', 8, 10)] = [(''she'', 1, 4), (''he'', 8, 10)]"
    by code_simp
  have sp: "spliced (\<lambda>_. ''*'') ?t 0 (map (source_match ?t) [(''she'', 1, 4), (''he'', 8, 10)]) = ''U*RS, *''" by code_simp
  have lim: "so_MaxCandidates O1 = 100000" "so_MaxMatches O1 = 1000" "0 \<le> ro_MaxOutputBytes zeroRewriteOptions"
    "rewrite_limit zeroRewriteOptions = 4194304"
    by (simp_all add: O1_def zeroRewriteOptions_def rewrite_limit_def defaultRewriteBytes_def)
  have f: "findMatches ascii_unicode False (Inr eng) None None ?t (Some (match_options O1)) = Some (Inr [(''she'', 1, 4), (''he'', 8, 10)])"
    using findMatches_options[OF engine_built_holds(1)[OF env_example_ok keyword_set_example(1) b] ascii_unicode_ok _ refl, of ?t False None "match_options O1"]
    by (simp add: O1_def match_options_def rewrite_scan_def zeroRewriteOptions_def eligible_def occ ll)
  from ReplaceText_correct[OF env_example_ok keyword_set_example(1) b ascii_unicode_ok o lim(3), of False "''*''"] obtain r found where
    r: "ReplaceText ascii_unicode False (Inr eng) [] ?t ''*'' (Some zeroRewriteOptions) = Some r" and
    fd: "Some (Inr [(''she'', 1, 4), (''he'', 8, 10)]) = Some (Inr found :: match list result)" and
    c: "case r of Inl e \<Rightarrow> Some e \<in> set [] \<or> e = ErrScanWorkLimit \<and>
          100000 < int (length [(''she'', 1 :: int, 4 :: int), (''he'', 2, 4), (''hers'', 2, 6), (''he'', 8, 10)]) \<or>
          e = ErrMatchLimit \<and> 1000 < int (length found) \<or>
          e = ErrOutputLimit \<and> 4194304 < int (length (spliced (\<lambda>_. ''*'') ?t 0 (map (source_match ?t) found)))
        | Inr res \<Rightarrow> rr_Text res = spliced (\<lambda>_. ''*'') ?t 0 (map (source_match ?t) found) \<and>
          rr_Matches res = map (source_match ?t) found \<and> int (length found) \<le> 1000 \<and>
          int (length (spliced (\<lambda>_. ''*'') ?t 0 (map (source_match ?t) found))) \<le> 4194304"
    unfolding occ f lim by blast
  have fd': "found = [(''she'', 1, 4), (''he'', 8, 10)]" using fd by simp
  obtain res where "r = Inr res" "rr_Text res = ''U*RS, *''" using c unfolding fd' sp by (cases r) simp_all
  with r b show ?thesis by blast
qed

text \<open>
  C16.  MaskText keeps the rune count: in its result every rune inside one of the
  reported matches is the mask and every other rune is the one the input has at
  that position, also when the input holds invalid bytes; and the result is
  within the output limit.
\<close>

theorem MaskText_runes:
  assumes "env_ok env" and "keyword_set ks" and "Engine_Build env (Engine_New preset) ks = Some eng"
    and "MaskText u cs (Inr eng) ctx text msk (Some o0) = Some (Inr res)"
  shows "runes (rr_Text res) =
      map (\<lambda>i. if \<exists>m \<in> set (rr_Matches res). sm_Start m \<le> int i \<and> int i < sm_End m then msk else runes text ! i) [0..<length (runes text)] \<and>
    int (length (rr_Text res)) \<le> rewrite_limit o0"
proof -
  have v: "valid_rune msk" and rw: "rewrite u cs (Inr eng) ctx text [] msk True (Some o0) = Some (Inr res)"
    using assms(4) by (auto simp: MaskText_def split: if_splits)
  have pos: "0 \<le> ro_MaxOutputBytes o0" using rw by (auto simp: rewrite_def split: if_splits)
  have "scanOptions u (ctx_now ctx) text (Some (rewrite_scan o0)) \<noteq> Inl e" for e
    using rw pos unfolding rewrite_def Let_def option.case rewrite_scan_def[symmetric] by (auto simp: Scan_def)
  then obtain o1 where o1: "scanOptions u (ctx_now ctx) text (Some (rewrite_scan o0)) = Inr o1"
    by (cases "scanOptions u (ctx_now ctx) text (Some (rewrite_scan o0))") auto
  define J where "J = \<lparr>sj_unicode = u, sj_text = text, sj_sensitive = cs, sj_opts = o1, sj_dict = dict_of ks,
    sj_longest = int (en_maxKeywordRunes eng), sj_ctx = set ctx\<rparr>"
  from rewrite_job[OF assms(1-3) o1 pos v, of cs "[]" True, folded J_def] rw
  have "rewrite_outcome J (put [] msk True) (rewrite_limit o0) (Inr res)" by simp
  then have out: "rr_Text res = spliced (put [] msk True) text 0 (map (source_match text) (job_found J))"
    "rr_Matches res = map (source_match text) (job_found J)" "int (length (rr_Text res)) \<le> rewrite_limit o0"
    by (simp_all add: rewrite_outcome_def Let_def J_def)
  have "apart (int (length (runes text))) (int 0) (job_found J)"
    using found_apart[of J] scan_kind[OF o1] by (simp add: J_def)
  from spliced_masked[OF v this, of "[]"] nth_byte_offsets[of 0 "text"] out(1)
  have "runes (rr_Text res) = map (masked msk (runes text) (job_found J)) [0..<length (runes text)]" by simp
  also have "masked msk (runes text) (job_found J) =
    (\<lambda>i. if \<exists>m \<in> set (rr_Matches res). sm_Start m \<le> int i \<and> int i < sm_End m then msk else runes text ! i)"
    unfolding out(2) masked_def set_map bex_simps(7) source_match_span by (rule refl)
  finally show ?thesis using out(3) by blast
qed

theorem MaskText_runes_witness:
  "\<exists>eng res. Engine_Build env_example (Engine_New PresetSpeed) [''he'', ''hers'', ''she''] = Some eng \<and>
     MaskText ascii_unicode False (Inr eng) [] ''USHERS, he'' 42 (Some zeroRewriteOptions) = Some (Inr res) \<and>
     length (runes (rr_Text res)) = 10"
proof -
  let ?ks = "[''he'', ''hers'', ''she'']" and ?t = "''USHERS, he''"
  from engine_build_correct[OF env_example_ok keyword_set_example(1), of PresetSpeed] obtain eng
    where b: "Engine_Build env_example (Engine_New PresetSpeed) ?ks = Some eng" by blast
  define O1 where "O1 = (rewrite_scan zeroRewriteOptions)\<lparr>so_MaxInputBytes := 2 ^ 20, so_MaxMatches := 1000, so_MaxCandidates := 100000,
    so_WordRune := Some (isWordRune ascii_unicode)\<rparr>"
  have o: "scanOptions ascii_unicode (ctx_now []) ?t (Some (rewrite_scan zeroRewriteOptions)) = Inr O1"
    by (simp add: O1_def scanOptions_def ctx_now_def rewrite_scan_def zeroRewriteOptions_def defaultScanInputBytes_def
        defaultScanCandidates_def defaultScanMatches_def)
  let ?J = "\<lparr>sj_unicode = ascii_unicode, sj_text = ?t, sj_sensitive = False, sj_opts = O1, sj_dict = dict_of ?ks,
    sj_longest = int (en_maxKeywordRunes eng), sj_ctx = set []\<rparr>"
  have occ: "occurrences (dict_of ?ks) (map (fold_rune ascii_unicode False) (runes ?t)) =
      [(''she'', 1, 4), (''he'', 2, 4), (''hers'', 2, 6), (''he'', 8, 10)]" by code_simp
  have ll: "leftmostLongest [(''she'', 1, 4), (''he'', 2, 4), (''hers'', 2, 6), (''he'', 8, 10)] = [(''she'', 1, 4), (''he'', 8, 10)]"
    by code_simp
  have fd: "job_found ?J = [(''she'', 1, 4), (''he'', 8, 10)]"
    by (simp add: job_found_def occ ll O1_def rewrite_scan_def zeroRewriteOptions_def wanted_def)
  have len: "length (spliced (put [] 42 True) ?t 0 (map (source_match ?t) [(''she'', 1, 4), (''he'', 8, 10)])) = 10" by code_simp
  have v: "valid_rune 42" by (simp add: valid_rune_def)
  have pos: "0 \<le> ro_MaxOutputBytes zeroRewriteOptions" by (simp add: zeroRewriteOptions_def)
  from rewrite_job[OF env_example_ok keyword_set_example(1) b o pos v, of False "[]" True] obtain r where
    r: "rewrite ascii_unicode False (Inr eng) [] ?t [] 42 True (Some zeroRewriteOptions) = Some r"
    "rewrite_outcome ?J (put [] 42 True) (rewrite_limit zeroRewriteOptions) r" by blast
  have "\<exists>res. r = Inr res"
    using r(2) unfolding rewrite_outcome_def Let_def fd
    by (cases r) (simp_all add: occ len O1_def rewrite_limit_def zeroRewriteOptions_def defaultRewriteBytes_def del: list.map)
  with r(1) v obtain res where res: "MaskText ascii_unicode False (Inr eng) [] ?t 42 (Some zeroRewriteOptions) = Some (Inr res)"
    by (auto simp: MaskText_def)
  have "length (runes ?t) = 10" by code_simp
  with MaskText_runes[OF env_example_ok keyword_set_example(1) b res] have "length (runes (rr_Text res)) = 10" by simp
  with b res show ?thesis by blast
qed

end
