(* ===== verification/Decimal.thy ===== *)
theory Decimal
  imports Utf8
begin

text \<open>
  Decimal integers as the standard library writes and reads them: \<^verbatim>\<open>strconv\<close> and
  the JSON numbers of \<^verbatim>\<open>encoding/json\<close> decoded into an \<^verbatim>\<open>int64\<close>.
\<close>

definition digit :: "nat \<Rightarrow> char" where "digit n = chr (48 + int n)"

definition is_digit :: "char \<Rightarrow> bool" where "is_digit c \<longleftrightarrow> 48 \<le> byte c \<and> byte c \<le> 57"

definition digit_val :: "char \<Rightarrow> nat" where "digit_val c = nat (byte c - 48)"

fun digits :: "nat \<Rightarrow> gostring" where
  "digits n = (if n < 10 then [digit n] else digits (n div 10) @ [digit (n mod 10)])"

declare digits.simps [simp del]

definition itoa :: "int \<Rightarrow> gostring" where
  "itoa n = (if n < 0 then CHR ''-'' # digits (nat (- n)) else digits (nat n))"

definition parse_digits :: "gostring \<Rightarrow> nat option" where
  "parse_digits s =
     (if s = [] \<or> (\<exists>c \<in> set s. \<not> is_digit c) then None else Some (foldl (\<lambda>n c. n * 10 + digit_val c) 0 s))"

definition int64_range :: "int \<Rightarrow> bool" where
  "int64_range n \<longleftrightarrow> - (2 ^ 63) \<le> n \<and> n < 2 ^ 63"

text \<open>\<^verbatim>\<open>strconv.ParseInt(s, 10, 64)\<close>.\<close>

definition parseInt :: "gostring \<Rightarrow> int option" where
  "parseInt s =
     (case s of
        [] \<Rightarrow> None
      | c # cs \<Rightarrow>
          (case (if c = CHR ''-'' then map_option (\<lambda>n. - int n) (parse_digits cs)
                 else if c = CHR ''+'' then map_option int (parse_digits cs)
                 else map_option int (parse_digits s)) of
             Some n \<Rightarrow> if int64_range n then Some n else None
           | None \<Rightarrow> None))"

text \<open>A JSON integer: surrounding white space, no plus sign and no leading zero.\<close>

definition json_space :: "char \<Rightarrow> bool" where
  "json_space c \<longleftrightarrow> byte c \<in> {32, 9, 10, 13}"

definition json_trim :: "gostring \<Rightarrow> gostring" where
  "json_trim s = rev (dropWhile json_space (rev (dropWhile json_space s)))"

definition leading_zero :: "gostring \<Rightarrow> bool" where
  "leading_zero s \<longleftrightarrow> (case s of c # _ # _ \<Rightarrow> byte c = 48 | _ \<Rightarrow> False)"

definition json_int :: "gostring \<Rightarrow> int option" where
  "json_int s =
     (let t = json_trim s; ds = (case t of c # cs \<Rightarrow> if c = CHR ''-'' then cs else t | [] \<Rightarrow> []) in
      if leading_zero ds \<or> (case t of c # _ \<Rightarrow> c = CHR ''+'' | [] \<Rightarrow> False) then None else parseInt t)"

section \<open>Reading back\<close>

lemma byte_digit: "n < 10 \<Longrightarrow> byte (digit n) = 48 + int n"
  by (simp add: digit_def byte_chr)

lemma digit_props: "n < 10 \<Longrightarrow> is_digit (digit n)" "n < 10 \<Longrightarrow> digit_val (digit n) = n"
  by (simp_all add: is_digit_def digit_val_def byte_digit)

lemma digits_digits: "c \<in> set (digits n) \<Longrightarrow> is_digit c"
proof (induction n rule: digits.induct)
  case (1 n)
  show ?case
  proof (cases "n < 10")
    case True
    then have "digits n = [digit n]" by (simp add: digits.simps[of n])
    with 1 True show ?thesis by (simp add: digit_props)
  next
    case False
    then have "digits n = digits (n div 10) @ [digit (n mod 10)]" by (simp add: digits.simps[of n])
    with 1 False show ?thesis by (auto simp: digit_props)
  qed
qed

lemma foldl_digits: "foldl (\<lambda>n c. n * 10 + digit_val c) 0 (digits n) = n"
proof (induction n rule: digits.induct)
  case (1 n)
  show ?case
  proof (cases "n < 10")
    case True
    then have "digits n = [digit n]" by (simp add: digits.simps[of n])
    with True show ?thesis by (simp add: digit_props)
  next
    case False
    then have "digits n = digits (n div 10) @ [digit (n mod 10)]" by (simp add: digits.simps[of n])
    with 1 False show ?thesis by (simp add: digit_props)
  qed
qed

lemma digits_ne [simp]: "digits n \<noteq> []"
  by (subst digits.simps) simp

lemma parse_digits_digits [simp]: "parse_digits (digits n) = Some n"
  using digits_digits[of _ n] by (auto simp: parse_digits_def foldl_digits)

lemma digits_hd: "hd (digits n) = digit 0 \<longleftrightarrow> n = 0"
proof (induction n rule: digits.induct)
  case (1 n)
  show ?case
  proof (cases "n < 10")
    case True
    have "digit n = digit 0 \<longleftrightarrow> n = 0" using True digit_props(2)[of n] digit_props(2)[of 0] by auto
    with True show ?thesis by (simp add: digits.simps[of n])
  next
    case False
    then have "hd (digits n) = hd (digits (n div 10))" by (simp add: digits.simps[of n])
    with 1 False show ?thesis by simp
  qed
qed

lemma digit_not: "is_digit c \<Longrightarrow> c \<noteq> CHR ''-'' \<and> c \<noteq> CHR ''+'' \<and> \<not> json_space c"
  by (auto simp: is_digit_def json_space_def byte_def)

lemma digits_Cons: "\<exists>c cs. digits n = c # cs \<and> is_digit c"
  using digits_digits[of _ n] by (cases "digits n") auto

lemma parseInt_itoa: "int64_range n \<Longrightarrow> parseInt (itoa n) = Some n"
proof -
  assume r: "int64_range n"
  obtain c cs where c: "digits (nat n) = c # cs" "is_digit c" using digits_Cons by blast
  show ?thesis
  proof (cases "n < 0")
    case True
    with r show ?thesis by (simp add: parseInt_def itoa_def)
  next
    case False
    then have i: "itoa n = c # cs" using c(1) by (simp add: itoa_def)
    have "parse_digits (c # cs) = Some (nat n)" using c(1) parse_digits_digits[of "nat n"] by simp
    with r False digit_not[OF c(2)] show ?thesis by (simp add: parseInt_def i)
  qed
qed

lemma itoa_trim: "json_trim (itoa n) = itoa n"
proof -
  have sp: "\<not> json_space c" if "c \<in> set (itoa n)" for c
    using that digits_digits digit_not by (auto simp: itoa_def json_space_def byte_def split: if_splits)
  have dw: "dropWhile json_space xs = xs" if "\<forall>c \<in> set xs. \<not> json_space c" for xs using that by (cases xs) auto
  have "dropWhile json_space (itoa n) = itoa n" "dropWhile json_space (rev (itoa n)) = rev (itoa n)" using sp by (intro dw; simp)+
  then show ?thesis by (simp add: json_trim_def)
qed

lemma digits_leading: "\<not> leading_zero (digits n)"
proof
  assume "leading_zero (digits n)"
  then obtain c d cs where c: "digits n = c # d # cs" "byte c = 48" by (auto simp: leading_zero_def split: list.splits)
  have "c = digit 0" using c(2) byte_digit[of 0] by (simp flip: byte_inj)
  with c(1) digits_hd[of n] have "n = 0" by simp
  with c(1) show False by (simp add: digits.simps[of 0])
qed

lemma json_int_itoa: "int64_range n \<Longrightarrow> json_int (itoa n) = Some n"
proof -
  assume r: "int64_range n"
  obtain c cs where c: "digits (nat n) = c # cs" "is_digit c" using digits_Cons by blast
  note p = parseInt_itoa[OF r]
  show ?thesis
  proof (cases "n < 0")
    case True
    then have i: "itoa n = CHR ''-'' # digits (nat (- n))" by (simp add: itoa_def)
    show ?thesis using p digits_leading[of "nat (- n)"] unfolding json_int_def itoa_trim Let_def unfolding i by simp
  next
    case False
    then have i: "itoa n = c # cs" using c(1) by (simp add: itoa_def)
    show ?thesis
      using p digit_not[OF c(2)] digits_leading[of "nat n"] c(1) unfolding json_int_def itoa_trim Let_def unfolding i by simp
  qed
qed

end
