(* ===== verification/Versions.thy ===== *)
theory Versions
  imports Decimal Acor_Errors "HOL-Library.Word"
begin

text \<open>
  The version stamps of \<^verbatim>\<open>pkg/acor/v2_transaction.go\<close>: two random bytes and the clock,
  packed into 64 bits.  \<open>random\<close> is what reading the random source gave, \<open>nanos\<close>
  the time in nanoseconds.
\<close>

unbundle bit_operations_syntax

definition versionTimestampMask :: "64 word" where
  "versionTimestampMask = 0xFFFFFFFFFFFF"

definition packVersion :: "8 word \<Rightarrow> 8 word \<Rightarrow> int \<Rightarrow> 64 word" where
  "packVersion b0 b1 nanos =
     (push_bit 56 (ucast b0) OR push_bit 48 (ucast b1)) OR (word_of_int nanos AND versionTimestampMask)"

definition generateVersion :: "(8 word \<times> 8 word) result \<Rightarrow> int \<Rightarrow> int result" where
  "generateVersion random nanos =
     (case random of
        Inl err \<Rightarrow> Inl (Wrapped ''generateVersion: crypto/rand.Read failed'' err)
      | Inr (b0, b1) \<Rightarrow> Inr (sint (packVersion b0 b1 nanos)))"

lemma versionTimestampMask_mask: "versionTimestampMask = mask 48"
  by (simp add: versionTimestampMask_def mask_eq_exp_minus_1)

lemma packVersion_bits:
  "ucast (drop_bit 56 (packVersion b0 b1 nanos)) = b0"
  "ucast (drop_bit 48 (packVersion b0 b1 nanos)) = b1"
  "take_bit 48 (packVersion b0 b1 nanos) = take_bit 48 (word_of_int nanos)"
  unfolding packVersion_def versionTimestampMask_mask take_bit_eq_mask[symmetric]
  by (rule bit_word_eqI; auto simp: bit_simps dest: bit_imp_le_length)+

text \<open>
  C32.  Two stamps are equal exactly when the random bytes are and the times agree
  modulo \<open>2\<^sup>4\<^sup>8\<close> nanoseconds, which is 281474976710656, less than four days: the
  time field repeats after that, not after years.  A stamp fits in 64 bits.
\<close>

theorem generateVersion_eq_iff:
  "(generateVersion (Inr (a0, a1)) t = generateVersion (Inr (b0, b1)) t' \<longleftrightarrow>
      a0 = b0 \<and> a1 = b1 \<and> t mod 2 ^ 48 = t' mod 2 ^ 48) \<and>
   (\<exists>v. generateVersion (Inr (a0, a1)) t = Inr v \<and> int64_range v) \<and>
   generateVersion (Inr (a0, a1)) (t + 281474976710656) = generateVersion (Inr (a0, a1)) t \<and>
   (281474976710656 :: int) < 4 * 24 * 3600 * 10 ^ 9"
proof -
  have tb: "take_bit 48 (word_of_int x :: 64 word) = word_of_int (take_bit 48 x)" for x
    by (rule bit_word_eqI) (auto simp: bit_simps)
  have inj: "(word_of_int (take_bit 48 x) :: 64 word) = word_of_int (take_bit 48 y) \<longleftrightarrow> x mod 2 ^ 48 = y mod 2 ^ 48" for x y
  proof -
    have "take_bit 64 (take_bit 48 z) = take_bit 48 z" for z :: int by simp
    then show ?thesis unfolding word_of_int_eq_iff by (simp add: take_bit_eq_mod)
  qed
  have eq: "packVersion a0 a1 t = packVersion b0 b1 t' \<longleftrightarrow> a0 = b0 \<and> a1 = b1 \<and> t mod 2 ^ 48 = t' mod 2 ^ 48" for a0 a1 b0 b1 t t'
  proof
    assume "packVersion a0 a1 t = packVersion b0 b1 t'"
    then show "a0 = b0 \<and> a1 = b1 \<and> t mod 2 ^ 48 = t' mod 2 ^ 48"
      using packVersion_bits[of a0 a1 t] packVersion_bits[of b0 b1 t'] inj[of t t'] tb by metis
  next
    assume "a0 = b0 \<and> a1 = b1 \<and> t mod 2 ^ 48 = t' mod 2 ^ 48"
    then show "packVersion a0 a1 t = packVersion b0 b1 t'"
      using inj[of t t'] by (simp add: packVersion_def versionTimestampMask_mask take_bit_eq_mask[symmetric] tb)
  qed
  have "int64_range (sint w)" for w :: "64 word" using sint_range_size[of w] by (simp add: int64_range_def word_size)
  moreover have "sint v = sint w \<longleftrightarrow> v = w" for v w :: "64 word" by (auto intro: word_eq_iff_signed[THEN iffD2])
  moreover have "packVersion a0 a1 (t + 281474976710656) = packVersion a0 a1 t" by (simp add: eq)
  ultimately show ?thesis by (simp add: generateVersion_def eq)
qed

end
