(* ===== verification/V2_Plan.thy ===== *)
theory V2_Plan
  imports Rune_Offsets "HOL-Library.AList" "HOL-Library.Sublist"
begin

text \<open>
  \<^verbatim>\<open>pkg/acor/v2_plan.go\<close>: the pure half of a write.  Given the stored snapshot of a
  collection and keywords to add or remove, it computes the new snapshot and
  the output lists to write.  The lemmas show that a plan keeps the snapshot
  well-formed (the prefixes are exactly those of the keywords) and the output
  lists right (each state lists the keywords that are suffixes of it).
\<close>

record trieSnapshot =
  ts_Keywords :: "gostring list"
  ts_Prefixes :: "gostring list"
  ts_Version :: int

text \<open>A map from states to output lists, in the order of its first writes.\<close>

type_synonym state_outputs = "(gostring \<times> gostring list) list"

section \<open>Planning\<close>

text \<open>\<^verbatim>\<open>for byteOff := range s\<close>, without the offset 0.\<close>

definition inner_offsets :: "gostring \<Rightarrow> nat list" where
  "inner_offsets s = filter (\<lambda>i. i \<noteq> 0) (offsets_from 0 (pieces s))"

definition computeOutputs :: "gostring \<Rightarrow> gostring set \<Rightarrow> gostring set \<Rightarrow> gostring list" where
  "computeOutputs state prefixSet keywordSet =
     (if state \<in> keywordSet then [state] else []) @
     filter (\<lambda>failState. failState \<in> prefixSet \<and> failState \<in> keywordSet) (map (\<lambda>byteOff. drop byteOff state) (inner_offsets state))"

definition addPrefix :: "gostring \<Rightarrow> gostring list \<times> gostring set \<Rightarrow> gostring list \<times> gostring set" where
  "addPrefix p = (\<lambda>(newPrefixes, prefixSet).
     if p \<notin> prefixSet then (newPrefixes @ [p], insert p prefixSet) else (newPrefixes, prefixSet))"

fun addLoop ::
  "gostring list \<Rightarrow> gostring set \<Rightarrow> gostring list \<Rightarrow> gostring list \<times> gostring set \<Rightarrow>
   gostring set \<times> gostring list \<times> gostring list \<times> gostring set" where
  "addLoop [] keywordSet added (newPrefixes, prefixSet) = (keywordSet, added, newPrefixes, prefixSet)"
| "addLoop (keyword # ks) keywordSet added ps =
     (if keyword = [] \<or> keyword \<in> keywordSet then addLoop ks keywordSet added ps
      else addLoop ks (insert keyword keywordSet) (added @ [keyword])
        (addPrefix keyword (fold (\<lambda>byteOff. addPrefix (take byteOff keyword)) (inner_offsets keyword) ps)))"

text \<open>The loops that compute the output list of each given state but the root.\<close>

definition outputLoop :: "gostring set \<Rightarrow> gostring set \<Rightarrow> gostring list \<Rightarrow> state_outputs \<Rightarrow> state_outputs" where
  "outputLoop prefixSet keywordSet pfs outputs =
     fold (\<lambda>p outputs.
        if p = [] then outputs
        else (let outs = computeOutputs p prefixSet keywordSet in if outs \<noteq> [] then AList.update p outs outputs else outputs))
       pfs outputs"

definition planAddMany :: "trieSnapshot \<Rightarrow> gostring list \<Rightarrow> trieSnapshot \<times> state_outputs \<times> gostring list" where
  "planAddMany snap keywords =
     (case addLoop keywords (set (ts_Keywords snap)) [] ([], set (ts_Prefixes snap)) of
        (keywordSet, added, newPrefixes, prefixSet) \<Rightarrow>
          if added = [] then (snap, [], [])
          else (let outputs1 = outputLoop prefixSet keywordSet newPrefixes [];
                    outputs = outputLoop prefixSet keywordSet (ts_Prefixes snap) outputs1
                in (snap\<lparr>ts_Keywords := ts_Keywords snap @ added, ts_Prefixes := ts_Prefixes snap @ newPrefixes\<rparr>, outputs, added)))"

definition planAdd :: "trieSnapshot \<Rightarrow> gostring \<Rightarrow> trieSnapshot \<times> state_outputs \<times> bool" where
  "planAdd snap keyword = (case planAddMany snap [keyword] of (snap', outputs, added) \<Rightarrow> (snap', outputs, length added > 0))"

definition planRemoveMany :: "trieSnapshot \<Rightarrow> gostring list \<Rightarrow> trieSnapshot \<times> state_outputs \<times> gostring list" where
  "planRemoveMany snap keywords =
     (let doomed = set keywords;
          removed = filter (\<lambda>kw. kw \<in> doomed) (ts_Keywords snap);
          newKeywords = filter (\<lambda>kw. kw \<notin> doomed) (ts_Keywords snap)
      in
      if removed = [] then (snap, [], [])
      else
        (let keywordSet = set newKeywords;
             newPrefixes = [] # filter (\<lambda>p. p \<noteq> [] \<and> (\<exists>kw \<in> keywordSet. prefix p kw)) (ts_Prefixes snap);
             outputs = outputLoop (set newPrefixes) keywordSet newPrefixes []
         in (snap\<lparr>ts_Keywords := newKeywords, ts_Prefixes := newPrefixes\<rparr>, outputs, removed)))"

definition planRemove :: "trieSnapshot \<Rightarrow> gostring \<Rightarrow> trieSnapshot \<times> state_outputs \<times> bool" where
  "planRemove snap keyword = (case planRemoveMany snap [keyword] of (snap', outputs, removed) \<Rightarrow> (snap', outputs, length removed > 0))"

section \<open>Valid strings and their parts\<close>

definition utf8_ok :: "gostring \<Rightarrow> bool" where
  "utf8_ok s \<longleftrightarrow> string_of (runes s) = s"

lemma string_of_append [simp]: "string_of (a @ b) = string_of a @ string_of b"
  by (simp add: string_of_def)

lemma string_of_Nil [simp]: "string_of [] = []"
  by (simp add: string_of_def)

lemma utf8_okI: "\<forall>r \<in> set rs. valid_rune r \<Longrightarrow> utf8_ok (string_of rs)"
  by (simp add: utf8_ok_def)

lemma utf8_okE:
  assumes "utf8_ok s"
  obtains rs where "s = string_of rs" "\<forall>r \<in> set rs. valid_rune r" "runes s = rs"
  using assms runes_valid[of _ s] that[of "runes s"] by (auto simp: utf8_ok_def)

lemma pieces_string_of:
  "\<forall>r \<in> set rs. valid_rune r \<Longrightarrow> pieces (string_of rs) = map (\<lambda>r. (r, encodeRune r)) rs"
proof (induction rs)
  case Nil
  then show ?case by (simp add: pieces_def)
next
  case (Cons r rs)
  have e: "string_of (r # rs) = encodeRune r @ string_of rs" by (simp add: string_of_def)
  have d: "decodeRune (encodeRune r @ string_of rs) = (r, length (encodeRune r))" "encodeRune r \<noteq> []"
    using decode_encode[of r] Cons.prems by auto
  then obtain c cs where c: "encodeRune r @ string_of rs = c # cs" by (cases "encodeRune r @ string_of rs") auto
  have "pieces (c # cs) = (r, take (length (encodeRune r)) (c # cs)) # pieces (drop (length (encodeRune r)) (c # cs))"
    using d(1) unfolding c by (rule pieces_Cons)
  then have "pieces (string_of (r # rs)) = (r, encodeRune r) # pieces (string_of rs)" unfolding e c[symmetric] by simp
  with Cons show ?case by simp
qed

lemma offsets_string_of:
  assumes "\<forall>r \<in> set rs. valid_rune r"
  shows "set (offsets_from 0 (pieces (string_of rs))) = (\<lambda>i. length (string_of (take i rs))) ` {..<length rs}"
proof -
  have len: "length (pieces (string_of rs)) = length rs" using pieces_string_of[OF assms] by simp
  have "offsets_from 0 (pieces (string_of rs)) ! i = length (string_of (take i rs))" if "i < length rs" for i
    using that len nth_offsets_from[of i "pieces (string_of rs)" 0] pieces_string_of[OF assms]
    by (simp add: take_map string_of_def comp_def)
  then show ?thesis using len by (auto simp: set_conv_nth image_def) (metis length_offsets_from)+
qed

text \<open>Cutting a valid string at the offsets of its runes yields its valid prefixes and suffixes.\<close>

lemma valid_prefix:
  assumes "\<forall>r \<in> set rs. valid_rune r"
  shows "prefix p (string_of rs) \<and> utf8_ok p \<longleftrightarrow> (\<exists>i \<le> length rs. p = string_of (take i rs))"
proof
  assume "prefix p (string_of rs) \<and> utf8_ok p"
  then obtain t where t: "string_of rs = p @ t" and p: "utf8_ok p" by (auto simp: prefix_def)
  from p obtain ps where ps: "p = string_of ps" "\<forall>r \<in> set ps. valid_rune r" by (rule utf8_okE)
  have "rs = ps @ runes t" using runes_string_of[of ps t] runes_encode[OF assms] ps t by (simp add: map_idI)
  then have "take (length ps) rs = ps" "length ps \<le> length rs" by simp_all
  with ps(1) show "\<exists>i \<le> length rs. p = string_of (take i rs)" by metis
next
  assume "\<exists>i \<le> length rs. p = string_of (take i rs)"
  then obtain i where i: "p = string_of (take i rs)" by blast
  have "string_of rs = string_of (take i rs) @ string_of (drop i rs)" by (metis append_take_drop_id string_of_append)
  moreover have "utf8_ok (string_of (take i rs))" using assms by (intro utf8_okI) (auto dest: in_set_takeD)
  ultimately show "prefix p (string_of rs) \<and> utf8_ok p" using i by (auto simp: prefix_def)
qed

lemma valid_suffix:
  assumes "\<forall>r \<in> set rs. valid_rune r"
  shows "suffix p (string_of rs) \<and> utf8_ok p \<longleftrightarrow> (\<exists>i \<le> length rs. p = string_of (drop i rs))"
proof
  assume "suffix p (string_of rs) \<and> utf8_ok p"
  then obtain t where t: "string_of rs = t @ p" and p: "utf8_ok p" by (auto simp: suffix_def)
  from p obtain ps where ps: "p = string_of ps" "\<forall>r \<in> set ps. valid_rune r" by (rule utf8_okE)
  show "\<exists>i \<le> length rs. p = string_of (drop i rs)"
  proof (cases ps)
    case Nil
    with ps show ?thesis by (intro exI[of _ "length rs"]) simp
  next
    case (Cons q qs)
    have "lead p" using ps Cons encodeRune_lead[of q "string_of qs"] by (simp add: string_of_def)
    from runes_append_lead[OF this, of t] runes_encode[OF assms] t ps have "rs = runes t @ ps" by simp
    then have "drop (length (runes t)) rs = ps" "length (runes t) \<le> length rs" by simp_all
    with ps(1) show ?thesis by metis
  qed
next
  assume "\<exists>i \<le> length rs. p = string_of (drop i rs)"
  then obtain i where i: "p = string_of (drop i rs)" by blast
  have "string_of rs = string_of (take i rs) @ string_of (drop i rs)" by (metis append_take_drop_id string_of_append)
  moreover have "utf8_ok (string_of (drop i rs))" using assms by (intro utf8_okI) (auto dest: in_set_dropD)
  ultimately show "suffix p (string_of rs) \<and> utf8_ok p" using i by (auto simp: suffix_def)
qed

lemma string_of_eq_Nil [simp]: "string_of rs = [] \<longleftrightarrow> rs = []"
proof (cases rs)
  case (Cons r rs')
  have "encodeRune r \<noteq> []" using decode_encode(2)[of "valid_of r"] by (simp add: encodeRune_valid_of)
  with Cons show ?thesis by (simp add: string_of_def)
qed simp

lemma inner_offsets_image:
  assumes rs: "\<forall>r \<in> set rs. valid_rune r"
  shows "set (inner_offsets (string_of rs)) = (\<lambda>i. length (string_of (take i rs))) ` {0<..<length rs}"
proof -
  have "length (string_of (take i rs)) \<noteq> 0 \<longleftrightarrow> 0 < i" if "i < length rs" for i using that by auto
  then show ?thesis unfolding inner_offsets_def set_filter offsets_string_of[OF rs] by auto
qed

lemma keyword_prefixes:
  assumes "utf8_ok s" and "s \<noteq> []"
  shows "insert s ((\<lambda>i. take i s) ` set (inner_offsets s)) = {p. prefix p s \<and> utf8_ok p \<and> p \<noteq> []}"
proof -
  from assms(1) obtain rs where rs: "s = string_of rs" "\<forall>r \<in> set rs. valid_rune r" by (rule utf8_okE)
  have ne: "rs \<noteq> []" using assms(2) rs(1) by auto
  have tk: "take (length (string_of (take i rs))) s = string_of (take i rs)" for i
    using rs(1) string_of_append[of "take i rs" "drop i rs"] by simp
  have "(\<lambda>i. take i s) ` set (inner_offsets s) = (\<lambda>i. string_of (take i rs)) ` {0<..<length rs}"
    unfolding rs(1) inner_offsets_image[OF rs(2)] image_image tk[unfolded rs(1)] by (rule refl)
  also have "insert s \<dots> = (\<lambda>i. string_of (take i rs)) ` {0<..length rs}"
  proof -
    have "{0<..length rs} = insert (length rs) {0<..<length rs}" using ne by auto
    then show ?thesis using rs(1) by simp
  qed
  also have "\<dots> = {p. prefix p s \<and> utf8_ok p \<and> p \<noteq> []}"
  proof -
    have "p \<in> (\<lambda>i. string_of (take i rs)) ` {0<..length rs} \<longleftrightarrow> (\<exists>i \<le> length rs. p = string_of (take i rs)) \<and> p \<noteq> []" for p
      using ne by (auto simp: image_iff Bex_def)
    then show ?thesis unfolding rs(1) valid_prefix[OF rs(2), symmetric] by blast
  qed
  finally show ?thesis .
qed

lemma state_suffixes:
  assumes "utf8_ok s" and "s \<noteq> []"
  shows "insert s ((\<lambda>i. drop i s) ` set (inner_offsets s)) = {p. suffix p s \<and> utf8_ok p \<and> p \<noteq> []}"
proof -
  from assms(1) obtain rs where rs: "s = string_of rs" "\<forall>r \<in> set rs. valid_rune r" by (rule utf8_okE)
  have ne: "rs \<noteq> []" using assms(2) rs(1) by auto
  have tk: "drop (length (string_of (take i rs))) s = string_of (drop i rs)" for i
    using rs(1) string_of_append[of "take i rs" "drop i rs"] by simp
  have "(\<lambda>i. drop i s) ` set (inner_offsets s) = (\<lambda>i. string_of (drop i rs)) ` {0<..<length rs}"
    unfolding rs(1) inner_offsets_image[OF rs(2)] image_image tk[unfolded rs(1)] by (rule refl)
  also have "insert s \<dots> = (\<lambda>i. string_of (drop i rs)) ` {..<length rs}"
  proof -
    have "{..<length rs} = insert 0 {0<..<length rs}" using ne by auto
    then show ?thesis using rs(1) by simp
  qed
  also have "\<dots> = {p. suffix p s \<and> utf8_ok p \<and> p \<noteq> []}"
  proof -
    have "p \<in> (\<lambda>i. string_of (drop i rs)) ` {..<length rs} \<longleftrightarrow> (\<exists>i \<le> length rs. p = string_of (drop i rs)) \<and> p \<noteq> []" for p
      by (auto simp: image_iff Bex_def le_less)
    then show ?thesis unfolding rs(1) valid_suffix[OF rs(2), symmetric] by blast
  qed
  finally show ?thesis .
qed

section \<open>Well-formed snapshots\<close>

text \<open>
  The prefixes are those of the keywords; the root is listed or not.  The output
  list of a state has its keywords, longest first, and a state without one has no
  entry.
\<close>

definition live_prefixes :: "gostring set \<Rightarrow> gostring set" where
  "live_prefixes K = {p. p \<noteq> [] \<and> utf8_ok p \<and> (\<exists>k \<in> K. prefix p k)}"

definition snap_ok :: "trieSnapshot \<Rightarrow> bool" where
  "snap_ok s \<longleftrightarrow> distinct (ts_Keywords s) \<and> (\<forall>k \<in> set (ts_Keywords s). k \<noteq> [] \<and> utf8_ok k) \<and>
     distinct (ts_Prefixes s) \<and> set (ts_Prefixes s) - {[]} = live_prefixes (set (ts_Keywords s))"

definition state_keywords :: "gostring set \<Rightarrow> gostring \<Rightarrow> gostring list" where
  "state_keywords K p = filter (\<lambda>k. k \<in> K) (p # map (\<lambda>i. drop i p) (inner_offsets p))"

definition outputs_of :: "trieSnapshot \<Rightarrow> gostring \<rightharpoonup> gostring list" where
  "outputs_of s p =
     (if p \<in> live_prefixes (set (ts_Keywords s)) \<and> state_keywords (set (ts_Keywords s)) p \<noteq> []
      then Some (state_keywords (set (ts_Keywords s)) p) else None)"

lemma outputs_of_code [code]:
  "outputs_of s p =
     (if p \<noteq> [] \<and> utf8_ok p \<and> (\<exists>k \<in> set (ts_Keywords s). prefix p k) \<and> state_keywords (set (ts_Keywords s)) p \<noteq> []
      then Some (state_keywords (set (ts_Keywords s)) p) else None)"
  by (simp add: outputs_of_def live_prefixes_def)

lemma set_state_keywords:
  assumes "utf8_ok p" and "p \<noteq> []" and "\<forall>k \<in> K. k \<noteq> [] \<and> utf8_ok k"
  shows "set (state_keywords K p) = {k \<in> K. suffix k p}"
proof -
  have "set (state_keywords K p) = insert p ((\<lambda>i. drop i p) ` set (inner_offsets p)) \<inter> K"
    by (auto simp: state_keywords_def)
  then show ?thesis unfolding state_suffixes[OF assms(1,2)] using assms(3) by auto
qed

lemma state_keywords_mono: "A \<subseteq> B \<Longrightarrow> state_keywords B p = [] \<Longrightarrow> state_keywords A p = []"
  unfolding state_keywords_def filter_empty_conv by blast

lemma computeOutputs_keywords: "K \<subseteq> P \<Longrightarrow> computeOutputs p P K = state_keywords K p"
  by (auto simp: computeOutputs_def state_keywords_def intro!: filter_cong)

lemma outputLoop_map:
  "map_of (outputLoop P K ps o0) p =
     (if p \<in> set ps \<and> p \<noteq> [] \<and> computeOutputs p P K \<noteq> [] then Some (computeOutputs p P K) else map_of o0 p)"
proof (induction ps arbitrary: o0)
  case (Cons q ps)
  define o1 where "o1 = (if q = [] then o0 else if computeOutputs q P K \<noteq> [] then AList.update q (computeOutputs q P K) o0 else o0)"
  have "outputLoop P K (q # ps) o0 = outputLoop P K ps o1" by (simp add: outputLoop_def o1_def Let_def)
  moreover have "map_of o1 p = (if p = q \<and> p \<noteq> [] \<and> computeOutputs p P K \<noteq> [] then Some (computeOutputs p P K) else map_of o0 p)"
    by (auto simp: o1_def update_conv')
  ultimately show ?case using Cons.IH[of o1] by auto
qed (simp add: outputLoop_def)

lemma addPrefixes:
  "\<exists>ns. fold addPrefix qs (np, PS) = (np @ ns, PS \<union> set qs) \<and> set ns = set qs - PS \<and> distinct ns"
proof (induction qs arbitrary: np PS)
  case (Cons q qs)
  show ?case
  proof (cases "q \<in> PS")
    case True
    with Cons.IH[of np PS] show ?thesis by (auto simp: addPrefix_def)
  next
    case False
    from Cons.IH[of "np @ [q]" "insert q PS"] obtain ns where
      r: "fold addPrefix qs (np @ [q], insert q PS) = ((np @ [q]) @ ns, insert q PS \<union> set qs)" "set ns = set qs - insert q PS" "distinct ns"
      by blast
    have "fold addPrefix (q # qs) (np, PS) = (np @ q # ns, PS \<union> set (q # qs))" using r(1) False by (simp add: addPrefix_def)
    moreover have "set (q # ns) = set (q # qs) - PS" "distinct (q # ns)" using r(2,3) False by auto
    ultimately show ?thesis by blast
  qed
qed simp

lemma addLoop_correct:
  assumes "\<forall>k \<in> set ks. utf8_ok k"
  shows "\<exists>new ns. addLoop ks KS added (np, PS) = (KS \<union> set new, added @ new, np @ ns, PS \<union> live_prefixes (set new)) \<and>
    set new = set ks - {[]} - KS \<and> distinct new \<and> set ns = live_prefixes (set new) - PS \<and> distinct ns"
  using assms
proof (induction ks arbitrary: KS added np PS)
  case Nil
  then show ?case by (simp add: live_prefixes_def)
next
  case (Cons k ks)
  show ?case
  proof (cases "k = [] \<or> k \<in> KS")
    case True
    have eq: "addLoop (k # ks) KS added (np, PS) = addLoop ks KS added (np, PS)" using True by simp
    have "set (k # ks) - {[]} - KS = set ks - {[]} - KS" using True by auto
    with Cons.IH[of KS added np PS] Cons.prems show ?thesis unfolding eq by simp
  next
    case False
    let ?qs = "map (\<lambda>i. take i k) (inner_offsets k) @ [k]"
    from addPrefixes[of ?qs np PS] obtain ns1 where n1: "fold addPrefix ?qs (np, PS) = (np @ ns1, PS \<union> set ?qs)"
      "set ns1 = set ?qs - PS" "distinct ns1" by blast
    have qs: "set ?qs = live_prefixes {k}"
      using keyword_prefixes[of k] Cons.prems False by (auto simp: live_prefixes_def)
    have eq: "addLoop (k # ks) KS added (np, PS) = addLoop ks (insert k KS) (added @ [k]) (np @ ns1, PS \<union> live_prefixes {k})"
      using False n1(1) unfolding qs by (simp add: fold_map comp_def)
    have "\<forall>k \<in> set ks. utf8_ok k" using Cons.prems by simp
    from Cons.IH[OF this, of "insert k KS" "added @ [k]" "np @ ns1" "PS \<union> live_prefixes {k}"] obtain new ns where
      r: "addLoop ks (insert k KS) (added @ [k]) (np @ ns1, PS \<union> live_prefixes {k}) =
        (insert k KS \<union> set new, (added @ [k]) @ new, (np @ ns1) @ ns, PS \<union> live_prefixes {k} \<union> live_prefixes (set new))"
      "set new = set ks - {[]} - insert k KS" "distinct new" "set ns = live_prefixes (set new) - (PS \<union> live_prefixes {k})" "distinct ns"
      by blast
    have lp: "live_prefixes (set (k # new)) = live_prefixes {k} \<union> live_prefixes (set new)" by (auto simp: live_prefixes_def)
    have n1': "set ns1 = live_prefixes {k} - PS" using n1(2) unfolding qs .
    have "set (k # new) = set (k # ks) - {[]} - KS" "distinct (k # new)" using r(2,3) False by auto
    moreover have "set (ns1 @ ns) = live_prefixes (set (k # new)) - PS" unfolding lp using n1' r(4) by auto
    moreover have "distinct (ns1 @ ns)" using n1' n1(3) r(4,5) by auto
    moreover have "addLoop (k # ks) KS added (np, PS) = (KS \<union> set (k # new), added @ (k # new), np @ (ns1 @ ns), PS \<union> live_prefixes (set (k # new)))"
      unfolding eq r(1) lp by (simp add: Un_assoc)
    ultimately show ?thesis by blast
  qed
qed

section \<open>Plans are right\<close>

lemma snap_okD:
  assumes "snap_ok s"
  shows "distinct (ts_Keywords s)" "\<forall>k \<in> set (ts_Keywords s). k \<noteq> [] \<and> utf8_ok k" "distinct (ts_Prefixes s)"
    "p \<noteq> [] \<Longrightarrow> p \<in> set (ts_Prefixes s) \<longleftrightarrow> p \<in> live_prefixes (set (ts_Keywords s))" "set (ts_Keywords s) \<subseteq> set (ts_Prefixes s)"
  using assms by (auto simp: snap_ok_def live_prefixes_def)

lemma live_prefixes_Un: "live_prefixes (A \<union> B) = live_prefixes A \<union> live_prefixes B"
  by (auto simp: live_prefixes_def)

lemma planAddMany_correct:
  assumes ok: "snap_ok s" and ks: "\<forall>k \<in> set ks. utf8_ok k" and plan: "planAddMany s ks = (s', outs, added)"
  shows "snap_ok s' \<and> outputs_of s ++ map_of outs = outputs_of s' \<and> ts_Version s' = ts_Version s \<and>
    ts_Keywords s' = ts_Keywords s @ added \<and> set added = set ks - {[]} - set (ts_Keywords s) \<and> distinct added"
proof -
  note D = snap_okD[OF ok]
  let ?K = "set (ts_Keywords s)" and ?P = "set (ts_Prefixes s)"
  from addLoop_correct[OF ks, of ?K "[]" "[]" ?P] obtain new ns where
    r: "addLoop ks ?K [] ([], ?P) = (?K \<union> set new, new, ns, ?P \<union> live_prefixes (set new))"
    "set new = set ks - {[]} - ?K" "distinct new" "set ns = live_prefixes (set new) - ?P" "distinct ns" by auto
  show ?thesis
  proof (cases "new = []")
    case True
    with plan r have "s' = s" "outs = []" "added = []" by (simp_all add: planAddMany_def)
    with ok r(2) True show ?thesis by simp
  next
    case False
    let ?K' = "?K \<union> set new" and ?P' = "?P \<union> live_prefixes (set new)"
    have new: "k \<noteq> [] \<and> utf8_ok k" if "k \<in> set new" for k using that r(2) ks by auto
    have s': "s' = s\<lparr>ts_Keywords := ts_Keywords s @ new, ts_Prefixes := ts_Prefixes s @ ns\<rparr>" "added = new"
      "outs = outputLoop ?P' ?K' (ts_Prefixes s) (outputLoop ?P' ?K' ns [])"
      using plan r(1) False by (auto simp: planAddMany_def Let_def)
    have "[] \<notin> live_prefixes (set new)" by (simp add: live_prefixes_def)
    then have P': "set (ts_Prefixes s') - {[]} = live_prefixes ?K'"
      using ok r(4) unfolding s' live_prefixes_Un snap_ok_def by auto
    have "distinct (ts_Keywords s')" using D(1) r(2,3) by (auto simp: s')
    moreover have "distinct (ts_Prefixes s')" using D(3) r(4,5) by (auto simp: s')
    ultimately have ok': "snap_ok s'" using P' D(2) new unfolding snap_ok_def by (auto simp: s')
    have sub: "?K' \<subseteq> ?P'" using D(5) new by (auto simp: live_prefixes_def)
    have m: "map_of outs p = (if p \<in> live_prefixes ?K' \<and> state_keywords ?K' p \<noteq> [] then Some (state_keywords ?K' p) else None)" for p
    proof -
      have "p \<in> set (ts_Prefixes s) \<and> p \<noteq> [] \<or> p \<in> set ns \<and> p \<noteq> [] \<longleftrightarrow> p \<in> live_prefixes ?K'"
        using P' by (auto simp: s')
      then show ?thesis unfolding s'(3) outputLoop_map computeOutputs_keywords[OF sub] by auto
    qed
    have "(outputs_of s ++ map_of outs) p = outputs_of s' p" for p
    proof (cases "p \<in> live_prefixes ?K' \<and> state_keywords ?K' p \<noteq> []")
      case True
      with m[of p] show ?thesis by (simp add: outputs_of_def s' map_add_def)
    next
      case False
      then have "outputs_of s p = None"
        using live_prefixes_Un[of ?K "set new"] state_keywords_mono[of ?K ?K' p] by (auto simp: outputs_of_def)
      with False m[of p] show ?thesis by (auto simp: outputs_of_def s' map_add_def)
    qed
    with ok' r(2,3) show ?thesis by (auto simp: s')
  qed
qed

lemma planRemoveMany_correct:
  assumes ok: "snap_ok s" and plan: "planRemoveMany s ks = (s', outs, removed)"
  shows "snap_ok s' \<and> (removed \<noteq> [] \<longrightarrow> map_of outs = outputs_of s') \<and> (removed = [] \<longrightarrow> s' = s) \<and> ts_Version s' = ts_Version s \<and>
    ts_Keywords s' = filter (\<lambda>k. k \<notin> set ks) (ts_Keywords s) \<and> removed = filter (\<lambda>k. k \<in> set ks) (ts_Keywords s)"
proof -
  note D = snap_okD[OF ok]
  let ?removed = "filter (\<lambda>k. k \<in> set ks) (ts_Keywords s)" and ?new = "filter (\<lambda>k. k \<notin> set ks) (ts_Keywords s)"
  show ?thesis
  proof (cases "?removed = []")
    case True
    then have "?new = ts_Keywords s" by (simp add: filter_empty_conv filter_id_conv)
    with True plan ok show ?thesis by (simp add: planRemoveMany_def)
  next
    case False
    let ?K = "set ?new"
    let ?ps = "[] # filter (\<lambda>p. p \<noteq> [] \<and> (\<exists>kw \<in> ?K. prefix p kw)) (ts_Prefixes s)"
    have s': "s' = s\<lparr>ts_Keywords := ?new, ts_Prefixes := ?ps\<rparr>" "removed = ?removed" "outs = outputLoop (set ?ps) ?K ?ps []"
      using plan False by (auto simp: planRemoveMany_def Let_def)
    have live: "p \<noteq> [] \<and> (\<exists>kw \<in> ?K. prefix p kw) \<and> p \<in> set (ts_Prefixes s) \<longleftrightarrow> p \<in> live_prefixes ?K" for p
      using D(4)[of p] by (auto simp: live_prefixes_def)
    then have P': "set ?ps - {[]} = live_prefixes ?K" by auto
    have ok': "snap_ok s'" using P' D(1,2,3) unfolding snap_ok_def by (auto simp: s')
    have "?K \<subseteq> set ?ps" using P' D(2) by (auto simp: live_prefixes_def)
    note co = computeOutputs_keywords[OF this]
    have "map_of outs p = outputs_of s' p" for p
    proof -
      have "p \<in> set ?ps \<and> p \<noteq> [] \<longleftrightarrow> p \<in> live_prefixes ?K" using P' by blast
      then show ?thesis unfolding s'(3) outputLoop_map co by (auto simp: outputs_of_def s'(1) simp del: set_filter)
    qed
    then have m: "map_of outs = outputs_of s'" by (rule ext)
    have "ts_Version s' = ts_Version s" "ts_Keywords s' = ?new" by (simp_all add: s'(1))
    moreover have "removed \<noteq> []" using False s'(2) by argo
    ultimately show ?thesis using ok' m s'(2) by argo
  qed
qed

text \<open>Every keyword is listed at its own state, and nothing but keywords is listed.\<close>

lemma outputs_union:
  assumes "snap_ok s"
  shows "(\<Union>l \<in> ran (outputs_of s). set l) = set (ts_Keywords s)"
proof -
  let ?K = "set (ts_Keywords s)"
  note D = snap_okD[OF assms]
  have "k \<in> (\<Union>l \<in> ran (outputs_of s). set l)" if "k \<in> ?K" for k
  proof -
    have "k \<in> live_prefixes ?K" "k \<in> set (state_keywords ?K k)" using D(2) that by (auto simp: live_prefixes_def state_keywords_def)
    then have "outputs_of s k = Some (state_keywords ?K k)" by (auto simp: outputs_of_def)
    with \<open>k \<in> set (state_keywords ?K k)\<close> show ?thesis by (auto intro: ranI)
  qed
  moreover have "set l \<subseteq> ?K" if "l \<in> ran (outputs_of s)" for l
    using that by (auto simp: ran_def outputs_of_def state_keywords_def split: if_splits)
  ultimately show ?thesis by blast
qed

section \<open>A batch is its keywords one by one\<close>

lemma addPrefix_acc: "addPrefix p (np @ xs, PS) = (case addPrefix p (xs, PS) of (ys, PS') \<Rightarrow> (np @ ys, PS'))"
  by (simp add: addPrefix_def)

lemma addPrefixes_acc: "fold (\<lambda>i. addPrefix (f i)) is (np @ xs, PS) = (case fold (\<lambda>i. addPrefix (f i)) is (xs, PS) of (ys, PS') \<Rightarrow> (np @ ys, PS'))"
proof (induction "is" arbitrary: xs PS)
  case (Cons i js)
  obtain ys PS1 where "addPrefix (f i) (xs, PS) = (ys, PS1)" by fastforce
  with Cons.IH[of ys PS1] addPrefix_acc[of "f i" np xs PS] show ?case by simp
qed simp

lemma addLoop_acc:
  "addLoop ks KS (added @ a) (np @ xs, PS) =
     (case addLoop ks KS a (xs, PS) of (KS', a', ys, PS') \<Rightarrow> (KS', added @ a', np @ ys, PS'))"
proof (induction ks arbitrary: KS a xs PS)
  case (Cons k ks)
  show ?case
  proof (cases "k = [] \<or> k \<in> KS")
    case False
    obtain ys PS1 where "fold (\<lambda>i. addPrefix (take i k)) (inner_offsets k) (xs, PS) = (ys, PS1)" by fastforce
    moreover obtain zs PS2 where "addPrefix k (ys, PS1) = (zs, PS2)" by fastforce
    ultimately show ?thesis
      using False Cons.IH[of "insert k KS" "a @ [k]" zs PS2] addPrefix_acc[of k np ys PS1]
        addPrefixes_acc[of "\<lambda>i. take i k" "inner_offsets k" np xs PS] by simp
  qed (use Cons.IH in simp)
qed simp

lemma addLoop_append:
  "addLoop (ks @ js) KS a ps = (case addLoop ks KS a ps of (KS', a', np, PS) \<Rightarrow> addLoop js KS' a' (np, PS))"
  by (induction ks KS a ps rule: addLoop.induct) auto

lemma addLoop_sets:
  "addLoop ks KS a (np, PS) = (KS', a @ b, np @ ns, PS') \<Longrightarrow> KS' = KS \<union> set b \<and> PS' = PS \<union> set ns"
proof (induction ks arbitrary: KS a np PS b ns KS' PS')
  case (Cons k ks)
  show ?case
  proof (cases "k = [] \<or> k \<in> KS")
    case True
    with Cons show ?thesis by simp
  next
    case False
    let ?qs = "map (\<lambda>i. take i k) (inner_offsets k) @ [k]"
    from addPrefixes[of ?qs np PS] obtain ns1 where n1: "fold addPrefix ?qs (np, PS) = (np @ ns1, PS \<union> set ?qs)" "set ns1 = set ?qs - PS"
      by blast
    then have step: "addLoop (k # ks) KS a (np, PS) = addLoop ks (insert k KS) (a @ [k]) (np @ ns1, PS \<union> set ns1)"
      using False by (simp add: fold_map comp_def Un_Diff_cancel)
    obtain KS2 b2 ns2 PS2 where r: "addLoop ks (insert k KS) [] ([], PS \<union> set ns1) = (KS2, b2, ns2, PS2)" by (metis prod_cases4)
    with addLoop_acc[of ks "insert k KS" "a @ [k]" "[]" "np @ ns1" "[]" "PS \<union> set ns1"]
    have e: "addLoop ks (insert k KS) (a @ [k]) (np @ ns1, PS \<union> set ns1) = (KS2, (a @ [k]) @ b2, (np @ ns1) @ ns2, PS2)" by simp
    from Cons.IH[OF e] have "KS2 = insert k KS \<union> set b2" "PS2 = PS \<union> set ns1 \<union> set ns2" by simp_all
    with Cons.prems step e show ?thesis by auto
  qed
qed simp

text \<open>One keyword at a time, as a caller of \<open>planAdd\<close> would: the snapshot and the stored outputs after each.\<close>

definition addOne :: "gostring \<Rightarrow> trieSnapshot \<times> (gostring \<rightharpoonup> gostring list) \<Rightarrow> trieSnapshot \<times> (gostring \<rightharpoonup> gostring list)" where
  "addOne k = (\<lambda>(s, stored). case planAdd s k of (s', outs, changed) \<Rightarrow> (s', stored ++ map_of outs))"

lemma addLoop_nothing: "addLoop ks KS a (np, PS) = (KS', a, np', PS') \<Longrightarrow> np' = np"
proof (induction ks)
  case (Cons k ks)
  show ?case
  proof (cases "k = [] \<or> k \<in> KS")
    case False
    obtain q where "addLoop (k # ks) KS a (np, PS) = addLoop ks (insert k KS) ((a @ [k]) @ []) q" using False by simp
    moreover obtain xs PS1 where "q = ([] @ xs, PS1)" by (cases q) simp
    moreover obtain KS2 b2 ns2 PS2 where "addLoop ks (insert k KS) [] (xs, PS1) = (KS2, b2, ns2, PS2)" by (metis prod_cases4)
    ultimately have "addLoop (k # ks) KS a (np, PS) = (KS2, (a @ [k]) @ b2, ns2, PS2)"
      using addLoop_acc[of ks "insert k KS" "a @ [k]" "[]" "[]" xs PS1] by simp
    with Cons.prems show ?thesis by simp
  qed (use Cons in simp)
qed simp

lemma planAddMany_snapshot:
  "fst (planAddMany s ks) =
     (case addLoop ks (set (ts_Keywords s)) [] ([], set (ts_Prefixes s)) of
        (KS, added, ns, PS) \<Rightarrow> s\<lparr>ts_Keywords := ts_Keywords s @ added, ts_Prefixes := ts_Prefixes s @ ns\<rparr>)"
proof -
  obtain KS added ns PS where r: "addLoop ks (set (ts_Keywords s)) [] ([], set (ts_Prefixes s)) = (KS, added, ns, PS)" by (metis prod_cases4)
  with addLoop_nothing[of ks "set (ts_Keywords s)" "[]" "[]"] have "added = [] \<Longrightarrow> ns = []" by blast
  with r show ?thesis by (auto simp: planAddMany_def Let_def)
qed

lemma planAddMany_Cons: "fst (planAddMany (fst (planAddMany s [k])) ks) = fst (planAddMany s (k # ks))"
proof -
  obtain KS1 a1 n1 PS1 where r1: "addLoop [k] (set (ts_Keywords s)) [] ([], set (ts_Prefixes s)) = (KS1, a1, n1, PS1)" by (metis prod_cases4)
  with addLoop_sets[of "[k]" "set (ts_Keywords s)" "[]" "[]"] have sets: "KS1 = set (ts_Keywords s) \<union> set a1" "PS1 = set (ts_Prefixes s) \<union> set n1"
    by simp_all
  obtain KS2 a2 n2 PS2 where r2: "addLoop ks KS1 [] ([], PS1) = (KS2, a2, n2, PS2)" by (metis prod_cases4)
  have "addLoop (k # ks) (set (ts_Keywords s)) [] ([], set (ts_Prefixes s)) = (KS2, a1 @ a2, n1 @ n2, PS2)"
    using addLoop_append[of "[k]" ks "set (ts_Keywords s)" "[]" "([], set (ts_Prefixes s))"] r1 r2 addLoop_acc[of ks KS1 a1 "[]" n1 "[]" PS1]
    by (simp del: addLoop.simps)
  then show ?thesis using r1 r2[unfolded sets] unfolding planAddMany_snapshot by (simp del: addLoop.simps)
qed

section \<open>Properties\<close>

text \<open>
  C17.  Planning an addition keeps a well-formed snapshot well-formed: it appends
  exactly the keywords that are new, adds exactly their missing prefixes, and
  writing its output lists over the stored ones makes them those of the new
  snapshot: each prefix lists the keywords that are suffixes of it, and only
  prefixes with such keywords have an entry.
\<close>

theorem planAdd_keeps_outputs:
  assumes "snap_ok s" and "\<forall>k \<in> set ks. utf8_ok k" and "planAddMany s ks = (s', outs, added)"
  shows "snap_ok s' \<and> ts_Keywords s' = ts_Keywords s @ added \<and> distinct added \<and> set added = set ks - {[]} - set (ts_Keywords s) \<and>
    outputs_of s ++ map_of outs = outputs_of s' \<and>
    (\<forall>p. (outputs_of s ++ map_of outs) p \<noteq> None \<longleftrightarrow>
       p \<in> set (ts_Prefixes s') \<and> p \<noteq> [] \<and> (\<exists>k \<in> set (ts_Keywords s'). suffix k p)) \<and>
    (\<forall>p l. (outputs_of s ++ map_of outs) p = Some l \<longrightarrow> set l = {k \<in> set (ts_Keywords s'). suffix k p})"
proof -
  note c = planAddMany_correct[OF assms]
  then have ok: "snap_ok s'" and o: "outputs_of s ++ map_of outs = outputs_of s'" by simp_all
  note D = snap_okD[OF ok]
  have sk: "set (state_keywords (set (ts_Keywords s')) p) = {k \<in> set (ts_Keywords s'). suffix k p}" if "p \<in> live_prefixes (set (ts_Keywords s'))" for p
    using that D(2) by (intro set_state_keywords) (auto simp: live_prefixes_def)
  have "(outputs_of s' p \<noteq> None) = (p \<in> set (ts_Prefixes s') \<and> p \<noteq> [] \<and> (\<exists>k \<in> set (ts_Keywords s'). suffix k p))" for p
  proof (cases "p \<in> live_prefixes (set (ts_Keywords s'))")
    case True
    then have "p \<noteq> []" by (simp add: live_prefixes_def)
    with True D(4)[of p] sk[OF True] show ?thesis by (auto simp: outputs_of_def simp flip: set_empty)
  next
    case False
    with D(4)[of p] show ?thesis by (auto simp: outputs_of_def)
  qed
  moreover have "set l = {k \<in> set (ts_Keywords s'). suffix k p}" if "outputs_of s' p = Some l" for p l
    using that sk[of p] by (auto simp: outputs_of_def split: if_splits)
  ultimately show ?thesis using c o by simp
qed

definition snap_example :: trieSnapshot where
  "snap_example = \<lparr>ts_Keywords = [''he''], ts_Prefixes = [[], ''h'', ''he''], ts_Version = 7\<rparr>"

lemma ascii_utf8: "utf8_ok ''he'' \<and> utf8_ok ''h'' \<and> utf8_ok ''she'' \<and> utf8_ok ''hers''"
  by code_simp

lemma snap_example_ok: "snap_ok snap_example"
proof -
  have "live_prefixes {''he''} = {''h'', ''he''}"
    using ascii_utf8 by (auto simp: live_prefixes_def prefix_Cons)
  then show ?thesis using ascii_utf8 by (auto simp: snap_ok_def snap_example_def)
qed

theorem planAdd_keeps_outputs_witness:
  "\<exists>s' outs. planAddMany snap_example [''she'', ''he'', ''hers'', ''she''] = (s', outs, [''she'', ''hers'']) \<and> snap_ok s' \<and>
     map_of outs ''she'' = Some [''she'', ''he'']"
proof -
  let ?s = "\<lparr>ts_Keywords = [''he'', ''she'', ''hers''],
    ts_Prefixes = [[], ''h'', ''he'', ''s'', ''sh'', ''she'', ''her'', ''hers''], ts_Version = 7\<rparr>"
  let ?outs = "[(''she'', [''she'', ''he'']), (''hers'', [''hers'']), (''he'', [''he''])]"
  have p: "planAddMany snap_example [''she'', ''he'', ''hers'', ''she''] = (?s, ?outs, [''she'', ''hers''])" by code_simp
  have "snap_ok ?s" using planAdd_keeps_outputs[OF snap_example_ok _ p] ascii_utf8 by simp
  moreover have "map_of ?outs ''she'' = Some [''she'', ''he'']" by simp
  ultimately show ?thesis using p by blast
qed

text \<open>
  C18.  Planning a removal keeps a well-formed snapshot well-formed: it keeps the
  other keywords in order, drops exactly the prefixes no remaining keyword has,
  and the output lists it returns are those of the new snapshot, complete.
\<close>

theorem planRemove_replaces_outputs:
  assumes "snap_ok s" and "planRemoveMany s ks = (s', outs, removed)" and "removed \<noteq> []"
  shows "snap_ok s' \<and> ts_Keywords s' = filter (\<lambda>k. k \<notin> set ks) (ts_Keywords s) \<and>
    removed = filter (\<lambda>k. k \<in> set ks) (ts_Keywords s) \<and> map_of outs = outputs_of s' \<and>
    (\<Union>l \<in> ran (map_of outs). set l) = set (ts_Keywords s) - set ks"
  using planRemoveMany_correct[OF assms(1,2)] assms(3) outputs_union[of s'] by auto

theorem planRemove_replaces_outputs_witness:
  "\<exists>s' outs. planRemoveMany \<lparr>ts_Keywords = [''he'', ''she'', ''hers''],
      ts_Prefixes = [[], ''h'', ''he'', ''s'', ''sh'', ''she'', ''her'', ''hers''], ts_Version = 7\<rparr> [''hers'', ''x''] = (s', outs, [''hers'']) \<and>
     snap_ok s' \<and> (\<Union>l \<in> ran (map_of outs). set l) = {''he'', ''she''}"
proof -
  let ?s = "\<lparr>ts_Keywords = [''he'', ''she'', ''hers''],
    ts_Prefixes = [[], ''h'', ''he'', ''s'', ''sh'', ''she'', ''her'', ''hers''], ts_Version = 7\<rparr>"
  let ?outs = "[(''she'', [''she'', ''he'']), (''hers'', [''hers'']), (''he'', [''he''])]"
  have "planAddMany snap_example [''she'', ''hers''] = (?s, ?outs, [''she'', ''hers''])" by code_simp
  from planAddMany_correct[OF snap_example_ok _ this] ascii_utf8 have ok: "snap_ok ?s" by simp
  have p: "planRemoveMany ?s [''hers'', ''x''] =
    (\<lparr>ts_Keywords = [''he'', ''she''], ts_Prefixes = [[], ''h'', ''he'', ''s'', ''sh'', ''she''], ts_Version = 7\<rparr>,
     [(''he'', [''he'']), (''she'', [''she'', ''he''])], [''hers''])" by code_simp
  have u: "(\<Union>l \<in> ran (map_of [(''he'', [''he'']), (''she'', [''she'', ''he''])]). set l) = set (ts_Keywords ?s) - set [''hers'', ''x'']"
    and ok': "snap_ok \<lparr>ts_Keywords = [''he'', ''she''], ts_Prefixes = [[], ''h'', ''he'', ''s'', ''sh'', ''she''], ts_Version = 7\<rparr>"
    using planRemove_replaces_outputs[OF ok p] by blast+
  have "set (ts_Keywords ?s) - set [''hers'', ''x''] = {''he'', ''she''}" by auto
  with p u ok' show ?thesis by metis
qed

text \<open>
  Planning a batch in one pass gives the snapshot and the stored outputs
  that planning its keywords one by one gives, the order of the lists included.
\<close>

theorem planAddMany_batch:
  assumes "snap_ok s" and "\<forall>k \<in> set ks. utf8_ok k" and "planAddMany s ks = (s', outs, added)"
  shows "fold addOne ks (s, outputs_of s) = (s', outputs_of s ++ map_of outs)"
proof -
  have one: "addOne k (s, outputs_of s) = (fst (planAddMany s [k]), outputs_of (fst (planAddMany s [k])))"
    if "snap_ok s" "utf8_ok k" for s k
  proof -
    obtain s1 o1 a1 where p: "planAddMany s [k] = (s1, o1, a1)" by (cases "planAddMany s [k]") auto
    from planAddMany_correct[OF that(1) _ p] that(2) p show ?thesis by (simp add: addOne_def planAdd_def)
  qed
  have "fold addOne ks (s, outputs_of s) = (fst (planAddMany s ks), outputs_of (fst (planAddMany s ks)))"
    using assms(1,2)
  proof (induction ks arbitrary: s)
    case Nil
    then show ?case by (simp add: planAddMany_def)
  next
    case (Cons k ks)
    obtain s1 o1 a1 where p: "planAddMany s [k] = (s1, o1, a1)" by (cases "planAddMany s [k]") auto
    from planAddMany_correct[OF Cons.prems(1) _ p] Cons.prems(2) have ok: "snap_ok s1" by simp
    have "fold addOne (k # ks) (s, outputs_of s) = fold addOne ks (s1, outputs_of s1)"
      using one[OF Cons.prems(1), of k] Cons.prems(2) p by simp
    also have "\<dots> = (fst (planAddMany s1 ks), outputs_of (fst (planAddMany s1 ks)))" using Cons.IH[OF ok] Cons.prems(2) by simp
    also have "fst (planAddMany s1 ks) = fst (planAddMany s (k # ks))" using planAddMany_Cons[of s k ks] p by simp
    finally show ?case .
  qed
  with planAddMany_correct[OF assms] assms(3) show ?thesis by simp
qed

theorem planAddMany_batch_witness:
  "fold addOne [''she'', ''hers''] (snap_example, outputs_of snap_example) =
     (\<lparr>ts_Keywords = [''he'', ''she'', ''hers''], ts_Prefixes = [[], ''h'', ''he'', ''s'', ''sh'', ''she'', ''her'', ''hers''], ts_Version = 7\<rparr>,
      outputs_of snap_example ++ map_of [(''she'', [''she'', ''he'']), (''hers'', [''hers'']), (''he'', [''he''])])"
proof -
  have "planAddMany snap_example [''she'', ''hers''] =
    (\<lparr>ts_Keywords = [''he'', ''she'', ''hers''], ts_Prefixes = [[], ''h'', ''he'', ''s'', ''sh'', ''she'', ''her'', ''hers''], ts_Version = 7\<rparr>,
     [(''she'', [''she'', ''he'']), (''hers'', [''hers'']), (''he'', [''he''])], [''she'', ''hers''])" by code_simp
  from planAddMany_batch[OF snap_example_ok _ this] ascii_utf8 show ?thesis by simp
qed

end
