(* ===== verification/Invalidation.thy ===== *)
theory Invalidation
  imports Decimal Acor_Errors "HOL-Library.Word"
begin

text \<open>
  \<^verbatim>\<open>pkg/acor/invalidation.go\<close> and the counters of \<^verbatim>\<open>stats.go\<close>: the messages that tell other
  instances to drop their local automaton, and the bookkeeping that lets an
  instance ignore the echo of its own.  Clock readings are arguments, in
  nanoseconds.
\<close>

section \<open>Counters\<close>

record cacheStats =
  cs_presetReloadFailures :: "64 word"
  cs_presetPollFailures :: "64 word"
  cs_hits :: "64 word"
  cs_misses :: "64 word"
  cs_rebuilds :: "64 word"
  cs_rebuildNanos :: "64 word"
  cs_lastLagNanos :: int

text \<open>A nil receiver records nothing.\<close>

definition stats_hit :: "cacheStats option \<Rightarrow> cacheStats option" where
  "stats_hit = map_option (\<lambda>s. s\<lparr>cs_hits := cs_hits s + 1\<rparr>)"

definition stats_miss :: "cacheStats option \<Rightarrow> cacheStats option" where
  "stats_miss = map_option (\<lambda>s. s\<lparr>cs_misses := cs_misses s + 1\<rparr>)"

definition recordRebuild :: "int \<Rightarrow> cacheStats option \<Rightarrow> cacheStats option" where
  "recordRebuild d = map_option (\<lambda>s. s\<lparr>cs_rebuilds := cs_rebuilds s + 1, cs_rebuildNanos := cs_rebuildNanos s + of_int d\<rparr>)"

definition recordInvalidationLag :: "int \<Rightarrow> cacheStats option \<Rightarrow> cacheStats option" where
  "recordInvalidationLag d = map_option (\<lambda>s. if d < 0 then s else s\<lparr>cs_lastLagNanos := d\<rparr>)"

definition reloadFailure :: "cacheStats option \<Rightarrow> cacheStats option" where
  "reloadFailure = map_option (\<lambda>s. s\<lparr>cs_presetReloadFailures := cs_presetReloadFailures s + 1\<rparr>)"

definition pollFailure :: "cacheStats option \<Rightarrow> cacheStats option" where
  "pollFailure = map_option (\<lambda>s. s\<lparr>cs_presetPollFailures := cs_presetPollFailures s + 1\<rparr>)"

text \<open>\<open>d\<close> is how long the build took.\<close>

definition timeRebuild :: "int \<Rightarrow> cacheStats option \<Rightarrow> 'a result \<Rightarrow> 'a result \<times> cacheStats option" where
  "timeRebuild d s built = (case built of Inl err \<Rightarrow> (Inl err, s) | Inr x \<Rightarrow> (Inr x, recordRebuild d s))"

record CacheStats =
  PresetReloadFailures :: "64 word"
  PresetPollFailures :: "64 word"
  Hits :: "64 word"
  Misses :: "64 word"
  Rebuilds :: "64 word"
  RebuildDuration :: int
  LastInvalidationLag :: int

definition stats_snapshot :: "cacheStats option \<Rightarrow> CacheStats" where
  "stats_snapshot st =
     (case st of
        None \<Rightarrow> \<lparr>PresetReloadFailures = 0, PresetPollFailures = 0, Hits = 0, Misses = 0, Rebuilds = 0, RebuildDuration = 0,
          LastInvalidationLag = 0\<rparr>
      | Some s \<Rightarrow> \<lparr>PresetReloadFailures = cs_presetReloadFailures s, PresetPollFailures = cs_presetPollFailures s,
          Hits = cs_hits s, Misses = cs_misses s, Rebuilds = cs_rebuilds s, RebuildDuration = sint (cs_rebuildNanos s),
          LastInvalidationLag = cs_lastLagNanos s\<rparr>)"

section \<open>The ids an instance published\<close>

definition selfSkipTTL :: int where "selfSkipTTL = 30 * 10 ^ 9"

definition defaultSelfInvalidationCleanupInterval :: "64 word" where
  "defaultSelfInvalidationCleanupInterval = 128"

record selfSkipSet =
  sk_ids :: "gostring \<rightharpoonup> int"
  sk_publishCount :: "64 word"
  sk_cleanupEvery :: "64 word"

definition sweep :: "int \<Rightarrow> selfSkipSet \<Rightarrow> selfSkipSet" where
  "sweep now s =
     (let cutoff = now - selfSkipTTL in
      s\<lparr>sk_ids := (\<lambda>k. case sk_ids s k of Some t \<Rightarrow> if t < cutoff then None else Some t | None \<Rightarrow> None)\<rparr>)"

text \<open>\<open>now\<close> is read for the entry, \<open>now'\<close> for the sweep, if there is one.\<close>

definition skip_add :: "gostring \<Rightarrow> int \<Rightarrow> int \<Rightarrow> selfSkipSet \<Rightarrow> selfSkipSet" where
  "skip_add i now now' s =
     (let s1 = s\<lparr>sk_ids := (sk_ids s)(i \<mapsto> now)\<rparr>;
          every = (if sk_cleanupEvery s = 0 then defaultSelfInvalidationCleanupInterval else sk_cleanupEvery s);
          s2 = s1\<lparr>sk_publishCount := sk_publishCount s + 1\<rparr>
      in if sk_publishCount s2 mod every = 0 then sweep now' s2 else s2)"

definition skip_forget :: "gostring \<Rightarrow> selfSkipSet \<Rightarrow> selfSkipSet" where
  "skip_forget i s = s\<lparr>sk_ids := (sk_ids s)(i := None)\<rparr>"

definition skip_claim :: "gostring \<Rightarrow> int \<Rightarrow> selfSkipSet \<Rightarrow> selfSkipSet \<times> bool" where
  "skip_claim i now s =
     (case sk_ids s i of
        None \<Rightarrow> (s, False)
      | Some t \<Rightarrow>
          (let s' = s\<lparr>sk_ids := (sk_ids s)(i := None)\<rparr>; age = now - t in
           if age < 0 then (s', False) else (s', age < selfSkipTTL)))"

section \<open>Messages\<close>

definition invalidatePayloadSplitMax :: nat where "invalidatePayloadSplitMax = 2"

text \<open>\<^verbatim>\<open>strings.SplitN(s, ":", 2)\<close> and \<^verbatim>\<open>strings.Cut(s, ":")\<close>.\<close>

definition splitColon :: "gostring \<Rightarrow> gostring list" where
  "splitColon s =
     (if CHR '':'' \<in> set s then [takeWhile (\<lambda>c. c \<noteq> CHR '':'') s, tl (dropWhile (\<lambda>c. c \<noteq> CHR '':'') s)] else [s])"

definition hexDigit :: "int \<Rightarrow> char" where
  "hexDigit n = (if n < 10 then chr (48 + n) else chr (87 + n))"

definition hexBytes :: "8 word list \<Rightarrow> gostring" where
  "hexBytes bs = concat (map (\<lambda>b. [hexDigit (uint b div 16), hexDigit (uint b mod 16)]) bs)"

definition newInvalidationID :: "int \<Rightarrow> 8 word list \<Rightarrow> gostring" where
  "newInvalidationID nanos random = itoa nanos @ [CHR '':''] @ hexBytes random"

definition invalidationPayload :: "gostring \<Rightarrow> gostring \<Rightarrow> gostring" where
  "invalidationPayload name i = name @ [CHR '':''] @ i"

definition isSelfEcho :: "gostring \<Rightarrow> gostring \<Rightarrow> int \<Rightarrow> selfSkipSet \<Rightarrow> selfSkipSet \<times> bool" where
  "isSelfEcho payload name now skip =
     (let parts = splitColon payload in
      if length parts \<noteq> invalidatePayloadSplitMax \<or> parts ! 0 \<noteq> name then (skip, False)
      else skip_claim (parts ! 1) now skip)"

text \<open>A duration is an \<^verbatim>\<open>int64\<close> number of nanoseconds; \<^verbatim>\<open>time.Since\<close> saturates.\<close>

definition duration :: "int \<Rightarrow> int" where
  "duration d = max (- (2 ^ 63)) (min (2 ^ 63 - 1) d)"

definition invalidationLag :: "gostring \<Rightarrow> gostring \<Rightarrow> int \<Rightarrow> int option" where
  "invalidationLag payload name now =
     (let parts = splitColon payload in
      if length parts \<noteq> invalidatePayloadSplitMax \<or> parts ! 0 \<noteq> name then None
      else (let cut = splitColon (parts ! 1) in
        if length cut \<noteq> 2 then None
        else (case parseInt (cut ! 0) of None \<Rightarrow> None | Some published \<Rightarrow> Some (duration (now - published)))))"

definition foreignInvalidation ::
  "gostring \<Rightarrow> gostring \<Rightarrow> int \<Rightarrow> int \<Rightarrow> selfSkipSet \<Rightarrow> cacheStats option \<Rightarrow> selfSkipSet \<times> cacheStats option \<times> bool" where
  "foreignInvalidation payload name now now' skip stats =
     (case isSelfEcho payload name now skip of
        (skip', True) \<Rightarrow> (skip', stats, False)
      | (skip', False) \<Rightarrow>
          (skip', (case invalidationLag payload name now' of Some lag \<Rightarrow> recordInvalidationLag lag stats | None \<Rightarrow> stats), True))"

section \<open>What is skipped\<close>

lemma takeWhile_fresh: "x \<notin> set a \<Longrightarrow> takeWhile (\<lambda>c. c \<noteq> x) (a @ x # b) = a \<and> dropWhile (\<lambda>c. c \<noteq> x) (a @ x # b) = x # b"
  by (induction a) auto

lemma splitColon_append: "CHR '':'' \<notin> set a \<Longrightarrow> splitColon (a @ [CHR '':''] @ b) = [a, b]"
  using takeWhile_fresh[of "CHR '':''" a b] by (simp add: splitColon_def)

lemma digit_not_colon: "is_digit c \<Longrightarrow> c \<noteq> CHR '':''"
  by (auto simp: is_digit_def byte_def)

lemma itoa_no_colon: "CHR '':'' \<notin> set (itoa n)"
  using digits_digits digit_not_colon by (auto simp: itoa_def)

lemma skip_claim_forgets: "sk_ids (fst (skip_claim i now s)) = (sk_ids s)(i := None)"
  by (auto simp: skip_claim_def Let_def split: option.splits)

text \<open>
  C20.  An instance ignores exactly the echoes of its own recent messages, each
  once.  For a collection name without a colon, the message of id \<open>i\<close> is skipped if
  and only if this instance recorded \<open>i\<close>, has not used it up, and did so less than the
  time to live ago on a clock that did not run backwards; whatever happens, the id
  is used up.  Every other message of the collection invalidates, and so does one
  of another name.
\<close>

theorem self_echo_exact:
  assumes "CHR '':'' \<notin> set name" and "CHR '':'' \<notin> set other"
    and "foreignInvalidation (invalidationPayload other i) name now now' skip stats = (skip', stats', foreign)"
  shows "(\<not> foreign \<longleftrightarrow> other = name \<and> (\<exists>t. sk_ids skip i = Some t \<and> t \<le> now \<and> now - t < selfSkipTTL)) \<and>
    sk_ids skip' = (if other = name then (sk_ids skip)(i := None) else sk_ids skip) \<and> (foreign \<or> stats' = stats)"
proof -
  have sp: "splitColon (invalidationPayload other i) = [other, i]"
    unfolding invalidationPayload_def by (rule splitColon_append[OF assms(2)])
  have e: "isSelfEcho (invalidationPayload other i) name now skip = (if other = name then skip_claim i now skip else (skip, False))"
    by (simp add: isSelfEcho_def sp invalidatePayloadSplitMax_def)
  obtain sk self where c: "(if other = name then skip_claim i now skip else (skip, False)) = (sk, self)" by fastforce
  have eq: "skip' = sk" "foreign = (\<not> self)" "self \<longrightarrow> stats' = stats"
    using assms(3) unfolding foreignInvalidation_def e c by (auto split: bool.splits)
  have "sk_ids sk = (if other = name then (sk_ids skip)(i := None) else sk_ids skip)"
    using c skip_claim_forgets[of i now skip] by (auto split: if_splits)
  moreover have "\<not> foreign \<longleftrightarrow> other = name \<and> (\<exists>t. sk_ids skip i = Some t \<and> t \<le> now \<and> now - t < selfSkipTTL)"
    using c eq(2) by (auto simp: skip_claim_def Let_def split: if_splits option.splits)
  ultimately show ?thesis using eq by blast
qed

theorem self_echo_exact_witness:
  "let s = skip_add ''7:0a'' 100 100 \<lparr>sk_ids = Map.empty, sk_publishCount = 0, sk_cleanupEvery = 0\<rparr>;
       r = foreignInvalidation (invalidationPayload ''words'' ''7:0a'') ''words'' 150 150 s None
   in \<not> snd (snd r) \<and> sk_ids (fst r) ''7:0a'' = None"
proof -
  define s where "s = skip_add ''7:0a'' 100 100 \<lparr>sk_ids = Map.empty, sk_publishCount = 0, sk_cleanupEvery = 0\<rparr>"
  have t: "sk_ids s ''7:0a'' = Some 100"
    by (simp add: s_def skip_add_def Let_def sweep_def selfSkipTTL_def)
  obtain skip' stats' foreign where r: "foreignInvalidation (invalidationPayload ''words'' ''7:0a'') ''words'' 150 150 s None = (skip', stats', foreign)"
    by (metis prod_cases3)
  have c: "CHR '':'' \<notin> set ''words''" by simp
  from self_echo_exact[OF c c r] t have "\<not> foreign" "sk_ids skip' ''7:0a'' = None" by (simp_all add: selfSkipTTL_def)
  with r show ?thesis by (simp add: Let_def s_def)
qed

text \<open>
  The delivery lag is read back from the id a publisher made: for a message
  with an id of \<open>newInvalidationID\<close>, it is the time since the id's timestamp.
\<close>

theorem lag_roundtrip:
  assumes "CHR '':'' \<notin> set name" and "int64_range nanos"
  shows "invalidationLag (invalidationPayload name (newInvalidationID nanos random)) name now = Some (duration (now - nanos))"
proof -
  have "splitColon (invalidationPayload name (newInvalidationID nanos random)) = [name, newInvalidationID nanos random]"
    unfolding invalidationPayload_def by (rule splitColon_append[OF assms(1)])
  moreover have "splitColon (newInvalidationID nanos random) = [itoa nanos, hexBytes random]"
    unfolding newInvalidationID_def by (rule splitColon_append[OF itoa_no_colon])
  ultimately show ?thesis by (simp add: invalidationLag_def invalidatePayloadSplitMax_def parseInt_itoa[OF assms(2)])
qed

theorem lag_roundtrip_witness:
  "invalidationLag (invalidationPayload ''words'' (newInvalidationID 1700000000000000000 [0, 255])) ''words'' 1700000000000000042 = Some 42"
  using lag_roundtrip[of "''words''" 1700000000000000000 "[0, 255]" 1700000000000000042] by (simp add: int64_range_def duration_def)

end
