(* ===== verification/V2_Store.thy ===== *)
theory V2_Store
  imports V2_Plan Invalidation Engine_Handle
begin

text \<open>
  The V2 schema in Redis: \<^verbatim>\<open>pkg/acor/keys.go\<close>, \<^verbatim>\<open>v2_transaction.go\<close>, \<^verbatim>\<open>v2_lua.go\<close>,
  \<^verbatim>\<open>v2_ops.go\<close>, \<^verbatim>\<open>cache.go\<close> and the batch writes of \<^verbatim>\<open>batch_atomic.go\<close>.

  A collection is two Redis hashes.  A field holding a JSON document is modelled by
  what decoding yields: its value, or the error of a text that does not decode.
  Encoding replaces each byte that is not part of a valid rune by the replacement
  rune (\<open>json_str\<close>).  Versions are kept as the decimal texts Redis compares.

  Redis commands are atomic and other clients run between them: before each
  command the next of \<open>w_env\<close> is applied to the keys.  A command may fail before
  it runs or lose its reply after it ran (\<open>cmd_io\<close>).
\<close>

section \<open>Keys\<close>

definition keyPrefix :: "gostring \<Rightarrow> gostring" where "keyPrefix name = ''{'' @ name @ ''}''"
definition keywordKey :: "gostring \<Rightarrow> gostring" where "keywordKey name = keyPrefix name @ '':keyword''"
definition prefixKey :: "gostring \<Rightarrow> gostring" where "prefixKey name = keyPrefix name @ '':prefix''"
definition suffixKey :: "gostring \<Rightarrow> gostring" where "suffixKey name = keyPrefix name @ '':suffix''"
definition outputKey :: "gostring \<Rightarrow> gostring \<Rightarrow> gostring" where "outputKey name state = keyPrefix name @ '':output:'' @ state"
definition nodeKey :: "gostring \<Rightarrow> gostring \<Rightarrow> gostring" where "nodeKey name keyword = keyPrefix name @ '':node:'' @ keyword"
definition trieKey :: "gostring \<Rightarrow> gostring" where "trieKey name = keyPrefix name @ '':trie''"
definition outputsKey :: "gostring \<Rightarrow> gostring" where "outputsKey name = keyPrefix name @ '':outputs''"
definition nodesKey :: "gostring \<Rightarrow> gostring" where "nodesKey name = keyPrefix name @ '':nodes''"

section \<open>The stored collection\<close>

datatype 'a json = Json 'a | BadJson acorError

record trieHash =
  th_keywords :: "gostring list json option"
  th_prefixes :: "gostring list json option"
  th_version :: "gostring option"

record v2keys =
  vk_trie :: "trieHash option"
  vk_outputs :: "gostring \<rightharpoonup> gostring list json"
  vk_nodes :: bool

definition json_str :: "gostring \<Rightarrow> gostring" where "json_str s = string_of (runes s)"

definition SchemaV2 :: nat where "SchemaV2 = 2"

text \<open>\<^verbatim>\<open>json.Unmarshal\<close> of a field that may be absent.\<close>

fun unmarshal :: "gostring list json option \<Rightarrow> gostring list result" where
  "unmarshal None = Inr []"
| "unmarshal (Some (Json xs)) = Inr xs"
| "unmarshal (Some (BadJson err)) = Inl (newOperationError ''unmarshal'' SchemaV2 err)"

definition parseTrieVersion :: "gostring option \<Rightarrow> int" where
  "parseTrieVersion value = (case value of None \<Rightarrow> 0 | Some s \<Rightarrow> (case json_int s of None \<Rightarrow> 0 | Some v \<Rightarrow> v))"

definition emptyTrieFields :: "int \<Rightarrow> trieHash" where
  "emptyTrieFields now = \<lparr>th_keywords = Some (Json []), th_prefixes = Some (Json [[]]), th_version = Some (itoa now)\<rparr>"

definition snapshot_of :: "trieHash option \<Rightarrow> trieSnapshot result" where
  "snapshot_of trie =
     (case trie of
        None \<Rightarrow> Inr \<lparr>ts_Keywords = [], ts_Prefixes = [], ts_Version = 0\<rparr>
      | Some t \<Rightarrow>
          bindR (unmarshal (th_keywords t)) (\<lambda>ks.
          bindR (unmarshal (th_prefixes t)) (\<lambda>ps.
            Inr \<lparr>ts_Keywords = ks, ts_Prefixes = ps, ts_Version = parseTrieVersion (th_version t)\<rparr>)))"

section \<open>One client among others\<close>

datatype cmd_io = CmdOk | CmdFailed acorError | CmdLost acorError

record trieCache =
  tc_engine :: "Engine option"
  tc_valid :: bool
  tc_selfSkip :: selfSkipSet

record engineMemo =
  em_engine :: "Engine option"
  em_digest :: "64 word"

text \<open>
  The keys, what other clients will do to them, how the commands will fare, and
  what the random source, the clock, the waits between attempts and the
  invalidation ids will be; with the local cache of this client, if it has one,
  the memo it uses otherwise, its counters and the messages it sent.
\<close>

record world =
  w_keys :: v2keys
  w_env :: "(v2keys \<Rightarrow> v2keys) list"
  w_io :: "cmd_io list"
  w_versions :: "int result list"
  w_clock :: "int list"
  w_waits :: "acorError option list"
  w_ids :: "gostring list"
  w_cache :: "trieCache option"
  w_memo :: engineMemo
  w_stats :: "cacheStats option"
  w_sent :: "gostring list"

definition next_or :: "'a \<Rightarrow> 'a list \<Rightarrow> 'a" where "next_or d xs = (case xs of [] \<Rightarrow> d | x # _ \<Rightarrow> x)"

definition others :: "world \<Rightarrow> world" where
  "others w = w\<lparr>w_keys := next_or id (w_env w) (w_keys w), w_env := tl (w_env w)\<rparr>"

definition command :: "(v2keys \<Rightarrow> v2keys \<times> 'a) \<Rightarrow> world \<Rightarrow> world \<times> 'a result" where
  "command f w =
     (let w1 = others w; w2 = w1\<lparr>w_io := tl (w_io w)\<rparr>; (k, x) = f (w_keys w1) in
      case next_or CmdOk (w_io w) of
        CmdOk \<Rightarrow> (w2\<lparr>w_keys := k\<rparr>, Inr x)
      | CmdFailed err \<Rightarrow> (w2, Inl err)
      | CmdLost err \<Rightarrow> (w2\<lparr>w_keys := k\<rparr>, Inl err))"

definition readTrieSnapshot :: "gostring \<Rightarrow> world \<Rightarrow> world \<times> trieSnapshot result" where
  "readTrieSnapshot name w =
     (case command (\<lambda>k. (k, vk_trie k)) w of
        (w', Inl err) \<Rightarrow> (w', Inl (newRedisError ''HGETALL'' (trieKey name) err))
      | (w', Inr trie) \<Rightarrow> (w', snapshot_of trie))"

definition readTrieVersion :: "gostring \<Rightarrow> world \<Rightarrow> world \<times> int result" where
  "readTrieVersion name w =
     (case command (\<lambda>k. (k, Option.bind (vk_trie k) th_version)) w of
        (w', Inl err) \<Rightarrow> (w', Inl (newRedisError ''HGET'' (trieKey name) err))
      | (w', Inr value) \<Rightarrow> (w', Inr (parseTrieVersion value)))"

section \<open>Writing\<close>

record v2ScriptArgs =
  sa_OldVersion :: int
  sa_NewVersion :: int
  sa_Keywords :: "gostring list"
  sa_Prefixes :: "gostring list"
  sa_Outputs :: "(gostring \<times> gostring list) list"
  sa_ClearOutputs :: bool

text \<open>The script: its JSON arguments are given by what they decode to.\<close>

definition v2WriteScript :: "v2ScriptArgs \<Rightarrow> v2keys \<Rightarrow> v2keys \<times> int" where
  "v2WriteScript args k =
     (let currentVersion = Option.bind (vk_trie k) th_version in
      if currentVersion \<noteq> None \<and> currentVersion \<noteq> Some (itoa (sa_OldVersion args)) then (k, 0)
      else
        (let trie = \<lparr>th_keywords = Some (Json (sa_Keywords args)), th_prefixes = Some (Json (sa_Prefixes args)),
               th_version = Some (itoa (sa_NewVersion args))\<rparr>;
             cleared = (if sa_ClearOutputs args then Map.empty else vk_outputs k)
         in (k\<lparr>vk_trie := Some trie, vk_outputs := fold (\<lambda>(state, outs) h. h(state \<mapsto> Json outs)) (sa_Outputs args) cleared\<rparr>, 1)))"

text \<open>\<^verbatim>\<open>json.Marshal\<close> sorts the keys of a map by their bytes.\<close>

fun bytes_le :: "gostring \<Rightarrow> gostring \<Rightarrow> bool" where
  "bytes_le [] t \<longleftrightarrow> True"
| "bytes_le (c # s) [] \<longleftrightarrow> False"
| "bytes_le (c # s) (d # t) \<longleftrightarrow> byte c < byte d \<or> c = d \<and> bytes_le s t"

fun insert_entry :: "gostring \<times> 'a \<Rightarrow> (gostring \<times> 'a) list \<Rightarrow> (gostring \<times> 'a) list" where
  "insert_entry e [] = [e]"
| "insert_entry e (f # fs) = (if bytes_le (fst e) (fst f) then e # f # fs else f # insert_entry e fs)"

definition marshalTrieArgs :: "trieSnapshot \<Rightarrow> state_outputs \<Rightarrow> int \<Rightarrow> bool \<Rightarrow> v2ScriptArgs" where
  "marshalTrieArgs snap outputs newVersion clearOutputs =
     \<lparr>sa_OldVersion = ts_Version snap, sa_NewVersion = newVersion, sa_Keywords = map json_str (ts_Keywords snap),
      sa_Prefixes = map json_str (ts_Prefixes snap),
      sa_Outputs = map (\<lambda>(state, outs). (json_str state, map json_str outs)) (foldr insert_entry outputs []),
      sa_ClearOutputs = clearOutputs\<rparr>"

definition commitV2Write :: "gostring \<Rightarrow> trieSnapshot \<Rightarrow> state_outputs \<Rightarrow> bool \<Rightarrow> world \<Rightarrow> world \<times> int result" where
  "commitV2Write name snap outputs clearOutputs w =
     (let w1 = w\<lparr>w_versions := tl (w_versions w)\<rparr> in
      case next_or (Inr 1) (w_versions w) of
        Inl err \<Rightarrow> (w1, Inl err)
      | Inr newVersion \<Rightarrow>
          (case command (v2WriteScript (marshalTrieArgs snap outputs newVersion clearOutputs)) w1 of
             (w2, Inl err) \<Rightarrow> (w2, Inl (newRedisError ''EVAL'' (trieKey name) err))
           | (w2, Inr result) \<Rightarrow> (w2, if result = 0 then Inl ErrConcurrencyConflict else Inr newVersion)))"

definition flushV2Keys :: "gostring \<Rightarrow> world \<Rightarrow> world \<times> unit result" where
  "flushV2Keys name w =
     (let now = next_or 1 (w_clock w); w1 = w\<lparr>w_clock := tl (w_clock w)\<rparr> in
      case command (\<lambda>k. (k\<lparr>vk_trie := Some (emptyTrieFields now), vk_outputs := Map.empty, vk_nodes := False\<rparr>, ())) w1 of
        (w2, Inl err) \<Rightarrow> (w2, Inl (newRedisError ''TXPIPELINED'' (trieKey name) err))
      | (w2, Inr u) \<Rightarrow> (w2, Inr u))"

definition maxRetries :: nat where "maxRetries = 3"

text \<open>The attempts that are left; after a lost race, \<^verbatim>\<open>select\<close> waits for the context or the timer.\<close>

fun retryFrom :: "nat \<Rightarrow> (world \<Rightarrow> world \<times> 'a result) \<Rightarrow> world \<Rightarrow> world \<times> 'a result" where
  "retryFrom 0 attempt w = (w, Inl ErrConcurrencyConflict)"
| "retryFrom (Suc n) attempt w =
     (case attempt w of
        (w1, Inr x) \<Rightarrow> (w1, Inr x)
      | (w1, Inl err) \<Rightarrow>
          if \<not> errors_Is err ErrConcurrencyConflict then (w1, Inl err)
          else if n = 0 then (w1, Inl ErrConcurrencyConflict)
          else (let w2 = w1\<lparr>w_waits := tl (w_waits w1)\<rparr> in
            case next_or None (w_waits w1) of
              Some ctxErr \<Rightarrow> (w2, Inl ctxErr)
            | None \<Rightarrow> retryFrom n attempt w2))"

definition retryOnConflict :: "(world \<Rightarrow> world \<times> 'a result) \<Rightarrow> world \<Rightarrow> world \<times> 'a result" where
  "retryOnConflict = retryFrom maxRetries"

section \<open>The cache and its invalidation\<close>

definition cache_invalidate :: "trieCache \<Rightarrow> trieCache" where
  "cache_invalidate c = c\<lparr>tc_valid := False\<rparr>"

definition update_cache :: "(trieCache \<Rightarrow> trieCache) \<Rightarrow> world \<Rightarrow> world" where
  "update_cache f w = w\<lparr>w_cache := map_option f (w_cache w)\<rparr>"

text \<open>Publishing reads the clock when it records the id and when it sweeps, and sends one message.\<close>

definition publishInvalidate :: "gostring \<Rightarrow> world \<Rightarrow> world" where
  "publishInvalidate name w =
     (let msgID = next_or [] (w_ids w);
          now = next_or 0 (w_clock w); now' = next_or 0 (tl (w_clock w));
          w1 = w\<lparr>w_ids := tl (w_ids w), w_clock := tl (tl (w_clock w)), w_io := tl (w_io w)\<rparr>;
          w2 = update_cache (\<lambda>c. c\<lparr>tc_selfSkip := skip_add msgID now now' (tc_selfSkip c)\<rparr>) w1;
          sent = w2\<lparr>w_sent := w_sent w2 @ [invalidationPayload name msgID]\<rparr>;
          forget = update_cache (\<lambda>c. c\<lparr>tc_selfSkip := skip_forget msgID (tc_selfSkip c)\<rparr>)
      in update_cache cache_invalidate
           (case next_or CmdOk (w_io w) of CmdOk \<Rightarrow> sent | CmdFailed err \<Rightarrow> forget w2 | CmdLost err \<Rightarrow> forget sent))"

section \<open>The operations\<close>

definition tryAddV2 :: "gostring \<Rightarrow> gostring \<Rightarrow> world \<Rightarrow> world \<times> nat result" where
  "tryAddV2 name keyword w =
     (case readTrieSnapshot name w of
        (w1, Inl err) \<Rightarrow> (w1, Inl err)
      | (w1, Inr snap) \<Rightarrow>
          (case planAdd snap keyword of (snap', outputs, changed) \<Rightarrow>
             if \<not> changed then (w1, Inr 0)
             else (case commitV2Write name snap' outputs False w1 of
                 (w2, Inl err) \<Rightarrow> (w2, Inl err)
               | (w2, Inr v) \<Rightarrow> (publishInvalidate name w2, Inr 1))))"

definition tryRemoveV2 :: "gostring \<Rightarrow> gostring \<Rightarrow> world \<Rightarrow> world \<times> nat result" where
  "tryRemoveV2 name keyword w =
     (case readTrieSnapshot name w of
        (w1, Inl err) \<Rightarrow> (w1, Inl err)
      | (w1, Inr snap) \<Rightarrow>
          (case planRemove snap keyword of (snap', outputs, changed) \<Rightarrow>
             if \<not> changed then (w1, Inr 0)
             else (case commitV2Write name snap' outputs True w1 of
                 (w2, Inl err) \<Rightarrow> (w2, Inl err)
               | (w2, Inr v) \<Rightarrow> (publishInvalidate name w2, Inr 1))))"

definition v2_add :: "unicode \<Rightarrow> gostring \<Rightarrow> bool \<Rightarrow> gostring \<Rightarrow> world \<Rightarrow> world \<times> nat result" where
  "v2_add u name caseSensitive keyword0 w =
     (let keyword = normalizeKeyword u keyword0 caseSensitive in
      if keyword = [] then (w, Inr 0) else retryOnConflict (tryAddV2 name keyword) w)"

definition v2_remove :: "unicode \<Rightarrow> gostring \<Rightarrow> bool \<Rightarrow> gostring \<Rightarrow> world \<Rightarrow> world \<times> nat result" where
  "v2_remove u name caseSensitive keyword0 w =
     (let keyword = normalizeKeyword u keyword0 caseSensitive in
      if keyword = [] then (w, Inr 0) else retryOnConflict (tryRemoveV2 name keyword) w)"

definition v2_flush :: "gostring \<Rightarrow> world \<Rightarrow> world \<times> unit result" where
  "v2_flush name w =
     (case flushV2Keys name w of
        (w1, Inl err) \<Rightarrow> (w1, Inl err)
      | (w1, Inr u) \<Rightarrow> (publishInvalidate name w1, Inr ()))"

text \<open>
  A batch in one transaction; \<open>afterCommit\<close> is what a mode does with the committed
  snapshot and version.
\<close>

definition applyManyAtomic ::
  "gostring \<Rightarrow> gostring list \<Rightarrow> bool \<Rightarrow> (trieSnapshot \<Rightarrow> gostring list \<Rightarrow> trieSnapshot \<times> state_outputs \<times> gostring list) \<Rightarrow>
   (trieSnapshot \<Rightarrow> int \<Rightarrow> world \<Rightarrow> world) \<Rightarrow> world \<Rightarrow> world \<times> gostring list result" where
  "applyManyAtomic name keywords clearOutputs plan afterCommit =
     retryOnConflict (\<lambda>w.
       case readTrieSnapshot name w of
         (w1, Inl err) \<Rightarrow> (w1, Inl err)
       | (w1, Inr snap) \<Rightarrow>
           (case plan snap keywords of (snap', outputs, changed) \<Rightarrow>
              if changed = [] then (w1, Inr [])
              else (case commitV2Write name snap' outputs clearOutputs w1 of
                  (w2, Inl err) \<Rightarrow> (w2, Inl err)
                | (w2, Inr v) \<Rightarrow> (afterCommit snap' v w2, Inr changed))))"

definition v2_addManyAtomic :: "gostring \<Rightarrow> gostring list \<Rightarrow> world \<Rightarrow> world \<times> gostring list result" where
  "v2_addManyAtomic name keywords w =
     (case applyManyAtomic name keywords False planAddMany (\<lambda>_ _ w. w) w of
        (w1, Inl err) \<Rightarrow> (w1, Inl err)
      | (w1, Inr added) \<Rightarrow> (if added \<noteq> [] then publishInvalidate name w1 else w1, Inr added))"

definition v2_removeManyAtomic :: "gostring \<Rightarrow> gostring list \<Rightarrow> world \<Rightarrow> world \<times> gostring list result" where
  "v2_removeManyAtomic name keywords w =
     (case applyManyAtomic name keywords True planRemoveMany (\<lambda>_ _ w. w) w of
        (w1, Inl err) \<Rightarrow> (w1, Inl err)
      | (w1, Inr removed) \<Rightarrow> (if removed \<noteq> [] then publishInvalidate name w1 else w1, Inr removed))"

end
