(* ===== verification/V2_Writes.thy ===== *)
theory V2_Writes
  imports V2_Store Matches
begin

text \<open>
  The V2 write operations of \<^verbatim>\<open>v2_transaction.go\<close> and \<^verbatim>\<open>v2_ops.go\<close> take effect at one
  instant, whatever other clients do between the commands: the optimistic lock.
\<close>

section \<open>Well-formed stores\<close>

text \<open>The snapshot that the keys stand for.\<close>

definition stored :: "v2keys \<Rightarrow> trieSnapshot" where
  "stored k = (case snapshot_of (vk_trie k) of Inr s \<Rightarrow> s | Inl err \<Rightarrow> \<lparr>ts_Keywords = [], ts_Prefixes = [], ts_Version = 0\<rparr>)"

definition rawVersion :: "v2keys \<Rightarrow> gostring option" where
  "rawVersion k = Option.bind (vk_trie k) th_version"

text \<open>
  The trie hash is absent or complete, with a version that is an integer of 64
  bits other than zero; the outputs hash holds the output lists of its keywords.
\<close>

definition trie_of :: "trieSnapshot \<Rightarrow> trieHash" where
  "trie_of s = \<lparr>th_keywords = Some (Json (ts_Keywords s)), th_prefixes = Some (Json (ts_Prefixes s)), th_version = Some (itoa (ts_Version s))\<rparr>"

definition store_ok :: "v2keys \<Rightarrow> bool" where
  "store_ok k \<longleftrightarrow> snap_ok (stored k) \<and> vk_outputs k = map_option Json \<circ> outputs_of (stored k) \<and>
     (vk_trie k \<noteq> None \<longrightarrow> vk_trie k = Some (trie_of (stored k)) \<and> ts_Version (stored k) \<noteq> 0 \<and> int64_range (ts_Version (stored k)))"

lemma parseTrieVersion_itoa: "int64_range v \<Longrightarrow> parseTrieVersion (Some (itoa v)) = v"
  by (simp add: parseTrieVersion_def json_int_itoa)

lemma snapshot_trie_of: "int64_range (ts_Version s) \<Longrightarrow> snapshot_of (Some (trie_of s)) = Inr s"
  by (simp add: snapshot_of_def trie_of_def parseTrieVersion_itoa)

lemma store_ok_snapshot: "store_ok k \<Longrightarrow> snapshot_of (vk_trie k) = Inr (stored k)"
  by (cases "vk_trie k") (auto simp: store_ok_def snapshot_trie_of, simp add: stored_def snapshot_of_def)

lemma store_okI:
  assumes "snap_ok s" and "ts_Version s \<noteq> 0" and "int64_range (ts_Version s)"
    and "vk_trie k = Some (trie_of s)" and "vk_outputs k = map_option Json \<circ> outputs_of s"
  shows "store_ok k \<and> stored k = s"
  using assms by (auto simp: store_ok_def stored_def snapshot_trie_of)

lemma rawVersion_ok:
  assumes "store_ok k"
  shows "rawVersion k = (if vk_trie k = None then None else Some (itoa (ts_Version (stored k))))"
    and "vk_trie k = None \<Longrightarrow> stored k = \<lparr>ts_Keywords = [], ts_Prefixes = [], ts_Version = 0\<rparr>"
proof -
  show "rawVersion k = (if vk_trie k = None then None else Some (itoa (ts_Version (stored k))))"
  proof (cases "vk_trie k")
    case (Some t)
    then have "t = trie_of (stored k)" using assms by (simp add: store_ok_def)
    then show ?thesis by (simp add: rawVersion_def Some) (simp add: trie_of_def)
  qed (simp add: rawVersion_def)
qed (simp add: stored_def snapshot_of_def)

lemma itoa_inject: "int64_range a \<Longrightarrow> int64_range b \<Longrightarrow> itoa a = itoa b \<longleftrightarrow> a = b"
  using json_int_itoa by (metis option.inject)

section \<open>The script\<close>

lemma set_insert_entry: "set (insert_entry e xs) = insert e (set xs)"
  by (induction xs) auto

lemma set_sorted_entries: "set (foldr insert_entry xs []) = set xs"
  by (induction xs) (auto simp: set_insert_entry)

lemma distinct_insert_entry: "distinct (map fst (insert_entry e xs)) \<longleftrightarrow> fst e \<notin> fst ` set xs \<and> distinct (map fst xs)"
  by (induction xs) (auto simp: set_insert_entry)

lemma distinct_sorted_entries: "distinct (map fst (foldr insert_entry xs [])) \<longleftrightarrow> distinct (map fst xs)"
  by (induction xs) (auto simp: distinct_insert_entry set_sorted_entries)

lemma map_of_sorted_entries:
  assumes "distinct (map fst xs)"
  shows "map_of (rev (foldr insert_entry xs [])) = map_of xs"
  using assms by (subst map_of_inject_set) (simp_all add: rev_map[symmetric] distinct_sorted_entries set_sorted_entries)

lemma write_entries:
  "fold (\<lambda>(state, outs) h. h(state \<mapsto> Json outs)) xs h = h ++ (map_option Json \<circ> map_of (rev xs))"
  by (induction xs arbitrary: h) (auto simp: map_add_def fun_eq_iff split: option.splits)

lemma json_str_id: "utf8_ok s \<Longrightarrow> json_str s = s"
  by (simp add: json_str_def utf8_ok_def)

text \<open>Encoding loses nothing of a well-formed plan.\<close>

lemma marshalTrieArgs_ok:
  assumes s: "snap_ok s" and d: "distinct (map fst outs)" and o: "\<And>p l. map_of outs p = Some l \<Longrightarrow> outputs_of s p = Some l"
  shows "marshalTrieArgs s outs v clear =
    \<lparr>sa_OldVersion = ts_Version s, sa_NewVersion = v, sa_Keywords = ts_Keywords s, sa_Prefixes = ts_Prefixes s,
     sa_Outputs = foldr insert_entry outs [], sa_ClearOutputs = clear\<rparr>"
proof -
  note D = snap_okD[OF s]
  have k: "map json_str (ts_Keywords s) = ts_Keywords s" using D(2) by (intro map_idI) (auto intro: json_str_id)
  have p: "map json_str (ts_Prefixes s) = ts_Prefixes s"
  proof (intro map_idI json_str_id)
    fix p assume "p \<in> set (ts_Prefixes s)"
    then show "utf8_ok p" using D(4)[of p] by (cases "p = []") (auto simp: live_prefixes_def utf8_ok_def)
  qed
  have e: "(json_str p, map json_str l) = (p, l)" if "(p, l) \<in> set outs" for p l
  proof -
    have "outputs_of s p = Some l" using o[of p l] that d by simp
    then have "p \<in> live_prefixes (set (ts_Keywords s))" "set l \<subseteq> set (ts_Keywords s)"
      by (auto simp: outputs_of_def state_keywords_def split: if_splits)
    with D(2) have "utf8_ok p" "\<forall>x \<in> set l. utf8_ok x" by (auto simp: live_prefixes_def)
    then show ?thesis by (auto simp: json_str_id intro: map_idI)
  qed
  have "map (\<lambda>(state, outs). (json_str state, map json_str outs)) (foldr insert_entry outs []) = foldr insert_entry outs []"
    using e by (intro map_idI) (auto simp: set_sorted_entries)
  then show ?thesis by (simp add: marshalTrieArgs_def k p)
qed

text \<open>What a write plan owes to the script.\<close>

type_synonym 'r write_plan = "trieSnapshot \<Rightarrow> trieSnapshot \<times> state_outputs \<times> bool \<times> 'r"

definition plan_ok :: "bool \<Rightarrow> 'r write_plan \<Rightarrow> bool" where
  "plan_ok clear plan \<longleftrightarrow> (\<forall>s s' outs r. snap_ok s \<longrightarrow> plan s = (s', outs, True, r) \<longrightarrow>
     snap_ok s' \<and> distinct (map fst outs) \<and> ts_Version s' = ts_Version s \<and>
     (if clear then map_of outs else outputs_of s ++ map_of outs) = outputs_of s')"

lemma plan_okD:
  assumes "plan_ok clear plan" and "snap_ok s" and "plan s = (s', outs, True, r)"
  shows "snap_ok s'" "distinct (map fst outs)" "ts_Version s' = ts_Version s"
    "(if clear then map_of outs else outputs_of s ++ map_of outs) = outputs_of s'"
  using assms unfolding plan_ok_def by blast+

lemma v2WriteScript_commits:
  assumes plan: "plan_ok clear plan" "plan (stored k) = (s', outs, True, r)" and k: "store_ok k" and v: "int64_range v" "v \<noteq> 0"
    and run: "v2WriteScript (marshalTrieArgs s' outs v clear) k = (k', x)"
  shows "x = 1 \<and> store_ok k' \<and> stored k' = s'\<lparr>ts_Version := v\<rparr>"
proof -
  have sk: "snap_ok (stored k)" using k by (simp add: store_ok_def)
  note P = plan_okD[OF plan(1) sk plan(2)]
  have m: "marshalTrieArgs s' outs v clear = \<lparr>sa_OldVersion = ts_Version s', sa_NewVersion = v, sa_Keywords = ts_Keywords s',
      sa_Prefixes = ts_Prefixes s', sa_Outputs = foldr insert_entry outs [], sa_ClearOutputs = clear\<rparr>"
  proof (rule marshalTrieArgs_ok[OF P(1,2)])
    fix p l assume "map_of outs p = Some l"
    then have "(if clear then map_of outs else outputs_of (stored k) ++ map_of outs) p = Some l" by simp
    then show "outputs_of s' p = Some l" unfolding P(4) .
  qed
  have cur: "\<not> (Option.bind (vk_trie k) th_version \<noteq> None \<and> Option.bind (vk_trie k) th_version \<noteq> Some (itoa (ts_Version s')))"
    using rawVersion_ok(1)[OF k] unfolding rawVersion_def[symmetric] P(3) by (auto split: if_splits)
  let ?s = "s'\<lparr>ts_Version := v\<rparr>"
  let ?base = "if clear then Map.empty else vk_outputs k"
  have outs: "fold (\<lambda>(state, outs) h. h(state \<mapsto> Json outs)) (foldr insert_entry outs []) ?base = map_option Json \<circ> outputs_of ?s"
  proof -
    have "outputs_of ?s = outputs_of s'" by (simp add: outputs_of_def fun_eq_iff)
    moreover have "?base ++ (map_option Json \<circ> map_of outs) = map_option Json \<circ> (if clear then map_of outs else outputs_of (stored k) ++ map_of outs)"
      using k by (auto simp: store_ok_def map_add_def fun_eq_iff split: option.splits)
    ultimately show ?thesis unfolding write_entries map_of_sorted_entries[OF P(2)] P(4) by simp
  qed
  have r: "k' = k\<lparr>vk_trie := Some (trie_of ?s), vk_outputs := map_option Json \<circ> outputs_of ?s\<rparr>" "x = 1"
    using run cur unfolding m v2WriteScript_def by (auto simp: outs trie_of_def Let_def)
  have "snap_ok ?s" using P(1) by (simp add: snap_ok_def)
  then have "store_ok k' \<and> stored k' = ?s" by (rule store_okI) (simp_all add: r v)
  with r show ?thesis by simp
qed

lemma v2WriteScript_rejects:
  assumes "Option.bind (vk_trie k) th_version \<notin> {None, Some (itoa (sa_OldVersion args))}"
  shows "v2WriteScript args k = (k, 0)"
  using assms by (auto simp: v2WriteScript_def Let_def)

section \<open>Other clients, and what one attempt does\<close>

text \<open>
  What the others do between two commands keeps the keys well-formed, does not
  delete the trie hash, and leaves everything as it was when it leaves the version
  as it was.
\<close>

definition others_ok :: "(v2keys \<Rightarrow> v2keys) \<Rightarrow> bool" where
  "others_ok f \<longleftrightarrow> (\<forall>k. store_ok k \<longrightarrow> store_ok (f k) \<and> (rawVersion k \<noteq> None \<longrightarrow> rawVersion (f k) \<noteq> None) \<and>
     (rawVersion (f k) = rawVersion k \<longrightarrow> f k = k))"

definition version_ok :: "int result \<Rightarrow> bool" where
  "version_ok r \<longleftrightarrow> (case r of Inl err \<Rightarrow> \<not> errors_Is err ErrConcurrencyConflict | Inr v \<Rightarrow> int64_range v \<and> v \<noteq> 0)"

text \<open>An error of the connection is not the conflict error of this package.\<close>

definition io_ok :: "cmd_io \<Rightarrow> bool" where
  "io_ok c \<longleftrightarrow> (case c of CmdOk \<Rightarrow> True | CmdFailed err \<Rightarrow> \<not> errors_Is err ErrConcurrencyConflict | CmdLost err \<Rightarrow> \<not> errors_Is err ErrConcurrencyConflict)"

definition world_ok :: "world \<Rightarrow> bool" where
  "world_ok w \<longleftrightarrow> store_ok (w_keys w) \<and> list_all others_ok (w_env w) \<and> list_all version_ok (w_versions w) \<and> list_all io_ok (w_io w)"

definition elapsed :: "nat \<Rightarrow> world \<Rightarrow> v2keys" where
  "elapsed n w = fold id (take n (w_env w)) (w_keys w)"

lemma elapsed_store_ok:
  assumes "list_all others_ok fs" and "store_ok k"
  shows "store_ok (fold id (take n fs) k)"
  using assms
proof (induction fs arbitrary: n k)
  case (Cons f fs)
  then show ?case by (cases n) (auto simp: others_ok_def)
qed simp

lemma elapsed_Suc: "fold id (take (Suc n) fs) k = fold id (take n (tl fs)) (next_or id fs k)"
  by (cases fs) (auto simp: next_or_def)

lemma next_env: "list_all others_ok fs \<Longrightarrow> others_ok (next_or id fs)"
  by (cases fs) (auto simp: next_or_def others_ok_def)

lemma list_all_tl: "list_all P xs \<Longrightarrow> list_all P (tl xs)"
  by (cases xs) auto

lemma next_list_all: "list_all P xs \<Longrightarrow> P d \<Longrightarrow> P (next_or d xs)"
  by (cases xs) (auto simp: next_or_def)

text \<open>
  The outcome of a command: \<open>k\<close> are the keys it ran on and \<open>k'\<close> those it left; when it
  reports an error it ran or not.
\<close>

lemma command_outcome:
  assumes w: "world_ok w" and run: "command f w = (w', r)"
  defines "k \<equiv> next_or id (w_env w) (w_keys w)"
  shows "w_env w' = tl (w_env w)" and "w_versions w' = w_versions w" and "list_all io_ok (w_io w')" and "store_ok k"
    and "others_ok (next_or id (w_env w))"
    and "(\<exists>x. r = Inr x \<and> f k = (w_keys w', x)) \<or>
      (\<exists>err. r = Inl err \<and> \<not> errors_Is err ErrConcurrencyConflict \<and> (w_keys w' = k \<or> w_keys w' = fst (f k)))"
proof -
  have io: "io_ok (next_or CmdOk (w_io w))" using next_list_all[of io_ok "w_io w" CmdOk] w by (simp add: world_ok_def io_ok_def)
  obtain k' x where f: "f k = (k', x)" by fastforce
  show e: "others_ok (next_or id (w_env w))" using w next_env unfolding world_ok_def by blast
  show "store_ok k" using e w unfolding k_def world_ok_def others_ok_def by blast
  have run': "command f w = (let w2 = (others w)\<lparr>w_io := tl (w_io w)\<rparr> in
      case next_or CmdOk (w_io w) of CmdOk \<Rightarrow> (w2\<lparr>w_keys := k'\<rparr>, Inr x) | CmdFailed err \<Rightarrow> (w2, Inl err) | CmdLost err \<Rightarrow> (w2\<lparr>w_keys := k'\<rparr>, Inl err))"
    using f by (simp add: command_def others_def k_def Let_def)
  show "w_env w' = tl (w_env w)" "w_versions w' = w_versions w" "list_all io_ok (w_io w')"
    using run list_all_tl[of io_ok "w_io w"] w unfolding run' world_ok_def
    by (cases "next_or CmdOk (w_io w)"; auto simp: Let_def others_def)+
  show "(\<exists>x. r = Inr x \<and> f k = (w_keys w', x)) \<or>
      (\<exists>err. r = Inl err \<and> \<not> errors_Is err ErrConcurrencyConflict \<and> (w_keys w' = k \<or> w_keys w' = fst (f k)))"
    using run io f unfolding run' by (cases "next_or CmdOk (w_io w)") (auto simp: Let_def others_def io_ok_def k_def)
qed

text \<open>The attempts of all write operations have this form.\<close>

definition attempt ::
  "gostring \<Rightarrow> bool \<Rightarrow> 'r write_plan \<Rightarrow> (trieSnapshot \<Rightarrow> int \<Rightarrow> world \<Rightarrow> world) \<Rightarrow> world \<Rightarrow> world \<times> 'r result" where
  "attempt name clear plan after w =
     (case readTrieSnapshot name w of
        (w1, Inl err) \<Rightarrow> (w1, Inl err)
      | (w1, Inr snap) \<Rightarrow>
          (case plan snap of (snap', outputs, changed, r) \<Rightarrow>
             if \<not> changed then (w1, Inr r)
             else (case commitV2Write name snap' outputs clear w1 of
                 (w2, Inl err) \<Rightarrow> (w2, Inl err)
               | (w2, Inr v) \<Rightarrow> (after snap' v w2, Inr r))))"

text \<open>What the plan does to the keys \<open>k\<close>, and how an operation may end.\<close>

definition effect :: "'r write_plan \<Rightarrow> v2keys \<Rightarrow> v2keys \<Rightarrow> 'r \<Rightarrow> bool" where
  "effect plan k k' r \<longleftrightarrow> (\<exists>s' outs changed. plan (stored k) = (s', outs, changed, r) \<and>
     (if changed then \<exists>v. stored k' = s'\<lparr>ts_Version := v\<rparr> else k' = k))"

definition outcome :: "'r write_plan \<Rightarrow> v2keys \<Rightarrow> v2keys \<Rightarrow> 'r result \<Rightarrow> bool" where
  "outcome plan k k' res \<longleftrightarrow> store_ok k \<and> store_ok k' \<and>
     (case res of
        Inr r \<Rightarrow> effect plan k k' r
      | Inl err \<Rightarrow> k' = k \<or> \<not> errors_Is err ErrConcurrencyConflict \<and> (\<exists>r. effect plan k k' r))"

definition linearized :: "'r write_plan \<Rightarrow> world \<Rightarrow> world \<Rightarrow> 'r result \<Rightarrow> bool" where
  "linearized plan w w' res \<longleftrightarrow>
     (\<exists>n. w_env w' = drop n (w_env w) \<and> outcome plan (elapsed n w) (w_keys w') res) \<and> world_ok w'"

definition quiet :: "(world \<Rightarrow> world) \<Rightarrow> bool" where
  "quiet g \<longleftrightarrow> (\<forall>w. w_keys (g w) = w_keys w \<and> w_env (g w) = w_env w \<and> (world_ok w \<longrightarrow> world_ok (g w)))"

lemma linearized_quiet:
  assumes "quiet g" and "linearized plan w w' res"
  shows "linearized plan w (g w') res"
  using assms unfolding linearized_def quiet_def by simp

lemma readTrieSnapshot_outcome:
  assumes w: "world_ok w" and run: "readTrieSnapshot name w = (w', r)"
  defines "k \<equiv> next_or id (w_env w) (w_keys w)"
  shows "world_ok w' \<and> w_env w' = tl (w_env w) \<and> w_keys w' = k \<and>
    (r = Inr (stored k) \<or> (\<exists>err. r = Inl err \<and> \<not> errors_Is err ErrConcurrencyConflict))"
proof -
  obtain w1 r1 where c: "command (\<lambda>k. (k, vk_trie k)) w = (w1, r1)" by fastforce
  note C = command_outcome[OF w c, folded k_def]
  have ww: "world_ok w1" "w_keys w1 = k" using C w by (auto simp: world_ok_def list_all_tl)
  show ?thesis
  proof (cases r1)
    case (Inl err)
    with C(6) have "\<not> errors_Is err ErrConcurrencyConflict" by auto
    then show ?thesis using run ww C(1) unfolding readTrieSnapshot_def c Inl by (auto simp: newRedisError_def)
  next
    case (Inr x)
    with C(6) have "x = vk_trie k" by auto
    then show ?thesis using run ww C(1) store_ok_snapshot[OF C(4)] unfolding readTrieSnapshot_def c Inr by auto
  qed
qed

text \<open>
  A commit of what was planned from the keys \<open>k\<close>: it is written onto \<open>k\<close>, or refused
  because others wrote, or ends in an error of the connection.
\<close>

lemma commitV2Write_outcome:
  assumes w: "world_ok w" and plan: "plan_ok clear plan" "plan (stored (w_keys w)) = (s', outs, True, r)"
    and run: "commitV2Write name s' outs clear w = (w', res)"
  defines "k2 \<equiv> next_or id (w_env w) (w_keys w)"
  shows "world_ok w' \<and>
    (case res of
       Inr v \<Rightarrow> w_env w' = tl (w_env w) \<and> k2 = w_keys w \<and> effect plan k2 (w_keys w') r
     | Inl err \<Rightarrow> (w_env w' = w_env w \<and> w_keys w' = w_keys w) \<or>
         w_env w' = tl (w_env w) \<and> (w_keys w' = k2 \<or> \<not> errors_Is err ErrConcurrencyConflict \<and> k2 = w_keys w \<and> effect plan k2 (w_keys w') r))"
proof -
  define w1 where "w1 = w\<lparr>w_versions := tl (w_versions w)\<rparr>"
  have ok: "store_ok (w_keys w)" using w by (simp add: world_ok_def)
  have w1: "world_ok w1" "w_keys w1 = w_keys w" "w_env w1 = w_env w" using w by (simp_all add: world_ok_def w1_def list_all_tl)
  have ver: "version_ok (next_or (Inr 1) (w_versions w))"
    using next_list_all[of version_ok "w_versions w" "Inr 1"] w by (simp add: world_ok_def version_ok_def int64_range_def)
  show ?thesis
  proof (cases "next_or (Inr 1) (w_versions w)")
    case (Inl err)
    then have "w' = w1" "res = Inl err" using run unfolding commitV2Write_def w1_def[symmetric] by (simp_all add: Let_def)
    then show ?thesis using w1 by simp
  next
    case (Inr v)
    let ?f = "v2WriteScript (marshalTrieArgs s' outs v clear)"
    obtain w2 x where c: "command ?f w1 = (w2, x)" by fastforce
    note C = command_outcome[OF w1(1) c, unfolded w1(2,3), folded k2_def]
    have v: "int64_range v" "v \<noteq> 0" using ver by (simp_all add: Inr version_ok_def)
    have step: "?f k2 = (k', x') \<Longrightarrow> k2 = w_keys w \<and> x' = 1 \<and> store_ok k' \<and> effect plan k2 k' r \<or> k' = k2 \<and> x' = 0" for k' x'
    proof (cases "rawVersion k2 = rawVersion (w_keys w)")
      case True
      assume f: "?f k2 = (k', x')"
      have "k2 = w_keys w" using C(5) ok True unfolding others_ok_def k2_def by blast
      with v2WriteScript_commits[OF plan ok v, of k' x'] f plan(2) show ?thesis by (auto simp: effect_def)
    next
      case False
      assume f: "?f k2 = (k', x')"
      have "rawVersion (w_keys w) \<noteq> None \<longrightarrow> rawVersion k2 \<noteq> None" using C(5) ok unfolding others_ok_def k2_def by blast
      have sk: "snap_ok (stored (w_keys w))" using ok by (simp add: store_ok_def)
      have old: "sa_OldVersion (marshalTrieArgs s' outs v clear) = ts_Version (stored (w_keys w))"
        using plan_okD(3)[OF plan(1) sk plan(2)] by (simp add: marshalTrieArgs_def)
      have k2v: "vk_trie k2 \<noteq> None" using False \<open>rawVersion (w_keys w) \<noteq> None \<longrightarrow> rawVersion k2 \<noteq> None\<close> unfolding rawVersion_def by (cases "vk_trie k2") auto
      have ne: "ts_Version (stored k2) \<noteq> ts_Version (stored (w_keys w))"
        using False rawVersion_ok(1)[OF C(4)] rawVersion_ok[OF ok] k2v C(4) unfolding store_ok_def by (auto split: if_splits)
      have "int64_range (ts_Version (stored (w_keys w)))"
        using ok rawVersion_ok(2)[OF ok] unfolding store_ok_def by (cases "vk_trie (w_keys w) = None") (auto simp: int64_range_def)
      moreover have "int64_range (ts_Version (stored k2))" using C(4) k2v unfolding store_ok_def by blast
      ultimately have "itoa (ts_Version (stored k2)) \<noteq> itoa (ts_Version (stored (w_keys w)))" using ne itoa_inject by blast
      then have "?f k2 = (k2, 0)"
        using rawVersion_ok(1)[OF C(4)] k2v unfolding rawVersion_def by (intro v2WriteScript_rejects) (simp add: old)
      with f show ?thesis by simp
    qed
    obtain k' x' where f: "?f k2 = (k', x')" by fastforce
    have ww: "world_ok w2" if "store_ok (w_keys w2)" using that C w by (simp add: world_ok_def list_all_tl w1_def)
    have run': "(w', res) = (case x of Inl err \<Rightarrow> (w2, Inl (newRedisError ''EVAL'' (trieKey name) err))
        | Inr result \<Rightarrow> (w2, if result = 0 then Inl ErrConcurrencyConflict else Inr v))"
      using run unfolding commitV2Write_def w1_def[symmetric] Inr by (simp add: c split: sum.splits)
    from C(6) show ?thesis
    proof
      assume "\<exists>y. x = Inr y \<and> ?f k2 = (w_keys w2, y)"
      then obtain y where y: "x = Inr y" "?f k2 = (w_keys w2, y)" by blast
      from step[OF y(2)] show ?thesis using run' C(1,4) ww unfolding y(1) by auto
    next
      assume "\<exists>err. x = Inl err \<and> \<not> errors_Is err ErrConcurrencyConflict \<and> (w_keys w2 = k2 \<or> w_keys w2 = fst (?f k2))"
      then obtain err where e: "x = Inl err" "\<not> errors_Is err ErrConcurrencyConflict" "w_keys w2 = k2 \<or> w_keys w2 = k'" using f by auto
      have e': "\<not> errors_Is (newRedisError ''EVAL'' (trieKey name) err) ErrConcurrencyConflict" using e(2) by (simp add: newRedisError_def)
      have "store_ok (w_keys w2)" using e(3) step[OF f] C(4) by auto
      with step[OF f] show ?thesis using run' C(1) ww e(3) e' unfolding e(1) by auto
    qed
  qed
qed

lemma elapsed_1: "next_or id (w_env w) (w_keys w) = elapsed 1 w" "tl (w_env w) = drop 1 (w_env w)"
  by (cases "w_env w"; simp add: elapsed_def next_or_def)+

lemma elapsed_2: "next_or id (drop 1 (w_env w)) (elapsed 1 w) = elapsed 2 w" "tl (drop 1 (w_env w)) = drop 2 (w_env w)"
proof -
  show "next_or id (drop 1 (w_env w)) (elapsed 1 w) = elapsed 2 w"
    by (cases "w_env w") (auto simp: elapsed_def next_or_def numeral_2_eq_2 split: list.splits)
  show "tl (drop 1 (w_env w)) = drop 2 (w_env w)" by (simp add: numeral_2_eq_2 drop_Suc tl_drop)
qed

lemma attempt_linearized:
  assumes w: "world_ok w" and plan: "plan_ok clear plan" and after: "\<And>s v. quiet (after s v)"
    and run: "attempt name clear plan after w = (w', res)"
  shows "linearized plan w w' res"
proof -
  obtain w1 r1 where rd: "readTrieSnapshot name w = (w1, r1)" by fastforce
  note R = readTrieSnapshot_outcome[OF w rd, unfolded elapsed_1]
  have k1: "store_ok (elapsed 1 w)" "w_keys w1 = elapsed 1 w" using R by (auto simp: world_ok_def)
  have e1: "w_env w1 = drop 1 (w_env w)" using R by simp
  show ?thesis
  proof (cases r1)
    case (Inl err)
    then show ?thesis using run R k1 unfolding attempt_def rd by (auto simp: linearized_def outcome_def intro: exI[of _ 1])
  next
    case (Inr snap)
    then have snap: "snap = stored (elapsed 1 w)" using R by auto
    obtain s' outs changed r where p: "plan snap = (s', outs, changed, r)" by (cases "plan snap") auto
    show ?thesis
    proof (cases changed)
      case False
      then have "effect plan (elapsed 1 w) (elapsed 1 w) r" using p snap by (auto simp: effect_def)
      with run R k1 False show ?thesis unfolding attempt_def rd Inr by (auto simp: p linearized_def outcome_def intro: exI[of _ 1])
    next
      case True
      obtain w2 r2 where c: "commitV2Write name s' outs clear w1 = (w2, r2)" by fastforce
      have "plan (stored (w_keys w1)) = (s', outs, True, r)" using p True snap k1(2) by simp
      note C = commitV2Write_outcome[OF _ plan(1) this c, unfolded k1(2) e1 elapsed_2]
      have w2: "world_ok w2" using C R by blast
      have el: "store_ok (elapsed 2 w)" using w elapsed_store_ok unfolding world_ok_def elapsed_def by blast
      have sw: "store_ok (w_keys w2)" using w2 by (simp add: world_ok_def)
      have res: "w' = (case r2 of Inl err \<Rightarrow> w2 | Inr v \<Rightarrow> after s' v w2)" "res = (case r2 of Inl err \<Rightarrow> Inl err | Inr v \<Rightarrow> Inr r)"
        using run True unfolding attempt_def rd Inr by (auto simp: p c split: sum.splits)
      show ?thesis
      proof (cases r2)
        case (Inr v)
        then have "linearized plan w w2 res"
          using C R w2 el sw unfolding linearized_def outcome_def res by auto
        then show ?thesis using linearized_quiet[OF after] res(1) Inr by simp
      next
        case (Inl err)
        with C R have "w_env w2 = drop 1 (w_env w) \<and> w_keys w2 = elapsed 1 w \<or> w_env w2 = drop 2 (w_env w) \<and>
            outcome plan (elapsed 2 w) (w_keys w2) res"
          using el sw unfolding outcome_def res by auto
        moreover have "outcome plan (elapsed 1 w) (elapsed 1 w) res" using k1(1) by (simp add: outcome_def res Inl)
        ultimately have "linearized plan w w2 res" using w2 unfolding linearized_def by auto
        then show ?thesis using res(1) Inl by simp
      qed
    qed
  qed
qed

section \<open>Retrying\<close>

lemma elapsed_add:
  assumes "w_env w1 = drop n (w_env w)" and "w_keys w1 = elapsed n w"
  shows "elapsed m w1 = elapsed (n + m) w" and "drop m (w_env w1) = drop (n + m) (w_env w)"
proof -
  show "elapsed m w1 = elapsed (n + m) w" using assms by (simp only: elapsed_def fold_append o_apply take_add)
  show "drop m (w_env w1) = drop (n + m) (w_env w)" using assms by (simp add: add.commute)
qed

lemma linearized_later:
  assumes "w_env w1 = drop n (w_env w)" and "w_keys w1 = elapsed n w" and "linearized plan w1 w' res"
  shows "linearized plan w w' res"
  using assms(3) elapsed_add[OF assms(1,2)] unfolding linearized_def by metis

lemma retryFrom_linearized:
  assumes "\<And>w w' res. world_ok w \<Longrightarrow> try w = (w', res) \<Longrightarrow> linearized plan w w' res"
    and "world_ok w" and "retryFrom n try w = (w', res)"
  shows "linearized plan w w' res"
  using assms(2,3)
proof (induction n arbitrary: w)
  case 0
  then have "w' = w" "res = Inl ErrConcurrencyConflict" by auto
  with 0(1) show ?case unfolding linearized_def by (auto intro!: exI[of _ 0] simp: outcome_def elapsed_def world_ok_def)
next
  case (Suc n)
  obtain w1 r1 where t: "try w = (w1, r1)" by fastforce
  note L = assms(1)[OF Suc.prems(1) t]
  show ?case
  proof (cases "\<exists>err. r1 = Inl err \<and> errors_Is err ErrConcurrencyConflict")
    case False
    then have "w' = w1" "res = r1" using Suc.prems(2) t by (auto split: sum.splits if_splits)
    with L show ?thesis by simp
  next
    case True
    then obtain err where e: "r1 = Inl err" "errors_Is err ErrConcurrencyConflict" by blast
    from L obtain m where m: "w_env w1 = drop m (w_env w)" "outcome plan (elapsed m w) (w_keys w1) r1" and ok: "world_ok w1"
      unfolding linearized_def by blast
    then have k: "w_keys w1 = elapsed m w" "store_ok (elapsed m w)" using e by (auto simp: outcome_def)
    define w2 where "w2 = w1\<lparr>w_waits := tl (w_waits w1)\<rparr>"
    have w2: "world_ok w2" "w_env w2 = drop m (w_env w)" "w_keys w2 = elapsed m w" using ok m(1) k by (auto simp: w2_def world_ok_def)
    have stop: "linearized plan w w3 (Inl err')" if "w3 = w1 \<or> w3 = w2" for w3 err'
      using that ok w2 m(1) k unfolding linearized_def outcome_def by auto
    show ?thesis
    proof (cases "n = 0 \<or> next_or None (w_waits w1) \<noteq> None")
      case True
      then have "\<exists>err'. res = Inl err' \<and> (w' = w1 \<or> w' = w2)"
        using Suc.prems(2) e t by (auto simp: Let_def w2_def split: if_splits)
      then show ?thesis using stop by blast
    next
      case False
      then have "retryFrom n try w2 = (w', res)" using Suc.prems(2) e t by (simp add: Let_def w2_def)
      from linearized_later[OF w2(2,3) Suc.IH[OF w2(1) this]] show ?thesis .
    qed
  qed
qed

section \<open>The operations\<close>

lemma publish_io:
  "w_keys (publishInvalidate name w) = w_keys w" "w_env (publishInvalidate name w) = w_env w"
  "w_versions (publishInvalidate name w) = w_versions w" "w_io (publishInvalidate name w) = tl (w_io w)"
  "w_waits (publishInvalidate name w) = w_waits w"
  by (cases "next_or CmdOk (w_io w)"; simp add: publishInvalidate_def update_cache_def Let_def)+

lemma quiet_publish: "quiet (publishInvalidate name)"
  by (simp add: quiet_def world_ok_def list_all_tl publish_io)

lemma quiet_id: "quiet (\<lambda>w. w)"
  by (simp add: quiet_def)

definition add_plan :: "gostring \<Rightarrow> nat write_plan" where
  "add_plan keyword s = (case planAdd s keyword of (s', outs, changed) \<Rightarrow> (s', outs, changed, if changed then 1 else 0))"

definition remove_plan :: "gostring \<Rightarrow> nat write_plan" where
  "remove_plan keyword s = (case planRemove s keyword of (s', outs, changed) \<Rightarrow> (s', outs, changed, if changed then 1 else 0))"

definition many_plan :: "(trieSnapshot \<Rightarrow> gostring list \<Rightarrow> trieSnapshot \<times> state_outputs \<times> gostring list) \<Rightarrow> gostring list \<Rightarrow> gostring list write_plan" where
  "many_plan plan keywords s = (case plan s keywords of (s', outs, changed) \<Rightarrow> (s', outs, changed \<noteq> [], changed))"

lemma tryAddV2_attempt: "tryAddV2 name keyword = attempt name False (add_plan keyword) (\<lambda>_ _. publishInvalidate name)"
  by (auto simp: fun_eq_iff tryAddV2_def attempt_def add_plan_def split: prod.splits sum.splits)

lemma tryRemoveV2_attempt: "tryRemoveV2 name keyword = attempt name True (remove_plan keyword) (\<lambda>_ _. publishInvalidate name)"
  by (auto simp: fun_eq_iff tryRemoveV2_def attempt_def remove_plan_def split: prod.splits sum.splits)

lemma applyManyAtomic_attempt:
  "applyManyAtomic name keywords clear plan after = retryOnConflict (attempt name clear (many_plan plan keywords) after)"
  unfolding applyManyAtomic_def
  by (rule arg_cong[of _ _ retryOnConflict]) (auto simp: fun_eq_iff attempt_def many_plan_def split: prod.splits sum.splits)

lemma outputLoop_distinct: "distinct (map fst o0) \<Longrightarrow> distinct (map fst (outputLoop P K ps o0))"
proof (induction ps arbitrary: o0)
  case (Cons q ps)
  define o1 where "o1 = (if q = [] then o0 else if computeOutputs q P K \<noteq> [] then AList.update q (computeOutputs q P K) o0 else o0)"
  have "outputLoop P K (q # ps) o0 = outputLoop P K ps o1" by (simp add: outputLoop_def o1_def Let_def)
  moreover have "distinct (map fst o1)" using Cons.prems by (simp add: o1_def distinct_update)
  ultimately show ?case using Cons.IH[of o1] by simp
qed (simp add: outputLoop_def)

lemma planAddMany_distinct: "planAddMany s ks = (s', outs, added) \<Longrightarrow> distinct (map fst outs)"
  by (auto simp: planAddMany_def Let_def outputLoop_distinct split: prod.splits if_splits)

lemma planRemoveMany_distinct: "planRemoveMany s ks = (s', outs, removed) \<Longrightarrow> distinct (map fst outs)"
  by (auto simp: planRemoveMany_def Let_def outputLoop_distinct split: if_splits)

lemma add_many_plan_ok: "\<forall>k \<in> set ks. utf8_ok k \<Longrightarrow> plan_ok False (many_plan planAddMany ks)"
  unfolding plan_ok_def many_plan_def by (auto dest: planAddMany_correct planAddMany_distinct split: prod.splits)

lemma remove_many_plan_ok: "plan_ok True (many_plan planRemoveMany ks)"
  unfolding plan_ok_def many_plan_def by (auto dest: planRemoveMany_correct planRemoveMany_distinct split: prod.splits)

lemma single_plans:
  "add_plan keyword s = (case many_plan planAddMany [keyword] s of (s', outs, changed, l) \<Rightarrow> (s', outs, changed, if changed then 1 else 0))"
  "remove_plan keyword s = (case many_plan planRemoveMany [keyword] s of (s', outs, changed, l) \<Rightarrow> (s', outs, changed, if changed then 1 else 0))"
  by (auto simp: add_plan_def planAdd_def remove_plan_def planRemove_def many_plan_def split: prod.splits)

lemma plan_ok_result:
  assumes "plan_ok clear plan" and "\<And>s. plan2 s = (case plan s of (s', outs, changed, l) \<Rightarrow> (s', outs, changed, f changed l))"
  shows "plan_ok clear plan2"
  unfolding plan_ok_def
proof (intro allI impI)
  fix s s' outs r
  assume s: "snap_ok s" and p: "plan2 s = (s', outs, True, r)"
  from p obtain l where "plan s = (s', outs, True, l)" by (cases "plan s") (auto simp: assms(2))
  from plan_okD[OF assms(1) s this]
  show "snap_ok s' \<and> distinct (map fst outs) \<and> ts_Version s' = ts_Version s \<and>
      (if clear then map_of outs else outputs_of s ++ map_of outs) = outputs_of s'" by blast
qed

lemma add_plan_ok: "utf8_ok keyword \<Longrightarrow> plan_ok False (add_plan keyword)"
  by (rule plan_ok_result[OF add_many_plan_ok[of "[keyword]"] single_plans(1)]) simp

lemma remove_plan_ok: "plan_ok True (remove_plan keyword)"
  by (rule plan_ok_result[OF remove_many_plan_ok[of "[keyword]"] single_plans(2)])

lemma attempts_linearized:
  assumes "plan_ok clear plan" and "\<And>s v. quiet (after s v)" and "world_ok w"
    and "retryOnConflict (attempt name clear plan after) w = (w', res)"
  shows "linearized plan w w' res"
proof (rule retryFrom_linearized)
  show "linearized plan w w' res" if "world_ok w" "attempt name clear plan after w = (w', res)" for w w' res
    using attempt_linearized[OF that(1) assms(1,2) that(2)] .
qed (use assms(3,4) in \<open>auto simp: retryOnConflict_def\<close>)

lemma effect_many_add:
  assumes "effect (many_plan planAddMany ks) k k' added" and "\<forall>kw \<in> set ks. utf8_ok kw" and "store_ok k"
  shows "ts_Keywords (stored k') = ts_Keywords (stored k) @ added \<and> set added = set ks - {[]} - set (ts_Keywords (stored k)) \<and>
    distinct added \<and> (added = [] \<longrightarrow> k' = k)"
proof -
  obtain s' outs where p: "planAddMany (stored k) ks = (s', outs, added)"
    and e: "if added \<noteq> [] then \<exists>v. stored k' = s'\<lparr>ts_Version := v\<rparr> else k' = k"
    using assms(1) by (auto simp: effect_def many_plan_def split: prod.splits)
  have "snap_ok (stored k)" using assms(3) by (simp add: store_ok_def)
  note P = planAddMany_correct[OF this assms(2) p]
  show ?thesis
  proof (cases "added = []")
    case True
    with e have "k' = k" by simp
    with P True show ?thesis by simp
  next
    case False
    with e obtain v where "stored k' = s'\<lparr>ts_Version := v\<rparr>" by auto
    then have "ts_Keywords (stored k') = ts_Keywords s'" by simp
    with P False show ?thesis by simp
  qed
qed

lemma effect_many_remove:
  assumes "effect (many_plan planRemoveMany ks) k k' removed" and "store_ok k"
  shows "ts_Keywords (stored k') = filter (\<lambda>kw. kw \<notin> set ks) (ts_Keywords (stored k)) \<and>
    removed = filter (\<lambda>kw. kw \<in> set ks) (ts_Keywords (stored k)) \<and> (removed = [] \<longrightarrow> k' = k)"
proof -
  obtain s' outs where p: "planRemoveMany (stored k) ks = (s', outs, removed)"
    and e: "if removed \<noteq> [] then \<exists>v. stored k' = s'\<lparr>ts_Version := v\<rparr> else k' = k"
    using assms(1) by (auto simp: effect_def many_plan_def split: prod.splits)
  have "snap_ok (stored k)" using assms(2) by (simp add: store_ok_def)
  note P = planRemoveMany_correct[OF this p]
  show ?thesis
  proof (cases "removed = []")
    case True
    with e have "k' = k" by simp
    moreover have "s' = stored k" using P True by simp
    ultimately show ?thesis using P True by simp
  next
    case False
    with e obtain v where "stored k' = s'\<lparr>ts_Version := v\<rparr>" by auto
    then have "ts_Keywords (stored k') = ts_Keywords s'" by simp
    with P False show ?thesis by simp
  qed
qed

lemma effect_add:
  assumes "effect (add_plan kw) k k' c" and "utf8_ok kw" and "store_ok k" and "kw \<noteq> []"
  shows "if kw \<in> set (ts_Keywords (stored k)) then c = 0 \<and> k' = k else c = 1 \<and> ts_Keywords (stored k') = ts_Keywords (stored k) @ [kw]"
proof -
  from assms(1) obtain added where e: "effect (many_plan planAddMany [kw]) k k' added" and c: "c = (if added = [] then 0 else 1)"
    unfolding effect_def single_plans by (auto simp: many_plan_def split: prod.splits if_splits)
  note E = effect_many_add[OF e _ assms(3)]
  have "added = (if kw \<in> set (ts_Keywords (stored k)) then [] else [kw])"
  proof -
    have s: "set added = (if kw \<in> set (ts_Keywords (stored k)) then {} else {kw})" "distinct added" using E assms(2,4) by auto
    have "length added = card (set added)" using s(2) by (simp add: distinct_card)
    with s(1) show ?thesis by (cases added) (auto split: if_splits)
  qed
  with E assms(2) c show ?thesis by simp
qed

lemma effect_remove:
  assumes "effect (remove_plan kw) k k' c" and "store_ok k"
  shows "if kw \<in> set (ts_Keywords (stored k)) then c = 1 \<and> ts_Keywords (stored k') = filter (\<lambda>x. x \<noteq> kw) (ts_Keywords (stored k)) else c = 0 \<and> k' = k"
proof -
  from assms(1) obtain removed where e: "effect (many_plan planRemoveMany [kw]) k k' removed" and c: "c = (if removed = [] then 0 else 1)"
    unfolding effect_def single_plans by (auto simp: many_plan_def split: prod.splits if_splits)
  from effect_many_remove[OF e assms(2)] c show ?thesis by (auto simp: filter_empty_conv)
qed

lemma linearizedE:
  assumes "linearized plan w w' res"
  obtains n where "w_env w' = drop n (w_env w)" "store_ok (elapsed n w)" "store_ok (w_keys w')"
    "case res of Inr r \<Rightarrow> effect plan (elapsed n w) (w_keys w') r
      | Inl err \<Rightarrow> w_keys w' = elapsed n w \<or> \<not> errors_Is err ErrConcurrencyConflict \<and> (\<exists>r. effect plan (elapsed n w) (w_keys w') r)"
  using assms unfolding linearized_def outcome_def by blast

text \<open>
  C22.  Adding a keyword takes effect at one instant.  Whatever other clients commit
  between its commands, there is a point in the sequence of their writes such that
  the result and the final keys are those of an add done there alone: nobody's
  write is lost.  If the keyword is absent it is appended and the count is 1; if it
  is there, or is blank, nothing changes and the count is 0.  On an error nothing
  changed, unless the reply to the script was lost: then the add took place.  A
  conflict error means that nothing was written.
\<close>

theorem v2_add_linearizable:
  assumes "world_ok w" and "kw = normalizeKeyword u keyword caseSensitive" and "utf8_ok kw"
    and "v2_add u name caseSensitive keyword w = (w', res)"
  shows "\<exists>n. w_env w' = drop n (w_env w) \<and> store_ok (elapsed n w) \<and> store_ok (w_keys w') \<and>
    (let old = ts_Keywords (stored (elapsed n w)); added = (kw \<notin> set old \<and> ts_Keywords (stored (w_keys w')) = old @ [kw])
     in case res of
       Inr c \<Rightarrow> (if kw = [] \<or> kw \<in> set old then c = 0 \<and> w_keys w' = elapsed n w else c = 1 \<and> added)
     | Inl err \<Rightarrow> w_keys w' = elapsed n w \<or> added \<and> \<not> errors_Is err ErrConcurrencyConflict)"
proof (cases "kw = []")
  case True
  then have "w' = w" "res = Inr 0" using assms(2,4) by (simp_all add: v2_add_def)
  with True assms(1) show ?thesis by (auto simp: elapsed_def world_ok_def intro!: exI[of _ 0])
next
  case False
  then have "retryOnConflict (attempt name False (add_plan kw) (\<lambda>_ _. publishInvalidate name)) w = (w', res)"
    using assms(2,4) by (simp add: v2_add_def tryAddV2_attempt)
  from attempts_linearized[OF add_plan_ok[OF assms(3)] quiet_publish assms(1) this]
  obtain n where n: "w_env w' = drop n (w_env w)" "store_ok (elapsed n w)" "store_ok (w_keys w')"
    "case res of Inr r \<Rightarrow> effect (add_plan kw) (elapsed n w) (w_keys w') r
      | Inl err \<Rightarrow> w_keys w' = elapsed n w \<or> \<not> errors_Is err ErrConcurrencyConflict \<and> (\<exists>r. effect (add_plan kw) (elapsed n w) (w_keys w') r)"
    by (rule linearizedE)
  note E = effect_add[OF _ assms(3) n(2) False]
  show ?thesis
  proof (intro exI[of _ n] conjI n(1-3))
    show "let old = ts_Keywords (stored (elapsed n w)); added = (kw \<notin> set old \<and> ts_Keywords (stored (w_keys w')) = old @ [kw])
     in case res of
       Inr c \<Rightarrow> (if kw = [] \<or> kw \<in> set old then c = 0 \<and> w_keys w' = elapsed n w else c = 1 \<and> added)
     | Inl err \<Rightarrow> w_keys w' = elapsed n w \<or> added \<and> \<not> errors_Is err ErrConcurrencyConflict"
    proof (cases res)
      case (Inr c)
      then have "effect (add_plan kw) (elapsed n w) (w_keys w') c" using n(4) by simp
      from E[OF this] Inr False show ?thesis by (simp add: Let_def split: if_splits)
    next
      case (Inl err)
      with n(4) consider "w_keys w' = elapsed n w" | c where "\<not> errors_Is err ErrConcurrencyConflict" "effect (add_plan kw) (elapsed n w) (w_keys w') c"
        by auto
      then show ?thesis
      proof cases
        case 2
        from E[OF 2(2)] 2(1) Inl show ?thesis by (simp add: Let_def split: if_splits)
      qed (simp add: Inl Let_def)
    qed
  qed
qed

text \<open>
  C23.  The same for removing: the keyword disappears from the list, the others keep
  their order, and the count says whether it was there.
\<close>

theorem v2_remove_linearizable:
  assumes "world_ok w" and "kw = normalizeKeyword u keyword caseSensitive"
    and "v2_remove u name caseSensitive keyword w = (w', res)"
  shows "\<exists>n. w_env w' = drop n (w_env w) \<and> store_ok (elapsed n w) \<and> store_ok (w_keys w') \<and>
    (let old = ts_Keywords (stored (elapsed n w));
         removed = (kw \<in> set old \<and> ts_Keywords (stored (w_keys w')) = filter (\<lambda>x. x \<noteq> kw) old)
     in case res of
       Inr c \<Rightarrow> (if kw \<in> set old then c = 1 \<and> removed else c = 0 \<and> w_keys w' = elapsed n w)
     | Inl err \<Rightarrow> w_keys w' = elapsed n w \<or> removed \<and> \<not> errors_Is err ErrConcurrencyConflict)"
proof (cases "kw = []")
  case True
  then have "w' = w" "res = Inr 0" using assms(2,3) by (simp_all add: v2_remove_def)
  moreover have "[] \<notin> set (ts_Keywords (stored (w_keys w)))" using assms(1) snap_okD(2) by (auto simp: world_ok_def store_ok_def)
  ultimately show ?thesis using True assms(1) by (auto simp: elapsed_def world_ok_def intro!: exI[of _ 0])
next
  case False
  then have "retryOnConflict (attempt name True (remove_plan kw) (\<lambda>_ _. publishInvalidate name)) w = (w', res)"
    using assms(2,3) by (simp add: v2_remove_def tryRemoveV2_attempt)
  from attempts_linearized[OF remove_plan_ok quiet_publish assms(1) this]
  obtain n where n: "w_env w' = drop n (w_env w)" "store_ok (elapsed n w)" "store_ok (w_keys w')"
    "case res of Inr r \<Rightarrow> effect (remove_plan kw) (elapsed n w) (w_keys w') r
      | Inl err \<Rightarrow> w_keys w' = elapsed n w \<or> \<not> errors_Is err ErrConcurrencyConflict \<and> (\<exists>r. effect (remove_plan kw) (elapsed n w) (w_keys w') r)"
    by (rule linearizedE)
  note E = effect_remove[OF _ n(2)]
  show ?thesis
  proof (intro exI[of _ n] conjI n(1-3))
    show "let old = ts_Keywords (stored (elapsed n w));
         removed = (kw \<in> set old \<and> ts_Keywords (stored (w_keys w')) = filter (\<lambda>x. x \<noteq> kw) old)
     in case res of
       Inr c \<Rightarrow> (if kw \<in> set old then c = 1 \<and> removed else c = 0 \<and> w_keys w' = elapsed n w)
     | Inl err \<Rightarrow> w_keys w' = elapsed n w \<or> removed \<and> \<not> errors_Is err ErrConcurrencyConflict"
    proof (cases res)
      case (Inr c)
      then have "effect (remove_plan kw) (elapsed n w) (w_keys w') c" using n(4) by simp
      from E[OF this] Inr show ?thesis by (simp add: Let_def split: if_splits)
    next
      case (Inl err)
      with n(4) consider "w_keys w' = elapsed n w" | c where "\<not> errors_Is err ErrConcurrencyConflict" "effect (remove_plan kw) (elapsed n w) (w_keys w') c"
        by auto
      then show ?thesis
      proof cases
        case 2
        from E[OF 2(2)] 2(1) Inl show ?thesis by (simp add: Let_def split: if_splits)
      qed (simp add: Inl Let_def)
    qed
  qed
qed

text \<open>
  C24.  A batch takes effect at one instant, as a whole: the new keywords of the batch
  are appended, each once, and reported; on a conflict error nothing was written,
  and on another error either nothing was or all of it.
\<close>

theorem v2_addManyAtomic_linearizable:
  assumes "world_ok w" and "\<forall>kw \<in> set ks. utf8_ok kw" and "v2_addManyAtomic name ks w = (w', res)"
  shows "\<exists>n. w_env w' = drop n (w_env w) \<and> store_ok (elapsed n w) \<and> store_ok (w_keys w') \<and>
    (let old = ts_Keywords (stored (elapsed n w)); new = ts_Keywords (stored (w_keys w'));
         all = (\<lambda>added. new = old @ added \<and> distinct added \<and> set added = set ks - {[]} - set old)
     in case res of
       Inr added \<Rightarrow> all added \<and> (added = [] \<longrightarrow> w_keys w' = elapsed n w)
     | Inl err \<Rightarrow> w_keys w' = elapsed n w \<or> \<not> errors_Is err ErrConcurrencyConflict \<and> (\<exists>added. all added))"
proof -
  obtain w1 r1 where b: "applyManyAtomic name ks False planAddMany (\<lambda>_ _ w. w) w = (w1, r1)" by fastforce
  have l: "linearized (many_plan planAddMany ks) w w1 r1"
    using attempts_linearized[OF add_many_plan_ok[OF assms(2)] quiet_id assms(1)] b unfolding applyManyAtomic_attempt by blast
  have "res = r1" "w' = w1 \<or> w' = publishInvalidate name w1"
    using assms(3) b by (auto simp: v2_addManyAtomic_def split: sum.splits)
  then have "linearized (many_plan planAddMany ks) w w' res" using l linearized_quiet[OF quiet_publish] by blast
  then obtain n where n: "w_env w' = drop n (w_env w)" "store_ok (elapsed n w)" "store_ok (w_keys w')"
    "case res of Inr r \<Rightarrow> effect (many_plan planAddMany ks) (elapsed n w) (w_keys w') r
      | Inl err \<Rightarrow> w_keys w' = elapsed n w \<or> \<not> errors_Is err ErrConcurrencyConflict \<and> (\<exists>r. effect (many_plan planAddMany ks) (elapsed n w) (w_keys w') r)"
    by (rule linearizedE)
  note E = effect_many_add[OF _ assms(2) n(2)]
  show ?thesis
  proof (intro exI[of _ n] conjI n(1-3))
    show "let old = ts_Keywords (stored (elapsed n w)); new = ts_Keywords (stored (w_keys w'));
         all = (\<lambda>added. new = old @ added \<and> distinct added \<and> set added = set ks - {[]} - set old)
     in case res of
       Inr added \<Rightarrow> all added \<and> (added = [] \<longrightarrow> w_keys w' = elapsed n w)
     | Inl err \<Rightarrow> w_keys w' = elapsed n w \<or> \<not> errors_Is err ErrConcurrencyConflict \<and> (\<exists>added. all added)"
    proof (cases res)
      case (Inr added)
      then have "effect (many_plan planAddMany ks) (elapsed n w) (w_keys w') added" using n(4) by simp
      from E[OF this] Inr show ?thesis unfolding Let_def by simp
    next
      case (Inl err)
      with n(4) have "w_keys w' = elapsed n w \<or> \<not> errors_Is err ErrConcurrencyConflict \<and>
          (\<exists>r. effect (many_plan planAddMany ks) (elapsed n w) (w_keys w') r)" by simp
      with E show ?thesis unfolding Let_def Inl sum.case by blast
    qed
  qed
qed

section \<open>Without interference\<close>

definition calm :: "world \<Rightarrow> bool" where
  "calm w \<longleftrightarrow> (\<forall>f \<in> set (w_env w). f = id) \<and> (\<forall>c \<in> set (w_io w). c = CmdOk) \<and> (\<forall>r \<in> set (w_versions w). \<exists>v. r = Inr v)"

lemma next_or_in: "xs \<noteq> [] \<Longrightarrow> next_or d xs \<in> set xs"
  by (cases xs) (auto simp: next_or_def)

lemma next_calm:
  assumes "calm w"
  shows "next_or id (w_env w) = id" "next_or CmdOk (w_io w) = CmdOk" "\<exists>v. next_or (Inr 1) (w_versions w) = Inr v"
  using assms next_or_in by (auto simp: calm_def next_or_def split: list.splits)

lemma calm_later:
  assumes "calm w" and "w_env w' = tl (w_env w)" and "w_io w' = tl (w_io w)" and "w_versions w' = w_versions w"
  shows "calm w'"
proof -
  have "set (tl xs) \<subseteq> set xs" for xs :: "'b list" by (cases xs) auto
  then show ?thesis using assms unfolding calm_def by (metis list.set_sel(2) tl_Nil)
qed

lemma calm_publish: "calm w \<Longrightarrow> calm (publishInvalidate name w)"
  by (cases "w_io w") (simp_all add: calm_def publish_io)

lemma command_calm:
  assumes "calm w" and "f (w_keys w) = (k, x)"
  shows "command f w = (w\<lparr>w_keys := k, w_env := tl (w_env w), w_io := tl (w_io w)\<rparr>, Inr x)"
  using next_calm[OF assms(1)] assms(2) by (simp add: command_def others_def)

lemma calm_tl: "calm w \<Longrightarrow> calm (w\<lparr>w_env := tl (w_env w), w_io := tl (w_io w)\<rparr>)"
  by (rule calm_later) simp_all

lemma readTrieSnapshot_calm:
  assumes "calm w" and "store_ok (w_keys w)"
  shows "readTrieSnapshot name w = (w\<lparr>w_env := tl (w_env w), w_io := tl (w_io w)\<rparr>, Inr (stored (w_keys w)))"
  using command_calm[OF assms(1), of "\<lambda>k. (k, vk_trie k)"] store_ok_snapshot[OF assms(2)] by (simp add: readTrieSnapshot_def)

lemma commitV2Write_calm:
  assumes c: "calm w" and w: "world_ok w" and plan: "plan_ok clear plan" "plan (stored (w_keys w)) = (s', outs, True, r)"
  shows "\<exists>w1 v. commitV2Write name s' outs clear w = (w1, Inr v) \<and> stored (w_keys w1) = s'\<lparr>ts_Version := v\<rparr> \<and>
    w_sent w1 = w_sent w \<and> w_ids w1 = w_ids w \<and> w_cache w1 = w_cache w \<and> calm w1 \<and> world_ok w1 \<and>
    w_waits w1 = w_waits w \<and> w_versions w1 = drop 1 (w_versions w) \<and> w_env w1 = drop 1 (w_env w) \<and> w_io w1 = drop 1 (w_io w)"
proof -
  have ok: "store_ok (w_keys w)" using w by (simp add: world_ok_def)
  obtain v where v: "next_or (Inr 1) (w_versions w) = Inr v" using next_calm(3)[OF c] by blast
  have "version_ok (next_or (Inr 1) (w_versions w))"
    using next_list_all[of version_ok "w_versions w" "Inr 1"] w by (simp add: world_ok_def version_ok_def int64_range_def)
  then have v': "int64_range v" "v \<noteq> 0" by (simp_all add: v version_ok_def)
  obtain k x where s: "v2WriteScript (marshalTrieArgs s' outs v clear) (w_keys w) = (k, x)" by fastforce
  have k: "x = 1" "store_ok k" "stored k = s'\<lparr>ts_Version := v\<rparr>"
    using v2WriteScript_commits[OF plan ok v' s] by simp_all
  let ?w2 = "w\<lparr>w_versions := tl (w_versions w)\<rparr>"
  let ?w3 = "?w2\<lparr>w_keys := k, w_env := tl (w_env w), w_io := tl (w_io w)\<rparr>"
  have c2: "calm ?w2" using c by (cases "w_versions w") (auto simp: calm_def)
  have "commitV2Write name s' outs clear w = (?w3, Inr v)"
    using command_calm[OF c2, of "v2WriteScript (marshalTrieArgs s' outs v clear)" k x] s v k(1) by (simp add: commitV2Write_def)
  moreover have "calm ?w3" using c2 by (rule calm_later) simp_all
  moreover have "world_ok ?w3" using w k(2) by (simp add: world_ok_def list_all_tl)
  ultimately show ?thesis using k(3) by (intro exI[of _ ?w3] exI[of _ v]) (simp add: drop_Suc)
qed

lemma attempt_calm:
  assumes c: "calm w" and w: "world_ok w" and plan: "plan_ok clear plan" and p: "plan (stored (w_keys w)) = (s', outs, changed, r)"
  shows "\<exists>w1 s v. attempt name clear plan after w = ((if changed then after s v w1 else w1), Inr r) \<and>
    w_sent w1 = w_sent w \<and> w_ids w1 = w_ids w \<and> w_cache w1 = w_cache w \<and> calm w1 \<and>
    (if changed then stored (w_keys w1) = s'\<lparr>ts_Version := v\<rparr> else w_keys w1 = w_keys w) \<and>
    w_waits w1 = w_waits w \<and> w_versions w1 = drop (if changed then 1 else 0) (w_versions w) \<and>
    w_env w1 = drop (if changed then 2 else 1) (w_env w) \<and> w_io w1 = drop (if changed then 2 else 1) (w_io w)"
proof -
  let ?w1 = "w\<lparr>w_env := tl (w_env w), w_io := tl (w_io w)\<rparr>"
  have ok: "store_ok (w_keys w)" using w by (simp add: world_ok_def)
  note rd = readTrieSnapshot_calm[OF c ok, of name]
  note c1 = calm_tl[OF c]
  show ?thesis
  proof (cases changed)
    case False
    then have "attempt name clear plan after w = (?w1, Inr r)" using p by (simp add: attempt_def rd)
    with c1 False show ?thesis by (intro exI[of _ ?w1]) (simp add: drop_Suc)
  next
    case True
    have "world_ok ?w1" using w by (simp add: world_ok_def list_all_tl)
    moreover have "plan (stored (w_keys ?w1)) = (s', outs, True, r)" using p True by simp
    ultimately obtain w2 v where "commitV2Write name s' outs clear ?w1 = (w2, Inr v)" "stored (w_keys w2) = s'\<lparr>ts_Version := v\<rparr>"
      "w_sent w2 = w_sent ?w1" "w_ids w2 = w_ids ?w1" "w_cache w2 = w_cache ?w1" "calm w2"
      "w_waits w2 = w_waits ?w1" "w_versions w2 = drop 1 (w_versions ?w1)" "w_env w2 = drop 1 (w_env ?w1)" "w_io w2 = drop 1 (w_io ?w1)"
      using commitV2Write_calm[OF c1 _ plan] by blast
    then show ?thesis using p True by (intro exI[of _ w2] exI[of _ s'] exI[of _ v]) (simp add: attempt_def rd drop_Suc numeral_2_eq_2)
  qed
qed

lemma retry_Inr: "try w = (w', Inr x) \<Longrightarrow> retryOnConflict try w = (w', Inr x)"
  by (simp add: retryOnConflict_def maxRetries_def numeral_3_eq_3)

lemma v2_add_calm:
  assumes "world_ok w" and "calm w" and "kw = normalizeKeyword u keyword caseSensitive" and "utf8_ok kw" and "kw \<noteq> []"
    and "v2_add u name caseSensitive keyword w = (w', res)"
  shows "world_ok w' \<and> calm w' \<and> (w_cache w' = None \<longleftrightarrow> w_cache w = None) \<and>
    (let old = ts_Keywords (stored (w_keys w)); fresh = (kw \<notin> set old)
    in res = Inr (if fresh then 1 else 0) \<and> ts_Keywords (stored (w_keys w')) = (if fresh then old @ [kw] else old) \<and>
       w_sent w' = w_sent w @ (if fresh then [invalidationPayload name (next_or [] (w_ids w))] else []) \<and>
       (fresh \<longrightarrow> (\<forall>c. w_cache w' = Some c \<longrightarrow> \<not> tc_valid c)) \<and> w_waits w' = w_waits w \<and>
       w_versions w' = drop (if fresh then 1 else 0) (w_versions w) \<and> w_env w' = drop (if fresh then 2 else 1) (w_env w) \<and>
       w_io w' = drop (if fresh then 3 else 1) (w_io w))"
proof -
  let ?old = "ts_Keywords (stored (w_keys w))"
  let ?at = "attempt name False (add_plan kw) (\<lambda>_ _. publishInvalidate name)"
  obtain s' outs changed r where p: "add_plan kw (stored (w_keys w)) = (s', outs, changed, r)" by (cases "add_plan kw (stored (w_keys w))") auto
  from attempt_calm[OF assms(2,1) add_plan_ok[OF assms(4)] p] obtain w1 s v where
    a: "?at w = ((if changed then publishInvalidate name w1 else w1), Inr r)" and
    w1: "w_sent w1 = w_sent w" "w_ids w1 = w_ids w" "w_cache w1 = w_cache w" "calm w1"
      "if changed then stored (w_keys w1) = s'\<lparr>ts_Version := v\<rparr> else w_keys w1 = w_keys w" "w_waits w1 = w_waits w"
      "w_versions w1 = drop (if changed then 1 else 0) (w_versions w)" "w_env w1 = drop (if changed then 2 else 1) (w_env w)"
      "w_io w1 = drop (if changed then 2 else 1) (w_io w)" by blast
  have eq: "v2_add u name caseSensitive keyword w = retryOnConflict ?at w"
    using assms(3,5) by (simp add: v2_add_def tryAddV2_attempt)
  with retry_Inr[of ?at, OF a] assms(6) have w': "w' = (if changed then publishInvalidate name w1 else w1)" "res = Inr r" by auto
  have ok: "world_ok w'"
    using attempts_linearized[OF add_plan_ok[OF assms(4)] quiet_publish assms(1), of name "\<lambda>_ _. name" w' res] assms(6) unfolding eq linearized_def by simp
  have c: "calm w'" using w1(4) w'(1) calm_publish by simp
  have pub: "w_keys (publishInvalidate name w1) = w_keys w1" "w_sent (publishInvalidate name w1) = w_sent w1 @ [invalidationPayload name (next_or [] (w_ids w1))]"
    "w_cache (publishInvalidate name w1) = None \<longleftrightarrow> w_cache w1 = None"
    "\<forall>c. w_cache (publishInvalidate name w1) = Some c \<longrightarrow> \<not> tc_valid c"
    using next_calm(2)[OF w1(4)] by (auto simp: publishInvalidate_def update_cache_def cache_invalidate_def Let_def)
  have pub2: "w_waits (publishInvalidate name w1) = w_waits w1" "w_versions (publishInvalidate name w1) = w_versions w1"
    "w_env (publishInvalidate name w1) = w_env w1" "w_io (publishInvalidate name w1) = drop 1 (w_io w1)"
    by (simp_all add: publish_io drop_Suc)
  have "effect (add_plan kw) (w_keys w) (w_keys w1) r" using p w1(5) by (auto simp: effect_def split: if_splits)
  then have e: "if kw \<in> set ?old then r = 0 \<and> w_keys w1 = w_keys w else r = 1 \<and> ts_Keywords (stored (w_keys w1)) = ?old @ [kw]"
    using effect_add[OF _ assms(4) _ assms(5), of "w_keys w" "w_keys w1" r] assms(1) unfolding world_ok_def by blast
  have ch: "changed \<longleftrightarrow> r = 1" using p by (auto simp: add_plan_def split: prod.splits if_splits)
  show ?thesis
    using e ch pub pub2 w1(1,2,3,6-9) ok c unfolding w' Let_def by (cases "kw \<in> set ?old") (auto simp: numeral_3_eq_3)
qed

text \<open>
  C25.  When no other client writes and every command succeeds, an add of a keyword
  succeeds at its first attempt: it waits for no retry, and spends the commands and the
  version of one attempt and no more (one read for a stored keyword; for a new one the
  read, the script and the message).  The count says whether it was new; exactly then it
  is stored, one invalidation is published and the local cache is invalid.
\<close>

theorem v2_add_alone:
  assumes "world_ok w" and "calm w" and "kw = normalizeKeyword u keyword caseSensitive" and "utf8_ok kw" and "kw \<noteq> []"
    and "v2_add u name caseSensitive keyword w = (w', res)"
  shows "let old = ts_Keywords (stored (w_keys w)); fresh = (kw \<notin> set old)
    in res = Inr (if fresh then 1 else 0) \<and> ts_Keywords (stored (w_keys w')) = (if fresh then old @ [kw] else old) \<and>
       w_sent w' = w_sent w @ (if fresh then [invalidationPayload name (next_or [] (w_ids w))] else []) \<and>
       (fresh \<longrightarrow> (\<forall>c. w_cache w' = Some c \<longrightarrow> \<not> tc_valid c)) \<and> w_waits w' = w_waits w \<and>
       w_versions w' = drop (if fresh then 1 else 0) (w_versions w) \<and> w_env w' = drop (if fresh then 2 else 1) (w_env w) \<and>
       w_io w' = drop (if fresh then 3 else 1) (w_io w)"
  using v2_add_calm[OF assms] by blast

section \<open>Examples\<close>

definition example_keys :: "trieSnapshot \<Rightarrow> v2keys" where
  "example_keys s = \<lparr>vk_trie = Some (trie_of s), vk_outputs = map_option Json \<circ> outputs_of s, vk_nodes = False\<rparr>"

definition snap_later :: trieSnapshot where
  "snap_later = \<lparr>ts_Keywords = [''he'', ''hers''], ts_Prefixes = [[], ''h'', ''he'', ''her'', ''hers''], ts_Version = 8\<rparr>"

definition example_other :: "v2keys \<Rightarrow> v2keys" where
  "example_other k = (if rawVersion k = Some ''7'' then example_keys snap_later else k)"

definition example_world :: "(v2keys \<Rightarrow> v2keys) list \<Rightarrow> cmd_io list \<Rightarrow> world" where
  "example_world env io = \<lparr>w_keys = example_keys snap_example, w_env = env, w_io = io, w_versions = [Inr 9, Inr 10], w_clock = [], w_waits = [],
     w_ids = [''1:0a''], w_cache = None, w_memo = \<lparr>em_engine = None, em_digest = 0\<rparr>, w_stats = None, w_sent = []\<rparr>"

lemma snap_later_ok: "snap_ok snap_later"
proof -
  have u: "utf8_ok ''he'' \<and> utf8_ok ''h'' \<and> utf8_ok ''her'' \<and> utf8_ok ''hers''" by code_simp
  have "live_prefixes {''he'', ''hers''} = {''h'', ''he'', ''her'', ''hers''}"
    using u by (auto simp: live_prefixes_def prefix_Cons)
  then show ?thesis using u by (auto simp: snap_ok_def snap_later_def)
qed

lemma example_keys_ok:
  "store_ok (example_keys snap_example) \<and> stored (example_keys snap_example) = snap_example"
  "store_ok (example_keys snap_later) \<and> stored (example_keys snap_later) = snap_later"
  by (rule store_okI[OF snap_example_ok] store_okI[OF snap_later_ok];
      simp add: example_keys_def snap_example_def snap_later_def int64_range_def)+

lemma example_other_ok: "others_ok example_other" "others_ok id"
proof -
  have "rawVersion (example_keys snap_later) = Some ''8''" by code_simp
  then show "others_ok example_other" using example_keys_ok(2) by (auto simp: others_ok_def example_other_def)
qed (simp add: others_ok_def)

lemma example_world_ok:
  assumes "list_all others_ok env" and "list_all io_ok io"
  shows "world_ok (example_world env io)"
  using assms example_keys_ok(1) by (simp add: world_ok_def example_world_def version_ok_def int64_range_def)

theorem v2_add_linearizable_witness:
  "\<exists>w'. v2_add ascii_unicode ''words'' True '' she'' (example_world [id, example_other] []) = (w', Inr 1) \<and>
     ts_Keywords (stored (w_keys w')) = [''he'', ''hers'', ''she''] \<and> store_ok (w_keys w') \<and> w_env w' = []"
proof -
  let ?w = "example_world [id, example_other] []"
  have "(case v2_add ascii_unicode ''words'' True '' she'' ?w of
      (w', r) \<Rightarrow> r = Inr 1 \<and> ts_Keywords (stored (w_keys w')) = [''he'', ''hers'', ''she''] \<and> length (w_env w') = 0)" by code_simp
  then obtain w' where w': "v2_add ascii_unicode ''words'' True '' she'' ?w = (w', Inr 1)"
    "ts_Keywords (stored (w_keys w')) = [''he'', ''hers'', ''she'']" "w_env w' = []"
    by (auto split: prod.splits)
  have n: "normalizeKeyword ascii_unicode '' she'' True = ''she''" by code_simp
  have "world_ok ?w" using example_other_ok by (intro example_world_ok) simp_all
  from v2_add_linearizable[OF this n[symmetric] _ w'(1)] ascii_utf8 have "store_ok (w_keys w')" by blast
  with w' show ?thesis by blast
qed

theorem v2_remove_linearizable_witness:
  "\<exists>w'. v2_remove ascii_unicode ''words'' True ''hers'' (example_world [id, example_other] []) = (w', Inr 0) \<and>
     ts_Keywords (stored (w_keys w')) = [''he''] \<and> store_ok (w_keys w')"
proof -
  let ?w = "example_world [id, example_other] []"
  have "(case v2_remove ascii_unicode ''words'' True ''hers'' ?w of
      (w', r) \<Rightarrow> r = Inr 0 \<and> ts_Keywords (stored (w_keys w')) = [''he''])" by code_simp
  then obtain w' where w': "v2_remove ascii_unicode ''words'' True ''hers'' ?w = (w', Inr 0)"
    "ts_Keywords (stored (w_keys w')) = [''he'']"
    by (auto split: prod.splits)
  have n: "normalizeKeyword ascii_unicode ''hers'' True = ''hers''" by code_simp
  have "world_ok ?w" using example_other_ok by (intro example_world_ok) simp_all
  from v2_remove_linearizable[OF this n[symmetric] w'(1)] have "store_ok (w_keys w')" by blast
  with w' show ?thesis by blast
qed

theorem v2_addManyAtomic_linearizable_witness:
  "\<exists>w'. v2_addManyAtomic ''words'' [''she'', ''hers''] (example_world [id, example_other] []) = (w', Inr [''she'']) \<and>
     ts_Keywords (stored (w_keys w')) = [''he'', ''hers'', ''she''] \<and> store_ok (w_keys w')"
proof -
  let ?w = "example_world [id, example_other] []"
  have "(case v2_addManyAtomic ''words'' [''she'', ''hers''] ?w of
      (w', r) \<Rightarrow> r = Inr [''she''] \<and> ts_Keywords (stored (w_keys w')) = [''he'', ''hers'', ''she''])" by code_simp
  then obtain w' where w': "v2_addManyAtomic ''words'' [''she'', ''hers''] ?w = (w', Inr [''she''])"
    "ts_Keywords (stored (w_keys w')) = [''he'', ''hers'', ''she'']"
    by (auto split: prod.splits)
  have "world_ok ?w" using example_other_ok by (intro example_world_ok) simp_all
  from v2_addManyAtomic_linearizable[OF this _ w'(1)] ascii_utf8 have "store_ok (w_keys w')" by simp blast
  with w' show ?thesis by blast
qed

theorem v2_add_alone_witness:
  "\<exists>w'. v2_add ascii_unicode ''words'' True ''she'' (example_world [] []) = (w', Inr 1) \<and>
     ts_Keywords (stored (w_keys w')) = [''he'', ''she''] \<and> w_sent w' = [''words:1:0a'']"
proof -
  let ?w = "example_world [] []"
  obtain w' res where a: "v2_add ascii_unicode ''words'' True ''she'' ?w = (w', res)" by fastforce
  have n: "normalizeKeyword ascii_unicode ''she'' True = ''she''" by code_simp
  have w: "world_ok ?w" by (intro example_world_ok) simp_all
  have c: "calm ?w" by (simp add: calm_def example_world_def)
  have k: "ts_Keywords (stored (w_keys ?w)) = [''he'']" "w_sent ?w = []" "w_ids ?w = [''1:0a'']"
    using example_keys_ok(1) by (simp_all add: example_world_def snap_example_def)
  have "utf8_ok ''she''" "''she'' \<noteq> []" using ascii_utf8 by simp_all
  from v2_add_alone[OF w c n[symmetric] this a] show ?thesis
    using a by (simp add: k Let_def next_or_def invalidationPayload_def)
qed

section \<open>Errors that are not what they seem\<close>

text \<open>
  An error does not mean that nothing was written: when the reply to the script
  is lost after it ran, the batch returns the error and all of it is stored.
\<close>

theorem v2_batch_lost_reply:
  assumes "world_ok w" and "\<forall>kw \<in> set ks. utf8_ok kw" and "\<not> set ks \<subseteq> insert [] (set (ts_Keywords (stored (w_keys w))))"
    and "w_env w = []" and "w_io w = CmdOk # CmdLost err # io" and "w_versions w = Inr v # vs"
    and "v2_addManyAtomic name ks w = (w', res)"
  shows "res = Inl (RedisError ''EVAL'' (trieKey name) err) \<and> set ks - {[]} \<subseteq> set (ts_Keywords (stored (w_keys w'))) \<and>
    w_keys w' \<noteq> w_keys w \<and> w_sent w' = w_sent w"
proof -
  obtain s' outs added where p: "planAddMany (stored (w_keys w)) ks = (s', outs, added)" by (cases "planAddMany (stored (w_keys w)) ks") auto
  have ok: "store_ok (w_keys w)" "snap_ok (stored (w_keys w))" using assms(1) by (simp_all add: world_ok_def store_ok_def)
  note P = planAddMany_correct[OF ok(2) assms(2) p]
  have added: "added \<noteq> []"
  proof
    assume "added = []"
    with P have "set ks - {[]} - set (ts_Keywords (stored (w_keys w))) = {}" by (metis list.set(1))
    with assms(3) show False by blast
  qed
  let ?w1 = "w\<lparr>w_io := CmdLost err # io\<rparr>"
  have v: "int64_range v" "v \<noteq> 0" and io: "\<not> errors_Is err ErrConcurrencyConflict"
    using assms(1,5,6) by (auto simp: world_ok_def version_ok_def io_ok_def)
  have rd: "readTrieSnapshot name w = (?w1, Inr (stored (w_keys w)))"
    using store_ok_snapshot[OF ok(1)] assms(4,5) by (simp add: readTrieSnapshot_def command_def others_def next_or_def)
  obtain k x where s: "v2WriteScript (marshalTrieArgs s' outs v False) (w_keys w) = (k, x)" by fastforce
  have m: "many_plan planAddMany ks (stored (w_keys w)) = (s', outs, True, added)" using p added by (simp add: many_plan_def)
  have k: "stored k = s'\<lparr>ts_Version := v\<rparr>" using v2WriteScript_commits[OF add_many_plan_ok[OF assms(2)] m ok(1) v s] by simp
  let ?err = "RedisError ''EVAL'' (trieKey name) err"
  let ?w2 = "w\<lparr>w_io := io, w_versions := vs, w_keys := k\<rparr>"
  have "commitV2Write name s' outs False ?w1 = (?w2, Inl ?err)"
    using s assms(4,6) by (simp add: commitV2Write_def command_def others_def next_or_def newRedisError_def)
  then have at: "attempt name False (many_plan planAddMany ks) (\<lambda>_ _ w. w) w = (?w2, Inl ?err)" by (simp add: attempt_def rd m)
  have "retryOnConflict (attempt name False (many_plan planAddMany ks) (\<lambda>_ _ w. w)) w = (?w2, Inl ?err)"
    using at io by (simp add: retryOnConflict_def maxRetries_def numeral_3_eq_3)
  then have "res = Inl ?err" "w' = ?w2" using assms(7) by (simp_all add: v2_addManyAtomic_def applyManyAtomic_attempt)
  moreover have "ts_Keywords (stored k) = ts_Keywords (stored (w_keys w)) @ added" using P k by simp
  moreover have "set ks - {[]} \<subseteq> set (ts_Keywords (stored (w_keys w)) @ added)" using P by (metis Diff_partition Un_upper2 set_append Un_Diff_cancel sup_ge2)
  moreover have "k \<noteq> w_keys w" using calculation(3) added by auto
  ultimately show ?thesis by simp
qed

theorem v2_batch_lost_reply_witness:
  "\<exists>w'. v2_addManyAtomic ''words'' [''she''] (example_world [] [CmdOk, CmdLost (ErrClient ''timeout'')]) =
     (w', Inl (RedisError ''EVAL'' ''{words}:trie'' (ErrClient ''timeout''))) \<and> ''she'' \<in> set (ts_Keywords (stored (w_keys w')))"
proof -
  let ?w = "example_world [] [CmdOk, CmdLost (ErrClient ''timeout'')]"
  obtain w' res where a: "v2_addManyAtomic ''words'' [''she''] ?w = (w', res)" by fastforce
  have w: "world_ok ?w" by (intro example_world_ok) (simp_all add: io_ok_def)
  have k: "ts_Keywords (stored (w_keys ?w)) = [''he'']" "w_env ?w = []" "w_io ?w = [CmdOk, CmdLost (ErrClient ''timeout'')]"
    "w_versions ?w = [Inr 9, Inr 10]"
    using example_keys_ok(1) by (simp_all add: example_world_def snap_example_def)
  have "\<forall>kw \<in> set [''she'']. utf8_ok kw" "\<not> set [''she''] \<subseteq> insert [] (set (ts_Keywords (stored (w_keys ?w))))"
    using ascii_utf8 by (simp_all add: k)
  from v2_batch_lost_reply[OF w this k(2-4) a] a show ?thesis by (auto simp: trieKey_def keyPrefix_def)
qed

text \<open>
  Keys that a client reads without an error, and whose version it writes back as it is.
  Unlike \<open>store_ok\<close> this allows a keyword twice.
\<close>

definition legible :: "v2keys \<Rightarrow> bool" where
  "legible k \<longleftrightarrow> snapshot_of (vk_trie k) = Inr (stored k) \<and> rawVersion k \<in> {None, Some (itoa (ts_Version (stored k)))} \<and>
     (\<forall>x \<in> set (ts_Keywords (stored k)). utf8_ok x)"

lemma store_ok_legible: "store_ok k \<Longrightarrow> legible k"
  using store_ok_snapshot rawVersion_ok(1) snap_okD(2) by (auto simp: legible_def store_ok_def)

lemma json_str_ok: "utf8_ok (json_str x)"
  unfolding json_str_def by (rule utf8_okI) (auto intro: runes_valid)

lemma planAdd_new:
  assumes "kw \<notin> set (ts_Keywords s)" and "kw \<noteq> []"
  shows "\<exists>ps outs. planAdd s kw = (s\<lparr>ts_Keywords := ts_Keywords s @ [kw], ts_Prefixes := ps\<rparr>, outs, True)"
proof -
  let ?q = "addPrefix kw (fold (\<lambda>byteOff. addPrefix (take byteOff kw)) (inner_offsets kw) ([], set (ts_Prefixes s)))"
  obtain ns PS where "?q = (ns, PS)" by fastforce
  with assms show ?thesis by (auto simp: planAdd_def planAddMany_def Let_def)
qed

lemma script_legible:
  assumes "rawVersion k \<in> {None, Some (itoa (ts_Version s))}" and "int64_range v"
  shows "\<exists>k'. v2WriteScript (marshalTrieArgs s outs v clear) k = (k', 1) \<and> legible k' \<and> ts_Keywords (stored k') = map json_str (ts_Keywords s)"
proof -
  obtain k' where k': "v2WriteScript (marshalTrieArgs s outs v clear) k = (k', 1)"
    "vk_trie k' = Some \<lparr>th_keywords = Some (Json (map json_str (ts_Keywords s))), th_prefixes = Some (Json (map json_str (ts_Prefixes s))),
      th_version = Some (itoa v)\<rparr>"
    using assms(1) by (auto simp: v2WriteScript_def marshalTrieArgs_def rawVersion_def Let_def)
  then have "snapshot_of (vk_trie k') = Inr \<lparr>ts_Keywords = map json_str (ts_Keywords s), ts_Prefixes = map json_str (ts_Prefixes s), ts_Version = v\<rparr>"
    using parseTrieVersion_itoa[OF assms(2)] by (simp add: snapshot_of_def)
  with k' show ?thesis by (auto simp: legible_def stored_def rawVersion_def json_str_ok)
qed

lemma readTrieSnapshot_legible:
  assumes "calm w" and "legible (w_keys w)"
  shows "readTrieSnapshot name w = (w\<lparr>w_env := tl (w_env w), w_io := tl (w_io w)\<rparr>, Inr (stored (w_keys w)))"
  using command_calm[OF assms(1), of "\<lambda>k. (k, vk_trie k)"] assms(2) by (simp add: readTrieSnapshot_def legible_def)

lemma v2_add_unstored:
  assumes c: "calm w" and k: "legible (w_keys w)" and v: "list_all version_ok (w_versions w)"
    and kw: "kw = normalizeKeyword u keyword cs" "kw \<noteq> []" "kw \<notin> set (ts_Keywords (stored (w_keys w)))"
  obtains w' where "v2_add u name cs keyword w = (w', Inr 1)" "calm w'" "legible (w_keys w')" "list_all version_ok (w_versions w')"
    "ts_Keywords (stored (w_keys w')) = ts_Keywords (stored (w_keys w)) @ [json_str kw]"
proof -
  let ?old = "ts_Keywords (stored (w_keys w))"
  let ?w1 = "w\<lparr>w_env := tl (w_env w), w_io := tl (w_io w)\<rparr>"
  obtain ps outs where p: "planAdd (stored (w_keys w)) kw = (stored (w_keys w)\<lparr>ts_Keywords := ?old @ [kw], ts_Prefixes := ps\<rparr>, outs, True)"
    using planAdd_new[OF kw(3,2)] by blast
  let ?s = "stored (w_keys w)\<lparr>ts_Keywords := ?old @ [kw], ts_Prefixes := ps\<rparr>"
  obtain n where n: "next_or (Inr 1) (w_versions w) = Inr n" using next_calm(3)[OF c] by blast
  have "version_ok (next_or (Inr 1) (w_versions w))" using next_list_all[OF v, of "Inr 1"] by (simp add: version_ok_def int64_range_def)
  then have n': "int64_range n" by (simp add: n version_ok_def)
  have "rawVersion (w_keys w) \<in> {None, Some (itoa (ts_Version ?s))}" using k by (simp add: legible_def)
  from script_legible[OF this n'] obtain k' where
    k': "v2WriteScript (marshalTrieArgs ?s outs n False) (w_keys w) = (k', 1)" "legible k'" "ts_Keywords (stored k') = map json_str (?old @ [kw])"
    by auto
  let ?w2 = "?w1\<lparr>w_versions := tl (w_versions w)\<rparr>"
  let ?w3 = "?w2\<lparr>w_keys := k', w_env := tl (tl (w_env w)), w_io := tl (tl (w_io w))\<rparr>"
  have c2: "calm ?w2" using calm_tl[OF c] by (cases "w_versions w") (auto simp: calm_def)
  have c3: "calm ?w3" by (rule calm_later[OF c2]) simp_all
  have "commitV2Write name ?s outs False ?w1 = (?w3, Inr n)"
    using command_calm[OF c2, of "v2WriteScript (marshalTrieArgs ?s outs n False)"] k'(1) n by (simp add: commitV2Write_def)
  then have "tryAddV2 name kw w = (publishInvalidate name ?w3, Inr 1)" using p by (simp add: tryAddV2_def readTrieSnapshot_legible[OF c k])
  from retry_Inr[of "tryAddV2 name kw", OF this] have r: "v2_add u name cs keyword w = (publishInvalidate name ?w3, Inr 1)"
    using kw(1,2) by (simp add: v2_add_def)
  have "map json_str ?old = ?old" using k by (intro map_idI) (auto simp: legible_def intro: json_str_id)
  then show thesis
    using that[OF r calm_publish[OF c3]] k' v by (simp add: publish_io list_all_tl)
qed

lemma v2_remove_unstored:
  assumes c: "calm w" and k: "legible (w_keys w)" and kw: "kw = normalizeKeyword u keyword cs" "kw \<notin> set (ts_Keywords (stored (w_keys w)))"
  obtains w' where "v2_remove u name cs keyword w = (w', Inr 0)" "w_keys w' = w_keys w"
proof -
  have "planRemove (stored (w_keys w)) kw = (stored (w_keys w), [], False)"
    using kw(2) by (simp add: planRemove_def planRemoveMany_def Let_def filter_empty_conv)
  then have t: "tryRemoveV2 name kw w = (w\<lparr>w_env := tl (w_env w), w_io := tl (w_io w)\<rparr>, Inr 0)"
    by (simp add: tryRemoveV2_def readTrieSnapshot_legible[OF c k])
  show thesis
  proof (cases "kw = []")
    case True
    then show thesis using that[of w] kw(1) by (simp add: v2_remove_def)
  next
    case False
    then show thesis using that retry_Inr[of "tryRemoveV2 name kw", OF t] kw(1) by (simp add: v2_remove_def)
  qed
qed

text \<open>
  C27.  A keyword that is not valid UTF-8 (as normalised: a case-insensitive collection
  repairs it before) is stored with replacement runes in the place of its invalid bytes,
  another string.  So, alone with the collection: the add returns 1 and appends the
  replaced keyword; adding the same keyword again returns 1 again and appends it a
  second time; and removing it returns 0 and leaves all keys as they are.
\<close>

theorem v2_add_invalid_utf8:
  assumes "world_ok w" and "calm w" and "kw = normalizeKeyword u keyword cs" and "\<not> utf8_ok kw"
  shows "json_str kw \<noteq> kw \<and> (\<exists>w1 w2 w3. let old = ts_Keywords (stored (w_keys w)) in
    v2_add u name cs keyword w = (w1, Inr 1) \<and> ts_Keywords (stored (w_keys w1)) = old @ [json_str kw] \<and>
    v2_add u name cs keyword w1 = (w2, Inr 1) \<and> ts_Keywords (stored (w_keys w2)) = old @ [json_str kw, json_str kw] \<and>
    v2_remove u name cs keyword w2 = (w3, Inr 0) \<and> w_keys w3 = w_keys w2)"
proof -
  let ?old = "ts_Keywords (stored (w_keys w))"
  have kw: "kw \<noteq> []" using assms(4) by (auto simp: utf8_ok_def)
  have new: "kw \<notin> set (ts_Keywords (stored k))" if "legible k" for k using that assms(4) by (auto simp: legible_def)
  have l: "legible (w_keys w)" "list_all version_ok (w_versions w)" using assms(1) store_ok_legible by (auto simp: world_ok_def)
  obtain w1 where 1: "v2_add u name cs keyword w = (w1, Inr 1)" "calm w1" "legible (w_keys w1)" "list_all version_ok (w_versions w1)"
    "ts_Keywords (stored (w_keys w1)) = ?old @ [json_str kw]"
    by (rule v2_add_unstored[OF assms(2) l assms(3) kw new[OF l(1)]])
  obtain w2 where 2: "v2_add u name cs keyword w1 = (w2, Inr 1)" "calm w2" "legible (w_keys w2)"
    "ts_Keywords (stored (w_keys w2)) = ts_Keywords (stored (w_keys w1)) @ [json_str kw]"
    by (rule v2_add_unstored[OF 1(2-4) assms(3) kw new[OF 1(3)]])
  obtain w3 where "v2_remove u name cs keyword w2 = (w3, Inr 0)" "w_keys w3 = w_keys w2"
    by (rule v2_remove_unstored[OF 2(2,3) assms(3) new[OF 2(3)]])
  moreover have "json_str kw \<noteq> kw" using assms(4) by (simp add: json_str_def utf8_ok_def)
  ultimately show ?thesis using 1(1,5) 2(1,4) by (simp add: Let_def)
qed

theorem v2_add_invalid_utf8_witness:
  "\<exists>w1 w2. v2_add ascii_unicode ''words'' True [CHR 0xFF] (example_world [] []) = (w1, Inr 1) \<and>
     v2_add ascii_unicode ''words'' True [CHR 0xFF] w1 = (w2, Inr 1) \<and>
     ts_Keywords (stored (w_keys w2)) = [''he'', string_of [0xFFFD], string_of [0xFFFD]]"
proof -
  let ?w = "example_world [] []"
  have w: "world_ok ?w" by (intro example_world_ok) simp_all
  have c: "calm ?w" by (simp add: calm_def example_world_def)
  have n: "normalizeKeyword ascii_unicode [CHR 0xFF] True = [CHR 0xFF]" "\<not> utf8_ok [CHR 0xFF]" "json_str [CHR 0xFF] = string_of [0xFFFD]"
    by code_simp+
  have "ts_Keywords (stored (w_keys ?w)) = [''he'']" using example_keys_ok(1) by (simp add: example_world_def snap_example_def)
  with v2_add_invalid_utf8[OF w c n(1)[symmetric] n(2), of "''words''"] show ?thesis by (auto simp: n(3) Let_def)
qed

end
