(* ===== verification/V2_Read.thy ===== *)
theory V2_Read
  imports V2_Writes "HOL-Library.List_Lexorder" "HOL-Library.Char_ord"
begin

text \<open>
  The V2 read operations of \<^verbatim>\<open>v2_ops.go\<close>, the local automaton of \<^verbatim>\<open>cache.go\<close> and
  \<^verbatim>\<open>engine_memo.go\<close>, and the listener of \<^verbatim>\<open>pubsub.go\<close>.

  The order in which Redis and Go enumerate a hash or a map and the seeded hash
  are given by \<open>read_env\<close>.  What other goroutines of this process do to the cache
  while a read waits is an argument: \<open>waited\<close> before it holds the load lock,
  \<open>meanwhile\<close> between its Redis reply and the publication of the new automaton.
\<close>

record read_env =
  re_build :: build_env
  re_entries :: "(gostring \<rightharpoonup> gostring list json) \<Rightarrow> (gostring \<times> gostring list json) list"
  re_keywords :: "gostring set \<Rightarrow> gostring list"
  re_hash :: "gostring \<Rightarrow> 64 word"
  re_hashJson :: "gostring list json \<Rightarrow> 64 word"

definition read_env_ok :: "read_env \<Rightarrow> bool" where
  "read_env_ok env \<longleftrightarrow> Engine_Handle.env_ok (re_build env) \<and>
     (\<forall>m. finite (dom m) \<longrightarrow> map_of (re_entries env m) = m \<and> distinct (map fst (re_entries env m))) \<and>
     (\<forall>K. finite K \<longrightarrow> set (re_keywords env K) = K \<and> distinct (re_keywords env K))"

section \<open>Fetching\<close>

fun parseOutputs :: "(gostring \<times> gostring list json) list \<Rightarrow> state_outputs result" where
  "parseOutputs [] = Inr []"
| "parseOutputs ((state, Json arr) # raw) = bindR (parseOutputs raw) (\<lambda>outputs. Inr ((state, arr) # outputs))"
| "parseOutputs ((state, BadJson err) # raw) = Inl (newOperationError ''unmarshal'' SchemaV2 err)"

definition buildEngineFromOutputs :: "read_env \<Rightarrow> state_outputs \<Rightarrow> Engine option" where
  "buildEngineFromOutputs env outputs =
     Engine_Build (re_build env) (Engine_New PresetBalanced) (re_keywords env (\<Union>(state, outs) \<in> set outputs. set outs))"

definition fetchRawOutputs :: "read_env \<Rightarrow> gostring \<Rightarrow> world \<Rightarrow> world \<times> (gostring \<times> gostring list json) list result" where
  "fetchRawOutputs env name w =
     (case command (\<lambda>k. (k, re_entries env (vk_outputs k))) w of
        (w', Inl err) \<Rightarrow> (w', Inl (newRedisError ''HGETALL'' (outputsKey name) err))
      | (w', Inr raw) \<Rightarrow> (w', Inr raw))"

text \<open>A pipeline of two reads: one round trip, but other clients may run between the commands.\<close>

definition pipelined :: "(v2keys \<Rightarrow> 'a) \<Rightarrow> (v2keys \<Rightarrow> 'b) \<Rightarrow> world \<Rightarrow> world \<times> ('a \<times> 'b) result" where
  "pipelined f g w =
     (let w1 = others w; w2 = others w1; w3 = w2\<lparr>w_io := tl (w_io w)\<rparr> in
      case next_or CmdOk (w_io w) of
        CmdOk \<Rightarrow> (w3, Inr (f (w_keys w1), g (w_keys w2)))
      | CmdFailed err \<Rightarrow> (w3, Inl err)
      | CmdLost err \<Rightarrow> (w3, Inl err))"

definition fetchTrieData :: "read_env \<Rightarrow> gostring \<Rightarrow> world \<Rightarrow> world \<times> (gostring list \<times> state_outputs) result" where
  "fetchTrieData env name w =
     (case pipelined (\<lambda>k. Option.bind (vk_trie k) th_prefixes) (\<lambda>k. re_entries env (vk_outputs k)) w of
        (w', Inl err) \<Rightarrow> (w', Inl (newRedisError ''PIPELINE'' (trieKey name) err))
      | (w', Inr (prefixesData, raw)) \<Rightarrow>
          (w', bindR (unmarshal prefixesData) (\<lambda>pfs. bindR (parseOutputs raw) (\<lambda>outputs. Inr (pfs, outputs)))))"

section \<open>The automaton\<close>

definition digestRawOutputs :: "read_env \<Rightarrow> (gostring \<times> gostring list json) list \<Rightarrow> 64 word" where
  "digestRawOutputs env raw = fold (\<lambda>(state, jsonArr) digest. digest + re_hash env state + re_hashJson env jsonArr) raw 0"

definition digestKeywords :: "read_env \<Rightarrow> gostring list \<Rightarrow> 64 word" where
  "digestKeywords env kws = fold (\<lambda>k digest. digest + re_hash env k) kws 0"

text \<open>A build takes the time between two readings of the clock.\<close>

definition timed :: "'a result \<Rightarrow> world \<Rightarrow> world \<times> 'a result" where
  "timed built w =
     (let start = next_or 0 (w_clock w); w1 = w\<lparr>w_clock := tl (w_clock w)\<rparr> in
      case built of
        Inl err \<Rightarrow> (w1, Inl err)
      | Inr x \<Rightarrow>
          (case timeRebuild (duration (next_or 0 (w_clock w1) - start)) (w_stats w1) built of
             (r, stats) \<Rightarrow> (w1\<lparr>w_clock := tl (w_clock w1), w_stats := stats\<rparr>, r)))"

text \<open>\<open>None\<close> is a panic of the build.\<close>

definition engineFor :: "64 word \<Rightarrow> Engine result option \<Rightarrow> world \<Rightarrow> (world \<times> Engine result) option" where
  "engineFor digest build w =
     (if em_engine (w_memo w) \<noteq> None \<and> em_digest (w_memo w) = digest
      then Some (w\<lparr>w_stats := stats_hit (w_stats w)\<rparr>, Inr (the (em_engine (w_memo w))))
      else do {
        built \<leftarrow> build;
        case timed built (w\<lparr>w_stats := stats_miss (w_stats w)\<rparr>) of
          (w1, Inl err) \<Rightarrow> Some (w1, Inl err)
        | (w1, Inr engine) \<Rightarrow> Some (w1\<lparr>w_memo := \<lparr>em_engine = Some engine, em_digest = digest\<rparr>\<rparr>, Inr engine)
      })"

definition cache_set :: "read_env \<Rightarrow> state_outputs \<Rightarrow> trieCache \<Rightarrow> trieCache option" where
  "cache_set env outputs c = do {
     engine \<leftarrow> buildEngineFromOutputs env outputs;
     Some (c\<lparr>tc_engine := Some engine, tc_valid := True\<rparr>)
   }"

definition getEngine :: "trieCache \<Rightarrow> Engine option \<times> bool" where
  "getEngine c = (tc_engine c, tc_valid c)"

definition loadCache :: "read_env \<Rightarrow> gostring \<Rightarrow> (trieCache \<Rightarrow> trieCache) \<Rightarrow> trieCache \<Rightarrow> world \<Rightarrow> (world \<times> unit result) option" where
  "loadCache env name meanwhile c w =
     (case fetchTrieData env name w of
        (w1, Inl err) \<Rightarrow> Some (w1, Inl err)
      | (w1, Inr (pfs, outputs)) \<Rightarrow> do {
          c' \<leftarrow> cache_set env outputs (meanwhile c);
          let start = next_or 0 (w_clock w1);
          let d = duration (next_or 0 (tl (w_clock w1)) - start);
          Some (w1\<lparr>w_clock := tl (tl (w_clock w1)), w_stats := recordRebuild d (w_stats w1), w_cache := Some c'\<rparr>, Inr ())
        })"

definition loadEngine ::
  "read_env \<Rightarrow> gostring \<Rightarrow> (trieCache \<Rightarrow> trieCache) \<Rightarrow> (trieCache \<Rightarrow> trieCache) \<Rightarrow> world \<Rightarrow> (world \<times> Engine result) option" where
  "loadEngine env name waited meanwhile w =
     (case w_cache w of
        None \<Rightarrow>
          (case fetchRawOutputs env name w of
             (w1, Inl err) \<Rightarrow> Some (w1, Inl err)
           | (w1, Inr raw) \<Rightarrow>
               engineFor (digestRawOutputs env raw)
                 (case parseOutputs raw of
                    Inl err \<Rightarrow> Some (Inl err)
                  | Inr outputs \<Rightarrow> map_option Inr (buildEngineFromOutputs env outputs)) w1)
      | Some c0 \<Rightarrow>
          (if snd (getEngine c0)
           then do { engine \<leftarrow> fst (getEngine c0); Some (w\<lparr>w_stats := stats_hit (w_stats w)\<rparr>, Inr engine) }
           else
             (let c = waited c0; w1 = w\<lparr>w_stats := stats_miss (w_stats w), w_cache := Some c\<rparr> in
              if snd (getEngine c) then do { engine \<leftarrow> fst (getEngine c); Some (w1, Inr engine) }
              else do {
                (w2, r) \<leftarrow> loadCache env name meanwhile c w1;
                case r of
                  Inl err \<Rightarrow> Some (w2, Inl err)
                | Inr u \<Rightarrow> do { c' \<leftarrow> w_cache w2; engine \<leftarrow> fst (getEngine c'); Some (w2, Inr engine) }
              })))"

section \<open>The operations\<close>

definition v2_find ::
  "unicode \<Rightarrow> read_env \<Rightarrow> gostring \<Rightarrow> bool \<Rightarrow> (trieCache \<Rightarrow> trieCache) \<Rightarrow> (trieCache \<Rightarrow> trieCache) \<Rightarrow> acorError option \<Rightarrow>
   gostring \<Rightarrow> world \<Rightarrow> (world \<times> gostring list result) option" where
  "v2_find u env name caseSensitive waited meanwhile ctxErr text0 w =
     (if text0 = [] then Some (w, Inr [])
      else do {
        (w1, r) \<leftarrow> loadEngine env name waited meanwhile w;
        case r of
          Inl err \<Rightarrow> Some (w1, Inl err)
        | Inr engine \<Rightarrow>
            (case ctxErr of
               Some err \<Rightarrow> Some (w1, Inl err)
             | None \<Rightarrow> do { found \<leftarrow> Engine_Find engine (normalizeText u text0 caseSensitive); Some (w1, Inr found) })
      })"

definition v2_findIndex ::
  "unicode \<Rightarrow> read_env \<Rightarrow> gostring \<Rightarrow> bool \<Rightarrow> (trieCache \<Rightarrow> trieCache) \<Rightarrow> (trieCache \<Rightarrow> trieCache) \<Rightarrow> acorError option \<Rightarrow>
   gostring \<Rightarrow> world \<Rightarrow> (world \<times> (gostring \<rightharpoonup> int list) result) option" where
  "v2_findIndex u env name caseSensitive waited meanwhile ctxErr text0 w =
     (if text0 = [] then Some (w, Inr Map.empty)
      else do {
        (w1, r) \<leftarrow> loadEngine env name waited meanwhile w;
        case r of
          Inl err \<Rightarrow> Some (w1, Inl err)
        | Inr engine \<Rightarrow>
            (case ctxErr of
               Some err \<Rightarrow> Some (w1, Inl err)
             | None \<Rightarrow> do { found \<leftarrow> Engine_FindIndex engine (normalizeText u text0 caseSensitive); Some (w1, Inr found) })
      })"

record AhoCorasickInfo =
  ai_Keywords :: nat
  ai_Nodes :: nat
  ai_Preset :: Preset
  ai_MemoryBytes :: int
  ai_TrieDepth :: int

definition readTrie :: "gostring \<Rightarrow> world \<Rightarrow> world \<times> trieHash option result" where
  "readTrie name w =
     (case command (\<lambda>k. (k, vk_trie k)) w of
        (w', Inl err) \<Rightarrow> (w', Inl (newRedisError ''HGETALL'' (trieKey name) err))
      | (w', Inr trie) \<Rightarrow> (w', Inr trie))"

definition v2_info :: "gostring \<Rightarrow> world \<Rightarrow> world \<times> AhoCorasickInfo result" where
  "v2_info name w =
     (case readTrie name w of
        (w', r) \<Rightarrow> (w', bindR r (\<lambda>trie.
          bindR (unmarshal (Option.bind trie th_keywords)) (\<lambda>kws.
          bindR (unmarshal (Option.bind trie th_prefixes)) (\<lambda>pfs.
            Inr \<lparr>ai_Keywords = length kws, ai_Nodes = length pfs, ai_Preset = PresetNone, ai_MemoryBytes = 0, ai_TrieDepth = 0\<rparr>)))))"

definition v2_suggest :: "unicode \<Rightarrow> gostring \<Rightarrow> bool \<Rightarrow> gostring \<Rightarrow> world \<Rightarrow> world \<times> gostring list result" where
  "v2_suggest u name caseSensitive input0 w =
     (let input = normalizeKeyword u input0 caseSensitive in
      if input = [] then (w, Inr [])
      else
        (case readTrie name w of
           (w', r) \<Rightarrow> (w', bindR r (\<lambda>trie.
             bindR (unmarshal (Option.bind trie th_keywords)) (\<lambda>kws. Inr (filter (\<lambda>kw. prefix input kw) kws))))))"

definition v2_suggestIndex :: "unicode \<Rightarrow> gostring \<Rightarrow> bool \<Rightarrow> gostring \<Rightarrow> world \<Rightarrow> world \<times> (gostring \<rightharpoonup> int list) result" where
  "v2_suggestIndex u name caseSensitive input w =
     (case v2_suggest u name caseSensitive input w of
        (w', r) \<Rightarrow> (w', bindR r (\<lambda>results. Inr (fold (\<lambda>kw indexed. indexed(kw \<mapsto> [0])) results Map.empty))))"

text \<open>The listener's callback; \<open>now\<close> and \<open>now'\<close> are its readings of the clock.\<close>

definition listenerMessage :: "gostring \<Rightarrow> gostring \<Rightarrow> int \<Rightarrow> int \<Rightarrow> world \<Rightarrow> world" where
  "listenerMessage name payload now now' w =
     (case w_cache w of
        None \<Rightarrow> w
      | Some c \<Rightarrow>
          (case foreignInvalidation payload name now now' (tc_selfSkip c) (w_stats w) of
             (skip, stats, foreign) \<Rightarrow>
               (let c' = c\<lparr>tc_selfSkip := skip\<rparr> in
                w\<lparr>w_stats := stats, w_cache := Some (if foreign then cache_invalidate c' else c')\<rparr>)))"

text \<open>\<^verbatim>\<open>AhoCorasick.init\<close> for this schema: \<^verbatim>\<open>EXISTS\<close>, then \<^verbatim>\<open>HSET\<close>.\<close>

definition v2_init :: "gostring \<Rightarrow> world \<Rightarrow> world \<times> unit result" where
  "v2_init name w =
     (case command (\<lambda>k. (k, vk_trie k \<noteq> None)) w of
        (w1, Inl err) \<Rightarrow> (w1, Inl (Wrapped ''failed to check trie key'' err))
      | (w1, Inr True) \<Rightarrow> (w1, Inr ())
      | (w1, Inr False) \<Rightarrow>
          (let now = next_or 1 (w_clock w1); w2 = w1\<lparr>w_clock := tl (w_clock w1)\<rparr> in
           case command (\<lambda>k. (k\<lparr>vk_trie := Some (emptyTrieFields now)\<rparr>, ())) w2 of
             (w3, Inl err) \<Rightarrow> (w3, Inl (Wrapped ''failed to initialize V2 trie'' err))
           | (w3, Inr u) \<Rightarrow> (w3, Inr u)))"

section \<open>What is built from the stored outputs\<close>

lemma finite_live_prefixes: "finite K \<Longrightarrow> finite (live_prefixes K)"
proof -
  assume "finite K"
  then have "finite (\<Union>k \<in> K. set (prefixes k))" by simp
  moreover have "live_prefixes K \<subseteq> (\<Union>k \<in> K. set (prefixes k))" by (auto simp: live_prefixes_def)
  ultimately show ?thesis by (rule finite_subset[rotated])
qed

lemma finite_outputs: "finite (dom (outputs_of s))"
proof (rule finite_subset)
  show "dom (outputs_of s) \<subseteq> live_prefixes (set (ts_Keywords s))" by (auto simp: outputs_of_def split: if_splits)
qed (simp add: finite_live_prefixes)

text \<open>The engines can pack the automaton of the keywords of \<open>k\<close>.\<close>

definition small :: "v2keys \<Rightarrow> bool" where
  "small k \<longleftrightarrow> card (states (dict_of (ts_Keywords (stored k)))) < 2 ^ 30"

definition stored_dict :: "v2keys \<Rightarrow> dict" where
  "stored_dict k = dict_of (ts_Keywords (stored k))"

lemma stored_keyword_set:
  assumes "store_ok k" and "small k" and "set ks = set (ts_Keywords (stored k))" and "distinct ks"
  shows "keyword_set ks" and "dict_of ks = stored_dict k"
proof -
  have D: "\<forall>x \<in> set (ts_Keywords (stored k)). x \<noteq> [] \<and> utf8_ok x" using snap_okD(2)[of "stored k"] assms(1) unfolding store_ok_def by blast
  have inj: "inj_on runes (set (ts_Keywords (stored k)))"
    using D unfolding inj_on_def utf8_ok_def by metis
  show d: "dict_of ks = stored_dict k" unfolding stored_dict_def by (rule dict_of_set[OF inj assms(3)])
  show "keyword_set ks" using D inj assms(2-4) d by (auto simp: keyword_set_def small_def stored_dict_def)
qed

lemma parseOutputs_Json: "parseOutputs (map (\<lambda>(s, l). (s, Json l)) outs) = Inr outs"
  by (induction outs) auto

lemma build_stored:
  assumes env: "read_env_ok env" and k: "store_ok k" and small: "small k"
  shows "\<exists>outs e. parseOutputs (re_entries env (vk_outputs k)) = Inr outs \<and> buildEngineFromOutputs env outs = Some e \<and>
    engine_holds e (stored_dict k)"
proof -
  let ?m = "vk_outputs k" and ?o = "outputs_of (stored k)"
  have m: "?m = map_option Json \<circ> ?o" using k by (simp add: store_ok_def)
  have "finite (dom ?m)" unfolding m dom_map_option_comp by (rule finite_outputs)
  then have E: "map_of (re_entries env ?m) = ?m" "distinct (map fst (re_entries env ?m))" using env by (auto simp: read_env_ok_def)
  define outs where "outs = map (\<lambda>(s, j). (s, case j of Json l \<Rightarrow> l | BadJson err \<Rightarrow> [])) (re_entries env ?m)"
  have entry: "\<exists>l. j = Json l \<and> ?o s = Some l" if "(s, j) \<in> set (re_entries env ?m)" for s j
  proof -
    have "map_of (re_entries env ?m) s = Some j" using that E(2) by simp
    then have "?m s = Some j" unfolding E(1) .
    then show ?thesis unfolding m by auto
  qed
  have "re_entries env ?m = map (\<lambda>(s, l). (s, Json l)) outs"
    unfolding outs_def map_map by (rule map_idI[symmetric]) (use entry in fastforce)
  then have p: "parseOutputs (re_entries env ?m) = Inr outs" by (simp add: parseOutputs_Json)
  have "l \<in> ran ?o" if "(s, l) \<in> set outs" for s l
    using that entry unfolding outs_def by (fastforce intro: ranI)
  moreover have "\<exists>s. (s, l) \<in> set outs" if "l \<in> ran ?o" for l
  proof -
    from that obtain s where "?o s = Some l" by (auto simp: ran_def)
    then have "?m s = Some (Json l)" unfolding m by simp
    then have "(s, Json l) \<in> set (re_entries env ?m)" using E(1) map_of_SomeD by metis
    then have "(s, l) \<in> set outs" unfolding outs_def by force
    then show ?thesis by blast
  qed
  ultimately have u: "(\<Union>(s, l) \<in> set outs. set l) = (\<Union>l \<in> ran ?o. set l)" by fast
  have "(\<Union>l \<in> ran ?o. set l) = set (ts_Keywords (stored k))" using k by (intro outputs_union) (simp add: store_ok_def)
  with u have un: "(\<Union>(s, l) \<in> set outs. set l) = set (ts_Keywords (stored k))" by simp
  let ?ks = "re_keywords env (set (ts_Keywords (stored k)))"
  have ks: "set ?ks = set (ts_Keywords (stored k))" "distinct ?ks" using env unfolding read_env_ok_def by blast+
  note K = stored_keyword_set[OF k small ks]
  have "Engine_Handle.env_ok (re_build env)" using env by (simp add: read_env_ok_def)
  from engine_build_correct[OF this K(1), of PresetBalanced] obtain e where
    "Engine_Build (re_build env) (Engine_New PresetBalanced) ?ks = Some e" "engine_holds e (dict_of ?ks)" by blast
  then have "buildEngineFromOutputs env outs = Some e" "engine_holds e (stored_dict k)" using un K(2) by (simp_all add: buildEngineFromOutputs_def)
  with p show ?thesis by blast
qed

section \<open>Searching\<close>

lemma next_env_io: "next_or CmdOk (w_io w) = CmdOk \<Longrightarrow> command (\<lambda>k. (k, f k)) w =
    ((others w)\<lparr>w_io := tl (w_io w)\<rparr>, Inr (f (w_keys (others w))))"
  by (simp add: command_def Let_def)

lemma others_elapsed: "w_keys (others w) = elapsed 1 w" "w_env (others w) = drop 1 (w_env w)"
  by (simp_all add: others_def elapsed_1)

lemma elapsed_ok: "world_ok w \<Longrightarrow> store_ok (elapsed n w)"
  unfolding world_ok_def elapsed_def by (blast intro: elapsed_store_ok)

text \<open>
  The digest is the sum of the hashes of all entries of the outputs, so it does not
  depend on the order in which Redis lists them; different outputs collide when the
  sums agree.
\<close>

definition hash_sum :: "read_env \<Rightarrow> (gostring \<rightharpoonup> gostring list json) \<Rightarrow> 64 word" where
  "hash_sum env m = (\<Sum>s \<in> dom m. re_hash env s + re_hashJson env (the (m s)))"

definition collision_free :: "read_env \<Rightarrow> v2keys set \<Rightarrow> bool" where
  "collision_free env M \<longleftrightarrow> inj_on (hash_sum env) (vk_outputs ` M)"

lemma digest_fold: "fold (\<lambda>(state, jsonArr) digest. digest + re_hash env state + re_hashJson env jsonArr) raw d =
    d + (\<Sum>(state, jsonArr) \<leftarrow> raw. re_hash env state + re_hashJson env jsonArr)"
  by (induction raw arbitrary: d) (auto simp: algebra_simps)

lemma digest_entries:
  assumes "read_env_ok env" and "finite (dom m)"
  shows "digestRawOutputs env (re_entries env m) = hash_sum env m"
proof -
  let ?raw = "re_entries env m"
  have e: "map_of ?raw = m" "distinct (map fst ?raw)" using assms by (auto simp: read_env_ok_def)
  then have v: "the (m s) = j" if "(s, j) \<in> set ?raw" for s j using that map_of_is_SomeI[of ?raw s j] by simp
  have "digestRawOutputs env ?raw = (\<Sum>(s, j) \<leftarrow> ?raw. re_hash env s + re_hashJson env j)"
    by (simp add: digestRawOutputs_def digest_fold)
  also have "\<dots> = (\<Sum>s \<leftarrow> map fst ?raw. re_hash env s + re_hashJson env (the (m s)))"
    unfolding map_map by (rule arg_cong[where f = sum_list]) (auto simp: v intro: map_cong)
  also have "\<dots> = (\<Sum>s \<in> set (map fst ?raw). re_hash env s + re_hashJson env (the (m s)))"
    using e(2) by (rule sum_list_distinct_conv_sum_set)
  also have "set (map fst ?raw) = dom m" using dom_map_of_conv_image_fst[of ?raw] e(1) by simp
  finally show ?thesis by (simp add: hash_sum_def)
qed

lemma stored_finite: "store_ok k \<Longrightarrow> finite (dom (vk_outputs k))"
  using finite_outputs[of "stored k"] by (simp add: store_ok_def dom_map_option_comp)

text \<open>The outputs determine the dictionary.\<close>

lemma outputs_dict:
  assumes "store_ok k" and "store_ok k'" and "vk_outputs k = vk_outputs k'"
  shows "stored_dict k = stored_dict k'"
proof -
  have same: "outputs_of (stored k) = outputs_of (stored k')"
  proof
    fix p
    have "map_option Json (outputs_of (stored k) p) = map_option Json (outputs_of (stored k') p)"
      using assms by (simp add: store_ok_def fun_eq_iff)
    then show "outputs_of (stored k) p = outputs_of (stored k') p"
      by (rule injD[OF option.inj_map, rotated]) (simp add: inj_def)
  qed
  have "set (ts_Keywords (stored k)) = set (ts_Keywords (stored k'))"
    using outputs_union[of "stored k"] outputs_union[of "stored k'"] assms(1,2) by (simp add: store_ok_def same)
  moreover have "inj_on runes (set (ts_Keywords (stored k')))"
    using snap_okD(2)[of "stored k'"] assms(2) unfolding store_ok_def inj_on_def utf8_ok_def by metis
  ultimately show ?thesis unfolding stored_dict_def by (intro dict_of_set)
qed

text \<open>
  The memo holds what was built from outputs that were read, under their digest; \<open>M\<close> are
  the keys they were read from.
\<close>

definition memo_of :: "read_env \<Rightarrow> v2keys set \<Rightarrow> world \<Rightarrow> bool" where
  "memo_of env M w \<longleftrightarrow> (\<forall>e. em_engine (w_memo w) = Some e \<longrightarrow>
     (\<exists>k \<in> M. store_ok k \<and> em_digest (w_memo w) = hash_sum env (vk_outputs k) \<and> engine_holds e (stored_dict k)))"

lemma memo_hit:
  assumes "collision_free env M" and "memo_of env M w" and "k \<in> M" and "store_ok k"
    and "em_engine (w_memo w) = Some e" and "em_digest (w_memo w) = hash_sum env (vk_outputs k)"
  shows "engine_holds e (stored_dict k)"
proof -
  from assms(2,5) obtain k0 where k0: "k0 \<in> M" "store_ok k0" "em_digest (w_memo w) = hash_sum env (vk_outputs k0)" "engine_holds e (stored_dict k0)"
    by (auto simp: memo_of_def)
  have "vk_outputs k0 = vk_outputs k"
    using assms(1) k0(1,3) assms(3,6) unfolding collision_free_def by (metis imageI inj_onD)
  from outputs_dict[OF k0(2) assms(4) this] k0(4) show ?thesis by simp
qed

lemma timed_Inr: "\<exists>w'. timed (Inr x) w = (w', Inr x) \<and> w_keys w' = w_keys w \<and> w_env w' = w_env w \<and> w_io w' = w_io w \<and> w_memo w' = w_memo w \<and> w_cache w' = w_cache w \<and>
    w_versions w' = w_versions w"
  by (simp add: timed_def timeRebuild_def Let_def)

lemma loadEngine_uncached:
  assumes w: "world_ok w" and env: "read_env_ok env" and c: "w_cache w = None" and io: "next_or CmdOk (w_io w) = CmdOk"
  defines "k \<equiv> elapsed 1 w"
  assumes small: "small k" and M: "collision_free env M" "k \<in> M" and memo: "memo_of env M w"
  shows "\<exists>w' e. loadEngine env name waited meanwhile w = Some (w', Inr e) \<and> engine_holds e (stored_dict k) \<and>
    w_keys w' = k \<and> w_env w' = drop 1 (w_env w) \<and> w_io w' = tl (w_io w) \<and> w_versions w' = w_versions w \<and> w_cache w' = None \<and>
    em_engine (w_memo w') = Some e \<and> em_digest (w_memo w') = hash_sum env (vk_outputs k)"
proof -
  have ok: "store_ok k" unfolding k_def by (rule elapsed_ok[OF w])
  let ?raw = "re_entries env (vk_outputs k)" let ?d = "hash_sum env (vk_outputs k)"
  let ?w1 = "(others w)\<lparr>w_io := tl (w_io w)\<rparr>"
  have w1: "w_keys ?w1 = k" "w_env ?w1 = drop 1 (w_env w)" "w_memo ?w1 = w_memo w" "w_versions ?w1 = w_versions w" "w_cache ?w1 = None"
    by (simp_all add: others_elapsed k_def) (simp_all add: others_def c)
  have f: "fetchRawOutputs env name w = (?w1, Inr ?raw)"
    using next_env_io[OF io, of "\<lambda>k. re_entries env (vk_outputs k)"] by (simp add: fetchRawOutputs_def others_elapsed k_def)
  obtain outs e where b: "parseOutputs ?raw = Inr outs" "buildEngineFromOutputs env outs = Some e" "engine_holds e (stored_dict k)"
    using build_stored[OF env ok small] by blast
  have l: "loadEngine env name waited meanwhile w = engineFor ?d (Some (Inr e)) ?w1"
    by (simp add: loadEngine_def c f b digest_entries[OF env stored_finite[OF ok]])
  show ?thesis
  proof (cases "em_engine (w_memo w) \<noteq> None \<and> em_digest (w_memo w) = ?d")
    case True
    then obtain e' where e': "em_engine (w_memo w) = Some e'" by blast
    have "engine_holds e' (stored_dict k)" by (rule memo_hit[OF M(1) memo M(2) ok e']) (use True in simp)
    then show ?thesis using True e' w1 by (simp add: l engineFor_def)
  next
    case False
    let ?w2 = "?w1\<lparr>w_stats := stats_miss (w_stats ?w1)\<rparr>"
    obtain w2 where w2: "timed (Inr e) ?w2 = (w2, Inr e)" "w_keys w2 = k" "w_env w2 = drop 1 (w_env w)" "w_io w2 = tl (w_io w)"
      "w_versions w2 = w_versions w" "w_cache w2 = None"
      using timed_Inr[of e ?w2] w1 by auto
    then show ?thesis using False b(3) w1(3) by (auto simp: l engineFor_def)
  qed
qed

text \<open>A client that searches one text after the other; other clients run before each.\<close>

fun v2_finds ::
  "unicode \<Rightarrow> read_env \<Rightarrow> gostring \<Rightarrow> bool \<Rightarrow> gostring list \<Rightarrow> world \<Rightarrow> (world \<times> gostring list result list) option" where
  "v2_finds u env name cs [] w = Some (w, [])"
| "v2_finds u env name cs (text0 # texts) w = do {
     (w1, r) \<leftarrow> v2_find u env name cs id id None text0 w;
     (w2, rs) \<leftarrow> v2_finds u env name cs texts w1;
     Some (w2, r # rs)
   }"

lemma v2_finds_fresh:
  assumes "read_env_ok env" and "collision_free env M" and "world_ok w" and "w_cache w = None" and "memo_of env M w"
    and "\<forall>c \<in> set (w_io w). c = CmdOk" and "\<forall>i \<in> {1..length texts}. small (elapsed i w) \<and> elapsed i w \<in> M" and "[] \<notin> set texts"
  shows "\<exists>w'. v2_finds u env name cs texts w =
      Some (w', map (\<lambda>i. Inr (spec_find (stored_dict (elapsed (Suc i) w)) (normalizeText u (texts ! i) cs))) [0..<length texts]) \<and>
    w_keys w' = elapsed (length texts) w \<and> w_env w' = drop (length texts) (w_env w) \<and> w_cache w' = None \<and> memo_of env M w'"
  using assms(3-8)
proof (induction texts arbitrary: w)
  case Nil
  then show ?case by (simp add: elapsed_def)
next
  case (Cons t texts)
  have io: "next_or CmdOk (w_io w) = CmdOk" using Cons.prems(4) by (cases "w_io w") (auto simp: next_or_def)
  have 1: "1 \<in> {1..length (t # texts)}" by simp
  then have k: "small (elapsed 1 w)" "elapsed 1 w \<in> M" using Cons.prems(5) by blast+
  obtain w1 e where l: "loadEngine env name id id w = Some (w1, Inr e)" "engine_holds e (stored_dict (elapsed 1 w))"
    "w_keys w1 = elapsed 1 w" "w_env w1 = drop 1 (w_env w)" "w_io w1 = tl (w_io w)" "w_versions w1 = w_versions w" "w_cache w1 = None"
    "em_engine (w_memo w1) = Some e" "em_digest (w_memo w1) = hash_sum env (vk_outputs (elapsed 1 w))"
    using loadEngine_uncached[OF Cons.prems(1) assms(1) Cons.prems(2) io k(1) assms(2) k(2) Cons.prems(3), of name id id] by blast
  have ok: "store_ok (elapsed 1 w)" by (rule elapsed_ok[OF Cons.prems(1)])
  have w1: "world_ok w1" using Cons.prems(1) ok l(3-6) by (auto simp: world_ok_def list_all_tl drop_Suc)
  have m1: "memo_of env M w1" using k(2) ok l(2,8,9) by (auto simp: memo_of_def)
  have el: "elapsed i w1 = elapsed (Suc i) w" for i using elapsed_add[OF l(4,3)] by simp
  have "\<forall>c \<in> set (w_io w1). c = CmdOk" using Cons.prems(4) l(5) by (cases "w_io w") auto
  moreover have "\<forall>i \<in> {1..length texts}. small (elapsed i w1) \<and> elapsed i w1 \<in> M" using Cons.prems(5) by (simp add: el)
  ultimately obtain w' where w': "v2_finds u env name cs texts w1 =
      Some (w', map (\<lambda>i. Inr (spec_find (stored_dict (elapsed (Suc i) w1)) (normalizeText u (texts ! i) cs))) [0..<length texts])"
    "w_keys w' = elapsed (length texts) w1" "w_env w' = drop (length texts) (w_env w1)" "w_cache w' = None" "memo_of env M w'"
    using Cons.IH[OF w1 l(7) m1] Cons.prems(6) by auto
  have "v2_find u env name cs id id None t w = Some (w1, Inr (spec_find (stored_dict (elapsed 1 w)) (normalizeText u t cs)))"
    using l(1,2) Cons.prems(6) engine_ops(1) by (auto simp: v2_find_def)
  moreover have "(map (\<lambda>i. Inr (spec_find (stored_dict (elapsed (Suc i) w)) (normalizeText u ((t # texts) ! i) cs))) [0..<length (t # texts)] :: gostring list result list) =
      Inr (spec_find (stored_dict (elapsed 1 w)) (normalizeText u t cs)) #
      map (\<lambda>i. Inr (spec_find (stored_dict (elapsed (Suc (Suc i)) w)) (normalizeText u (texts ! i) cs))) [0..<length texts]"
    by (subst length_Cons, subst upt_conv_Cons) (simp_all add: map_Suc_upt[symmetric] del: upt_Suc)
  ultimately show ?case using w' l(4) by (simp add: el del: upt_Suc)
qed

text \<open>
  C28.  Without a local cache every search reads Redis and answers for the keywords
  stored at that moment, whichever instance wrote them: all their occurrences in the
  case-folded text.  This holds for every search of a run that starts with an empty
  memo, while other clients change the collection before each search: the engine that is
  kept under a digest of the outputs, and used again, is never stale.  It needs that no
  two different outputs that were read have the same sum of hashes, and fewer than
  \<open>2 ^ 30\<close> states.  Searches change no key.
\<close>

theorem v2_find_fresh:
  assumes "world_ok w" and "read_env_ok env" and "w_cache w = None" and "em_engine (w_memo w) = None" and "\<forall>c \<in> set (w_io w). c = CmdOk"
    and "\<forall>i \<in> {1..length texts}. small (elapsed i w)" and "collision_free env ((\<lambda>i. elapsed i w) ` {1..length texts})" and "[] \<notin> set texts"
  shows "\<exists>w'. v2_finds u env name cs texts w = Some (w', map (\<lambda>i.
      Inr (spec_find (dict_of (ts_Keywords (stored (elapsed (Suc i) w)))) (normalizeText u (texts ! i) cs))) [0..<length texts]) \<and>
    w_keys w' = elapsed (length texts) w \<and> w_env w' = drop (length texts) (w_env w)"
proof -
  have "memo_of env ((\<lambda>i. elapsed i w) ` {1..length texts}) w" using assms(4) by (simp add: memo_of_def)
  from v2_finds_fresh[OF assms(2,7,1,3) this assms(5) _ assms(8), of u name cs] assms(6) show ?thesis
    unfolding stored_dict_def by blast
qed

lemma loadEngine_miss:
  assumes w: "world_ok w" and env: "read_env_ok env" and c: "w_cache w = Some c" "\<not> tc_valid (waited c)" "\<not> tc_valid c"
    and io: "next_or CmdOk (w_io w) = CmdOk"
  defines "k \<equiv> elapsed 2 w"
  assumes small: "small k"
  shows "\<exists>w' e c'. loadEngine env name waited meanwhile w = Some (w', Inr e) \<and> engine_holds e (stored_dict k) \<and>
    w_keys w' = k \<and> w_env w' = drop 2 (w_env w) \<and> w_cache w' = Some c' \<and> tc_valid c' \<and> tc_engine c' = Some e"
proof -
  have ok: "store_ok (elapsed 1 w)" "store_ok k" unfolding k_def by (rule elapsed_ok[OF w])+
  obtain outs e where b: "parseOutputs (re_entries env (vk_outputs k)) = Inr outs" "buildEngineFromOutputs env outs = Some e" "engine_holds e (stored_dict k)"
    using build_stored[OF env ok(2) small] by blast
  have p: "\<exists>pfs. unmarshal (Option.bind (vk_trie (elapsed 1 w)) th_prefixes) = Inr pfs"
    using ok(1) by (cases "vk_trie (elapsed 1 w)") (auto simp: store_ok_def trie_of_def)
  then obtain pfs where p: "unmarshal (Option.bind (vk_trie (elapsed 1 w)) th_prefixes) = Inr pfs" by blast
  let ?w0 = "w\<lparr>w_stats := stats_miss (w_stats w), w_cache := Some (waited c)\<rparr>"
  let ?w1 = "(others (others ?w0))\<lparr>w_io := tl (w_io w)\<rparr>"
  have o: "w_keys (others ?w0) = elapsed 1 w" "w_keys (others (others ?w0)) = k" "w_env (others (others ?w0)) = drop 2 (w_env w)"
    unfolding k_def by (simp_all add: others_def elapsed_1 elapsed_2 del: One_nat_def)
  have "fetchTrieData env name ?w0 = (?w1, Inr (pfs, outs))"
    using io p b(1) by (simp add: fetchTrieData_def pipelined_def Let_def o)
  then show ?thesis using c b o by (simp add: loadEngine_def getEngine_def loadCache_def cache_set_def Let_def)
qed

lemma elapsed_calm: "calm w \<Longrightarrow> elapsed n w = w_keys w"
proof -
  have "fold id fs k = k" if "\<forall>f \<in> set fs. f = id" for fs :: "(v2keys \<Rightarrow> v2keys) list" and k
    using that by (induction fs) auto
  then show "calm w \<Longrightarrow> elapsed n w = w_keys w" unfolding elapsed_def calm_def by (meson in_set_takeD)
qed

text \<open>
  What happens in this process between two operations: messages reach the listener, and
  other clients write.
\<close>

inductive idle :: "gostring \<Rightarrow> world \<Rightarrow> world \<Rightarrow> bool" for name w where
  idle_refl: "idle name w w"
| idle_others: "idle name w v \<Longrightarrow> idle name w (others v)"
| idle_message: "idle name w v \<Longrightarrow> idle name w (listenerMessage name payload now now' v)"

lemma listener_fields:
  "w_keys (listenerMessage name payload now now' w) = w_keys w" "w_env (listenerMessage name payload now now' w) = w_env w"
  "w_io (listenerMessage name payload now now' w) = w_io w" "w_versions (listenerMessage name payload now now' w) = w_versions w"
  by (simp_all add: listenerMessage_def Let_def split: option.splits prod.splits)

text \<open>Without a load, a cache that is invalid stays so.\<close>

definition to_load :: "world \<Rightarrow> bool" where
  "to_load w \<longleftrightarrow> (\<exists>c. w_cache w = Some c \<and> \<not> tc_valid c)"

lemma idle_later:
  assumes "idle name w v" and "world_ok w" and "to_load w"
  shows "to_load v \<and> world_ok v \<and> w_io v = w_io w \<and> (\<exists>m. w_keys v = elapsed m w \<and> w_env v = drop m (w_env w))"
  using assms(1)
proof induction
  case idle_refl
  then show ?case using assms(2,3) by (auto simp: elapsed_def intro!: exI[of _ 0])
next
  case (idle_others v)
  then obtain m where m: "w_keys v = elapsed m w" "w_env v = drop m (w_env w)" by blast
  have "w_keys (others v) = elapsed (m + 1) w" "w_env (others v) = drop (m + 1) (w_env w)"
    using elapsed_add[OF m(2,1), of 1] m(2) by (simp_all only: others_elapsed drop_drop add.commute)
  moreover have "world_ok (others v)"
  proof -
    have v: "world_ok v" using idle_others.IH by blast
    have "w_env (others v) = tl (w_env v)" "w_versions (others v) = w_versions v" "w_io (others v) = w_io v" by (simp_all add: others_def)
    with v elapsed_ok[OF v, of 1] show ?thesis by (simp add: world_ok_def list_all_tl others_elapsed(1))
  qed
  moreover have "to_load (others v)" "w_io (others v) = w_io w" using idle_others.IH by (auto simp: to_load_def others_def)
  ultimately show ?case by blast
next
  case (idle_message v payload now now')
  then have "to_load (listenerMessage name payload now now' v)"
    by (auto simp: to_load_def listenerMessage_def cache_invalidate_def Let_def split: prod.splits)
  with idle_message.IH show ?case by (auto simp: world_ok_def listener_fields)
qed

text \<open>A commit leaves the cache invalid, also after attempts that lost.\<close>

lemma retryFrom_success:
  assumes "retryFrom n step1 w = (w', Inr x)" and "P w" and "\<And>v. P v \<Longrightarrow> P (v\<lparr>w_waits := tl (w_waits v)\<rparr>)"
    and "\<And>v v' err. P v \<Longrightarrow> step1 v = (v', Inl err) \<Longrightarrow> P v'"
  shows "\<exists>v. P v \<and> step1 v = (w', Inr x)"
  using assms(1,2)
proof (induction n arbitrary: w)
  case (Suc n)
  obtain w1 r where t: "step1 w = (w1, r)" by fastforce
  show ?case
  proof (cases r)
    case (Inr y)
    with Suc.prems t show ?thesis by auto
  next
    case (Inl err)
    with assms(4)[OF Suc.prems(2)] t have "P (w1\<lparr>w_waits := tl (w_waits w1)\<rparr>)" using assms(3) by blast
    moreover have "retryFrom n step1 (w1\<lparr>w_waits := tl (w_waits w1)\<rparr>) = (w', Inr x)"
      using Suc.prems(1) t Inl by (auto simp: Let_def split: if_splits option.splits)
    ultimately show ?thesis by (rule Suc.IH[rotated])
  qed
qed simp

lemma command_cache: "command f w = (w', r) \<Longrightarrow> w_cache w' = w_cache w"
  by (auto simp: command_def others_def Let_def split: prod.splits cmd_io.splits)

lemma tryAdd_cache:
  assumes "tryAddV2 name kw w = (w', r)" and "w_cache w \<noteq> None"
  shows "case r of Inl err \<Rightarrow> w_cache w' \<noteq> None | Inr c \<Rightarrow> c = 1 \<longrightarrow> to_load w'"
proof -
  obtain w1 q where 1: "readTrieSnapshot name w = (w1, q)" by fastforce
  have c1: "w_cache w1 \<noteq> None" using 1 assms(2) command_cache by (fastforce simp: readTrieSnapshot_def split: prod.splits sum.splits)
  show ?thesis
  proof (cases q)
    case (Inl err)
    with assms(1) 1 c1 show ?thesis by (auto simp: tryAddV2_def)
  next
    case (Inr snap)
    obtain s' outs changed where p: "planAdd snap kw = (s', outs, changed)" by (metis surj_pair)
    obtain w2 v where 2: "commitV2Write name s' outs False w1 = (w2, v)" by fastforce
    have c2: "w_cache w2 \<noteq> None"
      using 2 c1 command_cache[of _ "w1\<lparr>w_versions := tl (w_versions w1)\<rparr>"]
      by (auto simp: commitV2Write_def Let_def split: sum.splits prod.splits)
    have "to_load (publishInvalidate name w2)"
      using c2 by (auto simp: to_load_def publishInvalidate_def update_cache_def cache_invalidate_def Let_def split: cmd_io.splits)
    with assms(1) 1 Inr p 2 c1 c2 show ?thesis by (auto simp: tryAddV2_def split: if_splits sum.splits)
  qed
qed

lemma v2_add_to_load:
  assumes "v2_add u name cs keyword w = (w1, Inr 1)" and "w_cache w \<noteq> None"
  shows "to_load w1"
proof -
  let ?step1 = "tryAddV2 name (normalizeKeyword u keyword cs)"
  have "retryFrom maxRetries ?step1 w = (w1, Inr 1)" using assms(1) by (auto simp: v2_add_def retryOnConflict_def Let_def split: if_splits)
  moreover have "w_cache v' \<noteq> None" if "w_cache v \<noteq> None" "?step1 v = (v', Inl err)" for v v' err using tryAdd_cache[OF that(2,1)] by simp
  ultimately obtain v where "w_cache v \<noteq> None" "?step1 v = (w1, Inr 1)"
    using retryFrom_success[of maxRetries ?step1 w w1 1 "\<lambda>v. w_cache v \<noteq> None"] assms(2) by auto
  with tryAdd_cache[OF this(2,1)] show ?thesis by simp
qed

text \<open>An add that counts one, by the instant at which it took effect.\<close>

lemma v2_add_counted:
  assumes "world_ok w" and "utf8_ok (normalizeKeyword u keyword cs)" and "v2_add u name cs keyword w = (w1, Inr 1)"
  defines "kw \<equiv> normalizeKeyword u keyword cs"
  shows "world_ok w1 \<and> (\<exists>n. w_env w1 = drop n (w_env w) \<and> kw \<notin> set (ts_Keywords (stored (elapsed n w))) \<and>
    ts_Keywords (stored (w_keys w1)) = ts_Keywords (stored (elapsed n w)) @ [kw])"
proof -
  have kw: "kw \<noteq> []" using assms(3) by (auto simp: v2_add_def kw_def)
  then have "retryOnConflict (attempt name False (add_plan kw) (\<lambda>_ _. publishInvalidate name)) w = (w1, Inr 1)"
    using assms(3) by (simp add: v2_add_def kw_def tryAddV2_attempt Let_def)
  from attempts_linearized[OF add_plan_ok quiet_publish assms(1) this] assms(2)
  have l: "linearized (add_plan kw) w w1 (Inr 1)" by (simp add: kw_def)
  from l obtain n where n: "w_env w1 = drop n (w_env w)" "store_ok (elapsed n w)" "effect (add_plan kw) (elapsed n w) (w_keys w1) 1"
    by (auto elim: linearizedE)
  have "kw \<notin> set (ts_Keywords (stored (elapsed n w))) \<and> ts_Keywords (stored (w_keys w1)) = ts_Keywords (stored (elapsed n w)) @ [kw]"
    using effect_add[OF n(3) _ n(2) kw] assms(2) by (auto simp: kw_def split: if_splits)
  moreover have "world_ok w1" using l by (simp add: linearized_def)
  ultimately show ?thesis using n(1) by blast
qed

text \<open>A stored keyword is found wherever it occurs.\<close>

lemma spec_find_stored:
  assumes "store_ok k" and "kw \<in> set (ts_Keywords (stored k))" and "sublist (runes kw) (runes t)"
  shows "kw \<in> set (spec_find (stored_dict k) t)"
proof -
  have D: "\<forall>x \<in> set (ts_Keywords (stored k)). x \<noteq> [] \<and> utf8_ok x" using snap_okD(2)[of "stored k"] assms(1) unfolding store_ok_def by blast
  then have "runes kw \<in> dom (stored_dict k)" using assms(2) by (auto simp: stored_dict_def dom_dict_of)
  then obtain k' where k': "stored_dict k (runes kw) = Some k'" by blast
  then have "runes k' = runes kw" "k' \<in> set (ts_Keywords (stored k))" using dict_of_runes by (auto simp: stored_dict_def)
  then have "k' = kw" using D assms(2) unfolding utf8_ok_def by metis
  have "runes kw \<noteq> []" using k' by (auto simp: stored_dict_def)
  from assms(3) obtain p q where t: "runes t = p @ runes kw @ q" by (auto simp: sublist_def)
  have "(kw, int (length p), int (length p + length (runes kw))) \<in> set (occurrences (stored_dict k) (runes t))"
    unfolding occurrences_iff using k' \<open>k' = kw\<close> \<open>runes kw \<noteq> []\<close> by (simp add: t nat_add_distrib)
  then show ?thesis unfolding spec_find_def by force
qed

text \<open>
  C29.  An instance with a local cache reads its own writes, while other clients write.
  After an add that counted one, at whatever attempt, the keyword is stored.  Then
  messages may reach the listener and other clients may write, and the next search, whose
  command succeeds, reloads the cache: it answers for the keywords stored at the moment of
  its read, which is after the add.  So it reports the new keyword wherever it occurs, unless
  it was removed again; and if nobody else wrote since, it answers for the keywords the add
  found and the new one.  The listener may also act while the search waits for the load
  lock or for its reply; a load by another goroutine of the instance at that time is
  excluded (\<open>v2_cache_lost_invalidation\<close> shows what goes wrong).
\<close>

theorem v2_read_own_write:
  assumes "world_ok w" and "w_cache w \<noteq> None" and "read_env_ok env" and "kw = normalizeKeyword u keyword cs" and "utf8_ok kw"
    and "v2_add u name cs keyword w = (w1, Inr 1)" and "idle name w1 w2" and "\<And>c. \<not> tc_valid c \<Longrightarrow> \<not> tc_valid (waited c)"
    and "next_or CmdOk (w_io w2) = CmdOk" and "small (elapsed 2 w2)" and "text0 \<noteq> []"
  shows "\<exists>n m w3. let old = ts_Keywords (stored (elapsed n w)); seen = ts_Keywords (stored (elapsed m w1));
      answer = spec_find (dict_of seen) (normalizeText u text0 cs)
    in w_env w1 = drop n (w_env w) \<and> kw \<notin> set old \<and> ts_Keywords (stored (w_keys w1)) = old @ [kw] \<and>
      v2_find u env name cs waited meanwhile None text0 w2 = Some (w3, Inr answer) \<and> elapsed m w1 = elapsed 2 w2 \<and>
      (kw \<in> set seen \<and> sublist (runes kw) (runes (normalizeText u text0 cs)) \<longrightarrow> kw \<in> set answer) \<and>
      (elapsed m w1 = w_keys w1 \<longrightarrow> answer = spec_find (dict_of (old @ [kw])) (normalizeText u text0 cs))"
proof -
  have A: "world_ok w1" using v2_add_counted[OF assms(1)] assms(4-6) by blast
  obtain n where n: "w_env w1 = drop n (w_env w)" "kw \<notin> set (ts_Keywords (stored (elapsed n w)))"
    "ts_Keywords (stored (w_keys w1)) = ts_Keywords (stored (elapsed n w)) @ [kw]"
    using v2_add_counted[OF assms(1)] assms(4-6) by blast
  have "to_load w1" by (rule v2_add_to_load[OF assms(6,2)])
  note I = idle_later[OF assms(7) A this]
  then obtain c m where c: "w_cache w2 = Some c" "\<not> tc_valid c" and m: "w_keys w2 = elapsed m w1" "w_env w2 = drop m (w_env w1)"
    and w2: "world_ok w2" by (auto simp: to_load_def)
  have el: "elapsed 2 w2 = elapsed (m + 2) w1" by (rule elapsed_add(1)[OF m(2,1)])
  from loadEngine_miss[where waited = waited, OF w2 assms(3) c(1) assms(8)[OF c(2)] c(2) assms(9,10), of name meanwhile]
  obtain w3 eng where "loadEngine env name waited meanwhile w2 = Some (w3, Inr eng)" "engine_holds eng (stored_dict (elapsed 2 w2))" by auto
  then have f: "v2_find u env name cs waited meanwhile None text0 w2 =
      Some (w3, Inr (spec_find (stored_dict (elapsed 2 w2)) (normalizeText u text0 cs)))"
    using assms(11) engine_ops(1) by (simp add: v2_find_def)
  have ok: "store_ok (elapsed 2 w2)" by (rule elapsed_ok[OF w2])
  have found: "kw \<in> set (spec_find (stored_dict (elapsed 2 w2)) (normalizeText u text0 cs))"
    if "kw \<in> set (ts_Keywords (stored (elapsed 2 w2)))" "sublist (runes kw) (runes (normalizeText u text0 cs))"
    using spec_find_stored[OF ok that] .
  show ?thesis
    unfolding Let_def
    by (rule exI[of _ n], rule exI[of _ "m + 2"], rule exI[of _ w3])
      (use n f found in \<open>auto simp: stored_dict_def el\<close>)
qed

text \<open>
  C30.  A message of a peer that is handled while the cache loads is lost.  If it
  arrives after the outputs were read, the automaton built from them is published
  as valid over the invalidation; from then on every search is answered from it
  without reading Redis, whatever the keys hold, until another message comes.
\<close>

theorem v2_cache_lost_invalidation:
  assumes "world_ok w" and "read_env_ok env" and "w_cache w = Some c" and "\<not> tc_valid c" and "next_or CmdOk (w_io w) = CmdOk"
    and "small (elapsed 2 w)" and "text0 \<noteq> []"
  shows "\<exists>w1. v2_find u env name cs id cache_invalidate None text0 w =
      Some (w1, Inr (spec_find (stored_dict (elapsed 2 w)) (normalizeText u text0 cs))) \<and>
    (\<forall>w2 waited meanwhile text1. w_cache w2 = w_cache w1 \<and> text1 \<noteq> [] \<longrightarrow>
       v2_find u env name cs waited meanwhile None text1 w2 =
         Some (w2\<lparr>w_stats := stats_hit (w_stats w2)\<rparr>, Inr (spec_find (stored_dict (elapsed 2 w)) (normalizeText u text1 cs))))"
proof -
  have i: "\<not> tc_valid (id c)" using assms(4) by simp
  obtain w1 e c1 where l: "loadEngine env name id cache_invalidate w = Some (w1, Inr e)" "engine_holds e (stored_dict (elapsed 2 w))"
    "w_cache w1 = Some c1" "tc_valid c1" "tc_engine c1 = Some e"
    using loadEngine_miss[where waited = id, OF assms(1-3) i assms(4-6), of name cache_invalidate] by blast
  have "v2_find u env name cs waited meanwhile None text1 w2 =
      Some (w2\<lparr>w_stats := stats_hit (w_stats w2)\<rparr>, Inr (spec_find (stored_dict (elapsed 2 w)) (normalizeText u text1 cs)))"
    if "w_cache w2 = w_cache w1 \<and> text1 \<noteq> []" for w2 waited meanwhile text1
    using that l engine_ops(1) by (simp add: v2_find_def loadEngine_def getEngine_def)
  moreover have "v2_find u env name cs id cache_invalidate None text0 w =
      Some (w1, Inr (spec_find (stored_dict (elapsed 2 w)) (normalizeText u text0 cs)))"
    using l(1,2) assms(7) engine_ops(1) by (simp add: v2_find_def)
  ultimately show ?thesis by blast
qed

text \<open>
  C31.  Opening a collection leaves an existing one alone, but the check and the
  initialisation are two commands: the keywords that another client adds to a new
  collection between them are erased, and their output lists stay behind.
\<close>

theorem v2_init_race:
  assumes "world_ok w" and "next_or CmdOk (w_io w) = CmdOk" and "next_or CmdOk (tl (w_io w)) = CmdOk"
    and "int64_range (next_or 1 (w_clock w))" and "v2_init name w = (w', r)"
  shows "r = Inr () \<and>
    (vk_trie (elapsed 1 w) \<noteq> None \<longrightarrow> w_keys w' = elapsed 1 w) \<and>
    (vk_trie (elapsed 1 w) = None \<longrightarrow>
       ts_Keywords (stored (w_keys w')) = [] \<and> vk_outputs (w_keys w') = map_option Json \<circ> outputs_of (stored (elapsed 2 w)))"
proof -
  let ?w1 = "(others w)\<lparr>w_io := tl (w_io w)\<rparr>"
  have c1: "command (\<lambda>k. (k, vk_trie k \<noteq> None)) w = (?w1, Inr (vk_trie (elapsed 1 w) \<noteq> None))"
    using next_env_io[OF assms(2), of "\<lambda>k. vk_trie k \<noteq> None"] by (simp add: others_elapsed)
  show ?thesis
  proof (cases "vk_trie (elapsed 1 w) = None")
    case False
    then have "w' = ?w1" "r = Inr ()" using assms(5)[unfolded v2_init_def c1] by simp_all
    with False show ?thesis by (auto simp: others_elapsed)
  next
    case True
    let ?now = "next_or 1 (w_clock w)"
    let ?k = "(elapsed 2 w)\<lparr>vk_trie := Some (emptyTrieFields ?now)\<rparr>"
    have o: "w_keys (others (?w1\<lparr>w_clock := tl (w_clock w)\<rparr>)) = elapsed 2 w"
      unfolding others_def by (simp add: elapsed_1 elapsed_2 del: One_nat_def)
    have cl: "w_clock ?w1 = w_clock w" "w_io ?w1 = tl (w_io w)" by (simp_all add: others_def)
    have "r = Inr () \<and> w_keys w' = ?k"
      using assms(5)[unfolded v2_init_def c1] assms(3) True by (auto simp: cl Let_def command_def o)
    moreover have "stored ?k = \<lparr>ts_Keywords = [], ts_Prefixes = [[]], ts_Version = ?now\<rparr>"
      using assms(4) by (simp add: stored_def snapshot_of_def emptyTrieFields_def parseTrieVersion_itoa)
    moreover have "vk_outputs (elapsed 2 w) = map_option Json \<circ> outputs_of (stored (elapsed 2 w))"
      using elapsed_ok[OF assms(1), of 2] by (simp add: store_ok_def)
    ultimately show ?thesis using True by simp
  qed
qed

section \<open>Examples\<close>

text \<open>Entries and keywords in the order of the keys.\<close>

definition example_env :: read_env where
  "example_env = \<lparr>re_build = env_example, re_entries = (\<lambda>m. map (\<lambda>s. (s, the (m s))) (sorted_list_of_set (dom m))),
     re_keywords = sorted_list_of_set, re_hash = (\<lambda>s. of_nat (length s)), re_hashJson = (\<lambda>_. 1)\<rparr>"

lemma example_env_ok: "read_env_ok example_env"
proof -
  have "map_of (map (\<lambda>s. (s, the (m s))) (sorted_list_of_set (dom m))) = m" if "finite (dom m)" for m :: "gostring \<rightharpoonup> gostring list json"
    using that by (auto simp: fun_eq_iff map_of_map_keys map_of_eq_None_iff dom_def restrict_map_def)
  then show ?thesis using env_example_ok by (simp add: read_env_ok_def example_env_def comp_def)
qed

lemma states_bound:
  assumes "length (concat (map (\<lambda>k. prefixes (runes k)) ks)) < 2 ^ 30" and "ks \<noteq> []"
  shows "card (states (dict_of ks)) < 2 ^ 30"
proof -
  have "states (dict_of ks) \<subseteq> set (concat (map (\<lambda>k. prefixes (runes k)) ks))"
    using assms(2) by (auto simp: states_def dom_dict_of neq_Nil_conv)
  then have "card (states (dict_of ks)) \<le> length (concat (map (\<lambda>k. prefixes (runes k)) ks))"
    by (meson card_length card_mono finite_set order_trans)
  with assms(1) show ?thesis by simp
qed

lemma small_example: "small (example_keys snap_example)"
proof -
  have "length (concat (map (\<lambda>k. prefixes (runes k)) [''he''])) < 2 ^ 30" by (simp add: runes_ascii byte_def RuneSelf_def)
  then have "card (states (dict_of [''he''])) < 2 ^ 30" by (rule states_bound) simp
  then show ?thesis using example_keys_ok(1) by (simp add: small_def snap_example_def)
qed

lemma small_later: "small (example_keys snap_later)"
proof -
  have "length (concat (map (\<lambda>k. prefixes (runes k)) [''he'', ''hers''])) < 2 ^ 30" by (simp add: runes_ascii byte_def RuneSelf_def)
  then have "card (states (dict_of [''he'', ''hers''])) < 2 ^ 30" by (rule states_bound) simp
  then show ?thesis using example_keys_ok(2) by (simp add: small_def snap_later_def)
qed

lemma example_collision_free: "collision_free example_env {example_keys snap_example, example_keys snap_later}"
proof -
  have u: "utf8_ok ''he'' \<and> utf8_ok ''h'' \<and> utf8_ok ''her'' \<and> utf8_ok ''hers''" by code_simp
  have l: "live_prefixes {''he''} = {''h'', ''he''}" "live_prefixes {''he'', ''hers''} = {''h'', ''he'', ''her'', ''hers''}"
    using u by (auto simp: live_prefixes_def prefix_Cons)
  have o: "outputs_of snap_example ''h'' = None" "outputs_of snap_example ''he'' \<noteq> None" "outputs_of snap_later ''h'' = None"
    "outputs_of snap_later ''her'' = None" "outputs_of snap_later ''he'' \<noteq> None" "outputs_of snap_later ''hers'' \<noteq> None" by code_simp+
  have sub: "dom (outputs_of s) \<subseteq> live_prefixes (set (ts_Keywords s))" for s by (auto simp: outputs_of_def split: if_splits)
  have "dom (outputs_of snap_example) \<subseteq> {''h'', ''he''}" "dom (outputs_of snap_later) \<subseteq> {''h'', ''he'', ''her'', ''hers''}"
    using sub[of snap_example] sub[of snap_later] by (simp_all add: snap_example_def snap_later_def l)
  then have "dom (outputs_of snap_example) = {''he''}" "dom (outputs_of snap_later) = {''he'', ''hers''}" using o by auto
  then have d: "dom (vk_outputs (example_keys snap_example)) = {''he''}" "dom (vk_outputs (example_keys snap_later)) = {''he'', ''hers''}"
    by (simp_all add: example_keys_def dom_map_option_comp)
  have "hash_sum example_env (vk_outputs (example_keys snap_example)) = 3" "hash_sum example_env (vk_outputs (example_keys snap_later)) = 8"
    by (simp_all add: hash_sum_def d example_env_def)
  then show ?thesis by (auto simp: collision_free_def inj_on_def)
qed

lemma elapsed_example: "elapsed n (example_world [] io) = example_keys snap_example"
  by (simp add: elapsed_def example_world_def)

text \<open>
  Three searches while another client writes before the second one: the first builds an
  engine, the second another one, and the third uses it again.  \<close>

theorem v2_find_fresh_witness:
  "\<exists>w'. v2_finds ascii_unicode example_env ''words'' False [''THE'', ''others'', ''ushers''] (example_world [id, example_other] []) =
     Some (w', [Inr [''he''], Inr [''he'', ''hers''], Inr [''he'', ''hers'']])"
proof -
  let ?w = "example_world [id, example_other] []" and ?ts = "[''THE'', ''others'', ''ushers'']"
  have w: "world_ok ?w" using example_other_ok by (intro example_world_ok) simp_all
  have "rawVersion (example_keys snap_example) = Some ''7''" by code_simp
  then have el: "elapsed 1 ?w = example_keys snap_example" "elapsed 2 ?w = example_keys snap_later" "elapsed 3 ?w = example_keys snap_later"
    by (simp_all add: elapsed_def example_world_def numeral_2_eq_2 numeral_3_eq_3 example_other_def)
  have i: "{1..length ?ts} = {1, 2, 3}" by auto
  have f: "w_cache ?w = None" "em_engine (w_memo ?w) = None" "\<forall>c \<in> set (w_io ?w). c = CmdOk" by (simp_all add: example_world_def)
  have s: "\<forall>i \<in> {1..length ?ts}. small (elapsed i ?w)" using small_example small_later unfolding i by (simp add: el el(1)[unfolded One_nat_def])
  have "collision_free example_env {example_keys snap_example, example_keys snap_later}" by (rule example_collision_free)
  then have c: "collision_free example_env ((\<lambda>i. elapsed i ?w) ` {1..length ?ts})" unfolding i by (simp add: el el(1)[unfolded One_nat_def])
  from v2_find_fresh[OF w example_env_ok f s c, of ascii_unicode "''words''" False] obtain w' where
    "v2_finds ascii_unicode example_env ''words'' False ?ts ?w = Some (w', map (\<lambda>i.
      Inr (spec_find (dict_of (ts_Keywords (stored (elapsed (Suc i) ?w)))) (normalizeText ascii_unicode (?ts ! i) False))) [0..<length ?ts])" by auto
  moreover have "ts_Keywords (stored (elapsed 1 ?w)) = [''he'']" "ts_Keywords (stored (elapsed 2 ?w)) = [''he'', ''hers'']"
    "ts_Keywords (stored (elapsed 3 ?w)) = [''he'', ''hers'']"
    using example_keys_ok unfolding el by (simp_all add: snap_example_def snap_later_def)
  moreover have "spec_find (dict_of [''he'']) (normalizeText ascii_unicode ''THE'' False) = [''he'']"
    "spec_find (dict_of [''he'', ''hers'']) (normalizeText ascii_unicode ''others'' False) = [''he'', ''hers'']"
    "spec_find (dict_of [''he'', ''hers'']) (normalizeText ascii_unicode ''ushers'' False) = [''he'', ''hers'']" by code_simp+
  ultimately show ?thesis by (simp add: numeral_2_eq_2 numeral_3_eq_3)
qed

definition cached_world :: world where
  "cached_world = (example_world [] [])\<lparr>w_cache :=
     Some \<lparr>tc_engine = None, tc_valid = False, tc_selfSkip = \<lparr>sk_ids = Map.empty, sk_publishCount = 0, sk_cleanupEvery = 0\<rparr>\<rparr>\<rparr>"

lemma cached_world_ok:
  "world_ok cached_world" "calm cached_world" "stored (w_keys cached_world) = snap_example" "next_or CmdOk (w_io cached_world) = CmdOk"
  "elapsed n cached_world = example_keys snap_example"
proof -
  have "world_ok (example_world [] [])" by (intro example_world_ok) simp_all
  then show "world_ok cached_world" by (simp add: world_ok_def cached_world_def)
qed (use example_keys_ok(1) in \<open>simp_all add: cached_world_def example_world_def calm_def next_or_def elapsed_def\<close>)

text \<open>
  A collection in which, while this client adds a keyword, another client writes after its
  read, so that its first attempt loses; later a message of that client arrives.
\<close>

definition contended_world :: world where
  "contended_world = (example_world [id, example_other] [])\<lparr>w_cache := w_cache cached_world\<rparr>"

theorem v2_read_own_write_witness:
  "\<exists>w1 w3. v2_add ascii_unicode ''words'' True ''she'' contended_world = (w1, Inr 1) \<and>
     v2_find ascii_unicode example_env ''words'' True id cache_invalidate None ''ushers'' (listenerMessage ''words'' ''words:9:9'' 0 0 w1) =
       Some (w3, Inr [''she'', ''he'', ''hers''])"
proof -
  have "(case v2_add ascii_unicode ''words'' True ''she'' contended_world of (w1, r) \<Rightarrow> r = Inr 1 \<and> w_env w1 = [] \<and> w_io w1 = [] \<and>
      ts_Keywords (stored (w_keys w1)) = [''he'', ''hers'', ''she''])" by code_simp
  then obtain w1 where a: "v2_add ascii_unicode ''words'' True ''she'' contended_world = (w1, Inr 1)" "w_env w1 = []" "w_io w1 = []"
    "ts_Keywords (stored (w_keys w1)) = [''he'', ''hers'', ''she'']" by (auto split: prod.splits)
  let ?w2 = "listenerMessage ''words'' ''words:9:9'' 0 0 w1"
  have n: "normalizeKeyword ascii_unicode ''she'' True = ''she''" by code_simp
  have "world_ok (example_world [id, example_other] [])" using example_other_ok by (intro example_world_ok) simp_all
  then have w: "world_ok contended_world" by (simp add: world_ok_def contended_world_def)
  have c: "w_cache contended_world \<noteq> None" by (simp add: contended_world_def cached_world_def)
  have i: "idle ''words'' w1 ?w2" by (intro idle_message idle_refl)
  have e: "elapsed m w1 = w_keys w1" "elapsed m ?w2 = w_keys w1" for m by (simp_all add: elapsed_def a(2) listener_fields)
  have s: "small (elapsed 2 ?w2)"
    unfolding small_def e a(4) by (rule states_bound) (simp_all add: runes_ascii byte_def RuneSelf_def)
  have io: "next_or CmdOk (w_io ?w2) = CmdOk" by (simp add: listener_fields a(3) next_or_def)
  have v: "\<not> tc_valid (id c)" if "\<not> tc_valid c" for c using that by simp
  have t: "utf8_ok ''she''" "''ushers'' \<noteq> []" using ascii_utf8 by simp_all
  from v2_read_own_write[where waited = id and meanwhile = cache_invalidate, OF w c example_env_ok n[symmetric] t(1) a(1) i v io s t(2)] obtain w3 where
    "v2_find ascii_unicode example_env ''words'' True id cache_invalidate None ''ushers'' ?w2 =
      Some (w3, Inr (spec_find (dict_of (ts_Keywords (stored (w_keys w1)))) (normalizeText ascii_unicode ''ushers'' True)))"
    unfolding e Let_def by blast
  moreover have "spec_find (dict_of [''he'', ''hers'', ''she'']) (normalizeText ascii_unicode ''ushers'' True) = [''she'', ''he'', ''hers'']" by code_simp
  ultimately show ?thesis using a(1,4) by metis
qed

theorem v2_cache_lost_invalidation_witness:
  "\<exists>w1. v2_find ascii_unicode example_env ''words'' True id cache_invalidate None ''ushers'' cached_world = Some (w1, Inr [''he'']) \<and>
     (\<forall>k. \<exists>w3. v2_find ascii_unicode example_env ''words'' True id id None ''ushers'' (w1\<lparr>w_keys := k\<rparr>) = Some (w3, Inr [''he'']))"
proof -
  obtain c where c: "w_cache cached_world = Some c" "\<not> tc_valid c" by (simp add: cached_world_def)
  have s: "small (elapsed 2 cached_world)" using small_example by (simp add: cached_world_ok)
  have "''ushers'' \<noteq> []" by simp
  from v2_cache_lost_invalidation[OF cached_world_ok(1) example_env_ok c cached_world_ok(4) s this, of ascii_unicode "''words''" True]
  obtain w1 where w1: "v2_find ascii_unicode example_env ''words'' True id cache_invalidate None ''ushers'' cached_world =
      Some (w1, Inr (spec_find (stored_dict (elapsed 2 cached_world)) (normalizeText ascii_unicode ''ushers'' True)))"
    and later: "\<And>w2 waited meanwhile text1. w_cache w2 = w_cache w1 \<and> text1 \<noteq> [] \<Longrightarrow>
      v2_find ascii_unicode example_env ''words'' True waited meanwhile None text1 w2 =
        Some (w2\<lparr>w_stats := stats_hit (w_stats w2)\<rparr>, Inr (spec_find (stored_dict (elapsed 2 cached_world)) (normalizeText ascii_unicode text1 True)))"
    by blast
  have d: "stored_dict (elapsed 2 cached_world) = dict_of [''he'']" using example_keys_ok(1) by (simp add: stored_dict_def cached_world_ok snap_example_def)
  have "spec_find (dict_of [''he'']) (normalizeText ascii_unicode ''ushers'' True) = [''he'']" by code_simp
  with w1 later[of "w1\<lparr>w_keys := k\<rparr>" "''ushers''" id id for k] show ?thesis by (auto simp: d)
qed

definition empty_keys :: v2keys where
  "empty_keys = \<lparr>vk_trie = None, vk_outputs = Map.empty, vk_nodes = False\<rparr>"

definition first_writer :: "v2keys \<Rightarrow> v2keys" where
  "first_writer k = (if rawVersion k = None then example_keys snap_later else k)"

theorem v2_init_race_witness:
  "\<exists>w'. v2_init ''words'' ((example_world [id, first_writer] [])\<lparr>w_keys := empty_keys\<rparr>) = (w', Inr ()) \<and>
     ts_Keywords (stored (w_keys w')) = [] \<and> vk_outputs (w_keys w') ''hers'' = Some (Json [''hers''])"
proof -
  let ?w = "(example_world [id, first_writer] [])\<lparr>w_keys := empty_keys\<rparr>"
  have "stored empty_keys = \<lparr>ts_Keywords = [], ts_Prefixes = [], ts_Version = 0\<rparr>"
    by (simp add: stored_def snapshot_of_def empty_keys_def)
  then have e: "store_ok empty_keys" by (auto simp: store_ok_def snap_ok_def live_prefixes_def outputs_of_def empty_keys_def fun_eq_iff)
  have "rawVersion (example_keys snap_later) = Some ''8''" by code_simp
  then have f: "others_ok first_writer" using example_keys_ok(2) by (simp add: others_ok_def first_writer_def)
  have w: "world_ok ?w" using example_world_ok[of "[id, first_writer]" "[]"] e f example_other_ok(2) by (simp add: world_ok_def)
  have io: "next_or CmdOk (w_io ?w) = CmdOk" "next_or CmdOk (tl (w_io ?w)) = CmdOk" "int64_range (next_or 1 (w_clock ?w))"
    by (simp_all add: example_world_def next_or_def int64_range_def)
  obtain w' r where i: "v2_init ''words'' ?w = (w', r)" by fastforce
  have el: "elapsed 1 ?w = empty_keys" "elapsed 2 ?w = example_keys snap_later"
    by (simp_all add: elapsed_def example_world_def numeral_2_eq_2 first_writer_def rawVersion_def empty_keys_def)
  have t: "vk_trie (elapsed 1 ?w) = None" unfolding el by (simp add: empty_keys_def)
  have "outputs_of snap_later ''hers'' = Some [''hers'']" by code_simp
  with v2_init_race[OF w io i] t example_keys_ok(2) i show ?thesis by (simp add: el)
qed

end
