(* ===== verification/Redis_Backed.thy ===== *)
theory Redis_Backed
  imports V2_Read
begin

text \<open>
  Preset mode: \<^verbatim>\<open>pkg/acor/redis_backed.go\<close>, \<^verbatim>\<open>redis_backed_ops.go\<close> and \<^verbatim>\<open>applyCommittedWrite\<close>
  of \<^verbatim>\<open>batch_atomic.go\<close>.  An instance keeps a local automaton; writes go to Redis and
  are then installed locally, messages of peers and a poller mark it stale, and a
  stale instance reloads before it answers.

  Each definition is one critical section of the instance's lock, or one Redis
  command; the goroutines of the instance, its peers and the messages under way are
  the events of \<open>sysStep\<close>, in any order.
\<close>

section \<open>The instance\<close>

text \<open>A shared reload; its channel \<open>done\<close> is closed once \<open>pr_done\<close> is set, with the error if any.\<close>

record presetReload =
  pr_waiters :: nat
  pr_done :: "acorError option option"
  pr_cancelled :: bool

text \<open>
  \<open>rb_works\<close> are the shared reloads ever started, \<open>rb_reload\<close> the one a new reader
  joins.  The generation counter has 64 bits; it does not run over.
\<close>

record redisBackedAC =
  rb_engine :: Engine
  rb_preset :: Preset
  rb_keywordSet :: "gostring set"
  rb_localVersion :: int
  rb_stale :: bool
  rb_generation :: nat
  rb_stats :: "cacheStats option"
  rb_selfSkip :: selfSkipSet
  rb_works :: "presetReload list"
  rb_reload :: "nat option"

definition buildEngine :: "read_env \<Rightarrow> Preset \<Rightarrow> gostring set \<Rightarrow> Engine option" where
  "buildEngine env preset keywordSet = Engine_Build (re_build env) (Engine_New preset) (re_keywords env keywordSet)"

text \<open>\<open>d\<close> is the time the build took.\<close>

definition prepareSnapshot :: "read_env \<Rightarrow> int \<Rightarrow> trieSnapshot \<Rightarrow> redisBackedAC \<Rightarrow> (redisBackedAC \<times> gostring set \<times> Engine) option" where
  "prepareSnapshot env d snap ac = do {
     let keywords = set (ts_Keywords snap);
     engine \<leftarrow> buildEngine env (rb_preset ac) keywords;
     Some (ac\<lparr>rb_stats := recordRebuild d (rb_stats ac)\<rparr>, keywords, engine)
   }"

text \<open>The two critical sections of \<^verbatim>\<open>applyCommittedWrite\<close>, before and after the build.\<close>

definition applyBegin :: "redisBackedAC \<Rightarrow> redisBackedAC \<times> nat" where
  "applyBegin ac =
     (let generation = rb_generation ac + 1 in (ac\<lparr>rb_generation := generation, rb_stale := True\<rparr>, generation))"

definition applyEnd :: "nat \<Rightarrow> gostring set \<Rightarrow> Engine \<Rightarrow> int \<Rightarrow> redisBackedAC \<Rightarrow> redisBackedAC" where
  "applyEnd generation keywords engine newVersion ac =
     (if rb_generation ac \<noteq> generation then ac
      else ac\<lparr>rb_keywordSet := keywords, rb_engine := engine, rb_localVersion := newVersion, rb_stale := False\<rparr>)"

text \<open>The last critical section of a turn of \<^verbatim>\<open>reloadFromRedis\<close>; \<open>None\<close> is another turn.\<close>

definition reloadEnd :: "nat \<Rightarrow> gostring set \<Rightarrow> Engine \<Rightarrow> int \<Rightarrow> redisBackedAC \<Rightarrow> redisBackedAC option" where
  "reloadEnd generation keywords engine version ac =
     (if rb_generation ac \<noteq> generation then None
      else Some (ac\<lparr>rb_engine := engine, rb_keywordSet := keywords, rb_localVersion := version, rb_stale := False,
        rb_generation := rb_generation ac + 1\<rparr>))"

definition markStale :: "redisBackedAC \<Rightarrow> redisBackedAC" where
  "markStale ac = ac\<lparr>rb_stale := True, rb_generation := rb_generation ac + 1\<rparr>"

definition handleInvalidation :: "gostring \<Rightarrow> gostring \<Rightarrow> int \<Rightarrow> int \<Rightarrow> redisBackedAC \<Rightarrow> redisBackedAC" where
  "handleInvalidation name payload now now' ac =
     (case foreignInvalidation payload name now now' (rb_selfSkip ac) (rb_stats ac) of
        (skip, stats, foreign) \<Rightarrow>
          (let ac' = ac\<lparr>rb_selfSkip := skip, rb_stats := stats\<rparr> in if \<not> foreign then ac' else markStale ac'))"

text \<open>What \<^verbatim>\<open>pollVersion\<close> does with the version it read, or the error and the state of its context.\<close>

definition pollVersion :: "acorError option \<Rightarrow> int result \<Rightarrow> redisBackedAC \<Rightarrow> redisBackedAC" where
  "pollVersion ctxErr r ac =
     (case r of
        Inl err \<Rightarrow> (if ctxErr = None then ac\<lparr>rb_stats := pollFailure (rb_stats ac)\<rparr> else ac)
      | Inr version \<Rightarrow>
          (if version \<noteq> rb_localVersion ac \<and> \<not> rb_stale ac then ac\<lparr>rb_stale := True, rb_generation := rb_generation ac + 1\<rparr> else ac))"

section \<open>Readers\<close>

text \<open>
  \<^verbatim>\<open>ensureValid\<close> up to its \<^verbatim>\<open>select\<close>: \<open>Inr None\<close> returns at once, \<open>Inr (Some n)\<close> waits for the
  shared reload \<open>n\<close>, which it starts if there is none.
\<close>

definition ensureValidEnter :: "acorError option \<Rightarrow> redisBackedAC \<Rightarrow> redisBackedAC \<times> nat option result" where
  "ensureValidEnter ctxErr ac =
     (case ctxErr of
        Some err \<Rightarrow> (ac, Inl err)
      | None \<Rightarrow>
          if \<not> rb_stale ac then (ac\<lparr>rb_stats := stats_hit (rb_stats ac)\<rparr>, Inr None)
          else
            (let ac1 = ac\<lparr>rb_stats := stats_miss (rb_stats ac)\<rparr>;
                 fresh = \<lparr>pr_waiters = 0, pr_done = None, pr_cancelled = False\<rparr>;
                 (ac2, work) = (case rb_reload ac1 of
                     Some n \<Rightarrow> (ac1, n)
                   | None \<Rightarrow> (ac1\<lparr>rb_works := rb_works ac1 @ [fresh], rb_reload := Some (length (rb_works ac1))\<rparr>, length (rb_works ac1)));
                 w = rb_works ac2 ! work
             in (ac2\<lparr>rb_works := (rb_works ac2)[work := w\<lparr>pr_waiters := pr_waiters w + 1\<rparr>]\<rparr>, Inr (Some work))))"

text \<open>After the \<^verbatim>\<open>select\<close>: the last waiter cancels the reload.\<close>

definition ensureValidLeave :: "nat \<Rightarrow> acorError option \<Rightarrow> acorError option \<Rightarrow> redisBackedAC \<Rightarrow> redisBackedAC \<times> acorError option" where
  "ensureValidLeave work ctxErr acErr ac =
     (let w = rb_works ac ! work; w1 = w\<lparr>pr_waiters := pr_waiters w - 1\<rparr>;
          ac1 = (if pr_waiters w1 = 0
            then ac\<lparr>rb_works := (rb_works ac)[work := w1\<lparr>pr_cancelled := True\<rparr>],
                    rb_reload := (if rb_reload ac = Some work then None else rb_reload ac)\<rparr>
            else ac\<lparr>rb_works := (rb_works ac)[work := w1]\<rparr>)
      in (ac1, case ctxErr of Some err \<Rightarrow> Some err | None \<Rightarrow>
            (case acErr of Some err \<Rightarrow> Some err | None \<Rightarrow> (case pr_done w of Some err \<Rightarrow> err | None \<Rightarrow> None))))"

text \<open>The end of \<^verbatim>\<open>runReload\<close>, with what \<^verbatim>\<open>reloadFromRedis\<close> returned and the state of the work's context.\<close>

definition runReloadEnd :: "nat \<Rightarrow> acorError option \<Rightarrow> acorError option \<Rightarrow> redisBackedAC \<Rightarrow> redisBackedAC" where
  "runReloadEnd work err ctxErr ac =
     (let ac1 = (if err \<noteq> None \<and> ctxErr = None then ac\<lparr>rb_stats := reloadFailure (rb_stats ac)\<rparr> else ac)
      in ac1\<lparr>rb_works := (rb_works ac1)[work := (rb_works ac1 ! work)\<lparr>pr_done := Some err, pr_cancelled := True\<rparr>],
             rb_reload := (if rb_reload ac1 = Some work then None else rb_reload ac1)\<rparr>)"

section \<open>The system\<close>

text \<open>
  A goroutine in \<^verbatim>\<open>reloadFromRedis\<close>, at the top of the loop, after reading the
  generation and after reading Redis; one that committed a write, before and after
  the first critical section of \<^verbatim>\<open>applyCommittedWrite\<close>.
\<close>

datatype reloadJob = AtTop | GotGeneration nat | Fetched nat trieSnapshot
datatype writeJob = Committed trieSnapshot int | Applying trieSnapshot int nat

text \<open>
  \<open>sy_pending\<close> counts the writes of peers whose message has not arrived, \<open>sy_lost\<close> says
  that one will not; \<open>sy_history\<close> are the versions written so far with their keywords.
\<close>

record sys =
  sy_keys :: v2keys
  sy_local :: redisBackedAC
  sy_reloads :: "nat \<rightharpoonup> reloadJob"
  sy_writes :: "nat \<rightharpoonup> writeJob"
  sy_pending :: nat
  sy_lost :: bool
  sy_history :: "int \<rightharpoonup> gostring set"

text \<open>A write to Redis whose plan was made from the current keys, so that the script accepts it; \<open>v\<close> is its version.\<close>

datatype redisWrite = AddMany "gostring list" | RemoveMany "gostring list" | Flush

definition commitWrite :: "redisWrite \<Rightarrow> int \<Rightarrow> v2keys \<Rightarrow> (v2keys \<times> trieSnapshot \<times> int) option" where
  "commitWrite wr v k =
     (case wr of
        AddMany kws \<Rightarrow>
          (case planAddMany (stored k) kws of (s', outs, added) \<Rightarrow>
             if added = [] then None else Some (fst (v2WriteScript (marshalTrieArgs s' outs v False) k), s', v))
      | RemoveMany kws \<Rightarrow>
          (case planRemoveMany (stored k) kws of (s', outs, removed) \<Rightarrow>
             if removed = [] then None else Some (fst (v2WriteScript (marshalTrieArgs s' outs v True) k), s', v))
      | Flush \<Rightarrow>
          Some (k\<lparr>vk_trie := Some (emptyTrieFields v), vk_outputs := Map.empty, vk_nodes := False\<rparr>,
                \<lparr>ts_Keywords = [], ts_Prefixes = [], ts_Version = 0\<rparr>, 0))"

text \<open>
  Versions are not used twice and are integers of 64 bits other than zero, keywords
  are valid UTF-8, and the automaton of what is stored stays within what the
  engines can pack.
\<close>

definition write_ok :: "redisWrite \<Rightarrow> int \<Rightarrow> v2keys \<Rightarrow> sys \<Rightarrow> bool" where
  "write_ok wr v k' s \<longleftrightarrow> v \<noteq> 0 \<and> int64_range v \<and> sy_history s v = None \<and>
     (case wr of AddMany kws \<Rightarrow> list_all utf8_ok kws | _ \<Rightarrow> True) \<and> card (states (dict_of (ts_Keywords (stored k')))) < 2 ^ 30"

datatype event =
    LocalCommit nat redisWrite int
  | LocalBegin nat
  | LocalEnd nat
  | PeerWrite redisWrite int
  | Deliver
  | Lose
  | Spurious
  | Poll
  | ReloadStart nat
  | ReloadGeneration nat
  | ReloadFetch nat
  | ReloadInstall nat
  | ReloadStop nat

definition keywords_of :: "v2keys \<Rightarrow> gostring set" where
  "keywords_of k = set (ts_Keywords (stored k))"

definition recordWrite :: "redisWrite \<Rightarrow> int \<Rightarrow> sys \<Rightarrow> (sys \<times> trieSnapshot \<times> int) option" where
  "recordWrite wr v s = do {
     (k', snap, lv) \<leftarrow> commitWrite wr v (sy_keys s);
     if write_ok wr v k' s then Some (s\<lparr>sy_keys := k', sy_history := (sy_history s)(v \<mapsto> keywords_of k')\<rparr>, snap, lv) else None
   }"

fun sysStep :: "read_env \<Rightarrow> event \<Rightarrow> sys \<Rightarrow> sys option" where
  "sysStep env (LocalCommit j wr v) s =
     (if sy_writes s j \<noteq> None then None
      else do { (s', snap, lv) \<leftarrow> recordWrite wr v s; Some (s'\<lparr>sy_writes := (sy_writes s)(j \<mapsto> Committed snap lv)\<rparr>) })"
| "sysStep env (LocalBegin j) s =
     (case sy_writes s j of
        Some (Committed snap v) \<Rightarrow>
          (case applyBegin (sy_local s) of (ac, generation) \<Rightarrow>
             Some (s\<lparr>sy_local := ac, sy_writes := (sy_writes s)(j \<mapsto> Applying snap v generation)\<rparr>))
      | _ \<Rightarrow> None)"
| "sysStep env (LocalEnd j) s =
     (case sy_writes s j of
        Some (Applying snap v generation) \<Rightarrow> do {
          (ac, keywords, engine) \<leftarrow> prepareSnapshot env 0 snap (sy_local s);
          Some (s\<lparr>sy_local := applyEnd generation keywords engine v ac, sy_writes := (sy_writes s)(j := None)\<rparr>)
        }
      | _ \<Rightarrow> None)"
| "sysStep env (PeerWrite wr v) s =
     do { (s', snap, lv) \<leftarrow> recordWrite wr v s; Some (s'\<lparr>sy_pending := sy_pending s + 1\<rparr>) }"
| "sysStep env Deliver s =
     (if sy_pending s = 0 then None else Some (s\<lparr>sy_pending := sy_pending s - 1, sy_local := markStale (sy_local s)\<rparr>))"
| "sysStep env Lose s = (if sy_pending s = 0 then None else Some (s\<lparr>sy_pending := sy_pending s - 1, sy_lost := True\<rparr>))"
| "sysStep env Spurious s = Some (s\<lparr>sy_local := markStale (sy_local s)\<rparr>)"
| "sysStep env Poll s =
     Some (s\<lparr>sy_local := pollVersion None (Inr (parseTrieVersion (rawVersion (sy_keys s)))) (sy_local s)\<rparr>)"
| "sysStep env (ReloadStart j) s =
     (if sy_reloads s j \<noteq> None then None else Some (s\<lparr>sy_reloads := (sy_reloads s)(j \<mapsto> AtTop)\<rparr>))"
| "sysStep env (ReloadGeneration j) s =
     (case sy_reloads s j of
        Some AtTop \<Rightarrow> Some (s\<lparr>sy_reloads := (sy_reloads s)(j \<mapsto> GotGeneration (rb_generation (sy_local s)))\<rparr>)
      | _ \<Rightarrow> None)"
| "sysStep env (ReloadFetch j) s =
     (case sy_reloads s j of
        Some (GotGeneration g) \<Rightarrow>
          (case snapshot_of (vk_trie (sy_keys s)) of
             Inr snap \<Rightarrow> Some (s\<lparr>sy_reloads := (sy_reloads s)(j \<mapsto> Fetched g snap)\<rparr>)
           | Inl err \<Rightarrow> None)
      | _ \<Rightarrow> None)"
| "sysStep env (ReloadInstall j) s =
     (case sy_reloads s j of
        Some (Fetched g snap) \<Rightarrow> do {
          (ac, keywords, engine) \<leftarrow> prepareSnapshot env 0 snap (sy_local s);
          (case reloadEnd g keywords engine (ts_Version snap) ac of
             Some ac' \<Rightarrow> Some (s\<lparr>sy_local := ac', sy_reloads := (sy_reloads s)(j := None)\<rparr>)
           | None \<Rightarrow> Some (s\<lparr>sy_local := ac, sy_reloads := (sy_reloads s)(j \<mapsto> AtTop)\<rparr>))
        }
      | _ \<Rightarrow> None)"
| "sysStep env (ReloadStop j) s = (if sy_reloads s j = None then None else Some (s\<lparr>sy_reloads := (sy_reloads s)(j := None)\<rparr>))"

fun sysRun :: "read_env \<Rightarrow> event list \<Rightarrow> sys \<Rightarrow> sys option" where
  "sysRun env [] s = Some s"
| "sysRun env (e # es) s = Option.bind (sysStep env e s) (sysRun env es)"

section \<open>Writes\<close>

text \<open>Sets of keywords an engine can be built from, and an engine built from one.\<close>

definition good_set :: "gostring set \<Rightarrow> bool" where
  "good_set K \<longleftrightarrow> finite K \<and> (\<forall>ks. set ks = K \<and> distinct ks \<longrightarrow> keyword_set ks)"

definition holds_set :: "Engine \<Rightarrow> gostring set \<Rightarrow> bool" where
  "holds_set e K \<longleftrightarrow> (\<forall>ks. set ks = K \<longrightarrow> engine_holds e (dict_of ks))"

lemma good_set_stored: "store_ok k \<Longrightarrow> small k \<Longrightarrow> good_set (keywords_of k)"
  using stored_keyword_set(1) by (simp add: good_set_def keywords_of_def)

lemma good_set_engine:
  assumes "read_env_ok env" and "good_set K"
  shows "\<exists>e. buildEngine env preset K = Some e \<and> holds_set e K"
proof -
  let ?ks = "re_keywords env K"
  have ks: "set ?ks = K" "distinct ?ks" using assms unfolding read_env_ok_def good_set_def by blast+
  then have k: "keyword_set ?ks" using assms(2) unfolding good_set_def by blast
  have "Engine_Handle.env_ok (re_build env)" using assms(1) by (simp add: read_env_ok_def)
  from engine_build_correct[OF this k, of preset] obtain e where
    e: "Engine_Build (re_build env) (Engine_New preset) ?ks = Some e" "engine_holds e (dict_of ?ks)" by blast
  have "dict_of xs = dict_of ?ks" if "set xs = K" for xs
    using k ks that by (intro dict_of_set) (simp_all add: keyword_set_def)
  then have "holds_set e K" using e(2) by (simp add: holds_set_def)
  with e(1) show ?thesis by (auto simp: buildEngine_def)
qed

lemma commitWrite_ok:
  assumes c: "commitWrite wr v k = Some (k', snap, lv)" and k: "store_ok k" and v: "int64_range v" "v \<noteq> 0"
    and kws: "case wr of AddMany kws \<Rightarrow> list_all utf8_ok kws | _ \<Rightarrow> True"
  shows "store_ok k' \<and> vk_trie k' \<noteq> None \<and> ts_Version (stored k') = v \<and> set (ts_Keywords snap) = keywords_of k' \<and> lv \<in> {v, 0}"
proof -
  have many: "store_ok k1 \<and> vk_trie k1 \<noteq> None \<and> stored k1 = s'\<lparr>ts_Version := v\<rparr>"
    if "plan_ok clear (many_plan plan kws)" "plan (stored k) kws = (s', outs, ch)" "ch \<noteq> []"
      "k1 = fst (v2WriteScript (marshalTrieArgs s' outs v clear) k)" for plan kws s' outs clear k1 and ch :: "gostring list"
  proof -
    have m: "many_plan plan kws (stored k) = (s', outs, True, ch)" using that by (simp add: many_plan_def)
    have s: "v2WriteScript (marshalTrieArgs s' outs v clear) k = (k1, snd (v2WriteScript (marshalTrieArgs s' outs v clear) k))"
      using that(4) by simp
    from v2WriteScript_commits[OF that(1) m k v s] have r: "store_ok k1" "stored k1 = s'\<lparr>ts_Version := v\<rparr>" by auto
    have "vk_trie k1 \<noteq> None"
    proof
      assume "vk_trie k1 = None"
      then have "ts_Version (stored k1) = 0" by (simp add: stored_def snapshot_of_def)
      with r(2) v(2) show False by simp
    qed
    with r show ?thesis by blast
  qed
  show ?thesis
  proof (cases wr)
    case (AddMany ks)
    obtain s' outs ch where p: "planAddMany (stored k) ks = (s', outs, ch)" by (cases "planAddMany (stored k) ks") auto
    have r: "ch \<noteq> []" "k' = fst (v2WriteScript (marshalTrieArgs s' outs v False) k)" "snap = s'" "lv = v"
      using c p AddMany by (auto simp: commitWrite_def split: if_splits)
    have "\<forall>kw \<in> set ks. utf8_ok kw" using kws AddMany by (simp add: list_all_iff)
    from many[OF add_many_plan_ok[OF this] p r(1,2)] r show ?thesis by (simp add: keywords_of_def)
  next
    case (RemoveMany ks)
    obtain s' outs ch where p: "planRemoveMany (stored k) ks = (s', outs, ch)" by (cases "planRemoveMany (stored k) ks") auto
    have r: "ch \<noteq> []" "k' = fst (v2WriteScript (marshalTrieArgs s' outs v True) k)" "snap = s'" "lv = v"
      using c p RemoveMany by (auto simp: commitWrite_def split: if_splits)
    from many[OF remove_many_plan_ok p r(1,2)] r show ?thesis by (simp add: keywords_of_def)
  next
    case Flush
    let ?s = "\<lparr>ts_Keywords = [], ts_Prefixes = [[]], ts_Version = v\<rparr>"
    have r: "k' = k\<lparr>vk_trie := Some (emptyTrieFields v), vk_outputs := Map.empty, vk_nodes := False\<rparr>" "ts_Keywords snap = []" "lv = 0"
      using c Flush by (auto simp: commitWrite_def)
    have "store_ok k' \<and> stored k' = ?s"
      by (rule store_okI)
        (auto simp: r(1) v snap_ok_def live_prefixes_def trie_of_def emptyTrieFields_def outputs_of_def fun_eq_iff)
    then show ?thesis using r by (simp add: keywords_of_def)
  qed
qed

section \<open>Invariants of every interleaving\<close>

definition known :: "(int \<rightharpoonup> gostring set) \<Rightarrow> trieSnapshot \<Rightarrow> int \<Rightarrow> bool" where
  "known hist snap v \<longleftrightarrow> good_set (set (ts_Keywords snap)) \<and> (v \<noteq> 0 \<longrightarrow> hist v = Some (set (ts_Keywords snap)))"

definition local_inv :: "(int \<rightharpoonup> gostring set) \<Rightarrow> redisBackedAC \<Rightarrow> bool" where
  "local_inv hist ac \<longleftrightarrow> holds_set (rb_engine ac) (rb_keywordSet ac) \<and>
     (rb_localVersion ac \<noteq> 0 \<longrightarrow> hist (rb_localVersion ac) = Some (rb_keywordSet ac))"

fun reload_inv :: "(int \<rightharpoonup> gostring set) \<Rightarrow> nat \<Rightarrow> reloadJob \<Rightarrow> bool" where
  "reload_inv hist gen AtTop \<longleftrightarrow> True"
| "reload_inv hist gen (GotGeneration g) \<longleftrightarrow> g \<le> gen"
| "reload_inv hist gen (Fetched g snap) \<longleftrightarrow> g \<le> gen \<and> known hist snap (ts_Version snap)"

fun write_inv :: "(int \<rightharpoonup> gostring set) \<Rightarrow> nat \<Rightarrow> writeJob \<Rightarrow> bool" where
  "write_inv hist gen (Committed snap v) \<longleftrightarrow> known hist snap v"
| "write_inv hist gen (Applying snap v g) \<longleftrightarrow> g \<le> gen \<and> known hist snap v"

definition keys_inv :: "sys \<Rightarrow> bool" where
  "keys_inv s \<longleftrightarrow> store_ok (sy_keys s) \<and> vk_trie (sy_keys s) \<noteq> None \<and> small (sy_keys s) \<and>
     sy_history s (ts_Version (stored (sy_keys s))) = Some (keywords_of (sy_keys s))"

definition sys_inv :: "sys \<Rightarrow> bool" where
  "sys_inv s \<longleftrightarrow> keys_inv s \<and> local_inv (sy_history s) (sy_local s) \<and>
     (\<forall>j job. sy_reloads s j = Some job \<longrightarrow> reload_inv (sy_history s) (rb_generation (sy_local s)) job) \<and>
     (\<forall>j job. sy_writes s j = Some job \<longrightarrow> write_inv (sy_history s) (rb_generation (sy_local s)) job)"

lemma known_mono: "known h snap v \<Longrightarrow> h \<subseteq>\<^sub>m h' \<Longrightarrow> known h' snap v"
  by (auto simp: known_def map_le_def dom_def)

lemma reload_inv_mono: "reload_inv h g job \<Longrightarrow> h \<subseteq>\<^sub>m h' \<Longrightarrow> g \<le> g' \<Longrightarrow> reload_inv h' g' job"
  by (cases job) (auto intro: known_mono)

lemma write_inv_mono: "write_inv h g job \<Longrightarrow> h \<subseteq>\<^sub>m h' \<Longrightarrow> g \<le> g' \<Longrightarrow> write_inv h' g' job"
  by (cases job) (auto intro: known_mono)

lemma local_inv_mono: "local_inv h ac \<Longrightarrow> h \<subseteq>\<^sub>m h' \<Longrightarrow> local_inv h' ac"
  by (auto simp: local_inv_def map_le_def dom_def)

lemma recordWrite_inv:
  assumes "sys_inv s" and "recordWrite wr v s = Some (s', snap, lv)"
  shows "sys_inv s' \<and> known (sy_history s') snap lv \<and> set (ts_Keywords snap) = keywords_of (sy_keys s') \<and>
    sy_local s' = sy_local s \<and> sy_reloads s' = sy_reloads s \<and> sy_writes s' = sy_writes s \<and> sy_pending s' = sy_pending s \<and> sy_lost s' = sy_lost s"
proof -
  obtain k' where c: "commitWrite wr v (sy_keys s) = Some (k', snap, lv)" "write_ok wr v k' s"
    and s': "s' = s\<lparr>sy_keys := k', sy_history := (sy_history s)(v \<mapsto> keywords_of k')\<rparr>"
    using assms(2) by (auto simp: recordWrite_def bind_eq_Some_conv split: if_splits)
  have w: "v \<noteq> 0" "int64_range v" "sy_history s v = None" "case wr of AddMany kws \<Rightarrow> list_all utf8_ok kws | _ \<Rightarrow> True" "small k'"
    using c(2) unfolding write_ok_def small_def by blast+
  have ok: "store_ok (sy_keys s)" using assms(1) by (simp add: sys_inv_def keys_inv_def)
  note C = commitWrite_ok[OF c(1) ok w(2,1,4)]
  have m: "sy_history s \<subseteq>\<^sub>m sy_history s'" using w(3) by (auto simp: s' map_le_def)
  have "keys_inv s'" using C w(5) by (auto simp: keys_inv_def s')
  moreover have "known (sy_history s') snap lv" using C good_set_stored w(5) by (auto simp: known_def s')
  ultimately show ?thesis using assms(1) C m reload_inv_mono write_inv_mono local_inv_mono
    unfolding sys_inv_def by (simp add: s') blast
qed

lemma prepareSnapshot_inv:
  assumes "read_env_ok env" and "known h snap v" and "prepareSnapshot env d snap ac = Some (ac', K, e)"
  shows "K = set (ts_Keywords snap) \<and> holds_set e K \<and> ac' = ac\<lparr>rb_stats := recordRebuild d (rb_stats ac)\<rparr>"
  using good_set_engine[OF assms(1), of "set (ts_Keywords snap)" "rb_preset ac"] assms(2,3)
  by (auto simp: prepareSnapshot_def known_def bind_eq_Some_conv Let_def)

text \<open>Nothing but the local state, the jobs and the messages changes, and the generation does not go back.\<close>

lemma sys_inv_local:
  assumes "sys_inv s" and "sy_keys s' = sy_keys s" and "sy_history s' = sy_history s" and "local_inv (sy_history s) (sy_local s')"
    and "rb_generation (sy_local s) \<le> rb_generation (sy_local s')"
    and "\<And>j job. sy_reloads s' j = Some job \<Longrightarrow> sy_reloads s j = Some job \<or> reload_inv (sy_history s) (rb_generation (sy_local s')) job"
    and "\<And>j job. sy_writes s' j = Some job \<Longrightarrow> sy_writes s j = Some job \<or> write_inv (sy_history s) (rb_generation (sy_local s')) job"
  shows "sys_inv s'"
  using assms reload_inv_mono[OF _ map_le_refl assms(5)] write_inv_mono[OF _ map_le_refl assms(5)]
  unfolding sys_inv_def keys_inv_def by metis

lemma markStale_fields [simp]:
  "rb_stale (markStale ac)" "rb_generation (markStale ac) = Suc (rb_generation ac)" "rb_keywordSet (markStale ac) = rb_keywordSet ac"
  "rb_engine (markStale ac) = rb_engine ac" "rb_localVersion (markStale ac) = rb_localVersion ac"
  by (simp_all add: markStale_def)

lemma local_inv_stale: "local_inv h ac \<Longrightarrow> local_inv h (markStale ac)"
  by (simp add: local_inv_def)

lemma poll_fields:
  "rb_keywordSet (pollVersion c (Inr v) ac) = rb_keywordSet ac" "rb_engine (pollVersion c (Inr v) ac) = rb_engine ac"
  "rb_localVersion (pollVersion c (Inr v) ac) = rb_localVersion ac"
  "rb_generation ac \<le> rb_generation (pollVersion c (Inr v) ac)"
  "rb_stale (pollVersion c (Inr v) ac) \<longleftrightarrow> rb_stale ac \<or> v \<noteq> rb_localVersion ac"
  "\<not> rb_stale (pollVersion c (Inr v) ac) \<Longrightarrow> pollVersion c (Inr v) ac = ac"
  by (auto simp: pollVersion_def)

lemma sysStep_inv:
  assumes env: "read_env_ok env" and inv: "sys_inv s" and st: "sysStep env e s = Some s'"
  shows "sys_inv s'"
proof (cases e)
  case (LocalCommit j wr v)
  obtain s1 snap lv where r: "recordWrite wr v s = Some (s1, snap, lv)" "s' = s1\<lparr>sy_writes := (sy_writes s)(j \<mapsto> Committed snap lv)\<rparr>"
    using st LocalCommit by (auto simp: bind_eq_Some_conv split: if_splits)
  note R = recordWrite_inv[OF inv r(1)]
  show ?thesis by (rule sys_inv_local[of s1]) (use R in \<open>auto simp: r(2) sys_inv_def split: if_splits\<close>)
next
  case (LocalBegin j)
  obtain snap v where w: "sy_writes s j = Some (Committed snap v)"
    "s' = s\<lparr>sy_local := fst (applyBegin (sy_local s)), sy_writes := (sy_writes s)(j \<mapsto> Applying snap v (snd (applyBegin (sy_local s))))\<rparr>"
    using st LocalBegin by (auto split: option.splits writeJob.splits prod.splits)
  have "write_inv (sy_history s) (rb_generation (sy_local s)) (Committed snap v)" using inv w(1) unfolding sys_inv_def by blast
  then show ?thesis
    by (intro sys_inv_local[OF inv]) (use inv in \<open>auto simp: w(2) applyBegin_def Let_def sys_inv_def local_inv_def split: if_splits\<close>)
next
  case (LocalEnd j)
  obtain snap v g ac K eng where w: "sy_writes s j = Some (Applying snap v g)" "prepareSnapshot env 0 snap (sy_local s) = Some (ac, K, eng)"
    "s' = s\<lparr>sy_local := applyEnd g K eng v ac, sy_writes := (sy_writes s)(j := None)\<rparr>"
    using st LocalEnd by (auto simp: bind_eq_Some_conv split: option.splits writeJob.splits)
  have k: "known (sy_history s) snap v" using inv w(1) unfolding sys_inv_def by fastforce
  note P = prepareSnapshot_inv[OF env k w(2)]
  have "local_inv (sy_history s) (applyEnd g K eng v ac)"
    using P k inv by (auto simp: applyEnd_def sys_inv_def local_inv_def known_def)
  then show ?thesis
    by (intro sys_inv_local[OF inv]) (use P in \<open>auto simp: w(3) applyEnd_def split: if_splits\<close>)
next
  case (PeerWrite wr v)
  obtain s1 snap lv where r: "recordWrite wr v s = Some (s1, snap, lv)" "s' = s1\<lparr>sy_pending := sy_pending s + 1\<rparr>"
    using st PeerWrite by (auto simp: bind_eq_Some_conv)
  show ?thesis by (rule sys_inv_local[of s1]) (use recordWrite_inv[OF inv r(1)] in \<open>auto simp: r(2) sys_inv_def\<close>)
next
  case (ReloadGeneration j)
  have "sy_reloads s j = Some AtTop" "s' = s\<lparr>sy_reloads := (sy_reloads s)(j \<mapsto> GotGeneration (rb_generation (sy_local s)))\<rparr>"
    using st ReloadGeneration by (auto split: option.splits reloadJob.splits)
  then show ?thesis by (intro sys_inv_local[OF inv]) (use inv in \<open>auto simp: sys_inv_def split: if_splits\<close>)
next
  case (ReloadFetch j)
  have ok: "keys_inv s" using inv by (simp add: sys_inv_def)
  then have sn: "snapshot_of (vk_trie (sy_keys s)) = Inr (stored (sy_keys s))" using store_ok_snapshot by (simp add: keys_inv_def)
  obtain g where w: "sy_reloads s j = Some (GotGeneration g)" "s' = s\<lparr>sy_reloads := (sy_reloads s)(j \<mapsto> Fetched g (stored (sy_keys s)))\<rparr>"
    using st ReloadFetch by (auto simp: sn split: option.splits reloadJob.splits)
  have "g \<le> rb_generation (sy_local s)" using inv w(1) unfolding sys_inv_def by fastforce
  moreover have "known (sy_history s) (stored (sy_keys s)) (ts_Version (stored (sy_keys s)))"
    using ok good_set_stored[of "sy_keys s"] by (simp add: known_def keys_inv_def keywords_of_def)
  ultimately show ?thesis by (intro sys_inv_local[OF inv]) (use inv in \<open>auto simp: w(2) sys_inv_def split: if_splits\<close>)
next
  case (ReloadInstall j)
  obtain g snap ac K eng where w: "sy_reloads s j = Some (Fetched g snap)" "prepareSnapshot env 0 snap (sy_local s) = Some (ac, K, eng)"
    "s' = (case reloadEnd g K eng (ts_Version snap) ac of
        Some ac' \<Rightarrow> s\<lparr>sy_local := ac', sy_reloads := (sy_reloads s)(j := None)\<rparr>
      | None \<Rightarrow> s\<lparr>sy_local := ac, sy_reloads := (sy_reloads s)(j \<mapsto> AtTop)\<rparr>)"
    using st ReloadInstall by (auto simp: bind_eq_Some_conv split: option.splits reloadJob.splits)
  have k: "known (sy_history s) snap (ts_Version snap)" using inv w(1) unfolding sys_inv_def by fastforce
  note P = prepareSnapshot_inv[OF env k w(2)]
  show ?thesis
  proof (cases "rb_generation (sy_local s) = g")
    case True
    then have s': "s' = s\<lparr>sy_local := ac\<lparr>rb_engine := eng, rb_keywordSet := K, rb_localVersion := ts_Version snap, rb_stale := False,
        rb_generation := Suc g\<rparr>, sy_reloads := (sy_reloads s)(j := None)\<rparr>"
      using w(3) P by (simp add: reloadEnd_def)
    show ?thesis by (intro sys_inv_local[OF inv]) (use P k True in \<open>auto simp: s' local_inv_def known_def split: if_splits\<close>)
  next
    case False
    then have s': "s' = s\<lparr>sy_local := ac, sy_reloads := (sy_reloads s)(j \<mapsto> AtTop)\<rparr>" using w(3) P by (simp add: reloadEnd_def)
    show ?thesis by (intro sys_inv_local[OF inv]) (use P inv in \<open>auto simp: s' sys_inv_def local_inv_def split: if_splits\<close>)
  qed
next
  case Deliver
  then have "sy_pending s \<noteq> 0" "s' = s\<lparr>sy_pending := sy_pending s - 1, sy_local := markStale (sy_local s)\<rparr>" using st by (auto split: if_splits)
  then show ?thesis by (intro sys_inv_local[OF inv]) (use inv in \<open>auto simp: sys_inv_def local_inv_stale\<close>)
next
  case Lose
  then have "s' = s\<lparr>sy_pending := sy_pending s - 1, sy_lost := True\<rparr>" using st by (auto split: if_splits)
  then show ?thesis by (intro sys_inv_local[OF inv]) (use inv in \<open>auto simp: sys_inv_def\<close>)
next
  case Spurious
  then have "s' = s\<lparr>sy_local := markStale (sy_local s)\<rparr>" using st by simp
  then show ?thesis by (intro sys_inv_local[OF inv]) (use inv in \<open>auto simp: sys_inv_def local_inv_stale\<close>)
next
  case Poll
  then have "s' = s\<lparr>sy_local := pollVersion None (Inr (parseTrieVersion (rawVersion (sy_keys s)))) (sy_local s)\<rparr>" using st by simp
  then show ?thesis by (intro sys_inv_local[OF inv]) (use inv in \<open>auto simp: sys_inv_def local_inv_def poll_fields\<close>)
next
  case (ReloadStart j)
  then have "s' = s\<lparr>sy_reloads := (sy_reloads s)(j \<mapsto> AtTop)\<rparr>" using st by (auto split: if_splits)
  then show ?thesis by (intro sys_inv_local[OF inv]) (use inv in \<open>auto simp: sys_inv_def split: if_splits\<close>)
next
  case (ReloadStop j)
  then have "s' = s\<lparr>sy_reloads := (sy_reloads s)(j := None)\<rparr>" using st by (auto split: if_splits)
  then show ?thesis by (intro sys_inv_local[OF inv]) (use inv in \<open>auto simp: sys_inv_def split: if_splits\<close>)
qed

section \<open>Opening an instance, and what can happen then\<close>

definition newInstance :: "Preset \<Rightarrow> 64 word \<Rightarrow> redisBackedAC" where
  "newInstance preset0 cleanupEvery =
     (let preset = (if preset0 = PresetNone \<or> preset0 = PresetDefault then PresetBalanced else preset0) in
      \<lparr>rb_engine = Engine_New preset, rb_preset = preset, rb_keywordSet = {}, rb_localVersion = 0, rb_stale = False, rb_generation = 0,
       rb_stats = Some \<lparr>cs_presetReloadFailures = 0, cs_presetPollFailures = 0, cs_hits = 0, cs_misses = 0, cs_rebuilds = 0,
         cs_rebuildNanos = 0, cs_lastLagNanos = 0\<rparr>,
       rb_selfSkip = \<lparr>sk_ids = Map.empty, sk_publishCount = 0, sk_cleanupEvery = cleanupEvery\<rparr>, rb_works = [], rb_reload = None\<rparr>)"

text \<open>\<^verbatim>\<open>newRedisBacked\<close> after \<^verbatim>\<open>initTrie\<close>: the first load, from the keys \<open>k\<close>.\<close>

definition openInstance :: "read_env \<Rightarrow> Preset \<Rightarrow> 64 word \<Rightarrow> v2keys \<Rightarrow> sys option" where
  "openInstance env preset cleanupEvery k = do {
     snap \<leftarrow> (case snapshot_of (vk_trie k) of Inl err \<Rightarrow> None | Inr snap \<Rightarrow> Some snap);
     (ac, keywords, engine) \<leftarrow> prepareSnapshot env 0 snap (newInstance preset cleanupEvery);
     ac' \<leftarrow> reloadEnd 0 keywords engine (ts_Version snap) ac;
     Some \<lparr>sy_keys = k, sy_local = ac', sy_reloads = Map.empty, sy_writes = Map.empty, sy_pending = 0, sy_lost = False,
       sy_history = [ts_Version snap \<mapsto> set (ts_Keywords snap)]\<rparr>
   }"

inductive reachable :: "read_env \<Rightarrow> sys \<Rightarrow> sys \<Rightarrow> bool" for env s0 where
  start: "reachable env s0 s0"
| event: "reachable env s0 s \<Longrightarrow> sysStep env e s = Some s' \<Longrightarrow> reachable env s0 s'"

text \<open>The runs in which nothing comes between the commit of a write and the instance noting it.\<close>

fun is_commit :: "event \<Rightarrow> bool" where
  "is_commit (LocalCommit j wr v) \<longleftrightarrow> True"
| "is_commit _ \<longleftrightarrow> False"

inductive prompt :: "read_env \<Rightarrow> sys \<Rightarrow> sys \<Rightarrow> bool" for env s0 where
  start: "prompt env s0 s0"
| event: "prompt env s0 s \<Longrightarrow> \<not> is_commit e \<Longrightarrow> sysStep env e s = Some s' \<Longrightarrow> prompt env s0 s'"
| wrote: "prompt env s0 s \<Longrightarrow> sysStep env (LocalCommit j wr v) s = Some s1 \<Longrightarrow> sysStep env (LocalBegin j) s1 = Some s2 \<Longrightarrow> prompt env s0 s2"

definition current :: "sys \<Rightarrow> gostring set \<Rightarrow> bool" where
  "current s K \<longleftrightarrow> K = keywords_of (sy_keys s) \<or> 0 < sy_pending s \<or> sy_lost s"

definition fresh :: "sys \<Rightarrow> bool" where
  "fresh s \<longleftrightarrow> (\<not> rb_stale (sy_local s) \<longrightarrow> current s (rb_keywordSet (sy_local s))) \<and>
     (\<forall>j snap. sy_reloads s j = Some (Fetched (rb_generation (sy_local s)) snap) \<longrightarrow> current s (set (ts_Keywords snap))) \<and>
     (\<forall>j snap v. sy_writes s j = Some (Applying snap v (rb_generation (sy_local s))) \<longrightarrow> current s (set (ts_Keywords snap))) \<and>
     (\<forall>j snap v. sy_writes s j \<noteq> Some (Committed snap v))"

lemma openInstance_ok:
  assumes env: "read_env_ok env" and k: "store_ok k" "small k" "vk_trie k \<noteq> None" and op: "openInstance env preset c k = Some s"
  shows "sys_inv s \<and> fresh s"
proof -
  have sn: "snapshot_of (vk_trie k) = Inr (stored k)" by (rule store_ok_snapshot[OF k(1)])
  obtain ac K e where p: "prepareSnapshot env 0 (stored k) (newInstance preset c) = Some (ac, K, e)"
    using op by (auto simp: openInstance_def sn bind_eq_Some_conv)
  have v: "ts_Version (stored k) \<noteq> 0" using k(1,3) by (simp add: store_ok_def)
  have g: "good_set (set (ts_Keywords (stored k)))" using good_set_stored[OF k(1,2)] by (simp add: keywords_of_def)
  then have kn: "known [ts_Version (stored k) \<mapsto> set (ts_Keywords (stored k))] (stored k) (ts_Version (stored k))" by (simp add: known_def)
  note P = prepareSnapshot_inv[OF env kn p]
  have "rb_generation ac = 0" using P by (simp add: newInstance_def Let_def)
  then have s: "s = \<lparr>sy_keys = k, sy_local = ac\<lparr>rb_engine := e, rb_keywordSet := K, rb_localVersion := ts_Version (stored k), rb_stale := False,
        rb_generation := 1\<rparr>, sy_reloads = Map.empty, sy_writes = Map.empty, sy_pending = 0, sy_lost = False,
      sy_history = [ts_Version (stored k) \<mapsto> set (ts_Keywords (stored k))]\<rparr>"
    using op p by (simp add: openInstance_def sn reloadEnd_def)
  show ?thesis using P k v by (auto simp: s sys_inv_def fresh_def keys_inv_def local_inv_def current_def keywords_of_def)
qed

lemma openInstance_opens:
  assumes "read_env_ok env" and "store_ok k" and "small k"
  shows "\<exists>s. openInstance env preset c k = Some s \<and> sy_keys s = k \<and> sy_pending s = 0 \<and> \<not> sy_lost s \<and> \<not> rb_stale (sy_local s) \<and>
    sy_writes s = Map.empty \<and> sy_reloads s = Map.empty \<and> sy_history s = [ts_Version (stored k) \<mapsto> keywords_of k] \<and>
    rb_localVersion (sy_local s) = ts_Version (stored k)"
proof -
  obtain e where "buildEngine env (rb_preset (newInstance preset c)) (set (ts_Keywords (stored k))) = Some e"
    using good_set_engine[OF assms(1) good_set_stored[OF assms(2,3)]] unfolding keywords_of_def by blast
  then show ?thesis
    by (simp add: openInstance_def store_ok_snapshot[OF assms(2)] prepareSnapshot_def reloadEnd_def keywords_of_def Let_def) (simp add: newInstance_def Let_def)
qed

text \<open>One event of a prompt run, and a write with what follows it.\<close>

lemma current_pending: "0 < sy_pending s \<or> sy_lost s \<Longrightarrow> current s K"
  by (auto simp: current_def)

lemma old_jobs:
  assumes "sys_inv s"
  shows "sy_reloads s j = Some (Fetched g x) \<Longrightarrow> g \<le> rb_generation (sy_local s)"
    and "sy_writes s j = Some (Applying x v g) \<Longrightarrow> g \<le> rb_generation (sy_local s)"
  using assms unfolding sys_inv_def by fastforce+

text \<open>A stale instance with a new generation has nothing to be wrong about.\<close>

lemma fresh_bump:
  assumes inv: "sys_inv s" and "\<And>j snap v. sy_writes s j \<noteq> Some (Committed snap v)"
    and "rb_stale (sy_local s')" and g: "rb_generation (sy_local s') = Suc (rb_generation (sy_local s))"
    and "sy_reloads s' = sy_reloads s" and "sy_writes s' = sy_writes s"
  shows "fresh s'"
  using assms old_jobs[OF inv] unfolding fresh_def g by (auto dest: old_jobs[OF inv])

lemma fresh_event:
  assumes env: "read_env_ok env" and inv: "sys_inv s" and fr: "fresh s" and e: "\<not> is_commit e" and st: "sysStep env e s = Some s'"
  shows "fresh s'"
proof (cases e)
  case (LocalCommit j wr v)
  with e show ?thesis by simp
next
  case (LocalBegin j)
  with st fr show ?thesis by (auto simp: fresh_def split: option.splits writeJob.splits)
next
  case (LocalEnd j)
  obtain snap v g ac K eng where w: "sy_writes s j = Some (Applying snap v g)" "prepareSnapshot env 0 snap (sy_local s) = Some (ac, K, eng)"
    "s' = s\<lparr>sy_local := applyEnd g K eng v ac, sy_writes := (sy_writes s)(j := None)\<rparr>"
    using st LocalEnd by (auto simp: bind_eq_Some_conv split: option.splits writeJob.splits)
  have k: "known (sy_history s) snap v" using inv w(1) unfolding sys_inv_def by fastforce
  note P = prepareSnapshot_inv[OF env k w(2)]
  have "current s K" if "rb_generation (sy_local s) = g" using fr w(1) P that unfolding fresh_def by blast
  moreover have "current s' X = current s X" for X by (simp add: w(3) current_def)
  ultimately show ?thesis using fr P unfolding fresh_def by (auto simp: w(3) applyEnd_def)
next
  case (PeerWrite wr v)
  obtain s1 snap lv where r: "recordWrite wr v s = Some (s1, snap, lv)" "s' = s1\<lparr>sy_pending := sy_pending s + 1\<rparr>"
    using st PeerWrite by (auto simp: bind_eq_Some_conv)
  have "\<And>K. current s' K" by (rule current_pending) (simp add: r(2))
  then show ?thesis using recordWrite_inv[OF inv r(1)] fr by (simp add: fresh_def r(2))
next
  case (ReloadGeneration j)
  then have "s' = s\<lparr>sy_reloads := (sy_reloads s)(j \<mapsto> GotGeneration (rb_generation (sy_local s)))\<rparr>"
    using st by (auto split: option.splits reloadJob.splits)
  then show ?thesis using fr by (auto simp: fresh_def current_def)
next
  case (ReloadFetch j)
  have sn: "snapshot_of (vk_trie (sy_keys s)) = Inr (stored (sy_keys s))"
    using inv store_ok_snapshot by (simp add: sys_inv_def keys_inv_def)
  obtain g where "s' = s\<lparr>sy_reloads := (sy_reloads s)(j \<mapsto> Fetched g (stored (sy_keys s)))\<rparr>"
    using st ReloadFetch by (auto simp: sn split: option.splits reloadJob.splits)
  then show ?thesis using fr by (auto simp: fresh_def current_def keywords_of_def)
next
  case (ReloadInstall j)
  obtain g snap ac K eng where w: "sy_reloads s j = Some (Fetched g snap)" "prepareSnapshot env 0 snap (sy_local s) = Some (ac, K, eng)"
    "s' = (case reloadEnd g K eng (ts_Version snap) ac of
        Some ac' \<Rightarrow> s\<lparr>sy_local := ac', sy_reloads := (sy_reloads s)(j := None)\<rparr>
      | None \<Rightarrow> s\<lparr>sy_local := ac, sy_reloads := (sy_reloads s)(j \<mapsto> AtTop)\<rparr>)"
    using st ReloadInstall by (auto simp: bind_eq_Some_conv split: option.splits reloadJob.splits)
  have k: "known (sy_history s) snap (ts_Version snap)" using inv w(1) unfolding sys_inv_def by fastforce
  note P = prepareSnapshot_inv[OF env k w(2)]
  show ?thesis
  proof (cases "rb_generation (sy_local s) = g")
    case True
    then have s': "s' = s\<lparr>sy_local := ac\<lparr>rb_engine := eng, rb_keywordSet := K, rb_localVersion := ts_Version snap, rb_stale := False,
        rb_generation := Suc g\<rparr>, sy_reloads := (sy_reloads s)(j := None)\<rparr>"
      using w(3) P by (simp add: reloadEnd_def)
    have f: "rb_generation (sy_local s') = Suc g" "rb_keywordSet (sy_local s') = K" "sy_reloads s' = (sy_reloads s)(j := None)"
      "sy_writes s' = sy_writes s" by (simp_all add: s')
    have n: "sy_reloads s i \<noteq> Some (Fetched (Suc g) x)" "sy_writes s i \<noteq> Some (Applying x y (Suc g))" for i x y
      using old_jobs[OF inv] True by fastforce+
    have nc: "sy_writes s i \<noteq> Some (Committed x y)" for i x y using fr by (simp add: fresh_def)
    have "current s K" using fr w(1) P True unfolding fresh_def by blast
    then have "current s' K" by (simp add: s' current_def)
    then show ?thesis using n nc unfolding fresh_def by (simp add: f)
  next
    case False
    then have s': "s' = s\<lparr>sy_local := ac, sy_reloads := (sy_reloads s)(j \<mapsto> AtTop)\<rparr>" using w(3) P by (simp add: reloadEnd_def)
    show ?thesis using fr P unfolding fresh_def s' by (auto simp: current_def)
  qed
next
  case Poll
  then have s': "s' = s\<lparr>sy_local := pollVersion None (Inr (parseTrieVersion (rawVersion (sy_keys s)))) (sy_local s)\<rparr>" using st by simp
  show ?thesis
  proof (cases "sy_local s' = sy_local s")
    case True
    with s' have "s' = s" by (cases s) simp
    with fr show ?thesis by simp
  next
    case False
    then have "rb_stale (sy_local s') \<and> rb_generation (sy_local s') = Suc (rb_generation (sy_local s))"
      by (auto simp: s' pollVersion_def split: if_splits)
    then show ?thesis using fr by (intro fresh_bump[OF inv]) (auto simp: fresh_def s')
  qed
next
  case (ReloadStart j)
  then have "s' = s\<lparr>sy_reloads := (sy_reloads s)(j \<mapsto> AtTop)\<rparr>" using st by (auto split: if_splits)
  then show ?thesis using fr by (auto simp: fresh_def current_def)
next
  case (ReloadStop j)
  then have "s' = s\<lparr>sy_reloads := (sy_reloads s)(j := None)\<rparr>" using st by (auto split: if_splits)
  then show ?thesis using fr by (auto simp: fresh_def current_def)
next
  case Deliver
  then have "s' = s\<lparr>sy_pending := sy_pending s - 1, sy_local := markStale (sy_local s)\<rparr>" using st by (auto split: if_splits)
  then show ?thesis using fr by (intro fresh_bump[OF inv]) (auto simp: fresh_def)
next
  case Lose
  then have "s' = s\<lparr>sy_pending := sy_pending s - 1, sy_lost := True\<rparr>" using st by (auto split: if_splits)
  then show ?thesis using fr by (simp add: fresh_def current_def)
next
  case Spurious
  then have "s' = s\<lparr>sy_local := markStale (sy_local s)\<rparr>" using st by simp
  then show ?thesis using fr by (intro fresh_bump[OF inv]) (auto simp: fresh_def)
qed

lemma fresh_write:
  assumes inv: "sys_inv s" and fr: "fresh s"
    and c: "sysStep env (LocalCommit j wr v) s = Some s1" and b: "sysStep env (LocalBegin j) s1 = Some s2"
  shows "fresh s2"
proof -
  obtain s0 snap lv where r: "recordWrite wr v s = Some (s0, snap, lv)" "s1 = s0\<lparr>sy_writes := (sy_writes s)(j \<mapsto> Committed snap lv)\<rparr>"
    using c by (auto simp: bind_eq_Some_conv split: if_splits)
  note R = recordWrite_inv[OF inv r(1)]
  let ?g = "Suc (rb_generation (sy_local s))"
  have s2: "s2 = s0\<lparr>sy_local := (sy_local s)\<lparr>rb_generation := ?g, rb_stale := True\<rparr>, sy_writes := (sy_writes s)(j \<mapsto> Applying snap lv ?g)\<rparr>"
    using b R by (simp add: r(2) applyBegin_def Let_def)
  have f: "rb_stale (sy_local s2)" "rb_generation (sy_local s2) = ?g" "sy_reloads s2 = sy_reloads s"
    "sy_writes s2 = (sy_writes s)(j \<mapsto> Applying snap lv ?g)" using R by (simp_all add: s2)
  have n: "sy_reloads s i \<noteq> Some (Fetched ?g x)" "sy_writes s i \<noteq> Some (Applying x y ?g)" for i x y
    using old_jobs[OF inv] by fastforce+
  have nc: "sy_writes s i \<noteq> Some (Committed x y)" for i x y using fr by (simp add: fresh_def)
  have "current s2 (set (ts_Keywords snap))" using R by (simp add: current_def s2)
  then show ?thesis using n nc unfolding fresh_def by (simp add: f)
qed

lemma prompt_inv:
  assumes "prompt env s0 s" and "read_env_ok env" and "sys_inv s0" and "fresh s0"
  shows "sys_inv s \<and> fresh s"
  using assms(1)
proof induction
  case (event s e s')
  then show ?case using sysStep_inv[OF assms(2)] fresh_event[OF assms(2)] by blast
next
  case (wrote s j wr v s1 s2)
  then show ?case using sysStep_inv[OF assms(2)] fresh_write by blast
qed (use assms in blast)

lemma reachable_inv:
  assumes "reachable env s0 s" and "read_env_ok env" and "sys_inv s0"
  shows "sys_inv s"
  using assms by induction (auto intro: sysStep_inv)

lemma raw_version: "keys_inv s \<Longrightarrow> parseTrieVersion (rawVersion (sy_keys s)) = ts_Version (stored (sy_keys s))"
  using rawVersion_ok(1)[of "sy_keys s"] parseTrieVersion_itoa by (auto simp: keys_inv_def store_ok_def)

lemma local_engine:
  assumes "sys_inv s" and "rb_keywordSet (sy_local s) = keywords_of (sy_keys s)"
  shows "Engine_Find (rb_engine (sy_local s)) text = Some (spec_find (dict_of (ts_Keywords (stored (sy_keys s)))) text)"
  using assms engine_ops(1) by (auto simp: sys_inv_def local_inv_def holds_set_def keywords_of_def)

section \<open>Properties\<close>

text \<open>
  C33.  In every run in which nothing comes between the commit of a local write and
  the instance noting it, an instance that is valid and has heard of every peer's
  write is current: its keyword set is the stored one and its automaton answers
  for it.  Reloads, writes, messages and polls interleave in any other way.
\<close>

theorem preset_current:
  assumes "read_env_ok env" and "store_ok k" and "small k" and "vk_trie k \<noteq> None" and "openInstance env preset c k = Some s0"
    and "prompt env s0 s" and "\<not> rb_stale (sy_local s)" and "sy_pending s = 0" and "\<not> sy_lost s"
  shows "rb_keywordSet (sy_local s) = set (ts_Keywords (stored (sy_keys s))) \<and>
    Engine_Find (rb_engine (sy_local s)) text = Some (spec_find (dict_of (ts_Keywords (stored (sy_keys s)))) text)"
proof -
  have i: "sys_inv s" "fresh s" using prompt_inv[OF assms(6,1)] openInstance_ok[OF assms(1-5)] by blast+
  then have "rb_keywordSet (sy_local s) = keywords_of (sy_keys s)" using assms(7-9) by (simp add: fresh_def current_def)
  then show ?thesis using local_engine[OF i(1)] by (simp add: keywords_of_def)
qed

text \<open>
  C34.  Otherwise a peer's write can be missed although its message arrived.  The
  peer writes after a local write is committed, and its message is handled before
  the instance notes its own write; then the write clears the mark and installs
  its older snapshot.  Nothing is under way any more, the instance is valid, and
  it lacks the peer's write; the version poller, where it is enabled, finds out.
\<close>

theorem preset_write_discards_message:
  assumes "read_env_ok env" and "store_ok k" and "small k" and "vk_trie k \<noteq> None" and "openInstance env preset c k = Some s0"
    and "recordWrite wr v s0 = Some (s1, snap, lv)" and "recordWrite wr' v' s1 = Some (s2, snap', lv')"
  shows "\<exists>s s'. sysRun env [LocalCommit 0 wr v, PeerWrite wr' v', Deliver, LocalBegin 0, LocalEnd 0] s0 = Some s \<and>
    \<not> rb_stale (sy_local s) \<and> sy_pending s = 0 \<and> \<not> sy_lost s \<and> sy_writes s = Map.empty \<and> sy_reloads s = Map.empty \<and>
    rb_keywordSet (sy_local s) = set (ts_Keywords snap) \<and> set (ts_Keywords (stored (sy_keys s))) = set (ts_Keywords snap') \<and>
    sysStep env Poll s = Some s' \<and> rb_stale (sy_local s')"
proof -
  have i0: "sys_inv s0" using openInstance_ok[OF assms(1-5)] by blast
  have o: "sy_pending s0 = 0" "\<not> sy_lost s0" "sy_writes s0 = Map.empty" "sy_reloads s0 = Map.empty"
    using openInstance_opens[OF assms(1-3), of preset c] assms(5) by auto
  note R1 = recordWrite_inv[OF i0 assms(6)]
  then have i1: "sys_inv s1" by blast
  note R2 = recordWrite_inv[OF i1 assms(7)]
  have kn: "known (sy_history s1) snap lv" using R1 by blast
  obtain ac K e where p: "prepareSnapshot env 0 snap ((markStale (sy_local s0))\<lparr>rb_generation := rb_generation (markStale (sy_local s0)) + 1, rb_stale := True\<rparr>) = Some (ac, K, e)"
    using good_set_engine[OF assms(1), of "set (ts_Keywords snap)" "rb_preset (sy_local s0)"] kn
    by (auto simp: prepareSnapshot_def known_def markStale_def)
  note P = prepareSnapshot_inv[OF assms(1) kn p]
  have rec: "recordWrite wr' v' (s1\<lparr>sy_writes := x\<rparr>) = Some (s2\<lparr>sy_writes := x\<rparr>, snap', lv')" for x
    using assms(7) by (auto simp: recordWrite_def bind_eq_Some_conv write_ok_def split: redisWrite.splits if_splits)
  let ?ac = "ac\<lparr>rb_keywordSet := K, rb_engine := e, rb_localVersion := lv, rb_stale := False\<rparr>"
  let ?s = "s2\<lparr>sy_writes := Map.empty, sy_pending := 0, sy_local := ?ac\<rparr>"
  have run: "sysRun env [LocalCommit 0 wr v, PeerWrite wr' v', Deliver, LocalBegin 0, LocalEnd 0] s0 = Some ?s"
    using R1 R2 o p P by (simp add: assms(6) rec applyBegin_def applyEnd_def Let_def fun_upd_idem)
  have vs: "v' \<noteq> 0" "sy_history s1 v' = None" "lv \<noteq> 0 \<Longrightarrow> sy_history s1 lv \<noteq> None" and
    ver: "ts_Version (stored (sy_keys s2)) = v'"
  proof -
    obtain k' where c: "commitWrite wr' v' (sy_keys s1) = Some (k', snap', lv')" "write_ok wr' v' k' s1" "sy_keys s2 = k'"
      using assms(7) by (auto simp: recordWrite_def bind_eq_Some_conv split: if_splits)
    then have w: "v' \<noteq> 0" "int64_range v'" "sy_history s1 v' = None" "case wr' of AddMany kws \<Rightarrow> list_all utf8_ok kws | _ \<Rightarrow> True"
      by (simp_all add: write_ok_def)
    then show "v' \<noteq> 0" "sy_history s1 v' = None" by blast+
    show "lv \<noteq> 0 \<Longrightarrow> sy_history s1 lv \<noteq> None" using kn by (simp add: known_def)
    have "store_ok (sy_keys s1)" using i1 by (simp add: sys_inv_def keys_inv_def)
    from commitWrite_ok[OF c(1) this w(2,1,4)] c(3) show "ts_Version (stored (sy_keys s2)) = v'" by simp
  qed
  then have "v' \<noteq> lv" by auto
  moreover have "keys_inv s2" using R2 by (simp add: sys_inv_def)
  ultimately have "rb_stale (pollVersion None (Inr (parseTrieVersion (rawVersion (sy_keys s2)))) ?ac)"
    by (simp add: poll_fields raw_version ver)
  then show ?thesis using run R2 P R1 o by (intro exI[of _ ?s] exI) (auto simp: keywords_of_def)
qed

text \<open>
  C35.  The poller is a sound check.  In every run whatever, if the local version is
  the stored one the instance is current; so an instance that a poll leaves valid
  answers for the keywords that were stored when the poll read the version.
\<close>

theorem preset_poll_sound:
  assumes "read_env_ok env" and "store_ok k" and "small k" and "vk_trie k \<noteq> None" and "openInstance env preset c k = Some s0"
    and "reachable env s0 s" and "sysStep env Poll s = Some s'" and "\<not> rb_stale (sy_local s')"
  shows "s' = s \<and> rb_keywordSet (sy_local s) = set (ts_Keywords (stored (sy_keys s))) \<and>
    Engine_Find (rb_engine (sy_local s)) text = Some (spec_find (dict_of (ts_Keywords (stored (sy_keys s)))) text)"
proof -
  have i: "sys_inv s" using reachable_inv[OF assms(6,1)] openInstance_ok[OF assms(1-5)] by blast
  then have k: "keys_inv s" by (simp add: sys_inv_def)
  have s': "s' = s\<lparr>sy_local := pollVersion None (Inr (ts_Version (stored (sy_keys s)))) (sy_local s)\<rparr>"
    using assms(7) raw_version[OF k] by simp
  then have v: "ts_Version (stored (sy_keys s)) = rb_localVersion (sy_local s)" "s' = s"
    using assms(8) by (auto simp: poll_fields)
  have "ts_Version (stored (sy_keys s)) \<noteq> 0" using k by (simp add: keys_inv_def store_ok_def)
  then have "rb_keywordSet (sy_local s) = keywords_of (sy_keys s)"
    using i k v(1) unfolding sys_inv_def local_inv_def keys_inv_def by (metis option.inject)
  then show ?thesis using local_engine[OF i] v(2) by (simp add: keywords_of_def)
qed

section \<open>Examples\<close>

lemma recordWrite_add:
  assumes k: "keys_inv s" and p: "planAddMany (stored (sy_keys s)) kws = (s', outs, added)" "added \<noteq> []"
    and u: "\<forall>kw \<in> set kws. utf8_ok kw" and v: "v \<noteq> 0" "int64_range v" "sy_history s v = None"
    and b: "card (states (dict_of (ts_Keywords s'))) < 2 ^ 30"
  shows "\<exists>s1. recordWrite (AddMany kws) v s = Some (s1, s', v) \<and> stored (sy_keys s1) = s'\<lparr>ts_Version := v\<rparr> \<and>
    sy_history s1 = (sy_history s)(v \<mapsto> set (ts_Keywords s'))"
proof -
  have m: "many_plan planAddMany kws (stored (sy_keys s)) = (s', outs, True, added)" using p by (simp add: many_plan_def)
  have ok: "store_ok (sy_keys s)" using k by (simp add: keys_inv_def)
  let ?r = "v2WriteScript (marshalTrieArgs s' outs v False) (sy_keys s)"
  have "stored (fst ?r) = s'\<lparr>ts_Version := v\<rparr>"
    using v2WriteScript_commits[OF add_many_plan_ok[OF u] m ok v(2,1), of "fst ?r" "snd ?r"] by simp
  then show ?thesis using p u v b by (simp add: recordWrite_def commitWrite_def write_ok_def list_all_iff keywords_of_def)
qed

lemma example_open:
  obtains s0 where "openInstance example_env PresetNone 0 (example_keys snap_example) = Some s0" "sys_inv s0"
    "sy_keys s0 = example_keys snap_example" "sy_history s0 = [7 \<mapsto> {''he''}]" "sy_writes s0 = Map.empty" "sy_pending s0 = 0" "\<not> sy_lost s0"
proof -
  have st: "stored (example_keys snap_example) = snap_example" "store_ok (example_keys snap_example)" using example_keys_ok(1) by blast+
  obtain s0 where s0: "openInstance example_env PresetNone 0 (example_keys snap_example) = Some s0" "sy_keys s0 = example_keys snap_example"
    "sy_history s0 = [ts_Version (stored (example_keys snap_example)) \<mapsto> keywords_of (example_keys snap_example)]" "sy_writes s0 = Map.empty"
    "sy_pending s0 = 0" "\<not> sy_lost s0"
    using openInstance_opens[OF example_env_ok st(2) small_example] by blast
  have "vk_trie (example_keys snap_example) \<noteq> None" by (simp add: example_keys_def)
  from openInstance_ok[OF example_env_ok st(2) small_example this s0(1)] s0 that st show thesis
    by (simp add: keywords_of_def snap_example_def)
qed

lemma example_trie: "vk_trie (example_keys snap_example) \<noteq> None"
  by (simp add: example_keys_def)

definition snap_she :: trieSnapshot where
  "snap_she = \<lparr>ts_Keywords = [''he'', ''she''], ts_Prefixes = [[], ''h'', ''he'', ''s'', ''sh'', ''she''], ts_Version = 7\<rparr>"

definition snap_both :: trieSnapshot where
  "snap_both = \<lparr>ts_Keywords = [''he'', ''she'', ''hers''], ts_Prefixes = [[], ''h'', ''he'', ''s'', ''sh'', ''she'', ''her'', ''hers''], ts_Version = 9\<rparr>"

lemma example_write:
  assumes "openInstance example_env PresetNone 0 (example_keys snap_example) = Some s0" and "sys_inv s0"
    and "sy_keys s0 = example_keys snap_example" and "sy_history s0 = [7 \<mapsto> {''he''}]"
  obtains s1 s2 where "recordWrite (AddMany [''she'']) 9 s0 = Some (s1, snap_she, 9)" "stored (sy_keys s1) = snap_she\<lparr>ts_Version := 9\<rparr>"
    "recordWrite (AddMany [''hers'']) 10 s1 = Some (s2, snap_both, 10)"
proof -
  have k0: "keys_inv s0" using assms(2) by (simp add: sys_inv_def)
  have st: "stored (sy_keys s0) = snap_example" using example_keys_ok(1) assms(3) by simp
  have p1: "fst (planAddMany snap_example [''she'']) = snap_she" "snd (snd (planAddMany snap_example [''she''])) = [''she'']" by code_simp+
  have b: "card (states (dict_of (ts_Keywords snap_she))) < 2 ^ 30" "card (states (dict_of (ts_Keywords snap_both))) < 2 ^ 30"
    by (rule states_bound; simp add: snap_she_def snap_both_def runes_ascii byte_def RuneSelf_def)+
  obtain outs1 where p1: "planAddMany snap_example [''she''] = (snap_she, outs1, [''she''])" using p1 by (metis prod.collapse)
  have r: "int64_range 9" "int64_range 10" by (simp_all add: int64_range_def)
  obtain s1 where s1: "recordWrite (AddMany [''she'']) 9 s0 = Some (s1, snap_she, 9)" "stored (sy_keys s1) = snap_she\<lparr>ts_Version := 9\<rparr>"
    "sy_history s1 = [7 \<mapsto> {''he''}, 9 \<mapsto> set (ts_Keywords snap_she)]"
    using recordWrite_add[OF k0 p1[folded st] _ _ _ r(1) _ b(1)] ascii_utf8 by (auto simp: assms(4))
  have k1: "keys_inv s1" using recordWrite_inv[OF assms(2) s1(1)] by (simp add: sys_inv_def)
  have "fst (planAddMany (snap_she\<lparr>ts_Version := 9\<rparr>) [''hers'']) = snap_both" "snd (snd (planAddMany (snap_she\<lparr>ts_Version := 9\<rparr>) [''hers''])) = [''hers'']" by code_simp+
  then obtain outs2 where p2: "planAddMany (stored (sy_keys s1)) [''hers''] = (snap_both, outs2, [''hers''])" unfolding s1(2) by (metis prod.collapse)
  obtain s2 where "recordWrite (AddMany [''hers'']) 10 s1 = Some (s2, snap_both, 10)"
    using recordWrite_add[OF k1 p2 _ _ _ r(2) _ b(2)] ascii_utf8 by (auto simp: s1(3))
  with s1(1,2) that show thesis by blast
qed

theorem preset_current_witness:
  "\<exists>s0 s. openInstance example_env PresetNone 0 (example_keys snap_example) = Some s0 \<and>
     sysRun example_env [LocalCommit 0 (AddMany [''she'']) 9, LocalBegin 0, LocalEnd 0] s0 = Some s \<and>
     rb_keywordSet (sy_local s) = {''he'', ''she''} \<and> Engine_Find (rb_engine (sy_local s)) ''ushers'' = Some [''she'', ''he'']"
proof -
  obtain s0 where o: "openInstance example_env PresetNone 0 (example_keys snap_example) = Some s0" "sys_inv s0"
    "sy_keys s0 = example_keys snap_example" "sy_history s0 = [7 \<mapsto> {''he''}]" "sy_writes s0 = Map.empty" "sy_pending s0 = 0" "\<not> sy_lost s0"
    by (rule example_open)
  obtain s1 where r: "recordWrite (AddMany [''she'']) 9 s0 = Some (s1, snap_she, 9)" and st: "stored (sy_keys s1) = snap_she\<lparr>ts_Version := 9\<rparr>"
    using example_write[OF o(1-4)] by blast
  note R = recordWrite_inv[OF o(2) r]
  let ?c = "s1\<lparr>sy_writes := [0 \<mapsto> Committed snap_she 9]\<rparr>"
  have c: "sysStep example_env (LocalCommit 0 (AddMany [''she'']) 9) s0 = Some ?c" using o(5) by (simp add: r)
  let ?ac = "(sy_local s0)\<lparr>rb_generation := Suc (rb_generation (sy_local s0)), rb_stale := True\<rparr>"
  let ?b = "?c\<lparr>sy_local := ?ac, sy_writes := [0 \<mapsto> Applying snap_she 9 (Suc (rb_generation (sy_local s0)))]\<rparr>"
  have b: "sysStep example_env (LocalBegin 0) ?c = Some ?b" using R by (simp add: applyBegin_def Let_def)
  have kn: "known (sy_history s1) snap_she 9" using R by blast
  obtain ac K e where p: "prepareSnapshot example_env 0 snap_she ?ac = Some (ac, K, e)"
    using good_set_engine[OF example_env_ok, of "set (ts_Keywords snap_she)" "rb_preset (sy_local s0)"] kn
    by (auto simp: prepareSnapshot_def known_def)
  note P = prepareSnapshot_inv[OF example_env_ok kn p]
  let ?s = "?b\<lparr>sy_local := applyEnd (Suc (rb_generation (sy_local s0))) K e 9 ac, sy_writes := [0 \<mapsto> Applying snap_she 9 (Suc (rb_generation (sy_local s0)))](0 := None)\<rparr>"
  have e: "sysStep example_env (LocalEnd 0) ?b = Some ?s" by (simp add: p)
  have pr: "prompt example_env s0 ?s"
    by (rule prompt.event[OF prompt.wrote[OF prompt.start c b] _ e]) simp
  have l: "\<not> rb_stale (sy_local ?s)" "sy_pending ?s = 0" "\<not> sy_lost ?s" "rb_keywordSet (sy_local ?s) = K"
    using P R o by (simp_all add: applyEnd_def)
  have ok: "store_ok (example_keys snap_example)" using example_keys_ok(1) by blast
  note T = preset_current[OF example_env_ok ok small_example example_trie o(1) pr l(1-3), of "''ushers''"]
  have K: "K = {''he'', ''she''}" using P by (auto simp: snap_she_def)
  have sk: "ts_Keywords (stored (sy_keys ?s)) = [''he'', ''she'']" by (simp add: st) (simp add: snap_she_def)
  have "spec_find (dict_of [''he'', ''she'']) ''ushers'' = [''she'', ''he'']" by code_simp
  then have "Engine_Find (rb_engine (sy_local ?s)) ''ushers'' = Some [''she'', ''he'']" using T unfolding sk by simp
  moreover have "sysRun example_env [LocalCommit 0 (AddMany [''she'']) 9, LocalBegin 0, LocalEnd 0] s0 = Some ?s"
    using c b e by simp
  ultimately show ?thesis using o(1) l(4) K by blast
qed

theorem preset_write_discards_message_witness:
  "\<exists>s0 s. openInstance example_env PresetNone 0 (example_keys snap_example) = Some s0 \<and>
     sysRun example_env [LocalCommit 0 (AddMany [''she'']) 9, PeerWrite (AddMany [''hers'']) 10, Deliver, LocalBegin 0, LocalEnd 0] s0 = Some s \<and>
     \<not> rb_stale (sy_local s) \<and> sy_pending s = 0 \<and> ''hers'' \<notin> rb_keywordSet (sy_local s) \<and> ''hers'' \<in> set (ts_Keywords (stored (sy_keys s)))"
proof -
  obtain s0 where o: "openInstance example_env PresetNone 0 (example_keys snap_example) = Some s0" "sys_inv s0"
    "sy_keys s0 = example_keys snap_example" "sy_history s0 = [7 \<mapsto> {''he''}]" "sy_writes s0 = Map.empty" "sy_pending s0 = 0" "\<not> sy_lost s0"
    by (rule example_open)
  obtain s1 s2 where r: "recordWrite (AddMany [''she'']) 9 s0 = Some (s1, snap_she, 9)" "recordWrite (AddMany [''hers'']) 10 s1 = Some (s2, snap_both, 10)"
    using example_write[OF o(1-4)] by blast
  have ok: "store_ok (example_keys snap_example)" using example_keys_ok(1) by blast
  obtain s where s: "sysRun example_env [LocalCommit 0 (AddMany [''she'']) 9, PeerWrite (AddMany [''hers'']) 10, Deliver, LocalBegin 0, LocalEnd 0] s0 = Some s"
    "\<not> rb_stale (sy_local s)" "sy_pending s = 0" "rb_keywordSet (sy_local s) = set (ts_Keywords snap_she)"
    "set (ts_Keywords (stored (sy_keys s))) = set (ts_Keywords snap_both)"
    using preset_write_discards_message[OF example_env_ok ok small_example example_trie o(1) r] by blast
  have "''hers'' \<notin> set (ts_Keywords snap_she)" "''hers'' \<in> set (ts_Keywords snap_both)" by (simp_all add: snap_she_def snap_both_def)
  then show ?thesis using o(1) s by metis
qed

theorem preset_poll_sound_witness:
  "\<exists>s0. openInstance example_env PresetNone 0 (example_keys snap_example) = Some s0 \<and> sysStep example_env Poll s0 = Some s0 \<and>
     Engine_Find (rb_engine (sy_local s0)) ''the'' = Some [''he'']"
proof -
  have st: "stored (example_keys snap_example) = snap_example" "store_ok (example_keys snap_example)" using example_keys_ok(1) by blast+
  obtain s0 where o: "openInstance example_env PresetNone 0 (example_keys snap_example) = Some s0" "sy_keys s0 = example_keys snap_example"
    "\<not> rb_stale (sy_local s0)" "rb_localVersion (sy_local s0) = ts_Version snap_example"
    using openInstance_opens[OF example_env_ok st(2) small_example] unfolding st(1) by blast
  have "sys_inv s0" using openInstance_ok[OF example_env_ok st(2) small_example example_trie o(1)] by blast
  then have rv: "parseTrieVersion (rawVersion (sy_keys s0)) = rb_localVersion (sy_local s0)" using raw_version[of s0] st(1) o(2,4) by (simp add: sys_inv_def)
  obtain s' where s': "sysStep example_env Poll s0 = Some s'" "\<not> rb_stale (sy_local s')" using o(3) by (simp add: rv pollVersion_def)
  note T = preset_poll_sound[OF example_env_ok st(2) small_example example_trie o(1) reachable.start s', of "''the''"]
  have "ts_Keywords (stored (sy_keys s0)) = [''he'']" using st(1) o(2) by (simp add: snap_example_def)
  moreover have "spec_find (dict_of [''he'']) ''the'' = [''he'']" by code_simp
  ultimately show ?thesis using T o(1) s'(1) by auto
qed

end
