(* ===== verification/Preset_Ops.thy ===== *)
theory Preset_Ops
  imports Redis_Backed
begin

text \<open>
  The operations of preset mode, \<^verbatim>\<open>pkg/acor/redis_backed_ops.go\<close> and the batch writes of
  \<^verbatim>\<open>batch_atomic.go\<close>, as one goroutine runs them: over Redis (\<open>world\<close>) and the local
  instance.  A reload is a list of turns; each says what the context reported at
  its three checks and what the other goroutines did to the instance meanwhile.
\<close>

section \<open>Loading\<close>

definition rb_initTrie :: "gostring \<Rightarrow> world \<Rightarrow> world \<times> unit result" where
  "rb_initTrie name w =
     (case command (\<lambda>k. (k, vk_trie k \<noteq> None)) w of
        (w1, Inl err) \<Rightarrow> (w1, Inl (Wrapped ''check trie key'' err))
      | (w1, Inr True) \<Rightarrow> (w1, Inr ())
      | (w1, Inr False) \<Rightarrow>
          (let now = next_or 1 (w_clock w1); w2 = w1\<lparr>w_clock := tl (w_clock w1)\<rparr> in
           case command (\<lambda>k. (k\<lparr>vk_trie := Some (emptyTrieFields now)\<rparr>, ())) w2 of
             (w3, Inl err) \<Rightarrow> (w3, Inl (Wrapped ''initialize trie'' err))
           | (w3, Inr u) \<Rightarrow> (w3, Inr u)))"

record reloadTurn =
  rt_top :: "acorError option"
  rt_fetched :: "acorError option"
  rt_built :: "acorError option"
  rt_meanwhile :: "redisBackedAC \<Rightarrow> redisBackedAC"

text \<open>
  The turns come from the list; after its end the context stays alive and the turn
  is undisturbed.  \<open>None\<close> is a panic of the build.
\<close>

definition quietTurn :: reloadTurn where
  "quietTurn = \<lparr>rt_top = None, rt_fetched = None, rt_built = None, rt_meanwhile = id\<rparr>"

definition reloadTurnBody ::
  "read_env \<Rightarrow> gostring \<Rightarrow> reloadTurn \<Rightarrow> world \<Rightarrow> redisBackedAC \<Rightarrow> (world \<times> redisBackedAC \<times> unit result option) option" where
  "reloadTurnBody env name t w ac =
     (case rt_top t of
        Some err \<Rightarrow> Some (w, ac, Some (Inl err))
      | None \<Rightarrow>
          (let generation = rb_generation ac in
           case readTrieSnapshot name w of
             (w1, Inl err) \<Rightarrow> Some (w1, ac, Some (Inl err))
           | (w1, Inr snap) \<Rightarrow>
               (case rt_fetched t of
                  Some err \<Rightarrow> Some (w1, ac, Some (Inl err))
                | None \<Rightarrow> do {
                    (ac1, keywords, engine) \<leftarrow> prepareSnapshot env 0 snap (rt_meanwhile t ac);
                    case rt_built t of
                      Some err \<Rightarrow> Some (w1, ac1, Some (Inl err))
                    | None \<Rightarrow>
                        (case reloadEnd generation keywords engine (ts_Version snap) ac1 of
                           None \<Rightarrow> Some (w1, ac1, None)
                         | Some ac2 \<Rightarrow> Some (w1, ac2, Some (Inr ())))
                  })))"

fun reloadFromRedis ::
  "read_env \<Rightarrow> gostring \<Rightarrow> reloadTurn list \<Rightarrow> world \<Rightarrow> redisBackedAC \<Rightarrow> (world \<times> redisBackedAC \<times> unit result) option" where
  "reloadFromRedis env name [] w ac = do {
     (w1, ac1, r) \<leftarrow> reloadTurnBody env name quietTurn w ac;
     case r of Some res \<Rightarrow> Some (w1, ac1, res) | None \<Rightarrow> None
   }"
| "reloadFromRedis env name (t # ts) w ac = do {
     (w1, ac1, r) \<leftarrow> reloadTurnBody env name t w ac;
     case r of Some res \<Rightarrow> Some (w1, ac1, res) | None \<Rightarrow> reloadFromRedis env name ts w1 ac1
   }"

text \<open>\<^verbatim>\<open>ensureValid\<close> of a reader whose context stays alive and that is alone: it performs the shared reload itself.\<close>

definition rb_loadEngine ::
  "read_env \<Rightarrow> gostring \<Rightarrow> reloadTurn list \<Rightarrow> acorError option \<Rightarrow> world \<Rightarrow> redisBackedAC \<Rightarrow> (world \<times> redisBackedAC \<times> Engine result) option" where
  "rb_loadEngine env name turns ctxErr w ac =
     (case ensureValidEnter ctxErr ac of
        (ac1, Inl err) \<Rightarrow> Some (w, ac1, Inl err)
      | (ac1, Inr None) \<Rightarrow> Some (w, ac1, Inr (rb_engine ac1))
      | (ac1, Inr (Some work)) \<Rightarrow> do {
          (w1, ac2, r) \<leftarrow> reloadFromRedis env name turns w ac1;
          let ac3 = runReloadEnd work (case r of Inl err \<Rightarrow> Some err | Inr u \<Rightarrow> None) None ac2;
          Some (case ensureValidLeave work None None ac3 of
            (ac4, Some err) \<Rightarrow> (w1, ac4, Inl err)
          | (ac4, None) \<Rightarrow> (w1, ac4, Inr (rb_engine ac4)))
        })"

section \<open>Reading\<close>

text \<open>\<open>ctxEnter\<close> and \<open>ctxErr\<close> are what the context reports when \<^verbatim>\<open>ensureValid\<close> starts and before the scan.\<close>

definition rb_find ::
  "unicode \<Rightarrow> read_env \<Rightarrow> gostring \<Rightarrow> bool \<Rightarrow> reloadTurn list \<Rightarrow> acorError option \<Rightarrow> acorError option \<Rightarrow> gostring \<Rightarrow> world \<Rightarrow> redisBackedAC \<Rightarrow>
   (world \<times> redisBackedAC \<times> gostring list result) option" where
  "rb_find u env name caseSensitive turns ctxEnter ctxErr text0 w ac =
     (if text0 = [] then Some (w, ac, Inr [])
      else do {
        (w1, ac1, r) \<leftarrow> rb_loadEngine env name turns ctxEnter w ac;
        case r of
          Inl err \<Rightarrow> Some (w1, ac1, Inl err)
        | Inr e \<Rightarrow>
            (case ctxErr of
               Some err \<Rightarrow> Some (w1, ac1, Inl err)
             | None \<Rightarrow> do { found \<leftarrow> Engine_Find e (normalizeText u text0 caseSensitive); Some (w1, ac1, Inr found) })
      })"

definition rb_findIndex ::
  "unicode \<Rightarrow> read_env \<Rightarrow> gostring \<Rightarrow> bool \<Rightarrow> reloadTurn list \<Rightarrow> acorError option \<Rightarrow> acorError option \<Rightarrow> gostring \<Rightarrow> world \<Rightarrow> redisBackedAC \<Rightarrow>
   (world \<times> redisBackedAC \<times> (gostring \<rightharpoonup> int list) result) option" where
  "rb_findIndex u env name caseSensitive turns ctxEnter ctxErr text0 w ac =
     (if text0 = [] then Some (w, ac, Inr Map.empty)
      else do {
        (w1, ac1, r) \<leftarrow> rb_loadEngine env name turns ctxEnter w ac;
        case r of
          Inl err \<Rightarrow> Some (w1, ac1, Inl err)
        | Inr e \<Rightarrow>
            (case ctxErr of
               Some err \<Rightarrow> Some (w1, ac1, Inl err)
             | None \<Rightarrow> do { found \<leftarrow> Engine_FindIndex e (normalizeText u text0 caseSensitive); Some (w1, ac1, Inr found) })
      })"

text \<open>\<^verbatim>\<open>presetFromEngine\<close> and \<^verbatim>\<open>info\<close>.\<close>

fun presetFromEngine :: "Preset \<Rightarrow> Preset" where
  "presetFromEngine PresetSpeed = PresetSpeed"
| "presetFromEngine PresetMemoryEfficient = PresetMemoryEfficient"
| "presetFromEngine PresetNone = PresetBalanced"
| "presetFromEngine PresetBalanced = PresetBalanced"
| "presetFromEngine PresetDefault = PresetBalanced"

definition rb_info :: "redisBackedAC \<Rightarrow> AhoCorasickInfo" where
  "rb_info ac =
     (let mi = Engine_Info (rb_engine ac) in
      \<lparr>ai_Keywords = info_Keywords mi, ai_Nodes = info_Nodes mi, ai_Preset = presetFromEngine (info_Preset mi),
       ai_MemoryBytes = int (info_MemoryBytes mi), ai_TrieDepth = int (info_TrieDepth mi)\<rparr>)"

definition rb_suggest :: "gostring list result" where "rb_suggest = Inl ErrSuggestRequiresRedis"
definition rb_suggestIndex :: "(gostring \<rightharpoonup> int list) result" where "rb_suggestIndex = Inl ErrSuggestRequiresRedis"

section \<open>Writing\<close>

definition applyCommittedWrite :: "read_env \<Rightarrow> trieSnapshot \<Rightarrow> int \<Rightarrow> redisBackedAC \<Rightarrow> redisBackedAC option" where
  "applyCommittedWrite env snap newVersion ac =
     (case applyBegin ac of (ac1, generation) \<Rightarrow> do {
        (ac2, keywords, engine) \<leftarrow> prepareSnapshot env 0 snap ac1;
        Some (applyEnd generation keywords engine newVersion ac2)
      })"

definition publishRetryAttempts :: nat where "publishRetryAttempts = 3"

text \<open>The attempts left; \<^verbatim>\<open>False\<close> when the message did not get through or nobody knows.\<close>

fun publishAttempts :: "nat \<Rightarrow> gostring \<Rightarrow> world \<Rightarrow> world \<times> bool" where
  "publishAttempts 0 payload w = (w, False)"
| "publishAttempts (Suc n) payload w =
     (let w1 = w\<lparr>w_io := tl (w_io w)\<rparr>; sent = w1\<lparr>w_sent := w_sent w @ [payload]\<rparr>;
          again = (\<lambda>w2. if n = 0 then (w2, False)
            else (let w3 = w2\<lparr>w_waits := tl (w_waits w2)\<rparr> in
              case next_or None (w_waits w2) of Some err \<Rightarrow> (w3, False) | None \<Rightarrow> publishAttempts n payload w3))
      in case next_or CmdOk (w_io w) of CmdOk \<Rightarrow> (sent, True) | CmdFailed err \<Rightarrow> again w1 | CmdLost err \<Rightarrow> again sent)"

definition rb_publishInvalidate :: "gostring \<Rightarrow> world \<Rightarrow> redisBackedAC \<Rightarrow> world \<times> redisBackedAC" where
  "rb_publishInvalidate name w ac =
     (let msgID = next_or [] (w_ids w);
          now = next_or 0 (w_clock w); now' = next_or 0 (tl (w_clock w));
          w1 = w\<lparr>w_ids := tl (w_ids w), w_clock := tl (tl (w_clock w))\<rparr>;
          ac1 = ac\<lparr>rb_selfSkip := skip_add msgID now now' (rb_selfSkip ac)\<rparr>
      in case publishAttempts publishRetryAttempts (invalidationPayload name msgID) w1 of
           (w2, True) \<Rightarrow> (w2, ac1)
         | (w2, False) \<Rightarrow> (w2, ac1\<lparr>rb_selfSkip := skip_forget msgID (rb_selfSkip ac1)\<rparr>))"

text \<open>
  An attempt returns the keywords that changed and, after a commit, the snapshot and
  version that are then installed.  A single write is the attempt for one keyword,
  of which it reports the count.
\<close>

type_synonym attempt_result = "(gostring list \<times> (trieSnapshot \<times> int) option) result"

definition rb_tryMany ::
  "gostring \<Rightarrow> bool \<Rightarrow> (trieSnapshot \<Rightarrow> gostring list \<Rightarrow> trieSnapshot \<times> state_outputs \<times> gostring list) \<Rightarrow> gostring list \<Rightarrow>
   world \<Rightarrow> world \<times> attempt_result" where
  "rb_tryMany name clearOutputs plan keywords w =
     (case readTrieSnapshot name w of
        (w1, Inl err) \<Rightarrow> (w1, Inl err)
      | (w1, Inr snap) \<Rightarrow>
          (case plan snap keywords of (snap', outputs, changed) \<Rightarrow>
             if changed = [] then (w1, Inr ([], None))
             else (case commitV2Write name snap' outputs clearOutputs w1 of
                 (w2, Inl err) \<Rightarrow> (w2, Inl err)
               | (w2, Inr v) \<Rightarrow> (w2, Inr (changed, Some (snap', v))))))"

definition rb_tryAdd :: "gostring \<Rightarrow> gostring \<Rightarrow> world \<Rightarrow> world \<times> attempt_result" where
  "rb_tryAdd name keyword = rb_tryMany name False planAddMany [keyword]"

definition rb_tryRemove :: "gostring \<Rightarrow> gostring \<Rightarrow> world \<Rightarrow> world \<times> attempt_result" where
  "rb_tryRemove name keyword = rb_tryMany name True planRemoveMany [keyword]"

definition rb_write :: "read_env \<Rightarrow> gostring \<Rightarrow> (world \<Rightarrow> world \<times> attempt_result) \<Rightarrow> world \<Rightarrow> redisBackedAC \<Rightarrow>
    (world \<times> redisBackedAC \<times> gostring list result) option" where
  "rb_write env name try w ac =
     (case retryOnConflict try w of
        (w1, Inl err) \<Rightarrow> Some (w1, ac, Inl err)
      | (w1, Inr (changed, None)) \<Rightarrow> Some (w1, ac, Inr changed)
      | (w1, Inr (changed, Some (snap, v))) \<Rightarrow> do {
          ac1 \<leftarrow> applyCommittedWrite env snap v ac;
          Some (case rb_publishInvalidate name w1 ac1 of (w2, ac2) \<Rightarrow> (w2, ac2, Inr changed))
        })"

definition counted :: "(world \<times> redisBackedAC \<times> gostring list result) option \<Rightarrow> (world \<times> redisBackedAC \<times> nat result) option" where
  "counted = map_option (\<lambda>(w, ac, r). (w, ac, map_sum id (\<lambda>changed. if changed = [] then 0 else 1) r))"

definition rb_add :: "unicode \<Rightarrow> read_env \<Rightarrow> gostring \<Rightarrow> bool \<Rightarrow> gostring \<Rightarrow> world \<Rightarrow> redisBackedAC \<Rightarrow> (world \<times> redisBackedAC \<times> nat result) option" where
  "rb_add u env name caseSensitive keyword0 w ac =
     (let keyword = normalizeKeyword u keyword0 caseSensitive in
      if keyword = [] then Some (w, ac, Inr 0) else counted (rb_write env name (rb_tryAdd name keyword) w ac))"

definition rb_remove :: "unicode \<Rightarrow> read_env \<Rightarrow> gostring \<Rightarrow> bool \<Rightarrow> gostring \<Rightarrow> world \<Rightarrow> redisBackedAC \<Rightarrow> (world \<times> redisBackedAC \<times> nat result) option" where
  "rb_remove u env name caseSensitive keyword0 w ac =
     (let keyword = normalizeKeyword u keyword0 caseSensitive in
      if keyword = [] then Some (w, ac, Inr 0) else counted (rb_write env name (rb_tryRemove name keyword) w ac))"

definition rb_addManyAtomic :: "read_env \<Rightarrow> gostring \<Rightarrow> gostring list \<Rightarrow> world \<Rightarrow> redisBackedAC \<Rightarrow> (world \<times> redisBackedAC \<times> gostring list result) option" where
  "rb_addManyAtomic env name keywords = rb_write env name (rb_tryMany name False planAddMany keywords)"

definition rb_removeManyAtomic :: "read_env \<Rightarrow> gostring \<Rightarrow> gostring list \<Rightarrow> world \<Rightarrow> redisBackedAC \<Rightarrow> (world \<times> redisBackedAC \<times> gostring list result) option" where
  "rb_removeManyAtomic env name keywords = rb_write env name (rb_tryMany name True planRemoveMany keywords)"

definition rb_flush :: "read_env \<Rightarrow> gostring \<Rightarrow> world \<Rightarrow> redisBackedAC \<Rightarrow> (world \<times> redisBackedAC \<times> unit result) option" where
  "rb_flush env name w ac =
     (case flushV2Keys name w of
        (w1, Inl err) \<Rightarrow> Some (w1, ac, Inl err)
      | (w1, Inr u) \<Rightarrow> do {
          ac1 \<leftarrow> applyCommittedWrite env \<lparr>ts_Keywords = [], ts_Prefixes = [], ts_Version = 0\<rparr> 0 ac;
          Some (case rb_publishInvalidate name w1 ac1 of (w2, ac2) \<Rightarrow> (w2, ac2, Inr ()))
        })"

section \<open>Properties\<close>

definition clear_turn :: "reloadTurn \<Rightarrow> bool" where
  "clear_turn t \<longleftrightarrow> rt_top t = None \<and> rt_fetched t = None \<and> rt_built t = None"

text \<open>
  The instance between the turns: what the other goroutines made of it, and the rebuild
  counted.  A turn is disturbed when its generation moved meanwhile.
\<close>

definition rebuilt :: "redisBackedAC \<Rightarrow> redisBackedAC" where
  "rebuilt ac = ac\<lparr>rb_stats := recordRebuild 0 (rb_stats ac)\<rparr>"

definition turnStart :: "reloadTurn list \<Rightarrow> nat \<Rightarrow> redisBackedAC \<Rightarrow> redisBackedAC" where
  "turnStart ts i ac = fold (\<lambda>t ac. rebuilt (rt_meanwhile t ac)) (take i ts) ac"

definition disturbed :: "reloadTurn \<Rightarrow> redisBackedAC \<Rightarrow> bool" where
  "disturbed t ac \<longleftrightarrow> rb_generation (rt_meanwhile t ac) \<noteq> rb_generation ac"

lemma turnStart_simps [simp]:
  "turnStart ts 0 ac = ac" "turnStart (t # ts) (Suc i) ac = turnStart ts i (rebuilt (rt_meanwhile t ac))"
  by (simp_all add: turnStart_def)

lemma prepare_good:
  assumes "read_env_ok env" and "good_set (set (ts_Keywords snap))"
  shows "\<exists>e. prepareSnapshot env d snap ac = Some (ac\<lparr>rb_stats := recordRebuild d (rb_stats ac)\<rparr>, set (ts_Keywords snap), e) \<and>
    holds_set e (set (ts_Keywords snap))"
  using good_set_engine[OF assms, of "rb_preset ac"] by (auto simp: prepareSnapshot_def)

definition loaded :: "v2keys \<Rightarrow> redisBackedAC \<Rightarrow> bool" where
  "loaded k ac \<longleftrightarrow> \<not> rb_stale ac \<and> rb_keywordSet ac = keywords_of k \<and> rb_localVersion ac = ts_Version (stored k) \<and>
     holds_set (rb_engine ac) (keywords_of k)"

lemma read_ok:
  assumes w: "world_ok w" and io: "next_or CmdOk (w_io w) = CmdOk"
  obtains w1 where "readTrieSnapshot name w = (w1, Inr (stored (elapsed 1 w)))" "world_ok w1" "w_keys w1 = elapsed 1 w"
    "w_env w1 = drop 1 (w_env w)" "w_io w1 = tl (w_io w)"
proof -
  let ?w1 = "(others w)\<lparr>w_io := tl (w_io w)\<rparr>"
  have "command (\<lambda>k. (k, vk_trie k)) w = (?w1, Inr (vk_trie (elapsed 1 w)))"
    using next_env_io[OF io, of vk_trie] by (simp add: others_elapsed)
  then have r: "readTrieSnapshot name w = (?w1, Inr (stored (elapsed 1 w)))"
    using store_ok_snapshot[OF elapsed_ok[OF w]] by (simp add: readTrieSnapshot_def)
  show thesis
    using that[OF r] readTrieSnapshot_outcome[OF w r, unfolded elapsed_1] by simp
qed

lemma reloadTurnBody_clear:
  assumes env: "read_env_ok env" and w: "world_ok w" and io: "next_or CmdOk (w_io w) = CmdOk" and small: "small (elapsed 1 w)"
    and t: "clear_turn t"
  obtains w1 ac1 r where "reloadTurnBody env name t w ac = Some (w1, ac1, r)" "world_ok w1" "w_keys w1 = elapsed 1 w"
    "w_env w1 = drop 1 (w_env w)" "w_io w1 = tl (w_io w)"
    "if rb_generation (rt_meanwhile t ac) = rb_generation ac then r = Some (Inr ()) \<and> loaded (elapsed 1 w) ac1 else r = None \<and> ac1 = rebuilt (rt_meanwhile t ac)"
proof -
  obtain w1 where r: "readTrieSnapshot name w = (w1, Inr (stored (elapsed 1 w)))" "world_ok w1" "w_keys w1 = elapsed 1 w"
    "w_env w1 = drop 1 (w_env w)" "w_io w1 = tl (w_io w)" by (rule read_ok[OF w io])
  have "good_set (set (ts_Keywords (stored (elapsed 1 w))))"
    using good_set_stored[OF elapsed_ok[OF w] small] by (simp add: keywords_of_def)
  from prepare_good[OF env this, of 0 "rt_meanwhile t ac"] obtain e where
    e: "prepareSnapshot env 0 (stored (elapsed 1 w)) (rt_meanwhile t ac) = Some ((rt_meanwhile t ac)\<lparr>rb_stats := recordRebuild 0 (rb_stats (rt_meanwhile t ac))\<rparr>,
      set (ts_Keywords (stored (elapsed 1 w))), e)" "holds_set e (set (ts_Keywords (stored (elapsed 1 w))))" by blast
  show thesis
  proof (cases "rb_generation (rt_meanwhile t ac) = rb_generation ac")
    case True
    then show thesis using t r e that by (auto simp: reloadTurnBody_def clear_turn_def reloadEnd_def loaded_def keywords_of_def Let_def)
  next
    case False
    then show thesis using t r e that by (auto simp: reloadTurnBody_def clear_turn_def reloadEnd_def rebuilt_def Let_def)
  qed
qed

text \<open>
  C36.  A reload ends, with the state of one moment, that of its first undisturbed turn.
  While the context lives and the reads succeed, every turn before turn \<open>n\<close> was disturbed
  and is followed by another one, turn \<open>n\<close> is not, and it is the last: exactly \<open>n + 1\<close> reads
  were made, and the instance is valid and holds the keywords, the version and an
  automaton of what Redis held at the last of them.
\<close>

theorem reload_returns:
  assumes "read_env_ok env" and "world_ok w" and "\<forall>c \<in> set (w_io w). c = CmdOk" and "\<forall>n. small (elapsed n w)" and "list_all clear_turn ts"
  shows "\<exists>n w' ac'. n \<le> length ts \<and> (\<forall>i < n. disturbed (ts ! i) (turnStart ts i ac)) \<and>
    (n < length ts \<longrightarrow> \<not> disturbed (ts ! n) (turnStart ts n ac)) \<and>
    reloadFromRedis env name ts w ac = Some (w', ac', Inr ()) \<and>
    w_keys w' = elapsed (Suc n) w \<and> w_env w' = drop (Suc n) (w_env w) \<and> w_io w' = drop (Suc n) (w_io w) \<and> loaded (elapsed (Suc n) w) ac'"
  using assms(2-5)
proof (induction ts arbitrary: w ac)
  case Nil
  have io: "next_or CmdOk (w_io w) = CmdOk" using Nil(2) by (cases "w_io w") (auto simp: next_or_def)
  have "clear_turn quietTurn" by (simp add: clear_turn_def quietTurn_def)
  from reloadTurnBody_clear[OF assms(1) Nil(1) io _ this, of name ac] Nil(3) obtain w1 ac1 r where
    "reloadTurnBody env name quietTurn w ac = Some (w1, ac1, r)" "w_keys w1 = elapsed 1 w" "w_env w1 = drop 1 (w_env w)" "w_io w1 = tl (w_io w)"
    "if rb_generation (rt_meanwhile quietTurn ac) = rb_generation ac then r = Some (Inr ()) \<and> loaded (elapsed 1 w) ac1
      else r = None \<and> ac1 = rebuilt (rt_meanwhile quietTurn ac)" by metis
  then show ?case by (simp add: quietTurn_def drop_Suc)
next
  case (Cons t ts)
  have io: "next_or CmdOk (w_io w) = CmdOk" using Cons.prems(2) by (cases "w_io w") (auto simp: next_or_def)
  have t: "clear_turn t" "list_all clear_turn ts" using Cons.prems(4) by simp_all
  from reloadTurnBody_clear[OF assms(1) Cons.prems(1) io _ t(1), of name ac] Cons.prems(3) obtain w1 ac1 r where
    b: "reloadTurnBody env name t w ac = Some (w1, ac1, r)" "world_ok w1" "w_keys w1 = elapsed 1 w" "w_env w1 = drop 1 (w_env w)" "w_io w1 = tl (w_io w)"
    "if rb_generation (rt_meanwhile t ac) = rb_generation ac then r = Some (Inr ()) \<and> loaded (elapsed 1 w) ac1
      else r = None \<and> ac1 = rebuilt (rt_meanwhile t ac)" by metis
  show ?case
  proof (cases "disturbed t ac")
    case False
    with b show ?thesis by (intro exI[of _ 0]) (simp add: disturbed_def drop_Suc)
  next
    case True
    have io1: "\<forall>c \<in> set (w_io w1). c = CmdOk" using Cons.prems(2) by (cases "w_io w") (auto simp: b(5))
    have ac1: "ac1 = rebuilt (rt_meanwhile t ac)" "r = None" using b(6) True by (simp_all add: disturbed_def)
    note el = elapsed_add[OF b(4,3)]
    have "\<forall>n. small (elapsed n w1)" using Cons.prems(3) by (simp only: el) blast
    from Cons.IH[OF b(2) io1 this t(2), of ac1] obtain n w' ac' where
      n: "n \<le> length ts" "\<forall>i < n. disturbed (ts ! i) (turnStart ts i ac1)" "n < length ts \<longrightarrow> \<not> disturbed (ts ! n) (turnStart ts n ac1)"
        "reloadFromRedis env name ts w1 ac1 = Some (w', ac', Inr ())" "w_keys w' = elapsed (Suc n) w1"
        "w_env w' = drop (Suc n) (w_env w1)" "w_io w' = drop (Suc n) (w_io w1)" "loaded (elapsed (Suc n) w1) ac'" by blast
    have "\<forall>i < Suc n. disturbed ((t # ts) ! i) (turnStart (t # ts) i ac)"
      using n(2) True ac1(1) by (auto simp: less_Suc_eq_0_disj)
    moreover have "reloadFromRedis env name (t # ts) w ac = Some (w', ac', Inr ())" using b(1) ac1(2) n(4) by simp
    ultimately show ?thesis
      using n ac1(1) b(4,5) el by (intro exI[of _ "Suc n"] exI[of _ w'] exI[of _ ac']) (simp add: drop_Suc)
  qed
qed

lemma publish_ac:
  "\<exists>w2 skip. rb_publishInvalidate name w ac = (w2, ac\<lparr>rb_selfSkip := skip\<rparr>)"
  by (auto simp: rb_publishInvalidate_def Let_def split: prod.splits bool.splits)

lemma publishAttempts_keys: "publishAttempts n p w = (w', b) \<Longrightarrow> w_keys w' = w_keys w"
proof (induction n arbitrary: w w' b)
  case (Suc n)
  then show ?case by (auto simp: Let_def split: cmd_io.splits if_splits option.splits)
qed simp

text \<open>
  In preset mode an instance reads its own write from its local automaton.  When
  nothing interferes, an add of a new keyword returns 1, and the next search
  answers for the stored keywords and the new one without a command to Redis.
\<close>

theorem preset_read_own_write:
  assumes "read_env_ok env" and "world_ok w" and "calm w" and "kw = normalizeKeyword u keyword cs" and "utf8_ok kw" and "kw \<noteq> []"
    and "kw \<notin> set (ts_Keywords (stored (w_keys w)))"
    and "card (states (dict_of (ts_Keywords (stored (w_keys w)) @ [kw]))) < 2 ^ 30" and "text0 \<noteq> []"
  shows "\<exists>w1 ac1 ac2. rb_add u env name cs keyword w ac = Some (w1, ac1, Inr 1) \<and>
    ts_Keywords (stored (w_keys w1)) = ts_Keywords (stored (w_keys w)) @ [kw] \<and>
    rb_find u env name cs turns None None text0 w1 ac1 =
      Some (w1, ac2, Inr (spec_find (dict_of (ts_Keywords (stored (w_keys w)) @ [kw])) (normalizeText u text0 cs)))"
proof -
  let ?old = "ts_Keywords (stored (w_keys w))"
  have ok: "store_ok (w_keys w)" using assms(2) by (simp add: world_ok_def)
  obtain s' outs added where p: "planAddMany (stored (w_keys w)) [kw] = (s', outs, added)" by (cases "planAddMany (stored (w_keys w)) [kw]") auto
  have sn: "snap_ok (stored (w_keys w))" using ok by (simp add: store_ok_def)
  have u: "\<forall>k \<in> set [kw]. utf8_ok k" using assms(5) by simp
  note P = planAddMany_correct[OF sn u p]
  have added: "added = [kw]"
  proof -
    have s: "set added = {kw}" "distinct added" using P assms(6,7) by auto
    then show ?thesis by (cases added) (auto dest: subset_singletonD)
  qed
  then have ks: "ts_Keywords s' = ?old @ [kw]" using P by simp
  let ?w1 = "w\<lparr>w_env := tl (w_env w), w_io := tl (w_io w)\<rparr>"
  have w1: "calm ?w1" "world_ok ?w1" using calm_tl[OF assms(3)] assms(2) by (simp_all add: world_ok_def list_all_tl)
  have m: "many_plan planAddMany [kw] (stored (w_keys ?w1)) = (s', outs, True, added)" using p added by (simp add: many_plan_def)
  obtain w2 v where c: "commitV2Write name s' outs False ?w1 = (w2, Inr v)" "stored (w_keys w2) = s'\<lparr>ts_Version := v\<rparr>" "world_ok w2"
    using commitV2Write_calm[OF w1 add_many_plan_ok[OF u] m, of name] by blast
  have tried: "rb_tryAdd name kw w = (w2, Inr (added, Some (s', v)))"
    using p c(1) added by (simp add: rb_tryAdd_def rb_tryMany_def readTrieSnapshot_calm[OF assms(3) ok])
  have k2: "store_ok (w_keys w2)" "keywords_of (w_keys w2) = set (?old @ [kw])" "small (w_keys w2)"
    using c(2,3) assms(8) by (simp_all add: world_ok_def keywords_of_def small_def ks)
  have g: "good_set (set (ts_Keywords s'))" using good_set_stored[OF k2(1,3)] k2(2) by (simp add: ks)
  obtain e where e: "prepareSnapshot env 0 s' (fst (applyBegin ac)) =
      Some ((fst (applyBegin ac))\<lparr>rb_stats := recordRebuild 0 (rb_stats (fst (applyBegin ac)))\<rparr>, set (ts_Keywords s'), e)"
    "holds_set e (set (ts_Keywords s'))"
    using prepare_good[OF assms(1) g, of 0 "fst (applyBegin ac)"] by blast
  obtain ac1 where a: "applyCommittedWrite env s' v ac = Some ac1" "\<not> rb_stale ac1" "rb_engine ac1 = e"
    using e(1) by (auto simp: applyCommittedWrite_def applyBegin_def applyEnd_def Let_def)
  obtain w3 skip where pub: "rb_publishInvalidate name w2 ac1 = (w3, ac1\<lparr>rb_selfSkip := skip\<rparr>)" using publish_ac by blast
  have pk: "w_keys w3 = w_keys w2" using publishAttempts_keys pub by (auto simp: rb_publishInvalidate_def Let_def split: prod.splits bool.splits)
  have add: "rb_add u env name cs keyword w ac = Some (w3, ac1\<lparr>rb_selfSkip := skip\<rparr>, Inr 1)"
    using assms(4,6) retry_Inr[of "rb_tryAdd name kw", OF tried] a(1) pub added by (simp add: rb_add_def rb_write_def counted_def)
  have "engine_holds e (dict_of (?old @ [kw]))" using e(2) ks by (simp add: holds_set_def)
  then have "rb_find u env name cs turns None None text0 w3 (ac1\<lparr>rb_selfSkip := skip\<rparr>) =
      Some (w3, ac1\<lparr>rb_selfSkip := skip, rb_stats := stats_hit (rb_stats ac1)\<rparr>, Inr (spec_find (dict_of (?old @ [kw])) (normalizeText u text0 cs)))"
    using assms(9) a(2,3) engine_ops(1) by (simp add: rb_find_def rb_loadEngine_def ensureValidEnter_def)
  with add pk c(2) ks show ?thesis by auto
qed

section \<open>Witnesses\<close>

definition example_turn :: reloadTurn where
  "example_turn = quietTurn\<lparr>rt_meanwhile := (\<lambda>ac. markStale ac)\<rparr>"

theorem reload_returns_witness:
  "\<forall>ac. \<exists>w' ac'. reloadFromRedis example_env ''words'' [example_turn, quietTurn] (example_world [id, id, id] []) ac = Some (w', ac', Inr ()) \<and>
     w_env w' = [id] \<and> rb_keywordSet ac' = {''he''} \<and> \<not> rb_stale ac'"
proof
  fix ac
  let ?w = "example_world [id, id, id] []" and ?ts = "[example_turn, quietTurn]"
  have "world_ok ?w" by (intro example_world_ok) (simp_all add: others_ok_def)
  moreover have el: "elapsed n ?w = example_keys snap_example" for n
    by (cases n) (auto simp: elapsed_def example_world_def take_Cons' split: nat.splits)
  then have "\<forall>n. small (elapsed n ?w)" using small_example by simp
  moreover have "\<forall>c \<in> set (w_io ?w). c = CmdOk" by (simp add: example_world_def)
  moreover have "list_all clear_turn ?ts" by (simp add: clear_turn_def example_turn_def quietTurn_def)
  ultimately obtain n w' ac' where
    n: "n \<le> length ?ts" "\<forall>i < n. disturbed (?ts ! i) (turnStart ?ts i ac)" "n < length ?ts \<longrightarrow> \<not> disturbed (?ts ! n) (turnStart ?ts n ac)"
      "reloadFromRedis example_env ''words'' ?ts ?w ac = Some (w', ac', Inr ())" "w_env w' = drop (Suc n) (w_env ?w)"
      "loaded (elapsed (Suc n) ?w) ac'"
    using reload_returns[OF example_env_ok, of ?w ?ts ac "''words''"] by blast
  have d: "disturbed example_turn ac" "\<not> disturbed quietTurn a" for a
    by (simp_all add: disturbed_def example_turn_def quietTurn_def markStale_def)
  have "n \<noteq> 0" using n(3) d(1) by (intro notI) simp
  moreover have "\<not> 1 < n"
  proof
    assume "1 < n"
    with n(2) have "disturbed (?ts ! 1) (turnStart ?ts 1 ac)" by blast
    with d(2) show False by simp
  qed
  ultimately have "n = 1" by linarith
  have "rb_keywordSet ac' = {''he''}" "\<not> rb_stale ac'"
    using n(6) example_keys_ok(1) by (simp_all add: loaded_def el keywords_of_def snap_example_def)
  moreover have "w_env w' = [id]" using n(5) \<open>n = 1\<close> by (simp add: example_world_def)
  ultimately show "\<exists>w' ac'. reloadFromRedis example_env ''words'' ?ts ?w ac = Some (w', ac', Inr ()) \<and>
     w_env w' = [id] \<and> rb_keywordSet ac' = {''he''} \<and> \<not> rb_stale ac'"
    using n(4) by blast
qed

theorem preset_read_own_write_witness:
  "\<forall>ac. \<exists>w1 ac1 ac2. rb_add ascii_unicode example_env ''words'' True ''she'' (example_world [] []) ac = Some (w1, ac1, Inr 1) \<and>
     rb_find ascii_unicode example_env ''words'' True [] None None ''ushers'' w1 ac1 = Some (w1, ac2, Inr [''she'', ''he''])"
proof
  fix ac
  have w: "world_ok (example_world [] [])" by (intro example_world_ok) simp_all
  have n: "normalizeKeyword ascii_unicode ''she'' True = ''she''" by code_simp
  have k: "ts_Keywords (stored (w_keys (example_world [] []))) = [''he'']" using example_keys_ok(1) by (simp add: example_world_def snap_example_def)
  have u: "utf8_ok ''she''" "''she'' \<noteq> []" using ascii_utf8 by simp_all
  have c: "calm (example_world [] [])" by (simp add: calm_def example_world_def)
  have "''she'' \<notin> set (ts_Keywords (stored (w_keys (example_world [] []))))" by (simp add: k)
  moreover have "card (states (dict_of (ts_Keywords (stored (w_keys (example_world [] []))) @ [''she'']))) < 2 ^ 30"
    unfolding k by (rule states_bound) (simp_all add: runes_ascii byte_def RuneSelf_def)
  moreover have "''ushers'' \<noteq> []" by simp
  ultimately have "\<exists>w1 ac1 ac2. rb_add ascii_unicode example_env ''words'' True ''she'' (example_world [] []) ac = Some (w1, ac1, Inr 1) \<and>
      rb_find ascii_unicode example_env ''words'' True [] None None ''ushers'' w1 ac1 =
        Some (w1, ac2, Inr (spec_find (dict_of ([''he''] @ [''she''])) (normalizeText ascii_unicode ''ushers'' True)))"
    using preset_read_own_write[OF example_env_ok w c n[symmetric] u, of "''ushers''" "''words''" ac "[]"] unfolding k by blast
  moreover have "spec_find (dict_of ([''he''] @ [''she''])) (normalizeText ascii_unicode ''ushers'' True) = [''she'', ''he'']" by code_simp
  ultimately show "\<exists>w1 ac1 ac2. rb_add ascii_unicode example_env ''words'' True ''she'' (example_world [] []) ac = Some (w1, ac1, Inr 1) \<and>
     rb_find ascii_unicode example_env ''words'' True [] None None ''ushers'' w1 ac1 = Some (w1, ac2, Inr [''she'', ''he''])" by simp
qed

end
