(* ===== verification/Batch.thy ===== *)
theory Batch
  imports Preset_Ops
begin

text \<open>
  Batch writes, \<^verbatim>\<open>pkg/acor/batch.go\<close> with the entry points of \<^verbatim>\<open>context_ops.go\<close>: screening the
  input, one atomic write where the mode has one (\<^verbatim>\<open>batchPlanner\<close>), otherwise one write
  per keyword with rollback, and the report.  The mode's operations are an argument;
  the section on V2 plugs in those of the V2 mode.
\<close>

section \<open>Options and results\<close>

datatype BatchMode = BatchModeBestEffort | BatchModeTransactional

record BatchOptions =
  bo_Mode :: BatchMode

type_synonym KeywordError = "gostring \<times> acorError"

record BatchResult =
  br_Added :: "gostring list"
  br_Removed :: "gostring list"
  br_Failed :: "KeywordError list"
  br_Skipped :: "gostring list"

definition newBatchResult :: BatchResult where
  "newBatchResult = \<lparr>br_Added = [], br_Removed = [], br_Failed = [], br_Skipped = []\<rparr>"

definition addedTo :: "gostring list \<Rightarrow> BatchResult \<Rightarrow> BatchResult" where
  "addedTo kws r = r\<lparr>br_Added := br_Added r @ kws\<rparr>"

definition removedTo :: "gostring list \<Rightarrow> BatchResult \<Rightarrow> BatchResult" where
  "removedTo kws r = r\<lparr>br_Removed := br_Removed r @ kws\<rparr>"

definition skipTo :: "gostring list \<Rightarrow> BatchResult \<Rightarrow> BatchResult" where
  "skipTo kws r = r\<lparr>br_Skipped := br_Skipped r @ kws\<rparr>"

definition failTo :: "KeywordError list \<Rightarrow> BatchResult \<Rightarrow> BatchResult" where
  "failTo kes r = r\<lparr>br_Failed := br_Failed r @ kes\<rparr>"

text \<open>The operations of a mode: the atomic writes of a \<^verbatim>\<open>batchPlanner\<close>, where it is one, and the single writes.\<close>

record 's batchOps =
  op_addManyAtomic :: "(gostring list \<Rightarrow> 's \<Rightarrow> 's \<times> gostring list result) option"
  op_removeManyAtomic :: "(gostring list \<Rightarrow> 's \<Rightarrow> 's \<times> gostring list result) option"
  op_add :: "gostring \<Rightarrow> 's \<Rightarrow> 's \<times> nat result"
  op_remove :: "gostring \<Rightarrow> 's \<Rightarrow> 's \<times> nat result"

section \<open>Screening and reporting\<close>

fun screenLoop ::
  "unicode \<Rightarrow> bool \<Rightarrow> gostring list \<Rightarrow> gostring set \<Rightarrow> gostring list \<Rightarrow> gostring list \<Rightarrow> BatchResult \<Rightarrow>
   gostring list \<times> gostring list \<times> BatchResult" where
  "screenLoop u caseSensitive [] seen candidates normalized r = (candidates, normalized, r)"
| "screenLoop u caseSensitive (keyword0 # keywords) seen candidates normalized r =
     (let keyword = trimSpace keyword0 in
      if keyword = [] then screenLoop u caseSensitive keywords seen candidates normalized (failTo [(keyword, ErrEmptyKeyword)] r)
      else
        (let n = normalizeKeyword u keyword caseSensitive in
         if n \<in> seen then screenLoop u caseSensitive keywords seen candidates normalized (skipTo [keyword] r)
         else
           (let candidates' = candidates @ [keyword] in
            screenLoop u caseSensitive keywords (insert n seen) candidates'
              (if caseSensitive then candidates' else normalized @ [n]) r)))"

definition screenBatch :: "unicode \<Rightarrow> bool \<Rightarrow> gostring list \<Rightarrow> BatchResult \<Rightarrow> gostring list \<times> gostring list \<times> BatchResult" where
  "screenBatch u caseSensitive keywords r = screenLoop u caseSensitive keywords {} [] [] r"

fun partitionLoop :: "gostring set \<Rightarrow> gostring list \<Rightarrow> gostring list \<Rightarrow> gostring list \<times> gostring list" where
  "partitionLoop applied (kw # candidates) (n # normalized) =
     (case partitionLoop applied candidates normalized of (changed, unchanged) \<Rightarrow>
        if n \<in> applied then (kw # changed, unchanged) else (changed, kw # unchanged))"
| "partitionLoop applied _ _ = ([], [])"

definition partitionApplied :: "gostring list \<Rightarrow> gostring list \<Rightarrow> gostring list \<Rightarrow> gostring list \<times> gostring list" where
  "partitionApplied candidates normalized applied = partitionLoop (set applied) candidates normalized"

section \<open>Best effort\<close>

fun oneByOne ::
  "(gostring \<Rightarrow> 's \<Rightarrow> 's \<times> nat result) \<Rightarrow> (gostring list \<Rightarrow> BatchResult \<Rightarrow> BatchResult) \<Rightarrow> gostring list \<Rightarrow> BatchResult \<Rightarrow> 's \<Rightarrow>
   's \<times> BatchResult" where
  "oneByOne act changedTo [] r s = (s, r)"
| "oneByOne act changedTo (kw # kws) r s =
     (case act kw s of
        (s1, Inl err) \<Rightarrow> oneByOne act changedTo kws (failTo [(kw, err)] r) s1
      | (s1, Inr c) \<Rightarrow> oneByOne act changedTo kws (if c = 0 then skipTo [kw] r else changedTo [kw] r) s1)"

definition bestEffort ::
  "unicode \<Rightarrow> bool \<Rightarrow> (gostring list \<Rightarrow> 's \<Rightarrow> 's \<times> gostring list result) option \<Rightarrow> (gostring \<Rightarrow> 's \<Rightarrow> 's \<times> nat result) \<Rightarrow>
   (gostring list \<Rightarrow> BatchResult \<Rightarrow> BatchResult) \<Rightarrow> gostring list \<Rightarrow> BatchResult \<Rightarrow> 's \<Rightarrow> 's \<times> BatchResult" where
  "bestEffort u caseSensitive atomic act changedTo keywords result s =
     (case screenBatch u caseSensitive keywords result of (candidates, normalized, r) \<Rightarrow>
        (case atomic of
           Some manyAtomic \<Rightarrow>
             (if candidates = [] then (s, r)
              else (case manyAtomic normalized s of
                  (s1, Inl err) \<Rightarrow> (s1, failTo (map (\<lambda>kw. (kw, err)) candidates) r)
                | (s1, Inr applied) \<Rightarrow>
                    (case partitionApplied candidates normalized applied of (changed, unchanged) \<Rightarrow>
                       (s1, skipTo unchanged (changedTo changed r)))))
         | None \<Rightarrow> oneByOne act changedTo candidates r s))"

definition addManyBestEffort :: "unicode \<Rightarrow> bool \<Rightarrow> 's batchOps \<Rightarrow> gostring list \<Rightarrow> BatchResult \<Rightarrow> 's \<Rightarrow> 's \<times> BatchResult" where
  "addManyBestEffort u caseSensitive ops = bestEffort u caseSensitive (op_addManyAtomic ops) (op_add ops) addedTo"

definition removeManyBestEffort :: "unicode \<Rightarrow> bool \<Rightarrow> 's batchOps \<Rightarrow> gostring list \<Rightarrow> BatchResult \<Rightarrow> 's \<Rightarrow> 's \<times> BatchResult" where
  "removeManyBestEffort u caseSensitive ops = bestEffort u caseSensitive (op_removeManyAtomic ops) (op_remove ops) removedTo"

section \<open>Transactional\<close>

text \<open>The errors of the undo are only logged.\<close>

fun rollbackBatch :: "(gostring \<Rightarrow> 's \<Rightarrow> 's \<times> nat result) \<Rightarrow> gostring list \<Rightarrow> 's \<Rightarrow> 's" where
  "rollbackBatch undo [] s = s"
| "rollbackBatch undo (kw # kws) s = (case undo kw s of (s1, r) \<Rightarrow> rollbackBatch undo kws s1)"

definition rollbackAdded :: "'s batchOps \<Rightarrow> gostring list \<Rightarrow> 's \<Rightarrow> 's" where
  "rollbackAdded ops = rollbackBatch (op_remove ops)"

definition rollbackRemoved :: "'s batchOps \<Rightarrow> gostring list \<Rightarrow> 's \<Rightarrow> 's" where
  "rollbackRemoved ops = rollbackBatch (op_add ops)"

fun transLoop ::
  "(gostring \<Rightarrow> 's \<Rightarrow> 's \<times> nat result) \<Rightarrow> (gostring list \<Rightarrow> 's \<Rightarrow> 's) \<Rightarrow> string \<Rightarrow> gostring list \<Rightarrow> gostring set \<Rightarrow> gostring list \<Rightarrow>
   BatchResult \<Rightarrow> 's \<Rightarrow> 's \<times> (gostring list \<times> BatchResult) result" where
  "transLoop act rollback msg [] seen applied r s = (s, Inr (applied, r))"
| "transLoop act rollback msg (keyword0 # keywords) seen applied r s =
     (let keyword = trimSpace keyword0 in
      if keyword = [] then (rollback applied s, Inl ErrEmptyKeyword)
      else if keyword \<in> seen then transLoop act rollback msg keywords seen applied (skipTo [keyword] r) s
      else (case act keyword s of
          (s1, Inl err) \<Rightarrow> (rollback applied s1, Inl (Wrapped (msg @ keyword) err))
        | (s1, Inr c) \<Rightarrow>
            if c > 0 then transLoop act rollback msg keywords (insert keyword seen) (applied @ [keyword]) r s1
            else transLoop act rollback msg keywords (insert keyword seen) applied (skipTo [keyword] r) s1))"

definition transactional ::
  "unicode \<Rightarrow> bool \<Rightarrow> (gostring list \<Rightarrow> 's \<Rightarrow> 's \<times> gostring list result) option \<Rightarrow> (gostring \<Rightarrow> 's \<Rightarrow> 's \<times> nat result) \<Rightarrow>
   (gostring list \<Rightarrow> 's \<Rightarrow> 's) \<Rightarrow> string \<Rightarrow> (gostring list \<Rightarrow> BatchResult \<Rightarrow> BatchResult) \<Rightarrow> gostring list \<Rightarrow> BatchResult \<Rightarrow> 's \<Rightarrow>
   's \<times> BatchResult result" where
  "transactional u caseSensitive atomic act rollback msg changedTo keywords result s =
     (case atomic of
        Some manyAtomic \<Rightarrow>
          (case screenBatch u caseSensitive keywords result of (candidates, normalized, r) \<Rightarrow>
             if br_Failed r \<noteq> [] then (s, Inl ErrEmptyKeyword)
             else if candidates = [] then (s, Inr r)
             else (case manyAtomic normalized s of
                 (s1, Inl err) \<Rightarrow> (s1, Inl (Wrapped msg err))
               | (s1, Inr applied) \<Rightarrow>
                   (case partitionApplied candidates normalized applied of (changed, unchanged) \<Rightarrow>
                      (s1, Inr (skipTo unchanged (changedTo changed r))))))
      | None \<Rightarrow>
          (case transLoop act rollback (msg @ '' at keyword '') keywords {} [] result s of
             (s1, Inl err) \<Rightarrow> (s1, Inl err)
           | (s1, Inr (applied, r)) \<Rightarrow> (s1, Inr (changedTo applied r))))"

definition addManyTransactional :: "unicode \<Rightarrow> bool \<Rightarrow> 's batchOps \<Rightarrow> gostring list \<Rightarrow> BatchResult \<Rightarrow> 's \<Rightarrow> 's \<times> BatchResult result" where
  "addManyTransactional u caseSensitive ops =
     transactional u caseSensitive (op_addManyAtomic ops) (op_add ops) (rollbackAdded ops) ''batch add failed'' addedTo"

definition removeManyTransactional :: "unicode \<Rightarrow> bool \<Rightarrow> 's batchOps \<Rightarrow> gostring list \<Rightarrow> BatchResult \<Rightarrow> 's \<Rightarrow> 's \<times> BatchResult result" where
  "removeManyTransactional u caseSensitive ops =
     transactional u caseSensitive (op_removeManyAtomic ops) (op_remove ops) (rollbackRemoved ops) ''batch remove failed'' removedTo"

section \<open>Entry points\<close>

definition AddMany :: "unicode \<Rightarrow> bool \<Rightarrow> 's batchOps \<Rightarrow> gostring list \<Rightarrow> BatchOptions option \<Rightarrow> 's \<Rightarrow> 's \<times> BatchResult result" where
  "AddMany u caseSensitive ops keywords opts0 s =
     (let opts = (case opts0 of None \<Rightarrow> \<lparr>bo_Mode = BatchModeBestEffort\<rparr> | Some o' \<Rightarrow> o') in
      if bo_Mode opts = BatchModeTransactional then addManyTransactional u caseSensitive ops keywords newBatchResult s
      else (case addManyBestEffort u caseSensitive ops keywords newBatchResult s of (s1, r) \<Rightarrow> (s1, Inr r)))"

definition RemoveMany :: "unicode \<Rightarrow> bool \<Rightarrow> 's batchOps \<Rightarrow> gostring list \<Rightarrow> BatchOptions option \<Rightarrow> 's \<Rightarrow> 's \<times> BatchResult result" where
  "RemoveMany u caseSensitive ops keywords opts0 s =
     (let opts = (case opts0 of None \<Rightarrow> \<lparr>bo_Mode = BatchModeBestEffort\<rparr> | Some o' \<Rightarrow> o') in
      if bo_Mode opts = BatchModeTransactional then removeManyTransactional u caseSensitive ops keywords newBatchResult s
      else (case removeManyBestEffort u caseSensitive ops keywords newBatchResult s of (s1, r) \<Rightarrow> (s1, Inr r)))"

text \<open>The V2 mode.\<close>

definition v2_batchOps :: "unicode \<Rightarrow> gostring \<Rightarrow> bool \<Rightarrow> world batchOps" where
  "v2_batchOps u name caseSensitive =
     \<lparr>op_addManyAtomic = Some (v2_addManyAtomic name), op_removeManyAtomic = Some (v2_removeManyAtomic name),
      op_add = v2_add u name caseSensitive, op_remove = v2_remove u name caseSensitive\<rparr>"

section \<open>Trimming and screening\<close>

text \<open>What is trimmed does not start or end with a space, so trimming twice is trimming once.\<close>

lemma trimSpace_idem: "trimSpace (trimSpace s) = trimSpace s"
proof -
  let ?sp = "\<lambda>p :: rune \<times> gostring. isSpace (fst p)"
  let ?q = "dropWhile ?sp (pieces s)"
  let ?m = "rev (dropWhile ?sp (rev ?q))"
  obtain j where "dropWhile ?sp (rev ?q) = drop j (rev ?q)" by (metis dropWhile_eq_drop)
  then have m: "?m = take (length ?q - j) ?q" by (simp add: rev_drop)
  have p: "pieces (trimSpace s) = ?m" by (rule pieces_trimSpace)
  obtain x where x: "x = ?m" by blast
  have "dropWhile ?sp x = x"
  proof (cases x)
    case (Cons y ys)
    then have "hd ?q = y" "?q \<noteq> []" using m unfolding x[symmetric] by (cases ?q; cases "length ?q - j"; simp)+
    then have "\<not> ?sp y" using hd_dropWhile[of ?sp "pieces s"] by metis
    then show ?thesis using Cons by simp
  qed simp
  moreover have "dropWhile ?sp (rev x) = rev x" unfolding x rev_rev_ident by (rule dropWhile_idem)
  ultimately show ?thesis using p unfolding x[symmetric] trimSpace_def[of "trimSpace s"] by (simp add: trimSpace_def[of s] x)
qed

lemma batchResult_fields [simp]:
  "br_Added (failTo kes r) = br_Added r" "br_Removed (failTo kes r) = br_Removed r" "br_Failed (failTo kes r) = br_Failed r @ kes"
  "br_Skipped (failTo kes r) = br_Skipped r" "br_Added (skipTo kws r) = br_Added r" "br_Removed (skipTo kws r) = br_Removed r"
  "br_Failed (skipTo kws r) = br_Failed r" "br_Skipped (skipTo kws r) = br_Skipped r @ kws"
  "br_Added (addedTo kws r) = br_Added r @ kws" "br_Removed (addedTo kws r) = br_Removed r" "br_Failed (addedTo kws r) = br_Failed r"
  "br_Skipped (addedTo kws r) = br_Skipped r"
  "br_Added (removedTo kws r) = br_Added r" "br_Removed (removedTo kws r) = br_Removed r @ kws" "br_Failed (removedTo kws r) = br_Failed r"
  "br_Skipped (removedTo kws r) = br_Skipped r"
  by (simp_all add: failTo_def skipTo_def addedTo_def removedTo_def)

lemma normalizeKeyword_trim: "normalizeKeyword u (trimSpace k) c = normalizeKeyword u k c"
  by (simp add: normalizeKeyword_def trimSpace_idem)

lemma normalizeKeyword_Nil: "normalizeKeyword u k c = [] \<longleftrightarrow> trimSpace k = []"
  by (simp add: normalizeKeyword_def toLower_def string_of_eq_Nil runes_eq_Nil Let_def)

text \<open>Every input is a candidate, a duplicate or blank; the candidates differ when normalized.\<close>

lemma screenLoop_correct:
  assumes "screenLoop u c kws (set ns) cs ns r = (cs', ns', r')" and "ns = map (\<lambda>k. normalizeKeyword u k c) cs" and "distinct ns"
    and "c \<longrightarrow> ns = cs"
  shows "\<exists>new sk m. cs' = cs @ new \<and> ns' = map (\<lambda>k. normalizeKeyword u k c) cs' \<and> distinct ns' \<and>
    mset new + mset sk + replicate_mset m [] = mset (map trimSpace kws) \<and>
    br_Failed r' = br_Failed r @ replicate m ([], ErrEmptyKeyword) \<and> br_Skipped r' = br_Skipped r @ sk \<and>
    br_Added r' = br_Added r \<and> br_Removed r' = br_Removed r \<and> (\<forall>k \<in> set sk. normalizeKeyword u k c \<in> set ns') \<and> (\<forall>k \<in> set new. trimSpace k \<noteq> [])"
  using assms
proof (induction kws arbitrary: cs ns r)
  case Nil
  then show ?case by - (rule exI[of _ "[]"], rule exI[of _ "[]"], rule exI[of _ 0], auto)
next
  case (Cons kw0 kws)
  let ?kw = "trimSpace kw0" and ?n = "normalizeKeyword u (trimSpace kw0) c"
  consider "?kw = []" | "?kw \<noteq> []" "?n \<in> set ns" | "?kw \<noteq> []" "?n \<notin> set ns" by blast
  then show ?case
  proof cases
    case 1
    then have "screenLoop u c kws (set ns) cs ns (failTo [([], ErrEmptyKeyword)] r) = (cs', ns', r')" using Cons.prems(1) by simp
    from Cons.IH[OF this Cons.prems(2-4)] obtain new sk m where
      "cs' = cs @ new \<and> ns' = map (\<lambda>k. normalizeKeyword u k c) cs' \<and> distinct ns' \<and>
       mset new + mset sk + replicate_mset m [] = mset (map trimSpace kws) \<and>
       br_Failed r' = (br_Failed r @ [([], ErrEmptyKeyword)]) @ replicate m ([], ErrEmptyKeyword) \<and> br_Skipped r' = br_Skipped r @ sk \<and>
       br_Added r' = br_Added r \<and> br_Removed r' = br_Removed r \<and> (\<forall>k \<in> set sk. normalizeKeyword u k c \<in> set ns') \<and> (\<forall>k \<in> set new. trimSpace k \<noteq> [])" by auto
    with 1 show ?thesis by - (rule exI[of _ new], rule exI[of _ sk], rule exI[of _ "Suc m"], elim conjE, simp)
  next
    case 2
    then have "screenLoop u c kws (set ns) cs ns (skipTo [?kw] r) = (cs', ns', r')" using Cons.prems(1) by simp
    from Cons.IH[OF this Cons.prems(2-4)] obtain new sk m where
      h: "cs' = cs @ new \<and> ns' = map (\<lambda>k. normalizeKeyword u k c) cs' \<and> distinct ns' \<and>
       mset new + mset sk + replicate_mset m [] = mset (map trimSpace kws) \<and>
       br_Failed r' = br_Failed r @ replicate m ([], ErrEmptyKeyword) \<and> br_Skipped r' = (br_Skipped r @ [?kw]) @ sk \<and>
       br_Added r' = br_Added r \<and> br_Removed r' = br_Removed r \<and> (\<forall>k \<in> set sk. normalizeKeyword u k c \<in> set ns') \<and> (\<forall>k \<in> set new. trimSpace k \<noteq> [])" by auto
    moreover have "?n \<in> set ns'" using h 2(2) Cons.prems(2) by auto
    ultimately show ?thesis by - (rule exI[of _ new], rule exI[of _ "?kw # sk"], rule exI[of _ m], elim conjE, simp)
  next
    case 3
    let ?ns = "ns @ [?n]"
    have t: "c \<longrightarrow> ?n = ?kw" by (simp add: normalizeKeyword_def trimSpace_idem)
    then have e: "(if c then cs @ [?kw] else ns @ [?n]) = ?ns" using Cons.prems(4) by simp
    then have "screenLoop u c kws (set ?ns) (cs @ [?kw]) ?ns r = (cs', ns', r')" using Cons.prems(1) 3 by (simp add: Let_def)
    from Cons.IH[OF this] Cons.prems(2-4) 3 t obtain new sk m where
      "cs' = (cs @ [?kw]) @ new \<and> ns' = map (\<lambda>k. normalizeKeyword u k c) cs' \<and> distinct ns' \<and>
       mset new + mset sk + replicate_mset m [] = mset (map trimSpace kws) \<and>
       br_Failed r' = br_Failed r @ replicate m ([], ErrEmptyKeyword) \<and> br_Skipped r' = br_Skipped r @ sk \<and>
       br_Added r' = br_Added r \<and> br_Removed r' = br_Removed r \<and> (\<forall>k \<in> set sk. normalizeKeyword u k c \<in> set ns') \<and> (\<forall>k \<in> set new. trimSpace k \<noteq> [])" by auto
    then show ?thesis using 3(1) by - (rule exI[of _ "?kw # new"], rule exI[of _ sk], rule exI[of _ m], elim conjE, simp add: trimSpace_idem)
  qed
qed

lemma screenBatch_correct:
  assumes "screenBatch u c kws newBatchResult = (cs, ns, r)"
  shows "\<exists>m. ns = map (\<lambda>k. normalizeKeyword u k c) cs \<and> distinct ns \<and>
    mset cs + mset (br_Skipped r) + replicate_mset m [] = mset (map trimSpace kws) \<and> br_Failed r = replicate m ([], ErrEmptyKeyword) \<and>
    br_Added r = [] \<and> br_Removed r = [] \<and> (\<forall>k \<in> set (br_Skipped r). normalizeKeyword u k c \<in> set ns) \<and> (\<forall>k \<in> set cs. trimSpace k \<noteq> [])"
  using screenLoop_correct[of u c kws "[]" "[]" newBatchResult cs ns r] assms by (auto simp: screenBatch_def newBatchResult_def)

lemma partitionApplied_map:
  "partitionApplied cs (map f cs) applied = (filter (\<lambda>k. f k \<in> set applied) cs, filter (\<lambda>k. f k \<notin> set applied) cs)"
  unfolding partitionApplied_def by (induction cs) simp_all

section \<open>Batches on V2\<close>

lemma v2_addManyAtomic_effect:
  assumes "world_ok w" and "\<forall>k \<in> set ks. utf8_ok k" and "v2_addManyAtomic name ks w = (w', res)"
  shows "linearized (many_plan planAddMany ks) w w' res"
proof -
  obtain w1 r1 where b: "applyManyAtomic name ks False planAddMany (\<lambda>_ _ w. w) w = (w1, r1)" by fastforce
  have l: "linearized (many_plan planAddMany ks) w w1 r1"
    using attempts_linearized[OF add_many_plan_ok[OF assms(2)] quiet_id assms(1)] b unfolding applyManyAtomic_attempt by blast
  have "res = r1" "w' = w1 \<or> w' = publishInvalidate name w1" using assms(3) b by (auto simp: v2_addManyAtomic_def split: sum.splits)
  then show ?thesis using l linearized_quiet[OF quiet_publish] by blast
qed

lemma v2_removeManyAtomic_effect:
  assumes "world_ok w" and "v2_removeManyAtomic name ks w = (w', res)"
  shows "linearized (many_plan planRemoveMany ks) w w' res"
proof -
  obtain w1 r1 where b: "applyManyAtomic name ks True planRemoveMany (\<lambda>_ _ w. w) w = (w1, r1)" by fastforce
  have l: "linearized (many_plan planRemoveMany ks) w w1 r1"
    using attempts_linearized[OF remove_many_plan_ok quiet_id assms(1)] b unfolding applyManyAtomic_attempt by blast
  have "res = r1" "w' = w1 \<or> w' = publishInvalidate name w1" using assms(2) b by (auto simp: v2_removeManyAtomic_def split: sum.splits)
  then show ?thesis using l linearized_quiet[OF quiet_publish] by blast
qed

text \<open>What a batch add may do to the stored keywords, given its candidates.\<close>

definition batch_added :: "gostring list \<Rightarrow> gostring list \<Rightarrow> gostring list \<Rightarrow> gostring list \<Rightarrow> bool" where
  "batch_added ns old new added \<longleftrightarrow> new = old @ added \<and> distinct added \<and> set added = set ns - set old"

lemma filter_partition: "mset (filter P xs) + mset (filter (\<lambda>x. \<not> P x) xs) = mset xs"
  by (induction xs) auto

lemma addMany_v2_effect:
  assumes w: "world_ok w" and u: "\<forall>k \<in> set kws. utf8_ok (normalizeKeyword u k c)"
    and s: "screenBatch u c kws newBatchResult = (cs, ns, r)" and ne: "cs \<noteq> []"
    and a: "v2_addManyAtomic name ns w = (w', res)"
  shows "\<exists>n. w_env w' = drop n (w_env w) \<and> store_ok (w_keys w') \<and>
    (let old = ts_Keywords (stored (elapsed n w)); new = ts_Keywords (stored (w_keys w')) in
     case res of
       Inr added \<Rightarrow> batch_added ns old new added
     | Inl err \<Rightarrow> w_keys w' = elapsed n w \<or> \<not> errors_Is err ErrConcurrencyConflict \<and> (\<exists>added. batch_added ns old new added))"
proof -
  from screenBatch_correct[OF s] obtain m where S: "ns = map (\<lambda>k. normalizeKeyword u k c) cs" "distinct ns"
    "mset cs + mset (br_Skipped r) + replicate_mset m [] = mset (map trimSpace kws)" "\<forall>k \<in> set cs. trimSpace k \<noteq> []" by blast
  have sub: "\<exists>k \<in> set kws. x = normalizeKeyword u k c" if x: "x \<in> set ns" for x
  proof -
    obtain y where y: "y \<in> set cs" "x = normalizeKeyword u y c" using x S(1) by auto
    then have "y \<in># mset (map trimSpace kws)" unfolding S(3)[symmetric] by simp
    then show ?thesis using y(2) normalizeKeyword_trim by auto
  qed
  have uk: "\<forall>k \<in> set ns. utf8_ok k" using sub u by blast
  have nn: "set ns - {[]} - A = set ns - A" for A
  proof -
    have "normalizeKeyword u y c \<noteq> []" if "y \<in> set cs" for y using S(4) normalizeKeyword_Nil[of u y c] that by simp
    then have "[] \<notin> set ns" unfolding S(1) by force
    then show ?thesis by blast
  qed
  from v2_addManyAtomic_effect[OF w uk a] obtain n where n: "w_env w' = drop n (w_env w)" "store_ok (elapsed n w)" "store_ok (w_keys w')"
    "case res of Inr r \<Rightarrow> effect (many_plan planAddMany ns) (elapsed n w) (w_keys w') r
      | Inl err \<Rightarrow> w_keys w' = elapsed n w \<or> \<not> errors_Is err ErrConcurrencyConflict \<and> (\<exists>r. effect (many_plan planAddMany ns) (elapsed n w) (w_keys w') r)"
    by (rule linearizedE)
  have E: "batch_added ns (ts_Keywords (stored (elapsed n w))) (ts_Keywords (stored (w_keys w'))) added"
    if "effect (many_plan planAddMany ns) (elapsed n w) (w_keys w') added" for added
    using effect_many_add[OF that uk n(2)] nn by (simp add: batch_added_def)
  show ?thesis using n E by (intro exI[of _ n]) (auto simp: Let_def split: sum.splits)
qed

text \<open>
  C39.  A best-effort batch on V2 accounts for everything.  Every input, trimmed, is
  reported once, as added, skipped or failed.  There is an instant among the other
  clients' writes at which the batch took effect: either the added keywords, all
  new and distinct when normalized, are exactly what joined the collection and the
  skipped ones are in it, or the write failed, nothing is reported as added, and
  nothing was written unless the error came after the commit.
\<close>

theorem AddMany_accounts:
  assumes "world_ok w" and "\<forall>k \<in> set kws. utf8_ok (normalizeKeyword u k c)"
    and "AddMany u c (v2_batchOps u name c) kws None w = (w', res)"
  shows "\<exists>r n. res = Inr r \<and> br_Removed r = [] \<and> w_env w' = drop n (w_env w) \<and>
    mset (br_Added r) + mset (br_Skipped r) + mset (map fst (br_Failed r)) = mset (map trimSpace kws) \<and>
    (let norm = (\<lambda>k. normalizeKeyword u k c); old = ts_Keywords (stored (elapsed n w)); new = ts_Keywords (stored (w_keys w'));
         joined = (\<lambda>ks. set new = set old \<union> norm ` set ks) in
     distinct (map norm (br_Added r)) \<and>
     ((\<forall>f \<in> set (br_Failed r). f = ([], ErrEmptyKeyword)) \<and> joined (br_Added r) \<and>
        norm ` set (br_Added r) \<inter> set old = {} \<and> norm ` set (br_Skipped r) \<subseteq> set new
      \<or> br_Added r = [] \<and> (\<exists>err. (\<forall>f \<in> set (br_Failed r). f = ([], ErrEmptyKeyword) \<or> snd f = err) \<and>
        (w_keys w' = elapsed n w \<or> \<not> errors_Is err ErrConcurrencyConflict \<and> joined (filter (\<lambda>k. k \<noteq> []) (map fst (br_Failed r)))))))"
proof -
  let ?norm = "\<lambda>k. normalizeKeyword u k c"
  obtain cs ns r0 where s: "screenBatch u c kws newBatchResult = (cs, ns, r0)" by (cases "screenBatch u c kws newBatchResult") auto
  from screenBatch_correct[OF s] obtain m where S: "ns = map ?norm cs" "distinct ns"
    "mset cs + mset (br_Skipped r0) + replicate_mset m [] = mset (map trimSpace kws)" "br_Failed r0 = replicate m ([], ErrEmptyKeyword)"
    "br_Added r0 = []" "br_Removed r0 = []" "\<forall>k \<in> set (br_Skipped r0). ?norm k \<in> set ns" "\<forall>k \<in> set cs. trimSpace k \<noteq> []" by blast
  have blank: "\<forall>f \<in> set (br_Failed r0). f = ([], ErrEmptyKeyword)" "map fst (br_Failed r0) = replicate m []" by (simp_all add: S(4))
  show ?thesis
  proof (cases "cs = []")
    case True
    then have "w' = w" "res = Inr r0" using assms(3) s by (simp_all add: AddMany_def addManyBestEffort_def bestEffort_def v2_batchOps_def)
    moreover have "br_Skipped r0 = []" using S(1,7) True by (cases "br_Skipped r0") auto
    ultimately show ?thesis using S(3,5,6) blank True
      by (intro exI[of _ r0] exI[of _ 0]) (simp add: elapsed_def)
  next
    case False
    obtain w1 res1 where a: "v2_addManyAtomic name ns w = (w1, res1)" by fastforce
    from addMany_v2_effect[OF assms(1,2) s False a] obtain n where n: "w_env w1 = drop n (w_env w)"
      "case res1 of Inr added \<Rightarrow> batch_added ns (ts_Keywords (stored (elapsed n w))) (ts_Keywords (stored (w_keys w1))) added
       | Inl err \<Rightarrow> w_keys w1 = elapsed n w \<or> \<not> errors_Is err ErrConcurrencyConflict \<and>
           (\<exists>added. batch_added ns (ts_Keywords (stored (elapsed n w))) (ts_Keywords (stored (w_keys w1))) added)"
      by (auto simp: Let_def)
    show ?thesis
    proof (cases res1)
      case (Inl err)
      let ?r = "failTo (map (\<lambda>kw. (kw, err)) cs) r0"
      have r: "w' = w1" "res = Inr ?r" using assms(3) s False a Inl
        by (simp_all add: AddMany_def addManyBestEffort_def bestEffort_def v2_batchOps_def)
      have f: "filter (\<lambda>k. k \<noteq> []) (map fst (br_Failed ?r)) = cs" using S(4,8) by (auto simp: comp_def filter_id_conv trimSpace_def pieces_Nil)
      have j: "set (ts_Keywords (stored (w_keys w1))) = set (ts_Keywords (stored (elapsed n w))) \<union> ?norm ` set cs"
        if "batch_added ns (ts_Keywords (stored (elapsed n w))) (ts_Keywords (stored (w_keys w1))) added" for added
        using that S(1) by (auto simp: batch_added_def)
      show ?thesis unfolding r
      proof (intro exI[of _ ?r] exI[of _ n] conjI refl)
        show "mset (br_Added ?r) + mset (br_Skipped ?r) + mset (map fst (br_Failed ?r)) = mset (map trimSpace kws)"
          using S(3,5) blank(2) by (simp add: comp_def add_ac)
      qed (use n Inl S(5,6) blank(1) f j in \<open>auto simp: Let_def\<close>)
    next
      case (Inr added)
      let ?in = "filter (\<lambda>k. ?norm k \<in> set added) cs" and ?out = "filter (\<lambda>k. ?norm k \<notin> set added) cs"
      let ?r = "skipTo ?out (addedTo ?in r0)"
      have r: "w' = w1" "res = Inr ?r" using assms(3) s False a Inr S(1) partitionApplied_map[of cs ?norm added]
        by (simp_all add: AddMany_def addManyBestEffort_def bestEffort_def v2_batchOps_def)
      have b: "ts_Keywords (stored (w_keys w1)) = ts_Keywords (stored (elapsed n w)) @ added"
        "set added = ?norm ` set cs - set (ts_Keywords (stored (elapsed n w)))" using n(2) Inr S(1) by (simp_all add: batch_added_def)
      show ?thesis unfolding r
      proof (intro exI[of _ ?r] exI[of _ n] conjI refl)
        show "mset (br_Added ?r) + mset (br_Skipped ?r) + mset (map fst (br_Failed ?r)) = mset (map trimSpace kws)"
          using filter_partition[of "\<lambda>k. ?norm k \<in> set added" cs] S(3,5) blank(2) by (simp add: add_ac)
        have "distinct (map ?norm ?in)" using S(1,2) by (simp add: distinct_map_filter)
        moreover have "?norm ` set ?in = set added" using b(2) by auto
        moreover have "?norm ` set (br_Skipped ?r) \<subseteq> set (ts_Keywords (stored (w_keys w1)))" using b S(1,7) by auto
        ultimately show "let norm = ?norm; old = ts_Keywords (stored (elapsed n w)); new = ts_Keywords (stored (w_keys w1));
            joined = (\<lambda>ks. set new = set old \<union> norm ` set ks) in
          distinct (map norm (br_Added ?r)) \<and>
          ((\<forall>f \<in> set (br_Failed ?r). f = ([], ErrEmptyKeyword)) \<and> joined (br_Added ?r) \<and>
             norm ` set (br_Added ?r) \<inter> set old = {} \<and> norm ` set (br_Skipped ?r) \<subseteq> set new
           \<or> br_Added ?r = [] \<and> (\<exists>err. (\<forall>f \<in> set (br_Failed ?r). f = ([], ErrEmptyKeyword) \<or> snd f = err) \<and>
             (w_keys w1 = elapsed n w \<or> \<not> errors_Is err ErrConcurrencyConflict \<and> joined (filter (\<lambda>k. k \<noteq> []) (map fst (br_Failed ?r))))))"
          using b blank(1) S(5) by (simp add: Let_def Diff_Int_distrib2)
      qed (use n(1) S(6) in simp_all)
    qed
  qed
qed

theorem AddMany_accounts_witness:
  "\<exists>w' r. AddMany ascii_unicode True (v2_batchOps ascii_unicode ''words'' True) ['' she'', '' '', ''he'', ''she''] None (example_world [] []) = (w', Inr r) \<and>
     br_Added r = [''she''] \<and> mset (br_Added r) + mset (br_Skipped r) + mset (map fst (br_Failed r)) = {#''she'', [], ''he'', ''she''#}"
proof -
  let ?kws = "['' she'', '' '', ''he'', ''she'']" and ?w = "example_world [] []"
  obtain w' res where a: "AddMany ascii_unicode True (v2_batchOps ascii_unicode ''words'' True) ?kws None ?w = (w', res)" by fastforce
  have "(case AddMany ascii_unicode True (v2_batchOps ascii_unicode ''words'' True) ?kws None ?w of
      (w', res) \<Rightarrow> case res of Inl err \<Rightarrow> False | Inr r \<Rightarrow> br_Added r = [''she''])" by code_simp
  then have added: "case res of Inl err \<Rightarrow> False | Inr r \<Rightarrow> br_Added r = [''she'']" by (simp add: a)
  have n: "map (\<lambda>k. normalizeKeyword ascii_unicode k True) ?kws = [''she'', [], ''he'', ''she'']"
    and t: "map trimSpace ?kws = [''she'', [], ''he'', ''she'']" by code_simp+
  have "\<forall>k \<in> set (map (\<lambda>k. normalizeKeyword ascii_unicode k True) ?kws). utf8_ok k" unfolding n using ascii_utf8 by (simp add: utf8_ok_def)
  then have u: "\<forall>k \<in> set ?kws. utf8_ok (normalizeKeyword ascii_unicode k True)" by simp
  have w: "world_ok ?w" by (intro example_world_ok) simp_all
  from AddMany_accounts[OF w u a] obtain r where r: "res = Inr r"
    "mset (br_Added r) + mset (br_Skipped r) + mset (map fst (br_Failed r)) = mset (map trimSpace ?kws)" by blast
  show ?thesis using a r added unfolding t by auto
qed

end
