(* ===== verification/Json_Strings.thy ===== *)
theory Json_Strings
  imports Rune_Offsets
begin

text \<open>
  JSON arrays of strings as \<^verbatim>\<open>encoding/json\<close> writes and reads them: the documents whose
  bytes the versioned collection hashes, splits and measures.  \<open>jsonString\<close> escapes
  what \<^verbatim>\<open>json.Marshal\<close> escapes (quotes, control characters, the characters special in
  HTML, two separators, and each byte that is not part of a valid rune);
  \<open>jsonDecode\<close> reads any text, white space, escapes, surrogate pairs and \<^verbatim>\<open>null\<close>
  included, and is \<open>None\<close> for every document that is not an array of strings.
\<close>

section \<open>Writing\<close>

definition hexDigit :: "int \<Rightarrow> char" where
  "hexDigit n = (if n < 10 then chr (48 + n) else chr (87 + n))"

definition jsonPiece :: "rune \<times> gostring \<Rightarrow> gostring" where
  "jsonPiece p =
     (case p of (r, bytes) \<Rightarrow>
        if r < RuneSelf then
          (if r = 0x22 \<or> r = 0x5C then [CHR 0x5C, chr r]
           else if r = 8 then [CHR 0x5C, CHR ''b''] else if r = 12 then [CHR 0x5C, CHR ''f'']
           else if r = 10 then [CHR 0x5C, CHR ''n''] else if r = 13 then [CHR 0x5C, CHR ''r'']
           else if r = 9 then [CHR 0x5C, CHR ''t'']
           else if r < 0x20 \<or> r = 0x3C \<or> r = 0x3E \<or> r = 0x26
           then [CHR 0x5C, CHR ''u'', CHR ''0'', CHR ''0'', hexDigit (r div 16), hexDigit (r mod 16)]
           else bytes)
        else if r = RuneError \<and> length bytes = 1 then [CHR 0x5C, CHR ''u'', CHR ''f'', CHR ''f'', CHR ''f'', CHR ''d'']
        else if r = 0x2028 \<or> r = 0x2029 then [CHR 0x5C, CHR ''u'', CHR ''2'', CHR ''0'', CHR ''2'', hexDigit (r mod 16)]
        else bytes)"

definition jsonBody :: "gostring \<Rightarrow> gostring" where
  "jsonBody s = concat (map jsonPiece (pieces s))"

definition jsonString :: "gostring \<Rightarrow> gostring" where
  "jsonString s = CHR 0x22 # jsonBody s @ [CHR 0x22]"

fun jsonElements :: "gostring list \<Rightarrow> gostring" where
  "jsonElements [] = []"
| "jsonElements [w] = jsonString w"
| "jsonElements (w # ws) = jsonString w @ CHR '','' # jsonElements ws"

definition jsonStrings :: "gostring list \<Rightarrow> gostring" where
  "jsonStrings ws = CHR ''['' # jsonElements ws @ [CHR '']'']"

section \<open>Reading\<close>

definition hexVal :: "char \<Rightarrow> int option" where
  "hexVal c =
     (let b = byte c in
      if 48 \<le> b \<and> b \<le> 57 then Some (b - 48) else if 97 \<le> b \<and> b \<le> 102 then Some (b - 87)
      else if 65 \<le> b \<and> b \<le> 70 then Some (b - 55) else None)"

definition hex4 :: "gostring \<Rightarrow> (int \<times> gostring) option" where
  "hex4 s =
     (case s of
        a # b # c # d # t \<Rightarrow>
          (case (hexVal a, hexVal b, hexVal c, hexVal d) of
             (Some x, Some y, Some z, Some w) \<Rightarrow> Some (x * 4096 + y * 256 + z * 16 + w, t)
           | _ \<Rightarrow> None)
      | _ \<Rightarrow> None)"

text \<open>After a high surrogate, an escaped low surrogate joins it; anything else is left to be read again.\<close>

definition surrogate :: "int \<Rightarrow> gostring \<Rightarrow> rune \<times> gostring" where
  "surrogate r t =
     (if 0xD800 \<le> r \<and> r \<le> 0xDFFF then
        (case t of
           b # u # t1 \<Rightarrow>
             (if b = CHR 0x5C \<and> u = CHR ''u'' then
                (case hex4 t1 of
                   Some (r1, t2) \<Rightarrow>
                     (if r < 0xDC00 \<and> 0xDC00 \<le> r1 \<and> r1 \<le> 0xDFFF
                      then ((r - 0xD800) * 1024 + (r1 - 0xDC00) + 0x10000, t2) else (RuneError, t))
                 | None \<Rightarrow> (RuneError, t))
              else (RuneError, t))
         | _ \<Rightarrow> (RuneError, t))
      else (r, t))"

definition jsonEscape :: "gostring \<Rightarrow> (gostring \<times> gostring) option" where
  "jsonEscape s =
     (case s of
        [] \<Rightarrow> None
      | c # t \<Rightarrow>
          if c = CHR 0x22 \<or> c = CHR 0x5C \<or> c = CHR ''/'' then Some ([c], t)
          else if c = CHR ''b'' then Some ([chr 8], t) else if c = CHR ''f'' then Some ([chr 12], t)
          else if c = CHR ''n'' then Some ([chr 10], t) else if c = CHR ''r'' then Some ([chr 13], t)
          else if c = CHR ''t'' then Some ([chr 9], t)
          else if c = CHR ''u'' then
            (case hex4 t of None \<Rightarrow> None | Some (r, t1) \<Rightarrow> (case surrogate r t1 of (r', t2) \<Rightarrow> Some (encodeRune r', t2)))
          else None)"

text \<open>The characters up to the closing quote; the fuel is the length of what is left.\<close>

fun jsonChars :: "nat \<Rightarrow> gostring \<Rightarrow> (gostring \<times> gostring) option" where
  "jsonChars 0 s = None"
| "jsonChars (Suc n) s =
     (case s of
        [] \<Rightarrow> None
      | c # t \<Rightarrow>
          if c = CHR 0x22 then Some ([], t)
          else if c = CHR 0x5C then
            (case jsonEscape t of
               None \<Rightarrow> None
             | Some (u, t1) \<Rightarrow> map_option (apfst (\<lambda>v. u @ v)) (jsonChars n t1))
          else if byte c < 0x20 then None
          else (case decodeRune s of (r, k) \<Rightarrow> map_option (apfst (\<lambda>v. encodeRune r @ v)) (jsonChars n (drop k s))))"

definition json_ws :: "char \<Rightarrow> bool" where
  "json_ws c \<longleftrightarrow> byte c \<in> {32, 9, 10, 13}"

definition skip :: "gostring \<Rightarrow> gostring" where
  "skip s = dropWhile json_ws s"

definition jsonNull :: "gostring \<Rightarrow> gostring option" where
  "jsonNull s = (if take 4 s = ''null'' then Some (drop 4 s) else None)"

text \<open>One element: a string, or \<^verbatim>\<open>null\<close>, which leaves the zero value.\<close>

definition jsonElement :: "gostring \<Rightarrow> (gostring \<times> gostring) option" where
  "jsonElement s =
     (case s of
        [] \<Rightarrow> None
      | c # t \<Rightarrow> if c = CHR 0x22 then jsonChars (length t) t else map_option (\<lambda>t'. ([], t')) (jsonNull s))"

fun jsonRest :: "nat \<Rightarrow> gostring \<Rightarrow> (gostring list \<times> gostring) option" where
  "jsonRest 0 s = None"
| "jsonRest (Suc n) s =
     (case jsonElement (skip s) of
        None \<Rightarrow> None
      | Some (w, t) \<Rightarrow>
          (case skip t of
             [] \<Rightarrow> None
           | c # t1 \<Rightarrow>
               if c = CHR '','' then map_option (apfst (\<lambda>ws. w # ws)) (jsonRest n t1)
               else if c = CHR '']'' then Some ([w], t1) else None))"

definition jsonDecode :: "gostring \<Rightarrow> gostring list option" where
  "jsonDecode s0 =
     (let s = skip s0 in
      case (case s of
          [] \<Rightarrow> None
        | c # t \<Rightarrow>
            if c = CHR ''['' then
              (case skip t of
                 [] \<Rightarrow> None
               | c1 # t1 \<Rightarrow> if c1 = CHR '']'' then Some ([], t1) else jsonRest (length t) t)
            else map_option (\<lambda>t'. ([], t')) (jsonNull s)) of
        Some (ws, rest) \<Rightarrow> if skip rest = [] then Some ws else None
      | None \<Rightarrow> None)"

section \<open>What was written is read back\<close>

lemma hexVal_hexDigit: "0 \<le> n \<Longrightarrow> n < 16 \<Longrightarrow> hexVal (hexDigit n) = Some n"
  by (simp add: hexVal_def hexDigit_def byte_chr)

lemma hexVal_consts: "hexVal CHR ''0'' = Some 0" "hexVal CHR ''2'' = Some 2" "hexVal CHR ''f'' = Some 15" "hexVal CHR ''d'' = Some 13"
  by (simp_all add: hexVal_def byte_def)

lemma encodeRune_ascii: "0 \<le> r \<Longrightarrow> r < RuneSelf \<Longrightarrow> encodeRune r = [chr r]"
  by (simp add: encodeRune_def encodeValid_def valid_rune_def RuneSelf_def)

lemma chr_byte: "chr (byte c) = c"
  by (simp add: chr_def byte_def)

lemma chr_special: "0 \<le> r \<Longrightarrow> r < 256 \<Longrightarrow> chr r = CHR 0x22 \<longleftrightarrow> r = 0x22" "0 \<le> r \<Longrightarrow> r < 256 \<Longrightarrow> chr r = CHR 0x5C \<longleftrightarrow> r = 0x5C"
proof -
  have b: "byte CHR 0x22 = 0x22" "byte CHR 0x5C = 0x5C" by (simp_all add: byte_def)
  show "0 \<le> r \<Longrightarrow> r < 256 \<Longrightarrow> chr r = CHR 0x22 \<longleftrightarrow> r = 0x22" "0 \<le> r \<Longrightarrow> r < 256 \<Longrightarrow> chr r = CHR 0x5C \<longleftrightarrow> r = 0x5C"
    using byte_chr[of r] b by (metis byte_inj)+
qed

text \<open>One escape.\<close>

lemma jsonEscape_hex:
  assumes "0 \<le> r" "r < 0x80"
  shows "jsonEscape (CHR ''u'' # CHR ''0'' # CHR ''0'' # hexDigit (r div 16) # hexDigit (r mod 16) # t) = Some (encodeRune r, t)"
proof -
  have "hexVal (hexDigit (r div 16)) = Some (r div 16)" "hexVal (hexDigit (r mod 16)) = Some (r mod 16)"
    using assms by (simp_all add: hexVal_hexDigit)
  moreover have "r div 16 * 16 + r mod 16 = r" by simp
  ultimately show ?thesis using assms by (simp add: jsonEscape_def hex4_def hexVal_consts surrogate_def)
qed

lemma jsonEscape_error: "jsonEscape (CHR ''u'' # CHR ''f'' # CHR ''f'' # CHR ''f'' # CHR ''d'' # t) = Some (encodeRune RuneError, t)"
  by (simp add: jsonEscape_def hex4_def hexVal_consts surrogate_def RuneError_def)

lemma jsonEscape_sep:
  assumes "r = 0x2028 \<or> r = 0x2029"
  shows "jsonEscape (CHR ''u'' # CHR ''2'' # CHR ''0'' # CHR ''2'' # hexDigit (r mod 16) # t) = Some (encodeRune r, t)"
  using assms by (auto simp: jsonEscape_def hex4_def hexVal_consts hexVal_hexDigit surrogate_def)

lemma decodeRune_append:
  assumes "decodeRune (c # cs) = (r, k)" "\<not> (r = RuneError \<and> k = 1)"
  shows "decodeRune (take k (c # cs) @ t) = (r, k)"
proof -
  obtain r' k' where d: "decodeRune (take k (c # cs) @ t) = (r', k')" by fastforce
  consider "cs = []" | b where "cs = [b]" | b d where "cs = [b, d]" | b d e t' where "cs = b # d # e # t'"
    by (metis list.exhaust)
  then show ?thesis
    by cases (use assms d in \<open>auto simp: decodeRune_def split: if_splits\<close>)
qed


text \<open>Each piece is read in one step, as the rune it stands for.\<close>

lemma append_single: "(@) [x] = (#) x"
  by (rule ext) simp

lemma chr_consts: "chr 0x22 = CHR 0x22" "chr 0x5C = CHR 0x5C"
  by (simp_all add: chr_special)

lemma jsonChars_escape: "jsonEscape u = Some (v, t) \<Longrightarrow> jsonChars (Suc n) (CHR 0x5C # u) = map_option (apfst ((@) v)) (jsonChars n t)"
  by simp

lemma jsonEscape_letters:
  "jsonEscape (CHR 0x22 # t) = Some ([CHR 0x22], t)" "jsonEscape (CHR 0x5C # t) = Some ([CHR 0x5C], t)"
  "jsonEscape (CHR ''b'' # t) = Some ([chr 8], t)" "jsonEscape (CHR ''f'' # t) = Some ([chr 12], t)"
  "jsonEscape (CHR ''n'' # t) = Some ([chr 10], t)" "jsonEscape (CHR ''r'' # t) = Some ([chr 13], t)"
  "jsonEscape (CHR ''t'' # t) = Some ([chr 9], t)"
  by (simp_all add: jsonEscape_def)

lemma piece_ascii:
  assumes r: "0 \<le> r" "r < RuneSelf"
  shows "jsonChars (Suc n) (jsonPiece (r, [chr r]) @ t) = map_option (apfst (\<lambda>v. encodeRune r @ v)) (jsonChars n t)"
proof -
  note e = encodeRune_ascii[OF r]
  have r': "r < 256" "r < 0x80" using r by (simp_all add: RuneSelf_def)
  consider "r = 0x22 \<or> r = 0x5C" | "r \<in> {8, 9, 10, 12, 13}"
    | "r \<notin> {8, 9, 10, 12, 13}" "r < 0x20 \<or> r = 0x3C \<or> r = 0x3E \<or> r = 0x26"
    | "r \<notin> {0x22, 0x5C}" "0x20 \<le> r" "r \<noteq> 0x3C" "r \<noteq> 0x3E" "r \<noteq> 0x26" by fastforce
  then show ?thesis
  proof cases
    case 1
    then have "jsonPiece (r, [chr r]) = [CHR 0x5C, chr r]" "jsonEscape (chr r # t) = Some ([chr r], t)"
      using r(2) by (auto simp: jsonPiece_def chr_consts jsonEscape_letters)
    then show ?thesis using jsonChars_escape[of "chr r # t"] by (simp add: e append_single del: jsonChars.simps)
  next
    case 2
    then obtain b where "jsonPiece (r, [chr r]) = [CHR 0x5C, b]" "jsonEscape (b # t) = Some ([chr r], t)"
      using r(2) by (auto simp: jsonPiece_def jsonEscape_letters RuneSelf_def)
    then show ?thesis using jsonChars_escape[of "b # t"] by (simp add: e append_single del: jsonChars.simps)
  next
    case 3
    then have "r \<noteq> 0x22" "r \<noteq> 0x5C" by auto
    with 3 r have "jsonPiece (r, [chr r]) = [CHR 0x5C, CHR ''u'', CHR ''0'', CHR ''0'', hexDigit (r div 16), hexDigit (r mod 16)]"
      by (simp add: jsonPiece_def)
    then show ?thesis using jsonChars_escape[OF jsonEscape_hex[OF r(1) r'(2)]] by (simp del: jsonChars.simps)
  next
    case 4
    have "decodeRune (chr r # t) = (r, 1)" using r r' by (simp add: decodeRune_def byte_chr)
    with 4 r r' show ?thesis by (simp add: jsonPiece_def chr_special byte_chr append_single)
  qed
qed

lemma piece_long:
  assumes d: "decodeRune (c # cs) = (r, k)" and r: "RuneSelf \<le> r" and c: "RuneSelf \<le> byte c"
  shows "jsonChars (Suc n) (jsonPiece (r, take k (c # cs)) @ t) = map_option (apfst (\<lambda>v. encodeRune r @ v)) (jsonChars n t)"
proof -
  have k: "1 \<le> k" "k \<le> length (c # cs)" using decodeRune_width[OF d] by simp_all
  then have len: "length (take k (c # cs)) = k" by simp
  have ne: "c \<noteq> CHR 0x22" "c \<noteq> CHR 0x5C" "\<not> byte c < 0x20"
    using c by (auto simp: RuneSelf_def byte_def)
  consider "r = RuneError \<and> k = 1" | "r = 0x2028 \<or> r = 0x2029" | "\<not> (r = RuneError \<and> k = 1)" "r \<noteq> 0x2028" "r \<noteq> 0x2029" by blast
  then show ?thesis
  proof cases
    case 1
    with r len show ?thesis by (simp add: jsonPiece_def jsonEscape_error)
  next
    case 2
    then have "r \<noteq> RuneError" by (auto simp: RuneError_def)
    with 2 r show ?thesis by (simp add: jsonPiece_def jsonEscape_sep)
  next
    case 3
    obtain b where s: "take k (c # cs) @ t = c # b" using k(1) by (cases k) auto
    have p: "jsonPiece (r, take k (c # cs)) = take k (c # cs)" using 3 r len by (simp add: jsonPiece_def)
    from decodeRune_append[OF d 3(1), of t] have "decodeRune (c # b) = (r, k)" by (simp add: s)
    moreover have "drop k (c # b) = t" using s len by (metis append_eq_conv_conj)
    ultimately show ?thesis using ne by (simp add: p s)
  qed
qed

lemma jsonChars_body: "length (jsonBody s @ CHR 0x22 # t) \<le> n \<Longrightarrow> jsonChars n (jsonBody s @ CHR 0x22 # t) = Some (string_of (runes s), t)"
proof (induction s arbitrary: n rule: runes_induct)
  case Nil
  then show ?case by (cases n) (simp_all add: jsonBody_def pieces_def string_of_def)
next
  case (Rune c cs r k)
  let ?s = "c # cs"
  let ?p = "jsonPiece (r, take k ?s)"
  have body: "jsonBody ?s = ?p @ jsonBody (drop k ?s)" by (simp add: jsonBody_def pieces_Cons[OF Rune(1)])
  have step: "jsonChars (Suc m) (?p @ u) = map_option (apfst (\<lambda>v. encodeRune r @ v)) (jsonChars m u)" for m u
  proof -
    from decodeRune_cases[OF Rune(1)] consider "byte c < RuneSelf" "r = byte c" "k = 1" | "RuneSelf \<le> r" "RuneSelf \<le> byte c"
      using Rune(2) by (cases k) auto
    then show ?thesis
    proof cases
      case 1
      with piece_ascii[of r m u] show ?thesis by (simp add: chr_byte)
    next
      case 2
      then show ?thesis by (intro piece_long[OF Rune(1)])
    qed
  qed
  have "take k ?s \<noteq> []" using Rune(2) by (cases k) auto
  then have "1 \<le> length ?p" using Rune(2) by (simp add: jsonPiece_def)
  then obtain m where m: "n = Suc m" "length (jsonBody (drop k ?s) @ CHR 0x22 # t) \<le> m"
    using Rune.prems by (cases n) (simp_all add: body)
  from Rune(4)[OF m(2)] show ?case
    by (simp add: body m(1) step runes_Cons[OF Rune(1)] string_of_def del: jsonChars.simps)
qed

lemma jsonElement_string: "jsonElement (jsonString w @ t) = Some (string_of (runes w), t)"
  using jsonChars_body[of w t] by (simp add: jsonElement_def jsonString_def del: jsonChars.simps)

lemma json_ws_consts: "\<not> json_ws CHR 0x22" "\<not> json_ws CHR ''[''" "\<not> json_ws CHR '',''" "\<not> json_ws CHR '']''"
  by (simp_all add: json_ws_def byte_def)

lemma jsonRest_elements:
  "ws \<noteq> [] \<Longrightarrow> length (jsonElements ws @ CHR '']'' # t) \<le> n \<Longrightarrow>
    jsonRest n (jsonElements ws @ CHR '']'' # t) = Some (map (\<lambda>w. string_of (runes w)) ws, t)"
proof (induction ws arbitrary: n rule: jsonElements.induct)
  case (2 w)
  then show ?case
    using jsonElement_string[of w "CHR '']'' # t"]
    by (cases n) (simp_all add: skip_def jsonString_def json_ws_consts)
next
  case (3 w v vs)
  let ?r = "jsonElements (v # vs) @ CHR '']'' # t"
  from 3 have IH: "length ?r \<le> m \<Longrightarrow> jsonRest m ?r = Some (map (\<lambda>w. string_of (runes w)) (v # vs), t)" for m by simp
  obtain m where m: "n = Suc m" "length ?r \<le> m" using 3 by (cases n) auto
  have "skip (jsonElements (w # v # vs) @ CHR '']'' # t) = jsonString w @ CHR '','' # ?r"
    by (simp add: skip_def jsonString_def json_ws_consts)
  with IH[OF m(2)] jsonElement_string[of w "CHR '','' # ?r"] show ?case
    by (simp add: m(1) skip_def json_ws_consts del: jsonElements.simps)
qed simp

theorem jsonDecode_jsonStrings: "jsonDecode (jsonStrings ws) = Some (map (\<lambda>w. string_of (runes w)) ws)"
proof (cases ws)
  case Nil
  then show ?thesis by (simp add: jsonDecode_def jsonStrings_def skip_def json_ws_consts)
next
  case (Cons w vs)
  obtain u where u: "jsonElements ws = CHR 0x22 # u" using Cons by (cases vs) (simp_all add: jsonString_def)
  from jsonRest_elements[of ws "[]" "length (jsonElements ws @ [CHR '']''])"] Cons
  have r: "jsonRest (length (jsonElements ws @ [CHR '']''])) (jsonElements ws @ [CHR '']'']) = Some (map (\<lambda>w. string_of (runes w)) ws, [])"
    by simp
  then show ?thesis by (simp add: jsonDecode_def jsonStrings_def skip_def json_ws_consts u del: jsonRest.simps)
qed

section \<open>Valid strings\<close>

text \<open>\<^verbatim>\<open>utf8.ValidString\<close>: no byte decodes as an error.\<close>

definition validString :: "gostring \<Rightarrow> bool" where
  "validString s \<longleftrightarrow> (\<forall>p \<in> set (pieces s). \<not> (fst p = RuneError \<and> length (snd p) = 1))"


lemma enc_div: "0 \<le> b \<Longrightarrow> b < 64 \<Longrightarrow> (a * 64 + b) div 64 = (a :: int)" "0 \<le> b \<Longrightarrow> b < 64 \<Longrightarrow> (a * 64 + b) mod 64 = b"
  by simp_all

lemma encode2:
  assumes "0xC2 \<le> a" "a \<le> 0xDF" "cont_byte b"
  shows "encodeRune ((a - 0xC0) * 64 + (b - 0x80)) = [chr a, chr b]"
proof -
  have b: "0 \<le> b - 0x80" "b - 0x80 < 64" using assms(3) by (simp_all add: cont_byte_def)
  note e = enc_div[OF b, of "a - 0xC0"]
  have "0x80 \<le> (a - 0xC0) * 64 + (b - 0x80)" "(a - 0xC0) * 64 + (b - 0x80) < 0x800" using assms(1,2) b by auto
  with e show ?thesis by (simp add: encodeRune_def encodeValid_def valid_rune_def)
qed

lemma encode3:
  assumes "0xE0 \<le> a" "a \<le> 0xEF" "second3 a b" "cont_byte c"
  shows "encodeRune ((a - 0xE0) * 4096 + (b - 0x80) * 64 + (c - 0x80)) = [chr a, chr b, chr c]" (is "encodeRune ?r = _")
proof -
  have b: "0 \<le> b - 0x80" "b - 0x80 < 64" using assms(3) by (auto simp: second3_def split: if_splits)
  have c: "0 \<le> c - 0x80" "c - 0x80 < 64" using assms(4) by (simp_all add: cont_byte_def)
  let ?q = "(a - 0xE0) * 64 + (b - 0x80)"
  have r: "?r = ?q * 64 + (c - 0x80)" by simp
  have d: "?r div 64 = ?q" "?r mod 64 = c - 0x80" unfolding r by (rule enc_div[OF c])+
  have e: "?r div 4096 = a - 0xE0" "?r div 64 mod 64 = b - 0x80"
    unfolding split64(2)[of ?r] d(1) by (rule enc_div[OF b])+
  have lo: "0x800 \<le> ?r" "?r < 0x10000" "?r < 0xD800 \<or> 0xDFFF < ?r" 
    using assms(1,2,3) b c by (auto simp: second3_def split: if_splits)
  have "valid_rune ?r" using lo by (simp add: valid_rune_def) linarith
  then have "encodeRune ?r = encodeValid ?r" by (simp add: encodeRune_def)
  also have "\<dots> = [chr (0xE0 + ?r div 4096), chr (0x80 + ?r div 64 mod 64), chr (0x80 + ?r mod 64)]"
    unfolding encodeValid_def using lo(1,2) by (simp only: if_False if_True not_less[symmetric]) auto
  also have "\<dots> = [chr a, chr b, chr c]" unfolding e d(2) by simp
  finally show ?thesis .
qed

lemma encode4:
  assumes "0xF0 \<le> a" "a \<le> 0xF4" "second4 a b" "cont_byte c" "cont_byte d"
  shows "encodeRune ((a - 0xF0) * 262144 + (b - 0x80) * 4096 + (c - 0x80) * 64 + (d - 0x80)) = [chr a, chr b, chr c, chr d]"
    (is "encodeRune ?r = _")
proof -
  have b: "0 \<le> b - 0x80" "b - 0x80 < 64" using assms(3) by (auto simp: second4_def split: if_splits)
  have c: "0 \<le> c - 0x80" "c - 0x80 < 64" using assms(4) by (simp_all add: cont_byte_def)
  have d: "0 \<le> d - 0x80" "d - 0x80 < 64" using assms(5) by (simp_all add: cont_byte_def)
  let ?p = "(a - 0xF0) * 64 + (b - 0x80)"
  let ?q = "?p * 64 + (c - 0x80)"
  have r: "?r = ?q * 64 + (d - 0x80)" by simp
  have e1: "?r div 64 = ?q" "?r mod 64 = d - 0x80" unfolding r by (rule enc_div[OF d])+
  have e2: "?r div 4096 = ?p" "?r div 64 mod 64 = c - 0x80" unfolding split64(2)[of ?r] e1 by (rule enc_div[OF c])+
  have e3: "?r div 262144 = a - 0xF0" "?r div 4096 mod 64 = b - 0x80" unfolding split64(3)[of ?r] e2 by (rule enc_div[OF b])+
  have lo: "0x10000 \<le> ?r" "?r \<le> 0x10FFFF" using assms(1,2,3) b c d by (auto simp: second4_def split: if_splits)
  then have "valid_rune ?r" by (simp add: valid_rune_def)
  then have "encodeRune ?r = encodeValid ?r" by (simp add: encodeRune_def)
  also have "\<dots> = [chr (0xF0 + ?r div 262144), chr (0x80 + ?r div 4096 mod 64), chr (0x80 + ?r div 64 mod 64), chr (0x80 + ?r mod 64)]"
    unfolding encodeValid_def using lo(1) by auto
  also have "\<dots> = [chr a, chr b, chr c, chr d]" unfolding e1(2) e2(2) e3 by simp
  finally show ?thesis .
qed

lemma encode_decode:
  assumes d: "decodeRune (c # cs) = (r, k)" and ok: "\<not> (r = RuneError \<and> k = 1)"
  shows "encodeRune r = take k (c # cs)"
proof (cases "byte c < RuneSelf")
  case True
  with d have "r = byte c" "k = 1" by (simp_all add: decodeRune_def)
  with True show ?thesis by (simp add: encodeRune_ascii chr_byte)
next
  case False
  from False d ok show ?thesis
    by (auto simp: decodeRune_def chr_byte dest: encode2 encode3 encode4 split: if_splits list.splits)
qed

lemma validString_runes: "validString s \<Longrightarrow> string_of (runes s) = s"
proof (induction s rule: runes_induct)
  case (Rune c cs r k)
  from Rune.prems Rune(2,3) have v: "\<not> (r = RuneError \<and> k = 1)" "validString (drop k (c # cs))"
    by (auto simp: validString_def pieces_Cons[OF Rune(1)] min_def split: if_splits)
  from Rune(4)[OF v(2)] encode_decode[OF Rune(1) v(1)] show ?case
    by (simp add: runes_Cons[OF Rune(1)] string_of_def)
qed (simp add: string_of_def)

end
