(* ===== verification/V3_Dict.thy ===== *)
theory V3_Dict
  imports Json_Strings Decimal Presets Acor_Errors "HOL-Library.Word" "HOL-Library.List_Lexorder" "HOL-Library.Char_ord"
begin

text \<open>
  The data of the versioned collection: options and layouts of \<^verbatim>\<open>versioned.go\<close> and
  \<^verbatim>\<open>versioned_shards.go\<close>, normalising, editing and splitting a dictionary
  (\<^verbatim>\<open>versioned_write.go\<close>, \<^verbatim>\<open>versioned_snapshot.go\<close>).

  A dictionary is kept in 4096 buckets by a prefix of each keyword's hash; a bucket
  is a sorted list of keywords, stored as JSON chunks under the hash of their bytes.
  The hash (hexadecimal SHA-256) is the argument \<open>H\<close>; only its length is used.
\<close>

unbundle bit_operations_syntax

definition v3BucketCount :: nat where "v3BucketCount = 4096"
definition v3IDLength :: nat where "v3IDLength = 32"
definition v3HashLength :: nat where "v3HashLength = 64"
definition v3ChunkBytes :: nat where "v3ChunkBytes = 2 ^ 20"

section \<open>Options and layouts\<close>

text \<open>Durations are in nanoseconds.\<close>

record VersionedOptions =
  vo_Name :: gostring
  vo_CaseSensitive :: bool
  vo_Preset :: Preset
  vo_ShardCount :: "16 word"
  vo_ShardConcurrency :: int
  vo_PollInterval :: int
  vo_RefreshDebounce :: int
  vo_LeaseDuration :: int
  vo_LeaseRefresh :: int

record v3Layout =
  lay_Version :: "16 word"
  lay_ShardCount :: "16 word"

definition v3LegacyLayoutVersion :: "16 word" where "v3LegacyLayoutVersion = 1"
definition v3ShardedLayoutVersion :: "16 word" where "v3ShardedLayoutVersion = 2"
definition v3MaxShardCount :: "16 word" where "v3MaxShardCount = 256"

definition v3ValidShardCount :: "16 word \<Rightarrow> bool" where
  "v3ValidShardCount n \<longleftrightarrow> 1 \<le> n \<and> n \<le> v3MaxShardCount \<and> (n AND (n - 1)) = 0"

definition v3NormalizeShardOptions :: "VersionedOptions \<Rightarrow> VersionedOptions result" where
  "v3NormalizeShardOptions o0 =
     (let p = (if vo_ShardCount o0 = 0 then o0\<lparr>vo_ShardCount := 1\<rparr> else o0) in
      if \<not> v3ValidShardCount (vo_ShardCount p)
      then Inl (ErrText ''acor: shard count must be a power of two between 1 and 256'')
      else if vo_ShardConcurrency p < 0 then Inl (ErrText ''acor: invalid shard concurrency'')
      else Inr p)"

definition v3PollDefault :: int where "v3PollDefault = 30 * 10 ^ 9"
definition v3LeaseDefault :: int where "v3LeaseDefault = 5 * 60 * 10 ^ 9"
definition v3RefreshDefault :: int where "v3RefreshDefault = 60 * 10 ^ 9"
definition v3DebounceDefault :: int where "v3DebounceDefault = 20 * 10 ^ 6"

definition v3Defaults :: "VersionedOptions \<Rightarrow> VersionedOptions" where
  "v3Defaults p = p
     \<lparr>vo_PollInterval := (if vo_PollInterval p = 0 then v3PollDefault else vo_PollInterval p),
      vo_LeaseDuration := (if vo_LeaseDuration p = 0 then v3LeaseDefault else vo_LeaseDuration p),
      vo_LeaseRefresh := (if vo_LeaseRefresh p = 0 then v3RefreshDefault else vo_LeaseRefresh p),
      vo_RefreshDebounce := (if vo_RefreshDebounce p = 0 then v3DebounceDefault else vo_RefreshDebounce p)\<rparr>"

text \<open>The argument is \<^verbatim>\<open>None\<close> for a nil pointer; the preset is one the package defines.\<close>

definition versionedOptions :: "VersionedOptions option \<Rightarrow> VersionedOptions result" where
  "versionedOptions opts =
     (case opts of
        None \<Rightarrow> Inl (ErrText ''acor: VersionedOptions required'')
      | Some o0 \<Rightarrow>
          bindR (v3NormalizeShardOptions o0) (\<lambda>o1.
            if trimSpace (vo_Name o1) = [] then Inl (ErrText ''acor: collection name required'')
            else
              (let p = v3Defaults o1 in
               if vo_RefreshDebounce p < 0 then Inl (ErrText ''acor: invalid refresh debounce'')
               else if vo_PollInterval p < 0 \<or> vo_LeaseRefresh p \<le> 0 \<or> vo_LeaseDuration p \<le> vo_LeaseRefresh p
               then Inl (ErrText ''acor: invalid refresh intervals'')
               else
                 (let q = (if vo_Preset p = PresetNone then p\<lparr>vo_Preset := PresetMemoryEfficient\<rparr> else p) in
                  if vo_Preset q = PresetDefault then Inl (ErrText ''acor: invalid preset'') else Inr q))))"

definition shardConcurrency :: "int \<Rightarrow> int \<Rightarrow> int \<Rightarrow> int" where
  "shardConcurrency configured gomaxprocs n =
     (if configured \<noteq> 0 then configured else max 1 (min gomaxprocs n))"

definition layout_validate :: "v3Layout \<Rightarrow> unit result" where
  "layout_validate l =
     (if \<not> v3ValidShardCount (lay_ShardCount l) then Inl ErrVersionedCorrupt
      else if lay_Version l = v3LegacyLayoutVersion \<and> lay_ShardCount l = 1 then Inr ()
      else if lay_Version l = v3ShardedLayoutVersion \<and> lay_ShardCount l > 1 then Inr ()
      else Inl ErrVersionedCorrupt)"

text \<open>A field of the hash that is absent is \<open>None\<close>; \<^verbatim>\<open>strconv.ParseUint(s, 10, 16)\<close>.\<close>

definition parseUint16 :: "gostring \<Rightarrow> 16 word option" where
  "parseUint16 s = (case parse_digits s of None \<Rightarrow> None | Some n \<Rightarrow> if n < 2 ^ 16 then Some (word_of_nat n) else None)"

definition fieldText :: "gostring option \<Rightarrow> gostring" where
  "fieldText f = (case f of None \<Rightarrow> ''<nil>'' | Some s \<Rightarrow> s)"

definition v3StoredLayout :: "gostring option \<Rightarrow> gostring option \<Rightarrow> v3Layout result" where
  "v3StoredLayout version n =
     (if version = None \<and> n = None then Inr \<lparr>lay_Version = v3LegacyLayoutVersion, lay_ShardCount = 1\<rparr>
      else
        (case parseUint16 (fieldText version) of
           None \<Rightarrow> Inl ErrVersionedCorrupt
         | Some ver \<Rightarrow>
             (case parseUint16 (fieldText n) of
                None \<Rightarrow> Inl ErrVersionedCorrupt
              | Some k \<Rightarrow>
                  (let layout = \<lparr>lay_Version = ver, lay_ShardCount = k\<rparr> in
                   bindR (layout_validate layout) (\<lambda>_. Inr layout)))))"

section \<open>Words\<close>

text \<open>Sorting is by bytes: the order of \<open>gostring\<close> is lexicographic.\<close>

fun normalizeLoop :: "unicode \<Rightarrow> bool \<Rightarrow> gostring list \<Rightarrow> gostring list \<Rightarrow> gostring list result" where
  "normalizeLoop u sensitive [] out = Inr out"
| "normalizeLoop u sensitive (w # words) out =
     (if \<not> validString w then Inl (ErrText ''acor: keyword is not valid UTF-8'')
      else
        (let t = trimSpace w; v = (if \<not> sensitive then toLower u t else t) in
         if v = [] then Inl ErrEmptyKeyword else normalizeLoop u sensitive words (out @ [v])))"

definition v3Normalize :: "unicode \<Rightarrow> gostring list \<Rightarrow> bool \<Rightarrow> gostring list result" where
  "v3Normalize u words sensitive = bindR (normalizeLoop u sensitive words []) (\<lambda>out. Inr (remdups_adj (sort out)))"

text \<open>The hash's first three digits; \<^verbatim>\<open>strconv.ParseUint\<close> returns 0 where it fails.\<close>

definition v3BucketNumber :: "(gostring \<Rightarrow> gostring) \<Rightarrow> gostring \<Rightarrow> nat" where
  "v3BucketNumber H w =
     (case take 3 (H w) of
        [a, b, c] \<Rightarrow>
          (case (hexVal a, hexVal b, hexVal c) of
             (Some x, Some y, Some z) \<Rightarrow> nat (x * 256 + y * 16 + z)
           | _ \<Rightarrow> 0)
      | _ \<Rightarrow> 0)"

definition v3ShardFor :: "(gostring \<Rightarrow> gostring) \<Rightarrow> gostring \<Rightarrow> 16 word \<Rightarrow> 16 word" where
  "v3ShardFor H word shardCount =
     (if shardCount \<le> 1 then 0 else word_of_nat (v3BucketNumber H word) mod shardCount)"

section \<open>Editing a bucket\<close>

fun replaceLoop :: "gostring list \<Rightarrow> gostring set \<Rightarrow> int \<Rightarrow> int \<times> gostring set" where
  "replaceLoop [] S added = (added, S)"
| "replaceLoop (w # input) S added =
     (if w \<notin> S then replaceLoop input S (added + 1) else replaceLoop input (S - {w}) added)"

fun editLoop :: "gostring \<Rightarrow> gostring list \<Rightarrow> gostring set \<Rightarrow> int \<Rightarrow> int \<Rightarrow> gostring set \<times> int \<times> int" where
  "editLoop mode [] S added removed = (S, added, removed)"
| "editLoop mode (w # input) S added removed =
     (let ok = w \<in> S;
          (S1, added1) = (if mode = ''add'' \<and> \<not> ok then (insert w S, added + 1) else (S, added));
          (S2, removed1) = (if mode = ''remove'' \<and> ok then (S1 - {w}, removed + 1) else (S1, removed))
      in editLoop mode input S2 added1 removed1)"

text \<open>Ranging over the set and sorting gives the same list in any order.\<close>

definition v3Apply :: "gostring list \<Rightarrow> gostring list \<Rightarrow> gostring \<Rightarrow> gostring list \<times> int \<times> int" where
  "v3Apply before input mode =
     (if mode = ''replace'' then
        (case replaceLoop input (set before) 0 of (added, S) \<Rightarrow> (input, added, int (card S)))
      else
        (case editLoop mode input (set before) 0 0 of
           (S, added, removed) \<Rightarrow> (sorted_list_of_set S, added, removed)))"

section \<open>Buckets and chunks\<close>

record v3Bucket =
  bk_Chunks :: "gostring list"
  bk_Count :: int
  bk_Checksum :: gostring
  bk_shard :: nat
  bk_sharded :: bool

definition zeroBucket :: v3Bucket where
  "zeroBucket = \<lparr>bk_Chunks = [], bk_Count = 0, bk_Checksum = [], bk_shard = 0, bk_sharded = False\<rparr>"

record v3Chunker =
  ck_start :: nat
  ck_size :: nat
  ck_parts :: "(gostring \<times> gostring) list"

text \<open>\<^verbatim>\<open>flush(end)\<close>: a chunk with the words from \<open>start\<close> up to the end, by the hash of its bytes.\<close>

definition chunk_flush :: "(gostring \<Rightarrow> gostring) \<Rightarrow> gostring list \<Rightarrow> nat \<Rightarrow> v3Chunker \<Rightarrow> v3Chunker" where
  "chunk_flush H words to c =
     (let part = jsonStrings (drop (ck_start c) (take to words))
      in \<lparr>ck_start = to, ck_size = 2, ck_parts = ck_parts c @ [(H part, part)]\<rparr>)"

definition chunk_step :: "(gostring \<Rightarrow> gostring) \<Rightarrow> gostring list \<Rightarrow> nat \<Rightarrow> v3Chunker \<Rightarrow> v3Chunker" where
  "chunk_step H words i c =
     (let encoded = length (jsonString (words ! i));
          n = (if i > ck_start c then encoded + 1 else encoded);
          (c1, n1) =
            (if ck_size c + n > v3ChunkBytes \<and> i > ck_start c then (chunk_flush H words i c, encoded) else (c, n))
      in c1\<lparr>ck_size := ck_size c1 + n1\<rparr>)"

text \<open>The bucket's description and its chunks, each with its hash.\<close>

definition v3Chunks :: "(gostring \<Rightarrow> gostring) \<Rightarrow> gostring list \<Rightarrow> v3Bucket \<times> (gostring \<times> gostring) list" where
  "v3Chunks H words =
     (if words = [] then (zeroBucket, [])
      else
        (let c = chunk_flush H words (length words)
               (fold (chunk_step H words) [0..<length words] \<lparr>ck_start = 0, ck_size = 2, ck_parts = []\<rparr>)
         in (zeroBucket\<lparr>bk_Chunks := map fst (ck_parts c), bk_Count := int (length words), bk_Checksum := H (jsonStrings words)\<rparr>,
             ck_parts c)))"

text \<open>Reading the chunks of a bucket that have been fetched.\<close>

definition decodeChunk :: "(gostring \<Rightarrow> gostring) \<Rightarrow> gostring \<Rightarrow> gostring \<Rightarrow> gostring list result" where
  "decodeChunk H h data =
     (if H data \<noteq> h then Inl ErrVersionedCorrupt
      else (case jsonDecode data of None \<Rightarrow> Inl ErrVersionedCorrupt | Some part \<Rightarrow> Inr part))"

definition checkBucket :: "(gostring \<Rightarrow> gostring) \<Rightarrow> v3Bucket \<Rightarrow> gostring list \<Rightarrow> gostring list result" where
  "checkBucket H b words =
     (if int (length words) \<noteq> bk_Count b \<or> H (jsonStrings words) \<noteq> bk_Checksum b \<or> \<not> sorted words
      then Inl ErrVersionedCorrupt else Inr words)"

fun decodeChunks :: "(gostring \<Rightarrow> gostring) \<Rightarrow> (gostring \<times> gostring) list \<Rightarrow> gostring list \<Rightarrow> gostring list result" where
  "decodeChunks H [] words = Inr words"
| "decodeChunks H ((h, data) # parts) words =
     bindR (decodeChunk H h data) (\<lambda>part. decodeChunks H parts (words @ part))"


section \<open>Normalised words\<close>

definition normalWord :: "unicode \<Rightarrow> bool \<Rightarrow> gostring \<Rightarrow> gostring" where
  "normalWord u sensitive w = (if sensitive then trimSpace w else toLower u (trimSpace w))"

lemma normalizeLoop_Inr:
  "normalizeLoop u sensitive words out = Inr ws \<longleftrightarrow>
     (\<forall>w \<in> set words. validString w \<and> normalWord u sensitive w \<noteq> []) \<and> ws = out @ map (normalWord u sensitive) words"
  by (induction words arbitrary: out) (auto simp: Let_def normalWord_def)

lemma distinct_remdups_adj_sort: "distinct (remdups_adj (sort xs))"
proof -
  have "sorted ys \<Longrightarrow> distinct (remdups_adj ys)" for ys :: "'a list"
    by (induction ys rule: remdups_adj.induct) auto
  then show ?thesis by simp
qed

lemma v3Normalize_Inr:
  assumes "v3Normalize u words sensitive = Inr ws"
  shows "set ws = normalWord u sensitive ` set words" "sorted ws" "distinct ws"
proof -
  from assms have ws: "ws = remdups_adj (sort (map (normalWord u sensitive) words))"
    by (auto simp: v3Normalize_def bindR_Inr normalizeLoop_Inr)
  then show "set ws = normalWord u sensitive ` set words" "sorted ws" "distinct ws"
    by (simp_all add: sorted_remdups_adj distinct_remdups_adj_sort)
qed

section \<open>Editing is set arithmetic\<close>

lemma replaceLoop_correct:
  "distinct input \<Longrightarrow> finite S \<Longrightarrow> replaceLoop input S added = (added + int (card (set input - S)), S - set input)"
proof (induction input arbitrary: S added)
  case (Cons w input)
  show ?case
  proof (cases "w \<in> S")
    case True
    then have "set (w # input) - S = set input - (S - {w})" "S - set (w # input) = S - {w} - set input"
      using Cons.prems by auto
    with True Cons show ?thesis by simp
  next
    case False
    then have "set (w # input) - S = insert w (set input - S)" "w \<notin> set input - S" "S - set (w # input) = S - set input"
      using Cons.prems by auto
    with False Cons show ?thesis by simp
  qed
qed simp

lemma editLoop_add:
  "distinct input \<Longrightarrow> finite S \<Longrightarrow> editLoop ''add'' input S added removed = (S \<union> set input, added + int (card (set input - S)), removed)"
proof (induction input arbitrary: S added)
  case (Cons w input)
  show ?case
  proof (cases "w \<in> S")
    case True
    then have "S \<union> set (w # input) = S \<union> set input" "set (w # input) - S = set input - S" by auto
    with True Cons show ?thesis by (simp add: insert_absorb)
  next
    case False
    then have "set (w # input) - S = insert w (set input - insert w S)" "w \<notin> set input - insert w S"
      using Cons.prems by auto
    with False Cons show ?thesis by simp
  qed
qed simp

lemma editLoop_remove:
  "distinct input \<Longrightarrow> finite S \<Longrightarrow> editLoop ''remove'' input S added removed = (S - set input, added, removed + int (card (set input \<inter> S)))"
proof (induction input arbitrary: S removed)
  case (Cons w input)
  show ?case
  proof (cases "w \<in> S")
    case True
    then have "set (w # input) \<inter> S = insert w (set input \<inter> (S - {w}))" "w \<notin> set input \<inter> (S - {w})" "S - set (w # input) = S - {w} - set input"
      using Cons.prems by auto
    with True Cons show ?thesis by simp
  next
    case False
    then have "set (w # input) \<inter> S = set input \<inter> S" "S - set (w # input) = S - set input" by auto
    with False Cons show ?thesis by simp
  qed
qed simp

text \<open>What each mode makes of a bucket.\<close>

definition editSpec :: "gostring \<Rightarrow> gostring set \<Rightarrow> gostring set \<Rightarrow> gostring set" where
  "editSpec mode D K = (if mode = ''replace'' then K else if mode = ''add'' then D \<union> K else D - K)"

lemma v3Apply_correct:
  assumes "sorted input" "distinct input" "mode \<in> {''replace'', ''add'', ''remove''}"
  shows "v3Apply before input mode =
    (sorted_list_of_set (editSpec mode (set before) (set input)),
     int (card (editSpec mode (set before) (set input) - set before)),
     int (card (set before - editSpec mode (set before) (set input))))"
proof -
  have s: "sorted_list_of_set (set input) = input" using assms by (simp add: sorted_list_of_set.idem_if_sorted_distinct)
  have e: "(set before \<union> set input) - set before = set input - set before" "set before - (set before - set input) = set input \<inter> set before" by auto
  from assms(3) show ?thesis
    by (auto simp: v3Apply_def editSpec_def replaceLoop_correct[OF assms(2)] editLoop_add[OF assms(2)] editLoop_remove[OF assms(2)] s e
        Un_Diff)
qed

section \<open>Chunks partition the words and stay within the limit\<close>

lemma jsonElements_snoc: "xs \<noteq> [] \<Longrightarrow> jsonElements (xs @ [w]) = jsonElements xs @ CHR '','' # jsonString w"
  by (induction xs rule: jsonElements.induct) auto

lemma length_jsonStrings_snoc:
  "length (jsonStrings (xs @ [w])) = length (jsonStrings xs) + length (jsonString w) + (if xs = [] then 0 else 1)"
  by (simp add: jsonStrings_def jsonElements_snoc)

definition chunk_ok :: "gostring list \<Rightarrow> bool" where
  "chunk_ok seg \<longleftrightarrow> seg \<noteq> [] \<and> (length (jsonStrings seg) \<le> v3ChunkBytes \<or> length seg = 1)"

definition chunk_of :: "(gostring \<Rightarrow> gostring) \<Rightarrow> gostring list \<Rightarrow> gostring \<times> gostring" where
  "chunk_of H seg = (H (jsonStrings seg), jsonStrings seg)"

definition chunker_inv :: "(gostring \<Rightarrow> gostring) \<Rightarrow> gostring list \<Rightarrow> nat \<Rightarrow> v3Chunker \<Rightarrow> bool" where
  "chunker_inv H words i c \<longleftrightarrow> ck_start c \<le> i \<and> (0 < i \<longrightarrow> ck_start c < i) \<and>
     ck_size c = length (jsonStrings (drop (ck_start c) (take i words))) \<and>
     (0 < i \<longrightarrow> chunk_ok (drop (ck_start c) (take i words))) \<and>
     (\<exists>segs. ck_parts c = map (chunk_of H) segs \<and> concat segs = take (ck_start c) words \<and> (\<forall>seg \<in> set segs. chunk_ok seg))"

lemma chunk_step_inv:
  assumes I: "chunker_inv H words i c" and i: "i < length words"
  shows "chunker_inv H words (Suc i) (chunk_step H words i c)"
proof -
  let ?w = "words ! i" and ?cur = "drop (ck_start c) (take i words)"
  have t: "take (Suc i) words = take i words @ [?w]" using i by (simp add: take_Suc_conv_app_nth)
  from I obtain segs where segs: "ck_parts c = map (chunk_of H) segs" "concat segs = take (ck_start c) words"
    "\<forall>seg \<in> set segs. chunk_ok seg" and st: "ck_start c \<le> i" "0 < i \<longrightarrow> ck_start c < i" "0 < i \<longrightarrow> chunk_ok ?cur"
    and sz: "ck_size c = length (jsonStrings ?cur)" by (auto simp: chunker_inv_def)
  let ?n = "if i > ck_start c then length (jsonString ?w) + 1 else length (jsonString ?w)"
  have one: "length (jsonStrings [?w]) = 2 + length (jsonString ?w)" by (simp add: jsonStrings_def)
  show ?thesis
  proof (cases "ck_size c + ?n > v3ChunkBytes \<and> i > ck_start c")
    case True
    then have "ck_start c < i" "ck_size c + (length (jsonString ?w) + 1) > v3ChunkBytes" by (auto split: if_splits)
    then have c: "chunk_step H words i c =
      \<lparr>ck_start = i, ck_size = 2 + length (jsonString ?w), ck_parts = ck_parts c @ [chunk_of H ?cur]\<rparr>"
      by (simp add: chunk_step_def chunk_flush_def chunk_of_def Let_def)
    have "concat (segs @ [?cur]) = take i words"
      using segs(2) st(1) by simp (metis append_take_drop_id min.absorb1 take_take)
    moreover have "map (chunk_of H) (segs @ [?cur]) = ck_parts c @ [chunk_of H ?cur]" using segs(1) by simp
    moreover have "\<forall>seg \<in> set (segs @ [?cur]). chunk_ok seg" using segs(3) st(3) True by auto
    moreover have "drop i (take (Suc i) words) = [?w]" using t i by simp
    moreover have "chunk_ok [?w]" by (simp add: chunk_ok_def)
    ultimately show ?thesis
      unfolding c chunker_inv_def v3Chunker.simps using one by (metis lessI less_imp_le_nat)
  next
    case False
    then have c: "chunk_step H words i c = c\<lparr>ck_size := ck_size c + ?n\<rparr>"
      by (auto simp: chunk_step_def Let_def)
    have cur: "drop (ck_start c) (take (Suc i) words) = ?cur @ [?w]" using t st(1) i by simp
    have e: "?cur = [] \<longleftrightarrow> \<not> i > ck_start c" using st(1) i by auto
    have size: "length (jsonStrings (?cur @ [?w])) = ck_size c + ?n"
      unfolding length_jsonStrings_snoc sz using e by simp
    have "chunk_ok (?cur @ [?w])"
      unfolding chunk_ok_def size using False e by auto
    with segs st cur size show ?thesis by (auto simp: c chunker_inv_def)
  qed
qed

lemma v3Chunks_segments:
  assumes "words \<noteq> []"
  obtains segs where "snd (v3Chunks H words) = map (chunk_of H) segs" "concat segs = words" "\<forall>seg \<in> set segs. chunk_ok seg"
    "fst (v3Chunks H words) = zeroBucket\<lparr>bk_Chunks := map fst (map (chunk_of H) segs), bk_Count := int (length words), bk_Checksum := H (jsonStrings words)\<rparr>"
proof -
  let ?c0 = "\<lparr>ck_start = 0, ck_size = 2, ck_parts = []\<rparr>"
  have "chunker_inv H words n (fold (chunk_step H words) [0..<n] ?c0)" if "n \<le> length words" for n
    using that
  proof (induction n)
    case 0
    then show ?case by (simp add: chunker_inv_def jsonStrings_def)
  next
    case (Suc n)
    with chunk_step_inv[of H words n] show ?case by simp
  qed
  from this[of "length words"] obtain c segs where c: "c = fold (chunk_step H words) [0..<length words] ?c0"
    and segs: "ck_parts c = map (chunk_of H) segs" "concat segs = take (ck_start c) words" "\<forall>seg \<in> set segs. chunk_ok seg"
    "chunk_ok (drop (ck_start c) words)" "ck_start c \<le> length words"
    using assms by (auto simp: chunker_inv_def)
  have "snd (v3Chunks H words) = map (chunk_of H) (segs @ [drop (ck_start c) words])"
    using segs(1) assms by (simp add: v3Chunks_def c[symmetric] chunk_flush_def chunk_of_def Let_def)
  moreover have "fst (v3Chunks H words) = zeroBucket\<lparr>bk_Chunks := map fst (map (chunk_of H) (segs @ [drop (ck_start c) words])),
      bk_Count := int (length words), bk_Checksum := H (jsonStrings words)\<rparr>"
    using segs(1) assms by (simp add: v3Chunks_def c[symmetric] chunk_flush_def chunk_of_def Let_def)
  moreover have "concat (segs @ [drop (ck_start c) words]) = words" using segs(2) by simp
  moreover have "\<forall>seg \<in> set (segs @ [drop (ck_start c) words]). chunk_ok seg" using segs(3,4) by simp
  ultimately show ?thesis by (intro that)
qed

lemma decodeChunks_segments:
  "\<forall>seg \<in> set segs. \<forall>w \<in> set seg. validString w \<Longrightarrow> decodeChunks H (map (chunk_of H) segs) acc = Inr (acc @ concat segs)"
proof (induction segs arbitrary: acc)
  case (Cons seg segs)
  have "map (\<lambda>w. string_of (runes w)) seg = seg" using Cons.prems by (intro map_idI) (auto intro: validString_runes)
  then have "decodeChunk H (H (jsonStrings seg)) (jsonStrings seg) = Inr seg"
    by (simp add: decodeChunk_def jsonDecode_jsonStrings)
  with Cons show ?case by (simp add: chunk_of_def)
qed simp

end
