(* ===== verification/V3_Manifest.thy ===== *)
theory V3_Manifest
  imports V3_Dict
begin

text \<open>
  The manifests of \<^verbatim>\<open>versioned.go\<close>, \<^verbatim>\<open>versioned_shards.go\<close> and \<^verbatim>\<open>versioned_write.go\<close>: the
  immutable record of one generation, either with all its buckets (the legacy layout)
  or with one manifest per shard.

  Manifests are stored as JSON.  A stored text is modelled by what decoding yields:
  \<open>LegacyDoc\<close>, \<open>GlobalDoc\<close> and \<open>ShardDoc\<close> are the documents of the three shapes, \<open>Blob\<close>
  any other bytes (the chunks among them).  Encoding drops the fields that are not
  exported.
\<close>

section \<open>Manifests\<close>

record v3GlobalManifest =
  gm_Version :: gostring
  gm_Sequence :: "64 word"
  gm_Layout :: v3Layout
  gm_Shards :: "gostring list"
  gm_Count :: int

record v3Manifest =
  mf_Version :: gostring
  mf_Sequence :: "64 word"
  mf_Buckets :: "v3Bucket list"
  mf_Count :: int
  mf_global :: "v3GlobalManifest option"

text \<open>The buckets of a shard are a map; the list gives the order in which it is ranged over.\<close>

record v3ShardManifest =
  sm_ID :: gostring
  sm_Shard :: nat
  sm_Buckets :: "(nat \<times> v3Bucket) list option"
  sm_Count :: int

datatype v3data = Blob gostring | LegacyDoc v3Manifest | GlobalDoc v3GlobalManifest | ShardDoc v3ShardManifest

definition zeroManifest :: v3Manifest where
  "zeroManifest = \<lparr>mf_Version = [], mf_Sequence = 0, mf_Buckets = replicate v3BucketCount zeroBucket, mf_Count = 0, mf_global = None\<rparr>"

definition marshalBucket :: "v3Bucket \<Rightarrow> v3Bucket" where
  "marshalBucket b = b\<lparr>bk_shard := 0, bk_sharded := False\<rparr>"

definition marshalManifest :: "v3Manifest \<Rightarrow> v3data" where
  "marshalManifest m = LegacyDoc (m\<lparr>mf_Buckets := map marshalBucket (mf_Buckets m), mf_global := None\<rparr>)"

definition marshalShard :: "v3ShardManifest \<Rightarrow> v3data" where
  "marshalShard sm = ShardDoc (sm\<lparr>sm_Buckets := map_option (map (\<lambda>(n, b). (n, marshalBucket b))) (sm_Buckets sm)\<rparr>)"

definition v3ManifestLayout :: "v3Manifest \<Rightarrow> v3Layout" where
  "v3ManifestLayout m =
     (case mf_global m of Some g \<Rightarrow> gm_Layout g | None \<Rightarrow> \<lparr>lay_Version = v3LegacyLayoutVersion, lay_ShardCount = 1\<rparr>)"

text \<open>\<^verbatim>\<open>uint16(i) % ShardCount\<close>; a bucket number is below 4096.\<close>

definition shardOf :: "v3GlobalManifest \<Rightarrow> nat \<Rightarrow> nat" where
  "shardOf g i = unat ((word_of_nat i :: 16 word) mod lay_ShardCount (gm_Layout g))"

section \<open>Validation\<close>

text \<open>The counts of the buckets, checked against what is left of the total before they are added.\<close>

fun countBuckets :: "int \<Rightarrow> int \<Rightarrow> v3Bucket list \<Rightarrow> int result" where
  "countBuckets tot n [] = Inr n"
| "countBuckets tot n (b # bs) =
     (if bk_Count b < 0 \<or> bk_Count b > tot - n then Inl ErrVersionedCorrupt else countBuckets tot (n + bk_Count b) bs)"

definition legacyManifest :: "v3data \<Rightarrow> gostring \<Rightarrow> v3Manifest result" where
  "legacyManifest data t =
     (case data of
        LegacyDoc m \<Rightarrow>
          (if mf_Version m \<noteq> t \<or> mf_Sequence m = 0 \<or> mf_Count m < 0 then Inl ErrVersionedCorrupt
           else bindR (countBuckets (mf_Count m) 0 (mf_Buckets m)) (\<lambda>n.
             if n \<noteq> mf_Count m then Inl ErrVersionedCorrupt
             else Inr (m\<lparr>mf_Buckets := map marshalBucket (mf_Buckets m), mf_global := None\<rparr>)))
      | _ \<Rightarrow> Inl ErrVersionedCorrupt)"

definition v3ValidBucketReferences :: "v3Bucket \<Rightarrow> bool" where
  "v3ValidBucketReferences b \<longleftrightarrow>
     bk_Chunks b \<noteq> [] \<and> length (bk_Checksum b) = v3HashLength \<and> (\<forall>chunk \<in> set (bk_Chunks b). length chunk = v3HashLength)"

fun decodeShardLoop :: "v3GlobalManifest \<Rightarrow> nat \<Rightarrow> int \<Rightarrow> (nat \<times> v3Bucket) list \<Rightarrow> v3Bucket list \<Rightarrow> int \<Rightarrow> (v3Bucket list \<times> int) result" where
  "decodeShardLoop g shard tot [] buckets n = Inr (buckets, n)"
| "decodeShardLoop g shard tot ((number, b) # bs) buckets n =
     (if number \<ge> v3BucketCount \<or> shardOf g number \<noteq> shard \<or> bk_Count b \<le> 0 \<or> bk_Count b > tot - n then Inl ErrVersionedCorrupt
      else if \<not> v3ValidBucketReferences b then Inl ErrVersionedCorrupt
      else decodeShardLoop g shard tot bs (buckets[number := b\<lparr>bk_shard := shard, bk_sharded := True\<rparr>]) (n + bk_Count b))"

text \<open>\<^verbatim>\<open>v3DecodeShard\<close> fills the buckets of the manifest; on an error the manifest is discarded.\<close>

definition v3DecodeShard :: "v3data \<Rightarrow> v3GlobalManifest \<Rightarrow> nat \<Rightarrow> v3Bucket list \<Rightarrow> (v3Bucket list \<times> int) result" where
  "v3DecodeShard data g shard buckets =
     (case data of
        ShardDoc sm \<Rightarrow>
          (case sm_Buckets sm of
             None \<Rightarrow> Inl ErrVersionedCorrupt
           | Some bs \<Rightarrow>
               (if sm_ID sm \<noteq> gm_Shards g ! shard \<or> sm_Shard sm \<noteq> shard \<or> sm_Count sm < 0 then Inl ErrVersionedCorrupt
                else bindR (decodeShardLoop g shard (sm_Count sm) bs buckets 0) (\<lambda>(buckets', n).
                  if n \<noteq> sm_Count sm then Inl ErrVersionedCorrupt else Inr (buckets', n))))
      | _ \<Rightarrow> Inl ErrVersionedCorrupt)"

text \<open>The header decides the shape; what the shards hold is read by \<^verbatim>\<open>loadShards\<close>.\<close>

definition globalDocument :: "v3data \<Rightarrow> gostring \<Rightarrow> v3GlobalManifest result" where
  "globalDocument data version =
     (case data of
        GlobalDoc g \<Rightarrow>
          (if gm_Version g \<noteq> version \<or> gm_Sequence g = 0 \<or> gm_Count g < 0 then Inl ErrVersionedCorrupt
           else if layout_validate (gm_Layout g) \<noteq> Inr () \<or> lay_Version (gm_Layout g) \<noteq> v3ShardedLayoutVersion \<or>
             length (gm_Shards g) \<noteq> unat (lay_ShardCount (gm_Layout g)) then Inl ErrVersionedCorrupt
           else Inr g)
      | _ \<Rightarrow> Inl ErrVersionedCorrupt)"

section \<open>Stages\<close>

record v3Stage =
  st_key :: gostring
  st_registry :: gostring
  st_id :: gostring
  st_data :: v3data
  st_shard :: nat
  st_sharded :: bool

definition v3Stages :: "(gostring \<Rightarrow> gostring) \<Rightarrow> gostring list \<Rightarrow> v3Bucket \<times> v3Stage list" where
  "v3Stages H words =
     (case v3Chunks H words of (b, parts) \<Rightarrow>
        (b, map (\<lambda>(h, part). \<lparr>st_key = ''chunk:'' @ h, st_registry = ''chunks'', st_id = h, st_data = Blob part,
               st_shard = 0, st_sharded = False\<rparr>) parts))"

text \<open>
  \<^verbatim>\<open>v3NextManifest\<close>: the document of the generation and the manifests of the changed
  shards, in the order they are ranged over, each with the next of the random identifiers.
\<close>

definition shardBuckets :: "v3GlobalManifest \<Rightarrow> v3Bucket list \<Rightarrow> nat \<Rightarrow> (nat \<times> v3Bucket) list" where
  "shardBuckets g buckets shard =
     filter (\<lambda>(i, b). bk_Count b > 0 \<and> shardOf g i = shard) (zip [0..<length buckets] buckets)"

fun nextShards ::
  "v3GlobalManifest \<Rightarrow> v3Bucket list \<Rightarrow> nat list \<Rightarrow> gostring list \<Rightarrow> gostring list \<Rightarrow> v3Stage list \<Rightarrow> gostring list \<times> v3Stage list" where
  "nextShards g buckets [] ids shards stages = (shards, stages)"
| "nextShards g buckets (shard # changed) ids shards stages =
     (let newID = (case ids of [] \<Rightarrow> [] | x # _ \<Rightarrow> x);
          bs = shardBuckets g buckets shard;
          sm = \<lparr>sm_ID = newID, sm_Shard = shard, sm_Buckets = Some bs, sm_Count = sum_list (map (\<lambda>(i, b). bk_Count b) bs)\<rparr>;
          stage = \<lparr>st_key = ''manifest:'' @ newID, st_registry = ''manifests'', st_id = newID, st_data = marshalShard sm,
                   st_shard = shard, st_sharded = True\<rparr>
      in nextShards g buckets changed (tl ids) (shards[shard := newID]) (stages @ [stage]))"

definition v3NextManifest ::
  "v3Manifest \<Rightarrow> nat list \<Rightarrow> gostring list \<Rightarrow> v3Stage list \<Rightarrow> v3data \<times> v3Manifest \<times> v3Stage list" where
  "v3NextManifest m changed ids stages =
     (case mf_global m of
        None \<Rightarrow> (marshalManifest m, m, stages)
      | Some g0 \<Rightarrow>
          (let g1 = g0\<lparr>gm_Version := mf_Version m, gm_Sequence := mf_Sequence m, gm_Count := mf_Count m\<rparr>;
               (shards, stages') = nextShards g1 (mf_Buckets m) changed ids (gm_Shards g1) stages;
               g2 = g1\<lparr>gm_Shards := shards\<rparr>
           in (GlobalDoc g2, m\<lparr>mf_global := Some g2\<rparr>, stages')))"

end
