(* ===== verification/V3_Keys.thy ===== *)
theory V3_Keys
  imports V3_Manifest V2_Store "HOL-Library.AList" "HOL-Library.Product_Lexorder"
begin

text \<open>
  The Redis keys of a versioned collection and the Lua scripts of
  \<^verbatim>\<open>versioned_snapshot.go\<close>, \<^verbatim>\<open>versioned_write.go\<close>, \<^verbatim>\<open>versioned_shards.go\<close> and
  \<^verbatim>\<open>versioned_prune.go\<close>.  A script runs atomically: it is a function of the keys.

  The keys of a collection share a hash tag, and those of each shard have one of their
  own (\<open>nspace\<close>); all of them are on one clock here.  A sorted set is an
  association list of members and scores; a key that expires is kept with its deadline
  in milliseconds.  Tokens and fences are numbers.
\<close>

section \<open>Names\<close>

definition v3Prefix :: "(gostring \<Rightarrow> gostring) \<Rightarrow> gostring \<Rightarrow> gostring" where
  "v3Prefix H name = ''{acor-v3-'' @ H name @ ''}:''"

definition v3key :: "gostring \<Rightarrow> gostring \<Rightarrow> gostring" where
  "v3key pre s = pre @ s"

definition trimSuffix :: "gostring \<Rightarrow> gostring \<Rightarrow> gostring" where
  "trimSuffix s suff = (if length suff \<le> length s \<and> drop (length s - length suff) s = suff then take (length s - length suff) s else s)"

definition shardKey :: "gostring \<Rightarrow> nat \<Rightarrow> gostring \<Rightarrow> gostring" where
  "shardKey pre shard suff = trimSuffix pre ''}:'' @ ''-shard-'' @ itoa (int shard) @ ''}:'' @ suff"

definition v3valid :: "gostring \<Rightarrow> gostring \<Rightarrow> bool" where
  "v3valid cid t \<longleftrightarrow> take (length cid + 1) t = cid @ ''.'' \<and> length t = length cid + 1 + v3IDLength"

section \<open>Keys\<close>

type_synonym zset = "(gostring \<times> int) list"

record v3ns =
  ns_maintenance :: "(nat \<times> int) option"
  ns_fence :: nat
  ns_writers :: zset
  ns_leases :: zset
  ns_content :: "gostring \<rightharpoonup> v3data"
  ns_registry :: "gostring \<Rightarrow> zset"

record WriteResult =
  wr_PreviousVersion :: gostring
  wr_Version :: gostring
  wr_OperationID :: gostring
  wr_Added :: int
  wr_Removed :: int

record v3meta =
  me_id :: gostring
  me_case :: gostring
  me_layout :: "gostring option"
  me_shards :: "gostring option"

text \<open>A receipt that does not decode is \<open>None\<close> in \<open>k_ops\<close>.\<close>

record v3keys =
  k_now :: int
  k_global :: v3ns
  k_shards :: "nat \<Rightarrow> v3ns"
  k_meta :: "v3meta option"
  k_active :: "gostring option"
  k_ops :: "gostring \<rightharpoonup> WriteResult option"
  k_committed :: "gostring \<rightharpoonup> 64 word"
  k_events :: "gostring list"

datatype nspace = Global | Shard nat

fun ns_get :: "nspace \<Rightarrow> v3keys \<Rightarrow> v3ns" where
  "ns_get Global k = k_global k"
| "ns_get (Shard n) k = k_shards k n"

fun ns_update :: "nspace \<Rightarrow> (v3ns \<Rightarrow> v3ns) \<Rightarrow> v3keys \<Rightarrow> v3keys" where
  "ns_update Global f k = k\<lparr>k_global := f (k_global k)\<rparr>"
| "ns_update (Shard n) f k = k\<lparr>k_shards := (k_shards k)(n := f (k_shards k n))\<rparr>"

definition zadd :: "gostring \<Rightarrow> int \<Rightarrow> zset \<Rightarrow> zset" where "zadd m s z = AList.update m s z"
definition zaddNX :: "gostring \<Rightarrow> int \<Rightarrow> zset \<Rightarrow> zset" where "zaddNX m s z = (if map_of z m = None then AList.update m s z else z)"
definition zrem :: "gostring \<Rightarrow> zset \<Rightarrow> zset" where "zrem m z = AList.delete m z"

text \<open>\<^verbatim>\<open>ZREMRANGEBYSCORE -inf now\<close>: the members whose score is past stay.\<close>

definition zexpire :: "int \<Rightarrow> zset \<Rightarrow> zset" where
  "zexpire now z = filter (\<lambda>e. case map_of z (fst e) of None \<Rightarrow> False | Some s \<Rightarrow> s > now) z"

text \<open>\<^verbatim>\<open>ZRANGE 0 -1\<close>: by score, then by member.\<close>

definition zrange :: "zset \<Rightarrow> zset" where
  "zrange z = map (\<lambda>(s, m). (m, s)) (sort (map (\<lambda>(m, s). (s, m)) z))"

definition zlive :: "int \<Rightarrow> zset \<Rightarrow> gostring \<Rightarrow> bool" where
  "zlive now z m = (case map_of z m of None \<Rightarrow> False | Some e \<Rightarrow> e > now)"

definition underMaintenance :: "nspace \<Rightarrow> v3keys \<Rightarrow> bool" where
  "underMaintenance n k = (case ns_maintenance (ns_get n k) of None \<Rightarrow> False | Some (token, e) \<Rightarrow> e > k_now k)"

text \<open>\<^verbatim>\<open>GET\<close> of the maintenance key.\<close>

definition maintenanceToken :: "nspace \<Rightarrow> v3keys \<Rightarrow> nat option" where
  "maintenanceToken n k =
     (case ns_maintenance (ns_get n k) of None \<Rightarrow> None | Some (token, e) \<Rightarrow> if e > k_now k then Some token else None)"

section \<open>Leases\<close>

datatype acquired = InMaintenance | Conflict | Leased gostring gostring

definition ns_set :: "gostring \<Rightarrow> (zset \<Rightarrow> zset) \<Rightarrow> v3ns \<Rightarrow> v3ns" where
  "ns_set which f s = (if which = ''writers'' then s\<lparr>ns_writers := f (ns_writers s)\<rparr> else s\<lparr>ns_leases := f (ns_leases s)\<rparr>)"

definition ns_zset :: "gostring \<Rightarrow> v3ns \<Rightarrow> zset" where
  "ns_zset which s = (if which = ''writers'' then ns_writers s else ns_leases s)"

text \<open>Concatenating a missing version raises an error in Lua.\<close>

definition v3AcquireScript :: "gostring \<Rightarrow> gostring \<Rightarrow> gostring \<Rightarrow> int \<Rightarrow> v3keys \<Rightarrow> v3keys \<times> acquired result" where
  "v3AcquireScript which expected newID ttl k =
     (if underMaintenance Global k then (k, Inr InMaintenance)
      else if expected \<noteq> [] \<and> k_active k \<noteq> Some expected then (k, Inr Conflict)
      else (case k_active k of
          None \<Rightarrow> (k, Inl (ErrClient ''attempt to concatenate a boolean value''))
        | Some active \<Rightarrow>
            (let member = active @ ''/'' @ newID in
             (ns_update Global (ns_set which (zadd member (k_now k + ttl))) k, Inr (Leased active member)))))"

definition v3CheckScript :: "gostring \<Rightarrow> gostring \<Rightarrow> v3keys \<Rightarrow> v3keys \<times> int" where
  "v3CheckScript which member k = (k, if zlive (k_now k) (ns_zset which (k_global k)) member then 1 else 0)"

definition v3RenewScript :: "gostring \<Rightarrow> gostring \<Rightarrow> int \<Rightarrow> v3keys \<Rightarrow> v3keys \<times> int" where
  "v3RenewScript which member ttl k =
     (if zlive (k_now k) (ns_zset which (k_global k)) member
      then (ns_update Global (ns_set which (zadd member (k_now k + ttl))) k, 1) else (k, 0))"

definition v3ReleaseScript :: "nspace \<Rightarrow> gostring \<Rightarrow> gostring \<Rightarrow> v3keys \<Rightarrow> v3keys \<times> unit" where
  "v3ReleaseScript n which member k = (ns_update n (ns_set which (zrem member)) k, ())"

text \<open>The two halves of \<^verbatim>\<open>mirrorWriter\<close>: the global deadline and fence, and their copy on the shard.\<close>

definition v3DeadlineScript :: "gostring \<Rightarrow> v3keys \<Rightarrow> v3keys \<times> (int \<times> nat) option" where
  "v3DeadlineScript member k =
     (k, if underMaintenance Global k then None
         else (case map_of (ns_writers (k_global k)) member of
             None \<Rightarrow> None
           | Some e \<Rightarrow> if e \<le> k_now k then None else Some (e, ns_fence (k_global k))))"

definition v3MirrorScript :: "nat \<Rightarrow> gostring \<Rightarrow> int \<Rightarrow> nat \<Rightarrow> v3keys \<Rightarrow> v3keys \<times> int" where
  "v3MirrorScript shard member deadline fence k =
     (if underMaintenance (Shard shard) k \<or> deadline \<le> k_now k then (k, 0)
      else if ns_fence (k_shards k shard) > fence then (k, 0)
      else (ns_update (Shard shard) (\<lambda>s. s\<lparr>ns_fence := fence, ns_writers := zadd member deadline (ns_writers s)\<rparr>) k, 1))"

section \<open>Writing\<close>

definition v3StageScript :: "v3Stage \<Rightarrow> gostring \<Rightarrow> v3keys \<Rightarrow> v3keys \<times> int" where
  "v3StageScript st member k =
     (let n = (if st_sharded st then Shard (st_shard st) else Global); s = ns_get n k in
      if underMaintenance n k then (k, 0)
      else if \<not> zlive (k_now k) (ns_writers s) member then (k, 0)
      else if \<exists>x. ns_content s (st_key st) = Some x \<and> x \<noteq> st_data st then (k, -1)
      else (ns_update n (\<lambda>s. s\<lparr>ns_registry := (ns_registry s)(st_registry st :=
                zaddNX (st_id st) (k_now k div 1000) (ns_registry s (st_registry st))),
              ns_content := (ns_content s)(st_key st \<mapsto> st_data st)\<rparr>) k, 1))"

datatype committed = Receipt "WriteResult option" | CommitConflict | CommitMaintenance | CommitExpired | CommitMissing

definition v3CommitScript :: "gostring \<Rightarrow> WriteResult \<Rightarrow> 64 word \<Rightarrow> v3Layout \<Rightarrow> v3keys \<Rightarrow> v3keys \<times> committed" where
  "v3CommitScript member r sequence layout k =
     (case k_ops k (wr_OperationID r) of
        Some receipt \<Rightarrow> (k, Receipt receipt)
      | None \<Rightarrow>
          if underMaintenance Global k then (k, CommitMaintenance)
          else if \<not> zlive (k_now k) (ns_writers (k_global k)) member then (k, CommitExpired)
          else if k_active k \<noteq> Some (wr_PreviousVersion r) then (k, CommitConflict)
          else if ns_content (k_global k) (''gen:'' @ wr_Version r) = None then (k, CommitMissing)
          else
            (let k1 = k\<lparr>k_ops := (k_ops k)(wr_OperationID r \<mapsto> Some r)\<rparr> in
             (if wr_PreviousVersion r \<noteq> wr_Version r then
                (ns_update Global (\<lambda>s. s\<lparr>ns_registry := (ns_registry s)(''generations'' :=
                     zadd (wr_Version r) (k_now k div 1000) (ns_registry s ''generations''))\<rparr>) k1)
                  \<lparr>k_active := Some (wr_Version r), k_committed := (k_committed k1)(wr_Version r \<mapsto> sequence),
                   k_meta := Some ((case k_meta k1 of Some me \<Rightarrow> me | None \<Rightarrow> \<lparr>me_id = [], me_case = [], me_layout = None, me_shards = None\<rparr>)
                     \<lparr>me_layout := Some (itoa (int (unat (lay_Version layout)))), me_shards := Some (itoa (int (unat (lay_ShardCount layout))))\<rparr>),
                   k_events := k_events k1 @ [wr_Version r]\<rparr>
              else k1, Receipt (Some r))))"

section \<open>Collecting\<close>

definition v3MaintenanceTTL :: int where "v3MaintenanceTTL = 30000"

definition v3PruneScript :: "v3keys \<Rightarrow> v3keys \<times> (nat \<times> int) option" where
  "v3PruneScript k0 =
     (let k = ns_update Global (\<lambda>s. s\<lparr>ns_writers := zexpire (k_now k0) (ns_writers s), ns_leases := zexpire (k_now k0) (ns_leases s)\<rparr>) k0 in
      if underMaintenance Global k \<or> ns_writers (k_global k) \<noteq> [] then (k, None)
      else
        (let token = ns_fence (k_global k) + 1 in
         (ns_update Global (\<lambda>s. s\<lparr>ns_fence := token, ns_maintenance := Some (token, k_now k + v3MaintenanceTTL)\<rparr>) k,
          Some (token, k_now k div 1000))))"

definition v3FenceScript :: "nat \<Rightarrow> v3keys \<Rightarrow> v3keys \<times> int" where
  "v3FenceScript token k =
     (if maintenanceToken Global k \<noteq> Some token then (k, 0)
      else (ns_update Global (\<lambda>s. s\<lparr>ns_maintenance := Some (token, k_now k + v3MaintenanceTTL)\<rparr>) k, 1))"

definition v3UnlockScript :: "nspace \<Rightarrow> nat \<Rightarrow> v3keys \<Rightarrow> v3keys \<times> unit" where
  "v3UnlockScript n token k =
     (if maintenanceToken n k = Some token then (ns_update n (\<lambda>s. s\<lparr>ns_maintenance := None\<rparr>) k, ()) else (k, ()))"

definition v3ShardFenceScript :: "nat \<Rightarrow> nat \<Rightarrow> v3keys \<Rightarrow> v3keys \<times> int" where
  "v3ShardFenceScript token shard k =
     (let n = Shard shard; owner = maintenanceToken n k in
      if ns_fence (ns_get n k) > token then (k, 0)
      else if owner \<noteq> None \<and> owner \<noteq> Some token then (k, 0)
      else
        (let k1 = ns_update n (\<lambda>s. s\<lparr>ns_writers := zexpire (k_now k) (ns_writers s)\<rparr>) k in
         if ns_writers (ns_get n k1) \<noteq> [] then (k1, 0)
         else (ns_update n (\<lambda>s. s\<lparr>ns_fence := token, ns_maintenance := Some (token, k_now k + v3MaintenanceTTL)\<rparr>) k1, 1)))"

definition deleteIDs :: "gostring \<Rightarrow> gostring \<Rightarrow> gostring list \<Rightarrow> v3ns \<Rightarrow> v3ns" where
  "deleteIDs registry pre ids s =
     fold (\<lambda>x s. s\<lparr>ns_content := (ns_content s)(pre @ x := None), ns_registry := (ns_registry s)(registry := zrem x (ns_registry s registry))\<rparr>) ids s"

definition v3DeleteScript :: "nspace \<Rightarrow> nat \<Rightarrow> gostring \<Rightarrow> gostring \<Rightarrow> gostring list \<Rightarrow> v3keys \<Rightarrow> v3keys \<times> int" where
  "v3DeleteScript n token registry pre ids k =
     (if maintenanceToken n k \<noteq> Some token then (k, -1)
      else (ns_update n (deleteIDs registry pre ids) k, int (length ids)))"

end
