(* ===== verification/V3_Client.thy ===== *)
theory V3_Client
  imports V3_Keys
begin

text \<open>
  The operations of a versioned collection that read and write generations:
  \<^verbatim>\<open>versioned_snapshot.go\<close>, \<^verbatim>\<open>versioned_write.go\<close>, \<^verbatim>\<open>versioned_shards.go\<close> and the start of
  \<^verbatim>\<open>versioned.go\<close>.

  Between two commands of this client others act on the keys (\<open>vw_env\<close>); a command may
  fail or lose its reply (\<open>vw_io\<close>); the flags of the collection and of a lease and
  the context answer as \<open>vw_checks\<close> says, in order (\<open>None\<close> lets the operation go on);
  \<open>vw_ids\<close> are the random identifiers, \<open>vw_shards\<close> the shards the lease of the operation
  is mirrored on.  \<open>vw_past\<close> only serves statements: the keys before and after each
  command of this client that ran.  The shards of a write are staged one after the
  other in the order a map is ranged over (\<open>ve_order\<close>).
\<close>

record v3world =
  vw_keys :: v3keys
  vw_env :: "(v3keys \<Rightarrow> v3keys) list"
  vw_io :: "cmd_io list"
  vw_checks :: "acorError option list"
  vw_ids :: "gostring list"
  vw_shards :: "nat list"
  vw_past :: "(v3keys \<times> v3keys) list"

record v3env =
  ve_H :: "gostring \<Rightarrow> gostring"
  ve_unicode :: unicode
  ve_id :: gostring
  ve_opts :: VersionedOptions
  ve_gomaxprocs :: int
  ve_order :: "nat list \<Rightarrow> nat list"

definition redisNil :: acorError where "redisNil = ErrClient ''redis: nil''"

definition v3others :: "v3world \<Rightarrow> v3world" where
  "v3others w = w\<lparr>vw_keys := next_or id (vw_env w) (vw_keys w), vw_env := tl (vw_env w)\<rparr>"

definition v3command :: "(v3keys \<Rightarrow> v3keys \<times> 'a) \<Rightarrow> v3world \<Rightarrow> v3world \<times> 'a result" where
  "v3command f w =
     (let w1 = v3others w; w2 = w1\<lparr>vw_io := tl (vw_io w)\<rparr>; (k, x) = f (vw_keys w1) in
      case next_or CmdOk (vw_io w) of
        CmdOk \<Rightarrow> (w2\<lparr>vw_keys := k, vw_past := vw_past w2 @ [(vw_keys w1, k)]\<rparr>, Inr x)
      | CmdFailed err \<Rightarrow> (w2, Inl err)
      | CmdLost err \<Rightarrow> (w2\<lparr>vw_keys := k, vw_past := vw_past w2 @ [(vw_keys w1, k)]\<rparr>, Inl err))"

definition v3check :: "v3world \<Rightarrow> v3world \<times> acorError option" where
  "v3check w = (w\<lparr>vw_checks := tl (vw_checks w)\<rparr>, next_or None (vw_checks w))"

definition v3ID :: "v3world \<Rightarrow> v3world \<times> gostring" where
  "v3ID w = (w\<lparr>vw_ids := tl (vw_ids w)\<rparr>, next_or [] (vw_ids w))"

text \<open>Sequencing a step that may end the operation.\<close>

definition bindW :: "v3world \<times> ('e + 'a) \<Rightarrow> (v3world \<Rightarrow> 'a \<Rightarrow> v3world \<times> ('e + 'b)) \<Rightarrow> v3world \<times> ('e + 'b)" where
  "bindW p f = (case p of (w, Inl err) \<Rightarrow> (w, Inl err) | (w, Inr x) \<Rightarrow> f w x)"

fun loopW :: "('a \<Rightarrow> 's \<Rightarrow> v3world \<Rightarrow> v3world \<times> ('e + 's)) \<Rightarrow> 'a list \<Rightarrow> 's \<Rightarrow> v3world \<Rightarrow> v3world \<times> ('e + 's)" where
  "loopW f [] s w = (w, Inr s)"
| "loopW f (x # xs) s w = bindW (f x s w) (\<lambda>w s. loopW f xs s w)"

section \<open>Leases\<close>

record v3Lease =
  le_member :: gostring
  le_set :: gostring

text \<open>Errors of closing are dropped by every caller here.\<close>

definition lease_close :: "v3Lease \<Rightarrow> v3world \<Rightarrow> v3world" where
  "lease_close l w =
     fold (\<lambda>shard w. fst (v3command (v3ReleaseScript (Shard shard) ''writers'' (le_member l)) w)) (vw_shards w)
       (fst (v3command (v3ReleaseScript Global (le_set l) (le_member l)) w))"

definition acquire :: "v3env \<Rightarrow> gostring \<Rightarrow> bool \<Rightarrow> v3world \<Rightarrow> v3world \<times> (v3Lease \<times> gostring) result" where
  "acquire env expected writer w =
     (case v3check w of
        (w1, Some err) \<Rightarrow> (w1, Inl err)
      | (w1, None) \<Rightarrow>
          (let set = (if writer then ''writers'' else ''leases''); (w2, newID) = v3ID w1 in
           bindW (v3command (v3AcquireScript set expected newID (vo_LeaseDuration (ve_opts env) div 10 ^ 6)) w2) (\<lambda>w3 r.
             case r of
               Inl err \<Rightarrow> (w3, Inl err)
             | Inr InMaintenance \<Rightarrow> (w3, Inl ErrMaintenance)
             | Inr Conflict \<Rightarrow> (w3, Inl ErrConcurrencyConflict)
             | Inr (Leased active member) \<Rightarrow>
                 (let l = \<lparr>le_member = member, le_set = set\<rparr> in
                  case v3check (w3\<lparr>vw_shards := []\<rparr>) of
                    (w4, Some err) \<Rightarrow> (lease_close l w4, Inl ErrVersionedClosed)
                  | (w4, None) \<Rightarrow> (w4, Inr (l, active))))))"

definition lease_check :: "v3Lease \<Rightarrow> v3world \<Rightarrow> v3world \<times> unit result" where
  "lease_check l w =
     (case v3check w of
        (w1, Some err) \<Rightarrow> (w1, Inl err)
      | (w1, None) \<Rightarrow>
          bindW (v3command (v3CheckScript (le_set l) (le_member l)) w1) (\<lambda>w2 ok.
            (w2, if ok = 0 then Inl ErrLeaseExpired else Inr ())))"

definition mirrorWriter :: "v3Lease \<Rightarrow> nat \<Rightarrow> v3world \<Rightarrow> v3world \<times> unit result" where
  "mirrorWriter l shard w =
     (case v3check w of
        (w1, Some err) \<Rightarrow> (w1, Inl ErrLeaseExpired)
      | (w1, None) \<Rightarrow>
          bindW (v3command (v3DeadlineScript (le_member l)) w1) (\<lambda>w2 r.
            case r of
              None \<Rightarrow> (w2, Inl ErrLeaseExpired)
            | Some (e, fence) \<Rightarrow>
                bindW (v3command (v3MirrorScript shard (le_member l) e fence) w2) (\<lambda>w3 ok.
                  if ok \<noteq> 1 then (w3, Inl ErrLeaseExpired)
                  else (case v3check w3 of
                      (w4, Some err) \<Rightarrow> (fst (v3command (v3ReleaseScript (Shard shard) ''writers'' (le_member l)) w4), Inl ErrLeaseExpired)
                    | (w4, None) \<Rightarrow> (w4\<lparr>vw_shards := List.insert shard (vw_shards w4)\<rparr>, Inr ())))))"

text \<open>\<^verbatim>\<open>renew\<close>: the answers are whether the lease is still good and its renewed mirrors.\<close>

definition lease_renew :: "v3env \<Rightarrow> v3Lease \<Rightarrow> v3world \<Rightarrow> v3world \<times> bool" where
  "lease_renew env l w =
     (case v3check w of
        (w1, Some err) \<Rightarrow> (w1, False)
      | (w1, None) \<Rightarrow>
          (case v3command (v3RenewScript (le_set l) (le_member l) (vo_LeaseDuration (ve_opts env) div 10 ^ 6)) w1 of
             (w2, Inl err) \<Rightarrow> (w2, True)
           | (w2, Inr ok) \<Rightarrow>
               if ok = 0 then (w2, False)
               else if le_set l = ''writers'' then (fold (\<lambda>shard w. fst (mirrorWriter l shard w)) (vw_shards w2) w2, True)
               else (w2, True)))"

section \<open>Reading\<close>

definition bucketChunkKey :: "v3Bucket \<Rightarrow> gostring \<Rightarrow> nspace \<times> gostring" where
  "bucketChunkKey b h = (if bk_sharded b then Shard (bk_shard b) else Global, ''chunk:'' @ h)"

definition v3get :: "nspace \<times> gostring \<Rightarrow> v3keys \<Rightarrow> v3keys \<times> v3data option" where
  "v3get key k = (k, ns_content (ns_get (fst key) k) (snd key))"

text \<open>The bytes of a chunk; a manifest under a chunk key would fail the check of its hash.\<close>

definition blobOf :: "v3data \<Rightarrow> gostring result" where
  "blobOf x = (case x of Blob data \<Rightarrow> Inr data | _ \<Rightarrow> Inl ErrVersionedCorrupt)"

definition readChunk :: "v3env \<Rightarrow> v3Bucket \<Rightarrow> gostring \<Rightarrow> gostring list \<Rightarrow> v3world \<Rightarrow> v3world \<times> gostring list result" where
  "readChunk env b h words w =
     bindW (v3command (v3get (bucketChunkKey b h)) w) (\<lambda>w1 r.
       case r of
         None \<Rightarrow> (w1, Inl (if bk_sharded b then ErrVersionedCorrupt else redisNil))
       | Some x \<Rightarrow> (w1, bindR (blobOf x) (\<lambda>data. bindR (decodeChunk (ve_H env) h data) (\<lambda>part. Inr (words @ part)))))"

definition bucket :: "v3env \<Rightarrow> v3Bucket \<Rightarrow> v3world \<Rightarrow> v3world \<times> gostring list result" where
  "bucket env b w =
     (if bk_Count b = 0 then (w, if bk_Chunks b \<noteq> [] then Inl ErrVersionedCorrupt else Inr [])
      else bindW (loopW (readChunk env b) (bk_Chunks b) [] w) (\<lambda>w1 words. (w1, checkBucket (ve_H env) b words)))"

text \<open>
  One pipeline of \<^verbatim>\<open>loadShards\<close>: nothing is sent when an identifier has the wrong length;
  otherwise every command is, and the first that failed decides.
\<close>

fun pipelineGet :: "(nspace \<times> gostring) list \<Rightarrow> v3world \<Rightarrow> v3world \<times> v3data result list" where
  "pipelineGet [] w = (w, [])"
| "pipelineGet (key # keys) w =
     (case v3command (v3get key) w of (w1, r) \<Rightarrow>
        (case pipelineGet keys w1 of (w2, rs) \<Rightarrow>
           (w2, bindR r (\<lambda>x. case x of None \<Rightarrow> Inl redisNil | Some d \<Rightarrow> Inr d) # rs)))"

fun firstError :: "nat \<Rightarrow> v3data result list \<Rightarrow> acorError option" where
  "firstError shard [] = None"
| "firstError shard (Inl err # rs) = Some (ShardError shard (if err = redisNil then ErrVersionedCorrupt else err))"
| "firstError shard (Inr x # rs) = firstError (Suc shard) rs"

fun decodeBatch :: "v3GlobalManifest \<Rightarrow> nat \<Rightarrow> v3data result list \<Rightarrow> v3Bucket list \<times> int \<Rightarrow> (v3Bucket list \<times> int) result" where
  "decodeBatch g shard [] s = Inr s"
| "decodeBatch g shard (Inl err # rs) s = Inl (ShardError shard err)"
| "decodeBatch g shard (Inr x # rs) (buckets, n) =
     (case v3DecodeShard x g shard buckets of
        Inl err \<Rightarrow> Inl (ShardError shard ErrVersionedCorrupt)
      | Inr (buckets', m) \<Rightarrow>
          (if m > gm_Count g - n then Inl (ShardError shard ErrVersionedCorrupt) else decodeBatch g (Suc shard) rs (buckets', n + m)))"

definition loadBatch :: "v3GlobalManifest \<Rightarrow> nat \<Rightarrow> nat \<Rightarrow> v3Bucket list \<times> int \<Rightarrow> v3world \<Rightarrow> v3world \<times> (v3Bucket list \<times> int) result" where
  "loadBatch g start to s w =
     (case filter (\<lambda>shard. length (gm_Shards g ! shard) \<noteq> v3IDLength) [start..<to] of
        shard # _ \<Rightarrow> (w, Inl (ShardError shard ErrVersionedCorrupt))
      | [] \<Rightarrow>
          (case pipelineGet (map (\<lambda>shard. (Shard shard, ''manifest:'' @ (gm_Shards g ! shard))) [start..<to]) w of
             (w1, rs) \<Rightarrow>
               (case firstError start rs of
                  Some err \<Rightarrow> (w1, Inl err)
                | None \<Rightarrow> (w1, decodeBatch g start rs s))))"

function loadShards :: "v3GlobalManifest \<Rightarrow> nat \<Rightarrow> nat \<Rightarrow> v3Bucket list \<times> int \<Rightarrow> v3world \<Rightarrow> v3world \<times> (v3Bucket list \<times> int) result" where
  "loadShards g concurrency start s w =
     (if start < length (gm_Shards g) \<and> 0 < concurrency then
        (let to = min (start + concurrency) (length (gm_Shards g)) in
         bindW (loadBatch g start to s w) (\<lambda>w1 s1. loadShards g concurrency to s1 w1))
      else (w, Inr s))"
  by pat_completeness auto
termination
  by (relation "measure (\<lambda>(g, c, start, s, w). length (gm_Shards g) - start)") auto

declare loadShards.simps [simp del]

definition loadManifest :: "v3env \<Rightarrow> gostring \<Rightarrow> v3world \<Rightarrow> v3world \<times> v3Manifest result" where
  "loadManifest env version w =
     (if \<not> v3valid (ve_id env) version then (w, Inl ErrInvalidVersion)
      else
        bindW (v3command (v3get (Global, ''gen:'' @ version)) w) (\<lambda>w1 r.
          case r of
            None \<Rightarrow> (w1, Inl redisNil)
          | Some (GlobalDoc g0) \<Rightarrow>
              bindW (w1, globalDocument (GlobalDoc g0) version) (\<lambda>w2 g.
              bindW (loadShards g (nat (shardConcurrency (vo_ShardConcurrency (ve_opts env)) (ve_gomaxprocs env)
                    (int (unat (lay_ShardCount (gm_Layout g)))))) 0 (mf_Buckets zeroManifest, 0) w2) (\<lambda>w3 (buckets, n).
                (w3, if n \<noteq> gm_Count g then Inl ErrVersionedCorrupt
                     else Inr \<lparr>mf_Version = version, mf_Sequence = gm_Sequence g, mf_Buckets = buckets, mf_Count = gm_Count g,
                               mf_global = Some g\<rparr>)))
          | Some data \<Rightarrow> (w1, legacyManifest data version)))"


section \<open>Staging\<close>

definition v3StageBatch :: nat where "v3StageBatch = 64"

fun pipelineStage :: "v3Lease \<Rightarrow> v3Stage list \<Rightarrow> v3world \<Rightarrow> v3world \<times> int result list" where
  "pipelineStage l [] w = (w, [])"
| "pipelineStage l (st # stages) w =
     (case v3command (v3StageScript st (le_member l)) w of (w1, r) \<Rightarrow>
        (case pipelineStage l stages w1 of (w2, rs) \<Rightarrow> (w2, r # rs)))"

fun stagedAll :: "int result list \<Rightarrow> unit result" where
  "stagedAll [] = Inr ()"
| "stagedAll (Inl err # rs) = Inl err"
| "stagedAll (Inr ok # rs) = (if ok = -1 then Inl ErrVersionedCorrupt else if ok \<noteq> 1 then Inl ErrLeaseExpired else stagedAll rs)"

definition pipelineError :: "int result list \<Rightarrow> acorError option" where
  "pipelineError rs = (case filter (\<lambda>r. case r of Inl err \<Rightarrow> True | Inr ok \<Rightarrow> False) rs of Inl err # _ \<Rightarrow> Some err | _ \<Rightarrow> None)"

definition stageBatch :: "v3Lease \<Rightarrow> v3Stage list \<Rightarrow> v3world \<Rightarrow> v3world \<times> unit result" where
  "stageBatch l stages w =
     (if stages = [] then (w, Inr ())
      else (case pipelineStage l stages w of (w1, rs) \<Rightarrow>
        (w1, case pipelineError rs of Some err \<Rightarrow> Inl err | None \<Rightarrow> stagedAll rs)))"

fun batches :: "nat \<Rightarrow> nat \<Rightarrow> 'a list \<Rightarrow> 'a list list" where
  "batches 0 n xs = []"
| "batches (Suc fuel) n xs = (if xs = [] then [] else take n xs # batches fuel n (drop n xs))"

definition stageShard :: "v3Lease \<Rightarrow> v3Stage list \<Rightarrow> nat \<Rightarrow> v3world \<Rightarrow> v3world \<times> unit result" where
  "stageShard l stages shard w =
     bindW (mirrorWriter l shard w) (\<lambda>w1 _.
       (let work = filter (\<lambda>st. st_sharded st \<and> st_shard st = shard) stages in
        loopW (\<lambda>part _. stageBatch l part) (batches (length work) v3StageBatch work) () w1))"

definition stageAll :: "v3env \<Rightarrow> v3Lease \<Rightarrow> v3Stage list \<Rightarrow> v3world \<Rightarrow> v3world \<times> unit result" where
  "stageAll env l stages w =
     (let shards = remdups (map st_shard (filter st_sharded stages)); rest = filter (\<lambda>st. \<not> st_sharded st) stages in
      if stages = [] then (w, Inr ())
      else if shards = [] then stageBatch l rest w
      else bindW (loopW (\<lambda>shard _. stageShard l stages shard) (ve_order env shards) () w) (\<lambda>w1 _. stageBatch l rest w1))"

section \<open>Committing\<close>

text \<open>A write can return an error together with the result it tried to commit.\<close>

type_synonym 'a outcome = "(acorError \<times> WriteResult option) + 'a"

definition failW :: "v3world \<times> 'a result \<Rightarrow> v3world \<times> 'a outcome" where
  "failW p = (case p of (w, Inl err) \<Rightarrow> (w, Inl (err, None)) | (w, Inr x) \<Rightarrow> (w, Inr x))"

definition v3commit :: "v3Lease \<Rightarrow> WriteResult \<Rightarrow> v3Manifest \<Rightarrow> v3world \<Rightarrow> v3world \<times> WriteResult outcome" where
  "v3commit l r m w =
     (case v3command (v3CommitScript (le_member l) r (mf_Sequence m) (v3ManifestLayout m)) w of
        (w1, Inl err) \<Rightarrow> (w1, Inl (Joined ErrCommitUnknown err, Some r))
      | (w1, Inr answer) \<Rightarrow>
          (w1, case answer of
             CommitConflict \<Rightarrow> Inl (ErrConcurrencyConflict, None)
           | CommitMaintenance \<Rightarrow> Inl (ErrMaintenance, None)
           | CommitExpired \<Rightarrow> Inl (ErrLeaseExpired, None)
           | CommitMissing \<Rightarrow> Inl (ErrVersionedCorrupt, None)
           | Receipt None \<Rightarrow> Inl (ErrCommitUnknown, Some r)
           | Receipt (Some done) \<Rightarrow> Inr done))"

definition generationStage :: "gostring \<Rightarrow> v3data \<Rightarrow> v3Stage" where
  "generationStage version data =
     \<lparr>st_key = ''gen:'' @ version, st_registry = ''generations'', st_id = version, st_data = data, st_shard = 0, st_sharded = False\<rparr>"

definition prepareCommit ::
  "v3env \<Rightarrow> v3Lease \<Rightarrow> v3Manifest \<Rightarrow> WriteResult \<Rightarrow> v3Stage list \<Rightarrow> nat list \<Rightarrow> bool \<Rightarrow> v3world \<Rightarrow> v3world \<times> WriteResult outcome" where
  "prepareCommit env l m r stages changedShards changed w =
     (if \<not> changed then v3commit l r m w
      else
        (let (w1, newID) = v3ID w; version = ve_id env @ ''.'' @ newID;
             m1 = m\<lparr>mf_Version := version, mf_Sequence := mf_Sequence m + 1, mf_Count := mf_Count m + (wr_Added r - wr_Removed r)\<rparr>;
             r1 = r\<lparr>wr_Version := version\<rparr>;
             order = ve_order env changedShards;
             (data, m2, stages1) = v3NextManifest m1 order (vw_ids w1) stages;
             w2 = (if mf_global m1 = None then w1 else w1\<lparr>vw_ids := drop (length order) (vw_ids w1)\<rparr>);
             generation = generationStage version data
         in
           if mf_global m2 = None then
             bindW (failW (stageAll env l (stages1 @ [generation]) w2)) (\<lambda>w3 _. v3commit l r1 m2 w3)
           else
             bindW (failW (stageAll env l stages1 w2)) (\<lambda>w3 _.
             bindW (failW (stageAll env l [generation] w3)) (\<lambda>w4 _.
             bindW (failW (loadManifest env version w4)) (\<lambda>w5 _. v3commit l r1 m2 w5)))))"

section \<open>Changing the dictionary\<close>

text \<open>What a change has accumulated: the next buckets, the counts, the stages, the shards.\<close>

record v3Edit =
  ed_Buckets :: "v3Bucket list"
  ed_Added :: int
  ed_Removed :: int
  ed_stages :: "v3Stage list"
  ed_changed :: "nat list"

definition placeStages :: "nat \<Rightarrow> v3Stage list \<Rightarrow> v3Stage list" where
  "placeStages shard stages = map (\<lambda>st. st\<lparr>st_sharded := True, st_shard := shard\<rparr>) stages"

definition changeBucket :: "v3env \<Rightarrow> v3Manifest \<Rightarrow> gostring \<Rightarrow> gostring list \<Rightarrow> nat \<Rightarrow> v3Edit \<Rightarrow> v3world \<Rightarrow> v3world \<times> v3Edit result" where
  "changeBucket env old mode normalized i e w =
     (let input = filter (\<lambda>x. v3BucketNumber (ve_H env) x = i) normalized in
      if mode \<noteq> ''replace'' \<and> input = [] then (w, Inr e)
      else
        bindW (bucket env (mf_Buckets old ! i) w) (\<lambda>w1 before.
          case v3Apply before input mode of (after, added, removed) \<Rightarrow>
            if added = 0 \<and> removed = 0 then (w1, Inr e)
            else
              (case v3Stages (ve_H env) after of (b, work) \<Rightarrow>
                 (let e1 = e\<lparr>ed_Added := ed_Added e + added, ed_Removed := ed_Removed e + removed\<rparr> in
                  case mf_global old of
                    None \<Rightarrow> (w1, Inr (e1\<lparr>ed_stages := ed_stages e1 @ work, ed_Buckets := (ed_Buckets e1)[i := b]\<rparr>))
                  | Some g \<Rightarrow>
                      (let shard = shardOf g i in
                       (w1, Inr (e1\<lparr>ed_stages := ed_stages e1 @ placeStages shard work,
                          ed_Buckets := (ed_Buckets e1)[i := b\<lparr>bk_sharded := True, bk_shard := shard\<rparr>],
                          ed_changed := List.insert shard (ed_changed e1)\<rparr>)))))))"

definition changeBody ::
  "v3env \<Rightarrow> gostring \<Rightarrow> gostring list \<Rightarrow> gostring \<Rightarrow> v3Lease \<Rightarrow> v3world \<Rightarrow> v3world \<times> WriteResult outcome" where
  "changeBody env expected normalized mode l w =
     bindW (failW (loadManifest env expected w)) (\<lambda>w1 old.
       (let (w2, operation) = v3ID w1 in
        bindW (failW (loopW (changeBucket env old mode normalized) [0..<v3BucketCount]
            \<lparr>ed_Buckets = mf_Buckets old, ed_Added = 0, ed_Removed = 0, ed_stages = [], ed_changed = []\<rparr> w2)) (\<lambda>w3 e.
          prepareCommit env l (old\<lparr>mf_Buckets := ed_Buckets e\<rparr>)
            \<lparr>wr_PreviousVersion = expected, wr_Version = expected, wr_OperationID = operation, wr_Added = ed_Added e, wr_Removed = ed_Removed e\<rparr>
            (ed_stages e) (ed_changed e) (ed_Added e \<noteq> 0 \<or> ed_Removed e \<noteq> 0) w3)))"

text \<open>A writer's lease is closed whatever the outcome.\<close>

definition withWriter ::
  "v3env \<Rightarrow> gostring \<Rightarrow> (v3Lease \<Rightarrow> v3world \<Rightarrow> v3world \<times> 'a outcome) \<Rightarrow> v3world \<Rightarrow> v3world \<times> 'a outcome" where
  "withWriter env expected body w =
     bindW (failW (acquire env expected True w)) (\<lambda>w1 (l, active).
       case body l w1 of (w2, r) \<Rightarrow> (lease_close l w2, r))"

definition change :: "v3env \<Rightarrow> gostring \<Rightarrow> gostring list \<Rightarrow> gostring \<Rightarrow> v3world \<Rightarrow> v3world \<times> WriteResult outcome" where
  "change env expected words mode w =
     (if \<not> v3valid (ve_id env) expected then (w, Inl (ErrInvalidVersion, None))
      else
        bindW (failW (w, v3Normalize (ve_unicode env) words (vo_CaseSensitive (ve_opts env)))) (\<lambda>w1 normalized.
          withWriter env expected (changeBody env expected normalized mode) w1))"

definition v3_Replace :: "v3env \<Rightarrow> gostring \<Rightarrow> gostring list \<Rightarrow> v3world \<Rightarrow> v3world \<times> WriteResult outcome" where
  "v3_Replace env expected words = change env expected words ''replace''"

definition v3_AddMany :: "v3env \<Rightarrow> gostring \<Rightarrow> gostring list \<Rightarrow> v3world \<Rightarrow> v3world \<times> WriteResult outcome" where
  "v3_AddMany env expected words = change env expected words ''add''"

definition v3_RemoveMany :: "v3env \<Rightarrow> gostring \<Rightarrow> gostring list \<Rightarrow> v3world \<Rightarrow> v3world \<times> WriteResult outcome" where
  "v3_RemoveMany env expected words = change env expected words ''remove''"

definition v3_Add :: "v3env \<Rightarrow> gostring \<Rightarrow> gostring \<Rightarrow> v3world \<Rightarrow> v3world \<times> WriteResult outcome" where
  "v3_Add env expected word = v3_AddMany env expected [word]"

definition v3_Remove :: "v3env \<Rightarrow> gostring \<Rightarrow> gostring \<Rightarrow> v3world \<Rightarrow> v3world \<times> WriteResult outcome" where
  "v3_Remove env expected word = v3_RemoveMany env expected [word]"

section \<open>Changing the layout\<close>

definition reshardBucket :: "v3env \<Rightarrow> v3Manifest \<Rightarrow> nat \<Rightarrow> v3Manifest \<times> v3Stage list \<Rightarrow> v3world \<Rightarrow> v3world \<times> (v3Manifest \<times> v3Stage list) result" where
  "reshardBucket env old i s w =
     (case v3check w of
        (w1, Some err) \<Rightarrow> (w1, Inl err)
      | (w1, None) \<Rightarrow>
          bindW (bucket env (mf_Buckets old ! i) w1) (\<lambda>w2 words.
            case v3Stages (ve_H env) words of (b, work) \<Rightarrow>
              (case s of (m, stages) \<Rightarrow>
                 (case mf_global m of
                    Some g \<Rightarrow>
                      (if bk_Count b > 0 then
                         (let shard = shardOf g i in
                          (w2, Inr (m\<lparr>mf_Buckets := (mf_Buckets m)[i := b\<lparr>bk_sharded := True, bk_shard := shard\<rparr>]\<rparr>,
                            stages @ placeStages shard work)))
                       else (w2, Inr (m\<lparr>mf_Buckets := (mf_Buckets m)[i := b]\<rparr>, stages @ work)))
                  | None \<Rightarrow> (w2, Inr (m\<lparr>mf_Buckets := (mf_Buckets m)[i := b]\<rparr>, stages @ work))))))"

definition reshardBuckets :: "v3env \<Rightarrow> v3Manifest \<Rightarrow> v3Manifest \<Rightarrow> v3world \<Rightarrow> v3world \<times> (v3Manifest \<times> v3Stage list) result" where
  "reshardBuckets env old m w = loopW (reshardBucket env old) [0..<v3BucketCount] (m, []) w"

definition reshardTarget :: "v3Manifest \<Rightarrow> gostring \<Rightarrow> 16 word \<Rightarrow> v3Manifest" where
  "reshardTarget old expected n =
     (let m = zeroManifest\<lparr>mf_Version := expected, mf_Sequence := mf_Sequence old, mf_Count := mf_Count old\<rparr> in
      if n > 1 then
        m\<lparr>mf_global := Some \<lparr>gm_Version = [], gm_Sequence = 0,
            gm_Layout = \<lparr>lay_Version = v3ShardedLayoutVersion, lay_ShardCount = n\<rparr>,
            gm_Shards = replicate (unat n) [], gm_Count = 0\<rparr>\<rparr>
      else m)"

definition reshardBody :: "v3env \<Rightarrow> gostring \<Rightarrow> 16 word \<Rightarrow> v3Lease \<Rightarrow> v3world \<Rightarrow> v3world \<times> WriteResult outcome" where
  "reshardBody env expected n l w =
     bindW (failW (loadManifest env expected w)) (\<lambda>w1 old.
       (let (w2, operation) = v3ID w1;
            r = \<lparr>wr_PreviousVersion = expected, wr_Version = expected, wr_OperationID = operation, wr_Added = 0, wr_Removed = 0\<rparr> in
        if lay_ShardCount (v3ManifestLayout old) = n then prepareCommit env l old r [] [] False w2
        else
          bindW (failW (reshardBuckets env old (reshardTarget old expected n) w2)) (\<lambda>w3 (m, stages).
            prepareCommit env l m r stages (if n > 1 then [0..<unat n] else []) True w3)))"

definition v3_Reshard :: "v3env \<Rightarrow> gostring \<Rightarrow> 16 word \<Rightarrow> v3world \<Rightarrow> v3world \<times> WriteResult outcome" where
  "v3_Reshard env expected n w =
     (if \<not> v3valid (ve_id env) expected then (w, Inl (ErrInvalidVersion, None))
      else if \<not> v3ValidShardCount n
      then (w, Inl (ErrText ''acor: shard count must be a power of two between 1 and 256'', None))
      else withWriter env expected (reshardBody env expected n) w)"

end
