(* ===== verification/V3_Reading.thy ===== *)
theory V3_Reading
  imports V3_Client
begin

text \<open>
  What a generation holds in the keys of one moment (\<open>manifestIn\<close>, \<open>bucketIn\<close>,
  \<open>holds\<close>), and what follows for the reading operations, whose commands see different
  moments: under a writer's lease the stored data only grows, so whatever was read is
  still there at every later moment at which the lease is live.
\<close>

section \<open>What is stored\<close>

type_synonym v3content = "nspace \<Rightarrow> gostring \<rightharpoonup> v3data"

definition contents :: "v3keys \<Rightarrow> v3content" where
  "contents k = (\<lambda>n. ns_content (ns_get n k))"

definition content_le :: "v3content \<Rightarrow> v3content \<Rightarrow> bool" where
  "content_le C C' \<longleftrightarrow> (\<forall>n key x. C n key = Some x \<longrightarrow> C' n key = Some x)"

lemma content_le_refl [simp]: "content_le C C"
  by (simp add: content_le_def)

lemma content_le_trans: "content_le A B \<Longrightarrow> content_le B C \<Longrightarrow> content_le A C"
  by (simp add: content_le_def)

lemma content_leD: "content_le C C' \<Longrightarrow> C n key = Some x \<Longrightarrow> C' n key = Some x"
  by (simp add: content_le_def)

section \<open>Reading at one moment\<close>

definition ok :: "'a result \<Rightarrow> 'a option" where
  "ok r = (case r of Inl err \<Rightarrow> None | Inr x \<Rightarrow> Some x)"

lemma ok_Inr [simp]: "ok (Inr x) = Some x"
  by (simp add: ok_def)

lemma ok_eq_Some [simp]: "ok r = Some x \<longleftrightarrow> r = Inr x"
  by (cases r) (simp_all add: ok_def)

fun chunksIn :: "(gostring \<Rightarrow> gostring) \<Rightarrow> v3content \<Rightarrow> v3Bucket \<Rightarrow> gostring list \<Rightarrow> gostring list option" where
  "chunksIn H C b [] = Some []"
| "chunksIn H C b (h # hs) =
     (case C (fst (bucketChunkKey b h)) (snd (bucketChunkKey b h)) of
        Some (Blob data) \<Rightarrow> do { part \<leftarrow> ok (decodeChunk H h data); rest \<leftarrow> chunksIn H C b hs; Some (part @ rest) }
      | _ \<Rightarrow> None)"

definition bucketIn :: "(gostring \<Rightarrow> gostring) \<Rightarrow> v3content \<Rightarrow> v3Bucket \<Rightarrow> gostring list option" where
  "bucketIn H C b =
     (if bk_Count b = 0 then (if bk_Chunks b \<noteq> [] then None else Some [])
      else do { words \<leftarrow> chunksIn H C b (bk_Chunks b); ok (checkBucket H b words) })"

text \<open>The shards one after the other, from one on.\<close>

fun shardsIn :: "v3content \<Rightarrow> v3GlobalManifest \<Rightarrow> nat list \<Rightarrow> v3Bucket list \<times> int \<Rightarrow> (v3Bucket list \<times> int) option" where
  "shardsIn C g [] s = Some s"
| "shardsIn C g (shard # shards) (buckets, n) =
     (case C (Shard shard) (''manifest:'' @ (gm_Shards g ! shard)) of
        Some x \<Rightarrow>
          (case v3DecodeShard x g shard buckets of
             Inr (buckets', m) \<Rightarrow> if m > gm_Count g - n then None else shardsIn C g shards (buckets', n + m)
           | Inl err \<Rightarrow> None)
      | None \<Rightarrow> None)"

definition manifestIn :: "gostring \<Rightarrow> v3content \<Rightarrow> gostring \<Rightarrow> v3Manifest option" where
  "manifestIn cid C version =
     (if \<not> v3valid cid version then None
      else (case C Global (''gen:'' @ version) of
          None \<Rightarrow> None
        | Some (GlobalDoc g) \<Rightarrow>
            do { g \<leftarrow> ok (globalDocument (GlobalDoc g) version);
                 (buckets, n) \<leftarrow> shardsIn C g [0..<length (gm_Shards g)] (mf_Buckets zeroManifest, 0);
                 if n \<noteq> gm_Count g then None
                 else Some \<lparr>mf_Version = version, mf_Sequence = gm_Sequence g, mf_Buckets = buckets, mf_Count = gm_Count g,
                            mf_global = Some g\<rparr> }
        | Some data \<Rightarrow> ok (legacyManifest data version)))"

lemma chunksIn_mono: "content_le C C' \<Longrightarrow> chunksIn H C b hs = Some words \<Longrightarrow> chunksIn H C' b hs = Some words"
  by (induction hs arbitrary: words) (auto simp: bind_eq_Some_conv dest: content_leD split: option.splits v3data.splits)

lemma bucketIn_mono: "content_le C C' \<Longrightarrow> bucketIn H C b = Some words \<Longrightarrow> bucketIn H C' b = Some words"
  by (auto simp: bucketIn_def bind_eq_Some_conv dest: chunksIn_mono split: if_splits)

lemma shardsIn_mono: "content_le C C' \<Longrightarrow> shardsIn C g shards s = Some r \<Longrightarrow> shardsIn C' g shards s = Some r"
proof (induction C g shards s rule: shardsIn.induct)
  case (2 C g shard shards buckets n)
  then show ?case
    by (auto simp: content_leD[OF 2(2)] split: option.splits sum.splits prod.splits if_splits)
qed simp

lemma manifestIn_mono:
  assumes "content_le C C'" and "manifestIn cid C version = Some m"
  shows "manifestIn cid C' version = Some m"
proof -
  obtain x where x: "C Global (''gen:'' @ version) = Some x" using assms(2) by (auto simp: manifestIn_def split: if_splits option.splits)
  from content_leD[OF assms(1) this] x assms(2) show ?thesis
    by (cases x) (auto simp: manifestIn_def bind_eq_Some_conv dest: shardsIn_mono[OF assms(1)] split: if_splits)
qed

section \<open>Dictionaries\<close>

text \<open>The words of each bucket: sorted, in the bucket their hash says, and valid.\<close>

definition dict_wf :: "(gostring \<Rightarrow> gostring) \<Rightarrow> (nat \<Rightarrow> gostring list) \<Rightarrow> bool" where
  "dict_wf H D \<longleftrightarrow> (\<forall>i < v3BucketCount. sorted (D i) \<and> distinct (D i) \<and> (\<forall>w \<in> set (D i). v3BucketNumber H w = i \<and> validString w \<and> w \<noteq> []))"

definition dictionary :: "(nat \<Rightarrow> gostring list) \<Rightarrow> gostring set" where
  "dictionary D = (\<Union>i < v3BucketCount. set (D i))"

definition holds :: "v3env \<Rightarrow> v3content \<Rightarrow> gostring \<Rightarrow> (nat \<Rightarrow> gostring list) \<Rightarrow> bool" where
  "holds env C version D \<longleftrightarrow>
     (\<exists>m. manifestIn (ve_id env) C version = Some m \<and> length (mf_Buckets m) = v3BucketCount \<and>
        (\<forall>i < v3BucketCount. bucketIn (ve_H env) C (mf_Buckets m ! i) = Some (D i))) \<and> dict_wf (ve_H env) D"

lemma holds_mono: "content_le C C' \<Longrightarrow> holds env C version D \<Longrightarrow> holds env C' version D"
  unfolding holds_def using manifestIn_mono bucketIn_mono by blast

section \<open>Moments of one client\<close>

text \<open>Time passes; when the lease is live at the later moment, it was at the earlier one and nothing was deleted since.\<close>

definition writerLive :: "gostring \<Rightarrow> v3keys \<Rightarrow> bool" where
  "writerLive m k \<longleftrightarrow> zlive (k_now k) (ns_writers (k_global k)) m"

definition later :: "gostring \<Rightarrow> v3keys \<Rightarrow> v3keys \<Rightarrow> bool" where
  "later m k k' \<longleftrightarrow> (writerLive m k' \<longrightarrow> writerLive m k \<and> content_le (contents k) (contents k'))"

lemma later_refl [simp]: "later m k k"
  by (simp add: later_def)

lemma later_trans: "later m a b \<Longrightarrow> later m b c \<Longrightarrow> later m a c"
  unfolding later_def using content_le_trans by blast


text \<open>The active generation is readable, and its sequence number is not the last one.\<close>

definition current :: "v3env \<Rightarrow> v3content \<Rightarrow> gostring \<Rightarrow> (nat \<Rightarrow> gostring list) \<Rightarrow> bool" where
  "current env C version D \<longleftrightarrow> holds env C version D \<and> (\<exists>m. manifestIn (ve_id env) C version = Some m \<and> mf_Sequence m + 1 \<noteq> 0)"

lemma current_mono: "content_le C C' \<Longrightarrow> current env C version D \<Longrightarrow> current env C' version D"
  unfolding current_def using holds_mono manifestIn_mono by blast

definition store_ok :: "v3env \<Rightarrow> v3keys \<Rightarrow> bool" where
  "store_ok env k \<longleftrightarrow> (\<exists>t D. k_active k = Some t \<and> current env (contents k) t D)"

lemma store_ok_mono:
  "store_ok env k \<Longrightarrow> k_active k' = k_active k \<Longrightarrow> content_le (contents k) (contents k') \<Longrightarrow> store_ok env k'"
  unfolding store_ok_def using current_mono by metis

text \<open>Writers and global maintenance exclude each other: every script keeps this, and so does time.\<close>

definition excluded :: "v3keys \<Rightarrow> bool" where
  "excluded k \<longleftrightarrow> (underMaintenance Global k \<longrightarrow> (\<forall>m. \<not> writerLive m k))"

text \<open>
  What the other clients may do: they never create, renew after its end, or delete
  under, the lease \<open>m\<close>; they do not use the operation identifiers \<open>I\<close>; and they keep the
  active generation readable.
\<close>

definition v3rely :: "v3env \<Rightarrow> gostring \<Rightarrow> gostring set \<Rightarrow> (v3keys \<Rightarrow> v3keys) \<Rightarrow> bool" where
  "v3rely env m I f \<longleftrightarrow> (\<forall>k. excluded k \<longrightarrow> excluded (f k) \<and> later m k (f k) \<and>
     (\<forall>i \<in> I. k_ops k i = None \<longrightarrow> k_ops (f k) i = None) \<and> (store_ok env k \<longrightarrow> store_ok env (f k)))"

definition reliable :: "v3env \<Rightarrow> gostring \<Rightarrow> gostring set \<Rightarrow> v3world \<Rightarrow> bool" where
  "reliable env m I w \<longleftrightarrow> excluded (vw_keys w) \<and> (\<forall>f \<in> set (vw_env w). v3rely env m I f)"

text \<open>A command that leaves the active generation and the receipts alone.\<close>

definition quietStep :: "v3keys \<Rightarrow> v3keys \<Rightarrow> bool" where
  "quietStep k k' \<longleftrightarrow> k_active k' = k_active k \<and> k_ops k' = k_ops k"

definition quiet :: "v3env \<Rightarrow> gostring \<Rightarrow> (v3keys \<Rightarrow> v3keys \<times> 'a) \<Rightarrow> bool" where
  "quiet env m f \<longleftrightarrow> (\<forall>k. quietStep k (fst (f k)) \<and> (excluded k \<longrightarrow> excluded (fst (f k))) \<and> later m k (fst (f k)) \<and> (store_ok env k \<longrightarrow> store_ok env (fst (f k))))"

text \<open>From one point of an operation to another with quiet commands only.\<close>

definition runs :: "v3env \<Rightarrow> gostring \<Rightarrow> gostring set \<Rightarrow> v3world \<Rightarrow> v3world \<Rightarrow> bool" where
  "runs env m I w w' \<longleftrightarrow>
     set (vw_env w') \<subseteq> set (vw_env w) \<and> set (vw_ids w') \<subseteq> set (vw_ids w) \<and>
     (\<exists>hs. vw_past w' = vw_past w @ hs \<and> (\<forall>(a, b) \<in> set hs. quietStep a b)) \<and>
     later m (vw_keys w) (vw_keys w') \<and> (excluded (vw_keys w) \<longrightarrow> excluded (vw_keys w')) \<and> (store_ok env (vw_keys w) \<longrightarrow> store_ok env (vw_keys w')) \<and>
     (\<forall>i \<in> I. k_ops (vw_keys w) i = None \<longrightarrow> k_ops (vw_keys w') i = None)"

lemma runs_refl [simp]: "runs env m I w w"
  by (simp add: runs_def)

lemma runs_trans: "runs env m I a b \<Longrightarrow> runs env m I b c \<Longrightarrow> runs env m I a c"
  unfolding runs_def by (fastforce intro: later_trans)

lemma runs_reliable: "runs env m I w w' \<Longrightarrow> reliable env m I w \<Longrightarrow> reliable env m I w'"
  by (auto simp: runs_def reliable_def)

lemma next_or_others: "reliable env m I w \<Longrightarrow> v3rely env m I (next_or id (vw_env w)) \<and> excluded (vw_keys w)"
  by (cases "vw_env w") (auto simp: reliable_def next_or_def v3rely_def)

lemma tl_subset: "set (tl xs) \<subseteq> set xs"
  by (cases xs) auto

lemma others_runs: "reliable env m I w \<Longrightarrow> runs env m I w (v3others w)"
  using next_or_others[of env m I w] by (auto simp: runs_def v3others_def v3rely_def dest: subsetD[OF tl_subset])

text \<open>A local step changes none of this.\<close>

definition local_step :: "v3world \<Rightarrow> v3world \<Rightarrow> bool" where
  "local_step w w' \<longleftrightarrow> vw_keys w' = vw_keys w \<and> vw_env w' = vw_env w \<and> vw_past w' = vw_past w \<and> set (vw_ids w') \<subseteq> set (vw_ids w)"

lemma local_runs: "local_step w w' \<Longrightarrow> runs env m I w w'"
  by (simp add: local_step_def runs_def)

lemma v3check_runs: "v3check w = (w', r) \<Longrightarrow> runs env m I w w'"
  by (auto simp: v3check_def local_step_def intro: local_runs)

lemma v3ID_runs: "v3ID w = (w', x) \<Longrightarrow> runs env m I w w'"
  by (auto simp: v3ID_def local_step_def dest: subsetD[OF tl_subset] intro!: local_runs)

lemma v3command_runs:
  assumes q: "quiet env m f" and rel: "reliable env m I w" and run: "v3command f w = (w', r)"
  shows "runs env m I w w'" "r = Inr x \<Longrightarrow> \<exists>k. snd (f k) = x \<and> vw_keys w' = fst (f k) \<and> later m (vw_keys w) k"
proof -
  let ?k = "vw_keys (v3others w)"
  from others_runs[OF rel] have o: "runs env m I w (v3others w)" .
  from q have f: "quietStep ?k (fst (f ?k))" "later m ?k (fst (f ?k))" "excluded ?k \<longrightarrow> excluded (fst (f ?k))" "store_ok env ?k \<longrightarrow> store_ok env (fst (f ?k))"
    by (simp_all add: quiet_def)
  obtain k' x' where fk: "f ?k = (k', x')" by fastforce
  have step: "runs env m I (v3others w) w'"
    using run f fk by (auto simp: v3command_def Let_def runs_def quietStep_def split: cmd_io.splits)
  show "runs env m I w w'" by (rule runs_trans[OF o step])
  show "\<exists>k. snd (f k) = x \<and> vw_keys w' = fst (f k) \<and> later m (vw_keys w) k" if "r = Inr x"
  proof (intro exI[of _ ?k] conjI)
    show "later m (vw_keys w) ?k" using o by (simp add: runs_def)
  qed (use that run fk in \<open>auto simp: v3command_def Let_def split: cmd_io.splits\<close>)
qed

section \<open>What is known from some point on\<close>

definition known :: "gostring \<Rightarrow> v3world \<Rightarrow> (v3content \<Rightarrow> bool) \<Rightarrow> bool" where
  "known m w P \<longleftrightarrow> (\<forall>k. later m (vw_keys w) k \<and> writerLive m k \<longrightarrow> P (contents k))"

lemma known_runs: "runs env m I w w' \<Longrightarrow> known m w P \<Longrightarrow> known m w' P"
  unfolding known_def runs_def using later_trans by blast

lemma known_conj: "known m w P \<Longrightarrow> known m w Q \<Longrightarrow> known m w (\<lambda>C. P C \<and> Q C)"
  by (simp add: known_def)

lemma known_mp: "known m w P \<Longrightarrow> (\<And>C. P C \<Longrightarrow> Q C) \<Longrightarrow> known m w Q"
  by (simp add: known_def)

text \<open>A monotone fact of the moment just reached is known.\<close>

lemma known_now:
  assumes "P (contents (vw_keys w))" and "\<And>C C'. content_le C C' \<Longrightarrow> P C \<Longrightarrow> P C'"
  shows "known m w P"
  using assms unfolding known_def later_def by blast

lemma bindW_cases:
  assumes "bindW p f = (w', r)"
  obtains (fail) w1 err where "p = (w1, Inl err)" "w' = w1" "r = Inl err"
    | (cont) w1 x where "p = (w1, Inr x)" "f w1 x = (w', r)"
  using assms by (auto simp: bindW_def split: prod.splits sum.splits)

lemma bindW_Inr: "bindW p f = (w', Inr y) \<longleftrightarrow> (\<exists>w1 x. p = (w1, Inr x) \<and> f w1 x = (w', Inr y))"
  by (auto simp: bindW_def split: prod.splits sum.splits)

lemma failW_Inr [simp]: "failW p = (w', Inr x) \<longleftrightarrow> p = (w', Inr x)"
  by (auto simp: failW_def split: prod.splits sum.splits)

lemma failW_Inl: "failW p = (w', Inl e) \<longleftrightarrow> (\<exists>err. p = (w', Inl err) \<and> e = (err, None))"
  by (auto simp: failW_def split: prod.splits sum.splits)

section \<open>Quiet commands\<close>

lemma quietI:
  assumes "\<And>k. k_active (fst (f k)) = k_active k" "\<And>k. k_ops (fst (f k)) = k_ops k"
    "\<And>k. content_le (contents k) (contents (fst (f k)))" "\<And>k m'. writerLive m' (fst (f k)) \<Longrightarrow> writerLive m' k"
    "\<And>k. underMaintenance Global (fst (f k)) \<Longrightarrow> underMaintenance Global k"
  shows "quiet env m f"
  using assms store_ok_mono[of env] by (simp add: quiet_def quietStep_def later_def excluded_def) blast

lemma quiet_reads [simp, intro]:
  "quiet env m (v3get key)" "quiet env m (v3CheckScript which m')" "quiet env m (v3DeadlineScript m')"
  by (rule quietI; simp add: v3get_def v3CheckScript_def v3DeadlineScript_def)+

lemma contents_update: "contents (ns_update n f k) n' = (if n' = n then ns_content (f (ns_get n k)) else contents k n')"
  by (cases n; cases n') (auto simp: contents_def)

lemma update_simps [simp]:
  "k_active (ns_update n f k) = k_active k" "k_ops (ns_update n f k) = k_ops k" "k_now (ns_update n f k) = k_now k"
  "k_committed (ns_update n f k) = k_committed k" "k_events (ns_update n f k) = k_events k" "k_meta (ns_update n f k) = k_meta k"
  by (cases n; simp)+

lemma global_update [simp]: "k_global (ns_update n f k) = (if n = Global then f (k_global k) else k_global k)"
  by (cases n) auto

lemma get_update [simp]: "ns_get n' (ns_update n f k) = (if n' = n then f (ns_get n k) else ns_get n' k)"
  by (cases n; cases n') auto

declare ns_update.simps [simp del]

lemma underMaintenance_update:
  "(\<And>s. ns_maintenance (f s) = ns_maintenance s) \<Longrightarrow> underMaintenance n (ns_update n' f k) = underMaintenance n k"
  by (auto simp: underMaintenance_def split: option.split)

lemma content_le_update: "(\<And>key x. ns_content (ns_get n k) key = Some x \<Longrightarrow> ns_content (f (ns_get n k)) key = Some x) \<Longrightarrow> content_le (contents k) (contents (ns_update n f k))"
  by (auto simp: content_le_def contents_update) (auto simp: contents_def)

lemma quiet_mirror [simp, intro]: "quiet env m (v3MirrorScript shard m' e fence)"
  by (rule quietI) (auto simp: v3MirrorScript_def writerLive_def underMaintenance_update intro!: content_le_update split: if_splits)

definition stageSpace :: "v3Stage \<Rightarrow> nspace" where
  "stageSpace st = (if st_sharded st then Shard (st_shard st) else Global)"

definition stageWrite :: "v3Stage \<Rightarrow> int \<Rightarrow> v3ns \<Rightarrow> v3ns" where
  "stageWrite st now s = s\<lparr>ns_registry := (ns_registry s)(st_registry st := zaddNX (st_id st) (now div 1000) (ns_registry s (st_registry st))),
     ns_content := (ns_content s)(st_key st \<mapsto> st_data st)\<rparr>"

lemma stage_cases:
  obtains (refused) r where "v3StageScript st m' k = (k, r)" "r \<noteq> 1"
    | (staged) "v3StageScript st m' k = (ns_update (stageSpace st) (stageWrite st (k_now k)) k, 1)"
        "contents k (stageSpace st) (st_key st) \<in> {None, Some (st_data st)}"
        "zlive (k_now k) (ns_writers (ns_get (stageSpace st) k)) m'" "\<not> underMaintenance (stageSpace st) k"
proof -
  let ?c = "ns_content (ns_get (stageSpace st) k) (st_key st)"
  have w: "stageWrite st (k_now k) = (\<lambda>s. s\<lparr>ns_registry := (ns_registry s)(st_registry st :=
      zaddNX (st_id st) (k_now k div 1000) (ns_registry s (st_registry st))), ns_content := (ns_content s)(st_key st \<mapsto> st_data st)\<rparr>)"
    by (simp add: stageWrite_def fun_eq_iff)
  consider "underMaintenance (stageSpace st) k" | "\<not> zlive (k_now k) (ns_writers (ns_get (stageSpace st) k)) m'"
    | "\<exists>x. ?c = Some x \<and> x \<noteq> st_data st"
    | "\<not> underMaintenance (stageSpace st) k" "zlive (k_now k) (ns_writers (ns_get (stageSpace st) k)) m'" "?c \<in> {None, Some (st_data st)}"
    by (cases ?c) auto
  then show thesis
  proof cases
    case 1
    then have "v3StageScript st m' k = (k, 0)" by (simp add: v3StageScript_def stageSpace_def[symmetric] Let_def)
    then show thesis by (rule refused) simp
  next
    case 2
    then have "v3StageScript st m' k = (k, 0)" by (simp add: v3StageScript_def stageSpace_def[symmetric] Let_def)
    then show thesis by (rule refused) simp
  next
    case 3
    then have "v3StageScript st m' k = (k, 0) \<or> v3StageScript st m' k = (k, -1)"
      by (auto simp: v3StageScript_def stageSpace_def[symmetric] Let_def)
    then show thesis using refused[of 0] refused[of "-1"] by auto
  next
    case 4
    then have c: "\<not> (\<exists>x. ?c = Some x \<and> x \<noteq> st_data st)" by auto
    have "v3StageScript st m' k = (ns_update (stageSpace st) (stageWrite st (k_now k)) k, 1)"
      unfolding v3StageScript_def stageSpace_def[symmetric] Let_def w[symmetric]
      by (simp only: 4(1) 4(2) c if_False not_True_eq_False)
    with 4 show thesis by (intro staged) (simp_all add: contents_def)
  qed
qed

lemma quiet_stage [simp, intro]: "quiet env m (v3StageScript st m')"
proof (rule quietI)
  fix k
  have "k_active (fst (v3StageScript st m' k)) = k_active k \<and> k_ops (fst (v3StageScript st m' k)) = k_ops k \<and>
    content_le (contents k) (contents (fst (v3StageScript st m' k))) \<and> (\<forall>m. writerLive m (fst (v3StageScript st m' k)) \<longrightarrow> writerLive m k) \<and>
    (underMaintenance Global (fst (v3StageScript st m' k)) \<longrightarrow> underMaintenance Global k)"
  proof (cases rule: stage_cases[where st = st and m' = m' and k = k])
    case staged
    have "content_le (contents k) (contents (ns_update (stageSpace st) (stageWrite st (k_now k)) k))"
      by (rule content_le_update) (use staged(2) in \<open>auto simp: stageWrite_def contents_def\<close>)
    moreover have "ns_writers (stageWrite st (k_now k) s) = ns_writers s" for s by (simp add: stageWrite_def)
    moreover have "ns_maintenance (stageWrite st (k_now k) s) = ns_maintenance s" for s by (simp add: stageWrite_def)
    ultimately show ?thesis using staged(1) by (simp add: writerLive_def underMaintenance_update)
  qed auto
  then show "k_active (fst (v3StageScript st m' k)) = k_active k" "k_ops (fst (v3StageScript st m' k)) = k_ops k"
    "content_le (contents k) (contents (fst (v3StageScript st m' k)))" "writerLive m1 (fst (v3StageScript st m' k)) \<Longrightarrow> writerLive m1 k"
    "underMaintenance Global (fst (v3StageScript st m' k)) \<Longrightarrow> underMaintenance Global k" for m1
    by auto
qed

section \<open>Decoding\<close>

text \<open>Decoding a batch is reading its shards one after the other.\<close>

lemma firstError_None: "firstError shard rs = None \<Longrightarrow> \<forall>r \<in> set rs. \<exists>x. r = Inr x"
  by (induction shard rs rule: firstError.induct) auto

lemma decodeBatch_shardsIn:
  assumes "decodeBatch g start rs s = Inr s'"
    and "\<forall>i < length rs. \<forall>x. rs ! i = Inr x \<longrightarrow> C (Shard (start + i)) (''manifest:'' @ (gm_Shards g ! (start + i))) = Some x"
  shows "shardsIn C g [start..<start + length rs] s = Some s'"
  using assms
proof (induction g start rs s rule: decodeBatch.induct)
  case (3 g shard x rs buckets n)
  have x: "C (Shard shard) (''manifest:'' @ (gm_Shards g ! shard)) = Some x" using 3(3)[rule_format, of 0 x] by simp
  from 3(2) obtain buckets' m where d: "v3DecodeShard x g shard buckets = Inr (buckets', m)" "\<not> m > gm_Count g - n"
    "decodeBatch g (Suc shard) rs (buckets', n + m) = Inr s'"
    by (auto split: sum.splits prod.splits if_splits)
  have "shardsIn C g [Suc shard..<Suc shard + length rs] (buckets', n + m) = Some s'"
  proof (rule 3(1)[OF d(1) _ d(2,3)])
    show "\<forall>i < length rs. \<forall>y. rs ! i = Inr y \<longrightarrow> C (Shard (Suc shard + i)) (''manifest:'' @ (gm_Shards g ! (Suc shard + i))) = Some y"
    proof (intro allI impI)
      fix i y assume "i < length rs" "rs ! i = Inr y"
      then show "C (Shard (Suc shard + i)) (''manifest:'' @ (gm_Shards g ! (Suc shard + i))) = Some y"
        using 3(3)[rule_format, of "Suc i" y] by simp
    qed
  qed simp
  moreover have "[shard..<shard + length (Inr x # rs)] = shard # [Suc shard..<Suc shard + length rs]" by (simp add: upt_conv_Cons del: upt_Suc)
  ultimately show ?case using x d by simp
qed simp_all

lemma shardsIn_append:
  "shardsIn C g (xs @ ys) s = (case shardsIn C g xs s of None \<Rightarrow> None | Some s' \<Rightarrow> shardsIn C g ys s')"
  by (induction C g xs s rule: shardsIn.induct) (auto split: option.splits sum.splits prod.splits)

text \<open>The concurrency is positive: it was validated, or is at least one.\<close>

definition env_opts_ok :: "v3env \<Rightarrow> bool" where
  "env_opts_ok env \<longleftrightarrow> 0 \<le> vo_ShardConcurrency (ve_opts env)"

section \<open>Reading while the keys change\<close>

text \<open>
  What the reading operations rely on.  From some points of an operation (\<open>ok_at\<close>) on, a
  key that was read is sure to hold what it held: \<open>sure w P\<close> says that the contents satisfy
  \<open>P\<close> at every relevant moment after \<open>w\<close>.
\<close>

locale reading =
  fixes ok_at :: "v3world \<Rightarrow> bool"
    and goes :: "v3world \<Rightarrow> v3world \<Rightarrow> bool"
    and sure :: "v3world \<Rightarrow> (v3content \<Rightarrow> bool) \<Rightarrow> bool"
  assumes goes_refl: "goes w w"
    and goes_trans: "goes a b \<Longrightarrow> goes b c \<Longrightarrow> goes a c"
    and goes_ok: "goes w w' \<Longrightarrow> ok_at w \<Longrightarrow> ok_at w'"
    and get_goes: "ok_at w \<Longrightarrow> v3command (v3get key) w = (w1, r) \<Longrightarrow> goes w w1"
    and get_holds: "ok_at w \<Longrightarrow> v3command (v3get key) w = (w1, Inr (Some x)) \<Longrightarrow> sure w1 (\<lambda>C. C (fst key) (snd key) = Some x)"
    and sure_goes: "goes w w' \<Longrightarrow> sure w P \<Longrightarrow> sure w' P"
    and sure_mp: "sure w P \<Longrightarrow> (\<And>C. P C \<Longrightarrow> Q C) \<Longrightarrow> sure w Q"
    and sure_all: "(\<And>i x. R i x \<Longrightarrow> sure w (F i x)) \<Longrightarrow> sure w (\<lambda>C. \<forall>(i::nat) (x::v3data). R i x \<longrightarrow> F i x C)"
begin

declare goes_refl [simp]

lemma sure_True [simp, intro]: "sure w (\<lambda>C. True)"
  using sure_all[of "\<lambda>i x. False" w "\<lambda>i x C. True"] by simp

lemma sure_conj:
  assumes "sure w P" "sure w Q"
  shows "sure w (\<lambda>C. P C \<and> Q C)"
proof (rule sure_mp)
  show "sure w (\<lambda>C. \<forall>(i::nat) (x::v3data). True \<longrightarrow> (if i = 0 then P C else Q C))"
  proof (rule sure_all)
    show "sure w (\<lambda>C. if i = 0 then P C else Q C)" for i :: nat by (cases "i = 0") (use assms in simp_all)
  qed
  show "P C \<and> Q C" if h: "\<forall>(i::nat) (x::v3data). True \<longrightarrow> (if i = 0 then P C else Q C)" for C
    using h[rule_format, of 0] h[rule_format, of 1] by simp
qed

lemma get_sure:
  assumes "ok_at w" and "v3command (v3get key) w = (w1, r)"
  shows "goes w w1" "r = Inr (Some x) \<Longrightarrow> sure w1 (\<lambda>C. C (fst key) (snd key) = Some x)"
  using assms get_goes get_holds by blast+

text \<open>A loop keeps a relation on its state and the world, when every step does.\<close>

lemma loopW_goes:
  assumes "\<And>x s w w' r. x \<in> set xs \<Longrightarrow> ok_at w \<Longrightarrow> f x s w = (w', r) \<Longrightarrow> goes w w'"
    and "ok_at w" and "loopW f xs s w = (w', r)"
  shows "goes w w'"
  using assms
proof (induction xs arbitrary: s w)
  case (Cons x xs)
  from Cons.prems(3) obtain "bindW (f x s w) (\<lambda>w s. loopW f xs s w) = (w', r)" by simp
  then show ?case
  proof (cases rule: bindW_cases)
    case (fail w1 err)
    then show ?thesis using Cons.prems(1)[of x w s w1] Cons.prems(2) by simp
  next
    case (cont w1 s1)
    have 1: "goes w w1" using Cons.prems(1)[of x w s w1] Cons.prems(2) cont(1) by simp
    have "goes w1 w'"
    proof (rule Cons.IH)
      show "goes v v'" if "y \<in> set xs" "ok_at v" "f y t v = (v', q)" for y t v v' q
        using Cons.prems(1)[of y v t v' q] that by simp
      show "ok_at w1" by (rule goes_ok[OF 1 Cons.prems(2)])
      show "loopW f xs s1 w1 = (w', r)" by (rule cont(2))
    qed
    with 1 show ?thesis by (rule goes_trans)
  qed
qed simp



lemma readChunk_correct:
  assumes rel: "ok_at w" and run: "readChunk env b h acc w = (w', r)"
  shows "goes w w'" "r = Inr words \<Longrightarrow> \<exists>part. words = acc @ part \<and> sure w' (\<lambda>C. chunksIn (ve_H env) C b [h] = Some part)"
proof -
  obtain w1 g where g: "v3command (v3get (bucketChunkKey b h)) w = (w1, g)" by fastforce
  note K = get_sure[OF rel g]
  from run g show "goes w w'" using K(1) by (auto simp: readChunk_def bindW_def split: sum.splits option.splits)
  assume r: "r = Inr words"
  from run g r obtain data part where x: "g = Inr (Some (Blob data))" "w' = w1" "decodeChunk (ve_H env) h data = Inr part" "words = acc @ part"
    by (auto simp: readChunk_def bindW_def bindR_Inr blobOf_def split: sum.splits option.splits v3data.splits)
  have "sure w' (\<lambda>C. chunksIn (ve_H env) C b [h] = Some part)"
    by (rule sure_mp[OF K(2)[OF x(1), folded x(2)]]) (simp add: x(3))
  with x(4) show "\<exists>part. words = acc @ part \<and> sure w' (\<lambda>C. chunksIn (ve_H env) C b [h] = Some part)" by blast
qed

lemma readChunks_correct:
  assumes "ok_at w" and "loopW (readChunk env b) hs acc w = (w', Inr words)"
  shows "\<exists>part. words = acc @ part \<and> sure w' (\<lambda>C. chunksIn (ve_H env) C b hs = Some part)"
  using assms
proof (induction hs arbitrary: acc w)
  case Nil
  then show ?case by auto
next
  case (Cons h hs)
  from Cons.prems(2) obtain w1 acc1 where 1: "readChunk env b h acc w = (w1, Inr acc1)" "loopW (readChunk env b) hs acc1 w1 = (w', Inr words)"
    by (auto simp: bindW_Inr)
  note C = readChunk_correct[OF Cons.prems(1) 1(1)]
  from C(2)[OF refl] obtain p where p: "acc1 = acc @ p" "sure w1 (\<lambda>C. chunksIn (ve_H env) C b [h] = Some p)" by blast
  have rel: "ok_at w1" by (rule goes_ok[OF C(1) Cons.prems(1)])
  from Cons.IH[OF rel 1(2)] obtain q where q: "words = acc1 @ q" "sure w' (\<lambda>C. chunksIn (ve_H env) C b hs = Some q)" by blast
  have "goes w1 w'" using loopW_goes[OF _ rel 1(2)] readChunk_correct(1) by blast
  from sure_conj[OF sure_goes[OF this p(2)] q(2)]
  have "sure w' (\<lambda>C. chunksIn (ve_H env) C b (h # hs) = Some (p @ q))"
    by (rule sure_mp) (auto simp: bind_eq_Some_conv split: option.splits v3data.splits)
  with p(1) q(1) show ?case by auto
qed

lemma bucket_goes:
  assumes rel: "ok_at w" and run: "bucket env b w = (w', r)"
  shows "goes w w'"
proof (cases "bk_Count b = 0")
  case False
  with run have "bindW (loopW (readChunk env b) (bk_Chunks b) [] w) (\<lambda>w1 words. (w1, checkBucket (ve_H env) b words)) = (w', r)"
    by (simp add: bucket_def)
  then show ?thesis
    by (cases rule: bindW_cases) (auto intro: loopW_goes[OF readChunk_correct(1) rel])
qed (use run in \<open>simp add: bucket_def\<close>)

lemma bucket_sure:
  assumes rel: "ok_at w" and run: "bucket env b w = (w', Inr words)"
  shows "sure w' (\<lambda>C. bucketIn (ve_H env) C b = Some words)"
proof (cases "bk_Count b = 0")
  case True
  with run show ?thesis by (auto simp: bucket_def bucketIn_def split: if_splits)
next
  case False
  with run obtain words' where l: "loopW (readChunk env b) (bk_Chunks b) [] w = (w', Inr words')" "checkBucket (ve_H env) b words' = Inr words"
    by (auto simp: bucket_def bindW_Inr)
  from readChunks_correct[OF rel l(1)] have "sure w' (\<lambda>C. chunksIn (ve_H env) C b (bk_Chunks b) = Some words')" by simp
  then show ?thesis by (rule sure_mp) (simp add: bucketIn_def False l(2))
qed



lemma pipelineGet_correct:
  assumes "ok_at w" and "pipelineGet keys w = (w', rs)"
  shows "goes w w' \<and> length rs = length keys \<and>
    (\<forall>i < length keys. \<forall>x. rs ! i = Inr x \<longrightarrow> sure w' (\<lambda>C. C (fst (keys ! i)) (snd (keys ! i)) = Some x))"
  using assms
proof (induction keys arbitrary: w rs)
  case (Cons key keys)
  obtain w1 r where 1: "v3command (v3get key) w = (w1, r)" by fastforce
  obtain w2 qs where 2: "pipelineGet keys w1 = (w2, qs)" by fastforce
  from Cons.prems(2) 1 2 have w': "w' = w2" and rs: "rs = bindR r (\<lambda>x. case x of None \<Rightarrow> Inl redisNil | Some d \<Rightarrow> Inr d) # qs" by auto
  note K = get_sure[OF Cons.prems(1) 1]
  note IH = Cons.IH[OF goes_ok[OF K(1) Cons.prems(1)] 2[folded w']]
  have "sure w' (\<lambda>C. C (fst ((key # keys) ! i)) (snd ((key # keys) ! i)) = Some x)" if i: "i < length (key # keys)" "rs ! i = Inr x" for i x
  proof (cases i)
    case 0
    with i(2) have "r = Inr (Some x)" by (auto simp: rs bindR_Inr split: option.splits)
    with K(2) IH have "sure w' (\<lambda>C. C (fst key) (snd key) = Some x)" using sure_goes by blast
    with 0 show ?thesis by simp
  next
    case (Suc j)
    with i IH show ?thesis by (simp add: rs)
  qed
  with IH goes_trans[OF K(1)] show ?case by (simp add: rs)
qed simp

lemma loadBatch_correct:
  assumes rel: "ok_at w" and run: "loadBatch g start to s w = (w', r)" and le: "start \<le> to"
  shows "goes w w' \<and> (\<forall>s'. r = Inr s' \<longrightarrow> sure w' (\<lambda>C. shardsIn C g [start..<to] s = Some s'))"
proof (cases "filter (\<lambda>shard. length (gm_Shards g ! shard) \<noteq> v3IDLength) [start..<to]")
  case (Cons a as)
  with run show ?thesis by (auto simp: loadBatch_def)
next
  case Nil
  let ?keys = "map (\<lambda>shard. (Shard shard, ''manifest:'' @ (gm_Shards g ! shard))) [start..<to]"
  obtain w1 rs where p: "pipelineGet ?keys w = (w1, rs)" by fastforce
  note P = pipelineGet_correct[OF rel p]
  from run Nil p have w': "w' = w1" and r: "r = (case firstError start rs of Some err \<Rightarrow> Inl err | None \<Rightarrow> decodeBatch g start rs s)"
    by (auto simp: loadBatch_def split: option.splits)
  have len: "start + length rs = to" using P le by simp
  have "sure w' (\<lambda>C. shardsIn C g [start..<to] s = Some s')" if "r = Inr s'" for s'
  proof -
    from that r have d: "decodeBatch g start rs s = Inr s'" by (auto split: option.splits)
    have "sure w' (\<lambda>C. \<forall>i x. i < length rs \<and> rs ! i = Inr x \<longrightarrow> C (Shard (start + i)) (''manifest:'' @ (gm_Shards g ! (start + i))) = Some x)"
      by (rule sure_all) (use P in \<open>auto simp: w'\<close>)
    then show ?thesis by (rule sure_mp) (use decodeBatch_shardsIn[OF d] len in auto)
  qed
  with P show ?thesis by (simp add: w')
qed

lemma loadShards_correct:
  assumes "ok_at w" and "loadShards g c start s w = (w', r)" and "0 < c" and "start \<le> length (gm_Shards g)"
  shows "goes w w' \<and> (\<forall>s'. r = Inr s' \<longrightarrow> sure w' (\<lambda>C. shardsIn C g [start..<length (gm_Shards g)] s = Some s'))"
  using assms
proof (induction g c start s w rule: loadShards.induct)
  case (1 g c start s w)
  let ?to = "min (start + c) (length (gm_Shards g))"
  show ?case
  proof (cases "start < length (gm_Shards g)")
    case False
    with 1 show ?thesis by (auto simp: loadShards.simps[of g c start])
  next
    case True
    with 1(3,4) have b: "bindW (loadBatch g start ?to s w) (\<lambda>w1 s1. loadShards g c ?to s1 w1) = (w', r)"
      by (simp add: loadShards.simps[of g c start] Let_def)
    have le: "start \<le> ?to" using True by simp
    from b show ?thesis
    proof (cases rule: bindW_cases)
      case (fail w1 err)
      with loadBatch_correct[OF 1(2) fail(1) le] show ?thesis by simp
    next
      case (cont w1 s1)
      note B = loadBatch_correct[OF 1(2) cont(1) le]
      have rel: "ok_at w1" using B 1(2) goes_ok by blast
      have IH: "goes w1 w' \<and> (\<forall>s'. r = Inr s' \<longrightarrow> sure w' (\<lambda>C. shardsIn C g [?to..<length (gm_Shards g)] s1 = Some s'))"
        by (rule 1(1)[OF _ refl rel cont(2)]) (use True 1(4) in auto)
      have "sure w' (\<lambda>C. shardsIn C g [start..<length (gm_Shards g)] s = Some s')" if "r = Inr s'" for s'
      proof -
        have "sure w' (\<lambda>C. shardsIn C g [start..<?to] s = Some s1 \<and> shardsIn C g [?to..<length (gm_Shards g)] s1 = Some s')"
          using B IH that sure_goes sure_conj by blast
        moreover have "[start..<length (gm_Shards g)] = [start..<?to] @ [?to..<length (gm_Shards g)]"
          using upt_add_eq_append[of start ?to "length (gm_Shards g) - ?to"] le by simp
        ultimately show ?thesis by (elim sure_mp) (simp add: shardsIn_append)
      qed
      with B IH show ?thesis using goes_trans by blast
    qed
  qed
qed

lemma loadManifest_correct:
  assumes o: "env_opts_ok env" and rel: "ok_at w" and run: "loadManifest env t w = (w', r)"
  shows "goes w w' \<and> (\<forall>mf. r = Inr mf \<longrightarrow> sure w' (\<lambda>C. manifestIn (ve_id env) C t = Some mf))"
proof (cases "v3valid (ve_id env) t")
  case False
  with run show ?thesis by (auto simp: loadManifest_def)
next
  case True
  obtain w1 g where g: "v3command (v3get (Global, ''gen:'' @ t)) w = (w1, g)" by fastforce
  note K = get_sure[OF rel g]
  have rel1: "ok_at w1" by (rule goes_ok[OF K(1) rel])
  consider (short) "w' = w1" "\<forall>mf. r \<noteq> Inr mf" | (legacy) x where "g = Inr (Some x)" "\<forall>gm. x \<noteq> GlobalDoc gm" "w' = w1" "r = legacyManifest x t"
    | (glob) gm where "g = Inr (Some (GlobalDoc gm))" "globalDocument (GlobalDoc gm) t = Inr gm"
    using run True g by (auto simp: loadManifest_def bindW_def globalDocument_def split: sum.splits option.splits v3data.splits if_splits)
  then show ?thesis
  proof cases
    case short
    with K(1) show ?thesis by simp
  next
    case legacy
    have "sure w' (\<lambda>C. manifestIn (ve_id env) C t = Some mf)" if "r = Inr mf" for mf
      by (rule sure_mp[OF K(2)[OF legacy(1), folded legacy(3)]])
        (use legacy that True in \<open>auto simp: manifestIn_def split: v3data.splits\<close>)
    with K(1) legacy(3) show ?thesis by simp
  next
    case glob
    let ?c = "nat (shardConcurrency (vo_ShardConcurrency (ve_opts env)) (ve_gomaxprocs env) (int (unat (lay_ShardCount (gm_Layout gm)))))"
    have c: "0 < ?c" using o by (auto simp: env_opts_ok_def shardConcurrency_def)
    have "bindW (loadShards gm ?c 0 (mf_Buckets zeroManifest, 0) w1) (\<lambda>w3 (buckets, n).
        (w3, if n \<noteq> gm_Count gm then Inl ErrVersionedCorrupt
             else Inr \<lparr>mf_Version = t, mf_Sequence = gm_Sequence gm, mf_Buckets = buckets, mf_Count = gm_Count gm, mf_global = Some gm\<rparr>)) = (w', r)"
      using run True g glob by (simp add: loadManifest_def bindW_def)
    then show ?thesis
    proof (cases rule: bindW_cases)
      case (fail w2 err)
      with loadShards_correct[OF rel1 fail(1) c] goes_trans[OF K(1)] show ?thesis by simp
    next
      case (cont w2 s)
      obtain buckets n where s: "s = (buckets, n)" by fastforce
      from cont(2) s have w': "w' = w2" by simp
      note L = loadShards_correct[OF rel1 cont(1) c]
      have "sure w' (\<lambda>C. manifestIn (ve_id env) C t = Some mf)" if "r = Inr mf" for mf
      proof -
        have "sure w' (\<lambda>C. C Global (''gen:'' @ t) = Some (GlobalDoc gm) \<and>
            shardsIn C gm [0..<length (gm_Shards gm)] (mf_Buckets zeroManifest, 0) = Some (buckets, n))"
          using L K(2)[OF glob(1)] sure_goes sure_conj unfolding w' s by simp blast
        then show ?thesis
          by (rule sure_mp) (use cont(2) that glob(2) True s in \<open>auto simp: manifestIn_def split: if_splits\<close>)
      qed
      with L w' goes_trans[OF K(1)] show ?thesis by simp
    qed
  qed
qed

end

section \<open>Reading under a lease\<close>

lemma get_known:
  assumes "reliable env m I w" and "v3command (v3get key) w = (w1, r)"
  shows "runs env m I w w1" "r = Inr (Some x) \<Longrightarrow> known m w1 (\<lambda>C. C (fst key) (snd key) = Some x)"
proof -
  note q = quiet_reads(1)[of env m key]
  show "runs env m I w w1" by (rule v3command_runs(1)[OF q assms])
  show "known m w1 (\<lambda>C. C (fst key) (snd key) = Some x)" if "r = Inr (Some x)"
  proof (rule known_now)
    from v3command_runs(2)[OF q assms that] show "contents (vw_keys w1) (fst key) (snd key) = Some x"
      by (auto simp: v3get_def contents_def)
  qed (auto dest: content_leD)
qed

text \<open>Reading under the lease \<open>m\<close> of a writer.\<close>

interpretation leased: reading "reliable env m I" "runs env m I" "known m" for env m I
proof
  show "runs env m I w w' \<Longrightarrow> reliable env m I w \<Longrightarrow> reliable env m I w'" for w w' by (rule runs_reliable)
  show "runs env m I w w' \<Longrightarrow> known m w P \<Longrightarrow> known m w' P" for w w' P by (rule known_runs)
  show "reliable env m I w \<Longrightarrow> v3command (v3get key) w = (w1, Inr (Some x)) \<Longrightarrow> known m w1 (\<lambda>C. C (fst key) (snd key) = Some x)" for w key w1 x
    using get_known(2) by blast
qed (auto simp: known_def intro: runs_trans get_known(1))

end
