(* ===== verification/V3_Write.thy ===== *)
theory V3_Write
  imports V3_Reading
begin

text \<open>
  Writing a generation (\<^verbatim>\<open>versioned_write.go\<close>): what was staged under a live lease is there
  when the commit runs, the committed generation holds the edited dictionary, and the
  change takes effect at one instant, the commit.
\<close>

section \<open>Staging\<close>

definition staged :: "v3content \<Rightarrow> v3Stage list \<Rightarrow> bool" where
  "staged C stages \<longleftrightarrow> (\<forall>st \<in> set stages. C (stageSpace st) (st_key st) = Some (st_data st))"

lemma staged_simps [simp]:
  "staged C []" "staged C (st # stages) \<longleftrightarrow> C (stageSpace st) (st_key st) = Some (st_data st) \<and> staged C stages"
  "staged C (xs @ ys) \<longleftrightarrow> staged C xs \<and> staged C ys"
  by (auto simp: staged_def)

lemma stage_known:
  assumes rel: "reliable env m I w" and run: "v3command (v3StageScript st l) w = (w1, r)"
  shows "runs env m I w w1" "r = Inr 1 \<Longrightarrow> known m w1 (\<lambda>C. C (stageSpace st) (st_key st) = Some (st_data st))"
proof -
  note q = quiet_stage[of env m st l]
  show "runs env m I w w1" by (rule v3command_runs(1)[OF q rel run])
  show "known m w1 (\<lambda>C. C (stageSpace st) (st_key st) = Some (st_data st))" if r: "r = Inr 1"
  proof (rule known_now)
    from v3command_runs(2)[OF q rel run r] obtain k where k: "snd (v3StageScript st l k) = 1" "vw_keys w1 = fst (v3StageScript st l k)" by blast
    show "contents (vw_keys w1) (stageSpace st) (st_key st) = Some (st_data st)"
      by (cases rule: stage_cases[where st = st and m' = l and k = k]) (use k in \<open>auto simp: contents_update stageWrite_def\<close>)
  qed (auto dest: content_leD)
qed

lemma pipelineStage_correct:
  assumes "reliable env m I w" and "pipelineStage l stages w = (w', rs)"
  shows "runs env m I w w' \<and> (stagedAll rs = Inr () \<longrightarrow> known m w' (\<lambda>C. staged C stages))"
  using assms
proof (induction stages arbitrary: w rs)
  case Nil
  then show ?case by (simp add: known_def)
next
  case (Cons st stages)
  obtain w1 r where 1: "v3command (v3StageScript st (le_member l)) w = (w1, r)" by fastforce
  obtain w2 qs where 2: "pipelineStage l stages w1 = (w2, qs)" by fastforce
  from Cons.prems(2) 1 2 have w': "w' = w2" and rs: "rs = r # qs" by auto
  note K = stage_known[OF Cons.prems(1) 1]
  note IH = Cons.IH[OF runs_reliable[OF K(1) Cons.prems(1)] 2[folded w']]
  have "known m w' (\<lambda>C. staged C (st # stages))" if "stagedAll rs = Inr ()"
  proof -
    from that have "r = Inr 1" "stagedAll qs = Inr ()" by (cases r; auto simp: rs split: if_splits)+
    with K(2) IH have "known m w' (\<lambda>C. C (stageSpace st) (st_key st) = Some (st_data st) \<and> staged C stages)"
      using known_runs known_conj by blast
    then show ?thesis by simp
  qed
  with IH runs_trans[OF K(1)] show ?case by blast
qed

lemma stageBatch_correct:
  assumes "reliable env m I w" and "stageBatch l stages w = (w', r)"
  shows "runs env m I w w' \<and> (r = Inr u \<longrightarrow> known m w' (\<lambda>C. staged C stages))"
proof (cases "stages = []")
  case True
  with assms show ?thesis by (simp add: stageBatch_def known_def)
next
  case False
  obtain w1 rs where p: "pipelineStage l stages w = (w1, rs)" by fastforce
  with False assms(2) have w': "w' = w1" and r: "r = (case pipelineError rs of Some err \<Rightarrow> Inl err | None \<Rightarrow> stagedAll rs)"
    by (auto simp: stageBatch_def)
  with pipelineStage_correct[OF assms(1) p] show ?thesis by (auto split: option.splits)
qed

lemma loopW_collect:
  assumes step: "\<And>x w w' r. x \<in> set xs \<Longrightarrow> reliable env m I w \<Longrightarrow> f x () w = (w', r) \<Longrightarrow>
      runs env m I w w' \<and> (r = Inr () \<longrightarrow> known m w' (P x))"
    and rel: "reliable env m I w" and run: "loopW f xs () w = (w', r)"
  shows "runs env m I w w' \<and> (r = Inr () \<longrightarrow> known m w' (\<lambda>C. \<forall>x \<in> set xs. P x C))"
  using assms
proof (induction xs arbitrary: w)
  case Nil
  then show ?case by (simp add: known_def)
next
  case (Cons x xs)
  from Cons.prems(3) have "bindW (f x () w) (\<lambda>w s. loopW f xs s w) = (w', r)" by simp
  then show ?case
  proof (cases rule: bindW_cases)
    case (fail w1 err)
    with Cons.prems(1)[of x w w1] Cons.prems(2) show ?thesis by simp
  next
    case (cont w1 u)
    have 1: "runs env m I w w1 \<and> known m w1 (P x)" using Cons.prems(1)[of x w w1 "Inr u"] Cons.prems(2) cont(1) by simp
    have 2: "runs env m I w1 w' \<and> (r = Inr () \<longrightarrow> known m w' (\<lambda>C. \<forall>x \<in> set xs. P x C))"
    proof (rule Cons.IH)
      show "runs env m I v v' \<and> (q = Inr () \<longrightarrow> known m v' (P y))" if "y \<in> set xs" "reliable env m I v" "f y () v = (v', q)" for y v v' q
        using Cons.prems(1)[of y v v' q] that by simp
      show "reliable env m I w1" using 1 Cons.prems(2) runs_reliable by blast
      show "loopW f xs () w1 = (w', r)" using cont(2) by simp
    qed
    have "known m w' (\<lambda>C. \<forall>y \<in> set (x # xs). P y C)" if "r = Inr ()"
      by (rule known_mp[OF known_conj[OF known_runs[OF conjunct1[OF 2] conjunct2[OF 1]] conjunct2[OF 2, rule_format, OF that]]]) simp
    moreover have "runs env m I w w'" by (rule runs_trans[OF conjunct1[OF 1] conjunct1[OF 2]])
    ultimately show ?thesis by blast
  qed
qed

lemma quiet_release [simp, intro]: "quiet env m (v3ReleaseScript n which m')"
proof (rule quietI)
  fix k
  have z: "zlive now (zrem m' z) m1 \<Longrightarrow> zlive now z m1" for now z m1
    by (auto simp: zlive_def zrem_def delete_conv' split: option.splits if_splits)
  have c: "ns_content (ns_set which f s) = ns_content s" for f s by (simp add: ns_set_def)
  show "k_active (fst (v3ReleaseScript n which m' k)) = k_active k" "k_ops (fst (v3ReleaseScript n which m' k)) = k_ops k"
    by (simp_all add: v3ReleaseScript_def)
  show "content_le (contents k) (contents (fst (v3ReleaseScript n which m' k)))"
    by (simp add: v3ReleaseScript_def content_le_update c)
  show "writerLive m1 (fst (v3ReleaseScript n which m' k)) \<Longrightarrow> writerLive m1 k" for m1
    by (auto simp: v3ReleaseScript_def writerLive_def ns_set_def dest: z split: if_splits)
  show "underMaintenance Global (fst (v3ReleaseScript n which m' k)) \<Longrightarrow> underMaintenance Global k"
    by (simp add: v3ReleaseScript_def underMaintenance_update ns_set_def)
qed

lemma mirrorWriter_runs:
  assumes rel: "reliable env m I w" and run: "mirrorWriter l shard w = (w', r)"
  shows "runs env m I w w'"
proof -
  obtain w1 a where 1: "v3check w = (w1, a)" by fastforce
  note r1 = v3check_runs[OF 1, of env m I]
  note rel1 = runs_reliable[OF r1 rel]
  show ?thesis
  proof (cases a)
    case (Some err)
    with run 1 r1 show ?thesis by (simp add: mirrorWriter_def)
  next
    case None
    obtain w2 d where 2: "v3command (v3DeadlineScript (le_member l)) w1 = (w2, d)" by fastforce
    note r2 = v3command_runs(1)[OF quiet_reads(3) rel1 2]
    note rel2 = runs_reliable[OF r2 rel1]
    show ?thesis
    proof (cases "\<exists>e fence. d = Inr (Some (e, fence))")
      case False
      with run 1 2 None have "w' = w2" by (auto simp: mirrorWriter_def bindW_def split: sum.splits option.splits)
      with runs_trans[OF r1 r2] show ?thesis by simp
    next
      case True
      then obtain e fence where d: "d = Inr (Some (e, fence))" by blast
      obtain w3 q where 3: "v3command (v3MirrorScript shard (le_member l) e fence) w2 = (w3, q)" by fastforce
      note r3 = v3command_runs(1)[OF quiet_mirror rel2 3]
      note rel3 = runs_reliable[OF r3 rel2]
      obtain w4 c where 4: "v3check w3 = (w4, c)" by fastforce
      note r4 = v3check_runs[OF 4, of env m I]
      obtain w5 u where 5: "v3command (v3ReleaseScript (Shard shard) ''writers'' (le_member l)) w4 = (w5, u)" by fastforce
      note r5 = v3command_runs(1)[OF quiet_release runs_reliable[OF r4 rel3] 5]
      have "local_step w4 (w4\<lparr>vw_shards := s\<rparr>)" for s by (simp add: local_step_def)
      note r6 = local_runs[OF this, of env m I]
      from run 1 2 3 4 5 None d have "w' = w3 \<or> w' = w5 \<or> (\<exists>s. w' = w4\<lparr>vw_shards := s\<rparr>)"
        by (auto simp: mirrorWriter_def bindW_def split: sum.splits option.splits if_splits)
      then show ?thesis using r1 r2 r3 r4 r5 r6 runs_trans by metis
    qed
  qed
qed

lemma batches_elements: "n \<le> length xs \<or> length xs \<le> n \<Longrightarrow> 0 < b \<Longrightarrow> length xs \<le> n \<Longrightarrow> \<Union>(set ` set (batches n b xs)) = set xs"
proof (induction n arbitrary: xs)
  case (Suc n)
  have "length (drop b xs) \<le> n" if "xs \<noteq> []" using Suc.prems that by (cases xs) auto
  moreover have "set (take b xs) \<union> set (drop b xs) = set xs" by (metis append_take_drop_id set_append)
  ultimately show ?case using Suc.IH[of "drop b xs"] Suc.prems by auto
qed simp

lemma stageShard_correct:
  assumes rel: "reliable env m I w" and run: "stageShard l stages shard w = (w', r)"
  shows "runs env m I w w' \<and> (r = Inr () \<longrightarrow> known m w' (\<lambda>C. staged C (filter (\<lambda>st. st_sharded st \<and> st_shard st = shard) stages)))"
proof -
  let ?work = "filter (\<lambda>st. st_sharded st \<and> st_shard st = shard) stages"
  let ?parts = "batches (length ?work) v3StageBatch ?work"
  from run have "bindW (mirrorWriter l shard w) (\<lambda>w1 _. loopW (\<lambda>part _. stageBatch l part) ?parts () w1) = (w', r)"
    by (simp add: stageShard_def Let_def)
  then show ?thesis
  proof (cases rule: bindW_cases)
    case (fail w1 err)
    with mirrorWriter_runs[OF rel fail(1)] show ?thesis by simp
  next
    case (cont w1 u)
    note r1 = mirrorWriter_runs[OF rel cont(1)]
    have "runs env m I w1 w' \<and> (r = Inr () \<longrightarrow> known m w' (\<lambda>C. \<forall>part \<in> set ?parts. staged C part))"
      by (rule loopW_collect[OF _ runs_reliable[OF r1 rel] cont(2)]) (use stageBatch_correct in blast)
    moreover have "\<Union>(set ` set ?parts) = set ?work" by (rule batches_elements) (simp_all add: v3StageBatch_def)
    then have "(\<forall>part \<in> set ?parts. staged C part) \<longleftrightarrow> staged C ?work" for C unfolding staged_def by blast
    ultimately show ?thesis using runs_trans[OF r1] by simp
  qed
qed

definition order_ok :: "v3env \<Rightarrow> bool" where
  "order_ok env \<longleftrightarrow> (\<forall>xs. set (ve_order env xs) = set xs \<and> (distinct xs \<longrightarrow> distinct (ve_order env xs)))"

lemma stageAll_correct:
  assumes o: "order_ok env" and rel: "reliable env m I w" and run: "stageAll env l stages w = (w', r)"
  shows "runs env m I w w' \<and> (r = Inr () \<longrightarrow> known m w' (\<lambda>C. staged C stages))"
proof -
  let ?shards = "remdups (map st_shard (filter st_sharded stages))" and ?rest = "filter (\<lambda>st. \<not> st_sharded st) stages"
  consider "stages = []" | "stages \<noteq> []" "?shards = []" | "stages \<noteq> []" "?shards \<noteq> []" by blast
  then show ?thesis
  proof cases
    case 1
    with run show ?thesis by (simp add: stageAll_def known_def)
  next
    case 2
    then have "?rest = stages" by (auto simp: filter_empty_conv intro!: filter_True)
    with 2 run have "stageBatch l stages w = (w', r)" by (simp add: stageAll_def Let_def)
    with stageBatch_correct[OF rel this] show ?thesis by simp
  next
    case 3
    with run have "bindW (loopW (\<lambda>shard _. stageShard l stages shard) (ve_order env ?shards) () w) (\<lambda>w1 _. stageBatch l ?rest w1) = (w', r)"
      by (simp add: stageAll_def Let_def)
    then show ?thesis
    proof (cases rule: bindW_cases)
      case (fail w1 err)
      with loopW_collect[OF stageShard_correct rel fail(1)] show ?thesis by simp
    next
      case (cont w1 u)
      from loopW_collect[OF stageShard_correct rel cont(1)]
      have 1: "runs env m I w w1" "known m w1 (\<lambda>C. \<forall>shard \<in> set (ve_order env ?shards). staged C (filter (\<lambda>st. st_sharded st \<and> st_shard st = shard) stages))"
        by simp_all
      have 2: "runs env m I w1 w' \<and> (r = Inr () \<longrightarrow> known m w' (\<lambda>C. staged C ?rest))"
        using stageBatch_correct[OF runs_reliable[OF 1(1) rel] cont(2)] by blast
      have "known m w' (\<lambda>C. staged C stages)" if "r = Inr ()"
        by (rule known_mp[OF known_conj[OF known_runs[OF conjunct1[OF 2] 1(2)] conjunct2[OF 2, rule_format, OF that]]])
          (use o in \<open>auto simp: staged_def order_ok_def\<close>)
      with 1 2 show ?thesis using runs_trans by blast
    qed
  qed
qed

end
