(* ===== verification/V3_Generation.thy ===== *)
theory V3_Generation
  imports V3_Write
begin

text \<open>
  From the staged documents to the next generation: once the chunks, the shard manifests
  and the generation's document are stored, the generation reads back with the edited
  buckets, in both layouts.
\<close>

section \<open>Chunks\<close>

definition stageOf :: "(gostring \<Rightarrow> gostring) \<Rightarrow> gostring list \<Rightarrow> v3Stage" where
  "stageOf H seg = \<lparr>st_key = ''chunk:'' @ H (jsonStrings seg), st_registry = ''chunks'', st_id = H (jsonStrings seg),
     st_data = Blob (jsonStrings seg), st_shard = 0, st_sharded = False\<rparr>"

lemma chunksIn_segments:
  assumes "\<forall>seg \<in> set segs. \<forall>w \<in> set seg. validString w"
    and "\<forall>seg \<in> set segs. C (fst (bucketChunkKey b (H (jsonStrings seg)))) (''chunk:'' @ H (jsonStrings seg)) = Some (Blob (jsonStrings seg))"
  shows "chunksIn H C b (map (\<lambda>seg. H (jsonStrings seg)) segs) = Some (concat segs)"
  using assms
proof (induction segs)
  case (Cons seg segs)
  have "map (\<lambda>w. string_of (runes w)) seg = seg" using Cons.prems by (intro map_idI) (auto intro: validString_runes)
  then have "decodeChunk H (H (jsonStrings seg)) (jsonStrings seg) = Inr seg"
    by (simp add: decodeChunk_def jsonDecode_jsonStrings)
  moreover have "snd (bucketChunkKey b h) = ''chunk:'' @ h" for h by (simp add: bucketChunkKey_def)
  ultimately show ?case using Cons by simp
qed simp

text \<open>A bucket whose chunks are stored in its place reads back.\<close>

lemma v3Stages_bucketIn:
  assumes st: "v3Stages H words = (b, work)" and words: "sorted words" "\<forall>w \<in> set words. validString w"
    and b': "b' = b \<and> work' = work \<and> sh = False \<or> b' = b\<lparr>bk_sharded := True, bk_shard := shard\<rparr> \<and> work' = placeStages shard work \<and> sh = True"
    and C: "staged C work'"
  shows "bucketIn H C b' = Some words" and "bk_Count b' = int (length words)"
proof -
  have "bucketIn H C b' = Some words \<and> bk_Count b' = int (length words)"
  proof (cases "words = []")
    case True
    with st have "b = zeroBucket" by (simp add: v3Stages_def v3Chunks_def)
    with b' True show ?thesis by (auto simp: bucketIn_def zeroBucket_def)
  next
    case False
    obtain segs where segs: "snd (v3Chunks H words) = map (chunk_of H) segs" "concat segs = words"
      "fst (v3Chunks H words) = zeroBucket\<lparr>bk_Chunks := map fst (map (chunk_of H) segs), bk_Count := int (length words), bk_Checksum := H (jsonStrings words)\<rparr>"
      using v3Chunks_segments[OF False, of H] by metis
    have w: "work = map (stageOf H) segs" and bb: "b = zeroBucket\<lparr>bk_Chunks := map (\<lambda>seg. H (jsonStrings seg)) segs, bk_Count := int (length words), bk_Checksum := H (jsonStrings words)\<rparr>"
      using st segs by (auto simp: v3Stages_def stageOf_def chunk_of_def split: prod.splits)
    have "chunksIn H C b' (map (\<lambda>seg. H (jsonStrings seg)) segs) = Some (concat segs)"
    proof (rule chunksIn_segments)
      show "\<forall>seg \<in> set segs. \<forall>w \<in> set seg. validString w" using words(2) segs(2) by auto
      show "\<forall>seg \<in> set segs. C (fst (bucketChunkKey b' (H (jsonStrings seg)))) (''chunk:'' @ H (jsonStrings seg)) = Some (Blob (jsonStrings seg))"
        using b' C by (auto simp: w bb staged_def stageSpace_def stageOf_def bucketChunkKey_def placeStages_def zeroBucket_def)
    qed
    moreover have "checkBucket H b' words = Inr words" using b' words(1) by (auto simp: checkBucket_def bb)
    moreover have "bk_Chunks b' = map (\<lambda>seg. H (jsonStrings seg)) segs" "bk_Count b' = int (length words)" using b' by (auto simp: bb)
    ultimately show ?thesis using segs(2) False by (simp add: bucketIn_def)
  qed
  then show "bucketIn H C b' = Some words" "bk_Count b' = int (length words)" by simp_all
qed

lemma bucketIn_count: "bucketIn H C b = Some words \<Longrightarrow> bk_Count b = int (length words)"
  by (auto simp: bucketIn_def bind_eq_Some_conv checkBucket_def split: if_splits)

lemma bucketIn_cong:
  assumes "bk_Count b' = bk_Count b" "bk_Chunks b' = bk_Chunks b" "bk_Checksum b' = bk_Checksum b" "\<And>h. bucketChunkKey b' h = bucketChunkKey b h"
  shows "bucketIn H C b' = bucketIn H C b"
proof -
  have "chunksIn H C b' hs = chunksIn H C b hs" for hs
    using assms(4) by (induction hs) (simp_all split: option.split v3data.split)
  moreover have "checkBucket H b' = checkBucket H b" using assms(1,3) by (simp add: checkBucket_def fun_eq_iff)
  ultimately show ?thesis using assms(1,2) by (simp add: bucketIn_def)
qed

section \<open>The legacy layout\<close>

lemma countBuckets_Inr:
  "\<forall>b \<in> set bs. 0 \<le> bk_Count b \<Longrightarrow> n + sum_list (map bk_Count bs) \<le> tot \<Longrightarrow> countBuckets tot n bs = Inr (n + sum_list (map bk_Count bs))"
proof (induction bs arbitrary: n)
  case (Cons b bs)
  have "0 \<le> sum_list (map bk_Count bs)" using Cons.prems(1) by (intro sum_list_nonneg) auto
  with Cons show ?case by (simp add: algebra_simps)
qed simp

lemma countBuckets_sum: "countBuckets tot n bs = Inr n' \<Longrightarrow> n' = n + sum_list (map bk_Count bs)"
  by (induction tot n bs rule: countBuckets.induct) (auto split: if_splits)

lemma marshalBucket_simps [simp]:
  "bk_Count (marshalBucket b) = bk_Count b" "bk_Chunks (marshalBucket b) = bk_Chunks b" "bk_Checksum (marshalBucket b) = bk_Checksum b"
  "bk_sharded (marshalBucket b) = False" "bk_shard (marshalBucket b) = 0" "marshalBucket (marshalBucket b) = marshalBucket b"
  by (simp_all add: marshalBucket_def)

lemma bucketIn_marshal: "\<not> bk_sharded b \<Longrightarrow> bucketIn H C (marshalBucket b) = bucketIn H C b"
  by (rule bucketIn_cong) (simp_all add: bucketChunkKey_def)

lemma manifestIn_legacy:
  assumes "C Global (''gen:'' @ t) = Some (marshalManifest m)" "v3valid cid t" "mf_Version m = t" "mf_Sequence m \<noteq> 0"
    and "mf_Count m = sum_list (map bk_Count (mf_Buckets m))" "\<forall>b \<in> set (mf_Buckets m). 0 \<le> bk_Count b"
  shows "manifestIn cid C t = Some (m\<lparr>mf_Buckets := map marshalBucket (mf_Buckets m), mf_global := None\<rparr>)"
proof -
  have s: "map bk_Count (map marshalBucket (mf_Buckets m)) = map bk_Count (mf_Buckets m)" by simp
  have n: "0 \<le> mf_Count m" unfolding assms(5) using assms(6) by (intro sum_list_nonneg) auto
  have "countBuckets (mf_Count m) 0 (map marshalBucket (mf_Buckets m)) = Inr (0 + sum_list (map bk_Count (map marshalBucket (mf_Buckets m))))"
    by (rule countBuckets_Inr) (use assms(5,6) s in \<open>auto simp: comp_def\<close>)
  then show ?thesis using assms n by (simp add: manifestIn_def marshalManifest_def legacyManifest_def comp_def)
qed

lemma manifestIn_cases:
  assumes "manifestIn cid C t = Some m"
  obtains (legacy) d where "C Global (''gen:'' @ t) = Some (LegacyDoc d)" "legacyManifest (LegacyDoc d) t = Inr m" "mf_global m = None"
      "\<forall>b \<in> set (mf_Buckets m). \<not> bk_sharded b" "mf_Count m = sum_list (map bk_Count (mf_Buckets m))"
    | (sharded) g n where "C Global (''gen:'' @ t) = Some (GlobalDoc g)" "globalDocument (GlobalDoc g) t = Inr g" "mf_global m = Some g"
      "shardsIn C g [0..<length (gm_Shards g)] (mf_Buckets zeroManifest, 0) = Some (mf_Buckets m, n)"
proof -
  obtain x where x: "C Global (''gen:'' @ t) = Some x" using assms by (auto simp: manifestIn_def split: if_splits option.splits)
  show thesis
  proof (cases x)
    case (GlobalDoc g)
    with x assms show thesis
      by (intro sharded) (auto simp: manifestIn_def bind_eq_Some_conv globalDocument_def split: if_splits)
  next
    case (LegacyDoc d)
    with x assms have l: "legacyManifest (LegacyDoc d) t = Inr m" by (auto simp: manifestIn_def split: if_splits)
    then have "m = d\<lparr>mf_Buckets := map marshalBucket (mf_Buckets d), mf_global := None\<rparr>" "mf_Count d = sum_list (map bk_Count (mf_Buckets d))"
      by (auto simp: legacyManifest_def bindR_Inr dest: countBuckets_sum split: if_splits)
    then show thesis using x l LegacyDoc by (intro legacy) (auto simp: comp_def)
  qed (use x assms in \<open>auto simp: manifestIn_def legacyManifest_def split: if_splits\<close>)
qed

section \<open>The sharded layout\<close>

text \<open>The bucket that loading a generation takes from its shard's document.\<close>

definition docBucket :: "v3content \<Rightarrow> v3GlobalManifest \<Rightarrow> nat \<Rightarrow> v3Bucket" where
  "docBucket C g i =
     (let s = shardOf g i in
      case C (Shard s) (''manifest:'' @ (gm_Shards g ! s)) of
        Some (ShardDoc sm) \<Rightarrow>
          (case sm_Buckets sm of
             None \<Rightarrow> zeroBucket
           | Some bs \<Rightarrow> (case map_of (rev bs) i of None \<Rightarrow> zeroBucket | Some b \<Rightarrow> b\<lparr>bk_shard := s, bk_sharded := True\<rparr>))
      | _ \<Rightarrow> zeroBucket)"

lemma decodeShardLoop_nth:
  assumes "decodeShardLoop g s tot bs buckets n = Inr (buckets', n')"
  shows "length buckets' = length buckets \<and> (\<forall>i < length buckets. buckets' ! i =
      (case map_of (rev bs) i of None \<Rightarrow> buckets ! i | Some b \<Rightarrow> b\<lparr>bk_shard := s, bk_sharded := True\<rparr>)) \<and>
    (\<forall>(i, b) \<in> set bs. shardOf g i = s)"
  using assms
proof (induction g s tot bs buckets n rule: decodeShardLoop.induct)
  case (2 g s tot number b bs buckets n)
  let ?b = "buckets[number := b\<lparr>bk_shard := s, bk_sharded := True\<rparr>]"
  from 2(2) have s: "shardOf g number = s" and loop: "decodeShardLoop g s tot bs ?b (n + bk_Count b) = Inr (buckets', n')"
    by (auto split: if_splits)
  have IH: "length buckets' = length ?b \<and> (\<forall>i < length ?b. buckets' ! i =
      (case map_of (rev bs) i of None \<Rightarrow> ?b ! i | Some b \<Rightarrow> b\<lparr>bk_shard := s, bk_sharded := True\<rparr>)) \<and> (\<forall>(i, b) \<in> set bs. shardOf g i = s)"
    by (rule 2(1)) (use 2(2) loop in \<open>auto split: if_splits\<close>)
  show ?case
  proof (intro conjI allI impI)
    fix i assume i: "i < length buckets"
    with IH show "buckets' ! i = (case map_of (rev ((number, b) # bs)) i of None \<Rightarrow> buckets ! i | Some b \<Rightarrow> b\<lparr>bk_shard := s, bk_sharded := True\<rparr>)"
      by (auto simp: map_add_def nth_list_update split: option.splits)
  qed (use IH s in auto)
qed simp

lemma shardsIn_nth:
  assumes "shardsIn C g shards (buckets, n) = Some (buckets', n')" and "distinct shards"
    and "\<forall>i < length buckets. shardOf g i \<in> set shards \<longrightarrow> buckets ! i = zeroBucket"
  shows "length buckets' = length buckets \<and>
    (\<forall>i < length buckets. buckets' ! i = (if shardOf g i \<in> set shards then docBucket C g i else buckets ! i))"
  using assms
proof (induction shards arbitrary: buckets n)
  case (Cons s shards)
  from Cons.prems(1) obtain x buckets1 k where x: "C (Shard s) (''manifest:'' @ (gm_Shards g ! s)) = Some x"
    and d: "v3DecodeShard x g s buckets = Inr (buckets1, k)" and rest: "shardsIn C g shards (buckets1, n + k) = Some (buckets', n')"
    by (auto split: option.splits sum.splits prod.splits if_splits)
  from d obtain sm bs where sm: "x = ShardDoc sm" "sm_Buckets sm = Some bs" "decodeShardLoop g s (sm_Count sm) bs buckets 0 = Inr (buckets1, k)"
    by (auto simp: v3DecodeShard_def bindR_Inr split: v3data.splits option.splits if_splits)
  note L = decodeShardLoop_nth[OF sm(3)]
  have own: "map_of (rev bs) i = None" if "shardOf g i \<noteq> s" for i
    using L that by (auto simp: map_of_eq_None_iff)
  have keep: "buckets1 ! i = buckets ! i" if "i < length buckets" "shardOf g i \<noteq> s" for i
    using L that own[OF that(2)] by simp
  have take: "buckets1 ! i = docBucket C g i" if "i < length buckets" "shardOf g i = s" for i
    using L that x sm Cons.prems(3) by (auto simp: docBucket_def Let_def split: option.splits)
  have IH: "length buckets' = length buckets1 \<and>
    (\<forall>i < length buckets1. buckets' ! i = (if shardOf g i \<in> set shards then docBucket C g i else buckets1 ! i))"
  proof (rule Cons.IH[OF rest])
    show "distinct shards" using Cons.prems(2) by simp
    show "\<forall>i < length buckets1. shardOf g i \<in> set shards \<longrightarrow> buckets1 ! i = zeroBucket"
    proof (intro allI impI)
      fix i assume i: "i < length buckets1" "shardOf g i \<in> set shards"
      then have "i < length buckets" "shardOf g i \<noteq> s" using L Cons.prems(2) by auto
      with keep Cons.prems(3) i(2) show "buckets1 ! i = zeroBucket" by simp
    qed
  qed
  show ?case
  proof (intro conjI allI impI)
    show "length buckets' = length buckets" using IH L by simp
    fix i assume i: "i < length buckets"
    with IH L have e: "buckets' ! i = (if shardOf g i \<in> set shards then docBucket C g i else buckets1 ! i)" by simp
    show "buckets' ! i = (if shardOf g i \<in> set (s # shards) then docBucket C g i else buckets ! i)"
      using e keep[OF i] take[OF i] by auto
  qed
qed simp

text \<open>The manifests of the changed shards are staged under their new identifiers; the others keep theirs.\<close>

definition shardStage :: "v3GlobalManifest \<Rightarrow> v3Bucket list \<Rightarrow> nat \<Rightarrow> gostring \<Rightarrow> v3Stage" where
  "shardStage g buckets shard newID =
     (let bs = shardBuckets g buckets shard in
      \<lparr>st_key = ''manifest:'' @ newID, st_registry = ''manifests'', st_id = newID,
       st_data = marshalShard \<lparr>sm_ID = newID, sm_Shard = shard, sm_Buckets = Some bs, sm_Count = sum_list (map (\<lambda>(i, b). bk_Count b) bs)\<rparr>,
       st_shard = shard, st_sharded = True\<rparr>)"

lemma nextShards_correct:
  assumes "nextShards g buckets changed ids shards stages = (shards', stages')" and "distinct changed"
  shows "length shards' = length shards \<and> set stages \<subseteq> set stages' \<and> (\<forall>s. s \<notin> set changed \<longrightarrow> shards' ! s = shards ! s) \<and>
    (\<forall>s \<in> set changed. s < length shards \<longrightarrow> shardStage g buckets s (shards' ! s) \<in> set stages')"
  using assms
proof (induction changed arbitrary: ids shards stages)
  case (Cons shard changed)
  let ?id = "case ids of [] \<Rightarrow> [] | x # _ \<Rightarrow> x"
  have next1: "nextShards g buckets changed (tl ids) (shards[shard := ?id]) (stages @ [shardStage g buckets shard ?id]) = (shards', stages')"
    using Cons.prems(1) by (simp add: shardStage_def Let_def)
  have IH: "length shards' = length (shards[shard := ?id]) \<and> set (stages @ [shardStage g buckets shard ?id]) \<subseteq> set stages' \<and>
     (\<forall>s. s \<notin> set changed \<longrightarrow> shards' ! s = shards[shard := ?id] ! s) \<and>
     (\<forall>s \<in> set changed. s < length (shards[shard := ?id]) \<longrightarrow> shardStage g buckets s (shards' ! s) \<in> set stages')"
    by (rule Cons.IH[OF next1]) (use Cons.prems(2) in simp)
  have "shards' ! shard = ?id" if "shard < length shards" using IH Cons.prems(2) that by simp
  with IH Cons.prems(2) show ?case by auto
qed simp

lemma shardOf_Layout: "gm_Layout g' = gm_Layout g \<Longrightarrow> shardOf g' i = shardOf g i"
  by (simp add: shardOf_def)

lemma map_of_shardBuckets:
  assumes "i < length buckets"
  shows "map_of (rev (map (\<lambda>(n, b). (n, marshalBucket b)) (shardBuckets g buckets s))) i =
    (if bk_Count (buckets ! i) > 0 \<and> shardOf g i = s then Some (marshalBucket (buckets ! i)) else None)"
proof -
  let ?xs = "map (\<lambda>(n, b). (n, marshalBucket b)) (shardBuckets g buckets s)"
  have "distinct (map fst (zip [0..<length buckets] buckets))" by simp
  then have "distinct (map fst (shardBuckets g buckets s))" unfolding shardBuckets_def by (rule distinct_map_filter)
  then have d: "distinct (map fst ?xs)" by (simp add: comp_def case_prod_beta)
  then have "distinct (map fst (rev ?xs))" by (simp add: rev_map[symmetric])
  moreover have "(i, marshalBucket (buckets ! i)) \<in> set (rev ?xs)" if "bk_Count (buckets ! i) > 0 \<and> shardOf g i = s"
  proof -
    have "(i, buckets ! i) \<in> set (shardBuckets g buckets s)" using that assms by (auto simp: shardBuckets_def set_zip intro!: exI[of _ i])
    then show ?thesis by force
  qed
  moreover have "i \<notin> fst ` set (rev ?xs)" if "\<not> (bk_Count (buckets ! i) > 0 \<and> shardOf g i = s)"
    using that by (auto simp: shardBuckets_def set_zip)
  ultimately show ?thesis by (auto simp: map_of_eq_None_iff)
qed


section \<open>The next generation\<close>

lemma shardOf_less:
  assumes "globalDocument x t = Inr g"
  shows "shardOf g i < length (gm_Shards g)"
proof -
  from assms have "length (gm_Shards g) = unat (lay_ShardCount (gm_Layout g))" "v3ValidShardCount (lay_ShardCount (gm_Layout g))"
    by (auto simp: globalDocument_def layout_validate_def split: v3data.splits if_splits)
  moreover have "unat (w mod n) < unat n" if "v3ValidShardCount n" for w n :: "16 word"
  proof -
    have "n \<noteq> 0" using that by (auto simp: v3ValidShardCount_def)
    then have "0 < unat n" by (simp add: unat_gt_0)
    then show ?thesis by (simp add: unat_mod_distrib)
  qed
  ultimately show ?thesis by (simp add: shardOf_def)
qed

lemma holds_legacy:
  assumes next1: "v3NextManifest m order ids stages = (data, m2, stages1)" and g: "mf_global m = None"
    and st: "staged C [generationStage t data]" and t: "mf_Version m = t" "v3valid (ve_id env) t" and seq: "mf_Sequence m \<noteq> 0"
    and len: "length (mf_Buckets m) = v3BucketCount" and un: "\<forall>b \<in> set (mf_Buckets m). \<not> bk_sharded b"
    and n: "mf_Count m = sum_list (map bk_Count (mf_Buckets m))"
    and b: "\<And>i. i < v3BucketCount \<Longrightarrow> bucketIn (ve_H env) C (mf_Buckets m ! i) = Some (D i)" and wf: "dict_wf (ve_H env) D"
  shows "holds env C t D" and "m2 = m" and "stages1 = stages"
proof -
  from next1 g show "m2 = m" "stages1 = stages" by (simp_all add: v3NextManifest_def)
  from next1 g have d: "data = marshalManifest m" by (auto simp: v3NextManifest_def)
  have pos: "\<forall>b \<in> set (mf_Buckets m). 0 \<le> bk_Count b"
  proof
    fix x assume "x \<in> set (mf_Buckets m)"
    then obtain i where "i < v3BucketCount" "x = mf_Buckets m ! i" by (metis in_set_conv_nth len)
    with b bucketIn_count show "0 \<le> bk_Count x" by force
  qed
  have "C Global (''gen:'' @ t) = Some (marshalManifest m)" using st by (simp add: generationStage_def stageSpace_def d)
  from manifestIn_legacy[where C = C and t = t and m = m and cid = "ve_id env", OF this t(2) t(1) seq n pos]
  have "manifestIn (ve_id env) C t = Some (m\<lparr>mf_Buckets := map marshalBucket (mf_Buckets m), mf_global := None\<rparr>)" .
  moreover have "bucketIn (ve_H env) C (map marshalBucket (mf_Buckets m) ! i) = Some (D i)" if "i < v3BucketCount" for i
    using b[OF that] un that len by (simp add: bucketIn_marshal)
  ultimately show "holds env C t D" using wf len unfolding holds_def by auto
qed

lemma holds_sharded:
  assumes next1: "v3NextManifest m order ids stages = (data, m2, stages1)" and g: "mf_global m = Some g0" and order: "distinct order"
    and st: "staged C (stages1 @ [generationStage t data])" and man: "manifestIn (ve_id env) C t = Some m5"
    and len: "length (mf_Buckets m) = v3BucketCount"
    and b: "\<And>i. i < v3BucketCount \<Longrightarrow> bucketIn (ve_H env) C (mf_Buckets m ! i) = Some (D i)" and wf: "dict_wf (ve_H env) D"
    and placed: "\<And>i. i < v3BucketCount \<Longrightarrow> shardOf g0 i \<in> set order \<Longrightarrow> bk_Count (mf_Buckets m ! i) > 0 \<Longrightarrow>
      bk_sharded (mf_Buckets m ! i) \<and> bk_shard (mf_Buckets m ! i) = shardOf g0 i"
    and kept: "\<And>i. i < v3BucketCount \<Longrightarrow> shardOf g0 i \<notin> set order \<Longrightarrow> docBucket C g0 i = mf_Buckets m ! i"
  shows "holds env C t D" and "set stages \<subseteq> set stages1"
proof -
  let ?g1 = "g0\<lparr>gm_Version := mf_Version m, gm_Sequence := mf_Sequence m, gm_Count := mf_Count m\<rparr>"
  obtain shards where ns: "nextShards ?g1 (mf_Buckets m) order ids (gm_Shards ?g1) stages = (shards, stages1)"
    and d: "data = GlobalDoc (?g1\<lparr>gm_Shards := shards\<rparr>)"
    using next1 g by (auto simp: v3NextManifest_def Let_def split: prod.splits)
  let ?g2 = "?g1\<lparr>gm_Shards := shards\<rparr>"
  note N = nextShards_correct[OF ns order]
  from N show "set stages \<subseteq> set stages1" by simp
  have sh: "shardOf ?g1 i = shardOf g0 i" "shardOf ?g2 i = shardOf g0 i" for i by (rule shardOf_Layout, simp)+
  have "C Global (''gen:'' @ t) = Some (GlobalDoc ?g2)" using st by (simp add: generationStage_def stageSpace_def d)
  with man obtain n where gd: "globalDocument (GlobalDoc ?g2) t = Inr ?g2"
    and si: "shardsIn C ?g2 [0..<length (gm_Shards ?g2)] (mf_Buckets zeroManifest, 0) = Some (mf_Buckets m5, n)"
    by (cases rule: manifestIn_cases) auto
  have z: "mf_Buckets zeroManifest = replicate v3BucketCount zeroBucket" by (simp add: zeroManifest_def)
  have all: "shardOf ?g2 i \<in> set [0..<length (gm_Shards ?g2)]" for i using shardOf_less[OF gd, of i] by (simp only: set_upt atLeastLessThan_iff le0 simp_thms)
  have m5: "length (mf_Buckets m5) = v3BucketCount \<and> (\<forall>i < v3BucketCount. mf_Buckets m5 ! i = docBucket C ?g2 i)"
    using shardsIn_nth[OF si] all by (simp add: z)
  have doc: "bucketIn (ve_H env) C (docBucket C ?g2 i) = Some (D i)" if i: "i < v3BucketCount" for i
  proof (cases "shardOf g0 i \<in> set order")
    case False
    with N have "shards ! shardOf g0 i = gm_Shards g0 ! shardOf g0 i" by simp
    then have "docBucket C ?g2 i = docBucket C g0 i" unfolding docBucket_def sh by simp
    with kept[OF i False] b[OF i] show ?thesis by simp
  next
    case True
    let ?s = "shardOf g0 i" and ?b = "mf_Buckets m ! i"
    have "?s < length shards" using shardOf_less[OF gd, of i] sh(2)[of i] by simp
    with N True have in1: "shardStage ?g1 (mf_Buckets m) ?s (shards ! ?s) \<in> set stages1" by simp
    have "C (stageSpace x) (st_key x) = Some (st_data x)" if "x \<in> set stages1" for x using st that by (simp add: staged_def)
    from this[OF in1] have "C (Shard ?s) (''manifest:'' @ (shards ! ?s)) = Some (st_data (shardStage ?g1 (mf_Buckets m) ?s (shards ! ?s)))"
      by (simp add: stageSpace_def shardStage_def Let_def)
    then have "docBucket C ?g2 i = (if bk_Count ?b > 0 then marshalBucket ?b\<lparr>bk_shard := ?s, bk_sharded := True\<rparr> else zeroBucket)"
      unfolding docBucket_def sh
      by (simp add: shardStage_def marshalShard_def Let_def map_of_shardBuckets i len sh(1))
    moreover have "bucketIn (ve_H env) C (marshalBucket ?b\<lparr>bk_shard := ?s, bk_sharded := True\<rparr>) = bucketIn (ve_H env) C ?b" if "bk_Count ?b > 0"
      using placed[OF i True that] by (intro bucketIn_cong) (simp_all add: bucketChunkKey_def)
    moreover have "D i = []" if "\<not> bk_Count ?b > 0" using b[OF i] bucketIn_count[OF b[OF i]] that by simp
    moreover have "bucketIn (ve_H env) C zeroBucket = Some []" by (simp add: bucketIn_def zeroBucket_def)
    ultimately show ?thesis using b[OF i] by (cases "bk_Count ?b > 0") simp_all
  qed
  then show "holds env C t D" using man m5 wf unfolding holds_def by auto
qed

end
