(* ===== verification/V3_Commit.thy ===== *)
theory V3_Commit
  imports V3_Generation
begin

text \<open>
  Changes of a versioned collection are linearizable: of the commands of a change only
  the commit touches the active generation, and at the moment it runs the dictionary is
  exactly the expected one and becomes the edited one.
\<close>

section \<open>Instants\<close>

definition quietRun :: "(v3keys \<times> v3keys) list \<Rightarrow> bool" where
  "quietRun hs \<longleftrightarrow> (\<forall>(a, b) \<in> set hs. quietStep a b)"

lemma quietRun_append [simp]: "quietRun (xs @ ys) \<longleftrightarrow> quietRun xs \<and> quietRun ys"
  by (auto simp: quietRun_def)

lemma quietRun_Nil [simp]: "quietRun []"
  by (simp add: quietRun_def)

text \<open>The commands of this client between two points left the active generation and the receipts alone.\<close>

definition noEffect :: "v3world \<Rightarrow> v3world \<Rightarrow> bool" where
  "noEffect w w' \<longleftrightarrow> (\<exists>hs. vw_past w' = vw_past w @ hs \<and> quietRun hs)"

text \<open>
  One command took the active generation from the previous version, holding \<open>D\<close>, to
  the new one, holding \<open>D'\<close>, and left the receipt; the others changed nothing.
\<close>

definition takesEffect :: "v3env \<Rightarrow> WriteResult \<Rightarrow> (nat \<Rightarrow> gostring list) \<Rightarrow> (nat \<Rightarrow> gostring list) \<Rightarrow> v3world \<Rightarrow> v3world \<Rightarrow> bool" where
  "takesEffect env r D D' w w' \<longleftrightarrow>
     (\<exists>hs1 a b hs2. vw_past w' = vw_past w @ hs1 @ (a, b) # hs2 \<and> quietRun hs1 \<and> quietRun hs2 \<and>
        k_active a = Some (wr_PreviousVersion r) \<and> holds env (contents a) (wr_PreviousVersion r) D \<and>
        k_active b = Some (wr_Version r) \<and> holds env (contents b) (wr_Version r) D' \<and>
        k_ops b = (k_ops a)(wr_OperationID r \<mapsto> Some r))"

lemma runs_noEffect: "runs env m I w w' \<Longrightarrow> noEffect w w'"
  by (auto simp: runs_def noEffect_def quietRun_def)

lemma noEffect_trans: "noEffect a b \<Longrightarrow> noEffect b c \<Longrightarrow> noEffect a c"
  unfolding noEffect_def by (metis append.assoc quietRun_append)

lemma takesEffect_before:
  assumes "noEffect a b" "takesEffect env r D D' b c"
  shows "takesEffect env r D D' a c"
proof -
  from assms(1) obtain hs where hs: "vw_past b = vw_past a @ hs" "quietRun hs" by (auto simp: noEffect_def)
  from assms(2) obtain h1 x y h2 where h: "vw_past c = vw_past b @ h1 @ (x, y) # h2" "quietRun h1" "quietRun h2"
    "k_active x = Some (wr_PreviousVersion r)" "holds env (contents x) (wr_PreviousVersion r) D"
    "k_active y = Some (wr_Version r)" "holds env (contents y) (wr_Version r) D'" "k_ops y = (k_ops x)(wr_OperationID r \<mapsto> Some r)"
    unfolding takesEffect_def by blast
  show ?thesis unfolding takesEffect_def
    by (rule exI[of _ "hs @ h1"], rule exI[of _ x], rule exI[of _ y], rule exI[of _ h2]) (use hs h in simp)
qed

lemma takesEffect_after:
  assumes "takesEffect env r D D' a b" "noEffect b c"
  shows "takesEffect env r D D' a c"
proof -
  from assms(2) obtain hs where hs: "vw_past c = vw_past b @ hs" "quietRun hs" by (auto simp: noEffect_def)
  from assms(1) obtain h1 x y h2 where h: "vw_past b = vw_past a @ h1 @ (x, y) # h2" "quietRun h1" "quietRun h2"
    "k_active x = Some (wr_PreviousVersion r)" "holds env (contents x) (wr_PreviousVersion r) D"
    "k_active y = Some (wr_Version r)" "holds env (contents y) (wr_Version r) D'" "k_ops y = (k_ops x)(wr_OperationID r \<mapsto> Some r)"
    unfolding takesEffect_def by blast
  show ?thesis unfolding takesEffect_def
    by (rule exI[of _ h1], rule exI[of _ x], rule exI[of _ y], rule exI[of _ "h2 @ hs"]) (use hs h in simp)
qed

text \<open>
  What a write may do: the result it returns took effect; with an unknown outcome it
  took effect or did nothing; after any other error it did nothing.
\<close>

definition atomically :: "v3env \<Rightarrow> (WriteResult \<Rightarrow> (nat \<Rightarrow> gostring list) \<Rightarrow> (nat \<Rightarrow> gostring list) \<Rightarrow> bool) \<Rightarrow>
    v3world \<Rightarrow> v3world \<Rightarrow> WriteResult outcome \<Rightarrow> bool" where
  "atomically env P w w' res \<longleftrightarrow>
     (case res of
        Inr r \<Rightarrow> \<exists>D D'. takesEffect env r D D' w w' \<and> P r D D'
      | Inl (err, None) \<Rightarrow> noEffect w w'
      | Inl (err, Some r) \<Rightarrow> errors_Is err ErrCommitUnknown \<and> (noEffect w w' \<or> (\<exists>D D'. takesEffect env r D D' w w' \<and> P r D D')))"

lemma atomically_before: "noEffect a b \<Longrightarrow> atomically env P b c res \<Longrightarrow> atomically env P a c res"
  unfolding atomically_def
  by (auto split: sum.splits option.splits prod.splits intro: takesEffect_before noEffect_trans)

lemma atomically_after: "atomically env P a b res \<Longrightarrow> noEffect b c \<Longrightarrow> atomically env P a c res"
  unfolding atomically_def
  by (auto split: sum.splits option.splits prod.splits intro: takesEffect_after noEffect_trans)

section \<open>The commit\<close>

lemma commit_script_cases:
  obtains (refused) answer where "v3CommitScript l r seq layout k = (k, answer)" "\<forall>x. answer \<noteq> Receipt (Some x)"
    | (again) receipt where "v3CommitScript l r seq layout k = (k, Receipt receipt)" "k_ops k (wr_OperationID r) = Some receipt"
    | (took) k' where "v3CommitScript l r seq layout k = (k', Receipt (Some r))" "k_ops k (wr_OperationID r) = None"
        "writerLive l k" "k_active k = Some (wr_PreviousVersion r)" "k_active k' = Some (wr_Version r)"
        "k_ops k' = (k_ops k)(wr_OperationID r \<mapsto> Some r)" "contents k' = contents k"
proof (cases "k_ops k (wr_OperationID r)")
  case (Some receipt)
  then show thesis by (intro again) (simp_all add: v3CommitScript_def)
next
  case None
  let ?ok = "\<not> underMaintenance Global k \<and> writerLive l k \<and> k_active k = Some (wr_PreviousVersion r) \<and>
    ns_content (k_global k) (''gen:'' @ wr_Version r) \<noteq> None"
  show thesis
  proof (cases ?ok)
    case False
    then have "fst (v3CommitScript l r seq layout k) = k \<and> (\<forall>x. snd (v3CommitScript l r seq layout k) \<noteq> Receipt (Some x))"
      using None by (auto simp: v3CommitScript_def writerLive_def Let_def)
    then show thesis using refused by (cases "v3CommitScript l r seq layout k") auto
  next
    case True
    obtain k' a where c: "v3CommitScript l r seq layout k = (k', a)" by fastforce
    have "contents (k\<lparr>k_ops := x\<rparr>) n = contents k n" for x n by (cases n) (simp_all add: contents_def)
    moreover have "contents (k\<lparr>k_active := x, k_committed := y, k_meta := z, k_events := e\<rparr>) n = contents k n" for k :: v3keys and x y z e n
      by (cases n) (simp_all add: contents_def)
    moreover have "contents (ns_update Global f k) n = contents k n" if "\<And>s. ns_content (f s) = ns_content s" for f n k
      using that by (cases n) (simp_all add: contents_def ns_update.simps)
    ultimately have "contents k' = contents k" "k_ops k' = (k_ops k)(wr_OperationID r \<mapsto> Some r)" "k_active k' = Some (wr_Version r)" "a = Receipt (Some r)"
      using c True None by (auto simp: v3CommitScript_def writerLive_def Let_def fun_eq_iff split: if_splits)
    then show thesis using c True None by (intro took[of k']) simp_all
  qed
qed

lemma v3commit_atomically:
  assumes rel: "reliable env l I w" and l: "le_member lease = l" and op: "wr_OperationID r \<in> I" "k_ops (vw_keys w) (wr_OperationID r) = None"
    and ok: "store_ok env (vw_keys w)"
    and K: "known l w (\<lambda>C. \<forall>D. current env C (wr_PreviousVersion r) D \<longrightarrow> (\<exists>D'. holds env C (wr_Version r) D' \<and> P r D D'))"
    and run: "v3commit lease r m w = (w', res)"
  shows "atomically env P w w' res"
proof -
  let ?k = "vw_keys (v3others w)"
  let ?f = "v3CommitScript l r (mf_Sequence m) (v3ManifestLayout m)"
  have o: "runs env l I w (v3others w)" by (rule others_runs[OF rel])
  with op have none: "k_ops ?k (wr_OperationID r) = None" by (simp add: runs_def)
  have oe: "vw_past (v3others w) = vw_past w" by (simp add: v3others_def)
  obtain k' a where f: "?f ?k = (k', a)" by fastforce
  obtain w1 q where c: "v3command ?f w = (w1, q)" by fastforce
  have run': "w' = w1 \<and> res = (case q of Inl err \<Rightarrow> Inl (Joined ErrCommitUnknown err, Some r)
      | Inr answer \<Rightarrow> (case answer of CommitConflict \<Rightarrow> Inl (ErrConcurrencyConflict, None) | CommitMaintenance \<Rightarrow> Inl (ErrMaintenance, None)
           | CommitExpired \<Rightarrow> Inl (ErrLeaseExpired, None) | CommitMissing \<Rightarrow> Inl (ErrVersionedCorrupt, None)
           | Receipt None \<Rightarrow> Inl (ErrCommitUnknown, Some r) | Receipt (Some done) \<Rightarrow> Inr done))"
    using run c by (auto simp: v3commit_def l split: sum.splits)
  have q: "(\<exists>err. q = Inl err \<and> vw_past w1 = vw_past w) \<or> vw_past w1 = vw_past w @ [(?k, k')] \<and> (q = Inr a \<or> (\<exists>err. q = Inl err))"
    using c f oe by (auto simp: v3command_def Let_def split: cmd_io.splits)
  have unknown: "errors_Is (Joined ErrCommitUnknown err) ErrCommitUnknown" for err by (simp add: errors_Is_refl)
  show ?thesis
  proof (cases rule: commit_script_cases[where l = l and r = r and seq = "mf_Sequence m" and layout = "v3ManifestLayout m" and k = ?k])
    case (refused answer)
    with f have "k' = ?k" "a = answer" by simp_all
    with q have "noEffect w w1"
      by (auto simp: noEffect_def quietRun_def quietStep_def)
    with q run' refused \<open>a = answer\<close> unknown show ?thesis
      by (auto simp: atomically_def errors_Is_refl split: committed.splits option.splits)
  next
    case (again receipt)
    with none show ?thesis by simp
  next
    case (took k'')
    with f have k': "k'' = k'" "a = Receipt (Some r)" by simp_all
    from o ok have "store_ok env ?k" by (simp add: runs_def)
    then obtain D where cur: "current env (contents ?k) (wr_PreviousVersion r) D" using took(4) by (auto simp: store_ok_def)
    then have D: "holds env (contents ?k) (wr_PreviousVersion r) D" by (simp add: current_def)
    have "later l (vw_keys w) ?k" using o by (simp add: runs_def)
    with K took(3) have "\<forall>D. current env (contents ?k) (wr_PreviousVersion r) D \<longrightarrow> (\<exists>D'. holds env (contents ?k) (wr_Version r) D' \<and> P r D D')"
      unfolding known_def by blast
    with cur obtain D' where D': "holds env (contents ?k) (wr_Version r) D'" "P r D D'" by blast
    have eff: "takesEffect env r D D' w w1" if "vw_past w1 = vw_past w @ [(?k, k')]"
      unfolding takesEffect_def
      by (intro exI[of _ "[]"] exI[of _ ?k] exI[of _ k'] exI[of _ "[]"]) (use that took k' D D' in simp)
    have none': "noEffect w w1" if "vw_past w1 = vw_past w" using that by (auto simp: noEffect_def intro: exI[of _ "[]"])
    from q show ?thesis
    proof (elim disjE exE conjE)
      fix err assume "q = Inl err" "vw_past w1 = vw_past w"
      with run' none' unknown show ?thesis by (simp add: atomically_def)
    next
      assume "vw_past w1 = vw_past w @ [(?k, k')]" "q = Inr a"
      with run' k' eff D'(2) show ?thesis by (simp add: atomically_def) blast
    next
      fix err assume "vw_past w1 = vw_past w @ [(?k, k')]" "q = Inl err"
      with run' eff D'(2) unknown show ?thesis by (simp add: atomically_def) blast
    qed
  qed
qed


section \<open>Preparing the commit\<close>

text \<open>What the edited manifest has to satisfy where its stages are stored.\<close>

definition prepared :: "v3env \<Rightarrow> v3content \<Rightarrow> v3Manifest \<Rightarrow> nat list \<Rightarrow> int \<Rightarrow> (nat \<Rightarrow> gostring list) \<Rightarrow> bool" where
  "prepared env C m changedShards n D \<longleftrightarrow>
     length (mf_Buckets m) = v3BucketCount \<and> dict_wf (ve_H env) D \<and>
     (\<forall>i < v3BucketCount. bucketIn (ve_H env) C (mf_Buckets m ! i) = Some (D i)) \<and>
     (case mf_global m of
        None \<Rightarrow> (\<forall>b \<in> set (mf_Buckets m). \<not> bk_sharded b) \<and> mf_Sequence m + 1 \<noteq> 0 \<and> n = sum_list (map bk_Count (mf_Buckets m))
      | Some g0 \<Rightarrow>
          (\<forall>i < v3BucketCount. if shardOf g0 i \<in> set changedShards
             then bk_Count (mf_Buckets m ! i) > 0 \<longrightarrow> bk_sharded (mf_Buckets m ! i) \<and> bk_shard (mf_Buckets m ! i) = shardOf g0 i
             else docBucket C g0 i = mf_Buckets m ! i))"

lemma failW_cases: "failW p = (case p of (w, Inl err) \<Rightarrow> (w, Inl (err, None)) | (w, Inr x) \<Rightarrow> (w, Inr x))"
  by (simp add: failW_def)

lemma bindW_atomically:
  assumes run: "bindW (failW p) f = (w', res)" and p: "noEffect w (fst p)"
    and cont: "\<And>w1 x. p = (w1, Inr x) \<Longrightarrow> f w1 x = (w', res) \<Longrightarrow> atomically env P w1 w' res"
  shows "atomically env P w w' res"
proof -
  obtain w1 r where pr: "p = (w1, r)" by fastforce
  show ?thesis
  proof (cases r)
    case (Inl err)
    with run pr have "w' = w1" "res = Inl (err, None)" by (auto simp: bindW_def failW_def)
    with p pr show ?thesis by (simp add: atomically_def)
  next
    case (Inr x)
    with run pr have "f w1 x = (w', res)" by (simp add: bindW_def failW_def)
    with cont[of w1 x] p pr Inr show ?thesis by (auto intro: atomically_before)
  qed
qed

lemma prepareCommit_unchanged:
  assumes "reliable env l I w" "le_member lease = l" "wr_OperationID r \<in> I" "k_ops (vw_keys w) (wr_OperationID r) = None"
    and "store_ok env (vw_keys w)" and "wr_Version r = wr_PreviousVersion r"
    and "known l w (\<lambda>C. \<forall>D. current env C (wr_PreviousVersion r) D \<longrightarrow> P r D D)"
    and "prepareCommit env lease m r stages sh False w = (w', res)"
  shows "atomically env P w w' res"
proof (rule v3commit_atomically[OF assms(1-5)])
  show "known l w (\<lambda>C. \<forall>D. current env C (wr_PreviousVersion r) D \<longrightarrow> (\<exists>D'. holds env C (wr_Version r) D' \<and> P r D D'))"
    by (rule known_mp[OF assms(7)]) (auto simp: assms(6) current_def)
qed (use assms(8) in \<open>simp add: prepareCommit_def\<close>)

text \<open>The identifiers are random texts of the right length.\<close>

definition ids_ok :: "v3world \<Rightarrow> nat \<Rightarrow> bool" where
  "ids_ok w n \<longleftrightarrow> n \<le> length (vw_ids w) \<and> (\<forall>x \<in> set (vw_ids w). length x = v3IDLength)"

lemma prepareCommit_changed:
  assumes o: "order_ok env" "env_opts_ok env" and rel: "reliable env l I w" and l: "le_member lease = l"
    and op: "wr_OperationID r \<in> I" "k_ops (vw_keys w) (wr_OperationID r) = None" and ok: "store_ok env (vw_keys w)"
    and ids: "ids_ok w 1" and dist: "distinct changedShards"
    and K: "known l w (\<lambda>C. staged C stages \<longrightarrow> (\<forall>D. current env C (wr_PreviousVersion r) D \<longrightarrow>
      (\<exists>D'. prepared env C m changedShards (mf_Count m + (wr_Added r - wr_Removed r)) D' \<and> (\<forall>v. P (r\<lparr>wr_Version := v\<rparr>) D D'))))"
    and run: "prepareCommit env lease m r stages changedShards True w = (w', res)"
  shows "atomically env P w w' res"
proof -
  obtain w1 newID where id1: "v3ID w = (w1, newID)" by fastforce
  let ?v = "ve_id env @ ''.'' @ newID"
  let ?m1 = "m\<lparr>mf_Version := ?v, mf_Sequence := mf_Sequence m + 1, mf_Count := mf_Count m + (wr_Added r - wr_Removed r)\<rparr>"
  let ?r1 = "r\<lparr>wr_Version := ?v\<rparr>"
  let ?order = "ve_order env changedShards"
  obtain data m2 stages1 where nm: "v3NextManifest ?m1 ?order (vw_ids w1) stages = (data, m2, stages1)" by (cases "v3NextManifest ?m1 ?order (vw_ids w1) stages") auto
  obtain w2 where w2: "w2 = (if mf_global ?m1 = None then w1 else w1\<lparr>vw_ids := drop (length ?order) (vw_ids w1)\<rparr>)" by blast
  have newID: "length newID = v3IDLength" using ids id1 by (cases "vw_ids w") (auto simp: v3ID_def ids_ok_def next_or_def)
  have valid: "v3valid (ve_id env) ?v" by (simp add: v3valid_def newID)
  have r1: "runs env l I w w2"
  proof -
    have "local_step w1 w2" by (auto simp: w2 local_step_def dest: in_set_dropD)
    then show ?thesis using v3ID_runs[OF id1] local_runs runs_trans by blast
  qed
  note rel2 = runs_reliable[OF r1 rel]
  have K2: "known l w2 (\<lambda>C. staged C stages \<longrightarrow> (\<forall>D. current env C (wr_PreviousVersion r) D \<longrightarrow>
      (\<exists>D'. prepared env C m changedShards (mf_Count m + (wr_Added r - wr_Removed r)) D' \<and> P ?r1 D D')))"
    by (rule known_mp[OF known_runs[OF r1 K]]) blast
  have order: "distinct ?order" "set ?order = set changedShards" using o(1) dist by (simp_all add: order_ok_def)
  have commit: "atomically env P w3 w' res"
    if r3: "runs env l I w2 w3" and c: "v3commit lease ?r1 m2 w3 = (w', res)"
      and H: "known l w3 (\<lambda>C. \<forall>D D'. prepared env C m changedShards (mf_Count m + (wr_Added r - wr_Removed r)) D' \<longrightarrow> holds env C ?v D')"
      and S: "known l w3 (\<lambda>C. staged C stages)" for w3
  proof (rule v3commit_atomically[OF runs_reliable[OF r3 rel2] l _ _ _ _ c])
    show "wr_OperationID ?r1 \<in> I" using op by simp
    show "k_ops (vw_keys w3) (wr_OperationID ?r1) = None" "store_ok env (vw_keys w3)"
      using runs_trans[OF r1 r3] op ok by (auto simp: runs_def)
    show "known l w3 (\<lambda>C. \<forall>D. current env C (wr_PreviousVersion ?r1) D \<longrightarrow> (\<exists>D'. holds env C (wr_Version ?r1) D' \<and> P ?r1 D D'))"
      by (rule known_mp[OF known_conj[OF known_conj[OF known_runs[OF r3 K2] H] S]]) fastforce
  qed
  show ?thesis
  proof (cases "mf_global m")
    case None
    then have m2: "m2 = ?m1" "stages1 = stages" using nm by (simp_all add: v3NextManifest_def)
    have "bindW (failW (stageAll env lease (stages1 @ [generationStage ?v data]) w2)) (\<lambda>w3 _. v3commit lease ?r1 m2 w3) = (w', res)"
      using run id1 nm None m2(1) by (simp add: prepareCommit_def w2 Let_def)
    then have "atomically env P w2 w' res"
    proof (rule bindW_atomically)
      obtain w3 q where s: "stageAll env lease (stages1 @ [generationStage ?v data]) w2 = (w3, q)" by fastforce
      note S = stageAll_correct[OF o(1) rel2 s]
      then show "noEffect w2 (fst (stageAll env lease (stages1 @ [generationStage ?v data]) w2))" using runs_noEffect s by auto
      fix w4 u assume s': "stageAll env lease (stages1 @ [generationStage ?v data]) w2 = (w4, Inr u)" and c: "v3commit lease ?r1 m2 w4 = (w', res)"
      with s S have r4: "runs env l I w2 w4" and k4: "known l w4 (\<lambda>C. staged C (stages1 @ [generationStage ?v data]))" by auto
      show "atomically env P w4 w' res"
      proof (rule commit[OF r4 c])
        show "known l w4 (\<lambda>C. staged C stages)" by (rule known_mp[OF k4]) (simp add: m2)
        show "known l w4 (\<lambda>C. \<forall>D D'. prepared env C m changedShards (mf_Count m + (wr_Added r - wr_Removed r)) D' \<longrightarrow> holds env C ?v D')"
        proof (rule known_mp[OF k4], intro allI impI)
          fix C D D' assume st: "staged C (stages1 @ [generationStage ?v data])"
            and p: "prepared env C m changedShards (mf_Count m + (wr_Added r - wr_Removed r)) D'"
          show "holds env C ?v D'"
            by (rule holds_legacy(1)[OF nm]) (use st p None valid in \<open>auto simp: prepared_def\<close>)
        qed
      qed
    qed
    with runs_noEffect[OF r1] show ?thesis by (rule atomically_before)
  next
    case (Some g0)
    then obtain g2 where g2: "mf_global m2 = Some g2" using nm by (auto simp: v3NextManifest_def Let_def split: prod.splits)
    then have "bindW (failW (stageAll env lease stages1 w2)) (\<lambda>w3 _. bindW (failW (stageAll env lease [generationStage ?v data] w3)) (\<lambda>w4 _.
        bindW (failW (loadManifest env ?v w4)) (\<lambda>w5 _. v3commit lease ?r1 m2 w5))) = (w', res)"
      using run id1 nm Some g2 by (simp add: prepareCommit_def w2 Let_def)
    then have "atomically env P w2 w' res"
    proof (rule bindW_atomically)
      obtain w3 q where s: "stageAll env lease stages1 w2 = (w3, q)" by fastforce
      note S = stageAll_correct[OF o(1) rel2 s]
      then show "noEffect w2 (fst (stageAll env lease stages1 w2))" using runs_noEffect s by auto
      fix w4 u assume s': "stageAll env lease stages1 w2 = (w4, Inr u)"
        and c: "bindW (failW (stageAll env lease [generationStage ?v data] w4)) (\<lambda>w4 _. bindW (failW (loadManifest env ?v w4)) (\<lambda>w5 _. v3commit lease ?r1 m2 w5)) = (w', res)"
      with s S have r4: "runs env l I w2 w4" and k4: "known l w4 (\<lambda>C. staged C stages1)" by auto
      note rel4 = runs_reliable[OF r4 rel2]
      from c show "atomically env P w4 w' res"
      proof (rule bindW_atomically)
        obtain w5 q where s: "stageAll env lease [generationStage ?v data] w4 = (w5, q)" by fastforce
        note S = stageAll_correct[OF o(1) rel4 s]
        then show "noEffect w4 (fst (stageAll env lease [generationStage ?v data] w4))" using runs_noEffect s by auto
        fix w6 u assume s': "stageAll env lease [generationStage ?v data] w4 = (w6, Inr u)"
          and c: "bindW (failW (loadManifest env ?v w6)) (\<lambda>w5 _. v3commit lease ?r1 m2 w5) = (w', res)"
        with s S have r6: "runs env l I w4 w6" and k6: "known l w6 (\<lambda>C. staged C [generationStage ?v data])" by auto
        note rel6 = runs_reliable[OF r6 rel4]
        from c show "atomically env P w6 w' res"
        proof (rule bindW_atomically)
          obtain w7 q where s: "loadManifest env ?v w6 = (w7, q)" by fastforce
          note S = leased.loadManifest_correct[OF o(2) rel6 s]
          then show "noEffect w6 (fst (loadManifest env ?v w6))" using runs_noEffect s by auto
          fix w8 m5 assume s': "loadManifest env ?v w6 = (w8, Inr m5)" and c: "v3commit lease ?r1 m2 w8 = (w', res)"
          with s S have r8: "runs env l I w6 w8" and k8: "known l w8 (\<lambda>C. manifestIn (ve_id env) C ?v = Some m5)" by auto
          have k: "known l w8 (\<lambda>C. (staged C stages1 \<and> staged C [generationStage ?v data]) \<and> manifestIn (ve_id env) C ?v = Some m5)"
            by (intro known_conj k8 known_runs[OF r8 k6] known_runs[OF runs_trans[OF r6 r8] k4])
          have r28: "runs env l I w2 w8" using r4 r6 r8 runs_trans by blast
          show "atomically env P w8 w' res"
          proof (rule commit[OF r28 c])
            show "known l w8 (\<lambda>C. staged C stages)"
            proof (rule known_mp[OF k])
              fix C assume "(staged C stages1 \<and> staged C [generationStage ?v data]) \<and> manifestIn (ve_id env) C ?v = Some m5"
              moreover have "set stages \<subseteq> set stages1"
                using nm Some nextShards_correct[OF _ order(1)] by (fastforce simp: v3NextManifest_def Let_def split: prod.splits)
              ultimately show "staged C stages" by (auto simp: staged_def)
            qed
            show "known l w8 (\<lambda>C. \<forall>D D'. prepared env C m changedShards (mf_Count m + (wr_Added r - wr_Removed r)) D' \<longrightarrow> holds env C ?v D')"
            proof (rule known_mp[OF k], intro allI impI)
              fix C D D' assume st: "(staged C stages1 \<and> staged C [generationStage ?v data]) \<and> manifestIn (ve_id env) C ?v = Some m5"
                and p: "prepared env C m changedShards (mf_Count m + (wr_Added r - wr_Removed r)) D'"
              show "holds env C ?v D'"
                by (rule holds_sharded(1)[OF nm _ order(1)]) (use st p Some order(2) in \<open>auto simp: prepared_def split: if_splits\<close>)
            qed
          qed
        qed
      qed
    qed
    with runs_noEffect[OF r1] show ?thesis by (rule atomically_before)
  qed
qed

end
