(* ===== verification/V3_Change.thy ===== *)
theory V3_Change
  imports V3_Commit
begin

text \<open>
  Adding, removing and replacing keywords of a versioned collection: bucket by bucket the
  code computes what \<open>editSpec\<close> says of the whole dictionary, and the change is atomic.
\<close>

section \<open>Normalised words are valid\<close>

lemma validString_sub: "set (pieces t) \<subseteq> set (pieces s) \<Longrightarrow> validString s \<Longrightarrow> validString t"
  by (auto simp: validString_def)

lemma validString_trimSpace: "validString s \<Longrightarrow> validString (trimSpace s)"
  by (rule validString_sub) (auto simp: pieces_trimSpace dest!: set_dropWhileD)

lemma encodeRune_error: "length (encodeRune RuneError) = 3"
  by (simp add: encodeRune_def encodeValid_def RuneError_def valid_rune_def)

lemma validString_toLower:
  assumes "unicode_ok u"
  shows "validString (toLower u s)"
proof -
  have "\<forall>r \<in> set (map (uc_ToLower u) (runes s)). valid_rune r" using assms by (auto simp: unicode_ok_def dest: runes_valid)
  from pieces_string_of[OF this] show ?thesis by (auto simp: validString_def toLower_def encodeRune_error)
qed

lemma v3Normalize_words:
  assumes u: "unicode_ok u" and n: "v3Normalize u words sensitive = Inr ws" and w: "x \<in> set ws"
  shows "validString x \<and> x \<noteq> []"
proof -
  from n obtain out where "normalizeLoop u sensitive words [] = Inr out" by (auto simp: v3Normalize_def bindR_Inr)
  moreover from v3Normalize_Inr(1)[OF n] w obtain y where "y \<in> set words" "x = normalWord u sensitive y" by auto
  ultimately show ?thesis
    using u by (auto simp: normalizeLoop_Inr normalWord_def intro: validString_trimSpace validString_toLower)
qed

section \<open>The edited dictionary\<close>

definition bucketInput :: "(gostring \<Rightarrow> gostring) \<Rightarrow> gostring list \<Rightarrow> nat \<Rightarrow> gostring list" where
  "bucketInput H normalized i = filter (\<lambda>x. v3BucketNumber H x = i) normalized"

text \<open>The first \<open>n\<close> buckets edited.\<close>

definition editedDict :: "(gostring \<Rightarrow> gostring) \<Rightarrow> gostring \<Rightarrow> gostring list \<Rightarrow> nat \<Rightarrow> (nat \<Rightarrow> gostring list) \<Rightarrow> nat \<Rightarrow> gostring list" where
  "editedDict H mode normalized n D i =
     (if i < n then sorted_list_of_set (editSpec mode (set (D i)) (set (bucketInput H normalized i))) else D i)"

lemma finite_editSpec [simp]: "finite A \<Longrightarrow> finite B \<Longrightarrow> finite (editSpec mode A B)"
  by (simp add: editSpec_def)

lemma editSpec_subset: "editSpec mode A B \<subseteq> A \<union> B"
  by (auto simp: editSpec_def)

lemma v3BucketNumber_less: "v3BucketNumber H w < v3BucketCount"
proof -
  have h: "hexVal c = Some x \<Longrightarrow> 0 \<le> x \<and> x < 16" for c x by (auto simp: hexVal_def Let_def split: if_splits)
  have "nat (x * 256 + y * 16 + z) < 4096" if "hexVal a = Some x" "hexVal b = Some y" "hexVal c = Some z" for a b c x y z
    using h[OF that(1)] h[OF that(2)] h[OF that(3)] by linarith
  then show ?thesis by (auto simp: v3BucketNumber_def v3BucketCount_def split: list.split option.split)
qed

lemma editedDict_wf:
  assumes "dict_wf H D" and "\<forall>x \<in> set normalized. validString x \<and> x \<noteq> []"
  shows "dict_wf H (editedDict H mode normalized n D)"
  using assms editSpec_subset[of mode]
  by (fastforce simp: dict_wf_def editedDict_def bucketInput_def)

lemma set_editedDict:
  "i < n \<Longrightarrow> set (editedDict H mode normalized n D i) = editSpec mode (set (D i)) (set (bucketInput H normalized i))"
  by (simp add: editedDict_def)

lemma dictionary_edited:
  assumes wf: "dict_wf H D" and mode: "mode \<in> {''replace'', ''add'', ''remove''}"
  shows "dictionary (editedDict H mode normalized v3BucketCount D) = editSpec mode (dictionary D) (set normalized)"
proof -
  have own: "w \<in> set (D i) \<Longrightarrow> i < v3BucketCount \<Longrightarrow> v3BucketNumber H w = i" for w i using wf by (auto simp: dict_wf_def)
  have "w \<in> dictionary (editedDict H mode normalized v3BucketCount D) \<longleftrightarrow> w \<in> editSpec mode (dictionary D) (set normalized)" for w
  proof -
    let ?i = "v3BucketNumber H w"
    have i: "?i < v3BucketCount" by (rule v3BucketNumber_less)
    have D: "w \<in> dictionary D \<longleftrightarrow> w \<in> set (D ?i)" using own i by (auto simp: dictionary_def)
    have "w \<in> dictionary (editedDict H mode normalized v3BucketCount D) \<longleftrightarrow> w \<in> set (editedDict H mode normalized v3BucketCount D ?i)"
    proof -
      have "j = ?i" if "j < v3BucketCount" "w \<in> set (editedDict H mode normalized v3BucketCount D j)" for j
        using that own[of w j] mode by (auto simp: set_editedDict editSpec_def bucketInput_def split: if_splits)
      then show ?thesis using i by (auto simp: dictionary_def)
    qed
    also have "\<dots> \<longleftrightarrow> w \<in> editSpec mode (dictionary D) (set normalized)"
      unfolding set_editedDict[OF i] editSpec_def using D by (auto simp: bucketInput_def)
    finally show ?thesis .
  qed
  then show ?thesis by blast
qed

text \<open>The counts add up over the buckets, which are disjoint.\<close>

lemma card_dictionary_diff:
  assumes "dict_wf H A" "dict_wf H B"
  shows "int (card (dictionary A - dictionary B)) = (\<Sum>i < v3BucketCount. int (card (set (A i) - set (B i))))"
proof -
  have own: "w \<in> set (A i) \<Longrightarrow> i < v3BucketCount \<Longrightarrow> v3BucketNumber H w = i" "w \<in> set (B i) \<Longrightarrow> i < v3BucketCount \<Longrightarrow> v3BucketNumber H w = i" for w i
    using assms by (auto simp: dict_wf_def)
  have "dictionary A - dictionary B = (\<Union>i \<in> {..<v3BucketCount}. set (A i) - set (B i))"
    unfolding dictionary_def using own by fastforce
  moreover have "card (\<Union>i \<in> {..<v3BucketCount}. set (A i) - set (B i)) = (\<Sum>i < v3BucketCount. card (set (A i) - set (B i)))"
    by (rule card_UN_disjoint) (use own in \<open>auto, metis own(1)\<close>)
  ultimately show ?thesis by simp
qed


section \<open>Editing bucket by bucket\<close>

text \<open>How the edited buckets relate to the old ones, whatever is stored.\<close>

definition placed :: "v3Manifest \<Rightarrow> v3Edit \<Rightarrow> bool" where
  "placed old e \<longleftrightarrow> length (ed_Buckets e) = length (mf_Buckets old) \<and> distinct (ed_changed e) \<and>
     (\<forall>i < length (mf_Buckets old). ed_Buckets e ! i = mf_Buckets old ! i \<or>
        (case mf_global old of
           None \<Rightarrow> \<not> bk_sharded (ed_Buckets e ! i)
         | Some g \<Rightarrow> bk_sharded (ed_Buckets e ! i) \<and> bk_shard (ed_Buckets e ! i) = shardOf g i \<and> shardOf g i \<in> set (ed_changed e)))"

definition readsAs :: "(gostring \<Rightarrow> gostring) \<Rightarrow> v3content \<Rightarrow> v3Bucket list \<Rightarrow> (nat \<Rightarrow> gostring list) \<Rightarrow> bool" where
  "readsAs H C bs D \<longleftrightarrow> length bs = v3BucketCount \<and> (\<forall>i < v3BucketCount. bucketIn H C (bs ! i) = Some (D i))"

definition gained :: "(nat \<Rightarrow> gostring list) \<Rightarrow> (nat \<Rightarrow> gostring list) \<Rightarrow> nat \<Rightarrow> int" where
  "gained A B n = (\<Sum>i < n. int (card (set (A i) - set (B i))))"

text \<open>After \<open>n\<close> buckets, where the stages so far are stored.\<close>

definition editedTo :: "(gostring \<Rightarrow> gostring) \<Rightarrow> gostring \<Rightarrow> gostring list \<Rightarrow> v3Manifest \<Rightarrow> nat \<Rightarrow> v3Edit \<Rightarrow> v3content \<Rightarrow> bool" where
  "editedTo H mode normalized old n e C \<longleftrightarrow>
     (\<forall>D. readsAs H C (mf_Buckets old) D \<and> dict_wf H D \<longrightarrow>
        (let D' = editedDict H mode normalized n D in
         (staged C (ed_stages e) \<longrightarrow> readsAs H C (ed_Buckets e) D') \<and>
         ed_Added e = gained D' D n \<and> ed_Removed e = gained D D' n))"

lemma editedDict_Suc:
  "editedDict H mode normalized (Suc n) D =
     (editedDict H mode normalized n D)(n := sorted_list_of_set (editSpec mode (set (D n)) (set (bucketInput H normalized n))))"
  by (auto simp: editedDict_def fun_eq_iff less_Suc_eq)

lemma gained_cong: "(\<And>i. i < n \<Longrightarrow> A i = A' i \<and> B i = B' i) \<Longrightarrow> gained A B n = gained A' B' n"
  by (simp add: gained_def)

lemma gained_Suc: "gained A B (Suc n) = gained A B n + int (card (set (A n) - set (B n)))"
  by (simp add: gained_def)

text \<open>A bucket that stays as it is.\<close>

lemma editedTo_same:
  assumes E: "editedTo H mode normalized old n e C" and n: "n < v3BucketCount"
    and same: "\<And>D. readsAs H C (mf_Buckets old) D \<Longrightarrow> dict_wf H D \<Longrightarrow>
      editSpec mode (set (D n)) (set (bucketInput H normalized n)) = set (D n)"
  shows "editedTo H mode normalized old (Suc n) e C"
  unfolding editedTo_def Let_def
proof (intro allI impI, elim conjE)
  fix D assume D: "readsAs H C (mf_Buckets old) D" "dict_wf H D"
  have "sorted (D n)" "distinct (D n)" using D(2) n by (auto simp: dict_wf_def)
  then have "sorted_list_of_set (set (D n)) = D n" by (simp add: sorted_list_of_set.idem_if_sorted_distinct)
  moreover have "editedDict H mode normalized n D n = D n" by (simp add: editedDict_def)
  ultimately have e: "editedDict H mode normalized (Suc n) D = editedDict H mode normalized n D"
    by (simp add: editedDict_Suc same[OF D] fun_eq_iff)
  show "(staged C (ed_stages e) \<longrightarrow> readsAs H C (ed_Buckets e) (editedDict H mode normalized (Suc n) D)) \<and>
      ed_Added e = gained (editedDict H mode normalized (Suc n) D) D (Suc n) \<and> ed_Removed e = gained D (editedDict H mode normalized (Suc n) D) (Suc n)"
    using E D by (simp add: editedTo_def Let_def e gained_Suc \<open>editedDict H mode normalized n D n = D n\<close>)
qed

text \<open>A bucket that is edited.\<close>

lemma editedTo_edit:
  assumes E: "editedTo H mode normalized old n e C" and n: "n < v3BucketCount"
    and before: "bucketIn H C (mf_Buckets old ! n) = Some before"
    and apply1: "v3Apply before (bucketInput H normalized n) mode = (after, added, removed)"
    and norm: "sorted normalized" "distinct normalized" "\<forall>x \<in> set normalized. validString x \<and> x \<noteq> []"
    and mode: "mode \<in> {''replace'', ''add'', ''remove''}"
    and st: "v3Stages H after = (b, work)"
    and e': "ed_Added e' = ed_Added e + added" "ed_Removed e' = ed_Removed e + removed" "ed_Buckets e' = (ed_Buckets e)[n := b']" "ed_stages e' = ed_stages e @ work'"
    and b': "b' = b \<and> work' = work \<and> sh = False \<or> b' = b\<lparr>bk_sharded := True, bk_shard := shard\<rparr> \<and> work' = placeStages shard work \<and> sh = True"
  shows "editedTo H mode normalized old (Suc n) e' C"
  unfolding editedTo_def Let_def
proof (intro allI impI, elim conjE)
  fix D assume D: "readsAs H C (mf_Buckets old) D" "dict_wf H D"
  let ?D0 = "editedDict H mode normalized n D" and ?D1 = "editedDict H mode normalized (Suc n) D"
  have Dn: "D n = before" using D(1) before n by (auto simp: readsAs_def)
  have inp: "sorted (bucketInput H normalized n)" "distinct (bucketInput H normalized n)"
    using norm by (simp_all add: bucketInput_def sorted_wrt_filter)
  from v3Apply_correct[OF inp mode, of before] apply1
  have A: "after = ?D1 n" "added = int (card (set (?D1 n) - set (D n)))" "removed = int (card (set (D n) - set (?D1 n)))"
    by (simp_all add: editedDict_Suc Dn)
  have wf1: "dict_wf H ?D1" using D(2) norm(3) by (rule editedDict_wf)
  have before': "?D1 i = ?D0 i" if "i < n" for i using that by (simp add: editedDict_def)
  have g: "gained ?D1 D n = gained ?D0 D n" "gained D ?D1 n = gained D ?D0 n" by (rule gained_cong, simp add: before')+
  from E D have E': "staged C (ed_stages e) \<longrightarrow> readsAs H C (ed_Buckets e) ?D0" "ed_Added e = gained ?D0 D n" "ed_Removed e = gained D ?D0 n"
    by (simp_all add: editedTo_def Let_def)
  have "readsAs H C (ed_Buckets e') ?D1" if s: "staged C (ed_stages e')"
  proof -
    from s e' E'(1) have r0: "readsAs H C (ed_Buckets e) ?D0" "staged C work'" by simp_all
    have "bucketIn H C b' = Some after"
      by (rule v3Stages_bucketIn(1)[OF st _ _ b' r0(2)]) (use wf1 n A(1) in \<open>auto simp: dict_wf_def\<close>)
    with r0 show ?thesis by (auto simp: readsAs_def e' A(1) nth_list_update editedDict_Suc)
  qed
  then show "(staged C (ed_stages e') \<longrightarrow> readsAs H C (ed_Buckets e') ?D1) \<and> ed_Added e' = gained ?D1 D (Suc n) \<and> ed_Removed e' = gained D ?D1 (Suc n)"
    by (simp add: e' E' A gained_Suc g)
qed

lemma placed_edit:
  assumes P: "placed old e" and g: "mf_global old = Some g"
  shows "placed old (e\<lparr>ed_Added := a, ed_Removed := r, ed_stages := st,
      ed_Buckets := (ed_Buckets e)[n := b\<lparr>bk_sharded := True, bk_shard := shardOf g n\<rparr>], ed_changed := List.insert (shardOf g n) (ed_changed e)\<rparr>)"
proof -
  let ?b = "b\<lparr>bk_sharded := True, bk_shard := shardOf g n\<rparr>"
  have "(ed_Buckets e)[n := ?b] ! i = mf_Buckets old ! i \<or> bk_sharded ((ed_Buckets e)[n := ?b] ! i) \<and>
      bk_shard ((ed_Buckets e)[n := ?b] ! i) = shardOf g i \<and> shardOf g i \<in> set (List.insert (shardOf g n) (ed_changed e))"
    if i: "i < length (mf_Buckets old)" for i
  proof (cases "i = n")
    case True
    with P i show ?thesis by (simp add: placed_def)
  next
    case False
    with P i g show ?thesis by (auto simp: placed_def)
  qed
  with P g show ?thesis by (simp add: placed_def)
qed

lemma changeBucket_correct:
  assumes rel: "reliable env l I w" and n: "n < v3BucketCount"
    and norm: "sorted normalized" "distinct normalized" "\<forall>x \<in> set normalized. validString x \<and> x \<noteq> []"
    and mode: "mode \<in> {''replace'', ''add'', ''remove''}"
    and P: "placed old e"
    and K: "known l w (editedTo (ve_H env) mode normalized old n e)"
    and run: "changeBucket env old mode normalized n e w = (w', r)"
  shows "runs env l I w w' \<and> (\<forall>e'. r = Inr e' \<longrightarrow> placed old e' \<and> known l w' (editedTo (ve_H env) mode normalized old (Suc n) e'))"
proof -
  let ?input = "bucketInput (ve_H env) normalized n"
  show ?thesis
  proof (cases "mode \<noteq> ''replace'' \<and> ?input = []")
    case True
    with run have "w' = w" "r = Inr e" by (simp_all add: changeBucket_def bucketInput_def)
    moreover have "known l w (editedTo (ve_H env) mode normalized old (Suc n) e)"
      by (rule known_mp[OF K], erule editedTo_same[OF _ n]) (use True in \<open>simp add: editSpec_def\<close>)
    ultimately show ?thesis using P by simp
  next
    case False
    let ?rest = "\<lambda>w1 before. case v3Apply before ?input mode of (after, added, removed) \<Rightarrow>
      if added = 0 \<and> removed = 0 then (w1, Inr e)
      else (case v3Stages (ve_H env) after of (b, work) \<Rightarrow>
        (let e1 = e\<lparr>ed_Added := ed_Added e + added, ed_Removed := ed_Removed e + removed\<rparr> in
         case mf_global old of
           None \<Rightarrow> (w1, Inr (e1\<lparr>ed_stages := ed_stages e1 @ work, ed_Buckets := (ed_Buckets e1)[n := b]\<rparr>))
         | Some g \<Rightarrow> (let shard = shardOf g n in
            (w1, Inr (e1\<lparr>ed_stages := ed_stages e1 @ placeStages shard work, ed_Buckets := (ed_Buckets e1)[n := b\<lparr>bk_sharded := True, bk_shard := shard\<rparr>],
                ed_changed := List.insert shard (ed_changed e1)\<rparr>)))))"
    from False run have b: "bindW (bucket env (mf_Buckets old ! n) w) ?rest = (w', r)"
      unfolding changeBucket_def bucketInput_def[symmetric] Let_def by auto
    from b show ?thesis
    proof (cases rule: bindW_cases)
      case (fail w1 err)
      with leased.bucket_goes[OF rel fail(1)] show ?thesis by simp
    next
      case (cont w1 before)
      note R = leased.bucket_goes[OF rel cont(1)]
      have K1: "known l w1 (\<lambda>C. editedTo (ve_H env) mode normalized old n e C \<and> bucketIn (ve_H env) C (mf_Buckets old ! n) = Some before)"
        by (rule known_conj[OF known_runs[OF R K] leased.bucket_sure[OF rel cont(1)]])
      obtain after added removed where A: "v3Apply before ?input mode = (after, added, removed)" by (cases "v3Apply before ?input mode") auto
      obtain b work where st: "v3Stages (ve_H env) after = (b, work)" by fastforce
      have inp: "sorted ?input" "distinct ?input" using norm by (simp_all add: bucketInput_def sorted_wrt_filter)
      show ?thesis
      proof (cases "added = 0 \<and> removed = 0")
        case True
        with cont(2) A have w': "w' = w1" "r = Inr e" by simp_all
        from v3Apply_correct[OF inp mode, of before] A True
        have eq: "editSpec mode (set before) (set ?input) = set before" by (simp add: card_eq_0_iff) blast
        have "known l w1 (editedTo (ve_H env) mode normalized old (Suc n) e)"
          by (rule known_mp[OF K1], elim conjE, erule editedTo_same[OF _ n]) (use n eq in \<open>auto simp: readsAs_def\<close>)
        with R P w' show ?thesis by simp
      next
        case False
        show ?thesis
        proof (cases "mf_global old")
          case None
          let ?e = "e\<lparr>ed_Added := ed_Added e + added, ed_Removed := ed_Removed e + removed, ed_stages := ed_stages e @ work, ed_Buckets := (ed_Buckets e)[n := b]\<rparr>"
          from cont(2) A st False None have w': "w' = w1" "r = Inr ?e" by (simp_all add: Let_def)
          have "bk_sharded b = False" using st by (auto simp: v3Stages_def v3Chunks_def zeroBucket_def Let_def split: if_splits prod.splits)
          then have P': "placed old ?e" using P None by (auto simp: placed_def) (metis nth_list_update_eq nth_list_update_neq)
          have "known l w1 (editedTo (ve_H env) mode normalized old (Suc n) ?e)"
            by (rule known_mp[OF K1], elim conjE, erule editedTo_edit[OF _ n _ A norm mode st, where b' = b and work' = work and sh = False]) simp_all
          with R P' w' show ?thesis by simp
        next
          case (Some g)
          let ?s = "shardOf g n"
          let ?e = "e\<lparr>ed_Added := ed_Added e + added, ed_Removed := ed_Removed e + removed, ed_stages := ed_stages e @ placeStages ?s work,
            ed_Buckets := (ed_Buckets e)[n := b\<lparr>bk_sharded := True, bk_shard := ?s\<rparr>], ed_changed := List.insert ?s (ed_changed e)\<rparr>"
          from cont(2) A st False Some have w': "w' = w1" "r = Inr ?e" by (simp_all add: Let_def)
          have P': "placed old ?e" using P Some by (rule placed_edit)
          have "known l w1 (editedTo (ve_H env) mode normalized old (Suc n) ?e)"
            by (rule known_mp[OF K1], elim conjE,
                erule editedTo_edit[OF _ n _ A norm mode st, where b' = "b\<lparr>bk_sharded := True, bk_shard := ?s\<rparr>" and work' = "placeStages ?s work" and sh = True and shard = ?s])
              simp_all
          with R P' w' show ?thesis by simp
        qed
      qed
    qed
  qed
qed


text \<open>A loop over a range keeps an invariant of its index.\<close>

lemma loopW_upt:
  assumes step: "\<And>i s w w' r. a \<le> i \<Longrightarrow> i < b \<Longrightarrow> reliable env m I w \<Longrightarrow> Inv i s w \<Longrightarrow> f i s w = (w', r) \<Longrightarrow>
      runs env m I w w' \<and> (\<forall>s'. r = Inr s' \<longrightarrow> Inv (Suc i) s' w')"
    and "a \<le> b" "reliable env m I w" "Inv a s w" "loopW f [a..<b] s w = (w', r)"
  shows "runs env m I w w' \<and> (\<forall>s'. r = Inr s' \<longrightarrow> Inv b s' w')"
  using assms
proof (induction "b - a" arbitrary: a s w)
  case 0
  then show ?case by auto
next
  case (Suc k)
  then have ab: "a < b" by simp
  have "bindW (f a s w) (\<lambda>w s. loopW f [Suc a..<b] s w) = (w', r)" using Suc.prems(5) ab by (simp add: upt_conv_Cons)
  then show ?case
  proof (cases rule: bindW_cases)
    case (fail w1 err)
    with Suc.prems(1)[of a w s w1] Suc.prems(3,4) ab show ?thesis by simp
  next
    case (cont w1 s1)
    from Suc.prems(1)[OF _ ab Suc.prems(3,4) cont(1)] have 1: "runs env m I w w1" "Inv (Suc a) s1 w1" by simp_all
    have "runs env m I w1 w' \<and> (\<forall>s'. r = Inr s' \<longrightarrow> Inv b s' w')"
    proof (rule Suc.hyps(1)[OF _ _ _ runs_reliable[OF 1(1) Suc.prems(3)] 1(2) cont(2)])
      show "k = b - Suc a" "Suc a \<le> b" using Suc.hyps(2) ab by simp_all
      show "runs env m I v v' \<and> (\<forall>t'. q = Inr t' \<longrightarrow> Inv (Suc i) t' v')"
        if "Suc a \<le> i" "i < b" "reliable env m I v" "Inv i t v" "f i t v = (v', q)" for i t v v' q
        using Suc.prems(1)[OF _ that(2-5)] that(1) by simp
    qed
    with runs_trans[OF 1(1)] show ?thesis by blast
  qed
qed

lemma changeLoop_correct:
  assumes rel: "reliable env l I w"
    and norm: "sorted normalized" "distinct normalized" "\<forall>x \<in> set normalized. validString x \<and> x \<noteq> []"
    and mode: "mode \<in> {''replace'', ''add'', ''remove''}"
    and run: "loopW (changeBucket env old mode normalized) [0..<v3BucketCount]
      \<lparr>ed_Buckets = mf_Buckets old, ed_Added = 0, ed_Removed = 0, ed_stages = [], ed_changed = []\<rparr> w = (w', r)"
  shows "runs env l I w w' \<and>
    (\<forall>e. r = Inr e \<longrightarrow> placed old e \<and> known l w' (editedTo (ve_H env) mode normalized old v3BucketCount e))"
proof (rule loopW_upt[OF _ _ rel _ run, where Inv = "\<lambda>i e w. placed old e \<and> known l w (editedTo (ve_H env) mode normalized old i e)"])
  let ?e = "\<lparr>ed_Buckets = mf_Buckets old, ed_Added = 0, ed_Removed = 0, ed_stages = [], ed_changed = []\<rparr>"
  have "editedDict H mode normalized 0 D = D" for H D by (simp add: editedDict_def fun_eq_iff)
  then have "editedTo H mode normalized old 0 ?e C" for H C by (simp add: editedTo_def gained_def)
  then show "placed old ?e \<and> known l w (editedTo (ve_H env) mode normalized old 0 ?e)" by (simp add: placed_def known_def)
  fix i e v v' q
  assume i: "i < v3BucketCount" and v: "reliable env l I v" and inv: "placed old e \<and> known l v (editedTo (ve_H env) mode normalized old i e)"
    and b: "changeBucket env old mode normalized i e v = (v', q)"
  show "runs env l I v v' \<and> (\<forall>s'. q = Inr s' \<longrightarrow> placed old s' \<and> known l v' (editedTo (ve_H env) mode normalized old (Suc i) s'))"
    by (rule changeBucket_correct[OF v i norm mode conjunct1[OF inv] conjunct2[OF inv] b])
qed simp

section \<open>The whole change\<close>

lemma card_exchange:
  assumes "finite A" "finite B"
  shows "int (card A) = int (card B) + (int (card (A - B)) - int (card (B - A)))"
proof -
  have "card A = card (A \<inter> B) + card (A - B)" using assms by (metis card_Diff_subset_Int card_Int_Diff)
  moreover have "card B = card (A \<inter> B) + card (B - A)" using assms by (metis Int_commute card_Int_Diff)
  ultimately show ?thesis by simp
qed

text \<open>The total of the bucket counts is the size of the dictionary.\<close>

lemma counts_readsAs:
  assumes "readsAs H C bs D"
  shows "sum_list (map bk_Count bs) = (\<Sum>i < v3BucketCount. int (length (D i)))"
proof -
  have "bk_Count (bs ! i) = int (length (D i))" if "i < v3BucketCount" for i
    using assms that by (auto simp: readsAs_def dest: bucketIn_count)
  then show ?thesis using assms by (simp add: readsAs_def sum_list_sum_nth atLeast0LessThan)
qed

lemma counts_edited:
  assumes "dict_wf H D" "dict_wf H D'"
  shows "(\<Sum>i < v3BucketCount. int (length (D' i))) = (\<Sum>i < v3BucketCount. int (length (D i))) + (gained D' D v3BucketCount - gained D D' v3BucketCount)"
proof -
  have "int (length (D' i)) = int (length (D i)) + (int (card (set (D' i) - set (D i))) - int (card (set (D i) - set (D' i))))"
    if "i < v3BucketCount" for i
    using card_exchange[of "set (D' i)" "set (D i)"] assms that by (simp add: dict_wf_def distinct_card)
  then have "(\<Sum>i < v3BucketCount. int (length (D' i))) =
      (\<Sum>i < v3BucketCount. int (length (D i)) + (int (card (set (D' i) - set (D i))) - int (card (set (D i) - set (D' i)))))"
    by simp
  then show ?thesis by (simp add: gained_def sum.distrib sum_subtractf)
qed

lemma zeroBucket_count [simp]: "bk_Count zeroBucket = 0"
  by (simp add: zeroBucket_def)

lemma docBucket_sharded: "bk_Count (docBucket C g i) > 0 \<Longrightarrow> bk_sharded (docBucket C g i) \<and> bk_shard (docBucket C g i) = shardOf g i"
  by (auto simp: docBucket_def Let_def split: option.splits v3data.splits)

text \<open>What the loaded manifest says in the sharded layout.\<close>

lemma manifest_docBucket:
  assumes man: "manifestIn cid C t = Some m" and g: "mf_global m = Some g" and i: "i < v3BucketCount"
  shows "mf_Buckets m ! i = docBucket C g i"
  using man
proof (cases rule: manifestIn_cases)
  case (sharded g' n)
  have "shardOf g i < length (gm_Shards g)" for i using shardOf_less sharded(2,3) g by simp
  with shardsIn_nth[OF sharded(4)] sharded(3) g i show ?thesis by (simp add: zeroManifest_def)
qed (use g in simp)

lemma manifest_legacy:
  assumes man: "manifestIn cid C t = Some m" and g: "mf_global m = None"
  shows "\<forall>b \<in> set (mf_Buckets m). \<not> bk_sharded b" "mf_Count m = sum_list (map bk_Count (mf_Buckets m))"
  using man by (cases rule: manifestIn_cases; use g in simp)+


text \<open>A result reports how the dictionary changed.\<close>

definition reports :: "gostring \<Rightarrow> gostring set \<Rightarrow> WriteResult \<Rightarrow> (nat \<Rightarrow> gostring list) \<Rightarrow> (nat \<Rightarrow> gostring list) \<Rightarrow> bool" where
  "reports mode K r D D' \<longleftrightarrow>
     dictionary D' = editSpec mode (dictionary D) K \<and>
     wr_Added r = int (card (dictionary D' - dictionary D)) \<and> wr_Removed r = int (card (dictionary D - dictionary D'))"

lemma holds_readsAs:
  "manifestIn (ve_id env) C t = Some m \<Longrightarrow> holds env C t D \<longleftrightarrow> readsAs (ve_H env) C (mf_Buckets m) D \<and> dict_wf (ve_H env) D"
  by (auto simp: holds_def readsAs_def)

lemma editedTo_reports:
  assumes E: "editedTo H mode normalized old v3BucketCount e C" and R: "readsAs H C (mf_Buckets old) D" and wf: "dict_wf H D"
    and words: "\<forall>x \<in> set normalized. validString x \<and> x \<noteq> []" and mode: "mode \<in> {''replace'', ''add'', ''remove''}"
    and r: "wr_Added r = ed_Added e" "wr_Removed r = ed_Removed e"
  shows "reports mode (set normalized) r D (editedDict H mode normalized v3BucketCount D)"
proof -
  let ?D = "editedDict H mode normalized v3BucketCount D"
  have wf': "dict_wf H ?D" by (rule editedDict_wf[OF wf words])
  from E R wf have "ed_Added e = gained ?D D v3BucketCount" "ed_Removed e = gained D ?D v3BucketCount"
    by (simp_all add: editedTo_def Let_def)
  then show ?thesis
    unfolding reports_def r card_dictionary_diff[OF wf' wf] card_dictionary_diff[OF wf wf']
    using dictionary_edited[OF wf mode] by (simp add: gained_def)
qed

lemma edited_prepared:
  assumes E: "editedTo (ve_H env) mode normalized old v3BucketCount e C" and P: "placed old e" and st: "staged C (ed_stages e)"
    and man: "manifestIn (ve_id env) C t = Some old" and cur: "current env C t D"
    and words: "\<forall>x \<in> set normalized. validString x \<and> x \<noteq> []"
  shows "prepared env C (old\<lparr>mf_Buckets := ed_Buckets e\<rparr>) (ed_changed e) (mf_Count old + (ed_Added e - ed_Removed e))
      (editedDict (ve_H env) mode normalized v3BucketCount D)"
proof -
  let ?D = "editedDict (ve_H env) mode normalized v3BucketCount D"
  from cur man have R: "readsAs (ve_H env) C (mf_Buckets old) D" and wf: "dict_wf (ve_H env) D" and seq: "mf_Sequence old + 1 \<noteq> 0"
    by (auto simp: current_def holds_readsAs)
  have wf': "dict_wf (ve_H env) ?D" by (rule editedDict_wf[OF wf words])
  from E R wf st have R': "readsAs (ve_H env) C (ed_Buckets e) ?D" and n: "ed_Added e = gained ?D D v3BucketCount" "ed_Removed e = gained D ?D v3BucketCount"
    by (simp_all add: editedTo_def Let_def)
  have len: "length (mf_Buckets old) = v3BucketCount" using R by (simp add: readsAs_def)
  have buckets: "length (ed_Buckets e) = v3BucketCount" "\<forall>i < v3BucketCount. bucketIn (ve_H env) C (ed_Buckets e ! i) = Some (?D i)"
    using R' by (simp_all add: readsAs_def)
  show ?thesis
  proof (cases "mf_global old")
    case None
    note L = manifest_legacy[OF man None]
    have "\<forall>b \<in> set (ed_Buckets e). \<not> bk_sharded b"
    proof
      fix b assume "b \<in> set (ed_Buckets e)"
      then obtain i where i: "i < v3BucketCount" "b = ed_Buckets e ! i" using buckets(1) by (metis in_set_conv_nth)
      with P None L(1) len show "\<not> bk_sharded b" by (auto simp: placed_def)
    qed
    moreover have "mf_Count old + (ed_Added e - ed_Removed e) = sum_list (map bk_Count (ed_Buckets e))"
      unfolding counts_readsAs[OF R'] counts_edited[OF wf wf'] L(2) counts_readsAs[OF R] n by simp
    ultimately show ?thesis using buckets wf' seq None by (simp add: prepared_def)
  next
    case (Some g)
    have at: "ed_Buckets e ! i = docBucket C g i \<and> (shardOf g i \<notin> set (ed_changed e) \<longrightarrow> True) \<or>
        bk_sharded (ed_Buckets e ! i) \<and> bk_shard (ed_Buckets e ! i) = shardOf g i \<and> shardOf g i \<in> set (ed_changed e)"
      if i: "i < v3BucketCount" for i
      using P Some i len manifest_docBucket[OF man Some i] by (auto simp: placed_def)
    have "if shardOf g i \<in> set (ed_changed e)
        then bk_Count (ed_Buckets e ! i) > 0 \<longrightarrow> bk_sharded (ed_Buckets e ! i) \<and> bk_shard (ed_Buckets e ! i) = shardOf g i
        else docBucket C g i = ed_Buckets e ! i" if i: "i < v3BucketCount" for i
      using at[OF i] docBucket_sharded[of C g i] by auto
    then show ?thesis using buckets wf' Some by (simp add: prepared_def)
  qed
qed

text \<open>Reading and editing draw no random identifier.\<close>

lemma ids_command [simp]: "vw_ids (fst (v3command f w)) = vw_ids w"
  by (auto simp: v3command_def v3others_def Let_def split: cmd_io.splits prod.splits)

lemma ids_bindW: "(\<And>w x. vw_ids (fst (f w x)) = vw_ids w) \<Longrightarrow> vw_ids (fst (bindW p f)) = vw_ids (fst p)"
  by (auto simp: bindW_def split: prod.splits sum.splits)

lemma ids_loopW: "(\<And>x s w. vw_ids (fst (f x s w)) = vw_ids w) \<Longrightarrow> vw_ids (fst (loopW f xs s w)) = vw_ids w"
  by (induction xs arbitrary: s w) (simp_all add: ids_bindW)

lemma ids_pipelineGet [simp]: "vw_ids (fst (pipelineGet keys w)) = vw_ids w"
proof (induction keys arbitrary: w)
  case (Cons key keys)
  obtain w1 r where 1: "v3command (v3get key) w = (w1, r)" by fastforce
  obtain w2 rs where 2: "pipelineGet keys w1 = (w2, rs)" by fastforce
  from Cons[of w1] ids_command[of "v3get key" w] show ?case by (simp add: 1 2)
qed simp

lemma ids_loadBatch [simp]: "vw_ids (fst (loadBatch g a b s w)) = vw_ids w"
  by (simp add: loadBatch_def case_prod_beta split: list.split option.split)

lemma ids_loadShards [simp]: "vw_ids (fst (loadShards g c start s w)) = vw_ids w"
proof (induction g c start s w rule: loadShards.induct)
  case (1 g c start s w)
  obtain w1 r where b: "loadBatch g start (min (start + c) (length (gm_Shards g))) s w = (w1, r)" by fastforce
  from ids_loadBatch[of g start "min (start + c) (length (gm_Shards g))" s w] b have "vw_ids w1 = vw_ids w" by simp
  with 1[OF _ refl] b show ?case by (cases r) (simp_all add: loadShards.simps[of g c start s w] bindW_def)
qed

lemma ids_loadManifest: "loadManifest env t w = (w', r) \<Longrightarrow> vw_ids w' = vw_ids w"
proof -
  have "vw_ids (fst (loadManifest env t w)) = vw_ids w"
    unfolding loadManifest_def by (auto intro!: ids_bindW[THEN trans] split: option.split v3data.split prod.split)
  then show "loadManifest env t w = (w', r) \<Longrightarrow> vw_ids w' = vw_ids w" by simp
qed

lemma ids_bucket [simp]: "vw_ids (fst (bucket env b w)) = vw_ids w"
proof -
  have "vw_ids (fst (readChunk env b h ws w)) = vw_ids w" for h ws w
    unfolding readChunk_def by (auto intro!: ids_bindW[THEN trans] split: option.split)
  then show ?thesis unfolding bucket_def by (auto simp: ids_loopW intro!: ids_bindW[THEN trans])
qed

lemma ids_changeBucket [simp]: "vw_ids (fst (changeBucket env old mode normalized i e w)) = vw_ids w"
  unfolding changeBucket_def Let_def by (auto intro!: ids_bindW[THEN trans] split: prod.split option.split)

lemma change_commit:
  assumes o: "order_ok env" "env_opts_ok env" and rel: "reliable env l I w" and l: "le_member lease = l"
    and r: "r = \<lparr>wr_PreviousVersion = t, wr_Version = t, wr_OperationID = operation, wr_Added = ed_Added e, wr_Removed = ed_Removed e\<rparr>"
    and op: "operation \<in> I" "k_ops (vw_keys w) operation = None" and ok: "store_ok env (vw_keys w)" and ids: "ids_ok w 1"
    and words: "\<forall>x \<in> set normalized. validString x \<and> x \<noteq> []" and mode: "mode \<in> {''replace'', ''add'', ''remove''}"
    and P: "placed old e"
    and K: "known l w (\<lambda>C. manifestIn (ve_id env) C t = Some old \<and> editedTo (ve_H env) mode normalized old v3BucketCount e C)"
    and run: "prepareCommit env lease (old\<lparr>mf_Buckets := ed_Buckets e\<rparr>) r (ed_stages e) (ed_changed e) (ed_Added e \<noteq> 0 \<or> ed_Removed e \<noteq> 0) w = (w', res)"
  shows "atomically env (reports mode (set normalized)) w w' res"
proof -
  have reports: "reports mode (set normalized) (r\<lparr>wr_Version := v\<rparr>) D (editedDict (ve_H env) mode normalized v3BucketCount D)"
    if "manifestIn (ve_id env) C t = Some old \<and> editedTo (ve_H env) mode normalized old v3BucketCount e C" "current env C t D" for C D v
    by (rule editedTo_reports[OF _ _ _ words mode]) (use that r in \<open>auto simp: current_def holds_readsAs\<close>)
  show ?thesis
  proof (cases "ed_Added e \<noteq> 0 \<or> ed_Removed e \<noteq> 0")
    case False
    then have flag: "(ed_Added e \<noteq> 0 \<or> ed_Removed e \<noteq> 0) = False" by blast
    have same: "reports mode (set normalized) r D D"
      if h: "manifestIn (ve_id env) C t = Some old \<and> editedTo (ve_H env) mode normalized old v3BucketCount e C" "current env C t D" for C D
    proof -
      let ?D = "editedDict (ve_H env) mode normalized v3BucketCount D"
      from reports[OF h, of t] r False have "card (dictionary ?D - dictionary D) = 0" "card (dictionary D - dictionary ?D) = 0"
        by (simp_all add: reports_def)
      moreover have "finite (dictionary D')" for D' :: "nat \<Rightarrow> gostring list" by (simp add: dictionary_def)
      ultimately have "dictionary ?D = dictionary D" by auto
      with reports[OF h, of t] r show ?thesis by (simp add: reports_def)
    qed
    show ?thesis
      by (rule prepareCommit_unchanged[OF rel l _ _ ok _ known_mp[OF K] run[unfolded flag]])
        (use op r same in auto)
  next
    case True
    then have flag: "(ed_Added e \<noteq> 0 \<or> ed_Removed e \<noteq> 0) = True" by blast
    show ?thesis
    proof (rule prepareCommit_changed[OF o rel l _ _ ok ids _ known_mp[OF K] run[unfolded flag]])
      show "distinct (ed_changed e)" using P by (simp add: placed_def)
      fix C assume h: "manifestIn (ve_id env) C t = Some old \<and> editedTo (ve_H env) mode normalized old v3BucketCount e C"
      show "staged C (ed_stages e) \<longrightarrow> (\<forall>D. current env C (wr_PreviousVersion r) D \<longrightarrow>
          (\<exists>D'. prepared env C (old\<lparr>mf_Buckets := ed_Buckets e\<rparr>) (ed_changed e)
             (mf_Count (old\<lparr>mf_Buckets := ed_Buckets e\<rparr>) + (wr_Added r - wr_Removed r)) D' \<and>
           (\<forall>v. reports mode (set normalized) (r\<lparr>wr_Version := v\<rparr>) D D')))"
        using edited_prepared[OF conjunct2[OF h] P _ conjunct1[OF h] _ words] reports[OF h] r by fastforce
    qed (use op r in simp_all)
  qed
qed

lemma changeBody_atomically:
  assumes o: "order_ok env" "env_opts_ok env" and rel: "reliable env l I w" and l: "le_member lease = l"
    and op: "set (vw_ids w) \<subseteq> I" "\<forall>i \<in> I. k_ops (vw_keys w) i = None" and ok: "store_ok env (vw_keys w)" and ids: "ids_ok w 2"
    and norm: "sorted normalized" "distinct normalized" "\<forall>x \<in> set normalized. validString x \<and> x \<noteq> []"
    and mode: "mode \<in> {''replace'', ''add'', ''remove''}"
    and run: "changeBody env t normalized mode lease w = (w', res)"
  shows "atomically env (reports mode (set normalized)) w w' res"
proof -
  have "bindW (failW (loadManifest env t w)) (\<lambda>w1 old. case v3ID w1 of (w2, operation) \<Rightarrow>
        bindW (failW (loopW (changeBucket env old mode normalized) [0..<v3BucketCount]
            \<lparr>ed_Buckets = mf_Buckets old, ed_Added = 0, ed_Removed = 0, ed_stages = [], ed_changed = []\<rparr> w2)) (\<lambda>w3 e.
          prepareCommit env lease (old\<lparr>mf_Buckets := ed_Buckets e\<rparr>)
            \<lparr>wr_PreviousVersion = t, wr_Version = t, wr_OperationID = operation, wr_Added = ed_Added e, wr_Removed = ed_Removed e\<rparr>
            (ed_stages e) (ed_changed e) (ed_Added e \<noteq> 0 \<or> ed_Removed e \<noteq> 0) w3)) = (w', res)"
    using run by (simp add: changeBody_def Let_def)
  then show ?thesis
  proof (rule bindW_atomically)
    obtain v q where s: "loadManifest env t w = (v, q)" by fastforce
    note L = leased.loadManifest_correct[OF o(2) rel s]
    then show "noEffect w (fst (loadManifest env t w))" using runs_noEffect s by auto
    fix w1 old assume s': "loadManifest env t w = (w1, Inr old)" and c: "(case v3ID w1 of (w2, operation) \<Rightarrow>
        bindW (failW (loopW (changeBucket env old mode normalized) [0..<v3BucketCount]
            \<lparr>ed_Buckets = mf_Buckets old, ed_Added = 0, ed_Removed = 0, ed_stages = [], ed_changed = []\<rparr> w2)) (\<lambda>w3 e.
          prepareCommit env lease (old\<lparr>mf_Buckets := ed_Buckets e\<rparr>)
            \<lparr>wr_PreviousVersion = t, wr_Version = t, wr_OperationID = operation, wr_Added = ed_Added e, wr_Removed = ed_Removed e\<rparr>
            (ed_stages e) (ed_changed e) (ed_Added e \<noteq> 0 \<or> ed_Removed e \<noteq> 0) w3)) = (w', res)"
    with s L have r1: "runs env l I w w1" and k1: "known l w1 (\<lambda>C. manifestIn (ve_id env) C t = Some old)" by auto
    note rel1 = runs_reliable[OF r1 rel]
    obtain w2 operation where id2: "v3ID w1 = (w2, operation)" by fastforce
    have r2: "runs env l I w w2" using runs_trans[OF r1 v3ID_runs[OF id2]] .
    have ids1: "vw_ids w1 = vw_ids w" by (rule ids_loadManifest[OF s'])
    then obtain xs where xs: "vw_ids w = operation # xs" "vw_ids w2 = xs" using ids id2 by (cases "vw_ids w") (auto simp: v3ID_def ids_ok_def next_or_def)
    have fresh: "operation \<in> I" using xs op(1) by auto
    show "atomically env (reports mode (set normalized)) w1 w' res"
    proof -
      from c id2 have "bindW (failW (loopW (changeBucket env old mode normalized) [0..<v3BucketCount]
            \<lparr>ed_Buckets = mf_Buckets old, ed_Added = 0, ed_Removed = 0, ed_stages = [], ed_changed = []\<rparr> w2)) (\<lambda>w3 e.
          prepareCommit env lease (old\<lparr>mf_Buckets := ed_Buckets e\<rparr>)
            \<lparr>wr_PreviousVersion = t, wr_Version = t, wr_OperationID = operation, wr_Added = ed_Added e, wr_Removed = ed_Removed e\<rparr>
            (ed_stages e) (ed_changed e) (ed_Added e \<noteq> 0 \<or> ed_Removed e \<noteq> 0) w3) = (w', res)" by simp
      then have "atomically env (reports mode (set normalized)) w2 w' res"
      proof (rule bindW_atomically)
        show "noEffect w2 (fst (loopW (changeBucket env old mode normalized) [0..<v3BucketCount]
            \<lparr>ed_Buckets = mf_Buckets old, ed_Added = 0, ed_Removed = 0, ed_stages = [], ed_changed = []\<rparr> w2))"
          using changeLoop_correct[OF runs_reliable[OF r2 rel] norm mode] runs_noEffect by (metis prod.collapse)
        fix w3 e assume loop: "loopW (changeBucket env old mode normalized) [0..<v3BucketCount]
            \<lparr>ed_Buckets = mf_Buckets old, ed_Added = 0, ed_Removed = 0, ed_stages = [], ed_changed = []\<rparr> w2 = (w3, Inr e)"
          and p: "prepareCommit env lease (old\<lparr>mf_Buckets := ed_Buckets e\<rparr>)
            \<lparr>wr_PreviousVersion = t, wr_Version = t, wr_OperationID = operation, wr_Added = ed_Added e, wr_Removed = ed_Removed e\<rparr>
            (ed_stages e) (ed_changed e) (ed_Added e \<noteq> 0 \<or> ed_Removed e \<noteq> 0) w3 = (w', res)"
        from changeLoop_correct[OF runs_reliable[OF r2 rel] norm mode loop]
        have r3: "runs env l I w2 w3" and P: "placed old e" and E: "known l w3 (editedTo (ve_H env) mode normalized old v3BucketCount e)" by simp_all
        have ids3: "vw_ids w3 = xs" using ids_loopW[of "changeBucket env old mode normalized" "[0..<v3BucketCount]"
            "\<lparr>ed_Buckets = mf_Buckets old, ed_Added = 0, ed_Removed = 0, ed_stages = [], ed_changed = []\<rparr>" w2] loop xs by simp
        show "atomically env (reports mode (set normalized)) w3 w' res"
          by (rule change_commit[OF o runs_reliable[OF runs_trans[OF r2 r3] rel] l _ fresh _ _ _ norm(3) mode P
                known_conj[OF known_runs[OF runs_trans[OF v3ID_runs[OF id2] r3] k1] E] p])
            (use op ok r2 r3 ids xs ids3 fresh runs_trans[OF r2 r3] in \<open>auto simp: runs_def ids_ok_def\<close>)
      qed
      with runs_noEffect[OF v3ID_runs[OF id2]] show ?thesis by (rule atomically_before)
    qed
  qed
qed

end
