(* ===== verification/V3_Atomic.thy ===== *)
theory V3_Atomic
  imports V3_Change Matches
begin

text \<open>
  Add, remove and replace on a versioned collection as wholes: the lease is taken, the
  change prepared and committed, and the lease closed; whatever the other clients do in
  between, the operation takes effect at one instant or not at all.
\<close>

section \<open>Around the body\<close>

text \<open>Steps that leave the dictionary and the receipts alone, before the lease exists or after it is gone.\<close>

definition calm :: "v3env \<Rightarrow> gostring set \<Rightarrow> v3world \<Rightarrow> v3world \<Rightarrow> bool" where
  "calm env I w w' \<longleftrightarrow>
     set (vw_env w') \<subseteq> set (vw_env w) \<and> noEffect w w' \<and> (excluded (vw_keys w) \<longrightarrow> excluded (vw_keys w')) \<and>
     (store_ok env (vw_keys w) \<longrightarrow> store_ok env (vw_keys w')) \<and>
     (\<forall>i \<in> I. k_ops (vw_keys w) i = None \<longrightarrow> k_ops (vw_keys w') i = None)"

lemma runs_calm: "runs env m I w w' \<Longrightarrow> calm env I w w'"
  by (auto simp: calm_def runs_def noEffect_def quietRun_def)

lemma calm_trans: "calm env I a b \<Longrightarrow> calm env I b c \<Longrightarrow> calm env I a c"
  unfolding calm_def using noEffect_trans by blast

lemma calm_refl [simp]: "calm env I w w"
  using runs_calm[OF runs_refl] .

lemma calm_reliable: "calm env I w w' \<Longrightarrow> reliable env m I w \<Longrightarrow> reliable env m I w'"
  by (auto simp: calm_def reliable_def)

lemma calm_local: "local_step w w' \<Longrightarrow> calm env I w w'"
  using runs_calm[OF local_runs] .

text \<open>Taking a lease is a calm command.\<close>

lemma zlive_zadd: "zlive now (zadd m e z) m' \<longleftrightarrow> (if m' = m then e > now else zlive now z m')"
  by (simp add: zlive_def zadd_def update_conv')

lemma acquire_script_cases:
  obtains (refused) r where "v3AcquireScript which t newID ttl k = (k, r)" "\<forall>a m. r \<noteq> Inr (Leased a m)"
    | (taken) a where "k_active k = Some a" "t \<noteq> [] \<longrightarrow> a = t" "\<not> underMaintenance Global k"
        "v3AcquireScript which t newID ttl k = (ns_update Global (ns_set which (zadd (a @ ''/'' @ newID) (k_now k + ttl))) k, Inr (Leased a (a @ ''/'' @ newID)))"
proof (cases "\<not> underMaintenance Global k \<and> (t = [] \<or> k_active k = Some t) \<and> k_active k \<noteq> None")
  case True
  then obtain a where "k_active k = Some a" by blast
  with True show thesis by (intro taken[of a]) (auto simp: v3AcquireScript_def Let_def)
next
  case False
  then have "fst (v3AcquireScript which t newID ttl k) = k \<and> (\<forall>a m. snd (v3AcquireScript which t newID ttl k) \<noteq> Inr (Leased a m))"
    by (auto simp: v3AcquireScript_def split: option.splits)
  then show thesis using refused by (cases "v3AcquireScript which t newID ttl k") auto
qed

lemma lease_quiet:
  "quietStep k (ns_update n (ns_set which f) k)" "content_le (contents k) (contents (ns_update n (ns_set which f) k))"
  "store_ok env k \<Longrightarrow> store_ok env (ns_update n (ns_set which f) k)"
proof -
  have c: "ns_content (ns_set which f s) = ns_content s" for s by (simp add: ns_set_def)
  show q: "quietStep k (ns_update n (ns_set which f) k)" by (simp add: quietStep_def)
  show le: "content_le (contents k) (contents (ns_update n (ns_set which f) k))" by (simp add: content_le_update c)
  show "store_ok env k \<Longrightarrow> store_ok env (ns_update n (ns_set which f) k)" by (rule store_ok_mono[OF _ _ le]) simp_all
qed

lemma acquire_script_calm:
  "quietStep k (fst (v3AcquireScript which t newID ttl k)) \<and> (store_ok env k \<longrightarrow> store_ok env (fst (v3AcquireScript which t newID ttl k))) \<and>
   (excluded k \<longrightarrow> excluded (fst (v3AcquireScript which t newID ttl k)))"
proof (cases rule: acquire_script_cases[where which = which and t = t and newID = newID and ttl = ttl and k = k])
  case refused
  then show ?thesis by (simp add: quietStep_def)
next
  case (taken a)
  have "ns_maintenance (ns_set which f s) = ns_maintenance s" for f s by (simp add: ns_set_def)
  then show ?thesis using taken lease_quiet[where k = k] by (simp add: excluded_def underMaintenance_update)
qed

lemma v3command_calm:
  assumes rel: "reliable env m I w" and run: "v3command f w = (w', r)"
    and f: "\<And>k. quietStep k (fst (f k)) \<and> (store_ok env k \<longrightarrow> store_ok env (fst (f k))) \<and> (excluded k \<longrightarrow> excluded (fst (f k)))"
  shows "calm env I w w'" "r = Inr x \<Longrightarrow> \<exists>k. snd (f k) = x"
proof -
  let ?k = "vw_keys (v3others w)"
  obtain k' x' where fk: "f ?k = (k', x')" by fastforce
  have "vw_past w' = vw_past (v3others w) \<or> vw_past w' = vw_past (v3others w) @ [(?k, k')]" "vw_keys w' = ?k \<or> vw_keys w' = k'"
    "vw_env w' = vw_env (v3others w)"
    using run fk by (auto simp: v3command_def Let_def split: cmd_io.splits)
  then have "calm env I (v3others w) w'"
    using f[of ?k] fk by (auto simp: calm_def noEffect_def quietRun_def quietStep_def)
  then show "calm env I w w'" using runs_calm[OF others_runs[OF rel]] calm_trans by blast
  show "r = Inr x \<Longrightarrow> \<exists>k. snd (f k) = x" using run fk by (auto simp: v3command_def Let_def split: cmd_io.splits intro: exI[of _ ?k])
qed

lemma lease_close_calm:
  assumes "reliable env m I w"
  shows "calm env I w (lease_close l w)"
proof -
  have q: "calm env I w (fst (v3command (v3ReleaseScript n which m') w))" if "reliable env m I w" for n which m' w
    using runs_calm[OF v3command_runs(1)[OF quiet_release[of env m] that]] by (metis prod.collapse)
  have "calm env I w (fold (\<lambda>shard w. fst (v3command (v3ReleaseScript (Shard shard) ''writers'' m') w)) shards w)"
    if "reliable env m I w" for m' shards w
    using that
  proof (induction shards arbitrary: w)
    case (Cons shard shards)
    have "calm env I w (fst (v3command (v3ReleaseScript (Shard shard) ''writers'' m') w))" by (rule q[OF Cons.prems])
    from calm_trans[OF this Cons.IH[OF calm_reliable[OF this Cons.prems]]] show ?case by simp
  qed simp
  from calm_trans[OF q[OF assms] this[OF calm_reliable[OF q[OF assms] assms]]] show ?thesis
    unfolding lease_close_def .
qed

lemma command_noEffect: "(\<And>k. quietStep k (fst (f k))) \<Longrightarrow> noEffect w (fst (v3command f w))"
  by (auto simp: noEffect_def quietRun_def v3command_def v3others_def Let_def split: cmd_io.splits prod.splits) (metis fst_conv)+

lemma lease_close_noEffect: "noEffect w (lease_close l w)"
proof -
  have q: "noEffect w (fst (v3command (v3ReleaseScript n which m') w))" for n which m' w
    by (rule command_noEffect) (simp add: v3ReleaseScript_def quietStep_def)
  have "noEffect w (fold (\<lambda>shard w. fst (v3command (v3ReleaseScript (Shard shard) ''writers'' m') w)) shards w)" for m' shards w
  proof (induction shards arbitrary: w)
    case Nil
    then show ?case by (auto simp: noEffect_def intro: exI[of _ "[]"])
  next
    case (Cons shard shards)
    from noEffect_trans[OF q Cons.IH] show ?case by simp
  qed
  from noEffect_trans[OF q this] show ?thesis unfolding lease_close_def .
qed

lemma acquire_calm:
  assumes rel: "reliable env m I w" and t: "t \<noteq> []" and run: "acquire env t True w = (w', r)"
  shows "calm env I w w'"
    and "r = Inr (lease, a) \<Longrightarrow> le_member lease = t @ ''/'' @ next_or [] (vw_ids w) \<and> vw_ids w' = tl (vw_ids w)"
proof -
  obtain w1 c where 1: "v3check w = (w1, c)" by fastforce
  have c1: "calm env I w w1" "vw_ids w1 = vw_ids w" using runs_calm[OF v3check_runs[OF 1]] 1 by (auto simp: v3check_def)
  have "calm env I w w' \<and> (r = Inr (lease, a) \<longrightarrow> le_member lease = t @ ''/'' @ next_or [] (vw_ids w) \<and> vw_ids w' = tl (vw_ids w))"
  proof (cases c)
    case (Some err)
    with run 1 c1 show ?thesis by (auto simp: acquire_def)
  next
    case None
    obtain w2 newID where 2: "v3ID w1 = (w2, newID)" by fastforce
    have c2: "calm env I w w2" using calm_trans[OF c1(1) runs_calm[OF v3ID_runs[OF 2]]] .
    have ids2: "newID = next_or [] (vw_ids w)" "vw_ids w2 = tl (vw_ids w)" using 2 c1(2) by (auto simp: v3ID_def)
    obtain w3 q where 3: "v3command (v3AcquireScript ''writers'' t newID (vo_LeaseDuration (ve_opts env) div 10 ^ 6)) w2 = (w3, q)" by fastforce
    note A = v3command_calm[OF calm_reliable[OF c2 rel] 3 acquire_script_calm]
    have c3: "calm env I w w3" by (rule calm_trans[OF c2 A(1)])
    have ids3: "vw_ids w3 = tl (vw_ids w)" using ids_command[of _ w2] 3 ids2 by (metis fst_conv)
    have member: "x = t @ ''/'' @ newID" if "q = Inr (Inr (Leased y x))" for y x
    proof -
      from A(2)[OF that] obtain k where k: "snd (v3AcquireScript ''writers'' t newID (vo_LeaseDuration (ve_opts env) div 10 ^ 6) k) = Inr (Leased y x)" by blast
      show ?thesis
        by (cases rule: acquire_script_cases[where which = "''writers''" and t = t and newID = newID and ttl = "vo_LeaseDuration (ve_opts env) div 10 ^ 6" and k = k])
          (use k t in auto)
    qed
    show ?thesis
    proof (cases "\<exists>y x. q = Inr (Inr (Leased y x))")
      case False
      with run 1 2 3 None have "w' = w3" "\<forall>x. r \<noteq> Inr x"
        by (auto simp: acquire_def bindW_def split: sum.splits acquired.splits)
      with c3 show ?thesis by auto
    next
      case True
      then obtain y x where q: "q = Inr (Inr (Leased y x))" by blast
      let ?l = "\<lparr>le_member = x, le_set = ''writers''\<rparr>"
      obtain w4 d where 4: "v3check (w3\<lparr>vw_shards := []\<rparr>) = (w4, d)" by fastforce
      have "local_step w3 w4" and ids4: "vw_ids w4 = vw_ids w3" using 4 by (auto simp: v3check_def local_step_def)
      with c3 have c4: "calm env I w w4" using calm_local calm_trans by blast
      show ?thesis
      proof (cases d)
        case None
        with run 1 2 3 4 q \<open>c = None\<close> have "w' = w4" "r = Inr (?l, y)" by (simp_all add: acquire_def bindW_def)
        with c4 member[OF q] ids2 ids3 ids4 show ?thesis by auto
      next
        case (Some err)
        with run 1 2 3 4 q \<open>c = None\<close> have "w' = lease_close ?l w4" "r = Inl ErrVersionedClosed" by (simp_all add: acquire_def bindW_def)
        with calm_trans[OF c4 lease_close_calm[OF calm_reliable[OF c4 rel]]] show ?thesis by auto
      qed
    qed
  qed
  then show "calm env I w w'" "r = Inr (lease, a) \<Longrightarrow> le_member lease = t @ ''/'' @ next_or [] (vw_ids w) \<and> vw_ids w' = tl (vw_ids w)"
    by simp_all
qed


section \<open>The scripts of other clients\<close>

text \<open>Every script of the other clients keeps what a writer relies on.\<close>

lemma relyI:
  assumes "\<And>k. excluded k \<Longrightarrow> excluded (f k)" "\<And>k. excluded k \<Longrightarrow> writerLive m (f k) \<Longrightarrow> writerLive m k"
    and "\<And>k. contents (f k) = contents k" "\<And>k. k_active (f k) = k_active k" "\<And>k. k_ops (f k) = k_ops k"
  shows "v3rely env m I f"
  using assms by (simp add: v3rely_def later_def store_ok_def)

lemma quiet_rely: "quiet env m f \<Longrightarrow> v3rely env m I (\<lambda>k. fst (f k))"
  by (auto simp: v3rely_def quiet_def quietStep_def)

lemma rely_time:
  assumes "0 \<le> d"
  shows "v3rely env m I (\<lambda>k. k\<lparr>k_now := k_now k + d\<rparr>)"
proof (rule relyI)
  have m: "underMaintenance Global (k\<lparr>k_now := k_now k + d\<rparr>) \<Longrightarrow> underMaintenance Global k" for k
    using assms by (auto simp: underMaintenance_def split: option.splits)
  have l: "writerLive m (k\<lparr>k_now := k_now k + d\<rparr>) \<Longrightarrow> writerLive m k" for m k
    using assms by (auto simp: writerLive_def zlive_def split: option.splits)
  show "writerLive m (k\<lparr>k_now := k_now k + d\<rparr>) \<Longrightarrow> writerLive m k" for k by (rule l)
  show "excluded k \<Longrightarrow> excluded (k\<lparr>k_now := k_now k + d\<rparr>)" for k using m l unfolding excluded_def by blast
  show "contents (k\<lparr>k_now := k_now k + d\<rparr>) = contents k" for k
    unfolding contents_def by (rule ext, rename_tac n, case_tac n) simp_all
qed simp_all

lemma contents_keep: "(\<And>s. ns_content (f s) = ns_content s) \<Longrightarrow> contents (ns_update n f k) = contents k"
  by (auto simp: contents_update contents_def fun_eq_iff)

lemma rely_acquire:
  assumes "\<And>a. a @ ''/'' @ newID \<noteq> m"
  shows "v3rely env m I (\<lambda>k. fst (v3AcquireScript which t newID ttl k))"
proof (rule relyI)
  fix k
  have c: "ns_content (ns_set which f s) = ns_content s" for f s by (simp add: ns_set_def)
  have "contents (fst (v3AcquireScript which t newID ttl k)) = contents k \<and> k_ops (fst (v3AcquireScript which t newID ttl k)) = k_ops k \<and>
      k_active (fst (v3AcquireScript which t newID ttl k)) = k_active k \<and> (writerLive m (fst (v3AcquireScript which t newID ttl k)) \<longrightarrow> writerLive m k)"
  proof (cases rule: acquire_script_cases[where which = which and t = t and newID = newID and ttl = ttl and k = k])
    case (taken a)
    have "m \<noteq> a @ ''/'' @ newID" using assms by metis
    with taken(4) show ?thesis by (auto simp: contents_keep c writerLive_def ns_set_def zlive_zadd)
  qed simp
  then show "contents (fst (v3AcquireScript which t newID ttl k)) = contents k" "k_ops (fst (v3AcquireScript which t newID ttl k)) = k_ops k"
    "k_active (fst (v3AcquireScript which t newID ttl k)) = k_active k" "writerLive m (fst (v3AcquireScript which t newID ttl k)) \<Longrightarrow> writerLive m k"
    by blast+
qed (use acquire_script_calm in blast)

lemma rely_renew: "v3rely env m I (\<lambda>k. fst (v3RenewScript which m' ttl k))"
proof (rule relyI)
  fix k
  have c: "ns_content (ns_set which f s) = ns_content s" "ns_maintenance (ns_set which f s) = ns_maintenance s" for f s by (simp_all add: ns_set_def)
  have l: "writerLive m1 (fst (v3RenewScript which m' ttl k)) \<Longrightarrow> writerLive m1 k" for m1
    by (auto simp: v3RenewScript_def writerLive_def ns_set_def ns_zset_def zlive_zadd split: if_splits)
  then show "writerLive m (fst (v3RenewScript which m' ttl k)) \<Longrightarrow> writerLive m k" by blast
  have "underMaintenance Global (fst (v3RenewScript which m' ttl k)) = underMaintenance Global k"
    by (simp add: v3RenewScript_def underMaintenance_update c)
  with l show "excluded k \<Longrightarrow> excluded (fst (v3RenewScript which m' ttl k))" unfolding excluded_def by blast
  show "contents (fst (v3RenewScript which m' ttl k)) = contents k" by (simp add: v3RenewScript_def contents_keep c)
qed (simp_all add: v3RenewScript_def)

text \<open>Maintenance begins only when no writer is live, and ends by itself or by its token.\<close>

lemma map_of_filter_key: "map_of (filter (\<lambda>e. P (fst e)) z) m = (if P m then map_of z m else None)"
  by (induction z) auto

lemma zlive_zexpire [simp]: "zlive now (zexpire now z) m \<longleftrightarrow> zlive now z m"
  by (auto simp: zlive_def zexpire_def map_of_filter_key[where P = "\<lambda>x. case map_of z x of None \<Rightarrow> False | Some s \<Rightarrow> s > now"] split: option.splits)

lemma zexpire_Nil: "zexpire now z = [] \<Longrightarrow> \<not> zlive now z m"
  using zlive_zexpire[of now z m] by (simp add: zlive_def)

lemma prune_script_cases:
  obtains (refused) k1 where "v3PruneScript k = (k1, None)" "k1 = ns_update Global (\<lambda>s. s\<lparr>ns_writers := zexpire (k_now k) (ns_writers s), ns_leases := zexpire (k_now k) (ns_leases s)\<rparr>) k"
    | (taken) k1 where "v3PruneScript k = (k1, Some (ns_fence (k_global k) + 1, k_now k div 1000))" "\<And>m. \<not> writerLive m k" "\<And>m. \<not> writerLive m k1"
        "contents k1 = contents k" "k_active k1 = k_active k" "k_ops k1 = k_ops k" "k_now k1 = k_now k"
proof -
  let ?k = "ns_update Global (\<lambda>s. s\<lparr>ns_writers := zexpire (k_now k) (ns_writers s), ns_leases := zexpire (k_now k) (ns_leases s)\<rparr>) k"
  show thesis
  proof (cases "underMaintenance Global ?k \<or> ns_writers (k_global ?k) \<noteq> []")
    case True
    then show thesis by (intro refused) (auto simp: v3PruneScript_def Let_def)
  next
    case False
    then have "zexpire (k_now k) (ns_writers (k_global k)) = []" by simp
    then have none: "\<not> writerLive m k" for m using zexpire_Nil by (simp add: writerLive_def)
    obtain k1 a where p: "v3PruneScript k = (k1, a)" by fastforce
    with False none show thesis
      by (intro taken[of k1]) (auto simp: v3PruneScript_def Let_def writerLive_def contents_keep zlive_def zexpire_def)
  qed
qed

lemma rely_prune: "v3rely env m I (\<lambda>k. fst (v3PruneScript k))"
proof (rule relyI)
  fix k
  have "contents (fst (v3PruneScript k)) = contents k \<and> k_ops (fst (v3PruneScript k)) = k_ops k \<and> k_active (fst (v3PruneScript k)) = k_active k \<and>
      (\<forall>m. writerLive m (fst (v3PruneScript k)) \<longrightarrow> writerLive m k) \<and> (excluded k \<longrightarrow> excluded (fst (v3PruneScript k)))"
  proof (cases rule: prune_script_cases[where k = k])
    case (refused k1)
    then show ?thesis by (auto simp: contents_keep writerLive_def excluded_def underMaintenance_update)
  next
    case (taken k1)
    then show ?thesis by (simp add: excluded_def)
  qed
  then show "contents (fst (v3PruneScript k)) = contents k" "k_ops (fst (v3PruneScript k)) = k_ops k" "k_active (fst (v3PruneScript k)) = k_active k"
    "writerLive m (fst (v3PruneScript k)) \<Longrightarrow> writerLive m k" "excluded k \<Longrightarrow> excluded (fst (v3PruneScript k))"
    by blast+
qed

lemma maintenanceToken_under: "maintenanceToken n k = Some token \<Longrightarrow> underMaintenance n k"
  by (auto simp: maintenanceToken_def underMaintenance_def split: option.splits prod.splits if_splits)

lemma rely_fence: "v3rely env m I (\<lambda>k. fst (v3FenceScript token k))"
proof (rule relyI)
  show "excluded k \<Longrightarrow> excluded (fst (v3FenceScript token k))" for k
    using maintenanceToken_under[of Global k token] by (auto simp: v3FenceScript_def excluded_def writerLive_def)
qed (auto simp: v3FenceScript_def writerLive_def contents_keep split: if_splits)

lemma rely_unlock: "v3rely env m I (\<lambda>k. fst (v3UnlockScript n token k))"
proof (rule relyI)
  show "excluded k \<Longrightarrow> excluded (fst (v3UnlockScript n token k))" for k
    by (cases n) (auto simp: v3UnlockScript_def excluded_def writerLive_def underMaintenance_def split: option.splits)
qed (auto simp: v3UnlockScript_def writerLive_def contents_keep split: if_splits)

lemma rely_shardFence: "v3rely env m I (\<lambda>k. fst (v3ShardFenceScript token shard k))"
proof (rule relyI)
  show "excluded k \<Longrightarrow> excluded (fst (v3ShardFenceScript token shard k))" for k
    by (auto simp: v3ShardFenceScript_def Let_def excluded_def writerLive_def underMaintenance_def split: option.splits)
qed (auto simp: v3ShardFenceScript_def Let_def writerLive_def contents_keep split: if_splits)

text \<open>While the maintenance token is good no writer is live, so nothing a writer relies on is deleted.\<close>

lemma delete_excluded:
  assumes "excluded k" "maintenanceToken Global k = Some token"
  shows "\<not> writerLive m k"
  using assms maintenanceToken_under by (simp add: excluded_def)

text \<open>A deletion under good maintenance that spares the active generation.\<close>

lemma rely_delete:
  "v3rely env m I (\<lambda>k. if underMaintenance Global k \<and> (store_ok env k \<longrightarrow> store_ok env (fst (v3DeleteScript n token registry pre ids k)))
     then fst (v3DeleteScript n token registry pre ids k) else k)"
proof -
  have f: "ns_writers (deleteIDs registry pre ids s) = ns_writers s \<and> ns_maintenance (deleteIDs registry pre ids s) = ns_maintenance s" for s
    unfolding deleteIDs_def by (induction ids arbitrary: s) simp_all
  have "k_ops (fst (v3DeleteScript n token registry pre ids k)) = k_ops k" "writerLive m' (fst (v3DeleteScript n token registry pre ids k)) = writerLive m' k"
    "underMaintenance Global (fst (v3DeleteScript n token registry pre ids k)) = underMaintenance Global k" for k m'
    by (simp_all add: v3DeleteScript_def writerLive_def f underMaintenance_update)
  then show ?thesis by (simp add: v3rely_def excluded_def later_def)
qed

text \<open>A commit of another operation, of a generation that reads back.\<close>

lemma rely_commit:
  assumes "wr_OperationID r \<notin> I"
  shows "v3rely env m I (\<lambda>k. if \<exists>D. current env (contents k) (wr_Version r) D then fst (v3CommitScript m' r seq layout k) else k)"
proof -
  have w: "writerLive m1 (fst (v3CommitScript m' r seq layout k)) = writerLive m1 k"
    "underMaintenance Global (fst (v3CommitScript m' r seq layout k)) = underMaintenance Global k" for m1 k
    by (auto simp: v3CommitScript_def Let_def writerLive_def underMaintenance_def ns_update.simps split: option.split)
  have c: "contents (fst (v3CommitScript m' r seq layout k)) = contents k \<and> (\<forall>i \<in> I. k_ops (fst (v3CommitScript m' r seq layout k)) i = k_ops k i) \<and>
      (fst (v3CommitScript m' r seq layout k) = k \<or> k_active (fst (v3CommitScript m' r seq layout k)) = Some (wr_Version r))" for k
    using assms by (cases rule: commit_script_cases[where l = m' and r = r and seq = seq and layout = layout and k = k]) auto
  show ?thesis unfolding v3rely_def
  proof (intro allI impI)
    fix k assume e: "excluded k"
    let ?k = "fst (v3CommitScript m' r seq layout k)"
    have "excluded ?k" using e w by (simp add: excluded_def)
    moreover have "store_ok env k \<longrightarrow> store_ok env ?k" if "\<exists>D. current env (contents k) (wr_Version r) D"
      using c[of k] that by (auto simp: store_ok_def)
    ultimately show "excluded (if \<exists>D. current env (contents k) (wr_Version r) D then ?k else k) \<and>
      later m k (if \<exists>D. current env (contents k) (wr_Version r) D then ?k else k) \<and>
      (\<forall>i \<in> I. k_ops k i = None \<longrightarrow> k_ops (if \<exists>D. current env (contents k) (wr_Version r) D then ?k else k) i = None) \<and>
      (store_ok env k \<longrightarrow> store_ok env (if \<exists>D. current env (contents k) (wr_Version r) D then ?k else k))"
      using c[of k] w[where k = k] e by (auto simp: later_def)
  qed
qed

section \<open>The change\<close>

definition changeReliable :: "v3env \<Rightarrow> gostring \<Rightarrow> v3world \<Rightarrow> bool" where
  "changeReliable env expected w \<longleftrightarrow>
     reliable env (expected @ ''/'' @ next_or [] (vw_ids w)) (set (vw_ids w)) w \<and> store_ok env (vw_keys w) \<and> ids_ok w 3 \<and>
     (\<forall>i \<in> set (vw_ids w). k_ops (vw_keys w) i = None)"

lemma calm_noEffect: "calm env I w w' \<Longrightarrow> noEffect w w'"
  by (simp add: calm_def)

lemma withWriter_atomically:
  assumes C: "changeReliable env expected w" and t: "expected \<noteq> []"
    and body: "\<And>lease w1 w2 r. le_member lease = expected @ ''/'' @ next_or [] (vw_ids w) \<Longrightarrow> calm env (set (vw_ids w)) w w1 \<Longrightarrow>
      vw_ids w1 = tl (vw_ids w) \<Longrightarrow> body lease w1 = (w2, r) \<Longrightarrow> atomically env P w1 w2 r"
    and run: "withWriter env expected body w = (w', res)"
  shows "atomically env P w w' res"
proof -
  let ?m = "expected @ ''/'' @ next_or [] (vw_ids w)"
  have rel: "reliable env ?m (set (vw_ids w)) w" using C by (simp add: changeReliable_def)
  from run have "bindW (failW (acquire env expected True w)) (\<lambda>w1 (l, active). case body l w1 of (w2, r) \<Rightarrow> (lease_close l w2, r)) = (w', res)"
    by (simp add: withWriter_def)
  then show ?thesis
  proof (rule bindW_atomically)
    show "noEffect w (fst (acquire env expected True w))"
      using acquire_calm(1)[OF rel t] calm_noEffect by (metis prod.collapse)
    fix w1 x assume a: "acquire env expected True w = (w1, Inr x)" and c: "(\<lambda>(l, active). case body l w1 of (w2, r) \<Rightarrow> (lease_close l w2, r)) x = (w', res)"
    obtain l active where x: "x = (l, active)" by fastforce
    obtain w2 r where b: "body l w1 = (w2, r)" by fastforce
    from c x b have w': "w' = lease_close l w2" "res = r" by simp_all
    note A = acquire_calm[OF rel t a[unfolded x]]
    from body[OF _ A(1) _ b] A(2)[OF refl] have "atomically env P w1 w2 r" by simp
    from atomically_after[OF this lease_close_noEffect] show "atomically env P w1 w' res" by (simp add: w')
  qed
qed


text \<open>
  C40.  A write of a versioned collection is linearizable: whatever the other clients do
  between its commands, whichever command fails or loses its reply, and in both
  layouts, one command of the operation takes the active generation from the expected
  version, holding some dictionary, to the new one, holding the edited dictionary, with
  exact counts of the added and removed words and the receipt of the operation; or the
  operation returns an error and changes neither the active generation nor any receipt.
  Only with an unknown outcome does an error leave both possible.
\<close>

theorem v3_change_atomic:
  assumes "order_ok env" "env_opts_ok env" "unicode_ok (ve_unicode env)" and mode: "mode \<in> {''replace'', ''add'', ''remove''}"
    and C: "changeReliable env expected w" and run: "change env expected words mode w = (w', res)"
  shows "atomically env (reports mode (normalWord (ve_unicode env) (vo_CaseSensitive (ve_opts env)) ` set words)) w w' res"
proof (cases "v3valid (ve_id env) expected")
  case False
  with run show ?thesis by (auto simp: change_def atomically_def noEffect_def intro: exI[of _ "[]"])
next
  case True
  then have t: "expected \<noteq> []" by (auto simp: v3valid_def)
  let ?n = "v3Normalize (ve_unicode env) words (vo_CaseSensitive (ve_opts env))"
  have "bindW (failW (w, ?n)) (\<lambda>w1 normalized. withWriter env expected (changeBody env expected normalized mode) w1) = (w', res)"
    using run True by (simp add: change_def)
  then show ?thesis
  proof (rule bindW_atomically)
    show "noEffect w (fst (w, ?n))" by (auto simp: noEffect_def intro: exI[of _ "[]"])
    fix w1 normalized assume n: "(w, ?n) = (w1, Inr normalized)" and c: "withWriter env expected (changeBody env expected normalized mode) w1 = (w', res)"
    then have w1: "w1 = w" and N: "?n = Inr normalized" by simp_all
    note words = v3Normalize_Inr[OF N]
    have valid: "\<forall>x \<in> set normalized. validString x \<and> x \<noteq> []" using v3Normalize_words[OF assms(3) N] by blast
    show "atomically env (reports mode (normalWord (ve_unicode env) (vo_CaseSensitive (ve_opts env)) ` set words)) w1 w' res"
      unfolding words(1)[symmetric]
    proof (rule withWriter_atomically[OF C[folded w1] t _ c])
      fix lease v v2 r
      assume l: "le_member lease = expected @ ''/'' @ next_or [] (vw_ids w1)" and v: "calm env (set (vw_ids w1)) w1 v"
        and ids: "vw_ids v = tl (vw_ids w1)" and b: "changeBody env expected normalized mode lease v = (v2, r)"
      have rel: "reliable env (expected @ ''/'' @ next_or [] (vw_ids w1)) (set (vw_ids w1)) v"
        using C v by (auto simp: changeReliable_def w1 intro: calm_reliable)
      show "atomically env (reports mode (set normalized)) v v2 r"
        by (rule changeBody_atomically[OF assms(1,2) rel l _ _ _ _ words(2,3) valid mode b])
          (use C v ids in \<open>auto simp: changeReliable_def calm_def ids_ok_def w1 dest: subsetD[OF tl_subset]\<close>)
    qed
  qed
qed


text \<open>An empty collection; while the write runs, time passes, another writer takes a lease and a collector tries to begin.\<close>

definition v3env_example :: v3env where
  "v3env_example = \<lparr>ve_H = (\<lambda>s. ''000'' @ s), ve_unicode = ascii_unicode, ve_id = ''c'',
     ve_opts = \<lparr>vo_Name = ''x'', vo_CaseSensitive = False, vo_Preset = PresetBalanced, vo_ShardCount = 1, vo_ShardConcurrency = 1,
       vo_PollInterval = 0, vo_RefreshDebounce = 0, vo_LeaseDuration = 30 * 10 ^ 9, vo_LeaseRefresh = 10 ^ 10\<rparr>, ve_gomaxprocs = 1, ve_order = id\<rparr>"

definition v3version_example :: gostring where
  "v3version_example = ''c.'' @ replicate 32 CHR ''0''"

definition v3ns_empty :: v3ns where
  "v3ns_empty = \<lparr>ns_maintenance = None, ns_fence = 0, ns_writers = [], ns_leases = [], ns_content = Map.empty, ns_registry = (\<lambda>_. [])\<rparr>"

definition v3keys_example :: v3keys where
  "v3keys_example = \<lparr>k_now = 0,
     k_global = v3ns_empty\<lparr>ns_content := [''gen:'' @ v3version_example \<mapsto> marshalManifest (zeroManifest\<lparr>mf_Version := v3version_example, mf_Sequence := 1\<rparr>)]\<rparr>,
     k_shards = (\<lambda>_. v3ns_empty), k_meta = None, k_active = Some v3version_example, k_ops = Map.empty, k_committed = Map.empty, k_events = []\<rparr>"

definition v3world_example :: v3world where
  "v3world_example = \<lparr>vw_keys = v3keys_example,
     vw_env = [\<lambda>k. k\<lparr>k_now := k_now k + 5\<rparr>, \<lambda>k. fst (v3AcquireScript ''writers'' [] ''other'' 30000 k), \<lambda>k. fst (v3PruneScript k)],
     vw_io = [], vw_checks = [], vw_ids = map (replicate 32) ''abc'', vw_shards = [], vw_past = []\<rparr>"

lemma example_store_ok: "store_ok v3env_example v3keys_example"
proof -
  let ?m = "zeroManifest\<lparr>mf_Version := v3version_example, mf_Sequence := 1\<rparr>"
  let ?C = "contents v3keys_example"
  have zero: "\<forall>b \<in> set (mf_Buckets ?m). 0 \<le> bk_Count b" "sum_list (map bk_Count (mf_Buckets ?m)) = 0" "marshalBucket zeroBucket = zeroBucket"
    by (auto simp: zeroManifest_def sum_list_replicate marshalBucket_def zeroBucket_def)
  have "?C Global (''gen:'' @ v3version_example) = Some (marshalManifest ?m)" by (simp add: contents_def v3keys_example_def)
  moreover have "v3valid (ve_id v3env_example) v3version_example" by (simp add: v3valid_def v3env_example_def v3version_example_def v3IDLength_def)
  ultimately have man: "manifestIn (ve_id v3env_example) ?C v3version_example = Some (?m\<lparr>mf_Buckets := map marshalBucket (mf_Buckets ?m), mf_global := None\<rparr>)"
    by (rule manifestIn_legacy) (use zero in \<open>simp_all add: zeroManifest_def\<close>)
  have "bucketIn H ?C zeroBucket = Some []" for H by (simp add: bucketIn_def zeroBucket_def)
  then have "holds v3env_example ?C v3version_example (\<lambda>_. [])"
    unfolding holds_def using man zero(3) by (simp add: zeroManifest_def dict_wf_def)
  then show ?thesis using man by (auto simp: store_ok_def current_def v3keys_example_def)
qed

lemma example_reliable: "changeReliable v3env_example v3version_example v3world_example"
proof -
  let ?m = "v3version_example @ ''/'' @ next_or [] (vw_ids v3world_example)"
  have m: "?m = v3version_example @ ''/'' @ replicate 32 CHR ''a''" by (simp add: v3world_example_def next_or_def)
  have "a @ ''/'' @ ''other'' \<noteq> ?m" for a
  proof
    assume "a @ ''/'' @ ''other'' = ?m"
    then have "last (a @ ''/'' @ ''other'') = last (v3version_example @ ''/'' @ replicate 32 CHR ''a'')" unfolding m by simp
    then show False by simp
  qed
  then have "reliable v3env_example ?m (set (vw_ids v3world_example)) v3world_example"
    using rely_time[of 5] rely_acquire rely_prune
    by (auto simp: reliable_def v3world_example_def excluded_def v3keys_example_def underMaintenance_def v3ns_empty_def)
  moreover have "store_ok v3env_example (vw_keys v3world_example)" using example_store_ok by (simp add: v3world_example_def)
  ultimately show ?thesis by (auto simp: changeReliable_def ids_ok_def v3world_example_def v3keys_example_def v3IDLength_def)
qed

lemma v3_change_atomic_witness:
  "atomically v3env_example (reports ''add'' {''he'', ''she''}) v3world_example
     (fst (change v3env_example v3version_example ['' She'', ''HE''] ''add'' v3world_example))
     (snd (change v3env_example v3version_example ['' She'', ''HE''] ''add'' v3world_example))"
proof -
  have "normalWord ascii_unicode False ` set ['' She'', ''HE''] = {''he'', ''she''}" by code_simp
  moreover have "order_ok v3env_example" "env_opts_ok v3env_example" by (simp_all add: order_ok_def env_opts_ok_def v3env_example_def)
  moreover have "unicode_ok (ve_unicode v3env_example)" using ascii_unicode_ok by (simp add: v3env_example_def)
  ultimately show ?thesis
    using v3_change_atomic[of v3env_example "''add''" v3version_example v3world_example "['' She'', ''HE'']", OF _ _ _ _ example_reliable prod.collapse[symmetric]]
    by (simp add: v3env_example_def)
qed

end
