(* ===== verification/V3_Digest.thy ===== *)
theory V3_Digest
  imports V3_Atomic
begin

text \<open>
  What a manifest says of its dictionary without looking at the chunks: the count and the
  hash of every bucket.  A bucket that was read and checked is the one the manifest
  describes, whatever happened to the keys in between, as long as nobody has a second
  text with the hash of one of the buckets.
\<close>

section \<open>Decoded strings are valid\<close>

definition encoded :: "gostring \<Rightarrow> bool" where
  "encoded s \<longleftrightarrow> (\<exists>rs. (\<forall>r \<in> set rs. valid_rune r) \<and> s = string_of rs)"

lemma encoded_Nil [simp]: "encoded []"
  by (auto simp: encoded_def string_of_def intro: exI[of _ "[]"])

lemma encoded_append: "encoded s \<Longrightarrow> encoded t \<Longrightarrow> encoded (s @ t)"
proof -
  assume "encoded s" "encoded t"
  then obtain xs ys where "\<forall>r \<in> set xs. valid_rune r" "s = string_of xs" "\<forall>r \<in> set ys. valid_rune r" "t = string_of ys"
    unfolding encoded_def by blast
  then show ?thesis unfolding encoded_def by (intro exI[of _ "xs @ ys"]) (auto simp: string_of_def)
qed

lemma encoded_rune [simp]: "encoded (encodeRune r)"
proof (cases "valid_rune r")
  case True
  then show ?thesis unfolding encoded_def by (intro exI[of _ "[r]"]) (simp add: string_of_def)
next
  case False
  then have "encodeRune r = encodeRune RuneError" by (simp add: encodeRune_def)
  then show ?thesis unfolding encoded_def by (intro exI[of _ "[RuneError]"]) (simp add: string_of_def valid_rune_def RuneError_def)
qed

lemma encoded_valid: "encoded s \<Longrightarrow> validString s"
  by (auto simp: encoded_def validString_def pieces_string_of encodeRune_error)

lemma encoded_ascii: "0 \<le> byte c \<Longrightarrow> byte c < 128 \<Longrightarrow> encoded [c]"
  using encoded_rune[of "byte c"] encodeRune_ascii[of "byte c"] by (simp add: RuneSelf_def chr_byte)

lemma jsonEscape_encoded: "jsonEscape s = Some (u, t) \<Longrightarrow> encoded u"
proof -
  have "encoded [CHR 0x22]" "encoded [CHR 0x5C]" "encoded [CHR ''/'']"
    by (rule encoded_ascii; simp add: byte_def)+
  moreover have "encoded [chr 8]" "encoded [chr 12]" "encoded [chr 10]" "encoded [chr 13]" "encoded [chr 9]"
    by (rule encoded_ascii; simp add: byte_chr)+
  ultimately
  show "jsonEscape s = Some (u, t) \<Longrightarrow> encoded u"
    by (auto simp: jsonEscape_def split: list.splits if_splits option.splits prod.splits)
qed

lemma jsonChars_encoded: "jsonChars n s = Some (u, t) \<Longrightarrow> encoded u"
proof (induction n arbitrary: s u t)
  case (Suc n)
  then show ?case
    by (cases s) (auto simp: apfst_def map_prod_def intro!: encoded_append dest: jsonEscape_encoded split: if_splits option.splits prod.splits)
qed simp

lemma jsonRest_encoded: "jsonRest n s = Some (ws, t) \<Longrightarrow> \<forall>w \<in> set ws. encoded w"
proof (induction n arbitrary: s ws t)
  case (Suc n)
  then show ?case
    by (auto simp: jsonElement_def apfst_def map_prod_def dest: jsonChars_encoded split: if_splits option.splits prod.splits list.splits)
qed simp

lemma jsonDecode_valid: "jsonDecode s = Some ws \<Longrightarrow> \<forall>w \<in> set ws. validString w"
  by (auto simp: jsonDecode_def Let_def dest: jsonRest_encoded intro!: encoded_valid split: list.splits if_splits option.splits prod.splits)

lemma jsonStrings_inj:
  assumes "\<forall>w \<in> set xs. validString w" "\<forall>w \<in> set ys. validString w" "jsonStrings xs = jsonStrings ys"
  shows "xs = ys"
proof -
  have "map (\<lambda>w. string_of (runes w)) zs = zs" if "\<forall>w \<in> set zs. validString w" for zs
    using that by (intro map_idI) (auto intro: validString_runes)
  moreover have "map (\<lambda>w. string_of (runes w)) xs = map (\<lambda>w. string_of (runes w)) ys"
    using jsonDecode_jsonStrings[of xs] jsonDecode_jsonStrings[of ys] assms(3) by simp
  ultimately show ?thesis using assms(1,2) by metis
qed

section \<open>Buckets and their digests\<close>

definition describes :: "(gostring \<Rightarrow> gostring) \<Rightarrow> v3Manifest \<Rightarrow> (nat \<Rightarrow> gostring list) \<Rightarrow> bool" where
  "describes H m D \<longleftrightarrow> dict_wf H D \<and> length (mf_Buckets m) = v3BucketCount \<and>
     (\<forall>i < v3BucketCount. bk_Count (mf_Buckets m ! i) = int (length (D i)) \<and>
        (D i \<noteq> [] \<longrightarrow> bk_Checksum (mf_Buckets m ! i) = H (jsonStrings (D i))))"

text \<open>No other text has the hash of one of the buckets.\<close>

definition unforged :: "(gostring \<Rightarrow> gostring) \<Rightarrow> (nat \<Rightarrow> gostring list) \<Rightarrow> bool" where
  "unforged H D \<longleftrightarrow> (\<forall>i < v3BucketCount. \<forall>words. H (jsonStrings words) = H (jsonStrings (D i)) \<longrightarrow> jsonStrings words = jsonStrings (D i))"

lemma bucketIn_digest: "bucketIn H C b = Some words \<Longrightarrow> words \<noteq> [] \<Longrightarrow> bk_Checksum b = H (jsonStrings words)"
  by (auto simp: bucketIn_def bind_eq_Some_conv checkBucket_def split: if_splits)

lemma holds_describes:
  assumes "holds env C t D" "manifestIn (ve_id env) C t = Some m"
  shows "describes (ve_H env) m D"
  using assms bucketIn_count bucketIn_digest unfolding holds_def describes_def by fastforce

lemma readChunks_valid:
  assumes "loopW (readChunk env b) hs acc w = (w', Inr words)" and "\<forall>x \<in> set acc. validString x"
  shows "\<forall>x \<in> set words. validString x"
  using assms
proof (induction hs arbitrary: acc w)
  case (Cons h hs)
  from Cons.prems(1) obtain w1 acc1 where r: "readChunk env b h acc w = (w1, Inr acc1)" "loopW (readChunk env b) hs acc1 w1 = (w', Inr words)"
    by (auto simp: bindW_Inr)
  from r(1) obtain data part where p: "decodeChunk (ve_H env) h data = Inr part" "acc1 = acc @ part"
    by (auto simp: readChunk_def bindW_Inr bindR_Inr split: option.splits)
  from p(1) have "jsonDecode data = Some part" by (auto simp: decodeChunk_def split: if_splits option.splits)
  with p(2) Cons.prems(2) have "\<forall>x \<in> set acc1. validString x" by (auto dest: jsonDecode_valid)
  with Cons.IH[OF r(2)] show ?case .
qed simp

text \<open>Whatever is read under a described bucket is that bucket.\<close>

lemma bucket_exact:
  assumes d: "describes (ve_H env) m D" and u: "unforged (ve_H env) D" and i: "i < v3BucketCount"
    and run: "bucket env (mf_Buckets m ! i) w = (w', Inr words)"
  shows "words = D i"
proof (cases "D i = []")
  case True
  with d i have "bk_Count (mf_Buckets m ! i) = 0" by (simp add: describes_def)
  with run True show ?thesis by (auto simp: bucket_def split: if_splits)
next
  case False
  with d i have b: "bk_Count (mf_Buckets m ! i) \<noteq> 0" "bk_Checksum (mf_Buckets m ! i) = ve_H env (jsonStrings (D i))"
    and D: "\<forall>x \<in> set (D i). validString x" by (auto simp: describes_def dict_wf_def)
  from run b(1) obtain w1 ws where l: "loopW (readChunk env (mf_Buckets m ! i)) (bk_Chunks (mf_Buckets m ! i)) [] w = (w1, Inr ws)"
    and c: "checkBucket (ve_H env) (mf_Buckets m ! i) ws = Inr words"
    by (auto simp: bucket_def bindW_Inr)
  from c b(2) have "ve_H env (jsonStrings words) = ve_H env (jsonStrings (D i))" "ws = words"
    by (auto simp: checkBucket_def split: if_splits)
  then have "jsonStrings words = jsonStrings (D i)" using u i by (auto simp: unforged_def)
  with jsonStrings_inj readChunks_valid[OF l] D \<open>ws = words\<close> show ?thesis by auto
qed

end
