(* ===== verification/V3_Snapshot.thy ===== *)
theory V3_Snapshot
  imports V3_Digest
begin

text \<open>
  Leased snapshots and what is read from them: \<^verbatim>\<open>versioned_snapshot.go\<close>.  A snapshot holds
  the manifest it loaded under its lease; pages, the whole dictionary and differences are
  read bucket by bucket.  A cursor is the text of a \<^verbatim>\<open>v3Cursor\<close>; a text that does not
  decode is \<open>BadCursor\<close>, and the empty one is \<open>None\<close>.
\<close>

section \<open>Taking a snapshot\<close>

record Snapshot =
  sn_manifest :: v3Manifest
  sn_lease :: v3Lease

definition v3_Snapshot :: "v3env \<Rightarrow> v3world \<Rightarrow> v3world \<times> Snapshot result" where
  "v3_Snapshot env w =
     bindW (acquire env [] False w) (\<lambda>w1 (l, t).
       case loadManifest env t w1 of
         (w2, Inl err) \<Rightarrow> (lease_close l w2, Inl err)
       | (w2, Inr m) \<Rightarrow> (w2, Inr \<lparr>sn_manifest = m, sn_lease = l\<rparr>))"

definition snapshot_Version :: "Snapshot \<Rightarrow> gostring" where "snapshot_Version s = mf_Version (sn_manifest s)"
definition snapshot_Count :: "Snapshot \<Rightarrow> int" where "snapshot_Count s = mf_Count (sn_manifest s)"
definition snapshot_Close :: "Snapshot \<Rightarrow> v3world \<Rightarrow> v3world" where "snapshot_Close s = lease_close (sn_lease s)"

section \<open>Pages\<close>

record v3Cursor =
  cu_Version :: gostring
  cu_Bucket :: int
  cu_Offset :: int

datatype cursorText = BadCursor | Cursor v3Cursor

record DictionaryPage =
  dp_Keywords :: "gostring list"
  dp_NextCursor :: "cursorText option"
  dp_Version :: gostring

definition snapshot_cursor :: "Snapshot \<Rightarrow> cursorText option \<Rightarrow> v3Cursor result" where
  "snapshot_cursor s cursor =
     (case cursor of
        None \<Rightarrow> Inr \<lparr>cu_Version = snapshot_Version s, cu_Bucket = 0, cu_Offset = 0\<rparr>
      | Some BadCursor \<Rightarrow> Inl ErrInvalidVersion
      | Some (Cursor c) \<Rightarrow>
          if cu_Version c \<noteq> snapshot_Version s \<or> cu_Bucket c < 0 \<or> cu_Bucket c \<ge> int v3BucketCount \<or> cu_Offset c < 0
          then Inl ErrInvalidVersion else Inr c)"

text \<open>
  The loop over the buckets from the cursor's on; the answer is where it stopped.  A
  bucket that is left before its end fills the page, so the loop goes on with the next
  bucket at offset 0.
\<close>

fun listLoop :: "v3env \<Rightarrow> Snapshot \<Rightarrow> nat \<Rightarrow> nat list \<Rightarrow> nat \<Rightarrow> gostring list \<Rightarrow> v3world \<Rightarrow> v3world \<times> (nat \<times> nat \<times> gostring list) result" where
  "listLoop env s limit [] off kws w = (w, Inr (v3BucketCount, off, kws))"
| "listLoop env s limit (b # bs) off kws w =
     bindW (bucket env (mf_Buckets (sn_manifest s) ! b) w) (\<lambda>w1 words.
       if off > length words then (w1, Inl ErrInvalidVersion)
       else
         (let n = min (limit - length kws) (length words - off);
              kws1 = kws @ take n (drop off words);
              (b1, off1) = (if off + n = length words then (Suc b, 0) else (b, off + n)) in
          if length kws1 = limit then (w1, Inr (b1, off1, kws1)) else listLoop env s limit bs off1 kws1 w1))"

fun skipEmpty :: "v3Manifest \<Rightarrow> nat list \<Rightarrow> nat" where
  "skipEmpty m [] = v3BucketCount"
| "skipEmpty m (b # bs) = (if bk_Count (mf_Buckets m ! b) = 0 then skipEmpty m bs else b)"

definition snapshot_List :: "v3env \<Rightarrow> Snapshot \<Rightarrow> cursorText option \<Rightarrow> int \<Rightarrow> v3world \<Rightarrow> v3world \<times> DictionaryPage result" where
  "snapshot_List env s cursor limit w =
     (if limit \<le> 0 then (w, Inl (ErrText ''acor: page limit must be positive''))
      else
        bindW (lease_check (sn_lease s) w) (\<lambda>w1 _.
        bindW (w1, snapshot_cursor s cursor) (\<lambda>w2 c.
        bindW (listLoop env s (nat limit) [nat (cu_Bucket c)..<v3BucketCount] (nat (cu_Offset c)) [] w2) (\<lambda>w3 (b, off, kws).
          (let b1 = skipEmpty (sn_manifest s) [b..<v3BucketCount];
               page = \<lparr>dp_Keywords = kws,
                 dp_NextCursor = (if b1 < v3BucketCount
                   then Some (Cursor \<lparr>cu_Version = cu_Version c, cu_Bucket = int b1, cu_Offset = int off\<rparr>) else None),
                 dp_Version = snapshot_Version s\<rparr> in
           bindW (lease_check (sn_lease s) w3) (\<lambda>w4 _. (w4, Inr page)))))))"

section \<open>The whole dictionary and differences\<close>

definition snapshot_all :: "v3env \<Rightarrow> Snapshot \<Rightarrow> v3world \<Rightarrow> v3world \<times> gostring list result" where
  "snapshot_all env s w =
     bindW (lease_check (sn_lease s) w) (\<lambda>w1 _.
     bindW (loopW (\<lambda>b words w. bindW (bucket env b w) (\<lambda>w x. (w, Inr (words @ x)))) (mf_Buckets (sn_manifest s)) [] w1) (\<lambda>w2 words.
     bindW (lease_check (sn_lease s) w2) (\<lambda>w3 _. (w3, Inr words))))"

record DictionaryDiff =
  dd_Added :: "gostring list"
  dd_Removed :: "gostring list"
  dd_Retained :: "gostring list"
  dd_Version :: gostring

fun diffLoop :: "gostring list \<Rightarrow> gostring set \<Rightarrow> gostring list \<Rightarrow> gostring list \<Rightarrow> gostring set \<times> gostring list \<times> gostring list" where
  "diffLoop [] old added retained = (old, added, retained)"
| "diffLoop (x # xs) old added retained =
     (if x \<in> old then diffLoop xs (old - {x}) added (retained @ [x]) else diffLoop xs old (added @ [x]) retained)"

definition snapshot_Diff :: "v3env \<Rightarrow> Snapshot \<Rightarrow> gostring list \<Rightarrow> v3world \<Rightarrow> v3world \<times> DictionaryDiff result" where
  "snapshot_Diff env s target w =
     bindW (w, v3Normalize (ve_unicode env) target (vo_CaseSensitive (ve_opts env))) (\<lambda>w1 normalized.
     bindW (snapshot_all env s w1) (\<lambda>w2 words.
       (w2, Inr (case diffLoop normalized (set words) [] [] of (old, added, retained) \<Rightarrow>
          \<lparr>dd_Added = added, dd_Removed = sorted_list_of_set old, dd_Retained = retained, dd_Version = snapshot_Version s\<rparr>))))"

section \<open>Reading the pages of a described dictionary\<close>

text \<open>What is still to be listed at a place.\<close>

definition listing :: "(nat \<Rightarrow> gostring list) \<Rightarrow> nat \<Rightarrow> nat \<Rightarrow> gostring list" where
  "listing D b off = drop off (concat (map D [b..<v3BucketCount]))"

lemma listing_end [simp]: "listing D v3BucketCount off = []"
  by (simp add: listing_def)

lemma listing_Cons: "b < v3BucketCount \<Longrightarrow> off \<le> length (D b) \<Longrightarrow> listing D b off = drop off (D b) @ listing D (Suc b) 0"
  by (simp add: listing_def upt_conv_Cons)

lemma listLoop_correct:
  assumes d: "describes (ve_H env) (sn_manifest s) D" and u: "unforged (ve_H env) D"
    and "listLoop env s limit [b..<v3BucketCount] off kws w = (w', Inr (b', off', kws'))" "b \<le> v3BucketCount" "length kws < limit"
    and "b = v3BucketCount \<longrightarrow> off = 0"
  shows "kws' = kws @ take (limit - length kws) (listing D b off) \<and> listing D b' off' = drop (limit - length kws) (listing D b off) \<and>
    b' \<le> v3BucketCount \<and> (if b' < v3BucketCount then off' = 0 \<or> off' < length (D b') else off' = 0)"
  using assms(3-6)
proof (induction "v3BucketCount - b" arbitrary: b off kws w)
  case 0
  then show ?case by simp
next
  case (Suc k)
  then have b: "b < v3BucketCount" and k: "k = v3BucketCount - Suc b" by simp_all
  from Suc.prems(1) b obtain w1 words where r: "bucket env (mf_Buckets (sn_manifest s) ! b) w = (w1, Inr words)"
    and rest: "(if off > length words then (w1, Inl ErrInvalidVersion)
       else (let n = min (limit - length kws) (length words - off); kws1 = kws @ take n (drop off words);
              (b1, off1) = (if off + n = length words then (Suc b, 0) else (b, off + n)) in
          if length kws1 = limit then (w1, Inr (b1, off1, kws1)) else listLoop env s limit [Suc b..<v3BucketCount] off1 kws1 w1)) = (w', Inr (b', off', kws'))"
    by (auto simp: upt_conv_Cons bindW_Inr simp del: upt_Suc)
  have words: "words = D b" by (rule bucket_exact[OF d u b r])
  have off: "off \<le> length (D b)" using rest words by (auto split: if_splits)
  note L = listing_Cons[where D = D, OF b off]
  let ?n = "min (limit - length kws) (length (D b) - off)"
  show ?case
  proof (cases "limit - length kws \<le> length (D b) - off")
    case True
    then have n: "?n = limit - length kws" by simp
    have full: "length (kws @ take ?n (drop off (D b))) = limit" using True Suc.prems(3) n by simp
    from rest off have e: "kws' = kws @ take ?n (drop off (D b))" "(b', off') = (if off + ?n = length (D b) then (Suc b, 0) else (b, off + ?n))"
      unfolding words Let_def using full by (auto split: if_splits)
    have k1: "kws' = kws @ take (limit - length kws) (listing D b off)" using e(1) True n off by (simp add: L)
    have k2: "listing D b' off' = drop (limit - length kws) (listing D b off)"
    proof (cases "off + ?n = length (D b)")
      case True
      with e(2) n off show ?thesis by (simp add: L)
    next
      case False
      then have "off + ?n \<le> length (D b)" using off n \<open>limit - length kws \<le> length (D b) - off\<close> by linarith
      from listing_Cons[where D = D, OF b this] e(2) False n off \<open>limit - length kws \<le> length (D b) - off\<close> show ?thesis
        by (simp add: L add.commute)
    qed
    have "b' \<le> v3BucketCount \<and> (if b' < v3BucketCount then off' = 0 \<or> off' < length (D b') else off' = 0)"
      using e(2) b n off True by (auto split: if_splits)
    with k1 k2 show ?thesis by blast
  next
    case False
    then have n: "?n = length (D b) - off" by simp
    let ?kws = "kws @ drop off (D b)"
    have "length ?kws < limit" using False off by simp
    with rest off n have rec: "listLoop env s limit [Suc b..<v3BucketCount] 0 ?kws w1 = (w', Inr (b', off', kws'))"
      by (auto simp: words Let_def)
    have IH: "kws' = ?kws @ take (limit - length ?kws) (listing D (Suc b) 0) \<and> listing D b' off' = drop (limit - length ?kws) (listing D (Suc b) 0) \<and>
      b' \<le> v3BucketCount \<and> (if b' < v3BucketCount then off' = 0 \<or> off' < length (D b') else off' = 0)"
      by (rule Suc.hyps(1)[OF k rec]) (use b \<open>length ?kws < limit\<close> in simp_all)
    have m: "limit - length ?kws = limit - length kws - length (drop off (D b))" by simp
    show ?thesis using IH False off unfolding L m by simp
  qed
qed

lemma skipEmpty_correct:
  assumes d: "describes H m D" and "b \<le> v3BucketCount"
  shows "b \<le> skipEmpty m [b..<v3BucketCount] \<and> skipEmpty m [b..<v3BucketCount] \<le> v3BucketCount \<and>
    listing D (skipEmpty m [b..<v3BucketCount]) 0 = listing D b 0 \<and>
    (skipEmpty m [b..<v3BucketCount] < v3BucketCount \<longrightarrow> D (skipEmpty m [b..<v3BucketCount]) \<noteq> []) \<and>
    (b < v3BucketCount \<longrightarrow> D b \<noteq> [] \<longrightarrow> skipEmpty m [b..<v3BucketCount] = b)"
  using assms(2)
proof (induction "v3BucketCount - b" arbitrary: b)
  case (Suc k)
  then have b: "b < v3BucketCount" and k: "k = v3BucketCount - Suc b" by simp_all
  from d b have n: "bk_Count (mf_Buckets m ! b) = int (length (D b))" by (simp add: describes_def)
  show ?case
  proof (cases "D b = []")
    case True
    then have e: "skipEmpty m [b..<v3BucketCount] = skipEmpty m [Suc b..<v3BucketCount]" "listing D b 0 = listing D (Suc b) 0"
      using n listing_Cons[OF b, of 0 D] by (simp_all add: upt_conv_Cons[OF b])
    from Suc.hyps(1)[OF k] b True show ?thesis unfolding e by auto
  next
    case False
    with b n show ?thesis by (simp add: upt_conv_Cons[OF b])
  qed
qed simp


text \<open>A page is the next stretch of the listing, and its cursor is where the rest begins.\<close>

lemma snapshot_List_page:
  assumes d: "describes (ve_H env) (sn_manifest s) D" and u: "unforged (ve_H env) D"
    and c: "snapshot_cursor s cursor = Inr c" and run: "snapshot_List env s cursor limit w = (w', Inr p)"
  shows "dp_Keywords p = take (nat limit) (listing D (nat (cu_Bucket c)) (nat (cu_Offset c)))"
    and "dp_NextCursor p = None \<Longrightarrow> drop (nat limit) (listing D (nat (cu_Bucket c)) (nat (cu_Offset c))) = []"
    and "dp_NextCursor p = Some x \<Longrightarrow> \<exists>c'. x = Cursor c' \<and> snapshot_cursor s (Some x) = Inr c' \<and>
      listing D (nat (cu_Bucket c')) (nat (cu_Offset c')) = drop (nat limit) (listing D (nat (cu_Bucket c)) (nat (cu_Offset c))) \<and>
      listing D (nat (cu_Bucket c')) (nat (cu_Offset c')) \<noteq> []"
proof -
  let ?b = "nat (cu_Bucket c)" and ?off = "nat (cu_Offset c)"
  have lim: "0 < limit" using run by (cases "limit \<le> 0") (simp_all add: snapshot_List_def)
  have cv: "cu_Version c = snapshot_Version s" "0 \<le> cu_Bucket c" "cu_Bucket c < int v3BucketCount"
    using c by (auto simp: snapshot_cursor_def v3BucketCount_def split: option.splits cursorText.splits if_splits)
  from run lim c obtain w1 w3 b off where l: "listLoop env s (nat limit) [?b..<v3BucketCount] ?off [] w1 = (w3, Inr (b, off, dp_Keywords p))"
    and nxt: "dp_NextCursor p = (if skipEmpty (sn_manifest s) [b..<v3BucketCount] < v3BucketCount
      then Some (Cursor \<lparr>cu_Version = cu_Version c, cu_Bucket = int (skipEmpty (sn_manifest s) [b..<v3BucketCount]), cu_Offset = int off\<rparr>) else None)"
    by (auto simp: snapshot_List_def bindW_Inr Let_def)
  have b: "?b < v3BucketCount" using cv by linarith
  from listLoop_correct[OF d u l] b lim
  have L: "dp_Keywords p = take (nat limit) (listing D ?b ?off)" "listing D b off = drop (nat limit) (listing D ?b ?off)"
    and bo: "b \<le> v3BucketCount" "if b < v3BucketCount then off = 0 \<or> off < length (D b) else off = 0"
    by simp_all
  let ?b1 = "skipEmpty (sn_manifest s) [b..<v3BucketCount]"
  note S = skipEmpty_correct[OF d bo(1)]
  have rest: "listing D ?b1 off = listing D b off"
  proof (cases "off = 0")
    case False
    with bo have "b < v3BucketCount" "D b \<noteq> []" by (auto split: if_splits)
    with S show ?thesis by simp
  qed (use S in simp)
  show "dp_Keywords p = take (nat limit) (listing D ?b ?off)" by (rule L(1))
  show "drop (nat limit) (listing D ?b ?off) = []" if "dp_NextCursor p = None"
  proof -
    have "?b1 = v3BucketCount" using nxt that S by (auto split: if_splits)
    with rest L(2) show ?thesis by simp
  qed
  show "\<exists>c'. x = Cursor c' \<and> snapshot_cursor s (Some x) = Inr c' \<and>
      listing D (nat (cu_Bucket c')) (nat (cu_Offset c')) = drop (nat limit) (listing D ?b ?off) \<and>
      listing D (nat (cu_Bucket c')) (nat (cu_Offset c')) \<noteq> []" if "dp_NextCursor p = Some x"
  proof -
    let ?c = "\<lparr>cu_Version = cu_Version c, cu_Bucket = int ?b1, cu_Offset = int off\<rparr>"
    from nxt that have b1: "?b1 < v3BucketCount" and x: "x = Cursor ?c" by (auto split: if_splits)
    have "off < length (D ?b1)"
    proof (cases "off = 0")
      case False
      with bo have o: "b < v3BucketCount" "off < length (D b)" by (auto split: if_splits)
      then have "?b1 = b" using S by fastforce
      with o show ?thesis by simp
    qed (use S b1 in simp)
    with listing_Cons[OF b1, of off D] have "listing D ?b1 off \<noteq> []" by auto
    moreover have "snapshot_cursor s (Some x) = Inr ?c" using x cv(1) b1 by (simp add: snapshot_cursor_def)
    ultimately show ?thesis using x rest L(2) by (intro exI[of _ ?c]) simp
  qed
qed

text \<open>Following the cursors from the start; the fuel bounds the number of pages.\<close>

fun pages :: "v3env \<Rightarrow> Snapshot \<Rightarrow> int \<Rightarrow> nat \<Rightarrow> cursorText option \<Rightarrow> v3world \<Rightarrow> v3world \<times> gostring list result option" where
  "pages env s limit 0 cursor w = (w, None)"
| "pages env s limit (Suc n) cursor w =
     (case snapshot_List env s cursor limit w of
        (w1, Inl err) \<Rightarrow> (w1, Some (Inl err))
      | (w1, Inr p) \<Rightarrow>
          (case dp_NextCursor p of
             None \<Rightarrow> (w1, Some (Inr (dp_Keywords p)))
           | Some c \<Rightarrow>
               (case pages env s limit n (Some c) w1 of
                  (w2, Some (Inr kws)) \<Rightarrow> (w2, Some (Inr (dp_Keywords p @ kws)))
                | other \<Rightarrow> other)))"

lemma pages_correct:
  assumes d: "describes (ve_H env) (sn_manifest s) D" and u: "unforged (ve_H env) D" and "0 < limit"
    and "snapshot_cursor s cursor = Inr c" and "length (listing D (nat (cu_Bucket c)) (nat (cu_Offset c))) < n"
    and "pages env s limit n cursor w = (w', r)"
  shows "(\<exists>err. r = Some (Inl err)) \<or> r = Some (Inr (listing D (nat (cu_Bucket c)) (nat (cu_Offset c))))"
  using assms(4-6)
proof (induction n arbitrary: cursor c w w' r)
  case (Suc n)
  obtain w1 q where l: "snapshot_List env s cursor limit w = (w1, q)" by fastforce
  show ?case
  proof (cases q)
    case (Inl err)
    with Suc.prems(3) l show ?thesis by auto
  next
    case (Inr p)
    note P = snapshot_List_page[OF d u Suc.prems(1) l[unfolded Inr]]
    show ?thesis
    proof (cases "dp_NextCursor p")
      case None
      with Suc.prems(3) l Inr P(1) P(2)[OF None] show ?thesis by simp
    next
      case (Some x)
      from P(3)[OF this] obtain c' where c': "snapshot_cursor s (Some x) = Inr c'"
        "listing D (nat (cu_Bucket c')) (nat (cu_Offset c')) = drop (nat limit) (listing D (nat (cu_Bucket c)) (nat (cu_Offset c)))"
        "listing D (nat (cu_Bucket c')) (nat (cu_Offset c')) \<noteq> []" by blast
      obtain w2 z where z: "pages env s limit n (Some x) w1 = (w2, z)" by fastforce
      have "length (listing D (nat (cu_Bucket c')) (nat (cu_Offset c'))) < n"
        using c'(2,3) Suc.prems(2) \<open>0 < limit\<close> by simp
      from Suc.IH[OF c'(1) this z] have "(\<exists>err. z = Some (Inl err)) \<or> z = Some (Inr (drop (nat limit) (listing D (nat (cu_Bucket c)) (nat (cu_Offset c)))))"
        by (simp add: c'(2))
      with Suc.prems(3) l Inr Some z P(1) show ?thesis by auto
    qed
  qed
qed simp

section \<open>Reading everything\<close>

lemma snapshot_all_correct:
  assumes d: "describes (ve_H env) (sn_manifest s) D" and u: "unforged (ve_H env) D" and run: "snapshot_all env s w = (w', Inr words)"
  shows "words = listing D 0 0"
proof -
  let ?bs = "mf_Buckets (sn_manifest s)"
  let ?f = "\<lambda>b words w. bindW (bucket env b w) (\<lambda>w x. (w, Inr (words @ x)))"
  have "words = acc @ concat (map D [b..<v3BucketCount])"
    if "loopW ?f (drop b ?bs) acc w = (w', Inr words)" "b \<le> v3BucketCount" for acc b w w' words
    using that
  proof (induction "v3BucketCount - b" arbitrary: b acc w)
    case 0
    then show ?case using d by (simp add: describes_def)
  next
    case (Suc k)
    then have b: "b < v3BucketCount" and k: "k = v3BucketCount - Suc b" by simp_all
    then have dr: "drop b ?bs = ?bs ! b # drop (Suc b) ?bs" using d by (simp add: describes_def Cons_nth_drop_Suc)
    from Suc.prems(1) dr obtain w1 x where r: "bucket env (?bs ! b) w = (w1, Inr x)" "loopW ?f (drop (Suc b) ?bs) (acc @ x) w1 = (w', Inr words)"
      by (auto simp: bindW_Inr)
    from Suc.hyps(1)[OF k r(2)] b bucket_exact[OF d u b r(1)] show ?case by (simp add: upt_conv_Cons)
  qed
  from this[of 0 "[]"] run show ?thesis by (auto simp: snapshot_all_def bindW_Inr listing_def)
qed

lemma set_listing: "set (listing D 0 0) = dictionary D"
  by (auto simp: listing_def dictionary_def)

lemma distinct_buckets:
  assumes "dict_wf H D" "distinct is" "set is \<subseteq> {..<v3BucketCount}"
  shows "distinct (concat (map D is))"
  using assms(2,3)
proof (induction "is")
  case (Cons i "is")
  have "set (D i) \<inter> set (D j) = {}" if "j \<in> set is" for j
  proof -
    have "v3BucketNumber H w = i" if "w \<in> set (D i)" for w using assms(1) Cons.prems that by (auto simp: dict_wf_def)
    moreover have "v3BucketNumber H w = j" if "w \<in> set (D j)" for w using assms(1) Cons.prems that \<open>j \<in> set is\<close> by (auto simp: dict_wf_def)
    ultimately show ?thesis using that Cons.prems(1) by auto
  qed
  then have "set (D i) \<inter> set (concat (map D is)) = {}" by auto
  then show ?case using Cons assms(1) by (simp add: dict_wf_def)
qed simp

lemma distinct_listing: "dict_wf H D \<Longrightarrow> distinct (listing D 0 0)"
  using distinct_buckets[of H D "[0..<v3BucketCount]"] by (simp add: listing_def lessThan_atLeast0)

lemma diffLoop_correct:
  "distinct xs \<Longrightarrow> diffLoop xs old added retained = (old - set xs, added @ filter (\<lambda>x. x \<notin> old) xs, retained @ filter (\<lambda>x. x \<in> old) xs)"
proof (induction xs arbitrary: old added retained)
  case (Cons x xs)
  have "filter (\<lambda>y. y \<in> old - {x}) xs = filter (\<lambda>y. y \<in> old) xs" "filter (\<lambda>y. y \<notin> old - {x}) xs = filter (\<lambda>y. y \<notin> old) xs"
    using Cons.prems by (auto intro: filter_cong)
  with Cons show ?case by auto
qed simp

lemma sorted_set_filter:
  assumes "sorted xs" "distinct xs"
  shows "filter P xs = sorted_list_of_set {x \<in> set xs. P x}"
proof -
  have "sorted (filter P xs)" "distinct (filter P xs)" using assms by (simp_all add: sorted_wrt_filter)
  then show ?thesis by (metis set_filter sorted_list_of_set.idem_if_sorted_distinct)
qed

lemma snapshot_Diff_correct:
  assumes d: "describes (ve_H env) (sn_manifest s) D" and u: "unforged (ve_H env) D" and run: "snapshot_Diff env s target w = (w', Inr r)"
  shows "let K = normalWord (ve_unicode env) (vo_CaseSensitive (ve_opts env)) ` set target in
    dd_Added r = sorted_list_of_set (K - dictionary D) \<and> dd_Removed r = sorted_list_of_set (dictionary D - K) \<and>
    dd_Retained r = sorted_list_of_set (dictionary D \<inter> K) \<and> dd_Version r = snapshot_Version s"
proof -
  from run obtain ns w2 words where n: "v3Normalize (ve_unicode env) target (vo_CaseSensitive (ve_opts env)) = Inr ns"
    and a: "snapshot_all env s w = (w2, Inr words)"
    and r: "r = (case diffLoop ns (set words) [] [] of (old, added, retained) \<Rightarrow>
       \<lparr>dd_Added = added, dd_Removed = sorted_list_of_set old, dd_Retained = retained, dd_Version = snapshot_Version s\<rparr>)"
    by (auto simp: snapshot_Diff_def bindW_Inr)
  note N = v3Normalize_Inr[OF n]
  have w: "set words = dictionary D" using snapshot_all_correct[OF d u a] set_listing by simp
  let ?K = "normalWord (ve_unicode env) (vo_CaseSensitive (ve_opts env)) ` set target"
  have "dictionary D - set ns = dictionary D - ?K" "{x \<in> set ns. x \<notin> dictionary D} = ?K - dictionary D" "{x \<in> set ns. x \<in> dictionary D} = dictionary D \<inter> ?K"
    using N(1) by auto
  then show ?thesis
    by (simp add: r diffLoop_correct[OF N(3)] w sorted_set_filter[OF N(2,3)] Let_def)
qed


text \<open>What \<^verbatim>\<open>Diff\<close> answers for a dictionary and the wanted keywords.\<close>

definition diffOf :: "v3env \<Rightarrow> (nat \<Rightarrow> gostring list) \<Rightarrow> gostring list \<Rightarrow> gostring \<Rightarrow> DictionaryDiff" where
  "diffOf env D target version =
     (let K = normalWord (ve_unicode env) (vo_CaseSensitive (ve_opts env)) ` set target in
      \<lparr>dd_Added = sorted_list_of_set (K - dictionary D), dd_Removed = sorted_list_of_set (dictionary D - K),
        dd_Retained = sorted_list_of_set (dictionary D \<inter> K), dd_Version = version\<rparr>)"

text \<open>
  C2.  A snapshot reads one generation.  When its manifest is that of a generation that
  held the dictionary \<open>D\<close> when it was loaded, then, whatever other clients do to the keys
  afterwards: following the cursors from the start with any positive page limit ends, and
  yields every keyword exactly once, bucket by bucket; \<^verbatim>\<open>Diff\<close> yields the sorted
  differences to \<open>D\<close>; or the operation returns an error.
\<close>

theorem snapshot_reads:
  assumes "holds env C (snapshot_Version s) D" "manifestIn (ve_id env) C (snapshot_Version s) = Some (sn_manifest s)" "unforged (ve_H env) D"
  shows "distinct (listing D 0 0) \<and> set (listing D 0 0) = dictionary D \<and>
    (\<forall>limit w. 0 < limit \<longrightarrow> (case snd (pages env s limit (Suc (length (listing D 0 0))) None w) of
       None \<Rightarrow> False | Some (Inl err) \<Rightarrow> True | Some (Inr kws) \<Rightarrow> kws = listing D 0 0)) \<and>
    (\<forall>target w. case snd (snapshot_Diff env s target w) of Inl err \<Rightarrow> True | Inr r \<Rightarrow> r = diffOf env D target (snapshot_Version s))"
proof -
  have d: "describes (ve_H env) (sn_manifest s) D" by (rule holds_describes[OF assms(1,2)])
  have c: "snapshot_cursor s None = Inr \<lparr>cu_Version = snapshot_Version s, cu_Bucket = 0, cu_Offset = 0\<rparr>" by (simp add: snapshot_cursor_def)
  have "case snd (pages env s limit (Suc (length (listing D 0 0))) None w) of
      None \<Rightarrow> False | Some (Inl err) \<Rightarrow> True | Some (Inr kws) \<Rightarrow> kws = listing D 0 0" if "0 < limit" for limit w
  proof -
    obtain w' r where r: "pages env s limit (Suc (length (listing D 0 0))) None w = (w', r)" by fastforce
    from pages_correct[OF d assms(3) that c _ this] show ?thesis by (auto simp: r simp del: pages.simps)
  qed
  moreover have "case snd (snapshot_Diff env s target w) of Inl err \<Rightarrow> True | Inr r \<Rightarrow> r = diffOf env D target (snapshot_Version s)" for target w
  proof (cases "snd (snapshot_Diff env s target w)")
    case (Inr r)
    then have "snapshot_Diff env s target w = (fst (snapshot_Diff env s target w), Inr r)" by (metis prod.collapse)
    from snapshot_Diff_correct[OF d assms(3) this] show ?thesis unfolding Inr by (cases r) (simp add: diffOf_def Let_def)
  qed simp
  ultimately show ?thesis using set_listing distinct_listing d by (auto simp: describes_def)
qed

text \<open>A snapshot of two words, in a collection a collector then works on.\<close>

definition snapBucket_example :: v3Bucket where
  "snapBucket_example = \<lparr>bk_Chunks = [''000'' @ jsonStrings [''he'', ''she'']], bk_Count = 2, bk_Checksum = ''000'' @ jsonStrings [''he'', ''she''],
     bk_shard = 0, bk_sharded = False\<rparr>"

definition snapManifest_example :: v3Manifest where
  "snapManifest_example = zeroManifest\<lparr>mf_Version := v3version_example, mf_Sequence := 2, mf_Count := 2,
     mf_Buckets := (mf_Buckets zeroManifest)[0 := snapBucket_example]\<rparr>"

definition snapContent_example :: v3content where
  "snapContent_example = (\<lambda>n key.
     if n = Global \<and> key = ''gen:'' @ v3version_example then Some (marshalManifest snapManifest_example)
     else if n = Global \<and> key = ''chunk:000'' @ jsonStrings [''he'', ''she''] then Some (Blob (jsonStrings [''he'', ''she''])) else None)"

definition snapDict_example :: "nat \<Rightarrow> gostring list" where
  "snapDict_example i = (if i = 0 then [''he'', ''she''] else [])"

definition snapshot_example :: Snapshot where
  "snapshot_example = \<lparr>sn_manifest = snapManifest_example, sn_lease = \<lparr>le_member = v3version_example @ ''/'' @ replicate 32 CHR ''a'', le_set = ''leases''\<rparr>\<rparr>"

lemma snap_example_holds:
  "manifestIn (ve_id v3env_example) snapContent_example v3version_example = Some snapManifest_example"
  "holds v3env_example snapContent_example v3version_example snapDict_example"
proof -
  let ?m = snapManifest_example
  have bs: "mf_Buckets ?m = snapBucket_example # replicate (v3BucketCount - 1) zeroBucket"
  proof -
    have "replicate v3BucketCount zeroBucket = zeroBucket # replicate (v3BucketCount - 1) zeroBucket"
      using replicate_Suc[of "v3BucketCount - 1" zeroBucket] by (simp add: v3BucketCount_def del: replicate_Suc)
    then show ?thesis by (simp add: snapManifest_example_def zeroManifest_def)
  qed
  have "map marshalBucket (mf_Buckets ?m) = mf_Buckets ?m"
    by (simp add: bs marshalBucket_def zeroBucket_def snapBucket_example_def)
  then have self: "?m\<lparr>mf_Buckets := map marshalBucket (mf_Buckets ?m), mf_global := None\<rparr> = ?m"
    by (simp add: snapManifest_example_def zeroManifest_def)
  have "v3valid (ve_id v3env_example) v3version_example" by (simp add: v3valid_def v3env_example_def v3version_example_def v3IDLength_def)
  from manifestIn_legacy[where m = ?m and C = snapContent_example and t = v3version_example, OF _ this]
  show m: "manifestIn (ve_id v3env_example) snapContent_example v3version_example = Some ?m"
    unfolding self by (simp add: bs snapContent_example_def sum_list_replicate) (simp add: snapManifest_example_def snapBucket_example_def zeroManifest_def zeroBucket_def)
  have len: "length (mf_Buckets ?m) = v3BucketCount" by (simp add: snapManifest_example_def zeroManifest_def)
  have num: "v3BucketNumber (ve_H v3env_example) ''he'' = 0" "v3BucketNumber (ve_H v3env_example) ''she'' = 0" by code_simp+
  have words: "sorted [''he'', ''she'']" "distinct [''he'', ''she'']" "validString ''he''" "validString ''she''"
    by code_simp+
  have "bucketIn (ve_H v3env_example) snapContent_example (mf_Buckets ?m ! i) = Some (snapDict_example i)" if "i < v3BucketCount" for i
  proof (cases i)
    case 0
    have "decodeChunk (ve_H v3env_example) (''000'' @ jsonStrings [''he'', ''she'']) (jsonStrings [''he'', ''she'']) = Inr [''he'', ''she'']" by code_simp
    moreover have "checkBucket (ve_H v3env_example) snapBucket_example [''he'', ''she''] = Inr [''he'', ''she'']" by code_simp
    moreover have "bk_Chunks snapBucket_example = [''000'' @ jsonStrings [''he'', ''she'']]" "bk_Count snapBucket_example = 2" "\<not> bk_sharded snapBucket_example"
      by (simp_all add: snapBucket_example_def)
    ultimately show ?thesis using 0
      by (simp add: bs bucketIn_def snapDict_example_def snapContent_example_def bucketChunkKey_def)
  next
    case (Suc j)
    with that show ?thesis by (simp add: bs bucketIn_def zeroBucket_def snapDict_example_def)
  qed
  then show "holds v3env_example snapContent_example v3version_example snapDict_example"
    unfolding holds_def using m words len num by (auto simp: dict_wf_def snapDict_example_def)
qed

lemma snapshot_reads_witness:
  "\<forall>w. case snd (pages v3env_example snapshot_example 1 3 None w) of None \<Rightarrow> False | Some (Inl err) \<Rightarrow> True | Some (Inr kws) \<Rightarrow> kws = [''he'', ''she'']"
proof -
  have v: "snapshot_Version snapshot_example = v3version_example" "sn_manifest snapshot_example = snapManifest_example"
    by (simp_all add: snapshot_Version_def snapshot_example_def snapManifest_example_def)
  have u: "unforged (ve_H v3env_example) snapDict_example" by (simp add: unforged_def v3env_example_def)
  have l: "listing snapDict_example 0 0 = [''he'', ''she'']"
  proof -
    have "[0..<v3BucketCount] = 0 # [Suc 0..<v3BucketCount]" by (rule upt_conv_Cons) (simp add: v3BucketCount_def)
    moreover have "concat (map snapDict_example [Suc 0..<v3BucketCount]) = []" unfolding concat_eq_Nil_conv by (auto simp: snapDict_example_def)
    ultimately show ?thesis unfolding listing_def by (simp add: snapDict_example_def)
  qed
  have "holds v3env_example snapContent_example (snapshot_Version snapshot_example) snapDict_example"
    "manifestIn (ve_id v3env_example) snapContent_example (snapshot_Version snapshot_example) = Some (sn_manifest snapshot_example)"
    using snap_example_holds by (simp_all add: v)
  from snapshot_reads[OF this u]
  have "\<forall>limit w. 0 < limit \<longrightarrow> (case snd (pages v3env_example snapshot_example limit (Suc (length (listing snapDict_example 0 0))) None w) of
       None \<Rightarrow> False | Some (Inl err) \<Rightarrow> True | Some (Inr kws) \<Rightarrow> kws = listing snapDict_example 0 0)" by (elim conjE)
  moreover have "Suc (length [''he'', ''she'']) = 3" by simp
  ultimately show ?thesis unfolding l by (metis zero_less_one)
qed

end
