(* ===== verification/Composite.thy ===== *)
theory Composite
  imports Matches
begin

text \<open>
  \<^verbatim>\<open>internal/engine/engine_composite.go\<close>: several engines over disjoint keyword sets,
  presented as one.  The locale \<open>rune_cursor\<close> is what the composite relies on, a
  cursor that reports after each rune what ends there; the three engines
  interpret it.  The main result is that the composite answers every operation as
  one engine over all the keywords does.

  The workers of \<^verbatim>\<open>eachShard\<close> only write the slot of their own shard, so their
  order and number do not show; the slots they occupy are not modelled.
\<close>

section \<open>Cursors\<close>

record outputCursor =
  oc_out :: "outputs option"
  oc_state :: int

definition no_output :: outputCursor where
  "no_output = \<lparr>oc_out = None, oc_state = 0\<rparr>"

text \<open>\<^verbatim>\<open>outputCursor.next\<close>: the next keyword of the chain, and the cursor behind it.\<close>

partial_function (option) cursor_next :: "int \<Rightarrow> outputCursor \<Rightarrow> (match option \<times> outputCursor) option" where
  "cursor_next end c =
     (case oc_out c of
        None \<Rightarrow> Some (None, c)
      | Some out \<Rightarrow>
          if oc_state c = outNone then Some (None, c)
          else do {
            k \<leftarrow> idxi (own out) (oc_state c);
            l \<leftarrow> idxi (outLink out) (oc_state c);
            if k \<noteq> 0
            then do {
              kw \<leftarrow> idx (kwords out) k;
              n \<leftarrow> idx (runeLens out) k;
              Some (Some (kw, end - int n, end), c\<lparr>oc_state := l\<rparr>)
            }
            else cursor_next end (c\<lparr>oc_state := l\<rparr>)
          })"

declare cursor_next.simps [code]

text \<open>The cursor of each engine: its automaton state and, per rune, the step of its scans.\<close>

definition step_cursor :: "outputs \<Rightarrow> (nat \<Rightarrow> rune \<Rightarrow> (nat \<times> bool) option) \<Rightarrow> nat \<Rightarrow> rune \<Rightarrow> (nat \<times> outputCursor) option" where
  "step_cursor out step state ch = do {
     (state', hit) \<leftarrow> step state ch;
     Some (state', if hit then \<lparr>oc_out = Some out, oc_state = int state'\<rparr> else no_output)
   }"

definition mem_cursor :: "memEfficientEngine \<Rightarrow> nat \<Rightarrow> rune \<Rightarrow> (nat \<times> outputCursor) option" where
  "mem_cursor e state ch = (if mem_empty e then Some (state, no_output) else step_cursor (mem_out e) (mem_step e) state ch)"

definition speed_cursor :: "speedEngine \<Rightarrow> nat \<Rightarrow> rune \<Rightarrow> (nat \<times> outputCursor) option" where
  "speed_cursor e state ch = (if se_dfa e = None then Some (state, no_output) else step_cursor (se_out e) (speed_step e) state ch)"

definition balanced_cursor :: "balancedEngine \<Rightarrow> nat \<Rightarrow> rune \<Rightarrow> (nat \<times> outputCursor) option" where
  "balanced_cursor e state ch =
     (if balanced_empty e then Some (state, no_output) else step_cursor (dt_out (be_dat e)) (balanced_step e) state ch)"

definition Engine_cursor :: "Engine \<Rightarrow> nat \<Rightarrow> rune \<Rightarrow> (nat \<times> outputCursor) option" where
  "Engine_cursor e =
     (case en_impl e of MemEfficientImpl m \<Rightarrow> mem_cursor m | SpeedImpl s \<Rightarrow> speed_cursor s | BalancedImpl b \<Rightarrow> balanced_cursor b)"

definition cursor_start :: "Engine \<Rightarrow> nat" where
  "cursor_start e = (case en_impl e of MemEfficientImpl m \<Rightarrow> 0 | SpeedImpl s \<Rightarrow> 0 | BalancedImpl b \<Rightarrow> datRootPos)"

section \<open>The composite\<close>

record compositeEngine =
  ce_shards :: "Engine list"
  ce_concurrency :: int
  ce_maxKeywordRunes :: nat

definition NewComposite :: "Engine list \<Rightarrow> int \<Rightarrow> compositeEngine" where
  "NewComposite shards concurrency =
     (let used = filter (\<lambda>shard. en_maxKeywordRunes shard \<noteq> 0) shards in
      \<lparr>ce_shards = used, ce_concurrency = max 1 (min concurrency (int (length used))),
       ce_maxKeywordRunes = fold (\<lambda>shard n. max n (en_maxKeywordRunes shard)) used 0\<rparr>)"

text \<open>By end, start and keyword, the order \<^verbatim>\<open>compareCompositeMatch\<close> sorts by.\<close>

fun match_key :: "match \<Rightarrow> int \<times> int \<times> gostring" where
  "match_key (keyword, start, end) = (end, start, keyword)"

definition compareCompositeMatch :: "match \<Rightarrow> match \<Rightarrow> int" where
  "compareCompositeMatch a b = (if match_key a < match_key b then -1 else if match_key a = match_key b then 0 else 1)"

fun firstLoop :: "Engine \<Rightarrow> rune list \<Rightarrow> nat \<Rightarrow> int \<Rightarrow> setCollector \<Rightarrow> match list \<Rightarrow> match list option" where
  "firstLoop e [] state end collector result = Some result"
| "firstLoop e (ch # cs) state end collector result = do {
     (state', output) \<leftarrow> Engine_cursor e state ch;
     (case oc_out output of
        None \<Rightarrow> firstLoop e cs state' (end + 1) collector result
      | Some out \<Rightarrow> do {
          collector' \<leftarrow> collectChain out collector (nat (oc_state output));
          firstLoop e cs state' (end + 1) collector'
            (result @ map (\<lambda>keyword. (keyword, end + 1 - int (runeCount keyword), end + 1))
               (drop (length (collector_result collector)) (collector_result collector')))
        })
   }"

definition firstMatches :: "Engine \<Rightarrow> gostring \<Rightarrow> match list option" where
  "firstMatches e text = firstLoop e (runes text) (cursor_start e) 0 new_collector []"

definition eachShard :: "compositeEngine \<Rightarrow> (Engine \<Rightarrow> 'b option) \<Rightarrow> 'b list option" where
  "eachShard c work = those (map work (ce_shards c))"

definition comp_matches :: "compositeEngine \<Rightarrow> gostring \<Rightarrow> bool \<Rightarrow> match list option" where
  "comp_matches c text unique = do {
     perShard \<leftarrow> eachShard c (\<lambda>e. if unique then firstMatches e text else Engine_MatchString e text (\<lambda>m found. (found @ [m], True)) []);
     Some (sort_key match_key (concat perShard))
   }"

definition compositeKeywords :: "match list \<Rightarrow> gostring list" where "compositeKeywords = map fst"

definition comp_find :: "compositeEngine \<Rightarrow> gostring \<Rightarrow> gostring list option" where
  "comp_find c text = map_option compositeKeywords (comp_matches c text False)"

definition comp_findSet :: "compositeEngine \<Rightarrow> gostring \<Rightarrow> gostring list option" where
  "comp_findSet c text = map_option compositeKeywords (comp_matches c text True)"

definition comp_findIndex :: "compositeEngine \<Rightarrow> gostring \<Rightarrow> (gostring \<rightharpoonup> int list) option" where
  "comp_findIndex c text = do {
     perShard \<leftarrow> eachShard c (\<lambda>e. Engine_FindIndex e text);
     Some (fold (\<lambda>found result. result ++ found) perShard Map.empty)
   }"

definition comp_matchString :: "compositeEngine \<Rightarrow> gostring \<Rightarrow> (match \<Rightarrow> 'a \<Rightarrow> 'a \<times> bool) \<Rightarrow> 'a \<Rightarrow> 'a option" where
  "comp_matchString c text emit a = do { found \<leftarrow> comp_matches c text False; Some (fst (emitAll emit found a)) }"

text \<open>One rune given to all cursors, until one of them is at a state that carries keywords.\<close>

definition outputCarries :: "outputCursor \<Rightarrow> bool option" where
  "outputCarries output =
     (case oc_out output of
        None \<Rightarrow> Some False
      | Some out \<Rightarrow> do {
          k \<leftarrow> idxi (own out) (oc_state output);
          if k \<noteq> 0 then Some True else do { l \<leftarrow> idxi (outLink out) (oc_state output); Some (l \<noteq> outNone) }
        })"

fun containsRow :: "Engine list \<Rightarrow> nat list \<Rightarrow> rune \<Rightarrow> (nat list \<times> bool) option" where
  "containsRow (e # es) (s # ss) ch = do {
     (s', output) \<leftarrow> Engine_cursor e s ch;
     found \<leftarrow> outputCarries output;
     if found then Some (s' # ss, True) else do { (ss', b) \<leftarrow> containsRow es ss ch; Some (s' # ss', b) }
   }"
| "containsRow _ ss ch = Some (ss, False)"

definition comp_contains :: "compositeEngine \<Rightarrow> gostring \<Rightarrow> bool option" where
  "comp_contains c text =
     (if ce_shards c = [] \<or> text = [] then Some False
      else map_option fst (scanLoop (containsRow (ce_shards c)) (\<lambda>ss i found. Some (True, False)) (runes text)
        (map cursor_start (ce_shards c)) 0 False))"

text \<open>
  The queue of the heads.  \<^verbatim>\<open>container/heap\<close> promises that the head is a least element;
  the queue is kept as the sorted list, so initialising it sorts, a changed head
  is inserted again, and a pop drops the head.
\<close>

type_synonym compositeQueue = "(match \<times> nat) list"

definition heap_Init :: "compositeQueue \<Rightarrow> compositeQueue" where
  "heap_Init q = sort_key (match_key \<circ> fst) q"

definition heap_Fix :: "match \<times> nat \<Rightarrow> compositeQueue \<Rightarrow> compositeQueue" where
  "heap_Fix head rest = insort_key (match_key \<circ> fst) head rest"

partial_function (option) emitQueue ::
  "compositeQueue \<Rightarrow> outputCursor list \<Rightarrow> int \<Rightarrow> (match \<Rightarrow> 'a \<Rightarrow> 'a \<times> bool) \<Rightarrow> 'a \<Rightarrow> ('a \<times> bool) option" where
  "emitQueue q outs end emit a =
     (case q of
        [] \<Rightarrow> Some (a, True)
      | (m, shard) # rest \<Rightarrow>
          (case emit m a of (a', go) \<Rightarrow>
             if \<not> go then Some (a', False)
             else do {
               c \<leftarrow> idx outs shard;
               (nx, c') \<leftarrow> cursor_next end c;
               outs' \<leftarrow> upd outs shard c';
               emitQueue (case nx of Some m' \<Rightarrow> heap_Fix (m', shard) rest | None \<Rightarrow> rest) outs' end emit a'
             }))"

declare emitQueue.simps [code]

definition emitCompositeQueue ::
  "compositeQueue \<Rightarrow> outputCursor list \<Rightarrow> int \<Rightarrow> (match \<Rightarrow> 'a \<Rightarrow> 'a \<times> bool) \<Rightarrow> 'a \<Rightarrow> ('a \<times> bool) option" where
  "emitCompositeQueue q outs end emit a = emitQueue (heap_Init q) outs end emit a"

text \<open>The heads of one rune, and the cursors behind them.\<close>

fun queueHeads :: "nat \<Rightarrow> outputCursor list \<Rightarrow> int \<Rightarrow> (compositeQueue \<times> outputCursor list) option" where
  "queueHeads shard [] end = Some ([], [])"
| "queueHeads shard (c # cs) end = do {
     (nx, c') \<leftarrow> cursor_next end c;
     (q, cs') \<leftarrow> queueHeads (Suc shard) cs end;
     Some (case nx of Some m \<Rightarrow> (m, shard) # q | None \<Rightarrow> q, c' # cs')
   }"

definition advance :: "Engine list \<Rightarrow> (nat \<times> outputCursor) list \<Rightarrow> rune \<Rightarrow> ((nat \<times> outputCursor) list \<times> bool) option" where
  "advance es sts ch = do {
     sts' \<leftarrow> those (map2 (\<lambda>e s. Engine_cursor e (fst s) ch) es sts);
     Some (sts', True)
   }"

definition comp_matchStream ::
  "compositeEngine \<Rightarrow> ('a \<Rightarrow> rune option \<times> 'a) \<Rightarrow> (match \<Rightarrow> 'a \<Rightarrow> 'a \<times> bool) \<Rightarrow> 'a \<Rightarrow> 'a option" where
  "comp_matchStream c nxt emit a =
     (if ce_shards c = [] then Some a
      else streamLoop (advance (ce_shards c))
        (\<lambda>sts end a. do {
           (q, outs) \<leftarrow> queueHeads 0 (map snd sts) end;
           emitCompositeQueue q outs end emit a
         }) nxt (map (\<lambda>e. (cursor_start e, no_output)) (ce_shards c)) 0 a)"

text \<open>The last shard's preset, as \<^verbatim>\<open>info\<close> overwrites it.\<close>

definition comp_info :: "compositeEngine \<Rightarrow> InMemoryInfo" where
  "comp_info c =
     fold (\<lambda>shard r. let i = Engine_Info shard in
         \<lparr>info_Keywords = info_Keywords r + info_Keywords i, info_Nodes = info_Nodes r + info_Nodes i, info_Preset = info_Preset i,
          info_MemoryBytes = info_MemoryBytes r + info_MemoryBytes i, info_TrieDepth = max (info_TrieDepth r) (info_TrieDepth i)\<rparr>)
       (ce_shards c) \<lparr>info_Keywords = 0, info_Nodes = 0, info_Preset = PresetNone, info_MemoryBytes = 0, info_TrieDepth = 0\<rparr>"

section \<open>Merging what the shards report\<close>

lemma match_key_inj: "match_key a = match_key b \<longleftrightarrow> a = b"
  by (cases a; cases b) auto

lemma inj_match_key: "inj_on match_key A"
  by (auto simp: inj_on_def match_key_inj)

lemma compareCompositeMatch_order: "compareCompositeMatch a b = 0 \<longleftrightarrow> a = b"
  "compareCompositeMatch a b < 0 \<longleftrightarrow> match_key a < match_key b"
  by (auto simp: compareCompositeMatch_def match_key_inj)

lemma scan_less_key: "scan_less a b \<Longrightarrow> match_key a < match_key b"
  by (cases a; cases b) (auto simp: scan_less_def less_prod_def')

lemma scan_sorted:
  assumes "sorted_wrt scan_less ms"
  shows "sorted (map match_key ms)" "distinct ms"
proof -
  have "sorted_wrt (\<lambda>a b. match_key a < match_key b) ms" using assms by (rule sorted_wrt_mono_rel[rotated]) (rule scan_less_key)
  then have s: "sorted_wrt (<) (map match_key ms)" by (simp add: sorted_wrt_map)
  then show "sorted (map match_key ms)" using strict_sorted_imp_sorted by blast
  have "distinct (map match_key ms)" using s strict_sorted_iff by blast
  then show "distinct ms" by (simp add: distinct_map)
qed

text \<open>A list in scan order is determined by its elements.\<close>

lemma sort_scan:
  assumes "sorted_wrt scan_less ms" and "distinct xs" and "set xs = set ms"
  shows "sort_key match_key xs = ms"
proof -
  have "map match_key (sort_key match_key xs) = map match_key ms"
  proof (rule sorted_distinct_set_unique)
    show "distinct (map match_key (sort_key match_key xs))" "distinct (map match_key ms)"
      using assms(2) scan_sorted(2)[OF assms(1)] by (simp_all add: distinct_map inj_match_key)
  qed (use assms(3) scan_sorted(1)[OF assms(1)] in simp_all)
  then show ?thesis using inj_match_key by (simp add: inj_on_map_eq_map)
qed

text \<open>The dictionaries of the shards, and the one they make up.\<close>

definition proper :: "dict \<Rightarrow> bool" where
  "proper D \<longleftrightarrow> (\<forall>v k. D v = Some k \<longrightarrow> runes k = v)"

inductive shards_of :: "dict list \<Rightarrow> dict \<Rightarrow> bool" where
  no_shard: "shards_of [] Map.empty"
| shard: "proper D0 \<Longrightarrow> shards_of Ds D1 \<Longrightarrow> dom D0 \<inter> dom D1 = {} \<Longrightarrow> shards_of (D0 # Ds) (D0 ++ D1)"

inductive_cases shards_ofE: "shards_of (D0 # Ds) D"

lemma properD: "proper D \<Longrightarrow> D v = Some k \<Longrightarrow> runes k = v"
  by (simp add: proper_def)

lemma shards_proper: "shards_of Ds D \<Longrightarrow> proper D"
  by (induction rule: shards_of.induct) (auto simp: proper_def map_add_Some_iff)

lemma in_matches:
  assumes "proper D"
  shows "(k, s, e) \<in> set (matches_at D w) \<longleftrightarrow>
    e = int (length w) \<and> s = e - int (runeCount k) \<and> suffix (runes k) w \<and> runes k \<noteq> [] \<and> D (runes k) = Some k"
  unfolding in_matches_at runeCount_def
proof
  assume "\<exists>v. suffix v w \<and> v \<noteq> [] \<and> D v = Some k \<and> e = int (length w) \<and> s = e - int (length v)"
  then obtain v where v: "suffix v w" "v \<noteq> []" "D v = Some k" "e = int (length w)" "s = e - int (length v)" by blast
  have "runes k = v" by (rule properD[OF assms v(3)])
  with v show "e = int (length w) \<and> s = e - int (length (runes k)) \<and> suffix (runes k) w \<and> runes k \<noteq> [] \<and> D (runes k) = Some k" by simp
qed blast

lemma matches_disjoint:
  assumes "dom D0 \<inter> dom D1 = {}"
  shows "set (matches_at (D0 ++ D1) w) = set (matches_at D0 w) \<union> set (matches_at D1 w)"
proof -
  have "(D0 ++ D1) v = Some k \<longleftrightarrow> D0 v = Some k \<or> D1 v = Some k" for v k
    using assms by (cases "D1 v") (auto simp: map_add_def)
  then have "m \<in> set (matches_at (D0 ++ D1) w) \<longleftrightarrow> m \<in> set (matches_at D0 w) \<or> m \<in> set (matches_at D1 w)" for m
    by (cases m) (simp only: in_matches_at, blast)
  then show ?thesis by blast
qed

lemma occurrences_disjoint:
  assumes "dom D0 \<inter> dom D1 = {}"
  shows "set (occurrences (D0 ++ D1) t) = set (occurrences D0 t) \<union> set (occurrences D1 t)"
  unfolding occurrences_def using matches_disjoint[OF assms] by (auto simp: in_occs_from)

lemma shards_matches: "shards_of Ds D \<Longrightarrow> set (matches_at D w) = (\<Union>Di \<in> set Ds. set (matches_at Di w))"
proof (induction rule: shards_of.induct)
  case no_shard
  have "outs_at Map.empty w = []" by (induction w) (simp_all add: outs_at_def)
  then show ?case by (simp add: matches_at_def)
qed (simp add: matches_disjoint)

lemma shards_occurrences: "shards_of Ds D \<Longrightarrow> set (occurrences D t) = (\<Union>Di \<in> set Ds. set (occurrences Di t))"
  by (induction rule: shards_of.induct) (simp_all add: occurrences_disjoint)

text \<open>Every match names the dictionary it comes from, so the shards share none.\<close>

definition match_of :: "dict \<Rightarrow> match \<Rightarrow> bool" where
  "match_of D m \<longleftrightarrow> fst m \<in> ran D"

lemma match_of_shard:
  assumes "proper D" and "proper D'" and "dom D \<inter> dom D' = {}" and "match_of D m" and "match_of D' m'"
  shows "fst m \<noteq> fst m'"
proof
  assume eq: "fst m = fst m'"
  obtain v v' where "D v = Some (fst m)" "D' v' = Some (fst m)" using assms(4,5) eq by (auto simp: match_of_def ran_def)
  moreover from this have "v = v'" using properD[OF assms(1)] properD[OF assms(2)] by metis
  ultimately show False using assms(3) by blast
qed

lemma matches_of: "m \<in> set (matches_at D w) \<Longrightarrow> match_of D m"
  by (cases m) (auto simp: in_matches_at match_of_def ran_def)

lemma occurrences_of: "m \<in> set (occurrences D t) \<Longrightarrow> match_of D m"
  unfolding occurrences_def in_occs_from using matches_of by blast

lemma shards_ran: "shards_of Ds D \<Longrightarrow> Di \<in> set Ds \<Longrightarrow> match_of Di m \<Longrightarrow> match_of D m"
  by (induction rule: shards_of.induct) (auto simp: match_of_def ran_map_add)

lemma shards_distinct:
  assumes "shards_of Ds D" and "list_all2 (\<lambda>ms Di. distinct ms \<and> (\<forall>m \<in> set ms. match_of Di m)) mss Ds"
  shows "distinct (concat mss)"
  using assms
proof (induction arbitrary: mss rule: shards_of.induct)
  case (shard D0 Ds D1)
  from shard.prems obtain ms mss' where m: "mss = ms # mss'" "distinct ms" "\<forall>m \<in> set ms. match_of D0 m"
    "list_all2 (\<lambda>ms Di. distinct ms \<and> (\<forall>m \<in> set ms. match_of Di m)) mss' Ds"
    by (auto simp: list_all2_Cons2)
  have "match_of D1 m" if "m \<in> set (concat mss')" for m
  proof -
    from that obtain i where i: "i < length mss'" "m \<in> set (mss' ! i)" by (metis UN_E in_set_conv_nth set_concat)
    with m(4) have "Ds ! i \<in> set Ds" "match_of (Ds ! i) m" by (auto simp: list_all2_conv_all_nth)
    then show ?thesis by (rule shards_ran[OF shard.hyps(2)])
  qed
  then have "set ms \<inter> set (concat mss') = {}"
    using match_of_shard[OF shard.hyps(1) shards_proper[OF shard.hyps(2)] shard.hyps(3)] m(3) by blast
  then show ?case using m shard.IH by simp
qed simp

text \<open>The first match of each keyword, the keywords in \<open>seen\<close> left out.\<close>

fun firsts :: "gostring set \<Rightarrow> match list \<Rightarrow> match list" where
  "firsts seen [] = []"
| "firsts seen (m # ms) = (if fst m \<in> seen then firsts seen ms else m # firsts (insert (fst m) seen) ms)"

lemma firsts_append: "firsts seen (ms @ ms') = firsts seen ms @ firsts (seen \<union> fst ` set ms) ms'"
  by (induction ms arbitrary: seen) (simp_all add: insert_absorb)

lemma firsts_keywords: "map fst (firsts seen ms) = filter (\<lambda>k. k \<notin> seen) (nub (map fst ms))"
proof (induction ms rule: rev_induct)
  case (snoc m ms)
  then show ?case by (auto simp: firsts_append)
qed simp

lemma firsts_map:
  assumes "\<And>k. fst (g k) = k"
  shows "firsts seen (map g ks) = map g (filter (\<lambda>k. k \<notin> seen) (nub ks))"
proof (induction ks rule: rev_induct)
  case (snoc k ks)
  then show ?case using assms by (auto simp: firsts_append image_image)
qed simp

lemma firsts_sorted: "sorted_wrt R ms \<Longrightarrow> sorted_wrt R (firsts seen ms) \<and> set (firsts seen ms) \<subseteq> set ms"
  by (induction ms arbitrary: seen) (auto simp: subset_iff)

lemma firsts_iff:
  assumes "sorted_wrt scan_less ms"
  shows "m \<in> set (firsts seen ms) \<longleftrightarrow> m \<in> set ms \<and> fst m \<notin> seen \<and> (\<forall>m' \<in> set ms. fst m' = fst m \<longrightarrow> \<not> scan_less m' m)"
  using assms
proof (induction ms arbitrary: seen)
  case (Cons x ms)
  have asym: "\<not> scan_less b a" if "scan_less a b" for a b using that by (auto simp: scan_less_def)
  have later: "\<forall>y \<in> set ms. scan_less x y" using Cons.prems by simp
  have irr: "\<not> scan_less x x" by (simp add: scan_less_def)
  show ?case
  proof (cases "fst x \<in> seen")
    case True
    then show ?thesis using Cons by auto
  next
    case False
    have "\<forall>y \<in> set ms. \<not> scan_less y x" using later asym by blast
    then show ?thesis using False Cons.IH[of "insert (fst x) seen"] Cons.prems later irr by auto
  qed
qed simp

lemma shards_firsts:
  assumes "shards_of Ds D"
  shows "set (firsts {} (occurrences D t)) = (\<Union>Di \<in> set Ds. set (firsts {} (occurrences Di t)))"
  using assms
proof (induction rule: shards_of.induct)
  case (shard D0 Ds D1)
  have apart: "fst m \<noteq> fst m'" if "m \<in> set (occurrences D0 t)" "m' \<in> set (occurrences D1 t)" for m m'
    using match_of_shard[OF shard.hyps(1) shards_proper[OF shard.hyps(2)] shard.hyps(3)] occurrences_of that by blast
  have "m \<in> set (firsts {} (occurrences (D0 ++ D1) t)) \<longleftrightarrow>
      m \<in> set (firsts {} (occurrences D0 t)) \<or> m \<in> set (firsts {} (occurrences D1 t))" for m
  proof -
    have "(\<forall>m' \<in> A \<union> B. fst m' = fst m \<longrightarrow> \<not> scan_less m' m) \<longleftrightarrow> (\<forall>m' \<in> A. fst m' = fst m \<longrightarrow> \<not> scan_less m' m)"
      if "\<And>m'. m' \<in> B \<Longrightarrow> fst m' \<noteq> fst m" for A B using that by blast
    note drop_other = this
    let ?A = "set (occurrences D0 t)" and ?B = "set (occurrences D1 t)"
    consider "m \<in> ?A" "m \<notin> ?B" | "m \<in> ?B" "m \<notin> ?A" | "m \<notin> ?A" "m \<notin> ?B" using apart by blast
    then show ?thesis
    proof cases
      case 1
      then show ?thesis using drop_other[of ?B ?A] apart
        by (simp add: firsts_iff[OF sorted_occurrences] occurrences_disjoint[OF shard.hyps(3)]) metis
    next
      case 2
      then show ?thesis using drop_other[of ?A ?B, unfolded Un_commute[of ?B ?A]] apart
        by (simp add: firsts_iff[OF sorted_occurrences] occurrences_disjoint[OF shard.hyps(3)])
    qed (simp add: firsts_iff[OF sorted_occurrences] occurrences_disjoint[OF shard.hyps(3)])
  qed
  then show ?case using shard.IH by auto
qed simp

text \<open>What the shards list one by one, sorted, is what the whole dictionary lists.\<close>

lemma merged:
  assumes sh: "shards_of Ds D" and sorted: "\<And>D. sorted_wrt scan_less (f D)" and of: "\<And>D m. m \<in> set (f D) \<Longrightarrow> match_of D m"
    and un: "set (f D) = (\<Union>Di \<in> set Ds. set (f Di))"
  shows "sort_key match_key (concat (map f Ds)) = f D"
proof (rule sort_scan[OF sorted])
  show "distinct (concat (map f Ds))"
    by (rule shards_distinct[OF sh]) (auto simp: list_all2_map1 list_all2_same scan_sorted(2)[OF sorted] dest: of)
  show "set (concat (map f Ds)) = set (f D)" using un by simp
qed

lemma merged_occurrences: "shards_of Ds D \<Longrightarrow> sort_key match_key (concat (map (\<lambda>Di. occurrences Di t) Ds)) = occurrences D t"
  by (rule merged[of Ds D "\<lambda>Di. occurrences Di t"]) (simp_all add: sorted_occurrences occurrences_of shards_occurrences)

lemma merged_firsts: "shards_of Ds D \<Longrightarrow>
    sort_key match_key (concat (map (\<lambda>Di. firsts {} (occurrences Di t)) Ds)) = firsts {} (occurrences D t)"
proof (rule merged[of Ds D "\<lambda>Di. firsts {} (occurrences Di t)"])
  show "sorted_wrt scan_less (firsts {} (occurrences D t))" for D using firsts_sorted[OF sorted_occurrences] by blast
  show "match_of D m" if "m \<in> set (firsts {} (occurrences D t))" for D m
    using that firsts_sorted[OF sorted_occurrences] occurrences_of by blast
qed (simp_all add: shards_firsts)

lemma merged_matches: "shards_of Ds D \<Longrightarrow> sort_key match_key (concat (map (\<lambda>Di. matches_at Di w) Ds)) = matches_at D w"
  by (rule merged[of Ds D "\<lambda>Di. matches_at Di w"]) (simp_all add: sorted_matches_at matches_of shards_matches)

section \<open>The contract of a cursor\<close>

text \<open>\<open>reports out c xs\<close>: what is left of the cursor's chain is \<open>xs\<close>.\<close>

definition reports :: "outputs \<Rightarrow> outputCursor \<Rightarrow> (gostring \<times> nat) list \<Rightarrow> bool" where
  "reports out c xs \<longleftrightarrow>
     (case oc_out c of
        None \<Rightarrow> xs = []
      | Some out' \<Rightarrow> out' = out \<and>
          (\<exists>ids. chain out (oc_state c) ids \<and> map (\<lambda>k. (kwords out ! k, runeLens out ! k)) ids = xs))"

definition span_at :: "int \<Rightarrow> gostring \<times> nat \<Rightarrow> match" where
  "span_at end = (\<lambda>(k, n). (k, end - int n, end))"

lemma matches_at_span: "matches_at D w = map (span_at (int (length w))) (outs_at D w)"
  by (simp add: matches_at_def span_at_def)

lemma cursor_next_None: "oc_out c = None \<Longrightarrow> cursor_next end c = Some (None, c)"
  by (simp add: cursor_next.simps)

lemma cursor_next_chain:
  assumes "chain out s ids"
  shows "\<exists>c'. cursor_next end \<lparr>oc_out = Some out, oc_state = s\<rparr> =
      Some (case ids of [] \<Rightarrow> None | k # ks \<Rightarrow> Some (kwords out ! k, end - int (runeLens out ! k), end), c') \<and>
    oc_out c' = Some out \<and> chain out (oc_state c') (tl ids)"
  using assms
proof (induction rule: chain.induct)
  case chain_end
  then show ?case by (simp add: cursor_next.simps)
next
  case (chain_skip s l ids)
  then show ?case by (subst cursor_next.simps) (simp add: idxi_Some_nonneg)
next
  case (chain_own s k l ids)
  then show ?case by (subst cursor_next.simps) (simp add: idxi_Some_nonneg idx_Some)
qed

lemma cursor_next_reports:
  assumes "reports out c xs"
  shows "\<exists>c'. cursor_next end c = Some (case xs of [] \<Rightarrow> None | x # ys \<Rightarrow> Some (span_at end x), c') \<and> reports out c' (tl xs)"
proof (cases "oc_out c")
  case None
  then show ?thesis using assms by (simp add: cursor_next_None reports_def)
next
  case (Some out')
  then obtain st where c: "c = \<lparr>oc_out = Some out', oc_state = st\<rparr>" by (cases c) simp
  with assms obtain ids where ids: "out' = out" "chain out st ids" "map (\<lambda>k. (kwords out ! k, runeLens out ! k)) ids = xs"
    by (auto simp: reports_def)
  from cursor_next_chain[OF ids(2), of "end"] obtain c' where
    n: "cursor_next end c = Some (case ids of [] \<Rightarrow> None | k # ks \<Rightarrow> Some (kwords out ! k, end - int (runeLens out ! k), end), c')"
    "oc_out c' = Some out" "chain out (oc_state c') (tl ids)" unfolding c ids(1) by blast
  have "reports out c' (tl xs)" using n(2,3) ids(3) by (auto simp: reports_def map_tl)
  moreover have "(case ids of [] \<Rightarrow> None | k # ks \<Rightarrow> Some (kwords out ! k, end - int (runeLens out ! k), end)) =
      (case xs of [] \<Rightarrow> None | x # ys \<Rightarrow> Some (span_at end x))"
    using ids(3) by (cases ids) (auto simp: span_at_def)
  ultimately show ?thesis using n(1) by auto
qed

locale rune_cursor =
  fixes cursor :: "'e \<Rightarrow> nat \<Rightarrow> rune \<Rightarrow> (nat \<times> outputCursor) option"
    and start :: "'e \<Rightarrow> nat"
    and out_of :: "'e \<Rightarrow> outputs"
    and holds :: "'e \<Rightarrow> dict \<Rightarrow> bool"
    and rep :: "'e \<Rightarrow> dict \<Rightarrow> rune list \<Rightarrow> nat \<Rightarrow> bool"
  assumes rep_start: "holds e D \<Longrightarrow> rep e D [] (start e)"
    and rep_cursor: "holds e D \<Longrightarrow> rep e D w s \<Longrightarrow> \<exists>s' c. cursor e s ch = Some (s', c) \<and> rep e D (w @ [ch]) s' \<and>
      reports (out_of e) c (outs_at D (w @ [ch])) \<and> outputCarries c = Some (outs_at D (w @ [ch]) \<noteq> []) \<and>
      (oc_out c \<noteq> None \<longrightarrow> oc_state c = int s')"
    and distinct_words: "holds e D \<Longrightarrow> distinct (tl (kwords (out_of e)))"

text \<open>The scans of an engine give a cursor that keeps the contract.\<close>

lemma outputCarries_chain:
  assumes "chain out (int s) ids" and "ids = [] \<Longrightarrow> idx (outLink out) s = Some outNone"
  shows "outputCarries \<lparr>oc_out = Some out, oc_state = int s\<rparr> = Some (ids \<noteq> [])"
proof -
  from assms(1) obtain k l js where c: "idxi (own out) (int s) = Some k" "idxi (outLink out) (int s) = Some l" "chain out l js"
    "if k = 0 then ids = js else ids = k # js" by (auto simp: chain_unfold split: if_splits)
  show ?thesis
  proof (cases "k = 0 \<and> l \<noteq> outNone")
    case True
    then have "ids \<noteq> []" using c(2) assms(2) by (auto simp: idxi_of_nat)
    then show ?thesis using c True by (simp add: outputCarries_def)
  qed (use c in \<open>auto simp: outputCarries_def split: if_splits\<close>)
qed

context scanner
begin

lemma step_cursor_correct:
  assumes "built e D" and "rep e D w s"
    and link: "\<And>s'. step e s ch = Some (s', True) \<Longrightarrow> rep e D (w @ [ch]) s' \<Longrightarrow> outs_at D (w @ [ch]) = [] \<Longrightarrow>
      idx (outLink (out_of e)) s' = Some outNone"
  shows "\<exists>s' c. step_cursor (out_of e) (step e) s ch = Some (s', c) \<and> rep e D (w @ [ch]) s' \<and>
      reports (out_of e) c (outs_at D (w @ [ch])) \<and> outputCarries c = Some (outs_at D (w @ [ch]) \<noteq> []) \<and>
      (oc_out c \<noteq> None \<longrightarrow> oc_state c = int s')"
proof -
  from rep_step[OF assms(1,2), of ch] obtain s' h where s: "step e s ch = Some (s', h)" "rep e D (w @ [ch]) s'"
    "\<not> h \<longrightarrow> outs_at D (w @ [ch]) = []" by blast
  show ?thesis
  proof (cases h)
    case True
    from rep_chain[OF assms(1) s(2)] obtain ids where ids: "chain (out_of e) (int s') ids"
      "map (\<lambda>k. (kwords (out_of e) ! k, runeLens (out_of e) ! k)) ids = outs_at D (w @ [ch])" by blast
    have "outputCarries \<lparr>oc_out = Some (out_of e), oc_state = int s'\<rparr> = Some (ids \<noteq> [])"
      by (rule outputCarries_chain[OF ids(1)]) (use ids(2) s(1,2) link True in auto)
    moreover have "ids \<noteq> [] \<longleftrightarrow> outs_at D (w @ [ch]) \<noteq> []" using ids(2) by auto
    ultimately show ?thesis using s ids True by (auto simp: step_cursor_def reports_def)
  qed (use s in \<open>auto simp: step_cursor_def reports_def no_output_def outputCarries_def\<close>)
qed

end

context flagged_scanner
begin

lemma flagged_cursor_correct:
  assumes "built e D" and "rep e D w s"
  shows "\<exists>s' c. step_cursor (out_of e) (step e) s ch = Some (s', c) \<and> rep e D (w @ [ch]) s' \<and>
      reports (out_of e) c (outs_at D (w @ [ch])) \<and> outputCarries c = Some (outs_at D (w @ [ch]) \<noteq> []) \<and>
      (oc_out c \<noteq> None \<longrightarrow> oc_state c = int s')"
  by (rule step_cursor_correct[OF assms]) (use flag_exact[OF assms] in blast)

end

text \<open>The map engine looks at every state it walks to; one that reports nothing has no link.\<close>

lemma mem_link:
  assumes built: "mem_built e D" and rep: "mem_rep e D w s" and none: "outs_at D w = []"
  shows "idx (outLink (mem_out e)) s = Some outNone"
proof -
  let ?v = "lsuf (states D) w"
  have "linked (mapTrie_goto (me_trie e)) 0 (states D) D (mapTrie_fail (me_trie e)) (mapTrie_link (me_trie e)) UNIV"
    using built unfolding mem_built_def mapTrie_linked_def by blast
  with rep obtain l where l: "mapTrie_link (me_trie e) s = Some l" "link_ok (mapTrie_goto (me_trie e)) 0 D ?v l"
    by (auto simp: linked_def mem_rep_def)
  have "outs_at D ?v = []" using none outs_at_lsuf[OF dom_subset_states, of D w] by simp
  then have "lkw D ?v = []" by (auto simp: outs_at_empty lkw_def)
  with l show ?thesis by (simp add: link_ok_def)
qed

definition engine_out :: "Engine \<Rightarrow> outputs" where
  "engine_out e = (case en_impl e of MemEfficientImpl m \<Rightarrow> mem_out m | SpeedImpl s \<Rightarrow> se_out s | BalancedImpl b \<Rightarrow> dt_out (be_dat b))"

definition shard_holds :: "Engine \<Rightarrow> dict \<Rightarrow> bool" where
  "shard_holds e D \<longleftrightarrow> engine_holds e D \<and> dom D \<noteq> {}"

definition engine_rep :: "Engine \<Rightarrow> dict \<Rightarrow> rune list \<Rightarrow> nat \<Rightarrow> bool" where
  "engine_rep e =
     (case en_impl e of MemEfficientImpl m \<Rightarrow> mem_rep m | SpeedImpl s \<Rightarrow> speed_rep s | BalancedImpl b \<Rightarrow> balanced_rep b)"

lemma shard_speed: "speed_built s D \<Longrightarrow> se_dfa s \<noteq> None"
  by (auto simp: speed_built_def speed_ok_def)

lemma shard_mem: "mem_built m D \<Longrightarrow> dom D \<noteq> {} \<Longrightarrow> \<not> mem_empty m"
  using mem_empty_iff by blast

lemma shard_balanced:
  assumes "balanced_holds b D" and "dom D \<noteq> {}"
  shows "\<not> balanced_empty b" "balanced_built b D"
  using assms balanced_empty_dom unfolding balanced_holds_def balanced_built_def by blast+

interpretation shards: rune_cursor Engine_cursor cursor_start engine_out shard_holds engine_rep
proof unfold_locales
  fix e D w s ch
  assume h: "shard_holds e D"
  show "engine_rep e D [] (cursor_start e)"
    using h mem.rep_root speed.rep_root balanced.rep_root shard_balanced
    by (auto simp: shard_holds_def engine_holds_def engine_rep_def cursor_start_def datRootPos_def split: matchEngine.splits)
  show "distinct (tl (kwords (engine_out e)))"
  proof (cases "en_impl e")
    case (BalancedImpl b)
    with h shard_balanced(2) have "balanced_built b D" by (auto simp: shard_holds_def engine_holds_def)
    from balanced.distinct_kwords[OF this] show ?thesis by (simp add: engine_out_def BalancedImpl)
  qed (use h mem.distinct_kwords speed.distinct_kwords in \<open>auto simp: shard_holds_def engine_holds_def engine_out_def split: if_splits\<close>)
  assume r: "engine_rep e D w s"
  show "\<exists>s' c. Engine_cursor e s ch = Some (s', c) \<and> engine_rep e D (w @ [ch]) s' \<and>
      reports (engine_out e) c (outs_at D (w @ [ch])) \<and> outputCarries c = Some (outs_at D (w @ [ch]) \<noteq> []) \<and>
      (oc_out c \<noteq> None \<longrightarrow> oc_state c = int s')"
  proof (cases "en_impl e")
    case (MemEfficientImpl m)
    with h have m: "mem_built m D" "\<not> mem_empty m" using shard_mem by (auto simp: shard_holds_def engine_holds_def)
    show ?thesis using mem.step_cursor_correct[OF m(1), of w s ch] mem_link[OF m(1)] r m(2) MemEfficientImpl
      by (simp add: Engine_cursor_def engine_rep_def engine_out_def mem_cursor_def)
  next
    case (SpeedImpl x)
    with h have m: "speed_built x D" "se_dfa x \<noteq> None" using shard_speed
      by (auto simp: shard_holds_def engine_holds_def split: if_splits)
    from m(2) obtain dfa where "se_dfa x = Some dfa" by blast
    then show ?thesis using speed.flagged_cursor_correct[OF m(1), of w s ch] r SpeedImpl
      by (simp add: Engine_cursor_def engine_rep_def engine_out_def speed_cursor_def)
  next
    case (BalancedImpl b)
    with h have m: "balanced_built b D" "\<not> balanced_empty b" using shard_balanced by (auto simp: shard_holds_def engine_holds_def)
    show ?thesis using balanced.flagged_cursor_correct[OF m(1), of w s ch] r m(2) BalancedImpl
      by (simp add: Engine_cursor_def engine_rep_def engine_out_def balanced_cursor_def)
  qed
qed

section \<open>What each operation computes\<close>

lemma those_list_all2: "list_all2 (\<lambda>x y. f x = Some y) xs ys \<Longrightarrow> those (map f xs) = Some ys"
  by (induction rule: list_all2_induct) simp_all

lemma span_runeCount: "proper D \<Longrightarrow> map (span_at end) (outs_at D w) = map (\<lambda>k. (k, end - int (runeCount k), end)) (map fst (outs_at D w))"
  using properD unfolding outs_at_def by (auto simp: span_at_def set_ends runeCount_def)

lemma firstLoop_correct:
  assumes h: "shard_holds e D" and D: "proper D"
    and "engine_rep e D w s" and "collected (engine_out e) c (nub L)" and "\<forall>k \<in> set L. 0 < k \<and> k < length (kwords (engine_out e))"
  shows "firstLoop e cs s (int (length w)) c r = Some (r @ firsts ((!) (kwords (engine_out e)) ` set L) (occs_from D w cs))"
  using assms(3-)
proof (induction cs arbitrary: w s c L r)
  case (Cons ch cs)
  let ?kw = "(!) (kwords (engine_out e))" and ?w = "w @ [ch]"
  from shards.rep_cursor[OF h Cons.prems(1), of ch] obtain s' o' where
    o: "Engine_cursor e s ch = Some (s', o')" "engine_rep e D ?w s'" "reports (engine_out e) o' (outs_at D ?w)"
    "oc_out o' \<noteq> None \<longrightarrow> oc_state o' = int s'" by blast
  have len: "int (length w) + 1 = int (length ?w)" by simp
  show ?case
  proof (cases "oc_out o'")
    case None
    then have "outs_at D ?w = []" using o(3) by (simp add: reports_def)
    then show ?thesis using Cons.IH[OF o(2) Cons.prems(2,3), of r] None o(1) len by (simp add: matches_at_def add.commute)
  next
    case (Some out')
    with o(3) obtain ids where ids: "out' = engine_out e" "chain (engine_out e) (int s') ids"
      "map (\<lambda>k. (?kw k, runeLens (engine_out e) ! k)) ids = outs_at D ?w" using o(4) by (auto simp: reports_def)
    from collectChain_correct[OF Cons.prems(2) ids(2)] obtain c' where
      c': "collectChain (engine_out e) c s' = Some c'" "collected (engine_out e) c' (nub (L @ ids))" by (auto simp: nub_nub_append)
    have ok: "\<forall>k \<in> set (L @ ids). 0 < k \<and> k < length (kwords (engine_out e))" using Cons.prems(3) chain_ids[OF ids(2)] by auto
    then have inj: "inj_on ?kw (set (L @ ids))" using shards.distinct_words[OF h] by (intro inj_on_nth_tl) auto
    have new: "drop (length (collector_result c)) (collector_result c') = filter (\<lambda>k. k \<notin> ?kw ` set L) (nub (map ?kw ids))"
    proof -
      have "collector_result c' = nub (map ?kw L @ map ?kw ids)"
        using collected_result[OF c'(2)] nub_map_inj[OF inj] by simp
      moreover have "inj_on ?kw (set L)" by (rule inj_on_subset[OF inj]) simp
      then have "collector_result c = nub (map ?kw L)" using collected_result[OF Cons.prems(2)] nub_map_inj by metis
      ultimately show ?thesis by (simp add: nub_append)
    qed
    have m: "matches_at D ?w = map (\<lambda>k. (k, int (length ?w) - int (runeCount k), int (length ?w))) (map ?kw ids)"
      unfolding matches_at_span span_runeCount[OF D] by (simp add: comp_def flip: ids(3))
    have f: "firsts (?kw ` set L) (matches_at D ?w) =
        map (\<lambda>k. (k, int (length ?w) - int (runeCount k), int (length ?w))) (filter (\<lambda>k. k \<notin> ?kw ` set L) (nub (map ?kw ids)))"
      unfolding m by (rule firsts_map) simp
    have seen: "?kw ` set L \<union> fst ` set (matches_at D ?w) = ?kw ` set (L @ ids)" unfolding m by force
    have "firstLoop e (ch # cs) s (int (length w)) c r = firstLoop e cs s' (int (length ?w)) c'
        (r @ map (\<lambda>k. (k, int (length ?w) - int (runeCount k), int (length ?w))) (filter (\<lambda>k. k \<notin> ?kw ` set L) (nub (map ?kw ids))))"
      using o(1,4) Some ids(1) c'(1) by (simp add: new add.commute)
    also have "\<dots> = Some (r @ firsts (?kw ` set L) (matches_at D ?w @ occs_from D ?w cs))"
      unfolding firsts_append seen f Cons.IH[OF o(2) c'(2) ok] by simp
    finally show ?thesis by simp
  qed
qed simp

lemma firstMatches_correct:
  assumes "shard_holds e D" and "proper D"
  shows "firstMatches e text = Some (firsts {} (occurrences D (runes text)))"
  using firstLoop_correct[OF assms shards.rep_start[OF assms(1)], of new_collector "[]" "runes text" "[]"] collected_new
  by (simp add: firstMatches_def occurrences_def)

lemma emitAll_collect: "emitAll (\<lambda>m found. (found @ [m], True)) ms a = (a @ ms, True)"
  by (induction ms arbitrary: a) auto

text \<open>The shards of a composite and the dictionaries they hold.\<close>

definition composed :: "compositeEngine \<Rightarrow> dict list \<Rightarrow> dict \<Rightarrow> bool" where
  "composed c Ds D \<longleftrightarrow> list_all2 shard_holds (ce_shards c) Ds \<and> shards_of Ds D"

lemma shards_all_proper: "shards_of Ds D \<Longrightarrow> list_all proper Ds"
  by (induction rule: shards_of.induct) simp_all

lemma eachShard_correct:
  assumes "composed c Ds D" and "\<And>e Di. shard_holds e Di \<Longrightarrow> proper Di \<Longrightarrow> work e = Some (f Di)"
  shows "eachShard c work = Some (map f Ds)"
proof -
  have "list_all proper Ds" using assms(1) shards_all_proper unfolding composed_def by blast
  with assms(1) have "list_all2 (\<lambda>e y. work e = Some y) (ce_shards c) (map f Ds)"
    using assms(2) by (auto simp: composed_def list_all2_conv_all_nth list_all_length)
  then show ?thesis by (simp add: eachShard_def those_list_all2)
qed

lemma comp_matches_all: "composed c Ds D \<Longrightarrow> comp_matches c text False = Some (occurrences D (runes text))"
proof -
  assume c: "composed c Ds D"
  have "eachShard c (\<lambda>e. Engine_MatchString e text (\<lambda>m found. (found @ [m], True)) []) = Some (map (\<lambda>Di. occurrences Di (runes text)) Ds)"
  proof (rule eachShard_correct[OF c])
    fix e Di
    assume "shard_holds e Di"
    then have "engine_holds e Di" by (simp add: shard_holds_def)
    then show "Engine_MatchString e text (\<lambda>m found. (found @ [m], True)) [] = Some (occurrences Di (runes text))"
      by (simp add: engine_ops(5) spec_match_def emitAll_collect)
  qed
  then show ?thesis using c by (simp add: comp_matches_def composed_def merged_occurrences)
qed

lemma comp_matches_unique: "composed c Ds D \<Longrightarrow> comp_matches c text True = Some (firsts {} (occurrences D (runes text)))"
proof -
  assume c: "composed c Ds D"
  have "eachShard c (\<lambda>e. firstMatches e text) = Some (map (\<lambda>Di. firsts {} (occurrences Di (runes text))) Ds)"
    by (rule eachShard_correct[OF c]) (rule firstMatches_correct)
  then show ?thesis using c by (simp add: comp_matches_def composed_def merged_firsts)
qed

lemma scan_unique: "sorted_wrt scan_less xs \<Longrightarrow> sorted_wrt scan_less ys \<Longrightarrow> set xs = set ys \<Longrightarrow> xs = ys"
  using sort_scan[of ys xs] sort_scan[of xs xs] scan_sorted(2) by simp

lemma findIndex_union:
  assumes "proper D0" and "proper D1" and "dom D0 \<inter> dom D1 = {}"
  shows "spec_findIndex (D0 ++ D1) text = spec_findIndex D0 text ++ spec_findIndex D1 text"
proof
  fix k
  let ?f = "\<lambda>D. filter (\<lambda>m. fst m = k) (occurrences D (runes text))"
  have starts: "[s. (k', s, e) \<leftarrow> ms, k' = k] = map (fst \<circ> snd) (filter (\<lambda>m. fst m = k) ms)" for ms :: "match list"
    by (induction ms) auto
  have sorted: "sorted_wrt scan_less (?f D)" for D using sorted_occurrences by (rule sorted_wrt_filter)
  have ran: "k \<in> ran D" if "?f D \<noteq> []" for D using that occurrences_of by (fastforce simp: match_of_def filter_empty_conv)
  have "\<not> (k \<in> ran D0 \<and> k \<in> ran D1)" using match_of_shard[OF assms, of "(k, 0, 0)" "(k, 0, 0)"] by (auto simp: match_of_def)
  then have apart: "?f D0 = [] \<or> ?f D1 = []" using ran by blast
  have "set (?f (D0 ++ D1)) = set (?f D0) \<union> set (?f D1)" using occurrences_disjoint[OF assms(3)] by auto
  with apart have "set (?f (D0 ++ D1)) = set (if ?f D1 = [] then ?f D0 else ?f D1)" by (elim disjE) (simp_all del: filter_empty_conv set_filter)
  then have "?f (D0 ++ D1) = (if ?f D1 = [] then ?f D0 else ?f D1)" by (intro scan_unique) (simp_all add: sorted del: filter_empty_conv set_filter)
  moreover have "spec_findIndex D text k = (if ?f D = [] then None else Some (map (fst \<circ> snd) (?f D)))" for D
    by (simp only: spec_findIndex_def starts Let_def map_is_Nil_conv)
  ultimately show "spec_findIndex (D0 ++ D1) text k = (spec_findIndex D0 text ++ spec_findIndex D1 text) k"
    unfolding map_add_def[of "spec_findIndex D0 text"] by simp
qed

lemma fold_merge: "shards_of Ds D \<Longrightarrow> fold (\<lambda>found result. result ++ found) (map (\<lambda>Di. spec_findIndex Di text) Ds) r = r ++ spec_findIndex D text"
proof (induction arbitrary: r rule: shards_of.induct)
  case (shard D0 Ds D1)
  then show ?case by (simp add: findIndex_union[OF shard.hyps(1) shards_proper[OF shard.hyps(2)] shard.hyps(3)])
qed (simp add: spec_empty)

lemma comp_findIndex_correct: "composed c Ds D \<Longrightarrow> comp_findIndex c text = Some (spec_findIndex D text)"
proof -
  assume c: "composed c Ds D"
  have "eachShard c (\<lambda>e. Engine_FindIndex e text) = Some (map (\<lambda>Di. spec_findIndex Di text) Ds)"
    by (rule eachShard_correct[OF c]) (simp add: shard_holds_def engine_ops(3))
  then show ?thesis using c fold_merge[of Ds D "text" Map.empty] by (simp add: comp_findIndex_def composed_def)
qed

text \<open>The states of all cursors after a text.\<close>

definition at_text :: "Engine list \<Rightarrow> dict list \<Rightarrow> rune list \<Rightarrow> nat list \<Rightarrow> bool" where
  "at_text es Ds w ss \<longleftrightarrow> length ss = length es \<and> length Ds = length es \<and> (\<forall>i < length es. engine_rep (es ! i) (Ds ! i) w (ss ! i))"

lemma at_text_Cons: "at_text (e # es) (D # Ds) w (s # ss) \<longleftrightarrow> engine_rep e D w s \<and> at_text es Ds w ss"
  unfolding at_text_def by (auto simp: All_less_Suc2)

lemma at_text_start: "list_all2 shard_holds es Ds \<Longrightarrow> at_text es Ds [] (map cursor_start es)"
  using shards.rep_start by (auto simp: at_text_def list_all2_conv_all_nth)

lemma containsRow_correct:
  assumes "list_all2 shard_holds es Ds" and "at_text es Ds w ss"
  shows "\<exists>ss' b. containsRow es ss ch = Some (ss', b) \<and> (b \<longleftrightarrow> (\<exists>Di \<in> set Ds. matches_at Di (w @ [ch]) \<noteq> [])) \<and>
    (\<not> b \<longrightarrow> at_text es Ds (w @ [ch]) ss')"
  using assms
proof (induction es Ds arbitrary: ss rule: list_all2_induct)
  case Nil
  then show ?case by (auto simp: at_text_def)
next
  case (Cons e es D Ds)
  then obtain s ss1 where ss: "ss = s # ss1" by (cases ss) (auto simp: at_text_def)
  with Cons.prems have r: "engine_rep e D w s" "at_text es Ds w ss1" by (simp_all add: at_text_Cons)
  from shards.rep_cursor[OF Cons.hyps(1) r(1), of ch] obtain s' o' where
    o: "Engine_cursor e s ch = Some (s', o')" "engine_rep e D (w @ [ch]) s'" "outputCarries o' = Some (outs_at D (w @ [ch]) \<noteq> [])" by blast
  have m: "matches_at D (w @ [ch]) \<noteq> [] \<longleftrightarrow> outs_at D (w @ [ch]) \<noteq> []" by (simp add: matches_at_def)
  from Cons.IH[OF r(2)] o m show ?case unfolding ss by (cases "outs_at D (w @ [ch]) = []") (auto simp: at_text_Cons)
qed

lemma contains_scan:
  assumes "list_all2 shard_holds es Ds" and "shards_of Ds D" and "at_text es Ds w ss"
  shows "map_option fst (scanLoop (containsRow es) (\<lambda>ss i found. Some (True, False)) cs ss i False) = Some (occs_from D w cs \<noteq> [])"
  using assms(3)
proof (induction cs arbitrary: w ss i)
  case (Cons ch cs)
  have "(\<exists>Di \<in> set Ds. matches_at Di (w @ [ch]) \<noteq> []) \<longleftrightarrow> set (matches_at D (w @ [ch])) \<noteq> {}"
    unfolding shards_matches[OF assms(2)] by auto
  with containsRow_correct[OF assms(1) Cons.prems, of ch] obtain ss' b where
    b: "containsRow es ss ch = Some (ss', b)" "b \<longleftrightarrow> matches_at D (w @ [ch]) \<noteq> []" "\<not> b \<longrightarrow> at_text es Ds (w @ [ch]) ss'" by auto
  then show ?case using Cons.IH[of "w @ [ch]" ss' "i + 1"] by (cases b) auto
qed simp

lemma comp_contains_correct: "composed c Ds D \<Longrightarrow> comp_contains c text = Some (spec_contains D text)"
proof -
  assume c: "composed c Ds D"
  show ?thesis
  proof (cases "ce_shards c = []")
    case True
    with c have "D = Map.empty" by (auto simp: composed_def elim: shards_of.cases)
    then show ?thesis using True by (simp add: comp_contains_def spec_contains_def)
  next
    case False
    have "comp_contains c text = Some (text \<noteq> [] \<and> occs_from D [] (runes text) \<noteq> [])"
      using contains_scan[of "ce_shards c" Ds D "[]" "map cursor_start (ce_shards c)" "runes text" 0] c False at_text_start
      by (auto simp: comp_contains_def composed_def)
    then show ?thesis by (auto simp: spec_contains_def occurrences_def)
  qed
qed

text \<open>
  The queue.  \<open>rest i\<close> is what shard \<open>i\<close> still reports behind its head; \<open>pending\<close> is
  all that the queue and the cursors still owe.
\<close>

definition owed :: "(nat \<Rightarrow> (gostring \<times> nat) list) \<Rightarrow> int \<Rightarrow> match \<times> nat \<Rightarrow> match multiset" where
  "owed rest end mi = add_mset (fst mi) (mset (map (span_at end) (rest (snd mi))))"

definition pending :: "(nat \<Rightarrow> (gostring \<times> nat) list) \<Rightarrow> int \<Rightarrow> compositeQueue \<Rightarrow> match multiset" where
  "pending rest end q = (\<Sum>mi \<in># mset q. owed rest end mi)"

definition queue_ok :: "(nat \<Rightarrow> outputs) \<Rightarrow> (nat \<Rightarrow> (gostring \<times> nat) list) \<Rightarrow> int \<Rightarrow> compositeQueue \<Rightarrow> outputCursor list \<Rightarrow> bool" where
  "queue_ok os rest end q outs \<longleftrightarrow> sorted (map (match_key \<circ> fst) q) \<and> distinct (map snd q) \<and>
     (\<forall>(m, i) \<in> set q. i < length outs \<and> reports (os i) (outs ! i) (rest i) \<and> sorted_wrt scan_less (m # map (span_at end) (rest i)))"

lemma least_first:
  assumes "sorted (map match_key T)" and "mset T = add_mset m M" and "\<forall>x \<in># M. match_key m \<le> match_key x"
  shows "\<exists>T'. T = m # T' \<and> mset T' = M"
proof (cases T)
  case (Cons t T')
  have "m \<in> set T" using assms(2) by (metis set_mset_mset union_single_eq_member)
  then have 1: "match_key t \<le> match_key m" using assms(1) Cons by auto
  have "t \<in># add_mset m M" using assms(2) Cons by (metis list.set_intros(1) set_mset_mset)
  then have "match_key m \<le> match_key t" using assms(3) by auto
  with 1 have "t = m" using match_key_inj by (metis antisym)
  then show ?thesis using assms(2) Cons by simp
qed (use assms in simp)

lemma pending_least:
  assumes "queue_ok os rest end ((m, i) # q) outs" and "x \<in># mset (map (span_at end) (rest i)) + pending rest end q"
  shows "match_key m \<le> match_key x"
proof -
  have key: "match_key a \<le> match_key b" if "b \<in> set (a # map (span_at end) (rest j))" "sorted_wrt scan_less (a # map (span_at end) (rest j))" for a b j
    using that scan_less_key[of a b] by auto
  from assms(2) consider "x \<in> set (map (span_at end) (rest i))" | mj where "mj \<in> set q" "x \<in># owed rest end mj"
    by (auto simp: pending_def)
  then show ?thesis
  proof cases
    case 1
    then show ?thesis using key[of x m i] assms(1) by (simp add: queue_ok_def)
  next
    case (2 mj)
    obtain m' j where mj: "mj = (m', j)" by fastforce
    have "match_key m' \<le> match_key x" using key[of x m' j] 2 assms(1) by (force simp: owed_def queue_ok_def mj)
    moreover have "match_key m \<le> match_key m'" using assms(1) 2(1) by (force simp: queue_ok_def mj)
    ultimately show ?thesis by (rule order_trans[rotated])
  qed
qed

lemma queue_other:
  assumes "queue_ok os rest end ((m, i) # q) outs" and "(m', j) \<in> set q"
  shows "j \<noteq> i"
proof -
  have "i \<notin> snd ` set q" using assms(1) by (simp add: queue_ok_def)
  moreover have "j \<in> snd ` set q" using assms(2) by (metis image_eqI snd_conv)
  ultimately show ?thesis by metis
qed

lemma queue_tail:
  assumes "queue_ok os rest end ((m, i) # q) outs"
  shows "queue_ok os rest end q (outs[i := c'])"
proof -
  have "(outs[i := c']) ! j = outs ! j" if "(m', j) \<in> set q" for m' j using queue_other[OF assms that] by simp
  then show ?thesis using assms by (auto simp: queue_ok_def)
qed

lemma pending_update: "i \<notin> set (map snd q) \<Longrightarrow> pending (rest(i := ys)) end q = pending rest end q"
  unfolding pending_def by (rule arg_cong[of _ _ sum_mset]) (rule image_mset_cong, force simp: owed_def)

lemma queue_refill:
  assumes q: "queue_ok os rest end ((m, i) # q) outs" and r: "rest i = x # ys" and c: "reports (os i) c' ys"
  shows "queue_ok os (rest(i := ys)) end (heap_Fix (span_at end x, i) q) (outs[i := c'])"
proof -
  note ne = queue_other[OF q]
  have i: "i < length outs" "i \<notin> snd ` set q" using q by (auto simp: queue_ok_def)
  have "sorted (map (match_key \<circ> fst) (heap_Fix (span_at end x, i) q))"
    unfolding heap_Fix_def by (rule sorted_insort_key[THEN iffD2]) (use q in \<open>simp add: queue_ok_def\<close>)
  moreover have "distinct (map snd (heap_Fix (span_at end x, i) q))"
  proof -
    have "mset (map snd (heap_Fix (span_at end x, i) q)) = mset (i # map snd q)" by (simp add: heap_Fix_def mset_insort)
    moreover have "distinct (i # map snd q)" using q by (simp add: queue_ok_def)
    ultimately show ?thesis using mset_eq_imp_distinct_iff by blast
  qed
  moreover have "sorted_wrt scan_less (span_at end x # map (span_at end) ys)" using q r by (auto simp: queue_ok_def)
  ultimately show ?thesis using q ne i(1) c by (auto simp: queue_ok_def heap_Fix_def set_insort_key)
qed

lemma emitQueue_correct:
  assumes "queue_ok os rest end q outs" and "sorted (map match_key T)" and "mset T = pending rest end q"
  shows "emitQueue q outs end emit a = Some (emitAll emit T a)"
  using assms
proof (induction "size (pending rest end q)" arbitrary: q outs rest T a rule: less_induct)
  case less
  show ?case
  proof (cases q)
    case Nil
    then show ?thesis using less.prems(3) by (simp add: pending_def emitQueue.simps)
  next
    case (Cons h q')
    obtain m i where h: "h = (m, i)" by fastforce
    have q: "queue_ok os rest end ((m, i) # q') outs" using less.prems(1) Cons h by simp
    let ?M = "mset (map (span_at end) (rest i)) + pending rest end q'"
    have p: "pending rest end q = add_mset m ?M" by (simp add: Cons h pending_def owed_def)
    from least_first[OF less.prems(2), of m ?M] p less.prems(3) pending_least[OF q] obtain T' where T: "T = m # T'" "mset T' = ?M" by auto
    have s: "sorted (map match_key T')" using less.prems(2) T(1) by simp
    have i: "i < length outs" "reports (os i) (outs ! i) (rest i)" "i \<notin> set (map snd q')" using q by (auto simp: queue_ok_def)
    from cursor_next_reports[OF i(2), of "end"] obtain c' where c': "cursor_next end (outs ! i) =
        Some (case rest i of [] \<Rightarrow> None | x # ys \<Rightarrow> Some (span_at end x), c')" "reports (os i) c' (tl (rest i))" by blast
    have unfold: "emitQueue q outs end emit a = (case emit m a of (a', go) \<Rightarrow> if \<not> go then Some (a', False)
        else emitQueue (case rest i of [] \<Rightarrow> q' | x # ys \<Rightarrow> heap_Fix (span_at end x, i) q') (outs[i := c']) end emit a')"
      unfolding Cons h emitQueue.simps[of "(m, i) # q'"] using i(1) c'(1)
      by (cases "rest i") (simp_all add: idx_Some upd_Some cong: if_cong split: prod.splits)
    have "emitQueue (case rest i of [] \<Rightarrow> q' | x # ys \<Rightarrow> heap_Fix (span_at end x, i) q') (outs[i := c']) end emit a' = Some (emitAll emit T' a')" for a'
    proof (cases "rest i")
      case Nil
      have "size (pending rest end q') < size (pending rest end q)" unfolding p using Nil by simp
      from less.hyps[OF this queue_tail[OF q] s, of c' a'] T(2) Nil show ?thesis by simp
    next
      case (Cons x ys)
      have pend: "pending (rest(i := ys)) end (heap_Fix (span_at end x, i) q') = ?M"
      proof -
        have "pending (rest(i := ys)) end (heap_Fix (span_at end x, i) q') = owed (rest(i := ys)) end (span_at end x, i) + pending (rest(i := ys)) end q'"
          by (simp add: pending_def heap_Fix_def mset_insort)
        then show ?thesis by (simp add: pending_update[OF i(3)] Cons owed_def)
      qed
      have "size (pending (rest(i := ys)) end (heap_Fix (span_at end x, i) q')) < size (pending rest end q)" unfolding p pend by simp
      from less.hyps[OF this queue_refill[OF q Cons] s, of c' a'] c'(2) T(2) pend Cons show ?thesis by simp
    qed
    then show ?thesis unfolding unfold T(1) by (simp split: prod.splits)
  qed
qed

lemma queueHeads_correct:
  assumes "\<forall>j < length cs. reports (os (n + j)) (cs ! j) (xs (n + j))"
  shows "\<exists>cs'. queueHeads n cs end = Some (map (\<lambda>i. (span_at end (hd (xs i)), i)) (filter (\<lambda>i. xs i \<noteq> []) [n..<n + length cs]), cs') \<and>
    length cs' = length cs \<and> (\<forall>j < length cs. reports (os (n + j)) (cs' ! j) (tl (xs (n + j))))"
  using assms
proof (induction cs arbitrary: n)
  case (Cons c cs)
  have "reports (os n) c (xs n)" using Cons.prems by force
  from cursor_next_reports[OF this, of "end"] obtain c' where c': "cursor_next end c = Some (case xs n of [] \<Rightarrow> None | x # ys \<Rightarrow> Some (span_at end x), c')"
    "reports (os n) c' (tl (xs n))" by blast
  have "\<forall>j < length cs. reports (os (Suc n + j)) (cs ! j) (xs (Suc n + j))" using Cons.prems by auto
  from Cons.IH[OF this] obtain cs' where r:
    "queueHeads (Suc n) cs end = Some (map (\<lambda>i. (span_at end (hd (xs i)), i)) (filter (\<lambda>i. xs i \<noteq> []) [Suc n..<Suc n + length cs]), cs')"
    "length cs' = length cs" "\<forall>j < length cs. reports (os (Suc n + j)) (cs' ! j) (tl (xs (Suc n + j)))" by blast
  have "[n..<n + length (c # cs)] = n # [Suc n..<Suc n + length cs]" by (simp add: upt_conv_Cons del: upt_Suc)
  moreover have "\<forall>j < length (c # cs). reports (os (n + j)) ((c' # cs') ! j) (tl (xs (n + j)))"
    using r(3) c'(2) by (auto simp: less_Suc_eq_0_disj)
  ultimately show ?case using c'(1) r(1,2) by (cases "xs n") (auto simp del: upt_Suc)
qed simp

lemma pending_heads:
  "pending (\<lambda>i. tl (xs i)) end (map (\<lambda>i. (span_at end (hd (xs i)), i)) (filter (\<lambda>i. xs i \<noteq> []) I)) =
   mset (concat (map (\<lambda>i. map (span_at end) (xs i)) I))"
proof (induction I)
  case (Cons i I)
  then show ?case by (cases "xs i") (simp_all add: pending_def owed_def)
qed (simp add: pending_def)

lemma queue_start:
  assumes "\<forall>j < n. reports (os j) (outs ! j) (tl (xs j))" and "length outs = n" and "\<forall>j < n. sorted_wrt scan_less (map (span_at end) (xs j))"
  shows "queue_ok os (\<lambda>i. tl (xs i)) end (heap_Init (map (\<lambda>i. (span_at end (hd (xs i)), i)) (filter (\<lambda>i. xs i \<noteq> []) [0..<n]))) outs"
proof -
  let ?q = "map (\<lambda>i. (span_at end (hd (xs i)), i)) (filter (\<lambda>i. xs i \<noteq> []) [0..<n])"
  have "mset (map snd (heap_Init q)) = mset (map snd q)" for q by (simp add: heap_Init_def)
  moreover have "map snd ?q = filter (\<lambda>i. xs i \<noteq> []) [0..<n]" by (simp add: comp_def)
  then have "distinct (map snd ?q)" by simp
  ultimately have "distinct (map snd (heap_Init ?q))" using mset_eq_imp_distinct_iff by blast
  moreover have "sorted (map (match_key \<circ> fst) (heap_Init ?q))" unfolding heap_Init_def by (rule sorted_sort_key)
  moreover have "i < length outs \<and> reports (os i) (outs ! i) (tl (xs i)) \<and> sorted_wrt scan_less (m # map (span_at end) (tl (xs i)))"
    if "(m, i) \<in> set (heap_Init ?q)" for m i
  proof -
    have i: "i < n" "xs i \<noteq> []" "m = span_at end (hd (xs i))" using that by (auto simp: heap_Init_def)
    then obtain x ys where "xs i = x # ys" by (cases "xs i") auto
    with i assms show ?thesis by (metis list.map(2) list.sel(1,3))
  qed
  ultimately show ?thesis unfolding queue_ok_def by blast
qed

lemma emit_row:
  assumes "shards_of Ds D" and "length outs = length Ds" and "\<forall>j < length Ds. reports (os j) (outs ! j) (outs_at (Ds ! j) w)"
  shows "do { (q, outs') \<leftarrow> queueHeads 0 outs (int (length w)); emitCompositeQueue q outs' (int (length w)) emit a } =
    Some (emitAll emit (matches_at D w) a)"
proof -
  let ?xs = "\<lambda>i. outs_at (Ds ! i) w" and ?e = "int (length w)"
  let ?q = "map (\<lambda>i. (span_at ?e (hd (?xs i)), i)) (filter (\<lambda>i. ?xs i \<noteq> []) [0..<length Ds])"
  from queueHeads_correct[of outs os 0 ?xs ?e] assms(2,3) obtain outs' where q: "queueHeads 0 outs ?e = Some (?q, outs')"
    "length outs' = length Ds" "\<forall>j < length Ds. reports (os j) (outs' ! j) (tl (?xs j))" by auto
  have sorted: "\<forall>j < length Ds. sorted_wrt scan_less (map (span_at ?e) (?xs j))"
    using sorted_matches_at by (auto simp: matches_at_span)
  have "mset (matches_at D w) = mset (concat (map (\<lambda>Di. matches_at Di w) Ds))"
    by (metis merged_matches[OF assms(1)] mset_sort)
  also have "map (\<lambda>Di. matches_at Di w) Ds = map (\<lambda>i. map (span_at ?e) (?xs i)) [0..<length Ds]"
    by (rule nth_equalityI) (simp_all add: matches_at_span)
  also have "mset (concat \<dots>) = pending (\<lambda>i. tl (?xs i)) ?e (heap_Init ?q)"
    unfolding pending_heads[symmetric] by (simp add: pending_def heap_Init_def)
  finally have "mset (matches_at D w) = pending (\<lambda>i. tl (?xs i)) ?e (heap_Init ?q)" .
  from emitQueue_correct[OF queue_start[OF q(3,2) sorted] scan_sorted(1)[OF sorted_matches_at] this]
  show ?thesis using q(1) by (simp add: emitCompositeQueue_def)
qed

lemma advance_correct:
  assumes "list_all2 shard_holds es Ds" and "at_text es Ds w (map fst sts)"
  shows "\<exists>sts'. advance es sts ch = Some (sts', True) \<and> at_text es Ds (w @ [ch]) (map fst sts') \<and>
    (\<forall>j < length Ds. reports (engine_out (es ! j)) (map snd sts' ! j) (outs_at (Ds ! j) (w @ [ch])))"
proof -
  have l: "length sts = length es" "length Ds = length es" using assms(2) by (simp_all add: at_text_def)
  have "\<exists>s'. Engine_cursor (es ! j) (fst (sts ! j)) ch = Some s' \<and> engine_rep (es ! j) (Ds ! j) (w @ [ch]) (fst s') \<and>
      reports (engine_out (es ! j)) (snd s') (outs_at (Ds ! j) (w @ [ch]))" if "j < length es" for j
  proof -
    have "shard_holds (es ! j) (Ds ! j)" "engine_rep (es ! j) (Ds ! j) w (fst (sts ! j))"
      using assms that l by (auto simp: list_all2_conv_all_nth at_text_def)
    from shards.rep_cursor[OF this, of ch] show ?thesis by (metis fst_conv snd_conv)
  qed
  then obtain f where f: "\<And>j. j < length es \<Longrightarrow> Engine_cursor (es ! j) (fst (sts ! j)) ch = Some (f j) \<and>
      engine_rep (es ! j) (Ds ! j) (w @ [ch]) (fst (f j)) \<and> reports (engine_out (es ! j)) (snd (f j)) (outs_at (Ds ! j) (w @ [ch]))"
    by metis
  have "those (map (\<lambda>(e, s). Engine_cursor e (fst s) ch) (zip es sts)) = Some (map f [0..<length es])"
    by (rule those_list_all2) (use l f in \<open>auto simp: list_all2_conv_all_nth\<close>)
  then have "advance es sts ch = Some (map f [0..<length es], True)" by (simp add: advance_def)
  then show ?thesis using f l by (intro exI[of _ "map f [0..<length es]"]) (auto simp: at_text_def)
qed

lemma comp_matchStream_correct:
  assumes "composed c Ds D"
  shows "comp_matchStream c nxt emit a = spec_matchStream D nxt emit a"
proof (cases "ce_shards c = []")
  case True
  with assms have "D = Map.empty" by (auto simp: composed_def elim: shards_of.cases)
  then show ?thesis using True by (simp add: comp_matchStream_def spec_matchStream_def)
next
  case False
  have h: "list_all2 shard_holds (ce_shards c) Ds" "shards_of Ds D" using assms by (simp_all add: composed_def)
  obtain D0 Ds' where "Ds = D0 # Ds'" using h(1) False by (cases Ds) auto
  moreover from this have "dom D0 \<noteq> {}" using h(1) by (auto simp: list_all2_Cons2 shard_holds_def)
  moreover have "\<exists>D1. D = D0 ++ D1" using h(2) unfolding \<open>Ds = D0 # Ds'\<close> by (auto elim: shards_ofE)
  ultimately have ne: "dom D \<noteq> {}" by (metis dom_map_add sup_eq_bot_iff)
  let ?hit = "\<lambda>sts end a. do { (q, outs) \<leftarrow> queueHeads 0 (map snd sts) end; emitCompositeQueue q outs end emit a }"
  have "streamLoop (advance (ce_shards c)) ?hit nxt (map (\<lambda>e. (cursor_start e, no_output)) (ce_shards c)) 0 a =
      streamLoop spec_step (spec_emit D emit) nxt [] 0 a"
  proof (rule streamLoop_simulation[where R = "\<lambda>sts w i. at_text (ce_shards c) Ds w (map fst sts) \<and> i = int (length w)"])
    fix sts :: "(nat \<times> outputCursor) list" and w i ch and a :: 'a
    assume R: "at_text (ce_shards c) Ds w (map fst sts) \<and> i = int (length w)"
    then obtain sts' where s: "advance (ce_shards c) sts ch = Some (sts', True)" "at_text (ce_shards c) Ds (w @ [ch]) (map fst sts')"
      "\<forall>j < length Ds. reports (engine_out (ce_shards c ! j)) (map snd sts' ! j) (outs_at (Ds ! j) (w @ [ch]))"
      using advance_correct[OF h(1)] by blast
    have l: "length (map snd sts') = length Ds" using s(2) by (simp add: at_text_def)
    have "?hit sts' (i + 1) a = Some (emitAll emit (matches_at D (w @ [ch])) a)"
      using emit_row[OF h(2) l s(3), of emit a] R by (simp add: add.commute)
    then show "\<exists>st' h w' h'. advance (ce_shards c) sts ch = Some (st', h) \<and> spec_step w ch = Some (w', h') \<and>
        (at_text (ce_shards c) Ds w' (map fst st') \<and> i + 1 = int (length w')) \<and>
        (if h then ?hit st' (i + 1) a else Some (a, True)) = (if h' then spec_emit D emit w' (i + 1) a else Some (a, True))"
      using s(1,2) R by (auto simp: spec_step_def spec_emit_def)
  qed (use at_text_start[OF h(1)] in \<open>simp add: comp_def\<close>)
  then show ?thesis using False ne by (simp add: comp_matchStream_def spec_matchStream_def spec_stream_def)
qed

section \<open>Properties\<close>

lemma dict_of_append: "dict_of (ks @ ks') = dict_of ks ++ dict_of ks'"
  by (simp add: dict_of_def map_of_append)

lemma proper_dict_of: "proper (dict_of ks)"
  using dict_of_runes by (auto simp: proper_def)

lemma dict_apart:
  assumes "inj_on runes (set ks \<union> set ks')" and "set ks \<inter> set ks' = {}"
  shows "dom (dict_of ks) \<inter> dom (dict_of ks') = {}"
proof (rule ccontr)
  assume "\<not> ?thesis"
  then obtain v k k' where "dict_of ks v = Some k" "dict_of ks' v = Some k'" by blast
  then have "runes k = runes k'" "k \<in> set ks" "k' \<in> set ks'" using dict_of_runes by metis+
  then show False using assms unfolding inj_on_def by blast
qed

text \<open>One shard per keyword list; the empty lists are dropped.\<close>

lemma shards_of_lists:
  assumes "inj_on runes (set (concat kss))" and "distinct (concat kss)"
  shows "shards_of (map dict_of (filter (\<lambda>ks. ks \<noteq> []) kss)) (dict_of (concat kss))"
  using assms
proof (induction kss)
  case (Cons ks kss)
  have i: "shards_of (map dict_of (filter (\<lambda>ks. ks \<noteq> []) kss)) (dict_of (concat kss))"
    by (rule Cons.IH) (use Cons.prems in \<open>auto intro: inj_on_subset\<close>)
  have "dom (dict_of ks) \<inter> dom (dict_of (concat kss)) = {}"
    by (rule dict_apart) (use Cons.prems in \<open>simp_all add: Int_commute\<close>)
  from shards_of.shard[OF proper_dict_of i this] i show ?case by (simp add: dict_of_append)
qed (simp add: no_shard)

lemma keyword_set_sub:
  assumes "keyword_set (concat kss)" and "ks \<in> set kss"
  shows "keyword_set ks"
proof -
  have sub: "set ks \<subseteq> set (concat kss)" using assms(2) by auto
  have inj: "inj_on runes (set (concat kss))" using assms(1) by (simp add: keyword_set_def)
  have d: "dict_of (concat kss) v = Some k" if "dict_of ks v = Some k" for v k
    using that sub dict_of_iff[OF inj_on_subset[OF inj sub], of v k] dict_of_iff[OF inj, of v k] by blast
  then have "states (dict_of ks) \<subseteq> states (dict_of (concat kss))" unfolding states_def by blast
  from card_mono[OF finite_states_dict_of this] have "card (states (dict_of ks)) < 2 ^ 30" using assms(1) by (simp add: keyword_set_def)
  moreover have "distinct ks" using assms by (auto simp: keyword_set_def distinct_concat_iff)
  ultimately show ?thesis using assms(1) sub inj_on_subset[OF inj sub] by (auto simp: keyword_set_def)
qed

definition shard_built :: "gostring list \<Rightarrow> Engine \<Rightarrow> bool" where
  "shard_built ks e \<longleftrightarrow> (\<exists>env p. env_ok env \<and> Engine_Build env (Engine_New p) ks = Some e)"

lemma shard_builtD:
  assumes "shard_built ks e" and "keyword_set ks"
  shows "engine_holds e (dict_of ks)" "en_maxKeywordRunes e = Max (insert 0 (runeCount ` set ks))"
proof -
  from assms(1) obtain env p where b: "env_ok env" "Engine_Build env (Engine_New p) ks = Some e" unfolding shard_built_def by blast
  from engine_build_correct[OF b(1) assms(2), of p] b(2)
  show "engine_holds e (dict_of ks)" "en_maxKeywordRunes e = Max (insert 0 (runeCount ` set ks))" by simp_all
qed

lemma runeCount_0: "runeCount k = 0 \<longleftrightarrow> k = []"
  by (simp add: runeCount_def runes_eq_Nil)

lemma max_runes_0: "[] \<notin> set ks \<Longrightarrow> Max (insert 0 (runeCount ` set ks)) = 0 \<longleftrightarrow> ks = []"
proof -
  assume ks: "[] \<notin> set ks"
  have "Max (insert 0 (runeCount ` set ks)) = 0 \<longleftrightarrow> (\<forall>k \<in> set ks. runeCount k = 0)" by (subst Max_eq_iff) auto
  with ks show ?thesis by (cases ks) (auto simp: runeCount_0)
qed

lemma Max_shards:
  "fold (\<lambda>e n. max n (f e)) es n = Max (insert n (f ` set es))" for f :: "Engine \<Rightarrow> nat"
  by (rule fold_max)

lemma NewComposite_composed:
  assumes ks: "keyword_set (concat kss)" and b: "list_all2 shard_built kss es"
  shows "composed (NewComposite es n) (map dict_of (filter (\<lambda>ks. ks \<noteq> []) kss)) (dict_of (concat kss))"
proof -
  have "list_all2 shard_holds (filter (\<lambda>e. en_maxKeywordRunes e \<noteq> 0) es) (map dict_of (filter (\<lambda>ks. ks \<noteq> []) kss))"
    using b ks
  proof (induction kss es rule: list_all2_induct)
    case (Cons k ks e es)
    have k: "keyword_set k" "keyword_set (concat ks)" using keyword_set_sub[OF Cons.prems, of k] keyword_set_sub[of "[k, concat ks]" "concat ks"] Cons.prems by auto
    note B = shard_builtD[OF Cons.hyps(1) k(1)]
    have "[] \<notin> set k" using k(1) by (simp add: keyword_set_def)
    then have "en_maxKeywordRunes e = 0 \<longleftrightarrow> k = []" using B(2) max_runes_0 by simp
    moreover have "k \<noteq> [] \<Longrightarrow> shard_holds e (dict_of k)"
      using B(1) keyword_set_empty[OF k(1)] by (simp add: shard_holds_def del: dom_eq_empty_conv)
    ultimately show ?case using Cons.IH[OF k(2)] by (cases "k = []") simp_all
  qed simp
  moreover have "shards_of (map dict_of (filter (\<lambda>ks. ks \<noteq> []) kss)) (dict_of (concat kss))"
    using ks by (intro shards_of_lists) (simp_all add: keyword_set_def)
  ultimately show ?thesis by (simp add: composed_def NewComposite_def Let_def)
qed

lemma composite_max:
  assumes "keyword_set (concat kss)" and "list_all2 shard_built kss es"
  shows "ce_maxKeywordRunes (NewComposite es n) = Max (insert 0 (runeCount ` set (concat kss)))"
proof -
  let ?m = "\<lambda>ks. Max (insert 0 (runeCount ` set ks))"
  have "list_all2 (\<lambda>ks e. en_maxKeywordRunes e = ?m ks) kss es"
  proof (rule list_all2_all_nthI)
    fix i
    assume i: "i < length kss"
    show "en_maxKeywordRunes (es ! i) = ?m (kss ! i)"
      by (rule shard_builtD(2)[OF list_all2_nthD[OF assms(2) i] keyword_set_sub[OF assms(1) nth_mem[OF i]]])
  qed (use assms(2) list_all2_lengthD in blast)
  then have m: "map en_maxKeywordRunes es = map ?m kss" by (auto simp: list_all2_conv_all_nth intro: nth_equalityI)
  have "ce_maxKeywordRunes (NewComposite es n) = Max (insert 0 (en_maxKeywordRunes ` {e \<in> set es. en_maxKeywordRunes e \<noteq> 0}))"
    by (simp add: NewComposite_def Let_def Max_shards)
  also have "insert 0 (en_maxKeywordRunes ` {e \<in> set es. en_maxKeywordRunes e \<noteq> 0}) = insert 0 (set (map en_maxKeywordRunes es))" by force
  also have "\<dots> = insert 0 (?m ` set kss)" unfolding m by simp
  also have "Max \<dots> = Max (insert 0 (runeCount ` set (concat kss)))"
  proof (rule antisym)
    show "Max (insert 0 (?m ` set kss)) \<le> Max (insert 0 (runeCount ` set (concat kss)))"
      by (rule Max.boundedI) (auto intro!: Max_mono)
    show "Max (insert 0 (runeCount ` set (concat kss))) \<le> Max (insert 0 (?m ` set kss))"
    proof (rule Max.boundedI)
      fix x
      assume "x \<in> insert 0 (runeCount ` set (concat kss))"
      then consider "x = 0" | ks k where "ks \<in> set kss" "k \<in> set ks" "x = runeCount k" by auto
      then show "x \<le> Max (insert 0 (?m ` set kss))"
      proof cases
        case (2 ks k)
        then have "x \<le> ?m ks" by simp
        also have "\<dots> \<le> Max (insert 0 (?m ` set kss))" using 2(1) by (intro Max_ge) auto
        finally show ?thesis .
      qed simp
    qed simp_all
  qed
  finally show ?thesis .
qed

text \<open>
  C38.  A composite of shards answers as one engine does.  Take engines of any presets,
  built from keyword lists that together are a keyword set, and one engine built
  from all of them: the composite finds the same occurrences in the same order,
  the same keyword sets, offsets and presence answers, calls back and streams
  alike, and has the same longest keyword.
\<close>

theorem composite_correct:
  assumes "keyword_set (concat kss)" and "list_all2 shard_built kss es" and "shard_built (concat kss) e"
  shows "(let c = NewComposite es concurrency in
    comp_find c text = Engine_Find e text \<and> comp_findSet c text = Engine_FindSet e text \<and>
    comp_findIndex c text = Engine_FindIndex e text \<and> comp_contains c text = Engine_Contains e text \<and>
    comp_matchString c text emit (a :: 'a) = Engine_MatchString e text emit a \<and>
    comp_matchStream c nxt emit a = Engine_Stream e nxt emit a \<and>
    ce_maxKeywordRunes c = en_maxKeywordRunes e)"
proof -
  let ?c = "NewComposite es concurrency" and ?D = "dict_of (concat kss)"
  note c = NewComposite_composed[OF assms(1,2), of concurrency]
  note E = shard_builtD[OF assms(3,1)]
  note ops = engine_ops[OF E(1)]
  have "nub (map fst (occurrences ?D (runes text))) = map fst (firsts {} (occurrences ?D (runes text)))"
    by (simp add: firsts_keywords)
  then have set: "comp_findSet ?c text = Engine_FindSet e text"
    by (simp add: comp_findSet_def comp_matches_unique[OF c] compositeKeywords_def ops spec_findSet_def spec_find_def)
  have max: "ce_maxKeywordRunes ?c = en_maxKeywordRunes e" by (simp add: composite_max[OF assms(1,2)] E(2))
  show ?thesis
    using set max comp_findIndex_correct[OF c] comp_contains_correct[OF c] comp_matchStream_correct[OF c]
    by (simp add: Let_def comp_find_def comp_matchString_def comp_matches_all[OF c] compositeKeywords_def ops spec_find_def spec_match_def)
qed

theorem composite_correct_witness:
  "\<exists>e1 e2 e3 e. Engine_Build env_example (Engine_New PresetSpeed) [''he''] = Some e1 \<and>
     Engine_Build env_example (Engine_New PresetMemoryEfficient) [] = Some e2 \<and>
     Engine_Build env_example (Engine_New PresetBalanced) [''hers'', ''she''] = Some e3 \<and>
     Engine_Build env_example (Engine_New PresetBalanced) [''he'', ''hers'', ''she''] = Some e \<and>
     comp_find (NewComposite [e1, e2, e3] 2) ''ushers'' = Engine_Find e ''ushers''"
proof -
  let ?kss = "[[''he''], [], [''hers'', ''she'']]"
  have ks: "keyword_set (concat ?kss)" using keyword_set_example(1) by simp
  obtain e1 e2 e3 e where b: "Engine_Build env_example (Engine_New PresetSpeed) [''he''] = Some e1"
    "Engine_Build env_example (Engine_New PresetMemoryEfficient) [] = Some e2"
    "Engine_Build env_example (Engine_New PresetBalanced) [''hers'', ''she''] = Some e3"
    "Engine_Build env_example (Engine_New PresetBalanced) (concat ?kss) = Some e"
    using engine_build_correct[OF env_example_ok keyword_set_sub[OF ks]] engine_build_correct[OF env_example_ok ks]
    by (metis list.set_intros)
  then have "list_all2 shard_built ?kss [e1, e2, e3]" "shard_built (concat ?kss) e"
    using env_example_ok unfolding shard_built_def list_all2_Cons list_all2_Nil by blast+
  from composite_correct[OF ks this, of 2 "''ushers''"]
  have "comp_find (NewComposite [e1, e2, e3] 2) ''ushers'' = Engine_Find e ''ushers''" unfolding Let_def by (rule conjunct1)
  with b show ?thesis by auto
qed

end
