(* ===== verification/V3_Serve.thy ===== *)
theory V3_Serve
  imports V3_Snapshot Composite
begin

text \<open>
  The serving side of a versioned collection: \<^verbatim>\<open>refresh\<close> and the status of
  \<^verbatim>\<open>versioned.go\<close>, the reuse of buckets and shard engines of \<^verbatim>\<open>versioned_reuse.go\<close>, the
  searches of \<^verbatim>\<open>versioned_search.go\<close>, and \<^verbatim>\<open>BuildSequenceContext\<close> of
  \<^verbatim>\<open>internal/engine/build_context.go\<close>.

  A refresh runs under its mutex, so it is one function of the collection and the world.
  Times are what the clock answers, in order.  A panic of a build is \<open>None\<close>.  The engines
  of the shards are built one after the other: they share nothing, and the first error
  ends the build.  The countdown of \<^verbatim>\<open>RefreshingShards\<close> during a build is left out; it is
  reset when the build ends.
\<close>

section \<open>Building with a context\<close>

record v3build =
  vb_env :: build_env
  vb_order :: "gostring list \<Rightarrow> gostring list"

text \<open>
  The context is looked at before the build and polled during it and at its end; the
  second answer is the first error one of those polls saw.  The memory-efficient engine
  reads the sequence itself, the others a map of it.
\<close>

definition Engine_BuildSequenceContext ::
  "v3build \<Rightarrow> acorError option \<Rightarrow> acorError option \<Rightarrow> Engine \<Rightarrow> gostring list \<Rightarrow> (Engine \<times> acorError option) option" where
  "Engine_BuildSequenceContext bp before during e words =
     (if before \<noteq> None then Some (e, before)
      else if during \<noteq> None then Some (e, during)
      else
        (let next1 = Engine_New (en_preset e);
             seq = (case en_impl next1 of MemEfficientImpl m \<Rightarrow> words | _ \<Rightarrow> vb_order bp (remdups words)) in
         map_option (\<lambda>e1. (e1, None)) (Engine_Build (vb_env bp) next1 seq)))"

section \<open>The collection\<close>

datatype servedEngine = SingleEngine Engine | ShardedEngine compositeEngine

record v3Engine =
  eg_engine :: servedEngine
  eg_shards :: "Engine list"
  eg_version :: gostring
  eg_sequence :: "64 word"
  eg_manifest :: v3Manifest
  eg_buckets :: "gostring list list"

record VersionedStatus =
  st_ActiveVersion :: gostring
  st_ServingVersion :: gostring
  st_Building :: bool
  st_BuildStarted :: int
  st_BuildDuration :: int
  st_LastError :: "acorError option"
  st_LastRefreshSuccess :: int
  st_LastRefreshFailure :: int
  st_RefreshFailures :: "64 word"
  st_DownloadedBuckets :: nat
  st_ReusedBuckets :: nat
  st_CompletedBuilds :: "64 word"
  st_DeltaSearch :: bool
  st_DeltaKeywords :: nat
  st_LayoutVersion :: "16 word"
  st_ShardCount :: "16 word"
  st_DownloadedShards :: nat
  st_ReusedShards :: nat
  st_RefreshingShards :: nat
  st_FailedShard :: int

record v3coll =
  vc_current :: "v3Engine option"
  vc_status :: VersionedStatus
  vc_clock :: "int list"

definition v3now :: "v3coll \<Rightarrow> v3coll \<times> int" where
  "v3now c = (c\<lparr>vc_clock := tl (vc_clock c)\<rparr>, next_or 0 (vc_clock c))"

definition setStatus :: "(VersionedStatus \<Rightarrow> VersionedStatus) \<Rightarrow> v3coll \<Rightarrow> v3coll" where
  "setStatus f c = c\<lparr>vc_status := f (vc_status c)\<rparr>"

definition serves :: "v3coll \<Rightarrow> gostring \<Rightarrow> bool" where
  "serves c t \<longleftrightarrow> (case vc_current c of None \<Rightarrow> False | Some e \<Rightarrow> eg_version e = t)"

section \<open>Reuse\<close>

definition sameBucket :: "v3Bucket \<Rightarrow> v3Bucket \<Rightarrow> bool" where
  "sameBucket a b \<longleftrightarrow> bk_Count a = bk_Count b \<and> bk_Checksum a = bk_Checksum b \<and> bk_Chunks a = bk_Chunks b"

definition reusableShard :: "v3Engine option \<Rightarrow> v3GlobalManifest \<Rightarrow> nat \<Rightarrow> bool" where
  "reusableShard previous g shard \<longleftrightarrow>
     (case previous of
        None \<Rightarrow> False
      | Some e \<Rightarrow>
          (case mf_global (eg_manifest e) of
             None \<Rightarrow> False
           | Some g0 \<Rightarrow> gm_Layout g0 = gm_Layout g \<and> length (eg_shards e) = length (gm_Shards g) \<and> gm_Shards g0 ! shard = gm_Shards g ! shard))"

definition generationShardCounts :: "v3Engine option \<Rightarrow> v3Manifest \<Rightarrow> nat \<times> nat" where
  "generationShardCounts previous m =
     (case mf_global m of
        None \<Rightarrow> (1, 0)
      | Some g \<Rightarrow>
          (length (filter (\<lambda>s. \<not> reusableShard previous g s) [0..<length (gm_Shards g)]),
           length (filter (reusableShard previous g) [0..<length (gm_Shards g)])))"

definition fetchBucket ::
  "v3env \<Rightarrow> Snapshot \<Rightarrow> v3Bucket \<Rightarrow> nat \<Rightarrow> gostring list list \<Rightarrow> nat \<Rightarrow> nat \<Rightarrow> v3world \<Rightarrow> v3world \<times> (gostring list list \<times> nat \<times> nat) result" where
  "fetchBucket env s b i buckets downloaded reused w =
     (case bucket env b w of
        (w1, Inl err) \<Rightarrow>
          (w1, Inl (case mf_global (sn_manifest s) of
             Some g \<Rightarrow> ShardError (i mod unat (lay_ShardCount (gm_Layout g))) err
           | None \<Rightarrow> err))
      | (w1, Inr words) \<Rightarrow> (w1, Inr (buckets[i := words], if bk_Count b > 0 then downloaded + 1 else downloaded, reused)))"

definition engineBucket ::
  "v3env \<Rightarrow> v3Engine option \<Rightarrow> Snapshot \<Rightarrow> nat \<Rightarrow> gostring list list \<times> nat \<times> nat \<Rightarrow> v3world \<Rightarrow> v3world \<times> (gostring list list \<times> nat \<times> nat) result" where
  "engineBucket env previous s i st w =
     (case st of (buckets, downloaded, reused) \<Rightarrow>
        (let b = mf_Buckets (sn_manifest s) ! i in
         case v3check w of
           (w1, Some err) \<Rightarrow> (w1, Inl err)
         | (w1, None) \<Rightarrow>
             (case previous of
                Some e \<Rightarrow>
                  (if sameBucket (mf_Buckets (eg_manifest e) ! i) b then (w1, Inr (buckets[i := eg_buckets e ! i], downloaded, reused + 1))
                   else fetchBucket env s b i buckets downloaded reused w1)
              | None \<Rightarrow> fetchBucket env s b i buckets downloaded reused w1)))"

definition engineBuckets :: "v3env \<Rightarrow> v3Engine option \<Rightarrow> Snapshot \<Rightarrow> v3world \<Rightarrow> v3world \<times> (gostring list list \<times> nat \<times> nat) result" where
  "engineBuckets env previous s w = loopW (engineBucket env previous s) [0..<v3BucketCount] (replicate v3BucketCount [], 0, 0) w"

section \<open>Building a generation\<close>

definition bucketSequence :: "gostring list list \<Rightarrow> gostring list" where
  "bucketSequence buckets = concat buckets"

definition shardBucketSequence :: "gostring list list \<Rightarrow> nat \<Rightarrow> nat \<Rightarrow> gostring list" where
  "shardBucketSequence buckets shard n = concat (map (\<lambda>i. buckets ! i) (filter (\<lambda>i. shard \<le> i \<and> (i - shard) mod n = 0) [0..<v3BucketCount]))"

definition v3EngineBuild :: "v3env \<Rightarrow> v3build \<Rightarrow> gostring list \<Rightarrow> v3world \<Rightarrow> (v3world \<times> Engine result) option" where
  "v3EngineBuild env bp words w =
     (case v3check w of (w1, before) \<Rightarrow>
      (case v3check w1 of (w2, during) \<Rightarrow>
         map_option (\<lambda>(e, err). (w2, case err of Some x \<Rightarrow> Inl x | None \<Rightarrow> Inr e))
           (Engine_BuildSequenceContext bp before during (Engine_New (vo_Preset (ve_opts env))) words)))"

fun buildShards ::
  "v3env \<Rightarrow> v3build \<Rightarrow> v3Engine option \<Rightarrow> v3GlobalManifest \<Rightarrow> gostring list list \<Rightarrow> nat \<Rightarrow> nat list \<Rightarrow> Engine list \<Rightarrow> v3world \<Rightarrow>
    (v3world \<times> Engine list result) option" where
  "buildShards env bp previous g buckets n [] shards w = Some (w, Inr shards)"
| "buildShards env bp previous g buckets n (shard # rest) shards w =
     (if reusableShard previous g shard
      then buildShards env bp previous g buckets n rest (shards @ [eg_shards (the previous) ! shard]) w
      else
        (case v3EngineBuild env bp (shardBucketSequence buckets shard n) w of
           None \<Rightarrow> None
         | Some (w1, Inl err) \<Rightarrow> Some (w1, Inl (ShardError shard err))
         | Some (w1, Inr e) \<Rightarrow> buildShards env bp previous g buckets n rest (shards @ [e]) w1))"

definition buildGeneration ::
  "v3env \<Rightarrow> v3build \<Rightarrow> v3Engine option \<Rightarrow> Snapshot \<Rightarrow> gostring list list \<Rightarrow> v3world \<Rightarrow> (v3world \<times> (servedEngine \<times> Engine list) result) option" where
  "buildGeneration env bp previous s buckets w =
     (case mf_global (sn_manifest s) of
        None \<Rightarrow> map_option (\<lambda>(w1, r). (w1, bindR r (\<lambda>e. Inr (SingleEngine e, [])))) (v3EngineBuild env bp (bucketSequence buckets) w)
      | Some g \<Rightarrow>
          (let n = unat (lay_ShardCount (gm_Layout g));
               concurrency = shardConcurrency (vo_ShardConcurrency (ve_opts env)) (ve_gomaxprocs env) (int n) in
           map_option (\<lambda>(w1, r). (w1, bindR r (\<lambda>shards. Inr (ShardedEngine (NewComposite shards concurrency), shards))))
             (buildShards env bp previous g buckets n [0..<n] [] w)))"

section \<open>Refreshing\<close>

definition installEngine ::
  "Snapshot \<Rightarrow> servedEngine \<Rightarrow> Engine list \<Rightarrow> gostring list list \<Rightarrow> nat \<Rightarrow> nat \<Rightarrow> nat \<Rightarrow> nat \<Rightarrow> v3coll \<Rightarrow> v3coll" where
  "installEngine s e shards buckets downloaded reused downloadedShards reusedShards c =
     (let m = sn_manifest s; layout = v3ManifestLayout m; (c1, now) = v3now c in
      setStatus (\<lambda>st. st\<lparr>st_ServingVersion := snapshot_Version s, st_LayoutVersion := lay_Version layout, st_ShardCount := lay_ShardCount layout,
          st_LastError := None, st_LastRefreshSuccess := now, st_DownloadedBuckets := downloaded, st_ReusedBuckets := reused,
          st_DownloadedShards := downloadedShards, st_ReusedShards := reusedShards, st_FailedShard := -1,
          st_CompletedBuilds := st_CompletedBuilds st + 1, st_DeltaSearch := False, st_DeltaKeywords := 0\<rparr>)
        (c1\<lparr>vc_current := Some \<lparr>eg_engine = e, eg_shards = shards, eg_version = snapshot_Version s, eg_sequence = mf_Sequence m,
           eg_manifest = m, eg_buckets = buckets\<rparr>\<rparr>))"

text \<open>The deferred reset of the build fields.\<close>

definition endBuild :: "int \<Rightarrow> v3coll \<Rightarrow> v3coll" where
  "endBuild start c =
     (case v3now c of (c1, now) \<Rightarrow> setStatus (\<lambda>st. st\<lparr>st_Building := False, st_RefreshingShards := 0, st_BuildDuration := now - start\<rparr>) c1)"

definition refreshBuild :: "v3env \<Rightarrow> v3build \<Rightarrow> Snapshot \<Rightarrow> v3coll \<Rightarrow> v3world \<Rightarrow> (v3coll \<times> v3world \<times> acorError option) option" where
  "refreshBuild env bp s c w =
     (let (c1, start) = v3now c; previous = vc_current c1; (changed, reusedShards) = generationShardCounts previous (sn_manifest s);
          c2 = setStatus (\<lambda>st. st\<lparr>st_Building := True, st_BuildStarted := start, st_RefreshingShards := changed\<rparr>) c1 in
      case engineBuckets env previous s w of
        (w1, Inl err) \<Rightarrow> Some (endBuild start c2, w1, Some err)
      | (w1, Inr (buckets, downloaded, reused)) \<Rightarrow>
          (case buildGeneration env bp previous s buckets w1 of
             None \<Rightarrow> None
           | Some (w2, Inl err) \<Rightarrow> Some (endBuild start c2, w2, Some err)
           | Some (w2, Inr (e, shards)) \<Rightarrow>
               (case lease_check (sn_lease s) w2 of
                  (w3, Inl err) \<Rightarrow> Some (endBuild start c2, w3, Some err)
                | (w3, Inr _) \<Rightarrow>
                    (case v3check w3 of
                       (w4, Some err) \<Rightarrow> Some (endBuild start c2, w4, Some err)
                     | (w4, None) \<Rightarrow>
                         Some (endBuild start (installEngine s e shards buckets downloaded reused changed reusedShards c2), w4, None)))))"

definition refreshBody :: "v3env \<Rightarrow> v3build \<Rightarrow> v3coll \<Rightarrow> v3world \<Rightarrow> (v3coll \<times> v3world \<times> acorError option) option" where
  "refreshBody env bp c w =
     (case v3check w of
        (w1, Some err) \<Rightarrow> Some (c, w1, Some err)
      | (w1, None) \<Rightarrow>
          (case v3command (\<lambda>k. (k, k_active k)) w1 of
             (w2, Inl err) \<Rightarrow> Some (c, w2, Some err)
           | (w2, Inr None) \<Rightarrow> Some (c, w2, Some redisNil)
           | (w2, Inr (Some active)) \<Rightarrow>
               (let c1 = setStatus (\<lambda>st. st\<lparr>st_ActiveVersion := active\<rparr>) c in
                if serves c1 active then Some (c1, w2, None)
                else
                  (case v3_Snapshot env w2 of
                     (w3, Inl err) \<Rightarrow> Some (c1, w3, Some err)
                   | (w3, Inr s) \<Rightarrow>
                       (let c2 = setStatus (\<lambda>st. st\<lparr>st_ActiveVersion := snapshot_Version s\<rparr>) c1 in
                        map_option (\<lambda>(c3, w4, r). (c3, snapshot_Close s w4, r))
                          (if serves c2 (snapshot_Version s) then Some (c2, w3, None) else refreshBuild env bp s c2 w3))))))"

text \<open>\<^verbatim>\<open>errors.As\<close> on \<^verbatim>\<open>*v3ShardError\<close>: the first one along the wrapped errors.\<close>

fun failedShard :: "acorError \<Rightarrow> nat option" where
  "failedShard (ShardError shard err) = Some shard"
| "failedShard (OperationError op kw schema err) = failedShard err"
| "failedShard (RedisError op key err) = failedShard err"
| "failedShard (Wrapped msg err) = failedShard err"
| "failedShard (Joined a b) = (case failedShard a of Some s \<Rightarrow> Some s | None \<Rightarrow> failedShard b)"
| "failedShard e = None"

definition recordRefreshResult :: "acorError option \<Rightarrow> v3coll \<Rightarrow> v3world \<Rightarrow> v3coll \<times> v3world" where
  "recordRefreshResult r c w =
     (case v3check w of
        (w1, Some err) \<Rightarrow> (c, w1)
      | (w1, None) \<Rightarrow>
          (case r of
             None \<Rightarrow> (setStatus (\<lambda>st. st\<lparr>st_LastError := None, st_FailedShard := -1\<rparr>) c, w1)
           | Some err \<Rightarrow>
               (case v3now c of (c1, now) \<Rightarrow>
                 (setStatus (\<lambda>st. st\<lparr>st_LastError := Some err, st_LastRefreshFailure := now, st_RefreshFailures := st_RefreshFailures st + 1,
                    st_FailedShard := (case failedShard err of Some shard \<Rightarrow> int shard | None \<Rightarrow> -1)\<rparr>) c1, w1))))"

definition refresh :: "v3env \<Rightarrow> v3build \<Rightarrow> v3coll \<Rightarrow> v3world \<Rightarrow> (v3coll \<times> v3world \<times> acorError option) option" where
  "refresh env bp c w =
     map_option (\<lambda>(c1, w1, r). case recordRefreshResult r c1 w1 of (c2, w2) \<Rightarrow> (c2, w2, r)) (refreshBody env bp c w)"

section \<open>Searching\<close>

definition served_Find :: "servedEngine \<Rightarrow> gostring \<Rightarrow> gostring list option" where
  "served_Find e text = (case e of SingleEngine x \<Rightarrow> Engine_Find x text | ShardedEngine x \<Rightarrow> comp_find x text)"

definition served_FindIndex :: "servedEngine \<Rightarrow> gostring \<Rightarrow> (gostring \<rightharpoonup> int list) option" where
  "served_FindIndex e text = (case e of SingleEngine x \<Rightarrow> Engine_FindIndex x text | ShardedEngine x \<Rightarrow> comp_findIndex x text)"

definition served_FindSet :: "servedEngine \<Rightarrow> gostring \<Rightarrow> gostring list option" where
  "served_FindSet e text = (case e of SingleEngine x \<Rightarrow> Engine_FindSet x text | ShardedEngine x \<Rightarrow> comp_findSet x text)"

definition served_Contains :: "servedEngine \<Rightarrow> gostring \<Rightarrow> bool option" where
  "served_Contains e text = (case e of SingleEngine x \<Rightarrow> Engine_Contains x text | ShardedEngine x \<Rightarrow> comp_contains x text)"

definition v3_search :: "v3env \<Rightarrow> v3coll \<Rightarrow> v3world \<Rightarrow> v3world \<times> servedEngine result" where
  "v3_search env c w =
     (case v3check w of
        (w1, Some err) \<Rightarrow> (w1, Inl err)
      | (w1, None) \<Rightarrow>
          (w1, case vc_current c of
             None \<Rightarrow> Inl ErrVersionedClosed
           | Some e \<Rightarrow>
               Inr (if eg_shards e \<noteq> []
                 then ShardedEngine (NewComposite (eg_shards e)
                   (shardConcurrency (vo_ShardConcurrency (ve_opts env)) (ve_gomaxprocs env) (int (length (eg_shards e)))))
                 else eg_engine e)))"

text \<open>An operation of the adapter: the context is looked at, then the engine searches the normalised text.\<close>

definition searching :: "v3env \<Rightarrow> v3coll \<Rightarrow> (servedEngine \<Rightarrow> gostring \<Rightarrow> 'a option) \<Rightarrow> gostring \<Rightarrow> v3world \<Rightarrow> (v3world \<times> 'a result) option" where
  "searching env c f text w =
     (case v3_search env c w of
        (w1, Inl err) \<Rightarrow> Some (w1, Inl err)
      | (w1, Inr e) \<Rightarrow>
          (case v3check w1 of
             (w2, Some err) \<Rightarrow> Some (w2, Inl err)
           | (w2, None) \<Rightarrow> map_option (\<lambda>x. (w2, Inr x)) (f e (normalizeText (ve_unicode env) text (vo_CaseSensitive (ve_opts env))))))"

definition v3_Find :: "v3env \<Rightarrow> v3coll \<Rightarrow> gostring \<Rightarrow> v3world \<Rightarrow> (v3world \<times> gostring list result) option" where
  "v3_Find env c = searching env c served_Find"

definition v3_FindIndex :: "v3env \<Rightarrow> v3coll \<Rightarrow> gostring \<Rightarrow> v3world \<Rightarrow> (v3world \<times> (gostring \<rightharpoonup> int list) result) option" where
  "v3_FindIndex env c = searching env c served_FindIndex"

text \<open>\<^verbatim>\<open>FindSetContext\<close> and \<^verbatim>\<open>ContainsContext\<close> look at the context twice, after they have seen that the text is not empty.\<close>

definition searchingText :: "v3env \<Rightarrow> v3coll \<Rightarrow> 'a \<Rightarrow> (servedEngine \<Rightarrow> gostring \<Rightarrow> 'a option) \<Rightarrow> gostring \<Rightarrow> v3world \<Rightarrow> (v3world \<times> 'a result) option" where
  "searchingText env c none f text w =
     (case v3_search env c w of
        (w1, Inl err) \<Rightarrow> Some (w1, Inl err)
      | (w1, Inr e) \<Rightarrow>
          if text = [] then Some (w1, Inr none)
          else
            (case v3check w1 of
               (w2, Some err) \<Rightarrow> Some (w2, Inl err)
             | (w2, None) \<Rightarrow>
                 (case v3check w2 of
                    (w3, Some err) \<Rightarrow> Some (w3, Inl err)
                  | (w3, None) \<Rightarrow> map_option (\<lambda>x. (w3, Inr x)) (f e (normalizeText (ve_unicode env) text (vo_CaseSensitive (ve_opts env)))))))"

definition v3_FindSet :: "v3env \<Rightarrow> v3coll \<Rightarrow> gostring \<Rightarrow> v3world \<Rightarrow> (v3world \<times> gostring list result) option" where
  "v3_FindSet env c = searchingText env c [] served_FindSet"

definition v3_Contains :: "v3env \<Rightarrow> v3coll \<Rightarrow> gostring \<Rightarrow> v3world \<Rightarrow> (v3world \<times> bool result) option" where
  "v3_Contains env c = searchingText env c False served_Contains"

fun batchLoop :: "v3env \<Rightarrow> servedEngine \<Rightarrow> gostring list \<Rightarrow> gostring list list \<Rightarrow> v3world \<Rightarrow> (v3world \<times> gostring list list result) option" where
  "batchLoop env e [] out w = Some (w, Inr out)"
| "batchLoop env e (text # texts) out w =
     (case v3check w of
        (w1, Some err) \<Rightarrow> Some (w1, Inl err)
      | (w1, None) \<Rightarrow>
          (case served_Find e (normalizeText (ve_unicode env) text (vo_CaseSensitive (ve_opts env))) of
             None \<Rightarrow> None
           | Some found \<Rightarrow> batchLoop env e texts (out @ [found]) w1))"

definition v3_FindBatch :: "v3env \<Rightarrow> v3coll \<Rightarrow> gostring list \<Rightarrow> v3world \<Rightarrow> (v3world \<times> gostring list list result) option" where
  "v3_FindBatch env c texts w =
     (case v3_search env c w of
        (w1, Inl err) \<Rightarrow> Some (w1, Inl err)
      | (w1, Inr e) \<Rightarrow> batchLoop env e texts [] w1)"


section \<open>What is served\<close>

text \<open>An engine built from a list of words, whatever the order.\<close>

definition builtFrom :: "gostring list \<Rightarrow> Engine \<Rightarrow> bool" where
  "builtFrom words e \<longleftrightarrow> (\<exists>ks. set ks = set words \<and> (distinct words \<longrightarrow> distinct ks) \<and> shard_built ks e)"

definition build_ok :: "v3build \<Rightarrow> bool" where
  "build_ok bp \<longleftrightarrow> env_ok (vb_env bp) \<and> (\<forall>xs. set (vb_order bp xs) = set xs \<and> (distinct xs \<longrightarrow> distinct (vb_order bp xs)))"

lemma BuildSequence_built:
  assumes "build_ok bp" and "Engine_BuildSequenceContext bp before during (Engine_New p) words = Some (e, None)"
  shows "builtFrom words e"
proof -
  let ?seq = "case en_impl (Engine_New p) of MemEfficientImpl m \<Rightarrow> words | _ \<Rightarrow> vb_order bp (remdups words)"
  from assms(2) have b: "Engine_Build (vb_env bp) (Engine_New p) ?seq = Some e"
    by (auto simp: Engine_BuildSequenceContext_def Engine_New_def Let_def split: if_splits)
  have "set ?seq = set words \<and> (distinct words \<longrightarrow> distinct ?seq)"
    using assms(1) by (auto simp: build_ok_def split: matchEngine.split)
  with b assms(1) show ?thesis unfolding builtFrom_def shard_built_def build_ok_def by blast
qed

lemma v3EngineBuild_built:
  assumes "build_ok bp" and "v3EngineBuild env bp words w = Some (w', Inr e)"
  shows "builtFrom words e"
  using assms BuildSequence_built by (auto simp: v3EngineBuild_def split: prod.splits option.splits)

text \<open>
  An engine that holds a dictionary: its manifest describes it, its buckets are those of the
  dictionary, and it was built from them, as one engine or shard by shard.
\<close>

definition holdsDict :: "(gostring \<Rightarrow> gostring) \<Rightarrow> v3Engine \<Rightarrow> (nat \<Rightarrow> gostring list) \<Rightarrow> bool" where
  "holdsDict H e D \<longleftrightarrow>
     eg_version e = mf_Version (eg_manifest e) \<and> describes H (eg_manifest e) D \<and> unforged H D \<and> eg_buckets e = map D [0..<v3BucketCount] \<and>
     (case mf_global (eg_manifest e) of
        None \<Rightarrow> eg_shards e = [] \<and> (\<exists>x. eg_engine e = SingleEngine x \<and> builtFrom (bucketSequence (eg_buckets e)) x)
      | Some g \<Rightarrow> length (eg_shards e) = unat (lay_ShardCount (gm_Layout g)) \<and> eg_shards e \<noteq> [] \<and>
          (\<forall>i < length (eg_shards e). builtFrom (shardBucketSequence (eg_buckets e) i (length (eg_shards e))) (eg_shards e ! i)))"

text \<open>
  A shard manifest's identifier names one document: shards with the same identifier in two
  generations of the same layout have the same buckets.
\<close>

definition ids_agree :: "v3Manifest \<Rightarrow> v3Manifest \<Rightarrow> bool" where
  "ids_agree m m' \<longleftrightarrow>
     (\<forall>g g' s. mf_global m = Some g \<and> mf_global m' = Some g' \<and> gm_Layout g = gm_Layout g' \<and>
        s < unat (lay_ShardCount (gm_Layout g)) \<and> gm_Shards g ! s = gm_Shards g' ! s \<longrightarrow>
        (\<forall>i < v3BucketCount. s \<le> i \<and> (i - s) mod unat (lay_ShardCount (gm_Layout g)) = 0 \<longrightarrow> sameBucket (mf_Buckets m ! i) (mf_Buckets m' ! i)))"

text \<open>A loop over a range, for its successful runs.\<close>

lemma loopW_inv:
  assumes "loopW f [a..<b] s w = (w', Inr s')" "a \<le> b" "Inv a s"
    and "\<And>i s w w' s'. a \<le> i \<Longrightarrow> i < b \<Longrightarrow> Inv i s \<Longrightarrow> f i s w = (w', Inr s') \<Longrightarrow> Inv (Suc i) s'"
  shows "Inv b s'"
  using assms
proof (induction "b - a" arbitrary: a s w)
  case (Suc k)
  then have ab: "a < b" by simp
  from Suc.prems(1) ab obtain w1 s1 where r: "f a s w = (w1, Inr s1)" "loopW f [Suc a..<b] s1 w1 = (w', Inr s')"
    by (auto simp: upt_conv_Cons bindW_Inr simp del: upt_Suc)
  show ?case
    by (rule Suc.hyps(1)[OF _ r(2)]) (use Suc.hyps(2) ab Suc.prems(4)[OF _ ab Suc.prems(3) r(1)] Suc.prems(4) in \<open>auto dest: Suc_leD\<close>)
qed simp

definition reusedBucket :: "v3Engine option \<Rightarrow> v3Manifest \<Rightarrow> nat \<Rightarrow> bool" where
  "reusedBucket previous m i \<longleftrightarrow> (case previous of None \<Rightarrow> False | Some e \<Rightarrow> sameBucket (mf_Buckets (eg_manifest e) ! i) (mf_Buckets m ! i))"

definition fetched :: "v3env \<Rightarrow> v3Engine option \<Rightarrow> v3Manifest \<Rightarrow> nat \<Rightarrow> gostring list list \<Rightarrow> bool" where
  "fetched env previous m n buckets \<longleftrightarrow> length buckets = v3BucketCount \<and>
     (\<forall>i < n. if reusedBucket previous m i
        then buckets ! i = eg_buckets (the previous) ! i
        else \<exists>w w'. bucket env (mf_Buckets m ! i) w = (w', Inr (buckets ! i)))"

lemma fetchedD:
  assumes "fetched env previous m n buckets" "i < n"
  shows "reusedBucket previous m i \<Longrightarrow> buckets ! i = eg_buckets (the previous) ! i"
    and "\<not> reusedBucket previous m i \<Longrightarrow> \<exists>w w'. bucket env (mf_Buckets m ! i) w = (w', Inr (buckets ! i))"
  using assms by (simp_all add: fetched_def)

lemma engineBuckets_fetched:
  assumes "engineBuckets env previous s w = (w', Inr (buckets, downloaded, reused))"
  shows "fetched env previous (sn_manifest s) v3BucketCount buckets"
proof -
  let ?m = "sn_manifest s"
  have "(\<lambda>i st. fetched env previous ?m i (fst st)) v3BucketCount (buckets, downloaded, reused)"
  proof (rule loopW_inv[OF assms[unfolded engineBuckets_def]])
    fix i st v v' st'
    assume i: "i < v3BucketCount" and inv: "fetched env previous ?m i (fst st)" and run: "engineBucket env previous s i st v = (v', Inr st')"
    obtain bs d r where st: "st = (bs, d, r)" by (cases st) auto
    obtain v1 where c: "v3check v = (v1, None)" using run st by (auto simp: engineBucket_def Let_def split: prod.splits option.splits)
    show "fetched env previous ?m (Suc i) (fst st')"
    proof (cases "reusedBucket previous ?m i")
      case True
      then have "fst st' = bs[i := eg_buckets (the previous) ! i]" using run c st
        by (auto simp: engineBucket_def reusedBucket_def split: option.splits)
      with inv st i True show ?thesis by (auto simp: fetched_def less_Suc_eq)
    next
      case False
      with run c st have "fetchBucket env s (mf_Buckets ?m ! i) i bs d r v1 = (v', Inr st')"
        by (auto simp: engineBucket_def reusedBucket_def Let_def split: option.splits)
      then obtain words where "bucket env (mf_Buckets ?m ! i) v1 = (v', Inr words)" "fst st' = bs[i := words]"
        by (auto simp: fetchBucket_def split: prod.splits sum.splits)
      with inv st i False show ?thesis by (auto simp: fetched_def less_Suc_eq)
    qed
  qed (simp_all add: fetched_def)
  then show ?thesis by simp
qed

text \<open>A bucket with the same digest holds the same words.\<close>

lemma fetched_described:
  assumes f: "fetched env previous m v3BucketCount buckets" and prev: "\<And>e. previous = Some e \<Longrightarrow> \<exists>D0. holdsDict (ve_H env) e D0"
    and d: "describes (ve_H env) m D" and u: "unforged (ve_H env) D"
  shows "buckets = map D [0..<v3BucketCount]"
proof (rule nth_equalityI)
  show "length buckets = length (map D [0..<v3BucketCount])" using f by (simp add: fetched_def)
  fix i assume "i < length buckets"
  then have i: "i < v3BucketCount" using f by (simp add: fetched_def)
  show "buckets ! i = map D [0..<v3BucketCount] ! i"
  proof (cases "reusedBucket previous m i")
    case False
    from fetchedD(2)[OF f i this] obtain w w' where "bucket env (mf_Buckets m ! i) w = (w', Inr (buckets ! i))" by blast
    with bucket_exact[OF d u i] i show ?thesis by simp
  next
    case True
    then obtain e where e: "previous = Some e" "sameBucket (mf_Buckets (eg_manifest e) ! i) (mf_Buckets m ! i)"
      by (auto simp: reusedBucket_def split: option.splits)
    obtain D0 where D0: "describes (ve_H env) (eg_manifest e) D0" "eg_buckets e = map D0 [0..<v3BucketCount]"
      using prev[OF e(1)] by (auto simp: holdsDict_def)
    have "buckets ! i = D0 i" using fetchedD(1)[OF f i True] e(1) D0(2) i by simp
    moreover have "D0 i = D i"
    proof (cases "D0 i = []")
      case True
      with D0(1) d e(2) i show ?thesis by (auto simp: describes_def sameBucket_def)
    next
      case False
      with D0(1) d e(2) i have "D i \<noteq> []" by (auto simp: describes_def sameBucket_def)
      with False D0(1) d e(2) i have "ve_H env (jsonStrings (D0 i)) = ve_H env (jsonStrings (D i))" by (auto simp: describes_def sameBucket_def)
      then have "jsonStrings (D0 i) = jsonStrings (D i)" using u i by (simp add: unforged_def)
      with D0(1) d i show ?thesis by (intro jsonStrings_inj) (auto simp: describes_def dict_wf_def)
    qed
    ultimately show ?thesis using i by simp
  qed
qed


section \<open>Refreshing installs whole generations\<close>

lemma shardSequence_cong:
  assumes "\<And>i. i < v3BucketCount \<Longrightarrow> s \<le> i \<Longrightarrow> (i - s) mod n = 0 \<Longrightarrow> buckets ! i = buckets' ! i"
  shows "shardBucketSequence buckets s n = shardBucketSequence buckets' s n"
  unfolding shardBucketSequence_def by (rule arg_cong[of _ _ concat], rule map_cong) (use assms in auto)

lemma buildShards_correct:
  assumes bp: "build_ok bp" and run: "buildShards env bp previous g buckets n rest shards w = Some (w', Inr shards')"
    and acc: "\<forall>i < length shards. builtFrom (shardBucketSequence buckets i n) (shards ! i)" and rest: "rest = [length shards..<n]" "length shards \<le> n"
    and reuse: "\<And>s. s < n \<Longrightarrow> reusableShard previous g s \<Longrightarrow> builtFrom (shardBucketSequence buckets s n) (eg_shards (the previous) ! s)"
  shows "length shards' = n \<and> (\<forall>i < n. builtFrom (shardBucketSequence buckets i n) (shards' ! i))"
  using run acc rest
proof (induction rest arbitrary: shards w)
  case Nil
  then have "n \<le> length shards" using upt_eq_Nil_conv[of "length shards" n] by auto
  with Nil show ?case by auto
next
  case (Cons s rest)
  from Cons.prems(3) have "length shards < n" by (cases "length shards < n") simp_all
  with Cons.prems(3) have s: "s = length shards" "s < n" "rest = [Suc s..<n]" by (simp_all add: upt_conv_Cons)
  have step: "?case" if r: "buildShards env bp previous g buckets n rest (shards @ [e]) v = Some (w', Inr shards')"
    and e: "builtFrom (shardBucketSequence buckets s n) e" for e v
  proof (rule Cons.IH[OF r])
    show "\<forall>i < length (shards @ [e]). builtFrom (shardBucketSequence buckets i n) ((shards @ [e]) ! i)"
      using Cons.prems(2) e s(1) by (auto simp: nth_append less_Suc_eq)
  qed (use s in simp_all)
  show ?case
  proof (cases "reusableShard previous g s")
    case True
    with Cons.prems(1) have "buildShards env bp previous g buckets n rest (shards @ [eg_shards (the previous) ! s]) w = Some (w', Inr shards')" by simp
    then show ?thesis by (rule step[OF _ reuse[OF s(2) True]])
  next
    case False
    with Cons.prems(1) obtain w1 e where e: "v3EngineBuild env bp (shardBucketSequence buckets s n) w = Some (w1, Inr e)"
      "buildShards env bp previous g buckets n rest (shards @ [e]) w1 = Some (w', Inr shards')"
      by (auto split: option.splits sum.splits prod.splits)
    show ?thesis by (rule step[OF e(2) v3EngineBuild_built[OF bp e(1)]])
  qed
qed

lemma loadManifest_global:
  assumes "loadManifest env t w = (w', Inr m)" "mf_global m = Some g"
  shows "0 < unat (lay_ShardCount (gm_Layout g))"
proof -
  obtain w1 r where c: "v3command (v3get (Global, ''gen:'' @ t)) w = (w1, r)" by fastforce
  obtain x where x: "r = Inr (Some x)" using assms(1) c by (cases r) (auto simp: loadManifest_def bindW_def split: if_splits option.splits)
  obtain g0 where g0: "x = GlobalDoc g0"
    using assms c x by (cases x) (auto simp: loadManifest_def bindW_def legacyManifest_def bindR_Inr split: if_splits)
  with assms c x have "globalDocument (GlobalDoc g0) t = Inr g"
    by (auto simp: loadManifest_def bindW_def split: if_splits sum.splits prod.splits)
  then have "v3ValidShardCount (lay_ShardCount (gm_Layout g))" by (auto simp: globalDocument_def layout_validate_def split: if_splits)
  then have "lay_ShardCount (gm_Layout g) \<noteq> 0" by (auto simp: v3ValidShardCount_def)
  then show ?thesis by (simp add: unat_gt_0)
qed

lemma buildGeneration_holds:
  assumes bp: "build_ok bp" and f: "fetched env previous (sn_manifest s) v3BucketCount buckets"
    and prev: "\<And>e. previous = Some e \<Longrightarrow> (\<exists>D0. holdsDict (ve_H env) e D0) \<and> ids_agree (eg_manifest e) (sn_manifest s)"
    and d: "describes (ve_H env) (sn_manifest s) D" and u: "unforged (ve_H env) D"
    and pos: "\<And>g. mf_global (sn_manifest s) = Some g \<Longrightarrow> 0 < unat (lay_ShardCount (gm_Layout g))"
    and b: "buildGeneration env bp previous s buckets w = Some (w', Inr (e, shards))"
  shows "holdsDict (ve_H env) \<lparr>eg_engine = e, eg_shards = shards, eg_version = snapshot_Version s, eg_sequence = mf_Sequence (sn_manifest s),
     eg_manifest = sn_manifest s, eg_buckets = buckets\<rparr> D"
proof -
  have bs: "buckets = map D [0..<v3BucketCount]" by (rule fetched_described[OF f _ d u]) (use prev in blast)
  show ?thesis
  proof (cases "mf_global (sn_manifest s)")
    case None
    with b obtain x where x: "e = SingleEngine x" "shards = []" "v3EngineBuild env bp (bucketSequence buckets) w = Some (w', Inr x)"
      by (auto simp: buildGeneration_def bindR_Inr)
    with v3EngineBuild_built[OF bp x(3)] None d u bs show ?thesis by (auto simp: holdsDict_def snapshot_Version_def)
  next
    case (Some g)
    let ?n = "unat (lay_ShardCount (gm_Layout g))"
    from b Some have sh: "buildShards env bp previous g buckets ?n [0..<?n] [] w = Some (w', Inr shards)"
      by (auto simp: buildGeneration_def bindR_Inr Let_def)
    have "length shards = ?n \<and> (\<forall>i < ?n. builtFrom (shardBucketSequence buckets i ?n) (shards ! i))"
    proof (rule buildShards_correct[OF bp sh])
      fix i assume i: "i < ?n" and r: "reusableShard previous g i"
      then obtain p g0 where p: "previous = Some p" "mf_global (eg_manifest p) = Some g0" "gm_Layout g0 = gm_Layout g" "gm_Shards g0 ! i = gm_Shards g ! i"
        by (auto simp: reusableShard_def split: option.splits)
      from prev[OF p(1)] p Some i have same: "\<forall>j < v3BucketCount. i \<le> j \<and> (j - i) mod ?n = 0 \<longrightarrow> sameBucket (mf_Buckets (eg_manifest p) ! j) (mf_Buckets (sn_manifest s) ! j)"
        by (auto simp: ids_agree_def)
      have "shardBucketSequence buckets i ?n = shardBucketSequence (eg_buckets p) i ?n"
      proof (rule shardSequence_cong)
        fix j assume j: "j < v3BucketCount" "i \<le> j" "(j - i) mod ?n = 0"
        then have "reusedBucket previous (sn_manifest s) j" using same p(1) by (simp add: reusedBucket_def)
        from fetchedD(1)[OF f j(1) this] p(1) show "buckets ! j = eg_buckets p ! j" by simp
      qed
      then show "builtFrom (shardBucketSequence buckets i ?n) (eg_shards (the previous) ! i)"
        using prev[OF p(1)] p i by (auto simp: holdsDict_def)
    qed simp_all
    then show ?thesis using Some d u bs pos[OF Some] by (auto simp: holdsDict_def snapshot_Version_def)
  qed
qed

lemma current_status [simp]:
  "vc_current (setStatus f c) = vc_current c" "vc_current (endBuild start c) = vc_current c"
  by (simp_all add: setStatus_def endBuild_def v3now_def)

lemma refreshBuild_cases:
  assumes "refreshBuild env bp s c w = Some (c', w', r)"
  shows "r \<noteq> None \<and> vc_current c' = vc_current c \<or>
    r = None \<and> (\<exists>w1 w2 buckets d u e shards. engineBuckets env (vc_current c) s w = (w1, Inr (buckets, d, u)) \<and>
      buildGeneration env bp (vc_current c) s buckets w1 = Some (w2, Inr (e, shards)) \<and>
      vc_current c' = Some \<lparr>eg_engine = e, eg_shards = shards, eg_version = snapshot_Version s, eg_sequence = mf_Sequence (sn_manifest s),
        eg_manifest = sn_manifest s, eg_buckets = buckets\<rparr>)"
proof -
  obtain c1 start where n: "v3now c = (c1, start)" by fastforce
  have c1: "vc_current c1 = vc_current c" using n by (auto simp: v3now_def)
  obtain ch ru where g: "generationShardCounts (vc_current c) (sn_manifest s) = (ch, ru)" by fastforce
  have inst: "vc_current (installEngine s e shards buckets a b x y k) = Some \<lparr>eg_engine = e, eg_shards = shards, eg_version = snapshot_Version s,
      eg_sequence = mf_Sequence (sn_manifest s), eg_manifest = sn_manifest s, eg_buckets = buckets\<rparr>" for e shards buckets a b x y k
    by (simp add: installEngine_def Let_def v3now_def)
  show ?thesis using assms
    by (auto simp: refreshBuild_def Let_def n c1 g inst split: prod.splits sum.splits option.splits)
qed

lemma refresh_cases:
  assumes "refresh env bp c w = Some (c', w', r)"
  obtains (same) "vc_current c' = vc_current c"
    | (installed) v v1 w1 w2 w3 t s buckets d u e shards where "r = None" "loadManifest env t v = (v1, Inr (sn_manifest s))"
      "engineBuckets env (vc_current c) s w1 = (w2, Inr (buckets, d, u))"
      "buildGeneration env bp (vc_current c) s buckets w2 = Some (w3, Inr (e, shards))"
      "vc_current c' = Some \<lparr>eg_engine = e, eg_shards = shards, eg_version = snapshot_Version s, eg_sequence = mf_Sequence (sn_manifest s),
        eg_manifest = sn_manifest s, eg_buckets = buckets\<rparr>"
proof -
  from assms obtain c1 w1 where b: "refreshBody env bp c w = Some (c1, w1, r)" and c': "vc_current c' = vc_current c1"
    by (auto simp: refresh_def recordRefreshResult_def v3now_def setStatus_def split: prod.splits option.splits)
  show thesis
  proof (cases "vc_current c1 = vc_current c")
    case True
    with c' show thesis by (intro same) simp
  next
    case False
    from b False obtain v v1 s c2 c3 w2 where sn: "v3_Snapshot env v = (v1, Inr s)" and rb: "refreshBuild env bp s c2 v1 = Some (c3, w2, r)"
      and c2: "vc_current c2 = vc_current c" "vc_current c3 = vc_current c1"
      by (auto simp: refreshBody_def Let_def split: prod.splits sum.splits option.splits if_splits)
    from sn obtain x l t where a: "(case loadManifest env t x of (w2, Inl err) \<Rightarrow> (lease_close l w2, Inl err)
        | (w2, Inr m) \<Rightarrow> (w2, Inr \<lparr>sn_manifest = m, sn_lease = l\<rparr>)) = (v1, Inr s)"
      by (auto simp: v3_Snapshot_def bindW_Inr)
    then obtain y where lm: "loadManifest env t x = (y, Inr (sn_manifest s))"
      by (cases "loadManifest env t x") (auto split: sum.splits)
    from refreshBuild_cases[OF rb] False c2 obtain z1 z2 buckets d u e shards where "r = None"
      "engineBuckets env (vc_current c) s v1 = (z1, Inr (buckets, d, u))"
      "buildGeneration env bp (vc_current c) s buckets z1 = Some (z2, Inr (e, shards))"
      "vc_current c3 = Some \<lparr>eg_engine = e, eg_shards = shards, eg_version = snapshot_Version s, eg_sequence = mf_Sequence (sn_manifest s),
        eg_manifest = sn_manifest s, eg_buckets = buckets\<rparr>" by auto
    with lm c2 c' show thesis by (intro installed) auto
  qed
qed


section \<open>Searches answer for the served dictionary\<close>

definition served_spec :: "servedEngine \<Rightarrow> dict \<Rightarrow> bool" where
  "served_spec e d \<longleftrightarrow> (\<forall>text. served_Find e text = Some (spec_find d text) \<and> served_FindIndex e text = Some (spec_findIndex d text) \<and>
     served_FindSet e text = Some (spec_findSet d text) \<and> served_Contains e text = Some (spec_contains d text))"

lemma single_spec: "engine_holds e d \<Longrightarrow> served_spec (SingleEngine e) d"
  by (simp add: served_spec_def served_Find_def served_FindIndex_def served_FindSet_def served_Contains_def engine_ops)

lemma composite_spec:
  assumes "composed c Ds d"
  shows "served_spec (ShardedEngine c) d"
proof -
  have "comp_findSet c x = Some (spec_findSet d x)" for x
    by (simp add: comp_findSet_def comp_matches_unique[OF assms] compositeKeywords_def firsts_keywords spec_findSet_def spec_find_def)
  moreover have "comp_find c x = Some (spec_find d x)" for x
    by (simp add: comp_find_def comp_matches_all[OF assms] compositeKeywords_def spec_find_def)
  ultimately show ?thesis
    by (simp add: served_spec_def served_Find_def served_FindIndex_def served_FindSet_def served_Contains_def
        comp_findIndex_correct[OF assms] comp_contains_correct[OF assms])
qed

text \<open>The lists the shards were built from make up the dictionary.\<close>

lemma keyword_set_cong: "keyword_set xs \<Longrightarrow> set ys = set xs \<Longrightarrow> distinct ys \<Longrightarrow> keyword_set ys"
  unfolding keyword_set_def using dict_of_set by metis

lemma set_shardSequence:
  "set (shardBucketSequence (map D [0..<v3BucketCount]) s n) = (\<Union>i \<in> {i. i < v3BucketCount \<and> s \<le> i \<and> (i - s) mod n = 0}. set (D i))"
  by (auto simp: shardBucketSequence_def)

lemma shards_lists:
  assumes wf: "dict_wf H D" and ks: "keyword_set (listing D 0 0)" and n: "0 < n" "length es = n"
    and b: "\<forall>i < n. builtFrom (shardBucketSequence (map D [0..<v3BucketCount]) i n) (es ! i)"
  obtains kss where "list_all2 shard_built kss es" "set (concat kss) = set (listing D 0 0)" "keyword_set (concat kss)"
proof -
  let ?seq = "\<lambda>i. shardBucketSequence (map D [0..<v3BucketCount]) i n"
  have seq: "?seq i = concat (map D (filter (\<lambda>j. i \<le> j \<and> (j - i) mod n = 0) [0..<v3BucketCount]))" for i
    unfolding shardBucketSequence_def by (rule arg_cong[of _ _ concat], rule map_cong) auto
  have "\<forall>i < n. \<exists>k. set k = set (?seq i) \<and> (distinct (?seq i) \<longrightarrow> distinct k) \<and> shard_built k (es ! i)"
    using b by (simp add: builtFrom_def)
  then obtain f where f: "\<And>i. i < n \<Longrightarrow> set (f i) = set (?seq i) \<and> (distinct (?seq i) \<longrightarrow> distinct (f i)) \<and> shard_built (f i) (es ! i)" by metis
  let ?kss = "map f [0..<n]"
  have l: "list_all2 shard_built ?kss es" using f n(2) by (auto simp: list_all2_conv_all_nth)
  have mod: "i < n \<Longrightarrow> i \<le> j \<and> (j - i) mod n = 0 \<longleftrightarrow> j mod n = i" for i j
  proof -
    assume i: "i < n"
    show ?thesis
    proof
      assume h: "i \<le> j \<and> (j - i) mod n = 0"
      then obtain k where "j - i = n * k" by (metis mod_0_imp_dvd dvdE)
      with h have "j = i + n * k" by simp
      with i show "j mod n = i" by simp
    next
      assume "j mod n = i"
      then show "i \<le> j \<and> (j - i) mod n = 0" using mod_less_eq_dividend[of j n] by (auto simp: minus_mod_eq_mult_div)
    qed
  qed
  have s: "set (f i) = (\<Union>j \<in> {j. j < v3BucketCount \<and> j mod n = i}. set (D j))" if "i < n" for i
    using f[OF that] mod[OF that] by (auto simp: set_shardSequence)
  have "(\<Union>i \<in> {..<n}. set (f i)) = dictionary D"
    using n(1) by (fastforce simp: s dictionary_def)
  then have set: "set (concat ?kss) = set (listing D 0 0)" by (simp add: set_listing atLeast0LessThan)
  have dist: "distinct (f i)" if "i < n" for i
  proof -
    have "distinct (?seq i)" unfolding seq by (rule distinct_buckets[OF wf]) auto
    with f[OF that] show ?thesis by blast
  qed
  have disj: "set (f i) \<inter> set (f j) = {}" if "i < n" "j < n" "i \<noteq> j" for i j
  proof -
    have "v3BucketNumber H w mod n = i" if "w \<in> set (f i)" "i < n" for w i using that wf by (auto simp: s dict_wf_def)
    with that show ?thesis by blast
  qed
  have "distinct (concat (map f [0..<k]))" if "k \<le> n" for k
    using that
  proof (induction k)
    case (Suc k)
    then have "distinct (concat (map f [0..<k]))" "distinct (f k)" using dist by simp_all
    moreover have "x \<notin> set (f k)" if "i < k" "x \<in> set (f i)" for i x using disj[of i k] that Suc.prems by auto
    then have "set (concat (map f [0..<k])) \<inter> set (f k) = {}" by auto
    ultimately show ?case by simp
  qed simp
  then have "distinct (concat ?kss)" by simp
  with that[OF l set] keyword_set_cong[OF ks set] show thesis by blast
qed

lemma holdsDict_search:
  assumes h: "holdsDict (ve_H env) e D" and ks: "keyword_set (listing D 0 0)" and c: "vc_current c = Some e"
    and s: "v3_search env c w = (w', Inr eng)"
  shows "served_spec eng (dict_of (listing D 0 0))"
proof -
  let ?n = "shardConcurrency (vo_ShardConcurrency (ve_opts env)) (ve_gomaxprocs env) (int (length (eg_shards e)))"
  from s c have eng: "eng = (if eg_shards e \<noteq> [] then ShardedEngine (NewComposite (eg_shards e) ?n) else eg_engine e)"
    by (auto simp: v3_search_def split: prod.splits option.splits)
  have wf: "dict_wf (ve_H env) D" using h by (auto simp: holdsDict_def describes_def)
  have inj: "inj_on runes (set (listing D 0 0))" using ks by (simp add: keyword_set_def)
  show ?thesis
  proof (cases "mf_global (eg_manifest e)")
    case None
    with h obtain x where x: "eg_shards e = []" "eg_engine e = SingleEngine x" "builtFrom (bucketSequence (map D [0..<v3BucketCount])) x"
      by (auto simp: holdsDict_def)
    have seq: "bucketSequence (map D [0..<v3BucketCount]) = listing D 0 0" by (simp add: bucketSequence_def listing_def)
    from x(3) ks obtain k where k: "set k = set (listing D 0 0)" "distinct k" "shard_built k x"
      unfolding builtFrom_def seq keyword_set_def by blast
    have "engine_holds x (dict_of k)" by (rule shard_builtD(1)[OF k(3) keyword_set_cong[OF ks k(1,2)]])
    with eng x single_spec show ?thesis by (simp add: dict_of_set[OF inj k(1)])
  next
    case (Some g)
    with h have b: "eg_shards e \<noteq> []"
      "\<forall>i < length (eg_shards e). builtFrom (shardBucketSequence (map D [0..<v3BucketCount]) i (length (eg_shards e))) (eg_shards e ! i)"
      by (auto simp: holdsDict_def)
    obtain kss where kss: "list_all2 shard_built kss (eg_shards e)" "set (concat kss) = set (listing D 0 0)" "keyword_set (concat kss)"
      by (rule shards_lists[OF wf ks _ refl b(2)]) (use b(1) in simp_all)
    from composite_spec[OF NewComposite_composed[OF kss(3,1)]] eng b(1) show ?thesis by (simp add: dict_of_set[OF inj kss(2)])
  qed
qed


lemma refresh_holds:
  assumes bp: "build_ok bp" and run: "refresh env bp c w = Some (c', w', r)"
    and prev: "\<And>e. vc_current c = Some e \<Longrightarrow> \<exists>D. holdsDict (ve_H env) e D"
    and e': "vc_current c' = Some e'" "vc_current c' \<noteq> vc_current c"
    and ids: "\<And>e. vc_current c = Some e \<Longrightarrow> ids_agree (eg_manifest e) (eg_manifest e')"
    and d: "describes (ve_H env) (eg_manifest e') D" and u: "unforged (ve_H env) D"
  shows "r = None \<and> holdsDict (ve_H env) e' D"
  using run
proof (cases rule: refresh_cases)
  case same
  with e' show ?thesis by simp
next
  case (installed v v1 w1 w2 w3 t s buckets a b e shards)
  with e' have e: "e' = \<lparr>eg_engine = e, eg_shards = shards, eg_version = snapshot_Version s, eg_sequence = mf_Sequence (sn_manifest s),
        eg_manifest = sn_manifest s, eg_buckets = buckets\<rparr>" by simp
  then have m: "eg_manifest e' = sn_manifest s" by simp
  have "holdsDict (ve_H env) e' D" unfolding e
    by (rule buildGeneration_holds[OF bp engineBuckets_fetched[OF installed(3)] _ _ u _ installed(4)])
      (use prev ids d m loadManifest_global[OF installed(2)] in auto)
  with installed(1) show ?thesis by simp
qed

text \<open>Every search of the collection answers for a dictionary, or returns an error of the context or of a closed collection.\<close>

definition answers :: "v3env \<Rightarrow> v3coll \<Rightarrow> dict \<Rightarrow> bool" where
  "answers env c d \<longleftrightarrow> (\<forall>text w. let norm = normalizeText (ve_unicode env) text (vo_CaseSensitive (ve_opts env)) in
     (case v3_Find env c text w of None \<Rightarrow> False | Some (w', q) \<Rightarrow> (\<forall>found. q = Inr found \<longrightarrow> found = spec_find d norm)) \<and>
     (case v3_FindIndex env c text w of None \<Rightarrow> False | Some (w', q) \<Rightarrow> (\<forall>found. q = Inr found \<longrightarrow> found = spec_findIndex d norm)) \<and>
     (case v3_FindSet env c text w of None \<Rightarrow> False | Some (w', q) \<Rightarrow> (\<forall>found. q = Inr found \<longrightarrow> found = (if text = [] then [] else spec_findSet d norm))) \<and>
     (case v3_Contains env c text w of None \<Rightarrow> False | Some (w', q) \<Rightarrow> (\<forall>found. q = Inr found \<longrightarrow> found = (text \<noteq> [] \<and> spec_contains d norm))))"

lemma holdsDict_answers:
  assumes h: "holdsDict (ve_H env) e D" and ks: "keyword_set (listing D 0 0)" and c: "vc_current c = Some e"
  shows "answers env c (dict_of (listing D 0 0))"
  unfolding answers_def Let_def
proof (intro allI)
  fix x v
  obtain v1 q where s: "v3_search env c v = (v1, q)" by fastforce
  have spec: "served_spec eng (dict_of (listing D 0 0))" if "q = Inr eng" for eng
    using holdsDict_search[OF h ks c] s that by simp
  obtain v2 y where c2: "v3check v1 = (v2, y)" by fastforce
  obtain v3 z where c3: "v3check v2 = (v3, z)" by fastforce
  let ?d = "dict_of (listing D 0 0)" and ?norm = "normalizeText (ve_unicode env) x (vo_CaseSensitive (ve_opts env))"
  show "(case v3_Find env c x v of None \<Rightarrow> False | Some (w', q) \<Rightarrow> (\<forall>found. q = Inr found \<longrightarrow> found = spec_find ?d ?norm)) \<and>
     (case v3_FindIndex env c x v of None \<Rightarrow> False | Some (w', q) \<Rightarrow> (\<forall>found. q = Inr found \<longrightarrow> found = spec_findIndex ?d ?norm)) \<and>
     (case v3_FindSet env c x v of None \<Rightarrow> False | Some (w', q) \<Rightarrow> (\<forall>found. q = Inr found \<longrightarrow> found = (if x = [] then [] else spec_findSet ?d ?norm))) \<and>
     (case v3_Contains env c x v of None \<Rightarrow> False | Some (w', q) \<Rightarrow> (\<forall>found. q = Inr found \<longrightarrow> found = (x \<noteq> [] \<and> spec_contains ?d ?norm)))"
  proof (cases q)
    case (Inl err)
    with s show ?thesis by (simp add: v3_Find_def v3_FindIndex_def v3_FindSet_def v3_Contains_def searching_def searchingText_def)
  next
    case (Inr eng)
    with s c2 c3 spec[OF Inr] show ?thesis
      by (cases y; cases z) (simp_all add: v3_Find_def v3_FindIndex_def v3_FindSet_def v3_Contains_def searching_def searchingText_def served_spec_def)
  qed
qed

text \<open>
  C12.  A collection serves whole generations.  A refresh that fails keeps the engine that
  was served; one that installs another generation serves exactly the dictionary its
  manifest describes: in both layouts, with buckets and shard engines taken over from
  the previous generation, whatever happened to the keys while they were read, every
  search that returns answers as the specification does for that dictionary.
\<close>

theorem v3_serves_generation:
  assumes "build_ok bp" and "refresh env bp c w = Some (c', w', r)"
    and "\<forall>e. vc_current c = Some e \<longrightarrow> (\<exists>D. holdsDict (ve_H env) e D)"
  shows "(r \<noteq> None \<longrightarrow> vc_current c' = vc_current c) \<and>
    (\<forall>e' D. vc_current c' = Some e' \<and> vc_current c' \<noteq> vc_current c \<and>
       (\<forall>e. vc_current c = Some e \<longrightarrow> ids_agree (eg_manifest e) (eg_manifest e')) \<and>
       describes (ve_H env) (eg_manifest e') D \<and> unforged (ve_H env) D \<and> keyword_set (listing D 0 0) \<longrightarrow>
       holdsDict (ve_H env) e' D \<and> answers env c' (dict_of (listing D 0 0)))"
proof (intro conjI allI impI)
  show "vc_current c' = vc_current c" if "r \<noteq> None" using assms(2) that by (cases rule: refresh_cases) simp_all
  fix e' D
  assume a: "vc_current c' = Some e' \<and> vc_current c' \<noteq> vc_current c \<and>
       (\<forall>e. vc_current c = Some e \<longrightarrow> ids_agree (eg_manifest e) (eg_manifest e')) \<and>
       describes (ve_H env) (eg_manifest e') D \<and> unforged (ve_H env) D \<and> keyword_set (listing D 0 0)"
  then show h: "holdsDict (ve_H env) e' D" using refresh_holds[OF assms(1,2)] assms(3) by blast
  show "answers env c' (dict_of (listing D 0 0))" using holdsDict_answers[OF h] a by blast
qed


text \<open>The first refresh of an empty collection.\<close>

definition v3build_example :: v3build where
  "v3build_example = \<lparr>vb_env = env_example, vb_order = id\<rparr>"

definition v3coll_example :: v3coll where
  "v3coll_example = \<lparr>vc_current = None, vc_status = \<lparr>st_ActiveVersion = [], st_ServingVersion = [], st_Building = False, st_BuildStarted = 0,
     st_BuildDuration = 0, st_LastError = None, st_LastRefreshSuccess = 0, st_LastRefreshFailure = 0, st_RefreshFailures = 0,
     st_DownloadedBuckets = 0, st_ReusedBuckets = 0, st_CompletedBuilds = 0, st_DeltaSearch = False, st_DeltaKeywords = 0,
     st_LayoutVersion = 1, st_ShardCount = 1, st_DownloadedShards = 0, st_ReusedShards = 0, st_RefreshingShards = 0, st_FailedShard = -1\<rparr>,
     vc_clock = []\<rparr>"

definition v3quiet_example :: v3world where
  "v3quiet_example = v3world_example\<lparr>vw_env := []\<rparr>"

definition v3lease_example :: v3Lease where
  "v3lease_example = \<lparr>le_member = v3version_example @ ''/'' @ replicate 32 CHR ''a'', le_set = ''leases''\<rparr>"

lemma loopW_const: "(\<And>i. i \<in> set xs \<Longrightarrow> f i s w = (w, Inr s)) \<Longrightarrow> loopW f xs s w = (w, Inr s)"
  by (induction xs) (simp_all add: bindW_def)

lemma check_none: "vw_checks w = [] \<Longrightarrow> v3check w = (w, None)"
  by (simp add: v3check_def next_or_def)

lemma engineBuckets_empty:
  assumes "vw_checks w = []" and "\<And>i. i < v3BucketCount \<Longrightarrow> mf_Buckets (sn_manifest s) ! i = zeroBucket"
  shows "engineBuckets env None s w = (w, Inr (replicate v3BucketCount [], 0, 0))"
  unfolding engineBuckets_def
proof (rule loopW_const)
  fix i assume "i \<in> set [0..<v3BucketCount]"
  then have i: "i < v3BucketCount" by simp
  have "(replicate v3BucketCount [])[i := []] = replicate v3BucketCount []"
    by (metis i list_update_id nth_replicate)
  then show "engineBucket env None s i (replicate v3BucketCount [], 0, 0) w = (w, Inr (replicate v3BucketCount [], 0, 0))"
    using assms(2)[OF i] by (simp add: engineBucket_def check_none[OF assms(1)] fetchBucket_def bucket_def zeroBucket_def)
qed

lemma command_quiet:
  assumes "vw_env w = []" "vw_io w = []"
  shows "v3command f w = (w\<lparr>vw_keys := fst (f (vw_keys w)), vw_past := vw_past w @ [(vw_keys w, fst (f (vw_keys w)))]\<rparr>, Inr (snd (f (vw_keys w))))"
proof -
  have "v3others w = w" using assms by (simp add: v3others_def next_or_def)
  moreover have "w\<lparr>vw_io := tl (vw_io w)\<rparr> = w" using assms by simp
  ultimately show ?thesis using assms by (auto simp: v3command_def next_or_def Let_def split: prod.splits)
qed

lemma example_legacy:
  "legacyManifest (marshalManifest (zeroManifest\<lparr>mf_Version := v3version_example, mf_Sequence := 1\<rparr>)) v3version_example =
     Inr (zeroManifest\<lparr>mf_Version := v3version_example, mf_Sequence := 1\<rparr>)"
proof -
  let ?m = "zeroManifest\<lparr>mf_Version := v3version_example, mf_Sequence := 1\<rparr>"
  have z: "marshalBucket zeroBucket = zeroBucket" by (simp add: marshalBucket_def zeroBucket_def)
  have "countBuckets 0 0 (replicate v3BucketCount zeroBucket) = Inr (0 + sum_list (map bk_Count (replicate v3BucketCount zeroBucket)))"
    by (rule countBuckets_Inr) (simp_all add: sum_list_replicate)
  then show ?thesis by (simp add: legacyManifest_def marshalManifest_def zeroManifest_def z sum_list_replicate)
qed

definition still :: "v3world \<Rightarrow> bool" where
  "still w \<longleftrightarrow> vw_env w = [] \<and> vw_io w = [] \<and> vw_checks w = []"

lemma still_command:
  assumes "still w"
  obtains w1 where "v3command f w = (w1, Inr (snd (f (vw_keys w))))" "still w1" "vw_keys w1 = fst (f (vw_keys w))" "vw_ids w1 = vw_ids w"
  using assms command_quiet[of w f] by (simp add: still_def)

lemma still_check: "still w \<Longrightarrow> v3check w = (w, None)"
  by (simp add: still_def check_none)

lemma still_acquire:
  assumes w: "still w" "vw_ids w = x # xs" "\<not> underMaintenance Global (vw_keys w)" "k_active (vw_keys w) = Some t"
  obtains w1 where "acquire env [] False w = (w1, Inr (\<lparr>le_member = t @ ''/'' @ x, le_set = ''leases''\<rparr>, t))" "still w1"
    "vw_keys w1 = ns_update Global (ns_set ''leases'' (zadd (t @ ''/'' @ x) (k_now (vw_keys w) + vo_LeaseDuration (ve_opts env) div 10 ^ 6))) (vw_keys w)"
proof -
  let ?w = "w\<lparr>vw_ids := xs\<rparr>" and ?ttl = "vo_LeaseDuration (ve_opts env) div 10 ^ 6"
  let ?f = "v3AcquireScript ''leases'' [] x ?ttl"
  have s: "still ?w" using w(1) by (simp add: still_def)
  obtain w1 where w1: "v3command ?f ?w = (w1, Inr (snd (?f (vw_keys ?w))))" "still w1" "vw_keys w1 = fst (?f (vw_keys ?w))"
    by (rule still_command[OF s]) auto
  have f: "?f (vw_keys ?w) = (ns_update Global (ns_set ''leases'' (zadd (t @ ''/'' @ x) (k_now (vw_keys w) + ?ttl))) (vw_keys w), Inr (Leased t (t @ ''/'' @ x)))"
    using w(3,4) by (simp add: v3AcquireScript_def Let_def)
  have s1: "still (w1\<lparr>vw_shards := []\<rparr>)" using w1(2) by (simp add: still_def)
  have "acquire env [] False w = (w1\<lparr>vw_shards := []\<rparr>, Inr (\<lparr>le_member = t @ ''/'' @ x, le_set = ''leases''\<rparr>, t))"
    using w w1(1) f by (simp add: acquire_def still_check[OF w(1)] still_check[OF s1] v3ID_def next_or_def bindW_def)
  then show thesis by (rule that) (use s1 w1(3) f in simp_all)
qed

lemma still_legacy:
  assumes w: "still w" and t: "v3valid (ve_id env) t" and c: "ns_content (k_global (vw_keys w)) (''gen:'' @ t) = Some (LegacyDoc d)"
  obtains w1 where "loadManifest env t w = (w1, legacyManifest (LegacyDoc d) t)" "still w1" "vw_keys w1 = vw_keys w"
proof -
  obtain w1 where w1: "v3command (v3get (Global, ''gen:'' @ t)) w = (w1, Inr (snd (v3get (Global, ''gen:'' @ t) (vw_keys w))))" "still w1"
    "vw_keys w1 = fst (v3get (Global, ''gen:'' @ t) (vw_keys w))"
    by (rule still_command[OF w]) auto
  show thesis
  proof (rule that)
    show "loadManifest env t w = (w1, legacyManifest (LegacyDoc d) t)" using w1(1) t c by (simp add: loadManifest_def v3get_def bindW_def)
  qed (use w1 in \<open>simp_all add: v3get_def\<close>)
qed

lemma example_refresh:
  "\<exists>c' w' e'. refresh v3env_example v3build_example v3coll_example v3quiet_example = Some (c', w', None) \<and>
     vc_current c' = Some e' \<and> eg_manifest e' = zeroManifest\<lparr>mf_Version := v3version_example, mf_Sequence := 1\<rparr>"
proof -
  let ?t = v3version_example and ?m = "zeroManifest\<lparr>mf_Version := v3version_example, mf_Sequence := 1\<rparr>"
  let ?c = "setStatus (\<lambda>st. st\<lparr>st_ActiveVersion := ?t\<rparr>) v3coll_example"
  have w0: "still v3quiet_example" "vw_keys v3quiet_example = v3keys_example" "vw_ids v3quiet_example = map (replicate 32) ''abc''"
    by (simp_all add: still_def v3quiet_example_def v3world_example_def)
  obtain w1 where w1: "v3command (\<lambda>k. (k, k_active k)) v3quiet_example = (w1, Inr (Some ?t))" "still w1" "vw_keys w1 = v3keys_example" "vw_ids w1 = map (replicate 32) ''abc''"
    by (rule still_command[OF w0(1), of "\<lambda>k. (k, k_active k)"]) (use w0 in \<open>auto simp: v3keys_example_def\<close>)
  obtain w2 where w2: "acquire v3env_example [] False w1 = (w2, Inr (v3lease_example, ?t))" "still w2"
    "vw_keys w2 = ns_update Global (ns_set ''leases'' (zadd (?t @ ''/'' @ replicate 32 CHR ''a'') 30000)) v3keys_example"
    by (rule still_acquire[OF w1(2), where env = v3env_example and t = ?t and x = "replicate 32 CHR ''a''" and xs = "[replicate 32 CHR ''b'', replicate 32 CHR ''c'']"])
      (use w1 in \<open>auto simp: v3lease_example_def v3keys_example_def v3ns_empty_def underMaintenance_def v3env_example_def\<close>)
  obtain d where d: "marshalManifest ?m = LegacyDoc d" by (auto simp: marshalManifest_def zeroManifest_def)
  obtain w3 where w3: "loadManifest v3env_example ?t w2 = (w3, Inr ?m)" "still w3" "vw_keys w3 = vw_keys w2"
    by (rule still_legacy[OF w2(2), where env = v3env_example and t = ?t and d = d])
      (use w2(3) d example_legacy in \<open>auto simp: v3valid_def v3env_example_def v3version_example_def v3IDLength_def ns_set_def v3keys_example_def\<close>)
  let ?s = "\<lparr>sn_manifest = ?m, sn_lease = v3lease_example\<rparr>"
  have snap: "v3_Snapshot v3env_example w1 = (w3, Inr ?s)" by (simp add: v3_Snapshot_def bindW_def w2(1) w3(1))
  have buckets: "engineBuckets v3env_example None ?s w3 = (w3, Inr (replicate v3BucketCount [], 0, 0))"
    by (rule engineBuckets_empty) (use w3(2) in \<open>simp_all add: still_def zeroManifest_def\<close>)
  have seq: "bucketSequence (replicate v3BucketCount []) = []" by (simp add: bucketSequence_def)
  have "keyword_set []" using keyword_set_sub[of "[[''he'', ''hers'', ''she''], []]" "[]"] keyword_set_example(1) by simp
  from engine_build_correct[OF env_example_ok this, of PresetBalanced]
  obtain e where e: "Engine_Build env_example (Engine_New PresetBalanced) [] = Some e" by blast
  have "v3EngineBuild v3env_example v3build_example [] w3 = Some (w3, Inr e)"
    using e by (simp add: v3EngineBuild_def still_check[OF w3(2)] Engine_BuildSequenceContext_def Let_def v3build_example_def v3env_example_def Engine_New_def)
  then have build: "buildGeneration v3env_example v3build_example None ?s (replicate v3BucketCount []) w3 = Some (w3, Inr (SingleEngine e, []))"
    by (simp add: buildGeneration_def seq zeroManifest_def)
  have live: "zlive (k_now (vw_keys w3)) (ns_leases (k_global (vw_keys w3))) (le_member v3lease_example)"
    unfolding w3(3) w2(3) by (simp add: ns_set_def zlive_zadd v3lease_example_def v3keys_example_def)
  obtain w4 where w4: "v3command (v3CheckScript ''leases'' (le_member v3lease_example)) w3 = (w4, Inr 1)" "still w4"
    by (rule still_command[OF w3(2), of "v3CheckScript ''leases'' (le_member v3lease_example)"]) (use live in \<open>auto simp: v3CheckScript_def ns_zset_def\<close>)
  have check: "lease_check v3lease_example w3 = (w4, Inr ())"
    using w4(1) by (simp add: lease_check_def still_check[OF w3(2)] bindW_def v3lease_example_def)
  let ?c2 = "setStatus (\<lambda>st. st\<lparr>st_ActiveVersion := ?t\<rparr>) ?c"
  obtain c3 e' where r: "refreshBuild v3env_example v3build_example ?s ?c2 w3 = Some (c3, w4, None)" "vc_current c3 = Some e'" "eg_manifest e' = ?m"
    using buckets build check still_check[OF w4(2)]
    by (simp add: refreshBuild_def Let_def v3now_def v3coll_example_def generationShardCounts_def zeroManifest_def setStatus_def installEngine_def endBuild_def)
  have "serves c x = False" if "vc_current c = None" for c x using that by (simp add: serves_def)
  moreover have "vc_current ?c = None" "vc_current ?c2 = None" by (simp_all add: v3coll_example_def)
  ultimately have body: "refreshBody v3env_example v3build_example v3coll_example v3quiet_example = Some (c3, snapshot_Close ?s w4, None)"
    using r(1) by (simp add: refreshBody_def still_check[OF w0(1)] w1(1) snap snapshot_Version_def zeroManifest_def)
  obtain c4 w5 where rec: "recordRefreshResult None c3 (snapshot_Close ?s w4) = (c4, w5)" by fastforce
  then have "vc_current c4 = vc_current c3" by (auto simp: recordRefreshResult_def split: prod.splits option.splits)
  with r(2,3) body rec show ?thesis by (auto simp: refresh_def)
qed


lemma v3_serves_generation_witness:
  "\<exists>c' w' e'. refresh v3env_example v3build_example v3coll_example v3quiet_example = Some (c', w', None) \<and>
     vc_current c' = Some e' \<and> holdsDict (ve_H v3env_example) e' (\<lambda>_. []) \<and> answers v3env_example c' (dict_of [])"
proof -
  obtain c' w' e' where r: "refresh v3env_example v3build_example v3coll_example v3quiet_example = Some (c', w', None)"
    "vc_current c' = Some e'" "eg_manifest e' = zeroManifest\<lparr>mf_Version := v3version_example, mf_Sequence := 1\<rparr>"
    using example_refresh by blast
  have b: "build_ok v3build_example" using env_example_ok by (simp add: build_ok_def v3build_example_def)
  have c: "vc_current v3coll_example = None" by (simp add: v3coll_example_def)
  with v3_serves_generation[OF b r(1)] r(2)
  have S: "describes (ve_H v3env_example) (eg_manifest e') D \<and> unforged (ve_H v3env_example) D \<and> keyword_set (listing D 0 0) \<Longrightarrow>
      holdsDict (ve_H v3env_example) e' D \<and> answers v3env_example c' (dict_of (listing D 0 0))" for D
    by fastforce
  have "describes (ve_H v3env_example) (eg_manifest e') (\<lambda>_. [])" by (simp add: describes_def r(3) zeroManifest_def dict_wf_def)
  moreover have "unforged (ve_H v3env_example) (\<lambda>_. [])" by (simp add: unforged_def v3env_example_def)
  moreover have "keyword_set []" using keyword_set_sub[of "[[''he'', ''hers'', ''she''], []]" "[]"] keyword_set_example(1) by simp
  moreover have l: "listing (\<lambda>_. []) 0 0 = []" by (simp add: listing_def)
  ultimately have "holdsDict (ve_H v3env_example) e' (\<lambda>_. []) \<and> answers v3env_example c' (dict_of [])"
    using S[of "\<lambda>_. []"] unfolding l by blast
  with r(1,2) show ?thesis by blast
qed

end
