(* ===== verification/V3_Open.thy ===== *)
theory V3_Open
  imports V3_Serve
begin

text \<open>
  Opening, waiting on and closing a versioned collection: \<^verbatim>\<open>initialize\<close>, \<^verbatim>\<open>OpenVersioned\<close>,
  \<^verbatim>\<open>WaitForVersion\<close> and \<^verbatim>\<open>Close\<close> of \<^verbatim>\<open>versioned.go\<close>, \<^verbatim>\<open>initialManifest\<close> of
  \<^verbatim>\<open>versioned_shards.go\<close>, and the operations of \<^verbatim>\<open>versioned_write.go\<close> that look up a receipt or copy a
  collection of the second schema.
\<close>

section \<open>Initialising\<close>

definition v3InitShardScript :: "nat \<Rightarrow> gostring \<Rightarrow> v3data \<Rightarrow> v3keys \<Rightarrow> v3keys \<times> int" where
  "v3InitShardScript shard newID data k =
     (if underMaintenance (Shard shard) k then (k, 0)
      else
        (ns_update (Shard shard) (\<lambda>s. s\<lparr>ns_registry := (ns_registry s)(''manifests'' := zaddNX newID (k_now k div 1000) (ns_registry s ''manifests'')),
           ns_content := (if ns_content s (''manifest:'' @ newID) = None then (ns_content s)(''manifest:'' @ newID \<mapsto> data) else ns_content s)\<rparr>) k, 1))"

definition initShard :: "nat \<Rightarrow> gostring list \<Rightarrow> v3world \<Rightarrow> v3world \<times> gostring list result" where
  "initShard shard shards w =
     (let (w1, newID) = v3ID w;
          data = marshalShard \<lparr>sm_ID = newID, sm_Shard = shard, sm_Buckets = Some [], sm_Count = 0\<rparr> in
      bindW (v3command (v3InitShardScript shard newID data) w1) (\<lambda>w2 ok.
        (w2, if ok \<noteq> 1 then Inl ErrMaintenance else Inr (shards[shard := newID]))))"

definition initialManifest :: "v3env \<Rightarrow> gostring \<Rightarrow> v3world \<Rightarrow> v3world \<times> (v3data \<times> v3Layout) result" where
  "initialManifest env token w =
     bindW (v3command (\<lambda>k. (k, k_meta k \<noteq> None)) w) (\<lambda>w1 found.
       if found \<or> vo_ShardCount (ve_opts env) = 1
       then (w1, Inr (marshalManifest (zeroManifest\<lparr>mf_Version := token, mf_Sequence := 1\<rparr>),
          \<lparr>lay_Version = v3LegacyLayoutVersion, lay_ShardCount = 1\<rparr>))
       else
         (let n = vo_ShardCount (ve_opts env); layout = \<lparr>lay_Version = v3ShardedLayoutVersion, lay_ShardCount = n\<rparr> in
          bindW (loopW initShard [0..<unat n] (replicate (unat n) []) w1) (\<lambda>w2 shards.
            (w2, Inr (GlobalDoc \<lparr>gm_Version = token, gm_Sequence = 1, gm_Layout = layout, gm_Shards = shards, gm_Count = 0\<rparr>, layout)))))"

text \<open>\<^verbatim>\<open>fmt.Sprint\<close> of a flag.\<close>

definition sprintBool :: "bool \<Rightarrow> gostring" where "sprintBool b = (if b then ''true'' else ''false'')"

definition v3InitScript :: "gostring \<Rightarrow> bool \<Rightarrow> gostring \<Rightarrow> v3data \<Rightarrow> v3Layout \<Rightarrow> v3keys \<Rightarrow> v3keys \<times> v3meta" where
  "v3InitScript newID sensitive token data layout k =
     (case k_meta k of
        Some me \<Rightarrow> (k, me)
      | None \<Rightarrow>
          (let me = \<lparr>me_id = newID, me_case = sprintBool sensitive, me_layout = Some (itoa (int (unat (lay_Version layout)))),
                 me_shards = Some (itoa (int (unat (lay_ShardCount layout))))\<rparr> in
           (ns_update Global (\<lambda>s. s\<lparr>ns_content := (ns_content s)(''gen:'' @ token \<mapsto> data),
                ns_registry := (ns_registry s)(''generations'' := zadd token (k_now k div 1000) (ns_registry s ''generations''))\<rparr>)
              (k\<lparr>k_meta := Some me, k_active := Some token, k_committed := (k_committed k)(token \<mapsto> 1)\<rparr>), me)))"

definition initialize :: "v3env \<Rightarrow> v3world \<Rightarrow> v3world \<times> (gostring \<times> v3Layout) result" where
  "initialize env w =
     (let (w1, newID) = v3ID w; (w2, x) = v3ID w1; token = newID @ ''.'' @ x in
      bindW (initialManifest env token w2) (\<lambda>w3 (data, layout).
      bindW (v3command (v3InitScript newID (vo_CaseSensitive (ve_opts env)) token data layout) w3) (\<lambda>w4 me.
        (w4, if me_case me \<noteq> sprintBool (vo_CaseSensitive (ve_opts env)) then Inl ErrCasePolicy
             else bindR (v3StoredLayout (me_layout me) (me_shards me)) (\<lambda>l. Inr (me_id me, l))))))"

section \<open>Opening\<close>

definition v3_Close :: "v3Lease list \<Rightarrow> v3coll \<Rightarrow> v3world \<Rightarrow> v3coll \<times> v3world" where
  "v3_Close leases c w = (c\<lparr>vc_current := None\<rparr>, fold lease_close leases w)"

definition newStatus :: "v3Layout \<Rightarrow> VersionedStatus" where
  "newStatus layout =
     \<lparr>st_ActiveVersion = [], st_ServingVersion = [], st_Building = False, st_BuildStarted = 0, st_BuildDuration = 0, st_LastError = None,
      st_LastRefreshSuccess = 0, st_LastRefreshFailure = 0, st_RefreshFailures = 0, st_DownloadedBuckets = 0, st_ReusedBuckets = 0,
      st_CompletedBuilds = 0, st_DeltaSearch = False, st_DeltaKeywords = 0, st_LayoutVersion = lay_Version layout,
      st_ShardCount = lay_ShardCount layout, st_DownloadedShards = 0, st_ReusedShards = 0, st_RefreshingShards = 0, st_FailedShard = -1\<rparr>"

text \<open>The client's own error is an argument; \<^verbatim>\<open>None\<close> is a panic of the first build.\<close>

definition OpenVersioned ::
  "v3env \<Rightarrow> VersionedOptions option \<Rightarrow> acorError option \<Rightarrow> v3build \<Rightarrow> int list \<Rightarrow> v3world \<Rightarrow> (v3world \<times> (v3env \<times> v3coll) result) option" where
  "OpenVersioned env0 opts clientErr bp clock w =
     (case versionedOptions opts of
        Inl err \<Rightarrow> Some (w, Inl err)
      | Inr opt \<Rightarrow>
          (case clientErr of
             Some err \<Rightarrow> Some (w, Inl err)
           | None \<Rightarrow>
               (let env1 = env0\<lparr>ve_opts := opt\<rparr> in
                case initialize env1 w of
                  (w1, Inl err) \<Rightarrow> Some (w1, Inl err)
                | (w1, Inr (cid, layout)) \<Rightarrow>
                    (let env = env1\<lparr>ve_id := cid\<rparr>; c = \<lparr>vc_current = None, vc_status = newStatus layout, vc_clock = clock\<rparr> in
                     map_option (\<lambda>(c1, w2, r). case r of Some err \<Rightarrow> (snd (v3_Close [] c1 w2), Inl err) | None \<Rightarrow> (w2, Inr (env, c1)))
                       (refresh env bp c w1)))))"

definition v3_Status :: "v3Lease list \<Rightarrow> v3coll \<Rightarrow> VersionedStatus \<times> nat" where
  "v3_Status leases c = (vc_status c, length leases)"

section \<open>Waiting for a version\<close>

datatype waitTurn = WaitTick | WaitCtx acorError | WaitClosed

text \<open>
  Each turn sees the engine served then and is woken up in one of three ways; the list runs
  out while the operation is still waiting (\<open>None\<close>).
\<close>

fun waitLoop :: "64 word \<Rightarrow> (v3Engine option \<times> waitTurn) list \<Rightarrow> v3world \<Rightarrow> v3world \<times> acorError option option" where
  "waitLoop sequence [] w = (w, None)"
| "waitLoop sequence ((served, turn) # turns) w =
     (case v3check w of
        (w1, Some err) \<Rightarrow> (w1, Some (Some err))
      | (w1, None) \<Rightarrow>
          if (case served of Some e \<Rightarrow> eg_sequence e \<ge> sequence | None \<Rightarrow> False) then (w1, Some None)
          else
            (case turn of
               WaitCtx err \<Rightarrow> (w1, Some (Some err))
             | WaitClosed \<Rightarrow> (w1, Some (Some ErrVersionedClosed))
             | WaitTick \<Rightarrow> waitLoop sequence turns w1))"

definition WaitForVersion :: "v3env \<Rightarrow> gostring \<Rightarrow> (v3Engine option \<times> waitTurn) list \<Rightarrow> v3world \<Rightarrow> v3world \<times> acorError option option" where
  "WaitForVersion env version turns w =
     (if \<not> v3valid (ve_id env) version then (w, Some (Some ErrInvalidVersion))
      else
        (case v3command (\<lambda>k. (k, k_committed k version)) w of
           (w1, Inl err) \<Rightarrow> (w1, Some (Some err))
         | (w1, Inr None) \<Rightarrow> (w1, Some (Some redisNil))
         | (w1, Inr (Some sequence)) \<Rightarrow> waitLoop sequence turns w1))"

section \<open>Receipts and copies\<close>

definition ResolveOperation :: "v3env \<Rightarrow> gostring \<Rightarrow> v3world \<Rightarrow> v3world \<times> WriteResult result" where
  "ResolveOperation env x w =
     (case v3check w of
        (w1, Some err) \<Rightarrow> (w1, Inl err)
      | (w1, None) \<Rightarrow>
          if length x \<noteq> v3IDLength then (w1, Inl (ErrText ''acor: invalid operation ID''))
          else
            bindW (v3command (\<lambda>k. (k, k_ops k x)) w1) (\<lambda>w2 raw.
              (w2, case raw of
                 None \<Rightarrow> Inl redisNil
               | Some None \<Rightarrow> Inl ErrVersionedCorrupt
               | Some (Some r) \<Rightarrow> if v3valid (ve_id env) (wr_Version r) then Inr r else Inl ErrVersionedCorrupt)))"

record V2CopyResult =
  cp_SourceVersion :: gostring
  cp_Count :: nat
  cp_Checksum :: gostring
  cp_Write :: "WriteResult option"

text \<open>
  The source's version and keywords are what \<^verbatim>\<open>HMGET\<close> answers.  The result comes with the
  error of the write, if there was one.
\<close>

definition CopyV2 ::
  "v3env \<Rightarrow> gostring \<Rightarrow> gostring \<Rightarrow> bool option \<Rightarrow> (gostring option \<times> gostring option) result \<Rightarrow> v3world \<Rightarrow>
    v3world \<times> V2CopyResult option \<times> acorError option" where
  "CopyV2 env source expected rejectEmpty raw w =
     (if source = vo_Name (ve_opts env) \<or> trimSpace source = []
      then (w, None, Some (ErrText ''acor: copy requires a distinct nonempty V2 name''))
      else
        (case raw of
           Inl err \<Rightarrow> (w, None, Some err)
         | Inr (Some version, Some keywords) \<Rightarrow>
             (case jsonDecode keywords of
                None \<Rightarrow> (w, None, Some ErrVersionedCorrupt)
              | Some words \<Rightarrow>
                  (case v3Normalize (ve_unicode env) words (vo_CaseSensitive (ve_opts env)) of
                     Inl err \<Rightarrow> (w, None, Some err)
                   | Inr normalized \<Rightarrow>
                       if rejectEmpty = Some True \<and> normalized = [] then (w, None, Some (ErrText ''acor: empty V2 source rejected''))
                       else
                         (let r = \<lparr>cp_SourceVersion = version, cp_Count = length normalized, cp_Checksum = ve_H env (jsonStrings normalized), cp_Write = None\<rparr> in
                          (case v3_Replace env expected normalized w of
                             (w1, Inr done) \<Rightarrow> (w1, Some (r\<lparr>cp_Write := Some done\<rparr>), None)
                           | (w1, Inl (err, write)) \<Rightarrow> (w1, Some (r\<lparr>cp_Write := write\<rparr>), Some err)))))
         | Inr _ \<Rightarrow> (w, None, Some redisNil)))"


section \<open>An empty generation\<close>

definition emptyShard :: "nat \<Rightarrow> gostring \<Rightarrow> v3data" where
  "emptyShard shard x = marshalShard \<lparr>sm_ID = x, sm_Shard = shard, sm_Buckets = Some [], sm_Count = 0\<rparr>"

lemma zeroManifest_buckets [simp]: "mf_Buckets zeroManifest = replicate v3BucketCount zeroBucket"
  by (simp add: zeroManifest_def)

lemma bucketIn_zero [simp]: "bucketIn H C zeroBucket = Some []"
  by (simp add: bucketIn_def zeroBucket_def)

lemma empty_current:
  assumes "manifestIn (ve_id env) C t = Some m" "mf_Buckets m = replicate v3BucketCount zeroBucket" "mf_Sequence m = 1"
  shows "current env C t (\<lambda>_. [])"
  using assms by (simp add: current_def holds_def dict_wf_def)

lemma empty_legacy:
  assumes "C Global (''gen:'' @ t) = Some (marshalManifest (zeroManifest\<lparr>mf_Version := t, mf_Sequence := 1\<rparr>))" "v3valid (ve_id env) t"
  shows "current env C t (\<lambda>_. [])"
proof -
  let ?m = "zeroManifest\<lparr>mf_Version := t, mf_Sequence := 1\<rparr>"
  have z: "marshalBucket zeroBucket = zeroBucket" by (simp add: marshalBucket_def zeroBucket_def)
  have "manifestIn (ve_id env) C t = Some (?m\<lparr>mf_Buckets := map marshalBucket (mf_Buckets ?m), mf_global := None\<rparr>)"
    by (rule manifestIn_legacy[where m = ?m]) (use assms in \<open>simp_all add: zeroManifest_def sum_list_replicate zeroBucket_def\<close>)
  then show ?thesis by (rule empty_current) (simp_all add: z)
qed

lemma empty_shardsIn:
  assumes "\<forall>j \<in> set js. C (Shard j) (''manifest:'' @ (gm_Shards g ! j)) = Some (emptyShard j (gm_Shards g ! j))" "gm_Count g = 0"
  shows "shardsIn C g js (buckets, 0) = Some (buckets, 0)"
  using assms
proof (induction js)
  case (Cons j js)
  have "v3DecodeShard (emptyShard j (gm_Shards g ! j)) g j buckets = Inr (buckets, 0)"
    by (simp add: emptyShard_def marshalShard_def v3DecodeShard_def)
  with Cons show ?case by simp
qed simp

lemma empty_sharded:
  assumes c: "C Global (''gen:'' @ t) = Some (GlobalDoc \<lparr>gm_Version = t, gm_Sequence = 1,
        gm_Layout = \<lparr>lay_Version = v3ShardedLayoutVersion, lay_ShardCount = n\<rparr>, gm_Shards = shards, gm_Count = 0\<rparr>)"
    and t: "v3valid (ve_id env) t" and n: "v3ValidShardCount n" "n \<noteq> 1" and len: "length shards = unat n"
    and sh: "\<forall>j < unat n. C (Shard j) (''manifest:'' @ (shards ! j)) = Some (emptyShard j (shards ! j))"
  shows "current env C t (\<lambda>_. [])"
proof -
  let ?g = "\<lparr>gm_Version = t, gm_Sequence = 1, gm_Layout = \<lparr>lay_Version = v3ShardedLayoutVersion, lay_ShardCount = n\<rparr>, gm_Shards = shards, gm_Count = 0\<rparr>"
  have "n \<noteq> 0" using n(1) by (auto simp: v3ValidShardCount_def)
  then have "1 < n" using n(2) by (metis word_coorder.not_eq_extremum word_less_1 not_less_iff_gr_or_eq)
  then have "layout_validate \<lparr>lay_Version = v3ShardedLayoutVersion, lay_ShardCount = n\<rparr> = Inr ()"
    using n by (simp add: layout_validate_def)
  then have gd: "globalDocument (GlobalDoc ?g) t = Inr ?g" by (simp add: globalDocument_def len)
  have "shardsIn C ?g [0..<length shards] (mf_Buckets zeroManifest, 0) = Some (mf_Buckets zeroManifest, 0)"
    by (rule empty_shardsIn) (use sh len in simp_all)
  then have "manifestIn (ve_id env) C t = Some \<lparr>mf_Version = t, mf_Sequence = 1, mf_Buckets = mf_Buckets zeroManifest, mf_Count = 0, mf_global = Some ?g\<rparr>"
    using c t gd by (simp add: manifestIn_def)
  then show ?thesis by (rule empty_current) simp_all
qed

section \<open>Opening leaves a readable collection\<close>

text \<open>Either there is no collection, or its active generation is readable.\<close>

definition opensOk :: "v3env \<Rightarrow> v3keys \<Rightarrow> bool" where
  "opensOk env k \<longleftrightarrow> (case k_meta k of None \<Rightarrow> True | Some me \<Rightarrow> store_ok (env\<lparr>ve_id := me_id me\<rparr>) k)"

text \<open>A command that leaves a collection alone, or one that makes a new, empty one.\<close>

definition leftAlone :: "v3keys \<Rightarrow> v3keys \<Rightarrow> bool" where
  "leftAlone a b \<longleftrightarrow> k_meta b = k_meta a \<and> k_active b = k_active a \<and> k_ops b = k_ops a \<and> content_le (contents a) (contents b)"

definition created :: "v3env \<Rightarrow> v3keys \<Rightarrow> v3keys \<Rightarrow> bool" where
  "created env a b \<longleftrightarrow> k_meta a = None \<and>
     (\<exists>me t. k_meta b = Some me \<and> k_active b = Some t \<and> k_ops b = k_ops a \<and> current (env\<lparr>ve_id := me_id me\<rparr>) (contents b) t (\<lambda>_. []))"

definition unusedIDs :: "gostring set \<Rightarrow> v3keys \<Rightarrow> bool" where
  "unusedIDs I k \<longleftrightarrow> (\<forall>i \<in> I. \<forall>s. contents k (Shard s) (''manifest:'' @ i) = None)"

text \<open>From one moment to a later one.\<close>

definition laterOk :: "v3env \<Rightarrow> v3keys \<Rightarrow> v3keys \<Rightarrow> bool" where
  "laterOk env k k' \<longleftrightarrow> (k_meta k' = None \<longrightarrow> k_meta k = None \<and> content_le (contents k) (contents k')) \<and> (opensOk env k \<longrightarrow> opensOk env k')"

text \<open>
  What other clients do meanwhile: a collection that exists stays and is kept readable, and
  while there is none nothing is deleted; they do not draw the same identifiers.
\<close>

definition openRely :: "v3env \<Rightarrow> gostring set \<Rightarrow> (v3keys \<Rightarrow> v3keys) \<Rightarrow> bool" where
  "openRely env I f \<longleftrightarrow> (\<forall>k. laterOk env k (f k) \<and> (\<forall>J \<subseteq> I. unusedIDs J k \<longrightarrow> unusedIDs J (f k)))"

definition openRun :: "v3env \<Rightarrow> v3world \<Rightarrow> v3world \<Rightarrow> bool" where
  "openRun env w w' \<longleftrightarrow> set (vw_env w') \<subseteq> set (vw_env w) \<and> laterOk env (vw_keys w) (vw_keys w') \<and>
     (\<exists>hs. vw_past w' = vw_past w @ hs \<and> (\<forall>(a, b) \<in> set hs. leftAlone a b))"

lemma laterOk_trans: "laterOk env a b \<Longrightarrow> laterOk env b c \<Longrightarrow> laterOk env a c"
  unfolding laterOk_def by (auto intro: content_le_trans)

lemma openRun_refl [simp]: "openRun env w w"
  by (simp add: openRun_def laterOk_def)

lemma openRun_trans: "openRun env a b \<Longrightarrow> openRun env b c \<Longrightarrow> openRun env a c"
  unfolding openRun_def by (fastforce intro: laterOk_trans)

lemma leftAlone_laterOk: "leftAlone a b \<Longrightarrow> laterOk env a b"
  using store_ok_mono by (auto simp: leftAlone_def laterOk_def opensOk_def split: option.splits)

lemma openRun_command:
  assumes rely: "\<forall>f \<in> set (vw_env w). openRely env I f" and run: "v3command f w = (w', r)" and f: "\<And>k. leftAlone k (fst (f k))"
  shows "openRun env w w'" and "vw_ids w' = vw_ids w"
    and "\<exists>k. laterOk env (vw_keys w) k \<and> (\<forall>J \<subseteq> I. unusedIDs J (vw_keys w) \<longrightarrow> unusedIDs J k) \<and>
      (vw_keys w' = k \<or> vw_keys w' = fst (f k)) \<and> (\<forall>x. r = Inr x \<longrightarrow> vw_keys w' = fst (f k) \<and> x = snd (f k))"
proof -
  let ?k = "vw_keys (v3others w)"
  have g: "openRely env I (next_or id (vw_env w))"
    using rely by (cases "vw_env w") (auto simp: next_or_def openRely_def laterOk_def)
  then have o: "laterOk env (vw_keys w) ?k" "\<forall>J \<subseteq> I. unusedIDs J (vw_keys w) \<longrightarrow> unusedIDs J ?k"
    by (auto simp: openRely_def v3others_def)
  obtain k' x where fk: "f ?k = (k', x)" by fastforce
  with f[of ?k] have l: "leftAlone ?k k'" by simp
  have w': "set (vw_env w') \<subseteq> set (vw_env w)" "vw_ids w' = vw_ids w" "vw_keys w' = ?k \<or> vw_keys w' = k'"
    "vw_past w' = vw_past w \<or> vw_past w' = vw_past w @ [(?k, k')]" "\<forall>y. r = Inr y \<longrightarrow> vw_keys w' = k' \<and> y = x"
    using run fk by (auto simp: v3command_def v3others_def Let_def split: cmd_io.splits dest: subsetD[OF tl_subset])
  show "vw_ids w' = vw_ids w" by (rule w'(2))
  show "openRun env w w'"
    using w' l laterOk_trans[OF o(1) leftAlone_laterOk[OF l]] o(1) by (auto simp: openRun_def)
  show "\<exists>k. laterOk env (vw_keys w) k \<and> (\<forall>J \<subseteq> I. unusedIDs J (vw_keys w) \<longrightarrow> unusedIDs J k) \<and>
      (vw_keys w' = k \<or> vw_keys w' = fst (f k)) \<and> (\<forall>x. r = Inr x \<longrightarrow> vw_keys w' = fst (f k) \<and> x = snd (f k))"
    by (rule exI[of _ ?k]) (use o w' fk in auto)
qed

lemma loopW_steps:
  assumes step: "\<And>i s w w' r. a \<le> i \<Longrightarrow> i < b \<Longrightarrow> Inv i s w \<Longrightarrow> f i s w = (w', r) \<Longrightarrow> R w w' \<and> (\<forall>s'. r = Inr s' \<longrightarrow> Inv (Suc i) s' w')"
    and R: "\<And>x. R x x" "\<And>x y z. R x y \<Longrightarrow> R y z \<Longrightarrow> R x z"
    and "a \<le> b" "Inv a s w" "loopW f [a..<b] s w = (w', r)"
  shows "R w w' \<and> (\<forall>s'. r = Inr s' \<longrightarrow> Inv b s' w')"
  using step assms(4-6)
proof (induction "b - a" arbitrary: a s w)
  case 0
  then show ?case using R(1) by auto
next
  case (Suc k)
  then have ab: "a < b" by simp
  have "bindW (f a s w) (\<lambda>w s. loopW f [Suc a..<b] s w) = (w', r)" using Suc.prems(4) ab by (simp add: upt_conv_Cons)
  then show ?case
  proof (cases rule: bindW_cases)
    case (fail w1 err)
    with Suc.prems(1)[OF _ ab Suc.prems(3), of w1 "Inl err"] show ?thesis by simp
  next
    case (cont w1 s1)
    from Suc.prems(1)[OF _ ab Suc.prems(3) cont(1)] have 1: "R w w1" "Inv (Suc a) s1 w1" by simp_all
    have "R w1 w' \<and> (\<forall>s'. r = Inr s' \<longrightarrow> Inv b s' w')"
    proof (rule Suc.hyps(1)[OF _ _ _ 1(2) cont(2)])
      show "k = b - Suc a" "Suc a \<le> b" using Suc.hyps(2) ab by simp_all
      fix i s w w' r assume "Suc a \<le> i" "i < b" "Inv i s w" "f i s w = (w', r)"
      then show "R w w' \<and> (\<forall>s'. r = Inr s' \<longrightarrow> Inv (Suc i) s' w')" using Suc.prems(1)[of i] by simp
    qed
    with R(2)[OF 1(1)] show ?thesis by blast
  qed
qed


text \<open>The invariant of the loop that stages the empty shards, before shard \<open>i\<close>.\<close>

definition drawsIDs :: "v3env \<Rightarrow> gostring set \<Rightarrow> nat \<Rightarrow> v3world \<Rightarrow> bool" where
  "drawsIDs env I n w \<longleftrightarrow> (\<forall>f \<in> set (vw_env w). openRely env I f) \<and> set (vw_ids w) \<subseteq> I \<and> distinct (vw_ids w) \<and>
     (\<forall>x \<in> set (vw_ids w). length x = v3IDLength) \<and> n \<le> length (vw_ids w) \<and> unusedIDs (set (vw_ids w)) (vw_keys w)"

definition stagedBelow :: "nat \<Rightarrow> gostring list \<Rightarrow> v3keys \<Rightarrow> bool" where
  "stagedBelow i shards k \<longleftrightarrow>
     (k_meta k = None \<longrightarrow> (\<forall>j < i. contents k (Shard j) (''manifest:'' @ (shards ! j)) = Some (emptyShard j (shards ! j))))"

lemma initShard_leftAlone: "leftAlone k (fst (v3InitShardScript shard newID data k))"
  by (auto simp: leftAlone_def v3InitShardScript_def content_le_def contents_def split: nspace.splits)

lemma stagedBelow_later: "stagedBelow i shards k \<Longrightarrow> laterOk env k k' \<Longrightarrow> stagedBelow i shards k'"
  by (auto simp: stagedBelow_def laterOk_def dest: content_leD)

lemma drawsIDs_draw:
  assumes "drawsIDs env I (Suc n) w" "v3ID w = (w', x)"
  shows "drawsIDs env I n w'" "length x = v3IDLength" "unusedIDs {x} (vw_keys w')" "x \<notin> set (vw_ids w')" "x \<in> I"
    "vw_keys w' = vw_keys w" "vw_env w' = vw_env w" "vw_past w' = vw_past w"
  using assms by (cases "vw_ids w"; auto simp: drawsIDs_def v3ID_def next_or_def unusedIDs_def)+

lemma drawsIDs_command:
  assumes d: "drawsIDs env I n w" and "openRun env w w'" "vw_ids w' = vw_ids w" and u: "unusedIDs (set (vw_ids w)) (vw_keys w')"
  shows "drawsIDs env I n w'"
  using assms by (auto simp: drawsIDs_def openRun_def)

lemma initShard_step:
  assumes d: "drawsIDs env I (Suc n) w" and s: "stagedBelow i shards (vw_keys w)" "i < length shards"
    and run: "initShard i shards w = (w', r)"
  shows "openRun env w w' \<and> (\<forall>s'. r = Inr s' \<longrightarrow> drawsIDs env I n w' \<and> stagedBelow (Suc i) s' (vw_keys w') \<and> length s' = length shards)"
proof -
  obtain w1 x where x: "v3ID w = (w1, x)" by fastforce
  note D = drawsIDs_draw[OF d x]
  obtain w2 c where c: "v3command (v3InitShardScript i x (emptyShard i x)) w1 = (w2, c)" by fastforce
  have rely: "\<forall>f \<in> set (vw_env w1). openRely env I f" using D(1) by (simp add: drawsIDs_def)
  note C = openRun_command[OF rely c initShard_leftAlone]
  have o: "openRun env w w2" using C(1) D(6-8) by (simp add: openRun_def)
  have w': "w' = w2" "r = bindR c (\<lambda>ok. if ok \<noteq> 1 then Inl ErrMaintenance else Inr (shards[i := x]))"
    using run x c by (auto simp: initShard_def emptyShard_def bindW_def Let_def split: sum.splits)
  obtain k where k: "laterOk env (vw_keys w1) k" "\<forall>J \<subseteq> I. unusedIDs J (vw_keys w1) \<longrightarrow> unusedIDs J k"
    and r: "\<forall>ok. c = Inr ok \<longrightarrow> vw_keys w2 = fst (v3InitShardScript i x (emptyShard i x) k) \<and> ok = snd (v3InitShardScript i x (emptyShard i x) k)"
    using C(3) by blast
  have "drawsIDs env I n w2 \<and> stagedBelow (Suc i) (shards[i := x]) (vw_keys w2)" if ok: "c = Inr 1"
  proof
    have K: "vw_keys w2 = fst (v3InitShardScript i x (emptyShard i x) k)" "snd (v3InitShardScript i x (emptyShard i x) k) = 1"
      using r ok by simp_all
    have u: "unusedIDs {x} k" "unusedIDs (set (vw_ids w1)) k" using k(2) D(1,3,5) by (auto simp: drawsIDs_def)
    have m: "\<not> underMaintenance (Shard i) k" using K(2) by (auto simp: v3InitShardScript_def)
    have new: "contents (vw_keys w2) (Shard i) (''manifest:'' @ x) = Some (emptyShard i x)"
      using K(1) m u(1) by (simp add: v3InitShardScript_def contents_def unusedIDs_def)
    have old: "contents (vw_keys w2) (Shard j) key = contents k (Shard j) key" if "j \<noteq> i \<or> key \<noteq> ''manifest:'' @ x" for j key
      using that K(1) m by (auto simp: v3InitShardScript_def contents_def)
    show "drawsIDs env I n w2"
    proof (rule drawsIDs_command[OF D(1) C(1,2)])
      show "unusedIDs (set (vw_ids w1)) (vw_keys w2)"
        unfolding unusedIDs_def
      proof (intro ballI allI)
        fix y s assume "y \<in> set (vw_ids w1)"
        with D(4) u(2) show "contents (vw_keys w2) (Shard s) (''manifest:'' @ y) = None"
          by (subst old) (auto simp: unusedIDs_def)
      qed
    qed
    have meta: "k_meta (vw_keys w2) = k_meta k" using K(1) m by (simp add: v3InitShardScript_def)
    have below: "stagedBelow i shards k" using stagedBelow_later[OF s(1)] k(1) D(6) by simp
    show "stagedBelow (Suc i) (shards[i := x]) (vw_keys w2)"
      unfolding stagedBelow_def
    proof (intro impI allI)
      fix j assume "k_meta (vw_keys w2) = None" "j < Suc i"
      then show "contents (vw_keys w2) (Shard j) (''manifest:'' @ (shards[i := x] ! j)) = Some (emptyShard j (shards[i := x] ! j))"
        using below meta new old s(2) by (cases "j = i") (auto simp: stagedBelow_def)
    qed
  qed
  then show ?thesis using o w' by (cases c) (auto split: if_splits)
qed


text \<open>What \<^verbatim>\<open>initialManifest\<close> leaves to be made the first generation.\<close>

definition firstGeneration :: "v3env \<Rightarrow> gostring \<Rightarrow> v3data \<Rightarrow> v3keys \<Rightarrow> bool" where
  "firstGeneration env token data k \<longleftrightarrow>
     (k_meta k = None \<longrightarrow> (\<forall>cid. v3valid cid token \<longrightarrow>
        current (env\<lparr>ve_id := cid\<rparr>) ((contents k)(Global := (contents k Global)(''gen:'' @ token \<mapsto> data))) token (\<lambda>_. [])))"

lemma firstGeneration_later:
  assumes "firstGeneration env token data k" "laterOk env k k'"
  shows "firstGeneration env token data k'"
  unfolding firstGeneration_def
proof (intro impI allI)
  fix cid assume *: "k_meta k' = None" "v3valid cid token"
  then have c: "content_le (contents k) (contents k')" "k_meta k = None" using assms(2) by (auto simp: laterOk_def)
  have "content_le ((contents k)(Global := (contents k Global)(''gen:'' @ token \<mapsto> data))) ((contents k')(Global := (contents k' Global)(''gen:'' @ token \<mapsto> data)))"
    using c(1) by (auto simp: content_le_def)
  then show "current (env\<lparr>ve_id := cid\<rparr>) ((contents k')(Global := (contents k' Global)(''gen:'' @ token \<mapsto> data))) token (\<lambda>_. [])"
    by (rule current_mono) (use assms(1) c(2) * in \<open>auto simp: firstGeneration_def\<close>)
qed

lemma first_legacy: "firstGeneration env token (marshalManifest (zeroManifest\<lparr>mf_Version := token, mf_Sequence := 1\<rparr>)) k"
  by (auto simp: firstGeneration_def intro!: empty_legacy)

lemma first_sharded:
  assumes "v3ValidShardCount n" "n \<noteq> 1" "length shards = unat n" "stagedBelow (unat n) shards k"
  shows "firstGeneration env token (GlobalDoc \<lparr>gm_Version = token, gm_Sequence = 1,
    gm_Layout = \<lparr>lay_Version = v3ShardedLayoutVersion, lay_ShardCount = n\<rparr>, gm_Shards = shards, gm_Count = 0\<rparr>) k"
  using assms by (auto simp: firstGeneration_def stagedBelow_def intro!: empty_sharded)

lemma shardLoop_runs:
  assumes d: "drawsIDs env I n w" and run: "loopW initShard [0..<n] (replicate n []) w = (w', r)"
  shows "openRun env w w' \<and> (\<forall>shards. r = Inr shards \<longrightarrow> drawsIDs env I 0 w' \<and> stagedBelow n shards (vw_keys w') \<and> length shards = n)"
proof -
  let ?Inv = "\<lambda>i shards w. i \<le> n \<and> drawsIDs env I (n - i) w \<and> stagedBelow i shards (vw_keys w) \<and> length shards = n"
  have "openRun env w w' \<and> (\<forall>shards. r = Inr shards \<longrightarrow> ?Inv n shards w')"
  proof (rule loopW_steps[where R = "openRun env" and Inv = ?Inv, OF _ _ _ _ _ run])
    fix i shards v v' r assume i: "i < n" and I: "?Inv i shards v" and f: "initShard i shards v = (v', r)"
    from i have n: "n - i = Suc (n - Suc i)" by simp
    show "openRun env v v' \<and> (\<forall>s'. r = Inr s' \<longrightarrow> ?Inv (Suc i) s' v')"
      using initShard_step[of env I "n - Suc i" v i shards v' r] I i f by (simp add: n)
  next
    show "?Inv 0 (replicate n []) w" using d by (simp add: stagedBelow_def)
  qed (auto intro: openRun_trans)
  then show ?thesis by auto
qed

lemma initialManifest_runs:
  assumes d: "drawsIDs env I (unat (vo_ShardCount (ve_opts env))) w" and n: "v3ValidShardCount (vo_ShardCount (ve_opts env))"
    and run: "initialManifest env token w = (w', r)"
  shows "openRun env w w' \<and> (\<forall>data layout. r = Inr (data, layout) \<longrightarrow> firstGeneration env token data (vw_keys w'))"
proof -
  let ?n = "vo_ShardCount (ve_opts env)"
  have rely: "\<forall>f \<in> set (vw_env w). openRely env I f" using d by (simp add: drawsIDs_def)
  show ?thesis using run unfolding initialManifest_def
  proof (cases rule: bindW_cases)
    case (fail w1 err)
    then show ?thesis using openRun_command(1)[OF rely fail(1)] by (simp add: leftAlone_def)
  next
    case (cont w1 found)
    have l: "\<And>k. leftAlone k (fst ((\<lambda>k. (k, k_meta k \<noteq> None)) k))" by (simp add: leftAlone_def)
    note C = openRun_command[OF rely cont(1) l]
    have d1: "drawsIDs env I (unat ?n) w1"
    proof (rule drawsIDs_command[OF d C(1,2)])
      show "unusedIDs (set (vw_ids w)) (vw_keys w1)" using C(3) d by (auto simp: drawsIDs_def)
    qed
    show ?thesis
    proof (cases "found \<or> ?n = 1")
      case True
      then show ?thesis using cont(2) C(1) by (auto simp: first_legacy)
    next
      case False
      then have "bindW (loopW initShard [0..<unat ?n] (replicate (unat ?n) []) w1) (\<lambda>w2 shards.
          (w2, Inr (GlobalDoc \<lparr>gm_Version = token, gm_Sequence = 1, gm_Layout = \<lparr>lay_Version = v3ShardedLayoutVersion, lay_ShardCount = ?n\<rparr>,
             gm_Shards = shards, gm_Count = 0\<rparr>, \<lparr>lay_Version = v3ShardedLayoutVersion, lay_ShardCount = ?n\<rparr>))) = (w', r)"
        using cont(2) by (simp add: Let_def)
      then show ?thesis
      proof (cases rule: bindW_cases)
        case (fail w2 err)
        then show ?thesis using shardLoop_runs[OF d1 fail(1)] openRun_trans[OF C(1)] by simp
      next
        case (cont w2 shards)
        from shardLoop_runs[OF d1 cont(1)] have S: "openRun env w1 w2" "stagedBelow (unat ?n) shards (vw_keys w2)" "length shards = unat ?n" by simp_all
        show ?thesis using cont(2) openRun_trans[OF C(1) S(1)] first_sharded[OF n _ S(3,2)] False by auto
      qed
    qed
  qed
qed


lemma initScript_created:
  assumes first: "firstGeneration env (newID @ ''.'' @ x) data k" and "length x = v3IDLength"
  shows "leftAlone k (fst (v3InitScript newID b (newID @ ''.'' @ x) data layout k)) \<or> created env k (fst (v3InitScript newID b (newID @ ''.'' @ x) data layout k))"
proof (cases "k_meta k")
  case None
  let ?t = "newID @ ''.'' @ x"
  let ?k = "fst (v3InitScript newID b ?t data layout k)"
  have c: "contents ?k = (contents k)(Global := (contents k Global)(''gen:'' @ ?t \<mapsto> data))"
  proof
    show "contents ?k n = ((contents k)(Global := (contents k Global)(''gen:'' @ ?t \<mapsto> data))) n" for n
      using None by (cases n) (simp_all add: v3InitScript_def contents_def Let_def)
  qed
  have "v3valid newID ?t" using assms(2) by (simp add: v3valid_def)
  then have "current (env\<lparr>ve_id := newID\<rparr>) (contents ?k) ?t (\<lambda>_. [])" using first None unfolding c by (simp add: firstGeneration_def)
  then have "created env k ?k" using None by (auto simp: created_def v3InitScript_def Let_def)
  then show ?thesis by simp
qed (simp add: v3InitScript_def leftAlone_def)

lemma initScript_meta: "k_meta (fst (v3InitScript newID b t data layout k)) = Some (snd (v3InitScript newID b t data layout k))"
  by (simp add: v3InitScript_def Let_def split: option.splits)

lemma created_opensOk: "created env a b \<Longrightarrow> opensOk env b"
  by (auto simp: created_def opensOk_def store_ok_def)

lemma laterOk_opensOk: "laterOk env a b \<Longrightarrow> opensOk env a \<Longrightarrow> opensOk env b"
  by (simp add: laterOk_def)

text \<open>What opening relies on: fresh identifiers, and clients that keep collections readable.\<close>

definition opensReliable :: "v3env \<Rightarrow> v3world \<Rightarrow> bool" where
  "opensReliable env w \<longleftrightarrow> drawsIDs env (set (vw_ids w)) (unat (vo_ShardCount (ve_opts env)) + 2) w \<and>
     v3ValidShardCount (vo_ShardCount (ve_opts env)) \<and> opensOk env (vw_keys w)"

text \<open>How an opening ends.\<close>

definition opened :: "v3env \<Rightarrow> v3world \<Rightarrow> v3world \<Rightarrow> (gostring \<times> v3Layout) result \<Rightarrow> bool" where
  "opened env w w' r \<longleftrightarrow> opensOk env (vw_keys w') \<and>
     (\<exists>hs. vw_past w' = vw_past w @ hs \<and> (\<forall>(a, b) \<in> set hs. leftAlone a b \<or> created env a b)) \<and>
     (case r of Inl err \<Rightarrow> True | Inr (cid, layout) \<Rightarrow> (\<exists>me. k_meta (vw_keys w') = Some me \<and> me_id me = cid \<and>
        me_case me = sprintBool (vo_CaseSensitive (ve_opts env)) \<and> v3StoredLayout (me_layout me) (me_shards me) = Inr layout) \<and>
        store_ok (env\<lparr>ve_id := cid\<rparr>) (vw_keys w'))"

lemma openRun_opened: "openRun env w w' \<Longrightarrow> opensOk env (vw_keys w) \<Longrightarrow> opened env w w' (Inl err)"
  by (fastforce simp: openRun_def opened_def laterOk_def)

lemma init_command:
  assumes rely: "\<forall>f \<in> set (vw_env w). openRely env I f" and ok: "opensOk env (vw_keys w)"
    and first: "firstGeneration env (newID @ ''.'' @ x) data (vw_keys w)" and x: "length x = v3IDLength"
    and run: "v3command (v3InitScript newID b (newID @ ''.'' @ x) data layout) w = (w', r)"
  shows "opensOk env (vw_keys w') \<and> (\<exists>hs. vw_past w' = vw_past w @ hs \<and> (\<forall>(a, c) \<in> set hs. leftAlone a c \<or> created env a c)) \<and>
    (\<forall>me. r = Inr me \<longrightarrow> k_meta (vw_keys w') = Some me)"
proof -
  let ?k = "vw_keys (v3others w)" and ?f = "v3InitScript newID b (newID @ ''.'' @ x) data layout"
  have "openRely env I (next_or id (vw_env w))"
    using rely by (cases "vw_env w") (auto simp: next_or_def openRely_def laterOk_def)
  then have o: "laterOk env (vw_keys w) ?k" by (simp add: openRely_def v3others_def)
  obtain k' m where fk: "?f ?k = (k', m)" by fastforce
  have step: "leftAlone ?k k' \<or> created env ?k k'" using initScript_created[OF firstGeneration_later[OF first o] x, of b layout] fk by simp
  have "opensOk env ?k" by (rule laterOk_opensOk[OF o ok])
  moreover from this have "opensOk env k'" using step leftAlone_laterOk laterOk_opensOk created_opensOk by blast
  moreover have "k_meta k' = Some m" using initScript_meta[of newID b _ data layout ?k] fk by (metis fst_conv snd_conv)
  ultimately show ?thesis using run fk step by (auto simp: v3command_def v3others_def Let_def split: cmd_io.splits)
qed

text \<open>
  C26.  Opening a collection, in either layout, with other clients acting and commands
  failing or losing their replies in between: at the end every collection in Redis is
  readable, each command of the operation left what existed alone or made the collection
  at once, with an empty first generation, and on success the identifier, case policy
  and layout returned are those of a collection whose active generation can be read.
\<close>

theorem initialize_opens:
  assumes rel: "opensReliable env w" and run: "initialize env w = (w', r)"
  shows "opened env w w' r"
proof -
  let ?n = "unat (vo_ShardCount (ve_opts env))" and ?b = "vo_CaseSensitive (ve_opts env)"
  obtain w1 newID where 1: "v3ID w = (w1, newID)" by fastforce
  obtain w2 x where 2: "v3ID w1 = (w2, x)" by fastforce
  have d: "drawsIDs env (set (vw_ids w)) (Suc (Suc ?n)) w" "v3ValidShardCount (vo_ShardCount (ve_opts env))" and ok: "opensOk env (vw_keys w)"
    using rel by (simp_all add: opensReliable_def)
  note D1 = drawsIDs_draw[OF d(1) 1]
  note D2 = drawsIDs_draw[OF D1(1) 2]
  have same: "opened env w2 w' r' \<longleftrightarrow> opened env w w' r'" "opensOk env (vw_keys w2)" for r'
    using D1(8) D2(8) ok D1(6) D2(6) by (simp_all add: opened_def)
  have "bindW (initialManifest env (newID @ ''.'' @ x) w2) (\<lambda>w3 (data, layout).
      bindW (v3command (v3InitScript newID ?b (newID @ ''.'' @ x) data layout) w3) (\<lambda>w4 me.
        (w4, if me_case me \<noteq> sprintBool ?b then Inl ErrCasePolicy
             else bindR (v3StoredLayout (me_layout me) (me_shards me)) (\<lambda>l. Inr (me_id me, l))))) = (w', r)"
    using run 1 2 by (simp add: initialize_def Let_def)
  then have "opened env w2 w' r"
  proof (cases rule: bindW_cases)
    case (fail w3 err)
    show ?thesis using openRun_opened[of env w2 w3] initialManifest_runs[OF D2(1) d(2) fail(1)] fail(2,3) same(2) by simp
  next
    case (cont w3 p)
    obtain data layout where p: "p = (data, layout)" by fastforce
    have M: "openRun env w2 w3" "firstGeneration env (newID @ ''.'' @ x) data (vw_keys w3)"
      using initialManifest_runs[OF D2(1) d(2) cont(1)] p by simp_all
    have rely: "\<forall>f \<in> set (vw_env w3). openRely env (set (vw_ids w)) f" using M(1) D2(1) by (auto simp: openRun_def drawsIDs_def)
    have ok3: "opensOk env (vw_keys w3)" using M(1) same(2) by (simp add: openRun_def laterOk_def)
    obtain w4 c where c: "v3command (v3InitScript newID ?b (newID @ ''.'' @ x) data layout) w3 = (w4, c)" by fastforce
    note I = init_command[OF rely ok3 M(2) D2(2) c]
    obtain hs hs' where past: "vw_past w3 = vw_past w2 @ hs" "\<forall>(a, b) \<in> set hs. leftAlone a b"
        "vw_past w4 = vw_past w3 @ hs'" "\<forall>(a, b) \<in> set hs'. leftAlone a b \<or> created env a b"
      using M(1) I unfolding openRun_def by blast
    have hist: "\<exists>hs. vw_past w4 = vw_past w2 @ hs \<and> (\<forall>(a, b) \<in> set hs. leftAlone a b \<or> created env a b)"
      by (rule exI[of _ "hs @ hs'"]) (use past in auto)
    have "w' = w4 \<and> (\<forall>cid l. r = Inr (cid, l) \<longrightarrow> (\<exists>me. c = Inr me \<and> me_case me = sprintBool ?b \<and> me_id me = cid \<and> v3StoredLayout (me_layout me) (me_shards me) = Inr l))"
      using cont(2) p c by (cases c) (auto simp: bindW_def bindR_Inr split: if_splits)
    then show ?thesis using I hist by (cases r) (auto simp: opened_def opensOk_def)
  qed
  then show ?thesis using same(1) by simp
qed


text \<open>Time passing and another client opening the same collection are what opening relies on.\<close>

lemma openRely_time: "0 \<le> d \<Longrightarrow> openRely env I (\<lambda>k. k\<lparr>k_now := k_now k + d\<rparr>)"
proof -
  have c: "contents (k\<lparr>k_now := t\<rparr>) = contents k" for k t
  proof
    show "contents (k\<lparr>k_now := t\<rparr>) n = contents k n" for n by (cases n) (simp_all add: contents_def)
  qed
  then show ?thesis
    by (auto simp: openRely_def laterOk_def unusedIDs_def opensOk_def store_ok_def split: option.splits)
qed

lemma openRely_init:
  assumes "length x = v3IDLength"
  shows "openRely env I (\<lambda>k. fst (v3InitScript cid b (cid @ ''.'' @ x) (marshalManifest (zeroManifest\<lparr>mf_Version := cid @ ''.'' @ x, mf_Sequence := 1\<rparr>)) layout k))"
  unfolding openRely_def
proof (intro allI conjI impI)
  fix k J
  let ?k = "fst (v3InitScript cid b (cid @ ''.'' @ x) (marshalManifest (zeroManifest\<lparr>mf_Version := cid @ ''.'' @ x, mf_Sequence := 1\<rparr>)) layout k)"
  have "leftAlone k ?k \<or> created env k ?k" by (rule initScript_created[OF first_legacy assms])
  then show "laterOk env k ?k" using leftAlone_laterOk created_opensOk by (auto simp: laterOk_def created_def)
  have "contents ?k (Shard s) = contents k (Shard s)" for s by (simp add: v3InitScript_def contents_def Let_def ns_update.simps split: option.splits)
  then show "unusedIDs J k \<Longrightarrow> unusedIDs J ?k" by (simp add: unusedIDs_def)
qed

definition openEnv_example :: v3env where
  "openEnv_example = v3env_example\<lparr>ve_opts := (ve_opts v3env_example)\<lparr>vo_ShardCount := 4\<rparr>\<rparr>"

definition openWorld_example :: v3world where
  "openWorld_example = \<lparr>vw_keys = v3keys_example\<lparr>k_active := None, k_global := v3ns_empty\<rparr>,
     vw_env = [\<lambda>k. k\<lparr>k_now := k_now k + 5\<rparr>,
       \<lambda>k. fst (v3InitScript ''other'' False (''other'' @ ''.'' @ replicate 32 CHR ''9'')
         (marshalManifest (zeroManifest\<lparr>mf_Version := ''other'' @ ''.'' @ replicate 32 CHR ''9'', mf_Sequence := 1\<rparr>)) \<lparr>lay_Version = 1, lay_ShardCount = 1\<rparr> k)],
     vw_io = [CmdOk, CmdLost (ErrClient ''i/o timeout'')], vw_checks = [], vw_ids = map (replicate 32) ''abcdef'', vw_shards = [], vw_past = []\<rparr>"

lemma openWorld_reliable: "opensReliable openEnv_example openWorld_example"
proof -
  have "\<forall>f \<in> set (vw_env openWorld_example). openRely openEnv_example I f" for I
    using openRely_time[of 5] openRely_init[of "replicate 32 CHR ''9''" openEnv_example I "''other''"]
    by (simp add: openWorld_example_def v3IDLength_def)
  moreover have "distinct (vw_ids openWorld_example)" "\<forall>x \<in> set (vw_ids openWorld_example). length x = v3IDLength" "length (vw_ids openWorld_example) = 6"
    by (simp_all add: openWorld_example_def v3IDLength_def)
  moreover have "unusedIDs J (vw_keys openWorld_example)" for J
    by (simp add: openWorld_example_def unusedIDs_def contents_def v3keys_example_def v3ns_empty_def)
  moreover have "opensOk openEnv_example (vw_keys openWorld_example)"
    by (simp add: openWorld_example_def opensOk_def v3keys_example_def)
  ultimately show ?thesis
    by (simp add: opensReliable_def drawsIDs_def openEnv_example_def v3ValidShardCount_def v3MaxShardCount_def)
qed

lemma initialize_opens_witness:
  "opened openEnv_example openWorld_example (fst (initialize openEnv_example openWorld_example)) (snd (initialize openEnv_example openWorld_example))"
  by (rule initialize_opens[OF openWorld_reliable]) simp

end
