(* ===== verification/V3_Prune.thy ===== *)
theory V3_Prune
  imports V3_Snapshot
begin

text \<open>
  Collecting garbage: \<^verbatim>\<open>Prune\<close> of \<^verbatim>\<open>versioned_prune.go\<close>, over the scripts of \<open>V3_Keys\<close>.
  The collector takes the maintenance lock, finds the generations to keep and what they
  refer to, and deletes the rest in fenced batches, first from the keys of the collection
  and then from those of each shard.

  A map is a list or a set; \<open>order\<close> is the order in which the kept generations are ranged
  over.  References are pairs of a namespace and a key.
\<close>

section \<open>What is kept\<close>

record PruneResult =
  pr_Generations :: int
  pr_Chunks :: int

definition v3PruneBatch :: nat where "v3PruneBatch = 64"
definition v3RetentionSeconds :: int where "v3RetentionSeconds = 24 * 60 * 60"
definition v3MillisPerSecond :: int where "v3MillisPerSecond = 1000"

definition v3_fence :: "nat \<Rightarrow> v3world \<Rightarrow> v3world \<times> unit result" where
  "v3_fence token w = bindW (v3command (v3FenceScript token) w) (\<lambda>w1 n. (w1, if n \<noteq> 1 then Inl ErrMaintenance else Inr ()))"

text \<open>\<^verbatim>\<open>strings.Cut\<close> at the first slash, its first result.\<close>

definition cutSlash :: "gostring \<Rightarrow> gostring" where
  "cutSlash s = takeWhile (\<lambda>c. c \<noteq> CHR ''/'') s"

definition pruneKeep :: "int \<Rightarrow> v3world \<Rightarrow> v3world \<times> (gostring list \<times> zset) result" where
  "pruneKeep now w =
     bindW (v3command (\<lambda>k. (k, k_active k)) w) (\<lambda>w1 a.
       case a of
         None \<Rightarrow> (w1, Inl redisNil)
       | Some active \<Rightarrow>
           bindW (v3command (\<lambda>k. (k, zrange (ns_leases (k_global k)))) w1) (\<lambda>w2 leases.
           bindW (v3command (\<lambda>k. (k, zrange (ns_registry (k_global k) ''generations''))) w2) (\<lambda>w3 gens.
             (w3, Inr (remdups (active # map (\<lambda>l. cutSlash (fst l)) (filter (\<lambda>l. snd l > now * v3MillisPerSecond) leases) @
                          map fst (filter (\<lambda>g. snd g \<ge> now - v3RetentionSeconds) gens)), gens)))))"

type_synonym v3refs = "(nspace \<times> gostring) set"

definition manifestRefs :: "v3Manifest \<Rightarrow> v3refs" where
  "manifestRefs m =
     (case mf_global m of
        None \<Rightarrow> {}
      | Some g \<Rightarrow> set (map (\<lambda>shard. (Shard shard, ''manifest:'' @ (gm_Shards g ! shard))) [0..<length (gm_Shards g)])) \<union>
     set (concat (map (\<lambda>b. map (bucketChunkKey b) (bk_Chunks b)) (mf_Buckets m)))"

definition pruneReference :: "v3env \<Rightarrow> nat \<Rightarrow> gostring \<Rightarrow> v3refs \<Rightarrow> v3world \<Rightarrow> v3world \<times> v3refs result" where
  "pruneReference env token generation refs w =
     bindW (v3_fence token w) (\<lambda>w1 _.
     bindW (loadManifest env generation w1) (\<lambda>w2 m. (w2, Inr (refs \<union> manifestRefs m))))"

definition pruneReferences :: "v3env \<Rightarrow> (gostring list \<Rightarrow> gostring list) \<Rightarrow> nat \<Rightarrow> gostring list \<Rightarrow> v3world \<Rightarrow> v3world \<times> v3refs result" where
  "pruneReferences env order token keep w = loopW (pruneReference env token) (order keep) {} w"

definition pruneCandidates :: "nspace \<Rightarrow> gostring \<Rightarrow> gostring \<Rightarrow> v3refs \<Rightarrow> v3world \<Rightarrow> v3world \<times> gostring list result" where
  "pruneCandidates n registry pre refs w =
     bindW (v3command (\<lambda>k. (k, map fst (zrange (ns_registry (ns_get n k) registry)))) w) (\<lambda>w1 ids.
       (w1, Inr (filter (\<lambda>x. (n, pre @ x) \<notin> refs) ids)))"

section \<open>Deleting\<close>

definition pruneShardFence :: "nat \<Rightarrow> nat \<Rightarrow> v3world \<Rightarrow> v3world \<times> unit result" where
  "pruneShardFence token shard w =
     bindW (v3command (v3ShardFenceScript token shard) w) (\<lambda>w1 ok.
       if ok \<noteq> 1 then (w1, Inl ErrMaintenance)
       else
         (case v3_fence token w1 of
            (w2, Inl err) \<Rightarrow> (fst (v3command (v3UnlockScript (Shard shard) token) w2), Inl err)
          | (w2, Inr _) \<Rightarrow> (w2, Inr ())))"

text \<open>The answers are how many were deleted, and the error that ended it.\<close>

function pruneDeleteAt ::
  "nspace \<Rightarrow> nat \<Rightarrow> gostring \<Rightarrow> gostring \<Rightarrow> (v3world \<Rightarrow> v3world \<times> unit result) \<Rightarrow> gostring list \<Rightarrow> int \<Rightarrow> v3world \<Rightarrow>
    v3world \<times> int \<times> acorError option" where
  "pruneDeleteAt n token registry pre renew ids acc w =
     (if ids = [] then (w, acc, None)
      else
        (case renew w of
           (w1, Inl err) \<Rightarrow> (w1, acc, Some err)
         | (w1, Inr _) \<Rightarrow>
             (case v3command (v3DeleteScript n token registry pre (take v3PruneBatch ids)) w1 of
                (w2, Inl err) \<Rightarrow> (w2, acc, Some err)
              | (w2, Inr deleted) \<Rightarrow>
                  if deleted < 0 then (w2, acc, Some ErrMaintenance)
                  else pruneDeleteAt n token registry pre renew (drop v3PruneBatch ids) (acc + deleted) w2)))"
  by pat_completeness auto
termination
  by (relation "measure (\<lambda>(n, token, registry, pre, renew, ids, acc, w). length ids)") (auto simp: v3PruneBatch_def)

declare pruneDeleteAt.simps [simp del]

definition pruneDelete :: "nat \<Rightarrow> gostring \<Rightarrow> gostring \<Rightarrow> gostring list \<Rightarrow> v3world \<Rightarrow> v3world \<times> int \<times> acorError option" where
  "pruneDelete token registry pre ids w = pruneDeleteAt Global token registry pre (v3_fence token) ids 0 w"

definition pruneShardBody :: "nat \<Rightarrow> nat \<Rightarrow> v3refs \<Rightarrow> v3world \<Rightarrow> v3world \<times> int \<times> acorError option" where
  "pruneShardBody token shard refs w =
     (case pruneCandidates (Shard shard) ''chunks'' ''chunk:'' refs w of
        (w1, Inl err) \<Rightarrow> (w1, 0, Some err)
      | (w1, Inr chunks) \<Rightarrow>
          (case pruneCandidates (Shard shard) ''manifests'' ''manifest:'' refs w1 of
             (w2, Inl err) \<Rightarrow> (w2, 0, Some err)
           | (w2, Inr manifests) \<Rightarrow>
               (case pruneDeleteAt (Shard shard) token ''chunks'' ''chunk:'' (pruneShardFence token shard) chunks 0 w2 of
                  (w3, n, Some err) \<Rightarrow> (w3, n, Some err)
                | (w3, n, None) \<Rightarrow>
                    (case pruneDeleteAt (Shard shard) token ''manifests'' ''manifest:'' (pruneShardFence token shard) manifests 0 w3 of
                       (w4, m, err) \<Rightarrow> (w4, n, err)))))"

definition pruneShard :: "nat \<Rightarrow> nat \<Rightarrow> v3refs \<Rightarrow> v3world \<Rightarrow> v3world \<times> int \<times> acorError option" where
  "pruneShard token shard refs w =
     (case pruneShardFence token shard w of
        (w1, Inl err) \<Rightarrow> (w1, 0, Some err)
      | (w1, Inr _) \<Rightarrow>
          (case pruneShardBody token shard refs w1 of
             (w2, n, err) \<Rightarrow> (fst (v3command (v3UnlockScript (Shard shard) token) w2), n, err)))"

section \<open>The sweep over the shards\<close>

definition occupied :: "nat \<Rightarrow> v3keys \<Rightarrow> int" where
  "occupied shard k =
     (let s = k_shards k shard in
      of_bool (ns_registry s ''chunks'' \<noteq> []) + of_bool (ns_registry s ''manifests'' \<noteq> []) + of_bool (ns_writers s \<noteq> []))"

fun pipelineExists :: "nat list \<Rightarrow> v3world \<Rightarrow> v3world \<times> int result list" where
  "pipelineExists [] w = (w, [])"
| "pipelineExists (shard # shards) w =
     (case v3command (\<lambda>k. (k, occupied shard k)) w of (w1, r) \<Rightarrow>
        (case pipelineExists shards w1 of (w2, rs) \<Rightarrow> (w2, r # rs)))"

fun sweepShards :: "nat \<Rightarrow> v3refs \<Rightarrow> (nat \<times> int result) list \<Rightarrow> int \<Rightarrow> v3world \<Rightarrow> v3world \<times> int \<times> acorError option" where
  "sweepShards token refs [] acc w = (w, acc, None)"
| "sweepShards token refs ((shard, r) # rest) acc w =
     (if r = Inr 0 then sweepShards token refs rest acc w
      else
        (case pruneShard token shard refs w of
           (w1, deleted, Some err) \<Rightarrow> (w1, acc + deleted, Some err)
         | (w1, deleted, None) \<Rightarrow> sweepShards token refs rest (acc + deleted) w1))"

fun sweepBatches :: "nat \<Rightarrow> v3refs \<Rightarrow> nat list \<Rightarrow> int \<Rightarrow> v3world \<Rightarrow> v3world \<times> int \<times> acorError option" where
  "sweepBatches token refs [] acc w = (w, acc, None)"
| "sweepBatches token refs (start # starts) acc w =
     (case v3_fence token w of
        (w1, Inl err) \<Rightarrow> (w1, acc, Some err)
      | (w1, Inr _) \<Rightarrow>
          (let shards = [start..<min (start + v3PruneBatch) (unat v3MaxShardCount)] in
           case pipelineExists shards w1 of
             (w2, rs) \<Rightarrow>
               (case pipelineError rs of
                  Some err \<Rightarrow> (w2, acc, Some err)
                | None \<Rightarrow>
                    (case sweepShards token refs (zip shards rs) acc w2 of
                       (w3, n, Some err) \<Rightarrow> (w3, n, Some err)
                     | (w3, n, None) \<Rightarrow> sweepBatches token refs starts n w3))))"

definition pruneShards :: "nat \<Rightarrow> v3refs \<Rightarrow> int \<Rightarrow> v3world \<Rightarrow> v3world \<times> int \<times> acorError option" where
  "pruneShards token refs acc w =
     sweepBatches token refs (map (\<lambda>i. i * v3PruneBatch) [0..<unat v3MaxShardCount div v3PruneBatch]) acc w"

section \<open>Pruning\<close>

text \<open>Once the references are known.\<close>

definition pruneSweep :: "nat \<Rightarrow> gostring list \<Rightarrow> zset \<Rightarrow> v3refs \<Rightarrow> v3world \<Rightarrow> v3world \<times> PruneResult option \<times> acorError option" where
  "pruneSweep token keep gens refs w =
     (case pruneCandidates Global ''chunks'' ''chunk:'' refs w of
        (w1, Inl err) \<Rightarrow> (w1, None, Some err)
      | (w1, Inr deadChunks) \<Rightarrow>
          (case pruneDelete token ''chunks'' ''chunk:'' deadChunks w1 of
             (w2, n, Some err) \<Rightarrow> (w2, Some \<lparr>pr_Generations = 0, pr_Chunks = n\<rparr>, Some err)
           | (w2, n, None) \<Rightarrow>
               (case pruneDelete token ''generations'' ''gen:'' (filter (\<lambda>g. g \<notin> set keep) (map fst gens)) w2 of
                  (w3, g, Some err) \<Rightarrow> (w3, Some \<lparr>pr_Generations = g, pr_Chunks = n\<rparr>, Some err)
                | (w3, g, None) \<Rightarrow>
                    (case pruneShards token refs n w3 of
                       (w4, n', err) \<Rightarrow> (w4, Some \<lparr>pr_Generations = g, pr_Chunks = n'\<rparr>, err)))))"

definition pruneLocked ::
  "v3env \<Rightarrow> (gostring list \<Rightarrow> gostring list) \<Rightarrow> nat \<Rightarrow> int \<Rightarrow> v3world \<Rightarrow> v3world \<times> PruneResult option \<times> acorError option" where
  "pruneLocked env order token now w =
     (case pruneKeep now w of
        (w1, Inl err) \<Rightarrow> (w1, None, Some err)
      | (w1, Inr (keep, gens)) \<Rightarrow>
          (case pruneReferences env order token keep w1 of
             (w2, Inl err) \<Rightarrow> (w2, None, Some err)
           | (w2, Inr refs) \<Rightarrow> pruneSweep token keep gens refs w2))"

definition Prune :: "v3env \<Rightarrow> (gostring list \<Rightarrow> gostring list) \<Rightarrow> v3world \<Rightarrow> v3world \<times> PruneResult option \<times> acorError option" where
  "Prune env order w =
     (case v3check w of
        (w1, Some err) \<Rightarrow> (w1, None, Some err)
      | (w1, None) \<Rightarrow>
          (case v3command v3PruneScript w1 of
             (w2, Inl err) \<Rightarrow> (w2, None, Some err)
           | (w2, Inr None) \<Rightarrow> (w2, None, Some ErrMaintenance)
           | (w2, Inr (Some (token, now))) \<Rightarrow>
               (case pruneLocked env order token now w2 of
                  (w3, r) \<Rightarrow> (fst (v3command (v3UnlockScript Global token) w3), r))))"


section \<open>Moments of a collector\<close>

text \<open>The maintenance entry, and whether the lock with token \<open>t\<close> is held.\<close>

definition lockOf :: "nspace \<Rightarrow> v3keys \<Rightarrow> (nat \<times> int) option" where "lockOf n k = ns_maintenance (ns_get n k)"

definition held :: "nat \<Rightarrow> v3keys \<Rightarrow> bool" where "held t k \<longleftrightarrow> maintenanceToken Global k = Some t"

lemma token_iff: "maintenanceToken n k = Some t \<longleftrightarrow> (\<exists>e. lockOf n k = Some (t, e) \<and> e > k_now k)"
  by (auto simp: maintenanceToken_def lockOf_def split: option.splits)

lemma held_iff: "held t k \<longleftrightarrow> (\<exists>e. lockOf Global k = Some (t, e) \<and> e > k_now k)"
  by (simp add: held_def token_iff)

text \<open>A generation must be kept when it is active, or when a reader has a lease on it.\<close>

definition leasedGen :: "v3keys \<Rightarrow> gostring \<Rightarrow> bool" where
  "leasedGen k g \<longleftrightarrow> CHR ''/'' \<notin> set g \<and> (\<exists>x. zlive (k_now k) (ns_leases (k_global k)) (g @ ''/'' @ x))"

definition keptGen :: "v3keys \<Rightarrow> gostring \<Rightarrow> bool" where
  "keptGen k g \<longleftrightarrow> k_active k = Some g \<or> leasedGen k g"

text \<open>What no command of a collector may do: make a kept generation unreadable.\<close>

definition spares :: "v3env \<Rightarrow> v3keys \<Rightarrow> v3keys \<Rightarrow> bool" where
  "spares env a b \<longleftrightarrow> k_active b = k_active a \<and> k_ops b = k_ops a \<and>
     (\<forall>g D. keptGen a g \<and> holds env (contents a) g D \<longrightarrow> holds env (contents b) g D)"

lemma spares_le: "k_active b = k_active a \<Longrightarrow> k_ops b = k_ops a \<Longrightarrow> content_le (contents a) (contents b) \<Longrightarrow> spares env a b"
  unfolding spares_def using holds_mono by blast

text \<open>Later moments at which the lock is held: the entries \<open>N\<close> are still there, and nothing new is to be kept.\<close>

definition le_on :: "v3refs \<Rightarrow> v3content \<Rightarrow> v3content \<Rightarrow> bool" where
  "le_on N C C' \<longleftrightarrow> (\<forall>n key x. (n, key) \<in> N \<longrightarrow> C n key = Some x \<longrightarrow> C' n key = Some x)"

definition afterwards :: "nat \<Rightarrow> v3refs \<Rightarrow> v3keys \<Rightarrow> v3keys \<Rightarrow> bool" where
  "afterwards t N k k' \<longleftrightarrow> (held t k' \<longrightarrow> held t k \<and> le_on N (contents k) (contents k') \<and> k_active k' = k_active k \<and>
     (\<forall>g. leasedGen k' g \<longrightarrow> leasedGen k g))"

lemma afterwards_refl [simp]: "afterwards t N k k"
  by (simp add: afterwards_def le_on_def)

lemma afterwards_trans: "afterwards t N a b \<Longrightarrow> afterwards t N b c \<Longrightarrow> afterwards t N a c"
  by (simp add: afterwards_def le_on_def)

lemma afterwards_sub: "afterwards t N a b \<Longrightarrow> M \<subseteq> N \<Longrightarrow> afterwards t M a b"
  by (fastforce simp: afterwards_def le_on_def)

text \<open>Tokens come from a counter: no lock has one that was not given yet.\<close>

definition given :: "nat \<Rightarrow> v3keys \<Rightarrow> bool" where
  "given t k \<longleftrightarrow> t \<le> ns_fence (k_global k) \<or> (\<forall>n e. lockOf n k \<noteq> Some (t, e))"

definition fenced :: "v3keys \<Rightarrow> bool" where
  "fenced k \<longleftrightarrow> (\<forall>t. given t k)"

text \<open>What other clients do to a lock with token \<open>t\<close>: they neither take it nor change it while it is good, and respect it.\<close>

definition heeds :: "nat \<Rightarrow> v3keys \<Rightarrow> v3keys \<Rightarrow> bool" where
  "heeds t k k' \<longleftrightarrow> (\<forall>n e. lockOf n k' = Some (t, e) \<longrightarrow> lockOf n k = Some (t, e)) \<and>
     (\<forall>e. lockOf Global k = Some (t, e) \<and> e > k_now k' \<longrightarrow> lockOf Global k' = Some (t, e)) \<and> afterwards t UNIV k k'"

text \<open>
  The rely of a collector with token \<open>t\<close>, step by step: the counter only grows, time goes on,
  and the lock with this token appears nowhere before it is given and is heeded afterwards.
  It says nothing of locks with other tokens.
\<close>

definition pruneStep :: "nat \<Rightarrow> v3keys \<Rightarrow> v3keys \<Rightarrow> bool" where
  "pruneStep t k k' \<longleftrightarrow> (given t k \<longrightarrow> given t k') \<and> ns_fence (k_global k) \<le> ns_fence (k_global k') \<and> k_now k \<le> k_now k' \<and>
     (t \<le> ns_fence (k_global k) \<longrightarrow> heeds t k k')"

definition pruneRely :: "nat \<Rightarrow> (v3keys \<Rightarrow> v3keys) \<Rightarrow> bool" where
  "pruneRely t f \<longleftrightarrow> (\<forall>k. pruneStep t k (f k))"

lemma heeds_refl [simp]: "heeds t k k"
  by (simp add: heeds_def)

lemma pruneStep_refl [simp]: "pruneStep t k k"
  by (simp add: pruneStep_def)

text \<open>The guarantee of a collector with token \<open>t\<close>: the rely of any other collector.\<close>

definition yields :: "nat \<Rightarrow> v3keys \<Rightarrow> v3keys \<Rightarrow> bool" where
  "yields t k k' \<longleftrightarrow> (\<forall>u. u \<noteq> t \<longrightarrow> pruneStep u k k')"

lemma yields_refl [simp]: "yields t k k"
  by (simp add: yields_def)

lemma yieldsI:
  assumes "ns_fence (k_global k) \<le> ns_fence (k_global k')" "k_now k' = k_now k"
    and "\<And>n u e. u \<noteq> t \<Longrightarrow> lockOf n k' = Some (u, e) \<Longrightarrow> lockOf n k = Some (u, e)"
    and "\<And>u e. u \<noteq> t \<Longrightarrow> lockOf Global k = Some (u, e) \<Longrightarrow> e > k_now k \<Longrightarrow> lockOf Global k' = Some (u, e)"
    and "\<And>u. u \<noteq> t \<Longrightarrow> held u k \<Longrightarrow> contents k' = contents k \<and> k_active k' = k_active k \<and> ns_leases (k_global k') = ns_leases (k_global k)"
  shows "yields t k k'"
  unfolding yields_def pruneStep_def
proof (intro allI impI conjI)
  fix u assume u: "u \<noteq> t"
  have h: "held u k" if "held u k'" using that assms(2) assms(3)[OF u] by (auto simp: held_iff)
  have "afterwards u UNIV k k'"
    using h assms(5)[OF u] assms(2) by (simp add: afterwards_def le_on_def leasedGen_def)
  then show "heeds u k k'"
    unfolding heeds_def using assms(2) assms(3,4)[OF u] by (intro conjI allI impI) simp_all
  show "given u k \<Longrightarrow> given u k'" using assms(1) assms(3)[OF u] by (fastforce simp: given_def)
qed (use assms(1,2) in auto)

text \<open>The invariant of a collector with token \<open>t\<close>: a lock of it on a shard ends within the usual time.\<close>

definition collecting :: "nat \<Rightarrow> v3keys \<Rightarrow> bool" where
  "collecting t k \<longleftrightarrow> t \<le> ns_fence (k_global k) \<and> (\<forall>s e. lockOf (Shard s) k = Some (t, e) \<longrightarrow> e \<le> k_now k + v3MaintenanceTTL)"

lemma rely_collecting:
  assumes "pruneRely t f" "collecting t k"
  shows "collecting t (f k)" "k_now k \<le> k_now (f k)" "heeds t k (f k)"
proof -
  have k: "ns_fence (k_global k) \<le> ns_fence (k_global (f k))" "k_now k \<le> k_now (f k)" "heeds t k (f k)"
    using assms by (simp_all add: pruneRely_def pruneStep_def collecting_def)
  show "k_now k \<le> k_now (f k)" "heeds t k (f k)" by (fact k)+
  show "collecting t (f k)" using assms(2) k by (fastforce simp: collecting_def heeds_def)
qed

text \<open>From one point of a collection to a later one.\<close>

definition sweeps :: "v3env \<Rightarrow> nat \<Rightarrow> v3refs \<Rightarrow> v3world \<Rightarrow> v3world \<Rightarrow> bool" where
  "sweeps env t N w w' \<longleftrightarrow> set (vw_env w') \<subseteq> set (vw_env w) \<and>
     (\<exists>hs. vw_past w' = vw_past w @ hs \<and> (\<forall>(a, b) \<in> set hs. spares env a b \<and> yields t a b)) \<and>
     (collecting t (vw_keys w) \<longrightarrow> collecting t (vw_keys w')) \<and> k_now (vw_keys w) \<le> k_now (vw_keys w') \<and> afterwards t N (vw_keys w) (vw_keys w')"

lemma sweeps_refl [simp]: "sweeps env t N w w"
  by (simp add: sweeps_def)

lemma sweeps_trans: "sweeps env t N a b \<Longrightarrow> sweeps env t N b c \<Longrightarrow> sweeps env t N a c"
  unfolding sweeps_def by (fastforce intro: afterwards_trans)

lemma sweeps_sub: "sweeps env t UNIV a b \<Longrightarrow> sweeps env t N a b"
  unfolding sweeps_def using afterwards_sub by blast

definition sweeping :: "nat \<Rightarrow> v3world \<Rightarrow> bool" where
  "sweeping t w \<longleftrightarrow> collecting t (vw_keys w) \<and> (\<forall>f \<in> set (vw_env w). pruneRely t f)"

lemma sweeps_sweeping: "sweeps env t N w w' \<Longrightarrow> sweeping t w \<Longrightarrow> sweeping t w'"
  by (auto simp: sweeps_def sweeping_def)

lemma others_sweep:
  assumes "sweeping t w"
  shows "collecting t (vw_keys (v3others w))" "k_now (vw_keys w) \<le> k_now (vw_keys (v3others w))" "heeds t (vw_keys w) (vw_keys (v3others w))"
proof -
  have "pruneRely t (next_or id (vw_env w))"
  proof (cases "vw_env w")
    case Nil
    then show ?thesis by (simp add: next_or_def pruneRely_def)
  qed (use assms in \<open>simp add: next_or_def sweeping_def\<close>)
  from rely_collecting[OF this, of "vw_keys w"] assms
  show "collecting t (vw_keys (v3others w))" "k_now (vw_keys w) \<le> k_now (vw_keys (v3others w))" "heeds t (vw_keys w) (vw_keys (v3others w))"
    by (simp_all add: sweeping_def v3others_def)
qed


text \<open>A command of the collector that deletes nothing.\<close>

definition gentle :: "nat \<Rightarrow> (v3keys \<Rightarrow> v3keys \<times> 'a) \<Rightarrow> bool" where
  "gentle t f \<longleftrightarrow> (\<forall>k. (collecting t k \<longrightarrow> collecting t (fst (f k))) \<and> yields t k (fst (f k)) \<and> k_now (fst (f k)) = k_now k \<and>
     k_active (fst (f k)) = k_active k \<and> k_ops (fst (f k)) = k_ops k \<and> contents (fst (f k)) = contents k \<and>
     (held t (fst (f k)) \<longrightarrow> held t k) \<and> ns_leases (k_global (fst (f k))) = ns_leases (k_global k))"

lemma command_sweeps:
  assumes f: "gentle t f" and w: "sweeping t w" and run: "v3command f w = (w', r)"
  shows "sweeps env t N w w'"
    and "r = Inr x \<Longrightarrow> \<exists>k. collecting t k \<and> k_now (vw_keys w) \<le> k_now k \<and> afterwards t UNIV (vw_keys w) k \<and> vw_keys w' = fst (f k) \<and> snd (f k) = x"
proof -
  let ?k = "vw_keys (v3others w)"
  note O = others_sweep[OF w]
  obtain k' y where fk: "f ?k = (k', y)" by fastforce
  have step: "collecting t k'" "k_now k' = k_now ?k" "spares env ?k k'" "afterwards t UNIV ?k k'" "yields t ?k k'"
    using f fk O(1) spares_le[of k' ?k env] unfolding gentle_def afterwards_def leasedGen_def le_on_def by (force, force, force, force, force)
  have o: "afterwards t UNIV (vw_keys w) ?k" using O(3) by (simp add: heeds_def)
  have "sweeps env t UNIV w w'"
    using run fk step O o afterwards_trans[OF o step(4)]
    by (auto simp: sweeps_def v3command_def v3others_def Let_def split: cmd_io.splits dest: subsetD[OF tl_subset])
  then show "sweeps env t N w w'" by (rule sweeps_sub)
  show "\<exists>k. collecting t k \<and> k_now (vw_keys w) \<le> k_now k \<and> afterwards t UNIV (vw_keys w) k \<and> vw_keys w' = fst (f k) \<and> snd (f k) = x" if "r = Inr x"
    by (rule exI[of _ ?k]) (use that run fk O(1,2) o in \<open>auto simp: v3command_def Let_def split: cmd_io.splits\<close>)
qed

lemma gentle_read [simp]: "gentle t (\<lambda>k. (k, f k))"
  by (simp add: gentle_def)

lemma lockOf_update: "lockOf n (ns_update n' f k) = (if n' = n then ns_maintenance (f (ns_get n k)) else lockOf n k)"
  by (simp add: lockOf_def)

lemma gentle_get [simp]: "gentle t (v3get key)"
  by (simp add: gentle_def v3get_def)

lemma gentle_fence [simp]: "gentle t (v3FenceScript t)"
proof -
  have y: "yields t k (fst (v3FenceScript t k))" for k
    by (rule yieldsI) (auto simp: v3FenceScript_def lockOf_update contents_keep held_def token_iff split: if_splits)
  then show ?thesis by (auto simp: gentle_def v3FenceScript_def collecting_def contents_keep lockOf_update held_def)
qed

lemma gentle_unlock [simp]: "gentle t (v3UnlockScript n t)"
proof -
  have y: "yields t k (fst (v3UnlockScript n t k))" for k
    by (rule yieldsI) (auto simp: v3UnlockScript_def lockOf_update contents_keep token_iff split: if_splits)
  then show ?thesis by (auto simp: gentle_def v3UnlockScript_def collecting_def contents_keep lockOf_update held_iff split: if_splits)
qed

lemma update_update: "ns_update n f (ns_update n g k) = ns_update n (\<lambda>s. f (g s)) k"
  by (cases n) (simp_all add: ns_update.simps)

text \<open>Writing to a shard, and possibly locking it.\<close>

lemma gentle_shard:
  assumes "\<And>k. fst (f k) = k \<or> (\<exists>g. fst (f k) = ns_update (Shard s) g k \<and> (\<forall>x. ns_content (g x) = ns_content x \<and>
      ns_maintenance (g x) \<in> {ns_maintenance x, Some (t, k_now k + v3MaintenanceTTL)}))"
  shows "gentle t f"
  unfolding gentle_def
proof
  fix k
  let ?P = "\<lambda>k'. (collecting t k \<longrightarrow> collecting t k') \<and> yields t k k' \<and> k_now k' = k_now k \<and> k_active k' = k_active k \<and> k_ops k' = k_ops k \<and>
    contents k' = contents k \<and> (held t k' \<longrightarrow> held t k) \<and> ns_leases (k_global k') = ns_leases (k_global k)"
  consider "fst (f k) = k" | g where "fst (f k) = ns_update (Shard s) g k" "\<And>x. ns_content (g x) = ns_content x"
      "\<And>x. ns_maintenance (g x) \<in> {ns_maintenance x, Some (t, k_now k + v3MaintenanceTTL)}"
    using assms[of k] by blast
  then show "?P (fst (f k))"
  proof cases
    case 2
    have l: "lockOf n (fst (f k)) \<in> {lockOf n k, Some (t, k_now k + v3MaintenanceTTL)}" "lockOf Global (fst (f k)) = lockOf Global k" for n
      using 2(3) by (auto simp: 2(1) lockOf_update lockOf_def)
    have "yields t k (fst (f k))"
    proof (rule yieldsI)
      show "u \<noteq> t \<Longrightarrow> lockOf n (fst (f k)) = Some (u, e) \<Longrightarrow> lockOf n k = Some (u, e)" for n u e using l(1)[of n] by auto
    qed (use l(2) in \<open>simp_all add: 2(1,2) contents_keep\<close>)
    moreover have "collecting t (fst (f k))" if c: "collecting t k"
    proof -
      have "lockOf (Shard s) (fst (f k)) = Some (t, e) \<Longrightarrow> e \<le> k_now k + v3MaintenanceTTL" for s e
        using c l(1)[of "Shard s"] by (auto simp: collecting_def)
      then show ?thesis using c by (simp add: collecting_def 2(1))
    qed
    ultimately show ?thesis using l(2) by (simp add: 2(1,2) contents_keep held_iff)
  qed simp
qed

lemma gentle_shardFence [simp]: "gentle t (v3ShardFenceScript t s)"
proof (rule gentle_shard)
  fix k :: v3keys
  let ?z = "\<lambda>x. x\<lparr>ns_writers := zexpire (k_now k) (ns_writers x)\<rparr>"
  let ?l = "\<lambda>x. (?z x)\<lparr>ns_fence := t, ns_maintenance := Some (t, k_now k + v3MaintenanceTTL)\<rparr>"
  have "fst (v3ShardFenceScript t s k) \<in> {k, ns_update (Shard s) ?z k, ns_update (Shard s) ?l k}"
    by (simp add: v3ShardFenceScript_def Let_def update_update)
  then show "fst (v3ShardFenceScript t s k) = k \<or> (\<exists>g. fst (v3ShardFenceScript t s k) = ns_update (Shard s) g k \<and>
      (\<forall>x. ns_content (g x) = ns_content x \<and> ns_maintenance (g x) \<in> {ns_maintenance x, Some (t, k_now k + v3MaintenanceTTL)}))"
    by (elim insertE emptyE) (auto intro: exI[of _ ?z] exI[of _ ?l])
qed

text \<open>A manifest is read while the keys change.\<close>

definition lockedSure :: "nat \<Rightarrow> v3world \<Rightarrow> (v3content \<Rightarrow> bool) \<Rightarrow> bool" where
  "lockedSure t w P \<longleftrightarrow> (\<forall>k. afterwards t UNIV (vw_keys w) k \<and> held t k \<longrightarrow> P (contents k))"

interpretation locked: reading "sweeping t" "sweeps env t UNIV" "lockedSure t" for env t
proof
  show "sweeps env t UNIV w w1" if "sweeping t w" "v3command (v3get key) w = (w1, r)" for w key w1 r
    by (rule command_sweeps(1)[OF gentle_get that])
  show "lockedSure t w1 (\<lambda>C. C (fst key) (snd key) = Some x)" if "sweeping t w" "v3command (v3get key) w = (w1, Inr (Some x))" for w key w1 x
    using command_sweeps(2)[OF gentle_get that refl] by (auto simp: lockedSure_def v3get_def contents_def afterwards_def le_on_def)
  show "sweeps env t UNIV w w' \<Longrightarrow> lockedSure t w P \<Longrightarrow> lockedSure t w' P" for w w' P
    unfolding lockedSure_def sweeps_def using afterwards_trans by blast
qed (auto simp: lockedSure_def intro: sweeps_trans sweeps_sweeping)


section \<open>What a generation needs\<close>

definition needs :: "gostring \<Rightarrow> v3Manifest \<Rightarrow> v3refs" where
  "needs g m = insert (Global, ''gen:'' @ g) (manifestRefs m)"

lemma le_onD: "le_on N C C' \<Longrightarrow> (n, key) \<in> N \<Longrightarrow> C n key = Some x \<Longrightarrow> C' n key = Some x"
  by (simp add: le_on_def)

lemma chunksIn_needed:
  assumes "le_on N C C'" "\<forall>h \<in> set hs. bucketChunkKey b h \<in> N" "chunksIn H C b hs = Some words"
  shows "chunksIn H C' b hs = Some words"
  using assms(2,3)
proof (induction hs arbitrary: words)
  case (Cons h hs)
  from Cons.prems(2) obtain data part rest where x: "C (fst (bucketChunkKey b h)) (snd (bucketChunkKey b h)) = Some (Blob data)"
    "decodeChunk H h data = Inr part" "chunksIn H C b hs = Some rest" "words = part @ rest"
    by (auto simp: bind_eq_Some_conv split: option.splits v3data.splits)
  have "C' (fst (bucketChunkKey b h)) (snd (bucketChunkKey b h)) = Some (Blob data)"
    by (rule le_onD[OF assms(1) _ x(1)]) (use Cons.prems(1) in simp)
  with x Cons show ?case by simp
qed simp

lemma bucketIn_needed:
  assumes "le_on N C C'" "set (map (bucketChunkKey b) (bk_Chunks b)) \<subseteq> N" "bucketIn H C b = Some words"
  shows "bucketIn H C' b = Some words"
  using assms chunksIn_needed[OF assms(1), of "bk_Chunks b" b H] by (auto simp: bucketIn_def bind_eq_Some_conv split: if_splits)

lemma shardsIn_needed:
  assumes "le_on N C C'" "\<forall>j \<in> set js. (Shard j, ''manifest:'' @ (gm_Shards g ! j)) \<in> N" "shardsIn C g js s = Some r"
  shows "shardsIn C' g js s = Some r"
  using assms(2,3)
proof (induction js arbitrary: s)
  case (Cons j js)
  obtain buckets n where s: "s = (buckets, n)" by fastforce
  from Cons.prems(2) obtain x where x: "C (Shard j) (''manifest:'' @ (gm_Shards g ! j)) = Some x" by (auto simp: s split: option.splits)
  have "C' (Shard j) (''manifest:'' @ (gm_Shards g ! j)) = Some x"
    by (rule le_onD[OF assms(1) _ x]) (use Cons.prems(1) in simp)
  with x Cons show ?case by (auto simp: s split: sum.splits prod.splits if_splits)
qed simp

lemma manifestIn_needed:
  assumes le: "le_on N C C'" and N: "needs g m \<subseteq> N" and m: "manifestIn cid C g = Some m"
  shows "manifestIn cid C' g = Some m"
proof -
  from m obtain x where x: "C Global (''gen:'' @ g) = Some x" by (auto simp: manifestIn_def split: if_splits option.splits)
  have x': "C' Global (''gen:'' @ g) = Some x" by (rule le_onD[OF le _ x]) (use N in \<open>simp add: needs_def\<close>)
  show ?thesis
  proof (cases "\<exists>gm. x = GlobalDoc gm")
    case False
    with m x x' show ?thesis by (auto simp: manifestIn_def split: v3data.splits if_splits)
  next
    case True
    then obtain g0 where "x = GlobalDoc g0" by blast
    with m x obtain gm buckets n where gm: "globalDocument (GlobalDoc g0) g = Inr gm"
      "shardsIn C gm [0..<length (gm_Shards gm)] (mf_Buckets zeroManifest, 0) = Some (buckets, n)" "mf_global m = Some gm"
      by (auto simp: manifestIn_def bind_eq_Some_conv split: if_splits)
    have "shardsIn C' gm [0..<length (gm_Shards gm)] (mf_Buckets zeroManifest, 0) = Some (buckets, n)"
      by (rule shardsIn_needed[OF le _ gm(2)]) (use N gm(3) in \<open>auto simp: needs_def manifestRefs_def\<close>)
    with m x x' gm \<open>x = GlobalDoc g0\<close> show ?thesis by (auto simp: manifestIn_def split: if_splits)
  qed
qed

lemma holds_needed:
  assumes le: "le_on N C C'" and N: "needs g m \<subseteq> N" and m: "manifestIn (ve_id env) C g = Some m" and h: "holds env C g D"
  shows "holds env C' g D"
proof -
  have "set (map (bucketChunkKey b) (bk_Chunks b)) \<subseteq> N" if "b \<in> set (mf_Buckets m)" for b
  proof -
    have "manifestRefs m \<subseteq> N" using N by (simp add: needs_def)
    with that show ?thesis by (auto simp: manifestRefs_def)
  qed
  then have "\<forall>i < v3BucketCount. bucketIn (ve_H env) C' (mf_Buckets m ! i) = Some (D i)"
    using h m bucketIn_needed[OF le] by (fastforce simp: holds_def)
  with h m manifestIn_needed[OF le N m] show ?thesis by (auto simp: holds_def)
qed

section \<open>Deletions\<close>

text \<open>
  While the lock is held, every generation to be kept is among \<open>keep\<close>, and what it needs
  among \<open>N\<close>.
\<close>

definition secured :: "v3env \<Rightarrow> gostring set \<Rightarrow> v3refs \<Rightarrow> nat \<Rightarrow> v3keys \<Rightarrow> bool" where
  "secured env keep N t k \<longleftrightarrow> (held t k \<longrightarrow>
     (\<forall>g. keptGen k g \<longrightarrow> g \<in> keep) \<and> (\<forall>g \<in> keep. \<exists>m. manifestIn (ve_id env) (contents k) g = Some m \<and> needs g m \<subseteq> N))"

lemma secured_after:
  assumes "afterwards t N k k'" "secured env keep N t k"
  shows "secured env keep N t k'"
  unfolding secured_def
proof
  assume "held t k'"
  with assms(1) have a: "held t k" "le_on N (contents k) (contents k')" "k_active k' = k_active k" "\<forall>g. leasedGen k' g \<longrightarrow> leasedGen k g"
    by (simp_all add: afterwards_def)
  with assms(2) have s: "\<forall>g. keptGen k g \<longrightarrow> g \<in> keep" "\<forall>g \<in> keep. \<exists>m. manifestIn (ve_id env) (contents k) g = Some m \<and> needs g m \<subseteq> N"
    by (simp_all add: secured_def)
  show "(\<forall>g. keptGen k' g \<longrightarrow> g \<in> keep) \<and> (\<forall>g \<in> keep. \<exists>m. manifestIn (ve_id env) (contents k') g = Some m \<and> needs g m \<subseteq> N)"
    using a s manifestIn_needed[OF a(2)] by (fastforce simp: keptGen_def)
qed

text \<open>A lock on a shard is good only while the global one is.\<close>

definition guarded :: "nat \<Rightarrow> nspace \<Rightarrow> v3keys \<Rightarrow> bool" where
  "guarded t n k \<longleftrightarrow> n = Global \<or> (\<forall>e. lockOf n k = Some (t, e) \<and> e > k_now k \<longrightarrow> (\<exists>e'. e' \<ge> e \<and> lockOf Global k = Some (t, e')))"

lemma guarded_code [code]:
  "guarded t n k \<longleftrightarrow> n = Global \<or>
     (case lockOf n k of None \<Rightarrow> True
      | Some (u, e) \<Rightarrow> u = t \<and> e > k_now k \<longrightarrow> (case lockOf Global k of None \<Rightarrow> False | Some (v, e') \<Rightarrow> v = t \<and> e \<le> e'))"
  by (auto simp: guarded_def split: option.splits)

lemma guarded_held: "guarded t n k \<Longrightarrow> maintenanceToken n k = Some t \<Longrightarrow> held t k"
  by (fastforce simp: guarded_def token_iff held_iff)

lemma guarded_heeds:
  assumes "guarded t n k" "heeds t k k'" "k_now k \<le> k_now k'"
  shows "guarded t n k'"
proof (cases "n = Global")
  case False
  have "\<exists>e'. e' \<ge> e \<and> lockOf Global k' = Some (t, e')" if e: "lockOf n k' = Some (t, e)" "e > k_now k'" for e
  proof -
    from assms(2,3) e have "lockOf n k = Some (t, e)" "e > k_now k" by (auto simp: heeds_def)
    with assms(1) False obtain e' where e': "e' \<ge> e" "lockOf Global k = Some (t, e')" by (auto simp: guarded_def)
    with e assms(2) have "lockOf Global k' = Some (t, e')" by (simp add: heeds_def)
    with e'(1) show ?thesis by blast
  qed
  then show ?thesis by (simp add: guarded_def)
qed (simp add: guarded_def)

lemma deleteIDs_fields:
  "ns_content (deleteIDs registry pre ids s) key = (if key \<in> (\<lambda>x. pre @ x) ` set ids then None else ns_content s key)"
  "ns_maintenance (deleteIDs registry pre ids s) = ns_maintenance s" "ns_fence (deleteIDs registry pre ids s) = ns_fence s"
  "ns_leases (deleteIDs registry pre ids s) = ns_leases s"
  unfolding deleteIDs_def by (induction ids arbitrary: s) auto

lemma deleteIDs_lock: "lockOf n' (fst (v3DeleteScript n t registry pre ids k)) = lockOf n' k"
  by (auto simp: v3DeleteScript_def lockOf_update deleteIDs_fields lockOf_def)

lemma delete_yields:
  assumes "guarded t n k"
  shows "yields t k (fst (v3DeleteScript n t registry pre ids k))"
proof (rule yieldsI)
  fix u assume u: "u \<noteq> t" "held u k"
  then have "maintenanceToken n k \<noteq> Some t" using guarded_held[OF assms] by (auto simp: held_def)
  then show "contents (fst (v3DeleteScript n t registry pre ids k)) = contents k \<and> k_active (fst (v3DeleteScript n t registry pre ids k)) = k_active k \<and>
      ns_leases (k_global (fst (v3DeleteScript n t registry pre ids k))) = ns_leases (k_global k)"
    by (simp add: v3DeleteScript_def)
qed (simp_all add: deleteIDs_lock, simp_all add: v3DeleteScript_def deleteIDs_fields)

lemma delete_step:
  assumes "secured env keep N t k" "guarded t n k" and ids: "\<forall>x \<in> set ids. (n, pre @ x) \<notin> N"
  shows "spares env k (fst (v3DeleteScript n t registry pre ids k))" "afterwards t N k (fst (v3DeleteScript n t registry pre ids k))"
    "collecting t k \<Longrightarrow> collecting t (fst (v3DeleteScript n t registry pre ids k))" "k_now (fst (v3DeleteScript n t registry pre ids k)) = k_now k"
    "yields t k (fst (v3DeleteScript n t registry pre ids k))"
proof -
  let ?k = "fst (v3DeleteScript n t registry pre ids k)"
  note lock = deleteIDs_lock[of _ n t registry pre ids k]
  have same: "k_active ?k = k_active k" "k_ops ?k = k_ops k" "k_now ?k = k_now k" "ns_fence (k_global ?k) = ns_fence (k_global k)"
    "ns_leases (k_global ?k) = ns_leases (k_global k)"
    by (auto simp: v3DeleteScript_def deleteIDs_fields)
  show "k_now ?k = k_now k" by (fact same(3))
  show "collecting t k \<Longrightarrow> collecting t ?k" by (simp add: collecting_def lock same)
  have le: "le_on N (contents k) (contents ?k)"
    using ids by (auto simp: le_on_def v3DeleteScript_def contents_update deleteIDs_fields) (auto simp: contents_def)
  show "yields t k ?k" by (rule delete_yields[OF assms(2)])
  have h: "held t ?k \<longleftrightarrow> held t k" by (simp add: held_iff lock same)
  have kept: "keptGen ?k g \<longleftrightarrow> keptGen k g" "leasedGen ?k g \<longleftrightarrow> leasedGen k g" for g by (simp_all add: keptGen_def leasedGen_def same)
  show "afterwards t N k ?k" using le by (simp add: afterwards_def h kept same)
  show "spares env k ?k"
  proof (cases "maintenanceToken n k = Some t")
    case True
    then have "held t k" by (rule guarded_held[OF assms(2)])
    with assms(1) have s: "\<forall>g. keptGen k g \<longrightarrow> g \<in> keep" "\<forall>g \<in> keep. \<exists>m. manifestIn (ve_id env) (contents k) g = Some m \<and> needs g m \<subseteq> N"
      by (simp_all add: secured_def)
    then show ?thesis using holds_needed[OF le] same(1,2) unfolding spares_def by blast
  qed (simp add: v3DeleteScript_def spares_def)
qed


lemma delete_sweeps:
  assumes w: "sweeping t w" and s: "secured env keep N t (vw_keys w)" and g: "guarded t n (vw_keys w)"
    and ids: "\<forall>x \<in> set ids. (n, pre @ x) \<notin> N" and run: "v3command (v3DeleteScript n t registry pre ids) w = (w', r)"
  shows "sweeps env t N w w'"
proof -
  let ?k = "vw_keys (v3others w)" and ?f = "v3DeleteScript n t registry pre ids"
  note O = others_sweep[OF w]
  have o: "afterwards t N (vw_keys w) ?k" using O(3) afterwards_sub[of t UNIV _ _ N] by (simp add: heeds_def)
  note D = delete_step[OF secured_after[OF o s] guarded_heeds[OF g O(3,2)] ids, of registry]
  obtain k' x where fk: "?f ?k = (k', x)" by fastforce
  from D fk O(1) have step: "spares env ?k k'" "afterwards t N ?k k'" "collecting t k'" "k_now k' = k_now ?k" "yields t ?k k'" by simp_all
  show ?thesis
    using run fk step O(1,2) o afterwards_trans[OF o step(2)]
    by (auto simp: sweeps_def v3command_def v3others_def Let_def split: cmd_io.splits dest: subsetD[OF tl_subset])
qed

lemma secured_sweeps: "sweeps env t N w w' \<Longrightarrow> secured env keep N t (vw_keys w) \<Longrightarrow> secured env keep N t (vw_keys w')"
  using secured_after by (auto simp: sweeps_def)

lemma deleteAt_sweeps:
  assumes renew: "\<And>v v' r. sweeping t v \<Longrightarrow> renew v = (v', r) \<Longrightarrow> sweeps env t N v v' \<and> (\<forall>x. r = Inr x \<longrightarrow> guarded t n (vw_keys v'))"
    and "sweeping t w" "secured env keep N t (vw_keys w)" "\<forall>x \<in> set ids. (n, pre @ x) \<notin> N"
    and "pruneDeleteAt n t registry pre renew ids acc w = (w', res)"
  shows "sweeps env t N w w'"
  using assms(2-5)
proof (induction "length ids" arbitrary: ids acc w rule: less_induct)
  case less
  show ?case
  proof (cases "ids = []")
    case True
    with less.prems(4) show ?thesis by (simp add: pruneDeleteAt.simps)
  next
    case False
    obtain w1 r1 where 1: "renew w = (w1, r1)" by fastforce
    note R = renew[OF less.prems(1) 1]
    have s1: "sweeping t w1" "secured env keep N t (vw_keys w1)" using R less.prems(1,2) sweeps_sweeping secured_sweeps by blast+
    show ?thesis
    proof (cases r1)
      case (Inl err)
      with less.prems(4) 1 False R show ?thesis by (simp add: pruneDeleteAt.simps[of n t registry pre renew ids])
    next
      case (Inr u)
      obtain w2 r2 where 2: "v3command (v3DeleteScript n t registry pre (take v3PruneBatch ids)) w1 = (w2, r2)" by fastforce
      have S: "sweeps env t N w1 w2"
        by (rule delete_sweeps[OF s1 _ _ 2]) (use R Inr less.prems(3) in \<open>auto dest: in_set_takeD\<close>)
      have s2: "sweeping t w2" "secured env keep N t (vw_keys w2)" using S s1 sweeps_sweeping secured_sweeps by blast+
      have S02: "sweeps env t N w w2" using sweeps_trans R S by blast
      have "w' = w2 \<or> (\<exists>acc'. pruneDeleteAt n t registry pre renew (drop v3PruneBatch ids) acc' w2 = (w', res))"
        using less.prems(4) 1 2 False Inr by (auto simp: pruneDeleteAt.simps[of n t registry pre renew ids] split: sum.splits if_splits)
      then show ?thesis
      proof
        assume "\<exists>acc'. pruneDeleteAt n t registry pre renew (drop v3PruneBatch ids) acc' w2 = (w', res)"
        then obtain acc' where p: "pruneDeleteAt n t registry pre renew (drop v3PruneBatch ids) acc' w2 = (w', res)" by blast
        have "sweeps env t N w2 w'"
          by (rule less.hyps[OF _ s2 _ p]) (use False less.prems(3) in \<open>auto simp: v3PruneBatch_def dest: in_set_dropD\<close>)
        with S02 show ?thesis by (rule sweeps_trans)
      qed (use S02 in simp)
    qed
  qed
qed

section \<open>Renewing the locks\<close>

lemma fence_sweeps:
  assumes w: "sweeping t w" and run: "v3_fence t w = (w', r)"
  shows "sweeps env t N w w'" "r = Inr x \<Longrightarrow> lockOf Global (vw_keys w') = Some (t, k_now (vw_keys w') + v3MaintenanceTTL)"
proof -
  obtain w1 c where c: "v3command (v3FenceScript t) w = (w1, c)" by fastforce
  note C = command_sweeps[OF gentle_fence w c]
  from run c have w': "w' = w1" "r = bindR c (\<lambda>n. if n \<noteq> 1 then Inl ErrMaintenance else Inr ())"
    by (auto simp: v3_fence_def bindW_def split: sum.splits)
  show "sweeps env t N w w'" using C(1) w' by simp
  assume "r = Inr x"
  then have "c = Inr 1" using w'(2) by (cases c) (auto split: if_splits)
  from C(2)[OF this] w'(1) show "lockOf Global (vw_keys w') = Some (t, k_now (vw_keys w') + v3MaintenanceTTL)"
    by (auto simp: v3FenceScript_def lockOf_update split: if_splits)
qed

lemma gentle_sweeps: "gentle t f \<Longrightarrow> sweeping t w \<Longrightarrow> sweeps env t N w (fst (v3command f w))"
  using command_sweeps(1) by (metis prod.collapse)

lemma shardFence_sweeps:
  assumes w: "sweeping t w" and run: "pruneShardFence t s w = (w', r)"
  shows "sweeps env t N w w'" "r = Inr x \<Longrightarrow> guarded t (Shard s) (vw_keys w')"
proof -
  obtain w1 c where c: "v3command (v3ShardFenceScript t s) w = (w1, c)" by fastforce
  note C = command_sweeps(1)[OF gentle_shardFence w c]
  have w1: "sweeping t w1" using sweeps_sweeping[OF C w] .
  obtain w2 q where q: "v3_fence t w1 = (w2, q)" by fastforce
  note F = fence_sweeps[OF w1 q]
  have w2: "sweeping t w2" using sweeps_sweeping[OF F(1) w1] .
  have "w' = w1 \<and> (\<forall>x. r \<noteq> Inr x) \<or> w' = fst (v3command (v3UnlockScript (Shard s) t) w2) \<and> (\<forall>x. r \<noteq> Inr x) \<or> w' = w2 \<and> q = Inr ()"
    using run c q by (auto simp: pruneShardFence_def bindW_def split: sum.splits if_splits)
  note cases = this
  have u: "sweeps env t N w2 (fst (v3command (v3UnlockScript (Shard s) t) w2))" by (rule gentle_sweeps[OF gentle_unlock w2])
  have S: "sweeps env t N w w2" by (rule sweeps_trans[OF C F(1)])
  show "sweeps env t N w w'" using cases C S sweeps_trans[OF S u] by (elim disjE) simp_all
  assume "r = Inr x"
  with cases have "w' = w2" "q = Inr ()" by auto
  then show "guarded t (Shard s) (vw_keys w')" using F(2) w2 by (force simp: guarded_def sweeping_def collecting_def)
qed

lemma candidates_sweeps:
  assumes w: "sweeping t w" and run: "pruneCandidates n registry pre refs w = (w', r)"
  shows "sweeps env t N w w'" "r = Inr xs \<Longrightarrow> \<forall>x \<in> set xs. (n, pre @ x) \<notin> refs"
proof -
  obtain w1 c where c: "v3command (\<lambda>k. (k, map fst (zrange (ns_registry (ns_get n k) registry)))) w = (w1, c)" by fastforce
  note C = command_sweeps(1)[OF gentle_read w c]
  show "sweeps env t N w w'" using C run c by (auto simp: pruneCandidates_def bindW_def split: sum.splits)
  show "r = Inr xs \<Longrightarrow> \<forall>x \<in> set xs. (n, pre @ x) \<notin> refs" using run c by (auto simp: pruneCandidates_def bindW_def split: sum.splits)
qed


section \<open>The sweep spares what is kept\<close>

text \<open>The entries that are protected: the generations to keep, and what was found to be referred to.\<close>

definition protected :: "gostring set \<Rightarrow> v3refs \<Rightarrow> v3refs" where
  "protected keep refs = (\<lambda>g. (Global, ''gen:'' @ g)) ` keep \<union> refs"

lemma unprotected:
  "(n, pre @ x) \<notin> refs \<Longrightarrow> pre \<in> {''chunk:'', ''manifest:''} \<Longrightarrow> (n, pre @ x) \<notin> protected keep refs"
  by (auto simp: protected_def)

lemma candidates_dead:
  assumes "sweeping t w" "pruneCandidates n registry pre refs w = (w', Inr xs)" "pre \<in> {''chunk:'', ''manifest:''}"
  shows "\<forall>x \<in> set xs. (n, pre @ x) \<notin> protected keep refs"
  using candidates_sweeps(2)[OF assms(1,2) refl] unprotected[OF _ assms(3)] by blast

lemma shardBody_sweeps:
  assumes w: "sweeping t w" and s: "secured env keep (protected keep refs) t (vw_keys w)" and run: "pruneShardBody t shard refs w = (w', res)"
  shows "sweeps env t (protected keep refs) w w'"
proof -
  let ?N = "protected keep refs"
  have renew: "sweeps env t ?N v v' \<and> (\<forall>x. r = Inr x \<longrightarrow> guarded t (Shard shard) (vw_keys v'))"
    if "sweeping t v" "pruneShardFence t shard v = (v', r)" for v v' r
    using shardFence_sweeps[OF that] by blast
  obtain w1 c where 1: "pruneCandidates (Shard shard) ''chunks'' ''chunk:'' refs w = (w1, c)" by fastforce
  have S1: "sweeps env t ?N w w1" by (rule candidates_sweeps(1)[OF w 1])
  have w1: "sweeping t w1" by (rule sweeps_sweeping[OF S1 w])
  show ?thesis
  proof (cases c)
    case (Inl err)
    with run 1 S1 show ?thesis by (simp add: pruneShardBody_def)
  next
    case chunks: (Inr chunks)
    obtain w2 m where 2: "pruneCandidates (Shard shard) ''manifests'' ''manifest:'' refs w1 = (w2, m)" by fastforce
    have S2: "sweeps env t ?N w1 w2" by (rule candidates_sweeps(1)[OF w1 2])
    have w2: "sweeping t w2" by (rule sweeps_sweeping[OF S2 w1])
    have S02: "sweeps env t ?N w w2" by (rule sweeps_trans[OF S1 S2])
    show ?thesis
    proof (cases m)
      case (Inl err)
      with run 1 2 chunks S02 show ?thesis by (simp add: pruneShardBody_def)
    next
      case manifests: (Inr manifests)
      obtain w3 a e where 3: "pruneDeleteAt (Shard shard) t ''chunks'' ''chunk:'' (pruneShardFence t shard) chunks 0 w2 = (w3, a, e)" by (metis surj_pair)
      obtain w4 b e4 where 4: "pruneDeleteAt (Shard shard) t ''manifests'' ''manifest:'' (pruneShardFence t shard) manifests 0 w3 = (w4, b, e4)" by (metis surj_pair)
      have S3: "sweeps env t ?N w2 w3"
        by (rule deleteAt_sweeps[OF renew w2 secured_sweeps[OF S02 s] candidates_dead[OF w 1[unfolded chunks]] 3]) simp_all
      have S03: "sweeps env t ?N w w3" by (rule sweeps_trans[OF S02 S3])
      have S4: "sweeps env t ?N w3 w4"
        by (rule deleteAt_sweeps[OF renew sweeps_sweeping[OF S3 w2] secured_sweeps[OF S03 s] candidates_dead[OF w1 2[unfolded manifests]] 4]) simp_all
      have "w' = w3 \<or> w' = w4" using run 1 2 3 4 chunks manifests by (auto simp: pruneShardBody_def split: option.splits)
      with S03 sweeps_trans[OF S03 S4] show ?thesis by blast
    qed
  qed
qed

lemma pruneShard_sweeps:
  assumes w: "sweeping t w" and s: "secured env keep (protected keep refs) t (vw_keys w)" and run: "pruneShard t shard refs w = (w', res)"
  shows "sweeps env t (protected keep refs) w w'"
proof -
  let ?N = "protected keep refs"
  obtain w1 r where 1: "pruneShardFence t shard w = (w1, r)" by fastforce
  have S1: "sweeps env t ?N w w1" by (rule shardFence_sweeps(1)[OF w 1])
  obtain w2 a e where 2: "pruneShardBody t shard refs w1 = (w2, a, e)" by (metis surj_pair)
  have S2: "sweeps env t ?N w1 w2" by (rule shardBody_sweeps[OF sweeps_sweeping[OF S1 w] secured_sweeps[OF S1 s] 2])
  have S02: "sweeps env t ?N w w2" by (rule sweeps_trans[OF S1 S2])
  have "sweeps env t ?N w2 (fst (v3command (v3UnlockScript (Shard shard) t) w2))"
    by (rule gentle_sweeps[OF gentle_unlock sweeps_sweeping[OF S02 w]])
  with S02 have "sweeps env t ?N w (fst (v3command (v3UnlockScript (Shard shard) t) w2))" by (rule sweeps_trans)
  with run 1 2 S1 show ?thesis by (auto simp: pruneShard_def split: sum.splits)
qed

lemma sweepShards_sweeps:
  assumes "sweeping t w" "secured env keep (protected keep refs) t (vw_keys w)" "sweepShards t refs work acc w = (w', res)"
  shows "sweeps env t (protected keep refs) w w'"
  using assms
proof (induction work arbitrary: acc w)
  case (Cons x work)
  obtain shard r where x: "x = (shard, r)" by fastforce
  show ?case
  proof (cases "r = Inr 0")
    case True
    with Cons show ?thesis by (simp add: x)
  next
    case False
    obtain w1 a e where 1: "pruneShard t shard refs w = (w1, a, e)" by (metis surj_pair)
    have S: "sweeps env t (protected keep refs) w w1" by (rule pruneShard_sweeps[OF Cons.prems(1,2) 1])
    show ?thesis
    proof (cases e)
      case None
      with Cons.prems(3) 1 False have "sweepShards t refs work (acc + a) w1 = (w', res)" by (simp add: x)
      from Cons.IH[OF sweeps_sweeping[OF S Cons.prems(1)] secured_sweeps[OF S Cons.prems(2)] this] S show ?thesis using sweeps_trans by blast
    qed (use Cons.prems(3) 1 False S x in simp)
  qed
qed simp

lemma pipelineExists_sweeps:
  assumes "sweeping t w" "pipelineExists shards w = (w', rs)"
  shows "sweeps env t N w w'"
  using assms
proof (induction shards arbitrary: w rs)
  case (Cons shard shards)
  obtain w1 r where 1: "v3command (\<lambda>k. (k, occupied shard k)) w = (w1, r)" by fastforce
  obtain rs2 where 2: "pipelineExists shards w1 = (w', rs2)" using Cons.prems(2) 1 by (auto split: prod.splits)
  note S = command_sweeps(1)[OF gentle_read Cons.prems(1) 1]
  from sweeps_trans[OF S Cons.IH[OF sweeps_sweeping[OF S Cons.prems(1)] 2]] show ?case .
qed simp

lemma sweepBatches_sweeps:
  assumes "sweeping t w" "secured env keep (protected keep refs) t (vw_keys w)" "sweepBatches t refs starts acc w = (w', res)"
  shows "sweeps env t (protected keep refs) w w'"
  using assms
proof (induction starts arbitrary: acc w)
  case (Cons start starts)
  let ?N = "protected keep refs" and ?shards = "[start..<min (start + v3PruneBatch) (unat v3MaxShardCount)]"
  obtain w1 r where 1: "v3_fence t w = (w1, r)" by fastforce
  have S1: "sweeps env t ?N w w1" by (rule fence_sweeps(1)[OF Cons.prems(1) 1])
  obtain w2 rs where 2: "pipelineExists ?shards w1 = (w2, rs)" by fastforce
  have S2: "sweeps env t ?N w w2" by (rule sweeps_trans[OF S1 pipelineExists_sweeps[OF sweeps_sweeping[OF S1 Cons.prems(1)] 2]])
  obtain w3 a e where 3: "sweepShards t refs (zip ?shards rs) acc w2 = (w3, a, e)" by (metis surj_pair)
  have S3: "sweeps env t ?N w w3"
    by (rule sweeps_trans[OF S2 sweepShards_sweeps[OF sweeps_sweeping[OF S2 Cons.prems(1)] secured_sweeps[OF S2 Cons.prems(2)] 3]])
  have "w' \<in> {w1, w2, w3} \<or> sweepBatches t refs starts a w3 = (w', res)"
    using Cons.prems(3) 1 2 3 by (auto simp: Let_def split: sum.splits option.splits)
  then show ?case
    using S1 S2 S3 sweeps_trans[OF S3 Cons.IH[OF sweeps_sweeping[OF S3 Cons.prems(1)] secured_sweeps[OF S3 Cons.prems(2)]]] by blast
qed simp


section \<open>Finding what to keep\<close>

lemma set_zrange: "set (zrange z) = set z"
  by (force simp: zrange_def)

lemma cutSlash_member: "CHR ''/'' \<notin> set g \<Longrightarrow> cutSlash (g @ ''/'' @ x) = g"
proof -
  assume "CHR ''/'' \<notin> set g"
  then have "takeWhile (\<lambda>c. c \<noteq> CHR ''/'') (g @ CHR ''/'' # x) = g" by (subst takeWhile_append2) auto
  then show ?thesis by (simp add: cutSlash_def)
qed

text \<open>From the reading of the leases on, everything to be kept is found, whenever the lock is still held.\<close>

lemma keep_covers:
  assumes w: "sweeping t w" and now: "now * v3MillisPerSecond \<le> k_now (vw_keys w)" and run: "pruneKeep now w = (w', r)"
  shows "sweeps env t N w w'"
    and "r = Inr (keep, gens) \<Longrightarrow> afterwards t UNIV (vw_keys w') k \<Longrightarrow> held t k \<Longrightarrow> keptGen k g \<Longrightarrow> g \<in> set keep"
proof -
  obtain w1 a where 1: "v3command (\<lambda>k. (k, k_active k)) w = (w1, a)" by fastforce
  obtain w2 b where 2: "v3command (\<lambda>k. (k, zrange (ns_leases (k_global k)))) w1 = (w2, b)" by fastforce
  obtain w3 c where 3: "v3command (\<lambda>k. (k, zrange (ns_registry (k_global k) ''generations''))) w2 = (w3, c)" by fastforce
  have S: "sweeps env t N w w1" for N by (rule command_sweeps(1)[OF gentle_read w 1])
  have w1: "sweeping t w1" by (rule sweeps_sweeping[OF S[of UNIV] w])
  have S2: "sweeps env t N w1 w2" for N by (rule command_sweeps(1)[OF gentle_read w1 2])
  have w2: "sweeping t w2" by (rule sweeps_sweeping[OF S2[of UNIV] w1])
  have S3: "sweeps env t N w2 w3" for N by (rule command_sweeps(1)[OF gentle_read w2 3])
  have "w' \<in> {w1, w2, w3}" using run 1 2 3 by (auto simp: pruneKeep_def bindW_def split: sum.splits option.splits)
  then show "sweeps env t N w w'" using S[of N] sweeps_trans[OF S S2, of N] sweeps_trans[OF sweeps_trans[OF S S2] S3, of N] by blast
  assume r: "r = Inr (keep, gens)" and k: "afterwards t UNIV (vw_keys w') k" "held t k" and g: "keptGen k g"
  from run r 1 2 3 obtain active leases where ok: "a = Inr (Some active)" "b = Inr leases" "w' = w3"
    and keep': "keep = remdups (active # map (\<lambda>l. cutSlash (fst l)) (filter (\<lambda>l. snd l > now * v3MillisPerSecond) leases) @
      map fst (filter (\<lambda>g. snd g \<ge> now - v3RetentionSeconds) gens))"
    by (auto simp: pruneKeep_def bindW_def simp del: remdups.simps split: sum.splits option.splits)
  have keep: "set keep = insert active ((\<lambda>l. cutSlash (fst l)) ` {l \<in> set leases. snd l > now * v3MillisPerSecond} \<union>
      fst ` {g \<in> set gens. snd g \<ge> now - v3RetentionSeconds})"
    unfolding keep' by (auto simp del: remdups.simps)
  have a: "k_active (vw_keys w1) = Some active" using command_sweeps(2)[OF gentle_read w 1 ok(1)] by auto
  have l: "leases = zrange (ns_leases (k_global (vw_keys w2)))" using command_sweeps(2)[OF gentle_read w1 2 ok(2)] by auto
  have k2: "afterwards t UNIV (vw_keys w2) k" using S3[of UNIV] k(1) ok(3) afterwards_trans by (auto simp: sweeps_def)
  have k1: "afterwards t UNIV (vw_keys w1) k" using S2[of UNIV] k2 afterwards_trans by (auto simp: sweeps_def)
  from g show "g \<in> set keep" unfolding keptGen_def
  proof
    assume "k_active k = Some g"
    with k1 k(2) a have "g = active" by (auto simp: afterwards_def)
    with keep show ?thesis by simp
  next
    assume "leasedGen k g"
    with k2 k(2) have "leasedGen (vw_keys w2) g" by (simp add: afterwards_def)
    then obtain x e where x: "CHR ''/'' \<notin> set g" "map_of (ns_leases (k_global (vw_keys w2))) (g @ ''/'' @ x) = Some e" "e > k_now (vw_keys w2)"
      by (auto simp: leasedGen_def zlive_def split: option.splits)
    have "k_now (vw_keys w) \<le> k_now (vw_keys w2)" using S[of UNIV] S2[of UNIV] by (auto simp: sweeps_def)
    with now x(3) have e: "e > now * v3MillisPerSecond" by simp
    have "(g @ ''/'' @ x, e) \<in> set leases" using map_of_SomeD[OF x(2)] by (simp add: l set_zrange)
    with e have "cutSlash (g @ ''/'' @ x) \<in> set keep" unfolding keep by force
    then show ?thesis using cutSlash_member[OF x(1)] by simp
  qed
qed

definition refs_ok :: "v3refs \<Rightarrow> bool" where
  "refs_ok refs \<longleftrightarrow> (\<forall>g. (Global, ''gen:'' @ g) \<notin> refs)"

lemma manifestRefs_ok: "refs_ok (manifestRefs m)"
  by (auto simp: refs_ok_def manifestRefs_def bucketChunkKey_def split: option.splits)

lemma reference_step:
  assumes o: "env_opts_ok env" and w: "sweeping t w" and run: "pruneReference env t g refs w = (w', r)"
  shows "sweeps env t UNIV w w'" "r = Inr refs' \<Longrightarrow> \<exists>m. refs' = refs \<union> manifestRefs m \<and> lockedSure t w' (\<lambda>C. manifestIn (ve_id env) C g = Some m)"
proof -
  obtain w1 a where 1: "v3_fence t w = (w1, a)" by fastforce
  have S: "sweeps env t UNIV w w1" by (rule fence_sweeps(1)[OF w 1])
  obtain w2 b where 2: "loadManifest env g w1 = (w2, b)" by fastforce
  have L: "sweeps env t UNIV w1 w2 \<and> (\<forall>m. b = Inr m \<longrightarrow> lockedSure t w2 (\<lambda>C. manifestIn (ve_id env) C g = Some m))"
    by (rule locked.loadManifest_correct[OF o sweeps_sweeping[OF S w] 2])
  have "w' \<in> {w1, w2}" using run 1 2 by (auto simp: pruneReference_def bindW_def split: sum.splits)
  then show "sweeps env t UNIV w w'" using S L sweeps_trans by blast
  show "\<exists>m. refs' = refs \<union> manifestRefs m \<and> lockedSure t w' (\<lambda>C. manifestIn (ve_id env) C g = Some m)" if "r = Inr refs'"
    using run 1 2 L that by (auto simp: pruneReference_def bindW_def split: sum.splits)
qed

lemma references_found:
  assumes o: "env_opts_ok env" and "sweeping t w" "refs_ok refs0" "loopW (pruneReference env t) gs refs0 w = (w', r)"
  shows "sweeps env t UNIV w w' \<and> (\<forall>refs. r = Inr refs \<longrightarrow> refs0 \<subseteq> refs \<and> refs_ok refs \<and>
    (\<forall>g \<in> set gs. \<exists>m. lockedSure t w' (\<lambda>C. manifestIn (ve_id env) C g = Some m) \<and> manifestRefs m \<subseteq> refs))"
  using assms(2-4)
proof (induction gs arbitrary: refs0 w)
  case (Cons g gs)
  from Cons.prems(3) have "bindW (pruneReference env t g refs0 w) (\<lambda>w refs. loopW (pruneReference env t) gs refs w) = (w', r)" by simp
  then show ?case
  proof (cases rule: bindW_cases)
    case (fail w1 err)
    with reference_step(1)[OF o Cons.prems(1) fail(1)] show ?thesis by simp
  next
    case (cont w1 refs1)
    have S: "sweeps env t UNIV w w1" by (rule reference_step(1)[OF o Cons.prems(1) cont(1)])
    from reference_step(2)[OF o Cons.prems(1) cont(1) refl] obtain m where m: "refs1 = refs0 \<union> manifestRefs m"
      "lockedSure t w1 (\<lambda>C. manifestIn (ve_id env) C g = Some m)" by blast
    have "refs_ok refs1" using Cons.prems(2) manifestRefs_ok[of m] by (auto simp: m(1) refs_ok_def)
    note IH = Cons.IH[OF sweeps_sweeping[OF S Cons.prems(1)] this cont(2)]
    have "lockedSure t w' (\<lambda>C. manifestIn (ve_id env) C g = Some m)" using locked.sure_goes[OF _ m(2)] IH by blast
    moreover have "sweeps env t UNIV w w'" using sweeps_trans[OF S] IH by blast
    ultimately show ?thesis using IH m(1) by auto
  qed
qed auto


section \<open>Pruning as a whole\<close>

lemma pruneSweep_sweeps:
  assumes w: "sweeping t w" and s: "secured env (set keep) (protected (set keep) refs) t (vw_keys w)" and refs: "refs_ok refs"
    and run: "pruneSweep t keep gens refs w = (w', res)"
  shows "sweeps env t (protected (set keep) refs) w w'"
proof -
  let ?N = "protected (set keep) refs"
  have renew: "sweeps env t ?N v v' \<and> (\<forall>x. r = Inr x \<longrightarrow> guarded t Global (vw_keys v'))" if "sweeping t v" "v3_fence t v = (v', r)" for v v' r
    using fence_sweeps(1)[OF that] by (simp add: guarded_def)
  obtain w1 c where 1: "pruneCandidates Global ''chunks'' ''chunk:'' refs w = (w1, c)" by fastforce
  have S1: "sweeps env t ?N w w1" by (rule candidates_sweeps(1)[OF w 1])
  show ?thesis
  proof (cases c)
    case (Inl err)
    with run 1 S1 show ?thesis by (simp add: pruneSweep_def)
  next
    case dead: (Inr dead)
    obtain w2 n e2 where 2: "pruneDelete t ''chunks'' ''chunk:'' dead w1 = (w2, n, e2)" by (metis surj_pair)
    have S2: "sweeps env t ?N w w2"
      by (rule sweeps_trans[OF S1 deleteAt_sweeps[OF renew sweeps_sweeping[OF S1 w] secured_sweeps[OF S1 s] candidates_dead[OF w 1[unfolded dead]] 2[unfolded pruneDelete_def]]])
        simp_all
    let ?gens = "filter (\<lambda>g. g \<notin> set keep) (map fst gens)"
    obtain w3 g e3 where 3: "pruneDelete t ''generations'' ''gen:'' ?gens w2 = (w3, g, e3)" by (metis surj_pair)
    have "\<forall>x \<in> set ?gens. (Global, ''gen:'' @ x) \<notin> ?N" using refs by (auto simp: protected_def refs_ok_def)
    from deleteAt_sweeps[OF renew sweeps_sweeping[OF S2 w] secured_sweeps[OF S2 s] this 3[unfolded pruneDelete_def]]
    have S3: "sweeps env t ?N w w3" using sweeps_trans[OF S2] by blast
    obtain w4 m e4 where 4: "pruneShards t refs n w3 = (w4, m, e4)" by (metis surj_pair)
    have S4: "sweeps env t ?N w w4"
      by (rule sweeps_trans[OF S3 sweepBatches_sweeps[OF sweeps_sweeping[OF S3 w] secured_sweeps[OF S3 s] 4[unfolded pruneShards_def]]])
    have "w' \<in> {w2, w3, w4}" using run 1 2 3 4 dead by (auto simp: pruneSweep_def split: option.splits)
    with S2 S3 S4 show ?thesis by blast
  qed
qed

lemma pruneLocked_sweeps:
  assumes o: "env_opts_ok env" and ord: "\<And>xs. set (order xs) = set xs"
    and w: "sweeping t w" and now: "now * v3MillisPerSecond \<le> k_now (vw_keys w)" and run: "pruneLocked env order t now w = (w', res)"
  shows "sweeps env t {} w w'"
proof -
  obtain w1 c where 1: "pruneKeep now w = (w1, c)" by fastforce
  note K = keep_covers[OF w now 1]
  show ?thesis
  proof (cases c)
    case (Inl err)
    with run 1 K(1) show ?thesis by (simp add: pruneLocked_def)
  next
    case (Inr p)
    then obtain keep gens where c: "c = Inr (keep, gens)" by (cases p) auto
    have w1: "sweeping t w1" by (rule sweeps_sweeping[OF K(1) w])
    obtain w2 d where 2: "pruneReferences env order t keep w1 = (w2, d)" by fastforce
    have "refs_ok {}" by (simp add: refs_ok_def)
    note R = references_found[OF o w1 this 2[unfolded pruneReferences_def], unfolded ord]
    have S2: "sweeps env t {} w w2" using sweeps_trans[OF K(1) sweeps_sub] R by blast
    show ?thesis
    proof (cases d)
      case (Inl err)
      with run 1 2 c S2 show ?thesis by (simp add: pruneLocked_def)
    next
      case refs: (Inr refs)
      let ?N = "protected (set keep) refs"
      have found: "refs_ok refs" "\<forall>g \<in> set keep. \<exists>m. lockedSure t w2 (\<lambda>C. manifestIn (ve_id env) C g = Some m) \<and> manifestRefs m \<subseteq> refs"
        using R refs by auto
      have "secured env (set keep) ?N t (vw_keys w2)"
        unfolding secured_def
      proof (intro impI conjI allI ballI)
        assume h: "held t (vw_keys w2)"
        show "g \<in> set keep" if "keptGen (vw_keys w2) g" for g
          by (rule K(2)[OF c _ h that]) (use R in \<open>simp add: sweeps_def\<close>)
        fix g assume "g \<in> set keep"
        with found(2) obtain m where "lockedSure t w2 (\<lambda>C. manifestIn (ve_id env) C g = Some m)" "manifestRefs m \<subseteq> refs" by blast
        with h \<open>g \<in> set keep\<close> show "\<exists>m. manifestIn (ve_id env) (contents (vw_keys w2)) g = Some m \<and> needs g m \<subseteq> ?N"
          by (auto simp: lockedSure_def needs_def protected_def)
      qed
      moreover have w2: "sweeping t w2" by (rule sweeps_sweeping[OF S2 w])
      moreover have p: "pruneSweep t keep gens refs w2 = (w', res)" using run 1 2 c refs by (simp add: pruneLocked_def)
      ultimately have "sweeps env t ?N w2 w'" using found(1) pruneSweep_sweeps by blast
      then have "sweeps env t {} w2 w'" unfolding sweeps_def using afterwards_sub[of t ?N _ _ "{}"] by blast
      with S2 show ?thesis by (rule sweeps_trans)
    qed
  qed
qed


text \<open>Taking the lock.\<close>

lemma heeds_locked:
  assumes "\<And>n. lockOf n k' = lockOf n k" "k_now k' = k_now k" "held t k \<Longrightarrow> contents k' = contents k \<and> k_active k' = k_active k \<and> (\<forall>g. leasedGen k' g \<longrightarrow> leasedGen k g)"
  shows "heeds t k k'"
  using assms by (auto simp: heeds_def afterwards_def le_on_def held_iff)

text \<open>A new token is one more than the counter, so no other collector's lock is touched.\<close>

lemma pruneRely_prune: "pruneRely u (\<lambda>k. fst (v3PruneScript k))"
  unfolding pruneRely_def
proof
  fix k :: v3keys
  let ?g = "\<lambda>s. s\<lparr>ns_writers := zexpire (k_now k) (ns_writers s), ns_leases := zexpire (k_now k) (ns_leases s)\<rparr>"
  let ?l = "\<lambda>s. (?g s)\<lparr>ns_fence := ns_fence (k_global k) + 1, ns_maintenance := Some (ns_fence (k_global k) + 1, k_now k + v3MaintenanceTTL)\<rparr>"
  have "fst (v3PruneScript k) = ns_update Global ?g k \<or> fst (v3PruneScript k) = ns_update Global ?l k \<and> \<not> underMaintenance Global k"
    by (simp add: v3PruneScript_def Let_def update_update underMaintenance_update)
  then consider "fst (v3PruneScript k) = ns_update Global ?g k" | "fst (v3PruneScript k) = ns_update Global ?l k" "\<not> underMaintenance Global k"
    by blast
  then show "pruneStep u k (fst (v3PruneScript k))"
  proof cases
    case 1
    have l: "lockOf n (ns_update Global ?g k) = lockOf n k" for n by (simp add: lockOf_update) (simp add: lockOf_def)
    have "heeds u k (ns_update Global ?g k)" by (rule heeds_locked) (simp_all add: l contents_keep leasedGen_def)
    then show ?thesis unfolding 1 by (simp add: pruneStep_def given_def l)
  next
    case 2
    have free: "\<not> held u k" using 2(2) maintenanceToken_under by (auto simp: held_def)
    have "heeds u k (ns_update Global ?l k)" if "u \<le> ns_fence (k_global k)"
      using that free by (auto simp: heeds_def afterwards_def held_iff lockOf_update)
    moreover have "given u k \<Longrightarrow> given u (ns_update Global ?l k)" by (auto simp: given_def lockOf_update)
    ultimately show ?thesis unfolding 2(1) by (simp add: pruneStep_def)
  qed
qed

lemma prune_script_begins:
  assumes run: "v3PruneScript k = (k', r)"
  shows "spares env k k'" "k_now k' = k_now k" "r = Some (t, now) \<Longrightarrow> given t k \<Longrightarrow> collecting t k' \<and> now * v3MillisPerSecond \<le> k_now k'"
proof -
  let ?g = "\<lambda>s. s\<lparr>ns_writers := zexpire (k_now k) (ns_writers s), ns_leases := zexpire (k_now k) (ns_leases s)\<rparr>"
  let ?l = "\<lambda>s. (?g s)\<lparr>ns_fence := ns_fence (k_global k) + 1, ns_maintenance := Some (ns_fence (k_global k) + 1, k_now k + v3MaintenanceTTL)\<rparr>"
  have k': "k' = ns_update Global ?g k \<and> r = None \<or> k' = ns_update Global ?l k \<and> r = Some (ns_fence (k_global k) + 1, k_now k div 1000)"
    using run by (auto simp: v3PruneScript_def Let_def update_update split: if_splits)
  then have c: "contents k' = contents k" "k_active k' = k_active k" "k_ops k' = k_ops k" "k_now k' = k_now k" by (auto simp: contents_keep)
  show "k_now k' = k_now k" "spares env k k'" using c by (simp_all add: spares_def)
  assume r: "r = Some (t, now)" and g: "given t k"
  with k' have t: "t = ns_fence (k_global k) + 1" "now = k_now k div 1000" "k' = ns_update Global ?l k" by auto
  have "lockOf (Shard s) k' \<noteq> Some (t, e)" for s e using g by (simp add: t given_def lockOf_update)
  then show "collecting t k' \<and> now * v3MillisPerSecond \<le> k_now k'"
    using t c(4) by (simp add: collecting_def v3MillisPerSecond_def)
qed

text \<open>The token a collector gets, if it gets the lock.\<close>

definition pruneToken :: "v3world \<Rightarrow> nat option" where
  "pruneToken w = (case snd (v3command v3PruneScript w) of Inr (Some (t, now)) \<Rightarrow> Some t | _ \<Rightarrow> None)"

text \<open>
  C37.  Pruning is safe.  Other clients, other collectors among them, act between any two
  commands of \<^verbatim>\<open>Prune\<close>; they respect this collector's lock while it is good (\<open>pruneRely\<close>
  for its token), which readers, writers and the scripts of other collectors do by the
  lemmas below.  Whichever command fails or loses its reply, and also when the lock runs
  out in the middle of the sweep and another collector takes over: no command of this one
  changes the active version or a receipt, and none makes the active generation, or one a
  reader has a live lease on at that moment, unreadable, in either layout.  In return, each
  of its commands respects the locks of all the others in the same sense.
\<close>

theorem v3_prune_spares:
  assumes o: "env_opts_ok env" and ord: "\<And>xs. set (order xs) = set xs"
    and k: "fenced (vw_keys w)" and rely: "\<forall>t f. pruneToken w = Some t \<longrightarrow> f \<in> set (vw_env w) \<longrightarrow> pruneRely t f"
    and run: "Prune env order w = (w', res)"
  shows "\<exists>hs. vw_past w' = vw_past w @ hs \<and>
    (\<forall>(a, b) \<in> set hs. spares env a b \<and> (\<forall>u. pruneToken w \<noteq> Some u \<longrightarrow> pruneStep u a b))"
proof -
  obtain w1 e where 1: "v3check w = (w1, e)" by fastforce
  then have w1: "vw_keys w1 = vw_keys w" "vw_env w1 = vw_env w" "vw_io w1 = vw_io w" "vw_past w1 = vw_past w" by (auto simp: v3check_def)
  obtain w2 c where 2: "v3command v3PruneScript w1 = (w2, c)" by fastforce
  let ?k = "vw_keys (v3others w1)"
  obtain k' r where s: "v3PruneScript ?k = (k', r)" by fastforce
  have tok: "pruneToken w = (case c of Inr (Some (t, now)) \<Rightarrow> Some t | _ \<Rightarrow> None)"
    using 2 w1 by (auto simp: pruneToken_def v3command_def v3others_def Let_def split: prod.splits cmd_io.splits)
  note B = prune_script_begins[OF s]
  have P: "pruneStep u ?k k'" for u using pruneRely_prune[of u] s by (metis fst_conv pruneRely_def)
  have w2: "vw_past w2 = vw_past w \<or> vw_past w2 = vw_past w @ [(?k, k')]" "set (vw_env w2) \<subseteq> set (vw_env w)" "\<forall>x. c = Inr x \<longrightarrow> vw_keys w2 = k' \<and> x = r"
    using 2 s w1 by (auto simp: v3command_def v3others_def Let_def split: cmd_io.splits dest: subsetD[OF tl_subset])
  let ?ok = "\<lambda>(a, b). spares env a b \<and> (\<forall>u. pruneToken w \<noteq> Some u \<longrightarrow> pruneStep u a b)"
  have past: "\<exists>hs. vw_past w2 = vw_past w @ hs \<and> (\<forall>h \<in> set hs. ?ok h)"
    using w2(1) B(1) P by (auto intro: exI[of _ "[(?k, k')]"])
  have "\<exists>hs. vw_past w' = vw_past w @ hs \<and> (\<forall>h \<in> set hs. ?ok h)"
  proof (cases "\<exists>t now. e = None \<and> c = Inr (Some (t, now))")
    case False
    then have "w' = w1 \<or> w' = w2" using run 1 2 by (auto simp: Prune_def split: option.splits sum.splits)
    with past w1(4) show ?thesis by auto
  next
    case True
    then obtain t now where c: "e = None" "c = Inr (Some (t, now))" by blast
    then have t: "pruneToken w = Some t" by (simp add: tok)
    have "given t ?k"
      using k rely t by (cases "vw_env w") (auto simp: v3others_def next_or_def w1 pruneRely_def pruneStep_def fenced_def)
    then have K: "sweeping t w2" "now * v3MillisPerSecond \<le> k_now (vw_keys w2)"
      using c w2(2,3) B(3)[of t now] rely t by (auto simp: sweeping_def)
    obtain w3 q where 3: "pruneLocked env order t now w2 = (w3, q)" by (metis surj_pair)
    note L = pruneLocked_sweeps[OF o ord K 3]
    have "sweeps env t {} w2 (fst (v3command (v3UnlockScript Global t) w3))"
      by (rule sweeps_trans[OF L gentle_sweeps[OF gentle_unlock sweeps_sweeping[OF L K(1)]]])
    moreover have "w' = fst (v3command (v3UnlockScript Global t) w3)" using run 1 2 3 c by (simp add: Prune_def)
    ultimately obtain hs where "vw_past w' = vw_past w2 @ hs" "\<forall>(a, b) \<in> set hs. spares env a b \<and> yields t a b" by (auto simp: sweeps_def)
    with past t show ?thesis by (fastforce simp: yields_def)
  qed
  then show ?thesis by (simp add: case_prod_unfold)
qed

section \<open>Who heeds the lock\<close>

text \<open>Commands that leave the locks alone, and under the lock take nothing away and find nothing new to keep.\<close>

lemma pruneStep_locked:
  assumes "\<And>n. lockOf n k' = lockOf n k" "k_now k' = k_now k" "ns_fence (k_global k') = ns_fence (k_global k)"
    and "held t k \<Longrightarrow> le_on UNIV (contents k) (contents k') \<and> k_active k' = k_active k \<and> (\<forall>g. leasedGen k' g \<longrightarrow> leasedGen k g)"
  shows "pruneStep t k k'"
  using assms by (auto simp: pruneStep_def given_def heeds_def afterwards_def held_iff)

lemma pruneRely_time: "0 \<le> d \<Longrightarrow> pruneRely t (\<lambda>k. k\<lparr>k_now := k_now k + d\<rparr>)"
proof -
  assume d: "0 \<le> d"
  have g: "ns_get n (k\<lparr>k_now := x\<rparr>) = ns_get n k" for n and k :: v3keys and x by (cases n) simp_all
  have l: "lockOf n (k\<lparr>k_now := x\<rparr>) = lockOf n k" and c: "contents (k\<lparr>k_now := x\<rparr>) = contents k" for n and k :: v3keys and x
    by (simp_all add: lockOf_def contents_def g)
  have "zlive (k_now k + d) z m \<Longrightarrow> zlive (k_now k) z m" for k :: v3keys and z m using d by (auto simp: zlive_def split: option.splits)
  with d show ?thesis
    by (fastforce simp: pruneRely_def pruneStep_def given_def heeds_def afterwards_def le_on_def held_iff leasedGen_def l c)
qed

text \<open>Readers and writers: leases, the mirror of a writer on a shard, staged entries and the commit.\<close>

lemma ns_set_fields [simp]:
  "ns_fence (ns_set which z s) = ns_fence s" "ns_maintenance (ns_set which z s) = ns_maintenance s" "ns_content (ns_set which z s) = ns_content s"
  by (simp_all add: ns_set_def)

lemma lock_set [simp]: "lockOf n (ns_update n' (ns_set which z) k) = lockOf n k"
  by (simp add: lockOf_update) (simp add: lockOf_def)

lemma held_under: "held t k \<Longrightarrow> underMaintenance Global k"
  by (auto simp: held_def intro: maintenanceToken_under)

lemma le_on_refl [simp]: "le_on N C C"
  by (simp add: le_on_def)

lemma pruneRely_acquire: "pruneRely t (\<lambda>k. fst (v3AcquireScript which e newID ttl k))"
  unfolding pruneRely_def
proof
  fix k
  show "pruneStep t k (fst (v3AcquireScript which e newID ttl k))"
    by (cases rule: acquire_script_cases[where which = which and t = e and newID = newID and ttl = ttl and k = k])
      (auto intro!: pruneStep_locked dest: held_under)
qed

lemma pruneRely_renew: "pruneRely t (\<lambda>k. fst (v3RenewScript which member ttl k))"
  unfolding pruneRely_def
proof
  fix k
  have "leasedGen (ns_update Global (ns_set which (zadd member (k_now k + ttl))) k) g \<Longrightarrow> zlive (k_now k) (ns_zset which (k_global k)) member \<Longrightarrow> leasedGen k g" for g
    by (auto simp: leasedGen_def ns_set_def ns_zset_def zadd_def zlive_def update_conv' split: if_splits option.splits)
  then show "pruneStep t k (fst (v3RenewScript which member ttl k))"
    by (auto simp: v3RenewScript_def contents_keep intro!: pruneStep_locked)
qed

lemma pruneRely_release: "pruneRely t (\<lambda>k. fst (v3ReleaseScript n which member k))"
  unfolding pruneRely_def
proof
  fix k
  have "leasedGen (ns_update n (ns_set which (zrem member)) k) g \<Longrightarrow> leasedGen k g" for g
    by (auto simp: leasedGen_def ns_set_def zrem_def zlive_def delete_conv' split: if_splits option.splits)
  then show "pruneStep t k (fst (v3ReleaseScript n which member k))"
    by (auto simp: v3ReleaseScript_def contents_keep intro!: pruneStep_locked)
qed

lemma pruneRely_mirror: "pruneRely t (\<lambda>k. fst (v3MirrorScript shard member deadline fence k))"
  by (auto simp: pruneRely_def v3MirrorScript_def lockOf_update lockOf_def contents_keep leasedGen_def intro!: pruneStep_locked)

lemma pruneRely_stage: "pruneRely t (\<lambda>k. fst (v3StageScript st member k))"
  unfolding pruneRely_def
proof
  fix k
  let ?k = "fst (v3StageScript st member k)"
  show "pruneStep t k ?k"
  proof (rule pruneStep_locked)
    show "le_on UNIV (contents k) (contents ?k) \<and> k_active ?k = k_active k \<and> (\<forall>g. leasedGen ?k g \<longrightarrow> leasedGen k g)"
      by (auto simp: le_on_def v3StageScript_def Let_def contents_update leasedGen_def) (auto simp: contents_def split: if_splits)
  qed (auto simp: v3StageScript_def Let_def lockOf_update lockOf_def)
qed

lemma pruneRely_commit: "pruneRely t (\<lambda>k. fst (v3CommitScript member r sequence layout k))"
proof -
  have l: "lockOf n (k\<lparr>k_active := a, k_committed := b, k_meta := c, k_events := d\<rparr>) = lockOf n k" "lockOf n (k\<lparr>k_ops := e\<rparr>) = lockOf n k"
    for n and k :: v3keys and a b c d e by (cases n; simp add: lockOf_def)+
  have u: "contents (k\<lparr>k_ops := e\<rparr>) = contents k" for k :: v3keys and e
  proof
    show "contents (k\<lparr>k_ops := e\<rparr>) n = contents k n" for n by (cases n) (simp_all add: contents_def)
  qed
  show ?thesis
    unfolding pruneRely_def
  proof
    fix k
    show "pruneStep t k (fst (v3CommitScript member r sequence layout k))"
    proof (rule pruneStep_locked)
      show "lockOf n (fst (v3CommitScript member r sequence layout k)) = lockOf n k" for n
        by (simp add: v3CommitScript_def Let_def l lockOf_update split: option.splits) (simp add: lockOf_def)
    qed (auto simp: v3CommitScript_def Let_def u leasedGen_def dest: held_under split: option.splits)
  qed
qed

text \<open>
  Another collector, with a token \<open>u\<close> of its own.  It deletes from a shard only while its
  lock there is good no longer than its global one: \<open>shardFence_sweeps\<close> shows that of
  \<open>pruneShardFence\<close>, which precedes every batch.
\<close>

lemma gentle_others: "gentle u f \<Longrightarrow> u \<noteq> t \<Longrightarrow> pruneRely t (\<lambda>k. fst (f k))"
  by (simp add: gentle_def yields_def pruneRely_def)

lemma pruneRely_collector:
  assumes "u \<noteq> t"
  shows "pruneRely t (\<lambda>k. fst (v3FenceScript u k))" "pruneRely t (\<lambda>k. fst (v3UnlockScript n u k))" "pruneRely t (\<lambda>k. fst (v3ShardFenceScript u s k))"
    "pruneRely t (\<lambda>k. fst (v3DeleteScript Global u registry pre ids k))"
    "pruneRely t (\<lambda>k. if guarded u n k then fst (v3DeleteScript n u registry pre ids k) else k)"
proof -
  note G = gentle_others[OF _ assms]
  show "pruneRely t (\<lambda>k. fst (v3FenceScript u k))" by (rule G[OF gentle_fence])
  show "pruneRely t (\<lambda>k. fst (v3UnlockScript n u k))" by (rule G[OF gentle_unlock])
  show "pruneRely t (\<lambda>k. fst (v3ShardFenceScript u s k))" by (rule G[OF gentle_shardFence])
qed (use assms delete_yields[of u n] delete_yields[of u Global] guarded_def[of u Global] in \<open>auto simp: pruneRely_def yields_def\<close>)

text \<open>
  A collection with a chunk that nothing refers to.  A reader comes in between, and the
  lock runs out: a second collector takes over, gets token 2, and works until it is done.
\<close>

definition pruneKeys_example :: v3keys where
  "pruneKeys_example = v3keys_example\<lparr>k_now := 10 ^ 9,
     k_global := (k_global v3keys_example)\<lparr>ns_leases := [(v3version_example @ ''/'' @ replicate 32 CHR ''r'', 2 * 10 ^ 9)],
       ns_content := (ns_content (k_global v3keys_example))(''chunk:dead'' \<mapsto> Blob []),
       ns_registry := (\<lambda>r. if r = ''chunks'' then [(''dead'', 0)] else if r = ''generations'' then [(v3version_example, 0)] else [])\<rparr>\<rparr>"

definition pruneWorld_example :: v3world where
  "pruneWorld_example = v3world_example\<lparr>vw_keys := pruneKeys_example,
     vw_env := [\<lambda>k. k\<lparr>k_now := k_now k + 5\<rparr>, \<lambda>k. fst (v3AcquireScript ''leases'' [] ''other'' 30000 k), \<lambda>k. fst (v3PruneScript k),
       \<lambda>k. k\<lparr>k_now := k_now k + 40000\<rparr>, \<lambda>k. fst (v3PruneScript k), \<lambda>k. fst (v3ShardFenceScript 2 7 k), \<lambda>k. fst (v3FenceScript 2 k),
       \<lambda>k. fst (v3DeleteScript Global 2 ''chunks'' ''chunk:'' [''dead''] k),
       \<lambda>k. if guarded 2 (Shard 7) k then fst (v3DeleteScript (Shard 7) 2 ''chunks'' ''chunk:'' [''old''] k) else k,
       \<lambda>k. fst (v3UnlockScript (Shard 7) 2 k), \<lambda>k. fst (v3UnlockScript Global 2 k)]\<rparr>"

lemma v3_prune_spares_witness:
  "\<exists>hs. vw_past (fst (Prune v3env_example id pruneWorld_example)) = hs \<and> pruneToken pruneWorld_example = Some 1 \<and>
    (\<forall>(a, b) \<in> set hs. spares v3env_example a b \<and> (\<forall>u. 1 \<noteq> u \<longrightarrow> pruneStep u a b))"
proof -
  have "lockOf n pruneKeys_example = None" for n
    by (cases n) (simp_all add: lockOf_def pruneKeys_example_def v3keys_example_def v3ns_empty_def)
  then have "fenced (vw_keys pruneWorld_example)" by (simp add: pruneWorld_example_def fenced_def given_def)
  moreover have t: "pruneToken pruneWorld_example = Some 1" by code_simp
  moreover have "\<forall>t f. pruneToken pruneWorld_example = Some t \<longrightarrow> f \<in> set (vw_env pruneWorld_example) \<longrightarrow> pruneRely t f"
    unfolding t using pruneRely_time[of 5] pruneRely_time[of 40000] pruneRely_acquire pruneRely_prune pruneRely_collector[of 2 1]
    by (auto simp: pruneWorld_example_def)
  moreover have "env_opts_ok v3env_example" by (simp add: env_opts_ok_def v3env_example_def)
  moreover have "vw_past pruneWorld_example = []" by (simp add: pruneWorld_example_def v3world_example_def)
  ultimately show ?thesis using v3_prune_spares[of v3env_example id pruneWorld_example, OF _ _ _ _ prod.collapse[symmetric]] by simp
qed

end
