(* ===== verification/V1_Ops.thy ===== *)
theory V1_Ops
  imports V2_Read
begin

text \<open>
  The V1 schema: \<^verbatim>\<open>pkg/acor/v1_ops.go\<close> and its initialisation in \<^verbatim>\<open>acor.go\<close>.  A V1 collection is spread
  over many keys, so Redis is a map from key names to values here: a set or sorted
  set is the list in which it is listed, a hash is the one a V2 collection uses.
  As in the V2 model every command is atomic, other clients run before each of them,
  and a command may fail or lose its reply.

  V1 is read-only: what is left are the searches, which build an engine from the
  keyword set, the suggestions, which walk the sorted set of the prefixes, and the
  flush.
\<close>

section \<open>Redis\<close>

datatype rvalue =
    Members "gostring list"
  | Ranked "gostring list"
  | TrieValue trieHash
  | ListsValue "(gostring \<times> gostring list json) list"
  | TextValue gostring

type_synonym keyspace = "gostring \<rightharpoonup> rvalue"

definition wrongType :: acorError where
  "wrongType = ErrClient ''WRONGTYPE Operation against a key holding the wrong kind of value''"

definition redis_Nil :: acorError where "redis_Nil = ErrClient ''redis: nil''"

definition exists_key :: "gostring \<Rightarrow> keyspace \<Rightarrow> keyspace \<times> bool result" where
  "exists_key key R = (R, Inr (R key \<noteq> None))"

definition smembers :: "gostring \<Rightarrow> keyspace \<Rightarrow> keyspace \<times> gostring list result" where
  "smembers key R = (R, case R key of None \<Rightarrow> Inr [] | Some (Members xs) \<Rightarrow> Inr xs | _ \<Rightarrow> Inl wrongType)"

definition zmembers :: "gostring \<Rightarrow> keyspace \<Rightarrow> keyspace \<times> gostring list result" where
  "zmembers key R = (R, case R key of None \<Rightarrow> Inr [] | Some (Ranked xs) \<Rightarrow> Inr xs | _ \<Rightarrow> Inl wrongType)"

definition on_result :: "('a \<Rightarrow> 'b result) \<Rightarrow> keyspace \<times> 'a result \<Rightarrow> keyspace \<times> 'b result" where
  "on_result f p = (fst p, bindR (snd p) f)"

definition sismember :: "gostring \<Rightarrow> gostring \<Rightarrow> keyspace \<Rightarrow> keyspace \<times> bool result" where
  "sismember key m R = on_result (\<lambda>xs. Inr (m \<in> set xs)) (smembers key R)"

definition scard :: "gostring \<Rightarrow> keyspace \<Rightarrow> keyspace \<times> nat result" where
  "scard key R = on_result (\<lambda>xs. Inr (length xs)) (smembers key R)"

definition zcard :: "gostring \<Rightarrow> keyspace \<Rightarrow> keyspace \<times> nat result" where
  "zcard key R = on_result (\<lambda>xs. Inr (length xs)) (zmembers key R)"

text \<open>\<^verbatim>\<open>ZRANK\<close> and \<^verbatim>\<open>ZRANGE key n n\<close>.\<close>

definition zrank :: "gostring \<Rightarrow> gostring \<Rightarrow> keyspace \<Rightarrow> keyspace \<times> nat result" where
  "zrank key m R =
     on_result (\<lambda>xs. if m \<in> set xs then Inr (length (takeWhile (\<lambda>x. x \<noteq> m) xs)) else Inl redis_Nil) (zmembers key R)"

definition zrange_at :: "gostring \<Rightarrow> nat \<Rightarrow> keyspace \<Rightarrow> keyspace \<times> gostring list result" where
  "zrange_at key n R = on_result (\<lambda>xs. Inr (take 1 (drop n xs))) (zmembers key R)"

text \<open>\<^verbatim>\<open>ZADD key 0 ""\<close>: the empty string with the lowest score comes first.\<close>

definition zadd_root :: "gostring \<Rightarrow> keyspace \<Rightarrow> keyspace \<times> unit result" where
  "zadd_root key R =
     (case R key of
        None \<Rightarrow> (R(key \<mapsto> Ranked [[]]), Inr ())
      | Some (Ranked xs) \<Rightarrow> (R(key \<mapsto> Ranked ([] # remove1 [] xs)), Inr ())
      | _ \<Rightarrow> (R, Inl wrongType))"

definition del_keys :: "gostring list \<Rightarrow> keyspace \<Rightarrow> keyspace \<times> unit result" where
  "del_keys keys R = (fold (\<lambda>key R. R(key := None)) keys R, Inr ())"

section \<open>The client\<close>

text \<open>
  \<open>k_local\<close> holds the engine memo, the counters and the clock of the instance, in the
  record the V2 model keeps them in; \<open>k_progress\<close> what was reported to a progress callback.
\<close>

record kworld =
  k_redis :: keyspace
  k_env :: "(keyspace \<Rightarrow> keyspace) list"
  k_io :: "cmd_io list"
  k_progress :: "(nat \<times> nat \<times> string) list"
  k_local :: world

definition call :: "(keyspace \<Rightarrow> keyspace \<times> 'a result) \<Rightarrow> kworld \<Rightarrow> kworld \<times> 'a result" where
  "call f w =
     (let R = next_or id (k_env w) (k_redis w);
          w1 = w\<lparr>k_redis := R, k_env := tl (k_env w), k_io := tl (k_io w)\<rparr>; (R', r) = f R in
      case next_or CmdOk (k_io w) of
        CmdOk \<Rightarrow> (w1\<lparr>k_redis := R'\<rparr>, r)
      | CmdFailed err \<Rightarrow> (w1, Inl err)
      | CmdLost err \<Rightarrow> (w1\<lparr>k_redis := R'\<rparr>, Inl err))"

text \<open>A command whose error is wrapped with its name and key, and what follows it.\<close>

definition SchemaV1 :: nat where "SchemaV1 = 1"

definition redis_call ::
  "string \<Rightarrow> gostring \<Rightarrow> (keyspace \<Rightarrow> keyspace \<times> 'a result) \<Rightarrow> ('a \<Rightarrow> kworld \<Rightarrow> kworld \<times> 'b result) \<Rightarrow> kworld \<Rightarrow> kworld \<times> 'b result" where
  "redis_call op key f g w =
     (case call f w of
        (w1, Inl err) \<Rightarrow> (w1, Inl (newRedisError op key err))
      | (w1, Inr x) \<Rightarrow> g x w1)"

definition migrationLockKey :: "gostring \<Rightarrow> gostring" where
  "migrationLockKey name = keyPrefix name @ '':migration_lock''"

section \<open>The operations\<close>

definition v1_init :: "gostring \<Rightarrow> kworld \<Rightarrow> kworld \<times> unit result" where
  "v1_init name w =
     (case call (zadd_root (prefixKey name)) w of
        (w1, Inl err) \<Rightarrow> (w1, Inl (Wrapped ''failed to initialize V1 prefix key'' err))
      | (w1, Inr u) \<Rightarrow> (w1, Inr ()))"

definition v1_add :: "gostring \<Rightarrow> kworld \<Rightarrow> kworld \<times> nat result" where
  "v1_add keyword w = (w, Inl ErrV1ReadOnly)"

definition v1_remove :: "gostring \<Rightarrow> kworld \<Rightarrow> kworld \<times> nat result" where
  "v1_remove keyword w = (w, Inl ErrV1ReadOnly)"

definition engineForKeywords :: "read_env \<Rightarrow> gostring list \<Rightarrow> world \<Rightarrow> (world \<times> Engine result) option" where
  "engineForKeywords env kws =
     engineFor (digestKeywords env kws)
       (map_option Inr (Engine_Build (re_build env) (Engine_New PresetBalanced) (re_keywords env (set kws))))"

definition v1_loadEngine :: "read_env \<Rightarrow> gostring \<Rightarrow> kworld \<Rightarrow> (kworld \<times> Engine result) option" where
  "v1_loadEngine env name w =
     (case call (smembers (keywordKey name)) w of
        (w1, Inl err) \<Rightarrow> Some (w1, Inl (newRedisError ''SMEMBERS'' (keywordKey name) err))
      | (w1, Inr kws) \<Rightarrow> do {
          (l, r) \<leftarrow> engineForKeywords env kws (k_local w1);
          Some (w1\<lparr>k_local := l\<rparr>, r)
        })"

definition v1_find ::
  "unicode \<Rightarrow> read_env \<Rightarrow> gostring \<Rightarrow> bool \<Rightarrow> gostring \<Rightarrow> kworld \<Rightarrow> (kworld \<times> gostring list result) option" where
  "v1_find u env name caseSensitive text0 w =
     (if text0 = [] then Some (w, Inr [])
      else do {
        (w1, r) \<leftarrow> v1_loadEngine env name w;
        case r of
          Inl err \<Rightarrow> Some (w1, Inl (newOperationError ''find'' SchemaV1 err))
        | Inr engine \<Rightarrow> do {
            matched \<leftarrow> Engine_Find engine (normalizeText u text0 caseSensitive);
            Some (w1, Inr matched)
          }
      })"

definition v1_findIndex ::
  "unicode \<Rightarrow> read_env \<Rightarrow> gostring \<Rightarrow> bool \<Rightarrow> gostring \<Rightarrow> kworld \<Rightarrow> (kworld \<times> (gostring \<rightharpoonup> int list) result) option" where
  "v1_findIndex u env name caseSensitive text0 w =
     (if text0 = [] then Some (w, Inr Map.empty)
      else do {
        (w1, r) \<leftarrow> v1_loadEngine env name w;
        case r of
          Inl err \<Rightarrow> Some (w1, Inl (newOperationError ''findIndex'' SchemaV1 err))
        | Inr engine \<Rightarrow> do {
            matched \<leftarrow> Engine_FindIndex engine (normalizeText u text0 caseSensitive);
            Some (w1, Inr matched)
          }
      })"

fun flushNodes :: "gostring \<Rightarrow> gostring list \<Rightarrow> kworld \<Rightarrow> kworld \<times> unit result" where
  "flushNodes name [] w = (w, Inr ())"
| "flushNodes name (node # ns) w =
     redis_call ''DEL'' (outputKey name node) (del_keys [outputKey name node]) (\<lambda>_. flushNodes name ns) w"

fun flushKeywords :: "gostring \<Rightarrow> gostring list \<Rightarrow> kworld \<Rightarrow> kworld \<times> unit result" where
  "flushKeywords name [] w = (w, Inr ())"
| "flushKeywords name (keyword # keywords) w =
     redis_call ''SMEMBERS'' (nodeKey name keyword) (smembers (nodeKey name keyword)) (\<lambda>ns w1.
       case flushNodes name ns w1 of
         (w2, Inl err) \<Rightarrow> (w2, Inl err)
       | (w2, Inr u) \<Rightarrow>
           redis_call ''DEL'' (nodeKey name keyword) (del_keys [nodeKey name keyword]) (\<lambda>_. flushKeywords name keywords) w2) w"

fun flushFixed :: "gostring list \<Rightarrow> kworld \<Rightarrow> kworld \<times> unit result" where
  "flushFixed [] w = (w, Inr ())"
| "flushFixed (key # keys) w = redis_call ''DEL'' key (del_keys [key]) (\<lambda>_. flushFixed keys) w"

definition v1_flush :: "gostring \<Rightarrow> kworld \<Rightarrow> kworld \<times> unit result" where
  "v1_flush name =
     redis_call ''SMEMBERS'' (keywordKey name) (smembers (keywordKey name)) (\<lambda>keywords w1.
       case flushKeywords name keywords w1 of
         (w2, Inl err) \<Rightarrow> (w2, Inl err)
       | (w2, Inr u) \<Rightarrow> flushFixed [prefixKey name, suffixKey name, keywordKey name] w2)"

definition v1_info :: "gostring \<Rightarrow> kworld \<Rightarrow> kworld \<times> AhoCorasickInfo result" where
  "v1_info name =
     redis_call ''SCARD'' (keywordKey name) (scard (keywordKey name)) (\<lambda>kCount.
     redis_call ''ZCARD'' (prefixKey name) (zcard (prefixKey name)) (\<lambda>nCount w.
       (w, Inr \<lparr>ai_Keywords = kCount, ai_Nodes = nCount, ai_Preset = PresetNone, ai_MemoryBytes = 0, ai_TrieDepth = 0\<rparr>)))"

text \<open>
  The loop over the sorted prefixes.  Other clients may make it longer while it
  runs, so it is partial: \<open>None\<close> is a loop that does not end.
\<close>

partial_function (option) suggestLoop ::
  "gostring \<Rightarrow> gostring \<Rightarrow> nat \<Rightarrow> gostring list \<Rightarrow> gostring list \<Rightarrow> kworld \<Rightarrow> (kworld \<times> gostring list result) option" where
  "suggestLoop name input pZRank pKeywords results w =
     (case pKeywords of
        [] \<Rightarrow> Some (w, Inr results)
      | pKeyword # _ \<Rightarrow>
          (case call (sismember (keywordKey name) pKeyword) w of
             (w1, Inl err) \<Rightarrow> Some (w1, Inl (newRedisError ''SISMEMBER'' (keywordKey name) err))
           | (w1, Inr kExists) \<Rightarrow>
               (case call (zrange_at (prefixKey name) (Suc pZRank)) w1 of
                  (w2, Inl err) \<Rightarrow> Some (w2, Inl (newRedisError ''ZRANGE'' (prefixKey name) err))
                | (w2, Inr pKeywords') \<Rightarrow>
                    if pKeywords' \<noteq> [] \<and> \<not> prefix input (hd pKeywords')
                    then Some (w2, Inr (if kExists \<and> prefix input pKeyword then results @ [pKeyword] else results))
                    else suggestLoop name input (Suc pZRank) pKeywords'
                      (if kExists \<and> prefix input pKeyword then results @ [pKeyword] else results) w2)))"

definition v1_suggest :: "unicode \<Rightarrow> gostring \<Rightarrow> bool \<Rightarrow> gostring \<Rightarrow> kworld \<Rightarrow> (kworld \<times> gostring list result) option" where
  "v1_suggest u name caseSensitive input0 w =
     (let input = normalizeKeyword u input0 caseSensitive in
      if input = [] then Some (w, Inr [])
      else
        (case call (zrank (prefixKey name) input) w of
           (w1, Inl err) \<Rightarrow>
             if errors_Is err redis_Nil then Some (w1, Inr [])
             else Some (w1, Inl (newRedisError ''ZRANK'' (prefixKey name) err))
         | (w1, Inr pZRank) \<Rightarrow>
             (case call (zrange_at (prefixKey name) pZRank) w1 of
                (w2, Inl err) \<Rightarrow> Some (w2, Inl (newRedisError ''ZRANGE'' (prefixKey name) err))
              | (w2, Inr pKeywords) \<Rightarrow> suggestLoop name input pZRank pKeywords [] w2)))"

definition v1_suggestIndex :: "unicode \<Rightarrow> gostring \<Rightarrow> bool \<Rightarrow> gostring \<Rightarrow> kworld \<Rightarrow> (kworld \<times> (gostring \<rightharpoonup> int list) result) option" where
  "v1_suggestIndex u name caseSensitive input w = do {
     (w', r) \<leftarrow> v1_suggest u name caseSensitive input w;
     Some (w', bindR r (\<lambda>results. Inr (fold (\<lambda>kw indexed. indexed(kw \<mapsto> [0])) results Map.empty)))
   }"

section \<open>Well-formed collections\<close>

text \<open>
  The keys of a collection, and clients that leave them alone: they may do anything
  else, also to the migration lock, which may expire.
\<close>

definition owned :: "gostring \<Rightarrow> gostring \<Rightarrow> bool" where
  "owned name key \<longleftrightarrow> prefix (keyPrefix name @ '':'') key \<and> key \<noteq> migrationLockKey name"

definition same :: "gostring \<Rightarrow> keyspace \<Rightarrow> keyspace \<Rightarrow> bool" where
  "same name R R' \<longleftrightarrow> (\<forall>key. owned name key \<longrightarrow> R' key = R key)"

definition spares :: "gostring \<Rightarrow> (keyspace \<Rightarrow> keyspace) \<Rightarrow> bool" where
  "spares name f \<longleftrightarrow> (\<forall>R. same name R (f R))"

text \<open>The client never takes a failure for the reply that says a value is missing.\<close>

definition plain_io :: "cmd_io \<Rightarrow> bool" where
  "plain_io io \<longleftrightarrow> (case io of CmdOk \<Rightarrow> True | CmdFailed err \<Rightarrow> \<not> errors_Is err redis_Nil | CmdLost err \<Rightarrow> \<not> errors_Is err redis_Nil)"

definition steady :: "gostring \<Rightarrow> kworld \<Rightarrow> bool" where
  "steady name w \<longleftrightarrow> list_all (spares name) (k_env w) \<and> list_all plain_io (k_io w)"

definition failures :: "kworld \<Rightarrow> acorError set" where
  "failures w = {err. CmdFailed err \<in> set (k_io w) \<or> CmdLost err \<in> set (k_io w)}"

text \<open>
  What the writers of earlier releases left: the set of the keywords, the prefixes
  sorted by their bytes, the keywords each state reports and the states that report
  each keyword.  Redis has no empty sets.
\<close>

definition holds_set :: "rvalue option \<Rightarrow> gostring set \<Rightarrow> bool" where
  "holds_set v S \<longleftrightarrow> (case v of None \<Rightarrow> S = {} | Some (Members xs) \<Rightarrow> xs \<noteq> [] \<and> distinct xs \<and> set xs = S | _ \<Rightarrow> False)"

definition v1_keywords :: "gostring \<Rightarrow> keyspace \<Rightarrow> gostring list" where
  "v1_keywords name R = (case R (keywordKey name) of Some (Members xs) \<Rightarrow> xs | _ \<Rightarrow> [])"

definition v1_prefixes :: "gostring \<Rightarrow> keyspace \<Rightarrow> gostring list" where
  "v1_prefixes name R = (case R (prefixKey name) of Some (Ranked xs) \<Rightarrow> xs | _ \<Rightarrow> [])"

definition v1_snap :: "gostring \<Rightarrow> keyspace \<Rightarrow> int \<Rightarrow> trieSnapshot" where
  "v1_snap name R v = \<lparr>ts_Keywords = v1_keywords name R, ts_Prefixes = v1_prefixes name R, ts_Version = v\<rparr>"

definition output_set :: "trieSnapshot \<Rightarrow> gostring \<Rightarrow> gostring set" where
  "output_set s p = (case outputs_of s p of None \<Rightarrow> {} | Some l \<Rightarrow> set l)"

definition v1_ok :: "gostring \<Rightarrow> keyspace \<Rightarrow> bool" where
  "v1_ok name R \<longleftrightarrow> snap_ok (v1_snap name R 0) \<and> sorted_wrt bytes_le (v1_prefixes name R) \<and>
     holds_set (R (keywordKey name)) (set (v1_keywords name R)) \<and> R (prefixKey name) = Some (Ranked (v1_prefixes name R)) \<and>
     (\<forall>p. holds_set (R (outputKey name p)) (output_set (v1_snap name R 0) p)) \<and>
     (\<forall>k. holds_set (R (nodeKey name k)) {p. k \<in> output_set (v1_snap name R 0) p})"

lemmas key_defs = keywordKey_def prefixKey_def suffixKey_def outputKey_def nodeKey_def trieKey_def outputsKey_def nodesKey_def migrationLockKey_def

lemma owned_keys [simp]:
  "owned name (keywordKey name)" "owned name (prefixKey name)" "owned name (suffixKey name)"
  "owned name (outputKey name p)" "owned name (nodeKey name k)"
  "owned name (trieKey name)" "owned name (outputsKey name)" "owned name (nodesKey name)"
  by (simp_all add: owned_def key_defs)

lemma same_refl [simp]: "same name R R"
  by (simp add: same_def)

lemma same_trans: "same name R S \<Longrightarrow> same name S T \<Longrightarrow> same name R T"
  by (simp add: same_def)

lemma same_owned: "same name R S \<Longrightarrow> owned name key \<Longrightarrow> S key = R key"
  by (simp add: same_def)

lemma same_v1:
  assumes "same name R S"
  shows "v1_keywords name S = v1_keywords name R" "v1_prefixes name S = v1_prefixes name R" "v1_snap name S v = v1_snap name R v"
    "v1_ok name S \<longleftrightarrow> v1_ok name R"
  using same_owned[OF assms] by (simp_all add: v1_keywords_def v1_prefixes_def v1_snap_def v1_ok_def)

lemma listed_keywords:
  assumes "v1_ok name R"
  shows "smembers (keywordKey name) R = (R, Inr (v1_keywords name R))" "zmembers (prefixKey name) R = (R, Inr (v1_prefixes name R))"
  using assms by (auto simp: v1_ok_def holds_set_def smembers_def zmembers_def v1_keywords_def split: option.splits rvalue.splits)

lemma listed_set:
  assumes "holds_set (R key) S"
  obtains xs where "smembers key R = (R, Inr xs)" "set xs = S" "distinct xs"
  using assms by (auto simp: holds_set_def smembers_def split: option.splits rvalue.splits)

section \<open>Commands\<close>

lemma steady_spares: "steady name w \<Longrightarrow> same name (k_redis w) (next_or id (k_env w) (k_redis w))"
  by (cases "k_env w") (auto simp: steady_def next_or_def spares_def)

text \<open>Whatever the command, it runs on the state the others left, or fails, or loses its reply.\<close>

lemma call_outcome:
  assumes "steady name w" and "call f w = (w1, r)"
  obtains R where "same name (k_redis w) R" "steady name w1" "failures w1 \<subseteq> failures w" "k_local w1 = k_local w"
    "k_redis w1 = fst (f R) \<and> r = snd (f R) \<or>
     (\<exists>err. r = Inl err \<and> \<not> errors_Is err redis_Nil \<and> err \<in> failures w \<and>
        (k_redis w1 = R \<or> k_redis w1 = fst (f R) \<and> CmdLost err \<in> set (k_io w)))"
proof
  let ?R = "next_or id (k_env w) (k_redis w)"
  obtain R' x where f: "f ?R = (R', x)" by (metis surj_pair)
  show "same name (k_redis w) ?R" using assms(1) by (rule steady_spares)
  show "steady name w1" "failures w1 \<subseteq> failures w" "k_local w1 = k_local w"
    using assms f unfolding steady_def failures_def
    by (cases "k_env w"; cases "k_io w"; auto simp: call_def next_or_def Let_def split: cmd_io.splits)+
  show "k_redis w1 = fst (f ?R) \<and> r = snd (f ?R) \<or>
     (\<exists>err. r = Inl err \<and> \<not> errors_Is err redis_Nil \<and> err \<in> failures w \<and>
        (k_redis w1 = ?R \<or> k_redis w1 = fst (f ?R) \<and> CmdLost err \<in> set (k_io w)))"
    using assms f unfolding steady_def failures_def
    by (cases "k_io w") (auto simp: call_def next_or_def Let_def plain_io_def split: cmd_io.splits)
qed

lemma call_read:
  assumes "steady name w" and "\<And>R. same name (k_redis w) R \<Longrightarrow> f R = (R, v)" and "call f w = (w1, r)"
  shows "steady name w1" "failures w1 \<subseteq> failures w" "k_local w1 = k_local w" "same name (k_redis w) (k_redis w1)"
    "r = v \<or> (\<exists>err \<in> failures w. r = Inl err \<and> \<not> errors_Is err redis_Nil)"
proof -
  obtain R where R: "same name (k_redis w) R" "steady name w1" "failures w1 \<subseteq> failures w" "k_local w1 = k_local w"
    "k_redis w1 = fst (f R) \<and> r = snd (f R) \<or>
     (\<exists>err. r = Inl err \<and> \<not> errors_Is err redis_Nil \<and> err \<in> failures w \<and>
        (k_redis w1 = R \<or> k_redis w1 = fst (f R) \<and> CmdLost err \<in> set (k_io w)))"
    using call_outcome[OF assms(1,3)] .
  have f: "f R = (R, v)" by (rule assms(2)[OF R(1)])
  show "steady name w1" "failures w1 \<subseteq> failures w" "k_local w1 = k_local w" by fact+
  show "same name (k_redis w) (k_redis w1)" using R(1,5) f by auto
  show "r = v \<or> (\<exists>err \<in> failures w. r = Inl err \<and> \<not> errors_Is err redis_Nil)" using R(5) f by auto
qed

lemma call_ok: "k_io w = [] \<Longrightarrow> f (next_or id (k_env w) (k_redis w)) = (R, v) \<Longrightarrow> \<exists>w1. call f w = (w1, v) \<and> k_redis w1 = R \<and> k_io w1 = [] \<and> k_local w1 = k_local w \<and> k_env w1 = tl (k_env w)"
  by (simp add: call_def next_or_def Let_def)

section \<open>Suggestions\<close>

lemma bytes_le_prefix: "prefix a b \<Longrightarrow> bytes_le a b"
  by (induction a b rule: bytes_le.induct) auto

lemma bytes_le_antisym: "bytes_le a b \<Longrightarrow> bytes_le b a \<Longrightarrow> a = b"
proof (induction a b rule: bytes_le.induct)
  case (1 t)
  then show ?case by (cases t) auto
qed auto

text \<open>In byte order the strings with a given prefix stand next to each other.\<close>

lemma bytes_le_between: "bytes_le a q \<Longrightarrow> bytes_le q r \<Longrightarrow> prefix a r \<Longrightarrow> prefix a q"
proof (induction a q arbitrary: r rule: bytes_le.induct)
  case (3 c s d t)
  then show ?case by (cases r) auto
qed auto

lemma filter_sorted_block:
  assumes "sorted_wrt bytes_le (xs @ a # ys)" and "distinct (xs @ a # ys)"
  shows "filter (prefix a) (xs @ a # ys) = takeWhile (prefix a) (a # ys)"
proof -
  have x: "\<not> prefix a x" if "x \<in> set xs" for x
    using that assms bytes_le_prefix[of a x] bytes_le_antisym[of a x] by (auto simp: sorted_wrt_append)
  have y: "filter (prefix a) zs = takeWhile (prefix a) zs" if "sorted_wrt bytes_le (a # zs)" for zs
    using that
  proof (induction zs)
    case (Cons z zs)
    show ?case
    proof (cases "prefix a z")
      case False
      have "\<not> prefix a r" if "r \<in> set zs" for r
        using bytes_le_between[of a z r] Cons.prems False that by auto
      then show ?thesis using False by (simp add: filter_empty_conv)
    qed (use Cons in auto)
  qed simp
  have "filter (prefix a) xs = []" using x by (simp add: filter_empty_conv)
  moreover have "filter (prefix a) ys = takeWhile (prefix a) ys" by (rule y) (use assms(1) in \<open>simp add: sorted_wrt_append\<close>)
  ultimately show ?thesis by simp
qed

lemma zrange_listed: "v1_ok name R \<Longrightarrow> zrange_at (prefixKey name) n R = (R, Inr (take 1 (drop n (v1_prefixes name R))))"
  by (simp add: zrange_at_def on_result_def listed_keywords)

lemma sismember_listed: "v1_ok name R \<Longrightarrow> sismember (keywordKey name) m R = (R, Inr (m \<in> set (v1_keywords name R)))"
  by (simp add: sismember_def on_result_def listed_keywords)

text \<open>The loop ends, with the keywords among the following prefixes that extend the input, or with an error of a command.\<close>

lemma suggestLoop_result:
  assumes "steady name w" and "v1_ok name (k_redis w)" and "ps = v1_prefixes name (k_redis w)" and "ks = v1_keywords name (k_redis w)"
    and "drop n ps \<noteq> [] \<Longrightarrow> prefix input (hd (drop n ps))"
  shows "\<exists>w' r. suggestLoop name input n (take 1 (drop n ps)) acc w = Some (w', r) \<and> same name (k_redis w) (k_redis w') \<and>
    (r = Inr (acc @ filter (\<lambda>p. p \<in> set ks) (takeWhile (prefix input) (drop n ps))) \<or>
     (\<exists>op key. \<exists>err \<in> failures w. r = Inl (newRedisError op key err)))"
  using assms
proof (induction "length ps - n" arbitrary: n acc w)
  case 0
  then show ?case by (subst suggestLoop.simps) (auto intro!: exI[of _ w])
next
  case (Suc m)
  obtain p rest where d: "drop n ps = p # rest" using Suc.hyps(2) by (cases "drop n ps") auto
  have rest: "rest = drop (Suc n) ps" using d by (metis drop_Suc list.sel(3) tl_drop)
  have p: "prefix input p" using Suc.prems(5) d by simp
  have K: "sismember (keywordKey name) p R = (R, Inr (p \<in> set ks))" if "same name (k_redis w) R" for R
    using sismember_listed[of name R p] Suc.prems(2,4) same_v1[OF that] by simp
  obtain w1 r1 where c1: "call (sismember (keywordKey name) p) w = (w1, r1)" by (metis surj_pair)
  note C1 = call_read[OF Suc.prems(1) K c1]
  show ?case
  proof (cases r1)
    case (Inl err)
    then show ?thesis using C1(4,5) d c1 by (subst suggestLoop.simps) auto
  next
    case (Inr kExists)
    then have k: "kExists = (p \<in> set ks)" using C1(5) by auto
    have P: "zrange_at (prefixKey name) (Suc n) R = (R, Inr (take 1 rest))" if "same name (k_redis w1) R" for R
      using zrange_listed[of name R "Suc n"] Suc.prems(2,3) same_v1[OF same_trans[OF C1(4) that]] rest by simp
    obtain w2 r2 where c2: "call (zrange_at (prefixKey name) (Suc n)) w1 = (w2, r2)" by (metis surj_pair)
    note C2 = call_read[OF C1(1) P c2]
    note S2 = same_trans[OF C1(4) C2(4)]
    show ?thesis
    proof (cases r2)
      case (Inl err)
      then show ?thesis using C1(2) C2(5) S2 d c1 c2 Inr by (subst suggestLoop.simps) auto
    next
      case r2: (Inr pks)
      then have pks: "pks = take 1 rest" using C2(5) by auto
      define acc' where "acc' = (if p \<in> set ks then acc @ [p] else acc)"
      show ?thesis
      proof (cases "rest \<noteq> [] \<and> \<not> prefix input (hd rest)")
        case True
        then have h: "pks \<noteq> [] \<and> \<not> prefix input (hd pks)" and t: "takeWhile (prefix input) rest = []"
          by (cases rest; simp add: pks)+
        have "suggestLoop name input n (take 1 (drop n ps)) acc w = Some (w2, Inr acc')"
          using h p k by (subst suggestLoop.simps) (simp add: d c1 c2 Inr r2 acc'_def)
        then show ?thesis using S2 p t by (auto simp: d acc'_def)
      next
        case False
        then have h: "\<not> (pks \<noteq> [] \<and> \<not> prefix input (hd pks))" by (cases rest) (simp_all add: pks)
        have s: "suggestLoop name input n (take 1 (drop n ps)) acc w = suggestLoop name input (Suc n) (take 1 (drop (Suc n) ps)) acc' w2"
          using h p k by (subst suggestLoop.simps) (use False in \<open>auto simp: d c1 c2 Inr r2 acc'_def pks simp flip: rest\<close>)
        have m: "m = length ps - Suc n" using Suc.hyps(2) by simp
        have "\<exists>w' r. suggestLoop name input (Suc n) (take 1 (drop (Suc n) ps)) acc' w2 = Some (w', r) \<and> same name (k_redis w2) (k_redis w') \<and>
            (r = Inr (acc' @ filter (\<lambda>p. p \<in> set ks) (takeWhile (prefix input) (drop (Suc n) ps))) \<or>
             (\<exists>op key. \<exists>err \<in> failures w2. r = Inl (newRedisError op key err)))"
          by (rule Suc.hyps(1)[OF m C2(1)]) (use same_v1[OF S2] Suc.prems(2-4) False rest in auto)
        then obtain w' r where "suggestLoop name input (Suc n) (take 1 (drop (Suc n) ps)) acc' w2 = Some (w', r)"
          "same name (k_redis w2) (k_redis w')" "r = Inr (acc' @ filter (\<lambda>p. p \<in> set ks) (takeWhile (prefix input) (drop (Suc n) ps))) \<or>
             (\<exists>op key. \<exists>err \<in> failures w2. r = Inl (newRedisError op key err))" by blast
        then show ?thesis using s same_trans[OF S2] p C1(2) C2(2) d rest by (auto simp: acc'_def; blast)
      qed
    qed
  qed
qed

lemma v1_ok_parts:
  assumes "v1_ok name R"
  shows "sorted_wrt bytes_le (v1_prefixes name R)" "distinct (v1_prefixes name R)" "distinct (v1_keywords name R)"
    "k \<in> set (v1_keywords name R) \<Longrightarrow> k \<noteq> [] \<and> utf8_ok k \<and> k \<in> set (v1_prefixes name R)"
    "p \<noteq> [] \<Longrightarrow> p \<in> set (v1_prefixes name R) \<longleftrightarrow> p \<in> live_prefixes (set (v1_keywords name R))"
proof -
  have s: "snap_ok (v1_snap name R 0)" using assms by (simp add: v1_ok_def)
  show "sorted_wrt bytes_le (v1_prefixes name R)" using assms by (simp add: v1_ok_def)
  show "distinct (v1_prefixes name R)" "distinct (v1_keywords name R)" using s by (simp_all add: snap_ok_def v1_snap_def)
  have eq: "set (v1_prefixes name R) - {[]} = live_prefixes (set (v1_keywords name R))" using s by (simp add: snap_ok_def v1_snap_def)
  show "p \<noteq> [] \<Longrightarrow> p \<in> set (v1_prefixes name R) \<longleftrightarrow> p \<in> live_prefixes (set (v1_keywords name R))" using eq by blast
  show "k \<noteq> [] \<and> utf8_ok k \<and> k \<in> set (v1_prefixes name R)" if "k \<in> set (v1_keywords name R)"
  proof -
    have "k \<noteq> []" "utf8_ok k" using s that by (simp_all add: snap_ok_def v1_snap_def)
    then have "k \<in> live_prefixes (set (v1_keywords name R))" using that by (auto simp: live_prefixes_def)
    with eq show ?thesis using \<open>k \<noteq> []\<close> \<open>utf8_ok k\<close> by blast
  qed
qed

lemma zrank_listed:
  assumes "v1_ok name R"
  shows "zrank (prefixKey name) m R =
    (R, if m \<in> set (v1_prefixes name R) then Inr (length (takeWhile (\<lambda>x. x \<noteq> m) (v1_prefixes name R))) else Inl redis_Nil)"
  using assms by (simp add: zrank_def on_result_def listed_keywords)

lemma drop_at_member: "m \<in> set xs \<Longrightarrow> \<exists>ys. drop (length (takeWhile (\<lambda>x. x \<noteq> m) xs)) xs = m # ys"
  by (induction xs) auto

text \<open>
  C21.  Suggesting on a V1 collection returns, whatever commands fail and as long as
  nobody else writes to the collection: the walk over the sorted prefixes ends, and
  yields in byte order exactly the keywords that extend the input (none for a blank
  input), or the error of a command that failed.  The collection stays as it was.
\<close>

theorem v1_suggest_exact:
  assumes "steady name w" and "v1_ok name (k_redis w)" and "input = normalizeKeyword u input0 cs" and "utf8_ok input"
  shows "\<exists>w' r. v1_suggest u name cs input0 w = Some (w', r) \<and> same name (k_redis w) (k_redis w') \<and>
    (case r of
       Inr l \<Rightarrow> sorted_wrt bytes_le l \<and> distinct l \<and> set l = {k \<in> set (v1_keywords name (k_redis w)). input \<noteq> [] \<and> prefix input k}
     | Inl err \<Rightarrow> \<exists>op key. \<exists>e \<in> failures w. err = newRedisError op key e)"
proof (cases "input = []")
  case False
  let ?ps = "v1_prefixes name (k_redis w)" and ?ks = "set (v1_keywords name (k_redis w))"
  note P = v1_ok_parts[OF assms(2)]
  let ?rank = "length (takeWhile (\<lambda>x. x \<noteq> input) ?ps)"
  let ?v = "if input \<in> set ?ps then Inr ?rank else Inl redis_Nil"
  obtain w1 r1 where c1: "call (zrank (prefixKey name) input) w = (w1, r1)" by (metis surj_pair)
  have Z: "zrank (prefixKey name) input R = (R, ?v)" if "same name (k_redis w) R" for R
    using zrank_listed[of name R input] same_v1[OF that] assms(2) by simp
  note C1 = call_read[OF assms(1) Z c1]
  have nil: "errors_Is redis_Nil redis_Nil" by (rule errors_Is_refl)
  consider err where "err \<in> failures w" "r1 = Inl err" "\<not> errors_Is err redis_Nil" | "r1 = Inl redis_Nil" "input \<notin> set ?ps"
    | "r1 = Inr ?rank" "input \<in> set ?ps" using C1(5) by (cases "input \<in> set ?ps") auto
  then show ?thesis
  proof cases
    case 1
    then show ?thesis using C1(4) False assms(3) c1 by (auto simp: v1_suggest_def Let_def)
  next
    case 2
    have "\<not> prefix input k" if "k \<in> ?ks" for k
      using P(5)[OF False] 2(2) that assms(4) False by (auto simp: live_prefixes_def)
    then show ?thesis using 2(1) nil C1(4) False assms(3) c1 by (auto simp: v1_suggest_def Let_def)
  next
    case 3
    obtain ys where ys: "drop ?rank ?ps = input # ys" using drop_at_member[OF 3(2)] by blast
    have Q: "zrange_at (prefixKey name) ?rank R = (R, Inr (take 1 (drop ?rank ?ps)))" if "same name (k_redis w1) R" for R
      using zrange_listed[of name R ?rank] same_v1[OF same_trans[OF C1(4) that]] assms(2) by simp
    obtain w2 r2 where c2: "call (zrange_at (prefixKey name) ?rank) w1 = (w2, r2)" by (metis surj_pair)
    note C2 = call_read[OF C1(1) Q c2]
    note S2 = same_trans[OF C1(4) C2(4)]
    have E: "v1_suggest u name cs input0 w = (case r2 of Inl err \<Rightarrow> Some (w2, Inl (newRedisError ''ZRANGE'' (prefixKey name) err))
        | Inr pks \<Rightarrow> suggestLoop name input ?rank pks [] w2)"
      using False by (simp add: v1_suggest_def Let_def c1 3(1) c2 flip: assms(3))
    show ?thesis
    proof (cases r2)
      case (Inl err)
      then show ?thesis using C2(5) C1(2) S2 E by auto
    next
      case (Inr pks)
      then have pks: "pks = take 1 (drop ?rank ?ps)" using C2(5) by auto
      have ok2: "v1_ok name (k_redis w2)" "?ps = v1_prefixes name (k_redis w2)" "v1_keywords name (k_redis w) = v1_keywords name (k_redis w2)"
        using same_v1[OF S2] assms(2) by simp_all
      have h: "prefix input (hd (drop ?rank ?ps))" by (simp add: ys)
      obtain w' r where L: "suggestLoop name input ?rank pks [] w2 = Some (w', r)" "same name (k_redis w2) (k_redis w')"
        "r = Inr ([] @ filter (\<lambda>p. p \<in> ?ks) (takeWhile (prefix input) (drop ?rank ?ps))) \<or>
           (\<exists>op key. \<exists>err \<in> failures w2. r = Inl (newRedisError op key err))"
        using suggestLoop_result[OF C2(1) ok2 h, of "[]"] unfolding pks by blast
      have split: "takeWhile (\<lambda>x. x \<noteq> input) ?ps @ input # ys = ?ps"
        using append_take_drop_id[of ?rank ?ps] ys takeWhile_eq_take[of "\<lambda>x. x \<noteq> input" ?ps] by simp
      have T: "takeWhile (prefix input) (drop ?rank ?ps) = filter (prefix input) ?ps"
        using filter_sorted_block[of "takeWhile (\<lambda>x. x \<noteq> input) ?ps" input ys] P(1,2) unfolding split ys by simp
      have "sorted_wrt bytes_le (filter (\<lambda>p. p \<in> ?ks) (filter (prefix input) ?ps))" "distinct (filter (\<lambda>p. p \<in> ?ks) (filter (prefix input) ?ps))"
        using P(1,2) by (simp_all add: sorted_wrt_filter)
      moreover have "set (filter (\<lambda>p. p \<in> ?ks) (filter (prefix input) ?ps)) = {k \<in> ?ks. input \<noteq> [] \<and> prefix input k}"
        using P(4) False by auto
      ultimately show ?thesis using L C1(2) C2(2) same_trans[OF S2 L(2)] unfolding T E by (auto simp: Inr; blast)
    qed
  qed
qed (use assms in \<open>auto simp: v1_suggest_def Let_def\<close>)

section \<open>Searches and the flush\<close>

text \<open>The kept engine is of the keywords \<open>ks\<close> if the digests agree.\<close>

definition v1_memo_sound :: "read_env \<Rightarrow> kworld \<Rightarrow> gostring list \<Rightarrow> bool" where
  "v1_memo_sound env w ks \<longleftrightarrow> (\<forall>e. em_engine (w_memo (k_local w)) = Some e \<and> em_digest (w_memo (k_local w)) = digestKeywords env ks \<longrightarrow>
     engine_holds e (dict_of ks))"

lemma engineForKeywords_holds:
  assumes env: "read_env_ok env" and ks: "\<forall>k \<in> set ks. k \<noteq> [] \<and> utf8_ok k" "card (states (dict_of ks)) < 2 ^ 30"
    and memo: "\<forall>e. em_engine (w_memo l) = Some e \<and> em_digest (w_memo l) = digestKeywords env ks \<longrightarrow> engine_holds e (dict_of ks)"
  shows "\<exists>l' e. engineForKeywords env ks l = Some (l', Inr e) \<and> engine_holds e (dict_of ks)"
proof (cases "em_engine (w_memo l) \<noteq> None \<and> em_digest (w_memo l) = digestKeywords env ks")
  case True
  then show ?thesis using memo by (auto simp: engineForKeywords_def engineFor_def)
next
  case False
  let ?ks = "re_keywords env (set ks)"
  have s: "set ?ks = set ks" "distinct ?ks" using env unfolding read_env_ok_def by blast+
  have inj: "inj_on runes (set ks)" using ks(1) unfolding inj_on_def utf8_ok_def by metis
  have d: "dict_of ?ks = dict_of ks" by (rule dict_of_set[OF inj s(1)])
  have "keyword_set ?ks" using ks inj s d by (auto simp: keyword_set_def)
  moreover have "Engine_Handle.env_ok (re_build env)" using env by (simp add: read_env_ok_def)
  ultimately obtain e where e: "Engine_Build (re_build env) (Engine_New PresetBalanced) ?ks = Some e" "engine_holds e (dict_of ?ks)"
    using engine_build_correct by blast
  obtain l' where "timed (Inr e) (l\<lparr>w_stats := stats_miss (w_stats l)\<rparr>) = (l', Inr e)"
    using timed_Inr[of e "l\<lparr>w_stats := stats_miss (w_stats l)\<rparr>"] by auto
  then show ?thesis using False e d by (auto simp: engineForKeywords_def engineFor_def)
qed

lemma v1_loadEngine_fresh:
  assumes "steady name w" and "v1_ok name (k_redis w)" and "ks = v1_keywords name (k_redis w)" and "read_env_ok env"
    and "card (states (dict_of ks)) < 2 ^ 30" and "v1_memo_sound env w ks"
  shows "\<exists>w' r. v1_loadEngine env name w = Some (w', r) \<and> same name (k_redis w) (k_redis w') \<and>
    ((\<exists>e. r = Inr e \<and> engine_holds e (dict_of ks)) \<or>
     (\<exists>err \<in> failures w. r = Inl (newRedisError ''SMEMBERS'' (keywordKey name) err)))"
proof -
  have K: "smembers (keywordKey name) R = (R, Inr ks)" if "same name (k_redis w) R" for R
    using listed_keywords(1)[of name R] same_v1[OF that] assms(2,3) by simp
  obtain w1 r1 where c: "call (smembers (keywordKey name)) w = (w1, r1)" by (metis surj_pair)
  note C = call_read[OF assms(1) K c]
  show ?thesis
  proof (cases r1)
    case (Inl err)
    then show ?thesis using C(4,5) c by (auto simp: v1_loadEngine_def)
  next
    case (Inr kws)
    then have kws: "kws = ks" using C(5) by auto
    have "\<forall>k \<in> set ks. k \<noteq> [] \<and> utf8_ok k" using v1_ok_parts(4)[OF assms(2)] assms(3) by blast
    then obtain l' e where "engineForKeywords env ks (k_local w1) = Some (l', Inr e)" "engine_holds e (dict_of ks)"
      using engineForKeywords_holds[OF assms(4) _ assms(5), of "k_local w1"] assms(6) C(3) by (auto simp: v1_memo_sound_def)
    then show ?thesis using C(4) c Inr kws by (auto simp: v1_loadEngine_def)
  qed
qed

text \<open>A search answers for the keywords in the set, or with the error of the command that reads it.\<close>

lemma v1_find_fresh:
  assumes "steady name w" and "v1_ok name (k_redis w)" and "ks = v1_keywords name (k_redis w)" and "read_env_ok env"
    and "card (states (dict_of ks)) < 2 ^ 30" and "v1_memo_sound env w ks" and "text0 \<noteq> []"
  shows "\<exists>w' r. v1_find u env name cs text0 w = Some (w', r) \<and> same name (k_redis w) (k_redis w') \<and>
    (r = Inr (spec_find (dict_of ks) (normalizeText u text0 cs)) \<or>
     (\<exists>err \<in> failures w. r = Inl (newOperationError ''find'' SchemaV1 (newRedisError ''SMEMBERS'' (keywordKey name) err))))"
proof -
  obtain w' r where L: "v1_loadEngine env name w = Some (w', r)" "same name (k_redis w) (k_redis w')"
    "(\<exists>e. r = Inr e \<and> engine_holds e (dict_of ks)) \<or> (\<exists>err \<in> failures w. r = Inl (newRedisError ''SMEMBERS'' (keywordKey name) err))"
    using v1_loadEngine_fresh[OF assms(1-6)] by blast
  then show ?thesis using assms(7) engine_ops(1) by (auto simp: v1_find_def)
qed

lemma v1_findIndex_fresh:
  assumes "steady name w" and "v1_ok name (k_redis w)" and "ks = v1_keywords name (k_redis w)" and "read_env_ok env"
    and "card (states (dict_of ks)) < 2 ^ 30" and "v1_memo_sound env w ks" and "text0 \<noteq> []"
  shows "\<exists>w' r. v1_findIndex u env name cs text0 w = Some (w', r) \<and> same name (k_redis w) (k_redis w') \<and>
    (r = Inr (spec_findIndex (dict_of ks) (normalizeText u text0 cs)) \<or>
     (\<exists>err \<in> failures w. r = Inl (newOperationError ''findIndex'' SchemaV1 (newRedisError ''SMEMBERS'' (keywordKey name) err))))"
proof -
  obtain w' r where L: "v1_loadEngine env name w = Some (w', r)" "same name (k_redis w) (k_redis w')"
    "(\<exists>e. r = Inr e \<and> engine_holds e (dict_of ks)) \<or> (\<exists>err \<in> failures w. r = Inl (newRedisError ''SMEMBERS'' (keywordKey name) err))"
    using v1_loadEngine_fresh[OF assms(1-6)] by blast
  then show ?thesis using assms(7) engine_ops(3) by (auto simp: v1_findIndex_def)
qed

text \<open>Without other clients and failures the flush leaves no key of the collection.\<close>

definition alone :: "kworld \<Rightarrow> bool" where
  "alone w \<longleftrightarrow> k_env w = [] \<and> k_io w = []"

lemma del_alone:
  assumes "alone w"
  shows "redis_call op key (del_keys [k]) g w = g () (w\<lparr>k_redis := (k_redis w)(k := None)\<rparr>)"
    "alone (w\<lparr>k_redis := (k_redis w)(k := None)\<rparr>)"
  using assms by (cases w; simp add: redis_call_def call_def alone_def next_or_def del_keys_def)+

lemma smembers_alone:
  assumes "alone w" and "smembers k (k_redis w) = (k_redis w, Inr xs)"
  shows "redis_call op key (smembers k) g w = g xs w"
  using assms by (cases w) (simp add: redis_call_def call_def alone_def next_or_def)

lemma flushNodes_alone:
  assumes "alone w"
  shows "\<exists>w'. flushNodes name ns w = (w', Inr ()) \<and> alone w' \<and>
    (\<forall>key. k_redis w' key = (if key \<in> outputKey name ` set ns then None else k_redis w key))"
  using assms
proof (induction ns arbitrary: w)
  case (Cons n ns)
  note S = del_alone[OF Cons.prems, where k = "outputKey name n"]
  from Cons.IH[OF S(2)] show ?case by (auto simp: S(1))
qed (auto intro!: exI[of _ w])

lemma output_node_key [simp]: "outputKey name p \<noteq> nodeKey name k" "nodeKey name k \<noteq> outputKey name p"
  "outputKey name p = outputKey name q \<longleftrightarrow> p = q" "nodeKey name k = nodeKey name l \<longleftrightarrow> k = l"
  by (simp_all add: key_defs)

lemma flushKeywords_alone:
  assumes "alone w" and "distinct kws" and "\<forall>k \<in> set kws. holds_set (k_redis w (nodeKey name k)) (N k)"
  shows "\<exists>w'. flushKeywords name kws w = (w', Inr ()) \<and> alone w' \<and>
    (\<forall>key. k_redis w' key = (if key \<in> nodeKey name ` set kws \<or> key \<in> outputKey name ` (\<Union>k \<in> set kws. N k) then None else k_redis w key))"
  using assms
proof (induction kws arbitrary: w)
  case (Cons k kws)
  have "holds_set (k_redis w (nodeKey name k)) (N k)" using Cons.prems(3) by simp
  then obtain ns where sm: "smembers (nodeKey name k) (k_redis w) = (k_redis w, Inr ns)" and ns: "set ns = N k"
    by (rule listed_set)
  note S1 = smembers_alone[OF Cons.prems(1) sm]
  obtain w2 where w2: "flushNodes name ns w = (w2, Inr ())" "alone w2"
    "\<forall>key. k_redis w2 key = (if key \<in> outputKey name ` N k then None else k_redis w key)"
    using flushNodes_alone[OF Cons.prems(1), of name ns] ns by auto
  let ?R = "(k_redis w2)(nodeKey name k := None)"
  note S2 = del_alone[OF w2(2), where k = "nodeKey name k"]
  have "\<forall>l \<in> set kws. holds_set (k_redis (w2\<lparr>k_redis := ?R\<rparr>) (nodeKey name l)) (N l)"
    using Cons.prems(2,3) w2(3) by (auto simp: image_iff)
  from Cons.IH[OF S2(2) _ this] Cons.prems(2) obtain w' where w': "flushKeywords name kws (w2\<lparr>k_redis := ?R\<rparr>) = (w', Inr ())" "alone w'"
    "\<forall>key. k_redis w' key = (if key \<in> nodeKey name ` set kws \<or> key \<in> outputKey name ` (\<Union>k \<in> set kws. N k) then None
      else k_redis (w2\<lparr>k_redis := ?R\<rparr>) key)" by auto
  have "flushKeywords name (k # kws) w = (w', Inr ())" using w2(1) w'(1) by (simp add: S1 S2(1))
  then show ?case using w'(2,3) w2(3) by (auto simp: image_iff)
qed (auto intro!: exI[of _ w])

lemma flushFixed_alone:
  assumes "alone w"
  shows "\<exists>w'. flushFixed keys w = (w', Inr ()) \<and> alone w' \<and> (\<forall>key. k_redis w' key = (if key \<in> set keys then None else k_redis w key))"
  using assms
proof (induction keys arbitrary: w)
  case (Cons k ks)
  note S = del_alone[OF Cons.prems, where k = k]
  from Cons.IH[OF S(2)] show ?case by (auto simp: S(1))
qed (auto intro!: exI[of _ w])

lemma v1_flush_clears:
  assumes "alone w" and "v1_ok name (k_redis w)"
  shows "\<exists>w'. v1_flush name w = (w', Inr ()) \<and>
    (\<forall>p. k_redis w' (outputKey name p) = None \<and> k_redis w' (nodeKey name p) = None) \<and>
    (\<forall>key \<in> {keywordKey name, prefixKey name, suffixKey name}. k_redis w' key = None)"
proof -
  let ?ks = "v1_keywords name (k_redis w)" and ?s = "v1_snap name (k_redis w) 0"
  let ?N = "\<lambda>k. {p. k \<in> output_set ?s p}"
  note S1 = smembers_alone[OF assms(1) listed_keywords(1)[OF assms(2)]]
  have N: "\<forall>k \<in> set ?ks. holds_set (k_redis w (nodeKey name k)) (?N k)" using assms(2) by (simp add: v1_ok_def)
  obtain w2 where w2: "flushKeywords name ?ks w = (w2, Inr ())" "alone w2"
    "\<forall>key. k_redis w2 key = (if key \<in> nodeKey name ` set ?ks \<or> key \<in> outputKey name ` (\<Union>k \<in> set ?ks. ?N k) then None else k_redis w key)"
    using flushKeywords_alone[OF assms(1) v1_ok_parts(3)[OF assms(2)] N] by blast
  obtain w' where w': "flushFixed [prefixKey name, suffixKey name, keywordKey name] w2 = (w', Inr ())"
    "\<forall>key. k_redis w' key = (if key \<in> set [prefixKey name, suffixKey name, keywordKey name] then None else k_redis w2 key)"
    using flushFixed_alone[OF w2(2)] by blast
  have F: "v1_flush name w = (w', Inr ())" using w2(1) w'(1) by (simp add: v1_flush_def S1)
  have sub: "output_set ?s p \<subseteq> set ?ks" for p
    using outputs_union[of ?s] assms(2) by (auto simp: output_set_def v1_ok_def ran_def v1_snap_def split: option.splits)
  have "k_redis w2 (outputKey name p) = None" for p
  proof (cases "output_set ?s p = {}")
    case True
    have "holds_set (k_redis w (outputKey name p)) (output_set ?s p)" using assms(2) by (simp add: v1_ok_def)
    then have "k_redis w (outputKey name p) = None" using True by (auto simp: holds_set_def split: option.splits rvalue.splits)
    then show ?thesis using w2(3) by simp
  next
    case False
    then obtain k where "k \<in> output_set ?s p" by blast
    then have "p \<in> (\<Union>k \<in> set ?ks. ?N k)" using sub by blast
    then show ?thesis using w2(3) by auto
  qed
  moreover have "k_redis w2 (nodeKey name k) = None" for k
  proof (cases "k \<in> set ?ks")
    case False
    have "holds_set (k_redis w (nodeKey name k)) (?N k)" using assms(2) by (simp add: v1_ok_def)
    moreover have "?N k = {}" using False sub by blast
    ultimately have "k_redis w (nodeKey name k) = None" by (auto simp: holds_set_def split: option.splits rvalue.splits)
    then show ?thesis using w2(3) by simp
  qed (use w2(3) in auto)
  ultimately show ?thesis using F w'(2) by auto
qed

definition v1_example :: keyspace where
  "v1_example =
     [keywordKey ''words'' \<mapsto> Members [''hers'', ''he''], prefixKey ''words'' \<mapsto> Ranked [[], ''h'', ''he'', ''her'', ''hers''],
      outputKey ''words'' ''he'' \<mapsto> Members [''he''], outputKey ''words'' ''hers'' \<mapsto> Members [''hers''],
      nodeKey ''words'' ''he'' \<mapsto> Members [''he''], nodeKey ''words'' ''hers'' \<mapsto> Members [''hers'']]"

definition example_kworld :: "keyspace \<Rightarrow> cmd_io list \<Rightarrow> kworld" where
  "example_kworld R io = \<lparr>k_redis = R, k_env = [], k_io = io, k_progress = [], k_local = example_world [] []\<rparr>"

lemma v1_example_data:
  "v1_keywords ''words'' v1_example = [''hers'', ''he'']" "v1_prefixes ''words'' v1_example = [[], ''h'', ''he'', ''her'', ''hers'']"
  by (simp_all add: v1_keywords_def v1_prefixes_def v1_example_def key_defs)

lemma v1_example_live: "live_prefixes {''hers'', ''he''} = {''h'', ''he'', ''her'', ''hers''}"
proof -
  have "utf8_ok ''h'' \<and> utf8_ok ''he'' \<and> utf8_ok ''her'' \<and> utf8_ok ''hers''" by code_simp
  then show ?thesis by (auto simp: live_prefixes_def prefix_Cons)
qed

lemma v1_example_outputs: "output_set (v1_snap ''words'' v1_example v) p = (if p = ''he'' \<or> p = ''hers'' then {p} else {})"
proof -
  let ?K = "{''hers'', ''he''}"
  have K: "\<forall>k \<in> ?K. k \<noteq> [] \<and> utf8_ok k" using ascii_utf8 by simp
  have o: "output_set (v1_snap ''words'' v1_example v) p = (if p \<in> live_prefixes ?K then set (state_keywords ?K p) else {})"
    by (auto simp: output_set_def outputs_of_def v1_snap_def v1_example_data split: option.splits)
  show ?thesis
  proof (cases "p \<in> live_prefixes ?K")
    case True
    then have "utf8_ok p" "p \<noteq> []" by (simp_all add: live_prefixes_def)
    note set_state_keywords[OF this K]
    moreover have "{k \<in> ?K. suffix k p} = (if p = ''he'' \<or> p = ''hers'' then {p} else {})"
      using True unfolding v1_example_live by (auto simp: suffix_def Cons_eq_append_conv)
    ultimately show ?thesis using True o by simp
  next
    case False
    then have "p \<noteq> ''he'' \<and> p \<noteq> ''hers''" unfolding v1_example_live by auto
    with False o show ?thesis by simp
  qed
qed

lemma v1_example_ok: "v1_ok ''words'' v1_example"
proof -
  have b: "sorted_wrt bytes_le [[], ''h'', ''he'', ''her'', ''hers'']" by code_simp
  have s: "snap_ok (v1_snap ''words'' v1_example 0)"
    using v1_example_live ascii_utf8 by (simp add: snap_ok_def v1_snap_def v1_example_data)
  have o: "holds_set (v1_example (outputKey ''words'' p)) (if p = ''he'' \<or> p = ''hers'' then {p} else {})" for p
    by (auto simp: holds_set_def v1_example_def key_defs)
  have n: "holds_set (v1_example (nodeKey ''words'' k)) {p. k \<in> (if p = ''he'' \<or> p = ''hers'' then {p} else {})}" for k
    by (auto simp: holds_set_def v1_example_def key_defs)
  have k: "holds_set (v1_example (keywordKey ''words'')) {''hers'', ''he''}" "v1_example (prefixKey ''words'') = Some (Ranked [[], ''h'', ''he'', ''her'', ''hers''])"
    by (auto simp: holds_set_def v1_example_def key_defs)
  show ?thesis unfolding v1_ok_def v1_example_outputs using s b o n k by (simp add: v1_example_data)
qed

lemma example_steady: "list_all plain_io io \<Longrightarrow> steady name (example_kworld R io)"
  by (simp add: steady_def example_kworld_def)

lemma only_result:
  assumes "case r of Inr l \<Rightarrow> sorted_wrt bytes_le l \<and> distinct l \<and> set l = S | Inl err \<Rightarrow> \<exists>op key. \<exists>e \<in> {}. err = newRedisError op key e"
    and "S = T"
  shows "\<exists>l. r = Inr l \<and> set l = T"
  using assms by (cases r) auto

theorem v1_suggest_exact_witness:
  "\<exists>w' r. v1_suggest ascii_unicode ''words'' True '' her '' (example_kworld v1_example []) = Some (w', r) \<and> (\<exists>l. r = Inr l \<and> set l = {''hers''})"
proof -
  have n: "''her'' = normalizeKeyword ascii_unicode '' her '' True" by code_simp
  have u: "utf8_ok ''her''" by code_simp
  have st: "steady ''words'' (example_kworld v1_example [])" by (simp add: example_steady)
  have ok: "v1_ok ''words'' (k_redis (example_kworld v1_example []))" using v1_example_ok by (simp add: example_kworld_def)
  have f: "failures (example_kworld v1_example []) = {}" by (simp add: failures_def example_kworld_def)
  have k: "v1_keywords ''words'' (k_redis (example_kworld v1_example [])) = [''hers'', ''he'']" by (simp add: v1_example_data example_kworld_def)
  obtain w' r where r: "v1_suggest ascii_unicode ''words'' True '' her '' (example_kworld v1_example []) = Some (w', r)"
    "case r of Inr l \<Rightarrow> sorted_wrt bytes_le l \<and> distinct l \<and> set l = {k \<in> set [''hers'', ''he'']. ''her'' \<noteq> [] \<and> prefix ''her'' k}
     | Inl err \<Rightarrow> \<exists>op key. \<exists>e \<in> {}. err = newRedisError op key e"
    using v1_suggest_exact[OF st ok n u] unfolding k f by (elim exE conjE) (rule that)
  have "filter (\<lambda>k. ''her'' \<noteq> [] \<and> prefix ''her'' k) [''hers'', ''he''] = [''hers'']" by simp
  then have "{k \<in> set [''hers'', ''he'']. ''her'' \<noteq> [] \<and> prefix ''her'' k} = {''hers''}"
    unfolding set_filter[symmetric] by simp
  then have "\<exists>l. r = Inr l \<and> set l = {''hers''}" by (rule only_result[OF r(2)])
  with r(1) show ?thesis by (intro exI[of _ w'] exI[of _ r]) (rule conjI)
qed

end
