(* ===== verification/Migration.thy ===== *)
theory Migration
  imports V1_Ops
begin

text \<open>
  \<^verbatim>\<open>pkg/acor/migration.go\<close> and \<^verbatim>\<open>schema.go\<close>: turning a V1 collection into a V2 one and
  back.  The migration reads the V1 keys, writes the V2 hashes under temporary names
  and swaps them in one transaction; a lock key with a time to live keeps other
  migrations out.  The texts of errors and the log are not modelled, and encoding a
  list of strings as JSON cannot fail.
\<close>

section \<open>Commands\<close>

definition ErrAlreadyV2 :: acorError where "ErrAlreadyV2 = ErrText ''collection is already on V2 schema''"
definition ErrNoDataToMigrate :: acorError where "ErrNoDataToMigrate = ErrText ''no V1 data found to migrate''"

definition setnx :: "gostring \<Rightarrow> gostring \<Rightarrow> keyspace \<Rightarrow> keyspace \<times> bool result" where
  "setnx key v R = (if R key = None then (R(key \<mapsto> TextValue v), Inr True) else (R, Inr False))"

definition hset_trie :: "gostring \<Rightarrow> trieHash \<Rightarrow> keyspace \<Rightarrow> keyspace \<times> unit result" where
  "hset_trie key t R =
     (case R key of
        None \<Rightarrow> (R(key \<mapsto> TrieValue t), Inr ())
      | Some (TrieValue old) \<Rightarrow> (R(key \<mapsto> TrieValue t), Inr ())
      | _ \<Rightarrow> (R, Inl wrongType))"

definition hset_lists :: "gostring \<Rightarrow> (gostring \<times> gostring list json) list \<Rightarrow> keyspace \<Rightarrow> keyspace \<times> unit result" where
  "hset_lists key fs R =
     (case R key of
        None \<Rightarrow> (R(key \<mapsto> ListsValue fs), Inr ())
      | Some (ListsValue old) \<Rightarrow> (R(key \<mapsto> ListsValue (fold (\<lambda>(field, v). AList.update field v) fs old)), Inr ())
      | _ \<Rightarrow> (R, Inl wrongType))"

definition rename :: "gostring \<Rightarrow> gostring \<Rightarrow> keyspace \<Rightarrow> keyspace \<times> unit result" where
  "rename key newKey R =
     (case R key of
        None \<Rightarrow> (R, Inl (ErrClient ''ERR no such key''))
      | Some v \<Rightarrow> (R(key := None, newKey \<mapsto> v), Inr ()))"

text \<open>
  \<^verbatim>\<open>MULTI\<close>/\<^verbatim>\<open>EXEC\<close>: all commands run, nobody comes between them, and the first error is
  reported; nothing is rolled back.
\<close>

fun transaction :: "(keyspace \<Rightarrow> keyspace \<times> unit result) list \<Rightarrow> keyspace \<Rightarrow> keyspace \<times> unit result" where
  "transaction [] R = (R, Inr ())"
| "transaction (cmd # cmds) R =
     (case cmd R of (R1, r1) \<Rightarrow>
        (case transaction cmds R1 of (R2, r2) \<Rightarrow> (R2, bindR r1 (\<lambda>_. r2))))"

section \<open>Options and results\<close>

record MigrationOptions =
  mo_DryRun :: bool
  mo_KeepOldKeys :: bool
  mo_Progress :: bool

definition DefaultMigrationOptions :: MigrationOptions where
  "DefaultMigrationOptions = \<lparr>mo_DryRun = False, mo_KeepOldKeys = False, mo_Progress = False\<rparr>"

record MigrationResult =
  mr_Status :: string
  mr_Collection :: gostring
  mr_FromSchema :: nat
  mr_ToSchema :: nat
  mr_DryRun :: bool
  mr_Keywords :: nat
  mr_Prefixes :: nat
  mr_OutputsKeys :: nat
  mr_NodesKeys :: nat
  mr_KeysBefore :: nat
  mr_KeysAfter :: nat
  mr_DurationMs :: int
  mr_RolledBack :: bool
  mr_ErrorMessage :: "acorError option"

definition migration_Stats :: "MigrationResult \<Rightarrow> string \<rightharpoonup> nat" where
  "migration_Stats r =
     [''keywords'' \<mapsto> mr_Keywords r, ''prefixes'' \<mapsto> mr_Prefixes r, ''outputs_keys'' \<mapsto> mr_OutputsKeys r,
      ''nodes_keys'' \<mapsto> mr_NodesKeys r, ''keys_before'' \<mapsto> mr_KeysBefore r, ''keys_after'' \<mapsto> mr_KeysAfter r]"

definition migrationTotalSteps :: nat where "migrationTotalSteps = 5"
definition keysBaseCount :: nat where "keysBaseCount = 2"
definition v2KeyCount :: nat where "v2KeyCount = 3"

text \<open>
  The fields of an instance that decide what it does; \<open>cl_ops\<close> is the schema its operations
  are for.  Its cache and memo are in \<open>k_local\<close>.
\<close>

record client =
  cl_name :: gostring
  cl_original :: bool
  cl_redisClient :: bool
  cl_schemaVersion :: nat
  cl_ops :: nat

definition requireRedisBacked :: "client \<Rightarrow> acorError option" where
  "requireRedisBacked ac = (if \<not> cl_original ac \<or> \<not> cl_redisClient ac then Some ErrMigrationRequiresRedis else None)"

definition now :: "kworld \<Rightarrow> int" where "now w = next_or 1 (w_clock (k_local w))"

definition tick :: "kworld \<Rightarrow> kworld" where
  "tick w = w\<lparr>k_local := (k_local w)\<lparr>w_clock := tl (w_clock (k_local w))\<rparr>\<rparr>"

definition report :: "MigrationOptions \<Rightarrow> nat \<Rightarrow> string \<Rightarrow> kworld \<Rightarrow> kworld" where
  "report opts done msg w = (if mo_Progress opts then w\<lparr>k_progress := k_progress w @ [(done, migrationTotalSteps, msg)]\<rparr> else w)"

definition sinceMs :: "int \<Rightarrow> kworld \<Rightarrow> int" where
  "sinceMs start w = (let d = duration (now w - start) in sgn d * (\<bar>d\<bar> div 1000000))"

section \<open>Reading the V1 keys\<close>

text \<open>
  The sets under the keys of the given names; the map is in the order of its first
  writes, with the count of the sets that are not empty.
\<close>

fun collectSets ::
  "(gostring \<Rightarrow> gostring) \<Rightarrow> gostring list \<Rightarrow> state_outputs \<Rightarrow> nat \<Rightarrow> kworld \<Rightarrow> kworld \<times> (state_outputs \<times> nat) result" where
  "collectSets key [] m n w = (w, Inr (m, n))"
| "collectSets key (x # xs) m n w =
     (case call (smembers (key x)) w of
        (w1, Inl err) \<Rightarrow> if err \<noteq> redis_Nil then (w1, Inl err) else collectSets key xs m n w1
      | (w1, Inr s) \<Rightarrow> if length s > 0 then collectSets key xs (AList.update x s m) (Suc n) w1 else collectSets key xs m n w1)"

record v1data =
  vd_keywords :: "gostring list"
  vd_prefixes :: "gostring list"
  vd_outputs :: state_outputs
  vd_nodes :: state_outputs

definition collectV1 :: "MigrationOptions \<Rightarrow> gostring \<Rightarrow> MigrationResult \<Rightarrow> kworld \<Rightarrow> kworld \<times> MigrationResult \<times> v1data result" where
  "collectV1 opts name result w =
     (case call (smembers (keywordKey name)) (report opts 1 ''Collecting keywords'' w) of
        (w1, Inl err) \<Rightarrow> (w1, result, Inl err)
      | (w1, Inr keywords) \<Rightarrow>
          (let result1 = result\<lparr>mr_Keywords := length keywords\<rparr> in
           case call (zmembers (prefixKey name)) (report opts 2 ''Collecting prefixes'' w1) of
             (w2, Inl err) \<Rightarrow> (w2, result1, Inl err)
           | (w2, Inr pfs) \<Rightarrow>
               (let result2 = result1\<lparr>mr_Prefixes := length pfs\<rparr> in
                case collectSets (outputKey name) pfs [] 0 (report opts 3 ''Collecting outputs'' w2) of
                  (w3, Inl err) \<Rightarrow> (w3, result2, Inl err)
                | (w3, Inr (outputs, outputCount)) \<Rightarrow>
                    (let result3 = result2\<lparr>mr_OutputsKeys := outputCount\<rparr> in
                     case collectSets (nodeKey name) keywords [] 0 (report opts 4 ''Collecting nodes'' w3) of
                       (w4, Inl err) \<Rightarrow> (w4, result3, Inl err)
                     | (w4, Inr (ns, nodeCount)) \<Rightarrow>
                         (w4, result3\<lparr>mr_NodesKeys := nodeCount,
                              mr_KeysBefore := keysBaseCount + length pfs + length keywords, mr_KeysAfter := v2KeyCount\<rparr>,
                          Inr \<lparr>vd_keywords = keywords, vd_prefixes = pfs, vd_outputs = outputs, vd_nodes = ns\<rparr>)))))"

section \<open>Writing and swapping\<close>

fun runSteps :: "(keyspace \<Rightarrow> keyspace \<times> unit result) list \<Rightarrow> kworld \<Rightarrow> kworld \<times> unit result" where
  "runSteps [] w = (w, Inr ())"
| "runSteps (cmd # cmds) w =
     (case call cmd w of
        (w1, Inl err) \<Rightarrow> (w1, Inl err)
      | (w1, Inr u) \<Rightarrow> runSteps cmds w1)"

definition toFields :: "state_outputs \<Rightarrow> (gostring \<times> gostring list json) list" where
  "toFields m = map (\<lambda>(field, xs). (field, Json (map json_str xs))) m"

definition tempKeys :: "gostring \<Rightarrow> int \<Rightarrow> gostring list" where
  "tempKeys name t = map (\<lambda>key. key @ '':tmp:'' @ itoa t) [trieKey name, outputsKey name, nodesKey name]"

definition swapCommands :: "MigrationOptions \<Rightarrow> gostring \<Rightarrow> int \<Rightarrow> v1data \<Rightarrow> (keyspace \<Rightarrow> keyspace \<times> unit result) list" where
  "swapCommands opts name t d =
     (if mo_KeepOldKeys opts then []
      else [del_keys [keywordKey name, prefixKey name, suffixKey name]] @
        map (\<lambda>p. del_keys [outputKey name p]) (vd_prefixes d) @ map (\<lambda>kw. del_keys [nodeKey name kw]) (vd_keywords d)) @
     [rename (tempKeys name t ! 0) (trieKey name)] @
     (if length (vd_outputs d) > 0 then [rename (tempKeys name t ! 1) (outputsKey name)] else []) @
     (if length (vd_nodes d) > 0 then [rename (tempKeys name t ! 2) (nodesKey name)] else [])"

text \<open>The three writes under temporary names and the swap; after a failure of any of them the temporary keys are deleted.\<close>

definition writeSteps :: "MigrationOptions \<Rightarrow> gostring \<Rightarrow> int \<Rightarrow> int \<Rightarrow> v1data \<Rightarrow> (keyspace \<Rightarrow> keyspace \<times> unit result) list" where
  "writeSteps opts name t version d =
     [hset_trie (tempKeys name t ! 0)
        \<lparr>th_keywords = Some (Json (map json_str (vd_keywords d))), th_prefixes = Some (Json (map json_str (vd_prefixes d))),
         th_version = Some (itoa version)\<rparr>] @
     (if length (vd_outputs d) > 0 then [hset_lists (tempKeys name t ! 1) (toFields (vd_outputs d))] else []) @
     (if length (vd_nodes d) > 0 then [hset_lists (tempKeys name t ! 2) (toFields (vd_nodes d))] else []) @
     [transaction (swapCommands opts name t d)]"

definition writeV2 :: "MigrationOptions \<Rightarrow> gostring \<Rightarrow> v1data \<Rightarrow> kworld \<Rightarrow> kworld \<times> unit result" where
  "writeV2 opts name d w =
     (let t = now w; w1 = tick w; version = now w1; w2 = tick w1 in
      case runSteps (writeSteps opts name t version d) w2 of
        (w3, Inl err) \<Rightarrow> (fst (call (del_keys (tempKeys name t)) w3), Inl err)
      | (w3, Inr u) \<Rightarrow> (w3, Inr ()))"

text \<open>The operations of a schema start with an empty memo.\<close>

definition newOps :: "nat \<Rightarrow> client \<times> kworld \<Rightarrow> client \<times> kworld" where
  "newOps schema = (\<lambda>(ac, w). (ac\<lparr>cl_schemaVersion := schema, cl_ops := schema\<rparr>,
     w\<lparr>k_local := (k_local w)\<lparr>w_memo := \<lparr>em_engine = None, em_digest = 0\<rparr>\<rparr>\<rparr>))"

definition failed :: "MigrationResult \<Rightarrow> acorError \<Rightarrow> MigrationResult option \<times> acorError option" where
  "failed result err = (Some (result\<lparr>mr_Status := ''error'', mr_ErrorMessage := Some err\<rparr>), Some err)"

type_synonym migration_outcome = "MigrationResult option \<times> acorError option"

definition migrateData :: "MigrationOptions \<Rightarrow> client \<Rightarrow> MigrationResult \<Rightarrow> int \<Rightarrow> kworld \<Rightarrow> kworld \<times> client \<times> migration_outcome" where
  "migrateData opts ac result start w =
     (case collectV1 opts (cl_name ac) result w of
        (w1, result1, Inl err) \<Rightarrow> (w1, ac, failed result1 err)
      | (w1, result1, Inr d) \<Rightarrow>
          if mo_DryRun opts
          then (tick w1, ac, Some (result1\<lparr>mr_Status := ''dry-run'', mr_DurationMs := sinceMs start w1\<rparr>), None)
          else
            (case writeV2 opts (cl_name ac) d (report opts 5 ''Writing V2 structure'' w1) of
               (w2, Inl err) \<Rightarrow> (w2, ac, failed result1 err)
             | (w2, Inr u) \<Rightarrow>
                 (case newOps SchemaV2 (ac, w2) of (ac', w3) \<Rightarrow>
                    (tick w3, ac', Some (result1\<lparr>mr_Status := ''success'', mr_DurationMs := sinceMs start w3\<rparr>), None))))"

definition migrateLocked :: "MigrationOptions \<Rightarrow> client \<Rightarrow> kworld \<Rightarrow> kworld \<times> client \<times> migration_outcome" where
  "migrateLocked opts ac w0 =
     (let start = now w0; w = tick w0;
          result = \<lparr>mr_Status = [], mr_Collection = cl_name ac, mr_FromSchema = SchemaV1, mr_ToSchema = SchemaV2,
            mr_DryRun = mo_DryRun opts, mr_Keywords = 0, mr_Prefixes = 0, mr_OutputsKeys = 0, mr_NodesKeys = 0,
            mr_KeysBefore = 0, mr_KeysAfter = 0, mr_DurationMs = 0, mr_RolledBack = False, mr_ErrorMessage = None\<rparr> in
      case call (exists_key (trieKey (cl_name ac))) w of
        (w1, Inl err) \<Rightarrow> (w1, ac, None, Some (Wrapped ''failed to check V2 keys'' err))
      | (w1, Inr True) \<Rightarrow> (w1, ac, None, Some ErrAlreadyV2)
      | (w1, Inr False) \<Rightarrow>
          (case call (exists_key (prefixKey (cl_name ac))) w1 of
             (w2, Inl err) \<Rightarrow> (w2, ac, None, Some (Wrapped ''failed to check V1 keys'' err))
           | (w2, Inr False) \<Rightarrow> (w2, ac, None, Some ErrNoDataToMigrate)
           | (w2, Inr True) \<Rightarrow> migrateData opts ac result start w2))"

definition MigrateV1ToV2 :: "MigrationOptions option \<Rightarrow> client \<Rightarrow> kworld \<Rightarrow> kworld \<times> client \<times> migration_outcome" where
  "MigrateV1ToV2 opts ac w =
     (case requireRedisBacked ac of
        Some err \<Rightarrow> (w, ac, None, Some err)
      | None \<Rightarrow>
          (case call (setnx (migrationLockKey (cl_name ac)) ''migrating'') w of
             (w1, Inl err) \<Rightarrow> (w1, ac, None, Some (Wrapped ''failed to acquire migration lock'' err))
           | (w1, Inr False) \<Rightarrow> (w1, ac, None, Some ErrMigrationInProg)
           | (w1, Inr True) \<Rightarrow>
               (case migrateLocked (case opts of None \<Rightarrow> DefaultMigrationOptions | Some o1 \<Rightarrow> o1) ac w1 of (w2, ac', out) \<Rightarrow>
                  (fst (call (del_keys [migrationLockKey (cl_name ac)]) w2), ac', out))))"

section \<open>Rolling back\<close>

definition RollbackToV1 :: "client \<Rightarrow> kworld \<Rightarrow> kworld \<times> client \<times> acorError option" where
  "RollbackToV1 ac w =
     (case requireRedisBacked ac of
        Some err \<Rightarrow> (w, ac, Some err)
      | None \<Rightarrow>
          (case call (exists_key (keywordKey (cl_name ac))) w of
             (w1, Inl err) \<Rightarrow> (w1, ac, Some (Wrapped ''failed to check V1 keys'' err))
           | (w1, Inr False) \<Rightarrow> (w1, ac, Some (ErrText ''V1 keys not found - rollback not possible''))
           | (w1, Inr True) \<Rightarrow>
               (case call (del_keys [trieKey (cl_name ac), outputsKey (cl_name ac), nodesKey (cl_name ac)]) w1 of
                  (w2, Inl err) \<Rightarrow> (w2, ac, Some (Wrapped ''failed to delete V2 keys'' err))
                | (w2, Inr u) \<Rightarrow>
                    (case newOps SchemaV1 (ac, w2\<lparr>k_local := (k_local w2)\<lparr>w_cache := None\<rparr>\<rparr>) of (ac', w3) \<Rightarrow> (w3, ac', None)))))"

section \<open>What is read\<close>

lemma report_world [simp]:
  "k_redis (report opts n msg w) = k_redis w" "failures (report opts n msg w) = failures w" "steady name (report opts n msg w) = steady name w"
  "k_local (report opts n msg w) = k_local w" "k_io (report opts n msg w) = k_io w"
  by (simp_all add: report_def failures_def steady_def)

lemma tick_world [simp]:
  "k_redis (tick w) = k_redis w" "failures (tick w) = failures w" "steady name (tick w) = steady name w" "k_io (tick w) = k_io w"
  "w_clock (k_local (tick w)) = tl (w_clock (k_local w))"
  by (simp_all add: tick_def failures_def steady_def)

definition members :: "rvalue option \<Rightarrow> gostring list" where
  "members v = (case v of Some (Members xs) \<Rightarrow> xs | _ \<Rightarrow> [])"

lemma smembers_set:
  assumes "holds_set (R key) S"
  shows "smembers key R = (R, Inr (members (R key)))" "members (R key) = [] \<longleftrightarrow> S = {}" "set (members (R key)) = S" "distinct (members (R key))"
    "R key = None \<longleftrightarrow> S = {}"
  using assms by (auto simp: holds_set_def smembers_def members_def split: option.splits rvalue.splits)

text \<open>Reading leaves the collection alone, and yields the value or the error of a command that failed.\<close>

definition reads :: "gostring \<Rightarrow> kworld \<Rightarrow> kworld \<Rightarrow> bool" where
  "reads name w w' \<longleftrightarrow> steady name w' \<and> failures w' \<subseteq> failures w \<and> set (k_io w') \<subseteq> set (k_io w) \<and> k_local w' = k_local w \<and>
     same name (k_redis w) (k_redis w')"

lemma reads_trans: "reads name u v \<Longrightarrow> reads name v w \<Longrightarrow> reads name u w"
  unfolding reads_def using same_trans by fastforce

lemma reads_report: "reads name (report opts n msg u) w \<Longrightarrow> reads name u w"
  by (simp add: reads_def)

lemma call_io: "call f w = (w1, r) \<Longrightarrow> set (k_io w1) \<subseteq> set (k_io w)"
  by (cases "k_io w") (auto simp: call_def Let_def split: prod.splits cmd_io.splits)

lemma call_reads:
  assumes "steady name w" and "\<And>R. same name (k_redis w) R \<Longrightarrow> f R = (R, v)" and "call f w = (w1, r)"
  shows "reads name w w1" "r = v \<or> (\<exists>err \<in> failures w. r = Inl err \<and> \<not> errors_Is err redis_Nil)"
  using call_read[OF assms] call_io[OF assms(3)] by (auto simp: reads_def)

lemma collectSets_reads:
  assumes "steady name w" and "\<And>x. owned name (key x)" and "\<forall>x \<in> set xs. holds_set (k_redis w (key x)) (N x)"
  shows "\<exists>w' r. collectSets key xs m n w = (w', r) \<and> reads name w w' \<and>
    ((\<exists>m'. r = Inr (m', n + length (filter (\<lambda>x. N x \<noteq> {}) xs)) \<and>
       (\<forall>x. map_of m' x = (if x \<in> set xs \<and> N x \<noteq> {} then Some (members (k_redis w (key x))) else map_of m x))) \<or>
     (\<exists>err \<in> failures w. r = Inl err))"
  using assms(1,3)
proof (induction xs arbitrary: m n w)
  case Nil
  then show ?case by (auto simp: reads_def)
next
  case (Cons x xs)
  have h: "holds_set (R (key x)) (N x)" "R (key x) = k_redis w (key x)" if "same name (k_redis w) R" for R
    using Cons.prems(2) same_owned[OF that assms(2)] by simp_all
  have S: "smembers (key x) R = (R, Inr (members (k_redis w (key x))))" if "same name (k_redis w) R" for R
    using smembers_set(1)[where R = R and key = "key x", OF h(1)[OF that]] h(2)[OF that] by simp
  note M = smembers_set[where R = "k_redis w" and key = "key x", OF h(1)[OF same_refl]]
  obtain w1 r1 where c: "call (smembers (key x)) w = (w1, r1)" by (metis surj_pair)
  note C = call_reads[OF Cons.prems(1) S c]
  show ?case
  proof (cases r1)
    case (Inl err)
    then have "err \<noteq> redis_Nil" using C(2) errors_Is_refl by auto
    then show ?thesis using C c Inl by auto
  next
    case (Inr s)
    then have s: "s = members (k_redis w (key x))" using C(2) by auto
    have st: "steady name w1" and sm: "\<And>y. k_redis w1 (key y) = k_redis w (key y)"
      using C(1) same_owned[OF _ assms(2)] by (auto simp: reads_def)
    have hs: "\<forall>y \<in> set xs. holds_set (k_redis w1 (key y)) (N y)" using Cons.prems(2) sm by simp
    define m1 where "m1 = (if N x \<noteq> {} then AList.update x s m else m)"
    define n1 where "n1 = (if N x \<noteq> {} then Suc n else n)"
    have "collectSets key (x # xs) m n w = collectSets key xs m1 n1 w1"
      using M(2) s by (simp add: c Inr m1_def n1_def)
    moreover obtain w' r where "collectSets key xs m1 n1 w1 = (w', r)" "reads name w1 w'"
      "(\<exists>m'. r = Inr (m', n1 + length (filter (\<lambda>x. N x \<noteq> {}) xs)) \<and>
         (\<forall>x. map_of m' x = (if x \<in> set xs \<and> N x \<noteq> {} then Some (members (k_redis w1 (key x))) else map_of m1 x))) \<or>
       (\<exists>err \<in> failures w1. r = Inl err)"
      using Cons.IH[OF st hs, of m1 n1] by blast
    ultimately have A: "collectSets key (x # xs) m n w = (w', r)" "reads name w w'"
      "(\<exists>m'. r = Inr (m', n1 + length (filter (\<lambda>x. N x \<noteq> {}) xs)) \<and>
         (\<forall>x. map_of m' x = (if x \<in> set xs \<and> N x \<noteq> {} then Some (members (k_redis w (key x))) else map_of m1 x))) \<or>
       (\<exists>err \<in> failures w. r = Inl err)"
      using reads_trans[OF C(1)] C(1) sm by (auto simp: reads_def)
    have m1: "map_of m1 y = (if y = x \<and> N x \<noteq> {} then Some (members (k_redis w (key x))) else map_of m y)" for y
      by (simp add: m1_def update_conv' s)
    have n1: "n1 + length (filter (\<lambda>x. N x \<noteq> {}) xs) = n + length (filter (\<lambda>x. N x \<noteq> {}) (x # xs))" by (simp add: n1_def)
    have "map_of m' y = (if y \<in> set (x # xs) \<and> N y \<noteq> {} then Some (members (k_redis w (key y))) else map_of m y)"
      if "\<forall>x. map_of m' x = (if x \<in> set xs \<and> N x \<noteq> {} then Some (members (k_redis w (key x))) else map_of m1 x)" for m' y
      using that m1[of y] by (cases "y \<in> set xs"; cases "N y = {}"; auto)
    with A(3) have "(\<exists>m'. r = Inr (m', n + length (filter (\<lambda>x. N x \<noteq> {}) (x # xs))) \<and>
         (\<forall>y. map_of m' y = (if y \<in> set (x # xs) \<and> N y \<noteq> {} then Some (members (k_redis w (key y))) else map_of m y))) \<or>
       (\<exists>err \<in> failures w. r = Inl err)" unfolding n1 by blast
    with A(1,2) show ?thesis by blast
  qed
qed

definition node_set :: "trieSnapshot \<Rightarrow> gostring \<Rightarrow> gostring set" where
  "node_set s k = {p. k \<in> output_set s p}"

definition data_of :: "gostring \<Rightarrow> keyspace \<Rightarrow> v1data \<Rightarrow> bool" where
  "data_of name R d \<longleftrightarrow> vd_keywords d = v1_keywords name R \<and> vd_prefixes d = v1_prefixes name R \<and>
     (\<forall>p. map_of (vd_outputs d) p = (if output_set (v1_snap name R 0) p \<noteq> {} then Some (members (R (outputKey name p))) else None)) \<and>
     (\<forall>k. map_of (vd_nodes d) k = (if node_set (v1_snap name R 0) k \<noteq> {} then Some (members (R (nodeKey name k))) else None))"

definition counted :: "gostring \<Rightarrow> keyspace \<Rightarrow> MigrationResult \<Rightarrow> MigrationResult" where
  "counted name R r =
     r\<lparr>mr_Keywords := length (v1_keywords name R), mr_Prefixes := length (v1_prefixes name R),
       mr_OutputsKeys := length (filter (\<lambda>p. output_set (v1_snap name R 0) p \<noteq> {}) (v1_prefixes name R)),
       mr_NodesKeys := length (filter (\<lambda>k. node_set (v1_snap name R 0) k \<noteq> {}) (v1_keywords name R)),
       mr_KeysBefore := 2 + length (v1_prefixes name R) + length (v1_keywords name R), mr_KeysAfter := 3\<rparr>"

lemma live_outputs:
  assumes "v1_ok name R"
  shows "k \<in> output_set (v1_snap name R 0) p \<Longrightarrow> p \<noteq> [] \<and> p \<in> set (v1_prefixes name R) \<and> k \<in> set (v1_keywords name R)"
    "holds_set (R (outputKey name p)) (output_set (v1_snap name R 0) p)" "holds_set (R (nodeKey name k)) (node_set (v1_snap name R 0) k)"
proof -
  have s: "snap_ok (v1_snap name R 0)" using assms by (simp add: v1_ok_def)
  assume k: "k \<in> output_set (v1_snap name R 0) p"
  then obtain l where l: "outputs_of (v1_snap name R 0) p = Some l" "k \<in> set l" by (auto simp: output_set_def split: option.splits)
  then have "p \<in> live_prefixes (set (v1_keywords name R))" by (auto simp: outputs_of_def v1_snap_def split: if_splits)
  moreover have "k \<in> set (v1_keywords name R)" using outputs_union[OF s] l by (auto simp: ran_def v1_snap_def)
  ultimately show "p \<noteq> [] \<and> p \<in> set (v1_prefixes name R) \<and> k \<in> set (v1_keywords name R)"
    using v1_ok_parts(5)[OF assms, of p] by (auto simp: live_prefixes_def)
qed (use assms in \<open>simp_all add: v1_ok_def node_set_def\<close>)

lemma same_collected:
  assumes "same name R S"
  shows "data_of name S d \<longleftrightarrow> data_of name R d" "counted name S r = counted name R r"
  using same_v1[OF assms] same_owned[OF assms] by (simp_all add: data_of_def counted_def)

lemma collectV1_reads:
  assumes "steady name w" and "v1_ok name (k_redis w)"
  shows "\<exists>w' result' r. collectV1 opts name result w = (w', result', r) \<and> reads name w w' \<and>
    ((\<exists>d. r = Inr d \<and> data_of name (k_redis w) d \<and> result' = counted name (k_redis w) result) \<or> (\<exists>err \<in> failures w. r = Inl err))"
proof -
  let ?R = "k_redis w" and ?s = "v1_snap name (k_redis w) 0"
  let ?ks = "v1_keywords name ?R" and ?ps = "v1_prefixes name ?R"
  have ok: "v1_ok name R" "v1_keywords name R = ?ks" "v1_prefixes name R = ?ps" if "same name ?R R" for R
    using same_v1[OF that] assms(2) by simp_all
  have K: "smembers (keywordKey name) R = (R, Inr ?ks)" "zmembers (prefixKey name) R = (R, Inr ?ps)" if "same name ?R R" for R
    using listed_keywords[OF ok(1)[OF that]] ok(2,3)[OF that] by simp_all
  let ?w0 = "report opts 1 ''Collecting keywords'' w"
  obtain w1 r1 where c1: "call (smembers (keywordKey name)) ?w0 = (w1, r1)" by (metis surj_pair)
  have C1: "reads name w w1" "r1 = Inr ?ks \<or> (\<exists>err \<in> failures w. r1 = Inl err)"
    using call_reads[OF _ _ c1, of name "Inr ?ks"] assms(1) K(1) by (auto intro: reads_report)
  show ?thesis
  proof (cases r1)
    case (Inl err)
    then show ?thesis using C1 c1 by (auto simp: collectV1_def)
  next
    case r1: (Inr x)
    then have x: "x = ?ks" using C1(2) by auto
    have R1: "steady name w1" "same name ?R (k_redis w1)" "failures w1 \<subseteq> failures w" using C1(1) by (simp_all add: reads_def)
    obtain w2 r2 where c2: "call (zmembers (prefixKey name)) (report opts 2 ''Collecting prefixes'' w1) = (w2, r2)" by (metis surj_pair)
    have C2: "reads name w1 w2" "r2 = Inr ?ps \<or> (\<exists>err \<in> failures w1. r2 = Inl err)"
      using call_reads[OF _ _ c2, of name "Inr ?ps"] R1(1) K(2)[OF same_trans[OF R1(2)]] by (auto intro: reads_report)
    note W2 = reads_trans[OF C1(1) C2(1)]
    show ?thesis
    proof (cases r2)
      case (Inl err)
      then show ?thesis using C2 W2 R1(3) c1 c2 r1 by (auto simp: collectV1_def Let_def)
    next
      case r2: (Inr y)
      then have y: "y = ?ps" using C2(2) by auto
      have R2: "steady name w2" "same name ?R (k_redis w2)" "failures w2 \<subseteq> failures w" using W2 by (simp_all add: reads_def)
      let ?w2 = "report opts 3 ''Collecting outputs'' w2"
      have o2: "\<forall>p \<in> set ?ps. holds_set (k_redis ?w2 (outputKey name p)) (output_set ?s p)"
        using live_outputs(2)[OF assms(2)] same_owned[OF R2(2)] by simp
      obtain w3 r3 where c3: "collectSets (outputKey name) ?ps [] 0 ?w2 = (w3, r3)" "reads name ?w2 w3"
        "(\<exists>m'. r3 = Inr (m', 0 + length (filter (\<lambda>x. output_set ?s x \<noteq> {}) ?ps)) \<and>
          (\<forall>x. map_of m' x = (if x \<in> set ?ps \<and> output_set ?s x \<noteq> {} then Some (members (k_redis ?w2 (outputKey name x))) else map_of [] x))) \<or>
         (\<exists>err \<in> failures ?w2. r3 = Inl err)"
        using collectSets_reads[OF _ _ o2, of name "[]" 0] R2(1) by auto
      note W3 = reads_trans[OF W2 reads_report[OF c3(2)]]
      show ?thesis
      proof (cases r3)
        case (Inl err)
        then show ?thesis using c3 W3 R2(3) c1 c2 r1 r2 x y by (auto simp: collectV1_def Let_def)
      next
        case r3: (Inr mn)
        then obtain m where m: "mn = (m, length (filter (\<lambda>x. output_set ?s x \<noteq> {}) ?ps))"
          "\<forall>x. map_of m x = (if x \<in> set ?ps \<and> output_set ?s x \<noteq> {} then Some (members (k_redis w2 (outputKey name x))) else None)"
          using c3(3) by auto
        have R3: "steady name w3" "same name ?R (k_redis w3)" "failures w3 \<subseteq> failures w" using W3 by (simp_all add: reads_def)
        let ?w3 = "report opts 4 ''Collecting nodes'' w3"
        have o3: "\<forall>k \<in> set ?ks. holds_set (k_redis ?w3 (nodeKey name k)) (node_set ?s k)"
          using live_outputs(3)[OF assms(2)] same_owned[OF R3(2)] by simp
        obtain w4 r4 where c4: "collectSets (nodeKey name) ?ks [] 0 ?w3 = (w4, r4)" "reads name ?w3 w4"
          "(\<exists>m'. r4 = Inr (m', 0 + length (filter (\<lambda>x. node_set ?s x \<noteq> {}) ?ks)) \<and>
            (\<forall>x. map_of m' x = (if x \<in> set ?ks \<and> node_set ?s x \<noteq> {} then Some (members (k_redis ?w3 (nodeKey name x))) else map_of [] x))) \<or>
           (\<exists>err \<in> failures ?w3. r4 = Inl err)"
          using collectSets_reads[OF _ _ o3, of name "[]" 0] R3(1) by auto
        note W4 = reads_trans[OF W3 reads_report[OF c4(2)]]
        show ?thesis
        proof (cases r4)
          case (Inl err)
          then show ?thesis using c4 W4 R3(3) c3(1) c1 c2 r1 r2 r3 x y m by (auto simp: collectV1_def Let_def)
        next
          case r4: (Inr mn')
          then obtain m' where m': "mn' = (m', length (filter (\<lambda>x. node_set ?s x \<noteq> {}) ?ks))"
            "\<forall>x. map_of m' x = (if x \<in> set ?ks \<and> node_set ?s x \<noteq> {} then Some (members (k_redis w3 (nodeKey name x))) else None)"
            using c4(3) by auto
          let ?d = "\<lparr>vd_keywords = ?ks, vd_prefixes = ?ps, vd_outputs = m, vd_nodes = m'\<rparr>"
          have "map_of m p = (if output_set ?s p \<noteq> {} then Some (members (?R (outputKey name p))) else None)" for p
            using m(2) live_outputs(1)[OF assms(2)] same_owned[OF R2(2)] by auto
          moreover have "map_of m' k = (if node_set ?s k \<noteq> {} then Some (members (?R (nodeKey name k))) else None)" for k
            using m'(2) live_outputs(1)[OF assms(2)] same_owned[OF R3(2)] by (auto simp: node_set_def)
          ultimately have "data_of name ?R ?d" by (simp add: data_of_def)
          moreover have "collectV1 opts name result w = (w4, counted name ?R result, Inr ?d)"
            using c4(1) c3(1) c1 c2 r1 r2 r3 r4 x y m(1) m'(1)
            by (simp add: collectV1_def Let_def counted_def keysBaseCount_def v2KeyCount_def)
          ultimately show ?thesis using W4 by blast
        qed
      qed
    qed
  qed
qed

section \<open>What is written\<close>

text \<open>
  A step works within the keys of the collection: what it finds and does there does
  not depend on the other keys.
\<close>

definition within :: "gostring \<Rightarrow> (keyspace \<Rightarrow> keyspace \<times> unit result) \<Rightarrow> bool" where
  "within name f \<longleftrightarrow> (\<forall>R S. same name R S \<longrightarrow> same name (fst (f R)) (fst (f S)) \<and> snd (f S) = snd (f R))"

lemma withinD:
  assumes "within name f" and "same name R S" and "f R = (R', r)"
  shows "\<exists>S'. f S = (S', r) \<and> same name R' S'"
  using assms unfolding within_def by (metis fst_conv snd_conv surj_pair)

lemma within_del: "within name (del_keys keys)"
proof -
  have "same name (fold (\<lambda>key R. R(key := None)) keys R) (fold (\<lambda>key R. R(key := None)) keys S)" if "same name R S" for R S
    using that by (induction keys arbitrary: R S) (auto simp: same_def)
  then show ?thesis by (simp add: within_def del_keys_def)
qed

lemma within_writes:
  assumes "owned name key"
  shows "within name (hset_trie key t)" "within name (hset_lists key fs)" "within name (rename key newKey)"
proof -
  have W: "within name f" if "\<And>R S. same name R S \<Longrightarrow> S key = R key \<Longrightarrow> same name (fst (f R)) (fst (f S)) \<and> snd (f S) = snd (f R)" for f
    unfolding within_def using that same_owned[OF _ assms] by blast
  show "within name (hset_trie key t)"
    by (rule W) (simp add: hset_trie_def same_def split: option.splits rvalue.splits)
  show "within name (hset_lists key fs)"
    by (rule W) (simp add: hset_lists_def same_def split: option.splits rvalue.splits)
  show "within name (rename key newKey)"
    by (rule W) (simp add: rename_def same_def split: option.splits)
qed

lemma within_transaction: "\<forall>c \<in> set cmds. within name c \<Longrightarrow> within name (transaction cmds)"
proof (induction cmds)
  case (Cons c cmds)
  show ?case unfolding within_def
  proof (intro allI impI)
    fix R S assume s: "same name R S"
    obtain R1 r1 where c: "c R = (R1, r1)" by (metis surj_pair)
    obtain S1 where c': "c S = (S1, r1)" "same name R1 S1" using withinD[where f = c, OF _ s c] Cons.prems by auto
    obtain R2 r2 where t: "transaction cmds R1 = (R2, r2)" by (metis surj_pair)
    obtain S2 where "transaction cmds S1 = (S2, r2)" "same name R2 S2" using withinD[where f = "transaction cmds", OF _ c'(2) t] Cons by auto
    then show "same name (fst (transaction (c # cmds) R)) (fst (transaction (c # cmds) S)) \<and>
        snd (transaction (c # cmds) S) = snd (transaction (c # cmds) R)"
      by (simp add: c c' t)
  qed
qed (simp add: within_def)

text \<open>
  The states that the steps go through when each of them succeeds; they run until one
  fails, and only the reply to the last one can be lost with everything done.
\<close>

fun passes :: "keyspace \<Rightarrow> (keyspace \<Rightarrow> keyspace \<times> unit result) list \<Rightarrow> keyspace list \<Rightarrow> bool" where
  "passes S [] Ss \<longleftrightarrow> Ss = []"
| "passes S (f # fs) Ss \<longleftrightarrow> (case Ss of [] \<Rightarrow> False | S' # Ss' \<Rightarrow> f S = (S', Inr ()) \<and> passes S' fs Ss')"

lemma runSteps_outcome:
  assumes "steady name w" and "\<forall>f \<in> set fs. within name f" and "same name S (k_redis w)" and "passes S fs Ss" and "runSteps fs w = (w', r)"
  shows "steady name w' \<and> failures w' \<subseteq> failures w \<and> set (k_io w') \<subseteq> set (k_io w) \<and> k_local w' = k_local w \<and>
    (r = Inr () \<and> same name (last (S # Ss)) (k_redis w') \<or>
     (\<exists>err \<in> failures w. r = Inl err \<and>
        ((\<exists>T \<in> set (butlast (S # Ss)). same name T (k_redis w')) \<or> same name (last (S # Ss)) (k_redis w') \<and> CmdLost err \<in> set (k_io w))))"
  using assms
proof (induction fs arbitrary: S Ss w)
  case (Cons f fs)
  obtain S' Ss' where S': "Ss = S' # Ss'" "f S = (S', Inr ())" "passes S' fs Ss'" using Cons.prems(4) by (cases Ss) auto
  obtain w1 r1 where c: "call f w = (w1, r1)" by (metis surj_pair)
  obtain R where R: "same name (k_redis w) R" "steady name w1" "failures w1 \<subseteq> failures w" "k_local w1 = k_local w"
    "k_redis w1 = fst (f R) \<and> r1 = snd (f R) \<or>
     (\<exists>err. r1 = Inl err \<and> \<not> errors_Is err redis_Nil \<and> err \<in> failures w \<and>
        (k_redis w1 = R \<or> k_redis w1 = fst (f R) \<and> CmdLost err \<in> set (k_io w)))"
    using call_outcome[OF Cons.prems(1) c] .
  note SR = same_trans[OF Cons.prems(3) R(1)]
  obtain R' where fR: "f R = (R', Inr ())" "same name S' R'" using withinD[where f = f, OF _ SR S'(2)] Cons.prems(2) by auto
  note io = call_io[OF c]
  show ?case
  proof (cases r1)
    case (Inl err)
    then have r: "r = Inl err" "w' = w1" using Cons.prems(5) c by simp_all
    from R(5) Inl fR have e: "err \<in> failures w" "k_redis w1 = R \<or> k_redis w1 = R' \<and> CmdLost err \<in> set (k_io w)" by auto
    have "(\<exists>T \<in> set (butlast (S # Ss)). same name T (k_redis w1)) \<or> same name (last (S # Ss)) (k_redis w1) \<and> CmdLost err \<in> set (k_io w)"
    proof (cases "k_redis w1 = R")
      case True
      then show ?thesis using SR S'(1) by auto
    next
      case False
      then have "same name S' (k_redis w1)" "CmdLost err \<in> set (k_io w)" using e(2) fR(2) by auto
      then show ?thesis using S'(1) by (cases Ss') auto
    qed
    then show ?thesis using r e(1) R(2-4) io by auto
  next
    case (Inr u)
    then have k1: "k_redis w1 = R'" using R(5) fR by auto
    have run: "runSteps fs w1 = (w', r)" using Cons.prems(5) c Inr by simp
    have W: "\<forall>f \<in> set fs. within name f" and s1: "same name S' (k_redis w1)" using Cons.prems(2) k1 fR(2) by simp_all
    from Cons.IH[OF R(2) W s1 S'(3) run] R(3,4) io S'(1) show ?thesis by auto
  qed
qed simp

section \<open>The migrated collection\<close>

definition temp_key :: "gostring \<Rightarrow> gostring \<Rightarrow> bool" where
  "temp_key name key \<longleftrightarrow> (\<exists>base \<in> {trieKey name, outputsKey name, nodesKey name}. prefix (base @ '':tmp:'') key)"

definition v1_key :: "gostring \<Rightarrow> gostring \<Rightarrow> bool" where
  "v1_key name key \<longleftrightarrow> key \<in> {keywordKey name, prefixKey name, suffixKey name} \<or> (\<exists>p. key = outputKey name p \<or> key = nodeKey name p)"

definition untouched :: "gostring \<Rightarrow> keyspace \<Rightarrow> keyspace \<Rightarrow> bool" where
  "untouched name R R' \<longleftrightarrow> (\<forall>key. owned name key \<and> \<not> temp_key name key \<longrightarrow> R' key = R key)"

text \<open>What a V2 instance finds.\<close>

definition v2keys_of :: "gostring \<Rightarrow> keyspace \<Rightarrow> v2keys" where
  "v2keys_of name R =
     \<lparr>vk_trie = (case R (trieKey name) of Some (TrieValue t) \<Rightarrow> Some t | _ \<Rightarrow> None),
      vk_outputs = (case R (outputsKey name) of Some (ListsValue m) \<Rightarrow> map_of m | _ \<Rightarrow> Map.empty),
      vk_nodes = (R (nodesKey name) \<noteq> None)\<rparr>"

definition lists_set :: "gostring list json option \<Rightarrow> gostring set \<Rightarrow> bool" where
  "lists_set v S \<longleftrightarrow> (case v of None \<Rightarrow> S = {} | Some (Json l) \<Rightarrow> l \<noteq> [] \<and> distinct l \<and> set l = S | Some (BadJson err) \<Rightarrow> False)"

text \<open>
  The keywords and prefixes of the V1 collection under a valid version, and for each
  state the list of the keywords it reports; the V1 keys are kept or gone, and so
  are the temporary ones.
\<close>

definition migrated :: "gostring \<Rightarrow> bool \<Rightarrow> keyspace \<Rightarrow> keyspace \<Rightarrow> bool" where
  "migrated name keep R R' \<longleftrightarrow>
     (\<exists>v. v \<noteq> 0 \<and> int64_range v \<and> vk_trie (v2keys_of name R') = Some (trie_of (v1_snap name R v))) \<and>
     (\<forall>p. lists_set (vk_outputs (v2keys_of name R') p) (output_set (v1_snap name R 0) p)) \<and>
     (\<forall>key. v1_key name key \<longrightarrow> R' key = (if keep then R key else None)) \<and>
     (\<forall>key. temp_key name key \<longrightarrow> R' key = None)"

lemma temp_owned: "temp_key name key \<Longrightarrow> owned name key"
  by (auto simp: temp_key_def owned_def key_defs prefix_def)

lemma v1_owned: "v1_key name key \<Longrightarrow> owned name key"
  by (auto simp: v1_key_def)

lemma tempKeys_nth:
  "tempKeys name t ! 0 = trieKey name @ '':tmp:'' @ itoa t"
  "tempKeys name t ! 1 = outputsKey name @ '':tmp:'' @ itoa t"
  "tempKeys name t ! 2 = nodesKey name @ '':tmp:'' @ itoa t"
  by (simp_all add: tempKeys_def)

lemma temp_tempKeys: "temp_key name (tempKeys name t ! 0)" "temp_key name (tempKeys name t ! 1)" "temp_key name (tempKeys name t ! 2)"
  "set (tempKeys name t) \<subseteq> Collect (temp_key name)"
proof -
  show "temp_key name (tempKeys name t ! 0)" "temp_key name (tempKeys name t ! 1)" "temp_key name (tempKeys name t ! 2)"
    unfolding tempKeys_nth temp_key_def by (simp_all add: prefix_def)
  then show "set (tempKeys name t) \<subseteq> Collect (temp_key name)" by (auto simp: tempKeys_def)
qed

lemma not_temp: "\<not> temp_key name (keywordKey name)" "\<not> temp_key name (prefixKey name)" "\<not> temp_key name (suffixKey name)"
  "\<not> temp_key name (outputKey name p)" "\<not> temp_key name (nodeKey name p)"
  "\<not> temp_key name (trieKey name)" "\<not> temp_key name (outputsKey name)" "\<not> temp_key name (nodesKey name)"
  by (simp_all add: temp_key_def key_defs prefix_def)

lemma v1_not_v2: "v1_key name key \<Longrightarrow> key \<noteq> trieKey name \<and> key \<noteq> outputsKey name \<and> key \<noteq> nodesKey name \<and> \<not> temp_key name key"
  using not_temp by (auto simp: v1_key_def key_defs)

lemma distinct_keys:
  "trieKey name \<noteq> outputsKey name" "trieKey name \<noteq> nodesKey name" "outputsKey name \<noteq> nodesKey name"
  "tempKeys name t ! 0 \<noteq> tempKeys name t ! 1" "tempKeys name t ! 0 \<noteq> tempKeys name t ! 2" "tempKeys name t ! 1 \<noteq> tempKeys name t ! 2"
  unfolding tempKeys_nth by (simp_all add: key_defs)

text \<open>Deleting in the transaction.\<close>

definition clear :: "gostring set \<Rightarrow> keyspace \<Rightarrow> keyspace" where
  "clear K R = (\<lambda>key. if key \<in> K then None else R key)"

lemma del_clear: "del_keys keys R = (clear (set keys) R, Inr ())"
proof -
  have "fold (\<lambda>key R. R(key := None)) keys R = clear (set keys) R" by (induction keys arbitrary: R) (auto simp: clear_def)
  then show ?thesis by (simp add: del_keys_def)
qed

lemma clear_clear: "clear K (clear L R) = clear (K \<union> L) R"
  by (auto simp: clear_def)

lemma transaction_dels: "transaction (map (\<lambda>p. del_keys [f p]) ps @ cmds) R = transaction cmds (clear (f ` set ps) R)"
proof (induction ps arbitrary: R)
  case (Cons p ps)
  have "clear (f ` set ps) (clear {f p} R) = clear (f ` set (p # ps)) R" by (auto simp: clear_def)
  with Cons show ?case by (simp add: del_clear split: prod.splits)
qed (simp add: clear_def)

lemma transaction_Ok: "c R = (R1, Inr u) \<Longrightarrow> transaction (c # cmds) R = transaction cmds R1"
  by (simp split: prod.splits)

definition dropped :: "gostring \<Rightarrow> v1data \<Rightarrow> gostring set" where
  "dropped name d = {keywordKey name, prefixKey name, suffixKey name} \<union> outputKey name ` set (vd_prefixes d) \<union> nodeKey name ` set (vd_keywords d)"

lemma dropped_v1: "key \<in> dropped name d \<Longrightarrow> v1_key name key"
  by (auto simp: dropped_def v1_key_def)

lemma dropped_all:
  assumes "v1_ok name R" and "data_of name R d" and "v1_key name key" and "key \<notin> dropped name d"
  shows "R key = None"
proof -
  from assms(3,4) consider p where "key = outputKey name p" "p \<notin> set (v1_prefixes name R)" | k where "key = nodeKey name k" "k \<notin> set (v1_keywords name R)"
    using assms(2) by (auto simp: v1_key_def dropped_def data_of_def image_iff)
  then show ?thesis
  proof cases
    case 1
    then have "output_set (v1_snap name R 0) p = {}" using live_outputs(1)[OF assms(1)] by blast
    then show ?thesis using smembers_set(5)[where R = R, OF live_outputs(2)[OF assms(1), of p]] 1 by simp
  next
    case 2
    then have "node_set (v1_snap name R 0) k = {}" using live_outputs(1)[OF assms(1)] by (auto simp: node_set_def)
    then show ?thesis using smembers_set(5)[where R = R, OF live_outputs(3)[OF assms(1), of k]] 2 by simp
  qed
qed

text \<open>The transaction on the state with the three temporary hashes.\<close>

lemma swap_commands:
  fixes opts :: MigrationOptions
  assumes tt: "S (tempKeys name t ! 0) = Some tv" and to: "vd_outputs d \<noteq> [] \<Longrightarrow> S (tempKeys name t ! 1) = Some ov"
    and tn: "vd_nodes d \<noteq> [] \<Longrightarrow> S (tempKeys name t ! 2) = Some nv"
  defines "C \<equiv> if mo_KeepOldKeys opts then S else clear (dropped name d) S"
  defines "U1 \<equiv> C(tempKeys name t ! 0 := None, trieKey name \<mapsto> tv)"
  defines "U2 \<equiv> if vd_outputs d \<noteq> [] then U1(tempKeys name t ! 1 := None, outputsKey name \<mapsto> ov) else U1"
  defines "U3 \<equiv> if vd_nodes d \<noteq> [] then U2(tempKeys name t ! 2 := None, nodesKey name \<mapsto> nv) else U2"
  shows "transaction (swapCommands opts name t d) S = (U3, Inr ())"
proof -
  let ?renames = "[rename (tempKeys name t ! 0) (trieKey name)] @
     (if length (vd_outputs d) > 0 then [rename (tempKeys name t ! 1) (outputsKey name)] else []) @
     (if length (vd_nodes d) > 0 then [rename (tempKeys name t ! 2) (nodesKey name)] else [])"
  have "transaction (swapCommands opts name t d) S = transaction ?renames C"
  proof (cases "mo_KeepOldKeys opts")
    case False
    have "clear (nodeKey name ` set (vd_keywords d)) (clear (outputKey name ` set (vd_prefixes d)) (clear {keywordKey name, prefixKey name, suffixKey name} S)) = C"
      using False by (auto simp: C_def clear_def dropped_def)
    then show ?thesis using False
      by (simp add: swapCommands_def transaction_Ok[OF del_clear] transaction_dels del: transaction.simps)
  qed (simp add: swapCommands_def C_def)
  also have "\<dots> = (U3, Inr ())"
  proof -
    have T: "temp_key name (tempKeys name t ! i)" if "i \<in> {0, 1, 2}" for i
      using that temp_tempKeys(1-3)[of name t] by auto
    have nd: "tempKeys name t ! i \<notin> dropped name d" if "i \<in> {0, 1, 2}" for i
      using T[OF that] dropped_v1 v1_not_v2 by blast
    have c: "C (tempKeys name t ! i) = S (tempKeys name t ! i)" if "i \<in> {0, 1, 2}" for i
      using nd[OF that] by (simp add: C_def clear_def)
    have n: "tempKeys name t ! i \<noteq> trieKey name \<and> tempKeys name t ! i \<noteq> outputsKey name \<and> tempKeys name t ! i \<noteq> nodesKey name"
      if "i \<in> {0, 1, 2}" for i using T[OF that] not_temp(6-8) by metis
    have r0: "rename (tempKeys name t ! 0) (trieKey name) C = (U1, Inr ())" using c[of 0] tt by (simp add: rename_def U1_def)
    have r1: "rename (tempKeys name t ! 1) (outputsKey name) U1 = (U1(tempKeys name t ! 1 := None, outputsKey name \<mapsto> ov), Inr ())" if "vd_outputs d \<noteq> []"
      using c[of 1] n[of 1] distinct_keys(4)[of name t] to[OF that] by (simp add: rename_def U1_def)
    have r2: "rename (tempKeys name t ! 2) (nodesKey name) U2 = (U2(tempKeys name t ! 2 := None, nodesKey name \<mapsto> nv), Inr ())" if "vd_nodes d \<noteq> []"
      using c[of 2] n[of 2] distinct_keys(5,6)[of name t] tn[OF that] by (simp add: rename_def U1_def U2_def)
    show ?thesis
      by (cases "vd_outputs d = []"; cases "vd_nodes d = []") (use r0 r1 r2 in \<open>simp_all add: U2_def U3_def\<close>)
  qed
  finally show ?thesis .
qed

lemma valid_lists:
  assumes "v1_ok name R"
  shows "map json_str (v1_keywords name R) = v1_keywords name R" "map json_str (v1_prefixes name R) = v1_prefixes name R"
    "set l \<subseteq> set (v1_keywords name R) \<Longrightarrow> map json_str l = l"
proof -
  have k: "json_str k = k" if "k \<in> set (v1_keywords name R)" for k using v1_ok_parts(4)[OF assms that] by (simp add: json_str_id)
  show "map json_str (v1_keywords name R) = v1_keywords name R" by (rule map_idI) (rule k)
  show "set l \<subseteq> set (v1_keywords name R) \<Longrightarrow> map json_str l = l" by (rule map_idI) (use k in blast)
  have "json_str p = p" if "p \<in> set (v1_prefixes name R)" for p
  proof (cases "p = []")
    case False
    then have "utf8_ok p" using v1_ok_parts(5)[OF assms, of p] that by (simp add: live_prefixes_def)
    then show ?thesis by (simp add: json_str_id)
  qed (simp add: json_str_def)
  then show "map json_str (v1_prefixes name R) = v1_prefixes name R" by (intro map_idI)
qed

lemma fields_lists:
  assumes "v1_ok name R" and "data_of name R d"
  shows "lists_set (map_of (toFields (vd_outputs d)) p) (output_set (v1_snap name R 0) p)"
proof -
  let ?S = "output_set (v1_snap name R 0) p" and ?l = "members (R (outputKey name p))"
  note M = smembers_set[where R = R, OF live_outputs(2)[OF assms(1), of p]]
  have f: "map_of (toFields m) p = map_option (\<lambda>xs. Json (map json_str xs)) (map_of m p)" for m
    by (induction m) (auto simp: toFields_def)
  have "map json_str ?l = ?l" by (rule valid_lists(3)[OF assms(1)]) (use M(3) live_outputs(1)[OF assms(1)] in blast)
  then have "map_of (toFields (vd_outputs d)) p = (if ?S = {} then None else Some (Json ?l))"
    using assms(2) by (simp add: f data_of_def)
  then show ?thesis using M(2-4) by (auto simp: lists_set_def)
qed

definition v2_free :: "gostring \<Rightarrow> keyspace \<Rightarrow> bool" where
  "v2_free name R \<longleftrightarrow> R (trieKey name) = None \<and> R (outputsKey name) = None \<and> R (nodesKey name) = None \<and> (\<forall>key. temp_key name key \<longrightarrow> R key = None)"

text \<open>The last of the states the steps go through is the migrated one; until then only temporary keys are written.\<close>

lemma steps_migrate:
  assumes ok: "v1_ok name R" and d: "data_of name R d" and free: "v2_free name R" and v: "v \<noteq> 0" "int64_range v"
  shows "\<exists>Ss. passes R (writeSteps opts name t v d) Ss \<and> (\<forall>T \<in> set (butlast (R # Ss)). untouched name R T) \<and>
    migrated name (mo_KeepOldKeys opts) R (last (R # Ss))"
proof -
  let ?k = "\<lambda>i. tempKeys name t ! i"
  let ?tv = "TrieValue (trie_of (v1_snap name R v))"
  let ?ov = "ListsValue (toFields (vd_outputs d))" and ?nv = "ListsValue (toFields (vd_nodes d))"
  have tn: "R (?k 0) = None" "R (?k 1) = None" "R (?k 2) = None" using free temp_tempKeys unfolding v2_free_def by blast+
  have T: "\<lparr>th_keywords = Some (Json (map json_str (vd_keywords d))), th_prefixes = Some (Json (map json_str (vd_prefixes d))),
      th_version = Some (itoa v)\<rparr> = trie_of (v1_snap name R v)"
    using d valid_lists(1,2)[OF ok] by (simp add: data_of_def trie_of_def v1_snap_def)
  define S1 where "S1 = R(?k 0 \<mapsto> ?tv)"
  define S2 where "S2 = (if vd_outputs d \<noteq> [] then S1(?k 1 \<mapsto> ?ov) else S1)"
  define S3 where "S3 = (if vd_nodes d \<noteq> [] then S2(?k 2 \<mapsto> ?nv) else S2)"
  note D = distinct_keys(4-6)[of name t]
  have f1: "hset_trie (?k 0) (trie_of (v1_snap name R v)) R = (S1, Inr ())" using tn by (simp add: hset_trie_def S1_def)
  have f2: "hset_lists (?k 1) (toFields (vd_outputs d)) S1 = (S1(?k 1 \<mapsto> ?ov), Inr ())" using tn D by (simp add: hset_lists_def S1_def)
  have f3: "hset_lists (?k 2) (toFields (vd_nodes d)) S2 = (S2(?k 2 \<mapsto> ?nv), Inr ())"
    using tn D by (simp add: hset_lists_def S1_def S2_def)
  define C where "C = (if mo_KeepOldKeys opts then S3 else clear (dropped name d) S3)"
  define U1 where "U1 = C(?k 0 := None, trieKey name \<mapsto> ?tv)"
  define U2 where "U2 = (if vd_outputs d \<noteq> [] then U1(?k 1 := None, outputsKey name \<mapsto> ?ov) else U1)"
  define U where "U = (if vd_nodes d \<noteq> [] then U2(?k 2 := None, nodesKey name \<mapsto> ?nv) else U2)"
  have tr: "transaction (swapCommands opts name t d) S3 = (U, Inr ())"
    unfolding U_def U2_def U1_def C_def by (rule swap_commands) (use D in \<open>simp_all add: S1_def S2_def S3_def\<close>)
  define Ss where "Ss = S1 # (if vd_outputs d \<noteq> [] then [S2] else []) @ (if vd_nodes d \<noteq> [] then [S3] else []) @ [U]"
  have "passes R (writeSteps opts name t v d) Ss"
    using f1 f2 f3 tr by (auto simp: Ss_def writeSteps_def T S2_def S3_def)
  moreover have "untouched name R T" if "T \<in> set (butlast (R # Ss))" for T
  proof -
    have "butlast (R # Ss) = R # S1 # (if vd_outputs d \<noteq> [] then [S2] else []) @ (if vd_nodes d \<noteq> [] then [S3] else [])"
      by (simp add: Ss_def butlast_append)
    with that have "T \<in> {R, S1, S2, S3}" by (auto split: if_splits)
    then show ?thesis using temp_tempKeys(1-3)[of name t] by (auto simp: untouched_def S1_def S2_def S3_def split: if_splits)
  qed
  moreover have "migrated name (mo_KeepOldKeys opts) R U" unfolding migrated_def
  proof (intro conjI)
    note nt = temp_tempKeys(1-3)[of name t] not_temp[where name = name]
    have ntk: "key \<noteq> ?k 0 \<and> key \<noteq> ?k 1 \<and> key \<noteq> ?k 2" if "\<not> temp_key name key" for key using that nt(1-3) by metis
    note dk = distinct_keys(1-3)[of name]
    have t: "U (trieKey name) = Some ?tv" using ntk[OF nt(9)] dk by (simp add: U_def U2_def U1_def)
    then show "\<exists>v. v \<noteq> 0 \<and> int64_range v \<and> vk_trie (v2keys_of name U) = Some (trie_of (v1_snap name R v))"
      using v by (auto simp: v2keys_of_def)
    have "outputsKey name \<notin> dropped name d" using dropped_v1 v1_not_v2 by blast
    then have "U (outputsKey name) = (if vd_outputs d \<noteq> [] then Some ?ov else None)"
      using ntk[OF nt(10)] dk free by (simp add: U_def U2_def U1_def C_def clear_def S3_def S2_def S1_def v2_free_def)
    then have "vk_outputs (v2keys_of name U) p = map_of (toFields (vd_outputs d)) p" for p
      by (auto simp: v2keys_of_def toFields_def)
    then show "\<forall>p. lists_set (vk_outputs (v2keys_of name U) p) (output_set (v1_snap name R 0) p)"
      using fields_lists[OF ok d] by simp
    show "\<forall>key. v1_key name key \<longrightarrow> U key = (if mo_KeepOldKeys opts then R key else None)"
    proof (intro allI impI)
      fix key assume k: "v1_key name key"
      note n = v1_not_v2[OF k]
      have "U key = C key" "S3 key = R key" using ntk[of key] n by (simp_all add: U_def U2_def U1_def S3_def S2_def S1_def)
      then show "U key = (if mo_KeepOldKeys opts then R key else None)"
        using dropped_all[OF ok d k] by (auto simp: C_def clear_def)
    qed
    show "\<forall>key. temp_key name key \<longrightarrow> U key = None"
    proof (intro allI impI)
      fix key assume k: "temp_key name key"
      then have n: "key \<noteq> trieKey name" "key \<noteq> outputsKey name" "key \<noteq> nodesKey name" "R key = None"
        using not_temp(6-8) free by (auto simp: v2_free_def)
      have "C key = None \<or> C key = S3 key" by (auto simp: C_def clear_def)
      then show "U key = None"
        using n by (cases "key = ?k 0"; cases "key = ?k 1"; cases "key = ?k 2") (auto simp: U_def U2_def U1_def S3_def S2_def S1_def)
    qed
  qed
  ultimately show ?thesis by (intro exI[of _ Ss]) (simp add: Ss_def)
qed

section \<open>All or nothing\<close>

text \<open>What a migration can end with; \<open>w\<close> is the world it started in.\<close>

definition migration_ends ::
  "gostring \<Rightarrow> MigrationOptions \<Rightarrow> keyspace \<Rightarrow> kworld \<Rightarrow> client \<Rightarrow> kworld \<times> client \<times> migration_outcome \<Rightarrow> bool" where
  "migration_ends name opts R w ac = (\<lambda>(w', ac', res, err).
     case err of
       None \<Rightarrow> (\<exists>r. res = Some r \<and> mr_Keywords r = length (v1_keywords name R) \<and> mr_Prefixes r = length (v1_prefixes name R) \<and>
         (if mo_DryRun opts then mr_Status r = ''dry-run'' \<and> same name R (k_redis w') \<and> ac' = ac
          else mr_Status r = ''success'' \<and> migrated name (mo_KeepOldKeys opts) R (k_redis w') \<and>
            ac' = ac\<lparr>cl_schemaVersion := SchemaV2, cl_ops := SchemaV2\<rparr>))
     | Some e \<Rightarrow> ac' = ac \<and> (failures w \<noteq> {} \<or> e = ErrMigrationInProg) \<and>
         (untouched name R (k_redis w') \<or>
          \<not> mo_DryRun opts \<and> migrated name (mo_KeepOldKeys opts) R (k_redis w') \<and> CmdLost e \<in> set (k_io w)))"

lemma same_untouched: "untouched name R S \<Longrightarrow> same name S T \<Longrightarrow> untouched name R T"
  "same name R S \<Longrightarrow> untouched name S T \<Longrightarrow> untouched name R T" "same name R S \<Longrightarrow> untouched name R S"
  by (simp_all add: untouched_def same_def)

lemma same_migrated:
  assumes "same name S T"
  shows "migrated name keep R S \<longleftrightarrow> migrated name keep R T" "migrated name keep S R \<longleftrightarrow> migrated name keep T R"
proof -
  have v: "v2keys_of name T = v2keys_of name S" using same_owned[OF assms] by (simp add: v2keys_of_def)
  have k: "T key = S key" if "v1_key name key \<or> temp_key name key" for key
    using that same_owned[OF assms] v1_owned temp_owned by blast
  show "migrated name keep R S \<longleftrightarrow> migrated name keep R T" using k by (simp add: migrated_def v)
  show "migrated name keep S R \<longleftrightarrow> migrated name keep T R" using k by (auto simp: migrated_def same_v1[OF assms])
qed

lemma same_free: "same name R S \<Longrightarrow> v2_free name S \<longleftrightarrow> v2_free name R"
  using temp_owned by (auto simp: v2_free_def same_def)

text \<open>A command on keys that are not of the collection, or on temporary ones.\<close>

lemma call_foreign:
  assumes "steady name w" and "\<And>R. same name R (fst (f R))" and "call f w = (w1, r)"
  shows "reads name w w1" "failures w = {} \<Longrightarrow> \<exists>R. r = snd (f R)" "r = Inl err \<Longrightarrow> err \<in> failures w \<or> (\<exists>R. snd (f R) = Inl err)"
proof -
  obtain R where R: "same name (k_redis w) R" "steady name w1" "failures w1 \<subseteq> failures w" "k_local w1 = k_local w"
    "k_redis w1 = fst (f R) \<and> r = snd (f R) \<or>
     (\<exists>err. r = Inl err \<and> \<not> errors_Is err redis_Nil \<and> err \<in> failures w \<and>
        (k_redis w1 = R \<or> k_redis w1 = fst (f R) \<and> CmdLost err \<in> set (k_io w)))"
    using call_outcome[OF assms(1,3)] .
  have "same name (k_redis w) (k_redis w1)" using R(1,5) same_trans[OF R(1) assms(2)] by auto
  then show "reads name w w1" using R(2-4) call_io[OF assms(3)] by (simp add: reads_def)
  show "failures w = {} \<Longrightarrow> \<exists>R. r = snd (f R)" "r = Inl err \<Longrightarrow> err \<in> failures w \<or> (\<exists>R. snd (f R) = Inl err)"
    using R(5) by auto
qed

lemma lock_foreign: "same name R (fst (setnx (migrationLockKey name) v R))" "same name R (fst (del_keys [migrationLockKey name] R))"
  by (simp_all add: setnx_def del_clear same_def owned_def clear_def)

lemma call_cleanup:
  assumes "steady name w" and "call (del_keys (tempKeys name t)) w = (w1, r)"
  shows "untouched name R (k_redis w) \<Longrightarrow> untouched name R (k_redis w1)" "migrated name keep R (k_redis w) \<Longrightarrow> migrated name keep R (k_redis w1)"
    "steady name w1"
proof -
  obtain S where S: "same name (k_redis w) S" "steady name w1" "k_redis w1 = S \<or> k_redis w1 = fst (del_keys (tempKeys name t) S)"
    using call_outcome[OF assms] by metis
  have c: "clear (set (tempKeys name t)) T key = T key" if "\<not> temp_key name key" for T key
    using that temp_tempKeys(4)[of name t] by (auto simp: clear_def)
  show "untouched name R (k_redis w) \<Longrightarrow> untouched name R (k_redis w1)"
    using S(3) same_untouched(1)[OF _ S(1)] c by (auto simp: del_clear untouched_def)
  have m: "migrated name keep R (clear (set (tempKeys name t)) T)" if "migrated name keep R T" for T
  proof -
    have "v2keys_of name (clear (set (tempKeys name t)) T) = v2keys_of name T" using c not_temp by (simp add: v2keys_of_def)
    moreover have "clear (set (tempKeys name t)) T key = T key" if "v1_key name key" for key using c v1_not_v2[OF that] by blast
    moreover have "T key = None \<Longrightarrow> clear (set (tempKeys name t)) T key = None" for key by (simp add: clear_def)
    ultimately show ?thesis using that unfolding migrated_def by simp
  qed
  show "migrated name keep R (k_redis w) \<Longrightarrow> migrated name keep R (k_redis w1)"
    using S(3) same_migrated(1)[OF S(1)] m by (auto simp: del_clear)
  show "steady name w1" by (rule S(2))
qed

lemma within_steps: "\<forall>f \<in> set (writeSteps opts name t v d). within name f"
proof -
  note o = temp_owned[OF temp_tempKeys(1)] temp_owned[OF temp_tempKeys(2)] temp_owned[OF temp_tempKeys(3)]
  have "\<forall>c \<in> set (swapCommands opts name t d). within name c"
    using within_writes(3)[OF o(1)] within_writes(3)[OF o(2)] within_writes(3)[OF o(3)] within_del by (auto simp: swapCommands_def)
  note within_transaction[OF this]
  then show ?thesis using within_writes(1)[OF o(1)] within_writes(2)[OF o(2)] within_writes(2)[OF o(3)]
    by (auto simp: writeSteps_def)
qed

definition clock_ok :: "kworld \<Rightarrow> bool" where
  "clock_ok w \<longleftrightarrow> (\<forall>t \<in> set (w_clock (k_local w)). t \<noteq> 0 \<and> int64_range t)"

lemma clock_now: "clock_ok w \<Longrightarrow> now w \<noteq> 0 \<and> int64_range (now w)" "clock_ok w \<Longrightarrow> clock_ok (tick w)"
  by (cases "w_clock (k_local w)"; auto simp: clock_ok_def now_def next_or_def int64_range_def)+

lemma writeV2_outcome:
  assumes "steady name w" and "clock_ok w" and "v1_ok name R" and "data_of name R d" and "v2_free name R" and "same name R (k_redis w)"
    and "writeV2 opts name d w = (w', r)"
  shows "steady name w' \<and>
    (r = Inr () \<and> migrated name (mo_KeepOldKeys opts) R (k_redis w') \<or>
     (\<exists>err \<in> failures w. r = Inl err \<and>
       (untouched name R (k_redis w') \<or> migrated name (mo_KeepOldKeys opts) R (k_redis w') \<and> CmdLost err \<in> set (k_io w))))"
proof -
  let ?t = "now w" and ?v = "now (tick w)" and ?w = "tick (tick w)"
  have v: "?v \<noteq> 0" "int64_range ?v" using clock_now(1)[OF clock_now(2)[OF assms(2)]] by blast+
  obtain Ss where Ss: "passes R (writeSteps opts name ?t ?v d) Ss" "\<forall>T \<in> set (butlast (R # Ss)). untouched name R T"
    "migrated name (mo_KeepOldKeys opts) R (last (R # Ss))"
    using steps_migrate[OF assms(3-5) v] by blast
  obtain w3 r3 where run: "runSteps (writeSteps opts name ?t ?v d) ?w = (w3, r3)" by (metis surj_pair)
  have s: "steady name ?w" "same name R (k_redis ?w)" using assms(1,6) by simp_all
  from runSteps_outcome[OF s(1) within_steps s(2) Ss(1) run]
  have O: "steady name w3" "r3 = Inr () \<and> migrated name (mo_KeepOldKeys opts) R (k_redis w3) \<or>
     (\<exists>err \<in> failures w. r3 = Inl err \<and>
       (untouched name R (k_redis w3) \<or> migrated name (mo_KeepOldKeys opts) R (k_redis w3) \<and> CmdLost err \<in> set (k_io w)))"
    using Ss(2,3) same_migrated(1) same_untouched(1) by (simp, auto)
  show ?thesis
  proof (cases r3)
    case (Inl err)
    obtain w4 r4 where c: "call (del_keys (tempKeys name ?t)) w3 = (w4, r4)" by (metis surj_pair)
    note C = call_cleanup[OF O(1) c]
    have "w' = w4" "r = Inl err" using assms(7) run c Inl by (simp_all add: writeV2_def Let_def)
    then show ?thesis using O(2) C Inl by auto
  next
    case (Inr u)
    then have "w' = w3" "r = Inr ()" using assms(7) run by (simp_all add: writeV2_def Let_def)
    then show ?thesis using O Inr by simp
  qed
qed

lemma reads_clock: "reads name w w' \<Longrightarrow> clock_ok w \<Longrightarrow> clock_ok w'"
  by (simp add: reads_def clock_ok_def)

lemma migrateData_ends:
  assumes "steady name w" and "clock_ok w" and "v1_ok name R" and "v2_free name R" and "same name R (k_redis w)" and "cl_name ac = name"
  shows "migration_ends name opts R w ac (migrateData opts ac result start w) \<and> steady name (fst (migrateData opts ac result start w))"
proof -
  have ok: "v1_ok name (k_redis w)" using same_v1[OF assms(5)] assms(3) by simp
  obtain w1 result1 r1 where c: "collectV1 opts name result w = (w1, result1, r1)" "reads name w w1"
    "(\<exists>d. r1 = Inr d \<and> data_of name (k_redis w) d \<and> result1 = counted name (k_redis w) result) \<or> (\<exists>err \<in> failures w. r1 = Inl err)"
    using collectV1_reads[OF assms(1) ok, of opts result] by blast
  have w1: "steady name w1" "failures w1 \<subseteq> failures w" "set (k_io w1) \<subseteq> set (k_io w)" "same name R (k_redis w1)"
    using c(2) same_trans[OF assms(5)] by (simp_all add: reads_def)
  show ?thesis
  proof (cases r1)
    case (Inl err)
    then show ?thesis using c w1 same_untouched(3)[OF w1(4)] assms(6)
      by (auto simp: migrateData_def migration_ends_def failed_def)
  next
    case (Inr d)
    then have d: "data_of name R d" "result1 = counted name R result" using c(3) same_collected[OF assms(5)] by auto
    have n: "mr_Keywords result1 = length (v1_keywords name R)" "mr_Prefixes result1 = length (v1_prefixes name R)"
      by (simp_all add: d(2) counted_def)
    show ?thesis
    proof (cases "mo_DryRun opts")
      case True
      then show ?thesis using c(1) Inr w1 n assms(6) by (auto simp: migrateData_def migration_ends_def)
    next
      case False
      let ?w1 = "report opts 5 ''Writing V2 structure'' w1"
      obtain w2 r2 where e: "writeV2 opts name d ?w1 = (w2, r2)" by (metis surj_pair)
      have "steady name ?w1" "clock_ok ?w1" "same name R (k_redis ?w1)"
        using w1 reads_clock[OF c(2) assms(2)] by (simp_all add: clock_ok_def)
      from writeV2_outcome[OF this(1,2) assms(3) d(1) assms(4) this(3) e]
      have O: "steady name w2" "r2 = Inr () \<and> migrated name (mo_KeepOldKeys opts) R (k_redis w2) \<or>
        (\<exists>err \<in> failures w. r2 = Inl err \<and>
          (untouched name R (k_redis w2) \<or> migrated name (mo_KeepOldKeys opts) R (k_redis w2) \<and> CmdLost err \<in> set (k_io w)))"
        using w1(2,3) by (simp, auto)
      show ?thesis
      proof (cases r2)
        case (Inl err)
        then show ?thesis using O c(1) Inr False e assms(6) by (auto simp: migrateData_def migration_ends_def failed_def)
      next
        case r2: (Inr u)
        have "steady name (tick (w2\<lparr>k_local := l\<rparr>))" for l using O(1) by (simp add: steady_def tick_def)
        then show ?thesis using O c(1) Inr False e assms(6) r2 n by (auto simp: migrateData_def migration_ends_def newOps_def)
      qed
    qed
  qed
qed

lemma ends_later:
  assumes "migration_ends name opts R w1 ac out" and "failures w1 \<subseteq> failures w" and "set (k_io w1) \<subseteq> set (k_io w)"
  shows "migration_ends name opts R w ac out"
  using assms unfolding migration_ends_def by (auto split: option.splits prod.splits)

lemma ends_released:
  assumes "migration_ends name opts R w ac (w1, ac', res, err)" and "same name (k_redis w1) (k_redis w2)"
  shows "migration_ends name opts R w ac (w2, ac', res, err)"
  using assms(1) same_untouched(1)[OF _ assms(2)] same_migrated(1)[OF assms(2)] same_trans[OF _ assms(2)]
  unfolding migration_ends_def by (auto split: option.splits)

lemma migrateLocked_ends:
  assumes "steady name w" and "clock_ok w" and "v1_ok name R" and "v2_free name R" and "same name R (k_redis w)" and "cl_name ac = name"
  shows "migration_ends name opts R w ac (migrateLocked opts ac w) \<and> steady name (fst (migrateLocked opts ac w))"
proof -
  let ?w = "tick w"
  have s: "steady name ?w" "clock_ok ?w" "same name R (k_redis ?w)" using assms(1,5) clock_now(2)[OF assms(2)] by simp_all
  have E: "exists_key (trieKey name) S = (S, Inr False)" "exists_key (prefixKey name) S = (S, Inr True)" if "same name R S" for S
    using same_owned[OF that] assms(3,4) by (simp_all add: exists_key_def v2_free_def v1_ok_def)
  obtain w1 r1 where c1: "call (exists_key (trieKey name)) ?w = (w1, r1)" by (metis surj_pair)
  have "exists_key (trieKey name) S = (S, Inr False)" if "same name (k_redis ?w) S" for S using E(1) same_trans[OF s(3) that] .
  note C1 = call_reads[OF s(1) this c1]
  have w1: "steady name w1" "same name R (k_redis w1)" "failures w1 \<subseteq> failures w" "set (k_io w1) \<subseteq> set (k_io w)"
    using C1(1) same_trans[OF s(3)] by (simp_all add: reads_def)
  show ?thesis
  proof (cases r1)
    case (Inl err)
    then have "err \<in> failures w" using C1(2) by auto
    then show ?thesis using Inl c1 w1 assms(6) same_untouched(3)[OF w1(2)]
      by (auto simp: migrateLocked_def Let_def migration_ends_def)
  next
    case (Inr b)
    then have b: "b = False" using C1(2) by auto
    obtain w2 r2 where c2: "call (exists_key (prefixKey name)) w1 = (w2, r2)" by (metis surj_pair)
    have "exists_key (prefixKey name) S = (S, Inr True)" if "same name (k_redis w1) S" for S using E(2) same_trans[OF w1(2) that] .
    note C2 = call_reads[OF w1(1) this c2]
    have w2: "steady name w2" "same name R (k_redis w2)" "failures w2 \<subseteq> failures w" "set (k_io w2) \<subseteq> set (k_io w)"
      using C2(1) same_trans[OF w1(2)] w1(3,4) by (auto simp: reads_def)
    show ?thesis
    proof (cases r2)
      case (Inl err)
      then have "err \<in> failures w" using C2(2) w1(3) by auto
      then show ?thesis using Inl Inr b c1 c2 w2(1) assms(6) same_untouched(3)[OF w2(2)]
        by (auto simp: migrateLocked_def Let_def migration_ends_def)
    next
      case r2: (Inr b')
      then have b': "b' = True" using C2(2) by auto
      have "clock_ok w2" using reads_clock[OF C2(1) reads_clock[OF C1(1) s(2)]] .
      note M = migrateData_ends[OF w2(1) this assms(3,4) w2(2) assms(6)]
      show ?thesis unfolding migrateLocked_def Let_def
        using Inr b c1 c2 r2 b' assms(6) ends_later[OF conjunct1[OF M] w2(3,4)] conjunct2[OF M] by simp
    qed
  qed
qed

lemma errors_migration: "snd (setnx key v R) = Inl err \<Longrightarrow> False"
  by (simp add: setnx_def split: if_splits)

lemma migration_ends_all:
  assumes "steady (cl_name ac) w" and "clock_ok w" and "cl_original ac" and "cl_redisClient ac"
    and "R = k_redis w" and "v1_ok (cl_name ac) R" and "v2_free (cl_name ac) R"
    and "MigrateV1ToV2 (Some opts) ac w = (w', ac', res, err)"
  shows "migration_ends (cl_name ac) opts R w ac (w', ac', res, err) \<and> steady (cl_name ac) w'"
proof -
  let ?name = "cl_name ac"
  obtain w1 r1 where c1: "call (setnx (migrationLockKey ?name) ''migrating'') w = (w1, r1)" by (metis surj_pair)
  note C1 = call_foreign[OF assms(1) lock_foreign(1) c1]
  have w1: "steady ?name w1" "same ?name R (k_redis w1)" "failures w1 \<subseteq> failures w" "set (k_io w1) \<subseteq> set (k_io w)" "clock_ok w1"
    using C1(1) reads_clock[OF C1(1) assms(2)] assms(5) by (simp_all add: reads_def)
  have req: "requireRedisBacked ac = None" using assms(3,4) by (simp add: requireRedisBacked_def)
  show ?thesis
  proof (cases "r1 = Inr True")
    case True
    obtain w2 ac2 out2 where l: "migrateLocked opts ac w1 = (w2, ac2, out2)" by (metis surj_pair)
    obtain w3 r3 where c3: "call (del_keys [migrationLockKey ?name]) w2 = (w3, r3)" by (metis surj_pair)
    have o: "ac' = ac2" "out2 = (res, err)" "w' = w3" using assms(8) True c1 req l c3 by (auto simp: MigrateV1ToV2_def)
    have M: "migration_ends ?name opts R w1 ac (w2, ac', res, err)" "steady ?name w2"
      using migrateLocked_ends[OF w1(1,5) assms(6,7) w1(2) refl, of opts] l o by simp_all
    have "same ?name (k_redis w2) (k_redis w3)" "steady ?name w3"
      using call_foreign(1)[OF M(2) lock_foreign(2) c3] by (simp_all add: reads_def)
    then show ?thesis using ends_released[OF ends_later[OF M(1) w1(3,4)]] o(3) by simp
  next
    case False
    then consider err1 where "r1 = Inl err1" | "r1 = Inr False" by (cases r1) auto
    then show ?thesis
    proof cases
      case 1
      then have "err1 \<in> failures w" using C1(3) errors_migration by blast
      then show ?thesis using w1(1) 1 assms(8) c1 req same_untouched(3)[OF w1(2)] by (auto simp: MigrateV1ToV2_def migration_ends_def)
    next
      case 2
      then show ?thesis using w1(1) assms(8) c1 req same_untouched(3)[OF w1(2)] by (auto simp: MigrateV1ToV2_def migration_ends_def)
    qed
  qed
qed

text \<open>
  C4.  Migrating is all or nothing, whichever commands fail and whatever other clients
  do to other keys and to the lock, as long as they leave the collection alone.
  Without an error, the V2 hashes hold exactly the V1 keywords and prefixes and the
  keywords of each state, under names no temporary key is left at, the V1 keys are
  kept or gone as asked, and the instance serves V2; a dry run reports the same counts
  and changes nothing.  With an error the instance stays as it was and so does the
  collection, unless the reply to the transaction was lost: then the collection is
  migrated all the same.  If no command fails the only possible error is that another
  migration holds the lock.
\<close>

theorem migrate_all_or_nothing:
  assumes "steady (cl_name ac) w" and "clock_ok w" and "cl_original ac" and "cl_redisClient ac"
    and "R = k_redis w" and "v1_ok (cl_name ac) R" and "v2_free (cl_name ac) R"
    and "MigrateV1ToV2 (Some opts) ac w = (w', ac', res, err)"
  shows "case err of
     None \<Rightarrow> \<exists>r. res = Some r \<and> mr_Keywords r = length (v1_keywords (cl_name ac) R) \<and> mr_Prefixes r = length (v1_prefixes (cl_name ac) R) \<and>
       (if mo_DryRun opts then mr_Status r = ''dry-run'' \<and> same (cl_name ac) R (k_redis w') \<and> ac' = ac
        else mr_Status r = ''success'' \<and> migrated (cl_name ac) (mo_KeepOldKeys opts) R (k_redis w') \<and>
          ac' = ac\<lparr>cl_schemaVersion := SchemaV2, cl_ops := SchemaV2\<rparr>)
   | Some e \<Rightarrow> ac' = ac \<and> (failures w \<noteq> {} \<or> e = ErrMigrationInProg) \<and>
       (untouched (cl_name ac) R (k_redis w') \<or>
        \<not> mo_DryRun opts \<and> migrated (cl_name ac) (mo_KeepOldKeys opts) R (k_redis w') \<and> CmdLost e \<in> set (k_io w))"
  using migration_ends_all[OF assms] unfolding migration_ends_def prod.case by blast

section \<open>Rolling back\<close>

text \<open>The V2 keys are gone, the others as they were.\<close>

definition rolled_back :: "gostring \<Rightarrow> keyspace \<Rightarrow> keyspace \<Rightarrow> bool" where
  "rolled_back name R R' \<longleftrightarrow>
     (\<forall>key. owned name key \<longrightarrow> R' key = (if key \<in> {trieKey name, outputsKey name, nodesKey name} then None else R key))"

lemma rolled_back_same: "rolled_back name R S \<Longrightarrow> same name S T \<Longrightarrow> rolled_back name R T" "same name Q R \<Longrightarrow> rolled_back name R S \<Longrightarrow> rolled_back name Q S"
  by (simp_all add: rolled_back_def same_def)

lemma RollbackToV1_ends:
  assumes "steady (cl_name ac) w" and "cl_original ac" and "cl_redisClient ac" and "R = k_redis w" and "RollbackToV1 ac w = (w', ac', err)"
  shows "case err of
     None \<Rightarrow> R (keywordKey (cl_name ac)) \<noteq> None \<and> rolled_back (cl_name ac) R (k_redis w') \<and>
       ac' = ac\<lparr>cl_schemaVersion := SchemaV1, cl_ops := SchemaV1\<rparr> \<and> w_cache (k_local w') = None
   | Some e \<Rightarrow> ac' = ac \<and> (failures w \<noteq> {} \<or> R (keywordKey (cl_name ac)) = None) \<and>
       (same (cl_name ac) R (k_redis w') \<or>
        (\<exists>lost. e = Wrapped ''failed to delete V2 keys'' lost \<and> CmdLost lost \<in> set (k_io w) \<and> rolled_back (cl_name ac) R (k_redis w')))"
proof -
  let ?name = "cl_name ac" and ?keys = "[trieKey (cl_name ac), outputsKey (cl_name ac), nodesKey (cl_name ac)]"
  let ?b = "R (keywordKey ?name) \<noteq> None"
  have req: "requireRedisBacked ac = None" using assms(2,3) by (simp add: requireRedisBacked_def)
  have E: "exists_key (keywordKey ?name) S = (S, Inr ?b)" if "same ?name (k_redis w) S" for S
    using same_owned[OF that owned_keys(1)] assms(4) by (simp add: exists_key_def)
  obtain w1 r1 where c1: "call (exists_key (keywordKey ?name)) w = (w1, r1)" by (metis surj_pair)
  note C1 = call_reads[OF assms(1) E c1]
  have w1: "steady ?name w1" "failures w1 \<subseteq> failures w" "set (k_io w1) \<subseteq> set (k_io w)" "same ?name R (k_redis w1)"
    using C1(1) assms(4) by (simp_all add: reads_def)
  consider err1 where "err1 \<in> failures w" "r1 = Inl err1" | "\<not> ?b" "r1 = Inr False" | "?b" "r1 = Inr True"
    using C1(2) by (cases r1) auto
  then show ?thesis
  proof cases
    case 1
    then show ?thesis using assms(5) c1 req w1(4) by (auto simp: RollbackToV1_def)
  next
    case 2
    then show ?thesis using assms(5) c1 req w1(4) by (auto simp: RollbackToV1_def)
  next
    case 3
    obtain w2 r2 where c2: "call (del_keys ?keys) w1 = (w2, r2)" by (metis surj_pair)
    obtain S where S: "same ?name (k_redis w1) S" 
      "k_redis w2 = fst (del_keys ?keys S) \<and> r2 = snd (del_keys ?keys S) \<or>
       (\<exists>err. r2 = Inl err \<and> \<not> errors_Is err redis_Nil \<and> err \<in> failures w1 \<and>
          (k_redis w2 = S \<or> k_redis w2 = fst (del_keys ?keys S) \<and> CmdLost err \<in> set (k_io w1)))"
      using call_outcome[OF w1(1) c2] by metis
    have R: "rolled_back ?name R (clear (set ?keys) S)"
      using same_trans[OF w1(4) S(1)] by (simp add: rolled_back_def clear_def same_def)
    show ?thesis
    proof (cases r2)
      case (Inl err2)
      then have o: "w' = w2" "ac' = ac" "err = Some (Wrapped ''failed to delete V2 keys'' err2)"
        using assms(5) c1 c2 req 3 by (auto simp: RollbackToV1_def)
      from S(2) Inl have "err2 \<in> failures w" "k_redis w2 = S \<or> k_redis w2 = clear (set ?keys) S \<and> CmdLost err2 \<in> set (k_io w)"
        using w1(2,3) by (auto simp: del_clear)
      then show ?thesis using o R same_trans[OF w1(4) S(1)] by auto
    next
      case (Inr u)
      then have "k_redis w2 = clear (set ?keys) S" using S(2) by (auto simp: del_clear)
      then show ?thesis using assms(5) c1 c2 req 3 Inr R by (auto simp: RollbackToV1_def newOps_def)
    qed
  qed
qed

text \<open>What writes to the migrated collection do: they change its V2 keys only.\<close>

definition v2_written :: "gostring \<Rightarrow> keyspace \<Rightarrow> keyspace \<Rightarrow> bool" where
  "v2_written name R R' \<longleftrightarrow> (\<forall>key. owned name key \<and> key \<notin> {trieKey name, outputsKey name, nodesKey name} \<longrightarrow> R' key = R key)"

text \<open>
  C19.  Rolling back a migration that kept the V1 keys leaves the V1 collection as the
  migration found it, if that had a keyword: the keyword set, the prefixes, outputs and
  nodes of V1, and no V2 key; the instance serves V1 and caches nothing.  What was
  written to the V2 keys in between is lost, so this is not a way to keep working: it
  holds whatever V2 writes came before the rollback, as long as nobody writes during it.
  If the rollback fails, either nothing changed, or the reply to its only deletion was
  lost, which the error tells, and everything is as after a success except the instance,
  which goes on as V2.
\<close>

theorem rollback_after_migration:
  assumes "steady (cl_name ac) w" and "clock_ok w" and "cl_original ac" and "cl_redisClient ac"
    and "R = k_redis w" and "v1_ok (cl_name ac) R" and "v2_free (cl_name ac) R" and "v1_keywords (cl_name ac) R \<noteq> []"
    and "MigrateV1ToV2 (Some opts) ac w = (w1, ac1, res, None)" and "mo_KeepOldKeys opts" and "\<not> mo_DryRun opts"
    and "v2_written (cl_name ac) (k_redis w1) (k_redis w2)" and "steady (cl_name ac) w2"
    and "RollbackToV1 ac1 w2 = (w3, ac2, err)"
  shows "let restored = ((\<forall>key. v1_key (cl_name ac) key \<longrightarrow> k_redis w3 key = R key) \<and> v1_ok (cl_name ac) (k_redis w3) \<and>
      v2_free (cl_name ac) (k_redis w3)) in
    case err of
      None \<Rightarrow> restored \<and> ac2 = ac\<lparr>cl_schemaVersion := SchemaV1, cl_ops := SchemaV1\<rparr> \<and> w_cache (k_local w3) = None
    | Some e \<Rightarrow> failures w2 \<noteq> {} \<and> ac2 = ac\<lparr>cl_schemaVersion := SchemaV2, cl_ops := SchemaV2\<rparr> \<and>
        (same (cl_name ac) (k_redis w2) (k_redis w3) \<or>
         restored \<and> (\<exists>lost. e = Wrapped ''failed to delete V2 keys'' lost \<and> CmdLost lost \<in> set (k_io w2)))"
proof -
  let ?name = "cl_name ac"
  have "migration_ends ?name opts R w ac (w1, ac1, res, None)"
    using migration_ends_all[OF assms(1-7,9)] by blast
  then have m: "migrated ?name True R (k_redis w1)" and ac1: "ac1 = ac\<lparr>cl_schemaVersion := SchemaV2, cl_ops := SchemaV2\<rparr>"
    using assms(10,11) by (auto simp: migration_ends_def)
  have n: "cl_name ac1 = ?name" "cl_original ac1" "cl_redisClient ac1" using ac1 assms(3,4) by simp_all
  have V: "k_redis w2 key = R key" if "v1_key ?name key" for key
    using m assms(12) v1_owned[OF that] v1_not_v2[OF that] that by (simp add: migrated_def v2_written_def)
  have T: "k_redis w2 key = None" if "temp_key ?name key" for key
    using m assms(12) temp_owned[OF that] not_temp(6-8) that by (fastforce simp: migrated_def v2_written_def)
  have "R (keywordKey ?name) \<noteq> None" using assms(8) by (auto simp: v1_keywords_def split: option.splits)
  then have k: "k_redis w2 (keywordKey ?name) \<noteq> None" using V by (simp add: v1_key_def)
  have B: "(\<forall>key. v1_key ?name key \<longrightarrow> S key = R key) \<and> v1_ok ?name S \<and> v2_free ?name S" if r: "rolled_back ?name (k_redis w2) S" for S
  proof -
    have v: "S key = R key" if "v1_key ?name key" for key
      using r v1_owned[OF that] v1_not_v2[OF that] V[OF that] by (simp add: rolled_back_def)
    have "v1_keywords ?name S = v1_keywords ?name R" "v1_prefixes ?name S = v1_prefixes ?name R"
      using v by (simp_all add: v1_keywords_def v1_prefixes_def v1_key_def)
    then have "v1_ok ?name S" using assms(6) v by (simp add: v1_ok_def v1_snap_def v1_key_def)
    moreover have "v2_free ?name S"
      using r T temp_owned not_temp(6-8) by (fastforce simp: v2_free_def rolled_back_def)
    ultimately show ?thesis using v by blast
  qed
  have st2: "steady (cl_name ac1) w2" using assms(13) n(1) by simp
  note E = RollbackToV1_ends[OF st2 n(2,3) refl assms(14), unfolded n(1)]
  show ?thesis
  proof (cases err)
    case None
    then show ?thesis using E B ac1 by (simp add: Let_def)
  next
    case (Some e)
    then show ?thesis using E B ac1 k by (auto simp: Let_def)
  qed
qed

text \<open>A V1 collection without keywords has no keyword set, and the rollback takes it for one that was not kept.\<close>

lemma rollback_empty_refused:
  assumes "steady (cl_name ac) w" and "cl_original ac" and "cl_redisClient ac"
    and "v1_ok (cl_name ac) (k_redis w)" and "v1_keywords (cl_name ac) (k_redis w) = []"
  shows "\<exists>w' e. RollbackToV1 ac w = (w', ac, Some e)"
proof -
  obtain w' ac' err where r: "RollbackToV1 ac w = (w', ac', err)" by (metis surj_pair)
  have "k_redis w (keywordKey (cl_name ac)) = None"
    using assms(4,5) by (auto simp: v1_ok_def holds_set_def split: option.splits rvalue.splits)
  then show ?thesis using RollbackToV1_ends[OF assms(1-3) refl r] r by (auto split: option.splits)
qed

section \<open>Witnesses\<close>

definition v1_client :: client where
  "v1_client = \<lparr>cl_name = ''words'', cl_original = True, cl_redisClient = True, cl_schemaVersion = SchemaV1, cl_ops = SchemaV1\<rparr>"

definition keep_options :: MigrationOptions where
  "keep_options = \<lparr>mo_DryRun = False, mo_KeepOldKeys = True, mo_Progress = True\<rparr>"

lemma v1_example_free: "v2_free ''words'' v1_example"
  by (auto simp: v2_free_def v1_example_def key_defs temp_key_def)

lemma example_migration:
  "steady (cl_name v1_client) (example_kworld v1_example io) = list_all plain_io io" "clock_ok (example_kworld v1_example io)"
  "cl_original v1_client" "cl_redisClient v1_client" "k_redis (example_kworld v1_example io) = v1_example"
  "v1_ok (cl_name v1_client) v1_example" "v2_free (cl_name v1_client) v1_example"
  using v1_example_ok v1_example_free
  by (simp_all add: v1_client_def clock_ok_def example_kworld_def example_world_def steady_def)

lemma example_returns: "snd (snd (snd (MigrateV1ToV2 (Some keep_options) v1_client (example_kworld v1_example [])))) = None"
  by code_simp

theorem migrate_all_or_nothing_witness:
  "\<exists>w' ac' r. MigrateV1ToV2 (Some keep_options) v1_client (example_kworld v1_example []) = (w', ac', Some r, None) \<and>
     mr_Status r = ''success'' \<and> mr_Keywords r = 2 \<and> mr_Prefixes r = 5 \<and> migrated ''words'' True v1_example (k_redis w') \<and> cl_ops ac' = 2"
proof -
  obtain w' ac' res err where m: "MigrateV1ToV2 (Some keep_options) v1_client (example_kworld v1_example []) = (w', ac', res, err)" by (metis surj_pair)
  note E = example_migration(1,2)[where io = "[]"] example_migration(3,4) example_migration(5)[where io = "[]"] example_migration(6,7)
  have st: "steady (cl_name v1_client) (example_kworld v1_example [])" using E(1) by simp
  have e: "err = None" using example_returns m by simp
  have o: "mo_DryRun keep_options = False" "mo_KeepOldKeys keep_options = True" "cl_name v1_client = ''words''"
    by (simp_all add: keep_options_def v1_client_def)
  from migrate_all_or_nothing[OF st E(2-4) E(5)[symmetric] E(6,7) m]
  show ?thesis by (auto simp: m e o v1_example_data SchemaV2_def)
qed

text \<open>There and back, with a write to the V2 keys in between: the trie hash goes.\<close>

definition write_between :: "kworld \<Rightarrow> kworld" where
  "write_between w = w\<lparr>k_redis := (k_redis w)(trieKey ''words'' := None)\<rparr>"

definition there_and_back :: "kworld \<times> client \<times> acorError option" where
  "there_and_back = (case MigrateV1ToV2 (Some keep_options) v1_client (example_kworld v1_example []) of (w, ac, out) \<Rightarrow> RollbackToV1 ac (write_between w))"

lemma example_back: "snd (snd there_and_back) = None"
  by code_simp

theorem rollback_after_migration_witness:
  "\<exists>w1 ac1 res w3. MigrateV1ToV2 (Some keep_options) v1_client (example_kworld v1_example []) = (w1, ac1, res, None) \<and>
     RollbackToV1 ac1 (write_between w1) = (w3, v1_client, None) \<and>
     (\<forall>key. v1_key ''words'' key \<longrightarrow> k_redis w3 key = v1_example key) \<and> v1_ok ''words'' (k_redis w3) \<and> v2_free ''words'' (k_redis w3)"
proof -
  obtain w1 ac1 res err where m: "MigrateV1ToV2 (Some keep_options) v1_client (example_kworld v1_example []) = (w1, ac1, res, err)" by (metis surj_pair)
  obtain w3 ac2 err2 where r: "RollbackToV1 ac1 (write_between w1) = (w3, ac2, err2)" by (metis surj_pair)
  note E = example_migration(1,2)[where io = "[]"] example_migration(3,4) example_migration(5)[where io = "[]"] example_migration(6,7)
  have st: "steady (cl_name v1_client) (example_kworld v1_example [])" using E(1) by simp
  have e: "err = None" using example_returns m by simp
  have e2: "err2 = None" using example_back m r by (simp add: there_and_back_def)
  have o: "mo_KeepOldKeys keep_options" "\<not> mo_DryRun keep_options" "cl_name v1_client = ''words''" "v1_client\<lparr>cl_schemaVersion := SchemaV1, cl_ops := SchemaV1\<rparr> = v1_client"
    by (simp_all add: keep_options_def v1_client_def)
  have k: "v1_keywords (cl_name v1_client) v1_example \<noteq> []" by (simp add: o v1_example_data)
  have v: "v2_written (cl_name v1_client) (k_redis w1) (k_redis (write_between w1))" by (simp add: v2_written_def write_between_def o)
  have st1: "steady (cl_name v1_client) (write_between w1)"
    using migration_ends_all[OF st E(2-4) E(5)[symmetric] E(6,7) m] by (simp add: steady_def write_between_def)
  from rollback_after_migration[OF st E(2-4) E(5)[symmetric] E(6,7) k m[unfolded e] o(1,2) v st1 r] o(4) m r
  show ?thesis by (simp add: e e2 o Let_def)
qed

text \<open>
  When the reply to the transaction is lost the migration reports an error although it
  has taken effect: the V1 keys are gone and the instance goes on as V1.
\<close>

lemma migration_lost_reply:
  "case MigrateV1ToV2 None v1_client (example_kworld v1_example (replicate 15 CmdOk @ [CmdLost (ErrClient ''EOF'')])) of
     (w', ac', res, err) \<Rightarrow> map_option mr_Status res = Some ''error'' \<and> err = Some (ErrClient ''EOF'') \<and> cl_ops ac' = SchemaV1 \<and>
       k_redis w' (keywordKey ''words'') = None \<and> k_redis w' (trieKey ''words'') \<noteq> None"
  by code_simp

text \<open>
  The lock is deleted without looking whose it is: when it has expired and another
  migration has taken it, that one's lock is deleted.
\<close>

lemma migration_releases_foreign_lock:
  "case MigrateV1ToV2 None v1_client
       ((example_kworld v1_example [])\<lparr>k_env := replicate 5 id @ [\<lambda>R. R(migrationLockKey ''words'' \<mapsto> TextValue ''migrating'')]\<rparr>) of
     (w', ac', res, err) \<Rightarrow> k_redis w' (migrationLockKey ''words'') = None"
  by code_simp

end
