(* ===== verification/Connection.thy ===== *)
theory Connection
  imports V2_Read "HOL-Library.AList"
begin

text \<open>
  \<^verbatim>\<open>pkg/acor/client.go\<close> and the construction of an instance in \<^verbatim>\<open>acor.go\<close>: which Redis client
  the arguments select and what \<^verbatim>\<open>Create\<close> checks, opens and closes.  A client is the
  value it was made from; what the network answers (the ping of a cluster, the setup
  of the collection, the subscription) is an argument.  Password, timeouts and pool
  size only pass through and are left out, and so is the logger.
\<close>

section \<open>Arguments\<close>

text \<open>The ring addresses are listed in the order the map is ranged over.\<close>

record AhoCorasickArgs =
  aa_Addr :: gostring
  aa_Addrs :: "gostring list"
  aa_MasterName :: gostring
  aa_RingAddrs :: "(gostring \<times> gostring) list"
  aa_Password :: gostring
  aa_DB :: int
  aa_Name :: gostring
  aa_SchemaVersion :: int
  aa_EnableCache :: bool
  aa_CleanupInterval :: "64 word"
  aa_CaseSensitive :: bool
  aa_RollbackTimeout :: int
  aa_Preset :: Preset

definition hasAnyRedisConfig :: "AhoCorasickArgs \<Rightarrow> bool" where
  "hasAnyRedisConfig a \<longleftrightarrow> aa_Addr a \<noteq> [] \<or> length (aa_Addrs a) > 0 \<or> aa_MasterName a \<noteq> [] \<or> length (aa_RingAddrs a) > 0 \<or>
     aa_Password a \<noteq> [] \<or> aa_DB a \<noteq> 0"

definition ErrRedisConflictingTopology :: acorError where
  "ErrRedisConflictingTopology = ErrText ''redis topology settings are conflicting''"
definition ErrRedisAddrs :: acorError where "ErrRedisAddrs = ErrText ''redis addrs must contain at least one address''"
definition ErrRedisSentinelAddrs :: acorError where "ErrRedisSentinelAddrs = ErrText ''redis sentinel requires at least one address''"
definition ErrRedisClusterDB :: acorError where "ErrRedisClusterDB = ErrText ''redis cluster does not support DB selection''"
definition ErrRedisRingAddrs :: acorError where "ErrRedisRingAddrs = ErrText ''redis ring requires at least one shard address''"
definition ErrRedisAlreadyClosed :: acorError where "ErrRedisAlreadyClosed = ErrText ''redis client was already closed''"

definition defaultRollbackTimeout :: int where "defaultRollbackTimeout = 10 * 10 ^ 9"

definition resolveRollbackTimeout :: "int \<Rightarrow> int" where
  "resolveRollbackTimeout d = (if d > 0 then d else defaultRollbackTimeout)"

section \<open>The Redis client\<close>

definition appendAddr :: "gostring \<Rightarrow> gostring list \<Rightarrow> gostring list" where
  "appendAddr v normalized =
     (let trimmed = trimSpace v in
      if trimmed = [] then normalized
      else if trimmed \<in> set normalized then normalized
      else normalized @ [trimmed])"

definition normalizeAddrs :: "gostring \<Rightarrow> gostring list \<Rightarrow> gostring list" where
  "normalizeAddrs addr addrs = fold appendAddr addrs (appendAddr addr [])"

definition normalizeRingAddrs :: "(gostring \<times> gostring) list \<Rightarrow> (gostring \<times> gostring) list" where
  "normalizeRingAddrs addrs =
     fold (\<lambda>(name, addr) normalized.
        let trimmedName = trimSpace name; trimmedAddr = trimSpace addr in
        if trimmedName = [] \<or> trimmedAddr = [] then normalized else AList.update trimmedName trimmedAddr normalized) addrs []"

definition selectsCluster :: "AhoCorasickArgs \<Rightarrow> (gostring \<times> gostring) list \<Rightarrow> bool" where
  "selectsCluster args ringAddrs \<longleftrightarrow> length ringAddrs = 0 \<and> trimSpace (aa_MasterName args) = [] \<and> length (aa_Addrs args) > 0"

definition validateRedisTopology :: "AhoCorasickArgs \<Rightarrow> gostring list \<Rightarrow> (gostring \<times> gostring) list \<Rightarrow> acorError option" where
  "validateRedisTopology args addrs ringAddrs =
     (let hasSentinel = (trimSpace (aa_MasterName args) \<noteq> []) in
      if trimSpace (aa_Addr args) \<noteq> [] \<and> length (aa_Addrs args) > 0 then Some ErrRedisConflictingTopology
      else if length ringAddrs > 0 \<and> (hasSentinel \<or> length (aa_Addrs args) > 0) then Some ErrRedisConflictingTopology
      else if hasSentinel \<and> length (aa_Addrs args) = 0 then Some ErrRedisSentinelAddrs
      else if length (aa_Addrs args) > 0 \<and> length addrs = 0 then Some ErrRedisAddrs
      else if length (aa_RingAddrs args) > 0 \<and> length ringAddrs = 0 then Some ErrRedisRingAddrs
      else if selectsCluster args ringAddrs \<and> aa_DB args \<noteq> 0 then Some ErrRedisClusterDB
      else None)"

datatype redisClient =
    RingClient "(gostring \<times> gostring) list" int
  | SentinelClient gostring "gostring list" int
  | ClusterClient "gostring list"
  | StandaloneClient gostring int

definition newStandaloneRedisClient :: "AhoCorasickArgs \<Rightarrow> gostring list \<Rightarrow> redisClient" where
  "newStandaloneRedisClient args addrs =
     (let addr = trimSpace (aa_Addr args) in
      StandaloneClient (if addr = [] \<and> length addrs > 0 then hd addrs else addr) (aa_DB args))"

text \<open>What happens to connections, in order.\<close>

datatype conn_event = Opened redisClient | Closed redisClient

definition newClusterRedisClient :: "acorError option \<Rightarrow> gostring list \<Rightarrow> conn_event list \<times> redisClient result" where
  "newClusterRedisClient ping addrs =
     (let client = ClusterClient addrs in
      case ping of
        Some err \<Rightarrow> ([Opened client, Closed client], Inl (Wrapped ''failed to connect to Redis cluster'' err))
      | None \<Rightarrow> ([Opened client], Inr client))"

definition newRedisClient :: "AhoCorasickArgs \<Rightarrow> acorError option \<Rightarrow> conn_event list \<times> redisClient result" where
  "newRedisClient args ping =
     (let addrs = normalizeAddrs (aa_Addr args) (aa_Addrs args); ringAddrs = normalizeRingAddrs (aa_RingAddrs args) in
      case validateRedisTopology args addrs ringAddrs of
        Some err \<Rightarrow> ([], Inl err)
      | None \<Rightarrow>
          let opened = (\<lambda>client. ([Opened client], Inr client)) in
          if length ringAddrs > 0 then opened (RingClient ringAddrs (aa_DB args))
          else if trimSpace (aa_MasterName args) \<noteq> [] then opened (SentinelClient (trimSpace (aa_MasterName args)) addrs (aa_DB args))
          else if selectsCluster args ringAddrs then newClusterRedisClient ping addrs
          else opened (newStandaloneRedisClient args addrs))"

section \<open>Creating an instance\<close>

text \<open>
  What the network answers during the construction: the ping, the setup of the
  schema, the first load of preset mode and the subscription.
\<close>

record setup_answers =
  an_ping :: "acorError option"
  an_init :: "nat \<Rightarrow> acorError option"
  an_reload :: "acorError option"
  an_listen :: "acorError option"

record instance_state =
  is_client :: "redisClient option"
  is_name :: gostring
  is_preset :: "Preset option"
  is_schemaVersion :: nat
  is_cache :: "trieCache option"
  is_rollbackTimeout :: int
  is_caseSensitive :: bool
  is_closed :: bool

definition newCache :: "64 word \<Rightarrow> trieCache" where
  "newCache interval =
     \<lparr>tc_engine = None, tc_valid = False, tc_selfSkip = \<lparr>sk_ids = Map.empty, sk_publishCount = 0, sk_cleanupEvery = interval\<rparr>\<rparr>"

definition createOriginal :: "AhoCorasickArgs \<Rightarrow> setup_answers \<Rightarrow> conn_event list \<times> instance_state result" where
  "createOriginal args ans =
     (case newRedisClient args (an_ping ans) of
        (ev, Inl err) \<Rightarrow> (ev, Inl err)
      | (ev, Inr client) \<Rightarrow>
          let failed = (\<lambda>err. (ev @ [Closed client], Inl err)) in
          if aa_SchemaVersion args \<notin> {0, 1, 2} then failed (ErrText (''unsupported schema version: '' @ itoa (aa_SchemaVersion args)))
          else
            (let schemaVersion = (if aa_SchemaVersion args = 1 then 1 else SchemaV2) in
             if aa_EnableCache args \<and> schemaVersion = 1 then failed ErrCacheRequiresV2
             else case an_init ans schemaVersion of
                 Some err \<Rightarrow> failed err
               | None \<Rightarrow>
                   (case (if aa_EnableCache args then an_listen ans else None) of
                      Some err \<Rightarrow> failed err
                    | None \<Rightarrow>
                        (ev, Inr \<lparr>is_client = Some client, is_name = aa_Name args, is_preset = None, is_schemaVersion = schemaVersion,
                           is_cache = (if aa_EnableCache args then Some (newCache (aa_CleanupInterval args)) else None),
                           is_rollbackTimeout = resolveRollbackTimeout (aa_RollbackTimeout args),
                           is_caseSensitive = aa_CaseSensitive args, is_closed = False\<rparr>))))"

text \<open>Preset mode: the parts of \<^verbatim>\<open>newRedisBacked\<close> that open and close; the rest is in \<open>Redis_Backed\<close>.\<close>

definition newRedisBacked :: "AhoCorasickArgs \<Rightarrow> setup_answers \<Rightarrow> conn_event list \<times> (Preset \<times> redisClient) result" where
  "newRedisBacked args ans =
     (if CHR '':'' \<in> set (aa_Name args) then ([], Inl ErrInvalidName)
      else
        (let preset = (if aa_Preset args = PresetNone \<or> aa_Preset args = PresetDefault then PresetBalanced else aa_Preset args) in
         case newRedisClient args (an_ping ans) of
           (ev, Inl err) \<Rightarrow> (ev, Inl err)
         | (ev, Inr client) \<Rightarrow>
             let failed = (\<lambda>err. (ev @ [Closed client], Inl err)) in
             (case an_init ans SchemaV2 of
                Some err \<Rightarrow> failed err
              | None \<Rightarrow>
                  (case an_reload ans of
                     Some err \<Rightarrow> failed err
                   | None \<Rightarrow>
                       (case an_listen ans of
                          Some err \<Rightarrow> failed (Wrapped ''pub/sub setup failed'' err)
                        | None \<Rightarrow> (ev, Inr (preset, client)))))))"

text \<open>The client is held by the preset mode's own record there; \<open>is_client\<close> names it all the same.\<close>

definition createPresetRedis :: "AhoCorasickArgs \<Rightarrow> setup_answers \<Rightarrow> conn_event list \<times> instance_state result" where
  "createPresetRedis args ans =
     (case newRedisBacked args ans of
        (ev, Inl err) \<Rightarrow> (ev, Inl err)
      | (ev, Inr (preset, client)) \<Rightarrow>
          (ev, Inr \<lparr>is_client = Some client, is_name = aa_Name args, is_preset = Some preset, is_schemaVersion = SchemaV2, is_cache = None,
             is_rollbackTimeout = 0, is_caseSensitive = aa_CaseSensitive args, is_closed = False\<rparr>))"

definition CreateContext :: "AhoCorasickArgs option \<Rightarrow> setup_answers \<Rightarrow> conn_event list \<times> instance_state result" where
  "CreateContext args0 ans =
     (case args0 of
        None \<Rightarrow> ([], Inl ErrNilArgs)
      | Some args \<Rightarrow>
          if CHR '':'' \<in> set (aa_Name args) then ([], Inl ErrInvalidName)
          else if aa_Preset args \<noteq> PresetNone \<and> aa_Preset args \<noteq> PresetDefault then
            (if \<not> hasAnyRedisConfig args then ([], Inl ErrPresetRequiresRedis)
             else if aa_SchemaVersion args = 1 then ([], Inl ErrPresetRequiresV2)
             else if aa_EnableCache args then ([], Inl ErrCacheWithPreset)
             else createPresetRedis args ans)
          else createOriginal args ans)"

text \<open>Closing once: the second call only reports that it is not the first.\<close>

definition close_instance :: "acorError option \<Rightarrow> instance_state \<Rightarrow> instance_state \<times> acorError option" where
  "close_instance closeErr ac =
     (if is_closed ac then (ac, Some ErrRedisAlreadyClosed) else (ac\<lparr>is_closed := True\<rparr>, closeErr))"

section \<open>Which server is contacted\<close>

lemma appendAddr_props:
  "set (appendAddr v xs) = set xs \<union> ({trimSpace v} - {[]})" "distinct xs \<Longrightarrow> distinct (appendAddr v xs)"
  by (auto simp: appendAddr_def Let_def)

lemma normalizeAddrs_props:
  "set (normalizeAddrs a as) = trimSpace ` set (a # as) - {[]}" "distinct (normalizeAddrs a as)"
proof -
  have s: "set (fold appendAddr as xs) = set xs \<union> (trimSpace ` set as - {[]})" for xs
    by (induction as arbitrary: xs) (auto simp: appendAddr_props)
  have d: "distinct xs \<Longrightarrow> distinct (fold appendAddr as xs)" for xs
    by (induction as arbitrary: xs) (auto simp: appendAddr_props)
  show "set (normalizeAddrs a as) = trimSpace ` set (a # as) - {[]}" by (auto simp: normalizeAddrs_def s appendAddr_props)
  show "distinct (normalizeAddrs a as)" by (simp add: normalizeAddrs_def d appendAddr_props)
qed

text \<open>
  The topologies of the documentation: ring addresses decide first, then the name of
  the master, then the list of addresses; two of them at once are refused.
\<close>

definition topology_ok :: "AhoCorasickArgs \<Rightarrow> redisClient \<Rightarrow> bool" where
  "topology_ok args client \<longleftrightarrow>
     (case client of
        RingClient rs db \<Rightarrow> rs = normalizeRingAddrs (aa_RingAddrs args) \<and> rs \<noteq> [] \<and> aa_Addrs args = [] \<and> trimSpace (aa_MasterName args) = [] \<and> db = aa_DB args
      | SentinelClient master as db \<Rightarrow>
          aa_RingAddrs args = [] \<and> master = trimSpace (aa_MasterName args) \<and> master \<noteq> [] \<and> trimSpace (aa_Addr args) = [] \<and>
          as \<noteq> [] \<and> distinct as \<and> set as = trimSpace ` set (aa_Addrs args) - {[]} \<and> db = aa_DB args
      | ClusterClient as \<Rightarrow>
          aa_RingAddrs args = [] \<and> trimSpace (aa_MasterName args) = [] \<and> trimSpace (aa_Addr args) = [] \<and>
          as \<noteq> [] \<and> distinct as \<and> set as = trimSpace ` set (aa_Addrs args) - {[]} \<and> aa_DB args = 0
      | StandaloneClient a db \<Rightarrow>
          aa_RingAddrs args = [] \<and> trimSpace (aa_MasterName args) = [] \<and> aa_Addrs args = [] \<and> a = trimSpace (aa_Addr args) \<and> db = aa_DB args)"

definition closed_again :: "conn_event list \<Rightarrow> bool" where
  "closed_again ev \<longleftrightarrow> ev = [] \<or> (\<exists>c. ev = [Opened c, Closed c])"

lemma newRedisClient_cases:
  assumes "newRedisClient args ping = (ev, r)"
  shows "case r of Inl err \<Rightarrow> closed_again ev | Inr client \<Rightarrow> ev = [Opened client] \<and> topology_ok args client"
proof -
  let ?as = "normalizeAddrs (aa_Addr args) (aa_Addrs args)" and ?rs = "normalizeRingAddrs (aa_RingAddrs args)"
  note A = normalizeAddrs_props[of "aa_Addr args" "aa_Addrs args"]
  show ?thesis
  proof (cases "validateRedisTopology args ?as ?rs")
    case (Some err)
    then show ?thesis using assms by (auto simp: newRedisClient_def Let_def closed_again_def)
  next
    case None
    then have v: "trimSpace (aa_Addr args) = [] \<or> aa_Addrs args = []" "?rs = [] \<or> trimSpace (aa_MasterName args) = [] \<and> aa_Addrs args = []"
      "trimSpace (aa_MasterName args) = [] \<or> aa_Addrs args \<noteq> []" "aa_Addrs args = [] \<or> ?as \<noteq> []" "aa_RingAddrs args = [] \<or> ?rs \<noteq> []"
      "selectsCluster args ?rs \<longrightarrow> aa_DB args = 0"
      by (auto simp: validateRedisTopology_def Let_def split: if_splits)
    have s: "set ?as = trimSpace ` set (aa_Addrs args) - {[]}" if "aa_Addrs args \<noteq> []" using A(1) v(1) that by auto
    have none: "normalizeRingAddrs [] = []" by (simp add: normalizeRingAddrs_def)
    consider "?rs \<noteq> []" | "?rs = []" "trimSpace (aa_MasterName args) \<noteq> []" | "?rs = []" "trimSpace (aa_MasterName args) = []" "aa_Addrs args \<noteq> []"
      | "?rs = []" "trimSpace (aa_MasterName args) = []" "aa_Addrs args = []" by blast
    then show ?thesis
    proof cases
      case 1
      then show ?thesis using assms None v by (auto simp: newRedisClient_def Let_def topology_ok_def)
    next
      case 2
      then show ?thesis using assms None v s A(2) by (auto simp: newRedisClient_def Let_def topology_ok_def)
    next
      case 3
      then have c: "selectsCluster args ?rs" by (simp add: selectsCluster_def)
      show ?thesis using 3 c assms None v s A(2)
        by (cases ping) (auto simp: newRedisClient_def newClusterRedisClient_def Let_def topology_ok_def closed_again_def)
    next
      case 4
      have e: "\<not> selectsCluster args ?rs" using 4 by (simp add: selectsCluster_def)
      have a: "trimSpace (aa_Addr args) = [] \<Longrightarrow> ?as = []" using A(1) 4 by auto
      show ?thesis using 4 e a assms None v by (auto simp: newRedisClient_def newStandaloneRedisClient_def Let_def topology_ok_def)
    qed
  qed
qed

text \<open>
  An instance comes with the one connection it opened, to the server the arguments
  name, and with a schema its options work with; after an error no connection is left
  open.
\<close>

lemma create_connects:
  assumes "CreateContext args0 ans = (ev, r)"
  shows "case r of
     Inl err \<Rightarrow> closed_again ev
   | Inr ac \<Rightarrow> \<exists>args client. args0 = Some args \<and> ev = [Opened client] \<and> is_client ac = Some client \<and> topology_ok args client \<and>
       CHR '':'' \<notin> set (is_name ac) \<and> is_schemaVersion ac \<in> {1, 2} \<and> (aa_SchemaVersion args = 1 \<longleftrightarrow> is_schemaVersion ac = 1) \<and>
       (is_cache ac \<noteq> None \<longleftrightarrow> aa_EnableCache args) \<and> (aa_EnableCache args \<longrightarrow> is_schemaVersion ac = 2 \<and> is_preset ac = None) \<and>
       (is_preset ac \<noteq> None \<longrightarrow> is_preset ac = Some (aa_Preset args) \<and> is_schemaVersion ac = 2 \<and> hasAnyRedisConfig args) \<and> \<not> is_closed ac"
proof (cases args0)
  case None
  then show ?thesis using assms by (auto simp: CreateContext_def closed_again_def)
next
  case (Some args)
  obtain ev1 r1 where n: "newRedisClient args (an_ping ans) = (ev1, r1)" by (metis surj_pair)
  note N = newRedisClient_cases[OF n]
  have early: ?thesis if "ev = []" "\<exists>err. r = Inl err" using that by (auto simp: closed_again_def)
  show ?thesis
  proof (cases r1)
    case (Inl err)
    then show ?thesis using assms Some n N
      by (auto simp: CreateContext_def createPresetRedis_def newRedisBacked_def createOriginal_def closed_again_def Let_def split: if_splits)
  next
    case (Inr client)
    then have ev1: "ev1 = [Opened client]" "topology_ok args client" using N by simp_all
    show ?thesis
    proof (cases "CHR '':'' \<in> set (aa_Name args)")
      case True
      then show ?thesis using assms Some by (intro early) (auto simp: CreateContext_def)
    next
      case False
      show ?thesis
      proof (cases "aa_Preset args \<noteq> PresetNone \<and> aa_Preset args \<noteq> PresetDefault")
        case True
        then show ?thesis using assms Some n Inr ev1 False
          by (auto simp: CreateContext_def createPresetRedis_def newRedisBacked_def closed_again_def Let_def SchemaV2_def split: if_splits option.splits)
      next
        case orig: False
        then have c: "createOriginal args ans = (ev, r)" using assms Some False by (auto simp: CreateContext_def)
        then show ?thesis using Some n Inr ev1 False
          by (auto simp: createOriginal_def closed_again_def Let_def SchemaV2_def split: if_splits option.splits)
      qed
    qed
  qed
qed

end
