(* ===== verification/Spec2Isabelle.thy ===== *)
theory Spec2Isabelle
  imports Parallel Rewrite Versions Batch V3_Open V3_Prune Migration Connection
begin

text \<open>
  A verification of \<^verbatim>\<open>acor\<close>, a Go library that finds the occurrences of many keywords in
  a text (Aho-Corasick) and keeps its dictionaries in Redis.

  \<^bold>\<open>The program.\<close>  \<^verbatim>\<open>internal/engine\<close> holds the automata: three implementations with one
  set of search operations (a map-based one, a flat transition table, a banded
  double-array trie), and a composite that presents several as one.  \<^verbatim>\<open>pkg/acor\<close> is the
  library: searching with positions (\<^verbatim>\<open>matches.go\<close>), in parallel, with limits, and
  rewriting; and four ways to keep a dictionary in Redis.  The V1 schema (read-only by
  now) has one key per keyword; the V2 schema keeps a collection in two hashes, writes it
  by a script that compares versions, and is read with or without a local cache; preset
  mode keeps a whole automaton beside a V2 collection and reloads it on messages and polls;
  a versioned collection stores immutable generations of chunked documents, switched by
  one script, with leases, snapshots, sharding and collection of garbage.  \<^verbatim>\<open>server\<close>,
  \<^verbatim>\<open>internal/app\<close>, \<^verbatim>\<open>cmd\<close> and \<^verbatim>\<open>tools\<close> carry requests to these operations and are not
  modelled; nor is generated code.

  \<^bold>\<open>Conventions.\<close>  A Go string is a list of bytes, decoded into runes where Go decodes it.
  A computation that could panic or run for ever returns an option, and \<open>None\<close> stands
  for that; an operation that returns an error has a result in a sum, \<open>Inl\<close> the error.
  Integers are words where they wrap in practice (counters, digests, packed entries) and
  unbounded otherwise.  A Go map that is ranged over is listed by an order which is a
  parameter, and theorems hold for every order.  Mutable state is a record that is passed
  along.  Redis is a record of the keys and a schedule: what other clients do before each
  command (\<open>w_env\<close>, \<open>vw_env\<close>), whether the command succeeds, fails, or takes effect with
  its reply lost (\<open>w_io\<close>), and what clocks, random ids and waits return.  Theorems about
  interference quantify over the schedule.  A Lua script and a transaction are one command.

  \<^bold>\<open>Theories and sources.\<close>
  \<^item> \<open>Prelude\<close>, \<open>Go_Strings\<close>, \<open>Utf8\<close>, \<open>Rune_Offsets\<close>, \<open>Decimal\<close>, \<open>Json_Strings\<close>, \<open>Bitset\<close>: the
    parts of Go and its library the code uses (strings and UTF-8, \<^verbatim>\<open>strconv\<close>,
    \<^verbatim>\<open>encoding/json\<close> for string lists), with their round trips, and \<^verbatim>\<open>modes.go\<close>.
    \<open>Acor_Errors\<close> is \<^verbatim>\<open>errors.go\<close>.
  \<^item> \<open>AC_Spec\<close> says what matching means: a dictionary maps rune lists to keywords, and
    \<open>spec_find\<close>, \<open>spec_findSet\<close>, \<open>spec_findIndex\<close>, \<open>spec_match\<close>, \<open>spec_contains\<close> list the
    occurrences in order of their ends.  Every engine and every search operation is
    compared with it.
  \<^item> \<open>Outputs\<close>, \<open>Collector\<close> (\<^verbatim>\<open>engine_output.go\<close>), \<open>Coder\<close> (\<^verbatim>\<open>coder.go\<close>), \<open>Bloom\<close>
    (\<^verbatim>\<open>engine_bloom.go\<close>), \<open>Presets\<close> (\<^verbatim>\<open>engine.go\<close>).
  \<^item> \<open>Scanner\<close>, \<open>Trie_Core\<close>, \<open>Trie_BFS\<close>, \<open>Alphabet\<close>: the theory the engines share.  The
    locales \<open>scanner\<close> and \<open>flagged_scanner\<close> are the contract of an automaton towards the
    scan loops; \<open>trie_store\<close> and \<open>trie_depth_store\<close> that of a store of states towards the
    insertion of keywords; \<open>link_store\<close> that of the stores of the failure and output links
    towards the breadth-first passes.  Each is interpreted by the engines.
  \<^item> \<open>Map_Engine\<close> (\<^verbatim>\<open>engine_map.go\<close>), \<open>Flat_Engine\<close> (\<^verbatim>\<open>engine_flat.go\<close>), \<open>Dat_Engine\<close> and
    \<open>Banded_Engine\<close> (\<^verbatim>\<open>engine_dat.go\<close>, \<^verbatim>\<open>engine_banded_dfa.go\<close>): C1, C3, C5, each engine
    builds and refines \<open>AC_Spec\<close>.  \<open>Engine_Handle\<close> (\<^verbatim>\<open>engine_handle.go\<close>,
    \<^verbatim>\<open>engine_presets.go\<close>): C6, the presets are interchangeable.  \<open>Composite\<close>
    (\<^verbatim>\<open>engine_composite.go\<close>): C38, over the locale \<open>rune_cursor\<close>.
  \<^item> \<open>Matches\<close> (\<^verbatim>\<open>matches.go\<close>): C7 to C9.  \<open>Parallel\<close> (\<^verbatim>\<open>parallel.go\<close>, \<^verbatim>\<open>options.go\<close>): C10,
    C11.  \<open>Source_Window\<close>, \<open>Scan\<close> (\<^verbatim>\<open>scan.go\<close>): C13, C14.  \<open>Rewrite\<close> (\<^verbatim>\<open>rewrite.go\<close>): C15, C16.
  \<^item> \<open>V2_Plan\<close> (\<^verbatim>\<open>v2_plan.go\<close>): C17, C18, the pure half of a write.  \<open>Versions\<close>: C32.
    \<open>Invalidation\<close> (\<^verbatim>\<open>invalidation.go\<close>, \<^verbatim>\<open>stats.go\<close>): C20.
  \<^item> \<open>V2_Store\<close> (\<^verbatim>\<open>keys.go\<close>, \<^verbatim>\<open>v2_lua.go\<close>, \<^verbatim>\<open>v2_transaction.go\<close>), \<open>V2_Writes\<close>: C22 to C25 and
    C27, the writes are atomic and lose nothing.  \<open>V2_Read\<close> (\<^verbatim>\<open>v2_ops.go\<close>, \<^verbatim>\<open>cache.go\<close>,
    \<^verbatim>\<open>engine_memo.go\<close>): C28 to C31, what a search may answer from.
  \<^item> \<open>Redis_Backed\<close>, \<open>Preset_Ops\<close> (\<^verbatim>\<open>redis_backed.go\<close>, \<^verbatim>\<open>redis_backed_ops.go\<close>,
    \<^verbatim>\<open>batch_atomic.go\<close>): preset mode, as a step relation between lock sections with its
    invariants (C33 to C35) and as whole operations (C36).  \<open>Batch\<close> (\<^verbatim>\<open>batch.go\<close>): C39.
  \<^item> \<open>V1_Ops\<close> (\<^verbatim>\<open>v1_ops.go\<close>): C21.  \<open>Migration\<close> (\<^verbatim>\<open>migration.go\<close>, \<^verbatim>\<open>schema.go\<close>): C4, C19.
  \<^item> \<open>V3_Dict\<close>, \<open>V3_Manifest\<close>, \<open>V3_Keys\<close>: data, documents, keys and Lua scripts of the
    versioned collection (\<^verbatim>\<open>versioned.go\<close> and the \<^verbatim>\<open>versioned_\<close> files).  \<open>V3_Client\<close> and
    \<open>V3_Reading\<close> to \<open>V3_Atomic\<close>: reading and writing generations, over the locale
    \<open>reading\<close> (what holds of every key that is read while a lease or a lock protects it);
    C40.  \<open>V3_Digest\<close>, \<open>V3_Snapshot\<close>: C2.  \<open>V3_Serve\<close>: C12.  \<open>V3_Open\<close>: C26.
    \<open>V3_Prune\<close>: C37.
  \<^item> \<open>Connection\<close> (\<^verbatim>\<open>client.go\<close>, the construction in \<^verbatim>\<open>acor.go\<close> and \<^verbatim>\<open>redis_backed.go\<close>): the
    server the arguments select; a failed construction leaves no connection open.

  \<^bold>\<open>Groups of lemmas.\<close>  For each store: it is well formed after every operation, and what
  an operation changes and keeps.  For each engine: the walk of the automaton is the longest
  suffix that is a prefix of a keyword, the links are right, the loops end.  For each
  operation on Redis: what each command does to the keys, what other clients cannot undo,
  and from both the instant at which the operation takes effect.  Interference is handled by
  rely and guarantee: a relation that the steps of the others keep (for instance
  \<open>pruneRely\<close>), and for each script of the program a lemma that it keeps the relation.
\<close>

text \<open>
  \<^bold>\<open>Bounds.\<close>  Loops over links and over work lists are structural or have a measure; none
  needs fuel that could run out in a theorem, and the theorems that an operation returns
  say so with \<open>Some\<close>.  The walk of V1 suggestions and the reloads of preset mode can be kept
  busy by others; they are a partial function and a recursion over the list of disturbed
  turns, and C21 and C36 say when they end.  Engines are below \<open>2 ^ 30\<close> states, the limit
  the code checks (\<^verbatim>\<open>requirePackableStateCount\<close>), which also bounds the states of the
  double array that are unbounded numbers here.

  \<^bold>\<open>Parameters.\<close>  Orders of Go maps, the sizing of the Bloom filter (floating point), the
  case and white-space tables of Unicode, clocks, random bytes, the seeded hash of
  \<^verbatim>\<open>hash/maphash\<close> and SHA-256.  What is assumed of them is stated where it is used: an order
  is a permutation, lowering a rune gives a rune, a hash has no collision among the texts
  the property is about.  The last is an idealisation.  C28 needs it for the sums of hashes
  that name an automaton in the memo, C2 and C12 for the digests of the buckets, and C12
  also that a shard manifest is never changed under its identifier.

  \<^bold>\<open>Simplified, with the results unchanged.\<close>  The workers of the parallel search, of staging
  and of building shards run one after the other, since they write disjoint slots; the
  counter of shards under construction is left out.  A command of Redis runs at most once: the
  transport's own retries are not modelled.  A list that may be nil is empty when it is.
  Heaps are lists with the least element first.  A preset outside the declared constants is
  not a value here.  The generation counter of preset mode does not wrap, and one poll is a
  single step.  \<open>initialize\<close> (versioned) takes the metadata to have its four fields, so
  the error for a damaged document is not there.  Documents in Redis are kept as the
  values their JSON decodes to, or as undecodable.

  \<^bold>\<open>Not modelled.\<close>  The goroutines that only schedule modelled steps (the listener of
  messages, the poller, the refresh loop, the renewal of leases) appear as steps or
  arguments; the adapter to the Redis client, logging, metrics, transport, the command line
  and the tools do I/O.

  \<^bold>\<open>What the proofs found.\<close>  Some properties state behaviour that is hardly meant: an
  invalidation that is lost while a cache loads (C30), two clients that create a collection
  (C31), a version stamp that repeats in less than four days (C32), a message lost between a commit
  and its bookkeeping (C34), a keyword that is not valid UTF-8 and cannot be removed (C27).
  The errors of a migration, a rollback or a batch whose reply was lost are part of C4, C19
  and C24.
\<close>

end
